(* ===== verification/Prelude.thy ===== *)
theory Prelude
  imports Main "HOL-Library.Word"
begin

text \<open>
  Shared vocabulary of the development: Unicode text as lists of code points, the operations of
  Rust's \<open>str\<close> that the modelled code calls, the error values of \<open>error.rs\<close>, and the lemmas about
  them that the component theories use.

  A Rust \<open>char\<close> is a Unicode scalar value; it is modelled by its code point, a natural number, and
  \<open>scalar\<close> says which numbers are scalar values. A Rust \<open>str\<close> is the list of its characters.
  Where the code measures text in bytes (\<open>str::len\<close>, \<open>char::len_utf8\<close>) the model uses
  \<open>byte_len\<close>, the length of the UTF-8 form.
\<close>

section \<open>Characters and text\<close>

type_synonym uchar = nat
type_synonym ustring = "uchar list"

abbreviation cp :: "char \<Rightarrow> uchar" where
  "cp c \<equiv> of_char c"

text \<open>The delimiters, by name, so that lemmas about them rewrite.\<close>

abbreviation (input) COLON :: uchar where "COLON \<equiv> 0x3A"
abbreviation (input) SLASH :: uchar where "SLASH \<equiv> 0x2F"
abbreviation (input) QUESTION :: uchar where "QUESTION \<equiv> 0x3F"
abbreviation (input) HASH :: uchar where "HASH \<equiv> 0x23"
abbreviation (input) DOT :: uchar where "DOT \<equiv> 0x2E"
abbreviation (input) AT :: uchar where "AT \<equiv> 0x40"
abbreviation (input) PERCENT :: uchar where "PERCENT \<equiv> 0x25"
abbreviation (input) RBRACKET :: uchar where "RBRACKET \<equiv> 0x5D"
abbreviation (input) LT :: uchar where "LT \<equiv> 0x3C"
abbreviation (input) GT :: uchar where "GT \<equiv> 0x3E"
abbreviation (input) AMP :: uchar where "AMP \<equiv> 0x26"
abbreviation (input) SEMI :: uchar where "SEMI \<equiv> 0x3B"
abbreviation (input) QUOT :: uchar where "QUOT \<equiv> 0x22"
abbreviation (input) APOS :: uchar where "APOS \<equiv> 0x27"

lemma delimiters_cp:
  "COLON = cp CHR '':''" "SLASH = cp CHR ''/''" "QUESTION = cp CHR ''?''" "HASH = cp CHR ''#''"
  "DOT = cp CHR ''.''" "AT = cp CHR ''@''" "PERCENT = cp CHR ''%''" "RBRACKET = cp CHR '']''"
  "LT = cp CHR ''<''" "GT = cp CHR ''>''" "AMP = cp CHR ''&''" "SEMI = cp CHR '';''"
  "QUOT = cp CHR 0x22" "APOS = cp CHR 0x27"
  by simp_all

definition lit :: "string \<Rightarrow> ustring" where
  "lit s = map of_char s"

definition scalar :: "uchar \<Rightarrow> bool" where
  "scalar c \<longleftrightarrow> c < 0xD800 \<or> 0xE000 \<le> c \<and> c < 0x110000"

definition utf8_len :: "uchar \<Rightarrow> nat" where
  "utf8_len c = (if c < 0x80 then 1 else if c < 0x800 then 2 else if c < 0x10000 then 3 else 4)"

definition byte_len :: "ustring \<Rightarrow> nat" where
  "byte_len s = sum_list (map utf8_len s)"

definition is_ascii_alphabetic :: "uchar \<Rightarrow> bool" where
  "is_ascii_alphabetic c \<longleftrightarrow>
     cp CHR ''A'' \<le> c \<and> c \<le> cp CHR ''Z'' \<or> cp CHR ''a'' \<le> c \<and> c \<le> cp CHR ''z''"

definition is_ascii_digit :: "uchar \<Rightarrow> bool" where
  "is_ascii_digit c \<longleftrightarrow> cp CHR ''0'' \<le> c \<and> c \<le> cp CHR ''9''"

definition is_ascii_alphanumeric :: "uchar \<Rightarrow> bool" where
  "is_ascii_alphanumeric c \<longleftrightarrow> is_ascii_alphabetic c \<or> is_ascii_digit c"

definition to_ascii_lower :: "uchar \<Rightarrow> uchar" where
  "to_ascii_lower c = (if cp CHR ''A'' \<le> c \<and> c \<le> cp CHR ''Z'' then c + 32 else c)"

abbreviation to_ascii_lowercase :: "ustring \<Rightarrow> ustring" where
  "to_ascii_lowercase s \<equiv> map to_ascii_lower s"

lemma lit_Nil [simp]: "lit [] = []"
  by (simp add: lit_def)

lemma lit_Cons [simp]: "lit (c # s) = of_char c # lit s"
  by (simp add: lit_def)

lemma utf8_len_pos [simp]: "0 < utf8_len c"
  by (simp add: utf8_len_def)

lemma utf8_len_le_4: "utf8_len c \<le> 4"
  by (simp add: utf8_len_def)

lemma byte_len_simps [simp]:
  "byte_len [] = 0"
  "byte_len (c # s) = utf8_len c + byte_len s"
  "byte_len (s @ t) = byte_len s + byte_len t"
  by (simp_all add: byte_len_def)

lemma byte_len_eq_0 [simp]: "byte_len s = 0 \<longleftrightarrow> s = []"
  by (cases s) auto

lemma byte_len_0_less [simp]: "0 < byte_len s \<longleftrightarrow> s \<noteq> []"
  by (cases s) auto

lemma byte_len_take_le: "byte_len (take n s) \<le> byte_len s"
  by (metis append_take_drop_id byte_len_simps(3) le_add1)

lemma byte_len_ascii: "\<forall>c\<in>set s. c < 0x80 \<Longrightarrow> byte_len s = length s"
  by (induction s) (auto simp: utf8_len_def)

lemma to_ascii_lower_idem [simp]: "to_ascii_lower (to_ascii_lower c) = to_ascii_lower c"
  by (simp add: to_ascii_lower_def)

lemma to_ascii_lowercase_idem [simp]:
  "to_ascii_lowercase (to_ascii_lowercase s) = to_ascii_lowercase s"
  by simp

section \<open>The operations of str\<close>

text \<open>
  \<open>str::strip_prefix\<close>, \<open>starts_with\<close>, \<open>find\<close> of a character and of a substring (as a count of
  characters), \<open>split_once\<close>, \<open>split\<close> on a character, and the two halves that \<open>rfind\<close> cuts.
\<close>

fun strip_prefix :: "'a list \<Rightarrow> 'a list \<Rightarrow> 'a list option" where
  "strip_prefix [] s = Some s"
| "strip_prefix (p # ps) [] = None"
| "strip_prefix (p # ps) (c # s) = (if p = c then strip_prefix ps s else None)"

definition starts_with :: "'a list \<Rightarrow> 'a list \<Rightarrow> bool" where
  "starts_with p s \<longleftrightarrow> strip_prefix p s \<noteq> None"

fun find_sub :: "'a list \<Rightarrow> 'a list \<Rightarrow> nat option" where
  "find_sub p [] = (if p = [] then Some 0 else None)"
| "find_sub p (c # s) =
     (if starts_with p (c # s) then Some 0 else map_option Suc (find_sub p s))"

fun split_once :: "'a \<Rightarrow> 'a list \<Rightarrow> ('a list \<times> 'a list) option" where
  "split_once d [] = None"
| "split_once d (c # s) =
     (if c = d then Some ([], s) else map_option (\<lambda>(a, b). (c # a, b)) (split_once d s))"

fun split_on :: "'a \<Rightarrow> 'a list \<Rightarrow> 'a list list" where
  "split_on d [] = [[]]"
| "split_on d (c # s) =
     (if c = d then [] # split_on d s
      else case split_on d s of [] \<Rightarrow> [[c]] | seg # segs \<Rightarrow> (c # seg) # segs)"

fun join :: "'a list \<Rightarrow> 'a list list \<Rightarrow> 'a list" where
  "join sep [] = []"
| "join sep [x] = x"
| "join sep (x # y # zs) = x @ sep @ join sep (y # zs)"

definition upto_last :: "'a \<Rightarrow> 'a list \<Rightarrow> 'a list" where
  "upto_last d s = rev (dropWhile (\<lambda>c. c \<noteq> d) (rev s))"

definition before_last :: "'a \<Rightarrow> 'a list \<Rightarrow> 'a list" where
  "before_last d s = rev (drop 1 (dropWhile (\<lambda>c. c \<noteq> d) (rev s)))"

definition after_last :: "'a \<Rightarrow> 'a list \<Rightarrow> 'a list" where
  "after_last d s = rev (takeWhile (\<lambda>c. c \<noteq> d) (rev s))"

definition rsplit_once :: "'a \<Rightarrow> 'a list \<Rightarrow> ('a list \<times> 'a list) option" where
  "rsplit_once d s = (if d \<in> set s then Some (before_last d s, after_last d s) else None)"

lemma strip_prefix_Some [simp]: "strip_prefix p s = Some r \<longleftrightarrow> s = p @ r"
  by (induction p s rule: strip_prefix.induct) auto

lemma starts_with_simps [simp]:
  "starts_with [] s"
  "\<not> starts_with (p # ps) []"
  "starts_with (p # ps) (c # s) \<longleftrightarrow> p = c \<and> starts_with ps s"
  by (simp_all add: starts_with_def)

lemma starts_with_iff: "starts_with p s \<longleftrightarrow> (\<exists>r. s = p @ r)"
  by (metis starts_with_def strip_prefix_Some not_None_eq)

lemma starts_with_append_self [simp]: "starts_with p (p @ r)"
  by (auto simp: starts_with_iff)

lemma strip_prefix_None: "strip_prefix p s = None \<longleftrightarrow> \<not> starts_with p s"
  by (metis starts_with_def)

lemma starts_with_append: "starts_with p s \<Longrightarrow> starts_with p (s @ t)"
  by (auto simp: starts_with_iff)

lemma starts_with_append_short:
  "length p \<le> length s \<Longrightarrow> starts_with p (s @ t) \<longleftrightarrow> starts_with p s"
  by (induction p s rule: strip_prefix.induct) auto

lemma starts_with_length: "starts_with p s \<Longrightarrow> length p \<le> length s"
  by (auto simp: starts_with_iff)

lemma find_sub_Some_split:
  "find_sub p s = Some i \<Longrightarrow> i + length p \<le> length s \<and> starts_with p (drop i s)"
  by (induction p s arbitrary: i rule: find_sub.induct)
     (auto split: if_splits dest: starts_with_length)

lemma find_sub_Some_first:
  "find_sub p s = Some i \<Longrightarrow> j < i \<Longrightarrow> \<not> starts_with p (drop j s)"
proof (induction p s arbitrary: i j rule: find_sub.induct)
  case (2 p c s)
  then show ?case by (cases j) (auto split: if_splits)
qed (auto split: if_splits)

lemma find_sub_None:
  "find_sub p s = None \<longleftrightarrow> (\<forall>i\<le>length s. \<not> starts_with p (drop i s))"
proof (induction p s rule: find_sub.induct)
  case (1 p)
  then show ?case by (cases p) auto
next
  case (2 p c s)
  have "(\<forall>i\<le>length (c # s). \<not> starts_with p (drop i (c # s))) \<longleftrightarrow>
      \<not> starts_with p (c # s) \<and> (\<forall>i\<le>length s. \<not> starts_with p (drop i s))" (is "?l \<longleftrightarrow> ?r")
  proof
    assume ?l
    then show ?r by (metis Suc_le_mono drop0 drop_Suc_Cons length_Cons zero_le)
  next
    assume r: ?r
    show ?l
    proof (intro allI impI)
      fix i assume "i \<le> length (c # s)"
      with r show "\<not> starts_with p (drop i (c # s))" by (cases i) auto
    qed
  qed
  with 2 show ?case by (simp split: if_splits)
qed

lemma find_sub_append: "find_sub p s = Some i \<Longrightarrow> find_sub p (s @ t) = Some i"
proof (induction p s arbitrary: i rule: find_sub.induct)
  case (1 p)
  then show ?case by (cases t) (auto split: if_splits)
next
  case (2 p c s)
  show ?case
  proof (cases "starts_with p (c # s)")
    case True
    with 2 show ?thesis using starts_with_append [of p "c # s" t] by simp
  next
    case False
    with 2 obtain k where k: "find_sub p s = Some k" "i = Suc k" by auto
    have "length p \<le> length (c # s)"
      using find_sub_Some_split [OF k(1)] by simp
    with False have "\<not> starts_with p (c # s @ t)"
      using starts_with_append_short [of p "c # s" t] by simp
    with 2(1) [OF False k(1)] k(2) show ?thesis by simp
  qed
qed

lemma split_once_None [simp]: "split_once d s = None \<longleftrightarrow> d \<notin> set s"
  by (induction s) auto

lemma split_once_free [simp]: "d \<notin> set s \<Longrightarrow> split_once d s = None"
  by simp

lemma split_once_Some: "split_once d s = Some (a, b) \<longleftrightarrow> s = a @ d # b \<and> d \<notin> set a"
proof (induction s arbitrary: a)
  case (Cons c s)
  then show ?case by (cases a) auto
qed simp

lemma split_once_append [simp]: "d \<notin> set a \<Longrightarrow> split_once d (a @ d # b) = Some (a, b)"
  by (simp add: split_once_Some)

lemma split_on_not_Nil [simp]: "split_on d s \<noteq> []"
  by (induction s) (auto split: list.splits)

lemma split_on_free: "d \<notin> set s \<Longrightarrow> split_on d s = [s]"
  by (induction s) auto

lemma split_on_append [simp]:
  "d \<notin> set a \<Longrightarrow> split_on d (a @ d # b) = a # split_on d b"
  by (induction a) auto

lemma split_on_segments: "seg \<in> set (split_on d s) \<Longrightarrow> d \<notin> set seg"
  by (induction s arbitrary: seg) (auto split: list.splits if_splits)

lemma join_Cons: "xs \<noteq> [] \<Longrightarrow> join sep (x # xs) = x @ sep @ join sep xs"
  by (cases xs) auto

lemma join_append:
  "xs \<noteq> [] \<Longrightarrow> ys \<noteq> [] \<Longrightarrow> join sep (xs @ ys) = join sep xs @ sep @ join sep ys"
  by (induction xs rule: list_nonempty_induct) (auto simp: join_Cons)

lemma join_split_on [simp]: "join [d] (split_on d s) = s"
proof (induction s)
  case (Cons c s)
  obtain seg segs where "split_on d s = seg # segs"
    by (meson split_on_not_Nil neq_Nil_conv)
  with Cons show ?case by (cases segs) (auto simp: join_Cons)
qed simp

lemma split_on_join:
  "segs \<noteq> [] \<Longrightarrow> \<forall>seg\<in>set segs. d \<notin> set seg \<Longrightarrow> split_on d (join [d] segs) = segs"
  by (induction segs rule: list_nonempty_induct) (auto simp: join_Cons split_on_free)

lemma upto_last_after_last [simp]: "upto_last d s @ after_last d s = s"
  by (simp add: upto_last_def after_last_def flip: rev_append)

lemma after_last_free [simp]: "d \<notin> set (after_last d s)"
  by (auto simp: after_last_def dest: set_takeWhileD)

lemma takeWhile_neq_free [simp]:
  "d \<notin> set b \<Longrightarrow> takeWhile (\<lambda>c. c \<noteq> d) (b @ d # r) = b"
  "d \<notin> set b \<Longrightarrow> takeWhile (\<lambda>c. c \<noteq> d) b = b"
  by (induction b) auto

lemma dropWhile_neq_free [simp]:
  "d \<notin> set b \<Longrightarrow> dropWhile (\<lambda>c. c \<noteq> d) (b @ d # r) = d # r"
  "d \<notin> set b \<Longrightarrow> dropWhile (\<lambda>c. c \<noteq> d) b = []"
  by (induction b) auto

lemma last_append [simp]:
  "d \<notin> set b \<Longrightarrow> upto_last d (a @ d # b) = a @ [d]"
  "d \<notin> set b \<Longrightarrow> before_last d (a @ d # b) = a"
  "d \<notin> set b \<Longrightarrow> after_last d (a @ d # b) = b"
  by (simp_all add: upto_last_def before_last_def after_last_def)

lemma last_free [simp]:
  "d \<notin> set s \<Longrightarrow> upto_last d s = []"
  "d \<notin> set s \<Longrightarrow> before_last d s = []"
  "d \<notin> set s \<Longrightarrow> after_last d s = s"
  by (simp_all add: upto_last_def before_last_def after_last_def)

lemma rsplit_once_Some: "rsplit_once d s = Some (a, b) \<longleftrightarrow> s = a @ d # b \<and> d \<notin> set b"
proof
  assume r: "rsplit_once d s = Some (a, b)"
  then have "d \<in> set s" by (simp add: rsplit_once_def split: if_splits)
  then obtain x y where "s = x @ d # y" "d \<notin> set y" by (meson split_list_last)
  with r show "s = a @ d # b \<and> d \<notin> set b" by (auto simp: rsplit_once_def)
qed (auto simp: rsplit_once_def)

lemma rsplit_once_None [simp]: "rsplit_once d s = None \<longleftrightarrow> d \<notin> set s"
  by (simp add: rsplit_once_def)

section \<open>Errors\<close>

text \<open>
  The variants of \<open>error::Error\<close> that the modelled code returns. The message and the location are
  diagnostics and are not modelled; the fields that code reads (the byte offset of a decoding
  fault, the DOM exception) are kept.
\<close>

datatype exception_code =
  INDEX_SIZE_ERR | DOMSTRING_SIZE_ERR | HIERARCHY_REQUEST_ERR | WRONG_DOCUMENT_ERR
| INVALID_CHARACTER_ERR | NO_DATA_ALLOWED_ERR | NO_MODIFICATION_ALLOWED_ERR | NOT_FOUND_ERR
| NOT_SUPPORTED_ERR | INUSE_ATTRIBUTE_ERR | INVALID_STATE_ERR | SYNTAX_ERR
| INVALID_MODIFICATION_ERR | NAMESPACE_ERR | INVALID_ACCESS_ERR | VALIDATION_ERR
| TYPE_MISMATCH_ERR

datatype error =
  Io
| Resolver
| Encoding "nat option"
| Uri_Error
| Name_Error
| WellFormedness
| Validity
| Dom_Error exception_code
| Namespace_Error
| Limit
| XInclude_Error
| XPointer_Error
| XPath_Error
| Xslt_Error
| UnsupportedFeature
| Internal

type_synonym 'a result = "error + 'a"

end
