(* ===== verification/Utf8.thy ===== *)
theory Utf8
  imports Prelude
begin

text \<open>
  UTF-8 as Rust's standard library defines it: \<open>char::encode_utf8\<close> and the validation
  \<open>str::from_utf8\<close> performs, with the two numbers its error carries (\<open>valid_up_to\<close> and
  \<open>error_len\<close>). The modelled code calls both, from the UTF-8 decoder, the encoders, the URI
  escaping and percent normalisation. Bytes are 8-bit words; a decoded character is its code point.

  The lemmas show that decoding inverts encoding on Unicode scalar values, that the decoder only
  yields scalar values, and how decoding behaves when the input is cut in two.
\<close>

type_synonym byte = "8 word"

lemma byte_bound: "unat (b :: byte) < 256"
  using unsigned_less [of b] by simp

text \<open>Rust's \<open>as u8\<close> on a number: the byte with its low eight bits.\<close>

definition byte_of :: "nat \<Rightarrow> byte" where
  "byte_of n = of_nat n"

lemma unat_byte_of [simp]: "n < 256 \<Longrightarrow> unat (byte_of n) = n"
  by (simp add: byte_of_def unat_of_nat)

lemma byte_of_unat [simp]: "byte_of (unat b) = b"
  by (simp add: byte_of_def)

section \<open>Encoding\<close>

definition utf8_encode_char :: "uchar \<Rightarrow> byte list" where
  "utf8_encode_char c =
     (if c < 0x80 then [byte_of c]
      else if c < 0x800 then [byte_of (0xC0 + c div 64), byte_of (0x80 + c mod 64)]
      else if c < 0x10000 then
        [byte_of (0xE0 + c div 4096), byte_of (0x80 + c div 64 mod 64), byte_of (0x80 + c mod 64)]
      else
        [byte_of (0xF0 + c div 262144), byte_of (0x80 + c div 4096 mod 64),
         byte_of (0x80 + c div 64 mod 64), byte_of (0x80 + c mod 64)])"

definition utf8_encode :: "ustring \<Rightarrow> byte list" where
  "utf8_encode s = concat (map utf8_encode_char s)"

lemma utf8_encode_simps [simp]:
  "utf8_encode [] = []"
  "utf8_encode (c # s) = utf8_encode_char c @ utf8_encode s"
  "utf8_encode (s @ t) = utf8_encode s @ utf8_encode t"
  by (simp_all add: utf8_encode_def)

lemma length_utf8_encode_char [simp]: "length (utf8_encode_char c) = utf8_len c"
  by (simp add: utf8_encode_char_def utf8_len_def)

lemma length_utf8_encode [simp]: "length (utf8_encode s) = byte_len s"
  by (induction s) auto

lemma utf8_encode_char_not_Nil [simp]: "utf8_encode_char c \<noteq> []"
  by (simp add: utf8_encode_char_def)

lemma utf8_encode_char_ascii: "c < 0x80 \<Longrightarrow> utf8_encode_char c = [byte_of c]"
  by (simp add: utf8_encode_char_def)

section \<open>One step of validation\<close>

text \<open>
  What stands at the front of a byte sequence: a scalar value and the bytes it takes, a sequence
  the input merely ends in, or a malformed one with the length \<open>error_len\<close> reports for it. The
  second byte has a tighter range after \<open>E0\<close>, \<open>ED\<close>, \<open>F0\<close> and \<open>F4\<close>, which is what excludes
  overlong forms, surrogates and values past \<open>10FFFF\<close>.
\<close>

datatype utf8_item = Scalar uchar nat | Truncated | Malformed nat

definition second_range :: "nat \<Rightarrow> nat \<times> nat" where
  "second_range x = (if x = 0xE0 then (0xA0, 0xBF) else if x = 0xED then (0x80, 0x9F)
     else if x = 0xF0 then (0x90, 0xBF) else if x = 0xF4 then (0x80, 0x8F) else (0x80, 0xBF))"

definition in_second :: "nat \<Rightarrow> byte \<Rightarrow> bool" where
  "in_second x b \<longleftrightarrow> fst (second_range x) \<le> unat b \<and> unat b \<le> snd (second_range x)"

definition is_cont :: "byte \<Rightarrow> bool" where
  "is_cont b \<longleftrightarrow> 0x80 \<le> unat b \<and> unat b \<le> 0xBF"

definition utf8_next :: "byte \<Rightarrow> byte list \<Rightarrow> utf8_item" where
  "utf8_next b0 r =
     (let x = unat b0 in
      if x < 0x80 then Scalar x 1
      else if 0xC2 \<le> x \<and> x \<le> 0xDF then
        (case r of [] \<Rightarrow> Truncated
         | b1 # _ \<Rightarrow> if in_second x b1 then Scalar ((x - 0xC0) * 64 + (unat b1 - 0x80)) 2
                     else Malformed 1)
      else if 0xE0 \<le> x \<and> x \<le> 0xEF then
        (case r of [] \<Rightarrow> Truncated
         | b1 # r1 \<Rightarrow> if \<not> in_second x b1 then Malformed 1 else
             (case r1 of [] \<Rightarrow> Truncated
              | b2 # _ \<Rightarrow> if is_cont b2
                  then Scalar ((x - 0xE0) * 4096 + (unat b1 - 0x80) * 64 + (unat b2 - 0x80)) 3
                  else Malformed 2))
      else if 0xF0 \<le> x \<and> x \<le> 0xF4 then
        (case r of [] \<Rightarrow> Truncated
         | b1 # r1 \<Rightarrow> if \<not> in_second x b1 then Malformed 1 else
             (case r1 of [] \<Rightarrow> Truncated
              | b2 # r2 \<Rightarrow> if \<not> is_cont b2 then Malformed 2 else
                  (case r2 of [] \<Rightarrow> Truncated
                   | b3 # _ \<Rightarrow> if is_cont b3
                       then Scalar ((x - 0xF0) * 262144 + (unat b1 - 0x80) * 4096
                              + (unat b2 - 0x80) * 64 + (unat b3 - 0x80)) 4
                       else Malformed 3)))
      else Malformed 1)"

lemma utf8_next_width: "utf8_next b r = Scalar c n \<Longrightarrow> 0 < n \<and> n \<le> Suc (length r) \<and> n \<le> 4"
  by (auto simp: utf8_next_def Let_def split: list.splits if_splits)

text \<open>More input never changes what a complete or malformed sequence is.\<close>

lemma utf8_next_append: "utf8_next b r \<noteq> Truncated \<Longrightarrow> utf8_next b (r @ t) = utf8_next b r"
  by (auto simp: utf8_next_def Let_def split: list.splits if_splits)

lemma utf8_next_truncated_length: "utf8_next b r = Truncated \<Longrightarrow> length r \<le> 2"
  by (auto simp: utf8_next_def Let_def split: list.splits if_splits)

text \<open>The shape of a complete sequence, one case per width.\<close>

lemma utf8_next_cases [consumes 1, case_names one two three four]:
  assumes "utf8_next b r = Scalar c n"
  obtains "n = 1" "unat b = c" "c < 0x80"
  | w b1 x r' where "n = 2" "r = b1 # r'" "unat b = 0xC0 + w" "unat b1 = 0x80 + x"
      "2 \<le> w" "w < 32" "x < 64" "c = 64 * w + x"
  | w b1 x b2 y r' where "n = 3" "r = b1 # b2 # r'" "unat b = 0xE0 + w" "unat b1 = 0x80 + x"
      "unat b2 = 0x80 + y" "w < 16" "x < 64" "y < 64" "w = 0 \<longrightarrow> 32 \<le> x" "w = 13 \<longrightarrow> x < 32"
      "c = 4096 * w + 64 * x + y"
  | w b1 x b2 y b3 z r' where "n = 4" "r = b1 # b2 # b3 # r'" "unat b = 0xF0 + w" "unat b1 = 0x80 + x"
      "unat b2 = 0x80 + y" "unat b3 = 0x80 + z" "w \<le> 4" "x < 64" "y < 64" "z < 64"
      "w = 0 \<longrightarrow> 16 \<le> x" "w = 4 \<longrightarrow> x < 16" "c = 262144 * w + 4096 * x + 64 * y + z"
proof -
  have cont: "\<exists>x. unat v = 0x80 + x \<and> x < 64" if "0x80 \<le> unat v" "unat v \<le> 0xBF" for v :: byte
    using that by (intro exI [of _ "unat v - 0x80"]) simp
  have sec: "\<exists>x. unat v = 0x80 + x \<and> x < 64" if "in_second k v" for v k
    using that by (intro cont) (auto simp: in_second_def second_range_def split: if_splits)
  consider (a) "unat b < 0x80" | (b) "0xC2 \<le> unat b" "unat b \<le> 0xDF"
    | (c) "0xE0 \<le> unat b" "unat b \<le> 0xEF" | (d) "0xF0 \<le> unat b" "unat b \<le> 0xF4"
    using assms by (force simp: utf8_next_def Let_def split: if_splits)
  then show ?thesis
  proof cases
    case a
    with assms show ?thesis by (intro that(1)) (auto simp: utf8_next_def)
  next
    case b
    with assms obtain b1 r' where r: "r = b1 # r'" and s: "in_second (unat b) b1"
      and c: "n = 2" "c = (unat b - 0xC0) * 64 + (unat b1 - 0x80)"
      by (auto simp: utf8_next_def Let_def split: list.splits if_splits)
    obtain w where w: "unat b = 0xC0 + w"
      using b le_Suc_ex [of "0xC0" "unat b"] by auto
    obtain x where "unat b1 = 0x80 + x" "x < 64" using sec [OF s] by blast
    with w b r c show ?thesis by (intro that(2) [of b1 r' w x]) auto
  next
    case c
    with assms obtain b1 b2 r' where r: "r = b1 # b2 # r'" and s: "in_second (unat b) b1" "is_cont b2"
      and c: "n = 3" "c = (unat b - 0xE0) * 4096 + (unat b1 - 0x80) * 64 + (unat b2 - 0x80)"
      by (auto simp: utf8_next_def Let_def split: list.splits if_splits)
    obtain w where w: "unat b = 0xE0 + w" using \<open>0xE0 \<le> unat b\<close> by (metis le_iff_add)
    obtain x where x: "unat b1 = 0x80 + x" "x < 64" using sec [OF s(1)] by blast
    obtain y where y: "unat b2 = 0x80 + y" "y < 64" using cont s(2) by (auto simp: is_cont_def)
    have "w = 0 \<longrightarrow> 32 \<le> x" "w = 13 \<longrightarrow> x < 32"
      using s(1) w x by (auto simp: in_second_def second_range_def)
    with w x y r c \<open>unat b \<le> 0xEF\<close> show ?thesis by (intro that(3) [of b1 b2 r' w x y]) auto
  next
    case d
    with assms obtain b1 b2 b3 r' where r: "r = b1 # b2 # b3 # r'"
      and s: "in_second (unat b) b1" "is_cont b2" "is_cont b3"
      and c: "n = 4" "c = (unat b - 0xF0) * 262144 + (unat b1 - 0x80) * 4096
        + (unat b2 - 0x80) * 64 + (unat b3 - 0x80)"
      by (auto simp: utf8_next_def Let_def split: list.splits if_splits)
    obtain w where w: "unat b = 0xF0 + w" using d by (metis le_iff_add)
    obtain x where x: "unat b1 = 0x80 + x" "x < 64" using sec [OF s(1)] by blast
    obtain y where y: "unat b2 = 0x80 + y" "y < 64" using cont s(2) by (auto simp: is_cont_def)
    obtain z where z: "unat b3 = 0x80 + z" "z < 64" using cont s(3) by (auto simp: is_cont_def)
    have "w = 0 \<longrightarrow> 16 \<le> x" "w = 4 \<longrightarrow> x < 16"
      using s(1) w x by (auto simp: in_second_def second_range_def)
    with w x y z r c d show ?thesis by (intro that(4) [of b1 b2 b3 r' w x y z]) auto
  qed
qed

lemma utf8_next_scalar:
  assumes "utf8_next b r = Scalar c n"
  shows "scalar c"
  using assms
proof (cases rule: utf8_next_cases)
  case (three w b1 x b2 y r')
  then have "w < 13 \<or> w = 13 \<and> x < 32 \<or> 14 \<le> w" by auto
  with three show ?thesis by (auto simp: scalar_def)
qed (auto simp: scalar_def)

lemma div_mod_digits:
  "x < 64 \<Longrightarrow> (64 * w + x) div 64 = (w::nat)"
  "x < 64 \<Longrightarrow> (64 * w + x) mod 64 = (x::nat)"
  by auto

lemma utf8_encode_two:
  assumes "2 \<le> w" "w < 32" "x < 64"
  shows "utf8_encode_char (64 * w + x) = [byte_of (0xC0 + w), byte_of (0x80 + x)]"
proof -
  have "0x80 \<le> 64 * w + x" "64 * w + x < 0x800" using assms by auto
  then show ?thesis by (simp add: utf8_encode_char_def div_mod_digits assms)
qed

lemma digits3: "4096 * w + 64 * x + y = 64 * (64 * w + x) + (y::nat)"
  "262144 * v + 4096 * w + 64 * x + y = 64 * (64 * (64 * v + w) + x) + (y::nat)"
  by simp_all

lemma digit_positions:
  assumes "x < 64" "y < 64" "z < (64::nat)"
  shows "(64 * (64 * w + x) + y) div 4096 = w" "(64 * (64 * w + x) + y) div 64 mod 64 = x"
    "(64 * (64 * (64 * w + x) + y) + z) div 4096 mod 64 = x"
    "(64 * (64 * (64 * w + x) + y) + z) div 262144 = w"
proof -
  have e: "n div 4096 = n div 64 div 64" "n div 262144 = n div 64 div 64 div 64" for n :: nat
    by (simp_all flip: div_mult2_eq)
  show "(64 * (64 * w + x) + y) div 4096 = w" "(64 * (64 * w + x) + y) div 64 mod 64 = x"
    "(64 * (64 * (64 * w + x) + y) + z) div 4096 mod 64 = x"
    "(64 * (64 * (64 * w + x) + y) + z) div 262144 = w"
    unfolding e div_mod_digits(1) [OF assms(2)] div_mod_digits(1) [OF assms(3)]
      div_mod_digits(1) [OF assms(1)] div_mod_digits(2) [OF assms(1)] by (rule refl)+
qed

lemma utf8_encode_three:
  assumes "w < 16" "x < 64" "y < 64" "w = 0 \<longrightarrow> 32 \<le> x"
  shows "utf8_encode_char (4096 * w + 64 * x + y) =
    [byte_of (0xE0 + w), byte_of (0x80 + x), byte_of (0x80 + y)]"
proof -
  define c where "c = 64 * (64 * w + x) + y"
  have "0x800 \<le> c" "c < 0x10000" using assms by (auto simp: c_def)
  moreover have "c div 4096 = w" "c div 64 mod 64 = x" "c mod 64 = y"
    unfolding c_def by (simp_all only: digit_positions [OF assms(2,3,3)] div_mod_digits [OF assms(3)]
        div_mod_digits [OF assms(2)])
  ultimately have "utf8_encode_char c = [byte_of (0xE0 + w), byte_of (0x80 + x), byte_of (0x80 + y)]"
    by (simp add: utf8_encode_char_def)
  then show ?thesis by (simp only: c_def digits3)
qed

lemma utf8_encode_four:
  assumes "w \<le> 4" "x < 64" "y < 64" "z < 64" "w = 0 \<longrightarrow> 16 \<le> x"
  shows "utf8_encode_char (262144 * w + 4096 * x + 64 * y + z) =
    [byte_of (0xF0 + w), byte_of (0x80 + x), byte_of (0x80 + y), byte_of (0x80 + z)]"
proof -
  define c where "c = 64 * (64 * (64 * w + x) + y) + z"
  have "0x10000 \<le> c" using assms by (auto simp: c_def)
  moreover have "c div 262144 = w" "c div 4096 mod 64 = x" "c div 64 mod 64 = y" "c mod 64 = z"
    unfolding c_def
    by (simp_all only: digit_positions [OF assms(2,3,4)] div_mod_digits [OF assms(4)]
        div_mod_digits [OF assms(3)])
  ultimately have "utf8_encode_char c =
      [byte_of (0xF0 + w), byte_of (0x80 + x), byte_of (0x80 + y), byte_of (0x80 + z)]"
    by (simp add: utf8_encode_char_def)
  then show ?thesis by (simp only: c_def digits3)
qed

text \<open>A complete sequence is the encoding of the character it stands for.\<close>

lemma utf8_next_decode:
  assumes "utf8_next b r = Scalar c n"
  shows "take n (b # r) = utf8_encode_char c"
  using assms
proof (cases rule: utf8_next_cases)
  case one
  then show ?thesis using byte_of_unat [of b] by (simp add: utf8_encode_char_ascii)
next
  case (two w b1 x r')
  then have "b = byte_of (0xC0 + w)" "b1 = byte_of (0x80 + x)"
    using byte_of_unat by metis+
  with two show ?thesis by (simp add: utf8_encode_two)
next
  case (three w b1 x b2 y r')
  then have "b = byte_of (0xE0 + w)" "b1 = byte_of (0x80 + x)" "b2 = byte_of (0x80 + y)"
    using byte_of_unat by metis+
  then show ?thesis
    unfolding three(1,2,11) utf8_encode_three [OF three(6-9)] by simp
next
  case (four w b1 x b2 y b3 z r')
  then have "b = byte_of (0xF0 + w)" "b1 = byte_of (0x80 + x)" "b2 = byte_of (0x80 + y)"
    "b3 = byte_of (0x80 + z)"
    using byte_of_unat by metis+
  then show ?thesis
    unfolding four(1,2,13) utf8_encode_four [OF four(7-11)] by simp
qed

section \<open>Validation of a whole sequence\<close>

text \<open>
  The outcome of \<open>str::from_utf8\<close>: \<open>Ok\<close>, or its error with \<open>error_len\<close> absent (the input ends
  inside a sequence) or present. Along with it comes the text of the valid prefix; its byte length
  is \<open>valid_up_to\<close>.
\<close>

datatype utf8_end = Valid | Error_Len "nat option"

function from_utf8 :: "byte list \<Rightarrow> ustring \<times> utf8_end" where
  "from_utf8 bs =
     (case bs of [] \<Rightarrow> ([], Valid)
      | b # r \<Rightarrow>
          (case utf8_next b r of
             Scalar c n \<Rightarrow> (case from_utf8 (drop n bs) of (s, e) \<Rightarrow> (c # s, e))
           | Truncated \<Rightarrow> ([], Error_Len None)
           | Malformed n \<Rightarrow> ([], Error_Len (Some n))))"
  by pat_completeness auto
termination
  by (relation "measure length") (auto dest: utf8_next_width)

declare from_utf8.simps [simp del]

lemma from_utf8_Nil [simp]: "from_utf8 [] = ([], Valid)"
  by (simp add: from_utf8.simps)

lemma from_utf8_Cons:
  "from_utf8 (b # r) =
     (case utf8_next b r of
        Scalar c n \<Rightarrow> (case from_utf8 (drop n (b # r)) of (s, e) \<Rightarrow> (c # s, e))
      | Truncated \<Rightarrow> ([], Error_Len None)
      | Malformed n \<Rightarrow> ([], Error_Len (Some n)))"
  by (subst from_utf8.simps) simp


text \<open>And the encoding of a scalar value is read back as that value.\<close>

lemma utf8_next_encode:
  assumes "scalar c" "utf8_encode_char c = b # t"
  shows "utf8_next b (t @ r) = Scalar c (utf8_len c)"
proof -
  have "c < 0x80 \<or> 0x80 \<le> c \<and> c < 0x800 \<or> 0x800 \<le> c \<and> c < 0x10000
      \<or> 0x10000 \<le> c \<and> c < 0x110000"
    using assms(1) by (auto simp: scalar_def)
  then consider "c < 0x80" | "0x80 \<le> c" "c < 0x800" | "0x800 \<le> c" "c < 0x10000"
    | "0x10000 \<le> c" "c < 0x110000"
    by blast
  then show ?thesis
  proof cases
    case 1
    with assms(2) show ?thesis by (auto simp: utf8_encode_char_def utf8_next_def utf8_len_def)
  next
    case 2
    define w x where "w = c div 64" and "x = c mod 64"
    have c: "c = 64 * w + x" "x < 64" by (simp_all add: w_def x_def)
    have w: "2 \<le> w" "w < 32" using 2 by (auto simp: w_def)
    show ?thesis using assms(2) w c(2)
      unfolding c(1) utf8_encode_two [OF w c(2)]
      by (auto simp: utf8_next_def utf8_len_def in_second_def second_range_def)
  next
    case 3
    define w x y where "w = c div 64 div 64" and "x = c div 64 mod 64" and "y = c mod 64"
    have c: "c = 4096 * w + 64 * x + y"
      using div_mult_mod_eq [of c 64] div_mult_mod_eq [of "c div 64" 64]
      unfolding w_def x_def y_def by linarith
    have b: "x < 64" "y < 64" by (simp_all add: x_def y_def)
    have w: "w < 16" using 3(2) c by linarith
    have x: "w = 0 \<longrightarrow> 32 \<le> x" "w = 13 \<longrightarrow> x < 32"
      using 3(1) assms(1) c b by (auto simp: scalar_def)
    have "in_second (0xE0 + w) (byte_of (0x80 + x))" "is_cont (byte_of (0x80 + y))"
      using b w x by (auto simp: in_second_def second_range_def is_cont_def)
    then show ?thesis using assms(2) w b 3
      unfolding c utf8_encode_three [OF w b x(1)]
      by (auto simp: utf8_next_def utf8_len_def)
  next
    case 4
    define w x y z where "w = c div 64 div 64 div 64" and "x = c div 64 div 64 mod 64"
      and "y = c div 64 mod 64" and "z = c mod 64"
    have c: "c = 262144 * w + 4096 * x + 64 * y + z"
      using div_mult_mod_eq [of c 64] div_mult_mod_eq [of "c div 64" 64]
        div_mult_mod_eq [of "c div 64 div 64" 64]
      unfolding w_def x_def y_def z_def by linarith
    have b: "x < 64" "y < 64" "z < 64" by (simp_all add: x_def y_def z_def)
    have w: "w \<le> 4" using 4(2) c by linarith
    have x: "w = 0 \<longrightarrow> 16 \<le> x" "w = 4 \<longrightarrow> x < 16"
      using 4 c b by auto
    have "in_second (0xF0 + w) (byte_of (0x80 + x))" "is_cont (byte_of (0x80 + y))"
      "is_cont (byte_of (0x80 + z))"
      using b w x by (auto simp: in_second_def second_range_def is_cont_def)
    then show ?thesis using assms(2) w b 4
      unfolding c utf8_encode_four [OF w b x(1)]
      by (auto simp: utf8_next_def utf8_len_def)
  qed
qed

section \<open>Validation and encoding\<close>

lemma from_utf8_scalars: "from_utf8 bs = (s, e) \<Longrightarrow> list_all scalar s"
proof (induction bs arbitrary: s rule: from_utf8.induct)
  case (1 bs)
  show ?case
  proof (cases bs)
    case (Cons b r)
    with 1 show ?thesis
      by (auto simp: from_utf8_Cons utf8_next_scalar split: utf8_item.splits prod.splits)
  qed (use 1 in simp)
qed

text \<open>
  \<open>utf8_tail e r\<close>: what may be left after the valid prefix, for each outcome: nothing, the start of
  a sequence that more input may complete, or a sequence no input can complete.
\<close>

fun utf8_tail :: "utf8_end \<Rightarrow> byte list \<Rightarrow> bool" where
  "utf8_tail Valid r = (r = [])"
| "utf8_tail (Error_Len None) r = (case r of [] \<Rightarrow> False | b # t \<Rightarrow> utf8_next b t = Truncated)"
| "utf8_tail (Error_Len (Some n)) r = (case r of [] \<Rightarrow> False | b # t \<Rightarrow> utf8_next b t = Malformed n)"

lemma utf8_tail_Error [simp]:
  "utf8_tail (Error_Len None) r \<longleftrightarrow> (\<exists>b t. r = b # t \<and> utf8_next b t = Truncated)"
  "utf8_tail (Error_Len (Some n)) r \<longleftrightarrow> (\<exists>b t. r = b # t \<and> utf8_next b t = Malformed n)"
  by (cases r; simp)+

declare utf8_tail.simps(2,3) [simp del]

lemma from_utf8_split:
  "from_utf8 bs = (s, e) \<Longrightarrow> \<exists>r. bs = utf8_encode s @ r \<and> utf8_tail e r"
proof (induction bs arbitrary: s rule: from_utf8.induct)
  case (1 bs)
  show ?case
  proof (cases bs)
    case Nil
    with 1 show ?thesis by simp
  next
    case (Cons b t)
    show ?thesis
    proof (cases "utf8_next b t")
      case (Scalar c n)
      obtain s' where s': "from_utf8 (drop n (b # t)) = (s', e)" "s = c # s'"
        using 1(2) Cons Scalar by (auto simp: from_utf8_Cons split: prod.splits)
      then obtain r where "drop n (b # t) = utf8_encode s' @ r" "utf8_tail e r"
        using 1(1) Cons Scalar by blast
      then show ?thesis
        using s'(2) Cons utf8_next_decode [OF Scalar] append_take_drop_id [of n "b # t"]
        by (metis append.assoc utf8_encode_simps(2))
    qed (use 1(2) Cons in \<open>auto simp: from_utf8_Cons\<close>)
  qed
qed

lemma from_utf8_encode_append:
  "list_all scalar s \<Longrightarrow>
     from_utf8 (utf8_encode s @ r) = (s @ fst (from_utf8 r), snd (from_utf8 r))"
proof (induction s)
  case (Cons c s)
  obtain b t where bt: "utf8_encode_char c = b # t"
    by (meson utf8_encode_char_not_Nil neq_Nil_conv)
  have n: "utf8_next b (t @ utf8_encode s @ r) = Scalar c (utf8_len c)"
    using Cons.prems bt by (intro utf8_next_encode) auto
  have "drop (utf8_len c) (b # t @ utf8_encode s @ r) = utf8_encode s @ r"
    using bt length_utf8_encode_char [of c] by (metis append_Cons append_eq_conv_conj)
  with n bt Cons show ?case by (simp add: from_utf8_Cons)
qed simp

lemma from_utf8_encode [simp]: "list_all scalar s \<Longrightarrow> from_utf8 (utf8_encode s) = (s, Valid)"
  using from_utf8_encode_append [of s "[]"] by simp

lemma from_utf8_malformed_append:
  assumes "from_utf8 bs = (s, Error_Len (Some n))"
  shows "from_utf8 (bs @ t) = (s, Error_Len (Some n))"
proof -
  obtain b r where r: "bs = utf8_encode s @ b # r" "utf8_next b r = Malformed n"
    using from_utf8_split [OF assms] by auto
  then have "utf8_next b (r @ t) = Malformed n" by (simp add: utf8_next_append)
  with r from_utf8_scalars [OF assms] show ?thesis
    by (simp add: from_utf8_encode_append from_utf8_Cons)
qed

lemma from_utf8_truncated_append:
  assumes "from_utf8 bs = (s, Error_Len None)"
  shows "\<exists>r. bs = utf8_encode s @ r \<and> r \<noteq> [] \<and> length r \<le> 3"
  using from_utf8_split [OF assms] utf8_next_truncated_length by fastforce

lemma from_utf8_Valid: "from_utf8 bs = (s, Valid) \<Longrightarrow> bs = utf8_encode s"
  using from_utf8_split by fastforce

lemma utf8_encode_inj:
  "list_all scalar s \<Longrightarrow> list_all scalar t \<Longrightarrow> utf8_encode s = utf8_encode t \<longleftrightarrow> s = t"
  by (metis from_utf8_encode fst_conv)

end
