(* ===== verification/Decoders.thy ===== *)
theory Decoders
  imports Utf8
begin

text \<open>
  The decoders every XML processor must have, \<open>io/encoding/builtin.rs\<close>: UTF-8, UTF-16 (with its
  byte order fixed or read from a leading mark), US-ASCII and ISO-8859-1, and the registry that
  finds one by its label, \<open>io/encoding.rs\<close>.

  A decoder is called with the bytes at hand and the flag \<open>last\<close>; it appends text to the caller's
  string and returns how many bytes it consumed. In the model \<open>decode st src final\<close> returns the
  decoder's new state, the text it appended (also on an error) and the error or the count. The
  locale \<open>decoder\<close> states what the trait promises its caller, the character stream: decoding in two
  calls, with the bytes left over carried to the second, is decoding in one.
\<close>

type_synonym decoded = "ustring \<times> (error + nat)"

definition malformed :: "nat \<Rightarrow> error" where
  "malformed offset = Encoding (Some offset)"

section \<open>UTF-8, US-ASCII and ISO-8859-1\<close>

definition utf8_decode :: "byte list \<Rightarrow> bool \<Rightarrow> decoded" where
  "utf8_decode src final =
     (case from_utf8 src of
        (s, Valid) \<Rightarrow> (s, Inr (length src))
      | (s, Error_Len error_len) \<Rightarrow>
          (let valid_up_to = byte_len s in
           (s, if error_len \<noteq> None \<or> final then Inl (malformed valid_up_to) else Inr valid_up_to)))"

fun ascii_loop :: "nat \<Rightarrow> byte list \<Rightarrow> ustring \<times> error option" where
  "ascii_loop i [] = ([], None)"
| "ascii_loop i (b # r) =
     (if 0x80 \<le> b then ([], Some (malformed i))
      else case ascii_loop (Suc i) r of (s, e) \<Rightarrow> (unat b # s, e))"

definition ascii_decode :: "byte list \<Rightarrow> bool \<Rightarrow> decoded" where
  "ascii_decode src final =
     (case ascii_loop 0 src of
        (s, Some e) \<Rightarrow> (s, Inl e)
      | (s, None) \<Rightarrow> (s, Inr (length src)))"

definition latin1_decode :: "byte list \<Rightarrow> bool \<Rightarrow> decoded" where
  "latin1_decode src final = (map unat src, Inr (length src))"

section \<open>UTF-16\<close>

datatype byte_order = FromMark | Little | Big

text \<open>\<open>Utf16Decoder::unit\<close>: the code unit the first two bytes hold. The code calls it only where
  two bytes are left; the model returns \<open>None\<close> elsewhere.\<close>

fun utf16_unit :: "byte_order \<Rightarrow> byte list \<Rightarrow> nat option" where
  "utf16_unit order (b0 # b1 # _) =
     Some (if order = Big then unat b0 * 256 + unat b1 else unat b1 * 256 + unat b0)"
| "utf16_unit order _ = None"

text \<open>One turn of the decoding loop at the front of the bytes left: a character and its width in
  bytes, a fault, or too few bytes.\<close>

datatype utf16_item = Unit16 uchar nat | Fault16 | Short16

definition utf16_next :: "byte_order \<Rightarrow> byte list \<Rightarrow> utf16_item" where
  "utf16_next order bs =
     (case utf16_unit order bs of
        None \<Rightarrow> Short16
      | Some unit \<Rightarrow>
          if 0xDC00 \<le> unit \<and> unit \<le> 0xDFFF then Fault16
          else if 0xD800 \<le> unit \<and> unit \<le> 0xDBFF then
            (case utf16_unit order (drop 2 bs) of
               None \<Rightarrow> Short16
             | Some low \<Rightarrow>
                 if \<not> (0xDC00 \<le> low \<and> low \<le> 0xDFFF) then Fault16
                 else (let code = 0x10000 + (unit - 0xD800) * 1024 + (low - 0xDC00)
                       in if scalar code then Unit16 code 4 else Fault16))
          else if scalar unit then Unit16 unit 2 else Fault16)"

lemma utf16_unit_length: "utf16_unit order bs = Some n \<Longrightarrow> 2 \<le> length bs"
  by (cases "(order, bs)" rule: utf16_unit.cases) auto

lemma utf16_next_width: "utf16_next order bs = Unit16 c n \<Longrightarrow> 0 < n \<and> n \<le> length bs"
  by (auto simp: utf16_next_def Let_def dest!: utf16_unit_length split: option.splits if_splits)

text \<open>The loop: the text decoded, and the byte offset it stops at, with the fault if there is one.\<close>

function utf16_loop :: "byte_order \<Rightarrow> nat \<Rightarrow> byte list \<Rightarrow> ustring \<times> nat \<times> bool" where
  "utf16_loop order i bs =
     (case utf16_next order bs of
        Unit16 c n \<Rightarrow> (case utf16_loop order (i + n) (drop n bs) of (s, r) \<Rightarrow> (c # s, r))
      | Fault16 \<Rightarrow> ([], i, True)
      | Short16 \<Rightarrow> ([], i, False))"
  by pat_completeness auto
termination
  by (relation "measure (\<lambda>(order, i, bs). length bs)") (auto dest: utf16_next_width)

declare utf16_loop.simps [simp del]

definition utf16_decode_ordered :: "byte_order \<Rightarrow> byte list \<Rightarrow> bool \<Rightarrow> decoded" where
  "utf16_decode_ordered order src final =
     (case utf16_loop order 0 src of
        (s, i, fault) \<Rightarrow>
          (s, if fault \<or> final \<and> i \<noteq> length src then Inl (malformed i) else Inr i))"

text \<open>The error of the inner call counts from the bytes after the mark; the code shifts it.\<close>

fun shift_offset :: "nat \<Rightarrow> error \<Rightarrow> error" where
  "shift_offset mark (Encoding (Some offset)) = Encoding (Some (offset + mark))"
| "shift_offset mark e = e"

definition utf16_mark :: "byte list \<Rightarrow> byte_order \<times> nat" where
  "utf16_mark src =
     (case src of
        b0 # b1 # _ \<Rightarrow>
          if b0 = 0xFF \<and> b1 = 0xFE then (Little, 2)
          else if b0 = 0xFE \<and> b1 = 0xFF then (Big, 2)
          else (Little, 0)
      | _ \<Rightarrow> (Little, 0))"

definition utf16_decode :: "byte_order \<Rightarrow> byte list \<Rightarrow> bool \<Rightarrow> byte_order \<times> decoded" where
  "utf16_decode order src final =
     (if order = FromMark then
        (if length src < 2 then
           (FromMark, [], if final \<and> src \<noteq> [] then Inl (malformed 0) else Inr 0)
         else
           (case utf16_mark src of
              (order', mark) \<Rightarrow>
                (case utf16_decode_ordered order' (drop mark src) final of
                   (s, Inr consumed) \<Rightarrow> (order', s, Inr (mark + consumed))
                 | (s, Inl e) \<Rightarrow> (order', s, Inl (shift_offset mark e)))))
      else (order, utf16_decode_ordered order src final))"

section \<open>What the decoders promise\<close>

locale decoder =
  fixes decode :: "'s \<Rightarrow> byte list \<Rightarrow> bool \<Rightarrow> 's \<times> decoded"
  assumes consumed_le: "decode st src final = (st', s, Inr n) \<Longrightarrow> n \<le> length src"
    and consumed_all: "decode st src True = (st', s, Inr n) \<Longrightarrow> n = length src"
    and held_few: "decode st src False = (st', s, Inr n) \<Longrightarrow> length src \<le> n + 3"
    and scalars: "decode st src final = (st', s, r) \<Longrightarrow> list_all scalar s"
    and resume: "decode st src False = (st', s, Inr n) \<Longrightarrow>
      decode st (src @ more) final =
        (case decode st' (drop n src @ more) final of
           (st'', t, Inr m) \<Rightarrow> (st'', s @ t, Inr (n + m))
         | (st'', t, Inl e) \<Rightarrow> (st'', s @ t, Inl (shift_offset n e)))"
    and fault_stays: "decode st src False = (st', s, Inl e) \<Longrightarrow>
      decode st (src @ more) final = (st', s, Inl e)"
begin

text \<open>Decoding a sequence of chunks, the bytes left over carried from each to the next.\<close>

fun decode_chunks :: "'s \<Rightarrow> byte list \<Rightarrow> byte list list \<Rightarrow> byte list \<Rightarrow> (error + ustring)" where
  "decode_chunks st held [] fin =
     (case decode st (held @ fin) True of
        (st', s, Inr n) \<Rightarrow> Inr s
      | (st', s, Inl e) \<Rightarrow> Inl e)"
| "decode_chunks st held (c # cs) fin =
     (case decode st (held @ c) False of
        (st', s, Inr n) \<Rightarrow> map_sum id ((@) s) (decode_chunks st' (drop n (held @ c)) cs fin)
      | (st', s, Inl e) \<Rightarrow> Inl e)"

lemma decode_chunks_whole:
  "decode_chunks st held cs fin = Inr s \<longleftrightarrow>
     (\<exists>st' n. decode st (held @ concat cs @ fin) True = (st', s, Inr n))"
proof (induction cs arbitrary: st held s)
  case Nil
  show ?case by (auto split: prod.splits sum.splits)
next
  case (Cons c cs)
  obtain st' u r where d: "decode st (held @ c) False = (st', u, r)" by (metis prod_cases3)
  show ?case
  proof (cases r)
    case (Inl e)
    then show ?thesis using fault_stays [OF d [unfolded Inl], of "concat cs @ fin" True] d by simp
  next
    case (Inr n)
    obtain st'' t q where w: "decode st' (drop n (held @ c) @ concat cs @ fin) True = (st'', t, q)"
      by (metis prod_cases3)
    have "decode st (held @ concat (c # cs) @ fin) True =
        (case q of Inr m \<Rightarrow> (st'', u @ t, Inr (n + m)) | Inl e \<Rightarrow> (st'', u @ t, Inl (shift_offset n e)))"
      using resume [OF d [unfolded Inr], of "concat cs @ fin" True] w
      by (simp split: sum.split)
    then have whole: "(\<exists>st' m. decode st (held @ concat (c # cs) @ fin) True = (st', s, Inr m)) \<longleftrightarrow>
        (\<exists>m. q = Inr m) \<and> s = u @ t"
      by (cases q) auto
    have IH: "decode_chunks st' (drop n (held @ c)) cs fin = Inr v \<longleftrightarrow> (\<exists>m. q = Inr m) \<and> v = t" for v
      unfolding Cons.IH w by auto
    have "decode_chunks st held (c # cs) fin =
        map_sum id ((@) u) (decode_chunks st' (drop n (held @ c)) cs fin)"
      using d Inr by simp
    moreover have "map_sum id ((@) u) x = Inr s \<longleftrightarrow> (\<exists>v. x = Inr v \<and> s = u @ v)" for x :: "error + ustring"
      by (cases x) auto
    ultimately show ?thesis unfolding whole by (simp only: IH) auto
  qed
qed

end

text \<open>UTF-8.\<close>

definition utf8_decoder :: "unit \<Rightarrow> byte list \<Rightarrow> bool \<Rightarrow> unit \<times> decoded" where
  "utf8_decoder st src final = ((), utf8_decode src final)"

lemma utf8_decode_prefix:
  assumes "utf8_decode src final = (s, Inr n)"
  shows "list_all scalar s \<and> n = byte_len s \<and>
     (\<exists>r. src = utf8_encode s @ r \<and> length r \<le> 3 \<and> (final \<longrightarrow> r = []))"
proof -
  obtain e where e: "from_utf8 src = (s, e)"
    using assms by (auto simp: utf8_decode_def Let_def split: prod.splits utf8_end.splits)
  note sc = from_utf8_scalars [OF e]
  show ?thesis
  proof (cases e)
    case Valid
    with assms e from_utf8_Valid [of src s] sc show ?thesis
      by (auto simp: utf8_decode_def)
  next
    case (Error_Len l)
    with assms e have "l = None" "\<not> final" "n = byte_len s"
      by (auto simp: utf8_decode_def Let_def split: if_splits)
    with e Error_Len from_utf8_truncated_append [of src s] sc show ?thesis by blast
  qed
qed

lemma utf8_decode_append:
  "list_all scalar s \<Longrightarrow>
     utf8_decode (utf8_encode s @ r) final =
       (case utf8_decode r final of
          (t, Inr m) \<Rightarrow> (s @ t, Inr (byte_len s + m))
        | (t, Inl e) \<Rightarrow> (s @ t, Inl (shift_offset (byte_len s) e)))"
  by (auto simp: utf8_decode_def from_utf8_encode_append malformed_def Let_def
      split: prod.splits utf8_end.splits)

interpretation utf8: decoder utf8_decoder
proof (unfold_locales, goal_cases)
  case (1 st src final st' s n)
  then show ?case using utf8_decode_prefix [of src final s n] by (auto simp: utf8_decoder_def)
next
  case (2 st src st' s n)
  then show ?case using utf8_decode_prefix [of src True s n] by (auto simp: utf8_decoder_def)
next
  case (3 st src st' s n)
  then show ?case using utf8_decode_prefix [of src False s n] by (auto simp: utf8_decoder_def)
next
  case (4 st src final st' s r)
  then show ?case
    by (auto simp: utf8_decoder_def utf8_decode_def Let_def dest: from_utf8_scalars
        split: prod.splits utf8_end.splits)
next
  case (5 st src st' s n more final)
  then obtain r where r: "list_all scalar s" "n = byte_len s" "src = utf8_encode s @ r"
    using utf8_decode_prefix [of src False s n] by (auto simp: utf8_decoder_def)
  then show ?case using utf8_decode_append [of s "r @ more" final]
    by (simp add: utf8_decoder_def split: prod.splits sum.splits)
next
  case (6 st src st' s e more final)
  then obtain k where k: "from_utf8 src = (s, Error_Len (Some k))" "e = malformed (byte_len s)"
    by (auto simp: utf8_decoder_def utf8_decode_def Let_def
        split: prod.splits utf8_end.splits if_splits)
  then show ?case using from_utf8_malformed_append [OF k(1), of more] 6
    by (simp add: utf8_decoder_def utf8_decode_def)
qed

text \<open>US-ASCII: every byte is consumed, and the first byte past \<open>7F\<close> is the fault.\<close>

definition ascii_decoder :: "unit \<Rightarrow> byte list \<Rightarrow> bool \<Rightarrow> unit \<times> decoded" where
  "ascii_decoder st src final = ((), ascii_decode src final)"

lemma ascii_loop_None: "ascii_loop i bs = (s, None) \<Longrightarrow> s = map unat bs \<and> list_all (\<lambda>b. b < 0x80) bs"
  by (induction i bs arbitrary: s rule: ascii_loop.induct)
     (auto split: if_splits prod.splits simp: not_le)

lemma ascii_loop_scalar: "ascii_loop i bs = (s, e) \<Longrightarrow> list_all scalar s"
proof (induction i bs arbitrary: s rule: ascii_loop.induct)
  case (2 i b r)
  then show ?case using byte_bound [of b] by (auto simp: scalar_def split: if_splits prod.splits)
qed simp

lemma ascii_loop_append:
  "ascii_loop i (bs @ cs) =
     (case ascii_loop i bs of
        (s, Some e) \<Rightarrow> (s, Some e)
      | (s, None) \<Rightarrow> (case ascii_loop (i + length bs) cs of (t, e) \<Rightarrow> (s @ t, e)))"
  by (induction i bs rule: ascii_loop.induct) (auto split: prod.splits option.splits)

lemma ascii_loop_shift:
  "ascii_loop (n + i) bs =
     (case ascii_loop i bs of (s, e) \<Rightarrow> (s, map_option (shift_offset n) e))"
  by (induction i bs rule: ascii_loop.induct) (auto simp: malformed_def split: prod.splits)

interpretation ascii: decoder ascii_decoder
proof (unfold_locales, goal_cases)
  case (5 st src st' s n more final)
  then have "ascii_loop 0 src = (s, None)" "n = length src"
    by (auto simp: ascii_decoder_def ascii_decode_def split: prod.splits option.splits)
  then show ?case using ascii_loop_shift [of n 0 more]
    by (auto simp: ascii_decoder_def ascii_decode_def ascii_loop_append
        split: prod.splits option.splits)
next
  case (6 st src st' s e more final)
  then have "ascii_loop 0 src = (s, Some e)"
    by (auto simp: ascii_decoder_def ascii_decode_def split: prod.splits option.splits)
  then show ?case by (simp add: ascii_decoder_def ascii_decode_def ascii_loop_append)
qed (auto simp: ascii_decoder_def ascii_decode_def ascii_loop_scalar split: prod.splits option.splits)

text \<open>ISO-8859-1 never fails and holds nothing back.\<close>

definition latin1_decoder :: "unit \<Rightarrow> byte list \<Rightarrow> bool \<Rightarrow> unit \<times> decoded" where
  "latin1_decoder st src final = ((), latin1_decode src final)"

lemma byte_scalar: "scalar (unat (b :: byte))"
  using byte_bound [of b] by (simp add: scalar_def)

interpretation latin1: decoder latin1_decoder
  by unfold_locales (auto simp: latin1_decoder_def latin1_decode_def list_all_iff byte_scalar)

text \<open>UTF-16, in either order or with the order still to be read from a mark.\<close>

lemma utf16_unit_append:
  "utf16_unit order bs = Some n \<Longrightarrow> utf16_unit order (bs @ cs) = Some n"
  by (cases "(order, bs)" rule: utf16_unit.cases) auto

lemma utf16_unit_None: "utf16_unit order bs = None \<longleftrightarrow> length bs < 2"
  by (cases "(order, bs)" rule: utf16_unit.cases) auto

lemma utf16_next_append:
  "utf16_next order bs \<noteq> Short16 \<Longrightarrow> utf16_next order (bs @ cs) = utf16_next order bs"
proof -
  assume a: "utf16_next order bs \<noteq> Short16"
  then obtain n where n: "utf16_unit order bs = Some n"
    by (auto simp: utf16_next_def split: option.splits)
  then have d: "drop 2 (bs @ cs) = drop 2 bs @ cs"
    using utf16_unit_length [OF n] by simp
  show ?thesis
  proof (cases "utf16_unit order (drop 2 bs)")
    case None
    with a n show ?thesis by (auto simp: utf16_next_def utf16_unit_append split: if_splits)
  next
    case (Some m)
    with n d show ?thesis
      by (simp add: utf16_next_def utf16_unit_append del: drop_append)
  qed
qed

lemma utf16_next_Short: "utf16_next order bs = Short16 \<Longrightarrow> length bs \<le> 3"
  by (auto simp: utf16_next_def utf16_unit_None Let_def split: option.splits if_splits)

lemma utf16_next_scalar: "utf16_next order bs = Unit16 c n \<Longrightarrow> scalar c"
  by (auto simp: utf16_next_def Let_def split: option.splits if_splits)

lemma utf16_loop_unfold:
  "utf16_loop order i bs =
     (case utf16_next order bs of
        Unit16 c n \<Rightarrow> (case utf16_loop order (i + n) (drop n bs) of (s, r) \<Rightarrow> (c # s, r))
      | Fault16 \<Rightarrow> ([], i, True)
      | Short16 \<Rightarrow> ([], i, False))"
  by (rule utf16_loop.simps)

lemma utf16_loop_scalar: "utf16_loop order i bs = (s, r) \<Longrightarrow> list_all scalar s"
proof (induction order i bs arbitrary: s r rule: utf16_loop.induct)
  case (1 order i bs)
  show ?case
    using 1 by (subst (asm) utf16_loop_unfold)
      (auto simp: utf16_next_scalar split: utf16_item.splits prod.splits)
qed

text \<open>
  The loop on a longer input: where it stopped for want of bytes it goes on from there, and where
  it met a fault it meets the same one.
\<close>

lemma utf16_loop_append:
  "utf16_loop order i bs = (s, j, False) \<Longrightarrow> i \<le> j \<and> j \<le> i + length bs \<and> length bs \<le> j - i + 3 \<and>
     utf16_loop order i (bs @ cs) =
       (case utf16_loop order j (drop (j - i) bs @ cs) of (t, r) \<Rightarrow> (s @ t, r))"
proof (induction order i bs arbitrary: s j rule: utf16_loop.induct)
  case (1 order i bs)
  show ?case
  proof (cases "utf16_next order bs")
    case (Unit16 c n)
    obtain s' where s': "utf16_loop order (i + n) (drop n bs) = (s', j, False)" "s = c # s'"
      using 1(2) Unit16 by (subst (asm) utf16_loop_unfold) (auto split: prod.splits)
    have n: "0 < n" "n \<le> length bs" using utf16_next_width [OF Unit16] by auto
    note IH = 1(1) [OF Unit16 s'(1)]
    have "drop n (bs @ cs) = drop n bs @ cs" using n by simp
    moreover have "drop (j - (i + n)) (drop n bs) = drop (j - i) bs" using IH n by simp
    moreover have "utf16_next order (bs @ cs) = Unit16 c n"
      using Unit16 by (simp add: utf16_next_append)
    ultimately show ?thesis
      using IH s'(2) n utf16_loop_unfold [of order i "bs @ cs"] by (auto split: prod.splits)
  next
    case Short16
    with 1(2) show ?thesis using utf16_next_Short [OF Short16]
      by (subst (asm) utf16_loop_unfold) (auto split: prod.splits)
  qed (use 1(2) in \<open>subst (asm) utf16_loop_unfold, simp\<close>)
qed

lemma utf16_loop_fault_append:
  "utf16_loop order i bs = (s, j, True) \<Longrightarrow> utf16_loop order i (bs @ cs) = (s, j, True)"
proof (induction order i bs arbitrary: s j rule: utf16_loop.induct)
  case (1 order i bs)
  show ?case
  proof (cases "utf16_next order bs")
    case (Unit16 c n)
    obtain s' where s': "utf16_loop order (i + n) (drop n bs) = (s', j, True)" "s = c # s'"
      using 1(2) Unit16 by (subst (asm) utf16_loop_unfold) (auto split: prod.splits)
    have "drop n (bs @ cs) = drop n bs @ cs" using utf16_next_width [OF Unit16] by simp
    then show ?thesis
      using 1(1) [OF Unit16 s'(1)] s'(2) Unit16 utf16_loop_unfold [of order i "bs @ cs"]
      by (simp add: utf16_next_append)
  next
    case Fault16
    with 1(2) utf16_loop_unfold [of order i "bs @ cs"] utf16_loop_unfold [of order i bs]
    show ?thesis by (simp add: utf16_next_append)
  qed (use 1(2) utf16_loop_unfold [of order i bs] in simp)
qed

lemma utf16_loop_shift:
  "utf16_loop order (k + i) bs = (case utf16_loop order i bs of (s, j, f) \<Rightarrow> (s, k + j, f))"
proof (induction order i bs rule: utf16_loop.induct)
  case (1 order i bs)
  then show ?case
    unfolding utf16_loop_unfold [of order "k + i" bs] utf16_loop_unfold [of order i bs]
    by (auto simp: add.assoc split: utf16_item.splits prod.splits)
qed

lemma utf16_decode_ordered_Inr:
  assumes "utf16_decode_ordered order src final = (s, Inr n)"
  shows "utf16_loop order 0 src = (s, n, False)" "n \<le> length src" "length src \<le> n + 3"
    "final \<longrightarrow> n = length src" "list_all scalar s"
proof -
  show l: "utf16_loop order 0 src = (s, n, False)"
    using assms by (auto simp: utf16_decode_ordered_def split: prod.splits if_splits)
  then show "n \<le> length src" "length src \<le> n + 3" "list_all scalar s"
    using utf16_loop_append [OF l] utf16_loop_scalar [OF l] by auto
  show "final \<longrightarrow> n = length src"
    using assms by (auto simp: utf16_decode_ordered_def split: prod.splits if_splits)
qed

lemma utf16_decode_ordered_resume:
  assumes "utf16_decode_ordered order src False = (s, Inr n)"
  shows "utf16_decode_ordered order (src @ more) final =
     (case utf16_decode_ordered order (drop n src @ more) final of
        (t, Inr m) \<Rightarrow> (s @ t, Inr (n + m))
      | (t, Inl e) \<Rightarrow> (s @ t, Inl (shift_offset n e)))"
proof -
  note l = utf16_decode_ordered_Inr [OF assms]
  show ?thesis
    using utf16_loop_append [OF l(1), of more] utf16_loop_shift [of order n 0 "drop n src @ more"] l(2)
    by (auto simp: utf16_decode_ordered_def malformed_def split: prod.splits)
qed

lemma utf16_decode_ordered_fault:
  "utf16_decode_ordered order src False = (s, Inl e) \<Longrightarrow>
     utf16_decode_ordered order (src @ more) final = (s, Inl e)"
  by (auto simp: utf16_decode_ordered_def utf16_loop_fault_append split: prod.splits if_splits)

lemma utf16_mark_append [simp]: "2 \<le> length src \<Longrightarrow> utf16_mark (src @ more) = utf16_mark src"
  by (auto simp: utf16_mark_def split: list.splits)

lemma utf16_mark_cases: "utf16_mark src = (order, n) \<Longrightarrow> order \<noteq> FromMark \<and> (n = 0 \<or> n = 2)"
  by (auto simp: utf16_mark_def split: list.splits if_splits)

lemma utf16_decode_scalar: "utf16_decode st src final = (st', s, r) \<Longrightarrow> list_all scalar s"
  using utf16_loop_scalar
  by (fastforce simp: utf16_decode_def utf16_decode_ordered_def split: if_splits prod.splits sum.splits)

lemma utf16_decode_bounds:
  assumes "utf16_decode st src final = (st', s, Inr n)"
  shows "n \<le> length src" "final \<longrightarrow> n = length src" "length src \<le> n + 3"
proof -
  obtain order mark where m: "utf16_mark src = (order, mark)" by fastforce
  consider "st \<noteq> FromMark" "utf16_decode_ordered st src final = (s, Inr n)"
    | "st = FromMark" "length src < 2" "n = 0" "final \<longrightarrow> src = []"
    | k where "2 \<le> length src" "utf16_decode_ordered order (drop mark src) final = (s, Inr k)" "n = mark + k"
    using assms m by (auto simp: utf16_decode_def split: if_splits prod.splits sum.splits)
  then show "n \<le> length src" "final \<longrightarrow> n = length src" "length src \<le> n + 3"
    using utf16_decode_ordered_Inr utf16_mark_cases [OF m] by (cases; fastforce)+
qed

lemma shift_offset_add [simp]: "shift_offset a (shift_offset b e) = shift_offset (a + b) e"
  by (cases "(b, e)" rule: shift_offset.cases) auto

lemma utf16_decode_resume:
  assumes "utf16_decode st src False = (st', s, Inr n)"
  shows "utf16_decode st (src @ more) final =
    (case utf16_decode st' (drop n src @ more) final of
       (st'', t, Inr m) \<Rightarrow> (st'', s @ t, Inr (n + m))
     | (st'', t, Inl e) \<Rightarrow> (st'', s @ t, Inl (shift_offset n e)))"
proof -
  obtain order mark where m: "utf16_mark src = (order, mark)" by fastforce
  consider (a) "st \<noteq> FromMark" "st' = st" "utf16_decode_ordered st src False = (s, Inr n)"
    | (b) "st = FromMark" "st' = FromMark" "n = 0" "s = []"
    | (c) k where "st = FromMark" "2 \<le> length src" "st' = order"
        "utf16_decode_ordered order (drop mark src) False = (s, Inr k)" "n = mark + k"
    using assms m by (auto simp: utf16_decode_def split: if_splits prod.splits sum.splits)
  then show ?thesis
  proof cases
    case a
    then show ?thesis using utf16_decode_ordered_resume [OF a(3), of more final]
      by (simp add: utf16_decode_def split: prod.splits sum.splits)
  next
    case b
    have "shift_offset 0 e = e" for e by (cases "(0 :: nat, e)" rule: shift_offset.cases) auto
    with b show ?thesis by (simp split: prod.splits sum.splits)
  next
    case c
    note o = utf16_mark_cases [OF m]
    have d: "drop mark (src @ more) = drop mark src @ more" "drop k (drop mark src) = drop n src"
      using o c by (auto simp: add.commute)
    show ?thesis
      using utf16_decode_ordered_resume [OF c(4), of more final] c(1-3,5) o m
      unfolding d(2)
      by (simp add: utf16_decode_def d(1) del: drop_append split: prod.splits sum.splits)
  qed
qed

lemma utf16_decode_fault:
  assumes "utf16_decode st src False = (st', s, Inl e)"
  shows "utf16_decode st (src @ more) final = (st', s, Inl e)"
proof -
  obtain order mark where m: "utf16_mark src = (order, mark)" by fastforce
  consider (a) "st \<noteq> FromMark" "st' = st" "utf16_decode_ordered st src False = (s, Inl e)"
    | (c) k where "st = FromMark" "2 \<le> length src" "st' = order"
        "utf16_decode_ordered order (drop mark src) False = (s, Inl k)" "e = shift_offset mark k"
    using assms m by (auto simp: utf16_decode_def split: if_splits prod.splits sum.splits)
  then show ?thesis
  proof cases
    case a
    then show ?thesis using utf16_decode_ordered_fault [OF a(3), of more final]
      by (simp add: utf16_decode_def)
  next
    case c
    then have "drop mark (src @ more) = drop mark src @ more"
      using utf16_mark_cases [OF m] by auto
    with c m utf16_decode_ordered_fault [OF c(4), of more final] show ?thesis
      by (simp add: utf16_decode_def del: drop_append)
  qed
qed

interpretation utf16: decoder utf16_decode
proof (unfold_locales, goal_cases)
  case 1 then show ?case by (rule utf16_decode_bounds(1))
next
  case 2 then show ?case using utf16_decode_bounds(2) by blast
next
  case 3 then show ?case by (rule utf16_decode_bounds(3))
next
  case 4 then show ?case by (rule utf16_decode_scalar)
next
  case 5 then show ?case by (rule utf16_decode_resume)
next
  case 6 then show ?case by (rule utf16_decode_fault)
qed

end
