(* ===== verification/Encodings.thy ===== *)
theory Encodings
  imports Decoders
begin

text \<open>
  The registry of built-in encodings (\<open>io/encoding.rs\<close>) and the encoders
  (\<open>io/encoding/encoder.rs\<close>). A boxed decoder is a value of \<open>builtin\<close>, and \<open>decode_with\<close> is the
  call through the trait object. The encodings the \<open>encodings\<close> feature adds come from the
  \<open>encoding_rs\<close> crate, which is not part of this repository: the registry takes that lookup as the
  parameter \<open>backend\<close>.

  The locale \<open>encoder\<close> is the writer-side interface: an encoder either appends the image of the
  whole text or refuses and leaves the output alone, and with references it always succeeds.
\<close>

section \<open>The registry\<close>

datatype builtin = Utf8Decoder | Utf16Decoder byte_order | AsciiDecoder | Latin1Decoder

fun decode_with :: "builtin \<Rightarrow> byte list \<Rightarrow> bool \<Rightarrow> builtin \<times> decoded" where
  "decode_with Utf8Decoder src final = (Utf8Decoder, utf8_decode src final)"
| "decode_with (Utf16Decoder order) src final =
     (case utf16_decode order src final of (order', d) \<Rightarrow> (Utf16Decoder order', d))"
| "decode_with AsciiDecoder src final = (AsciiDecoder, ascii_decode src final)"
| "decode_with Latin1Decoder src final = (Latin1Decoder, latin1_decode src final)"

fun encoding_name :: "builtin \<Rightarrow> ustring" where
  "encoding_name Utf8Decoder = lit ''UTF-8''"
| "encoding_name (Utf16Decoder FromMark) = lit ''UTF-16''"
| "encoding_name (Utf16Decoder Little) = lit ''UTF-16LE''"
| "encoding_name (Utf16Decoder Big) = lit ''UTF-16BE''"
| "encoding_name AsciiDecoder = lit ''US-ASCII''"
| "encoding_name Latin1Decoder = lit ''ISO-8859-1''"

text \<open>\<open>str::trim\<close> removes characters with the Unicode property White\_Space from both ends.\<close>

definition white_space :: "uchar \<Rightarrow> bool" where
  "white_space c \<longleftrightarrow> 9 \<le> c \<and> c \<le> 13 \<or> c = 0x20 \<or> c = 0x85 \<or> c = 0xA0 \<or> c = 0x1680
     \<or> 0x2000 \<le> c \<and> c \<le> 0x200A \<or> c = 0x2028 \<or> c = 0x2029 \<or> c = 0x202F \<or> c = 0x205F \<or> c = 0x3000"

definition trim :: "ustring \<Rightarrow> ustring" where
  "trim s = rev (dropWhile white_space (rev (dropWhile white_space s)))"

definition builtin_labels :: "(builtin \<times> ustring list) list" where
  "builtin_labels =
     [(Utf8Decoder, [lit ''utf-8'', lit ''utf8'']),
      (Utf16Decoder FromMark, [lit ''utf-16'', lit ''utf16'']),
      (Utf16Decoder Little, [lit ''utf-16le'', lit ''utf16le'']),
      (Utf16Decoder Big, [lit ''utf-16be'', lit ''utf16be'']),
      (AsciiDecoder, [lit ''us-ascii'', lit ''ascii'', lit ''ansi_x3.4-1968'']),
      (Latin1Decoder, [lit ''iso-8859-1'', lit ''iso8859-1'', lit ''latin1'', lit ''iso_8859-1''])]"

definition lookup :: "ustring \<Rightarrow> builtin option" where
  "lookup label =
     (let normalized = to_ascii_lowercase (trim label)
      in map_option fst (find (\<lambda>(d, labels). normalized \<in> set labels) builtin_labels))"

text \<open>\<open>decoder_for\<close>: the built-in decoder, else what the backend knows under the normalized label.\<close>

definition decoder_for :: "(ustring \<Rightarrow> 'd option) \<Rightarrow> ustring \<Rightarrow> (builtin + 'd) result" where
  "decoder_for backend label =
     (case lookup label of
        Some d \<Rightarrow> Inr (Inl d)
      | None \<Rightarrow>
          (case backend (to_ascii_lowercase (trim label)) of
             Some d \<Rightarrow> Inr (Inr d)
           | None \<Rightarrow> Inl (Encoding None)))"

interpretation builtin: decoder decode_with
proof (unfold_locales, goal_cases)
  case (1 st src final st' s n)
  then show ?case
    using utf8.consumed_le utf16.consumed_le ascii.consumed_le latin1.consumed_le
    by (cases st; fastforce simp: utf8_decoder_def ascii_decoder_def latin1_decoder_def split: prod.splits)
next
  case (2 st src st' s n)
  then show ?case
    using utf8.consumed_all utf16.consumed_all ascii.consumed_all latin1.consumed_all
    by (cases st; fastforce simp: utf8_decoder_def ascii_decoder_def latin1_decoder_def split: prod.splits)
next
  case (3 st src st' s n)
  then show ?case
    using utf8.held_few utf16.held_few ascii.held_few latin1.held_few
    by (cases st; fastforce simp: utf8_decoder_def ascii_decoder_def latin1_decoder_def split: prod.splits)
next
  case (4 st src final st' s r)
  then show ?case
    using utf8.scalars utf16.scalars ascii.scalars latin1.scalars
    by (cases st; fastforce simp: utf8_decoder_def ascii_decoder_def latin1_decoder_def split: prod.splits)
next
  case (5 st src st' s n more final)
  show ?case
  proof (cases st)
    case Utf8Decoder
    with 5 utf8.resume [of "()" src "()" s n more final] show ?thesis
      by (simp add: utf8_decoder_def split: prod.splits sum.splits)
  next
    case (Utf16Decoder order)
    with 5 obtain order' where o: "utf16_decode order src False = (order', s, Inr n)"
      "st' = builtin.Utf16Decoder order'" by (auto split: prod.splits)
    show ?thesis
      using utf16.resume [OF o(1), of more final] Utf16Decoder o(2)
      by (simp split: prod.splits sum.splits)
  next
    case AsciiDecoder
    with 5 ascii.resume [of "()" src "()" s n more final] show ?thesis
      by (simp add: ascii_decoder_def split: prod.splits sum.splits)
  next
    case Latin1Decoder
    with 5 latin1.resume [of "()" src "()" s n more final] show ?thesis
      by (simp add: latin1_decoder_def split: prod.splits sum.splits)
  qed
next
  case (6 st src st' s e more final)
  then show ?case
    using utf8.fault_stays [of "()" src "()" s e more final] utf16.fault_stays [of _ src _ s e more final]
      ascii.fault_stays [of "()" src "()" s e more final]
      latin1.fault_stays [of "()" src "()" s e more final]
    by (cases st) (auto simp: utf8_decoder_def ascii_decoder_def latin1_decoder_def split: prod.splits)
qed

section \<open>Encoders\<close>

text \<open>The decimal digits of a number, as \<open>format!\<close> prints a \<open>u32\<close>.\<close>

fun decimal :: "nat \<Rightarrow> ustring" where
  "decimal n = (if n < 10 then [48 + n] else decimal (n div 10) @ [48 + n mod 10])"

declare decimal.simps [simp del]

definition char_reference :: "uchar \<Rightarrow> ustring" where
  "char_reference c = [AMP, HASH] @ decimal c @ [SEMI]"

definition push_reference :: "byte list \<Rightarrow> uchar \<Rightarrow> byte list" where
  "push_reference out c = out @ utf8_encode (char_reference c)"

definition utf8_encoder_encode :: "ustring \<Rightarrow> byte list \<Rightarrow> byte list \<times> error option" where
  "utf8_encoder_encode text out = (out @ utf8_encode text, None)"

text \<open>\<open>SingleByteEncoder\<close>: the code points below \<open>limit\<close> are the bytes.\<close>

record single_byte_encoder =
  sbe_name :: ustring
  sbe_limit :: nat

definition sbe_ascii :: single_byte_encoder where
  "sbe_ascii = \<lparr>sbe_name = lit ''US-ASCII'', sbe_limit = 0x80\<rparr>"

definition sbe_latin1 :: single_byte_encoder where
  "sbe_latin1 = \<lparr>sbe_name = lit ''ISO-8859-1'', sbe_limit = 0x100\<rparr>"

definition sbe_encode :: "single_byte_encoder \<Rightarrow> ustring \<Rightarrow> byte list \<Rightarrow> byte list \<times> error option" where
  "sbe_encode enc text out =
     (case find (\<lambda>c. sbe_limit enc \<le> c) text of
        Some c \<Rightarrow> (out, Some (Encoding None))
      | None \<Rightarrow> (out @ map byte_of text, None))"

fun sbe_encode_with_references :: "single_byte_encoder \<Rightarrow> ustring \<Rightarrow> byte list \<Rightarrow> byte list" where
  "sbe_encode_with_references enc [] out = out"
| "sbe_encode_with_references enc (c # text) out =
     sbe_encode_with_references enc text
       (if c < sbe_limit enc then out @ [byte_of c] else push_reference out c)"

datatype encoder_id = Utf8Encoder | SingleByteEncoder single_byte_encoder

fun encode :: "encoder_id \<Rightarrow> ustring \<Rightarrow> byte list \<Rightarrow> byte list \<times> error option" where
  "encode Utf8Encoder text out = utf8_encoder_encode text out"
| "encode (SingleByteEncoder enc) text out = sbe_encode enc text out"

fun encode_with_references :: "encoder_id \<Rightarrow> ustring \<Rightarrow> byte list \<Rightarrow> byte list \<times> error option" where
  "encode_with_references Utf8Encoder text out = utf8_encoder_encode text out"
| "encode_with_references (SingleByteEncoder enc) text out =
     (sbe_encode_with_references enc text out, None)"

definition encoder_for :: "(ustring \<Rightarrow> 'd option) \<Rightarrow> ustring \<Rightarrow> (encoder_id + 'd) result" where
  "encoder_for backend label =
     (let normalized = to_ascii_lowercase (trim label) in
      if normalized \<in> set [lit ''utf-8'', lit ''utf8''] then Inr (Inl Utf8Encoder)
      else if normalized \<in> set [lit ''us-ascii'', lit ''ascii'', lit ''ansi_x3.4-1968''] then
        Inr (Inl (SingleByteEncoder sbe_ascii))
      else if normalized \<in> set [lit ''iso-8859-1'', lit ''iso8859-1'', lit ''latin1'', lit ''iso_8859-1''] then
        Inr (Inl (SingleByteEncoder sbe_latin1))
      else if starts_with (lit ''utf-16'') normalized \<or> starts_with (lit ''utf16'') normalized then
        Inl (Encoding None)
      else case backend normalized of Some e \<Rightarrow> Inr (Inr e) | None \<Rightarrow> Inl (Encoding None))"

section \<open>What the encoders promise\<close>

locale encoder =
  fixes encode :: "ustring \<Rightarrow> byte list \<Rightarrow> byte list \<times> error option"
    and encode_refs :: "ustring \<Rightarrow> byte list \<Rightarrow> byte list \<times> error option"
    and holds :: "uchar \<Rightarrow> bool"
    and code :: "uchar \<Rightarrow> byte list"
  assumes accepts: "list_all holds text \<Longrightarrow> encode text out = (out @ concat (map code text), None)"
    and refuses: "\<not> list_all holds text \<Longrightarrow> encode text out = (out, Some (Encoding None))"
    and references: "encode_refs text out =
      (out @ concat (map (\<lambda>c. if holds c then code c else concat (map code (char_reference c))) text), None)"
    and holds_ascii: "c < 0x80 \<Longrightarrow> holds c"
begin

definition with_references :: "ustring \<Rightarrow> ustring" where
  "with_references text = concat (map (\<lambda>c. if holds c then [c] else char_reference c) text)"

lemma encode_append:
  "encode (s @ t) out =
     (case encode s out of
        (out', None) \<Rightarrow> (case encode t out' of (out'', None) \<Rightarrow> (out'', None) | (_, Some e) \<Rightarrow> (out, Some e))
      | (_, Some e) \<Rightarrow> (out, Some e))"
proof (cases "list_all holds s \<and> list_all holds t")
  case True
  then have "list_all holds (s @ t)" by simp
  with True show ?thesis by (simp add: accepts)
next
  case False
  then have r: "encode (s @ t) out = (out, Some (Encoding None))" by (intro refuses) auto
  show ?thesis
  proof (cases "list_all holds s")
    case True
    with False have "\<not> list_all holds t" by simp
    then show ?thesis unfolding r by (simp add: accepts [OF True] refuses)
  next
    case False
    then show ?thesis unfolding r by (simp add: refuses)
  qed
qed

end

lemma decimal_digits: "c \<in> set (decimal n) \<Longrightarrow> 48 \<le> c \<and> c < 58"
proof (induction n rule: decimal.induct)
  case (1 n)
  show ?case
  proof (cases "n < 10")
    case True
    with 1(2) show ?thesis by (subst (asm) decimal.simps) auto
  next
    case False
    have "n mod 10 < 10" by simp
    with 1 False show ?thesis by (subst (asm) (2) decimal.simps) auto
  qed
qed

lemma char_reference_ascii: "c \<in> set (char_reference n) \<Longrightarrow> c < 0x80"
  using decimal_digits [of c n] by (auto simp: char_reference_def)

lemma utf8_encode_concat: "utf8_encode s = concat (map utf8_encode_char s)"
  by (simp add: utf8_encode_def)

interpretation utf8_enc: encoder utf8_encoder_encode utf8_encoder_encode "\<lambda>c. True" utf8_encode_char
  by unfold_locales (auto simp: utf8_encoder_encode_def utf8_encode_concat list_all_iff)

lemma utf8_encode_ascii: "\<forall>c\<in>set s. c < 0x80 \<Longrightarrow> utf8_encode s = map byte_of s"
  by (induction s) (auto simp: utf8_encode_char_ascii)

lemma concat_map_byte_of: "concat (map (\<lambda>c. [byte_of c]) s) = map byte_of s"
  by (induction s) auto

lemma sbe_encode_with_references_eq:
  "sbe_encode_with_references enc s out =
     out @ concat (map (\<lambda>c. if c < sbe_limit enc then [byte_of c] else map byte_of (char_reference c)) s)"
  by (induction s arbitrary: out)
     (auto simp: push_reference_def utf8_encode_ascii char_reference_ascii)

lemma sbe_encode_accepts:
  "list_all (\<lambda>c. c < sbe_limit enc) text \<Longrightarrow> sbe_encode enc text out = (out @ map byte_of text, None)"
  by (auto simp: sbe_encode_def list_all_iff find_None_iff not_le split: option.splits
      dest!: find_Some_iff [THEN iffD1])

lemma find_Some_ex: "\<exists>x\<in>set xs. P x \<Longrightarrow> \<exists>y. find P xs = Some y"
  by (metis find_None_iff not_None_eq)

lemma sbe_encode_refuses:
  "\<not> list_all (\<lambda>c. c < sbe_limit enc) s \<Longrightarrow> sbe_encode enc s out = (out, Some (Encoding None))"
  using find_Some_ex [of s "\<lambda>c. sbe_limit enc \<le> c"]
  by (auto simp: sbe_encode_def list_all_iff not_less)

interpretation ascii_enc: encoder "sbe_encode sbe_ascii"
  "\<lambda>text out. (sbe_encode_with_references sbe_ascii text out, None)" "\<lambda>c. c < 0x80" "\<lambda>c. [byte_of c]"
  using sbe_encode_accepts [of sbe_ascii] sbe_encode_refuses [of sbe_ascii]
  by unfold_locales (simp_all add: sbe_ascii_def sbe_encode_with_references_eq cong: if_cong)

interpretation latin1_enc: encoder "sbe_encode sbe_latin1"
  "\<lambda>text out. (sbe_encode_with_references sbe_latin1 text out, None)" "\<lambda>c. c < 0x100" "\<lambda>c. [byte_of c]"
  using sbe_encode_accepts [of sbe_latin1] sbe_encode_refuses [of sbe_latin1]
  by unfold_locales (simp_all add: sbe_latin1_def sbe_encode_with_references_eq cong: if_cong)

section \<open>Round trips\<close>

lemma ascii_loop_encoded:
  "list_all (\<lambda>c. c < 0x80) s \<Longrightarrow> ascii_loop i (map byte_of s) = (s, None)"
proof (induction s arbitrary: i)
  case (Cons c s)
  have "\<not> 0x80 \<le> byte_of c" using Cons.prems by (simp add: word_le_nat_alt)
  with Cons show ?case by simp
qed simp

lemma utf8_decode_iff':
  "utf8_decode src True = (s, Inr n) \<longleftrightarrow> list_all scalar s \<and> src = utf8_encode s \<and> n = length src"
  using utf8_decode_prefix [of src True s n]
  by (auto simp: utf8_decode_def from_utf8_encode)

text \<open>
  C25. The UTF-8 decoder accepts exactly the UTF-8 forms of sequences of Unicode scalar values, and
  returns that sequence: overlong forms, surrogates, stray continuation bytes and a sequence cut
  off by the end of the input are all refused.
\<close>

theorem utf8_decode_iff:
  "utf8_decode src True = (s, Inr n) \<longleftrightarrow> list_all scalar s \<and> src = utf8_encode s \<and> n = length src"
  by (rule utf8_decode_iff')

text \<open>
  UTF-16 in a fixed byte order, as the Unicode standard defines it; the repository has no UTF-16
  encoder, so this is the specification the decoder is compared with.
\<close>

definition utf16_unit_bytes :: "byte_order \<Rightarrow> nat \<Rightarrow> byte list" where
  "utf16_unit_bytes order n =
     (if order = Big then [byte_of (n div 256), byte_of (n mod 256)]
      else [byte_of (n mod 256), byte_of (n div 256)])"

definition utf16_encode_char :: "byte_order \<Rightarrow> uchar \<Rightarrow> byte list" where
  "utf16_encode_char order c =
     (if c < 0x10000 then utf16_unit_bytes order c
      else utf16_unit_bytes order (0xD800 + (c - 0x10000) div 1024)
        @ utf16_unit_bytes order (0xDC00 + (c - 0x10000) mod 1024))"

definition utf16_encode :: "byte_order \<Rightarrow> ustring \<Rightarrow> byte list" where
  "utf16_encode order s = concat (map (utf16_encode_char order) s)"

lemma utf16_unit_bytes [simp]:
  "n < 65536 \<Longrightarrow> utf16_unit order (utf16_unit_bytes order n @ r) = Some n"
  by (auto simp: utf16_unit_bytes_def less_mult_imp_div_less)

lemma length_utf16_unit_bytes [simp]: "length (utf16_unit_bytes order n) = 2"
  by (simp add: utf16_unit_bytes_def)

lemma utf16_next_encode:
  assumes "scalar c"
  shows "utf16_next order (utf16_encode_char order c @ r) =
    Unit16 c (length (utf16_encode_char order c))"
proof (cases "c < 0x10000")
  case True
  with assms show ?thesis by (auto simp: utf16_encode_char_def utf16_next_def scalar_def)
next
  case False
  define h l where "h = (c - 0x10000) div 1024" and "l = (c - 0x10000) mod 1024"
  have hl: "h < 1024" "l < 1024" "c = 0x10000 + h * 1024 + l"
    using False assms div_mult_mod_eq [of "c - 0x10000" 1024]
    by (auto simp: h_def l_def scalar_def)
  have "utf16_encode_char order c = utf16_unit_bytes order (0xD800 + h) @ utf16_unit_bytes order (0xDC00 + l)"
    using False by (simp add: utf16_encode_char_def h_def l_def)
  with hl assms show ?thesis by (simp add: utf16_next_def)
qed

lemma utf16_loop_encode:
  "list_all scalar s \<Longrightarrow>
     utf16_loop order i (utf16_encode order s) = (s, i + length (utf16_encode order s), False)"
proof (induction s arbitrary: i)
  case Nil
  show ?case by (subst utf16_loop.simps) (simp add: utf16_encode_def utf16_next_def)
next
  case (Cons c s)
  have e: "utf16_encode order (c # s) = utf16_encode_char order c @ utf16_encode order s"
    by (simp add: utf16_encode_def)
  from Cons show ?case
    by (subst utf16_loop.simps) (simp add: e utf16_next_encode add.assoc)
qed

lemma utf16_decode_encode:
  "order \<noteq> FromMark \<Longrightarrow> list_all scalar s \<Longrightarrow>
     utf16_decode order (utf16_encode order s) True = (order, s, Inr (length (utf16_encode order s)))"
  by (simp add: utf16_decode_def utf16_decode_ordered_def utf16_loop_encode)

definition utf16_bom :: "byte_order \<Rightarrow> byte list" where
  "utf16_bom order = (if order = Big then [0xFE, 0xFF] else [0xFF, 0xFE])"

text \<open>
  A UTF-16 decoder that takes its byte order from the mark reads the order off the first two
  bytes, keeps it, leaves the mark out of the text and gives back the scalar values that were
  encoded after it in that order.
\<close>

theorem utf16_marked_roundtrip:
  assumes "order \<noteq> FromMark" and "list_all scalar s"
  shows "decode_with (Utf16Decoder FromMark) (utf16_bom order @ utf16_encode order s) True =
    (Utf16Decoder order, s, Inr (2 + length (utf16_encode order s)))"
proof -
  have m: "utf16_mark (utf16_bom order @ r) = (order, 2)" for r
    using assms(1) by (cases order) (auto simp: utf16_mark_def utf16_bom_def)
  have d: "drop 2 (utf16_bom order @ r) = r" for r
    by (auto simp: utf16_bom_def)
  have l: "length (utf16_bom order) = 2"
    by (simp add: utf16_bom_def)
  show ?thesis
    using assms by (simp add: utf16_decode_def m d(1) utf16_decode_ordered_def utf16_loop_encode l
        del: drop_append)
qed

theorem utf16_marked_roundtrip_witness:
  "decode_with (Utf16Decoder FromMark) (utf16_bom Big @ utf16_encode Big [0x3C, 0x1F600]) True =
     (Utf16Decoder Big, [0x3C, 0x1F600], Inr (2 + length (utf16_encode Big [0x3C, 0x1F600])))"
  by (rule utf16_marked_roundtrip) (simp_all add: scalar_def)

text \<open>An encoder and the decoder that reads what it writes.\<close>

definition reads_back :: "encoder_id \<Rightarrow> builtin \<Rightarrow> bool" where
  "reads_back e d \<longleftrightarrow> (e, d) \<in> {(Utf8Encoder, Utf8Decoder),
     (SingleByteEncoder sbe_ascii, AsciiDecoder), (SingleByteEncoder sbe_latin1, Latin1Decoder)}"

definition find_label :: "ustring \<Rightarrow> builtin option" where
  "find_label n = map_option fst (find (\<lambda>(d, labels). n \<in> set labels) builtin_labels)"

lemma find_label_simps:
  "find_label (lit ''utf-8'') = Some Utf8Decoder" "find_label (lit ''utf8'') = Some Utf8Decoder"
  "find_label (lit ''us-ascii'') = Some AsciiDecoder" "find_label (lit ''ascii'') = Some AsciiDecoder"
  "find_label (lit ''ansi_x3.4-1968'') = Some AsciiDecoder"
  "find_label (lit ''iso-8859-1'') = Some Latin1Decoder" "find_label (lit ''iso8859-1'') = Some Latin1Decoder"
  "find_label (lit ''latin1'') = Some Latin1Decoder" "find_label (lit ''iso_8859-1'') = Some Latin1Decoder"
  by (simp_all add: find_label_def builtin_labels_def)

lemma encoder_for_lookup:
  assumes "encoder_for backend label = Inr (Inl e)"
  shows "\<exists>d. lookup label = Some d \<and> reads_back e d"
proof -
  define n where "n = to_ascii_lowercase (trim label)"
  have "(n \<in> set [lit ''utf-8'', lit ''utf8''] \<and> e = Utf8Encoder) \<or>
      (n \<in> set [lit ''us-ascii'', lit ''ascii'', lit ''ansi_x3.4-1968''] \<and> e = SingleByteEncoder sbe_ascii) \<or>
      (n \<in> set [lit ''iso-8859-1'', lit ''iso8859-1'', lit ''latin1'', lit ''iso_8859-1'']
        \<and> e = SingleByteEncoder sbe_latin1)"
    using assms unfolding encoder_for_def Let_def n_def [symmetric]
    by (auto simp del: lit_Cons split: if_splits option.splits)
  moreover have "lookup label = find_label n"
    by (simp add: lookup_def find_label_def n_def Let_def)
  ultimately show ?thesis
    by (simp del: lit_Cons) (elim disjE conjE; simp del: lit_Cons add: find_label_simps reads_back_def)
qed

lemma encode_reads_back:
  assumes "reads_back e d" "list_all scalar s" "encode e s [] = (bs, None)"
  shows "decode_with d bs True = (d, s, Inr (length bs))"
proof -
  have sb: "list_all (\<lambda>c. c < sbe_limit enc) s \<and> bs = map byte_of s"
    if "sbe_encode enc s [] = (bs, None)" for enc
  proof (cases "list_all (\<lambda>c. c < sbe_limit enc) s")
    case True
    with that show ?thesis by (simp add: sbe_encode_accepts)
  next
    case False
    with that sbe_encode_refuses [of enc s "[]"] show ?thesis by simp
  qed
  consider "e = Utf8Encoder" "d = Utf8Decoder" | "e = SingleByteEncoder sbe_ascii" "d = AsciiDecoder"
    | "e = SingleByteEncoder sbe_latin1" "d = Latin1Decoder"
    using assms(1) by (auto simp: reads_back_def)
  then show ?thesis
  proof cases
    case 1
    with assms(2,3) show ?thesis by (auto simp: utf8_encoder_encode_def utf8_decode_iff')
  next
    case 2
    with assms(3) sb [of sbe_ascii] show ?thesis
      by (simp add: ascii_decode_def ascii_loop_encoded sbe_ascii_def)
  next
    case 3
    with assms(3) sb [of sbe_latin1] have "list_all (\<lambda>c. c < 256) s" "bs = map byte_of s"
      by (simp_all add: sbe_latin1_def)
    then have "map unat bs = s" by (simp add: list_all_iff map_idI)
    with 3 show ?thesis by (simp add: latin1_decode_def)
  qed
qed

text \<open>
  C19. What is written with a built-in encoder (UTF-8, ASCII, Latin-1) is read back under its label: when the
  registry has a built-in encoder for a label it also has a built-in decoder for it, and every text of
  Unicode scalar values the encoder accepts (nothing that was refused) decodes to itself, whatever the two
  backends are. Labels that are served by a backend are not covered.
\<close>

theorem encoder_for_decoder_for:
  assumes "encoder_for backend label = Inr (Inl e)"
  shows "\<exists>d. decoder_for backend' label = Inr (Inl d) \<and>
    (\<forall>s bs. list_all scalar s \<and> encode e s [] = (bs, None) \<longrightarrow>
      decode_with d bs True = (d, s, Inr (length bs)))"
proof -
  obtain d where "lookup label = Some d" "reads_back e d"
    using encoder_for_lookup [OF assms] by blast
  then show ?thesis
    by (intro exI [of _ d]) (simp add: decoder_for_def encode_reads_back)
qed

theorem encoder_for_decoder_for_witness:
  "\<exists>d. decoder_for (\<lambda>_. None :: unit option) (lit '' Latin1 '') = Inr (Inl d) \<and>
    (\<forall>s bs. list_all scalar s \<and> encode (SingleByteEncoder sbe_latin1) s [] = (bs, None) \<longrightarrow>
      decode_with d bs True = (d, s, Inr (length bs)))"
  by (rule encoder_for_decoder_for [where backend = "\<lambda>_. None :: unit option"])
     (simp add: encoder_for_def Let_def trim_def white_space_def to_ascii_lower_def)

end
