(* ===== verification/Chars.thy ===== *)
theory Chars
  imports Prelude
begin

text \<open>
  The character classes of XML 1.0 (Fifth Edition), \<open>chars.rs\<close>: one predicate per production, and
  \<open>split_qname\<close>, which cuts a lexical QName at its colon. The lemmas order the classes by
  inclusion and characterise the names \<open>split_qname\<close> accepts.
\<close>

definition is_whitespace :: "uchar \<Rightarrow> bool" where
  "is_whitespace c \<longleftrightarrow> c = cp CHR '' '' \<or> c = 0x9 \<or> c = 0xD \<or> c = 0xA"

definition is_char :: "uchar \<Rightarrow> bool" where
  "is_char c \<longleftrightarrow> c = 0x9 \<or> c = 0xA \<or> c = 0xD \<or> 0x20 \<le> c \<and> c \<le> 0xD7FF
     \<or> 0xE000 \<le> c \<and> c \<le> 0xFFFD \<or> 0x10000 \<le> c \<and> c \<le> 0x10FFFF"

definition is_name_start_char :: "uchar \<Rightarrow> bool" where
  "is_name_start_char c \<longleftrightarrow>
     c = COLON \<or> cp CHR ''A'' \<le> c \<and> c \<le> cp CHR ''Z'' \<or> c = cp CHR ''_''
     \<or> cp CHR ''a'' \<le> c \<and> c \<le> cp CHR ''z''
     \<or> 0xC0 \<le> c \<and> c \<le> 0xD6 \<or> 0xD8 \<le> c \<and> c \<le> 0xF6 \<or> 0xF8 \<le> c \<and> c \<le> 0x2FF
     \<or> 0x370 \<le> c \<and> c \<le> 0x37D \<or> 0x37F \<le> c \<and> c \<le> 0x1FFF
     \<or> 0x200C \<le> c \<and> c \<le> 0x200D \<or> 0x2070 \<le> c \<and> c \<le> 0x218F
     \<or> 0x2C00 \<le> c \<and> c \<le> 0x2FEF \<or> 0x3001 \<le> c \<and> c \<le> 0xD7FF
     \<or> 0xF900 \<le> c \<and> c \<le> 0xFDCF \<or> 0xFDF0 \<le> c \<and> c \<le> 0xFFFD
     \<or> 0x10000 \<le> c \<and> c \<le> 0xEFFFF"

definition is_name_char :: "uchar \<Rightarrow> bool" where
  "is_name_char c \<longleftrightarrow> is_name_start_char c
     \<or> c = cp CHR ''-'' \<or> c = cp CHR ''.'' \<or> cp CHR ''0'' \<le> c \<and> c \<le> cp CHR ''9''
     \<or> c = 0xB7 \<or> 0x300 \<le> c \<and> c \<le> 0x36F \<or> 0x203F \<le> c \<and> c \<le> 0x2040"

definition is_ncname_start_char :: "uchar \<Rightarrow> bool" where
  "is_ncname_start_char c \<longleftrightarrow> c \<noteq> COLON \<and> is_name_start_char c"

definition is_ncname_char :: "uchar \<Rightarrow> bool" where
  "is_ncname_char c \<longleftrightarrow> c \<noteq> COLON \<and> is_name_char c"

definition is_pubid_char :: "uchar \<Rightarrow> bool" where
  "is_pubid_char c \<longleftrightarrow> c = cp CHR '' '' \<or> c = 0xD \<or> c = 0xA
     \<or> cp CHR ''a'' \<le> c \<and> c \<le> cp CHR ''z'' \<or> cp CHR ''A'' \<le> c \<and> c \<le> cp CHR ''Z''
     \<or> cp CHR ''0'' \<le> c \<and> c \<le> cp CHR ''9''
     \<or> c \<in> set (lit ''-()+,./:=?;!*#@$_%'') \<or> c = 0x27"

definition is_pubid_literal :: "ustring \<Rightarrow> bool" where
  "is_pubid_literal s \<longleftrightarrow> list_all is_pubid_char s"

fun is_name :: "ustring \<Rightarrow> bool" where
  "is_name [] = False"
| "is_name (c # s) = (is_name_start_char c \<and> list_all is_name_char s)"

fun is_ncname :: "ustring \<Rightarrow> bool" where
  "is_ncname [] = False"
| "is_ncname (c # s) = (is_ncname_start_char c \<and> list_all is_ncname_char s)"

fun is_enc_name :: "ustring \<Rightarrow> bool" where
  "is_enc_name [] = False"
| "is_enc_name (c # s) = (is_ascii_alphabetic c
     \<and> list_all (\<lambda>c. is_ascii_alphanumeric c \<or> c = cp CHR ''.'' \<or> c = cp CHR ''_'' \<or> c = cp CHR ''-'') s)"

definition is_nmtoken :: "ustring \<Rightarrow> bool" where
  "is_nmtoken s \<longleftrightarrow> s \<noteq> [] \<and> list_all is_name_char s"

definition split_qname :: "ustring \<Rightarrow> (ustring option \<times> ustring) option" where
  "split_qname s =
     (case split_once (COLON) s of
        None \<Rightarrow> if is_ncname s then Some (None, s) else None
      | Some (prefix, local) \<Rightarrow>
          if is_ncname prefix \<and> is_ncname local then Some (Some prefix, local) else None)"

section \<open>Inclusions between the classes\<close>

lemma name_start_char_is_name_char: "is_name_start_char c \<Longrightarrow> is_name_char c"
  by (simp add: is_name_char_def)

lemma ncname_start_char_is_ncname_char: "is_ncname_start_char c \<Longrightarrow> is_ncname_char c"
  by (simp add: is_ncname_char_def is_ncname_start_char_def is_name_char_def)

lemma name_char_is_char: "is_name_char c \<Longrightarrow> is_char c"
  unfolding is_name_char_def is_name_start_char_def is_char_def by auto

lemma whitespace_is_char: "is_whitespace c \<Longrightarrow> is_char c"
  by (auto simp: is_whitespace_def is_char_def)

lemma char_is_scalar: "is_char c \<Longrightarrow> scalar c"
  by (auto simp: is_char_def scalar_def)

lemma name_char_not_markup:
  "is_name_char c \<Longrightarrow> c \<notin> {LT, AMP, GT, SEMI, QUOT, APOS, SLASH}"
  "is_name_char c \<Longrightarrow> \<not> is_whitespace c"
  unfolding is_name_char_def is_name_start_char_def is_whitespace_def by auto

lemma ncname_is_name: "is_ncname s \<Longrightarrow> is_name s"
  by (cases s) (simp_all add: is_ncname_start_char_def is_ncname_char_def list_all_iff)

lemma ncname_iff_name_without_colon: "is_ncname s \<longleftrightarrow> is_name s \<and> COLON \<notin> set s"
  by (cases s) (auto simp: is_ncname_start_char_def is_ncname_char_def list_all_iff)

lemma ncname_no_colon: "is_ncname s \<Longrightarrow> COLON \<notin> set s"
  by (simp add: ncname_iff_name_without_colon)

lemma name_is_nmtoken: "is_name s \<Longrightarrow> is_nmtoken s"
  by (cases s) (auto simp: is_nmtoken_def name_start_char_is_name_char)

lemma ncname_char_is_name_char: "is_ncname_char c \<Longrightarrow> is_name_char c"
  by (simp add: is_ncname_char_def)

lemma colon_name_char: "is_name_char COLON"
  by (simp add: is_name_char_def is_name_start_char_def)

lemma ncname_all_name_chars: "is_ncname s \<Longrightarrow> list_all is_name_char s"
  by (cases s) (auto simp: list_all_iff ncname_char_is_name_char ncname_start_char_is_ncname_char)

lemma name_append_colon:
  assumes "is_ncname p" "is_ncname l"
  shows "is_name (p @ COLON # l)"
proof -
  obtain c p' where p: "p = c # p'" using assms(1) by (cases p) auto
  have "is_name p" using assms(1) by (rule ncname_is_name)
  then show ?thesis using p ncname_all_name_chars [OF assms(2)] colon_name_char by simp
qed

section \<open>QNames\<close>

text \<open>The lexical form a split QName is put together from; \<open>name.rs\<close> calls it \<open>lexical\<close>.\<close>

fun lexical :: "ustring option \<Rightarrow> ustring \<Rightarrow> ustring" where
  "lexical (Some prefix) local = prefix @ COLON # local"
| "lexical None local = local"

lemma split_qname_sound:
  "split_qname s = Some (p, l) \<Longrightarrow> lexical p l = s \<and> is_ncname l \<and> (\<forall>q. p = Some q \<longrightarrow> is_ncname q)"
  by (auto simp: split_qname_def split_once_Some split: option.splits if_splits)

lemma split_qname_complete:
  "is_ncname l \<Longrightarrow> (\<forall>q. p = Some q \<longrightarrow> is_ncname q) \<Longrightarrow> split_qname (lexical p l) = Some (p, l)"
  by (cases p) (auto simp: split_qname_def ncname_no_colon)

text \<open>
  A lexical QName splits into a prefix and a local part exactly when both are NCNames that
  put together give the name back: \<open>split_qname\<close> is the inverse of \<open>lexical\<close> on NCNames, so a
  second colon, an empty prefix or an empty local part is refused.
\<close>

theorem split_qname_iff:
  "split_qname s = Some (p, l) \<longleftrightarrow>
     lexical p l = s \<and> is_ncname l \<and> (case p of None \<Rightarrow> True | Some q \<Rightarrow> is_ncname q)"
  using split_qname_sound [of s p l] split_qname_complete [of l p]
  by (auto split: option.splits)

lemma split_qname_is_name: "split_qname s = Some (p, l) \<Longrightarrow> is_name s"
  by (auto simp: split_qname_def split_once_Some intro: ncname_is_name name_append_colon [simplified]
      split: option.splits if_splits)

end
