(* ===== verification/Names.thy ===== *)
theory Names
  imports Chars
begin

text \<open>
  Interned names, \<open>name.rs\<close>: the handle \<open>NameId\<close>, the pool that gives handles out, and qualified
  names. A pool numbers its names; a fork starts with its parent's names and numbers on from there.
  A handle says which pool gave it out, so that a pool answers only for its own handles and for
  those of its ancestors from before the fork.

  The component theorems cover one pool (interning and resolving are inverse, handles stay valid).
  The second half follows all the pools a process makes: a handle never means two different names,
  whichever pools are asked.
\<close>

datatype name_id = NameId (ni_pool: nat) (ni_index: nat)

definition u32_max :: nat where
  "u32_max = 4294967295"

definition xml_ns_uri :: ustring where
  "xml_ns_uri = lit ''http://www.w3.org/XML/1998/namespace''"

definition xmlns_ns_uri :: ustring where
  "xmlns_ns_uri = lit ''http://www.w3.org/2000/xmlns/''"

definition XML_PREFIX :: ustring where
  "XML_PREFIX = lit ''xml''"

definition XMLNS_PREFIX :: ustring where
  "XMLNS_PREFIX = lit ''xmlns''"

definition reserved_names :: "ustring list" where
  "reserved_names = [[], lit ''xml'', lit ''xmlns'', xml_ns_uri, xmlns_ns_uri]"

definition reserved_len :: nat where
  "reserved_len = length reserved_names"

definition ROOT :: nat where
  "ROOT = 1"

definition reserved :: "nat \<Rightarrow> name_id" where
  "reserved index = NameId ROOT index"

section \<open>The pool\<close>

record name_pool =
  p_id :: nat
  p_lineage :: "(nat \<times> nat) list"
  p_names :: "ustring list"
  p_index :: "ustring \<rightharpoonup> nat"

text \<open>\<open>next_pool_id\<close>: the process-wide counter is a \<open>u32\<close> that wraps, and 0 and 1 are never given.\<close>

definition next_pool_id :: "nat \<Rightarrow> nat \<times> nat" where
  "next_pool_id counter = (max counter 2, (counter + 1) mod 2 ^ 32)"

definition next_index :: "nat \<Rightarrow> nat option" where
  "next_index held = (if held \<le> u32_max \<and> held < u32_max - 1 then Some held else None)"

definition origin :: "name_pool \<Rightarrow> nat \<Rightarrow> nat" where
  "origin p index =
     (case find (\<lambda>(_, e). index < e) (p_lineage p) of Some (pool, _) \<Rightarrow> pool | None \<Rightarrow> p_id p)"

definition intern :: "name_pool \<Rightarrow> ustring \<Rightarrow> (name_id \<times> name_pool) result" where
  "intern p name =
     (case p_index p name of
        Some index \<Rightarrow> Inr (NameId (origin p index) index, p)
      | None \<Rightarrow>
          (case next_index (length (p_names p)) of
             None \<Rightarrow> Inl Limit
           | Some index \<Rightarrow>
               Inr (NameId (p_id p) index,
                    p\<lparr>p_names := p_names p @ [name], p_index := (p_index p)(name \<mapsto> index)\<rparr>)))"

fun intern_all :: "name_pool \<Rightarrow> ustring list \<Rightarrow> name_pool result" where
  "intern_all p [] = Inr p"
| "intern_all p (n # ns) = (case intern p n of Inl e \<Rightarrow> Inl e | Inr (_, p') \<Rightarrow> intern_all p' ns)"

text \<open>\<open>NamePool::new\<close>; \<open>None\<close> is its panic when a reserved name does not fit.\<close>

definition new_pool :: "nat \<Rightarrow> (name_pool \<times> nat) option" where
  "new_pool counter =
     (case next_pool_id counter of
        (i, counter') \<Rightarrow>
          (case intern_all \<lparr>p_id = i, p_lineage = [], p_names = [], p_index = Map.empty\<rparr> reserved_names of
             Inl _ \<Rightarrow> None
           | Inr p \<Rightarrow> Some (p\<lparr>p_lineage := p_lineage p @ [(ROOT, reserved_len)]\<rparr>, counter')))"

text \<open>\<open>NamePool::fork\<close>; \<open>None\<close> is its panic when the number of names is no \<open>u32\<close>.\<close>

definition fork_pool :: "name_pool \<Rightarrow> nat \<Rightarrow> (name_pool \<times> nat) option" where
  "fork_pool p counter =
     (let held = length (p_names p) in
      if u32_max < held then None
      else
        (let lineage =
           (if p_lineage p = [] \<or> snd (last (p_lineage p)) < held
            then p_lineage p @ [(p_id p, held)] else p_lineage p)
         in case next_pool_id counter of
              (i, counter') \<Rightarrow>
                Some (\<lparr>p_id = i, p_lineage = lineage, p_names = p_names p, p_index = p_index p\<rparr>, counter')))"

definition get :: "name_pool \<Rightarrow> ustring \<Rightarrow> name_id option" where
  "get p name = map_option (\<lambda>index. NameId (origin p index) index) (p_index p name)"

definition owns :: "name_pool \<Rightarrow> name_id \<Rightarrow> bool" where
  "owns p h \<longleftrightarrow> ni_index h < length (p_names p) \<and> ni_pool h = origin p (ni_index h)"

definition resolve :: "name_pool \<Rightarrow> name_id \<Rightarrow> ustring option" where
  "resolve p h = (if owns p h then Some (p_names p ! ni_index h) else None)"

text \<open>\<open>resolve_own\<close> asserts ownership; \<open>None\<close> is the panic.\<close>

definition resolve_own :: "name_pool \<Rightarrow> name_id \<Rightarrow> ustring option" where
  "resolve_own p h = (if owns p h then Some (p_names p ! ni_index h) else None)"

definition intern_ncname :: "name_pool \<Rightarrow> ustring \<Rightarrow> (name_id \<times> name_pool) result" where
  "intern_ncname p name = (if is_ncname name then intern p name else Inl Name_Error)"

definition pool_len :: "name_pool \<Rightarrow> nat" where
  "pool_len p = length (p_names p)"

definition pool_is_empty :: "name_pool \<Rightarrow> bool" where
  "pool_is_empty p \<longleftrightarrow> length (p_names p) \<le> length reserved_names"

section \<open>Qualified names\<close>

record expanded_name =
  en_namespace :: "name_id option"
  en_local :: name_id

record qname =
  qn_prefix :: "name_id option"
  qn_expanded :: expanded_name

definition qname_new :: "name_id option \<Rightarrow> name_id option \<Rightarrow> name_id \<Rightarrow> qname" where
  "qname_new prefix namespace local =
     \<lparr>qn_prefix = prefix, qn_expanded = \<lparr>en_namespace = namespace, en_local = local\<rparr>\<rparr>"

abbreviation qn_local :: "qname \<Rightarrow> name_id" where
  "qn_local q \<equiv> en_local (qn_expanded q)"

definition to_lexical :: "qname \<Rightarrow> name_pool \<Rightarrow> ustring option" where
  "to_lexical q pool =
     (case resolve pool (qn_local q) of
        None \<Rightarrow> None
      | Some local \<Rightarrow>
          (case qn_prefix q of
             Some prefix \<Rightarrow> map_option (\<lambda>pr. lexical (Some pr) local) (resolve pool prefix)
           | None \<Rightarrow> Some (lexical None local)))"

section \<open>The well-formedness of a pool\<close>

definition index_ok :: "name_pool \<Rightarrow> bool" where
  "index_ok p \<longleftrightarrow> (\<forall>n i. p_index p n = Some i \<longleftrightarrow> i < length (p_names p) \<and> p_names p ! i = n)"

definition pool_wf :: "name_pool \<Rightarrow> bool" where
  "pool_wf p \<longleftrightarrow> index_ok p \<and> (\<forall>(d, e) \<in> set (p_lineage p). e \<le> length (p_names p))
     \<and> length (p_names p) \<le> u32_max - 1"

lemma origin_cases:
  "origin p i = p_id p \<and> (\<forall>(d, e) \<in> set (p_lineage p). e \<le> i)
   \<or> (\<exists>e. (origin p i, e) \<in> set (p_lineage p) \<and> i < e)"
proof (cases "find (\<lambda>(_, e). i < e) (p_lineage p)")
  case None
  then have "\<forall>(d, e) \<in> set (p_lineage p). e \<le> i"
    by (auto simp: find_None_iff not_less)
  moreover have "origin p i = p_id p" using None by (simp add: origin_def)
  ultimately show ?thesis by simp
next
  case (Some x)
  then obtain d e where x: "x = (d, e)" "(d, e) \<in> set (p_lineage p)" "i < e"
    by (cases x) (force simp: find_Some_iff in_set_conv_nth)
  with Some show ?thesis by (auto simp: origin_def)
qed

lemma origin_new_index: "pool_wf p \<Longrightarrow> length (p_names p) \<le> i \<Longrightarrow> origin p i = p_id p"
  using origin_cases [of p i] by (fastforce simp: pool_wf_def)

lemma origin_update [simp]:
  "origin (p\<lparr>p_names := ns, p_index := m\<rparr>) i = origin p i"
  by (simp add: origin_def split: option.split)

lemma index_ok_Some: "index_ok p \<Longrightarrow> p_index p n = Some i \<Longrightarrow> i < length (p_names p) \<and> p_names p ! i = n"
  by (simp add: index_ok_def)

lemma index_ok_nth: "index_ok p \<Longrightarrow> i < length (p_names p) \<Longrightarrow> p_index p (p_names p ! i) = Some i"
  by (simp add: index_ok_def)

lemma index_ok_extend:
  assumes "index_ok p" "p_index p n = None"
  shows "index_ok (p\<lparr>p_names := p_names p @ [n], p_index := (p_index p)(n \<mapsto> length (p_names p))\<rparr>)"
proof -
  have "p_names p ! i \<noteq> n" if "i < length (p_names p)" for i
    using index_ok_nth [OF assms(1) that] assms(2) by auto
  note new = this
  show ?thesis
    unfolding index_ok_def
  proof (intro allI)
    fix m i
    show "p_index (p\<lparr>p_names := p_names p @ [n], p_index := (p_index p)(n \<mapsto> length (p_names p))\<rparr>) m = Some i \<longleftrightarrow>
        i < length (p_names (p\<lparr>p_names := p_names p @ [n], p_index := (p_index p)(n \<mapsto> length (p_names p))\<rparr>)) \<and>
        p_names (p\<lparr>p_names := p_names p @ [n], p_index := (p_index p)(n \<mapsto> length (p_names p))\<rparr>) ! i = m"
    proof (cases "m = n")
      case True
      with new [of i] show ?thesis by (auto simp: nth_append less_Suc_eq)
    next
      case False
      with assms(1) show ?thesis by (auto simp: index_ok_def nth_append less_Suc_eq)
    qed
  qed
qed

text \<open>What \<open>intern\<close> does: it finds the name, or it adds it at the end of the pool.\<close>

lemma intern_cases [consumes 1, case_names found added]:
  assumes "intern p n = Inr (h, p')"
  obtains i where "p_index p n = Some i" "h = NameId (origin p i) i" "p' = p"
  | "p_index p n = None" "h = NameId (p_id p) (length (p_names p))" "length (p_names p) < u32_max - 1"
    "p' = p\<lparr>p_names := p_names p @ [n], p_index := (p_index p)(n \<mapsto> length (p_names p))\<rparr>"
proof (cases "p_index p n")
  case (Some i)
  with assms have "h = NameId (origin p i) i" "p' = p" by (auto simp: intern_def)
  with Some show ?thesis by (intro that(1))
next
  case None
  show ?thesis
  proof (cases "next_index (length (p_names p))")
    case None': None
    with None assms show ?thesis by (simp add: intern_def)
  next
    case (Some k)
    then have k: "k = length (p_names p)" "length (p_names p) < u32_max - 1"
      by (simp_all add: next_index_def split: if_splits)
    with None Some assms show ?thesis by (intro that(2)) (simp_all add: intern_def)
  qed
qed

lemma intern_wf_added:
  assumes "pool_wf p" "p_index p n = None" "length (p_names p) < u32_max - 1"
  shows "pool_wf (p\<lparr>p_names := p_names p @ [n], p_index := (p_index p)(n \<mapsto> length (p_names p))\<rparr>)"
  unfolding pool_wf_def
proof (intro conjI)
  show "index_ok (p\<lparr>p_names := p_names p @ [n], p_index := (p_index p)(n \<mapsto> length (p_names p))\<rparr>)"
    using assms(1,2) by (intro index_ok_extend) (simp_all add: pool_wf_def)
qed (use assms in \<open>auto simp: pool_wf_def\<close>)

lemma intern_wf: "pool_wf p \<Longrightarrow> intern p n = Inr (h, p') \<Longrightarrow> pool_wf p'"
  using intern_wf_added by (erule_tac intern_cases) simp_all

lemma intern_resolve:
  assumes "pool_wf p" "intern p n = Inr (h, p')"
  shows "resolve p' h = Some n \<and> get p' n = Some h"
  using assms(2)
proof (cases rule: intern_cases)
  case (found i)
  with assms(1) show ?thesis
    by (auto simp: resolve_def owns_def get_def pool_wf_def dest: index_ok_Some)
next
  case added
  with origin_new_index [OF assms(1)] show ?thesis
    by (auto simp: resolve_def owns_def get_def)
qed

lemma intern_keeps:
  assumes "pool_wf p" "intern p n = Inr (h, p')" "resolve p g = Some s"
  shows "resolve p' g = Some s"
  using assms(2)
proof (cases rule: intern_cases)
  case added
  with assms(3) show ?thesis
    by (auto simp: resolve_def owns_def nth_append split: if_splits)
qed (use assms(3) in simp)

lemma resolve_inj:
  assumes "pool_wf p" "resolve p g = Some s" "resolve p h = Some s"
  shows "g = h"
proof -
  have "ni_index g = ni_index h"
    using assms index_ok_nth [of p "ni_index g"] index_ok_nth [of p "ni_index h"]
    by (auto simp: resolve_def owns_def pool_wf_def split: if_splits)
  with assms(2,3) show ?thesis
    by (cases g; cases h) (auto simp: resolve_def owns_def split: if_splits)
qed

text \<open>The interface the components that hold names rely on.\<close>

locale interner =
  fixes wf :: "'p \<Rightarrow> bool"
    and intern :: "'p \<Rightarrow> ustring \<Rightarrow> ('h \<times> 'p) result"
    and resolve :: "'p \<Rightarrow> 'h \<Rightarrow> ustring option"
  assumes wf_intern: "wf p \<Longrightarrow> intern p n = Inr (h, p') \<Longrightarrow> wf p'"
    and resolve_intern: "wf p \<Longrightarrow> intern p n = Inr (h, p') \<Longrightarrow> resolve p' h = Some n"
    and resolve_keeps: "wf p \<Longrightarrow> intern p n = Inr (h, p') \<Longrightarrow> resolve p g = Some s \<Longrightarrow> resolve p' g = Some s"
    and resolve_unique: "wf p \<Longrightarrow> resolve p g = Some s \<Longrightarrow> resolve p h = Some s \<Longrightarrow> g = h"
begin

fun intern_list :: "'p \<Rightarrow> ustring list \<Rightarrow> ('h list \<times> 'p) result" where
  "intern_list p [] = Inr ([], p)"
| "intern_list p (n # ns) =
     (case intern p n of
        Inl e \<Rightarrow> Inl e
      | Inr (h, p') \<Rightarrow> map_sum id (\<lambda>(hs, q). (h # hs, q)) (intern_list p' ns))"

lemma intern_list_Cons:
  "intern_list p (n # ns) = Inr (hs, q) \<longleftrightarrow>
     (\<exists>h p' gs. intern p n = Inr (h, p') \<and> intern_list p' ns = Inr (gs, q) \<and> hs = h # gs)"
proof (cases "intern p n")
  case (Inr r)
  then show ?thesis by (cases r; cases "intern_list (snd r) ns") auto
qed simp

lemma intern_list_spec:
  "wf p \<Longrightarrow> intern_list p ns = Inr (hs, q) \<Longrightarrow>
     wf q \<and> map (resolve q) hs = map Some ns \<and> (\<forall>g s. resolve p g = Some s \<longrightarrow> resolve q g = Some s)"
proof (induction ns arbitrary: p hs)
  case (Cons n ns)
  then obtain h p' gs where h: "intern p n = Inr (h, p')" "intern_list p' ns = Inr (gs, q)" "hs = h # gs"
    by (auto simp: intern_list_Cons simp del: intern_list.simps)
  have "wf p'" using Cons.prems(1) h(1) by (rule wf_intern)
  note IH = Cons.IH [OF this h(2)]
  show ?case
    using IH resolve_intern [OF Cons.prems(1) h(1)] resolve_keeps [OF Cons.prems(1) h(1)] h(3)
    by auto
qed auto

text \<open>Handles stand for names: two handles of a list are equal exactly where the names are.\<close>

lemma intern_list_eq:
  assumes "wf p" "intern_list p ns = Inr (hs, q)" "i < length ns" "j < length ns"
  shows "hs ! i = hs ! j \<longleftrightarrow> ns ! i = ns ! j"
proof -
  note sp = intern_list_spec [OF assms(1,2)]
  have l: "length hs = length ns" using sp by (metis length_map)
  have r: "resolve q (hs ! k) = Some (ns ! k)" if "k < length ns" for k
    using sp that l by (metis nth_map)
  show ?thesis using r [OF assms(3)] r [OF assms(4)] resolve_unique sp by fastforce
qed

end

interpretation pool: interner pool_wf intern resolve
  by unfold_locales (auto intro: intern_wf intern_keeps resolve_inj simp: intern_resolve)

text \<open>
  C23. Interning a name in a well-formed pool gives a handle the pool resolves to that name and finds
  again under that name, leaves every handle that resolved before resolving to the same name, keeps
  the pool well-formed, and handles of one pool are equal exactly where their names are.
\<close>

theorem intern_spec:
  assumes "pool_wf p" and "intern p n = Inr (h, p')"
  shows "pool_wf p' \<and> resolve p' h = Some n \<and> get p' n = Some h \<and>
    (\<forall>g s. resolve p g = Some s \<longrightarrow> resolve p' g = Some s) \<and>
    (\<forall>g s. resolve p' g = Some s \<longrightarrow> (g = h \<longleftrightarrow> s = n))"
  using assms pool.wf_intern [OF assms] intern_resolve [OF assms] pool.resolve_keeps [OF assms]
    pool.resolve_unique [of p'] by fastforce

definition sample_pool :: name_pool where
  "sample_pool = \<lparr>p_id = 2, p_lineage = [(1, 1)], p_names = [[]], p_index = [[] \<mapsto> 0]\<rparr>"

lemma sample_pool_wf: "pool_wf sample_pool"
  by (auto simp: sample_pool_def pool_wf_def index_ok_def u32_max_def nth_Cons split: nat.splits)

theorem intern_spec_witness:
  "intern sample_pool (lit ''a'') =
     Inr (NameId 2 1, sample_pool\<lparr>p_names := [[], lit ''a''], p_index := [[] \<mapsto> 0, lit ''a'' \<mapsto> 1]\<rparr>) \<and>
   resolve (sample_pool\<lparr>p_names := [[], lit ''a''], p_index := [[] \<mapsto> 0, lit ''a'' \<mapsto> 1]\<rparr>) (NameId 2 1)
     = Some (lit ''a'')"
proof -
  have i: "intern sample_pool (lit ''a'') =
     Inr (NameId 2 1, sample_pool\<lparr>p_names := [[], lit ''a''], p_index := [[] \<mapsto> 0, lit ''a'' \<mapsto> 1]\<rparr>)"
    by (simp add: intern_def next_index_def sample_pool_def u32_max_def)
  show ?thesis using i intern_spec [OF sample_pool_wf i] by blast
qed

section \<open>New pools and forks\<close>

lemma intern_fresh:
  assumes "p_index p n = None" "length (p_names p) < u32_max - 1"
  shows "intern p n = Inr (NameId (p_id p) (length (p_names p)),
    p\<lparr>p_names := p_names p @ [n], p_index := (p_index p)(n \<mapsto> length (p_names p))\<rparr>)"
  using assms by (simp add: intern_def next_index_def)

lemma intern_all_fresh:
  "pool_wf p \<Longrightarrow> distinct ns \<Longrightarrow> (\<forall>n\<in>set ns. p_index p n = None) \<Longrightarrow>
     length (p_names p) + length ns \<le> u32_max - 1 \<Longrightarrow>
     \<exists>p'. intern_all p ns = Inr p' \<and> pool_wf p' \<and> p_names p' = p_names p @ ns \<and>
       p_id p' = p_id p \<and> p_lineage p' = p_lineage p"
proof (induction ns arbitrary: p)
  case (Cons n ns)
  let ?q = "p\<lparr>p_names := p_names p @ [n], p_index := (p_index p)(n \<mapsto> length (p_names p))\<rparr>"
  have i: "intern p n = Inr (NameId (p_id p) (length (p_names p)), ?q)"
    using Cons.prems by (intro intern_fresh) auto
  have "pool_wf ?q" using intern_wf [OF Cons.prems(1) i] .
  moreover have "\<forall>m\<in>set ns. p_index ?q m = None" using Cons.prems(2,3) by auto
  ultimately show ?case using Cons.IH [of ?q] Cons.prems(2,4) i by simp
qed simp

lemma reserved_names_distinct: "distinct reserved_names"
  by (simp add: reserved_names_def xml_ns_uri_def xmlns_ns_uri_def)

lemma reserved_len_5 [simp]: "reserved_len = 5" "length reserved_names = 5"
  by (simp_all add: reserved_len_def reserved_names_def)

lemma new_pool_spec:
  "\<exists>p. new_pool c = Some (p, (c + 1) mod 2 ^ 32) \<and> pool_wf p \<and> p_names p = reserved_names \<and>
     p_id p = max c 2 \<and> p_lineage p = [(ROOT, reserved_len)]"
proof -
  let ?e = "\<lparr>p_id = max c 2, p_lineage = [], p_names = [], p_index = Map.empty\<rparr>"
  have "pool_wf ?e" by (simp add: pool_wf_def index_ok_def)
  from intern_all_fresh [OF this reserved_names_distinct]
  obtain p where p: "intern_all ?e reserved_names = Inr p" "pool_wf p" "p_names p = reserved_names"
    "p_id p = max c 2" "p_lineage p = []"
    by (auto simp: u32_max_def)
  then have "new_pool c = Some (p\<lparr>p_lineage := [(ROOT, reserved_len)]\<rparr>, (c + 1) mod 2 ^ 32)"
    by (simp add: new_pool_def next_pool_id_def)
  moreover have "pool_wf (p\<lparr>p_lineage := [(ROOT, reserved_len)]\<rparr>)"
    using p(2,3) by (simp add: pool_wf_def index_ok_def)
  ultimately show ?thesis using p by auto
qed

lemma find_append:
  "find P (xs @ ys) = (case find P xs of None \<Rightarrow> find P ys | Some x \<Rightarrow> Some x)"
  by (induction xs) auto

lemma fork_origin:
  assumes "pool_wf p" "fork_pool p c = Some (q, c')"
  shows "i < length (p_names p) \<Longrightarrow> origin q i = origin p i"
    and "p_names q = p_names p" "p_index q = p_index p" "p_id q = max c 2" "c' = (c + 1) mod 2 ^ 32"
    and "set (p_lineage q) \<subseteq> insert (p_id p, length (p_names p)) (set (p_lineage p))"
    and "p_lineage p \<noteq> [] \<Longrightarrow> hd (p_lineage q) = hd (p_lineage p) \<and> p_lineage q \<noteq> []"
proof -
  have q: "q = \<lparr>p_id = max c 2, p_lineage =
        (if p_lineage p = [] \<or> snd (last (p_lineage p)) < length (p_names p)
         then p_lineage p @ [(p_id p, length (p_names p))] else p_lineage p),
        p_names = p_names p, p_index = p_index p\<rparr>" "c' = (c + 1) mod 2 ^ 32"
    using assms(2) by (auto simp: fork_pool_def Let_def next_pool_id_def split: if_splits)
  then show "p_names q = p_names p" "p_index q = p_index p" "p_id q = max c 2" "c' = (c + 1) mod 2 ^ 32"
    and "set (p_lineage q) \<subseteq> insert (p_id p, length (p_names p)) (set (p_lineage p))"
    and "p_lineage p \<noteq> [] \<Longrightarrow> hd (p_lineage q) = hd (p_lineage p) \<and> p_lineage q \<noteq> []"
    by auto
  show "origin q i = origin p i" if i: "i < length (p_names p)"
  proof (cases "p_lineage p = [] \<or> snd (last (p_lineage p)) < length (p_names p)")
    case True
    with q i show ?thesis by (simp add: origin_def find_append split: option.split)
  next
    case False
    then have "last (p_lineage p) \<in> set (p_lineage p)" "i < snd (last (p_lineage p))" using i by auto
    then have "find (\<lambda>(_, e). i < e) (p_lineage p) \<noteq> None"
      by (metis (mono_tags, lifting) find_None_iff case_prod_beta)
    with False q show ?thesis by (auto simp: origin_def)
  qed
qed

lemma fork_wf: "pool_wf p \<Longrightarrow> fork_pool p c = Some (q, c') \<Longrightarrow> pool_wf q"
proof -
  assume a: "pool_wf p" "fork_pool p c = Some (q, c')"
  note f = fork_origin(2,3,6) [OF a]
  have "index_ok q" using a(1) f(1,2) by (simp add: pool_wf_def index_ok_def)
  moreover have "\<forall>(d, e)\<in>set (p_lineage q). e \<le> length (p_names p)"
    using a(1) f(3) unfolding pool_wf_def by blast
  ultimately show ?thesis using a(1) f(1) by (simp add: pool_wf_def)
qed

lemma fork_pool_total:
  assumes "pool_wf p"
  shows "\<exists>q c'. fork_pool p c = Some (q, c') \<and> pool_wf q \<and>
    (\<forall>h. resolve p h \<noteq> None \<longrightarrow> resolve q h = resolve p h)"
proof -
  have "\<not> u32_max < length (p_names p)"
    using assms by (simp add: pool_wf_def u32_max_def)
  then obtain q c' where f: "fork_pool p c = Some (q, c')"
    by (simp add: fork_pool_def Let_def next_pool_id_def)
  have "resolve q h = resolve p h" if "resolve p h \<noteq> None" for h
    using that fork_origin(1,2) [OF assms f] by (auto simp: resolve_def owns_def)
  with f fork_wf [OF assms f] show ?thesis by blast
qed

text \<open>
  C24. A fork answers for every handle its parent had at the fork, with the same name: forking a
  well-formed pool does not panic, gives a well-formed pool, and what the parent resolves the child
  resolves to the same name.
\<close>

theorem fork_resolves:
  assumes "pool_wf p"
  shows "\<exists>q c'. fork_pool p c = Some (q, c') \<and> pool_wf q \<and>
    (\<forall>h. resolve p h \<noteq> None \<longrightarrow> resolve q h = resolve p h)"
  using assms by (rule fork_pool_total)

theorem fork_resolves_witness:
  "\<exists>q c'. fork_pool sample_pool 3 = Some (q, c') \<and> pool_wf q \<and>
    (\<forall>h. resolve sample_pool h \<noteq> None \<longrightarrow> resolve q h = resolve sample_pool h)"
  by (rule fork_resolves [OF sample_pool_wf])

section \<open>All the pools of a process\<close>

text \<open>
  The pools made so far and the id counter they share. Any pool may intern and fork at any time, in
  any order.
\<close>

inductive pool_step :: "name_pool list \<times> nat \<Rightarrow> name_pool list \<times> nat \<Rightarrow> bool" where
  step_new: "new_pool c = Some (p, c') \<Longrightarrow> pool_step (ps, c) (ps @ [p], c')"
| step_fork: "k < length ps \<Longrightarrow> fork_pool (ps ! k) c = Some (p, c') \<Longrightarrow> pool_step (ps, c) (ps @ [p], c')"
| step_intern: "k < length ps \<Longrightarrow> intern (ps ! k) n = Inr (h, p) \<Longrightarrow> pool_step (ps, c) (ps[k := p], c)"

inductive pools_reachable :: "name_pool list \<times> nat \<Rightarrow> bool" where
  pools_start: "pools_reachable ([], 2)"
| pools_step: "pools_reachable st \<Longrightarrow> pool_step st st' \<Longrightarrow> pools_reachable st'"

definition ids_ok :: "name_pool list \<Rightarrow> nat \<Rightarrow> bool" where
  "ids_ok ps c \<longleftrightarrow> c = length ps + 2 \<and> (\<forall>i<length ps. p_id (ps ! i) = i + 2)"

definition lineage_ok :: "name_pool list \<Rightarrow> name_pool \<Rightarrow> bool" where
  "lineage_ok ps p \<longleftrightarrow> p_lineage p \<noteq> [] \<and> hd (p_lineage p) = (ROOT, 5) \<and>
     take 5 (p_names p) = reserved_names \<and>
     (\<forall>(d, e)\<in>set (p_lineage p). d = ROOT \<and> e = 5 \<or> (\<exists>q\<in>set ps. p_id q = d \<and> e \<le> length (p_names q)))"

definition agree :: "name_pool \<Rightarrow> name_pool \<Rightarrow> bool" where
  "agree p q \<longleftrightarrow> (\<forall>i. i < length (p_names p) \<and> i < length (p_names q) \<and> origin p i = origin q i \<longrightarrow>
     p_names p ! i = p_names q ! i)"

definition pools_inv :: "name_pool list \<times> nat \<Rightarrow> bool" where
  "pools_inv = (\<lambda>(ps, c). ids_ok ps c \<and> (\<forall>p\<in>set ps. pool_wf p \<and> lineage_ok ps p) \<and>
     (\<forall>p\<in>set ps. \<forall>q\<in>set ps. agree p q))"

lemma agree_sym: "agree p q \<Longrightarrow> agree q p"
  by (auto simp: agree_def)

lemma agree_refl [simp]: "agree p p"
  by (simp add: agree_def)

lemma lineage_ok_mono:
  "lineage_ok ps p \<Longrightarrow> (\<And>q. q \<in> set ps \<Longrightarrow> \<exists>r\<in>set qs. p_id r = p_id q \<and> length (p_names q) \<le> length (p_names r)) \<Longrightarrow>
     lineage_ok qs p"
  unfolding lineage_ok_def by (fastforce dest: le_trans)

text \<open>An index below the reserved ones belongs to the root, a later one to a real pool.\<close>

lemma origin_root:
  assumes "lineage_ok ps p" "\<forall>q\<in>set ps. 2 \<le> p_id q" "2 \<le> p_id p"
  shows "origin p i = ROOT \<longleftrightarrow> i < 5"
proof
  assume "i < 5"
  obtain l where "p_lineage p = (ROOT, 5) # l"
    using assms(1) unfolding lineage_ok_def by (metis list.collapse)
  with \<open>i < 5\<close> show "origin p i = ROOT" by (simp add: origin_def)
next
  assume o: "origin p i = ROOT"
  with assms(3) origin_cases [of p i] obtain e where e: "(ROOT, e) \<in> set (p_lineage p)" "i < e"
    by (auto simp: ROOT_def)
  moreover have "\<not> (\<exists>q\<in>set ps. p_id q = ROOT)" using assms(2) by (auto simp: ROOT_def)
  ultimately show "i < 5" using assms(1) by (fastforce simp: lineage_ok_def)
qed

text \<open>A handle of a fresh index of pool \<open>p\<close> is owned by no other pool.\<close>

lemma fresh_index_foreign:
  assumes "lineage_ok ps q" "q \<in> set ps" "p \<in> set ps" "\<forall>a\<in>set ps. \<forall>b\<in>set ps. p_id a = p_id b \<longrightarrow> a = b"
    "p_id p \<noteq> ROOT" "p \<noteq> q"
  shows "origin q (length (p_names p)) \<noteq> p_id p"
proof
  assume o: "origin q (length (p_names p)) = p_id p"
  have "p_id q \<noteq> p_id p" using assms by auto
  with o origin_cases [of q "length (p_names p)"]
  obtain e where "(p_id p, e) \<in> set (p_lineage q)" "length (p_names p) < e" by auto
  with assms show False by (fastforce simp: lineage_ok_def)
qed

lemma ids_ok_distinct:
  assumes "ids_ok ps c"
  shows "\<forall>q\<in>set ps. 2 \<le> p_id q \<and> p_id q < c" "\<forall>a\<in>set ps. \<forall>b\<in>set ps. p_id a = p_id b \<longrightarrow> a = b"
  using assms by (auto simp: ids_ok_def in_set_conv_nth)

lemma pools_inv_new:
  assumes inv: "pools_inv (ps, c)" and c: "c < 2 ^ 32 - 1" and n: "new_pool c = Some (p, c')"
  shows "pools_inv (ps @ [p], c')"
proof -
  from inv have ids: "ids_ok ps c" and l: "\<forall>p\<in>set ps. pool_wf p \<and> lineage_ok ps p"
    and a: "\<forall>p\<in>set ps. \<forall>q\<in>set ps. agree p q" by (auto simp: pools_inv_def)
  have c2: "2 \<le> c" using ids by (simp add: ids_ok_def)
  have p: "pool_wf p" "p_names p = reserved_names" "p_id p = c" "p_lineage p = [(ROOT, 5)]" "c' = c + 1"
    using new_pool_spec [of c] n c c2 by auto
  have lp: "lineage_ok (ps @ [p]) p" using p by (simp add: lineage_ok_def)
  have l': "\<forall>q\<in>set (ps @ [p]). pool_wf q \<and> lineage_ok (ps @ [p]) q"
    using l lp p(1) lineage_ok_mono [of ps _ "ps @ [p]"] by auto
  have "agree p q" if "q \<in> set ps" for q
    using l that p by (auto simp: agree_def lineage_ok_def) (metis nth_take)
  then have "\<forall>x\<in>set (ps @ [p]). \<forall>y\<in>set (ps @ [p]). agree x y"
    using a agree_sym by auto
  moreover have "ids_ok (ps @ [p]) c'"
    using ids p by (auto simp: ids_ok_def nth_append less_Suc_eq)
  ultimately show ?thesis using l' by (simp add: pools_inv_def)
qed

lemma pools_inv_fork:
  assumes inv: "pools_inv (ps, c)" and c: "c < 2 ^ 32 - 1" and k: "k < length ps"
    and f: "fork_pool (ps ! k) c = Some (p, c')"
  shows "pools_inv (ps @ [p], c')"
proof -
  let ?q = "ps ! k"
  have q: "?q \<in> set ps" using k by simp
  from inv have ids: "ids_ok ps c" and l: "\<forall>p\<in>set ps. pool_wf p \<and> lineage_ok ps p"
    and a: "\<forall>p\<in>set ps. \<forall>q\<in>set ps. agree p q" by (auto simp: pools_inv_def)
  have c2: "2 \<le> c" using ids by (simp add: ids_ok_def)
  have w: "pool_wf ?q" "lineage_ok ps ?q" using l q by auto
  note o = fork_origin [OF w(1) f]
  have p: "p_id p = c" "c' = c + 1" using o(4,5) c c2 by auto
  have lp: "lineage_ok (ps @ [p]) p"
    using w(2) o(2,6,7) q unfolding lineage_ok_def by (force dest!: subsetD)
  have l': "\<forall>r\<in>set (ps @ [p]). pool_wf r \<and> lineage_ok (ps @ [p]) r"
    using l lp fork_wf [OF w(1) f] lineage_ok_mono [of ps _ "ps @ [p]"] by auto
  have "agree p r" if "r \<in> set ps" for r
    using a q that o(1,2) unfolding agree_def by metis
  then have "\<forall>x\<in>set (ps @ [p]). \<forall>y\<in>set (ps @ [p]). agree x y"
    using a agree_sym by auto
  moreover have "ids_ok (ps @ [p]) c'"
    using ids p by (auto simp: ids_ok_def nth_append less_Suc_eq)
  ultimately show ?thesis using l' by (simp add: pools_inv_def)
qed

lemma agree_intern_added:
  assumes "agree p q" "origin q (length (p_names p)) \<noteq> p_id p" "pool_wf p"
  shows "agree (p\<lparr>p_names := p_names p @ [n], p_index := m\<rparr>) q"
  using assms origin_new_index [of p "length (p_names p)"]
  by (auto simp: agree_def nth_append less_Suc_eq)

lemma pools_inv_intern:
  assumes inv: "pools_inv (ps, c)" and k: "k < length ps" and i: "intern (ps ! k) n = Inr (h, p)"
  shows "pools_inv (ps[k := p], c)"
  using i
proof (cases rule: intern_cases)
  case (found j)
  with inv show ?thesis by simp
next
  case added
  let ?q = "ps ! k"
  have q: "?q \<in> set ps" using k by simp
  from inv have ids: "ids_ok ps c" and l: "\<forall>p\<in>set ps. pool_wf p \<and> lineage_ok ps p"
    and a: "\<forall>p\<in>set ps. \<forall>q\<in>set ps. agree p q" by (auto simp: pools_inv_def)
  note d = ids_ok_distinct [OF ids]
  have wq: "pool_wf ?q" "lineage_ok ps ?q" "p_id ?q \<noteq> ROOT" using l q d(1) by (auto simp: ROOT_def)
  have p: "p_id p = p_id ?q" "p_lineage p = p_lineage ?q" "p_names p = p_names ?q @ [n]"
    using added by simp_all
  have ids': "ids_ok (ps[k := p]) c"
    using ids k p(1) by (auto simp: ids_ok_def nth_list_update)
  have mono: "\<exists>r\<in>set (ps[k := p]). p_id r = p_id x \<and> length (p_names x) \<le> length (p_names r)"
    if "x \<in> set ps" for x
  proof (cases "x = ?q")
    case True
    with p k show ?thesis by (intro bexI [of _ p]) (auto simp: set_update_memI)
  next
    case False
    with that obtain j where "j < length ps" "x = ps ! j" "j \<noteq> k" by (metis in_set_conv_nth)
    then have "x \<in> set (ps[k := p])" by (metis length_list_update nth_list_update_neq nth_mem)
    then show ?thesis by auto
  qed
  have lp: "lineage_ok ps p"
    using wq(2) p(2,3) by (auto simp: lineage_ok_def dest: arg_cong [where f = length])
  have mem: "x = p \<or> x \<in> set ps \<and> x \<noteq> ?q" if "x \<in> set (ps[k := p])" for x
  proof -
    from that obtain j where j: "j < length ps" "x = ps[k := p] ! j" by (auto simp: in_set_conv_nth)
    show ?thesis
    proof (cases "j = k")
      case False
      with j have x: "x = ps ! j" by simp
      have "p_id x = j + 2" "p_id ?q = k + 2" using ids j(1) k x by (simp_all add: ids_ok_def)
      with False have "x \<noteq> ?q" by auto
      with x j(1) show ?thesis by simp
    qed (use j in simp)
  qed
  have l': "\<forall>x\<in>set (ps[k := p]). pool_wf x \<and> lineage_ok (ps[k := p]) x"
    using mem l lp intern_wf [OF wq(1) i] lineage_ok_mono [OF _ mono] by blast
  have "agree p x" if "x \<in> set ps" "x \<noteq> ?q" for x
  proof -
    have "origin x (length (p_names ?q)) \<noteq> p_id ?q"
      using fresh_index_foreign [of ps x ?q] l that q d(2) wq(3) by blast
    then show ?thesis
      using agree_intern_added [where p = ?q and q = x and n = n] a that q wq(1) added(4) by simp
  qed
  then have "\<forall>x\<in>set (ps[k := p]). \<forall>y\<in>set (ps[k := p]). agree x y"
    using a agree_sym mem by (metis agree_refl)
  with ids' l' show ?thesis by (simp add: pools_inv_def)
qed

lemma pool_step_length: "pool_step (ps, c) (qs, d) \<Longrightarrow> length ps \<le> length qs"
  by (auto elim: pool_step.cases)

lemma pools_reachable_inv:
  "pools_reachable st \<Longrightarrow> length (fst st) + 2 < 2 ^ 32 \<Longrightarrow> pools_inv st"
proof (induction rule: pools_reachable.induct)
  case pools_start
  show ?case by (simp add: pools_inv_def ids_ok_def)
next
  case (pools_step st st')
  obtain ps c ps' c' where st: "st = (ps, c)" "st' = (ps', c')" by fastforce
  have inv: "pools_inv (ps, c)"
    using pools_step pool_step_length [of ps c ps' c'] st by auto
  then have c: "c = length ps + 2" by (simp add: pools_inv_def ids_ok_def)
  from pools_step.hyps(2) pools_step.prems show ?case
    unfolding st
    by (cases rule: pool_step.cases)
       (use inv c in \<open>auto intro: pools_inv_new pools_inv_fork pools_inv_intern\<close>)
qed

text \<open>
  C10. While the pool numbers have not wrapped, a handle never stands for two names. Take any run of the pools
  of one process, with new pools, forks of any pool and interning in any pool interleaved in any order, in
  which fewer than $2^{32} - 2$ pools were made: if two pools both resolve a
  handle, they resolve it to the same name. In particular a handle a parent gave out after a fork
  is not mistaken for one of the child, and the other way round.
\<close>

theorem handles_unambiguous:
  assumes "pools_reachable (ps, c)" and "length ps < 2 ^ 32 - 2"
    and "p \<in> set ps" and "q \<in> set ps" and "resolve p h = Some s" and "resolve q h = Some t"
  shows "s = t"
proof -
  have "pools_inv (ps, c)" using pools_reachable_inv [OF assms(1)] assms(2) by simp
  with assms(3,4) have "agree p q" by (simp add: pools_inv_def)
  with assms(5,6) show ?thesis by (auto simp: agree_def resolve_def owns_def split: if_splits)
qed

theorem handles_unambiguous_witness:
  "\<exists>ps c p q h s t. pools_reachable (ps, c) \<and> p \<in> set ps \<and> q \<in> set ps \<and> p_id p \<noteq> p_id q \<and>
    resolve p h = Some s \<and> resolve q h = Some t \<and> s = t"
proof -
  obtain p where p: "new_pool 2 = Some (p, 3)" "pool_wf p" "p_names p = reserved_names" "p_id p = 2"
    "p_lineage p = [(ROOT, reserved_len)]"
    using new_pool_spec [of 2] by auto
  obtain q where q: "fork_pool p 3 = Some (q, 4)" "p_id q = 3"
    "\<forall>h. resolve p h \<noteq> None \<longrightarrow> resolve q h = resolve p h"
    using fork_pool_total [OF p(2), of 3] fork_origin(4,5) [OF p(2), of 3] by auto
  have "pools_reachable ([p], 3)"
    using pools_reachable.pools_step [OF pools_reachable.pools_start] step_new [OF p(1), of "[]"] by simp
  then have r: "pools_reachable ([p, q], 4)"
    using pools_reachable.pools_step step_fork [of 0 "[p]" 3 q 4] q(1) by fastforce
  have h: "resolve p (NameId 1 1) = Some (lit ''xml'')"
    using p(3,5) by (simp add: resolve_def owns_def origin_def ROOT_def reserved_names_def)
  with q(3) have h': "resolve q (NameId 1 1) = Some (lit ''xml'')" by simp
  have "lit ''xml'' = lit ''xml''"
    by (rule handles_unambiguous [OF r _ _ _ h h']) simp_all
  with r h h' p(4) q(2) show ?thesis
    by (intro exI [of _ "[p, q]"] exI [of _ 4] exI [of _ p] exI [of _ q] exI [of _ "NameId 1 1"]
        exI [of _ "lit ''xml''"] conjI) simp_all
qed

end
