(* ===== verification/Dtd_Model.thy ===== *)
theory Dtd_Model
  imports Names
begin

text \<open>
  DTD declarations as data, \<open>dtd/model.rs\<close>: what a DTD declares, the queries and the \<open>declare_*\<close>
  operations. A \<open>HashMap\<close> is a map, a \<open>HashSet\<close> a set. The lemmas state the rule every declaration
  follows: the first declaration of a name is binding and a later one changes nothing.
\<close>

datatype general_entity =
  GInternal ustring
| GExternal "ustring option" ustring "ustring option"
| GUnparsed "ustring option" ustring "ustring option" name_id

datatype parameter_entity =
  PInternal ustring
| PExternal "ustring option" ustring "ustring option"

datatype att_type =
  Cdata | Id | IdRef | IdRefs | Entity | Entities | Nmtoken | Nmtokens
| Notation "name_id list" | Enumeration "name_id list"

definition is_tokenized :: "att_type \<Rightarrow> bool" where
  "is_tokenized t \<longleftrightarrow> t \<noteq> Cdata"

datatype default_decl = Required | Implied | Fixed ustring | Default ustring

fun default_value :: "default_decl \<Rightarrow> ustring option" where
  "default_value (Fixed v) = Some v"
| "default_value (Default v) = Some v"
| "default_value Required = None"
| "default_value Implied = None"

record att_def =
  ad_name :: name_id
  ad_type :: att_type
  ad_default :: default_decl

record external_id =
  xi_public_id :: "ustring option"
  xi_system_id :: "ustring option"

datatype occurs = Once | Optional | ZeroOrMore | OneOrMore

datatype content_particle =
  Name name_id occurs
| Choice "content_particle list" occurs
| Seq "content_particle list" occurs

datatype content_spec = CEmpty | CAny | Mixed "name_id list" | Children content_particle

record dtd =
  d_general :: "name_id \<rightharpoonup> general_entity"
  d_parameter :: "name_id \<rightharpoonup> parameter_entity"
  d_elements :: "name_id \<rightharpoonup> content_spec"
  d_attlists :: "name_id \<rightharpoonup> att_def list"
  d_notations :: "name_id \<rightharpoonup> external_id"
  d_external_general :: "name_id set"
  d_external_attlist :: "name_id set"

definition empty_dtd :: dtd where
  "empty_dtd = \<lparr>d_general = Map.empty, d_parameter = Map.empty, d_elements = Map.empty,
     d_attlists = Map.empty, d_notations = Map.empty, d_external_general = {}, d_external_attlist = {}\<rparr>"

section \<open>Tokenized values\<close>

text \<open>The further normalization of a value that is not \<open>CDATA\<close>: no spaces at the ends, and single ones inside.\<close>

definition normalize_tokenized :: "ustring \<Rightarrow> bool \<Rightarrow> ustring" where
  "normalize_tokenized value tokenized =
     (if \<not> tokenized then value else join [0x20] (filter (\<lambda>part. part \<noteq> []) (split_on 0x20 value)))"

section \<open>Declaring\<close>

text \<open>\<open>!contains_key(&name) && insert(name, v).is_none()\<close>: whether it was new, and the map after.\<close>

definition insert_new :: "('k \<rightharpoonup> 'v) \<Rightarrow> 'k \<Rightarrow> 'v \<Rightarrow> bool \<times> ('k \<rightharpoonup> 'v)" where
  "insert_new m k v = (if m k \<noteq> None then (False, m) else (True, m(k \<mapsto> v)))"

definition declare_element :: "dtd \<Rightarrow> name_id \<Rightarrow> content_spec \<Rightarrow> bool \<times> dtd" where
  "declare_element d name content =
     (case insert_new (d_elements d) name content of (new, m) \<Rightarrow> (new, d\<lparr>d_elements := m\<rparr>))"

fun push_new_defs :: "att_def list \<Rightarrow> att_def list \<Rightarrow> att_def list" where
  "push_new_defs xs [] = xs"
| "push_new_defs xs (a # as) =
     push_new_defs (if list_ex (\<lambda>e. ad_name e = ad_name a) xs then xs else xs @ [a]) as"

definition declare_attributes :: "dtd \<Rightarrow> name_id \<Rightarrow> att_def list \<Rightarrow> dtd" where
  "declare_attributes d element defs =
     (let old = (case d_attlists d element of None \<Rightarrow> [] | Some l \<Rightarrow> l)
      in d\<lparr>d_attlists := (d_attlists d)(element \<mapsto> push_new_defs old defs)\<rparr>)"

definition declare_general_entity :: "dtd \<Rightarrow> name_id \<Rightarrow> general_entity \<Rightarrow> bool \<times> dtd" where
  "declare_general_entity d name entity =
     (case insert_new (d_general d) name entity of (new, m) \<Rightarrow> (new, d\<lparr>d_general := m\<rparr>))"

definition declare_parameter_entity :: "dtd \<Rightarrow> name_id \<Rightarrow> parameter_entity \<Rightarrow> bool \<times> dtd" where
  "declare_parameter_entity d name entity =
     (case insert_new (d_parameter d) name entity of (new, m) \<Rightarrow> (new, d\<lparr>d_parameter := m\<rparr>))"

definition declare_notation :: "dtd \<Rightarrow> name_id \<Rightarrow> external_id \<Rightarrow> bool \<times> dtd" where
  "declare_notation d name i =
     (case insert_new (d_notations d) name i of (new, m) \<Rightarrow> (new, d\<lparr>d_notations := m\<rparr>))"

definition mark_general_entity_external :: "dtd \<Rightarrow> name_id \<Rightarrow> dtd" where
  "mark_general_entity_external d name = d\<lparr>d_external_general := insert name (d_external_general d)\<rparr>"

definition mark_attlist_external :: "dtd \<Rightarrow> name_id \<Rightarrow> dtd" where
  "mark_attlist_external d element = d\<lparr>d_external_attlist := insert element (d_external_attlist d)\<rparr>"

section \<open>The first declaration is binding\<close>

datatype decl =
  DElement name_id content_spec | DAttlist name_id "att_def list" | DGeneral name_id general_entity
| DParameter name_id parameter_entity | DNotation name_id external_id
| DGeneralExternal name_id | DAttlistExternal name_id

fun declare_one :: "dtd \<Rightarrow> decl \<Rightarrow> dtd" where
  "declare_one d (DElement n c) = snd (declare_element d n c)"
| "declare_one d (DAttlist n as) = declare_attributes d n as"
| "declare_one d (DGeneral n e) = snd (declare_general_entity d n e)"
| "declare_one d (DParameter n e) = snd (declare_parameter_entity d n e)"
| "declare_one d (DNotation n x) = snd (declare_notation d n x)"
| "declare_one d (DGeneralExternal n) = mark_general_entity_external d n"
| "declare_one d (DAttlistExternal n) = mark_attlist_external d n"

fun declare_list :: "dtd \<Rightarrow> decl list \<Rightarrow> dtd" where
  "declare_list d [] = d"
| "declare_list d (x # xs) = declare_list (declare_one d x) xs"

lemma push_new_defs_prefix: "\<exists>r. push_new_defs xs as = xs @ r"
proof (induction as arbitrary: xs)
  case (Cons a as)
  from Cons [of xs] Cons [of "xs @ [a]"] show ?case by auto
qed simp

lemma push_new_defs_distinct:
  "distinct (map ad_name xs) \<Longrightarrow> distinct (map ad_name (push_new_defs xs as))"
proof (induction as arbitrary: xs)
  case (Cons a as)
  have "\<not> list_ex (\<lambda>e. ad_name e = ad_name a) xs \<Longrightarrow> distinct (map ad_name (xs @ [a]))"
    using Cons.prems by (force simp: list_ex_iff)
  with Cons show ?case by simp
qed simp

lemma push_new_defs_names:
  "ad_name ` set (push_new_defs xs as) = ad_name ` set xs \<union> ad_name ` set as"
proof (induction as arbitrary: xs)
  case (Cons a as)
  show ?case
  proof (cases "list_ex (\<lambda>e. ad_name e = ad_name a) xs")
    case True
    then have "ad_name a \<in> ad_name ` set xs" by (metis (mono_tags, lifting) list_ex_iff imageI)
    with True Cons show ?thesis by (simp add: insert_absorb)
  next
    case False
    with Cons show ?thesis by auto
  qed
qed simp

definition dtd_le :: "dtd \<Rightarrow> dtd \<Rightarrow> bool" where
  "dtd_le d d' \<longleftrightarrow> d_general d \<subseteq>\<^sub>m d_general d' \<and> d_parameter d \<subseteq>\<^sub>m d_parameter d' \<and>
     d_elements d \<subseteq>\<^sub>m d_elements d' \<and> d_notations d \<subseteq>\<^sub>m d_notations d' \<and>
     (\<forall>e l. d_attlists d e = Some l \<longrightarrow> (\<exists>r. d_attlists d' e = Some (l @ r)))"

lemma dtd_le_refl: "dtd_le d d"
  by (auto simp: dtd_le_def)

lemma dtd_le_trans: "dtd_le a b \<Longrightarrow> dtd_le b c \<Longrightarrow> dtd_le a c"
  unfolding dtd_le_def by (metis append.assoc map_le_trans)

lemma declare_one_le: "dtd_le d (declare_one d x)"
proof (cases x)
  case (DAttlist n as)
  then show ?thesis
    using push_new_defs_prefix [of _ as]
    by (auto simp: dtd_le_def declare_attributes_def Let_def split: option.splits)
qed (auto simp: dtd_le_def declare_element_def declare_general_entity_def declare_parameter_entity_def
    declare_notation_def mark_general_entity_external_def mark_attlist_external_def insert_new_def
    map_le_def dom_def)

definition attlists_distinct :: "dtd \<Rightarrow> bool" where
  "attlists_distinct d \<longleftrightarrow> (\<forall>e l. d_attlists d e = Some l \<longrightarrow> distinct (map ad_name l))"

lemma declare_one_distinct: "attlists_distinct d \<Longrightarrow> attlists_distinct (declare_one d x)"
proof (cases x)
  case (DAttlist n as)
  assume "attlists_distinct d"
  with DAttlist show ?thesis
    using push_new_defs_distinct [of "[]" as] push_new_defs_distinct [of _ as]
    by (auto simp: attlists_distinct_def declare_attributes_def Let_def split: option.splits if_splits)
qed (auto simp: attlists_distinct_def declare_element_def declare_general_entity_def
    declare_parameter_entity_def declare_notation_def mark_general_entity_external_def
    mark_attlist_external_def insert_new_def)

text \<open>
  C26. The first declaration of a name is binding: whatever further declarations follow, every
  entity, element and notation keeps the meaning it had, an attribute list only grows at its end,
  and no attribute is ever listed twice for one element.
\<close>

theorem first_declaration_binding:
  "dtd_le (declare_list empty_dtd xs) (declare_list empty_dtd (xs @ ys)) \<and>
   attlists_distinct (declare_list empty_dtd (xs @ ys))"
proof -
  have app: "declare_list d (xs @ ys) = declare_list (declare_list d xs) ys" for d
    by (induction xs arbitrary: d) auto
  have le: "dtd_le d (declare_list d zs)" for d zs
    by (induction zs arbitrary: d) (auto intro: dtd_le_refl dtd_le_trans [OF declare_one_le])
  have di: "attlists_distinct d \<Longrightarrow> attlists_distinct (declare_list d zs)" for d zs
    by (induction zs arbitrary: d) (auto intro: declare_one_distinct)
  have "attlists_distinct empty_dtd" by (simp add: attlists_distinct_def empty_dtd_def)
  with app le di show ?thesis by simp
qed

end
