(* ===== verification/Content_Model.thy ===== *)
theory Content_Model
  imports Dtd_Model
begin

text \<open>
  Matching children against an element content model, \<open>dtd/validate/content.rs\<close>: the compilation of
  a content particle to a Glushkov automaton, the matching of a child sequence with it, the set of
  names a failure reports, and the determinism test of XML's Appendix E.

  The specification is the language a particle denotes as a regular expression. The proof goes
  through words of positions: the automaton's \<open>first\<close>, \<open>last\<close> and \<open>follow\<close> describe exactly the
  position words of the particle, since every name of the particle has a position of its own.
\<close>

section \<open>The compiled model\<close>

record content_model =
  cm_symbols :: "name_id list"
  cm_first :: "nat list"
  cm_last :: "nat list"
  cm_follow :: "nat list list"
  cm_nullable :: bool

record fragment =
  fr_nullable :: bool
  fr_first :: "nat list"
  fr_last :: "nat list"

definition push_unique :: "'a list \<Rightarrow> 'a \<Rightarrow> 'a list" where
  "push_unique target v = (if v \<in> set target then target else target @ [v])"

fun extend_unique :: "'a list \<Rightarrow> 'a list \<Rightarrow> 'a list" where
  "extend_unique target [] = target"
| "extend_unique target (v # vs) = extend_unique (push_unique target v) vs"

text \<open>The table under construction: the symbols and the \<open>follow\<close> lists so far.\<close>

type_synonym table = "name_id list \<times> nat list list"

text \<open>\<open>for &l in last \<dots> for &f in first \<dots> push_unique(&mut follow[l], f)\<close>\<close>

fun link_one :: "nat list list \<Rightarrow> nat \<Rightarrow> nat list \<Rightarrow> nat list list" where
  "link_one follow l [] = follow"
| "link_one follow l (f # fs) = link_one (follow[l := push_unique (follow ! l) f]) l fs"

fun link :: "nat list list \<Rightarrow> nat list \<Rightarrow> nat list \<Rightarrow> nat list list" where
  "link follow [] fs = follow"
| "link follow (l # ls) fs = link (link_one follow l fs) ls fs"

definition repeatable :: "occurs \<Rightarrow> bool" where
  "repeatable oc \<longleftrightarrow> oc = ZeroOrMore \<or> oc = OneOrMore"

definition optional :: "occurs \<Rightarrow> bool" where
  "optional oc \<longleftrightarrow> oc = Optional \<or> oc = ZeroOrMore"

fun apply_occurs :: "table \<Rightarrow> fragment \<Rightarrow> occurs \<Rightarrow> table \<times> fragment" where
  "apply_occurs (syms, follow) fr oc =
     ((syms, if repeatable oc then link follow (fr_last fr) (fr_first fr) else follow),
      fr\<lparr>fr_nullable := fr_nullable fr \<or> optional oc\<rparr>)"

fun build :: "table \<Rightarrow> content_particle \<Rightarrow> table \<times> fragment"
and build_seq :: "table \<Rightarrow> content_particle list \<Rightarrow> fragment \<Rightarrow> table \<times> fragment"
and build_choice :: "table \<Rightarrow> content_particle list \<Rightarrow> fragment \<Rightarrow> table \<times> fragment" where
  "build (syms, follow) (Name n oc) =
     (let position = length syms in
      apply_occurs (syms @ [n], follow @ [[]])
        \<lparr>fr_nullable = False, fr_first = [position], fr_last = [position]\<rparr> oc)"
| "build t (Seq ps oc) =
     (case build_seq t ps \<lparr>fr_nullable = True, fr_first = [], fr_last = []\<rparr> of
        (t', fr) \<Rightarrow> apply_occurs t' fr oc)"
| "build t (Choice ps oc) =
     (case build_choice t ps \<lparr>fr_nullable = False, fr_first = [], fr_last = []\<rparr> of
        (t', fr) \<Rightarrow> apply_occurs t' fr oc)"
| "build_seq t [] acc = (t, acc)"
| "build_seq t (p # ps) acc =
     (case build t p of
        ((syms, follow), fr) \<Rightarrow>
          build_seq (syms, link follow (fr_last acc) (fr_first fr)) ps
            \<lparr>fr_nullable = fr_nullable acc \<and> fr_nullable fr,
             fr_first = (if fr_nullable acc then extend_unique (fr_first acc) (fr_first fr) else fr_first acc),
             fr_last = (if fr_nullable fr then extend_unique (fr_last acc) (fr_last fr) else fr_last fr)\<rparr>)"
| "build_choice t [] acc = (t, acc)"
| "build_choice t (p # ps) acc =
     (case build t p of
        (t', fr) \<Rightarrow>
          build_choice t' ps
            \<lparr>fr_nullable = fr_nullable acc \<or> fr_nullable fr,
             fr_first = extend_unique (fr_first acc) (fr_first fr),
             fr_last = extend_unique (fr_last acc) (fr_last fr)\<rparr>)"

definition compile :: "content_particle \<Rightarrow> content_model" where
  "compile particle =
     (case build ([], []) particle of
        ((syms, follow), root) \<Rightarrow>
          \<lparr>cm_symbols = syms, cm_first = fr_first root, cm_last = fr_last root, cm_follow = follow,
           cm_nullable = fr_nullable root\<rparr>)"

section \<open>Matching\<close>

record match_failure =
  mf_at :: "name_id option"
  mf_allowed :: "name_id list"

definition dedup :: "nat list \<Rightarrow> nat list" where
  "dedup positions = remdups_adj (sort positions)"

text \<open>
  The code sorts by index with an unstable sort. Handles of one pool with one index are equal, so
  for the handles of a DTD the order of equal keys does not show.
\<close>

definition symbols_of :: "content_model \<Rightarrow> nat list \<Rightarrow> name_id list" where
  "symbols_of m positions = remdups_adj (sort_key ni_index (map ((!) (cm_symbols m)) positions))"

fun run :: "content_model \<Rightarrow> nat list \<Rightarrow> nat list \<Rightarrow> name_id list \<Rightarrow> match_failure + (nat list \<times> nat list)" where
  "run m active matched [] = Inr (active, matched)"
| "run m active matched (child # children) =
     (let nxt = filter (\<lambda>p. cm_symbols m ! p = child) active in
      if nxt = [] then Inl \<lparr>mf_at = Some child, mf_allowed = symbols_of m active\<rparr>
      else run m (dedup (concat (map ((!) (cm_follow m)) nxt))) nxt children)"

definition matches :: "content_model \<Rightarrow> name_id list \<Rightarrow> match_failure option" where
  "matches m children =
     (case run m (cm_first m) [] children of
        Inl e \<Rightarrow> Some e
      | Inr (active, matched) \<Rightarrow>
          (let accepts = (if children = [] then cm_nullable m
                          else list_ex (\<lambda>p. p \<in> set (cm_last m)) matched)
           in if accepts then None else Some \<lparr>mf_at = None, mf_allowed = symbols_of m active\<rparr>))"

fun has_duplicate_loop :: "name_id list \<Rightarrow> nat list \<Rightarrow> name_id list \<Rightarrow> bool" where
  "has_duplicate_loop seen [] symbols = False"
| "has_duplicate_loop seen (p # ps) symbols =
     (symbols ! p \<in> set seen \<or> has_duplicate_loop (seen @ [symbols ! p]) ps symbols)"

definition has_duplicate_symbol :: "nat list \<Rightarrow> name_id list \<Rightarrow> bool" where
  "has_duplicate_symbol positions symbols = has_duplicate_loop [] positions symbols"

definition is_deterministic :: "content_model \<Rightarrow> bool" where
  "is_deterministic m \<longleftrightarrow> \<not> has_duplicate_symbol (cm_first m) (cm_symbols m) \<and>
     list_all (\<lambda>targets. \<not> has_duplicate_symbol targets (cm_symbols m)) (cm_follow m)"

section \<open>The language of a particle\<close>

definition conc :: "'a list set \<Rightarrow> 'a list set \<Rightarrow> 'a list set" where
  "conc A B = {u @ v | u v. u \<in> A \<and> v \<in> B}"

inductive_set star :: "'a list set \<Rightarrow> 'a list set" for A where
  star_Nil: "[] \<in> star A"
| star_append: "u \<in> A \<Longrightarrow> v \<in> star A \<Longrightarrow> u @ v \<in> star A"

fun repeat :: "occurs \<Rightarrow> 'a list set \<Rightarrow> 'a list set" where
  "repeat Once A = A"
| "repeat Optional A = insert [] A"
| "repeat ZeroOrMore A = star A"
| "repeat OneOrMore A = conc A (star A)"

fun lang :: "content_particle \<Rightarrow> name_id list set"
and lang_seq :: "content_particle list \<Rightarrow> name_id list set"
and lang_choice :: "content_particle list \<Rightarrow> name_id list set" where
  "lang (Name n oc) = repeat oc {[n]}"
| "lang (Seq ps oc) = repeat oc (lang_seq ps)"
| "lang (Choice ps oc) = repeat oc (lang_choice ps)"
| "lang_seq [] = {[]}"
| "lang_seq (p # ps) = conc (lang p) (lang_seq ps)"
| "lang_choice [] = {}"
| "lang_choice (p # ps) = lang p \<union> lang_choice ps"

lemma conc_assoc: "conc (conc A B) C = conc A (conc B C)"
  unfolding conc_def by (auto, metis append.assoc, metis append.assoc)

lemma conc_Nil [simp]: "conc {[]} A = A" "conc A {[]} = A"
  by (auto simp: conc_def)

lemma map_conc: "map f ` conc A B = conc (map f ` A) (map f ` B)"
  by (auto simp: conc_def image_iff) (metis map_append, force)

lemma map_star: "map f ` star A = star (map f ` A)"
proof (intro equalityI subsetI)
  have "u \<in> star A \<Longrightarrow> map f u \<in> star (map f ` A)" for u
  proof (induction rule: star.induct)
    case (star_append u v)
    then show ?case using star.star_append [of "map f u" "map f ` A" "map f v"] by simp
  qed (simp add: star.star_Nil)
  moreover fix w assume "w \<in> map f ` star A"
  ultimately show "w \<in> star (map f ` A)" by auto
next
  fix w assume "w \<in> star (map f ` A)"
  then show "w \<in> map f ` star A"
  proof (induction rule: star.induct)
    case star_Nil
    show ?case by (auto intro: star.star_Nil)
  next
    case (star_append u v)
    then obtain x y where "x \<in> A" "u = map f x" "y \<in> star A" "v = map f y" by auto
    then show ?case by (intro image_eqI [of _ _ "x @ y"]) (auto intro: star.star_append)
  qed
qed

lemma map_repeat: "map f ` repeat oc A = repeat oc (map f ` A)"
  by (cases oc) (auto simp: map_conc map_star)

section \<open>Words described by their ends and their neighbours\<close>

definition chain :: "('a \<times> 'a) set \<Rightarrow> 'a list \<Rightarrow> bool" where
  "chain R w \<longleftrightarrow> successively (\<lambda>x y. (x, y) \<in> R) w"

lemma chain_simps [simp]:
  "chain R []" "chain R [x]" "chain R (x # y # w) \<longleftrightarrow> (x, y) \<in> R \<and> chain R (y # w)"
  by (simp_all add: chain_def)

lemma chain_Cons: "chain R (x # w) \<longleftrightarrow> w = [] \<or> (x, hd w) \<in> R \<and> chain R w"
  by (cases w) auto

definition local_lang :: "bool \<Rightarrow> 'a set \<Rightarrow> 'a set \<Rightarrow> ('a \<times> 'a) set \<Rightarrow> 'a list set" where
  "local_lang N F L R = {w. if w = [] then N else hd w \<in> F \<and> last w \<in> L \<and> chain R w}"

lemma local_lang_Nil [simp]: "[] \<in> local_lang N F L R \<longleftrightarrow> N"
  by (simp add: local_lang_def)

lemma local_lang_word:
  "w \<noteq> [] \<Longrightarrow> w \<in> local_lang N F L R \<longleftrightarrow> hd w \<in> F \<and> last w \<in> L \<and> chain R w"
  by (simp add: local_lang_def)

lemma chain_mono: "chain R w \<Longrightarrow> R \<subseteq> S \<Longrightarrow> chain S w"
  by (auto simp: chain_def elim: successively_mono)

lemma chain_stays:
  "chain R w \<Longrightarrow> w \<noteq> [] \<Longrightarrow> hd w \<in> P \<Longrightarrow> (\<And>x y. (x, y) \<in> R \<Longrightarrow> x \<in> P \<Longrightarrow> (x, y) \<in> S \<and> y \<in> P) \<Longrightarrow>
     chain S w"
proof (induction w)
  case (Cons x w)
  then show ?case by (cases w) auto
qed simp

lemma chain_append:
  "u \<noteq> [] \<Longrightarrow> v \<noteq> [] \<Longrightarrow> chain R (u @ v) \<longleftrightarrow> chain R u \<and> chain R v \<and> (last u, hd v) \<in> R"
  by (auto simp: chain_def successively_append_iff)

lemma chain_prefix: "chain R (u @ v) \<Longrightarrow> chain R u"
  by (cases "u = []"; cases "v = []") (simp_all add: chain_append)

lemma chain_stays_last:
  "chain R w \<Longrightarrow> w \<noteq> [] \<Longrightarrow> hd w \<in> P \<Longrightarrow> R \<subseteq> P \<times> P \<Longrightarrow> last w \<in> P"
proof (induction w)
  case (Cons x w)
  then show ?case by (cases w) auto
qed simp

text \<open>Alternation of two automata over disjoint positions.\<close>

lemma local_lang_union:
  assumes "P \<inter> Q = {}" "Fa \<subseteq> P" "Fb \<subseteq> Q" "La \<subseteq> P" "Lb \<subseteq> Q" "Ra \<subseteq> P \<times> P" "Rb \<subseteq> Q \<times> Q"
  shows "local_lang Na Fa La Ra \<union> local_lang Nb Fb Lb Rb =
    local_lang (Na \<or> Nb) (Fa \<union> Fb) (La \<union> Lb) (Ra \<union> Rb)" (is "?l = ?r")
proof (intro set_eqI)
  fix w
  have stayP: "chain Ra w \<and> last w \<in> P" if "chain (Ra \<union> Rb) w" "w \<noteq> []" "hd w \<in> P"
  proof -
    have c: "chain Ra w" using that(1-3) by (rule chain_stays) (use assms in auto)
    have "last w \<in> P" using c that(2,3) assms(6) by (rule chain_stays_last)
    with c show ?thesis by simp
  qed
  have stayQ: "chain Rb w \<and> last w \<in> Q" if "chain (Ra \<union> Rb) w" "w \<noteq> []" "hd w \<in> Q"
  proof -
    have c: "chain Rb w" using that(1-3) by (rule chain_stays) (use assms in auto)
    have "last w \<in> Q" using c that(2,3) assms(7) by (rule chain_stays_last)
    with c show ?thesis by simp
  qed
  show "w \<in> ?l \<longleftrightarrow> w \<in> ?r"
  proof (cases "w = []")
    case False
    have "w \<in> ?r \<Longrightarrow> w \<in> ?l"
    proof -
      assume "w \<in> ?r"
      then have h: "hd w \<in> Fa \<or> hd w \<in> Fb" "last w \<in> La \<or> last w \<in> Lb" "chain (Ra \<union> Rb) w"
        using False by (auto simp: local_lang_word)
      have d: "\<And>x. x \<in> P \<Longrightarrow> x \<notin> Lb" "\<And>x. x \<in> Q \<Longrightarrow> x \<notin> La" using assms(1,4,5) by auto
      from h(1) show "w \<in> ?l"
      proof
        assume f: "hd w \<in> Fa"
        with stayP [OF h(3) False] assms(2) have "chain Ra w" "last w \<in> P" by auto
        with f h(2) d(1) [of "last w"] False show ?thesis by (auto simp: local_lang_word)
      next
        assume f: "hd w \<in> Fb"
        with stayQ [OF h(3) False] assms(3) have "chain Rb w" "last w \<in> Q" by auto
        with f h(2) d(2) [of "last w"] False show ?thesis by (auto simp: local_lang_word)
      qed
    qed
    moreover have "w \<in> ?l \<Longrightarrow> w \<in> ?r"
      using False by (auto simp: local_lang_word intro: chain_mono)
    ultimately show ?thesis by blast
  qed auto
qed

text \<open>Concatenation.\<close>

lemma chain_cut:
  assumes "P \<inter> Q = {}" "La \<subseteq> P" "Fb \<subseteq> Q" "Ra \<subseteq> P \<times> P" "Rb \<subseteq> Q \<times> Q"
  shows "chain (Ra \<union> Rb \<union> La \<times> Fb) w \<Longrightarrow> w \<noteq> [] \<Longrightarrow> hd w \<in> P \<Longrightarrow>
    \<exists>u v. w = u @ v \<and> u \<noteq> [] \<and> chain Ra u \<and> last u \<in> P \<and>
      (v = [] \<or> last u \<in> La \<and> hd v \<in> Fb \<and> chain Rb v)"
proof (induction w)
  case (Cons x w)
  show ?case
  proof (cases w)
    case Nil
    with Cons.prems show ?thesis by (intro exI [of _ "[x]"] exI [of _ "[]"]) auto
  next
    case (Cons y w')
    have xy: "(x, y) \<in> Ra \<union> La \<times> Fb" and c: "chain (Ra \<union> Rb \<union> La \<times> Fb) w" and x: "x \<in> P"
      using Cons.prems Cons assms by auto
    show ?thesis
    proof (cases "(x, y) \<in> Ra")
      case True
      with assms(4) Cons have "hd w \<in> P" by auto
      with Cons.IH c Cons obtain u v where uv: "w = u @ v" "u \<noteq> []" "chain Ra u" "last u \<in> P"
        "v = [] \<or> last u \<in> La \<and> hd v \<in> Fb \<and> chain Rb v" by blast
      have "hd u = y" using uv(1,2) Cons by (cases u) auto
      with True uv show ?thesis
        by (intro exI [of _ "x # u"] exI [of _ v]) (simp add: chain_Cons)
    next
      case False
      with xy have "x \<in> La" "y \<in> Fb" by auto
      moreover have "chain Rb w"
        by (rule chain_stays [OF c, of Q]) (use Cons \<open>y \<in> Fb\<close> assms in auto)
      ultimately show ?thesis
        using Cons x by (intro exI [of _ "[x]"] exI [of _ w]) auto
    qed
  qed
qed simp

lemma local_lang_conc:
  assumes "P \<inter> Q = {}" "Fa \<subseteq> P" "Fb \<subseteq> Q" "La \<subseteq> P" "Lb \<subseteq> Q" "Ra \<subseteq> P \<times> P" "Rb \<subseteq> Q \<times> Q"
  shows "conc (local_lang Na Fa La Ra) (local_lang Nb Fb Lb Rb) =
    local_lang (Na \<and> Nb) (Fa \<union> (if Na then Fb else {})) (Lb \<union> (if Nb then La else {}))
      (Ra \<union> Rb \<union> La \<times> Fb)" (is "?l = ?r")
proof (intro equalityI subsetI)
  fix w assume "w \<in> ?l"
  then obtain u v where w: "w = u @ v" "u \<in> local_lang Na Fa La Ra" "v \<in> local_lang Nb Fb Lb Rb"
    by (auto simp: conc_def)
  let ?R = "Ra \<union> Rb \<union> La \<times> Fb"
  have cu: "chain Ra u \<Longrightarrow> chain ?R u" and cv: "chain Rb v \<Longrightarrow> chain ?R v"
    by (erule chain_mono, auto)+
  show "w \<in> ?r"
    using w cu cv
    by (cases "u = []"; cases "v = []")
       (auto simp: local_lang_word chain_append)
next
  fix w assume w: "w \<in> ?r"
  show "w \<in> ?l"
  proof (cases "w = []")
    case True
    with w show ?thesis by (auto simp: conc_def)
  next
    case False
    with w have h: "hd w \<in> Fa \<or> Na \<and> hd w \<in> Fb" and l: "last w \<in> Lb \<or> Nb \<and> last w \<in> La"
      and c: "chain (Ra \<union> Rb \<union> La \<times> Fb) w" by (auto simp: local_lang_word split: if_splits)
    show ?thesis
    proof (cases "hd w \<in> Fa")
      case True
      with assms(2) have "hd w \<in> P" by auto
      from chain_cut [OF assms(1,4,3,6,7) c False this]
      obtain u v where uv: "w = u @ v" "u \<noteq> []" "chain Ra u" "last u \<in> P"
        "v = [] \<or> last u \<in> La \<and> hd v \<in> Fb \<and> chain Rb v" by blast
      have "u \<in> local_lang Na Fa La Ra \<and> v \<in> local_lang Nb Fb Lb Rb"
      proof (cases "v = []")
        case True
        with uv l assms have "last u \<in> La" "Nb" by auto
        with uv \<open>hd w \<in> Fa\<close> True show ?thesis by (simp add: local_lang_word)
      next
        case False
        have "last v \<in> Q" using uv(5) False assms(3,7) chain_stays_last [of Rb v Q] by auto
        moreover have "\<And>x. x \<in> Q \<Longrightarrow> x \<notin> La" using assms(1,4) by auto
        ultimately show ?thesis using uv False l \<open>hd w \<in> Fa\<close> by (auto simp: local_lang_word)
      qed
      with uv(1) show ?thesis by (auto simp: conc_def)
    next
      case F: False
      with h have "Na" "hd w \<in> Fb" by auto
      have "chain Rb w"
        by (rule chain_stays [OF c False, of Q]) (use \<open>hd w \<in> Fb\<close> assms in auto)
      moreover have "last w \<in> Q" using calculation False \<open>hd w \<in> Fb\<close> assms by (metis chain_stays_last subsetD)
      ultimately have "w \<in> local_lang Nb Fb Lb Rb"
        using l \<open>hd w \<in> Fb\<close> False assms by (auto simp: local_lang_word)
      moreover have "[] \<in> local_lang Na Fa La Ra" using \<open>Na\<close> by simp
      ultimately show ?thesis unfolding conc_def by force
    qed
  qed
qed

text \<open>Repetition: every end may be followed by every start.\<close>

lemma star_split:
  "chain (R \<union> L \<times> F) w \<Longrightarrow> w \<noteq> [] \<Longrightarrow> last w \<in> L \<Longrightarrow>
     \<exists>u v. w = u @ v \<and> u \<noteq> [] \<and> chain R u \<and> last u \<in> L \<and> v \<in> star (local_lang N F L R)"
proof (induction w)
  case (Cons x w)
  show ?case
  proof (cases w)
    case Nil
    with Cons.prems show ?thesis
      by (intro exI [of _ "[x]"] exI [of _ "[]"]) (auto intro: star.intros)
  next
    case (Cons y w')
    have xy: "(x, y) \<in> R \<union> L \<times> F" and c: "chain (R \<union> L \<times> F) w" "last w \<in> L" "w \<noteq> []"
      using Cons.prems Cons by auto
    from Cons.IH [OF c(1,3,2)] obtain u v where uv: "w = u @ v" "u \<noteq> []" "chain R u" "last u \<in> L"
      "v \<in> star (local_lang N F L R)" by blast
    have hu: "hd u = y" using uv(1,2) Cons by (cases u) auto
    show ?thesis
    proof (cases "(x, y) \<in> R")
      case True
      with uv hu show ?thesis
        by (intro exI [of _ "x # u"] exI [of _ v]) (simp add: chain_Cons)
    next
      case False
      with xy have "x \<in> L" "y \<in> F" by auto
      with uv hu have "u \<in> local_lang N F L R" by (simp add: local_lang_word)
      then have "u @ v \<in> star (local_lang N F L R)" using uv(5) by (rule star.star_append)
      with uv(1) \<open>x \<in> L\<close> show ?thesis
        by (intro exI [of _ "[x]"] exI [of _ w]) auto
    qed
  qed
qed simp

lemma star_local_lang:
  "star (local_lang N F L R) = local_lang True F L (R \<union> L \<times> F)" (is "?l = ?r")
proof (intro equalityI subsetI)
  fix w assume "w \<in> ?l"
  then show "w \<in> ?r"
  proof (induction rule: star.induct)
    case (star_append u v)
    have "chain R u \<Longrightarrow> chain (R \<union> L \<times> F) u" by (erule chain_mono) auto
    with star_append show ?case
      by (cases "u = []"; cases "v = []") (auto simp: local_lang_word chain_append)
  qed simp
next
  fix w assume w: "w \<in> ?r"
  show "w \<in> ?l"
  proof (cases "w = []")
    case False
    with w have "hd w \<in> F" "last w \<in> L" "chain (R \<union> L \<times> F) w" by (auto simp: local_lang_word)
    with star_split [of R L F w N] False obtain u v where uv: "w = u @ v" "u \<noteq> []" "chain R u" "last u \<in> L"
      "v \<in> star (local_lang N F L R)" by blast
    with \<open>hd w \<in> F\<close> have "u \<in> local_lang N F L R" by (simp add: local_lang_word)
    with uv show ?thesis by (simp add: star.star_append)
  qed (simp add: star.star_Nil)
qed

lemma plus_local_lang:
  "conc (local_lang N F L R) (star (local_lang N F L R)) = local_lang N F L (R \<union> L \<times> F)"
proof (intro equalityI subsetI)
  fix w assume "w \<in> conc (local_lang N F L R) (star (local_lang N F L R))"
  then obtain u v where w: "w = u @ v" "u \<in> local_lang N F L R" "v \<in> local_lang True F L (R \<union> L \<times> F)"
    by (auto simp: conc_def star_local_lang)
  have "chain R u \<Longrightarrow> chain (R \<union> L \<times> F) u" by (erule chain_mono) auto
  with w show "w \<in> local_lang N F L (R \<union> L \<times> F)"
    by (cases "u = []"; cases "v = []") (auto simp: local_lang_word chain_append)
next
  fix w assume w: "w \<in> local_lang N F L (R \<union> L \<times> F)"
  show "w \<in> conc (local_lang N F L R) (star (local_lang N F L R))"
  proof (cases "w = []")
    case True
    with w show ?thesis by (auto simp: conc_def intro: star.star_Nil)
  next
    case False
    with w have "hd w \<in> F" "last w \<in> L" "chain (R \<union> L \<times> F) w" by (auto simp: local_lang_word)
    with star_split [of R L F w N] False obtain u v where uv: "w = u @ v" "u \<noteq> []" "chain R u" "last u \<in> L"
      "v \<in> star (local_lang N F L R)" by blast
    with \<open>hd w \<in> F\<close> have "u \<in> local_lang N F L R" by (simp add: local_lang_word)
    with uv show ?thesis by (auto simp: conc_def)
  qed
qed

lemma repeat_local_lang:
  "repeat oc (local_lang N F L R) =
     local_lang (N \<or> optional oc) F L (if repeatable oc then R \<union> L \<times> F else R)"
proof -
  have "insert [] (local_lang N F L R) = local_lang True F L R" by (auto simp: local_lang_def)
  then show ?thesis
    using plus_local_lang [of N F L R]
    by (cases oc) (simp_all add: optional_def repeatable_def star_local_lang)
qed

section \<open>The automaton describes the position words\<close>

lemma set_push_unique [simp]: "set (push_unique xs v) = insert v (set xs)"
  by (auto simp: push_unique_def)

lemma set_extend_unique [simp]: "set (extend_unique xs vs) = set xs \<union> set vs"
  by (induction vs arbitrary: xs) auto

lemma length_link_one [simp]: "length (link_one follow l fs) = length follow"
  by (induction fs arbitrary: follow) auto

lemma length_link [simp]: "length (link follow ls fs) = length follow"
  by (induction ls arbitrary: follow) auto

lemma link_one_nth:
  "i < length follow \<Longrightarrow>
     set (link_one follow l fs ! i) = set (follow ! i) \<union> (if i = l then set fs else {})"
  by (induction fs arbitrary: follow) (auto simp: nth_list_update)

lemma link_nth:
  "i < length follow \<Longrightarrow>
     set (link follow ls fs ! i) = set (follow ! i) \<union> (if i \<in> set ls then set fs else {})"
  by (induction ls arbitrary: follow) (auto simp: link_one_nth)

lemma link_one_other: "i \<noteq> l \<Longrightarrow> link_one follow l fs ! i = follow ! i"
  by (induction fs arbitrary: follow) auto

lemma link_other: "i \<notin> set ls \<Longrightarrow> link follow ls fs ! i = follow ! i"
  by (induction ls arbitrary: follow) (auto simp: link_one_other)

text \<open>The relation the table holds for the positions from \<open>lo\<close> on.\<close>

definition follows :: "nat \<Rightarrow> nat list list \<Rightarrow> (nat \<times> nat) set" where
  "follows lo follow = {(i, j). lo \<le> i \<and> i < length follow \<and> j \<in> set (follow ! i)}"

lemma follows_link:
  "set ls \<subseteq> {lo..<length follow} \<Longrightarrow>
     follows lo (link follow ls fs) = follows lo follow \<union> set ls \<times> set fs"
  by (auto simp: follows_def link_nth split: if_splits)

lemma follows_split:
  "lo \<le> mid \<Longrightarrow> mid \<le> length follow' \<Longrightarrow> length follow = mid \<Longrightarrow> take mid follow' = follow \<Longrightarrow>
     follows lo follow' = follows lo follow \<union> follows mid follow'"
  by (auto simp: follows_def) (metis nth_take not_le)+

definition describes :: "nat \<Rightarrow> nat list list \<Rightarrow> fragment \<Rightarrow> nat list set \<Rightarrow> bool" where
  "describes lo follow fr A \<longleftrightarrow> lo \<le> length follow \<and>
     set (fr_first fr) \<subseteq> {lo..<length follow} \<and> set (fr_last fr) \<subseteq> {lo..<length follow} \<and>
     follows lo follow \<subseteq> {lo..<length follow} \<times> {lo..<length follow} \<and>
     A = local_lang (fr_nullable fr) (set (fr_first fr)) (set (fr_last fr)) (follows lo follow)"

lemma describesD:
  assumes "describes lo follow fr A"
  shows "set (fr_first fr) \<subseteq> {lo..<length follow}" "set (fr_last fr) \<subseteq> {lo..<length follow}"
    "follows lo follow \<subseteq> {lo..<length follow} \<times> {lo..<length follow}" "lo \<le> length follow"
    "A = local_lang (fr_nullable fr) (set (fr_first fr)) (set (fr_last fr)) (follows lo follow)"
  using assms by (auto simp: describes_def)

lemma describes_apply:
  assumes "describes lo follow fr A" "apply_occurs (syms, follow) fr oc = ((syms', follow'), fr')"
  shows "describes lo follow' fr' (repeat oc A)" "length follow' = length follow"
    "take lo follow' = take lo follow" "syms' = syms"
proof -
  note d = describesD [OF assms(1)]
  have e: "syms' = syms" "follow' = (if repeatable oc then link follow (fr_last fr) (fr_first fr) else follow)"
    "fr' = fr\<lparr>fr_nullable := fr_nullable fr \<or> optional oc\<rparr>"
    using assms(2) by auto
  then show "syms' = syms" "length follow' = length follow" by auto
  have "follow' ! i = follow ! i" if "i < lo" for i
  proof -
    have "i \<notin> set (fr_last fr)" using d(2) that by auto
    then show ?thesis by (simp add: e(2) link_other)
  qed
  with d(4) e(2) show "take lo follow' = take lo follow"
    by (intro nth_equalityI) simp_all
  show "describes lo follow' fr' (repeat oc A)"
    using d follows_link [OF d(2)]
    unfolding describes_def e(2,3) d(5) repeat_local_lang by auto
qed

text \<open>The position words of a particle whose first position is \<open>k\<close>, and how many it has.\<close>

fun positions :: "content_particle \<Rightarrow> nat"
and positions_list :: "content_particle list \<Rightarrow> nat" where
  "positions (Name n oc) = 1"
| "positions (Seq ps oc) = positions_list ps"
| "positions (Choice ps oc) = positions_list ps"
| "positions_list [] = 0"
| "positions_list (p # ps) = positions p + positions_list ps"

fun plang :: "nat \<Rightarrow> content_particle \<Rightarrow> nat list set"
and plang_seq :: "nat \<Rightarrow> content_particle list \<Rightarrow> nat list set"
and plang_choice :: "nat \<Rightarrow> content_particle list \<Rightarrow> nat list set" where
  "plang k (Name n oc) = repeat oc {[k]}"
| "plang k (Seq ps oc) = repeat oc (plang_seq k ps)"
| "plang k (Choice ps oc) = repeat oc (plang_choice k ps)"
| "plang_seq k [] = {[]}"
| "plang_seq k (p # ps) = conc (plang k p) (plang_seq (k + positions p) ps)"
| "plang_choice k [] = {}"
| "plang_choice k (p # ps) = plang k p \<union> plang_choice (k + positions p) ps"


fun names_of :: "content_particle \<Rightarrow> name_id list"
and names_of_list :: "content_particle list \<Rightarrow> name_id list" where
  "names_of (Name n oc) = [n]"
| "names_of (Seq ps oc) = names_of_list ps"
| "names_of (Choice ps oc) = names_of_list ps"
| "names_of_list [] = []"
| "names_of_list (p # ps) = names_of p @ names_of_list ps"

lemma length_names_of [simp]:
  "length (names_of p) = positions p" "length (names_of_list ps) = positions_list ps"
  by (induction p and ps rule: names_of_names_of_list.induct) auto

lemma describes_conc:
  assumes acc: "describes lo follow acc A" and fr: "describes mid follow' fr B"
    and mid: "mid = length follow" "take mid follow' = follow"
  shows "describes lo (link follow' (fr_last acc) (fr_first fr))
    \<lparr>fr_nullable = fr_nullable acc \<and> fr_nullable fr,
     fr_first = (if fr_nullable acc then extend_unique (fr_first acc) (fr_first fr) else fr_first acc),
     fr_last = (if fr_nullable fr then extend_unique (fr_last acc) (fr_last fr) else fr_last fr)\<rparr>
    (conc A B)"
proof -
  note a = describesD [OF acc] and b = describesD [OF fr]
  have lo: "lo \<le> mid" "mid \<le> length follow'" using a(4) b(4) mid by auto
  have s: "follows lo follow' = follows lo follow \<union> follows mid follow'"
    using lo mid by (intro follows_split) auto
  have "set (fr_last acc) \<subseteq> {lo..<length follow'}" using a(2) lo mid by auto
  note l = follows_link [OF this, of "fr_first fr", unfolded s]
  have "{lo..<mid} \<inter> {mid..<length follow'} = {}" by auto
  note c = local_lang_conc [OF this, of "set (fr_first acc)" "set (fr_first fr)" "set (fr_last acc)" "set (fr_last fr)"
      "follows lo follow" "follows mid follow'" "fr_nullable acc" "fr_nullable fr"]
  have eq: "conc A B = local_lang (fr_nullable acc \<and> fr_nullable fr)
      (set (fr_first acc) \<union> (if fr_nullable acc then set (fr_first fr) else {}))
      (set (fr_last fr) \<union> (if fr_nullable fr then set (fr_last acc) else {}))
      (follows lo follow \<union> follows mid follow' \<union> set (fr_last acc) \<times> set (fr_first fr))"
    unfolding a(5) b(5) by (rule c) (use a b mid in auto)
  have f: "set (fr_first acc) \<subseteq> {lo..<length follow'}" "set (fr_first fr) \<subseteq> {lo..<length follow'}"
    "set (fr_last acc) \<subseteq> {lo..<length follow'}" "set (fr_last fr) \<subseteq> {lo..<length follow'}"
    using a(1,2) b(1,2) lo mid by auto
  have g: "follows lo follow \<subseteq> {lo..<length follow'} \<times> {lo..<length follow'}"
    "follows mid follow' \<subseteq> {lo..<length follow'} \<times> {lo..<length follow'}"
    "set (fr_last acc) \<times> set (fr_first fr) \<subseteq> {lo..<length follow'} \<times> {lo..<length follow'}"
    using a(3) b(3) lo mid f by auto
  show ?thesis
    unfolding describes_def l eq using f g lo
    by (simp add: Un_commute)
qed

lemma describes_union:
  assumes acc: "describes lo follow acc A" and fr: "describes mid follow' fr B"
    and mid: "mid = length follow" "take mid follow' = follow"
  shows "describes lo follow'
    \<lparr>fr_nullable = fr_nullable acc \<or> fr_nullable fr,
     fr_first = extend_unique (fr_first acc) (fr_first fr),
     fr_last = extend_unique (fr_last acc) (fr_last fr)\<rparr> (A \<union> B)"
proof -
  note a = describesD [OF acc] and b = describesD [OF fr]
  have lo: "lo \<le> mid" "mid \<le> length follow'" using a(4) b(4) mid by auto
  have s: "follows lo follow' = follows lo follow \<union> follows mid follow'"
    using lo mid by (intro follows_split) auto
  have "{lo..<mid} \<inter> {mid..<length follow'} = {}" by auto
  note c = local_lang_union [OF this, of "set (fr_first acc)" "set (fr_first fr)" "set (fr_last acc)" "set (fr_last fr)"
      "follows lo follow" "follows mid follow'" "fr_nullable acc" "fr_nullable fr"]
  have eq: "A \<union> B = local_lang (fr_nullable acc \<or> fr_nullable fr) (set (fr_first acc) \<union> set (fr_first fr))
      (set (fr_last acc) \<union> set (fr_last fr)) (follows lo follow \<union> follows mid follow')"
    unfolding a(5) b(5) by (rule c) (use a b mid in auto)
  have g: "follows lo follow \<subseteq> {lo..<length follow'} \<times> {lo..<length follow'}"
    "follows mid follow' \<subseteq> {lo..<length follow'} \<times> {lo..<length follow'}"
    using a(3) b(3) lo mid by auto
  have f: "set (fr_first acc) \<subseteq> {lo..<length follow'}" "set (fr_first fr) \<subseteq> {lo..<length follow'}"
    "set (fr_last acc) \<subseteq> {lo..<length follow'}" "set (fr_last fr) \<subseteq> {lo..<length follow'}"
    using a(1,2) b(1,2) lo mid by auto
  show ?thesis
    unfolding describes_def s eq using f g lo by simp
qed

text \<open>What building adds to a table whose two columns have the same length.\<close>

definition extends :: "table \<Rightarrow> table \<Rightarrow> name_id list \<Rightarrow> nat \<Rightarrow> bool" where
  "extends t t' ns lo \<longleftrightarrow> fst t' = fst t @ ns \<and> length (snd t') = length (fst t') \<and>
     take lo (snd t') = take lo (snd t)"

lemma describes_single:
  "describes (length follow) (follow @ [[]])
     \<lparr>fr_nullable = False, fr_first = [length follow], fr_last = [length follow]\<rparr> {[length follow]}"
proof -
  have e: "follows (length follow) (follow @ [[]]) = {}" by (auto simp: follows_def nth_append)
  have "w \<in> {[n]} \<longleftrightarrow> w \<in> local_lang False {n} {n} {}" for w :: "nat list" and n
    by (cases w rule: list.exhaust; cases "tl w") (auto simp: local_lang_def)
  then have "{[n]} = local_lang False {n} {n} {}" for n :: nat by blast
  with e show ?thesis by (simp add: describes_def)
qed

lemma describes_empty:
  "describes (length follow) follow \<lparr>fr_nullable = N, fr_first = [], fr_last = []\<rparr> (if N then {[]} else {})"
proof -
  have "follows (length follow) follow = {}" by (auto simp: follows_def)
  moreover have "local_lang N {} {} {} = (if N then {[]} else {} :: nat list set)"
    by (auto simp: local_lang_def)
  ultimately show ?thesis by (simp add: describes_def)
qed

lemma take_less: "take n xs = take n ys \<Longrightarrow> m \<le> n \<Longrightarrow> take m xs = take m ys"
  by (metis min.absorb1 take_take)

lemma take_link:
  assumes "\<And>i. i \<in> set ls \<Longrightarrow> lo \<le> i"
  shows "take lo (link follow ls fs) = take lo follow"
proof (rule nth_equalityI)
  fix i assume "i < length (take lo (link follow ls fs))"
  moreover have "i < lo \<Longrightarrow> i \<notin> set ls" using assms leD by blast
  ultimately show "take lo (link follow ls fs) ! i = take lo follow ! i"
    by (simp add: link_other)
qed simp

lemma build_describes:
  "build t p = (t', fr) \<Longrightarrow> length (snd t) = length (fst t) \<Longrightarrow>
     extends t t' (names_of p) (length (snd t)) \<and>
     describes (length (snd t)) (snd t') fr (plang (length (snd t)) p)"
  "build_seq t ps acc = (t', fr) \<Longrightarrow> length (snd t) = length (fst t) \<Longrightarrow> describes lo (snd t) acc A \<Longrightarrow>
     extends t t' (names_of_list ps) lo \<and>
     describes lo (snd t') fr (conc A (plang_seq (length (snd t)) ps))"
  "build_choice t ps acc = (t', fr) \<Longrightarrow> length (snd t) = length (fst t) \<Longrightarrow> describes lo (snd t) acc A \<Longrightarrow>
     extends t t' (names_of_list ps) lo \<and>
     describes lo (snd t') fr (A \<union> plang_choice (length (snd t)) ps)"
proof (induction t p and t ps acc and t ps acc arbitrary: t' fr and t' fr lo A and t' fr lo A
    rule: build_build_seq_build_choice.induct)
  case (1 syms follow n oc)
  let ?fr = "\<lparr>fr_nullable = False, fr_first = [length follow], fr_last = [length follow]\<rparr>"
  obtain syms' follow' where t': "t' = (syms', follow')" by (cases t')
  have "apply_occurs (syms @ [n], follow @ [[]]) ?fr oc = ((syms', follow'), fr)"
    using 1 t' by (simp add: Let_def del: apply_occurs.simps)
  note d = describes_apply [OF describes_single this]
  with 1 t' show ?case by (simp add: extends_def)
next
  case (2 t ps oc)
  obtain t1 fr1 where b: "build_seq t ps \<lparr>fr_nullable = True, fr_first = [], fr_last = []\<rparr> = (t1, fr1)"
    by fastforce
  obtain s1 f1 where t1: "t1 = (s1, f1)" by (cases t1)
  obtain s' f' where t': "t' = (s', f')" by (cases t')
  have "describes (length (snd t)) (snd t) \<lparr>fr_nullable = True, fr_first = [], fr_last = []\<rparr> {[]}"
    using describes_empty [of "snd t" True] by simp
  from "2.IH" [OF b "2.prems"(2) this]
  have i: "extends t t1 (names_of_list ps) (length (snd t))"
    "describes (length (snd t)) f1 fr1 (plang_seq (length (snd t)) ps)" by (simp_all add: t1)
  have "apply_occurs (s1, f1) fr1 oc = ((s', f'), fr)" using "2.prems"(1) b t1 t' by simp
  note d = describes_apply [OF i(2) this]
  with i(1) show ?case by (simp add: extends_def t1 t')
next
  case (3 t ps oc)
  obtain t1 fr1 where b: "build_choice t ps \<lparr>fr_nullable = False, fr_first = [], fr_last = []\<rparr> = (t1, fr1)"
    by fastforce
  obtain s1 f1 where t1: "t1 = (s1, f1)" by (cases t1)
  obtain s' f' where t': "t' = (s', f')" by (cases t')
  have "describes (length (snd t)) (snd t) \<lparr>fr_nullable = False, fr_first = [], fr_last = []\<rparr> {}"
    using describes_empty [of "snd t" False] by simp
  from "3.IH" [OF b "3.prems"(2) this]
  have i: "extends t t1 (names_of_list ps) (length (snd t))"
    "describes (length (snd t)) f1 fr1 (plang_choice (length (snd t)) ps)" by (simp_all add: t1)
  have "apply_occurs (s1, f1) fr1 oc = ((s', f'), fr)" using "3.prems"(1) b t1 t' by simp
  note d = describes_apply [OF i(2) this]
  with i(1) show ?case by (simp add: extends_def t1 t')
next
  case (4 t acc)
  then show ?case by (auto simp: extends_def)
next
  case (5 t p ps acc)
  obtain s1 f1 fr1 where b: "build t p = ((s1, f1), fr1)" by (metis prod.collapse)
  note i = "5.IH"(1) [OF b "5.prems"(2)]
  let ?f2 = "link f1 (fr_last acc) (fr_first fr1)"
  have len: "length (snd t) + positions p = length f1" "length f1 = length s1"
    using i "5.prems"(2) by (auto simp: extends_def)
  have keep: "take (length (snd t)) f1 = snd t" using i by (simp add: extends_def)
  have dA: "lo \<le> length (snd t)" "set (fr_last acc) \<subseteq> {lo..<length (snd t)}"
    using describesD [OF "5.prems"(3)] by auto
  have c: "describes (length (snd t)) f1 fr1 (plang (length (snd t)) p)" using i by simp
  note d = describes_conc [OF "5.prems"(3) c refl keep]
  have l: "length (snd (s1, ?f2)) = length (fst (s1, ?f2))" using len by simp
  have b2: "build_seq (s1, ?f2) ps
      \<lparr>fr_nullable = fr_nullable acc \<and> fr_nullable fr1,
       fr_first = (if fr_nullable acc then extend_unique (fr_first acc) (fr_first fr1) else fr_first acc),
       fr_last = (if fr_nullable fr1 then extend_unique (fr_last acc) (fr_last fr1) else fr_last fr1)\<rparr> = (t', fr)"
    using "5.prems"(1) b by simp
  have "take lo ?f2 = take lo f1" by (rule take_link) (use dA in auto)
  moreover have "take lo f1 = take lo (snd t)" using keep dA(1) by (metis take_all_iff take_less order_refl)
  ultimately have tk: "take lo ?f2 = take lo (snd t)" by simp
  have d': "describes lo (snd (s1, ?f2))
      \<lparr>fr_nullable = fr_nullable acc \<and> fr_nullable fr1,
       fr_first = (if fr_nullable acc then extend_unique (fr_first acc) (fr_first fr1) else fr_first acc),
       fr_last = (if fr_nullable fr1 then extend_unique (fr_last acc) (fr_last fr1) else fr_last fr1)\<rparr>
      (conc A (plang (length (snd t)) p))" using d by simp
  from "5.IH"(2) [OF b [symmetric] refl b2 l d']
  show ?case using i tk len by (simp add: extends_def conc_assoc)
next
  case (6 t acc)
  then show ?case by (auto simp: extends_def)
next
  case (7 t p ps acc)
  obtain t1 fr1 where b: "build t p = (t1, fr1)" by (cases "build t p")
  note i = "7.IH"(1) [OF b "7.prems"(2)]
  have len: "length (snd t) + positions p = length (snd t1)" "length (snd t1) = length (fst t1)"
    using i "7.prems"(2) by (auto simp: extends_def)
  have keep: "take (length (snd t)) (snd t1) = snd t" using i by (simp add: extends_def)
  have dA: "lo \<le> length (snd t)" using describesD [OF "7.prems"(3)] by auto
  have c: "describes (length (snd t)) (snd t1) fr1 (plang (length (snd t)) p)" using i by simp
  note d = describes_union [OF "7.prems"(3) c refl keep]
  have tk: "take lo (snd t1) = take lo (snd t)"
    using keep dA by (metis take_all_iff take_less order_refl)
  have b2: "build_choice t1 ps \<lparr>fr_nullable = fr_nullable acc \<or> fr_nullable fr1,
      fr_first = extend_unique (fr_first acc) (fr_first fr1),
      fr_last = extend_unique (fr_last acc) (fr_last fr1)\<rparr> = (t', fr)"
    using "7.prems"(1) b by simp
  from "7.IH"(2) [OF b [symmetric] b2 len(2) d]
  show ?case using i tk len by (simp add: extends_def Un_assoc)
qed

definition in_range :: "content_model \<Rightarrow> bool" where
  "in_range m \<longleftrightarrow> length (cm_symbols m) = length (cm_follow m) \<and> set (cm_first m) \<subseteq> {..<length (cm_follow m)} \<and>
     (\<forall>ps \<in> set (cm_follow m). set ps \<subseteq> {..<length (cm_follow m)})"

lemma compile_describes:
  "cm_symbols (compile p) = names_of p" "length (cm_follow (compile p)) = positions p"
  "plang 0 p = local_lang (cm_nullable (compile p)) (set (cm_first (compile p))) (set (cm_last (compile p)))
     (follows 0 (cm_follow (compile p)))"
  "set (cm_last (compile p)) \<subseteq> {..<positions p}"
  "in_range (compile p)"
proof -
  obtain syms follow fr where b: "build ([], []) p = ((syms, follow), fr)" by (metis prod.collapse)
  have e: "extends ([], []) (syms, follow) (names_of p) 0" and "describes 0 follow fr (plang 0 p)"
    using build_describes(1) [OF b] by simp_all
  note d = describesD [OF this(2)]
  show sy: "cm_symbols (compile p) = names_of p" and l: "length (cm_follow (compile p)) = positions p"
    using e by (simp_all add: compile_def b extends_def)
  show "plang 0 p = local_lang (cm_nullable (compile p)) (set (cm_first (compile p))) (set (cm_last (compile p)))
     (follows 0 (cm_follow (compile p)))"
    using d(5) by (simp add: compile_def b)
  show "set (cm_last (compile p)) \<subseteq> {..<positions p}"
    using d(2) l by (auto simp: compile_def b)
  have "\<forall>ps \<in> set follow. set ps \<subseteq> {..<length follow}"
    using d(3) by (fastforce simp: follows_def in_set_conv_nth)
  then show "in_range (compile p)"
    using d(1) l sy e by (auto simp: in_range_def compile_def b)
qed

text \<open>Names for positions: the language of the particle is the image of its position words.\<close>

lemma map_nth_union: "map f ` (A \<union> B) = map f ` A \<union> map f ` B"
  by auto

lemma lang_plang:
  "take (positions p) (drop k S) = names_of p \<Longrightarrow> k + positions p \<le> length S \<Longrightarrow> lang p = map ((!) S) ` plang k p"
  "take (positions_list ps) (drop k S) = names_of_list ps \<Longrightarrow> k + positions_list ps \<le> length S \<Longrightarrow>
     lang_seq ps = map ((!) S) ` plang_seq k ps \<and> lang_choice ps = map ((!) S) ` plang_choice k ps"
proof (induction p and ps arbitrary: k and k rule: names_of_names_of_list.induct)
  case (1 n oc)
  then have "S ! k = n" by (simp add: take_Suc_conv_app_nth hd_drop_conv_nth [symmetric] take_Suc)
  then show ?case by (simp add: map_repeat)
next
  case (5 p ps)
  have e: "take (positions p) (drop k S) @ take (positions_list ps) (drop (k + positions p) S) = names_of p @ names_of_list ps"
    using 5(3) by (simp add: take_add add.commute)
  have l: "length (take (positions p) (drop k S)) = length (names_of p)" using 5(4) by simp
  from e l have s: "take (positions p) (drop k S) = names_of p"
    "take (positions_list ps) (drop (k + positions p) S) = names_of_list ps" by (metis append_eq_append_conv)+
  have "lang p = map ((!) S) ` plang k p" using "5.IH"(1) s(1) 5(4) by simp
  moreover have "lang_seq ps = map ((!) S) ` plang_seq (k + positions p) ps \<and>
      lang_choice ps = map ((!) S) ` plang_choice (k + positions p) ps"
    using "5.IH"(2) [OF s(2)] 5(4) by simp
  ultimately show ?case by (simp add: map_conc image_Un)
qed (auto simp: map_repeat)

corollary lang_positions: "lang p = map ((!) (names_of p)) ` plang 0 p"
  by (rule lang_plang) auto

section \<open>Running the automaton\<close>

text \<open>The position words over \<open>cs\<close> that start in \<open>P\<close> and obey \<open>follow\<close>.\<close>

definition viable :: "content_model \<Rightarrow> nat set \<Rightarrow> name_id list \<Rightarrow> nat list set" where
  "viable m P cs = {w. w \<noteq> [] \<and> map ((!) (cm_symbols m)) w = cs \<and> hd w \<in> P \<and> chain (follows 0 (cm_follow m)) w}"

definition successors :: "content_model \<Rightarrow> nat set \<Rightarrow> nat set" where
  "successors m P = (\<Union>p \<in> P. set (cm_follow m ! p))"

lemma viable_single: "viable m P [c] = {[p] | p. p \<in> P \<and> cm_symbols m ! p = c}"
  by (auto simp: viable_def)

lemma last_viable_single: "last ` viable m P [c] = {p \<in> P. cm_symbols m ! p = c}"
  by (force simp: viable_single)

lemma viable_Cons:
  assumes "P \<subseteq> {..<length (cm_follow m)}" "cs \<noteq> []"
  shows "last ` viable m P (c # cs) = last ` viable m (successors m {p \<in> P. cm_symbols m ! p = c}) cs" (is "?l = ?r")
proof (intro equalityI subsetI)
  fix q assume "q \<in> ?l"
  then obtain w where w: "w \<in> viable m P (c # cs)" "q = last w" by auto
  then obtain p w' where "w = p # w'" by (auto simp: viable_def)
  moreover from this w assms have "w' \<noteq> []" by (auto simp: viable_def)
  ultimately show "q \<in> ?r"
    using w by (intro image_eqI [of _ _ w']) (auto simp: viable_def successors_def chain_Cons follows_def)
next
  fix q assume "q \<in> ?r"
  then obtain w where w: "w \<in> viable m (successors m {p \<in> P. cm_symbols m ! p = c}) cs" "q = last w" by auto
  then obtain p where p: "p \<in> P" "cm_symbols m ! p = c" "hd w \<in> set (cm_follow m ! p)"
    by (auto simp: viable_def successors_def)
  with w assms show "q \<in> ?l"
    by (intro image_eqI [of _ _ "p # w"]) (auto simp: viable_def chain_Cons follows_def)
qed

lemma set_dedup [simp]: "set (dedup ps) = set ps"
  by (simp add: dedup_def)

lemma successors_range: "in_range m \<Longrightarrow> P \<subseteq> {..<length (cm_follow m)} \<Longrightarrow> successors m P \<subseteq> {..<length (cm_follow m)}"
  by (auto simp: in_range_def successors_def) (metis lessThan_iff nth_mem subsetD)

lemma set_symbols_of [simp]: "set (symbols_of m ps) = (!) (cm_symbols m) ` set ps"
  by (simp add: symbols_of_def)

lemma run_Inr:
  "run m active matched cs = Inr (active', matched') \<Longrightarrow> in_range m \<Longrightarrow> set active \<subseteq> {..<length (cm_follow m)} \<Longrightarrow>
     cs \<noteq> [] \<Longrightarrow> set matched' = last ` viable m (set active) cs \<and> set active' = successors m (set matched') \<and> matched' \<noteq> []"
proof (induction m active matched cs rule: run.induct)
  case (2 m active matched c cs)
  let ?n = "filter (\<lambda>p. cm_symbols m ! p = c) active"
  have ne: "?n \<noteq> []" and r: "run m (dedup (concat (map ((!) (cm_follow m)) ?n))) ?n cs = Inr (active', matched')"
    using "2.prems"(1) by (auto simp: Let_def split: if_splits)
  have s: "set (dedup (concat (map ((!) (cm_follow m)) ?n))) = successors m {p \<in> set active. cm_symbols m ! p = c}"
    by (auto simp: successors_def)
  show ?case
  proof (cases "cs = []")
    case True
    with r ne have "matched' = ?n" "set active' = successors m (set ?n)" using s by auto
    with True ne show ?thesis by (auto simp: last_viable_single)
  next
    case False
    have "{p \<in> set active. cm_symbols m ! p = c} \<subseteq> {..<length (cm_follow m)}" using "2.prems"(3) by auto
    from successors_range [OF "2.prems"(2) this] s
    have "set (dedup (concat (map ((!) (cm_follow m)) ?n))) \<subseteq> {..<length (cm_follow m)}" by simp
    from "2.IH" [OF refl ne r "2.prems"(2) this False] s viable_Cons [OF "2.prems"(3) False, of c]
    show ?thesis by simp
  qed
qed simp

lemma run_Inl:
  "run m active matched cs = Inl e \<Longrightarrow> in_range m \<Longrightarrow> set active \<subseteq> {..<length (cm_follow m)} \<Longrightarrow>
     \<exists>us c vs. cs = us @ c # vs \<and> mf_at e = Some c \<and> last ` viable m (set active) (us @ [c]) = {} \<and>
       set (mf_allowed e) = (!) (cm_symbols m) `
         (if us = [] then set active else successors m (last ` viable m (set active) us)) \<and>
       (us \<noteq> [] \<longrightarrow> viable m (set active) us \<noteq> {})"
proof (induction m active matched cs rule: run.induct)
  case (2 m active matched c cs)
  let ?n = "filter (\<lambda>p. cm_symbols m ! p = c) active"
  show ?case
  proof (cases "?n = []")
    case True
    with "2.prems"(1) show ?thesis
      by (intro exI [of _ "[]"] exI [of _ c] exI [of _ cs]) (auto simp: viable_single filter_empty_conv)
  next
    case False
    let ?a = "dedup (concat (map ((!) (cm_follow m)) ?n))"
    have r: "run m ?a ?n cs = Inl e" using "2.prems"(1) False by (simp add: Let_def)
    have s: "set ?a = successors m {p \<in> set active. cm_symbols m ! p = c}" by (auto simp: successors_def)
    have "{p \<in> set active. cm_symbols m ! p = c} \<subseteq> {..<length (cm_follow m)}" using "2.prems"(3) by auto
    from successors_range [OF "2.prems"(2) this] s
    have "set ?a \<subseteq> {..<length (cm_follow m)}" by simp
    from "2.IH" [OF refl False r "2.prems"(2) this] obtain us d vs where i:
      "cs = us @ d # vs" "mf_at e = Some d" "last ` viable m (set ?a) (us @ [d]) = {}"
      "set (mf_allowed e) = (!) (cm_symbols m) ` (if us = [] then set ?a else successors m (last ` viable m (set ?a) us))"
      "us \<noteq> [] \<longrightarrow> viable m (set ?a) us \<noteq> {}" by blast
    have v: "xs \<noteq> [] \<Longrightarrow> last ` viable m (set active) (c # xs) = last ` viable m (set ?a) xs" for xs
      using viable_Cons [OF "2.prems"(3), of xs c] s by simp
    have one: "last ` viable m (set active) [c] = set ?n" by (auto simp: last_viable_single)
    have sn: "set ?a = successors m (set ?n)" using s by simp
    show ?thesis
    proof (intro exI conjI)
      show "c # cs = (c # us) @ d # vs" using i(1) by simp
      show "last ` viable m (set active) ((c # us) @ [d]) = {}" using i(3) v [of "us @ [d]"] by simp
      show "set (mf_allowed e) = (!) (cm_symbols m) `
         (if c # us = [] then set active else successors m (last ` viable m (set active) (c # us)))"
        using i(4) v [of us] one sn by (cases "us = []") simp_all
      have "last ` viable m (set active) (c # us) \<noteq> {}"
        using one v [of us] i(5) False by (cases "us = []") (auto simp: filter_empty_conv)
      then show "c # us \<noteq> [] \<longrightarrow> viable m (set active) (c # us) \<noteq> {}" by blast
    qed (fact i(2))
  qed
qed simp

section \<open>Matching decides the language\<close>

lemma matches_viable:
  "matches (compile p) cs = None \<longleftrightarrow> (if cs = [] then cm_nullable (compile p)
     else last ` viable (compile p) (set (cm_first (compile p))) cs \<inter> set (cm_last (compile p)) \<noteq> {})"
proof -
  let ?m = "compile p"
  have r: "in_range ?m" by (rule compile_describes)
  then have f: "set (cm_first ?m) \<subseteq> {..<length (cm_follow ?m)}" by (simp add: in_range_def)
  show ?thesis
  proof (cases "run ?m (cm_first ?m) [] cs")
    case (Inl e)
    then have "cs \<noteq> []" by (cases cs) auto
    from run_Inl [OF Inl r f] obtain us c vs where u: "cs = us @ c # vs"
      "last ` viable ?m (set (cm_first ?m)) (us @ [c]) = {}" by blast
    have "viable ?m (set (cm_first ?m)) cs = {}"
    proof (rule ccontr)
      assume "viable ?m (set (cm_first ?m)) cs \<noteq> {}"
      then obtain w where w: "w \<in> viable ?m (set (cm_first ?m)) cs" by blast
      let ?u = "take (Suc (length us)) w"
      have "length w = length cs" using w by (metis (mono_tags, lifting) length_map mem_Collect_eq viable_def)
      moreover have "map ((!) (cm_symbols ?m)) ?u = us @ [c]"
        using w u(1) by (auto simp: viable_def take_map [symmetric])
      moreover have "chain (follows 0 (cm_follow ?m)) ?u"
        using w by (metis (mono_tags, lifting) append_take_drop_id chain_append chain_simps(1) mem_Collect_eq
            append_Nil2 viable_def)
      ultimately have "?u \<in> viable ?m (set (cm_first ?m)) (us @ [c])"
        using w by (auto simp: viable_def)
      with u(2) show False by blast
    qed
    with Inl \<open>cs \<noteq> []\<close> show ?thesis by (simp add: matches_def)
  next
    case (Inr x)
    obtain active matched where x: "x = (active, matched)" by (cases x)
    show ?thesis
    proof (cases "cs = []")
      case False
      with run_Inr [OF Inr [unfolded x] r f] Inr x show ?thesis
        by (auto simp: matches_def list_ex_iff Let_def)
    qed (simp add: matches_def)
  qed
qed

lemma matches_lang: "matches (compile p) cs = None \<longleftrightarrow> cs \<in> lang p"
proof -
  let ?m = "compile p"
  have w: "w \<in> plang 0 p \<longleftrightarrow> (if w = [] then cm_nullable ?m
      else hd w \<in> set (cm_first ?m) \<and> last w \<in> set (cm_last ?m) \<and> chain (follows 0 (cm_follow ?m)) w)" for w
    by (simp add: compile_describes(3) [of p] local_lang_def)
  show ?thesis
  proof (cases "cs = []")
    case True
    then show ?thesis using w [of "[]"] by (auto simp: matches_viable lang_positions)
  next
    case False
    have "cs \<in> lang p \<longleftrightarrow> (\<exists>u \<in> plang 0 p. map ((!) (names_of p)) u = cs)" by (auto simp: lang_positions)
    also have "\<dots> \<longleftrightarrow> (\<exists>u \<in> viable ?m (set (cm_first ?m)) cs. last u \<in> set (cm_last ?m))"
      using False w by (auto simp: viable_def compile_describes(1))
    finally show ?thesis using False by (auto simp: matches_viable)
  qed
qed

text \<open>
  C4. Matching a sequence of children against a compiled content model succeeds exactly when the
  sequence is in the language of the particle, read as a regular expression.
\<close>

theorem matches_iff_lang: "matches (compile p) cs = None \<longleftrightarrow> cs \<in> lang p"
  by (rule matches_lang)

section \<open>The failure report\<close>

text \<open>The parser builds no empty choice; with that, every position lies on a complete word.\<close>

fun choices_nonempty :: "content_particle \<Rightarrow> bool"
and choices_nonempty_list :: "content_particle list \<Rightarrow> bool" where
  "choices_nonempty (Name n oc) = True"
| "choices_nonempty (Seq ps oc) = choices_nonempty_list ps"
| "choices_nonempty (Choice ps oc) = (ps \<noteq> [] \<and> choices_nonempty_list ps)"
| "choices_nonempty_list [] = True"
| "choices_nonempty_list (p # ps) = (choices_nonempty p \<and> choices_nonempty_list ps)"

lemma repeat_superset: "A \<subseteq> repeat oc A"
proof -
  have "u \<in> star A" if "u \<in> A" for u using star.star_append [OF that star.star_Nil] by simp
  then show ?thesis by (cases oc) (auto simp: conc_def intro: star.star_Nil)
qed

lemma occurs_mono:
  "A \<noteq> {} \<and> I \<subseteq> \<Union> (set ` A) \<Longrightarrow> A \<subseteq> B \<Longrightarrow> B \<noteq> {} \<and> I \<subseteq> \<Union> (set ` B)"
  by blast

lemma conc_nonempty: "A \<noteq> {} \<Longrightarrow> B \<noteq> {} \<Longrightarrow> conc A B \<noteq> {}"
  by (auto simp: conc_def)

lemma position_occurs:
  "choices_nonempty p \<Longrightarrow> plang k p \<noteq> {} \<and> {k..<k + positions p} \<subseteq> \<Union> (set ` plang k p)"
  "choices_nonempty_list ps \<Longrightarrow> plang_seq k ps \<noteq> {} \<and> {k..<k + positions_list ps} \<subseteq> \<Union> (set ` plang_seq k ps) \<and>
     (ps \<noteq> [] \<longrightarrow> plang_choice k ps \<noteq> {}) \<and> {k..<k + positions_list ps} \<subseteq> \<Union> (set ` plang_choice k ps)"
proof (induction p and ps arbitrary: k and k rule: names_of_names_of_list.induct)
  case (1 n oc)
  have "[k] \<in> repeat oc {[k]}" using repeat_superset by blast
  then show ?case by force
next
  case (2 ps oc)
  then show ?case by (auto intro!: occurs_mono [OF _ repeat_superset])
next
  case (3 ps oc)
  then show ?case by (auto intro!: occurs_mono [OF _ repeat_superset])
next
  case (5 p ps)
  have a: "plang k p \<noteq> {}" "{k..<k + positions p} \<subseteq> \<Union> (set ` plang k p)"
    using "5.IH"(1) [of k] "5.prems" by auto
  let ?k = "k + positions p"
  have b: "plang_seq ?k ps \<noteq> {}" "{?k..<?k + positions_list ps} \<subseteq> \<Union> (set ` plang_seq ?k ps)"
    "{?k..<?k + positions_list ps} \<subseteq> \<Union> (set ` plang_choice ?k ps)"
    using "5.IH"(2) [of ?k] "5.prems" by auto
  have s: "{k..<k + positions_list (p # ps)} = {k..<k + positions p} \<union> {?k..<?k + positions_list ps}" by auto
  have "\<Union> (set ` plang k p) \<subseteq> \<Union> (set ` conc (plang k p) (plang_seq ?k ps))"
    using b(1) by (force simp: conc_def)
  moreover have "\<Union> (set ` plang_seq ?k ps) \<subseteq> \<Union> (set ` conc (plang k p) (plang_seq ?k ps))"
    using a(1) by (force simp: conc_def)
  ultimately have "{k..<k + positions_list (p # ps)} \<subseteq> \<Union> (set ` plang_seq k (p # ps))"
    unfolding s plang_seq.simps by (meson a(2) b(2) Un_least order_trans)
  moreover have "{k..<k + positions_list (p # ps)} \<subseteq> \<Union> (set ` plang_choice k (p # ps))"
    unfolding s plang_choice.simps image_Un Union_Un_distrib by (intro Un_mono a(2) b(3))
  ultimately show ?case using conc_nonempty [OF a(1) b(1)] a(1) by simp
qed simp_all

text \<open>Hence every word the automaton can be reading is the start of one the model accepts.\<close>

lemma plang_word:
  "w \<noteq> [] \<Longrightarrow> w \<in> plang 0 p \<longleftrightarrow> hd w \<in> set (cm_first (compile p)) \<and> last w \<in> set (cm_last (compile p)) \<and>
     chain (follows 0 (cm_follow (compile p))) w"
  by (simp add: compile_describes(3) [of p] local_lang_def)

lemma viable_range:
  assumes "w \<in> viable (compile p) (set (cm_first (compile p))) cs"
  shows "last w < positions p"
proof -
  let ?m = "compile p"
  have "in_range ?m" "length (cm_follow ?m) = positions p" by (simp_all add: compile_describes)
  then have "follows 0 (cm_follow ?m) \<subseteq> {..<positions p} \<times> {..<positions p}" "set (cm_first ?m) \<subseteq> {..<positions p}"
    by (auto simp: in_range_def follows_def)
  then have "last w \<in> {..<positions p}"
    using assms chain_stays_last [of "follows 0 (cm_follow ?m)" w "{..<positions p}"] by (auto simp: viable_def)
  then show ?thesis by simp
qed

lemma tail_of_position:
  assumes "choices_nonempty p" "i < positions p"
  shows "\<exists>z. chain (follows 0 (cm_follow (compile p))) (i # z) \<and> last (i # z) \<in> set (cm_last (compile p))"
proof -
  have "i \<in> \<Union> (set ` plang 0 p)" using position_occurs(1) [OF assms(1), of 0] assms(2) by auto
  then obtain w where w: "w \<in> plang 0 p" "i \<in> set w" by blast
  then obtain y z where s: "w = y @ i # z" by (auto simp: in_set_conv_decomp)
  with w plang_word [of w p] have "chain (follows 0 (cm_follow (compile p))) (y @ i # z)"
    "last (i # z) \<in> set (cm_last (compile p))" by auto
  then show ?thesis by (intro exI [of _ z]) (cases "y = []", simp_all add: chain_append)
qed

lemma viable_extends:
  assumes "choices_nonempty p" "w \<in> viable (compile p) (set (cm_first (compile p))) cs"
  shows "\<exists>z. w @ z \<in> plang 0 p"
proof -
  from tail_of_position [OF assms(1) viable_range [OF assms(2)]] obtain z where z:
    "chain (follows 0 (cm_follow (compile p))) (last w # z)" "last (last w # z) \<in> set (cm_last (compile p))" by blast
  have w: "w \<noteq> []" "hd w \<in> set (cm_first (compile p))" "chain (follows 0 (cm_follow (compile p))) w"
    using assms(2) by (auto simp: viable_def)
  have "w @ z \<in> plang 0 p"
    using w z by (cases "z = []") (auto simp: plang_word chain_append chain_Cons)
  then show ?thesis by blast
qed

lemma viable_prefix:
  assumes "w @ z \<in> plang 0 p" "w \<noteq> []"
  shows "w \<in> viable (compile p) (set (cm_first (compile p))) (map ((!) (names_of p)) w)"
  using assms plang_word [of "w @ z" p]
  by (cases "z = []") (auto simp: viable_def compile_describes(1) chain_append)

text \<open>\<open>cs\<close> starts a sequence of the language.\<close>

definition prefix_of_lang :: "content_particle \<Rightarrow> name_id list \<Rightarrow> bool" where
  "prefix_of_lang p cs \<longleftrightarrow> (\<exists>z. cs @ z \<in> lang p)"

lemma prefix_viable:
  assumes "choices_nonempty p" "cs \<noteq> []"
  shows "prefix_of_lang p cs \<longleftrightarrow> viable (compile p) (set (cm_first (compile p))) cs \<noteq> {}"
proof
  assume "prefix_of_lang p cs"
  then obtain z w where w: "w \<in> plang 0 p" "map ((!) (names_of p)) w = cs @ z"
    unfolding prefix_of_lang_def lang_positions by (metis imageE)
  then obtain u v where "w = u @ v" "map ((!) (names_of p)) u = cs"
    by (metis map_eq_append_conv)
  with w(1) assms(2) viable_prefix [of u v p] show "viable (compile p) (set (cm_first (compile p))) cs \<noteq> {}" by auto
next
  assume "viable (compile p) (set (cm_first (compile p))) cs \<noteq> {}"
  then obtain w where w: "w \<in> viable (compile p) (set (cm_first (compile p))) cs" by blast
  from viable_extends [OF assms(1) w] obtain z where "w @ z \<in> plang 0 p" by blast
  then have "map ((!) (names_of p)) (w @ z) \<in> lang p" unfolding lang_positions by (rule imageI)
  with w show "prefix_of_lang p cs"
    by (auto simp: prefix_of_lang_def viable_def compile_describes(1))
qed

lemma allowed_next:
  assumes "choices_nonempty p"
  shows "(!) (cm_symbols (compile p)) ` (if us = [] then set (cm_first (compile p))
      else successors (compile p) (last ` viable (compile p) (set (cm_first (compile p))) us)) =
    {c. prefix_of_lang p (us @ [c])}" (is "?l = ?r")
proof -
  let ?m = "compile p" and ?F = "set (cm_first (compile p))"
  have r: "prefix_of_lang p (us @ [c]) \<longleftrightarrow> viable ?m ?F (us @ [c]) \<noteq> {}" for c
    by (rule prefix_viable) (simp_all add: assms)
  have "viable ?m ?F (us @ [c]) \<noteq> {} \<longleftrightarrow> c \<in> ?l" for c
  proof (cases "us = []")
    case False
    have "viable ?m ?F (us @ [c]) \<noteq> {} \<longleftrightarrow>
        (\<exists>w q. w \<in> viable ?m ?F us \<and> (last w, q) \<in> follows 0 (cm_follow ?m) \<and> cm_symbols ?m ! q = c)" (is "?a \<longleftrightarrow> ?b")
    proof
      assume ?a
      then obtain x where x: "x \<in> viable ?m ?F (us @ [c])" by blast
      then obtain w q where "x = w @ [q]" "map ((!) (cm_symbols ?m)) w = us" "cm_symbols ?m ! q = c"
        by (auto simp: viable_def map_eq_append_conv)
      with x False show ?b by (intro exI [of _ w] exI [of _ q]) (auto simp: viable_def chain_append)
    next
      assume ?b
      then obtain w q where "w \<in> viable ?m ?F us" "(last w, q) \<in> follows 0 (cm_follow ?m)" "cm_symbols ?m ! q = c" by blast
      then have "w @ [q] \<in> viable ?m ?F (us @ [c])" by (auto simp: viable_def chain_append)
      then show ?a by blast
    qed
    also have "\<dots> \<longleftrightarrow> c \<in> ?l"
      using False viable_range [of _ p us] compile_describes(2) [of p]
      by (auto simp: successors_def follows_def)
    finally show ?thesis .
  qed (auto simp: viable_single)
  with r show ?thesis by blast
qed

text \<open>
  C12. When matching fails, the report names the first child that does not fit: the children before it
  start a sequence of the language, with it they do not, and the allowed names are exactly those
  that could have come at that point. A report without a child means the sequence only stopped short.
\<close>

theorem matches_report:
  assumes "choices_nonempty p" "matches (compile p) cs = Some f"
  shows "\<exists>us vs. cs = us @ vs \<and> prefix_of_lang p us \<and>
     (case mf_at f of None \<Rightarrow> vs = [] | Some c \<Rightarrow> (\<exists>ws. vs = c # ws) \<and> \<not> prefix_of_lang p (us @ [c])) \<and>
     set (mf_allowed f) = {c. prefix_of_lang p (us @ [c])}"
proof -
  let ?m = "compile p" and ?F = "set (cm_first (compile p))"
  have r: "in_range ?m" by (rule compile_describes)
  then have f: "?F \<subseteq> {..<length (cm_follow ?m)}" by (simp add: in_range_def)
  have nil: "prefix_of_lang p []"
    using position_occurs(1) [OF assms(1), of 0] by (auto simp: prefix_of_lang_def lang_positions)
  show ?thesis
  proof (cases "run ?m (cm_first ?m) [] cs")
    case (Inl e)
    with assms(2) have "f = e" by (simp add: matches_def)
    with run_Inl [OF Inl r f] obtain us c vs where u: "cs = us @ c # vs" "mf_at f = Some c"
      "viable ?m ?F (us @ [c]) = {}" "us \<noteq> [] \<longrightarrow> viable ?m ?F us \<noteq> {}"
      "set (mf_allowed f) = (!) (cm_symbols ?m) ` (if us = [] then ?F else successors ?m (last ` viable ?m ?F us))"
      by blast
    have "prefix_of_lang p us" using u(4) nil prefix_viable [OF assms(1)] by (cases "us = []") auto
    moreover have "\<not> prefix_of_lang p (us @ [c])" using prefix_viable [OF assms(1)] u(3) by simp
    ultimately show ?thesis
      using u(1,2,5) allowed_next [OF assms(1), of us] by (intro exI [of _ us] exI [of _ "c # vs"]) simp
  next
    case (Inr x)
    obtain active matched where x: "x = (active, matched)" by (cases x)
    have e: "mf_at f = None" "mf_allowed f = symbols_of ?m active"
      using assms(2) Inr x by (auto simp: matches_def Let_def split: if_splits)
    show ?thesis
    proof (cases "cs = []")
      case True
      with Inr x e allowed_next [OF assms(1), of "[]"] nil show ?thesis by simp
    next
      case False
      from run_Inr [OF Inr [unfolded x] r f False]
      have m: "set matched = last ` viable ?m ?F cs" "set active = successors ?m (set matched)" "matched \<noteq> []" by auto
      then have "viable ?m ?F cs \<noteq> {}" by auto
      with prefix_viable [OF assms(1) False] have "prefix_of_lang p cs" by simp
      with e m False allowed_next [OF assms(1), of cs] show ?thesis
        by (intro exI [of _ cs] exI [of _ "[]"]) simp
    qed
  qed
qed

lemma matches_report_witness:
  "\<exists>us vs. [NameId 0 2] = us @ vs \<and> prefix_of_lang (Seq [Name (NameId 0 1) Once, Name (NameId 0 2) Optional] Once) us \<and>
     vs = [NameId 0 2] \<and>
     \<not> prefix_of_lang (Seq [Name (NameId 0 1) Once, Name (NameId 0 2) Optional] Once) (us @ [NameId 0 2])"
proof -
  have m: "matches (compile (Seq [Name (NameId 0 1) Once, Name (NameId 0 2) Optional] Once)) [NameId 0 2] =
      Some \<lparr>mf_at = Some (NameId 0 2), mf_allowed = [NameId 0 1]\<rparr>"
    by code_simp
  have c: "choices_nonempty (Seq [Name (NameId 0 1) Once, Name (NameId 0 2) Optional] Once)" by simp
  from matches_report [OF c m] obtain us vs where u: "[NameId 0 2] = us @ vs"
    "prefix_of_lang (Seq [Name (NameId 0 1) Once, Name (NameId 0 2) Optional] Once) us" "\<exists>ws. vs = NameId 0 2 # ws"
    "\<not> prefix_of_lang (Seq [Name (NameId 0 1) Once, Name (NameId 0 2) Optional] Once) (us @ [NameId 0 2])"
    unfolding match_failure.simps option.simps by blast
  then have "vs = [NameId 0 2]" by (cases us) auto
  with u show ?thesis by blast
qed

section \<open>Determinism\<close>

lemma has_duplicate_loop_iff:
  "has_duplicate_loop seen ps syms \<longleftrightarrow>
     \<not> (distinct (map ((!) syms) ps) \<and> set seen \<inter> set (map ((!) syms) ps) = {})"
  by (induction seen ps syms rule: has_duplicate_loop.induct) auto

lemma has_duplicate_symbol_iff:
  "distinct ps \<Longrightarrow> has_duplicate_symbol ps syms \<longleftrightarrow> \<not> inj_on ((!) syms) (set ps)"
  by (simp add: has_duplicate_symbol_def has_duplicate_loop_iff distinct_map)

lemma distinct_push_unique: "distinct xs \<Longrightarrow> distinct (push_unique xs v)"
  by (simp add: push_unique_def)

lemma distinct_extend_unique: "distinct xs \<Longrightarrow> distinct (extend_unique xs vs)"
  by (induction vs arbitrary: xs) (simp_all add: distinct_push_unique)

lemma distinct_link_one:
  "\<forall>x \<in> set follow. distinct x \<Longrightarrow> \<forall>x \<in> set (link_one follow l fs). distinct x"
proof (induction fs arbitrary: follow)
  case (Cons f fs)
  have "\<forall>x \<in> set (follow[l := push_unique (follow ! l) f]). distinct x"
  proof (cases "l < length follow")
    case True
    then show ?thesis using Cons.prems set_update_subset_insert [of follow l]
      by (metis distinct_push_unique insertE nth_mem subsetD)
  next
    case False
    then have "follow[l := push_unique (follow ! l) f] = follow" by (intro list_update_beyond) simp
    with Cons.prems show ?thesis by (simp only: simp_thms)
  qed
  then show ?case using Cons.IH by simp
qed simp

lemma distinct_link:
  "\<forall>x \<in> set follow. distinct x \<Longrightarrow> \<forall>x \<in> set (link follow ls fs). distinct x"
proof (induction ls arbitrary: follow)
  case (Cons l ls)
  show ?case unfolding link.simps by (rule Cons.IH [OF distinct_link_one [OF Cons.prems]])
qed simp

lemma distinct_apply_occurs:
  "apply_occurs (s, f) fr oc = ((s', f'), fr') \<Longrightarrow> \<forall>x \<in> set f. distinct x \<Longrightarrow> distinct (fr_first fr) \<Longrightarrow>
     (\<forall>x \<in> set f'. distinct x) \<and> distinct (fr_first fr')"
  using distinct_link [of f] by (auto split: if_splits)

lemma build_distinct:
  "build t p = ((s', f'), fr) \<Longrightarrow> \<forall>x \<in> set (snd t). distinct x \<Longrightarrow> (\<forall>x \<in> set f'. distinct x) \<and> distinct (fr_first fr)"
  "build_seq t ps acc = ((s', f'), fr) \<Longrightarrow> \<forall>x \<in> set (snd t). distinct x \<Longrightarrow> distinct (fr_first acc) \<Longrightarrow>
     (\<forall>x \<in> set f'. distinct x) \<and> distinct (fr_first fr)"
  "build_choice t ps acc = ((s', f'), fr) \<Longrightarrow> \<forall>x \<in> set (snd t). distinct x \<Longrightarrow> distinct (fr_first acc) \<Longrightarrow>
     (\<forall>x \<in> set f'. distinct x) \<and> distinct (fr_first fr)"
proof (induction t p and t ps acc and t ps acc arbitrary: s' f' fr and s' f' fr and s' f' fr
    rule: build_build_seq_build_choice.induct)
  case (1 syms follow n oc)
  then show ?case
    using distinct_apply_occurs [of "syms @ [n]" "follow @ [[]]"
      "\<lparr>fr_nullable = False, fr_first = [length syms], fr_last = [length syms]\<rparr>" oc s' f' fr]
    by (simp add: Let_def del: apply_occurs.simps)
next
  case (2 t ps oc)
  obtain s1 f1 fr1 where b: "build_seq t ps \<lparr>fr_nullable = True, fr_first = [], fr_last = []\<rparr> = ((s1, f1), fr1)"
    by (metis prod.collapse)
  with "2.IH" [OF b "2.prems"(2)] "2.prems"(1) show ?case
    by (intro distinct_apply_occurs [of s1 f1 fr1 oc]) simp_all
next
  case (3 t ps oc)
  obtain s1 f1 fr1 where b: "build_choice t ps \<lparr>fr_nullable = False, fr_first = [], fr_last = []\<rparr> = ((s1, f1), fr1)"
    by (metis prod.collapse)
  with "3.IH" [OF b "3.prems"(2)] "3.prems"(1) show ?case
    by (intro distinct_apply_occurs [of s1 f1 fr1 oc]) simp_all
next
  case (5 t p ps acc)
  obtain s1 f1 fr1 where b: "build t p = ((s1, f1), fr1)" by (metis prod.collapse)
  note i = "5.IH"(1) [OF b "5.prems"(2)]
  show ?case
    by (rule "5.IH"(2) [OF b [symmetric] refl])
       (use "5.prems"(1,3) b i distinct_link [of f1] in \<open>simp_all add: distinct_extend_unique\<close>)
next
  case (7 t p ps acc)
  obtain s1 f1 fr1 where b: "build t p = ((s1, f1), fr1)" by (metis prod.collapse)
  note i = "7.IH"(1) [OF b "7.prems"(2)]
  show ?case
    by (rule "7.IH"(2) [OF b [symmetric]])
       (use "7.prems"(1,3) b i in \<open>simp_all add: distinct_extend_unique\<close>)
qed simp_all

lemma is_deterministic_iff:
  "is_deterministic (compile p) \<longleftrightarrow> inj_on ((!) (names_of p)) (set (cm_first (compile p))) \<and>
     (\<forall>i < positions p. inj_on ((!) (names_of p)) (set (cm_follow (compile p) ! i)))"
proof -
  obtain syms follow fr where b: "build ([], []) p = ((syms, follow), fr)" by (metis prod.collapse)
  have d: "\<forall>x \<in> set follow. distinct x" "distinct (fr_first fr)" using build_distinct(1) [OF b] by auto
  have c: "cm_follow (compile p) = follow" "cm_first (compile p) = fr_first fr" by (simp_all add: compile_def b)
  have "is_deterministic (compile p) \<longleftrightarrow> inj_on ((!) (names_of p)) (set (fr_first fr)) \<and>
     (\<forall>x \<in> set follow. inj_on ((!) (names_of p)) (set x))"
    using d by (simp add: is_deterministic_def c compile_describes(1) has_duplicate_symbol_iff list_all_iff)
  then show ?thesis
    using compile_describes(2) [of p] by (simp add: c all_set_conv_all_nth)
qed

text \<open>
  C13. The determinism test answers XML's Appendix E: it holds exactly when no two complete position
  words agree up to a point and then go to different positions that carry the same name.
\<close>

theorem is_deterministic_iff_unambiguous:
  assumes "choices_nonempty p"
  shows "is_deterministic (compile p) \<longleftrightarrow>
    (\<forall>u x v y w. u @ x # v \<in> plang 0 p \<longrightarrow> u @ y # w \<in> plang 0 p \<longrightarrow> names_of p ! x = names_of p ! y \<longrightarrow> x = y)"
    (is "?d \<longleftrightarrow> ?u")
proof
  let ?R = "follows 0 (cm_follow (compile p))"
  assume d: ?d
  show ?u
  proof (intro allI impI)
    fix u x v y w
    assume a: "u @ x # v \<in> plang 0 p" "u @ y # w \<in> plang 0 p" "names_of p ! x = names_of p ! y"
    show "x = y"
    proof (cases "u = []")
      case True
      with a(1,2) have "x \<in> set (cm_first (compile p))" "y \<in> set (cm_first (compile p))" by (auto simp: plang_word)
      with d a(3) show ?thesis by (auto simp: is_deterministic_iff inj_on_def)
    next
      case False
      with a(1,2) have "(last u, x) \<in> ?R" "(last u, y) \<in> ?R" by (auto simp: plang_word chain_append)
      with d a(3) compile_describes(2) [of p] show ?thesis
        by (auto simp: is_deterministic_iff inj_on_def follows_def)
    qed
  qed
next
  let ?R = "follows 0 (cm_follow (compile p))"
  assume u: ?u
  have r: "in_range (compile p)" "length (cm_follow (compile p)) = positions p" by (simp_all add: compile_describes)
  have complete: "\<exists>v. u @ x # v \<in> plang 0 p"
    if "x < positions p" "if u = [] then x \<in> set (cm_first (compile p))
      else hd u \<in> set (cm_first (compile p)) \<and> chain ?R u \<and> (last u, x) \<in> ?R" for u x
  proof -
    from tail_of_position [OF assms that(1)] obtain z where z: "chain ?R (x # z)"
      "last (x # z) \<in> set (cm_last (compile p))" by blast
    with that(2) have "u @ x # z \<in> plang 0 p"
      by (cases "u = []") (simp_all add: plang_word chain_append)
    then show ?thesis by blast
  qed
  have "inj_on ((!) (names_of p)) (set (cm_first (compile p)))"
  proof (rule inj_onI)
    fix x y assume xy: "x \<in> set (cm_first (compile p))" "y \<in> set (cm_first (compile p))" "names_of p ! x = names_of p ! y"
    with r have "x < positions p" "y < positions p" by (auto simp: in_range_def)
    with complete [of x "[]"] complete [of y "[]"] xy have "\<exists>v w. [] @ x # v \<in> plang 0 p \<and> [] @ y # w \<in> plang 0 p" by simp
    with u xy(3) show "x = y" by blast
  qed
  moreover have "inj_on ((!) (names_of p)) (set (cm_follow (compile p) ! i))" if i: "i < positions p" for i
  proof (rule inj_onI)
    fix x y assume xy: "x \<in> set (cm_follow (compile p) ! i)" "y \<in> set (cm_follow (compile p) ! i)"
      "names_of p ! x = names_of p ! y"
    have "set (cm_follow (compile p) ! i) \<subseteq> {..<positions p}"
      using r i unfolding in_range_def by (metis nth_mem)
    with xy have l: "x < positions p" "y < positions p" by auto
    have "i \<in> \<Union> (set ` plang 0 p)" using position_occurs(1) [OF assms, of 0] i by auto
    then obtain w where w: "w \<in> plang 0 p" "i \<in> set w" by blast
    then obtain a z where "w = (a @ [i]) @ z" by (auto simp: in_set_conv_decomp)
    then have "hd ((a @ [i]) @ z) \<in> set (cm_first (compile p))" "chain ?R ((a @ [i]) @ z)"
      using w(1) plang_word [of w p] by simp_all
    then have "hd (a @ [i]) \<in> set (cm_first (compile p))" "chain ?R (a @ [i])"
      using hd_append2 [of "a @ [i]" z] chain_prefix [of ?R "a @ [i]" z] by simp_all
    moreover have "(i, x) \<in> ?R" "(i, y) \<in> ?R" using xy i r by (auto simp: follows_def)
    ultimately have "\<exists>v. (a @ [i]) @ x # v \<in> plang 0 p" "\<exists>w'. (a @ [i]) @ y # w' \<in> plang 0 p"
      by (intro complete [OF l(1)] complete [OF l(2)]; simp)+
    with u xy(3) show "x = y" by blast
  qed
  ultimately show ?d by (simp add: is_deterministic_iff)
qed

text \<open>\<open>(a, b) | (a, c)\<close> is the ambiguous model of Appendix E.\<close>

lemma is_deterministic_iff_unambiguous_witness:
  "\<exists>u x v y w. u @ x # v \<in> plang 0 (Choice [Seq [Name (NameId 0 1) Once, Name (NameId 0 2) Once] Once,
       Seq [Name (NameId 0 1) Once, Name (NameId 0 3) Once] Once] Once) \<and>
     u @ y # w \<in> plang 0 (Choice [Seq [Name (NameId 0 1) Once, Name (NameId 0 2) Once] Once,
       Seq [Name (NameId 0 1) Once, Name (NameId 0 3) Once] Once] Once) \<and> x \<noteq> y"
proof -
  have "\<not> is_deterministic (compile (Choice [Seq [Name (NameId 0 1) Once, Name (NameId 0 2) Once] Once,
       Seq [Name (NameId 0 1) Once, Name (NameId 0 3) Once] Once] Once))"
    by code_simp
  then show ?thesis
    by (subst (asm) is_deterministic_iff_unambiguous) (simp_all only: choices_nonempty.simps
      choices_nonempty_list.simps simp_thms list.distinct, blast)
qed

end
