(* ===== verification/Uri.thy ===== *)
theory Uri
  imports Utf8
begin

text \<open>
  URI references and their resolution, \<open>uri.rs\<close>: parsing and rendering, construction from
  components, reference resolution and its inverse, syntax-based normalization and percent escaping.

  Components stay percent-encoded, as in the code. Every delimiter the code searches for is ASCII, so
  a slice at a byte index the search gave is the cut of the character sequence at that delimiter.
\<close>

section \<open>Characters and components\<close>

record uri_reference =
  u_scheme :: "ustring option"
  u_authority :: "ustring option"
  u_path :: ustring
  u_query :: "ustring option"
  u_fragment :: "ustring option"

definition is_unreserved :: "nat \<Rightarrow> bool" where
  "is_unreserved c \<longleftrightarrow> is_ascii_alphanumeric c \<or> c \<in> set (lit ''-._~'')"

definition is_uri_char :: "uchar \<Rightarrow> bool" where
  "is_uri_char c \<longleftrightarrow> is_ascii_alphanumeric c \<or>
     c \<in> set (lit ''-._~:/?#[]@!$&'') \<or> c = APOS \<or> c \<in> set (lit ''()*+,;=%'')"

fun is_scheme :: "ustring \<Rightarrow> bool" where
  "is_scheme [] = False"
| "is_scheme (c # s) =
     (is_ascii_alphabetic c \<and> list_all (\<lambda>d. is_ascii_alphanumeric d \<or> d \<in> set (lit ''+-.'')) s)"

definition split_once_at :: "ustring \<Rightarrow> uchar \<Rightarrow> ustring \<times> ustring option" where
  "split_once_at s d = (case split_once d s of Some (a, b) \<Rightarrow> (a, Some b) | None \<Rightarrow> (s, None))"

section \<open>Parsing and rendering\<close>

definition split_scheme :: "ustring \<Rightarrow> ustring option \<times> ustring" where
  "split_scheme s = (case split_once COLON s of
      Some (a, b) \<Rightarrow> if is_scheme a then (Some (to_ascii_lowercase a), b) else (None, s)
    | None \<Rightarrow> (None, s))"

definition split_authority :: "ustring \<Rightarrow> ustring option \<times> ustring" where
  "split_authority s = (case strip_prefix [SLASH, SLASH] s of
      Some after \<Rightarrow> (Some (takeWhile (\<lambda>c. c \<noteq> SLASH) after), dropWhile (\<lambda>c. c \<noteq> SLASH) after)
    | None \<Rightarrow> (None, s))"

definition parse :: "ustring \<Rightarrow> uri_reference result" where
  "parse s =
     (if list_ex (\<lambda>c. \<not> is_uri_char c) s then Inl Uri_Error
      else case split_once_at s HASH of (rest, fragment) \<Rightarrow>
        case split_once_at rest QUESTION of (rest, query) \<Rightarrow>
        case split_scheme rest of (scheme, rest) \<Rightarrow>
        case split_authority rest of (authority, path) \<Rightarrow>
          if scheme = None \<and> authority = None \<and> starts_with [SLASH, SLASH] path then Inl Uri_Error
          else Inr \<lparr>u_scheme = scheme, u_authority = authority, u_path = path, u_query = query,
                    u_fragment = fragment\<rparr>)"

fun with_prefix :: "ustring \<Rightarrow> ustring option \<Rightarrow> ustring" where
  "with_prefix p None = []"
| "with_prefix p (Some s) = p @ s"

text \<open>\<open>impl fmt::Display for UriReference\<close>\<close>

definition to_string :: "uri_reference \<Rightarrow> ustring" where
  "to_string u =
     (case u_scheme u of None \<Rightarrow> [] | Some s \<Rightarrow> s @ [COLON]) @
     with_prefix [SLASH, SLASH] (u_authority u) @ u_path u @
     with_prefix [QUESTION] (u_query u) @ with_prefix [HASH] (u_fragment u)"

definition new_uri ::
  "ustring option \<Rightarrow> ustring option \<Rightarrow> ustring \<Rightarrow> ustring option \<Rightarrow> ustring option \<Rightarrow> uri_reference result" where
  "new_uri scheme authority path query fragment =
     (let candidate = \<lparr>u_scheme = map_option (\<lambda>s. to_ascii_lowercase s) scheme, u_authority = authority,
        u_path = path, u_query = query, u_fragment = fragment\<rparr>
      in case parse (to_string candidate) of
           Inl e \<Rightarrow> Inl e
         | Inr u \<Rightarrow> if u = candidate then Inr candidate else Inl Uri_Error)"

definition is_absolute :: "uri_reference \<Rightarrow> bool" where
  "is_absolute u \<longleftrightarrow> u_scheme u \<noteq> None"

definition without_fragment :: "uri_reference \<Rightarrow> uri_reference" where
  "without_fragment u = u\<lparr>u_fragment := None\<rparr>"

section \<open>Resolution\<close>

text \<open>\<open>pop_segment\<close>: the last segment goes, with the slash before it.\<close>

definition pop_segment :: "ustring \<Rightarrow> ustring" where
  "pop_segment out = (if SLASH \<in> set out then before_last SLASH out else [])"

text \<open>Rule E: the leading segment with its slash, and what is left.\<close>

fun first_segment :: "ustring \<Rightarrow> ustring \<times> ustring" where
  "first_segment [] = ([], [])"
| "first_segment (c # s) =
     (if c = SLASH then (c # takeWhile (\<lambda>d. d \<noteq> SLASH) s, dropWhile (\<lambda>d. d \<noteq> SLASH) s)
      else (takeWhile (\<lambda>d. d \<noteq> SLASH) (c # s), dropWhile (\<lambda>d. d \<noteq> SLASH) (c # s)))"

lemma first_segment_shorter: "s \<noteq> [] \<Longrightarrow> length (snd (first_segment s)) < length s"
  by (cases s) (auto simp: less_Suc_eq_le length_dropWhile_le)

function remove_dots_loop :: "ustring \<Rightarrow> ustring \<Rightarrow> ustring" where
  "remove_dots_loop input out =
     (if input = [] then out
      else if starts_with (lit ''../'') input then remove_dots_loop (drop 3 input) out
      else if starts_with (lit ''./'') input then remove_dots_loop (drop 2 input) out
      else if starts_with (lit ''/./'') input then remove_dots_loop (drop 2 input) out
      else if input = lit ''/.'' then remove_dots_loop (lit ''/'') out
      else if starts_with (lit ''/../'') input then remove_dots_loop (drop 3 input) (pop_segment out)
      else if input = lit ''/..'' then remove_dots_loop (lit ''/'') (pop_segment out)
      else if input = lit ''.'' \<or> input = lit ''..'' then remove_dots_loop [] out
      else case first_segment input of (seg, rest) \<Rightarrow> remove_dots_loop rest (out @ seg))"
  by pat_completeness auto
termination
  by (relation "measure (\<lambda>(input, out). length input)")
     (auto simp: starts_with_iff lit_def, metis first_segment_shorter length_0_conv length_greater_0_conv snd_conv)

declare remove_dots_loop.simps [simp del]

definition remove_dot_segments :: "ustring \<Rightarrow> ustring" where
  "remove_dot_segments path = remove_dots_loop path []"

definition merge :: "uri_reference \<Rightarrow> ustring \<Rightarrow> ustring" where
  "merge base path =
     (if u_authority base \<noteq> None \<and> u_path base = [] then SLASH # path
      else upto_last SLASH (u_path base) @ path)"

definition resolve_uri :: "uri_reference \<Rightarrow> uri_reference \<Rightarrow> uri_reference" where
  "resolve_uri base r =
     (if u_scheme r \<noteq> None then r\<lparr>u_path := remove_dot_segments (u_path r)\<rparr>
      else if u_authority r \<noteq> None then
        r\<lparr>u_scheme := u_scheme base, u_path := remove_dot_segments (u_path r)\<rparr>
      else if u_path r = [] then
        \<lparr>u_scheme = u_scheme base, u_authority = u_authority base, u_path = u_path base,
         u_query = (case u_query r of None \<Rightarrow> u_query base | Some q \<Rightarrow> Some q), u_fragment = u_fragment r\<rparr>
      else
        \<lparr>u_scheme = u_scheme base, u_authority = u_authority base,
         u_path = (if starts_with [SLASH] (u_path r) then remove_dot_segments (u_path r)
                   else remove_dot_segments (merge base (u_path r))),
         u_query = u_query r, u_fragment = u_fragment r\<rparr>)"

definition resolve_str :: "ustring \<Rightarrow> ustring \<Rightarrow> ustring result" where
  "resolve_str base r =
     (case parse base of Inl e \<Rightarrow> Inl e
      | Inr b \<Rightarrow> (case parse r of Inl e \<Rightarrow> Inl e | Inr u \<Rightarrow> Inr (to_string (resolve_uri b u))))"

section \<open>Relativization\<close>

definition path_segments :: "ustring \<Rightarrow> ustring list" where
  "path_segments path =
     (let p = (case strip_prefix [SLASH] path of Some r \<Rightarrow> r | None \<Rightarrow> path)
      in if p = [] then [] else split_on SLASH p)"

definition dir_segments :: "ustring \<Rightarrow> ustring list" where
  "dir_segments base_dir =
     (let segs = path_segments base_dir
      in if segs \<noteq> [] \<and> last segs = [] then butlast segs else segs)"

fun common_len :: "'a list \<Rightarrow> 'a list \<Rightarrow> nat" where
  "common_len (a # as) (b # bs) = (if a = b then Suc (common_len as bs) else 0)"
| "common_len _ _ = 0"

definition relative_path :: "ustring \<Rightarrow> ustring \<Rightarrow> ustring" where
  "relative_path base_path target_path =
     (let base_dirs = dir_segments (upto_last SLASH base_path);
          target_segs = path_segments target_path;
          last_seg = (if target_segs = [] then [] else last target_segs);
          target_dirs = butlast target_segs;
          common = common_len base_dirs target_dirs;
          parts = replicate (length base_dirs - common) (lit ''..'') @ drop common target_dirs @ [last_seg];
          path = join [SLASH] parts
      in if path = [] then lit ''.''
         else if hd parts \<noteq> lit ''..'' \<and> COLON \<in> set (hd parts) then lit ''./'' @ path
         else path)"

definition relativize :: "uri_reference \<Rightarrow> uri_reference \<Rightarrow> uri_reference" where
  "relativize base target =
     (if u_scheme base \<noteq> u_scheme target \<or> u_authority base \<noteq> u_authority target then target
      else
        let candidate = \<lparr>u_scheme = None, u_authority = None,
          u_path = relative_path (u_path base) (u_path target),
          u_query = u_query target, u_fragment = u_fragment target\<rparr>
        in if resolve_uri base candidate = target then candidate else target)"

section \<open>Normalization\<close>

record scheme_rules =
  sr_scheme :: ustring
  sr_default_port :: "ustring option"
  sr_empty_path_is_root :: bool

definition SCHEMES :: "scheme_rules list" where
  "SCHEMES =
     [\<lparr>sr_scheme = lit ''http'', sr_default_port = Some (lit ''80''), sr_empty_path_is_root = True\<rparr>,
      \<lparr>sr_scheme = lit ''https'', sr_default_port = Some (lit ''443''), sr_empty_path_is_root = True\<rparr>,
      \<lparr>sr_scheme = lit ''file'', sr_default_port = None, sr_empty_path_is_root = True\<rparr>]"

definition rules_of :: "ustring \<Rightarrow> scheme_rules option" where
  "rules_of scheme = find (\<lambda>r. sr_scheme r = scheme) SCHEMES"

definition HEX :: "nat list" where
  "HEX = lit ''0123456789ABCDEF''"

definition hex_digit :: "nat \<Rightarrow> nat option" where
  "hex_digit b =
     (if cp CHR ''0'' \<le> b \<and> b \<le> cp CHR ''9'' then Some (b - cp CHR ''0'')
      else if cp CHR ''a'' \<le> b \<and> b \<le> cp CHR ''f'' then Some (b - cp CHR ''a'' + 10)
      else if cp CHR ''A'' \<le> b \<and> b \<le> cp CHR ''F'' then Some (b - cp CHR ''A'' + 10)
      else None)"

definition normal_octet :: "nat \<Rightarrow> nat \<Rightarrow> nat list" where
  "normal_octet high low =
     (let octet = 16 * high + low
      in if is_unreserved octet then [octet] else [PERCENT, HEX ! high, HEX ! low])"

text \<open>The two hex digits after a percent sign.\<close>

fun hex_pair :: "nat list \<Rightarrow> (nat \<times> nat) option" where
  "hex_pair (p # h # l # s) =
     (if p = PERCENT then
        (case hex_digit h of None \<Rightarrow> None | Some x \<Rightarrow> map_option (Pair x) (hex_digit l))
      else None)"
| "hex_pair _ = None"

lemma hex_pair_shape:
  "hex_pair s = Some (x, y) \<longleftrightarrow> (\<exists>h l r. s = PERCENT # h # l # r \<and> hex_digit h = Some x \<and> hex_digit l = Some y)"
  by (cases s rule: hex_pair.cases) (auto split: option.splits)

function percent_loop :: "byte list \<Rightarrow> byte list" where
  "percent_loop bs =
     (case bs of [] \<Rightarrow> []
      | b # r \<Rightarrow>
         (case hex_pair (map unat bs) of
            Some (high, low) \<Rightarrow> map byte_of (normal_octet high low) @ percent_loop (drop 3 bs)
          | None \<Rightarrow> b # percent_loop r))"
  by pat_completeness auto
termination by (relation "measure length") auto

declare percent_loop.simps [simp del]

definition normalize_percent :: "ustring \<Rightarrow> ustring" where
  "normalize_percent s =
     (case from_utf8 (percent_loop (utf8_encode s)) of (t, Valid) \<Rightarrow> t | (_, Error_Len _) \<Rightarrow> s)"

definition split_port :: "ustring \<Rightarrow> ustring \<times> ustring option" where
  "split_port host_port =
     (if RBRACKET \<in> set host_port then
        (case split_once COLON (after_last RBRACKET host_port) of
           Some (a, b) \<Rightarrow> (upto_last RBRACKET host_port @ a, Some b)
         | None \<Rightarrow> (host_port, None))
      else (case rsplit_once COLON host_port of
              Some (a, b) \<Rightarrow> (a, Some b) | None \<Rightarrow> (host_port, None)))"

definition normalize_authority :: "ustring \<Rightarrow> scheme_rules option \<Rightarrow> ustring" where
  "normalize_authority authority rules =
     (case (case rsplit_once AT authority of
              Some (userinfo, host_port) \<Rightarrow> (Some userinfo, host_port) | None \<Rightarrow> (None, authority)) of
        (userinfo, host_port) \<Rightarrow>
          case split_port host_port of (host, port) \<Rightarrow>
            (case userinfo of None \<Rightarrow> [] | Some i \<Rightarrow> normalize_percent i @ [AT]) @
            normalize_percent (to_ascii_lowercase host) @
            (case port of None \<Rightarrow> []
             | Some p \<Rightarrow>
                 if p \<noteq> [] \<and> Some p \<noteq> (case rules of None \<Rightarrow> None | Some r \<Rightarrow> sr_default_port r)
                 then COLON # p else []))"

definition normalize :: "uri_reference \<Rightarrow> uri_reference" where
  "normalize u =
     (let scheme = map_option (\<lambda>s. to_ascii_lowercase s) (u_scheme u);
          rules = (case scheme of None \<Rightarrow> None | Some s \<Rightarrow> rules_of s);
          authority = map_option (\<lambda>a. normalize_authority a rules) (u_authority u);
          path = normalize_percent (u_path u);
          path = (if scheme \<noteq> None \<and> (authority \<noteq> None \<or> starts_with [SLASH] path)
                  then remove_dot_segments path else path);
          path = (if path = [] \<and> authority \<noteq> None \<and>
                    (case rules of None \<Rightarrow> False | Some r \<Rightarrow> sr_empty_path_is_root r)
                  then [SLASH] else path)
      in \<lparr>u_scheme = scheme, u_authority = authority, u_path = path,
          u_query = map_option normalize_percent (u_query u),
          u_fragment = map_option normalize_percent (u_fragment u)\<rparr>)"

section \<open>Escaping\<close>

definition escape_byte :: "byte \<Rightarrow> ustring" where
  "escape_byte b = [PERCENT, HEX ! (unat b div 16), HEX ! (unat b mod 16)]"

definition escape_uri :: "ustring \<Rightarrow> ustring" where
  "escape_uri s =
     concat (map (\<lambda>c. if is_uri_char c then [c] else concat (map escape_byte (utf8_encode_char c))) s)"

section \<open>The references parsing produces\<close>

definition uri_wf :: "uri_reference \<Rightarrow> bool" where
  "uri_wf u \<longleftrightarrow>
     (case u_scheme u of None \<Rightarrow> True | Some s \<Rightarrow> is_scheme s \<and> to_ascii_lowercase s = s) \<and>
     (case u_authority u of None \<Rightarrow> True
      | Some a \<Rightarrow> list_all is_uri_char a \<and> SLASH \<notin> set a \<and> QUESTION \<notin> set a \<and> HASH \<notin> set a) \<and>
     list_all is_uri_char (u_path u) \<and> QUESTION \<notin> set (u_path u) \<and> HASH \<notin> set (u_path u) \<and>
     (if u_authority u = None
      then \<not> starts_with [SLASH, SLASH] (u_path u) \<and> (u_scheme u = None \<longrightarrow> fst (split_scheme (u_path u)) = None)
      else u_path u = [] \<or> starts_with [SLASH] (u_path u)) \<and>
     (case u_query u of None \<Rightarrow> True | Some q \<Rightarrow> list_all is_uri_char q \<and> HASH \<notin> set q) \<and>
     (case u_fragment u of None \<Rightarrow> True | Some f \<Rightarrow> list_all is_uri_char f)"

lemma is_scheme_iff:
  "is_scheme s \<longleftrightarrow> s \<noteq> [] \<and> is_ascii_alphabetic (hd s) \<and>
     (\<forall>d \<in> set (tl s). is_ascii_alphanumeric d \<or> d \<in> set (lit ''+-.''))"
  by (cases s) (auto simp: list_all_iff)

lemma is_scheme_chars:
  "is_scheme s \<Longrightarrow> c \<in> set s \<Longrightarrow> is_ascii_alphanumeric c \<or> c = 43 \<or> c = 45 \<or> c = 46"
  by (cases s) (auto simp: list_all_iff is_ascii_alphanumeric_def)

lemma is_scheme_free:
  "is_scheme s \<Longrightarrow> COLON \<notin> set s \<and> SLASH \<notin> set s \<and> QUESTION \<notin> set s \<and> HASH \<notin> set s"
  using is_scheme_chars [of s COLON] is_scheme_chars [of s SLASH] is_scheme_chars [of s QUESTION]
    is_scheme_chars [of s HASH]
  by (auto simp: is_ascii_alphanumeric_def is_ascii_alphabetic_def is_ascii_digit_def)

lemma is_scheme_uri_chars: "is_scheme s \<Longrightarrow> list_all is_uri_char s"
  by (auto simp: list_all_iff is_uri_char_def dest!: is_scheme_chars)

lemma alpha_lower [simp]:
  "is_ascii_alphabetic (to_ascii_lower c) \<longleftrightarrow> is_ascii_alphabetic c"
  "is_ascii_digit (to_ascii_lower c) \<longleftrightarrow> is_ascii_digit c"
  "is_ascii_alphanumeric (to_ascii_lower c) \<longleftrightarrow> is_ascii_alphanumeric c"
  by (auto simp: is_ascii_alphabetic_def is_ascii_digit_def is_ascii_alphanumeric_def to_ascii_lower_def)

lemma is_scheme_lower [simp]: "is_scheme (to_ascii_lowercase s) \<longleftrightarrow> is_scheme s"
proof -
  have "to_ascii_lower d \<in> set (lit ''+-.'') \<longleftrightarrow> d \<in> set (lit ''+-.'') " for d
    by (auto simp: to_ascii_lower_def)
  then show ?thesis by (cases s) (auto simp: list_all_iff)
qed

lemma split_once_at_prefix [simp]:
  "d \<notin> set a \<Longrightarrow> split_once_at (a @ with_prefix [d] x) d = (a, x)"
  by (cases x) (simp_all add: split_once_at_def)

lemma split_once_at_shape:
  "split_once_at s d = (a, x) \<Longrightarrow> s = a @ with_prefix [d] x \<and> d \<notin> set a"
  by (cases "split_once d s") (auto simp: split_once_at_def split_once_Some split: prod.splits)

lemma split_scheme_some [simp]:
  "is_scheme s \<Longrightarrow> split_scheme (s @ COLON # r) = (Some (to_ascii_lowercase s), r)"
  by (simp add: split_scheme_def is_scheme_free)

lemma split_scheme_None: "split_scheme s = (None, r) \<Longrightarrow> r = s"
  by (auto simp: split_scheme_def split: option.splits if_splits)

lemma split_scheme_Some:
  "split_scheme s = (Some a, r) \<Longrightarrow> \<exists>b. s = b @ COLON # r \<and> is_scheme b \<and> a = to_ascii_lowercase b"
  by (auto simp: split_scheme_def split_once_Some split: option.splits if_splits)

lemma split_scheme_slash: "fst (split_scheme (SLASH # s)) = None"
proof (cases "split_scheme (SLASH # s)")
  case (Pair x r)
  show ?thesis
  proof (cases x)
    case (Some a)
    with Pair split_scheme_Some obtain b where b: "SLASH # s = b @ COLON # r" "is_scheme b" by blast
    then have "SLASH \<in> set b" by (cases b) auto
    with is_scheme_free [OF b(2)] show ?thesis by simp
  qed (simp add: Pair)
qed

lemma split_authority_shape:
  "split_authority s = (x, p) \<Longrightarrow> s = with_prefix [SLASH, SLASH] x @ p \<and>
     (case x of None \<Rightarrow> \<not> starts_with [SLASH, SLASH] s
      | Some a \<Rightarrow> SLASH \<notin> set a \<and> (p = [] \<or> starts_with [SLASH] p))"
proof (cases "strip_prefix [SLASH, SLASH] s")
  case None
  then show "split_authority s = (x, p) \<Longrightarrow> ?thesis"
    by (auto simp: split_authority_def strip_prefix_None)
next
  case (Some r)
  assume "split_authority s = (x, p)"
  with Some have x: "x = Some (takeWhile (\<lambda>c. c \<noteq> SLASH) r)" "p = dropWhile (\<lambda>c. c \<noteq> SLASH) r"
    and s: "s = [SLASH, SLASH] @ r"
    by (simp_all add: split_authority_def)
  have "p = [] \<or> starts_with [SLASH] p"
    unfolding x(2) by (induction r) simp_all
  moreover have "SLASH \<notin> set (takeWhile (\<lambda>c. c \<noteq> SLASH) r)" by (auto dest: set_takeWhileD)
  ultimately show ?thesis using x s by simp
qed

lemma split_authority_some [simp]:
  "SLASH \<notin> set a \<Longrightarrow> p = [] \<or> starts_with [SLASH] p \<Longrightarrow>
     split_authority (SLASH # SLASH # a @ p) = (Some a, p)"
  by (cases p) (auto simp: split_authority_def)

lemma split_authority_none:
  "\<not> starts_with [SLASH, SLASH] p \<Longrightarrow> split_authority p = (None, p)"
  by (simp add: split_authority_def strip_prefix_None [THEN iffD2])

lemma uri_char_delimiters:
  "is_uri_char COLON" "is_uri_char SLASH" "is_uri_char QUESTION" "is_uri_char HASH"
  by (simp_all add: is_uri_char_def)

definition scheme_part :: "uri_reference \<Rightarrow> ustring" where
  "scheme_part u = (case u_scheme u of None \<Rightarrow> [] | Some s \<Rightarrow> s @ [COLON])"

lemma to_string_uri_chars: "uri_wf u \<Longrightarrow> list_all is_uri_char (to_string u)"
  by (auto simp: uri_wf_def to_string_def uri_char_delimiters is_scheme_uri_chars split: option.splits
      elim: with_prefix.elims)

lemma to_string_split:
  assumes "uri_wf u"
  shows "split_once_at (to_string u) HASH =
      (scheme_part u @ with_prefix [SLASH, SLASH] (u_authority u) @ u_path u @ with_prefix [QUESTION] (u_query u),
       u_fragment u)"
    and "split_once_at (scheme_part u @ with_prefix [SLASH, SLASH] (u_authority u) @ u_path u @
        with_prefix [QUESTION] (u_query u)) QUESTION =
      (scheme_part u @ with_prefix [SLASH, SLASH] (u_authority u) @ u_path u, u_query u)"
    and "split_scheme (scheme_part u @ with_prefix [SLASH, SLASH] (u_authority u) @ u_path u) =
      (u_scheme u, with_prefix [SLASH, SLASH] (u_authority u) @ u_path u)"
    and "split_authority (with_prefix [SLASH, SLASH] (u_authority u) @ u_path u) = (u_authority u, u_path u)"
proof -
  let ?a = "with_prefix [SLASH, SLASH] (u_authority u)" and ?q = "with_prefix [QUESTION] (u_query u)"
  have f: "HASH \<notin> set (scheme_part u @ ?a @ u_path u @ ?q)" "QUESTION \<notin> set (scheme_part u @ ?a @ u_path u)"
    using assms is_scheme_free
    by (cases "u_scheme u"; cases "u_authority u"; cases "u_query u"; auto simp: uri_wf_def scheme_part_def)+
  show "split_once_at (to_string u) HASH = (scheme_part u @ ?a @ u_path u @ ?q, u_fragment u)"
    using split_once_at_prefix [OF f(1)] by (simp add: to_string_def scheme_part_def)
  show "split_once_at (scheme_part u @ ?a @ u_path u @ ?q) QUESTION = (scheme_part u @ ?a @ u_path u, u_query u)"
    using split_once_at_prefix [OF f(2)] by simp
  show "split_authority (?a @ u_path u) = (u_authority u, u_path u)"
    using assms by (cases "u_authority u") (auto simp: uri_wf_def split_authority_none)
  show "split_scheme (scheme_part u @ ?a @ u_path u) = (u_scheme u, ?a @ u_path u)"
  proof (cases "u_scheme u")
    case None
    have "fst (split_scheme (?a @ u_path u)) = None"
      using assms None split_scheme_slash by (cases "u_authority u") (auto simp: uri_wf_def)
    with None show ?thesis using split_scheme_None by (metis append_Nil option.simps(4) prod.collapse scheme_part_def)
  next
    case (Some s)
    with assms have "is_scheme s" "to_ascii_lowercase s = s" by (auto simp: uri_wf_def)
    with Some show ?thesis by (simp add: scheme_part_def)
  qed
qed

lemma parse_to_string:
  assumes "uri_wf u"
  shows "parse (to_string u) = Inr u"
proof -
  have "\<not> list_ex (\<lambda>c. \<not> is_uri_char c) (to_string u)"
    using to_string_uri_chars [OF assms] by (auto simp: list_all_iff list_ex_iff)
  moreover have "\<not> (u_scheme u = None \<and> u_authority u = None \<and> starts_with [SLASH, SLASH] (u_path u))"
    using assms by (auto simp: uri_wf_def)
  ultimately show ?thesis
    unfolding parse_def to_string_split [OF assms] prod.case by simp
qed

lemma parse_wf:
  assumes "parse s = Inr u"
  shows "uri_wf u" "to_ascii_lowercase (to_string u) = to_ascii_lowercase s" "u_scheme u = None \<Longrightarrow> to_string u = s"
proof -
  have c: "list_all is_uri_char s"
    using assms by (auto simp: parse_def list_all_iff list_ex_iff split: if_splits)
  obtain r1 f where 1: "split_once_at s HASH = (r1, f)" by fastforce
  obtain r2 q where 2: "split_once_at r1 QUESTION = (r2, q)" by fastforce
  obtain sch r3 where 3: "split_scheme r2 = (sch, r3)" by fastforce
  obtain a p where 4: "split_authority r3 = (a, p)" by fastforce
  have u: "u = \<lparr>u_scheme = sch, u_authority = a, u_path = p, u_query = q, u_fragment = f\<rparr>"
    using assms by (simp add: parse_def 1 2 3 4 split: if_splits)
  note s1 = split_once_at_shape [OF 1] and s2 = split_once_at_shape [OF 2] and s4 = split_authority_shape [OF 4]
  have sch: "\<exists>b. r2 = b @ r3 \<and> (case sch of None \<Rightarrow> b = []
      | Some x \<Rightarrow> \<exists>y. b = y @ [COLON] \<and> is_scheme y \<and> x = to_ascii_lowercase y)"
  proof (cases sch)
    case None
    then show ?thesis using 3 split_scheme_None by auto
  next
    case (Some x)
    then show ?thesis using 3 split_scheme_Some by fastforce
  qed
  then obtain b where b: "r2 = b @ r3" "case sch of None \<Rightarrow> b = []
      | Some x \<Rightarrow> \<exists>y. b = y @ [COLON] \<and> is_scheme y \<and> x = to_ascii_lowercase y" by blast
  have s: "s = b @ with_prefix [SLASH, SLASH] a @ p @ with_prefix [QUESTION] q @ with_prefix [HASH] f"
    using s1 s2 s4 b(1) by simp
  have free: "HASH \<notin> set b" "HASH \<notin> set (with_prefix [SLASH, SLASH] a)" "HASH \<notin> set p" "HASH \<notin> set (with_prefix [QUESTION] q)"
    "QUESTION \<notin> set (with_prefix [SLASH, SLASH] a)" "QUESTION \<notin> set p"
    using s1 s2 s4 b(1) by auto
  have chars: "list_all is_uri_char p" "list_all is_uri_char (with_prefix [SLASH, SLASH] a)"
    "list_all is_uri_char (with_prefix [QUESTION] q)" "list_all is_uri_char (with_prefix [HASH] f)"
    using c s by simp_all
  have "sch = None \<Longrightarrow> a = None \<Longrightarrow> fst (split_scheme p) = None"
    using 3 s4 split_scheme_None [of r2 r3] by auto
  moreover have "a = None \<Longrightarrow> \<not> starts_with [SLASH, SLASH] p" using s4 by auto
  ultimately show "uri_wf u"
    using s4 b(2) free chars unfolding u uri_wf_def
    by (cases sch; cases a; cases q; cases f) auto
  have sp: "scheme_part u = (case sch of None \<Rightarrow> [] | Some x \<Rightarrow> x @ [COLON])" by (simp add: u scheme_part_def)
  have ts: "to_string u = scheme_part u @ with_prefix [SLASH, SLASH] a @ p @ with_prefix [QUESTION] q @ with_prefix [HASH] f"
    by (simp add: to_string_def u scheme_part_def)
  have "to_ascii_lowercase (scheme_part u) = to_ascii_lowercase b"
    using b(2) unfolding sp by (cases sch) auto
  then show "to_ascii_lowercase (to_string u) = to_ascii_lowercase s" unfolding ts s by simp
  show "to_string u = s" if "u_scheme u = None"
    using b(2) that unfolding ts s sp by (simp add: u)
qed

text \<open>
  C21. The references the parser produces are exactly the well-formed ones, and each of them is what
  its own rendering parses to: rendering loses nothing, and a reference whose rendering would parse
  differently (a delimiter inside a component, a path that reads as a scheme or an authority) is
  never produced by the parser.
\<close>

theorem parse_display:
  "((\<exists>s. parse s = Inr u) \<longleftrightarrow> uri_wf u) \<and> (parse (to_string u) = Inr u \<longleftrightarrow> uri_wf u)"
  using parse_wf parse_to_string by blast

text \<open>
  Building a reference from components succeeds exactly when the components, with the scheme
  lower-cased, form a reference the parser could have produced, and then gives those components back.
\<close>

theorem new_uri_iff:
  "new_uri s a p q f = Inr u \<longleftrightarrow>
     u = \<lparr>u_scheme = map_option (\<lambda>x. to_ascii_lowercase x) s, u_authority = a, u_path = p, u_query = q, u_fragment = f\<rparr> \<and>
     uri_wf u"
  using parse_to_string [of u] parse_wf(1)
  by (auto simp: new_uri_def Let_def split: sum.splits if_splits)

text \<open>The test for an ambiguous relative path never fires: such a path has an authority by then.\<close>

lemma ambiguous_path_unreachable:
  "split_authority s = (None, p) \<Longrightarrow> \<not> starts_with [SLASH, SLASH] p"
  using split_authority_shape [of s None p] by auto

section \<open>Dot segments\<close>

text \<open>
  The reference reading of a path: its segments, with a stack. A path is the text before its first
  slash and the segments after; \<open>..\<close> takes back the last segment, or that first text when no segment
  is left, and a dot segment at the end leaves an empty one.
\<close>

definition is_dot :: "ustring \<Rightarrow> bool" where
  "is_dot s \<longleftrightarrow> s = lit ''.'' \<or> s = lit ''..''"

type_synonym path_stack = "ustring \<times> ustring list"

fun render_path :: "path_stack \<Rightarrow> ustring" where
  "render_path (x, segs) = x @ concat (map ((#) SLASH) segs)"

fun pop_path :: "path_stack \<Rightarrow> path_stack" where
  "pop_path (x, segs) = (if segs = [] then ([], []) else (x, butlast segs))"

fun push_path :: "ustring \<Rightarrow> path_stack \<Rightarrow> path_stack" where
  "push_path s (x, segs) = (x, segs @ [s])"

fun canon :: "path_stack \<Rightarrow> ustring list \<Rightarrow> path_stack" where
  "canon st [] = st"
| "canon st [s] =
     (if s = lit ''.'' then push_path [] st
      else if s = lit ''..'' then push_path [] (pop_path st) else push_path s st)"
| "canon st (s # t # segs) =
     (if s = lit ''.'' then canon st (t # segs)
      else if s = lit ''..'' then canon (pop_path st) (t # segs)
      else canon (push_path s st) (t # segs))"

definition dots_removed :: "ustring \<Rightarrow> ustring" where
  "dots_removed path =
     (case dropWhile is_dot (split_on SLASH path) of
        [] \<Rightarrow> []
      | x # segs \<Rightarrow> render_path (canon (x, []) segs))"

definition stack_ok :: "path_stack \<Rightarrow> bool" where
  "stack_ok st \<longleftrightarrow> SLASH \<notin> set (fst st) \<and> (\<forall>s \<in> set (snd st). SLASH \<notin> set s)"

lemma stack_ok_simps [simp]:
  "stack_ok st \<Longrightarrow> stack_ok (pop_path st)"
  "SLASH \<notin> set s \<Longrightarrow> stack_ok st \<Longrightarrow> stack_ok (push_path s st)"
  by (cases st; auto simp: stack_ok_def dest: in_set_butlastD)+

lemma render_push [simp]: "render_path (push_path s st) = render_path st @ SLASH # s"
  by (cases st) simp

lemma pop_segment_render:
  assumes "stack_ok st"
  shows "pop_segment (render_path st) = render_path (pop_path st)"
proof (cases st)
  case (Pair x segs)
  show ?thesis
  proof (cases segs rule: rev_cases)
    case Nil
    with assms Pair show ?thesis by (simp add: pop_segment_def stack_ok_def)
  next
    case (snoc ss s)
    with assms Pair have "SLASH \<notin> set s" by (simp add: stack_ok_def)
    then show ?thesis
      using last_append(2) [of SLASH s "x @ concat (map ((#) SLASH) ss)"] Pair snoc
      by (simp add: pop_segment_def)
  qed
qed

lemma first_segment_slash:
  "SLASH \<notin> set s \<Longrightarrow> first_segment (SLASH # s @ concat (map ((#) SLASH) segs)) =
     (SLASH # s, concat (map ((#) SLASH) segs))"
  by (cases segs) simp_all

lemma first_segment_plain:
  "SLASH \<notin> set s \<Longrightarrow> s \<noteq> [] \<Longrightarrow> first_segment (s @ concat (map ((#) SLASH) segs)) =
     (s, concat (map ((#) SLASH) segs))"
  by (cases s; cases segs) auto

lemma loop_Nil [simp]: "remove_dots_loop [] out = out"
  by (simp add: remove_dots_loop.simps)

lemma loop_slash: "remove_dots_loop [SLASH] out = out @ [SLASH]"
  by (simp add: remove_dots_loop.simps [of "[SLASH]"])

text \<open>One round of the loop at a slash.\<close>

lemma loop_slash_last:
  assumes "SLASH \<notin> set s"
  shows "remove_dots_loop (SLASH # s) out =
    (if s = lit ''.'' then out @ [SLASH]
     else if s = lit ''..'' then pop_segment out @ [SLASH] else out @ SLASH # s)"
proof -
  have e: "\<not> starts_with (lit ''/./'') (SLASH # s)" "\<not> starts_with (lit ''/../'') (SLASH # s)"
    using assms by (auto simp: starts_with_iff)
  have "first_segment (SLASH # s) = (SLASH # s, [])" using first_segment_slash [OF assms, of "[]"] by simp
  then show ?thesis
    using e by (subst remove_dots_loop.simps) (simp add: loop_slash [simplified] del: first_segment.simps)
qed

lemma loop_slash_more:
  assumes "SLASH \<notin> set s" "segs \<noteq> []"
  shows "remove_dots_loop (SLASH # s @ concat (map ((#) SLASH) segs)) out =
    (if s = lit ''.'' then remove_dots_loop (concat (map ((#) SLASH) segs)) out
     else if s = lit ''..'' then remove_dots_loop (concat (map ((#) SLASH) segs)) (pop_segment out)
     else remove_dots_loop (concat (map ((#) SLASH) segs)) (out @ SLASH # s))"
proof -
  let ?r = "concat (map ((#) SLASH) segs)"
  obtain r' where r: "?r = SLASH # r'" using assms(2) by (cases segs) auto
  have e: "starts_with (lit ''/./'') (SLASH # s @ ?r) \<longleftrightarrow> s = lit ''.''"
    "starts_with (lit ''/../'') (SLASH # s @ ?r) \<longleftrightarrow> s = lit ''..''"
    "SLASH # s @ ?r \<noteq> lit ''/.''" "SLASH # s @ ?r \<noteq> lit ''/..''"
    unfolding r using assms(1)
    by (cases s; cases "tl s"; cases "tl (tl s)"; auto simp: starts_with_iff Cons_eq_append_conv append_eq_Cons_conv)+
  show ?thesis
    using e first_segment_slash [OF assms(1), of segs]
    by (subst remove_dots_loop.simps) simp
qed

lemma loop_canon:
  "segs \<noteq> [] \<Longrightarrow> \<forall>s \<in> set segs. SLASH \<notin> set s \<Longrightarrow> stack_ok st \<Longrightarrow>
     remove_dots_loop (concat (map ((#) SLASH) segs)) (render_path st) = render_path (canon st segs)"
proof (induction st segs rule: canon.induct)
  case (2 st s)
  then show ?case by (simp add: loop_slash_last [simplified] pop_segment_render)
next
  case (3 st s t segs)
  have s: "SLASH \<notin> set s" "\<forall>s \<in> set (t # segs). SLASH \<notin> set s" "t # segs \<noteq> []" using "3.prems" by auto
  have e: "concat (map ((#) SLASH) (s # t # segs)) = SLASH # s @ concat (map ((#) SLASH) (t # segs))" by simp
  consider "s = lit ''.''" | "s = lit ''..''" | "s \<noteq> lit ''.''" "s \<noteq> lit ''..''" by blast
  then show ?case
  proof cases
    case 1
    then have "\<not> s = lit ''..''" by simp
    with 1 "3.IH"(1) [OF 1 s(3,2) "3.prems"(3)] show ?thesis
      unfolding e loop_slash_more [OF s(1,3)] by (simp del: lit_Cons)
  next
    case 2
    then have n: "s \<noteq> lit ''.''" by simp
    with 2 "3.IH"(2) [OF n 2 s(3,2)] "3.prems"(3) show ?thesis
      unfolding e loop_slash_more [OF s(1,3)] by (simp add: pop_segment_render del: lit_Cons)
  next
    case 3
    with "3.IH"(3) [OF 3 s(3,2)] "3.prems"(3) s(1) show ?thesis
      unfolding e loop_slash_more [OF s(1,3)] by (simp del: lit_Cons)
  qed
qed simp

text \<open>The start of a relative path: leading dot segments go, then the first segment is moved.\<close>

lemma loop_leading_dot:
  "is_dot s \<Longrightarrow> remove_dots_loop s out = out"
  "is_dot s \<Longrightarrow> segs \<noteq> [] \<Longrightarrow>
     remove_dots_loop (s @ SLASH # join [SLASH] segs) out = remove_dots_loop (join [SLASH] segs) out"
  by (auto simp: is_dot_def remove_dots_loop.simps [of "[46]"] remove_dots_loop.simps [of "[46, 46]"]
      remove_dots_loop.simps [of "46 # 47 # r" for r] remove_dots_loop.simps [of "46 # 46 # 47 # r" for r]
      starts_with_iff)

lemma loop_first:
  assumes "SLASH \<notin> set s" "\<not> is_dot s" "s \<noteq> []"
  shows "remove_dots_loop (s @ concat (map ((#) SLASH) segs)) out =
    remove_dots_loop (concat (map ((#) SLASH) segs)) (out @ s)"
proof -
  let ?r = "concat (map ((#) SLASH) segs)"
  have r: "?r = [] \<or> (\<exists>r'. ?r = SLASH # r')" by (cases segs) auto
  obtain c s' where s: "s = c # s'" "c \<noteq> SLASH" using assms(1,3) by (cases s) auto
  have e: "\<not> starts_with (lit ''../'') (s @ ?r)" "\<not> starts_with (lit ''./'') (s @ ?r)"
    "s @ ?r \<noteq> lit ''.''" "s @ ?r \<noteq> lit ''..''"
    using assms r unfolding is_dot_def
    by (cases s; cases "tl s"; cases "tl (tl s)"; auto simp: starts_with_iff Cons_eq_append_conv append_eq_Cons_conv)+
  have f: "\<not> starts_with (lit ''/./'') (s @ ?r)" "\<not> starts_with (lit ''/../'') (s @ ?r)"
    "s @ ?r \<noteq> lit ''/.''" "s @ ?r \<noteq> lit ''/..''" "s @ ?r \<noteq> []"
    using s by (simp_all del: map_eq_conv)
  show ?thesis
    by (subst remove_dots_loop.simps) (simp add: e f first_segment_plain [OF assms(1,3)] del: lit_Cons first_segment.simps)
qed

lemma join_slash: "join [SLASH] (x # segs) = x @ concat (map ((#) SLASH) segs)"
  by (induction segs arbitrary: x) simp_all

lemma loop_join:
  "segs \<noteq> [] \<Longrightarrow> \<forall>s \<in> set segs. SLASH \<notin> set s \<Longrightarrow>
     remove_dots_loop (join [SLASH] segs) [] =
       (case dropWhile is_dot segs of [] \<Rightarrow> [] | x # segs \<Rightarrow> render_path (canon (x, []) segs))"
proof (induction segs rule: list_nonempty_induct)
  case (single x)
  show ?case
  proof (cases "is_dot x")
    case False
    then show ?thesis using single loop_first [of x "[]" "[]"] by (cases "x = []") simp_all
  qed (simp add: loop_leading_dot)
next
  case (cons x segs)
  show ?case
  proof (cases "is_dot x")
    case True
    with cons show ?thesis by (simp add: join_Cons loop_leading_dot)
  next
    case False
    have s: "SLASH \<notin> set x" "\<forall>s \<in> set segs. SLASH \<notin> set s" using cons.prems by auto
    have "remove_dots_loop (join [SLASH] (x # segs)) [] = remove_dots_loop (concat (map ((#) SLASH) segs)) x"
      unfolding join_slash using loop_first [OF s(1) False, of segs "[]"] by (cases "x = []") simp_all
    also have "\<dots> = render_path (canon (x, []) segs)"
      using loop_canon [OF cons.hyps(1) s(2), of "(x, [])"] s(1) by (simp add: stack_ok_def)
    finally show ?thesis using False by simp
  qed
qed

lemma remove_dot_segments_eq': "remove_dot_segments path = dots_removed path"
  unfolding remove_dot_segments_def dots_removed_def
  using loop_join [of "split_on SLASH path"] split_on_segments [of _ SLASH path] by simp

text \<open>
  C27. The five-rule loop that removes dot segments computes the stack reading of the path: leading
  dot segments go, \<open>.\<close> is skipped, \<open>..\<close> takes back the segment before it and never goes above the
  root, a final dot segment leaves an empty segment, and empty segments are kept as they stand.
\<close>

theorem remove_dot_segments_eq: "remove_dot_segments path = dots_removed path"
  by (rule remove_dot_segments_eq')

definition dot_free :: "ustring \<Rightarrow> bool" where
  "dot_free path \<longleftrightarrow> list_all (\<lambda>s. \<not> is_dot s) (split_on SLASH path)"

lemma canon_no_dots:
  "list_all (\<lambda>s. \<not> is_dot s) segs \<Longrightarrow> canon (x, ys) segs = (x, ys @ segs)"
  by (induction segs arbitrary: ys rule: induct_list012) (simp_all add: is_dot_def del: lit_Cons)

lemma canon_dot_free:
  "\<not> is_dot (fst st) \<Longrightarrow> list_all (\<lambda>s. \<not> is_dot s) (snd st) \<Longrightarrow>
     \<not> is_dot (fst (canon st segs)) \<and> list_all (\<lambda>s. \<not> is_dot s) (snd (canon st segs))"
proof (induction st segs rule: canon.induct)
  case (2 st s)
  then show ?case by (cases st) (auto simp: is_dot_def list_all_iff dest: in_set_butlastD)
next
  case (3 st s t segs)
  have "\<not> is_dot (fst (pop_path st)) \<and> list_all (\<lambda>s. \<not> is_dot s) (snd (pop_path st))"
    using "3.prems" by (cases st) (auto simp: is_dot_def list_all_iff dest: in_set_butlastD)
  moreover have "\<not> is_dot s \<Longrightarrow> \<not> is_dot (fst (push_path s st)) \<and> list_all (\<lambda>s. \<not> is_dot s) (snd (push_path s st))"
    using "3.prems" by (cases st) auto
  ultimately show ?case using 3 by (auto simp: is_dot_def simp del: lit_Cons)
qed simp

lemma canon_stack_ok:
  "stack_ok st \<Longrightarrow> \<forall>s \<in> set segs. SLASH \<notin> set s \<Longrightarrow> stack_ok (canon st segs)"
  by (induction st segs rule: canon.induct) (simp_all del: lit_Cons)

lemma split_render:
  "stack_ok st \<Longrightarrow> split_on SLASH (render_path st) = fst st # snd st"
proof (cases st)
  case (Pair x segs)
  assume "stack_ok st"
  with Pair have "split_on SLASH (join [SLASH] (x # segs)) = x # segs"
    by (intro split_on_join) (auto simp: stack_ok_def)
  with Pair show ?thesis by (simp only: join_slash render_path.simps fst_conv snd_conv)
qed

lemma dot_free_id: "dot_free path \<Longrightarrow> remove_dot_segments path = path"
proof -
  assume d: "dot_free path"
  obtain x segs where s: "split_on SLASH path = x # segs" by (meson neq_Nil_conv split_on_not_Nil)
  have "join [SLASH] (x # segs) = path" by (metis s join_split_on)
  with d s show ?thesis
    by (simp add: remove_dot_segments_eq' dots_removed_def dot_free_def canon_no_dots join_slash)
qed

lemma removed_dot_free: "dot_free (remove_dot_segments path)"
proof (cases "dropWhile is_dot (split_on SLASH path)")
  case Nil
  then have "remove_dot_segments path = []" by (simp only: remove_dot_segments_eq' dots_removed_def list.case)
  then show ?thesis by (simp add: dot_free_def is_dot_def)
next
  case (Cons x segs)
  have "\<forall>s \<in> set (dropWhile is_dot (split_on SLASH path)). SLASH \<notin> set s"
    using split_on_segments [of _ SLASH path] by (meson set_dropWhileD)
  with Cons have ok: "stack_ok (canon (x, []) segs)" by (intro canon_stack_ok) (auto simp: stack_ok_def)
  have "\<not> is_dot x" using hd_dropWhile [of is_dot "split_on SLASH path"] Cons by simp
  then have "\<not> is_dot (fst (canon (x, []) segs)) \<and> list_all (\<lambda>s. \<not> is_dot s) (snd (canon (x, []) segs))"
    by (intro canon_dot_free) simp_all
  with split_render [OF ok] Cons show ?thesis
    by (simp add: remove_dot_segments_eq' dots_removed_def dot_free_def del: render_path.simps)
qed

text \<open>
  C28. Removing dot segments leaves no dot segment, leaves a path without dot segments alone, and so
  is idempotent.
\<close>

theorem remove_dot_segments_normal:
  "dot_free (remove_dot_segments path) \<and> (remove_dot_segments path = path \<longleftrightarrow> dot_free path) \<and>
     remove_dot_segments (remove_dot_segments path) = remove_dot_segments path"
  using removed_dot_free dot_free_id by metis

text \<open>\<open>relativize\<close> never gives a form that resolves to something else.\<close>

lemma relativize_resolves:
  assumes "u_scheme target \<noteq> None" and "dot_free (u_path target)"
  shows "resolve_uri base (relativize base target) = target"
proof -
  have "resolve_uri base target = target"
    using assms(1) dot_free_id [OF assms(2)] by (simp add: resolve_uri_def)
  then show ?thesis unfolding relativize_def Let_def by (simp split: if_splits)
qed

section \<open>Percent-encoding, over characters\<close>

function percent_chars :: "ustring \<Rightarrow> ustring" where
  "percent_chars s =
     (case s of [] \<Rightarrow> []
      | c # r \<Rightarrow>
         (case hex_pair s of
            Some (high, low) \<Rightarrow> normal_octet high low @ percent_chars (drop 3 s)
          | None \<Rightarrow> c # percent_chars r))"
  by pat_completeness auto
termination by (relation "measure length") auto

declare percent_chars.simps [simp del]

lemma percent_chars_cases:
  "percent_chars [] = []"
  "hex_pair (c # r) = None \<Longrightarrow> percent_chars (c # r) = c # percent_chars r"
  "hex_digit h = Some x \<Longrightarrow> hex_digit l = Some y \<Longrightarrow>
     percent_chars (PERCENT # h # l # s) = normal_octet x y @ percent_chars s"
  by (simp_all add: percent_chars.simps [of "[]"] percent_chars.simps [of "c # r"]
      percent_chars.simps [of "37 # h # l # s"])

lemma hex_digit_bound: "hex_digit b = Some x \<Longrightarrow> x < 16 \<and> b < 0x80"
  by (auto simp: hex_digit_def split: if_splits)

lemma unreserved_ascii: "is_unreserved c \<Longrightarrow> c < 0x80"
  by (auto simp: is_unreserved_def is_ascii_alphanumeric_def is_ascii_alphabetic_def is_ascii_digit_def)

lemma set_HEX: "i < 16 \<Longrightarrow> is_unreserved (HEX ! i)"
proof -
  assume "i < 16"
  then have "HEX ! i \<in> set HEX" by (intro nth_mem) (simp add: HEX_def)
  moreover have "\<forall>c \<in> set HEX. is_unreserved c" by (simp add: HEX_def is_unreserved_def is_ascii_alphanumeric_def is_ascii_alphabetic_def is_ascii_digit_def)
  ultimately show ?thesis by blast
qed

lemma normal_octet_chars:
  assumes "hex_digit h = Some x" "hex_digit l = Some y" "c \<in> set (normal_octet x y)"
  shows "is_unreserved c \<or> c = PERCENT"
  using assms hex_digit_bound [OF assms(1)] hex_digit_bound [OF assms(2)] set_HEX
  by (auto simp: normal_octet_def Let_def split: if_splits)

lemma encode_ascii: "\<forall>c \<in> set s. c < 0x80 \<Longrightarrow> utf8_encode s = map byte_of s"
  by (induction s) (simp_all add: utf8_encode_char_ascii)

lemma first_byte_high:
  "scalar c \<Longrightarrow> 0x80 \<le> c \<Longrightarrow> \<exists>b t. utf8_encode_char c = b # t \<and> 0x80 \<le> unat b"
  by (auto simp: utf8_encode_char_def scalar_def)

lemma all_bytes_high: "scalar c \<Longrightarrow> 0x80 \<le> c \<Longrightarrow> b \<in> set (utf8_encode_char c) \<Longrightarrow> 0x80 \<le> unat b"
  by (auto simp: utf8_encode_char_def scalar_def split: if_splits)

lemma hex_digit_high: "0x80 \<le> b \<Longrightarrow> hex_digit b = None"
  by (simp add: hex_digit_def)

lemma percent_loop_other: "\<forall>b \<in> set bs. unat b \<noteq> PERCENT \<Longrightarrow> percent_loop (bs @ t) = bs @ percent_loop t"
proof (induction bs)
  case (Cons b bs)
  have "hex_pair (map unat ((b # bs) @ t)) = None"
    using Cons.prems by (cases "hex_pair (map unat ((b # bs) @ t))") (auto simp: hex_pair_shape)
  with Cons show ?case by (simp add: percent_loop.simps [of "b # bs @ t"])
qed simp

text \<open>Seen from a percent sign, the bytes of a text hold a hex pair exactly where its characters do.\<close>

lemma hex_step:
  assumes "list_all scalar s"
  shows "(\<exists>b t. utf8_encode s = b # t \<and> hex_digit (unat b) = Some x \<and> t = r) \<longleftrightarrow>
    (\<exists>c s'. s = c # s' \<and> hex_digit c = Some x \<and> utf8_encode s' = r)"
proof (cases s)
  case (Cons c s')
  show ?thesis
  proof (cases "c < 0x80")
    case True
    then show ?thesis by (auto simp: Cons utf8_encode_char_ascii)
  next
    case False
    with assms Cons first_byte_high [of c] obtain b t where "utf8_encode_char c = b # t" "0x80 \<le> unat b" by auto
    with False show ?thesis by (auto simp: Cons hex_digit_high)
  qed
qed simp

lemma hex_pair_encode:
  assumes "list_all scalar s"
  shows "hex_pair (map unat (utf8_encode (PERCENT # s))) = hex_pair (PERCENT # s)"
proof (rule option.expand)
  have u: "map unat (utf8_encode (PERCENT # s)) = PERCENT # map unat (utf8_encode s)"
    by (simp add: utf8_encode_char_ascii)
  have iff: "hex_pair (map unat (utf8_encode (PERCENT # s))) = Some (x, y) \<longleftrightarrow> hex_pair (PERCENT # s) = Some (x, y)" for x y
  proof -
    have "hex_pair (map unat (utf8_encode (PERCENT # s))) = Some (x, y) \<longleftrightarrow>
        (\<exists>b t. utf8_encode s = b # t \<and> hex_digit (unat b) = Some x \<and> (\<exists>b' t'. t = b' # t' \<and> hex_digit (unat b') = Some y))"
      unfolding u by (auto simp: hex_pair_shape map_eq_Cons_conv)
    also have "\<dots> \<longleftrightarrow> (\<exists>c s'. s = c # s' \<and> hex_digit c = Some x \<and>
        (\<exists>b' t'. utf8_encode s' = b' # t' \<and> hex_digit (unat b') = Some y))"
      using hex_step [OF assms, of x] by blast
    also have "\<dots> \<longleftrightarrow> (\<exists>c s'. s = c # s' \<and> hex_digit c = Some x \<and> (\<exists>d s''. s' = d # s'' \<and> hex_digit d = Some y))"
      using assms hex_step [of _ y] by (metis list.pred_inject(2))
    also have "\<dots> \<longleftrightarrow> hex_pair (PERCENT # s) = Some (x, y)" by (auto simp: hex_pair_shape)
    finally show ?thesis .
  qed
  then show "(hex_pair (map unat (utf8_encode (PERCENT # s))) = None) = (hex_pair (PERCENT # s) = None)"
    by (metis not_None_eq surj_pair)
  show "the (hex_pair (map unat (utf8_encode (PERCENT # s)))) = the (hex_pair (PERCENT # s))"
    if "hex_pair (map unat (utf8_encode (PERCENT # s))) \<noteq> None" "hex_pair (PERCENT # s) \<noteq> None"
    using iff that by (metis not_None_eq surj_pair)
qed

lemma percent_loop_encode:
  "list_all scalar s \<Longrightarrow> percent_loop (utf8_encode s) = utf8_encode (percent_chars s)"
proof (induction s rule: percent_chars.induct)
  case (1 s)
  show ?case
  proof (cases s)
    case Nil
    then show ?thesis by (simp add: percent_loop.simps percent_chars.simps)
  next
    case (Cons c r)
    show ?thesis
    proof (cases "hex_pair s")
      case None
      have "percent_loop (utf8_encode s) = utf8_encode_char c @ percent_loop (utf8_encode r)"
      proof (cases "c = PERCENT")
        case True
        with "1.prems" Cons None hex_pair_encode [of r] have "hex_pair (map unat (utf8_encode s)) = None" by simp
        with True Cons show ?thesis
          by (simp add: utf8_encode_char_ascii percent_loop.simps [of "byte_of 37 # utf8_encode r"])
      next
        case False
        have "\<forall>b \<in> set (utf8_encode_char c). unat b \<noteq> PERCENT"
          using all_bytes_high [of c] "1.prems" Cons False
          by (cases "c < 0x80") (fastforce simp: utf8_encode_char_ascii)+
        from percent_loop_other [OF this] show ?thesis by (simp add: Cons)
      qed
      moreover have "percent_chars s = c # percent_chars r"
        using None Cons by (simp add: percent_chars.simps [of "c # r"])
      ultimately show ?thesis using "1.IH"(1) [OF Cons None] "1.prems" Cons by simp
    next
      case (Some xy)
      obtain x y where xy: "xy = (x, y)" by (cases xy)
      with Some obtain h l s' where s: "s = PERCENT # h # l # s'" "hex_digit h = Some x" "hex_digit l = Some y"
        by (auto simp: hex_pair_shape)
      have hl: "h < 0x80" "l < 0x80" using hex_digit_bound s by blast+
      have e: "utf8_encode s = byte_of PERCENT # byte_of h # byte_of l # utf8_encode s'"
        using s(1) hl by (simp add: utf8_encode_char_ascii)
      have "hex_pair (map unat (utf8_encode s)) = Some (x, y)"
        using s hl unfolding e by (simp add: hex_pair_shape)
      then have "percent_loop (utf8_encode s) = map byte_of (normal_octet x y) @ percent_loop (utf8_encode s')"
        by (simp add: e percent_loop.simps [of "byte_of 37 # byte_of h # byte_of l # utf8_encode s'"])
      moreover have "percent_chars s = normal_octet x y @ percent_chars s'"
        unfolding s(1) by (rule percent_chars_cases(3) [OF s(2,3)])
      moreover have "\<forall>c \<in> set (normal_octet x y). c < 0x80"
        using normal_octet_chars [OF s(2,3)] unreserved_ascii by fastforce
      ultimately show ?thesis
        using "1.IH"(2) [OF Cons Some xy [symmetric]] "1.prems" s(1) by (simp add: encode_ascii)
    qed
  qed
qed

lemma set_percent_chars: "c \<in> set (percent_chars s) \<Longrightarrow> c \<in> set s \<or> is_unreserved c \<or> c = PERCENT"
proof (induction s rule: percent_chars.induct)
  case (1 s)
  show ?case
  proof (cases s)
    case Nil
    with "1.prems" show ?thesis by (simp add: percent_chars.simps)
  next
    case (Cons d r)
    show ?thesis
    proof (cases "hex_pair s")
      case None
      with "1.prems" Cons have "c = d \<or> c \<in> set (percent_chars r)" by (simp add: percent_chars.simps [of "d # r"])
      with "1.IH"(1) [OF Cons None] Cons show ?thesis by auto
    next
      case (Some xy)
      obtain x y where xy: "xy = (x, y)" by (cases xy)
      with Some obtain h l s' where s: "s = PERCENT # h # l # s'" "hex_digit h = Some x" "hex_digit l = Some y"
        by (auto simp: hex_pair_shape)
      have "c \<in> set (normal_octet x y) \<or> c \<in> set (percent_chars s')"
        using "1.prems" percent_chars_cases(3) [OF s(2,3)] s(1) by simp
      with "1.IH"(2) [OF Cons Some xy [symmetric]] s normal_octet_chars [OF s(2,3)] show ?thesis by auto
    qed
  qed
qed

lemma unreserved_scalar: "is_unreserved c \<Longrightarrow> scalar c"
  using unreserved_ascii [of c] by (simp add: scalar_def)

lemma percent_chars_scalar: "list_all scalar s \<Longrightarrow> list_all scalar (percent_chars s)"
  using set_percent_chars unreserved_scalar by (auto simp: list_all_iff) (fastforce simp: scalar_def)

lemma normalize_percent_chars: "list_all scalar s \<Longrightarrow> normalize_percent s = percent_chars s"
  by (simp add: normalize_percent_def percent_loop_encode percent_chars_scalar)

text \<open>
  C31. Percent normalization, done on bytes with a fallback for bytes that are not UTF-8, is the
  rewriting of the character sequence that upper-cases hex pairs and decodes unreserved ones: the
  fallback never runs, characters past ASCII are kept, and nothing but an unreserved character or a
  percent sign ever appears that was not there.
\<close>

theorem normalize_percent_spec:
  assumes "list_all scalar s"
  shows "normalize_percent s = percent_chars s \<and>
    (\<forall>c \<in> set (normalize_percent s). c \<in> set s \<or> is_unreserved c \<or> c = PERCENT)"
  using normalize_percent_chars [OF assms] set_percent_chars [of _ s] by simp

lemma normalize_percent_spec_witness:
  "normalize_percent (lit ''%7Eu/%2f'') = lit ''~u/%2F''"
proof -
  have "list_all scalar (lit ''%7Eu/%2f'')" by (simp add: scalar_def)
  from normalize_percent_spec [OF this] show ?thesis
    by (simp add: percent_chars.simps hex_digit_def normal_octet_def Let_def HEX_def is_unreserved_def
        is_ascii_alphanumeric_def is_ascii_alphabetic_def is_ascii_digit_def)
qed

text \<open>One pass is not a normal form: a percent sign that is no octet may form one with what follows.\<close>

lemma percent_not_idempotent:
  "normalize_percent (lit ''%%341'') = lit ''%41'' \<and> normalize_percent (lit ''%41'') = lit ''A''"
  by (simp add: normalize_percent_chars scalar_def percent_chars.simps hex_digit_def normal_octet_def Let_def HEX_def
      is_unreserved_def is_ascii_alphanumeric_def is_ascii_alphabetic_def is_ascii_digit_def)

section \<open>Resolution and normalization keep references well-formed\<close>

lemma set_pop_segment: "set (pop_segment out) \<subseteq> set out"
  by (auto simp: pop_segment_def before_last_def dest!: in_set_dropD set_dropWhileD)

lemma first_segment_append: "first_segment s = (a, b) \<Longrightarrow> s = a @ b"
  by (cases s) (auto split: if_splits)

lemma set_remove_dots_loop: "set (remove_dots_loop input out) \<subseteq> set input \<union> set out"
proof (induction input out rule: remove_dots_loop.induct)
  case (1 input out)
  note [simp del] = lit_Cons
  note rec = remove_dots_loop.simps [of input out]
  have d: "set (drop n input) \<subseteq> set input" for n by (rule set_drop_subset)
  consider "input = []" | (up) "input \<noteq> []" "starts_with (lit ''../'') input"
    | (here) "input \<noteq> []" "\<not> starts_with (lit ''../'') input" "starts_with (lit ''./'') input"
    | (rest) "input \<noteq> []" "\<not> starts_with (lit ''../'') input" "\<not> starts_with (lit ''./'') input"
    by blast
  then show ?case
  proof cases
    case up
    with rec have "remove_dots_loop input out = remove_dots_loop (drop 3 input) out" by simp
    with "1.IH"(1) [OF up] d [of 3] show ?thesis by auto
  next
    case here
    with rec have "remove_dots_loop input out = remove_dots_loop (drop 2 input) out" by simp
    with "1.IH"(2) [OF here] d [of 2] show ?thesis by auto
  next
    case r: rest
    show ?thesis
    proof (cases "starts_with (lit ''/./'') input")
      case True
      with rec r have "remove_dots_loop input out = remove_dots_loop (drop 2 input) out" by simp
      with "1.IH"(3) [OF r True] d [of 2] show ?thesis by auto
    next
      case n1: False
      show ?thesis
      proof (cases "input = lit ''/.''")
        case True
        then show ?thesis
          using rec by (auto simp add: starts_with_def lit_Cons loop_slash [simplified])
      next
        case n2: False
        show ?thesis
        proof (cases "starts_with (lit ''/../'') input")
          case True
          with rec r n1 n2 have "remove_dots_loop input out = remove_dots_loop (drop 3 input) (pop_segment out)" by simp
          with "1.IH"(5) [OF r n1 n2 True] d [of 3] set_pop_segment [of out] show ?thesis by auto
        next
          case n3: False
          show ?thesis
          proof (cases "input = lit ''/..''")
            case True
            then show ?thesis using rec set_pop_segment [of out]
              by (auto simp add: starts_with_def lit_Cons loop_slash [simplified])
          next
            case n4: False
            show ?thesis
            proof (cases "input = lit ''.'' \<or> input = lit ''..''")
              case True
              with rec r n1 n2 n3 n4 have "remove_dots_loop input out = out" by simp
              then show ?thesis by simp
            next
              case n5: False
              obtain a b where ab: "first_segment input = (a, b)" by fastforce
              with rec r n1 n2 n3 n4 n5 have "remove_dots_loop input out = remove_dots_loop b (out @ a)" by simp
              with "1.IH"(8) [OF r n1 n2 n3 n4 n5 ab [symmetric]] first_segment_append [OF ab] show ?thesis by auto
            qed
          qed
        qed
      qed
    qed
  qed simp
qed

lemma set_remove_dot_segments: "set (remove_dot_segments path) \<subseteq> set path"
  using set_remove_dots_loop [of path "[]"] by (simp add: remove_dot_segments_def)

lemma remove_dot_segments_Nil [simp]: "remove_dot_segments [] = []"
  by (simp add: remove_dot_segments_def)

lemma canon_absolute: "segs \<noteq> [] \<Longrightarrow> fst st = [] \<Longrightarrow> fst (canon st segs) = [] \<and> snd (canon st segs) \<noteq> []"
proof (induction st segs rule: canon.induct)
  case (2 st s)
  then show ?case by (cases st) auto
next
  case (3 st s t segs)
  have "fst (pop_path st) = []" "fst (push_path s st) = []" using "3.prems" by (cases st; simp)+
  with 3 show ?case by (simp del: lit_Cons)
qed simp

lemma remove_dot_segments_absolute:
  assumes "starts_with [SLASH] p"
  shows "starts_with [SLASH] (remove_dot_segments p)"
proof -
  obtain r where p: "p = SLASH # r" using assms by (auto simp: starts_with_iff)
  have "\<not> is_dot []" by (simp add: is_dot_def)
  then have "dropWhile is_dot (split_on SLASH p) = [] # split_on SLASH r" by (simp add: p)
  then have "remove_dot_segments p = render_path (canon ([], []) (split_on SLASH r))"
    by (simp only: remove_dot_segments_eq' dots_removed_def list.case)
  moreover obtain x ys where c: "canon ([], []) (split_on SLASH r) = (x, ys)" by fastforce
  moreover from c canon_absolute [of "split_on SLASH r" "([], [])"] have "x = []" "ys \<noteq> []" by auto
  ultimately show ?thesis by (cases ys) auto
qed

definition path_wf :: "ustring \<Rightarrow> bool" where
  "path_wf p \<longleftrightarrow> list_all is_uri_char p \<and> QUESTION \<notin> set p \<and> HASH \<notin> set p"

lemma path_wf_subset: "path_wf p \<Longrightarrow> set q \<subseteq> set p \<Longrightarrow> path_wf q"
  by (auto simp: path_wf_def list_all_iff)

lemma path_wf_dots: "path_wf p \<Longrightarrow> path_wf (remove_dot_segments p)"
  by (rule path_wf_subset [OF _ set_remove_dot_segments])

lemma path_wf_append [simp]: "path_wf (p @ q) \<longleftrightarrow> path_wf p \<and> path_wf q"
  by (auto simp: path_wf_def)

lemma set_upto_last: "set (upto_last d s) \<subseteq> set s"
  by (auto simp: upto_last_def dest: set_dropWhileD)

lemma uri_wf_authority:
  assumes "u_authority u = Some a"
  shows "uri_wf u \<longleftrightarrow>
    (case u_scheme u of None \<Rightarrow> True | Some s \<Rightarrow> is_scheme s \<and> to_ascii_lowercase s = s) \<and>
    list_all is_uri_char a \<and> SLASH \<notin> set a \<and> QUESTION \<notin> set a \<and> HASH \<notin> set a \<and>
    path_wf (u_path u) \<and> (u_path u = [] \<or> starts_with [SLASH] (u_path u)) \<and>
    (case u_query u of None \<Rightarrow> True | Some q \<Rightarrow> list_all is_uri_char q \<and> HASH \<notin> set q) \<and>
    (case u_fragment u of None \<Rightarrow> True | Some f \<Rightarrow> list_all is_uri_char f)"
  using assms by (auto simp: uri_wf_def path_wf_def)

lemma uri_wf_path: "uri_wf u \<Longrightarrow> path_wf (u_path u)"
  by (simp add: uri_wf_def path_wf_def)

lemma upto_last_absolute: "starts_with [SLASH] p \<Longrightarrow> starts_with [SLASH] (upto_last SLASH p @ q)"
proof -
  assume "starts_with [SLASH] p"
  then obtain r where p: "p = SLASH # r" by (auto simp: starts_with_iff)
  have "upto_last SLASH p \<noteq> []"
    by (auto simp: p upto_last_def dropWhile_eq_Nil_conv)
  then obtain c s where u: "upto_last SLASH p = c # s" by (cases "upto_last SLASH p") auto
  moreover have "c # s @ after_last SLASH p = p" using u upto_last_after_last [of SLASH p] by simp
  ultimately show ?thesis using p by simp
qed

lemma merge_absolute:
  assumes "uri_wf base" "u_authority base = Some a"
  shows "starts_with [SLASH] (merge base p)"
  using assms upto_last_absolute [of "u_path base" p] by (auto simp: merge_def uri_wf_authority)

lemma path_wf_merge: "path_wf (u_path base) \<Longrightarrow> path_wf p \<Longrightarrow> path_wf (merge base p)"
  using path_wf_subset [OF _ set_upto_last, of "u_path base"]
  by (auto simp: merge_def path_wf_def uri_char_delimiters)

text \<open>
  C29. Resolution stays within what can be written down: resolving a parsed reference against a parsed
  base gives, whenever the result has an authority, a reference that its own rendering parses back to.
\<close>

theorem resolve_wf:
  assumes "uri_wf base" "uri_wf r" "u_authority (resolve_uri base r) \<noteq> None"
  shows "uri_wf (resolve_uri base r) \<and> parse (to_string (resolve_uri base r)) = Inr (resolve_uri base r)"
proof -
  let ?u = "resolve_uri base r"
  obtain a where a: "u_authority ?u = Some a" using assms(3) by blast
  have dots: "p = [] \<or> starts_with [SLASH] p \<Longrightarrow> remove_dot_segments p = [] \<or> starts_with [SLASH] (remove_dot_segments p)" for p
    using remove_dot_segments_absolute [of p] by auto
  note w = uri_wf_path [OF assms(1)] uri_wf_path [OF assms(2)]
  have qf: "(case u_query r of None \<Rightarrow> True | Some q \<Rightarrow> list_all is_uri_char q \<and> HASH \<notin> set q)"
    "(case u_fragment r of None \<Rightarrow> True | Some f \<Rightarrow> list_all is_uri_char f)"
    "(case u_query base of None \<Rightarrow> True | Some q \<Rightarrow> list_all is_uri_char q \<and> HASH \<notin> set q)"
    "(case u_scheme base of None \<Rightarrow> True | Some s \<Rightarrow> is_scheme s \<and> to_ascii_lowercase s = s)"
    "(case u_scheme r of None \<Rightarrow> True | Some s \<Rightarrow> is_scheme s \<and> to_ascii_lowercase s = s)"
    using assms(1,2) by (simp_all add: uri_wf_def)
  consider "u_scheme r \<noteq> None" | "u_scheme r = None" "u_authority r \<noteq> None"
    | "u_scheme r = None" "u_authority r = None" by blast
  then have "uri_wf ?u"
  proof cases
    case 1
    then have u: "?u = r\<lparr>u_path := remove_dot_segments (u_path r)\<rparr>" by (simp add: resolve_uri_def)
    with a have "u_authority r = Some a" by simp
    with assms(2) a qf(5) dots path_wf_dots show ?thesis by (simp add: u uri_wf_authority)
  next
    case 2
    then have u: "?u = r\<lparr>u_scheme := u_scheme base, u_path := remove_dot_segments (u_path r)\<rparr>"
      by (simp add: resolve_uri_def)
    with a have "u_authority r = Some a" by simp
    with assms(2) a qf(4) dots path_wf_dots show ?thesis by (simp add: u uri_wf_authority)
  next
    case 3
    then have b: "u_authority base = Some a" using a by (simp add: resolve_uri_def split: if_splits)
    show ?thesis
    proof (cases "u_path r = []")
      case True
      with 3 have u: "?u = \<lparr>u_scheme = u_scheme base, u_authority = u_authority base, u_path = u_path base,
         u_query = (case u_query r of None \<Rightarrow> u_query base | Some q \<Rightarrow> Some q), u_fragment = u_fragment r\<rparr>"
        by (simp add: resolve_uri_def)
      with assms(1) b qf show ?thesis by (cases "u_query r") (simp_all add: uri_wf_authority)
    next
      case False
      define p where "p = (if starts_with [SLASH] (u_path r) then u_path r else merge base (u_path r))"
      have p: "path_wf p" "starts_with [SLASH] p"
        using w path_wf_merge merge_absolute [OF assms(1) b] by (simp_all add: p_def)
      have u: "?u = \<lparr>u_scheme = u_scheme base, u_authority = u_authority base, u_path = remove_dot_segments p,
          u_query = u_query r, u_fragment = u_fragment r\<rparr>"
        using 3 False by (simp add: resolve_uri_def p_def)
      with assms(1) b qf path_wf_dots [OF p(1)] remove_dot_segments_absolute [OF p(2)] show ?thesis
        by (simp add: uri_wf_authority)
    qed
  qed
  with parse_to_string show ?thesis by blast
qed

lemma resolve_wf_witness:
  "parse (to_string (resolve_uri
      \<lparr>u_scheme = Some (lit ''http''), u_authority = Some (lit ''h''), u_path = lit ''/a/b'', u_query = None, u_fragment = None\<rparr>
      \<lparr>u_scheme = None, u_authority = None, u_path = lit ''../c'', u_query = Some (lit ''q''), u_fragment = None\<rparr>)) =
    Inr \<lparr>u_scheme = Some (lit ''http''), u_authority = Some (lit ''h''), u_path = lit ''/c'', u_query = Some (lit ''q''),
      u_fragment = None\<rparr>"
proof -
  let ?b = "\<lparr>u_scheme = Some (lit ''http''), u_authority = Some (lit ''h''), u_path = lit ''/a/b'', u_query = None, u_fragment = None\<rparr>"
  let ?r = "\<lparr>u_scheme = None, u_authority = None, u_path = lit ''../c'', u_query = Some (lit ''q''), u_fragment = None\<rparr>"
  note chars = is_uri_char_def is_ascii_alphanumeric_def is_ascii_alphabetic_def is_ascii_digit_def to_ascii_lower_def
  have e: "resolve_uri ?b ?r = \<lparr>u_scheme = Some (lit ''http''), u_authority = Some (lit ''h''), u_path = lit ''/c'',
      u_query = Some (lit ''q''), u_fragment = None\<rparr>"
    by (simp add: resolve_uri_def merge_def upto_last_def remove_dot_segments_eq' dots_removed_def is_dot_def)
  have "uri_wf ?b" "uri_wf ?r" by (simp_all add: uri_wf_def chars split_scheme_def)
  from resolve_wf [OF this] e show ?thesis by simp
qed

text \<open>
  Without an authority it does not: the path \<open>//x\<close> that resolution leaves under a scheme alone is
  rendered as an authority.
\<close>

lemma resolve_ambiguous:
  "resolve_str (lit ''a:/y'') (lit ''/.//x'') = Inr (lit ''a://x'') \<and>
     parse (lit ''a://x'') = Inr \<lparr>u_scheme = Some (lit ''a''), u_authority = Some (lit ''x''), u_path = [],
       u_query = None, u_fragment = None\<rparr>"
  by (simp add: resolve_str_def parse_def split_once_at_def split_scheme_def split_authority_def is_uri_char_def
      is_ascii_alphanumeric_def is_ascii_alphabetic_def is_ascii_digit_def to_ascii_lower_def resolve_uri_def to_string_def
      remove_dot_segments_eq' dots_removed_def is_dot_def starts_with_def)

text \<open>
  The claim of \<open>relativize\<close> does not extend to targets without a scheme: there the target itself is
  returned, and it resolves to something else.
\<close>

lemma relativize_without_scheme:
  "\<exists>base target. uri_wf base \<and> uri_wf target \<and> dot_free (u_path target) \<and>
     resolve_uri base (relativize base target) \<noteq> target"
proof -
  let ?u = "\<lambda>p. \<lparr>u_scheme = None, u_authority = None, u_path = p, u_query = None, u_fragment = None\<rparr>"
  have "uri_wf (?u (lit ''a/b''))" "uri_wf (?u [])" "dot_free (u_path (?u []))"
    by (simp_all add: uri_wf_def is_uri_char_def is_ascii_alphanumeric_def is_ascii_alphabetic_def split_scheme_def
        dot_free_def is_dot_def)
  moreover have "resolve_uri (?u (lit ''a/b'')) (relativize (?u (lit ''a/b'')) (?u [])) = ?u (lit ''a/b'')"
    by (simp add: relativize_def relative_path_def dir_segments_def path_segments_def resolve_uri_def merge_def
        upto_last_def remove_dot_segments_eq' dots_removed_def is_dot_def Let_def)
  ultimately show ?thesis
    by (intro exI [of _ "?u (lit ''a/b'')"] exI [of _ "?u []"]) simp
qed

lemma uri_char_ascii: "is_uri_char c \<Longrightarrow> c < 0x80"
  by (auto simp: is_uri_char_def is_ascii_alphanumeric_def is_ascii_alphabetic_def is_ascii_digit_def)

lemma uri_chars_scalar: "list_all is_uri_char s \<Longrightarrow> list_all scalar s"
  using uri_char_ascii by (fastforce simp: list_all_iff scalar_def)

lemma unreserved_uri_char: "is_unreserved c \<Longrightarrow> is_uri_char c \<and> c \<noteq> SLASH \<and> c \<noteq> QUESTION \<and> c \<noteq> HASH"
  by (auto simp: is_unreserved_def is_uri_char_def is_ascii_alphanumeric_def is_ascii_alphabetic_def is_ascii_digit_def)

lemma normalize_percent_uri:
  assumes "list_all is_uri_char s"
  shows "list_all is_uri_char (normalize_percent s)"
    "d \<in> {SLASH, QUESTION, HASH} \<Longrightarrow> d \<notin> set s \<Longrightarrow> d \<notin> set (normalize_percent s)"
proof -
  have e: "normalize_percent s = percent_chars s"
    by (rule normalize_percent_chars) (rule uri_chars_scalar [OF assms])
  have "is_uri_char PERCENT" by (simp add: is_uri_char_def)
  then show "list_all is_uri_char (normalize_percent s)"
    using assms set_percent_chars [of _ s] unreserved_uri_char unfolding e list_all_iff by blast
  show "d \<in> {SLASH, QUESTION, HASH} \<Longrightarrow> d \<notin> set s \<Longrightarrow> d \<notin> set (normalize_percent s)"
    using set_percent_chars [of d s] unreserved_uri_char [of d] unfolding e by auto
qed

lemma path_wf_percent: "path_wf p \<Longrightarrow> path_wf (normalize_percent p)"
  using normalize_percent_uri [of p] by (auto simp: path_wf_def)

lemma normalize_percent_absolute:
  assumes "list_all is_uri_char p" "starts_with [SLASH] p"
  shows "starts_with [SLASH] (normalize_percent p)"
proof -
  obtain r where p: "p = SLASH # r" using assms(2) by (auto simp: starts_with_iff)
  have "hex_pair p = None" using hex_pair_shape [of p] p by (cases "hex_pair p") auto
  then show ?thesis
    using normalize_percent_chars [OF uri_chars_scalar [OF assms(1)]] p by (simp add: percent_chars_cases)
qed

definition authority_wf :: "ustring \<Rightarrow> bool" where
  "authority_wf a \<longleftrightarrow> list_all is_uri_char a \<and> SLASH \<notin> set a \<and> QUESTION \<notin> set a \<and> HASH \<notin> set a"

lemma authority_wf_append [simp]: "authority_wf (a @ b) \<longleftrightarrow> authority_wf a \<and> authority_wf b"
  by (auto simp: authority_wf_def)

lemma authority_wf_percent: "authority_wf a \<Longrightarrow> authority_wf (normalize_percent a)"
  using normalize_percent_uri [of a] by (auto simp: authority_wf_def)

lemma uri_char_lower [simp]: "is_uri_char c \<Longrightarrow> is_uri_char (to_ascii_lower c)"
  by (auto simp: is_uri_char_def to_ascii_lower_def is_ascii_alphanumeric_def is_ascii_alphabetic_def)

lemma authority_wf_lower: "authority_wf a \<Longrightarrow> authority_wf (to_ascii_lowercase a)"
proof -
  assume a: "authority_wf a"
  have "to_ascii_lower c \<in> {SLASH, QUESTION, HASH} \<Longrightarrow> to_ascii_lower c = c" for c
    by (auto simp: to_ascii_lower_def split: if_splits)
  then have "d \<in> {SLASH, QUESTION, HASH} \<Longrightarrow> d \<in> set (to_ascii_lowercase a) \<Longrightarrow> d \<in> set a" for d
    by (metis (no_types, lifting) image_iff list.set_map)
  with a show ?thesis by (auto simp: authority_wf_def list_all_iff)
qed

lemma authority_wf_subset: "authority_wf a \<Longrightarrow> set b \<subseteq> set a \<Longrightarrow> authority_wf b"
  by (auto simp: authority_wf_def list_all_iff)

lemma split_port_append:
  "split_port s = (h, p) \<Longrightarrow> s = h @ (case p of None \<Rightarrow> [] | Some x \<Rightarrow> COLON # x)"
proof (cases "RBRACKET \<in> set s")
  case True
  assume sp: "split_port s = (h, p)"
  have e: "s = upto_last RBRACKET s @ after_last RBRACKET s" by simp
  show ?thesis
  proof (cases "split_once COLON (after_last RBRACKET s)")
    case None
    with True sp show ?thesis by (simp add: split_port_def)
  next
    case (Some ab)
    obtain a b where ab: "ab = (a, b)" by (cases ab)
    with Some have x: "after_last RBRACKET s = a @ COLON # b" by (simp add: split_once_Some)
    from sp Some True ab have "h = upto_last RBRACKET s @ a" "p = Some b" by (auto simp: split_port_def)
    with e [unfolded x] show ?thesis by simp
  qed
next
  case False
  then show "split_port s = (h, p) \<Longrightarrow> ?thesis"
    by (cases "rsplit_once COLON s") (auto simp: split_port_def rsplit_once_Some)
qed

lemma authority_wf_normalize:
  assumes "authority_wf a"
  shows "authority_wf (normalize_authority a rules)"
proof -
  define up where "up = (case rsplit_once AT a of Some (i, h) \<Rightarrow> (Some i, h) | None \<Rightarrow> (None, a))"
  obtain i hp where u: "up = (i, hp)" by fastforce
  obtain h p where s: "split_port hp = (h, p)" by fastforce
  have ahp: "a = (case i of None \<Rightarrow> [] | Some x \<Rightarrow> x @ [AT]) @ hp"
    using u by (auto simp: up_def rsplit_once_Some split: option.splits)
  then have w: "authority_wf hp" "\<And>x. i = Some x \<Longrightarrow> authority_wf x"
    using assms by (auto split: option.splits)
  note hp = split_port_append [OF s]
  then have "authority_wf h" "\<And>x. p = Some x \<Longrightarrow> authority_wf x"
    using w(1) by (auto simp: authority_wf_def split: option.splits)
  moreover have "authority_wf [AT]" "\<And>x. authority_wf x \<Longrightarrow> authority_wf (COLON # x)" "authority_wf []"
    by (auto simp: authority_wf_def is_uri_char_def)
  ultimately show ?thesis
    using w(2) unfolding normalize_authority_def up_def [symmetric] u prod.case s
    by (auto simp: authority_wf_percent authority_wf_lower split: option.splits)
qed

text \<open>
  C30. Normalizing a well-formed reference that has an authority gives a well-formed reference that still
  has one and that its own rendering parses back to; if the reference has a scheme too, no dot segment is
  left in the path. (Without a scheme dot segments are kept: they are for a later resolution.)
\<close>

theorem normalize_wf:
  assumes "uri_wf u" "u_authority u \<noteq> None"
  shows "uri_wf (normalize u) \<and> parse (to_string (normalize u)) = Inr (normalize u) \<and>
    u_authority (normalize u) \<noteq> None \<and> (u_scheme u \<noteq> None \<longrightarrow> dot_free (u_path (normalize u)))"
proof -
  obtain a where a: "u_authority u = Some a" using assms(2) by blast
  note wf = assms(1) [unfolded uri_wf_authority [OF a]]
  define rules where "rules = (case map_option (\<lambda>s. to_ascii_lowercase s) (u_scheme u) of None \<Rightarrow> None | Some s \<Rightarrow> rules_of s)"
  define q where "q = (if u_scheme u = None then normalize_percent (u_path u)
    else remove_dot_segments (normalize_percent (u_path u)))"
  define p where "p = (if q = [] \<and> (case rules of None \<Rightarrow> False | Some r \<Rightarrow> sr_empty_path_is_root r) then [SLASH] else q)"
  have n: "normalize u = \<lparr>u_scheme = map_option (\<lambda>s. to_ascii_lowercase s) (u_scheme u),
      u_authority = Some (normalize_authority a rules), u_path = p,
      u_query = map_option normalize_percent (u_query u), u_fragment = map_option normalize_percent (u_fragment u)\<rparr>"
    by (cases "u_scheme u") (simp_all add: normalize_def Let_def a p_def q_def rules_def)
  have qw: "path_wf q" using wf path_wf_dots path_wf_percent by (simp add: q_def)
  have "list_all is_uri_char (u_path u)" using wf by (simp add: path_wf_def)
  with wf have "q = [] \<or> starts_with [SLASH] q"
    using normalize_percent_absolute [of "u_path u"] remove_dot_segments_absolute
    by (auto simp: q_def normalize_percent_chars percent_chars_cases)
  moreover have "path_wf [SLASH]" by (simp add: path_wf_def is_uri_char_def)
  ultimately have p: "path_wf p" "p = [] \<or> starts_with [SLASH] p" using qw by (auto simp: p_def)
  have "dot_free [SLASH]" by (simp add: dot_free_def is_dot_def)
  then have d: "u_scheme u \<noteq> None \<Longrightarrow> dot_free p" using removed_dot_free by (cases "u_scheme u") (simp_all add: p_def q_def)
  have "authority_wf (normalize_authority a rules)"
    using wf by (intro authority_wf_normalize) (simp add: authority_wf_def)
  then have na: "list_all is_uri_char (normalize_authority a rules)" "SLASH \<notin> set (normalize_authority a rules)"
    "QUESTION \<notin> set (normalize_authority a rules)" "HASH \<notin> set (normalize_authority a rules)"
    by (auto simp: authority_wf_def)
  have qf: "(case map_option normalize_percent (u_query u) of None \<Rightarrow> True | Some q \<Rightarrow> list_all is_uri_char q \<and> HASH \<notin> set q)"
    "(case map_option normalize_percent (u_fragment u) of None \<Rightarrow> True | Some f \<Rightarrow> list_all is_uri_char f)"
    "(case map_option (\<lambda>s. to_ascii_lowercase s) (u_scheme u) of None \<Rightarrow> True
        | Some s \<Rightarrow> is_scheme s \<and> to_ascii_lowercase s = s)"
    using wf normalize_percent_uri [of "the (u_query u)"] normalize_percent_uri(1) [of "the (u_fragment u)"]
    by (auto split: option.splits)
  have na': "u_authority (normalize u) = Some (normalize_authority a rules)" by (simp add: n)
  have "uri_wf (normalize u)"
    unfolding uri_wf_authority [OF na'] using na p qf by (simp add: n)
  moreover have "u_scheme u \<noteq> None \<longrightarrow> dot_free (u_path (normalize u))" using d by (simp add: n)
  ultimately show ?thesis using parse_to_string na' by (metis option.simps(3))
qed

lemma normalize_wf_witness:
  "u_path (normalize \<lparr>u_scheme = Some (lit ''http''), u_authority = Some (lit ''H:80''), u_path = [], u_query = None,
       u_fragment = None\<rparr>) = lit ''/'' \<and>
   parse (to_string (normalize \<lparr>u_scheme = Some (lit ''http''), u_authority = Some (lit ''H:80''), u_path = [],
       u_query = None, u_fragment = None\<rparr>)) =
     Inr (normalize \<lparr>u_scheme = Some (lit ''http''), u_authority = Some (lit ''H:80''), u_path = [], u_query = None,
       u_fragment = None\<rparr>)"
proof -
  let ?u = "\<lparr>u_scheme = Some (lit ''http''), u_authority = Some (lit ''H:80''), u_path = [], u_query = None, u_fragment = None\<rparr>"
  have "uri_wf ?u"
    by (simp add: uri_wf_def is_uri_char_def is_ascii_alphanumeric_def is_ascii_alphabetic_def is_ascii_digit_def
        to_ascii_lower_def)
  moreover have "u_authority ?u \<noteq> None" by simp
  ultimately have "parse (to_string (normalize ?u)) = Inr (normalize ?u)" using normalize_wf [of ?u] by blast
  moreover have "u_path (normalize ?u) = lit ''/''"
    by (simp add: normalize_def Let_def rules_of_def SCHEMES_def to_ascii_lower_def normalize_percent_chars percent_chars_cases)
  ultimately show ?thesis by blast
qed

text \<open>
  Without an authority a normal form may read as another reference: a decoded letter completes a
  scheme, and a removed dot segment uncovers two slashes.
\<close>

lemma normalize_not_wf:
  "(\<exists>u. uri_wf u \<and> u_scheme u = None \<and> \<not> uri_wf (normalize u)) \<and>
   (\<exists>u. uri_wf u \<and> u_scheme u \<noteq> None \<and> \<not> uri_wf (normalize u))"
proof -
  let ?v = "\<lambda>s p. \<lparr>u_scheme = s, u_authority = None, u_path = p, u_query = None, u_fragment = None\<rparr>"
  note chars = is_uri_char_def is_ascii_alphanumeric_def is_ascii_alphabetic_def is_ascii_digit_def to_ascii_lower_def
  have a: "uri_wf (?v None (lit ''%41:b''))" "uri_wf (?v (Some (lit ''a'')) (lit ''/.//x''))"
    by (simp_all add: uri_wf_def chars split_scheme_def)
  have p: "percent_chars (lit ''%41:b'') = lit ''A:b''" "percent_chars (lit ''/.//x'') = lit ''/.//x''"
    by (simp_all add: percent_chars.simps hex_digit_def normal_octet_def Let_def HEX_def is_unreserved_def chars)
  have s: "list_all scalar (lit ''%41:b'')" "list_all scalar (lit ''/.//x'')" by (simp_all add: scalar_def)
  have n: "normalize (?v None (lit ''%41:b'')) = ?v None (lit ''A:b'')"
    "normalize (?v (Some (lit ''a'')) (lit ''/.//x'')) = ?v (Some (lit ''a'')) (lit ''//x'')"
    using s by (simp_all add: normalize_def Let_def normalize_percent_chars p remove_dot_segments_eq' dots_removed_def
        is_dot_def to_ascii_lower_def del: lit_Cons) (simp_all add: remove_dot_segments_eq' dots_removed_def is_dot_def to_ascii_lower_def)
  have "\<not> uri_wf (?v None (lit ''A:b''))" "\<not> uri_wf (?v (Some (lit ''a'')) (lit ''//x''))"
    by (simp_all add: uri_wf_def split_scheme_def chars)
  with a n show ?thesis
    by (metis option.distinct(1) uri_reference.select_convs(1))
qed

lemma escape_byte_chars: "list_all is_uri_char (escape_byte b)"
proof -
  have "unat b div 16 < 16" "unat b mod 16 < 16" using byte_bound [of b] by auto
  then have "is_uri_char (HEX ! (unat b div 16))" "is_uri_char (HEX ! (unat b mod 16))"
    using set_HEX unreserved_uri_char by blast+
  moreover have "is_uri_char PERCENT" by (simp add: is_uri_char_def)
  ultimately show ?thesis by (simp add: escape_byte_def)
qed

lemma escape_uri_id: "list_all is_uri_char s \<Longrightarrow> escape_uri s = s"
  by (induction s) (simp_all add: escape_uri_def)

text \<open>
  Escaping makes any text acceptable to the parser's character test, leaves alone a text that
  already is, and so does nothing the second time.
\<close>

theorem escape_uri_spec:
  "list_all is_uri_char (escape_uri s) \<and> (escape_uri s = s \<longleftrightarrow> list_all is_uri_char s) \<and>
     escape_uri (escape_uri s) = escape_uri s"
proof -
  have "list_all is_uri_char (escape_uri s)"
    using escape_byte_chars by (auto simp: escape_uri_def list_all_iff)
  then show ?thesis using escape_uri_id by metis
qed

end
