(* ===== verification/Relativize.thy ===== *)
theory Relativize
  imports Uri
begin

text \<open>
  Relative forms of references (\<open>UriReference::relativize\<close> of \<open>uri.rs\<close>): when a target can be written
  relative to the directory of a base, and that what is written resolves back to it.
\<close>

section \<open>Paths as segments\<close>

lemma slash_join: "SLASH # join [SLASH] (x # segs) = concat (map ((#) SLASH) (x # segs))"
  by (simp only: join_slash list.map concat.simps append_Cons)

lemma join_last: "join [d] (xs @ [a @ b]) = join [d] (xs @ [a]) @ b"
  by (cases "xs = []") (simp_all add: join_append)

lemma join_Nil_iff: "join [d] (x # xs) = [] \<longleftrightarrow> x = [] \<and> xs = []"
  by (cases "xs = []") (simp_all add: join_Cons)

lemma join_starts: "starts_with [d] (join [d] (x # xs)) \<longleftrightarrow> starts_with [d] x \<or> x = [] \<and> xs \<noteq> []"
  by (cases "xs = []"; cases x) (auto simp: join_Cons)

lemma canon_dots_back:
  "segs \<noteq> [] \<Longrightarrow> m \<le> length ys \<Longrightarrow>
     canon (x, ys) (replicate m (lit ''..'') @ segs) = canon (x, take (length ys - m) ys) segs"
proof (induction m arbitrary: ys)
  case (Suc m)
  obtain t ts where t: "replicate m (lit ''..'') @ segs = t # ts" using Suc.prems(1) by (cases "replicate m (lit ''..'') @ segs") auto
  have "canon (x, ys) (lit ''..'' # t # ts) = canon (x, butlast ys) (t # ts)"
    using Suc.prems(2) by (cases "ys = []") simp_all
  moreover have "canon (x, butlast ys) (t # ts) = canon (x, take (length ys - Suc m) ys) segs"
    using Suc.IH [of "butlast ys"] Suc.prems t by (simp add: take_butlast del: lit_Cons)
  ultimately show ?case using t by (simp del: lit_Cons)
qed simp

lemma canon_append_free:
  "list_all (\<lambda>s. \<not> is_dot s) xs \<Longrightarrow> segs \<noteq> [] \<Longrightarrow> canon (x, ys) (xs @ segs) = canon (x, ys @ xs) segs"
proof (induction xs arbitrary: ys)
  case (Cons a xs)
  obtain t ts where "xs @ segs = t # ts" using Cons.prems(2) by (cases "xs @ segs") auto
  with Cons show ?case by (simp add: is_dot_def del: lit_Cons)
qed simp

lemma canon_here: "segs \<noteq> [] \<Longrightarrow> canon st (lit ''.'' # segs) = canon st segs"
  by (cases segs) simp_all

lemma removed_absolute:
  assumes "segs \<noteq> []" "\<forall>s\<in>set segs. SLASH \<notin> set s"
  shows "remove_dot_segments (SLASH # join [SLASH] segs) = render_path (canon ([], []) segs)"
proof -
  have "SLASH # join [SLASH] segs = join [SLASH] ([] # segs)" using assms(1) by (simp add: join_Cons)
  moreover have "split_on SLASH (join [SLASH] ([] # segs)) = [] # segs" using assms by (intro split_on_join) auto
  ultimately show ?thesis by (simp add: remove_dot_segments_eq' dots_removed_def is_dot_def)
qed

lemma dot_free_absolute:
  assumes "segs \<noteq> []" "\<forall>s\<in>set segs. SLASH \<notin> set s"
  shows "dot_free (SLASH # join [SLASH] segs) \<longleftrightarrow> list_all (\<lambda>s. \<not> is_dot s) segs"
proof -
  have "SLASH # join [SLASH] segs = join [SLASH] ([] # segs)" using assms(1) by (simp add: join_Cons)
  moreover have "split_on SLASH (join [SLASH] ([] # segs)) = [] # segs" using assms by (intro split_on_join) auto
  ultimately show ?thesis by (simp add: dot_free_def is_dot_def)
qed

lemma common_take: "take (common_len xs ys) xs = take (common_len xs ys) ys"
  by (induction xs ys rule: common_len.induct) simp_all

lemma common_le: "common_len xs ys \<le> length xs"
  by (induction xs ys rule: common_len.induct) simp_all

section \<open>The relative path\<close>

text \<open>The parts the code joins, for the directories of the base and of the target and its last segment.\<close>

definition relative_parts :: "ustring list \<Rightarrow> ustring list \<Rightarrow> ustring \<Rightarrow> ustring list" where
  "relative_parts ds ts l =
     replicate (length ds - common_len ds ts) (lit ''..'') @ drop (common_len ds ts) ts @ [l]"

lemma canon_relative_parts:
  assumes "list_all (\<lambda>s. \<not> is_dot s) ds" "list_all (\<lambda>s. \<not> is_dot s) (ts @ [l])"
  shows "canon ([], []) (ds @ relative_parts ds ts l) = ([], ts @ [l])"
proof -
  let ?k = "common_len ds ts"
  have "canon ([], []) (ds @ relative_parts ds ts l) = canon ([], ds) (relative_parts ds ts l)"
    using canon_append_free [OF assms(1), of "relative_parts ds ts l" "[]" "[]"] by (simp add: relative_parts_def)
  also have "\<dots> = canon ([], take ?k ds) (drop ?k ts @ [l])"
    using common_le [of ds ts] by (simp add: relative_parts_def canon_dots_back del: lit_Cons)
  also have "\<dots> = ([], take ?k ds @ drop ?k ts @ [l])"
    using assms(2) by (intro canon_no_dots) (auto simp: list_all_iff dest: in_set_dropD)
  also have "take ?k ds @ drop ?k ts @ [l] = ts @ [l]" by (metis append_assoc append_take_drop_id common_take)
  finally show ?thesis .
qed

text \<open>A path as the code takes it apart.\<close>

lemma absolute_parts:
  assumes "starts_with [SLASH] p"
  obtains ds l where "p = SLASH # join [SLASH] (ds @ [l])" "\<forall>s\<in>set (ds @ [l]). SLASH \<notin> set s"
proof -
  from assms obtain q where q: "p = SLASH # q" by (auto simp: starts_with_iff)
  have "split_on SLASH q = butlast (split_on SLASH q) @ [last (split_on SLASH q)]" by simp
  then show ?thesis using q join_split_on [of SLASH q] split_on_segments [of _ SLASH q] that by metis
qed

lemma path_segments_absolute:
  assumes "\<forall>s\<in>set (ts @ [l]). SLASH \<notin> set s"
  shows "butlast (path_segments (SLASH # join [SLASH] (ts @ [l]))) = ts"
    "(if path_segments (SLASH # join [SLASH] (ts @ [l])) = [] then []
      else last (path_segments (SLASH # join [SLASH] (ts @ [l])))) = l"
proof -
  have s: "split_on SLASH (join [SLASH] (ts @ [l])) = ts @ [l]" using assms by (intro split_on_join) auto
  have e: "path_segments (SLASH # join [SLASH] (ts @ [l])) =
      (if join [SLASH] (ts @ [l]) = [] then [] else ts @ [l])"
    using s by (simp add: path_segments_def)
  have "join [SLASH] (ts @ [l]) = [] \<longleftrightarrow> ts = [] \<and> l = []"
    by (cases ts) (simp_all add: join_Nil_iff)
  then show "butlast (path_segments (SLASH # join [SLASH] (ts @ [l]))) = ts"
    "(if path_segments (SLASH # join [SLASH] (ts @ [l])) = [] then []
      else last (path_segments (SLASH # join [SLASH] (ts @ [l])))) = l"
    by (auto simp: e)
qed

lemma dir_segments_absolute:
  assumes "\<forall>s\<in>set (ds @ [f]). SLASH \<notin> set s"
  shows "upto_last SLASH (SLASH # join [SLASH] (ds @ [f])) = SLASH # join [SLASH] (ds @ [[]])"
    "dir_segments (SLASH # join [SLASH] (ds @ [[]])) = ds"
proof -
  have "SLASH # join [SLASH] (ds @ [x]) = (if ds = [] then [] else SLASH # join [SLASH] ds) @ SLASH # x" for x
    by (simp add: join_append)
  then show "upto_last SLASH (SLASH # join [SLASH] (ds @ [f])) = SLASH # join [SLASH] (ds @ [[]])"
    using assms by simp
  have s: "split_on SLASH (join [SLASH] (ds @ [[]])) = ds @ [[]]" using assms by (intro split_on_join) auto
  have "join [SLASH] (ds @ [[]]) = [] \<longleftrightarrow> ds = []" by (cases ds) (simp_all add: join_Nil_iff)
  then show "dir_segments (SLASH # join [SLASH] (ds @ [[]])) = ds"
    using s by (auto simp: dir_segments_def path_segments_def)
qed

text \<open>The directory of a base that is absolute or has an authority and no path, as its segments.\<close>

definition hierarchical :: "uri_reference \<Rightarrow> bool" where
  "hierarchical u \<longleftrightarrow> starts_with [SLASH] (u_path u) \<or> u_path u = [] \<and> u_authority u \<noteq> None"

lemma base_directory:
  assumes "hierarchical base" "dot_free (u_path base)"
  obtains ds where "dir_segments (upto_last SLASH (u_path base)) = ds" "\<forall>s\<in>set ds. SLASH \<notin> set s"
    "list_all (\<lambda>s. \<not> is_dot s) ds" "\<And>p. merge base p = SLASH # join [SLASH] (ds @ [p])"
proof (cases "u_path base = []")
  case True
  with assms(1) have "u_authority base \<noteq> None" by (simp add: hierarchical_def)
  with True show ?thesis by (intro that [of "[]"]) (simp_all add: merge_def dir_segments_def path_segments_def)
next
  case False
  with assms(1) have "starts_with [SLASH] (u_path base)" by (simp add: hierarchical_def)
  then obtain ds f where p: "u_path base = SLASH # join [SLASH] (ds @ [f])"
    and s: "\<forall>s\<in>set (ds @ [f]). SLASH \<notin> set s" by (rule absolute_parts)
  have "merge base q = SLASH # join [SLASH] (ds @ [q])" for q
    using dir_segments_absolute(1) [OF s] join_last [of SLASH ds "[]" q] by (simp add: merge_def p)
  moreover have "list_all (\<lambda>s. \<not> is_dot s) ds"
    using assms(2) dot_free_absolute [of "ds @ [f]"] s by (simp add: p)
  ultimately show ?thesis using s dir_segments_absolute [OF s] by (intro that [of ds]) (simp_all add: p)
qed

text \<open>What the code writes for these parts: the directory itself is \<open>.\<close>, and a first part that a scheme
  could be read from is hidden behind \<open>./\<close>.\<close>

definition written_parts :: "ustring list \<Rightarrow> ustring list" where
  "written_parts parts =
     (if parts = [[]] then [lit ''.'']
      else if COLON \<in> set (hd parts) then lit ''.'' # parts else parts)"

lemma relative_path_parts:
  assumes "dir_segments (upto_last SLASH bp) = ds" "tp = SLASH # join [SLASH] (ts @ [l])"
    "\<forall>s\<in>set (ts @ [l]). SLASH \<notin> set s"
  shows "relative_path bp tp = join [SLASH] (written_parts (relative_parts ds ts l))"
proof -
  let ?parts = "relative_parts ds ts l"
  obtain x xs where x: "?parts = x # xs" by (cases ?parts) (simp_all add: relative_parts_def)
  have "relative_path bp tp =
     (if join [SLASH] ?parts = [] then lit ''.''
      else if hd ?parts \<noteq> lit ''..'' \<and> COLON \<in> set (hd ?parts) then lit ''./'' @ join [SLASH] ?parts
      else join [SLASH] ?parts)"
    unfolding relative_path_def assms(1,2) path_segments_absolute [OF assms(3)] Let_def relative_parts_def by simp
  then show ?thesis by (auto simp: x written_parts_def join_Nil_iff join_Cons)
qed


section \<open>Relative forms\<close>

lemma parts_free:
  assumes "\<forall>s\<in>set (ts @ [l]). SLASH \<notin> set s"
  shows "\<forall>s\<in>set (written_parts (relative_parts ds ts l)). SLASH \<notin> set s"
  using assms by (auto simp: written_parts_def relative_parts_def dest: in_set_dropD)

lemma canon_written:
  assumes "list_all (\<lambda>s. \<not> is_dot s) ds" "list_all (\<lambda>s. \<not> is_dot s) (ts @ [l])"
  shows "canon ([], []) (ds @ written_parts (relative_parts ds ts l)) = ([], ts @ [l])"
proof -
  let ?ps = "relative_parts ds ts l"
  have ne: "?ps \<noteq> []" by (simp add: relative_parts_def)
  have d: "canon ([], []) (ds @ xs) = canon ([], ds) xs" if "xs \<noteq> []" for xs
    using canon_append_free [OF assms(1) that, of "[]" "[]"] by simp
  have "canon ([], ds) (written_parts ?ps) = canon ([], ds) ?ps"
    using canon_here [OF ne] by (simp add: written_parts_def del: lit_Cons) simp
  then show ?thesis using canon_relative_parts [OF assms] ne d [of ?ps] d [of "written_parts ?ps"]
    by (simp add: written_parts_def split: if_splits)
qed

text \<open>A relative path is merged and cleaned to the path of the target.\<close>

lemma merged_back:
  assumes "\<forall>s\<in>set ds. SLASH \<notin> set s" "list_all (\<lambda>s. \<not> is_dot s) ds"
    "\<forall>s\<in>set (ts @ [l]). SLASH \<notin> set s" "list_all (\<lambda>s. \<not> is_dot s) (ts @ [l])"
  shows "remove_dot_segments (SLASH # join [SLASH] (ds @ [join [SLASH] (written_parts (relative_parts ds ts l))])) =
    SLASH # join [SLASH] (ts @ [l])"
proof -
  let ?ws = "written_parts (relative_parts ds ts l)"
  have ne: "?ws \<noteq> []" by (simp add: written_parts_def relative_parts_def)
  have "join [SLASH] (ds @ [join [SLASH] ?ws]) = join [SLASH] (ds @ ?ws)"
    using ne by (cases "ds = []") (simp_all add: join_append)
  then have "remove_dot_segments (SLASH # join [SLASH] (ds @ [join [SLASH] ?ws])) = render_path ([], ts @ [l])"
    using removed_absolute [of "ds @ ?ws"] parts_free [OF assms(3), of ds] assms(1) ne canon_written [OF assms(2,4)]
    by (auto simp: ball_Un)
  moreover have "SLASH # join [SLASH] (ts @ [l]) = concat (map ((#) SLASH) (ts @ [l]))"
    by (cases "ts @ [l]") (simp_all only: slash_join, simp)
  ultimately show ?thesis by simp
qed

text \<open>The written path is taken for an absolute one exactly if the target goes on with an empty segment.\<close>

lemma common_len_append [simp]: "common_len ds (ds @ us) = length ds"
  by (induction ds) simp_all

lemma common_len_full: "common_len ds ts = length ds \<Longrightarrow> \<exists>us. ts = ds @ us"
  by (metis append_take_drop_id common_take order_refl take_all)

lemma written_starts:
  assumes "\<forall>s\<in>set (ts @ [l]). SLASH \<notin> set s"
  shows "starts_with [SLASH] (join [SLASH] (written_parts (relative_parts ds ts l))) \<longleftrightarrow>
    (\<exists>r. r \<noteq> [] \<and> ts @ [l] = ds @ [] # r)"
proof (cases "common_len ds ts = length ds")
  case True
  then obtain us where us: "ts = ds @ us" using common_len_full by blast
  obtain x xs where x: "us @ [l] = x # xs" by (cases "us @ [l]") simp_all
  then have "SLASH \<notin> set x" using assms us by (metis append_assoc list.set_intros(1) Un_iff set_append)
  then have "starts_with [SLASH] (join [SLASH] (written_parts (x # xs))) \<longleftrightarrow> x = [] \<and> xs \<noteq> []"
    by (cases x) (auto simp: written_parts_def join_starts)
  moreover have "relative_parts ds ts l = x # xs" using x by (simp add: relative_parts_def us)
  moreover have "(\<exists>r. r \<noteq> [] \<and> ts @ [l] = ds @ [] # r) \<longleftrightarrow> x = [] \<and> xs \<noteq> []" using x by (auto simp: us)
  ultimately show ?thesis by simp
next
  case False
  then obtain m where "length ds - common_len ds ts = Suc m" using common_le [of ds ts] by (cases "length ds - common_len ds ts") auto
  then have p: "relative_parts ds ts l = lit ''..'' # replicate m (lit ''..'') @ drop (common_len ds ts) ts @ [l]"
    by (simp add: relative_parts_def del: lit_Cons)
  have "ts @ [l] \<noteq> ds @ [] # r" if "r \<noteq> []" for r
  proof
    assume "ts @ [l] = ds @ [] # r"
    then have "ts = ds @ [] # butlast r" using that by (metis butlast.simps(2) butlast_append butlast_snoc list.distinct(1))
    with False show False by simp
  qed
  then show ?thesis by (auto simp: p written_parts_def join_starts)
qed

lemma join_slash_last: "join [d] (xs @ [d # r]) = join [d] (xs @ [] # split_on d r)"
  by (cases "xs = []") (simp_all add: join_append join_Cons)

lemma under_directory:
  assumes "\<forall>s\<in>set ds. SLASH \<notin> set s" "\<forall>s\<in>set (ts @ [l]). SLASH \<notin> set s"
  shows "starts_with (join [SLASH] (ds @ [[SLASH]])) (join [SLASH] (ts @ [l])) \<longleftrightarrow>
    (\<exists>r. r \<noteq> [] \<and> ts @ [l] = ds @ [] # r)"
proof
  assume "starts_with (join [SLASH] (ds @ [[SLASH]])) (join [SLASH] (ts @ [l]))"
  then obtain q where "join [SLASH] (ts @ [l]) = join [SLASH] (ds @ [] # split_on SLASH q)"
    using join_last [of SLASH ds "[SLASH]"] join_slash_last [of SLASH ds] by (auto simp: starts_with_iff)
  moreover have "split_on SLASH (join [SLASH] (ts @ [l])) = ts @ [l]" using assms(2) by (intro split_on_join) auto
  moreover have "\<forall>s\<in>set (ds @ [] # split_on SLASH q). SLASH \<notin> set s"
    using assms(1) split_on_segments [of _ SLASH q] by auto
  then have "split_on SLASH (join [SLASH] (ds @ [] # split_on SLASH q)) = ds @ [] # split_on SLASH q"
    by (intro split_on_join) simp_all
  ultimately show "\<exists>r. r \<noteq> [] \<and> ts @ [l] = ds @ [] # r" using split_on_not_Nil by metis
next
  assume "\<exists>r. r \<noteq> [] \<and> ts @ [l] = ds @ [] # r"
  then obtain r where r: "r \<noteq> []" "ts @ [l] = ds @ [] # r" by blast
  have "\<forall>s\<in>set r. SLASH \<notin> set s" using assms(2) r(2) by simp
  then have s: "split_on SLASH (join [SLASH] r) = r" using r(1) by (intro split_on_join)
  have "join [SLASH] (ts @ [l]) = join [SLASH] (ds @ [SLASH # join [SLASH] r])"
    unfolding join_slash_last s r(2) ..
  also have "\<dots> = join [SLASH] (ds @ [[SLASH]]) @ join [SLASH] r"
    using join_last [of SLASH ds "[SLASH]" "join [SLASH] r"] by simp
  finally have "join [SLASH] (ts @ [l]) = join [SLASH] (ds @ [[SLASH]]) @ join [SLASH] r" .
  then show "starts_with (join [SLASH] (ds @ [[SLASH]])) (join [SLASH] (ts @ [l]))" by simp
qed

lemma written_not_Nil: "join [SLASH] (written_parts (relative_parts ds ts l)) \<noteq> []"
  by (cases "relative_parts ds ts l") (auto simp: relative_parts_def written_parts_def join_Nil_iff)

text \<open>The candidate \<open>relativize\<close> tries resolves to the target, unless its path reads as an absolute one.\<close>

lemma relativize_cases:
  assumes "u_scheme base = u_scheme target" "u_authority base = u_authority target"
    "hierarchical base" "dot_free (u_path base)" "starts_with [SLASH] (u_path target)" "dot_free (u_path target)"
  obtains ds ts l where "u_path target = SLASH # join [SLASH] (ts @ [l])" "\<forall>s\<in>set (ts @ [l]). SLASH \<notin> set s"
    "relativize base target =
      (if starts_with (merge base [SLASH]) (u_path target) then target
       else \<lparr>u_scheme = None, u_authority = None, u_path = join [SLASH] (written_parts (relative_parts ds ts l)),
         u_query = u_query target, u_fragment = u_fragment target\<rparr>)"
    "starts_with (merge base [SLASH]) (u_path target) \<longleftrightarrow>
       starts_with [SLASH] (join [SLASH] (written_parts (relative_parts ds ts l)))"
proof -
  obtain ds where ds: "dir_segments (upto_last SLASH (u_path base)) = ds" "\<forall>s\<in>set ds. SLASH \<notin> set s"
    "list_all (\<lambda>s. \<not> is_dot s) ds" "\<And>p. merge base p = SLASH # join [SLASH] (ds @ [p])"
    by (rule base_directory [OF assms(3,4)]) blast
  obtain ts l where t: "u_path target = SLASH # join [SLASH] (ts @ [l])" "\<forall>s\<in>set (ts @ [l]). SLASH \<notin> set s"
    by (rule absolute_parts [OF assms(5)])
  have df: "list_all (\<lambda>s. \<not> is_dot s) (ts @ [l])" using assms(6) dot_free_absolute [of "ts @ [l]"] t by simp
  let ?ws = "written_parts (relative_parts ds ts l)" and ?p = "join [SLASH] (written_parts (relative_parts ds ts l))"
  have ne: "?p \<noteq> []" by (rule written_not_Nil)
  have above: "starts_with (merge base [SLASH]) (u_path target) \<longleftrightarrow> starts_with [SLASH] ?p"
    using under_directory [OF ds(2) t(2)] written_starts [OF t(2), of ds] by (simp add: ds(4) t(1))
  have "resolve_uri base \<lparr>u_scheme = None, u_authority = None, u_path = ?p, u_query = u_query target, u_fragment = u_fragment target\<rparr> = target
    \<longleftrightarrow> \<not> starts_with [SLASH] ?p"
  proof (cases "starts_with [SLASH] ?p")
    case True
    then obtain r where r: "r \<noteq> []" "ts @ [l] = ds @ [] # r" using written_starts [OF t(2), of ds] by blast
    then have "ts = ds @ [] # butlast r" "r = butlast r @ [l]"
      by (metis butlast.simps(2) butlast_append butlast_snoc list.distinct(1),
        metis append_butlast_last_id last_appendR last_ConsR last_snoc list.distinct(1))
    then have "?ws = [] # r" using r(1) by (simp add: relative_parts_def written_parts_def)
    then have p: "?p = SLASH # join [SLASH] r" using r(1) by (simp add: join_Cons)
    have "remove_dot_segments ?p = ?p"
      using df t(2) r dot_free_absolute [of r] by (intro dot_free_id) (simp add: p)
    moreover have "length ?p < length (u_path target)"
      unfolding t(1) p r(2) using r(1) by (cases "ds = []") (simp_all add: join_append join_Cons)
    ultimately show ?thesis using True ne by (auto simp: resolve_uri_def dest!: arg_cong [where f = u_path])
  next
    case False
    with ne assms(1,2) merged_back [OF ds(2,3) t(2) df] show ?thesis by (simp add: resolve_uri_def ds(4) t(1))
  qed
  then show ?thesis
    using that [OF t _ above] assms(1,2) relative_path_parts [OF ds(1) t] above by (simp add: relativize_def Let_def)
qed


text \<open>What is written for a relative form is not read as something else.\<close>

lemma no_scheme_before_slash:
  assumes "COLON \<notin> set x"
  shows "fst (split_scheme (x @ SLASH # q)) = None" "fst (split_scheme x) = None"
proof -
  show "fst (split_scheme x) = None" using assms by (simp add: split_scheme_def)
  show "fst (split_scheme (x @ SLASH # q)) = None"
  proof (cases "split_scheme (x @ SLASH # q)")
    case (Pair a r)
    have False if "a = Some s" for s
    proof -
      obtain b where b: "x @ SLASH # q = b @ COLON # r" "is_scheme b" using Pair \<open>a = Some s\<close> split_scheme_Some by blast
      have "SLASH \<notin> set b" using is_scheme_free [OF b(2)] by simp
      from b(1) consider us where "x = b @ us" "us @ SLASH # q = COLON # r" | us where "b = x @ us" "SLASH # q = us @ COLON # r"
        by (auto simp: append_eq_append_conv2)
      then show False
        using assms \<open>SLASH \<notin> set b\<close> by cases (auto simp: Cons_eq_append_conv append_eq_Cons_conv)
    qed
    with Pair show ?thesis by (cases a) auto
  qed
qed

lemma starts_slashes: "starts_with [SLASH, SLASH] p \<Longrightarrow> starts_with [SLASH] p"
  by (auto simp: starts_with_iff)

lemma written_no_scheme: "fst (split_scheme (join [SLASH] (written_parts (relative_parts ds ts l)))) = None"
proof -
  obtain y ys where "relative_parts ds ts l = y # ys"
    by (cases "relative_parts ds ts l") (simp_all add: relative_parts_def)
  moreover have "\<exists>x xs. written_parts (y # ys) = x # xs \<and> COLON \<notin> set x"
    by (cases "y = [] \<and> ys = []"; cases "COLON \<in> set y") (auto simp: written_parts_def)
  ultimately obtain x xs where w: "written_parts (relative_parts ds ts l) = x # xs" "COLON \<notin> set x" by auto
  then show ?thesis using no_scheme_before_slash [OF w(2)] by (cases "xs = []") (simp_all add: join_Cons)
qed

lemma set_join: "set (join [d] xs) \<subseteq> insert d (\<Union>(set ` set xs))"
  by (induction xs rule: induct_list012) (auto simp: join_Cons)

lemma segment_set: "x \<in> set xs \<Longrightarrow> set x \<subseteq> set (join [d] xs)"
  by (induction xs rule: induct_list012) (auto simp: join_Cons)

lemma written_path_wf:
  assumes "path_wf (SLASH # join [SLASH] (ts @ [l]))"
  shows "path_wf (join [SLASH] (written_parts (relative_parts ds ts l)))"
proof -
  have "set (join [SLASH] (written_parts (relative_parts ds ts l))) \<subseteq> insert 46 (set (SLASH # join [SLASH] (ts @ [l])))"
  proof -
    have "set s \<subseteq> insert 46 (set (join [SLASH] (ts @ [l])))" if "s \<in> set (written_parts (relative_parts ds ts l))" for s
      using that segment_set [of s "ts @ [l]" SLASH]
      by (auto simp: written_parts_def relative_parts_def dest: in_set_dropD split: if_splits)
    then show ?thesis using set_join [of SLASH "written_parts (relative_parts ds ts l)"] by fastforce
  qed
  then show ?thesis using assms by (auto simp: path_wf_def list_all_iff is_uri_char_def)
qed

text \<open>References for the witness: an \<open>http\<close> reference with the given path.\<close>

definition sample_uri :: "string \<Rightarrow> uri_reference" where
  "sample_uri path = \<lparr>u_scheme = Some (lit ''http''), u_authority = Some (lit ''h''), u_path = lit path,
     u_query = None, u_fragment = None\<rparr>"

text \<open>
  C20. For a base and a well-formed target with a scheme, both with an absolute path without dot segments
  (or, for the base, an authority and no path), the result of \<open>relativize\<close> is a relative path - no scheme,
  no authority, no leading slash - exactly when scheme and authority are equal and the target does not go
  on with an empty segment (\<open>//\<close>) after the directory of the base; in every other case it is the target
  itself. Either way it resolves against the base to the target, and its rendering parses back to it: a
  first segment with a colon is not read as a scheme.
\<close>

theorem relativize_spec:
  assumes "uri_wf target" "u_scheme target \<noteq> None"
    and "starts_with [SLASH] (u_path target)" "dot_free (u_path target)"
    and "hierarchical base" "dot_free (u_path base)"
    and "r = relativize base target"
  shows "resolve_uri base r = target \<and> parse (to_string r) = Inr r \<and>
    (if u_scheme base = u_scheme target \<and> u_authority base = u_authority target \<and>
        \<not> starts_with (merge base [SLASH]) (u_path target)
     then u_scheme r = None \<and> u_authority r = None \<and> u_path r \<noteq> [] \<and> \<not> starts_with [SLASH] (u_path r) \<and>
       u_query r = u_query target \<and> u_fragment r = u_fragment target
     else r = target)"
proof (cases "u_scheme base = u_scheme target \<and> u_authority base = u_authority target")
  case False
  then have "r = target" using assms(7) by (auto simp: relativize_def)
  with False relativize_resolves [OF assms(2,4), of base] assms(1,7) show ?thesis by (auto simp: parse_to_string)
next
  case True
  then obtain ds ts l where t: "u_path target = SLASH # join [SLASH] (ts @ [l])"
    and r: "r = (if starts_with (merge base [SLASH]) (u_path target) then target
       else \<lparr>u_scheme = None, u_authority = None, u_path = join [SLASH] (written_parts (relative_parts ds ts l)),
         u_query = u_query target, u_fragment = u_fragment target\<rparr>)"
    and st: "starts_with (merge base [SLASH]) (u_path target) \<longleftrightarrow>
       starts_with [SLASH] (join [SLASH] (written_parts (relative_parts ds ts l)))"
    using relativize_cases [OF _ _ assms(5,6,3,4)] assms(7) by metis
  have res: "resolve_uri base r = target" using relativize_resolves [OF assms(2,4)] assms(7) by simp
  have ne: "join [SLASH] (written_parts (relative_parts ds ts l)) \<noteq> []" by (rule written_not_Nil)
  have "path_wf (u_path target)" using assms(1) by (rule uri_wf_path)
  then have "path_wf (join [SLASH] (written_parts (relative_parts ds ts l)))" using written_path_wf t by simp
  then have "uri_wf r"
    using assms(1) st written_no_scheme [of ds ts l] starts_slashes
    by (auto simp: r uri_wf_def path_wf_def)
  then have "parse (to_string r) = Inr r" by (simp add: parse_to_string)
  with res True ne st show ?thesis by (simp add: r)
qed

theorem relativize_spec_witness:
  "resolve_uri (sample_uri ''/a/b/c'') (relativize (sample_uri ''/a/b/c'') (sample_uri ''/a/b/e:f'')) = sample_uri ''/a/b/e:f'' \<and>
     u_scheme (relativize (sample_uri ''/a/b/c'') (sample_uri ''/a/b/e:f'')) = None \<and>
     u_path (relativize (sample_uri ''/a/b/c'') (sample_uri ''/a/b/e:f'')) = lit ''./e:f''"
proof -
  have chars: "uri_wf (sample_uri ''/a/b/e:f'')"
    by (simp add: sample_uri_def uri_wf_def is_uri_char_def is_ascii_alphanumeric_def is_ascii_alphabetic_def
        to_ascii_lower_def)
  have m: "merge (sample_uri ''/a/b/c'') [SLASH] = lit ''/a/b//''"
    by (simp add: sample_uri_def merge_def upto_last_def)
  have "resolve_uri (sample_uri ''/a/b/c'') (relativize (sample_uri ''/a/b/c'') (sample_uri ''/a/b/e:f'')) = sample_uri ''/a/b/e:f'' \<and>
     u_scheme (relativize (sample_uri ''/a/b/c'') (sample_uri ''/a/b/e:f'')) = None"
    using relativize_spec [OF chars _ _ _ _ _ refl, of "sample_uri ''/a/b/c''"] m
    by (simp add: sample_uri_def hierarchical_def dot_free_def is_dot_def)
  moreover have "u_path (relativize (sample_uri ''/a/b/c'') (sample_uri ''/a/b/e:f'')) = lit ''./e:f''"
    by (simp add: sample_uri_def relativize_def relative_path_def dir_segments_def path_segments_def resolve_uri_def merge_def
        upto_last_def remove_dot_segments_eq' dots_removed_def is_dot_def Let_def starts_with_def)
  ultimately show ?thesis by simp
qed

end
