(* ===== verification/Config.thy ===== *)
theory Config
  imports Prelude
begin

text \<open>
  The settings of a parser, \<open>io/parse/config.rs\<close>: the extensions, the three groups of limits, and
  their defaults. A limit is \<open>Some n\<close>, or \<open>None\<close> where there is none.
\<close>

record extensions =
  ext_xml_base :: bool
  ext_xml_id :: bool

definition extensions_default :: extensions where
  "extensions_default = \<lparr>ext_xml_base = True, ext_xml_id = True\<rparr>"

definition extensions_none :: extensions where
  "extensions_none = \<lparr>ext_xml_base = False, ext_xml_id = False\<rparr>"

record token_limits =
  max_reference :: "nat option"
  max_comment :: "nat option"
  max_cdata :: "nat option"
  max_pi :: "nat option"
  max_tag :: "nat option"
  max_doctype :: "nat option"

definition token_limits_default :: token_limits where
  "token_limits_default =
     \<lparr>max_reference = Some 1024, max_comment = Some (1024 * 1024), max_cdata = Some (16 * 1024 * 1024),
      max_pi = Some (64 * 1024), max_tag = Some (1024 * 1024), max_doctype = Some (256 * 1024)\<rparr>"

definition token_limits_unlimited :: token_limits where
  "token_limits_unlimited =
     \<lparr>max_reference = None, max_comment = None, max_cdata = None, max_pi = None, max_tag = None,
      max_doctype = None\<rparr>"

record entity_limits =
  max_depth :: "nat option"
  max_expansions :: "nat option"
  max_expansion_chars :: "nat option"

definition entity_limits_default :: entity_limits where
  "entity_limits_default =
     \<lparr>max_depth = Some 64, max_expansions = Some 100000, max_expansion_chars = Some (64 * 1024 * 1024)\<rparr>"

definition entity_limits_unlimited :: entity_limits where
  "entity_limits_unlimited = \<lparr>max_depth = None, max_expansions = None, max_expansion_chars = None\<rparr>"

record document_limits =
  max_element_depth :: "nat option"
  max_attributes :: "nat option"

definition document_limits_default :: document_limits where
  "document_limits_default = \<lparr>max_element_depth = Some 1024, max_attributes = Some 1024\<rparr>"

definition document_limits_unlimited :: document_limits where
  "document_limits_unlimited = \<lparr>max_element_depth = None, max_attributes = None\<rparr>"

record limits =
  lim_tokens :: token_limits
  lim_entities :: entity_limits
  lim_document :: document_limits

definition limits_unlimited :: limits where
  "limits_unlimited =
     \<lparr>lim_tokens = token_limits_unlimited, lim_entities = entity_limits_unlimited,
      lim_document = document_limits_unlimited\<rparr>"

record parser_config =
  pc_extensions :: extensions
  pc_limits :: limits
  pc_text_fragment_len :: nat

definition parser_config_default :: parser_config where
  "parser_config_default =
     \<lparr>pc_extensions = extensions_default,
      pc_limits = \<lparr>lim_tokens = token_limits_default, lim_entities = entity_limits_default,
        lim_document = document_limits_default\<rparr>,
      pc_text_fragment_len = 8 * 1024\<rparr>"

end
