(* ===== verification/Scan.thy ===== *)
theory Scan
  imports Chars Config
begin

text \<open>
  Token boundaries, \<open>io/parse/scan.rs\<close>. The scanner looks at the text that is left, says which token
  or reference stands at its start and how many bytes it takes, or that more input is needed, and
  keeps no state.

  Lengths are in bytes, as in the code. The text before every position the code slices at is either
  a delimiter of ASCII characters or a part of the text itself, so a slice is a \<open>drop\<close> of characters.
\<close>

datatype token_kind =
  XmlDeclaration | Doctype | StartElement | EndElement | Text | CData | Comment | ProcessingInstruction

datatype scanned = Found token_kind nat | Reference nat | Pending

fun limit_of :: "token_kind \<Rightarrow> token_limits \<Rightarrow> nat option" where
  "limit_of Comment b = max_comment b"
| "limit_of CData b = max_cdata b"
| "limit_of ProcessingInstruction b = max_pi b"
| "limit_of XmlDeclaration b = max_pi b"
| "limit_of StartElement b = max_tag b"
| "limit_of EndElement b = max_tag b"
| "limit_of Doctype b = max_doctype b"
| "limit_of Text b = None"

definition within :: "scanned \<Rightarrow> nat option \<Rightarrow> ustring \<Rightarrow> scanned result" where
  "within s limit rest =
     (case limit of
        None \<Rightarrow> Inr s
      | Some m \<Rightarrow> if s = Pending \<and> byte_len rest > m then Inl WellFormedness else Inr s)"

definition bounded :: "scanned result \<Rightarrow> token_kind \<Rightarrow> ustring \<Rightarrow> token_limits \<Rightarrow> scanned result" where
  "bounded r k rest b = (case r of Inl e \<Rightarrow> Inl e | Inr s \<Rightarrow> within s (limit_of k b) rest)"

definition bounded_reference :: "scanned result \<Rightarrow> ustring \<Rightarrow> token_limits \<Rightarrow> scanned result" where
  "bounded_reference r rest b = (case r of Inl e \<Rightarrow> Inl e | Inr s \<Rightarrow> within s (max_reference b) rest)"

definition incomplete :: "bool \<Rightarrow> scanned result" where
  "incomplete complete = (if complete then Inl WellFormedness else Inr Pending)"

definition delimited :: "ustring \<Rightarrow> token_kind \<Rightarrow> nat \<Rightarrow> ustring \<Rightarrow> bool \<Rightarrow> scanned result" where
  "delimited rest k start terminator complete =
     (if byte_len rest \<le> start then incomplete complete
      else case find_sub terminator (drop start rest) of
             Some i \<Rightarrow> Inr (Found k (start + byte_len (take i (drop start rest)) + byte_len terminator))
           | None \<Rightarrow> if complete then Inl WellFormedness else Inr Pending)"

text \<open>The loop over the characters after the first, with the byte index of the next one.\<close>

fun start_tag_loop :: "nat \<Rightarrow> uchar option \<Rightarrow> bool \<Rightarrow> ustring \<Rightarrow> scanned result" where
  "start_tag_loop i quote complete [] = incomplete complete"
| "start_tag_loop i (Some q) complete (c # s) =
     start_tag_loop (i + utf8_len c) (if c = q then None else Some q) complete s"
| "start_tag_loop i None complete (c # s) =
     (if c = QUOT \<or> c = APOS then start_tag_loop (i + utf8_len c) (Some c) complete s
      else if c = GT then Inr (Found StartElement (i + 1))
      else if c = LT then Inl WellFormedness
      else start_tag_loop (i + utf8_len c) None complete s)"

definition scan_start_tag :: "ustring \<Rightarrow> bool \<Rightarrow> scanned result" where
  "scan_start_tag rest complete = start_tag_loop (byte_len (take 1 rest)) None complete (drop 1 rest)"

fun reference_loop :: "nat \<Rightarrow> bool \<Rightarrow> ustring \<Rightarrow> scanned result" where
  "reference_loop i complete [] = (if complete then Inl WellFormedness else Inr Pending)"
| "reference_loop i complete (c # s) =
     (if c = SEMI then Inr (Reference (i + 1))
      else if c = LT \<or> c = AMP \<or> is_whitespace c then Inl WellFormedness
      else reference_loop (i + utf8_len c) complete s)"

definition scan_reference :: "ustring \<Rightarrow> bool \<Rightarrow> scanned result" where
  "scan_reference rest complete = reference_loop (byte_len (take 1 rest)) complete (drop 1 rest)"

text \<open>
  \<open>scan_doctype\<close>: how far the text skips when it stands at a comment or a processing instruction, as a
  number of characters; to the end when it is not closed.
\<close>

definition skip_to :: "ustring \<Rightarrow> ustring \<Rightarrow> nat" where
  "skip_to terminator after =
     (case find_sub terminator after of None \<Rightarrow> length after | Some j \<Rightarrow> j + length terminator)"

definition doctype_skip :: "ustring \<Rightarrow> nat option" where
  "doctype_skip tail =
     (case strip_prefix (lit ''<!--'') tail of
        Some after \<Rightarrow> Some (4 + skip_to (lit ''-->'') after)
      | None \<Rightarrow>
          (case strip_prefix (lit ''<?'') tail of
             Some after \<Rightarrow> Some (2 + skip_to (lit ''?>'') after)
           | None \<Rightarrow> None))"

lemma doctype_skip_pos: "doctype_skip s = Some n \<Longrightarrow> 0 < n \<and> s \<noteq> []"
  by (cases s) (auto simp: doctype_skip_def split: option.splits if_splits)

function doctype_loop :: "nat \<Rightarrow> uchar option \<Rightarrow> nat \<Rightarrow> ustring \<Rightarrow> nat option" where
  "doctype_loop i quote depth tail =
     (case (if quote = None then doctype_skip tail else None) of
        Some n \<Rightarrow> doctype_loop (i + byte_len (take n tail)) quote depth (drop n tail)
      | None \<Rightarrow>
          (case tail of [] \<Rightarrow> None
           | c # s \<Rightarrow>
               (case quote of
                  Some q \<Rightarrow> doctype_loop (i + utf8_len c) (if c = q then None else Some q) depth s
                | None \<Rightarrow>
                    if c = QUOT \<or> c = APOS then doctype_loop (i + utf8_len c) (Some c) depth s
                    else if c = cp CHR ''['' then doctype_loop (i + utf8_len c) None (depth + 1) s
                    else if c = RBRACKET then doctype_loop (i + utf8_len c) None (depth - 1) s
                    else if c = GT \<and> depth = 0 then Some (i + 1)
                    else doctype_loop (i + utf8_len c) None depth s)))"
  by pat_completeness auto
termination
  by (relation "measure (\<lambda>(i, quote, depth, tail). length tail)")
     (auto dest!: doctype_skip_pos split: if_splits)

declare doctype_loop.simps [simp del]

definition scan_doctype :: "ustring \<Rightarrow> nat option" where
  "scan_doctype rest = doctype_loop 0 None 0 rest"

definition markup_prefixes :: "ustring list" where
  "markup_prefixes = [lit ''<!--'', lit ''<![CDATA['', lit ''<!DOCTYPE'']"

definition scan_markup_declaration :: "ustring \<Rightarrow> bool \<Rightarrow> token_limits \<Rightarrow> scanned result" where
  "scan_markup_declaration rest complete b =
     (if starts_with (lit ''<!--'') rest then
        bounded (delimited rest Comment 4 (lit ''-->'') complete) Comment rest b
      else if starts_with (lit ''<![CDATA['') rest then
        bounded (delimited rest CData 9 (lit '']]>'') complete) CData rest b
      else if starts_with (lit ''<!DOCTYPE'') rest then
        (case scan_doctype rest of
           Some len \<Rightarrow> bounded (Inr (Found Doctype len)) Doctype rest b
         | None \<Rightarrow> if complete then Inl WellFormedness else bounded (Inr Pending) Doctype rest b)
      else if \<not> complete \<and> list_ex (starts_with rest) markup_prefixes then Inr Pending
      else Inl WellFormedness)"

text \<open>
  \<open>rest.find(['<', '&'])\<close> as the run before the first of the two.
\<close>

definition text_run :: "ustring \<Rightarrow> ustring" where
  "text_run rest = takeWhile (\<lambda>c. c \<noteq> LT \<and> c \<noteq> AMP) rest"

definition text_fragment :: "ustring \<Rightarrow> scanned" where
  "text_fragment rest =
     (let held = length (takeWhile (\<lambda>c. c = RBRACKET) (take 2 (rev rest)));
          n = byte_len rest - held
      in if n = 0 then Pending else Found Text n)"

definition scan_text :: "ustring \<Rightarrow> bool \<Rightarrow> nat \<Rightarrow> scanned result" where
  "scan_text rest complete fragment_len =
     (if length (text_run rest) < length rest then
        (if text_run rest = [] then Inl Internal else Inr (Found Text (byte_len (text_run rest))))
      else if complete then Inr (Found Text (byte_len rest))
      else if fragment_len \<le> byte_len rest then Inr (text_fragment rest)
      else Inr Pending)"

definition scan :: "ustring \<Rightarrow> bool \<Rightarrow> token_limits \<Rightarrow> nat \<Rightarrow> scanned result" where
  "scan rest complete b fragment_len =
     (case rest of
        [] \<Rightarrow> Inl Internal
      | c # s \<Rightarrow>
          if c = AMP then bounded_reference (scan_reference rest complete) rest b
          else if c \<noteq> LT then scan_text rest complete fragment_len
          else (case s of
                  [] \<Rightarrow> incomplete complete
                | d # _ \<Rightarrow>
                    if d = QUESTION then
                      bounded (delimited rest ProcessingInstruction 2 (lit ''?>'') complete) ProcessingInstruction rest b
                    else if d = SLASH then
                      bounded (delimited rest EndElement 2 (lit ''>'') complete) EndElement rest b
                    else if d = cp CHR ''!'' then scan_markup_declaration rest complete b
                    else bounded (scan_start_tag rest complete) StartElement rest b))"

section \<open>What is found lies in the text\<close>

definition cut :: "ustring \<Rightarrow> nat \<Rightarrow> bool" where
  "cut s n \<longleftrightarrow> (\<exists>t r. s = t @ r \<and> t \<noteq> [] \<and> n = byte_len t)"

definition cut_at :: "uchar \<Rightarrow> ustring \<Rightarrow> nat \<Rightarrow> bool" where
  "cut_at g s n \<longleftrightarrow> (\<exists>t r. s = t @ g # r \<and> n = byte_len t + utf8_len g)"

lemma cut_at_start: "utf8_len g = n \<Longrightarrow> cut_at g (g # s) n"
  unfolding cut_at_def by (intro exI [of _ "[]"] exI [of _ s]) simp

lemma cut_at_Cons: "cut_at g s n \<Longrightarrow> cut_at g (c # s) (utf8_len c + n)"
  unfolding cut_at_def by (metis append_Cons byte_len_simps(2) add.assoc)

lemma cut_at_prefix: "cut_at g s n \<Longrightarrow> cut_at g (u @ s) (byte_len u + n)"
  unfolding cut_at_def by (metis append_assoc byte_len_simps(3) add.assoc)

lemma cut_at_member: "cut_at g s n \<Longrightarrow> g \<in> set s"
  by (auto simp: cut_at_def)

lemma cut_at_cut: "cut_at g s n \<Longrightarrow> cut s n"
proof -
  assume "cut_at g s n"
  then obtain t r where "s = (t @ [g]) @ r" "n = byte_len (t @ [g])" by (auto simp: cut_at_def)
  then show ?thesis unfolding cut_def by blast
qed

lemma cutI: "t \<noteq> [] \<Longrightarrow> cut (t @ r) (byte_len t)"
  by (auto simp: cut_def)

lemma cut_Cons: "cut s n \<Longrightarrow> cut (c # s) (utf8_len c + n)"
  unfolding cut_def by (metis append_Cons byte_len_simps(2) list.distinct(1))

lemma cut_append: "cut s n \<Longrightarrow> cut (s @ t) n"
  unfolding cut_def by (metis append_assoc)

lemma cut_prefix: "cut s n \<Longrightarrow> cut (u @ s) (byte_len u + n)"
  unfolding cut_def by (metis append_assoc append_is_Nil_conv byte_len_simps(3))

fun scan_len :: "scanned \<Rightarrow> nat option" where
  "scan_len (Found k n) = Some n"
| "scan_len (Reference n) = Some n"
| "scan_len Pending = None"

lemma within_found [simp]: "scan_len s = Some n \<Longrightarrow> within s l rest = Inr s"
  by (cases s) (auto simp: within_def split: option.splits)

lemma within_Inr: "within s l rest = Inr s' \<Longrightarrow> s' = s"
  by (auto simp: within_def split: option.splits if_splits)

lemma bounded_Inr: "bounded r k rest b = Inr s \<Longrightarrow> r = Inr s"
  by (cases r) (auto simp: bounded_def dest: within_Inr)

lemma bounded_reference_Inr: "bounded_reference r rest b = Inr s \<Longrightarrow> r = Inr s"
  by (cases r) (auto simp: bounded_reference_def dest: within_Inr)

lemma bounded_found [simp]: "scan_len s = Some n \<Longrightarrow> bounded (Inr s) k rest b = Inr s"
  by (simp add: bounded_def)

lemma bounded_reference_found [simp]: "scan_len s = Some n \<Longrightarrow> bounded_reference (Inr s) rest b = Inr s"
  by (simp add: bounded_reference_def)

lemma incomplete_Inr [simp]: "incomplete c = Inr s \<longleftrightarrow> \<not> c \<and> s = Pending"
  by (auto simp: incomplete_def)

text \<open>The delimiter a search found, and the text before it.\<close>

lemma find_sub_split:
  "find_sub p s = Some i \<longleftrightarrow> (\<exists>r. s = take i s @ p @ r) \<and> i \<le> length s \<and> (\<forall>j < i. \<not> starts_with p (drop j s))"
proof
  assume f: "find_sub p s = Some i"
  from find_sub_Some_split [OF f] have "starts_with p (drop i s)" "i \<le> length s" by auto
  then show "(\<exists>r. s = take i s @ p @ r) \<and> i \<le> length s \<and> (\<forall>j < i. \<not> starts_with p (drop j s))"
    using find_sub_Some_first [OF f] by (metis append_take_drop_id starts_with_iff)
next
  assume a: "(\<exists>r. s = take i s @ p @ r) \<and> i \<le> length s \<and> (\<forall>j < i. \<not> starts_with p (drop j s))"
  then have s: "starts_with p (drop i s)" by (metis append_eq_conv_conj length_take min.absorb2 starts_with_iff)
  show "find_sub p s = Some i"
  proof (cases "find_sub p s")
    case None
    with a s show ?thesis by (auto simp: find_sub_None)
  next
    case (Some j)
    have "\<not> j < i" using a find_sub_Some_split [OF Some] by blast
    moreover have "\<not> i < j" using s find_sub_Some_first [OF Some] by blast
    ultimately show ?thesis using Some by simp
  qed
qed

lemma delimited_found:
  assumes "byte_len (take start rest) = start"
  shows "delimited rest k start term c = Inr s \<Longrightarrow> scan_len s = Some n \<Longrightarrow> term \<noteq> [] \<Longrightarrow> s = Found k n \<and> cut rest n"
proof -
  assume d: "delimited rest k start term c = Inr s" "scan_len s = Some n" "term \<noteq> []"
  then obtain i where i: "find_sub term (drop start rest) = Some i"
    "n = start + byte_len (take i (drop start rest)) + byte_len term" "s = Found k n"
    by (auto simp: delimited_def split: if_splits option.splits)
  from i(1) obtain r where r: "drop start rest = take i (drop start rest) @ term @ r"
    by (auto simp: find_sub_split)
  have e: "rest = (take start rest @ take i (drop start rest) @ term) @ r"
    by (metis append_assoc append_take_drop_id r)
  have n: "n = byte_len (take start rest @ take i (drop start rest) @ term)" using i(2) assms by simp
  have "cut rest n" unfolding n by (subst e, rule cutI) (use d(3) in simp)
  with i(3) show ?thesis by simp
qed

lemma start_tag_found:
  "start_tag_loop i q c s = Inr x \<Longrightarrow> scan_len x = Some n \<Longrightarrow>
     \<exists>m. x = Found StartElement n \<and> n = i + m \<and> cut_at GT s m"
proof (induction i q c s rule: start_tag_loop.induct)
  case (2 i q c d s)
  then show ?case by (fastforce dest: cut_at_Cons simp: add.assoc)
next
  case (3 i c d s)
  show ?case
  proof (cases "d = GT")
    case True
    have "cut_at GT (GT # s) 1" by (rule cut_at_start) (simp add: utf8_len_def)
    with True 3 show ?thesis by auto
  next
    case False
    with 3 have "\<exists>m. x = Found StartElement n \<and> n = i + utf8_len d + m \<and> cut_at GT s m"
      by (auto split: if_splits)
    then show ?thesis by (metis add.assoc cut_at_Cons)
  qed
qed simp

lemma reference_found:
  "reference_loop i c s = Inr x \<Longrightarrow> scan_len x = Some n \<Longrightarrow> \<exists>m. x = Reference n \<and> n = i + m \<and> cut_at SEMI s m"
proof (induction i c s rule: reference_loop.induct)
  case (2 i c d s)
  show ?case
  proof (cases "d = SEMI")
    case True
    have "cut_at SEMI (SEMI # s) 1" by (rule cut_at_start) (simp add: utf8_len_def)
    with True 2 show ?thesis by auto
  next
    case False
    with 2 have "\<exists>m. x = Reference n \<and> n = i + utf8_len d + m \<and> cut_at SEMI s m" by (auto split: if_splits)
    then show ?thesis by (metis add.assoc cut_at_Cons)
  qed
qed (auto split: if_splits)

lemma doctype_found: "doctype_loop i q d s = Some n \<Longrightarrow> \<exists>m. n = i + m \<and> cut_at GT s m"
proof (induction i q d s rule: doctype_loop.induct)
  case (1 i q d s)
  show ?case
  proof (cases "if q = None then doctype_skip s else None")
    case (Some m)
    then have "doctype_loop (i + byte_len (take m s)) q d (drop m s) = Some n"
      using "1.prems" by (simp add: doctype_loop.simps [of i q d s])
    from "1.IH"(6) [OF Some this] obtain k where "n = i + byte_len (take m s) + k" "cut_at GT (drop m s) k" by blast
    then show ?thesis using cut_at_prefix [of GT "drop m s" k "take m s"] by (metis add.assoc append_take_drop_id)
  next
    case None
    then obtain c r where s: "s = c # r" using "1.prems" by (cases s) (auto simp: doctype_loop.simps [of i q d "[]"])
    have step: "(\<exists>q' d'. doctype_loop (i + utf8_len c) q' d' r = Some n \<and>
        (\<exists>m. n = i + utf8_len c + m \<and> cut_at GT r m)) \<or> c = GT \<and> n = i + 1"
    proof (cases q)
      case (Some x)
      with "1.prems" None s have "doctype_loop (i + utf8_len c) (if c = x then None else Some x) d r = Some n"
        by (simp add: doctype_loop.simps [of i "Some x" d "c # r"])
      with "1.IH"(5) [OF None s Some this] show ?thesis by blast
    next
      case q: None
      note e = "1.prems" [unfolded doctype_loop.simps [of i q d s]]
      consider "c = QUOT \<or> c = APOS" | "\<not> (c = QUOT \<or> c = APOS)" "c = cp CHR ''[''"
        | "\<not> (c = QUOT \<or> c = APOS)" "c \<noteq> cp CHR ''[''" "c = RBRACKET"
        | "\<not> (c = QUOT \<or> c = APOS)" "c \<noteq> cp CHR ''[''" "c \<noteq> RBRACKET" "c = GT \<and> d = 0"
        | "\<not> (c = QUOT \<or> c = APOS)" "c \<noteq> cp CHR ''[''" "c \<noteq> RBRACKET" "\<not> (c = GT \<and> d = 0)" by blast
      then show ?thesis
      proof cases
        case 1
        with e None s q have "doctype_loop (i + utf8_len c) (Some c) d r = Some n" by auto
        with "1.IH"(1) [OF None s q 1 this] show ?thesis by blast
      next
        case 2
        with e None s q have "doctype_loop (i + utf8_len c) None (d + 1) r = Some n" by auto
        with "1.IH"(2) [OF None s q 2 this] show ?thesis by blast
      next
        case 3
        with e None s q have "doctype_loop (i + utf8_len c) None (d - 1) r = Some n" by auto
        with "1.IH"(3) [OF None s q 3 this] show ?thesis by blast
      next
        case 4
        with e None s q show ?thesis by auto
      next
        case 5
        with e None s q have "doctype_loop (i + utf8_len c) None d r = Some n" by (auto split: if_splits)
        with "1.IH"(4) [OF None s q 5 this] show ?thesis by blast
      qed
    qed
    have "cut_at GT (GT # r) 1" by (rule cut_at_start) (simp add: utf8_len_def)
    with step show ?thesis unfolding s by (metis add.assoc cut_at_Cons)
  qed
qed

section \<open>More input\<close>

lemma byte_len_take_ascii: "byte_len (take n s) = n \<Longrightarrow> n < byte_len s \<Longrightarrow> n < length s"
  by (metis leI nat_neq_iff take_all)

lemma delimited_more:
  assumes "byte_len (take start rest) = start"
    and "delimited rest k start term c = Inr s" "scan_len s = Some n"
  shows "delimited (rest @ ext) k start term c' = Inr s"
proof -
  from assms(2,3) obtain i where i: "start < byte_len rest" "find_sub term (drop start rest) = Some i"
    "s = Found k (start + byte_len (take i (drop start rest)) + byte_len term)"
    by (auto simp: delimited_def split: if_splits option.splits)
  have l: "start < length rest" using byte_len_take_ascii [OF assms(1) i(1)] .
  have "i \<le> length (drop start rest)" using find_sub_Some_split [OF i(2)] by simp
  then have "take i (drop start rest @ ext) = take i (drop start rest)" by simp
  then show ?thesis
    using i l find_sub_append [OF i(2), of ext] by (simp add: delimited_def)
qed

lemma start_tag_more:
  "start_tag_loop i q c s = Inr x \<Longrightarrow> scan_len x = Some n \<Longrightarrow> start_tag_loop i q c' (s @ ext) = Inr x"
  by (induction i q c s rule: start_tag_loop.induct) (auto split: if_splits)

lemma reference_more:
  "reference_loop i c s = Inr x \<Longrightarrow> scan_len x = Some n \<Longrightarrow> reference_loop i c' (s @ ext) = Inr x"
  by (induction i c s rule: reference_loop.induct) (auto split: if_splits)

text \<open>
  Where a comment or a processing instruction starts is settled by the text at hand unless that text
  is a proper prefix of one of their delimiters, and then it holds no \<open>>\<close>.
\<close>

lemma short_prefix:
  "starts_with p (s @ t) \<Longrightarrow> \<not> starts_with p s \<Longrightarrow> \<exists>r. p = s @ r"
  by (metis append_eq_append_conv2 starts_with_append_self starts_with_iff)

lemma doctype_skip_more:
  assumes "GT \<in> set s" "doctype_skip s = None"
  shows "doctype_skip (s @ ext) = None"
proof -
  have n: "\<not> starts_with (lit ''<!--'') s" "\<not> starts_with (lit ''<?'') s"
    using assms(2) by (auto simp: doctype_skip_def starts_with_def split: option.splits)
  have "\<not> starts_with (lit ''<!--'') (s @ ext)"
  proof
    assume "starts_with (lit ''<!--'') (s @ ext)"
    with n short_prefix obtain r where "lit ''<!--'' = s @ r" by blast
    then have "set s \<subseteq> set (lit ''<!--'')" by (metis Un_upper1 set_append)
    with assms(1) show False by auto
  qed
  moreover have "\<not> starts_with (lit ''<?'') (s @ ext)"
  proof
    assume "starts_with (lit ''<?'') (s @ ext)"
    with n short_prefix obtain r where "lit ''<?'' = s @ r" by blast
    then have "set s \<subseteq> set (lit ''<?'')" by (metis Un_upper1 set_append)
    with assms(1) show False by auto
  qed
  ultimately show ?thesis by (simp add: doctype_skip_def strip_prefix_None [THEN iffD2] del: lit_Cons)
qed

lemma skip_to_more:
  "find_sub p after \<noteq> None \<Longrightarrow> skip_to p (after @ ext) = skip_to p after"
  by (auto simp: skip_to_def find_sub_append)

lemma skip_to_closed: "skip_to p after < length after \<Longrightarrow> find_sub p after \<noteq> None"
  by (auto simp: skip_to_def split: option.splits)

lemma doctype_skip_closed:
  assumes "doctype_skip s = Some n" "n < length s"
  shows "doctype_skip (s @ ext) = Some n"
proof (cases "strip_prefix (lit ''<!--'') s")
  case (Some after)
  then have s: "s = lit ''<!--'' @ after" by (simp del: lit_Cons)
  have n: "n = 4 + skip_to (lit ''-->'') after" using assms(1) Some by (simp add: doctype_skip_def del: lit_Cons)
  with assms(2) s have "find_sub (lit ''-->'') after \<noteq> None" by (intro skip_to_closed) simp
  from skip_to_more [OF this, of ext] n s show ?thesis by (simp add: doctype_skip_def)
next
  case None
  then obtain after where a: "strip_prefix (lit ''<?'') s = Some after" "n = 2 + skip_to (lit ''?>'') after"
    using assms(1) by (auto simp: doctype_skip_def simp del: lit_Cons split: option.splits)
  then have s: "s = lit ''<?'' @ after" by (simp del: lit_Cons)
  with a(2) assms(2) have "find_sub (lit ''?>'') after \<noteq> None" by (intro skip_to_closed) simp
  from skip_to_more [OF this, of ext] a(2) s show ?thesis by (simp add: doctype_skip_def)
qed

lemma doctype_more: "doctype_loop i q d s = Some n \<Longrightarrow> doctype_loop i q d (s @ ext) = Some n"
proof (induction i q d s rule: doctype_loop.induct)
  case (1 i q d s)
  have gt: "GT \<in> set s" using doctype_found [OF "1.prems"] cut_at_member by blast
  show ?case
  proof (cases "if q = None then doctype_skip s else None")
    case (Some m)
    then have q: "q = None" and m: "doctype_skip s = Some m" by (auto split: if_splits)
    have l: "doctype_loop (i + byte_len (take m s)) q d (drop m s) = Some n"
      using "1.prems" Some by (simp add: doctype_loop.simps [of i q d s])
    then have "drop m s \<noteq> []" using doctype_found cut_at_member by fastforce
    then have "m < length s" by simp
    with doctype_skip_closed [OF m this] "1.IH"(6) [OF Some l] q show ?thesis
      by (simp add: doctype_loop.simps [of i None d "s @ ext"])
  next
    case None
    then have sk: "(if q = None then doctype_skip (s @ ext) else None) = None"
      using gt by (auto simp: doctype_skip_more)
    obtain c r where s: "s = c # r" using gt by (cases s) auto
    show ?thesis
    proof (cases q)
      case (Some x)
      with "1.prems" None s have l: "doctype_loop (i + utf8_len c) (if c = x then None else Some x) d r = Some n"
        by (simp add: doctype_loop.simps [of i "Some x" d "c # r"])
      from "1.IH"(5) [OF None s Some l] Some s show ?thesis
        by (simp add: doctype_loop.simps [of i "Some x" d "c # r @ ext"])
    next
      case q: None
      note e = "1.prems" [unfolded doctype_loop.simps [of i q d s] None]
      have e': "doctype_loop i q d (s @ ext) =
          (if c = QUOT \<or> c = APOS then doctype_loop (i + utf8_len c) (Some c) d (r @ ext)
           else if c = cp CHR ''['' then doctype_loop (i + utf8_len c) None (d + 1) (r @ ext)
           else if c = RBRACKET then doctype_loop (i + utf8_len c) None (d - 1) (r @ ext)
           else if c = GT \<and> d = 0 then Some (i + 1)
           else doctype_loop (i + utf8_len c) None d (r @ ext))"
        using sk s q by (simp add: doctype_loop.simps [of i None d "c # r @ ext"])
      consider "c = QUOT \<or> c = APOS" | "\<not> (c = QUOT \<or> c = APOS)" "c = cp CHR ''[''"
        | "\<not> (c = QUOT \<or> c = APOS)" "c \<noteq> cp CHR ''[''" "c = RBRACKET"
        | "\<not> (c = QUOT \<or> c = APOS)" "c \<noteq> cp CHR ''[''" "c \<noteq> RBRACKET" "c = GT \<and> d = 0"
        | "\<not> (c = QUOT \<or> c = APOS)" "c \<noteq> cp CHR ''[''" "c \<noteq> RBRACKET" "\<not> (c = GT \<and> d = 0)" by blast
      then show ?thesis
      proof cases
        case 1
        with e s q have "doctype_loop (i + utf8_len c) (Some c) d r = Some n" by auto
        with "1.IH"(1) [OF None s q 1 this] 1 show ?thesis unfolding e' by auto
      next
        case 2
        with e s q have "doctype_loop (i + utf8_len c) None (d + 1) r = Some n" by auto
        with "1.IH"(2) [OF None s q 2 this] 2 show ?thesis unfolding e' by auto
      next
        case 3
        with e s q have "doctype_loop (i + utf8_len c) None (d - 1) r = Some n" by auto
        with "1.IH"(3) [OF None s q 3 this] 3 show ?thesis unfolding e' by auto
      next
        case 4
        with e s q show ?thesis unfolding e' by auto
      next
        case 5
        with e s q have "doctype_loop (i + utf8_len c) None d r = Some n" by (auto split: if_splits)
        with "1.IH"(4) [OF None s q 5 this] 5 show ?thesis unfolding e' by auto
      qed
    qed
  qed
qed

text \<open>What the scanner finds, by the first characters of the text.\<close>

lemma ascii_start: "starts_with p s \<Longrightarrow> \<forall>c \<in> set p. c < 0x80 \<Longrightarrow> byte_len (take (length p) s) = length p"
  by (auto simp: starts_with_iff byte_len_ascii)

lemma markup_starts:
  "starts_with (lit ''<!--'') s \<Longrightarrow> byte_len (take 4 s) = 4"
  "starts_with (lit ''<![CDATA['') s \<Longrightarrow> byte_len (take 9 s) = 9"
  using ascii_start [of "lit ''<!--''" s] ascii_start [of "lit ''<![CDATA[''" s]
  by (simp_all add: eval_nat_numeral)

lemma markup_found:
  assumes "scan_markup_declaration rest c b = Inr s" "scan_len s = Some n"
  shows "cut rest n \<and> scan_markup_declaration (rest @ ext) c' b = Inr s \<and> (\<forall>m. s \<noteq> Found Text m)"
proof -
  note [simp del] = lit_Cons
  have l: "length (lit ''<!--'') = 4" "length (lit ''<![CDATA['') = 9" "length (lit ''<!DOCTYPE'') = 9"
    by (simp_all add: lit_Cons)
  note d = assms(1) [unfolded scan_markup_declaration_def]
  consider (comment) "starts_with (lit ''<!--'') rest"
    | (cdata) "\<not> starts_with (lit ''<!--'') rest" "starts_with (lit ''<![CDATA['') rest"
    | (doctype) "\<not> starts_with (lit ''<!--'') rest" "\<not> starts_with (lit ''<![CDATA['') rest" "starts_with (lit ''<!DOCTYPE'') rest"
    | (none) "\<not> starts_with (lit ''<!--'') rest" "\<not> starts_with (lit ''<![CDATA['') rest" "\<not> starts_with (lit ''<!DOCTYPE'') rest"
    by blast
  then show ?thesis
  proof cases
    case comment
    with d have s: "delimited rest Comment 4 (lit ''-->'') c = Inr s" by (auto dest: bounded_Inr)
    note f = delimited_found [OF markup_starts(1) [OF comment] s assms(2)]
      and m = delimited_more [OF markup_starts(1) [OF comment] s assms(2), of ext c']
    have "scan_markup_declaration (rest @ ext) c' b = Inr s"
      using m comment assms(2) starts_with_append by (auto simp: scan_markup_declaration_def)
    with f show ?thesis by (simp add: lit_Cons)
  next
    case cdata
    with d have s: "delimited rest CData 9 (lit '']]>'') c = Inr s" by (auto dest: bounded_Inr)
    note f = delimited_found [OF markup_starts(2) [OF cdata(2)] s assms(2)]
      and m = delimited_more [OF markup_starts(2) [OF cdata(2)] s assms(2), of ext c']
    have "\<not> starts_with (lit ''<!--'') (rest @ ext)"
      using cdata starts_with_length [OF cdata(2)] l starts_with_append_short [of "lit ''<!--''" rest ext] by simp
    then have "scan_markup_declaration (rest @ ext) c' b = Inr s"
      using m cdata assms(2) starts_with_append by (auto simp: scan_markup_declaration_def)
    with f show ?thesis by (simp add: lit_Cons)
  next
    case doctype
    with d assms(2) obtain k where k: "scan_doctype rest = Some k" "s = Found Doctype k"
      by (cases "scan_doctype rest") (auto split: if_splits dest!: bounded_Inr)
    have "\<not> starts_with (lit ''<!--'') (rest @ ext)" "\<not> starts_with (lit ''<![CDATA['') (rest @ ext)"
      using doctype starts_with_length [OF doctype(3)] l starts_with_append_short [of "lit ''<!--''" rest ext]
        starts_with_append_short [of "lit ''<![CDATA[''" rest ext] by simp_all
    moreover have "scan_doctype (rest @ ext) = Some k" using k(1) doctype_more by (simp add: scan_doctype_def)
    ultimately have "scan_markup_declaration (rest @ ext) c' b = Inr s"
      using k(2) doctype(3) starts_with_append assms(2) by (auto simp: scan_markup_declaration_def)
    moreover have "cut rest n" using doctype_found [of 0 None 0 rest k] k assms(2) cut_at_cut by (auto simp: scan_doctype_def)
    ultimately show ?thesis using k(2) by simp
  next
    case none
    with d assms(2) show ?thesis by (auto split: if_splits)
  qed
qed

lemma text_run_append: "rest = text_run rest @ drop (length (text_run rest)) rest"
  using append_take_drop_id [of "length (text_run rest)" rest]
  by (simp add: text_run_def takeWhile_eq_take [symmetric])

lemma byte_len_drop_ge: "length s \<le> byte_len s"
proof (induction s)
  case (Cons c s)
  have "1 \<le> utf8_len c" using utf8_len_pos [of c] by linarith
  with Cons show ?case by simp
qed simp

lemma take_while_suffix:
  "\<exists>a. s = a @ rev (takeWhile P (take n (rev s)))"
proof -
  have "rev s = takeWhile P (take n (rev s)) @ dropWhile P (take n (rev s)) @ drop n (rev s)"
    by (metis append_assoc append_take_drop_id takeWhile_dropWhile_id)
  then have "s = rev (dropWhile P (take n (rev s)) @ drop n (rev s)) @ rev (takeWhile P (take n (rev s)))"
    by (metis rev_append rev_rev_ident)
  then show ?thesis by blast
qed

lemma fragment_found:
  assumes "text_fragment rest = Found k n"
  shows "k = Text \<and> (\<exists>t h. rest = t @ h \<and> t \<noteq> [] \<and> n = byte_len t \<and>
    h = rev (takeWhile (\<lambda>c. c = RBRACKET) (take 2 (rev rest))))"
proof -
  let ?h = "rev (takeWhile (\<lambda>c. c = RBRACKET) (take 2 (rev rest)))"
  obtain t where t: "rest = t @ ?h" using take_while_suffix by blast
  have "byte_len ?h = length ?h" by (rule byte_len_ascii) (auto dest!: set_takeWhileD)
  then have n: "byte_len rest - length ?h = byte_len t" using arg_cong [OF t, of byte_len] by simp
  from assms have "n = byte_len t" "n \<noteq> 0" "k = Text"
    using n by (auto simp: text_fragment_def Let_def split: if_splits)
  with t show ?thesis by auto
qed

lemma text_found:
  assumes "scan_text rest c f = Inr s" "scan_len s = Some n" "rest \<noteq> []"
  shows "s = Found Text n \<and> cut rest n"
proof (cases "length (text_run rest) < length rest")
  case True
  with assms have "s = Found Text (byte_len (text_run rest))" "text_run rest \<noteq> []"
    by (auto simp: scan_text_def split: if_splits)
  then show ?thesis using assms(2) text_run_append cutI by (metis option.inject scan_len.simps(1))
next
  case False
  show ?thesis
  proof (cases c)
    case True
    with False assms have "s = Found Text (byte_len rest)" by (auto simp: scan_text_def)
    then show ?thesis using assms(2,3) cutI [of rest "[]"] by auto
  next
    case nc: False
    with False assms have "s = text_fragment rest" by (auto simp: scan_text_def split: if_splits)
    moreover obtain k where "text_fragment rest = Found k n"
      using calculation assms(2) by (cases s) (auto simp: text_fragment_def Let_def split: if_splits)
    ultimately show ?thesis using fragment_found cutI by metis
  qed
qed

lemma two_ascii: "c < 0x80 \<Longrightarrow> d < 0x80 \<Longrightarrow> byte_len (take 2 (c # d # r)) = 2"
  by (simp add: utf8_len_def)

lemma scan_found:
  assumes "scan rest c b f = Inr s" "scan_len s = Some n"
  shows "cut rest n \<and> ((\<forall>m. s \<noteq> Found Text m) \<longrightarrow> scan (rest @ ext) c' b f = Inr s)"
proof (cases rest)
  case Nil
  with assms show ?thesis by (simp add: scan_def)
next
  case (Cons x r)
  consider "x = AMP" | "x \<noteq> AMP" "x \<noteq> LT" | "x = LT" by auto
  then show ?thesis
  proof cases
    case 1
    with assms Cons have s: "reference_loop (byte_len (take 1 rest)) c r = Inr s"
      by (auto simp: scan_def scan_reference_def dest!: bounded_reference_Inr)
    from reference_found [OF s assms(2)] obtain m where m: "s = Reference n" "n = utf8_len x + m" "cut_at SEMI r m"
      using Cons by auto
    have "cut rest n" unfolding Cons m(2) by (rule cut_Cons [OF cut_at_cut [OF m(3)]])
    moreover have "scan (rest @ ext) c' b f = Inr s"
      using reference_more [OF s assms(2), of c' ext] 1 Cons assms(2) by (simp add: scan_def scan_reference_def)
    ultimately show ?thesis by simp
  next
    case 2
    with assms Cons have "scan_text rest c f = Inr s" by (simp add: scan_def)
    with text_found [OF this assms(2)] Cons show ?thesis by simp
  next
    case 3
    show ?thesis
    proof (cases r)
      case Nil
      with assms Cons 3 show ?thesis by (auto simp: scan_def)
    next
      case (Cons d r')
      note rest = \<open>rest = x # r\<close> [unfolded Cons]
      have two: "d < 0x80 \<Longrightarrow> byte_len (take 2 rest) = 2" unfolding rest using 3 two_ascii by simp
      consider "d = QUESTION" | "d = SLASH" | "d = cp CHR ''!''"
        | (tag) "d \<noteq> QUESTION" "d \<noteq> SLASH" "d \<noteq> cp CHR ''!''" by blast
      then show ?thesis
      proof cases
        case 1
        with assms rest 3 have s: "delimited rest ProcessingInstruction 2 (lit ''?>'') c = Inr s"
          by (auto simp: scan_def dest!: bounded_Inr)
        have e: "byte_len (take 2 rest) = 2" using two 1 by simp
        from delimited_found [OF e s assms(2)] delimited_more [OF e s assms(2), of ext c'] 1 3 assms(2) rest
        show ?thesis by (simp add: scan_def)
      next
        case 2
        with assms rest 3 have s: "delimited rest EndElement 2 (lit ''>'') c = Inr s"
          by (auto simp: scan_def dest!: bounded_Inr)
        have e: "byte_len (take 2 rest) = 2" using two 2 by simp
        from delimited_found [OF e s assms(2)] delimited_more [OF e s assms(2), of ext c'] 2 3 assms(2) rest
        show ?thesis by (simp add: scan_def)
      next
        case d: 3
        with assms rest 3 have "scan_markup_declaration rest c b = Inr s" by (simp add: scan_def)
        from markup_found [OF this assms(2), of ext c'] d 3 rest show ?thesis by (simp add: scan_def)
      next
        case tag
        with assms rest 3 have s: "start_tag_loop (byte_len (take 1 rest)) None c r = Inr s"
          by (auto simp: scan_def scan_start_tag_def Cons dest!: bounded_Inr)
        from start_tag_found [OF s assms(2)] obtain m where m: "n = utf8_len x + m" "cut_at GT r m"
          using rest by auto
        have "cut rest n" unfolding \<open>rest = x # r\<close> m(1) by (rule cut_Cons [OF cut_at_cut [OF m(2)]])
        moreover have "scan (rest @ ext) c' b f = Inr s"
          using start_tag_more [OF s assms(2), of c' ext] tag 3 rest Cons assms(2) by (simp add: scan_def scan_start_tag_def)
        ultimately show ?thesis by simp
      qed
    qed
  qed
qed

text \<open>
  C32. A token or reference the scanner reports is a non-empty start of the text, cut between
  characters: the parser always advances, and slicing at the reported length never panics.
\<close>

theorem scan_progress:
  assumes "scan rest c b f = Inr s" "scan_len s = Some n"
  shows "0 < n \<and> n \<le> byte_len rest \<and> (\<exists>t r. rest = t @ r \<and> n = byte_len t)"
proof -
  have "cut rest n" using scan_found [OF assms] by blast
  then obtain t r where t: "rest = t @ r" "t \<noteq> []" "n = byte_len t" unfolding cut_def by blast
  have "0 < n" using t(2,3) by simp
  moreover have "n \<le> byte_len rest" unfolding t(1,3) by simp
  ultimately show ?thesis using t(1,3) by blast
qed

lemma scan_progress_witness:
  "\<exists>t r. lit ''<a>x'' = t @ r \<and> 3 = byte_len t"
proof -
  have "scan (lit ''<a>x'') False token_limits_default 8192 = Inr (Found StartElement 3)"
    by (simp add: scan_def scan_start_tag_def bounded_def within_def token_limits_default_def utf8_len_def)
  from scan_progress [OF this] show ?thesis by simp
qed

text \<open>
  C11. What is found does not depend on how the input is cut into pieces: a markup token or reference
  found in the text at hand is found the same, whatever text comes after it and whether or not that
  is the end of the entity.
\<close>

theorem scan_stable:
  assumes "scan rest c b f = Inr s" "scan_len s = Some n" "\<forall>m. s \<noteq> Found Text m"
  shows "scan (rest @ ext) c' b f = Inr s"
  using scan_found [OF assms(1,2)] assms(3) by blast

lemma scan_stable_witness:
  "scan (lit ''<a>'' @ lit ''<b'') True token_limits_default 8192 = Inr (Found StartElement 3)"
proof -
  have "scan (lit ''<a>'') False token_limits_default 8192 = Inr (Found StartElement 3)"
    by (simp add: scan_def scan_start_tag_def bounded_def within_def token_limits_default_def utf8_len_def)
  from scan_stable [OF this, of 3] show ?thesis by simp
qed

section \<open>The end of the entity\<close>

lemma start_tag_complete: "start_tag_loop i q True s \<noteq> Inr Pending"
  by (induction i q True s rule: start_tag_loop.induct) simp_all

lemma reference_complete: "reference_loop i True s \<noteq> Inr Pending"
  by (induction i True s rule: reference_loop.induct) simp_all

lemma delimited_complete: "delimited rest k start term True \<noteq> Inr Pending"
  by (simp add: delimited_def split: option.splits)

lemma bounded_complete: "r \<noteq> Inr Pending \<Longrightarrow> bounded r k rest b \<noteq> Inr Pending"
  using bounded_Inr by blast

text \<open>
  C33. At the end of an entity the scanner always decides: it reports what stands there or an error,
  and never asks for input that cannot come.
\<close>

theorem scan_complete_decides: "scan rest True b f \<noteq> Inr Pending"
proof -
  have "scan_markup_declaration rest True b \<noteq> Inr Pending"
    by (auto simp: scan_markup_declaration_def delimited_complete bounded_complete split: option.splits)
  moreover have "bounded_reference (scan_reference rest True) rest b \<noteq> Inr Pending"
    using bounded_reference_Inr reference_complete unfolding scan_reference_def by blast
  moreover have "scan_text rest True f \<noteq> Inr Pending" by (simp add: scan_text_def)
  moreover have "bounded (scan_start_tag rest True) StartElement rest b \<noteq> Inr Pending"
    by (rule bounded_complete) (simp add: scan_start_tag_def start_tag_complete)
  ultimately show ?thesis
    unfolding scan_def
    by (auto simp: delimited_complete bounded_complete split: list.splits)
qed

section \<open>Runs of text\<close>

definition occurs_at :: "ustring \<Rightarrow> nat \<Rightarrow> ustring \<Rightarrow> bool" where
  "occurs_at p i s \<longleftrightarrow> starts_with p (drop i s)"

lemma straddle:
  assumes "occurs_at (lit '']]>'') i (t @ u)" "i < length t" "length t < i + 3"
  shows "last t = RBRACKET \<and> (starts_with (lit '']>'') u \<or> starts_with (lit ''>'') u)"
proof -
  have d: "starts_with (lit '']]>'') (drop i t @ u)" using assms(1,2) by (simp add: occurs_at_def)
  have l: "length (drop i t) = length t - i" "drop i t \<noteq> []" "last (drop i t) = last t" using assms(2) by simp_all
  then obtain a w where w: "drop i t = a # w" by (cases "drop i t") auto
  show ?thesis
  proof (cases w)
    case Nil
    with d w l(3) show ?thesis by auto
  next
    case (Cons b w')
    with w l(1) assms(3) have "w' = []" by (cases w') auto
    with Cons d w l(3) show ?thesis by auto
  qed
qed

lemma held_brackets:
  assumes "rest = t @ h" "h = rev (takeWhile (\<lambda>c. c = RBRACKET) (take 2 (rev rest)))"
  shows "h = [] \<and> (t = [] \<or> last t \<noteq> RBRACKET) \<or> h = [RBRACKET] \<and> (t = [] \<or> last t \<noteq> RBRACKET)
    \<or> h = [RBRACKET, RBRACKET]"
proof -
  have "rev rest = rev h @ rev t" using assms(1) by simp
  then have r: "rev h = takeWhile (\<lambda>c. c = RBRACKET) (take 2 (rev h @ rev t))" using assms(2) by simp
  consider "rev t = []" | a where "rev t = [a]" | a b w where "rev t = a # b # w"
    by (metis neq_Nil_conv)
  then have "rev h = [] \<and> (t = [] \<or> last t \<noteq> RBRACKET) \<or> rev h = [RBRACKET] \<and> (t = [] \<or> last t \<noteq> RBRACKET)
    \<or> rev h = [RBRACKET, RBRACKET]"
  proof cases
    case 1
    then show ?thesis using r assms(2) by (cases "rev h"; cases "tl (rev h)") (auto split: if_splits)
  next
    case (2 a)
    then have "t = [a]" by simp
    then show ?thesis using r by (cases "rev h"; cases "tl (rev h)") (auto split: if_splits)
  next
    case (3 a b w)
    then have "last t = a" "t \<noteq> []" by (metis hd_rev list.sel(1)) (use 3 in auto)
    then show ?thesis using r 3 by (cases "rev h"; cases "tl (rev h)") (auto split: if_splits)
  qed
  moreover have "rev h = [RBRACKET, RBRACKET] \<longleftrightarrow> h = [RBRACKET, RBRACKET]"
    using rev_swap [of h "[RBRACKET, RBRACKET]"] by simp
  ultimately show ?thesis by (simp only: rev_is_Nil_conv rev_singleton_conv)
qed

lemma text_run_free: "c \<in> set (text_run s) \<Longrightarrow> c \<noteq> LT \<and> c \<noteq> AMP"
  by (auto simp: text_run_def dest: set_takeWhileD)

lemma text_run_next:
  "length (text_run s) < length s \<Longrightarrow> \<exists>c r. s = text_run s @ c # r \<and> (c = LT \<or> c = AMP)"
proof (induction s)
  case (Cons a s)
  then show ?case by (cases "a = LT \<or> a = AMP") (auto simp: text_run_def)
qed simp

text \<open>
  C34. A piece of character data reported before the end of the entity holds no markup character, and
  no \<open>]]>\<close> of the run is split by the cut: wherever \<open>]]>\<close> starts within the piece, in the text at hand
  continued in any way, it ends within the piece too. So a check of each piece on its own finds every
  \<open>]]>\<close> of the character data.
\<close>

theorem text_cut_safe:
  assumes "scan_text rest False f = Inr (Found Text n)"
  shows "\<exists>t r. rest = t @ r \<and> t \<noteq> [] \<and> n = byte_len t \<and> LT \<notin> set t \<and> AMP \<notin> set t \<and>
    (\<forall>ext i. occurs_at (lit '']]>'') i (rest @ ext) \<longrightarrow> i < length t \<longrightarrow> i + 3 \<le> length t)"
proof (cases "length (text_run rest) < length rest")
  case True
  then have n: "text_run rest \<noteq> []" "n = byte_len (text_run rest)"
    using assms by (auto simp: scan_text_def split: if_splits)
  obtain c r where r: "rest = text_run rest @ c # r" "c = LT \<or> c = AMP" using text_run_next [OF True] by blast
  have "i + 3 \<le> length (text_run rest)"
    if "occurs_at (lit '']]>'') i (rest @ ext)" "i < length (text_run rest)" for ext i
  proof (rule ccontr)
    assume "\<not> i + 3 \<le> length (text_run rest)"
    moreover have "occurs_at (lit '']]>'') i (text_run rest @ c # r @ ext)" using that(1) r(1) by (metis append_Cons append_assoc)
    ultimately show False using straddle that(2) r(2) by fastforce
  qed
  with n r(1) text_run_free [of LT rest] text_run_free [of AMP rest] show ?thesis by blast
next
  case False
  with assms have fr: "text_fragment rest = Found Text n" by (auto simp: scan_text_def split: if_splits)
  have run: "text_run rest = rest"
    using False by (metis append_take_drop_id drop_all linorder_not_less self_append_conv text_run_append)
  obtain t h where t: "rest = t @ h" "t \<noteq> []" "n = byte_len t"
    "h = rev (takeWhile (\<lambda>c. c = RBRACKET) (take 2 (rev rest)))"
    using fragment_found [OF fr] by blast
  have "i + 3 \<le> length t" if "occurs_at (lit '']]>'') i (rest @ ext)" "i < length t" for ext i
  proof (rule ccontr)
    assume a: "\<not> i + 3 \<le> length t"
    have "occurs_at (lit '']]>'') i (t @ h @ ext)" using that(1) t(1) by simp
    then have "last t = RBRACKET \<and> (starts_with (lit '']>'') (h @ ext) \<or> starts_with (lit ''>'') (h @ ext))"
      using straddle that(2) a by (meson linorder_not_le)
    with held_brackets [OF t(1,4)] t(2) show False by auto
  qed
  with t(1-3) text_run_free [of LT rest] text_run_free [of AMP rest] show ?thesis
    unfolding run by (metis UnI1 set_append)
qed

lemma text_cut_safe_witness:
  "\<exists>t r. lit ''ab]]'' = t @ r \<and> t \<noteq> [] \<and> 2 = byte_len t"
proof -
  have "scan_text (lit ''ab]]'') False 4 = Inr (Found Text 2)"
    by (simp add: scan_text_def text_run_def text_fragment_def utf8_len_def)
  from text_cut_safe [OF this] show ?thesis by blast
qed

section \<open>Start tags\<close>

text \<open>
  What may stand between the first character and the end of a start tag: characters other than
  quotes and angle brackets, and quoted strings that hold anything but their own quote.
\<close>

inductive tag_text :: "ustring \<Rightarrow> bool" where
  tag_end: "tag_text []"
| tag_char: "c \<notin> {QUOT, APOS, LT, GT} \<Longrightarrow> tag_text s \<Longrightarrow> tag_text (c # s)"
| tag_quoted: "q \<in> {QUOT, APOS} \<Longrightarrow> q \<notin> set v \<Longrightarrow> tag_text s \<Longrightarrow> tag_text (q # v @ q # s)"

lemma quoted_loop:
  "q \<notin> set v \<Longrightarrow> start_tag_loop i (Some q) c (v @ q # s) = start_tag_loop (i + byte_len v + utf8_len q) None c s"
  by (induction v arbitrary: i) (auto simp: add.assoc)

lemma tag_text_loop: "tag_text t \<Longrightarrow> start_tag_loop i None c (t @ s) = start_tag_loop (i + byte_len t) None c s"
proof (induction arbitrary: i rule: tag_text.induct)
  case (tag_quoted q v s')
  then have "start_tag_loop i None c ((q # v @ q # s') @ s) = start_tag_loop (i + utf8_len q) (Some q) c (v @ q # s' @ s)"
    by simp
  also have "\<dots> = start_tag_loop (i + utf8_len q + byte_len v + utf8_len q) None c (s' @ s)"
    using tag_quoted.hyps(2) by (rule quoted_loop)
  finally show ?case using tag_quoted.IH by (simp add: add.assoc)
qed (auto simp: add.assoc)

lemma loop_tag_text:
  "start_tag_loop i q c s = Inr (Found StartElement n) \<Longrightarrow>
     (case q of
        None \<Rightarrow> \<exists>t r. s = t @ GT # r \<and> tag_text t \<and> n = i + byte_len t + 1
      | Some x \<Rightarrow> \<exists>v t r. s = v @ x # t @ GT # r \<and> x \<notin> set v \<and> tag_text t \<and>
          n = i + byte_len v + utf8_len x + byte_len t + 1)"
proof (induction i q c s rule: start_tag_loop.induct)
  case (2 i q c d s)
  show ?case
  proof (cases "d = q")
    case True
    with 2 obtain t r where "s = t @ GT # r" "tag_text t" "n = i + utf8_len d + byte_len t + 1" by auto
    with True show ?thesis by (simp, intro exI [of _ "[]"] exI [of _ t] conjI exI [of _ r]) simp_all
  next
    case False
    with 2 obtain v t r where "s = v @ q # t @ GT # r" "q \<notin> set v" "tag_text t"
      "n = i + utf8_len d + byte_len v + utf8_len q + byte_len t + 1" by auto
    with False show ?thesis by (simp, intro exI [of _ "d # v"] exI [of _ t] conjI exI [of _ r]) simp_all
  qed
next
  case (3 i c d s)
  consider "d = QUOT \<or> d = APOS" | "d = GT" | "d = LT" | "d \<notin> {QUOT, APOS, LT, GT}" by auto
  then show ?case
  proof cases
    case 1
    then have "start_tag_loop (i + utf8_len d) (Some d) c s = Inr (Found StartElement n)" using "3.prems" by auto
    with "3.IH"(1) [OF 1 this] obtain v t r where v: "s = v @ d # t @ GT # r" "d \<notin> set v" "tag_text t"
      "n = i + utf8_len d + byte_len v + utf8_len d + byte_len t + 1" by auto
    with 1 have "tag_text (d # v @ d # t)" by (intro tag_quoted) auto
    with v show ?thesis by (simp, intro exI [of _ "d # v @ d # t"] conjI exI [of _ r]) simp_all
  next
    case 2
    with "3.prems" show ?thesis by (simp, intro exI [of _ "[]"]) (simp add: tag_end)
  next
    case 4
    then have n: "\<not> (d = QUOT \<or> d = APOS)" "d \<noteq> GT" "d \<noteq> LT" by auto
    with "3.prems" have "start_tag_loop (i + utf8_len d) None c s = Inr (Found StartElement n)" by simp
    with "3.IH"(2) [OF n this] obtain t r where t: "s = t @ GT # r" "tag_text t" "n = i + utf8_len d + byte_len t + 1" by auto
    with 4 show ?thesis by (simp, intro exI [of _ "d # t"] conjI exI [of _ r]) (simp_all add: tag_char)
  qed (use "3.prems" in simp)
qed simp_all

text \<open>
  A start tag ends at the first \<open>>\<close> outside quotes: the scanner finds one exactly when the text
  after \<open><\<close> is a run of characters and closed quoted strings without a bare angle bracket, and then
  a \<open>>\<close>; the length it reports is that of the whole tag.
\<close>

theorem scan_start_tag_iff:
  "scan_start_tag (LT # s) c = Inr (Found StartElement n) \<longleftrightarrow>
     (\<exists>t r. s = t @ GT # r \<and> tag_text t \<and> n = byte_len (LT # t @ [GT]))"
proof -
  have l: "utf8_len LT = 1" "utf8_len GT = 1" by (simp_all add: utf8_len_def)
  have "start_tag_loop 1 None c (t @ GT # r) = Inr (Found StartElement (byte_len t + 2))" if "tag_text t" for t r
    using tag_text_loop [OF that, of 1 c "GT # r"] by simp
  then show ?thesis
    using loop_tag_text [of 1 None c s n] l by (auto simp: scan_start_tag_def)
qed

section \<open>A limit depends on how the input arrives\<close>

text \<open>
  The limit on a comment is only looked at while the comment is incomplete: the same comment is
  refused when its text arrives in two pieces and accepted when it is there at once.
\<close>

lemma find_comment_end: "find_sub (lit ''-->'') (replicate k 97 @ lit ''-->'') = Some k"
  by (induction k) simp_all

lemma no_comment_end: "find_sub (lit ''-->'') (replicate k 97) = None"
  by (induction k) simp_all

lemma comment_limit_by_pieces:
  assumes "max_comment b = Some m" "m < k + 4"
  shows "scan (lit ''<!--'' @ replicate k 97) False b f = Inl WellFormedness \<and>
    scan (lit ''<!--'' @ replicate k 97 @ lit ''-->'') False b f = Inr (Found Comment (k + 7))"
proof -
  have len: "byte_len (replicate k 97) = k" by (induction k) (simp_all add: utf8_len_def)
  have d: "delimited (lit ''<!--'' @ replicate k 97) Comment 4 (lit ''-->'') False = Inr Pending"
    using no_comment_end [of k] by (simp add: delimited_def incomplete_def utf8_len_def)
  have e: "delimited (lit ''<!--'' @ replicate k 97 @ lit ''-->'') Comment 4 (lit ''-->'') False = Inr (Found Comment (k + 7))"
    using find_comment_end [of k] len by (simp add: delimited_def utf8_len_def)
  show ?thesis
    using d e assms len
    by (simp add: scan_def scan_markup_declaration_def bounded_def within_def utf8_len_def)
qed

end
