(* ===== verification/Dom_Document.thy ===== *)
theory Dom_Document
  imports Names
begin

text \<open>
  The DOM document, \<open>dom/node.rs\<close> and \<open>dom/document.rs\<close>: an arena of node slots linked by handles, and
  the operations that build, read and rearrange the tree.

  A method that takes \<open>&mut self\<close> is a function from the document to its result and the document
  after it; the document is returned changed on the error paths too, as it is in the code. Where the
  code panics the result is \<open>Panic\<close>.
\<close>

section \<open>Nodes\<close>

record node_id =
  nd_document :: nat
  nd_index :: nat

datatype node_type =
  ELEMENT_NODE | ATTRIBUTE_NODE | TEXT_NODE | CDATA_SECTION_NODE | PROCESSING_INSTRUCTION_NODE
| COMMENT_NODE | DOCUMENT_NODE | DOCUMENT_TYPE_NODE | DOCUMENT_FRAGMENT_NODE

record attr_data =
  ad_name :: qname
  ad_value :: ustring
  ad_owner :: "node_id option"
  ad_is_id :: bool

record element_data =
  ed_name :: qname
  ed_attributes :: "node_id list"
  ed_base :: "name_id option"

datatype node_data =
  Document
| DocumentType name_id "ustring option" "ustring option"
| DocumentFragment
| Element element_data
| Attribute attr_data
| Text ustring
| CdataSection ustring
| Comment ustring
| ProcessingInstruction name_id ustring

fun type_of :: "node_data \<Rightarrow> node_type" where
  "type_of Document = DOCUMENT_NODE"
| "type_of (DocumentType _ _ _) = DOCUMENT_TYPE_NODE"
| "type_of DocumentFragment = DOCUMENT_FRAGMENT_NODE"
| "type_of (Element _) = ELEMENT_NODE"
| "type_of (Attribute _) = ATTRIBUTE_NODE"
| "type_of (Text _) = TEXT_NODE"
| "type_of (CdataSection _) = CDATA_SECTION_NODE"
| "type_of (Comment _) = COMMENT_NODE"
| "type_of (ProcessingInstruction _ _) = PROCESSING_INSTRUCTION_NODE"

fun is_container :: "node_data \<Rightarrow> bool" where
  "is_container Document = True"
| "is_container DocumentFragment = True"
| "is_container (Element _) = True"
| "is_container _ = False"

fun can_be_child :: "node_data \<Rightarrow> bool" where
  "can_be_child Document = False"
| "can_be_child (Attribute _) = False"
| "can_be_child _ = True"

record node_slot =
  ns_parent :: "node_id option"
  ns_first_child :: "node_id option"
  ns_last_child :: "node_id option"
  ns_previous_sibling :: "node_id option"
  ns_next_sibling :: "node_id option"
  ns_data :: node_data

definition new_slot :: "node_data \<Rightarrow> node_slot" where
  "new_slot data =
     \<lparr>ns_parent = None, ns_first_child = None, ns_last_child = None, ns_previous_sibling = None,
      ns_next_sibling = None, ns_data = data\<rparr>"

section \<open>The document and its operations as state transformers\<close>

record document =
  d_id :: nat
  d_nodes :: "node_slot list"
  d_pool :: name_pool
  d_base :: "name_id option"

datatype fault = Exception exception_code | Panic

type_synonym 'a dom = "document \<Rightarrow> (fault + 'a) \<times> document"

definition ok :: "'a \<Rightarrow> 'a dom" where
  "ok a d = (Inr a, d)"

definition fail :: "exception_code \<Rightarrow> 'a dom" where
  "fail e d = (Inl (Exception e), d)"

definition panic :: "'a dom" where
  "panic d = (Inl Panic, d)"

text \<open>The sequencing of \<open>?\<close>: a fault ends the method, with the document as it is then.\<close>

definition andThen :: "'a dom \<Rightarrow> ('a \<Rightarrow> 'b dom) \<Rightarrow> 'b dom" where
  "andThen m f d = (case m d of (Inl e, d') \<Rightarrow> (Inl e, d') | (Inr a, d') \<Rightarrow> f a d')"

definition require :: "bool \<Rightarrow> exception_code \<Rightarrow> unit dom" where
  "require b e = (if b then ok () else fail e)"

text \<open>\<open>next_document_id\<close>: a \<open>u32\<close> counter that wraps; 0 is replaced by 1.\<close>

definition next_document_id :: "nat \<Rightarrow> nat \<times> nat" where
  "next_document_id counter = ((if counter = 0 then 1 else counter), (counter + 1) mod 2 ^ 32)"

text \<open>\<open>Document::new\<close>, with the two process-wide counters it reads; \<open>None\<close> where \<open>NamePool::new\<close> panics.\<close>

definition new_document :: "nat \<Rightarrow> nat \<Rightarrow> (document \<times> nat \<times> nat) option" where
  "new_document doc_counter pool_counter =
     (case next_document_id doc_counter of
        (i, doc_counter') \<Rightarrow>
          map_option
            (\<lambda>(pool, pool_counter').
               (\<lparr>d_id = i, d_nodes = [new_slot Document], d_pool = pool, d_base = None\<rparr>, doc_counter', pool_counter'))
            (new_pool pool_counter))"

definition document_node :: "document \<Rightarrow> node_id" where
  "document_node d = \<lparr>nd_document = d_id d, nd_index = 0\<rparr>"

definition owns_node :: "document \<Rightarrow> node_id \<Rightarrow> bool" where
  "owns_node d i \<longleftrightarrow> nd_document i = d_id d"

definition require_own :: "node_id \<Rightarrow> unit dom" where
  "require_own i d = require (owns_node d i) WRONG_DOCUMENT_ERR d"

text \<open>\<open>slot\<close> asserts ownership and indexes the arena; \<open>None\<close> is either panic.\<close>

definition slot :: "document \<Rightarrow> node_id \<Rightarrow> node_slot option" where
  "slot d i = (if owns_node d i \<and> nd_index i < length (d_nodes d) then Some (d_nodes d ! nd_index i) else None)"

definition read_slot :: "node_id \<Rightarrow> node_slot dom" where
  "read_slot i d = (case slot d i of None \<Rightarrow> panic d | Some s \<Rightarrow> ok s d)"

text \<open>\<open>self.nodes[id.index()]\<close> written through: an index out of range panics.\<close>

definition write_slot :: "node_id \<Rightarrow> (node_slot \<Rightarrow> node_slot) \<Rightarrow> unit dom" where
  "write_slot i f d =
     (if nd_index i < length (d_nodes d)
      then ok () (d\<lparr>d_nodes := (d_nodes d)[nd_index i := f (d_nodes d ! nd_index i)]\<rparr>)
      else panic d)"

definition next_node_index :: "nat \<Rightarrow> nat option" where
  "next_node_index held = (if held \<le> u32_max then Some held else None)"

definition push_node :: "node_data \<Rightarrow> node_id dom" where
  "push_node data d =
     (case next_node_index (length (d_nodes d)) of
        None \<Rightarrow> fail NOT_SUPPORTED_ERR d
      | Some index \<Rightarrow>
          ok \<lparr>nd_document = d_id d, nd_index = index\<rparr> (d\<lparr>d_nodes := d_nodes d @ [new_slot data]\<rparr>))"

definition intern_name :: "ustring \<Rightarrow> name_id dom" where
  "intern_name name d =
     (case intern (d_pool d) name of
        Inl _ \<Rightarrow> fail NOT_SUPPORTED_ERR d
      | Inr (h, p) \<Rightarrow> ok h (d\<lparr>d_pool := p\<rparr>))"

text \<open>\<open>Option::map(\<dots>).transpose()?\<close>\<close>

fun intern_option :: "ustring option \<Rightarrow> name_id option dom" where
  "intern_option None = ok None"
| "intern_option (Some s) = andThen (intern_name s) (\<lambda>h. ok (Some h))"

definition parse_qname :: "ustring \<Rightarrow> name_id option \<Rightarrow> qname dom" where
  "parse_qname qualified_name namespace =
     (case split_qname qualified_name of
        None \<Rightarrow> fail INVALID_CHARACTER_ERR
      | Some (prefix, local) \<Rightarrow>
          andThen (intern_option prefix) (\<lambda>prefix.
          andThen (intern_name local) (\<lambda>local.
          ok (qname_new prefix namespace local))))"

definition xml_prefix :: ustring where "xml_prefix = lit ''xml''"
definition xmlns_prefix :: ustring where "xmlns_prefix = lit ''xmlns''"

definition check_qname_namespace :: "ustring option \<Rightarrow> ustring \<Rightarrow> bool \<Rightarrow> unit dom" where
  "check_qname_namespace namespace qualified_name is_attribute =
     (case split_qname qualified_name of
        None \<Rightarrow> fail INVALID_CHARACTER_ERR
      | Some (prefix, _) \<Rightarrow>
          (let is_xmlns = qualified_name = xmlns_prefix \<or> prefix = Some xmlns_prefix in
           if prefix \<noteq> None \<and> namespace = None then fail NAMESPACE_ERR
           else if prefix = Some xml_prefix \<and> namespace \<noteq> Some xml_ns_uri then fail NAMESPACE_ERR
           else if is_attribute \<and> is_xmlns \<and> namespace \<noteq> Some xmlns_ns_uri then fail NAMESPACE_ERR
           else if is_attribute \<and> namespace = Some xmlns_ns_uri \<and> \<not> is_xmlns then fail NAMESPACE_ERR
           else ok ()))"

section \<open>Construction\<close>

definition new_element :: "qname \<Rightarrow> node_data" where
  "new_element name = Element \<lparr>ed_name = name, ed_attributes = [], ed_base = None\<rparr>"

definition create_element :: "ustring \<Rightarrow> node_id dom" where
  "create_element qualified_name =
     andThen (parse_qname qualified_name None) (\<lambda>name. push_node (new_element name))"

definition create_element_ns :: "ustring option \<Rightarrow> ustring \<Rightarrow> node_id dom" where
  "create_element_ns namespace qualified_name =
     andThen (check_qname_namespace namespace qualified_name False) (\<lambda>_.
     andThen (intern_option namespace) (\<lambda>namespace.
     andThen (parse_qname qualified_name namespace) (\<lambda>name. push_node (new_element name))))"

definition create_text_node :: "ustring \<Rightarrow> node_id dom" where
  "create_text_node data = push_node (Text data)"

definition create_comment :: "ustring \<Rightarrow> node_id dom" where
  "create_comment data = push_node (Comment data)"

definition create_cdata_section :: "ustring \<Rightarrow> node_id dom" where
  "create_cdata_section data = push_node (CdataSection data)"

definition create_processing_instruction :: "ustring \<Rightarrow> ustring \<Rightarrow> node_id dom" where
  "create_processing_instruction target data =
     (if \<not> is_name target then fail INVALID_CHARACTER_ERR
      else andThen (intern_name target) (\<lambda>t. push_node (ProcessingInstruction t data)))"

definition create_document_fragment :: "node_id dom" where
  "create_document_fragment = push_node DocumentFragment"

definition create_document_type :: "ustring \<Rightarrow> ustring option \<Rightarrow> ustring option \<Rightarrow> node_id dom" where
  "create_document_type name public_id system_id =
     (if \<not> is_name name then fail INVALID_CHARACTER_ERR
      else andThen (intern_name name) (\<lambda>n. push_node (DocumentType n public_id system_id)))"

definition new_attribute :: "qname \<Rightarrow> ustring \<Rightarrow> node_id option \<Rightarrow> node_data" where
  "new_attribute name v owner =
     Attribute \<lparr>ad_name = name, ad_value = v, ad_owner = owner, ad_is_id = False\<rparr>"

definition create_attribute :: "ustring \<Rightarrow> node_id dom" where
  "create_attribute qualified_name =
     andThen (parse_qname qualified_name None) (\<lambda>name. push_node (new_attribute name [] None))"

definition create_attribute_ns :: "ustring option \<Rightarrow> ustring \<Rightarrow> node_id dom" where
  "create_attribute_ns namespace qualified_name =
     andThen (check_qname_namespace namespace qualified_name True) (\<lambda>_.
     andThen (intern_option namespace) (\<lambda>namespace.
     andThen (parse_qname qualified_name namespace) (\<lambda>name. push_node (new_attribute name [] None))))"

section \<open>The links\<close>

definition detach :: "node_id \<Rightarrow> unit dom" where
  "detach i =
     andThen (read_slot i) (\<lambda>s.
     andThen (case ns_previous_sibling s of
                Some previous \<Rightarrow> write_slot previous (\<lambda>t. t\<lparr>ns_next_sibling := ns_next_sibling s\<rparr>)
              | None \<Rightarrow>
                  (case ns_parent s of
                     Some parent \<Rightarrow> write_slot parent (\<lambda>t. t\<lparr>ns_first_child := ns_next_sibling s\<rparr>)
                   | None \<Rightarrow> ok ())) (\<lambda>_.
     andThen (case ns_next_sibling s of
                Some nxt \<Rightarrow> write_slot nxt (\<lambda>t. t\<lparr>ns_previous_sibling := ns_previous_sibling s\<rparr>)
              | None \<Rightarrow>
                  (case ns_parent s of
                     Some parent \<Rightarrow> write_slot parent (\<lambda>t. t\<lparr>ns_last_child := ns_previous_sibling s\<rparr>)
                   | None \<Rightarrow> ok ())) (\<lambda>_.
     write_slot i (\<lambda>t. t\<lparr>ns_parent := None, ns_previous_sibling := None, ns_next_sibling := None\<rparr>))))"

text \<open>\<open>self.nodes[id.index()]\<close> read.\<close>

definition read_index :: "node_id \<Rightarrow> node_slot dom" where
  "read_index i d = (if nd_index i < length (d_nodes d) then ok (d_nodes d ! nd_index i) d else panic d)"

definition link_last :: "node_id \<Rightarrow> node_id \<Rightarrow> unit dom" where
  "link_last parent child =
     andThen (read_index parent) (\<lambda>p.
     andThen (write_slot child (\<lambda>t. t\<lparr>ns_parent := Some parent, ns_previous_sibling := ns_last_child p,
                ns_next_sibling := None\<rparr>)) (\<lambda>_.
     andThen (case ns_last_child p of
                Some previous \<Rightarrow> write_slot previous (\<lambda>t. t\<lparr>ns_next_sibling := Some child\<rparr>)
              | None \<Rightarrow> write_slot parent (\<lambda>t. t\<lparr>ns_first_child := Some child\<rparr>)) (\<lambda>_.
     write_slot parent (\<lambda>t. t\<lparr>ns_last_child := Some child\<rparr>))))"

definition link_before :: "node_id \<Rightarrow> node_id \<Rightarrow> node_id \<Rightarrow> unit dom" where
  "link_before parent child reference =
     andThen (read_index reference) (\<lambda>r.
     andThen (write_slot child (\<lambda>t. t\<lparr>ns_parent := Some parent, ns_previous_sibling := ns_previous_sibling r,
                ns_next_sibling := Some reference\<rparr>)) (\<lambda>_.
     andThen (write_slot reference (\<lambda>t. t\<lparr>ns_previous_sibling := Some child\<rparr>)) (\<lambda>_.
     (case ns_previous_sibling r of
        Some previous \<Rightarrow> write_slot previous (\<lambda>t. t\<lparr>ns_next_sibling := Some child\<rparr>)
      | None \<Rightarrow> write_slot parent (\<lambda>t. t\<lparr>ns_first_child := Some child\<rparr>)))))"

fun place :: "node_id \<Rightarrow> node_id \<Rightarrow> node_id option \<Rightarrow> unit dom" where
  "place parent child (Some reference) = link_before parent child reference"
| "place parent child None = link_last parent child"

text \<open>
  The children of a node follow the sibling links, and the ancestors the parent links; both loops
  would run for ever on links that form a cycle. They are bounded by the number of nodes, which is
  enough for a tree; running out is \<open>None\<close>.
\<close>

fun siblings_from :: "nat \<Rightarrow> document \<Rightarrow> node_id option \<Rightarrow> node_id list option" where
  "siblings_from fuel d None = Some []"
| "siblings_from 0 d (Some i) = None"
| "siblings_from (Suc fuel) d (Some i) =
     (case slot d i of
        None \<Rightarrow> None
      | Some s \<Rightarrow> map_option ((#) i) (siblings_from fuel d (ns_next_sibling s)))"

definition children :: "document \<Rightarrow> node_id \<Rightarrow> node_id list option" where
  "children d i =
     (case slot d i of
        None \<Rightarrow> None
      | Some s \<Rightarrow> siblings_from (length (d_nodes d)) d (ns_first_child s))"

definition read_children :: "node_id \<Rightarrow> node_id list dom" where
  "read_children i d = (case children d i of None \<Rightarrow> panic d | Some cs \<Rightarrow> ok cs d)"

fun ancestor_from :: "nat \<Rightarrow> document \<Rightarrow> node_id \<Rightarrow> node_id option \<Rightarrow> bool option" where
  "ancestor_from fuel d a None = Some False"
| "ancestor_from 0 d a (Some i) = None"
| "ancestor_from (Suc fuel) d a (Some i) =
     (if i = a then Some True
      else (case slot d i of None \<Rightarrow> None | Some s \<Rightarrow> ancestor_from fuel d a (ns_parent s)))"

definition is_ancestor :: "node_id \<Rightarrow> node_id \<Rightarrow> bool dom" where
  "is_ancestor a i d =
     (case ancestor_from (Suc (length (d_nodes d))) d a (Some i) of None \<Rightarrow> panic d | Some b \<Rightarrow> ok b d)"

section \<open>Insertion and removal\<close>

definition document_child_error :: "node_type \<Rightarrow> bool \<Rightarrow> bool \<Rightarrow> bool" where
  "document_child_error t has_element has_doctype \<longleftrightarrow>
     t = TEXT_NODE \<or> t = CDATA_SECTION_NODE \<or> t = ELEMENT_NODE \<and> has_element \<or>
     t = DOCUMENT_TYPE_NODE \<and> has_doctype"

definition node_type_of :: "document \<Rightarrow> node_id \<Rightarrow> node_type option" where
  "node_type_of d i = map_option (\<lambda>s. type_of (ns_data s)) (slot d i)"

definition child_of_type :: "document \<Rightarrow> node_type \<Rightarrow> node_id option option" where
  "child_of_type d t =
     map_option (find (\<lambda>c. node_type_of d c = Some t)) (children d (document_node d))"

definition document_element :: "document \<Rightarrow> node_id option option" where
  "document_element d = child_of_type d ELEMENT_NODE"

definition doctype_node :: "document \<Rightarrow> node_id option option" where
  "doctype_node d = child_of_type d DOCUMENT_TYPE_NODE"

definition read_option :: "(document \<Rightarrow> 'a option) \<Rightarrow> 'a dom" where
  "read_option f d = (case f d of None \<Rightarrow> panic d | Some a \<Rightarrow> ok a d)"

definition check_child_of_document :: "node_id \<Rightarrow> node_id \<Rightarrow> unit dom" where
  "check_child_of_document parent child =
     andThen (read_slot parent) (\<lambda>p.
     if ns_data p \<noteq> Document then ok ()
     else
       andThen (read_option document_element) (\<lambda>e.
       andThen (read_option doctype_node) (\<lambda>t.
       andThen (read_slot child) (\<lambda>c.
       require (\<not> document_child_error (type_of (ns_data c))
          (e \<noteq> None \<and> e \<noteq> Some child) (t \<noteq> None \<and> t \<noteq> Some child)) HIERARCHY_REQUEST_ERR))))"

fun fragment_loop :: "node_id list \<Rightarrow> bool \<Rightarrow> bool \<Rightarrow> unit dom" where
  "fragment_loop [] has_element has_doctype = ok ()"
| "fragment_loop (g # gs) has_element has_doctype =
     andThen (read_slot g) (\<lambda>s.
     andThen (require (\<not> document_child_error (type_of (ns_data s)) has_element has_doctype)
        HIERARCHY_REQUEST_ERR) (\<lambda>_.
     fragment_loop gs (has_element \<or> type_of (ns_data s) = ELEMENT_NODE)
       (has_doctype \<or> type_of (ns_data s) = DOCUMENT_TYPE_NODE)))"

definition check_fragment_into_document :: "node_id \<Rightarrow> node_id \<Rightarrow> unit dom" where
  "check_fragment_into_document parent fragment =
     andThen (read_slot parent) (\<lambda>p.
     if ns_data p \<noteq> Document then ok ()
     else
       andThen (read_option document_element) (\<lambda>e.
       andThen (read_option doctype_node) (\<lambda>t.
       andThen (read_children fragment) (\<lambda>gs.
       fragment_loop gs (e \<noteq> None) (t \<noteq> None)))))"

fun require_own_option :: "node_id option \<Rightarrow> unit dom" where
  "require_own_option None = ok ()"
| "require_own_option (Some i) = require_own i"

fun check_reference :: "node_id \<Rightarrow> node_id option \<Rightarrow> unit dom" where
  "check_reference parent None = ok ()"
| "check_reference parent (Some r) =
     andThen (read_slot r) (\<lambda>s. require (ns_parent s = Some parent) NOT_FOUND_ERR)"

definition check_insertion :: "node_id \<Rightarrow> node_id \<Rightarrow> node_id option \<Rightarrow> unit dom" where
  "check_insertion parent child reference =
     andThen (require_own parent) (\<lambda>_.
     andThen (require_own child) (\<lambda>_.
     andThen (require_own_option reference) (\<lambda>_.
     andThen (read_slot parent) (\<lambda>p.
     andThen (require (is_container (ns_data p)) HIERARCHY_REQUEST_ERR) (\<lambda>_.
     andThen (read_slot child) (\<lambda>c.
     andThen (require (can_be_child (ns_data c)) HIERARCHY_REQUEST_ERR) (\<lambda>_.
     andThen (if child = parent then ok True
              else if ns_first_child c \<noteq> None then is_ancestor child parent else ok False) (\<lambda>cyclic.
     andThen (require (\<not> cyclic) HIERARCHY_REQUEST_ERR) (\<lambda>_.
     andThen (check_reference parent reference) (\<lambda>_.
     if ns_data c = DocumentFragment then check_fragment_into_document parent child
     else check_child_of_document parent child))))))))))"

fun move_all :: "node_id list \<Rightarrow> node_id \<Rightarrow> node_id option \<Rightarrow> unit dom" where
  "move_all [] parent reference = ok ()"
| "move_all (g # gs) parent reference =
     andThen (detach g) (\<lambda>_. andThen (place parent g reference) (\<lambda>_. move_all gs parent reference))"

definition insert_before :: "node_id \<Rightarrow> node_id \<Rightarrow> node_id option \<Rightarrow> node_id dom" where
  "insert_before parent child reference =
     andThen (check_insertion parent child reference) (\<lambda>_.
     andThen (read_slot child) (\<lambda>c.
     if ns_data c = DocumentFragment then
       andThen (read_children child) (\<lambda>gs.
       andThen (move_all gs parent reference) (\<lambda>_. ok child))
     else
       andThen (detach child) (\<lambda>_.
       andThen (place parent child reference) (\<lambda>_. ok child))))"

definition append_child :: "node_id \<Rightarrow> node_id \<Rightarrow> node_id dom" where
  "append_child parent child = insert_before parent child None"

fun extend_text :: "ustring \<Rightarrow> node_data \<Rightarrow> node_data" where
  "extend_text data (Text existing) = Text (existing @ data)"
| "extend_text data other = other"

fun is_text :: "node_data \<Rightarrow> bool" where
  "is_text (Text _) = True"
| "is_text _ = False"

definition append_text :: "node_id \<Rightarrow> ustring \<Rightarrow> node_id dom" where
  "append_text parent data =
     andThen (require_own parent) (\<lambda>_.
     andThen (read_slot parent) (\<lambda>p.
     andThen (case ns_last_child p of
                None \<Rightarrow> ok None
              | Some l \<Rightarrow> andThen (read_index l) (\<lambda>s. ok (if is_text (ns_data s) then Some l else None))) (\<lambda>target.
     case target of
       Some l \<Rightarrow> andThen (write_slot l (\<lambda>t. t\<lparr>ns_data := extend_text data (ns_data t)\<rparr>)) (\<lambda>_. ok l)
     | None \<Rightarrow> andThen (create_text_node data) (\<lambda>node. append_child parent node))))"

definition replace_child :: "node_id \<Rightarrow> node_id \<Rightarrow> node_id \<Rightarrow> node_id dom" where
  "replace_child parent new_child old_child =
     andThen (require_own parent) (\<lambda>_.
     andThen (require_own new_child) (\<lambda>_.
     andThen (require_own old_child) (\<lambda>_.
     andThen (read_slot old_child) (\<lambda>s.
     andThen (require (ns_parent s = Some parent) NOT_FOUND_ERR) (\<lambda>_.
     andThen (insert_before parent new_child (Some old_child)) (\<lambda>_.
     andThen (detach old_child) (\<lambda>_. ok old_child)))))))"

definition remove_child :: "node_id \<Rightarrow> node_id \<Rightarrow> node_id dom" where
  "remove_child parent child =
     andThen (require_own parent) (\<lambda>_.
     andThen (require_own child) (\<lambda>_.
     andThen (read_slot child) (\<lambda>s.
     andThen (require (ns_parent s = Some parent) NOT_FOUND_ERR) (\<lambda>_.
     andThen (detach child) (\<lambda>_. ok child)))))"

end
