(* ===== verification/Links.thy ===== *)
theory Links
  imports Main "HOL-Library.Multiset"
begin

text \<open>
  Ordered forests held by links. Every node has a parent, a first and a last child, and a previous and
  a next sibling link; the children of a node are the list these links thread. The lemmas give, for
  unlinking a node and for linking one at the end or before another, the list operation it performs.
\<close>

section \<open>Neighbours in a list\<close>

definition hd_opt :: "'a list \<Rightarrow> 'a option" where
  "hd_opt xs = (case xs of [] \<Rightarrow> None | x # _ \<Rightarrow> Some x)"

definition last_opt :: "'a list \<Rightarrow> 'a option" where
  "last_opt xs = (if xs = [] then None else Some (last xs))"

lemma hd_opt_simps [simp]:
  "hd_opt [] = None" "hd_opt (x # xs) = Some x" "hd_opt xs = None \<longleftrightarrow> xs = []"
  "hd_opt (xs @ ys) = (if xs = [] then hd_opt ys else hd_opt xs)"
  by (cases xs; simp add: hd_opt_def)+

lemma last_opt_simps [simp]:
  "last_opt [] = None" "last_opt (xs @ [x]) = Some x" "last_opt xs = None \<longleftrightarrow> xs = []"
  "last_opt (xs @ ys) = (if ys = [] then last_opt xs else last_opt ys)"
  "last_opt (x # xs) = (if xs = [] then Some x else last_opt xs)"
  by (auto simp: last_opt_def)

lemma hd_opt_in: "hd_opt xs = Some x \<Longrightarrow> x \<in> set xs"
  by (cases xs) auto

lemma last_opt_in: "last_opt xs = Some x \<Longrightarrow> x \<in> set xs"
  by (auto simp: last_opt_def split: if_splits)

fun next_in :: "'a list \<Rightarrow> 'a \<Rightarrow> 'a option" where
  "next_in [] c = None"
| "next_in (x # xs) c = (if x = c then hd_opt xs else next_in xs c)"

fun prev_in :: "'a list \<Rightarrow> 'a \<Rightarrow> 'a option" where
  "prev_in [] c = None"
| "prev_in (x # xs) c = (if hd_opt xs = Some c then Some x else prev_in xs c)"

lemma next_in_notin: "c \<notin> set xs \<Longrightarrow> next_in xs c = None"
  by (induction xs) auto

lemma prev_in_notin: "c \<notin> set xs \<Longrightarrow> prev_in xs c = None"
  by (induction xs) (auto dest: hd_opt_in)

lemma next_in_left:
  "x \<in> set ys \<Longrightarrow> distinct (ys @ zs) \<Longrightarrow>
     next_in (ys @ zs) x = (if last_opt ys = Some x then hd_opt zs else next_in ys x)"
  by (induction ys) (auto simp: dest: last_opt_in)

lemma next_in_right: "x \<notin> set ys \<Longrightarrow> next_in (ys @ zs) x = next_in zs x"
  by (induction ys) auto

lemma prev_in_right:
  "x \<in> set zs \<Longrightarrow> distinct (ys @ zs) \<Longrightarrow>
     prev_in (ys @ zs) x = (if hd_opt zs = Some x then last_opt ys else prev_in zs x)"
proof (induction ys)
  case Nil
  have "hd_opt zs = Some x \<Longrightarrow> distinct zs \<Longrightarrow> prev_in zs x = None"
    by (cases zs) (auto simp: prev_in_notin dest: hd_opt_in)
  with Nil show ?case by auto
next
  case (Cons y ys)
  then show ?case by (cases ys) (auto dest: hd_opt_in)
qed

lemma prev_in_left: "x \<in> set ys \<Longrightarrow> distinct (ys @ zs) \<Longrightarrow> prev_in (ys @ zs) x = prev_in ys x"
proof (induction ys)
  case (Cons y ys)
  show ?case
  proof (cases "x \<in> set ys")
    case True
    with Cons show ?thesis by (cases ys) auto
  next
    case False
    with Cons.prems have "x = y" by simp
    with Cons.prems show ?thesis using hd_opt_in [of "ys @ zs" y] hd_opt_in [of ys y]
      by (auto simp: prev_in_notin)
  qed
qed simp

lemma next_in_mid: "c \<notin> set ys \<Longrightarrow> next_in (ys @ c # zs) c = hd_opt zs"
  by (simp add: next_in_right)

lemma prev_in_mid: "distinct (ys @ c # zs) \<Longrightarrow> prev_in (ys @ c # zs) c = last_opt ys"
  by (subst prev_in_right) auto

lemma next_in_mem: "next_in xs c = Some n \<Longrightarrow> n \<in> set xs"
  by (induction xs) (auto split: if_splits dest: hd_opt_in)

lemma prev_in_mem: "prev_in xs c = Some n \<Longrightarrow> n \<in> set xs"
  by (induction xs) (auto split: if_splits)

section \<open>Links\<close>

record 'n links =
  up :: "'n \<Rightarrow> 'n option"
  first :: "'n \<Rightarrow> 'n option"
  final :: "'n \<Rightarrow> 'n option"
  prev :: "'n \<Rightarrow> 'n option"
  nxt :: "'n \<Rightarrow> 'n option"

text \<open>The nodes, and the children list each of them has.\<close>

definition threads :: "'n set \<Rightarrow> ('n \<Rightarrow> 'n list) \<Rightarrow> 'n links \<Rightarrow> bool" where
  "threads S K l \<longleftrightarrow>
     (\<forall>p \<in> S. distinct (K p) \<and> set (K p) \<subseteq> S \<and> first l p = hd_opt (K p) \<and> final l p = last_opt (K p)) \<and>
     (\<forall>p \<in> S. \<forall>c \<in> set (K p). up l c = Some p \<and> nxt l c = next_in (K p) c \<and> prev l c = prev_in (K p) c) \<and>
     (\<forall>c \<in> S. \<forall>p. up l c = Some p \<longrightarrow> p \<in> S \<and> c \<in> set (K p)) \<and>
     (\<forall>c \<in> S. up l c = None \<longrightarrow> prev l c = None \<and> nxt l c = None)"

lemma threads_parts:
  assumes "threads S K l"
  shows "\<forall>p \<in> S. distinct (K p) \<and> set (K p) \<subseteq> S \<and> first l p = hd_opt (K p) \<and> final l p = last_opt (K p)"
    "\<forall>p \<in> S. \<forall>c \<in> set (K p). up l c = Some p \<and> nxt l c = next_in (K p) c \<and> prev l c = prev_in (K p) c"
    "\<forall>c \<in> S. \<forall>p. up l c = Some p \<longrightarrow> p \<in> S \<and> c \<in> set (K p)"
    "\<forall>c \<in> S. up l c = None \<longrightarrow> prev l c = None \<and> nxt l c = None"
  by (insert assms, unfold threads_def, (elim conjE, assumption)+)

lemma threadsD:
  assumes "threads S K l" "p \<in> S"
  shows "distinct (K p)" "set (K p) \<subseteq> S" "first l p = hd_opt (K p)" "final l p = last_opt (K p)"
    "c \<in> set (K p) \<Longrightarrow> up l c = Some p" "c \<in> set (K p) \<Longrightarrow> nxt l c = next_in (K p) c"
    "c \<in> set (K p) \<Longrightarrow> prev l c = prev_in (K p) c"
proof -
  from bspec [OF threads_parts(1) [OF assms(1)] assms(2)]
  show "distinct (K p)" "set (K p) \<subseteq> S" "first l p = hd_opt (K p)" "final l p = last_opt (K p)"
    by simp_all
  note b = bspec [OF threads_parts(2) [OF assms(1)] assms(2)]
  { assume c: "c \<in> set (K p)"
    from bspec [OF b c] show "up l c = Some p" "nxt l c = next_in (K p) c" "prev l c = prev_in (K p) c"
      by simp_all }
qed

lemma threads_up: "threads S K l \<Longrightarrow> c \<in> S \<Longrightarrow> up l c = Some p \<Longrightarrow> p \<in> S \<and> c \<in> set (K p)"
  by (drule threads_parts(3)) (drule (1) bspec, drule spec, erule (1) mp)

lemma threads_no_up: "threads S K l \<Longrightarrow> c \<in> S \<Longrightarrow> up l c = None \<Longrightarrow> prev l c = None \<and> nxt l c = None"
  by (drule threads_parts(4)) (drule (1) bspec, erule (1) mp)

lemma threads_child_iff: "threads S K l \<Longrightarrow> p \<in> S \<Longrightarrow> c \<in> set (K p) \<longleftrightarrow> c \<in> S \<and> up l c = Some p"
  by (rule iffI) (frule (2) threadsD(5), drule (1) threadsD(2), fast, elim conjE, drule (2) threads_up, erule conjunct2)

lemma threadsI:
  assumes "\<And>p. p \<in> S \<Longrightarrow> distinct (K p)" "\<And>p. p \<in> S \<Longrightarrow> set (K p) \<subseteq> S"
    "\<And>p. p \<in> S \<Longrightarrow> first l p = hd_opt (K p)" "\<And>p. p \<in> S \<Longrightarrow> final l p = last_opt (K p)"
    "\<And>p c. p \<in> S \<Longrightarrow> c \<in> set (K p) \<Longrightarrow> up l c = Some p"
    "\<And>p c. p \<in> S \<Longrightarrow> c \<in> set (K p) \<Longrightarrow> nxt l c = next_in (K p) c"
    "\<And>p c. p \<in> S \<Longrightarrow> c \<in> set (K p) \<Longrightarrow> prev l c = prev_in (K p) c"
    "\<And>c p. c \<in> S \<Longrightarrow> up l c = Some p \<Longrightarrow> p \<in> S \<and> c \<in> set (K p)"
    "\<And>c. c \<in> S \<Longrightarrow> up l c = None \<Longrightarrow> prev l c = None \<and> nxt l c = None"
  shows "threads S K l"
  using assms unfolding threads_def by blast

lemma threads_apart:
  "threads S K l \<Longrightarrow> p \<in> S \<Longrightarrow> q \<in> S \<Longrightarrow> x \<in> set (K p) \<Longrightarrow> x \<in> set (K q) \<Longrightarrow> p = q"
  using threadsD(5) [of S K l p x] threadsD(5) [of S K l q x] by simp

text \<open>Unlinking.\<close>

definition unlink :: "'n \<Rightarrow> 'n links \<Rightarrow> 'n links" where
  "unlink c l =
     \<lparr>up = (up l)(c := None),
      first = (case (prev l c, up l c) of (None, Some p) \<Rightarrow> (first l)(p := nxt l c) | _ \<Rightarrow> first l),
      final = (case (nxt l c, up l c) of (None, Some p) \<Rightarrow> (final l)(p := prev l c) | _ \<Rightarrow> final l),
      prev = (case nxt l c of Some n \<Rightarrow> (prev l)(n := prev l c) | None \<Rightarrow> prev l)(c := None),
      nxt = (case prev l c of Some v \<Rightarrow> (nxt l)(v := nxt l c) | None \<Rightarrow> nxt l)(c := None)\<rparr>"

lemma unlink_fields [simp]:
  "up (unlink c l) x = (if x = c then None else up l x)"
  "first (unlink c l) q = (if prev l c = None \<and> up l c = Some q then nxt l c else first l q)"
  "final (unlink c l) q = (if nxt l c = None \<and> up l c = Some q then prev l c else final l q)"
  "prev (unlink c l) x = (if x = c then None else if nxt l c = Some x then prev l c else prev l x)"
  "nxt (unlink c l) x = (if x = c then None else if prev l c = Some x then nxt l c else nxt l x)"
  by (simp_all add: unlink_def split: option.splits)

lemma links_eqI:
  "(\<And>x. up l x = up m x) \<Longrightarrow> (\<And>x. first l x = first m x) \<Longrightarrow> (\<And>x. final l x = final m x) \<Longrightarrow>
     (\<And>x. prev l x = prev m x) \<Longrightarrow> (\<And>x. nxt l x = nxt m x) \<Longrightarrow> l = (m :: 'n links)"
  by (cases l; cases m) (auto intro!: ext)

lemma unlink_free: "threads S K l \<Longrightarrow> c \<in> S \<Longrightarrow> up l c = None \<Longrightarrow> unlink c l = l"
  by (frule (2) threads_no_up) (intro links_eqI; simp)

lemma threads_unlink:
  assumes t: "threads S K l" and c: "c \<in> S" "up l c = Some p"
  shows "threads S (K(p := remove1 c (K p))) (unlink c l)"
proof -
  from threads_up [OF t c] have p: "p \<in> S" "c \<in> set (K p)" by auto
  then obtain ys zs where K: "K p = ys @ c # zs" by (meson split_list)
  note d = threadsD [OF t p(1)]
  have dist: "distinct (ys @ c # zs)" using d(1) K by simp
  have r: "remove1 c (K p) = ys @ zs" using dist by (simp add: K remove1_append)
  have n: "nxt l c = hd_opt zs" and v: "prev l c = last_opt ys"
    using d(6,7) [OF p(2)] dist by (simp_all add: K next_in_mid prev_in_mid)
  have mem: "x \<in> set (K p)" if "x \<in> set ys \<or> x \<in> set zs" for x using that K by auto
  have other: "x \<noteq> c" "x \<notin> set ys" "x \<notin> set zs" if "q \<in> S" "x \<in> set (K q)" "q \<noteq> p" for q x
    using threads_apart [OF t that(1) p(1) that(2)] that(3) mem p(2) by blast+
  show ?thesis
    unfolding r
  proof (rule threadsI, goal_cases)
    case (1 q)
    then show ?case using dist threadsD(1) [OF t] by auto
  next
    case (2 q)
    then show ?case using threadsD(2) [OF t] d(2) K by auto
  next
    case (3 q)
    then show ?case using threadsD(3) [OF t 3] d(3) K n v c(2) by auto
  next
    case (4 q)
    then show ?case using threadsD(4) [OF t 4] d(4) K n v c(2) by auto
  next
    case (5 q x)
    show ?case
    proof (cases "q = p")
      case True
      with 5 have "x \<in> set ys \<or> x \<in> set zs" by simp
      then show ?thesis using d(5) [OF mem] dist True by auto
    next
      case False
      with 5 other(1) [OF 5(1)] threadsD(5) [OF t 5(1)] show ?thesis by simp
    qed
  next
    case (6 q x)
    show ?case
    proof (cases "q = p")
      case False
      with 6 have x: "x \<in> set (K q)" by simp
      note o = other [OF 6(1) x False]
      have "last_opt ys \<noteq> Some x" using o last_opt_in by fast
      with o v threadsD(6) [OF t 6(1) x] False show ?thesis by simp
    next
      case True
      with 6 have x: "x \<in> set ys \<or> x \<in> set zs" by simp
      have nx: "nxt l x = next_in (ys @ c # zs) x" using d(6) [OF mem [OF x]] K by simp
      have xc: "x \<noteq> c" using x dist by auto
      show ?thesis
      proof (cases "x \<in> set ys")
        case xy: True
        have "next_in (ys @ c # zs) x = (if last_opt ys = Some x then Some c else next_in ys x)"
          "next_in (ys @ zs) x = (if last_opt ys = Some x then hd_opt zs else next_in ys x)"
          using next_in_left [OF xy, of "c # zs"] next_in_left [OF xy, of zs] dist by auto
        with nx n v xc True show ?thesis by simp
      next
        case False
        then have "last_opt ys \<noteq> Some x" using last_opt_in by fast
        with False nx n v xc True show ?thesis by (simp add: next_in_right)
      qed
    qed
  next
    case (7 q x)
    show ?case
    proof (cases "q = p")
      case False
      with 7 have x: "x \<in> set (K q)" by simp
      note o = other [OF 7(1) x False]
      have "hd_opt zs \<noteq> Some x" using o hd_opt_in by fast
      with o n threadsD(7) [OF t 7(1) x] False show ?thesis by simp
    next
      case True
      with 7 have x: "x \<in> set ys \<or> x \<in> set zs" by simp
      have px: "prev l x = prev_in (ys @ c # zs) x" using d(7) [OF mem [OF x]] K by simp
      have xc: "x \<noteq> c" using x dist by auto
      show ?thesis
      proof (cases "x \<in> set zs")
        case xz: True
        have "prev_in (ys @ c # zs) x = (if hd_opt zs = Some x then Some c else prev_in zs x)"
          "prev_in (ys @ zs) x = (if hd_opt zs = Some x then last_opt ys else prev_in zs x)"
          using prev_in_right [of x "c # zs" ys] prev_in_right [OF xz, of ys] dist xz xc by auto
        with px n v xc True show ?thesis by simp
      next
        case False
        with x have xy: "x \<in> set ys" by simp
        have "hd_opt zs \<noteq> Some x" using False hd_opt_in by fast
        with px n v xc True prev_in_left [OF xy, of "c # zs"] prev_in_left [OF xy, of zs] dist show ?thesis by simp
      qed
    qed
  next
    case (8 x q)
    then have "x \<noteq> c" "up l x = Some q" by (auto split: if_splits)
    with threads_up [OF t 8(1)] K show ?case by auto
  next
    case (9 x)
    show ?case
    proof (cases "x = c")
      case False
      with 9 have u: "up l x = None" by simp
      then have "x \<notin> set ys" "x \<notin> set zs" using d(5) mem by fastforce+
      then have "last_opt ys \<noteq> Some x" "hd_opt zs \<noteq> Some x" using last_opt_in hd_opt_in by fast+
      with threads_no_up [OF t 9(1) u] n v show ?thesis by simp
    qed simp
  qed
qed

text \<open>Linking a free node at the end of a children list.\<close>

definition link_end :: "'n \<Rightarrow> 'n \<Rightarrow> 'n links \<Rightarrow> 'n links" where
  "link_end p c l =
     \<lparr>up = (up l)(c := Some p),
      first = (if final l p = None then (first l)(p := Some c) else first l),
      final = (final l)(p := Some c),
      prev = (prev l)(c := final l p),
      nxt = (case final l p of Some v \<Rightarrow> ((nxt l)(c := None))(v := Some c) | None \<Rightarrow> (nxt l)(c := None))\<rparr>"

lemma link_end_fields [simp]:
  "up (link_end p c l) x = (if x = c then Some p else up l x)"
  "first (link_end p c l) q = (if final l p = None \<and> q = p then Some c else first l q)"
  "final (link_end p c l) q = (if q = p then Some c else final l q)"
  "prev (link_end p c l) x = (if x = c then final l p else prev l x)"
  "nxt (link_end p c l) x = (if final l p = Some x then Some c else if x = c then None else nxt l x)"
  by (simp_all add: link_end_def split: option.splits)

lemma threads_link_end:
  assumes t: "threads S K l" and c: "c \<in> S" "up l c = None" and p: "p \<in> S"
  shows "threads S (K(p := K p @ [c])) (link_end p c l)"
proof -
  note d = threadsD [OF t p]
  have nc: "c \<notin> set (K q)" if "q \<in> S" for q using threadsD(5) [OF t that] c(2) by fastforce
  note free = threads_no_up [OF t c]
  show ?thesis
  proof (rule threadsI, goal_cases)
    case (1 q)
    then show ?case using d(1) nc [OF p] threadsD(1) [OF t] by auto
  next
    case (2 q)
    then show ?case using d(2) c(1) threadsD(2) [OF t] by auto
  next
    case (3 q)
    then show ?case using d(3,4) threadsD(3) [OF t 3] by auto
  next
    case (4 q)
    then show ?case using threadsD(4) [OF t 4] by auto
  next
    case (5 q x)
    then show ?case using d(5) [of x] threadsD(5) [OF t 5(1), of x] nc [OF 5(1)] by (auto split: if_splits)
  next
    case (6 q x)
    show ?case
    proof (cases "q = p")
      case True
      show ?thesis
      proof (cases "x = c")
        case xc: True
        have "last_opt (K p) \<noteq> Some c" using nc [OF p] last_opt_in by fast
        with xc True d(4) nc [OF p] show ?thesis by (simp add: next_in_right)
      next
        case False
        with 6 True have x: "x \<in> set (K p)" by simp
        have "next_in (K p @ [c]) x = (if last_opt (K p) = Some x then Some c else next_in (K p) x)"
          using next_in_left [OF x, of "[c]"] d(1) nc [OF p] by simp
        with False True d(4) d(6) [OF x] show ?thesis by simp
      qed
    next
      case False
      with 6 have x: "x \<in> set (K q)" by simp
      have "x \<notin> set (K p)" using threads_apart [OF t 6(1) p x] False by blast
      then have "last_opt (K p) \<noteq> Some x" using last_opt_in by fast
      with False d(4) threadsD(6) [OF t 6(1) x] nc [OF 6(1)] x show ?thesis by auto
    qed
  next
    case (7 q x)
    show ?case
    proof (cases "q = p")
      case True
      show ?thesis
      proof (cases "x = c")
        case xc: True
        with True d(1,4) nc [OF p] prev_in_mid [of "K p" c "[]"] show ?thesis by simp
      next
        case False
        with 7 True have x: "x \<in> set (K p)" by simp
        with False True d(1) d(7) [OF x] nc [OF p] prev_in_left [OF x, of "[c]"] show ?thesis by simp
      qed
    next
      case False
      with 7 have x: "x \<in> set (K q)" by simp
      with False threadsD(7) [OF t 7(1) x] nc [OF 7(1)] show ?thesis by auto
    qed
  next
    case (8 x q)
    then show ?case using threads_up [OF t 8(1), of q] p by (auto split: if_splits)
  next
    case (9 x)
    then have u: "up l x = None" "x \<noteq> c" by (auto split: if_splits)
    have "last_opt (K p) \<noteq> Some x" using u(1) d(5) last_opt_in by fastforce
    with u d(4) threads_no_up [OF t 9(1) u(1)] show ?case by simp
  qed
qed

text \<open>Linking a free node before another.\<close>

definition link_at :: "'n \<Rightarrow> 'n \<Rightarrow> 'n \<Rightarrow> 'n links \<Rightarrow> 'n links" where
  "link_at p c r l =
     \<lparr>up = (up l)(c := Some p),
      first = (if prev l r = None then (first l)(p := Some c) else first l),
      final = final l,
      prev = ((prev l)(c := prev l r))(r := Some c),
      nxt = (case prev l r of Some v \<Rightarrow> ((nxt l)(c := Some r))(v := Some c) | None \<Rightarrow> (nxt l)(c := Some r))\<rparr>"

lemma link_at_fields [simp]:
  "up (link_at p c r l) x = (if x = c then Some p else up l x)"
  "first (link_at p c r l) q = (if prev l r = None \<and> q = p then Some c else first l q)"
  "final (link_at p c r l) q = final l q"
  "prev (link_at p c r l) x = (if x = r then Some c else if x = c then prev l r else prev l x)"
  "nxt (link_at p c r l) x = (if prev l r = Some x then Some c else if x = c then Some r else nxt l x)"
  by (simp_all add: link_at_def split: option.splits)

definition insert_at :: "'n \<Rightarrow> 'n \<Rightarrow> 'n list \<Rightarrow> 'n list" where
  "insert_at r c xs = takeWhile (\<lambda>x. x \<noteq> r) xs @ c # dropWhile (\<lambda>x. x \<noteq> r) xs"

lemma takeWhile_dropWhile_neq:
  "r \<notin> set ys \<Longrightarrow> takeWhile (\<lambda>x. x \<noteq> r) (ys @ r # zs) = ys \<and> dropWhile (\<lambda>x. x \<noteq> r) (ys @ r # zs) = r # zs"
  by (induction ys) auto

lemma insert_at_split: "r \<notin> set ys \<Longrightarrow> insert_at r c (ys @ r # zs) = ys @ c # r # zs"
  by (simp add: insert_at_def takeWhile_dropWhile_neq)

lemma set_insert_at [simp]: "set (insert_at r c xs) = insert c (set xs)"
proof -
  have "set xs = set (takeWhile (\<lambda>x. x \<noteq> r) xs @ dropWhile (\<lambda>x. x \<noteq> r) xs)" by simp
  then show ?thesis unfolding insert_at_def by (simp only: set_append list.set Un_insert_right)
qed

lemma threads_link_at:
  assumes t: "threads S K l" and c: "c \<in> S" "up l c = None" and p: "p \<in> S" "r \<in> set (K p)"
  shows "threads S (K(p := insert_at r c (K p))) (link_at p c r l)"
proof -
  note d = threadsD [OF t p(1)]
  have nc: "c \<notin> set (K q)" if "q \<in> S" for q using threadsD(5) [OF t that] c(2) by fastforce
  have rc: "r \<noteq> c" using nc [OF p(1)] p(2) by blast
  obtain ys zs where K: "K p = ys @ r # zs" using p(2) by (meson split_list)
  have dist: "distinct (ys @ r # zs)" using d(1) K by simp
  have ins: "insert_at r c (K p) = ys @ c # r # zs" using dist by (simp add: K insert_at_split)
  have cn: "c \<notin> set ys" "c \<notin> set zs" using nc [OF p(1)] K by auto
  have dist': "distinct (ys @ c # r # zs)" using dist cn rc by auto
  have v: "prev l r = last_opt ys" using d(7) [OF p(2)] dist by (simp add: K prev_in_mid)
  have vm: "x \<in> set (K p)" if "last_opt ys = Some x" for x using last_opt_in [OF that] K by simp
  show ?thesis
    unfolding ins
  proof (rule threadsI, goal_cases)
    case (1 q)
    then show ?case using dist' threadsD(1) [OF t] by auto
  next
    case (2 q)
    then show ?case using d(2) c(1) K threadsD(2) [OF t] by auto
  next
    case (3 q)
    then show ?case using d(3) K v threadsD(3) [OF t 3] by auto
  next
    case (4 q)
    then show ?case using d(4) K threadsD(4) [OF t 4] by auto
  next
    case (5 q x)
    then show ?case using d(5) [of x] K threadsD(5) [OF t 5(1), of x] nc [OF 5(1)] by (auto split: if_splits)
  next
    case (6 q x)
    show ?case
    proof (cases "q = p")
      case False
      with 6 have x: "x \<in> set (K q)" by simp
      have "x \<notin> set (K p)" using threads_apart [OF t 6(1) p(1) x] False by blast
      then have "last_opt ys \<noteq> Some x" using vm by blast
      with False v threadsD(6) [OF t 6(1) x] nc [OF 6(1)] x show ?thesis by auto
    next
      case True
      show ?thesis
      proof (cases "x = c")
        case xc: True
        have "last_opt ys \<noteq> Some c" using cn last_opt_in by fast
        with xc True v cn show ?thesis by (simp add: next_in_mid)
      next
        case False
        with 6 True have x: "x \<in> set ys \<or> x \<in> set (r # zs)" "x \<in> set (K p)" by (auto simp: K)
        note nx = d(6) [OF x(2), unfolded K]
        show ?thesis
        proof (cases "x \<in> set ys")
          case xy: True
          have "next_in (ys @ c # r # zs) x = (if last_opt ys = Some x then Some c else next_in ys x)"
            "next_in (ys @ r # zs) x = (if last_opt ys = Some x then Some r else next_in ys x)"
            using next_in_left [OF xy, of "c # r # zs"] next_in_left [OF xy, of "r # zs"] dist dist' by auto
          with nx False True v show ?thesis by simp
        next
          case xy: False
          then have "last_opt ys \<noteq> Some x" using last_opt_in by fast
          with xy nx False True v show ?thesis by (simp add: next_in_right)
        qed
      qed
    qed
  next
    case (7 q x)
    show ?case
    proof (cases "q = p")
      case False
      with 7 have x: "x \<in> set (K q)" by simp
      have "x \<notin> set (K p)" using threads_apart [OF t 7(1) p(1) x] False by blast
      then have "x \<noteq> r" using p(2) by blast
      with False threadsD(7) [OF t 7(1) x] nc [OF 7(1)] x show ?thesis by auto
    next
      case True
      show ?thesis
      proof (cases "x = c")
        case xc: True
        with True v rc dist' prev_in_mid [of ys c "r # zs"] show ?thesis by simp
      next
        case False
        show ?thesis
        proof (cases "x = r")
          case xr: True
          have "prev_in (ys @ c # r # zs) r = Some c"
            using prev_in_right [of r "c # r # zs" ys] dist' rc by simp
          with xr True show ?thesis by simp
        next
          case xr: False
          with 7 True False have x: "x \<in> set ys \<or> x \<in> set zs" "x \<in> set (K p)" by (auto simp: K)
          note px = d(7) [OF x(2), unfolded K]
          show ?thesis
          proof (cases "x \<in> set ys")
            case xy: True
            with px False xr True prev_in_left [OF xy, of "c # r # zs"] prev_in_left [OF xy, of "r # zs"] dist dist'
            show ?thesis by simp
          next
            case xy: False
            with x have xz: "x \<in> set (r # zs)" "x \<in> set (c # r # zs)" by auto
            have "prev_in (ys @ c # r # zs) x = prev_in (r # zs) x" "prev_in (ys @ r # zs) x = prev_in (r # zs) x"
              using prev_in_right [OF xz(2), of ys] prev_in_right [OF xz(1), of ys] dist dist' False xr by simp_all
            with px False xr True show ?thesis by simp
          qed
        qed
      qed
    qed
  next
    case (8 x q)
    then show ?case using threads_up [OF t 8(1), of q] p K by (auto split: if_splits)
  next
    case (9 x)
    then have u: "up l x = None" "x \<noteq> c" by (auto split: if_splits)
    have "x \<notin> set (K p)" using u(1) d(5) by fastforce
    then have "last_opt ys \<noteq> Some x" "x \<noteq> r" using vm p(2) by auto
    with u v threads_no_up [OF t 9(1) u(1)] show ?case by simp
  qed
qed

section \<open>No cycles\<close>

definition climbs :: "'n links \<Rightarrow> ('n \<times> 'n) set" where
  "climbs l = {(c, p). up l c = Some p}"

definition rooted :: "'n links \<Rightarrow> bool" where
  "rooted l \<longleftrightarrow> acyclic (climbs l)"

lemma rooted_unlink: "rooted l \<Longrightarrow> rooted (unlink c l)"
  unfolding rooted_def by (erule acyclic_subset) (auto simp: climbs_def split: if_splits)

lemma rooted_link:
  assumes "rooted l" "(p, c) \<notin> (climbs l)\<^sup>*" "\<And>x. up m x = (if x = c then Some p else up l x)"
  shows "rooted m"
proof -
  have "acyclic (insert (c, p) (climbs l))" using assms(1,2) by (simp add: rooted_def)
  moreover have "climbs m \<subseteq> insert (c, p) (climbs l)" using assms(3) by (auto simp: climbs_def split: if_splits)
  ultimately show ?thesis unfolding rooted_def by (rule acyclic_subset)
qed

lemma climbs_top: "up l c = None \<Longrightarrow> (c, a) \<in> (climbs l)\<^sup>* \<longleftrightarrow> c = a"
  by (auto simp: climbs_def elim: converse_rtranclE)

lemma climbs_step: "up l c = Some p \<Longrightarrow> (c, a) \<in> (climbs l)\<^sup>* \<longleftrightarrow> c = a \<or> (p, a) \<in> (climbs l)\<^sup>*"
  by (auto simp: climbs_def elim: converse_rtranclE intro: converse_rtrancl_into_rtrancl)

text \<open>The nodes at or above a node.\<close>

definition above :: "'n links \<Rightarrow> 'n \<Rightarrow> 'n set" where
  "above l c = {a. (c, a) \<in> (climbs l)\<^sup>*}"

lemma above_in:
  assumes "threads S K l" "c \<in> S"
  shows "above l c \<subseteq> S"
proof
  fix a
  assume "a \<in> above l c"
  then have "(c, a) \<in> (climbs l)\<^sup>*" by (simp add: above_def)
  then show "a \<in> S" proof (induction rule: rtrancl_induct)
    case (step y z)
    then show ?case using threads_up [OF assms(1) step.IH, of z] by (simp add: climbs_def)
  qed (rule assms(2))
qed

lemma above_parent:
  assumes "threads S K l" "finite S" "rooted l" "c \<in> S" "up l c = Some p"
  shows "card (above l p) < card (above l c)"
proof (rule psubset_card_mono)
  show "finite (above l c)" using above_in [OF assms(1,4)] assms(2) by (rule finite_subset)
  have "above l p \<subseteq> above l c" using climbs_step [OF assms(5)] by (auto simp: above_def)
  moreover have "c \<in> above l c" by (simp add: above_def)
  moreover have "c \<notin> above l p"
  proof
    assume "c \<in> above l p"
    then have "(p, c) \<in> (climbs l)\<^sup>*" by (simp add: above_def)
    moreover have "(c, p) \<in> climbs l" using assms(5) by (simp add: climbs_def)
    ultimately have "(c, c) \<in> (climbs l)\<^sup>+" by (rule rtrancl_into_trancl2 [rotated])
    then show False using assms(3) by (simp add: rooted_def acyclic_def)
  qed
  ultimately show "above l p \<subset> above l c" by blast
qed

text \<open>A node without children is above no other.\<close>

lemma climbs_childless:
  assumes "threads S K l" "c \<in> S" "K a = []" "a \<in> S" "(c, a) \<in> (climbs l)\<^sup>*"
  shows "c = a"
  using assms(5)
proof (cases rule: rtranclE)
  case (step b)
  have "(c, b) \<in> (climbs l)\<^sup>*" by (rule step(1))
  then have b: "b \<in> S" using above_in [OF assms(1,2)] by (auto simp: above_def)
  have "up l b = Some a" using step(2) by (simp add: climbs_def)
  with threads_up [OF assms(1) b] assms(3) show ?thesis by simp
qed simp

lemma threads_cong:
  assumes t: "threads S K l" and e: "\<And>p. p \<in> S \<Longrightarrow> K p = K' p"
  shows "threads S K' l"
proof (rule threadsI, goal_cases)
  case (8 c p)
  then show ?case using threads_up [OF t 8] e [of p] by simp
next
  case (9 c)
  then show ?case by (rule threads_no_up [OF t])
qed (use threadsD [OF t] in \<open>simp_all flip: e\<close>)

text \<open>Moving nodes into a list of children, before a node of it or at the end.\<close>

definition splice :: "'n option \<Rightarrow> 'n list \<Rightarrow> 'n list \<Rightarrow> 'n list" where
  "splice r cs xs =
     (case r of
        None \<Rightarrow> xs @ cs
      | Some r \<Rightarrow> takeWhile (\<lambda>x. x \<noteq> r) xs @ cs @ dropWhile (\<lambda>x. x \<noteq> r) xs)"

lemma splice_one: "splice None [c] xs = xs @ [c]" "splice (Some r) [c] xs = insert_at r c xs"
  by (simp_all add: splice_def insert_at_def)

lemma splice_nil [simp]: "splice r [] xs = xs"
  by (simp add: splice_def split: option.split)

lemma takeWhile_neq_append: "r \<notin> set ys \<Longrightarrow> takeWhile (\<lambda>x. x \<noteq> r) (ys @ zs) = ys @ takeWhile (\<lambda>x. x \<noteq> r) zs"
  by (induction ys) auto

lemma dropWhile_neq_append: "r \<notin> set ys \<Longrightarrow> dropWhile (\<lambda>x. x \<noteq> r) (ys @ zs) = dropWhile (\<lambda>x. x \<noteq> r) zs"
  by (induction ys) auto

lemma splice_Cons: "r \<noteq> Some c \<Longrightarrow> splice r cs (splice r [c] xs) = splice r (c # cs) xs"
proof (cases r)
  case (Some q)
  assume "r \<noteq> Some c"
  with Some have "q \<notin> set (takeWhile (\<lambda>x. x \<noteq> q) xs @ [c])" by (auto dest: set_takeWhileD)
  note a = takeWhile_neq_append [OF this] dropWhile_neq_append [OF this]
  define rest where "rest = dropWhile (\<lambda>x. x \<noteq> q) xs"
  have "rest = [] \<or> hd rest = q" using hd_dropWhile [of "\<lambda>x. x \<noteq> q" xs] by (auto simp: rest_def)
  then have "takeWhile (\<lambda>x. x \<noteq> q) rest = [] \<and> dropWhile (\<lambda>x. x \<noteq> q) rest = rest" by (cases rest) auto
  with a [of rest] Some show ?thesis by (simp add: splice_def flip: rest_def)
qed (simp add: splice_def)

lemma mset_splice: "mset (splice r cs xs) = mset cs + mset xs"
proof (cases r)
  case (Some q)
  have "mset xs = mset (takeWhile (\<lambda>x. x \<noteq> q) xs) + mset (dropWhile (\<lambda>x. x \<noteq> q) xs)"
    by (metis mset_append takeWhile_dropWhile_id)
  with Some show ?thesis by (simp add: splice_def)
qed (simp add: splice_def)

lemma set_splice [simp]: "set (splice r cs xs) = set cs \<union> set xs"
  using mset_splice [of r cs xs] by (metis set_mset_mset set_mset_union)

end
