(* ===== verification/Dom_Tree.thy ===== *)
theory Dom_Tree
  imports Dom_Document Links
begin

text \<open>
  The document as a tree: the arena of \<open>dom/document.rs\<close> is read as an ordered forest (\<open>Links\<close>), and
  every operation on it as an operation on the lists of children. \<open>tree_wf\<close> is the invariant of the
  document that the operations keep.
\<close>

section \<open>The nodes and links of a document\<close>

definition in_doc :: "document \<Rightarrow> node_id \<Rightarrow> bool" where
  "in_doc d i \<longleftrightarrow> owns_node d i \<and> nd_index i < length (d_nodes d)"

definition nodes_of :: "document \<Rightarrow> node_id set" where
  "nodes_of d = {i. in_doc d i}"

definition follow :: "(node_slot \<Rightarrow> node_id option) \<Rightarrow> document \<Rightarrow> node_id \<Rightarrow> node_id option" where
  "follow f d i = (case slot d i of None \<Rightarrow> None | Some s \<Rightarrow> f s)"

definition links_of :: "document \<Rightarrow> node_id links" where
  "links_of d =
     \<lparr>up = follow ns_parent d, first = follow ns_first_child d, final = follow ns_last_child d,
      prev = follow ns_previous_sibling d, nxt = follow ns_next_sibling d\<rparr>"

definition data_of :: "document \<Rightarrow> node_id \<Rightarrow> node_data option" where
  "data_of d i = map_option ns_data (slot d i)"

lemma mem_nodes_of [simp]: "i \<in> nodes_of d \<longleftrightarrow> in_doc d i"
  by (simp add: nodes_of_def)

lemma slot_in_doc: "slot d i = (if in_doc d i then Some (d_nodes d ! nd_index i) else None)"
  by (simp add: slot_def in_doc_def)

lemma in_doc_slot: "in_doc d i \<Longrightarrow> slot d i = Some (d_nodes d ! nd_index i)"
  by (simp add: slot_in_doc)

lemma node_id_eqI: "nd_document i = nd_document j \<Longrightarrow> nd_index i = nd_index j \<Longrightarrow> i = (j :: node_id)"
  by simp

lemma in_doc_eq: "in_doc d i \<Longrightarrow> in_doc d j \<Longrightarrow> nd_index i = nd_index j \<longleftrightarrow> i = j"
  by (auto simp: in_doc_def owns_node_def intro: node_id_eqI)

lemma finite_nodes_of [simp]: "finite (nodes_of d)"
proof (rule finite_subset)
  show "nodes_of d \<subseteq> (\<lambda>n. \<lparr>nd_document = d_id d, nd_index = n\<rparr>) ` {..<length (d_nodes d)}"
    by (auto simp: nodes_of_def in_doc_def owns_node_def intro!: image_eqI [where x = "nd_index i" for i :: node_id])
qed simp

lemma card_nodes_of [simp]: "card (nodes_of d) = length (d_nodes d)"
proof -
  have "nodes_of d = (\<lambda>n. \<lparr>nd_document = d_id d, nd_index = n\<rparr>) ` {..<length (d_nodes d)}"
    by (auto simp: nodes_of_def in_doc_def owns_node_def intro!: image_eqI [where x = "nd_index i" for i :: node_id])
  moreover have "inj_on (\<lambda>n. \<lparr>nd_document = d_id d, nd_index = n\<rparr>) {..<length (d_nodes d)}"
    by (simp add: inj_on_def)
  ultimately show ?thesis by (simp add: card_image)
qed

text \<open>A write to a node of the document.\<close>

definition upd :: "node_id \<Rightarrow> (node_slot \<Rightarrow> node_slot) \<Rightarrow> document \<Rightarrow> document" where
  "upd i f d = d\<lparr>d_nodes := (d_nodes d)[nd_index i := f (d_nodes d ! nd_index i)]\<rparr>"

lemma write_slot_in_doc: "in_doc d i \<Longrightarrow> write_slot i f d = (Inr (), upd i f d)"
  by (simp add: write_slot_def upd_def in_doc_def ok_def)

lemma upd_fields [simp]:
  "d_id (upd i f d) = d_id d" "length (d_nodes (upd i f d)) = length (d_nodes d)"
  "d_pool (upd i f d) = d_pool d" "d_base (upd i f d) = d_base d"
  "owns_node (upd i f d) = owns_node d" "in_doc (upd i f d) = in_doc d"
  by (auto simp: upd_def in_doc_def owns_node_def)

lemma slot_upd: "in_doc d i \<Longrightarrow> slot (upd i f d) j = (if j = i then map_option f (slot d i) else slot d j)"
  using in_doc_eq [of d i j] by (auto simp: slot_in_doc) (auto simp: upd_def in_doc_def nth_list_update)

lemma follow_upd: "in_doc d i \<Longrightarrow> follow g (upd i f d) j = (if j = i then g (f (d_nodes d ! nd_index i)) else follow g d j)"
  by (simp add: follow_def slot_upd in_doc_slot)

lemma follow_in_doc: "in_doc d i \<Longrightarrow> follow g d i = g (d_nodes d ! nd_index i)"
  by (simp add: follow_def in_doc_slot)

lemma links_of_fields [simp]:
  "up (links_of d) = follow ns_parent d" "first (links_of d) = follow ns_first_child d"
  "final (links_of d) = follow ns_last_child d" "prev (links_of d) = follow ns_previous_sibling d"
  "nxt (links_of d) = follow ns_next_sibling d"
  by (simp_all add: links_of_def)

text \<open>What a change of the links leaves alone.\<close>

definition relinked :: "document \<Rightarrow> document \<Rightarrow> bool" where
  "relinked d d' \<longleftrightarrow> d_id d' = d_id d \<and> length (d_nodes d') = length (d_nodes d) \<and> d_pool d' = d_pool d \<and>
     d_base d' = d_base d \<and> data_of d' = data_of d"

lemma relinked_refl [simp, intro]: "relinked d d"
  by (simp add: relinked_def)

lemma relinked_trans [trans]: "relinked a b \<Longrightarrow> relinked b c \<Longrightarrow> relinked a c"
  by (simp add: relinked_def)

lemma relinked_in_doc: "relinked d d' \<Longrightarrow> in_doc d' = in_doc d"
  by (rule ext) (simp add: relinked_def in_doc_def owns_node_def)

lemma relinked_owns: "relinked d d' \<Longrightarrow> owns_node d' = owns_node d"
  by (rule ext) (simp add: relinked_def owns_node_def)

lemma data_of_upd: "in_doc d i \<Longrightarrow> (\<And>s. ns_data (f s) = ns_data s) \<Longrightarrow> data_of (upd i f d) = data_of d"
  by (rule ext) (auto simp: data_of_def slot_upd in_doc_slot option.map_comp comp_def)

lemma relinked_upd: "in_doc d i \<Longrightarrow> (\<And>s. ns_data (f s) = ns_data s) \<Longrightarrow> relinked d (upd i f d)"
  by (simp add: relinked_def data_of_upd)

section \<open>The links the code writes\<close>

lemma andThen_simps [simp]:
  "m d = (Inl e, d') \<Longrightarrow> andThen m f d = (Inl e, d')"
  "m d = (Inr a, d') \<Longrightarrow> andThen m f d = f a d'"
  by (simp_all add: andThen_def)

lemma threads_in:
  assumes "threads (nodes_of d) K (links_of d)" "in_doc d i"
  shows "follow ns_parent d i = Some p \<Longrightarrow> in_doc d p \<and> i \<in> set (K p)"
    "follow ns_next_sibling d i = Some n \<Longrightarrow> in_doc d n \<and> follow ns_parent d i \<noteq> None"
    "follow ns_previous_sibling d i = Some v \<Longrightarrow> in_doc d v \<and> follow ns_parent d i \<noteq> None"
    "follow ns_first_child d i = Some c \<Longrightarrow> in_doc d c \<and> c \<in> set (K i)"
    "follow ns_last_child d i = Some c \<Longrightarrow> in_doc d c \<and> c \<in> set (K i)"
proof -
  note t = assms(1)
  have i: "i \<in> nodes_of d" using assms(2) by simp
  show P: "in_doc d p \<and> i \<in> set (K p)" if "follow ns_parent d i = Some p" for p
    using threads_up [OF t i] that by simp
  have free: "follow ns_parent d i = None \<Longrightarrow> follow ns_previous_sibling d i = None \<and> follow ns_next_sibling d i = None"
    using threads_no_up [OF t i] by simp
  show "in_doc d n \<and> follow ns_parent d i \<noteq> None" if n: "follow ns_next_sibling d i = Some n"
  proof (cases "follow ns_parent d i")
    case (Some p)
    with P have p: "p \<in> nodes_of d" "i \<in> set (K p)" by auto
    with threadsD(6) [OF t p] n have "next_in (K p) i = Some n" by simp
    then have "n \<in> set (K p)" by (rule next_in_mem)
    with threadsD(2) [OF t p(1)] Some show ?thesis by auto
  qed (use free n in simp)
  show "in_doc d v \<and> follow ns_parent d i \<noteq> None" if v: "follow ns_previous_sibling d i = Some v"
  proof (cases "follow ns_parent d i")
    case (Some p)
    with P have p: "p \<in> nodes_of d" "i \<in> set (K p)" by auto
    with threadsD(7) [OF t p] v have "prev_in (K p) i = Some v" by simp
    then have "v \<in> set (K p)" by (rule prev_in_mem)
    with threadsD(2) [OF t p(1)] Some show ?thesis by auto
  qed (use free v in simp)
  show "in_doc d c \<and> c \<in> set (K i)" if "follow ns_first_child d i = Some c"
    using threadsD(2,3) [OF t i] that hd_opt_in [of "K i" c] by auto
  show "in_doc d c \<and> c \<in> set (K i)" if "follow ns_last_child d i = Some c"
    using threadsD(2,4) [OF t i] that last_opt_in [of "K i" c] by auto
qed

lemma detach_unlink:
  assumes t: "threads (nodes_of d) K (links_of d)" and i: "in_doc d i"
  shows "\<exists>d'. detach i d = (Inr (), d') \<and> relinked d d' \<and> links_of d' = unlink i (links_of d)"
proof -
  define s where "s = d_nodes d ! nd_index i"
  note f = follow_in_doc [OF i, folded s_def]
  have rd: "read_slot i d = (Inr s, d)" by (simp add: read_slot_def in_doc_slot [OF i] ok_def s_def)
  define d1 where "d1 = (case ns_previous_sibling s of
      Some v \<Rightarrow> upd v (\<lambda>t. t\<lparr>ns_next_sibling := ns_next_sibling s\<rparr>) d
    | None \<Rightarrow> (case ns_parent s of Some p \<Rightarrow> upd p (\<lambda>t. t\<lparr>ns_first_child := ns_next_sibling s\<rparr>) d | None \<Rightarrow> d))"
  define d2 where "d2 = (case ns_next_sibling s of
      Some n \<Rightarrow> upd n (\<lambda>t. t\<lparr>ns_previous_sibling := ns_previous_sibling s\<rparr>) d1
    | None \<Rightarrow> (case ns_parent s of Some p \<Rightarrow> upd p (\<lambda>t. t\<lparr>ns_last_child := ns_previous_sibling s\<rparr>) d1 | None \<Rightarrow> d1))"
  define d3 where "d3 = upd i (\<lambda>t. t\<lparr>ns_parent := None, ns_previous_sibling := None, ns_next_sibling := None\<rparr>) d2"
  have P: "in_doc d p" if "ns_parent s = Some p" for p using threads_in(1) [OF t i] that f by auto
  have N: "in_doc d n" if "ns_next_sibling s = Some n" for n using threads_in(2) [OF t i] that f by auto
  have V: "in_doc d v" if "ns_previous_sibling s = Some v" for v using threads_in(3) [OF t i] that f by auto
  have r1: "relinked d d1" unfolding d1_def by (auto split: option.split intro!: relinked_upd simp: P V)
  have r2: "relinked d1 d2" unfolding d2_def using relinked_in_doc [OF r1]
    by (auto split: option.split intro!: relinked_upd simp: P N)
  have in2: "in_doc d2 = in_doc d" using relinked_in_doc [OF r1] relinked_in_doc [OF r2] by simp
  have r3: "relinked d2 d3" unfolding d3_def using i in2 by (auto intro!: relinked_upd)
  have e1: "(case ns_previous_sibling s of
                Some previous \<Rightarrow> write_slot previous (\<lambda>t. t\<lparr>ns_next_sibling := ns_next_sibling s\<rparr>)
              | None \<Rightarrow>
                  (case ns_parent s of
                     Some parent \<Rightarrow> write_slot parent (\<lambda>t. t\<lparr>ns_first_child := ns_next_sibling s\<rparr>)
                   | None \<Rightarrow> ok ())) d = (Inr (), d1)"
    unfolding d1_def using P V by (auto split: option.split simp: write_slot_in_doc ok_def)
  have e2: "(case ns_next_sibling s of
                Some n \<Rightarrow> write_slot n (\<lambda>t. t\<lparr>ns_previous_sibling := ns_previous_sibling s\<rparr>)
              | None \<Rightarrow>
                  (case ns_parent s of
                     Some parent \<Rightarrow> write_slot parent (\<lambda>t. t\<lparr>ns_last_child := ns_previous_sibling s\<rparr>)
                   | None \<Rightarrow> ok ())) d1 = (Inr (), d2)"
    unfolding d2_def using P N relinked_in_doc [OF r1] by (auto split: option.split simp: write_slot_in_doc ok_def)
  have "detach i d = (Inr (), d3)"
    unfolding detach_def d3_def using i in2 by (simp add: rd e1 e2 write_slot_in_doc)
  moreover have "relinked d d3" using r1 r2 r3 by (blast intro: relinked_trans)
  moreover have "links_of d3 = unlink i (links_of d)"
  proof -
    have i1: "in_doc d1 = in_doc d" by (rule relinked_in_doc [OF r1])
    have g1: "follow g d1 x =
        (case ns_previous_sibling s of
           Some v \<Rightarrow> if x = v then g ((d_nodes d ! nd_index v)\<lparr>ns_next_sibling := ns_next_sibling s\<rparr>) else follow g d x
         | None \<Rightarrow> (case ns_parent s of
             Some p \<Rightarrow> if x = p then g ((d_nodes d ! nd_index p)\<lparr>ns_first_child := ns_next_sibling s\<rparr>) else follow g d x
           | None \<Rightarrow> follow g d x))" for g x
      unfolding d1_def using P V by (auto split: option.split simp: follow_upd)
    have sl: "d_nodes d ! nd_index x = the (slot d x)" if "in_doc d x" for x using that by (simp add: in_doc_slot)
    have A: "follow ns_parent d1 x = follow ns_parent d x" "follow ns_last_child d1 x = follow ns_last_child d x"
      "follow ns_previous_sibling d1 x = follow ns_previous_sibling d x"
      "follow ns_first_child d1 x = (if ns_previous_sibling s = None \<and> ns_parent s = Some x then ns_next_sibling s else follow ns_first_child d x)"
      "follow ns_next_sibling d1 x = (if ns_previous_sibling s = Some x then ns_next_sibling s else follow ns_next_sibling d x)" for x
      unfolding g1 using P V by (auto split: option.split simp: follow_in_doc)
    have g2: "follow g d2 x =
        (case ns_next_sibling s of
           Some v \<Rightarrow> if x = v then g ((d_nodes d1 ! nd_index v)\<lparr>ns_previous_sibling := ns_previous_sibling s\<rparr>) else follow g d1 x
         | None \<Rightarrow> (case ns_parent s of
             Some p \<Rightarrow> if x = p then g ((d_nodes d1 ! nd_index p)\<lparr>ns_last_child := ns_previous_sibling s\<rparr>) else follow g d1 x
           | None \<Rightarrow> follow g d1 x))" for g x
      unfolding d2_def using P N i1 by (auto split: option.split simp: follow_upd)
    have B: "follow ns_parent d2 x = follow ns_parent d1 x" "follow ns_first_child d2 x = follow ns_first_child d1 x"
      "follow ns_next_sibling d2 x = follow ns_next_sibling d1 x"
      "follow ns_last_child d2 x = (if ns_next_sibling s = None \<and> ns_parent s = Some x then ns_previous_sibling s else follow ns_last_child d1 x)"
      "follow ns_previous_sibling d2 x = (if ns_next_sibling s = Some x then ns_previous_sibling s else follow ns_previous_sibling d1 x)" for x
      unfolding g2 using P N i1 by (auto split: option.split simp: follow_in_doc)
    have C: "follow g d3 x = (if x = i then g ((d_nodes d2 ! nd_index i)
        \<lparr>ns_parent := None, ns_previous_sibling := None, ns_next_sibling := None\<rparr>) else follow g d2 x)" for g x
      unfolding d3_def using i in2 by (simp add: follow_upd)
    have C': "follow ns_first_child d3 x = follow ns_first_child d2 x" "follow ns_last_child d3 x = follow ns_last_child d2 x" for x
      unfolding C using i in2 by (auto simp: follow_in_doc)
    have D: "follow g d i = g s" for g by (rule f)
    show ?thesis
      by (rule links_eqI) (simp_all only: links_of_fields unlink_fields C' A B D, simp_all add: C A B)
  qed
  ultimately show ?thesis by blast
qed

lemma link_last_link_end:
  assumes t: "threads (nodes_of d) K (links_of d)" and p: "in_doc d p" and c: "in_doc d c"
  shows "\<exists>d'. link_last p c d = (Inr (), d') \<and> relinked d d' \<and> links_of d' = link_end p c (links_of d)"
proof -
  define s where "s = d_nodes d ! nd_index p"
  note f = follow_in_doc [OF p, folded s_def]
  have rd: "read_index p d = (Inr s, d)" using p by (simp add: read_index_def in_doc_def ok_def s_def)
  have V: "in_doc d v" if "ns_last_child s = Some v" for v using threads_in(5) [OF t p] that f by auto
  define d1 where "d1 = upd c (\<lambda>t. t\<lparr>ns_parent := Some p, ns_previous_sibling := ns_last_child s, ns_next_sibling := None\<rparr>) d"
  define d2 where "d2 = (case ns_last_child s of
      Some v \<Rightarrow> upd v (\<lambda>t. t\<lparr>ns_next_sibling := Some c\<rparr>) d1
    | None \<Rightarrow> upd p (\<lambda>t. t\<lparr>ns_first_child := Some c\<rparr>) d1)"
  define d3 where "d3 = upd p (\<lambda>t. t\<lparr>ns_last_child := Some c\<rparr>) d2"
  have r1: "relinked d d1" unfolding d1_def by (auto intro!: relinked_upd simp: c)
  note i1 = relinked_in_doc [OF r1]
  have r2: "relinked d1 d2" unfolding d2_def by (auto split: option.split intro!: relinked_upd simp: p V i1)
  have i2: "in_doc d2 = in_doc d" using i1 relinked_in_doc [OF r2] by simp
  have r3: "relinked d2 d3" unfolding d3_def by (auto intro!: relinked_upd simp: p i2)
  have e2: "(case ns_last_child s of
                Some previous \<Rightarrow> write_slot previous (\<lambda>t. t\<lparr>ns_next_sibling := Some c\<rparr>)
              | None \<Rightarrow> write_slot p (\<lambda>t. t\<lparr>ns_first_child := Some c\<rparr>)) d1 = (Inr (), d2)"
    unfolding d2_def using p V i1 by (auto split: option.split simp: write_slot_in_doc)
  have "link_last p c d = (Inr (), d3)"
    unfolding link_last_def d3_def using c p i2
    by (simp add: rd e2 write_slot_in_doc flip: d1_def)
  moreover have "relinked d d3" using r1 r2 r3 by (blast intro: relinked_trans)
  moreover have "links_of d3 = link_end p c (links_of d)"
  proof -
    have A: "follow ns_parent d1 x = (if x = c then Some p else follow ns_parent d x)"
      "follow ns_previous_sibling d1 x = (if x = c then ns_last_child s else follow ns_previous_sibling d x)"
      "follow ns_next_sibling d1 x = (if x = c then None else follow ns_next_sibling d x)"
      "follow ns_first_child d1 x = follow ns_first_child d x" "follow ns_last_child d1 x = follow ns_last_child d x" for x
      unfolding d1_def using c by (simp_all add: follow_upd follow_in_doc)
    have g2: "follow g d2 x =
        (case ns_last_child s of
           Some v \<Rightarrow> if x = v then g ((d_nodes d1 ! nd_index v)\<lparr>ns_next_sibling := Some c\<rparr>) else follow g d1 x
         | None \<Rightarrow> if x = p then g ((d_nodes d1 ! nd_index p)\<lparr>ns_first_child := Some c\<rparr>) else follow g d1 x)" for g x
      unfolding d2_def using p V i1 by (auto split: option.split simp: follow_upd)
    have B: "follow ns_parent d2 x = follow ns_parent d1 x" "follow ns_last_child d2 x = follow ns_last_child d1 x"
      "follow ns_previous_sibling d2 x = follow ns_previous_sibling d1 x"
      "follow ns_first_child d2 x = (if ns_last_child s = None \<and> x = p then Some c else follow ns_first_child d1 x)"
      "follow ns_next_sibling d2 x = (if ns_last_child s = Some x then Some c else follow ns_next_sibling d1 x)" for x
      unfolding g2 using p V i1 by (auto split: option.split simp: follow_in_doc)
    have C: "follow ns_parent d3 x = follow ns_parent d2 x" "follow ns_first_child d3 x = follow ns_first_child d2 x"
      "follow ns_previous_sibling d3 x = follow ns_previous_sibling d2 x"
      "follow ns_next_sibling d3 x = follow ns_next_sibling d2 x"
      "follow ns_last_child d3 x = (if x = p then Some c else follow ns_last_child d2 x)" for x
      unfolding d3_def using p i2 by (auto simp: follow_upd follow_in_doc)
    show ?thesis
      by (rule links_eqI) (simp_all only: links_of_fields link_end_fields A B C f)
  qed
  ultimately show ?thesis by blast
qed

lemma link_before_link_at:
  assumes t: "threads (nodes_of d) K (links_of d)" and p: "in_doc d p" and c: "in_doc d c" and r: "in_doc d r"
    and cr: "c \<noteq> r"
  shows "\<exists>d'. link_before p c r d = (Inr (), d') \<and> relinked d d' \<and> links_of d' = link_at p c r (links_of d)"
proof -
  define s where "s = d_nodes d ! nd_index r"
  note f = follow_in_doc [OF r, folded s_def]
  have rd: "read_index r d = (Inr s, d)" using r by (simp add: read_index_def in_doc_def ok_def s_def)
  have V: "in_doc d v" if "ns_previous_sibling s = Some v" for v using threads_in(3) [OF t r] that f by auto
  define d1 where "d1 = upd c (\<lambda>t. t\<lparr>ns_parent := Some p, ns_previous_sibling := ns_previous_sibling s, ns_next_sibling := Some r\<rparr>) d"
  define d2 where "d2 = upd r (\<lambda>t. t\<lparr>ns_previous_sibling := Some c\<rparr>) d1"
  define d3 where "d3 = (case ns_previous_sibling s of
      Some v \<Rightarrow> upd v (\<lambda>t. t\<lparr>ns_next_sibling := Some c\<rparr>) d2
    | None \<Rightarrow> upd p (\<lambda>t. t\<lparr>ns_first_child := Some c\<rparr>) d2)"
  have r1: "relinked d d1" unfolding d1_def by (auto intro!: relinked_upd simp: c)
  note i1 = relinked_in_doc [OF r1]
  have r2: "relinked d1 d2" unfolding d2_def by (auto intro!: relinked_upd simp: r i1)
  have i2: "in_doc d2 = in_doc d" using i1 relinked_in_doc [OF r2] by simp
  have r3: "relinked d2 d3" unfolding d3_def by (auto split: option.split intro!: relinked_upd simp: p V i2)
  have e3: "(case ns_previous_sibling s of
                Some previous \<Rightarrow> write_slot previous (\<lambda>t. t\<lparr>ns_next_sibling := Some c\<rparr>)
              | None \<Rightarrow> write_slot p (\<lambda>t. t\<lparr>ns_first_child := Some c\<rparr>)) d2 = (Inr (), d3)"
    unfolding d3_def using p V i2 by (auto split: option.split simp: write_slot_in_doc)
  have "link_before p c r d = (Inr (), d3)"
    unfolding link_before_def using c r i1 by (simp add: rd e3 write_slot_in_doc flip: d1_def d2_def)
  moreover have "relinked d d3" using r1 r2 r3 by (blast intro: relinked_trans)
  moreover have "links_of d3 = link_at p c r (links_of d)"
  proof -
    have A: "follow ns_parent d1 x = (if x = c then Some p else follow ns_parent d x)"
      "follow ns_previous_sibling d1 x = (if x = c then ns_previous_sibling s else follow ns_previous_sibling d x)"
      "follow ns_next_sibling d1 x = (if x = c then Some r else follow ns_next_sibling d x)"
      "follow ns_first_child d1 x = follow ns_first_child d x" "follow ns_last_child d1 x = follow ns_last_child d x" for x
      unfolding d1_def using c by (simp_all add: follow_upd follow_in_doc)
    have B: "follow ns_parent d2 x = follow ns_parent d1 x" "follow ns_last_child d2 x = follow ns_last_child d1 x"
      "follow ns_first_child d2 x = follow ns_first_child d1 x" "follow ns_next_sibling d2 x = follow ns_next_sibling d1 x"
      "follow ns_previous_sibling d2 x = (if x = r then Some c else follow ns_previous_sibling d1 x)" for x
      unfolding d2_def using r i1 by (auto simp: follow_upd follow_in_doc)
    have g3: "follow g d3 x =
        (case ns_previous_sibling s of
           Some v \<Rightarrow> if x = v then g ((d_nodes d2 ! nd_index v)\<lparr>ns_next_sibling := Some c\<rparr>) else follow g d2 x
         | None \<Rightarrow> if x = p then g ((d_nodes d2 ! nd_index p)\<lparr>ns_first_child := Some c\<rparr>) else follow g d2 x)" for g x
      unfolding d3_def using p V i2 by (auto split: option.split simp: follow_upd)
    have C: "follow ns_parent d3 x = follow ns_parent d2 x" "follow ns_last_child d3 x = follow ns_last_child d2 x"
      "follow ns_previous_sibling d3 x = follow ns_previous_sibling d2 x"
      "follow ns_next_sibling d3 x = (if ns_previous_sibling s = Some x then Some c else follow ns_next_sibling d2 x)"
      "follow ns_first_child d3 x = (if ns_previous_sibling s = None \<and> x = p then Some c else follow ns_first_child d2 x)" for x
      unfolding g3 using p V i2 by (auto split: option.split simp: follow_in_doc)
    show ?thesis
      by (rule links_eqI) (simp_all only: links_of_fields link_at_fields A B C f)
  qed
  ultimately show ?thesis by blast
qed

section \<open>Children and ancestors\<close>

lemma length_children_le:
  "threads (nodes_of d) K (links_of d) \<Longrightarrow> in_doc d p \<Longrightarrow> length (K p) \<le> length (d_nodes d)"
  using threadsD(1,2) [of "nodes_of d" K "links_of d" p] card_mono [of "nodes_of d" "set (K p)"]
  by (simp add: distinct_card)

lemma siblings_from_threads:
  assumes t: "threads (nodes_of d) K (links_of d)" and p: "in_doc d p"
  shows "K p = xs @ ys \<Longrightarrow> length ys \<le> n \<Longrightarrow> siblings_from n d (hd_opt ys) = Some ys"
proof (induction ys arbitrary: xs n)
  case (Cons y ys)
  then obtain m where n: "n = Suc m" by (cases n) auto
  from t p have dist: "distinct (xs @ y # ys)" using threadsD(1) [of "nodes_of d" K "links_of d" p] Cons.prems by simp
  have y: "y \<in> set (K p)" using Cons.prems by simp
  then have i: "in_doc d y" using threadsD(2) [OF t, of p] p by auto
  have "follow ns_next_sibling d y = hd_opt ys"
    using threadsD(6) [OF t _ y] p Cons.prems(1) dist by (simp add: next_in_mid)
  with Cons.IH [of "xs @ [y]" m] Cons.prems n i show ?case
    by (simp add: in_doc_slot follow_in_doc)
qed (simp add: siblings_from.simps)

lemma children_threads:
  assumes "threads (nodes_of d) K (links_of d)" "in_doc d p"
  shows "children d p = Some (K p)"
  using siblings_from_threads [OF assms, of "[]" "K p" "length (d_nodes d)"] length_children_le [OF assms]
    threadsD(3) [OF assms(1), of p] assms(2)
  by (simp add: children_def in_doc_slot follow_in_doc)

lemma ancestor_from_above:
  assumes t: "threads (nodes_of d) K (links_of d)" and r: "rooted (links_of d)"
  shows "in_doc d i \<Longrightarrow> card (above (links_of d) i) \<le> n \<Longrightarrow>
    ancestor_from n d a (Some i) = Some ((i, a) \<in> (climbs (links_of d))\<^sup>*)"
proof (induction n arbitrary: i)
  case 0
  have "finite (above (links_of d) i)" using above_in [OF t, of i] 0 by (auto intro: finite_subset)
  moreover have "i \<in> above (links_of d) i" by (simp add: above_def)
  ultimately show ?case using 0 by auto
next
  case (Suc n)
  show ?case
  proof (cases "follow ns_parent d i")
    case None
    with Suc.prems climbs_top [of "links_of d" i a] show ?thesis
      by (auto simp: in_doc_slot follow_in_doc)
  next
    case (Some p)
    with threads_in(1) [OF t Suc.prems(1)] have p: "in_doc d p" by blast
    have "card (above (links_of d) p) < card (above (links_of d) i)"
      using above_parent [OF t _ r] Suc.prems(1) Some by simp
    with Suc p have "ancestor_from n d a (Some p) = Some ((p, a) \<in> (climbs (links_of d))\<^sup>*)" by simp
    with Some Suc.prems(1) climbs_step [of "links_of d" i p a] show ?thesis
      by (auto simp: in_doc_slot follow_in_doc)
  qed
qed

lemma is_ancestor_above:
  assumes t: "threads (nodes_of d) K (links_of d)" and r: "rooted (links_of d)" and i: "in_doc d i"
  shows "is_ancestor a i d = (Inr ((i, a) \<in> (climbs (links_of d))\<^sup>*), d)"
proof -
  have "card (above (links_of d) i) \<le> length (d_nodes d)"
    using card_mono [OF finite_nodes_of above_in [OF t]] i by simp
  then show ?thesis using ancestor_from_above [OF t r i, of "Suc (length (d_nodes d))"]
    by (simp add: is_ancestor_def ok_def)
qed

section \<open>The invariant\<close>

definition kids :: "document \<Rightarrow> node_id \<Rightarrow> node_id list" where
  "kids d i = (case children d i of None \<Rightarrow> [] | Some cs \<Rightarrow> cs)"

definition may_hold :: "node_type \<Rightarrow> bool" where
  "may_hold t \<longleftrightarrow> t = DOCUMENT_NODE \<or> t = DOCUMENT_FRAGMENT_NODE \<or> t = ELEMENT_NODE"

definition may_be_held :: "node_type \<Rightarrow> bool" where
  "may_be_held t \<longleftrightarrow> t \<noteq> DOCUMENT_NODE \<and> t \<noteq> ATTRIBUTE_NODE \<and> t \<noteq> DOCUMENT_FRAGMENT_NODE"

text \<open>What the document node may hold: one element, one document type, and no character data.\<close>

definition root_ok :: "node_type list \<Rightarrow> bool" where
  "root_ok ts \<longleftrightarrow> TEXT_NODE \<notin> set ts \<and> CDATA_SECTION_NODE \<notin> set ts \<and>
     count (mset ts) ELEMENT_NODE \<le> 1 \<and> count (mset ts) DOCUMENT_TYPE_NODE \<le> 1"

definition kind :: "document \<Rightarrow> node_id \<Rightarrow> node_type" where
  "kind d i = (case node_type_of d i of Some t \<Rightarrow> t | None \<Rightarrow> DOCUMENT_NODE)"

definition kinds_ok :: "document \<Rightarrow> (node_id \<Rightarrow> node_id list) \<Rightarrow> bool" where
  "kinds_ok d K \<longleftrightarrow>
     (\<forall>p. in_doc d p \<longrightarrow> K p \<noteq> [] \<longrightarrow> may_hold (kind d p)) \<and>
     (\<forall>p. in_doc d p \<longrightarrow> (\<forall>c \<in> set (K p). may_be_held (kind d c))) \<and>
     root_ok (map (kind d) (K (document_node d)))"

definition rooted_document :: "document \<Rightarrow> bool" where
  "rooted_document d \<longleftrightarrow>
     (\<forall>i. in_doc d i \<longrightarrow> (kind d i = DOCUMENT_NODE \<longleftrightarrow> i = document_node d)) \<and> in_doc d (document_node d)"

definition tree_wf :: "document \<Rightarrow> bool" where
  "tree_wf d \<longleftrightarrow> threads (nodes_of d) (kids d) (links_of d) \<and> rooted (links_of d) \<and> kinds_ok d (kids d) \<and>
     rooted_document d"

lemma tree_wfD:
  assumes "tree_wf d"
  shows "threads (nodes_of d) (kids d) (links_of d)" "rooted (links_of d)" "kinds_ok d (kids d)" "rooted_document d"
  using assms by (simp_all add: tree_wf_def)

lemma kids_threads: "threads (nodes_of d) K (links_of d) \<Longrightarrow> in_doc d p \<Longrightarrow> kids d p = K p"
  by (simp add: kids_def children_threads)

lemma kids_outside: "\<not> in_doc d p \<Longrightarrow> kids d p = []"
  by (simp add: kids_def children_def slot_in_doc)

lemma children_kids: "tree_wf d \<Longrightarrow> in_doc d p \<Longrightarrow> children d p = Some (kids d p)"
  by (rule children_threads [OF tree_wfD(1)])

lemma read_children_kids: "tree_wf d \<Longrightarrow> in_doc d p \<Longrightarrow> read_children p d = (Inr (kids d p), d)"
  by (simp add: read_children_def children_kids ok_def)

lemma node_type_of_data: "node_type_of d i = map_option type_of (data_of d i)"
  by (simp add: node_type_of_def data_of_def option.map_comp comp_def)

lemma relinked_kind: "relinked d d' \<Longrightarrow> kind d' = kind d"
  by (rule ext) (simp add: kind_def node_type_of_data relinked_def)

lemma relinked_document_node: "relinked d d' \<Longrightarrow> document_node d' = document_node d"
  by (simp add: document_node_def relinked_def)

lemma relinked_nodes_of: "relinked d d' \<Longrightarrow> nodes_of d' = nodes_of d"
  by (simp add: nodes_of_def relinked_in_doc)

lemma kinds_okI:
  assumes "\<And>p. in_doc d p \<Longrightarrow> K p \<noteq> [] \<Longrightarrow> may_hold (kind d p)"
    "\<And>p c. in_doc d p \<Longrightarrow> c \<in> set (K p) \<Longrightarrow> may_be_held (kind d c)"
    "root_ok (map (kind d) (K (document_node d)))"
  shows "kinds_ok d K"
  using assms by (simp add: kinds_ok_def)

lemma kinds_okD:
  assumes "kinds_ok d K"
  shows "in_doc d p \<Longrightarrow> K p \<noteq> [] \<Longrightarrow> may_hold (kind d p)"
    "in_doc d p \<Longrightarrow> c \<in> set (K p) \<Longrightarrow> may_be_held (kind d c)"
    "root_ok (map (kind d) (K (document_node d)))"
  using assms by (auto simp: kinds_ok_def)

text \<open>A change of the links alone: what is to be shown of it, and the children it gives.\<close>

lemma tree_wf_relinked:
  assumes wf: "tree_wf d" and r: "relinked d d'" and t: "threads (nodes_of d) K (links_of d')"
    and a: "rooted (links_of d')" and k: "kinds_ok d K" and o: "\<And>p. \<not> in_doc d p \<Longrightarrow> K p = []"
  shows "tree_wf d' \<and> kids d' = K"
proof -
  note rl = relinked_in_doc [OF r] relinked_nodes_of [OF r] relinked_kind [OF r] relinked_document_node [OF r]
  have K: "kids d' = K"
  proof
    fix p
    show "kids d' p = K p" using kids_threads [of d' K p] t o [of p] kids_outside [of d' p]
      by (cases "in_doc d p") (simp_all add: rl)
  qed
  with t a k tree_wfD(4) [OF wf] show ?thesis by (simp add: tree_wf_def rl kinds_ok_def rooted_document_def)
qed

lemma root_ok_mset: "mset xs = mset ys \<Longrightarrow> root_ok xs = root_ok ys"
  by (metis root_ok_def set_mset_mset)

lemma root_ok_sub:
  assumes "root_ok ys" "mset xs \<subseteq># mset ys"
  shows "root_ok xs"
proof -
  have "count (mset xs) t \<le> count (mset ys) t" for t using assms(2) by (rule mset_subset_eq_count)
  moreover have "set xs \<subseteq> set ys" using assms(2) by (metis set_mset_mset set_mset_mono)
  ultimately show ?thesis using assms(1) unfolding root_ok_def by (meson le_trans subsetD)
qed

section \<open>Moving nodes\<close>

definition without :: "node_id list \<Rightarrow> (node_id \<Rightarrow> node_id list) \<Rightarrow> node_id \<Rightarrow> node_id list" where
  "without cs K q = filter (\<lambda>x. x \<notin> set cs) (K q)"

lemma kids_parent: "tree_wf d \<Longrightarrow> in_doc d q \<Longrightarrow> c \<in> set (kids d q) \<longleftrightarrow> in_doc d c \<and> follow ns_parent d c = Some q"
  using threads_child_iff [OF tree_wfD(1), of d q c] by simp

lemma kids_in: "tree_wf d \<Longrightarrow> c \<in> set (kids d q) \<Longrightarrow> in_doc d q \<and> in_doc d c \<and> follow ns_parent d c = Some q"
  by (cases "in_doc d q") (simp_all add: kids_parent kids_outside)

lemma kids_distinct: "tree_wf d \<Longrightarrow> distinct (kids d q)"
  using threadsD(1) [OF tree_wfD(1), of d q] by (cases "in_doc d q") (simp_all add: kids_outside)

lemma without_free: "tree_wf d \<Longrightarrow> follow ns_parent d c = None \<Longrightarrow> without [c] (kids d) = kids d"
  by (rule ext) (auto simp: without_def dest: kids_in intro!: filter_True)

lemma kinds_ok_sub:
  assumes "kinds_ok d K" "\<And>q. set (L q) \<subseteq> set (K q)" "mset (L (document_node d)) \<subseteq># mset (K (document_node d))"
  shows "kinds_ok d L"
proof (rule kinds_okI)
  fix p
  assume p: "in_doc d p"
  note k = kinds_okD(1,2) [OF assms(1) p]
  show "L p \<noteq> [] \<Longrightarrow> may_hold (kind d p)" using k(1) assms(2) [of p] by (cases "K p") auto
  show "c \<in> set (L p) \<Longrightarrow> may_be_held (kind d c)" for c using k(2) assms(2) by auto
next
  show "root_ok (map (kind d) (L (document_node d)))"
    using kinds_okD(3) [OF assms(1)] image_mset_subseteq_mono [OF assms(3), of "kind d"]
    by (auto intro: root_ok_sub)
qed

lemma detach_without:
  assumes wf: "tree_wf d" and c: "in_doc d c"
  shows "\<exists>d'. detach c d = (Inr (), d') \<and> relinked d d' \<and> links_of d' = unlink c (links_of d) \<and> tree_wf d' \<and>
    kids d' = without [c] (kids d)"
proof -
  note t = tree_wfD(1) [OF wf]
  obtain d' where d': "detach c d = (Inr (), d')" "relinked d d'" "links_of d' = unlink c (links_of d)"
    using detach_unlink [OF t c] by blast
  have th: "threads (nodes_of d) (without [c] (kids d)) (links_of d')"
  proof (cases "follow ns_parent d c")
    case None
    with unlink_free [OF t] c t d'(3) without_free [OF wf None] show ?thesis by simp
  next
    case (Some p)
    have "threads (nodes_of d) ((kids d)(p := remove1 c (kids d p))) (unlink c (links_of d))"
      using threads_unlink [OF t] c Some by simp
    then show ?thesis unfolding d'(3)
    proof (rule threads_cong)
      fix q
      show "((kids d)(p := remove1 c (kids d p))) q = without [c] (kids d) q"
      proof (cases "q = p")
        case True
        with kids_distinct [OF wf] show ?thesis by (simp add: without_def distinct_remove1_removeAll removeAll_filter_not_eq conj_commute eq_commute)
      next
        case False
        have "c \<notin> set (kids d q)" using kids_in [OF wf, of c q] Some False by auto
        with False show ?thesis by (auto simp: without_def intro!: filter_True [symmetric])
      qed
    qed
  qed
  have k: "kinds_ok d (without [c] (kids d))"
    by (rule kinds_ok_sub [OF tree_wfD(3) [OF wf]]) (auto simp: without_def mset_filter)
  have "tree_wf d' \<and> kids d' = without [c] (kids d)"
    by (rule tree_wf_relinked [OF wf d'(2) th _ k])
       (simp_all add: d'(3) rooted_unlink tree_wfD(2) [OF wf] without_def kids_outside)
  with d' show ?thesis by blast
qed

text \<open>Whether nodes of these kinds may stand under a node, where they leave it the children \<open>cs\<close>.\<close>

lemma place_splice:
  assumes wf: "tree_wf d" and p: "in_doc d p" and c: "in_doc d c" and free: "follow ns_parent d c = None"
    and r: "\<And>x. r = Some x \<Longrightarrow> x \<in> set (kids d p)"
    and k: "may_hold (kind d p)" "may_be_held (kind d c)"
    and acyc: "(p, c) \<notin> (climbs (links_of d))\<^sup>*"
    and root: "p = document_node d \<Longrightarrow> root_ok (map (kind d) (c # kids d p))"
  shows "\<exists>d'. place p c r d = (Inr (), d') \<and> relinked d d' \<and>
    (\<forall>x. up (links_of d') x = (if x = c then Some p else up (links_of d) x)) \<and> tree_wf d' \<and>
    kids d' = (kids d)(p := splice r [c] (kids d p))"
proof -
  note t = tree_wfD(1) [OF wf]
  have "\<exists>d'. place p c r d = (Inr (), d') \<and> relinked d d' \<and>
    (\<forall>x. up (links_of d') x = (if x = c then Some p else up (links_of d) x)) \<and>
    threads (nodes_of d) ((kids d)(p := splice r [c] (kids d p))) (links_of d')"
  proof (cases r)
    case None
    obtain d' where d': "link_last p c d = (Inr (), d')" "relinked d d'" "links_of d' = link_end p c (links_of d)"
      using link_last_link_end [OF t p c] by blast
    have "threads (nodes_of d) ((kids d)(p := kids d p @ [c])) (links_of d')"
      unfolding d'(3) using threads_link_end [OF t] c p free by simp
    with d' None show ?thesis by (simp del: links_of_fields add: splice_one)
  next
    case (Some q)
    with r have q: "q \<in> set (kids d p)" by simp
    with kids_in [OF wf] have qi: "in_doc d q" and "follow ns_parent d q = Some p" by auto
    with free have cq: "c \<noteq> q" by auto
    obtain d' where d': "link_before p c q d = (Inr (), d')" "relinked d d'" "links_of d' = link_at p c q (links_of d)"
      using link_before_link_at [OF t p c qi cq] by blast
    have "threads (nodes_of d) ((kids d)(p := insert_at q c (kids d p))) (links_of d')"
      unfolding d'(3) using threads_link_at [OF t] c p free q by simp
    with d' Some show ?thesis by (simp del: links_of_fields add: splice_one)
  qed
  then obtain d' where d': "place p c r d = (Inr (), d')" "relinked d d'"
    "\<And>x. up (links_of d') x = (if x = c then Some p else up (links_of d) x)"
    "threads (nodes_of d) ((kids d)(p := splice r [c] (kids d p))) (links_of d')" by blast
  have ro: "rooted (links_of d')" by (rule rooted_link [OF tree_wfD(2) [OF wf] acyc d'(3)])
  have "root_ok (map (kind d) (splice r [c] (kids d p)))" if "p = document_node d"
  proof -
    have "mset (map (kind d) (splice r [c] (kids d p))) = mset (map (kind d) (c # kids d p))"
      by (simp add: mset_splice)
    with root [OF that] root_ok_mset show ?thesis by blast
  qed
  then have ki: "kinds_ok d ((kids d)(p := splice r [c] (kids d p)))"
    using k kinds_okD [OF tree_wfD(3) [OF wf]] by (intro kinds_okI) (auto split: if_splits)
  have "tree_wf d' \<and> kids d' = (kids d)(p := splice r [c] (kids d p))"
    by (rule tree_wf_relinked [OF wf d'(2,4) ro ki]) (use p in \<open>auto simp: kids_outside\<close>)
  with d' show ?thesis by blast
qed

section \<open>What an insertion is to do\<close>

text \<open>The nodes an insertion moves: a fragment gives its children in its place.\<close>

definition moved :: "document \<Rightarrow> node_id \<Rightarrow> node_id list" where
  "moved d c = (if kind d c = DOCUMENT_FRAGMENT_NODE then kids d c else [c])"

definition insert_kids ::
  "node_id \<Rightarrow> node_id option \<Rightarrow> node_id list \<Rightarrow> (node_id \<Rightarrow> node_id list) \<Rightarrow> node_id \<Rightarrow> node_id list" where
  "insert_kids p r cs K = (without cs K)(p := splice r cs (without cs K p))"

definition handle :: "document \<Rightarrow> node_id \<Rightarrow> bool" where
  "handle d i \<longleftrightarrow> (owns_node d i \<longrightarrow> in_doc d i)"

definition at_or_above :: "document \<Rightarrow> node_id \<Rightarrow> node_id \<Rightarrow> bool" where
  "at_or_above d a i \<longleftrightarrow> (i, a) \<in> (climbs (links_of d))\<^sup>*"

text \<open>The error an insertion is refused with: the checks of \<open>insertBefore\<close> in the words of the tree.\<close>

definition insertion_error :: "document \<Rightarrow> node_id \<Rightarrow> node_id \<Rightarrow> node_id option \<Rightarrow> exception_code option" where
  "insertion_error d p c r =
     (if \<not> (owns_node d p \<and> owns_node d c \<and> pred_option (owns_node d) r) then Some WRONG_DOCUMENT_ERR
      else if \<not> may_hold (kind d p) \<or> kind d c = DOCUMENT_NODE \<or> kind d c = ATTRIBUTE_NODE \<or> at_or_above d c p
      then Some HIERARCHY_REQUEST_ERR
      else if \<not> pred_option (\<lambda>x. x \<in> set (kids d p)) r then Some NOT_FOUND_ERR
      else if p = document_node d \<and> \<not> root_ok (map (kind d) (insert_kids p r (moved d c) (kids d) p))
      then Some HIERARCHY_REQUEST_ERR
      else None)"

lemma kind_in_doc: "in_doc d i \<Longrightarrow> kind d i = type_of (ns_data (d_nodes d ! nd_index i))"
  by (simp add: kind_def node_type_of_def in_doc_slot)

lemma type_of_inverse:
  "type_of x = DOCUMENT_NODE \<longleftrightarrow> x = Document" "type_of x = DOCUMENT_FRAGMENT_NODE \<longleftrightarrow> x = DocumentFragment"
  by (cases x; simp)+

lemma is_container_kind: "is_container x \<longleftrightarrow> may_hold (type_of x)"
  by (cases x) (simp_all add: may_hold_def)

lemma can_be_child_kind: "can_be_child x \<longleftrightarrow> type_of x \<noteq> DOCUMENT_NODE \<and> type_of x \<noteq> ATTRIBUTE_NODE"
  by (cases x) simp_all

lemma read_slot_in_doc: "in_doc d i \<Longrightarrow> read_slot i d = (Inr (d_nodes d ! nd_index i), d)"
  by (simp add: read_slot_def in_doc_slot ok_def)

lemma require_eq: "require b e d = (if b then Inr () else Inl (Exception e), d)"
  by (simp add: require_def ok_def fail_def)

lemma insert_kids_root:
  "root_ok (map (kind d) (insert_kids p r cs K p)) = root_ok (map (kind d) (cs @ without cs K p))"
  by (rule root_ok_mset) (simp add: insert_kids_def mset_splice)

text \<open>The children of the document node the code looks for.\<close>

lemma node_type_of_kind: "in_doc d i \<Longrightarrow> node_type_of d i = Some (kind d i)"
  by (simp add: kind_def node_type_of_def in_doc_slot)

lemma child_of_type_kids:
  assumes "tree_wf d"
  shows "child_of_type d t = Some (find (\<lambda>c. kind d c = t) (kids d (document_node d)))"
proof -
  have "in_doc d (document_node d)" using tree_wfD(4) [OF assms] by (simp add: rooted_document_def)
  moreover have "find (\<lambda>c. node_type_of d c = Some t) xs = find (\<lambda>c. kind d c = t) xs"
    if "set xs \<subseteq> set (kids d (document_node d))" for xs
    using that by (induction xs) (use kids_in [OF assms] node_type_of_kind in \<open>force+\<close>)
  ultimately show ?thesis by (simp add: child_of_type_def children_kids [OF assms])
qed

lemma find_kind_other:
  assumes "count (mset (map f xs)) t \<le> 1"
  shows "(find (\<lambda>c. f c = t) xs \<noteq> None \<and> find (\<lambda>c. f c = t) xs \<noteq> Some x) \<longleftrightarrow>
    count (mset (map f (filter (\<lambda>y. y \<noteq> x) xs))) t \<noteq> 0"
  using assms
proof (induction xs)
  case (Cons y xs)
  show ?case
  proof (cases "f y = t")
    case True
    with Cons.prems have "count (mset (map f xs)) t = 0" by simp
    then have "t \<notin> f ` set xs" by (simp add: count_eq_zero_iff)
    with True show ?thesis by (auto simp: count_eq_zero_iff)
  next
    case False
    with Cons show ?thesis by simp
  qed
qed simp

lemma root_ok_Cons:
  assumes "root_ok ts"
  shows "root_ok (t # ts) \<longleftrightarrow> \<not> document_child_error t (count (mset ts) ELEMENT_NODE \<noteq> 0) (count (mset ts) DOCUMENT_TYPE_NODE \<noteq> 0)"
  using assms by (cases t) (auto simp: root_ok_def document_child_error_def)

lemma check_child_of_document_eq:
  assumes wf: "tree_wf d" and p: "in_doc d p" and c: "in_doc d c"
  shows "check_child_of_document p c d =
    (if p = document_node d \<and> \<not> root_ok (map (kind d) (c # without [c] (kids d) p))
     then Inl (Exception HIERARCHY_REQUEST_ERR) else Inr (), d)"
proof (cases "p = document_node d")
  case False
  with tree_wfD(4) [OF wf] p have "kind d p \<noteq> DOCUMENT_NODE" by (simp add: rooted_document_def)
  with False p show ?thesis
    by (simp add: check_child_of_document_def read_slot_in_doc kind_in_doc type_of_inverse ok_def)
next
  case True
  with tree_wfD(4) [OF wf] p have "kind d p = DOCUMENT_NODE" by (simp add: rooted_document_def)
  then have dt: "ns_data (d_nodes d ! nd_index p) = Document" using p by (simp add: kind_in_doc type_of_inverse)
  have ro: "root_ok (map (kind d) (kids d p))" using kinds_okD(3) [OF tree_wfD(3) [OF wf]] True by simp
  have ro': "root_ok (map (kind d) (without [c] (kids d) p))"
    by (rule root_ok_sub [OF ro]) (simp add: without_def mset_filter image_mset_subseteq_mono)
  have w: "without [c] (kids d) p = filter (\<lambda>y. y \<noteq> c) (kids d p)" by (simp add: without_def)
  have cnt: "count (mset (map (kind d) (kids d p))) ELEMENT_NODE \<le> 1"
    "count (mset (map (kind d) (kids d p))) DOCUMENT_TYPE_NODE \<le> 1" using ro by (simp_all add: root_ok_def)
  have e: "read_option document_element d = (Inr (find (\<lambda>c. kind d c = ELEMENT_NODE) (kids d p)), d)"
    "read_option doctype_node d = (Inr (find (\<lambda>c. kind d c = DOCUMENT_TYPE_NODE) (kids d p)), d)"
    by (simp_all add: read_option_def document_element_def doctype_node_def child_of_type_kids [OF wf] ok_def True)
  show ?thesis using p c dt True e root_ok_Cons [OF ro', of "kind d c"]
    find_kind_other [OF cnt(1), of c] find_kind_other [OF cnt(2), of c]
    by (simp add: check_child_of_document_def read_slot_in_doc require_eq w [unfolded True] flip: kind_in_doc)
qed

end
