(* ===== verification/Dom_Insert.thy ===== *)
theory Dom_Insert
  imports Dom_Tree
begin

text \<open>
  Insertion, replacement and removal in \<open>dom/document.rs\<close>: the checks are the ones the tree calls for,
  an operation that is refused leaves the document as it was, and one that is not moves nodes between
  the lists of children and keeps \<open>tree_wf\<close>.
\<close>

section \<open>The checks\<close>

lemma fragment_loop_eq:
  "(\<And>g. g \<in> set gs \<Longrightarrow> in_doc d g) \<Longrightarrow>
   fragment_loop gs he ht d =
     (if TEXT_NODE \<notin> set (map (kind d) gs) \<and> CDATA_SECTION_NODE \<notin> set (map (kind d) gs) \<and>
         (if he then 1 else 0) + count (mset (map (kind d) gs)) ELEMENT_NODE \<le> 1 \<and>
         (if ht then 1 else 0) + count (mset (map (kind d) gs)) DOCUMENT_TYPE_NODE \<le> 1
      then Inr () else Inl (Exception HIERARCHY_REQUEST_ERR), d)"
proof (induction gs arbitrary: he ht)
  case (Cons g gs)
  then have g: "in_doc d g" by simp
  show ?case using Cons g
    by (cases "kind d g"; cases he; cases ht)
       (simp_all add: read_slot_in_doc require_eq document_child_error_def flip: kind_in_doc)
qed (auto simp: ok_def)

lemma find_kind_none: "find (\<lambda>c. f c = t) xs = None \<longleftrightarrow> count (mset (map f xs)) t = 0"
  by (auto simp: find_None_iff count_eq_zero_iff)

lemma root_ok_append:
  assumes "root_ok ts"
  shows "root_ok (gs @ ts) \<longleftrightarrow>
    TEXT_NODE \<notin> set gs \<and> CDATA_SECTION_NODE \<notin> set gs \<and>
    (if count (mset ts) ELEMENT_NODE \<noteq> 0 then 1 else 0) + count (mset gs) ELEMENT_NODE \<le> 1 \<and>
    (if count (mset ts) DOCUMENT_TYPE_NODE \<noteq> 0 then 1 else 0) + count (mset gs) DOCUMENT_TYPE_NODE \<le> 1"
proof -
  have one: "n \<le> 1 \<Longrightarrow> (if n \<noteq> 0 then 1 else 0) = n" for n :: nat by simp
  from assms have "(if count (mset ts) ELEMENT_NODE \<noteq> 0 then 1 else 0) = count (mset ts) ELEMENT_NODE"
    "(if count (mset ts) DOCUMENT_TYPE_NODE \<noteq> 0 then 1 else 0) = count (mset ts) DOCUMENT_TYPE_NODE"
    unfolding root_ok_def by (blast intro: one)+
  with assms show ?thesis unfolding root_ok_def by (simp only: set_append Un_iff mset_append count_union) auto
qed

lemma check_fragment_into_document_eq:
  assumes wf: "tree_wf d" and p: "in_doc d p" and c: "in_doc d c" and k: "kind d c = DOCUMENT_FRAGMENT_NODE"
  shows "check_fragment_into_document p c d =
    (if p = document_node d \<and> \<not> root_ok (map (kind d) (kids d c @ without (kids d c) (kids d) p))
     then Inl (Exception HIERARCHY_REQUEST_ERR) else Inr (), d)"
proof (cases "p = document_node d")
  case False
  with tree_wfD(4) [OF wf] p have "kind d p \<noteq> DOCUMENT_NODE" by (simp add: rooted_document_def)
  with False p show ?thesis
    by (simp add: check_fragment_into_document_def read_slot_in_doc kind_in_doc type_of_inverse ok_def)
next
  case True
  with tree_wfD(4) [OF wf] p have kp: "kind d p = DOCUMENT_NODE" by (simp add: rooted_document_def)
  then have dt: "ns_data (d_nodes d ! nd_index p) = Document" using p by (simp add: kind_in_doc type_of_inverse)
  have ro: "root_ok (map (kind d) (kids d p))" using kinds_okD(3) [OF tree_wfD(3) [OF wf]] True by simp
  have w: "without (kids d c) (kids d) p = kids d p"
    unfolding without_def
  proof (rule filter_True, rule ballI)
    fix x
    assume x: "x \<in> set (kids d p)"
    show "x \<notin> set (kids d c)" using kids_in [OF wf x] kids_in [OF wf, of x c] kp k by auto
  qed
  have gs: "in_doc d g" if "g \<in> set (kids d c)" for g using kids_in [OF wf that] by blast
  have e: "read_option document_element d = (Inr (find (\<lambda>c. kind d c = ELEMENT_NODE) (kids d p)), d)"
    "read_option doctype_node d = (Inr (find (\<lambda>c. kind d c = DOCUMENT_TYPE_NODE) (kids d p)), d)"
    by (simp_all add: read_option_def document_element_def doctype_node_def child_of_type_kids [OF wf] ok_def True)
  have swap: "(if P then a else b, d) = (if \<not> P then b else a, d)" for P :: bool and a b :: "fault + unit" by simp
  have "check_fragment_into_document p c d =
      fragment_loop (kids d c) (find (\<lambda>c. kind d c = ELEMENT_NODE) (kids d p) \<noteq> None)
        (find (\<lambda>c. kind d c = DOCUMENT_TYPE_NODE) (kids d p) \<noteq> None) d"
    using p c dt by (simp add: check_fragment_into_document_def read_slot_in_doc e read_children_kids [OF wf])
  also have "\<dots> = (if \<not> root_ok (map (kind d) (kids d c) @ map (kind d) (kids d p))
     then Inl (Exception HIERARCHY_REQUEST_ERR) else Inr (), d)"
    unfolding root_ok_append [OF ro] find_kind_none
    by (subst fragment_loop_eq) (use gs in simp, rule swap)
  finally show ?thesis using True w by simp
qed

lemma is_fragment_kind: "in_doc d c \<Longrightarrow> ns_data (d_nodes d ! nd_index c) = DocumentFragment \<longleftrightarrow> kind d c = DOCUMENT_FRAGMENT_NODE"
  by (simp add: kind_in_doc type_of_inverse)

lemma cyclic_check:
  assumes wf: "tree_wf d" and p: "in_doc d p" and c: "in_doc d c"
  shows "(if c = p then ok True
          else if ns_first_child (d_nodes d ! nd_index c) \<noteq> None then is_ancestor c p else ok False) d =
    (Inr (at_or_above d c p), d)"
proof -
  note t = tree_wfD(1,2) [OF wf]
  have f: "ns_first_child (d_nodes d ! nd_index c) = hd_opt (kids d c)"
    using threadsD(3) [OF t(1), of c] c by (simp add: follow_in_doc)
  have "kids d c = [] \<Longrightarrow> at_or_above d c p \<Longrightarrow> c = p"
    unfolding at_or_above_def using climbs_childless [OF t(1), of p c] p c by simp
  moreover have "at_or_above d p p" by (simp add: at_or_above_def)
  ultimately show ?thesis using is_ancestor_above [OF t p, of c] f
    by (auto simp: ok_def at_or_above_def)
qed

lemma check_reference_eq:
  assumes wf: "tree_wf d" and p: "in_doc d p" and r: "\<And>x. r = Some x \<Longrightarrow> in_doc d x"
  shows "check_reference p r d =
    (if pred_option (\<lambda>x. x \<in> set (kids d p)) r then Inr () else Inl (Exception NOT_FOUND_ERR), d)"
  using kids_parent [OF wf p] r by (cases r) (simp_all add: ok_def read_slot_in_doc require_eq follow_in_doc)

lemma require_own_eq: "require_own i d = (if owns_node d i then Inr () else Inl (Exception WRONG_DOCUMENT_ERR), d)"
  by (simp add: require_own_def require_eq)

lemma require_own_option_eq:
  "require_own_option r d = (if pred_option (owns_node d) r then Inr () else Inl (Exception WRONG_DOCUMENT_ERR), d)"
  by (cases r) (simp_all add: ok_def require_own_eq)

lemma check_insertion_eq:
  assumes wf: "tree_wf d" and h: "handle d p" "handle d c" "pred_option (handle d) r"
  shows "check_insertion p c r d =
    (case insertion_error d p c r of None \<Rightarrow> Inr () | Some e \<Rightarrow> Inl (Exception e), d)"
proof (cases "owns_node d p \<and> owns_node d c \<and> pred_option (owns_node d) r")
  case False
  then show ?thesis by (auto simp: check_insertion_def insertion_error_def require_own_eq require_own_option_eq andThen_def)
next
  case True
  with h have i: "in_doc d p" "in_doc d c" "\<And>x. r = Some x \<Longrightarrow> in_doc d x" by (auto simp: handle_def)
  have own: "owns_node d p" "owns_node d c" "pred_option (owns_node d) r" using True by auto
  have "check_insertion p c r d =
    (if \<not> may_hold (kind d p) \<or> kind d c = DOCUMENT_NODE \<or> kind d c = ATTRIBUTE_NODE \<or> at_or_above d c p
     then (Inl (Exception HIERARCHY_REQUEST_ERR), d)
     else if \<not> pred_option (\<lambda>x. x \<in> set (kids d p)) r then (Inl (Exception NOT_FOUND_ERR), d)
     else if kind d c = DOCUMENT_FRAGMENT_NODE then check_fragment_into_document p c d
     else check_child_of_document p c d)"
    unfolding check_insertion_def
    by (simp add: require_own_eq require_own_option_eq own read_slot_in_doc i require_eq is_container_kind
        can_be_child_kind is_fragment_kind cyclic_check [OF wf i(1,2), simplified] check_reference_eq [OF wf i(1,3)]
        andThen_def flip: kind_in_doc)
  then show ?thesis
    using own i check_child_of_document_eq [OF wf i(1,2)] check_fragment_into_document_eq [OF wf i(1,2)]
    by (cases "p = document_node d"; cases "kind d c = DOCUMENT_FRAGMENT_NODE")
      (simp_all add: insertion_error_def insert_kids_root moved_def)
qed

section \<open>The moves\<close>

lemma without_without: "without cs (without bs K) = without (bs @ cs) K"
  by (rule ext) (auto simp: without_def intro: filter_cong)

lemma kids_apart: "tree_wf d \<Longrightarrow> x \<in> set (kids d p) \<Longrightarrow> x \<in> set (kids d q) \<Longrightarrow> p = q"
  using kids_in [of d x p] kids_in [of d x q] by simp

lemma without_apart:
  assumes "tree_wf d" "set cs \<subseteq> set (kids d f)" "p \<noteq> f"
  shows "without cs (kids d) p = kids d p"
  unfolding without_def using assms kids_apart [OF assms(1)] by (intro filter_True) blast

lemma at_or_above_child:
  assumes "tree_wf d" "g \<in> set (kids d f)" "\<not> at_or_above d f p"
  shows "\<not> at_or_above d g p"
proof
  assume "at_or_above d g p"
  moreover have "(g, f) \<in> climbs (links_of d)" using kids_in [OF assms(1,2)] by (simp add: climbs_def)
  ultimately have "at_or_above d f p" by (simp add: at_or_above_def rtrancl_into_rtrancl)
  with assms(3) show False ..
qed

lemma at_or_above_detached:
  assumes "links_of d' = unlink c (links_of d)" "\<not> at_or_above d a p"
  shows "\<not> at_or_above d' a p"
proof
  assume "at_or_above d' a p"
  moreover have "climbs (links_of d') \<subseteq> climbs (links_of d)"
    unfolding assms(1) by (auto simp: climbs_def split: if_splits)
  ultimately have "at_or_above d a p" unfolding at_or_above_def using rtrancl_mono by blast
  with assms(2) show False ..
qed

lemma at_or_above_placed:
  assumes "\<And>x. up (links_of d') x = (if x = g then Some p else up (links_of d) x)"
    "\<not> at_or_above d f p" "\<not> at_or_above d g p"
  shows "\<not> at_or_above d' f p"
proof
  assume "at_or_above d' f p"
  moreover have "climbs (links_of d') \<subseteq> insert (g, p) (climbs (links_of d))"
    unfolding climbs_def assms(1) by (auto split: if_splits)
  ultimately have "(p, f) \<in> (insert (g, p) (climbs (links_of d)))\<^sup>*" unfolding at_or_above_def using rtrancl_mono by blast
  then show False using assms(2,3) by (auto simp: at_or_above_def rtrancl_insert)
qed

lemma move_all_splice:
  "tree_wf d \<Longrightarrow> in_doc d p \<Longrightarrow> in_doc d f \<Longrightarrow> kids d f = gs \<Longrightarrow> may_hold (kind d p) \<Longrightarrow>
   \<not> at_or_above d f p \<Longrightarrow> (\<And>x. r = Some x \<Longrightarrow> x \<in> set (kids d p)) \<Longrightarrow>
   (p = document_node d \<Longrightarrow> root_ok (map (kind d) (gs @ kids d p))) \<Longrightarrow>
   \<exists>d'. move_all gs p r d = (Inr (), d') \<and> relinked d d' \<and> tree_wf d' \<and>
     kids d' = (without gs (kids d))(p := splice r gs (kids d p))"
proof (induction gs arbitrary: d)
  case Nil
  have "without [] (kids d) = kids d" by (rule ext) (simp add: without_def)
  with Nil show ?case by (auto simp: ok_def)
next
  case (Cons g gs)
  note wf = Cons.prems(1)
  have gf: "g \<in> set (kids d f)" using Cons.prems(4) by simp
  note g = kids_in [OF wf gf]
  have pf: "p \<noteq> f" using Cons.prems(6) by (auto simp: at_or_above_def)
  have gp: "g \<notin> set (kids d p)" using kids_apart [OF wf gf] pf by blast
  have dist: "distinct (g # gs)" using kids_distinct [OF wf, of f] Cons.prems(4) by simp
  obtain d1 where d1: "detach g d = (Inr (), d1)" "relinked d d1" "links_of d1 = unlink g (links_of d)" "tree_wf d1"
    "kids d1 = without [g] (kids d)" using detach_without [OF wf, of g] g by blast
  have k1: "kids d1 p = kids d p" "kids d1 f = gs"
    using gp dist Cons.prems(4) by (auto simp: d1(5) without_def intro!: filter_True)
  note rl1 = relinked_in_doc [OF d1(2)] relinked_kind [OF d1(2)] relinked_document_node [OF d1(2)]
  have u1: "follow ns_parent d1 g = None" using arg_cong [OF d1(3), of "\<lambda>l. up l g"] by simp
  have na1: "\<not> at_or_above d1 g p" "\<not> at_or_above d1 f p"
    using at_or_above_detached [OF d1(3)] at_or_above_child [OF wf gf] Cons.prems(6) by blast+
  have root: "root_ok (map (kind d) (g # kids d p))" if "p = document_node d"
    by (rule root_ok_sub [OF Cons.prems(8) [OF that]]) simp
  have "\<exists>d2. place p g r d1 = (Inr (), d2) \<and> relinked d1 d2 \<and>
    (\<forall>x. up (links_of d2) x = (if x = g then Some p else up (links_of d1) x)) \<and> tree_wf d2 \<and>
    kids d2 = (kids d1)(p := splice r [g] (kids d1 p))"
  proof (rule place_splice [OF d1(4)], goal_cases)
    case (7 )
    then show ?case using na1(1) by (simp add: at_or_above_def)
  qed (use Cons.prems g root kinds_okD(2) [OF tree_wfD(3) [OF wf] _ gf] k1(1) in \<open>simp_all add: rl1 u1\<close>)
  then obtain d2 where d2: "place p g r d1 = (Inr (), d2)" "relinked d1 d2"
    "\<And>x. up (links_of d2) x = (if x = g then Some p else up (links_of d1) x)" "tree_wf d2"
    "kids d2 = (kids d1)(p := splice r [g] (kids d1 p))" by blast
  note rl2 = relinked_in_doc [OF d2(2)] relinked_kind [OF d2(2)] relinked_document_node [OF d2(2)]
  have k2: "kids d2 f = gs" "kids d2 p = splice r [g] (kids d p)" using pf by (simp_all add: d2(5) k1)
  have "\<exists>d'. move_all gs p r d2 = (Inr (), d') \<and> relinked d2 d' \<and> tree_wf d' \<and>
     kids d' = (without gs (kids d2))(p := splice r gs (kids d2 p))"
  proof (rule Cons.IH [OF d2(4)], goal_cases)
    case 5
    show ?case using at_or_above_placed [OF d2(3)] na1 by blast
  next
    case 7
    then have "root_ok (map (kind d) ((g # gs) @ kids d p))" using Cons.prems(8) by (simp add: rl1 rl2)
    then show ?case unfolding k2 rl2 rl1 by (rule root_ok_sub) (simp add: mset_splice)
  qed (use Cons.prems k2 in \<open>auto simp: rl1 rl2\<close>)
  then obtain d' where d': "move_all gs p r d2 = (Inr (), d')" "relinked d2 d'" "tree_wf d'"
    "kids d' = (without gs (kids d2))(p := splice r gs (kids d2 p))" by blast
  have rg: "r \<noteq> Some g" using Cons.prems(7) gp by blast
  have "kids d' = (without (g # gs) (kids d))(p := splice r (g # gs) (kids d p))"
  proof
    fix x
    show "kids d' x = ((without (g # gs) (kids d))(p := splice r (g # gs) (kids d p))) x"
    proof (cases "x = p")
      case False
      then have "kids d2 x = without [g] (kids d) x" by (simp add: d2(5) d1(5))
      with False show ?thesis by (simp add: d'(4) without_def)
    qed (simp add: d'(4) k2(2) splice_Cons [OF rg])
  qed
  then show ?case using d1 d2 d' by (auto intro: relinked_trans)
qed

section \<open>The operations\<close>

lemma insertion_error_None:
  assumes "insertion_error d p c r = None" "handle d p" "handle d c" "pred_option (handle d) r"
  shows "in_doc d p" "in_doc d c" "may_hold (kind d p)" "kind d c \<noteq> DOCUMENT_NODE" "kind d c \<noteq> ATTRIBUTE_NODE"
    "\<not> at_or_above d c p" "r = Some x \<Longrightarrow> x \<in> set (kids d p)"
    "p = document_node d \<Longrightarrow> root_ok (map (kind d) (moved d c @ without (moved d c) (kids d) p))"
  using assms unfolding insertion_error_def handle_def by (auto simp: insert_kids_root split: if_splits)

lemma insert_before_moves:
  assumes wf: "tree_wf d" and h: "handle d p" "handle d c" "pred_option (handle d) r"
    and e: "insertion_error d p c r = None" and rc: "r \<noteq> Some c"
  shows "\<exists>d'. insert_before p c r d = (Inr c, d') \<and> relinked d d' \<and> tree_wf d' \<and>
    kids d' = insert_kids p r (moved d c) (kids d)"
proof -
  note i = insertion_error_None [OF e h]
  note chk = check_insertion_eq [OF wf h, unfolded e, simplified]
  show ?thesis
  proof (cases "kind d c = DOCUMENT_FRAGMENT_NODE")
    case True
    then have m: "moved d c = kids d c" by (simp add: moved_def)
    have "p \<noteq> c" using i(6) by (auto simp: at_or_above_def)
    then have w: "without (kids d c) (kids d) p = kids d p" by (intro without_apart [OF wf]) auto
    obtain d' where d': "move_all (kids d c) p r d = (Inr (), d')" "relinked d d'" "tree_wf d'"
      "kids d' = (without (kids d c) (kids d))(p := splice r (kids d c) (kids d p))"
      using move_all_splice [OF wf i(1,2) refl i(3,6,7)] i(8) unfolding m w by blast
    have "insert_before p c r d = (Inr c, d')"
      unfolding insert_before_def using i(2) True
      by (simp add: chk read_slot_in_doc is_fragment_kind read_children_kids [OF wf] d'(1) ok_def)
    with d' show ?thesis by (auto simp: m insert_kids_def w)
  next
    case False
    then have m: "moved d c = [c]" by (simp add: moved_def)
    obtain d1 where d1: "detach c d = (Inr (), d1)" "relinked d d1" "links_of d1 = unlink c (links_of d)" "tree_wf d1"
      "kids d1 = without [c] (kids d)" using detach_without [OF wf i(2)] by blast
    note rl1 = relinked_in_doc [OF d1(2)] relinked_kind [OF d1(2)] relinked_document_node [OF d1(2)]
    have u1: "follow ns_parent d1 c = None" using arg_cong [OF d1(3), of "\<lambda>l. up l c"] by simp
    have na: "(p, c) \<notin> (climbs (links_of d1))\<^sup>*"
      using at_or_above_detached [OF d1(3) i(6)] by (simp add: at_or_above_def)
    have "\<exists>d'. place p c r d1 = (Inr (), d') \<and> relinked d1 d' \<and>
      (\<forall>x. up (links_of d') x = (if x = c then Some p else up (links_of d1) x)) \<and> tree_wf d' \<and>
      kids d' = (kids d1)(p := splice r [c] (kids d1 p))"
      using i(8) unfolding m
      by (intro place_splice [OF d1(4)])
         (use i rc na u1 False in \<open>auto simp: rl1 d1(5) without_def may_be_held_def\<close>)
    then obtain d' where d': "place p c r d1 = (Inr (), d')" "relinked d1 d'" "tree_wf d'"
      "kids d' = (kids d1)(p := splice r [c] (kids d1 p))" by blast
    have "insert_before p c r d = (Inr c, d')"
      unfolding insert_before_def using i(2) False
      by (simp add: chk read_slot_in_doc is_fragment_kind d1(1) d'(1) ok_def)
    with d' d1 show ?thesis by (auto simp: m insert_kids_def intro: relinked_trans)
  qed
qed

lemma insert_before_refused:
  assumes "tree_wf d" "handle d p" "handle d c" "pred_option (handle d) r" "insertion_error d p c r = Some e"
  shows "insert_before p c r d = (Inl (Exception e), d)"
  using check_insertion_eq [OF assms(1-4)] assms(5) by (simp add: insert_before_def)

definition removal_error :: "document \<Rightarrow> node_id \<Rightarrow> node_id \<Rightarrow> exception_code option" where
  "removal_error d p c =
     (if \<not> (owns_node d p \<and> owns_node d c) then Some WRONG_DOCUMENT_ERR
      else if c \<notin> set (kids d p) then Some NOT_FOUND_ERR else None)"

lemma parent_check:
  "tree_wf d \<Longrightarrow> in_doc d p \<Longrightarrow> in_doc d c \<Longrightarrow> ns_parent (d_nodes d ! nd_index c) = Some p \<longleftrightarrow> c \<in> set (kids d p)"
  by (simp add: kids_parent follow_in_doc)

lemma remove_child_eq:
  assumes wf: "tree_wf d" and h: "handle d p" "handle d c"
  shows "case removal_error d p c of
      Some e \<Rightarrow> remove_child p c d = (Inl (Exception e), d)
    | None \<Rightarrow> \<exists>d'. remove_child p c d = (Inr c, d') \<and> relinked d d' \<and> tree_wf d' \<and> kids d' = without [c] (kids d)"
proof (cases "owns_node d p \<and> owns_node d c")
  case True
  with h have i: "in_doc d p" "in_doc d c" by (auto simp: handle_def)
  obtain d1 where d1: "detach c d = (Inr (), d1)" "relinked d d1" "tree_wf d1" "kids d1 = without [c] (kids d)"
    using detach_without [OF wf i(2)] by blast
  have "remove_child p c d = (if c \<in> set (kids d p) then (Inr c, d1) else (Inl (Exception NOT_FOUND_ERR), d))"
    unfolding remove_child_def using True i
    by (simp add: require_own_eq read_slot_in_doc require_eq parent_check [OF wf] d1(1) ok_def andThen_def)
  with True d1 show ?thesis by (simp add: removal_error_def)
next
  case False
  then show ?thesis by (auto simp: removal_error_def remove_child_def require_own_eq andThen_def)
qed

definition replacement_error :: "document \<Rightarrow> node_id \<Rightarrow> node_id \<Rightarrow> node_id \<Rightarrow> exception_code option" where
  "replacement_error d p new old =
     (if \<not> (owns_node d p \<and> owns_node d new \<and> owns_node d old) then Some WRONG_DOCUMENT_ERR
      else if old \<notin> set (kids d p) then Some NOT_FOUND_ERR
      else insertion_error d p new (Some old))"

lemma replace_child_eq:
  assumes wf: "tree_wf d" and h: "handle d p" "handle d new" "handle d old" and ne: "new \<noteq> old"
  shows "case replacement_error d p new old of
      Some e \<Rightarrow> replace_child p new old d = (Inl (Exception e), d)
    | None \<Rightarrow> \<exists>d'. replace_child p new old d = (Inr old, d') \<and> relinked d d' \<and> tree_wf d' \<and>
        kids d' = without [old] (insert_kids p (Some old) (moved d new) (kids d))"
proof (cases "owns_node d p \<and> owns_node d new \<and> owns_node d old")
  case True
  with h have i: "in_doc d p" "in_doc d new" "in_doc d old" by (auto simp: handle_def)
  have h': "pred_option (handle d) (Some old)" using h by simp
  have own: "owns_node d p" "owns_node d new" "owns_node d old" using True by auto
  show ?thesis
  proof (cases "old \<in> set (kids d p)")
    case False
    with own i show ?thesis
      by (simp add: replacement_error_def replace_child_def require_own_eq read_slot_in_doc require_eq parent_check [OF wf] andThen_def)
  next
    case old: True
    show ?thesis
    proof (cases "insertion_error d p new (Some old)")
      case (Some e)
      with own i old insert_before_refused [OF wf h(1,2) h' Some] show ?thesis
        by (simp add: replacement_error_def replace_child_def require_own_eq read_slot_in_doc require_eq parent_check [OF wf])
    next
      case None
      obtain d1 where d1: "insert_before p new (Some old) d = (Inr new, d1)" "relinked d d1" "tree_wf d1"
        "kids d1 = insert_kids p (Some old) (moved d new) (kids d)"
        using insert_before_moves [OF wf h(1,2) h' None] ne by auto
      have "in_doc d1 old" using i(3) relinked_in_doc [OF d1(2)] by simp
      then obtain d2 where d2: "detach old d1 = (Inr (), d2)" "relinked d1 d2" "tree_wf d2" "kids d2 = without [old] (kids d1)"
        using detach_without [OF d1(3)] by blast
      have "replace_child p new old d = (Inr old, d2)"
        unfolding replace_child_def using own i old d1(1) d2(1)
        by (simp add: require_own_eq read_slot_in_doc require_eq parent_check [OF wf] ok_def)
      with own old None d1 d2 show ?thesis by (auto simp: replacement_error_def intro: relinked_trans)
    qed
  qed
next
  case False
  then show ?thesis by (auto simp: replacement_error_def replace_child_def require_own_eq andThen_def)
qed

text \<open>
  The error a replacement should be refused with: as for an insertion, but with the rules of the document
  asked of the children it will have, with the old node gone.
\<close>

definition exchange_error :: "document \<Rightarrow> node_id \<Rightarrow> node_id \<Rightarrow> node_id \<Rightarrow> exception_code option" where
  "exchange_error d p new old =
     (if \<not> (owns_node d p \<and> owns_node d new \<and> owns_node d old) then Some WRONG_DOCUMENT_ERR
      else if old \<notin> set (kids d p) then Some NOT_FOUND_ERR
      else if \<not> may_hold (kind d p) \<or> kind d new = DOCUMENT_NODE \<or> kind d new = ATTRIBUTE_NODE \<or> at_or_above d new p
      then Some HIERARCHY_REQUEST_ERR
      else if p = document_node d \<and>
        \<not> root_ok (map (kind d) (without [old] (insert_kids p (Some old) (moved d new) (kids d)) p))
      then Some HIERARCHY_REQUEST_ERR
      else None)"

text \<open>Where the code refuses more: the old node is counted among the children beside the new one.\<close>

definition counted_twice :: "document \<Rightarrow> node_id \<Rightarrow> node_id \<Rightarrow> node_id \<Rightarrow> bool" where
  "counted_twice d p new old \<longleftrightarrow> p = document_node d \<and> kind d old \<in> {ELEMENT_NODE, DOCUMENT_TYPE_NODE} \<and>
     kind d old \<in> kind d ` set (moved d new)"

lemma root_ok_count: "root_ok ts \<longleftrightarrow> count (mset ts) TEXT_NODE = 0 \<and> count (mset ts) CDATA_SECTION_NODE = 0 \<and>
    count (mset ts) ELEMENT_NODE \<le> 1 \<and> count (mset ts) DOCUMENT_TYPE_NODE \<le> 1"
  by (simp add: root_ok_def count_eq_zero_iff)

lemma root_ok_tail: "root_ok (t # ts) \<Longrightarrow> root_ok ts"
  by (rule root_ok_sub [of "t # ts"]) simp_all

lemma root_ok_extra:
  assumes "root_ok (t # rs)" "root_ok (ms @ rs)"
  shows "root_ok (t # ms @ rs) \<longleftrightarrow> \<not> (t \<in> {ELEMENT_NODE, DOCUMENT_TYPE_NODE} \<and> t \<in> set ms)"
proof -
  have "t \<in> set ms \<longleftrightarrow> count (mset ms) t \<noteq> 0" by (simp add: count_eq_zero_iff)
  then show ?thesis using assms unfolding root_ok_count by auto
qed

lemma mset_filter_other: "distinct xs \<Longrightarrow> x \<in> set xs \<Longrightarrow> mset xs = add_mset x (mset (filter (\<lambda>y. y \<noteq> x) xs))"
proof (induction xs)
  case (Cons y xs)
  show ?case
  proof (cases "y = x")
    case True
    then have "filter (\<lambda>y. y \<noteq> x) xs = xs" using Cons.prems(1) by (intro filter_True) auto
    with True show ?thesis by (simp del: mset_filter)
  qed (use Cons in simp)
qed simp

lemma replacement_error_exchange:
  assumes wf: "tree_wf d" and ne: "new \<noteq> old"
  shows "replacement_error d p new old =
    (case exchange_error d p new old of Some x \<Rightarrow> Some x
     | None \<Rightarrow> if counted_twice d p new old then Some HIERARCHY_REQUEST_ERR else None)"
proof (cases "p = document_node d \<and> old \<in> set (kids d p) \<and> \<not> at_or_above d new p")
  case True
  then have p: "p = document_node d" and old: "old \<in> set (kids d p)" and na: "\<not> at_or_above d new p" by auto
  let ?m = "moved d new" and ?R = "without (moved d new) (kids d) p"
  let ?rs = "filter (\<lambda>x. x \<noteq> old) ?R"
  have "new \<noteq> p" using na by (auto simp: at_or_above_def)
  then have om: "old \<notin> set ?m" using ne kids_apart [OF wf old] by (auto simp: moved_def)
  have "distinct ?R" "old \<in> set ?R" using kids_distinct [OF wf, of p] old om by (simp_all add: without_def)
  then have R: "mset ?R = mset (old # ?rs)" using mset_filter_other [of ?R old] by simp
  have "mset (old # ?rs) \<subseteq># mset (kids d p)" unfolding R [symmetric] by (simp add: without_def)
  then have "mset (map (kind d) (old # ?rs)) \<subseteq># mset (map (kind d) (kids d p))"
    unfolding mset_map by (rule image_mset_subseteq_mono)
  then have "root_ok (map (kind d) (old # ?rs))"
    using root_ok_sub [OF kinds_okD(3) [OF tree_wfD(3) [OF wf]]] p by blast
  then have extra: "root_ok (map (kind d) (?m @ ?rs)) \<Longrightarrow>
      root_ok (map (kind d) (old # ?m @ ?rs)) \<longleftrightarrow> \<not> counted_twice d p new old"
    using root_ok_extra [of "kind d old" "map (kind d) ?rs" "map (kind d) ?m"] by (simp add: counted_twice_def p)
  have sub: "root_ok (map (kind d) (old # ?m @ ?rs)) \<Longrightarrow> root_ok (map (kind d) (?m @ ?rs))"
    by (simp add: root_ok_tail)
  have with_old: "root_ok (map (kind d) (insert_kids p (Some old) ?m (kids d) p)) = root_ok (map (kind d) (old # ?m @ ?rs))"
    using R by (intro root_ok_mset) (simp add: insert_kids_def mset_splice del: mset_filter)
  have without_old: "root_ok (map (kind d) (without [old] (insert_kids p (Some old) ?m (kids d)) p)) =
      root_ok (map (kind d) (?m @ ?rs))"
  proof (rule root_ok_mset)
    have "filter_mset (\<lambda>x. x \<noteq> old) (mset ?m) = mset ?m" using om by (auto simp: filter_mset_eq_conv)
    then show "mset (map (kind d) (without [old] (insert_kids p (Some old) ?m (kids d)) p)) = mset (map (kind d) (?m @ ?rs))"
      by (simp add: insert_kids_def without_def [of "[old]"] mset_splice)
  qed
  show ?thesis
  proof (cases "root_ok (map (kind d) (?m @ ?rs))")
    case ok: True
    show ?thesis
      unfolding replacement_error_def exchange_error_def insertion_error_def with_old without_old extra [OF ok]
      using ok old p by (simp del: map_append list.map)
  next
    case False
    then have "\<not> root_ok (map (kind d) (old # ?m @ ?rs))" using sub by blast
    then show ?thesis
      unfolding replacement_error_def exchange_error_def insertion_error_def with_old without_old
      using False old p by (simp del: map_append list.map)
  qed
next
  case False
  then show ?thesis
    by (auto simp: replacement_error_def exchange_error_def insertion_error_def counted_twice_def)
qed

end
