(* ===== verification/Dom_Attr.thy ===== *)
theory Dom_Attr
  imports Dom_Insert
begin

text \<open>
  Names, values and attributes in \<open>dom/document.rs\<close> and the attribute map of \<open>dom/collection.rs\<close>. The
  attributes of an element read as a map from namespace and local name to value.
\<close>

section \<open>Names and values\<close>

text \<open>An accessor that reads a value is a function to \<open>option\<close>, \<open>None\<close> where it panics.\<close>

definition lexical_own :: "name_pool \<Rightarrow> qname \<Rightarrow> ustring option" where
  "lexical_own pool q =
     (case qn_prefix q of
        None \<Rightarrow> map_option (lexical None) (resolve_own pool (qn_local q))
      | Some prefix \<Rightarrow>
          Option.bind (resolve_own pool prefix) (\<lambda>pr. map_option (lexical (Some pr)) (resolve_own pool (qn_local q))))"

fun name_of_data :: "name_pool \<Rightarrow> node_data \<Rightarrow> ustring option" where
  "name_of_data pool (Element e) = lexical_own pool (ed_name e)"
| "name_of_data pool (Attribute a) = lexical_own pool (ad_name a)"
| "name_of_data pool (ProcessingInstruction target _) = resolve_own pool target"
| "name_of_data pool (DocumentType name _ _) = resolve_own pool name"
| "name_of_data pool (Text _) = Some (lit ''#text'')"
| "name_of_data pool (CdataSection _) = Some (lit ''#cdata-section'')"
| "name_of_data pool (Comment _) = Some (lit ''#comment'')"
| "name_of_data pool Document = Some (lit ''#document'')"
| "name_of_data pool DocumentFragment = Some (lit ''#document-fragment'')"

definition node_name :: "document \<Rightarrow> node_id \<Rightarrow> ustring option" where
  "node_name d i = Option.bind (data_of d i) (name_of_data (d_pool d))"

fun value_of_data :: "node_data \<Rightarrow> ustring option" where
  "value_of_data (Attribute a) = Some (ad_value a)"
| "value_of_data (Text x) = Some x"
| "value_of_data (CdataSection x) = Some x"
| "value_of_data (Comment x) = Some x"
| "value_of_data (ProcessingInstruction _ x) = Some x"
| "value_of_data _ = None"

definition node_value :: "document \<Rightarrow> node_id \<Rightarrow> ustring option option" where
  "node_value d i = map_option value_of_data (data_of d i)"

fun qname_of_data :: "node_data \<Rightarrow> qname option" where
  "qname_of_data (Element e) = Some (ed_name e)"
| "qname_of_data (Attribute a) = Some (ad_name a)"
| "qname_of_data _ = None"

definition name_of :: "document \<Rightarrow> node_id \<Rightarrow> qname option option" where
  "name_of d i = map_option qname_of_data (data_of d i)"

text \<open>\<open>Option::map\<close> with a function that can panic.\<close>

definition resolve_opt :: "name_pool \<Rightarrow> name_id option \<Rightarrow> ustring option option" where
  "resolve_opt pool h = (case h of None \<Rightarrow> Some None | Some h \<Rightarrow> map_option Some (resolve_own pool h))"

definition local_name :: "document \<Rightarrow> node_id \<Rightarrow> ustring option option" where
  "local_name d i = Option.bind (name_of d i) (\<lambda>n. resolve_opt (d_pool d) (map_option qn_local n))"

definition prefix_of :: "document \<Rightarrow> node_id \<Rightarrow> ustring option option" where
  "prefix_of d i = Option.bind (name_of d i) (\<lambda>n. resolve_opt (d_pool d) (Option.bind n qn_prefix))"

definition namespace_uri :: "document \<Rightarrow> node_id \<Rightarrow> ustring option option" where
  "namespace_uri d i =
     Option.bind (name_of d i) (\<lambda>n. resolve_opt (d_pool d) (Option.bind n (\<lambda>q. en_namespace (qn_expanded q))))"

fun public_id_of :: "node_data \<Rightarrow> ustring option" where
  "public_id_of (DocumentType _ p _) = p"
| "public_id_of _ = None"

definition public_id :: "document \<Rightarrow> node_id \<Rightarrow> ustring option option" where
  "public_id d i = map_option public_id_of (data_of d i)"

fun system_id_of :: "node_data \<Rightarrow> ustring option" where
  "system_id_of (DocumentType _ _ s) = s"
| "system_id_of _ = None"

definition system_id :: "document \<Rightarrow> node_id \<Rightarrow> ustring option option" where
  "system_id d i = map_option system_id_of (data_of d i)"

section \<open>Base URIs\<close>

fun base_from :: "nat \<Rightarrow> document \<Rightarrow> node_id option \<Rightarrow> ustring option option" where
  "base_from fuel d None = resolve_opt (d_pool d) (d_base d)"
| "base_from 0 d (Some i) = None"
| "base_from (Suc fuel) d (Some i) =
     (case slot d i of
        None \<Rightarrow> None
      | Some s \<Rightarrow>
          (case ns_data s of
             Element e \<Rightarrow>
               (case ed_base e of
                  Some base \<Rightarrow> map_option Some (resolve_own (d_pool d) base)
                | None \<Rightarrow> base_from fuel d (ns_parent s))
           | _ \<Rightarrow> base_from fuel d (ns_parent s)))"

fun base_start :: "node_id \<Rightarrow> node_data \<Rightarrow> node_id option" where
  "base_start i (Attribute a) = ad_owner a"
| "base_start i _ = Some i"

definition base_uri :: "document \<Rightarrow> node_id \<Rightarrow> ustring option option" where
  "base_uri d i = Option.bind (data_of d i) (\<lambda>x. base_from (Suc (length (d_nodes d))) d (base_start i x))"

definition set_document_base :: "ustring option \<Rightarrow> unit dom" where
  "set_document_base base = andThen (intern_option base) (\<lambda>b d. ok () (d\<lparr>d_base := b\<rparr>))"

definition set_element_base :: "node_id \<Rightarrow> ustring option \<Rightarrow> unit dom" where
  "set_element_base element base =
     andThen (intern_option base) (\<lambda>b.
     write_slot element (\<lambda>s. case ns_data s of Element e \<Rightarrow> s\<lparr>ns_data := Element (e\<lparr>ed_base := b\<rparr>)\<rparr> | _ \<Rightarrow> s))"

section \<open>Attributes\<close>

fun element_part :: "node_data \<Rightarrow> element_data option" where
  "element_part (Element e) = Some e"
| "element_part _ = None"

fun attr_part :: "node_data \<Rightarrow> attr_data option" where
  "attr_part (Attribute a) = Some a"
| "attr_part _ = None"

definition element_data_of :: "document \<Rightarrow> node_id \<Rightarrow> element_data option option" where
  "element_data_of d i = map_option element_part (data_of d i)"

text \<open>\<open>element_data_mut\<close> and \<open>attr_data_mut\<close>, with the change made through the reference: \<open>unreachable!\<close> is a panic.\<close>

definition element_data_mut :: "node_id \<Rightarrow> (element_data \<Rightarrow> element_data) \<Rightarrow> unit dom" where
  "element_data_mut i f =
     andThen (read_index i) (\<lambda>s.
     case ns_data s of
       Element e \<Rightarrow> write_slot i (\<lambda>t. t\<lparr>ns_data := Element (f e)\<rparr>)
     | _ \<Rightarrow> panic)"

definition attr_data_mut :: "node_id \<Rightarrow> (attr_data \<Rightarrow> attr_data) \<Rightarrow> unit dom" where
  "attr_data_mut i f =
     andThen (read_index i) (\<lambda>s.
     case ns_data s of
       Attribute a \<Rightarrow> write_slot i (\<lambda>t. t\<lparr>ns_data := Attribute (f a)\<rparr>)
     | _ \<Rightarrow> panic)"

definition attr_data_of :: "node_id \<Rightarrow> attr_data dom" where
  "attr_data_of i =
     andThen (read_slot i) (\<lambda>s. case ns_data s of Attribute a \<Rightarrow> ok a | _ \<Rightarrow> panic)"

definition require_element :: "node_id \<Rightarrow> unit dom" where
  "require_element i = andThen (read_slot i) (\<lambda>s. require (element_part (ns_data s) \<noteq> None) NOT_SUPPORTED_ERR)"

fun find_in :: "document \<Rightarrow> (attr_data \<Rightarrow> bool) \<Rightarrow> node_id list \<Rightarrow> node_id option option" where
  "find_in d P [] = Some None"
| "find_in d P (a # as) =
     (case slot d a of
        None \<Rightarrow> None
      | Some s \<Rightarrow>
          (if (case attr_part (ns_data s) of Some x \<Rightarrow> P x | None \<Rightarrow> False) then Some (Some a) else find_in d P as))"

definition find_attribute :: "document \<Rightarrow> node_id \<Rightarrow> (attr_data \<Rightarrow> bool) \<Rightarrow> node_id option option" where
  "find_attribute d element P =
     Option.bind (element_data_of d element) (\<lambda>e.
       case e of None \<Rightarrow> Some None | Some e \<Rightarrow> find_in d P (ed_attributes e))"

definition read_of :: "(document \<Rightarrow> 'a option) \<Rightarrow> 'a dom" where
  "read_of f d = (case f d of None \<Rightarrow> panic d | Some a \<Rightarrow> ok a d)"

definition put_attribute :: "node_id \<Rightarrow> qname \<Rightarrow> ustring \<Rightarrow> unit dom" where
  "put_attribute element name v =
     andThen (read_of (\<lambda>d. find_attribute d element (\<lambda>a. qn_expanded (ad_name a) = qn_expanded name))) (\<lambda>found.
     case found of
       Some attr \<Rightarrow> attr_data_mut attr (\<lambda>a. a\<lparr>ad_value := v\<rparr>)
     | None \<Rightarrow>
         andThen (push_node (new_attribute name v (Some element))) (\<lambda>attr.
         element_data_mut element (\<lambda>e. e\<lparr>ed_attributes := ed_attributes e @ [attr]\<rparr>)))"

definition set_attribute :: "node_id \<Rightarrow> ustring \<Rightarrow> ustring \<Rightarrow> unit dom" where
  "set_attribute element qualified_name v =
     andThen (require_own element) (\<lambda>_.
     andThen (require_element element) (\<lambda>_.
     andThen (parse_qname qualified_name None) (\<lambda>name.
     put_attribute element name v)))"

definition set_attribute_ns :: "node_id \<Rightarrow> ustring option \<Rightarrow> ustring \<Rightarrow> ustring \<Rightarrow> unit dom" where
  "set_attribute_ns element namespace qualified_name v =
     andThen (require_own element) (\<lambda>_.
     andThen (require_element element) (\<lambda>_.
     andThen (check_qname_namespace namespace qualified_name True) (\<lambda>_.
     andThen (intern_option namespace) (\<lambda>namespace.
     andThen (parse_qname qualified_name namespace) (\<lambda>name.
     put_attribute element name v)))))"

text \<open>\<open>Some(pool.get(p)?)\<close> for an optional name: \<open>None\<close> ends the lookup.\<close>

fun get_option :: "name_pool \<Rightarrow> ustring option \<Rightarrow> name_id option option" where
  "get_option pool None = Some None"
| "get_option pool (Some s) = map_option Some (get pool s)"

definition get_attribute_node :: "document \<Rightarrow> node_id \<Rightarrow> ustring \<Rightarrow> node_id option option" where
  "get_attribute_node d element qualified_name =
     (case split_qname qualified_name of
        None \<Rightarrow> Some None
      | Some (prefix, local) \<Rightarrow>
          (case get_option (d_pool d) prefix of
             None \<Rightarrow> Some None
           | Some prefix \<Rightarrow>
               (case get (d_pool d) local of
                  None \<Rightarrow> Some None
                | Some local \<Rightarrow>
                    find_attribute d element (\<lambda>a. qn_prefix (ad_name a) = prefix \<and> qn_local (ad_name a) = local))))"

definition get_attribute_node_ns :: "document \<Rightarrow> node_id \<Rightarrow> ustring option \<Rightarrow> ustring \<Rightarrow> node_id option option" where
  "get_attribute_node_ns d element namespace local =
     (case get_option (d_pool d) namespace of
        None \<Rightarrow> Some None
      | Some namespace \<Rightarrow>
          (case get (d_pool d) local of
             None \<Rightarrow> Some None
           | Some local \<Rightarrow>
               find_attribute d element
                 (\<lambda>a. en_namespace (qn_expanded (ad_name a)) = namespace \<and> qn_local (ad_name a) = local)))"

fun owner_of_data :: "node_data \<Rightarrow> node_id option" where
  "owner_of_data (Attribute a) = ad_owner a"
| "owner_of_data _ = None"

definition owner_element :: "document \<Rightarrow> node_id \<Rightarrow> node_id option option" where
  "owner_element d i = map_option owner_of_data (data_of d i)"

definition value_at :: "document \<Rightarrow> node_id option \<Rightarrow> ustring option option" where
  "value_at d attr = (case attr of None \<Rightarrow> Some None | Some a \<Rightarrow> node_value d a)"

definition attribute :: "document \<Rightarrow> node_id \<Rightarrow> ustring \<Rightarrow> ustring option option" where
  "attribute d element qualified_name = Option.bind (get_attribute_node d element qualified_name) (value_at d)"

definition attribute_ns :: "document \<Rightarrow> node_id \<Rightarrow> ustring option \<Rightarrow> ustring \<Rightarrow> ustring option option" where
  "attribute_ns d element namespace local =
     Option.bind (get_attribute_node_ns d element namespace local) (value_at d)"

definition has_attribute :: "document \<Rightarrow> node_id \<Rightarrow> ustring \<Rightarrow> bool option" where
  "has_attribute d element qualified_name = map_option (\<lambda>a. a \<noteq> None) (get_attribute_node d element qualified_name)"

text \<open>\<open>NamedNodeMap\<close>: the attribute nodes of an element, none for another node.\<close>

definition attributes :: "document \<Rightarrow> node_id \<Rightarrow> node_id list option" where
  "attributes d element =
     map_option (\<lambda>e. case e of None \<Rightarrow> [] | Some e \<Rightarrow> ed_attributes e) (element_data_of d element)"

definition attributes_item :: "document \<Rightarrow> node_id \<Rightarrow> nat \<Rightarrow> node_id option option" where
  "attributes_item d element n =
     map_option (\<lambda>as. if n < length as then Some (as ! n) else None) (attributes d element)"

definition attribute_names :: "document \<Rightarrow> node_id \<Rightarrow> ustring list option" where
  "attribute_names d element = Option.bind (attributes d element) (\<lambda>as. those (map (node_name d) as))"

fun remove_at :: "nat \<Rightarrow> 'a list \<Rightarrow> 'a list" where
  "remove_at n [] = []"
| "remove_at 0 (x # xs) = xs"
| "remove_at (Suc n) (x # xs) = x # remove_at n xs"

fun position :: "('a \<Rightarrow> bool) \<Rightarrow> 'a list \<Rightarrow> nat option" where
  "position P [] = None"
| "position P (x # xs) = (if P x then Some 0 else map_option Suc (position P xs))"

definition remove_attribute_node :: "node_id \<Rightarrow> node_id \<Rightarrow> node_id dom" where
  "remove_attribute_node element attr =
     andThen (require_own element) (\<lambda>_.
     andThen (require_own attr) (\<lambda>_.
     andThen (read_index element) (\<lambda>s.
     case ns_data s of
       Element e \<Rightarrow>
         (case position (\<lambda>a. a = attr) (ed_attributes e) of
            None \<Rightarrow> fail NOT_FOUND_ERR
          | Some n \<Rightarrow>
              andThen (element_data_mut element (\<lambda>e. e\<lparr>ed_attributes := remove_at n (ed_attributes e)\<rparr>)) (\<lambda>_.
              andThen (attr_data_mut attr (\<lambda>a. a\<lparr>ad_owner := None\<rparr>)) (\<lambda>_. ok attr)))
     | _ \<Rightarrow> panic)))"

definition remove_attribute :: "node_id \<Rightarrow> ustring \<Rightarrow> unit dom" where
  "remove_attribute element qualified_name =
     andThen (require_own element) (\<lambda>_.
     andThen (require_element element) (\<lambda>_.
     andThen (read_of (\<lambda>d. get_attribute_node d element qualified_name)) (\<lambda>found.
     case found of
       None \<Rightarrow> ok ()
     | Some attr \<Rightarrow> andThen (remove_attribute_node element attr) (\<lambda>_. ok ()))))"

definition set_attribute_node :: "node_id \<Rightarrow> node_id \<Rightarrow> unit dom" where
  "set_attribute_node element attr =
     andThen (require_own element) (\<lambda>_.
     andThen (require_own attr) (\<lambda>_.
     andThen (require_element element) (\<lambda>_.
     andThen (read_slot attr) (\<lambda>s.
     case ns_data s of
       Attribute data \<Rightarrow>
         andThen (attr_data_of attr) (\<lambda>a.
         andThen (require (ad_owner a = None \<or> ad_owner a = Some element) INUSE_ATTRIBUTE_ERR) (\<lambda>_.
         andThen (read_of (\<lambda>d. find_attribute d element (\<lambda>a. qn_expanded (ad_name a) = qn_expanded (ad_name data)))) (\<lambda>found.
         andThen (case found of
                    Some existing \<Rightarrow> andThen (remove_attribute_node element existing) (\<lambda>_. ok ())
                  | None \<Rightarrow> ok ()) (\<lambda>_.
         andThen (attr_data_mut attr (\<lambda>a. a\<lparr>ad_owner := Some element\<rparr>)) (\<lambda>_.
         element_data_mut element (\<lambda>e. e\<lparr>ed_attributes := ed_attributes e @ [attr]\<rparr>))))))
     | _ \<Rightarrow> fail NOT_SUPPORTED_ERR))))"

definition set_id_attribute :: "node_id \<Rightarrow> ustring \<Rightarrow> bool \<Rightarrow> unit dom" where
  "set_id_attribute element qualified_name is_id =
     andThen (require_own element) (\<lambda>_.
     andThen (read_of (\<lambda>d. get_attribute_node d element qualified_name)) (\<lambda>found.
     case found of
       None \<Rightarrow> fail NOT_FOUND_ERR
     | Some attr \<Rightarrow> attr_data_mut attr (\<lambda>a. a\<lparr>ad_is_id := is_id\<rparr>)))"

definition is_id_attribute :: "document \<Rightarrow> node_id \<Rightarrow> bool option" where
  "is_id_attribute d i = map_option (\<lambda>x. case attr_part x of Some a \<Rightarrow> ad_is_id a | None \<Rightarrow> False) (data_of d i)"

end
