(* ===== verification/Dom_Inv.thy ===== *)
theory Dom_Inv
  imports Dom_Attr
begin

text \<open>
  The invariant of a document, \<open>doc_wf\<close>: the tree, the ownership of attributes, and the names, which
  the document's pool resolves. Every operation of \<open>dom/document.rs\<close> keeps it, and none of them panics
  on handles of the document.
\<close>

section \<open>Changes of a document\<close>

text \<open>Interning: only the pool grows.\<close>

definition interned :: "document \<Rightarrow> document \<Rightarrow> bool" where
  "interned d d' \<longleftrightarrow> (\<exists>p. d' = d\<lparr>d_pool := p\<rparr> \<and> pool_wf p \<and>
     (\<forall>h s. resolve (d_pool d) h = Some s \<longrightarrow> resolve p h = Some s))"

lemma interned_refl: "pool_wf (d_pool d) \<Longrightarrow> interned d d"
  unfolding interned_def by (rule exI [of _ "d_pool d"]) simp

lemma interned_trans [trans]: "interned a b \<Longrightarrow> interned b c \<Longrightarrow> interned a c"
  unfolding interned_def by auto

lemma interned_pool: "interned d d' \<Longrightarrow> pool_wf (d_pool d')"
  by (auto simp: interned_def)

lemma interned_resolve: "interned d d' \<Longrightarrow> resolve (d_pool d) h = Some s \<Longrightarrow> resolve (d_pool d') h = Some s"
  by (auto simp: interned_def)

lemma interned_same:
  assumes "interned d d'"
  shows "d_id d' = d_id d" "d_nodes d' = d_nodes d" "d_base d' = d_base d" "owns_node d' = owns_node d" "in_doc d' = in_doc d"
    "slot d' = slot d" "data_of d' = data_of d" "links_of d' = links_of d" "kind d' = kind d" "nodes_of d' = nodes_of d"
    "document_node d' = document_node d"
proof -
  obtain p where d': "d' = d\<lparr>d_pool := p\<rparr>" using assms by (auto simp: interned_def)
  show "d_id d' = d_id d" "d_nodes d' = d_nodes d" "d_base d' = d_base d" by (simp_all add: d')
  show o: "owns_node d' = owns_node d" by (rule ext) (simp add: d' owns_node_def)
  show i: "in_doc d' = in_doc d" by (rule ext) (simp add: o in_doc_def, simp add: d')
  show s: "slot d' = slot d" by (rule ext) (simp add: slot_in_doc i, simp add: d')
  show "data_of d' = data_of d" by (rule ext) (simp add: data_of_def s)
  show "links_of d' = links_of d" by (simp add: links_of_def follow_def [abs_def] s)
  show "kind d' = kind d" by (rule ext) (simp add: kind_def node_type_of_def s)
  show "nodes_of d' = nodes_of d" by (simp add: nodes_of_def i)
  show "document_node d' = document_node d" by (simp add: d' document_node_def)
qed

text \<open>A change of the data of nodes that keeps the kind of every node.\<close>

definition retouched :: "document \<Rightarrow> document \<Rightarrow> bool" where
  "retouched d d' \<longleftrightarrow> d_id d' = d_id d \<and> length (d_nodes d') = length (d_nodes d) \<and> links_of d' = links_of d \<and> kind d' = kind d"

lemma retouched_refl [simp, intro]: "retouched d d"
  by (simp add: retouched_def)

lemma retouched_trans [trans]: "retouched a b \<Longrightarrow> retouched b c \<Longrightarrow> retouched a c"
  by (simp add: retouched_def)

lemma interned_retouched: "interned d d' \<Longrightarrow> retouched d d'"
  by (simp add: retouched_def interned_same)

lemma retouched_in_doc: "retouched d d' \<Longrightarrow> in_doc d' = in_doc d"
  by (rule ext) (simp add: retouched_def in_doc_def owns_node_def)

lemma tree_wf_retouched:
  assumes "tree_wf d" "retouched d d'"
  shows "tree_wf d' \<and> kids d' = kids d"
proof -
  note i = retouched_in_doc [OF assms(2)]
  have n: "nodes_of d' = nodes_of d" by (simp add: nodes_of_def i)
  have l: "links_of d' = links_of d" "kind d' = kind d" "document_node d' = document_node d"
    using assms(2) by (simp_all add: retouched_def document_node_def)
  have k: "kids d' = kids d"
  proof
    fix p
    show "kids d' p = kids d p"
      using kids_threads [of d' "kids d" p] tree_wfD(1) [OF assms(1)] kids_outside [of d p] kids_outside [of d' p]
      by (cases "in_doc d p") (simp_all add: i n l)
  qed
  with assms(1) show ?thesis by (simp add: tree_wf_def n l kinds_ok_def rooted_document_def i)
qed

text \<open>A new node.\<close>

definition grown :: "document \<Rightarrow> node_data \<Rightarrow> document" where
  "grown d x = d\<lparr>d_nodes := d_nodes d @ [new_slot x]\<rparr>"

definition new_node :: "document \<Rightarrow> node_id" where
  "new_node d = \<lparr>nd_document = d_id d, nd_index = length (d_nodes d)\<rparr>"

lemma push_node_eq:
  "push_node x d = (if length (d_nodes d) \<le> u32_max then (Inr (new_node d), grown d x) else (Inl (Exception NOT_SUPPORTED_ERR), d))"
  by (simp add: push_node_def next_node_index_def grown_def new_node_def ok_def fail_def)

lemma new_node_free [simp]: "\<not> in_doc d (new_node d)"
  by (simp add: in_doc_def new_node_def)

lemma grown_fields [simp]:
  "d_id (grown d x) = d_id d" "d_pool (grown d x) = d_pool d" "d_base (grown d x) = d_base d"
  "owns_node (grown d x) = owns_node d" "document_node (grown d x) = document_node d"
  by (auto simp: grown_def owns_node_def document_node_def)

lemma in_doc_grown: "in_doc (grown d x) i \<longleftrightarrow> in_doc d i \<or> i = new_node d"
  by (auto simp: in_doc_def owns_node_def grown_def new_node_def less_Suc_eq intro: node_id_eqI)

lemma slot_grown: "slot (grown d x) i = (if i = new_node d then Some (new_slot x) else slot d i)"
  by (auto simp: slot_in_doc in_doc_grown) (auto simp: grown_def new_node_def nth_append in_doc_def)

lemma data_of_grown: "data_of (grown d x) = (data_of d)(new_node d := Some x)"
  by (rule ext) (simp add: data_of_def slot_grown new_slot_def)

lemma kind_grown: "kind (grown d x) i = (if i = new_node d then type_of x else kind d i)"
  by (simp add: kind_def node_type_of_def slot_grown new_slot_def)

lemma follow_new: "follow f d (new_node d) = None"
  by (simp add: follow_def slot_in_doc)

lemma follow_grown: "f (new_slot x) = None \<Longrightarrow> follow f (grown d x) i = follow f d i"
  using follow_new [of f d] by (simp add: follow_def slot_grown)

lemma links_of_grown: "links_of (grown d x) = links_of d"
  by (rule links_eqI) (simp_all add: follow_grown new_slot_def)

lemma tree_wf_grown:
  assumes wf: "tree_wf d" and x: "x \<noteq> Document"
  shows "tree_wf (grown d x) \<and> kids (grown d x) = kids d"
proof -
  note t = tree_wfD(1) [OF wf]
  have n: "nodes_of (grown d x) = insert (new_node d) (nodes_of d)" by (auto simp: nodes_of_def in_doc_grown)
  have kn: "kids d (new_node d) = []" by (simp add: kids_outside)
  have th: "threads (insert (new_node d) (nodes_of d)) (kids d) (links_of d)"
  proof (rule threadsI, goal_cases)
    case (8 c p)
    then have "c \<noteq> new_node d" using follow_new [of ns_parent d] by auto
    with 8 threads_up [OF t, of c p] show ?case by auto
  next
    case (9 c)
    then show ?case using threads_no_up [OF t, of c] by (cases "c = new_node d") (auto simp: follow_new)
  qed (use threadsD [OF t] kn follow_new [of _ d] in \<open>auto\<close>)
  have k: "kids (grown d x) = kids d"
  proof
    fix p
    show "kids (grown d x) p = kids d p"
      using kids_threads [of "grown d x" "kids d" p] kids_outside [of "grown d x" p] kids_outside [of d p] th
      by (cases "in_doc (grown d x) p") (auto simp: n links_of_grown in_doc_grown)
  qed
  have ne: "c \<noteq> new_node d" if "c \<in> set (kids d p)" for c p using kids_in [OF wf that] by auto
  have dn: "document_node d \<noteq> new_node d" using tree_wfD(4) [OF wf] by (auto simp: rooted_document_def)
  have kc: "kind (grown d x) c = kind d c" if "c \<in> set (kids d p)" for c p
    using ne [OF that] by (simp add: kind_grown)
  note ki = kinds_okD [OF tree_wfD(3) [OF wf]]
  have "kinds_ok (grown d x) (kids d)"
  proof (rule kinds_okI)
    show "may_hold (kind (grown d x) p)" if "in_doc (grown d x) p" "kids d p \<noteq> []" for p
      using that ki(1) kn by (auto simp: in_doc_grown kind_grown)
    show "may_be_held (kind (grown d x) c)" if "c \<in> set (kids d p)" for p c
      using that ki(2) [of p c] kids_in [OF wf that] kc [OF that] by simp
    have "map (kind (grown d x)) (kids d (document_node d)) = map (kind d) (kids d (document_node d))"
      using kc by (rule map_cong [OF refl])
    with ki(3) show "root_ok (map (kind (grown d x)) (kids d (document_node (grown d x))))" by (simp only: grown_fields)
  qed
  moreover have "rooted_document (grown d x)"
    using tree_wfD(4) [OF wf] dn x type_of_inverse(1) [of x]
    by (auto simp: rooted_document_def in_doc_grown kind_grown)
  ultimately show ?thesis using th tree_wfD(2) [OF wf] by (simp add: tree_wf_def k n links_of_grown)
qed

section \<open>What a method does\<close>

text \<open>
  \<open>runs m d R E\<close>: called on \<open>d\<close> the method does not panic; it returns a value and a document with \<open>R\<close>,
  or an exception and a document with \<open>E\<close>.
\<close>

definition runs :: "'a dom \<Rightarrow> document \<Rightarrow> ('a \<Rightarrow> document \<Rightarrow> bool) \<Rightarrow> (exception_code \<Rightarrow> document \<Rightarrow> bool) \<Rightarrow> bool" where
  "runs m d R E \<longleftrightarrow>
     (case m d of
        (Inr a, d') \<Rightarrow> R a d'
      | (Inl (Exception e), d') \<Rightarrow> E e d'
      | (Inl Panic, d') \<Rightarrow> False)"

lemma runs_andThen [simp]: "runs (andThen m f) d R E \<longleftrightarrow> runs m d (\<lambda>a d'. runs (f a) d' R E) E"
  by (cases "m d") (auto simp: runs_def andThen_def split: sum.splits fault.splits)

lemma runs_ok [simp]: "runs (ok a) d R E \<longleftrightarrow> R a d"
  by (simp add: runs_def ok_def)

lemma runs_fail [simp]: "runs (fail e) d R E \<longleftrightarrow> E e d"
  by (simp add: runs_def fail_def)

lemma runs_panic [simp]: "\<not> runs panic d R E"
  by (simp add: runs_def panic_def)

lemma runs_require [simp]: "runs (require b e) d R E \<longleftrightarrow> (if b then R () d else E e d)"
  by (simp add: runs_def require_eq)

lemma runs_eq: "m d = (Inr a, d') \<Longrightarrow> runs m d R E \<longleftrightarrow> R a d'"
  by (simp add: runs_def)

lemma runs_eq_error: "m d = (Inl (Exception e), d') \<Longrightarrow> runs m d R E \<longleftrightarrow> E e d'"
  by (simp add: runs_def)

lemma runs_mono:
  "runs m d R E \<Longrightarrow> (\<And>a d'. R a d' \<Longrightarrow> R' a d') \<Longrightarrow> (\<And>e d'. E e d' \<Longrightarrow> E' e d') \<Longrightarrow> runs m d R' E'"
  by (auto simp: runs_def split: sum.splits fault.splits)

lemma runs_require_own [simp]: "runs (require_own i) d R E \<longleftrightarrow> (if owns_node d i then R () d else E WRONG_DOCUMENT_ERR d)"
  by (simp add: runs_def require_own_eq)

lemma runs_read_slot: "in_doc d i \<Longrightarrow> runs (read_slot i) d R E \<longleftrightarrow> R (d_nodes d ! nd_index i) d"
  by (simp add: runs_def read_slot_in_doc)

lemma runs_read_index: "in_doc d i \<Longrightarrow> runs (read_index i) d R E \<longleftrightarrow> R (d_nodes d ! nd_index i) d"
  by (simp add: runs_def read_index_def in_doc_def ok_def)

lemma runs_write_slot: "in_doc d i \<Longrightarrow> runs (write_slot i f) d R E \<longleftrightarrow> R () (upd i f d)"
  by (simp add: runs_def write_slot_in_doc)

lemma runs_push_node [simp]:
  "runs (push_node x) d R E \<longleftrightarrow> (if length (d_nodes d) \<le> u32_max then R (new_node d) (grown d x) else E NOT_SUPPORTED_ERR d)"
  by (simp add: runs_def push_node_eq)

lemma runs_read_of: "f d = Some a \<Longrightarrow> runs (read_of f) d R E \<longleftrightarrow> R a d"
  by (simp add: runs_def read_of_def ok_def)

lemma runs_intern_name:
  assumes "pool_wf (d_pool d)" "\<And>h d'. interned d d' \<Longrightarrow> resolve (d_pool d') h = Some s \<Longrightarrow> R h d'" "E NOT_SUPPORTED_ERR d"
  shows "runs (intern_name s) d R E"
proof (cases "intern (d_pool d) s")
  case (Inl e)
  with assms(3) show ?thesis by (simp add: runs_def intern_name_def fail_def)
next
  case (Inr r)
  obtain h p where r: "r = (h, p)" by (cases r)
  with Inr have i: "intern (d_pool d) s = Inr (h, p)" by simp
  have "interned d (d\<lparr>d_pool := p\<rparr>)" unfolding interned_def
    using intern_wf [OF assms(1) i] intern_keeps [OF assms(1) i] by blast
  then have "R h (d\<lparr>d_pool := p\<rparr>)" using intern_resolve [OF assms(1) i] by (intro assms(2)) simp_all
  with i show ?thesis by (simp add: runs_def intern_name_def ok_def)
qed

text \<open>An interned optional name, with the handle it has.\<close>

definition means :: "name_pool \<Rightarrow> name_id option \<Rightarrow> ustring option \<Rightarrow> bool" where
  "means p h s \<longleftrightarrow> (case (h, s) of (None, None) \<Rightarrow> True | (Some h, Some s) \<Rightarrow> resolve p h = Some s | _ \<Rightarrow> False)"

lemma means_simps [simp]:
  "means p None None" "\<not> means p None (Some s)" "\<not> means p (Some h) None"
  "means p (Some h) (Some s) \<longleftrightarrow> resolve p h = Some s"
  by (simp_all add: means_def)

lemma means_interned: "interned d d' \<Longrightarrow> means (d_pool d) h s \<Longrightarrow> means (d_pool d') h s"
  by (cases h; cases s) (auto dest: interned_resolve)

lemma runs_intern_option:
  assumes "pool_wf (d_pool d)" "\<And>h d'. interned d d' \<Longrightarrow> means (d_pool d') h s \<Longrightarrow> R h d'" "E NOT_SUPPORTED_ERR d"
  shows "runs (intern_option s) d R E"
proof (cases s)
  case None
  with assms(2) [OF interned_refl [OF assms(1)]] show ?thesis by simp
next
  case (Some n)
  with assms show ?thesis by (auto intro: runs_intern_name)
qed

lemma runs_parse_qname:
  assumes p: "pool_wf (d_pool d)"
    and r: "\<And>pr l h g d'. split_qname q = Some (pr, l) \<Longrightarrow> interned d d' \<Longrightarrow> means (d_pool d') h pr \<Longrightarrow>
        resolve (d_pool d') g = Some l \<Longrightarrow> R (qname_new h ns g) d'"
    and e: "\<And>d'. interned d d' \<Longrightarrow> E (if split_qname q = None then INVALID_CHARACTER_ERR else NOT_SUPPORTED_ERR) d'"
  shows "runs (parse_qname q ns) d R E"
proof (cases "split_qname q")
  case None
  with e [OF interned_refl [OF p]] show ?thesis by (simp add: parse_qname_def)
next
  case (Some pl)
  obtain pr l where pl: "pl = (pr, l)" by (cases pl)
  show ?thesis unfolding parse_qname_def Some pl
  proof (simp, rule runs_intern_option [OF p], goal_cases)
    case (1 h d1)
    show ?case
    proof (rule runs_intern_name [OF interned_pool [OF 1(1)]], goal_cases)
      case (1 g d2)
      with \<open>interned d d1\<close> have "interned d d2" by (blast intro: interned_trans)
      with 1 r [of pr l d2 h g] Some pl means_interned [OF 1(1) \<open>means (d_pool d1) h pr\<close>] show ?case by simp
    qed (use e [OF 1(1)] Some in simp)
  qed (use e [OF interned_refl [OF p]] Some in simp)
qed

section \<open>Names and owners\<close>

fun qname_handles :: "qname \<Rightarrow> name_id set" where
  "qname_handles q = set_option (qn_prefix q) \<union> set_option (en_namespace (qn_expanded q)) \<union> {qn_local q}"

fun handles :: "node_data \<Rightarrow> name_id set" where
  "handles (Element e) = qname_handles (ed_name e) \<union> set_option (ed_base e)"
| "handles (Attribute a) = qname_handles (ad_name a)"
| "handles (ProcessingInstruction target _) = {target}"
| "handles (DocumentType name _ _) = {name}"
| "handles _ = {}"

definition known :: "name_pool \<Rightarrow> name_id set" where
  "known p = {h. resolve p h \<noteq> None}"

definition names_ok :: "document \<Rightarrow> bool" where
  "names_ok d \<longleftrightarrow> pool_wf (d_pool d) \<and> (\<forall>i x. data_of d i = Some x \<longrightarrow> handles x \<subseteq> known (d_pool d)) \<and>
     set_option (d_base d) \<subseteq> known (d_pool d)"

text \<open>
  The attributes of an element are attribute nodes that name it as their owner, no two with the same
  expanded name, and an attribute node with an owner is among its attributes.
\<close>

type_synonym contents = "node_id \<Rightarrow> node_data option"

definition attr_at :: "contents \<Rightarrow> node_id \<Rightarrow> attr_data option" where
  "attr_at m a = Option.bind (m a) attr_part"

definition attrs_at :: "contents \<Rightarrow> node_id \<Rightarrow> node_id list" where
  "attrs_at m e = (case Option.bind (m e) element_part of None \<Rightarrow> [] | Some e \<Rightarrow> ed_attributes e)"

definition expanded_at :: "contents \<Rightarrow> node_id \<Rightarrow> expanded_name option" where
  "expanded_at m a = map_option (\<lambda>x. qn_expanded (ad_name x)) (attr_at m a)"

definition owners_ok :: "contents \<Rightarrow> bool" where
  "owners_ok m \<longleftrightarrow>
     (\<forall>e. distinct (map (expanded_at m) (attrs_at m e))) \<and>
     (\<forall>e a. a \<in> set (attrs_at m e) \<longleftrightarrow> map_option ad_owner (attr_at m a) = Some (Some e))"

definition doc_wf :: "document \<Rightarrow> bool" where
  "doc_wf d \<longleftrightarrow> tree_wf d \<and> owners_ok (data_of d) \<and> names_ok d"

lemma doc_wfD: "doc_wf d \<Longrightarrow> tree_wf d" "doc_wf d \<Longrightarrow> owners_ok (data_of d)" "doc_wf d \<Longrightarrow> names_ok d"
  "doc_wf d \<Longrightarrow> pool_wf (d_pool d)"
  by (simp_all add: doc_wf_def names_ok_def)

lemma attr_at_update [simp]: "attr_at (m(i \<mapsto> x)) a = (if a = i then attr_part x else attr_at m a)"
  by (simp add: attr_at_def)

lemma attrs_at_update [simp]:
  "attrs_at (m(i \<mapsto> x)) e = (if e = i then case element_part x of None \<Rightarrow> [] | Some e \<Rightarrow> ed_attributes e else attrs_at m e)"
  by (simp add: attrs_at_def)

lemma expanded_at_update [simp]:
  "expanded_at (m(i \<mapsto> x)) a = (if a = i then map_option (\<lambda>x. qn_expanded (ad_name x)) (attr_part x) else expanded_at m a)"
  by (simp add: expanded_at_def)

lemma owners_okD:
  assumes "owners_ok m"
  shows "distinct (map (expanded_at m) (attrs_at m e))" "distinct (attrs_at m e)"
    "a \<in> set (attrs_at m e) \<longleftrightarrow> map_option ad_owner (attr_at m a) = Some (Some e)"
proof -
  show d: "distinct (map (expanded_at m) (attrs_at m e))" using assms by (simp add: owners_ok_def)
  then show "distinct (attrs_at m e)" by (simp add: distinct_map)
  show "a \<in> set (attrs_at m e) \<longleftrightarrow> map_option ad_owner (attr_at m a) = Some (Some e)"
    using assms by (simp add: owners_ok_def)
qed

lemma owners_okI:
  assumes "\<And>e. distinct (map (expanded_at m) (attrs_at m e))"
    "\<And>e a. a \<in> set (attrs_at m e) \<longleftrightarrow> map_option ad_owner (attr_at m a) = Some (Some e)"
  shows "owners_ok m"
  using assms by (simp add: owners_ok_def)

text \<open>What a node contributes to the attributes: the attribute list of an element, the owner and name of an attribute.\<close>

definition attr_view :: "node_data \<Rightarrow> (node_id list \<times> (node_id option \<times> expanded_name) option)" where
  "attr_view x =
     ((case element_part x of None \<Rightarrow> [] | Some e \<Rightarrow> ed_attributes e),
      map_option (\<lambda>a. (ad_owner a, qn_expanded (ad_name a))) (attr_part x))"

lemma owners_ok_view:
  assumes o: "owners_ok m" and v: "\<And>i. map_option attr_view (m i) = map_option attr_view (m' i)"
  shows "owners_ok m'"
proof -
  have a: "attrs_at m' e = attrs_at m e" for e
    using v [of e] by (cases "m e"; cases "m' e") (auto simp: attrs_at_def attr_view_def)
  have "map_option ad_owner (attr_at m' i) = map_option ad_owner (attr_at m i) \<and> expanded_at m' i = expanded_at m i" for i
  proof (cases "m i"; cases "m' i")
    fix x y
    assume "m i = Some x" "m' i = Some y"
    with v [of i] show ?thesis
      by (cases "attr_part x"; cases "attr_part y") (auto simp: attr_view_def attr_at_def expanded_at_def)
  qed (use v [of i] in \<open>auto simp: attr_at_def expanded_at_def\<close>)
  then have b: "map_option ad_owner (attr_at m' i) = map_option ad_owner (attr_at m i)" "expanded_at m' i = expanded_at m i" for i
    by blast+
  have "expanded_at m' = expanded_at m" by (rule ext) (rule b(2))
  with o show ?thesis by (simp add: owners_ok_def a b(1))
qed

text \<open>A node that has no attributes and no owner.\<close>

definition unattached :: "node_data \<Rightarrow> bool" where
  "unattached x \<longleftrightarrow> fst (attr_view x) = [] \<and> (\<forall>w n. snd (attr_view x) = Some (w, n) \<longrightarrow> w = None)"

lemma owners_ok_new:
  assumes o: "owners_ok m" and n: "m i = None" and u: "unattached x"
  shows "owners_ok (m(i \<mapsto> x))"
proof (rule owners_okI)
  have i: "i \<notin> set (attrs_at m e)" for e using owners_okD(3) [OF o] n by (simp add: attr_at_def)
  have x: "(case element_part x of None \<Rightarrow> [] | Some e \<Rightarrow> ed_attributes e) = []"
    "map_option ad_owner (attr_part x) \<noteq> Some (Some e)" for e
    using u by (auto simp: unattached_def attr_view_def)
  show "distinct (map (expanded_at (m(i \<mapsto> x))) (attrs_at (m(i \<mapsto> x)) e))" for e
  proof -
    have "map (expanded_at (m(i \<mapsto> x))) (attrs_at m e) = map (expanded_at m) (attrs_at m e)"
      using i by (intro map_cong refl) auto
    with owners_okD(1) [OF o, of e] have "distinct (map (expanded_at (m(i \<mapsto> x))) (attrs_at m e))" by (simp only:)
    with x(1) show ?thesis by (cases "e = i") (simp_all del: expanded_at_update)
  qed
  show "a \<in> set (attrs_at (m(i \<mapsto> x)) e) \<longleftrightarrow> map_option ad_owner (attr_at (m(i \<mapsto> x)) a) = Some (Some e)" for e a
  proof -
    have "attrs_at (m(i \<mapsto> x)) e = (if e = i then [] else attrs_at m e)" using x(1) by simp
    moreover have "attrs_at m i = []" using n by (simp add: attrs_at_def)
    ultimately show ?thesis using owners_okD(3) [OF o, of a e] owners_okD(3) [OF o, of a i] i [of e] x(2) [of e]
      by (cases "e = i"; cases "a = i") simp_all
  qed
qed

lemma owners_ok_attach:
  assumes o: "owners_ok m" and e: "m e = Some (Element ed)" and a: "\<And>p. map_option ad_owner (attr_at m a) \<noteq> Some (Some p)"
    and ae: "a \<noteq> e" and x: "ad_owner x = Some e"
    and n: "Some (qn_expanded (ad_name x)) \<notin> set (map (expanded_at m) (ed_attributes ed))"
    and ed': "ed_attributes ed' = ed_attributes ed @ [a]" and nel: "\<And>y. m a \<noteq> Some (Element y)"
  shows "owners_ok (m(a \<mapsto> Attribute x, e \<mapsto> Element ed'))"
proof (rule owners_okI)
  let ?m = "m(a \<mapsto> Attribute x, e \<mapsto> Element ed')"
  have i: "a \<notin> set (attrs_at m q)" for q using owners_okD(3) [OF o] a by simp
  have em: "e \<notin> set (attrs_at m q)" for q using owners_okD(3) [OF o] e by (simp add: attr_at_def)
  have me: "attrs_at m e = ed_attributes ed" by (simp add: attrs_at_def e)
  have ma: "attrs_at m a = []" using nel by (cases "m a"; cases "the (m a)") (auto simp: attrs_at_def)
  have ex: "map (expanded_at ?m) (attrs_at m q) = map (expanded_at m) (attrs_at m q)" for q
    using i [of q] em [of q] by (intro map_cong refl) auto
  have ex': "map (expanded_at ?m) (ed_attributes ed) = map (expanded_at m) (ed_attributes ed)" using ex [of e] me by simp
  show "distinct (map (expanded_at ?m) (attrs_at ?m q))" for q
  proof (cases "q = e")
    case True
    then have "map (expanded_at ?m) (attrs_at ?m q) = map (expanded_at m) (ed_attributes ed) @ [Some (qn_expanded (ad_name x))]"
      using ae ex' by (simp add: ed')
    with n owners_okD(1) [OF o, of e] me show ?thesis by simp
  next
    case False
    then have "attrs_at ?m q = (if q = a then [] else attrs_at m q)" by simp
    moreover have "distinct (map (expanded_at ?m) (attrs_at m q))" unfolding ex by (rule owners_okD(1) [OF o])
    ultimately show ?thesis by (cases "q = a") (simp_all del: expanded_at_update attrs_at_update)
  qed
  show "z \<in> set (attrs_at ?m q) \<longleftrightarrow> map_option ad_owner (attr_at ?m z) = Some (Some q)" for q z
    using owners_okD(3) [OF o, of z q] i [of q] em [of q] me ma ae x ed' by auto
qed

lemma owners_ok_detach:
  assumes o: "owners_ok m" and e: "m e = Some (Element ed)" and a: "a \<in> set (ed_attributes ed)"
    and x: "ad_owner x = None" and ed': "ed_attributes ed' = remove1 a (ed_attributes ed)"
  shows "owners_ok (m(e \<mapsto> Element ed', a \<mapsto> Attribute x))"
proof (rule owners_okI)
  let ?m = "m(e \<mapsto> Element ed', a \<mapsto> Attribute x)"
  have me: "attrs_at m e = ed_attributes ed" by (simp add: attrs_at_def e)
  have d: "distinct (ed_attributes ed)" using owners_okD(2) [OF o, of e] me by simp
  have oa: "map_option ad_owner (attr_at m a) = Some (Some e)" using owners_okD(3) [OF o, of a e] me a by simp
  then have ae: "a \<noteq> e" using e by (auto simp: attr_at_def)
  have ma: "attrs_at m a = []"
    using oa by (cases "m a"; cases "the (m a)") (auto simp: attrs_at_def attr_at_def)
  have em: "e \<notin> set (attrs_at m q)" for q using owners_okD(3) [OF o] e by (simp add: attr_at_def)
  have al: "attrs_at ?m q = remove1 a (attrs_at m q)" for q
  proof -
    have "a \<notin> set (attrs_at m q)" if "q \<noteq> e" using owners_okD(3) [OF o, of a q] oa that by simp
    then show ?thesis using ae ma me ed' by (auto simp: remove1_idem)
  qed
  show "distinct (map (expanded_at ?m) (attrs_at ?m q))" for q
  proof -
    have "a \<notin> set (remove1 a (attrs_at m q))" using owners_okD(2) [OF o, of q] by (simp add: set_remove1_eq)
    then have "map (expanded_at ?m) (remove1 a (attrs_at m q)) = map (expanded_at m) (remove1 a (attrs_at m q))"
      using em [of q] by (intro map_cong refl) (auto dest: notin_set_remove1 set_remove1_subset [THEN subsetD])
    moreover have "distinct (map (expanded_at m) (remove1 a (attrs_at m q)))"
      using owners_okD(1) [OF o, of q] unfolding distinct_map
      by (meson inj_on_subset set_remove1_subset distinct_remove1)
    ultimately show ?thesis unfolding al by (simp only:)
  qed
  show "z \<in> set (attrs_at ?m q) \<longleftrightarrow> map_option ad_owner (attr_at ?m z) = Some (Some q)" for q z
    using owners_okD(2,3) [OF o, of q] owners_okD(3) [OF o, of z q] em [of q] x e unfolding al
    by (auto simp: attr_at_def)
qed

section \<open>What keeps the invariant\<close>

lemma known_interned: "interned d d' \<Longrightarrow> known (d_pool d) \<subseteq> known (d_pool d')"
  by (auto simp: known_def dest: interned_resolve)

lemma doc_wf_interned: "doc_wf d \<Longrightarrow> interned d d' \<Longrightarrow> doc_wf d'"
  using tree_wf_retouched [OF _ interned_retouched, of d d'] interned_pool [of d d'] known_interned [of d d']
  by (simp add: doc_wf_def names_ok_def interned_same) (meson order_trans)

lemma doc_wf_relinked: "doc_wf d \<Longrightarrow> relinked d d' \<Longrightarrow> tree_wf d' \<Longrightarrow> doc_wf d'"
  by (simp add: doc_wf_def names_ok_def relinked_def)

lemma doc_wf_grown:
  assumes wf: "doc_wf d" and x: "x \<noteq> Document" "unattached x" "handles x \<subseteq> known (d_pool d)"
  shows "doc_wf (grown d x)"
proof -
  have n: "data_of d (new_node d) = None" by (simp add: data_of_def slot_in_doc)
  show ?thesis using wf x tree_wf_grown [of d x] owners_ok_new [where m = "data_of d" and i = "new_node d" and x = x, OF _ n x(2)]
    by (simp add: doc_wf_def names_ok_def data_of_grown)
qed

text \<open>New data for a node.\<close>

definition put :: "node_id \<Rightarrow> node_data \<Rightarrow> document \<Rightarrow> document" where
  "put i x = upd i (\<lambda>s. s\<lparr>ns_data := x\<rparr>)"

lemma data_of_put: "in_doc d i \<Longrightarrow> data_of (put i x d) = (data_of d)(i \<mapsto> x)"
  by (rule ext) (simp add: data_of_def put_def slot_upd in_doc_slot)

lemma put_fields [simp]:
  "d_id (put i x d) = d_id d" "length (d_nodes (put i x d)) = length (d_nodes d)"
  "d_pool (put i x d) = d_pool d" "d_base (put i x d) = d_base d"
  "owns_node (put i x d) = owns_node d" "in_doc (put i x d) = in_doc d"
  by (simp_all add: put_def)

lemma retouched_put: "in_doc d i \<Longrightarrow> type_of x = kind d i \<Longrightarrow> retouched d (put i x d)"
proof -
  assume a: "in_doc d i" "type_of x = kind d i"
  have "links_of (put i x d) = links_of d"
    using a(1) by (intro links_eqI) (auto simp: put_def follow_upd follow_in_doc)
  moreover have "kind (put i x d) = kind d"
    using a by (intro ext) (auto simp: kind_def node_type_of_data data_of_put)
  ultimately show ?thesis by (simp add: retouched_def)
qed

lemma doc_wf_put:
  assumes wf: "doc_wf d" and i: "in_doc d i" and x: "type_of x = kind d i" "handles x \<subseteq> known (d_pool d)"
    and o: "owners_ok ((data_of d)(i \<mapsto> x))"
  shows "doc_wf (put i x d)"
  using wf x o tree_wf_retouched [OF _ retouched_put [OF i x(1)]]
  by (simp add: doc_wf_def names_ok_def data_of_put [OF i])

lemma data_of_in_doc: "in_doc d i \<longleftrightarrow> data_of d i \<noteq> None"
  by (simp add: data_of_def slot_in_doc)

lemma data_of_Some: "data_of d i = Some x \<longleftrightarrow> in_doc d i \<and> ns_data (d_nodes d ! nd_index i) = x"
  by (simp add: data_of_def slot_in_doc)

lemma kind_data: "data_of d i = Some x \<Longrightarrow> kind d i = type_of x"
  by (simp add: kind_def node_type_of_data)

lemma handles_known: "doc_wf d \<Longrightarrow> data_of d i = Some x \<Longrightarrow> handles x \<subseteq> known (d_pool d)"
  by (simp add: doc_wf_def names_ok_def)

lemma resolve_own_known: "h \<in> known p \<Longrightarrow> resolve_own p h = resolve p h \<and> resolve p h \<noteq> None"
  by (auto simp: known_def resolve_own_def resolve_def split: if_splits)

lemma means_known: "means p h s \<Longrightarrow> set_option h \<subseteq> known p"
  by (cases h; cases s) (auto simp: known_def)

section \<open>Construction\<close>

lemma runs_new_node:
  assumes "doc_wf d" "x \<noteq> Document" "unattached x" "handles x \<subseteq> known (d_pool d)"
    and "\<And>d'. doc_wf (grown d x) \<Longrightarrow> d' = grown d x \<Longrightarrow> R (new_node d) d'" "E NOT_SUPPORTED_ERR d"
  shows "runs (push_node x) d R E"
  using doc_wf_grown [OF assms(1-4)] assms(5,6) by simp

text \<open>What a construction leaves of the document: its nodes, and a new one at most.\<close>

definition extends :: "document \<Rightarrow> document \<Rightarrow> bool" where
  "extends d d' \<longleftrightarrow> (\<forall>i. in_doc d i \<longrightarrow> in_doc d' i \<and> data_of d' i = data_of d i) \<and> kids d' = kids d \<and> d_id d' = d_id d"

lemma extends_refl [simp, intro]: "extends d d"
  by (simp add: extends_def)

lemma extends_interned: "doc_wf d \<Longrightarrow> interned d d' \<Longrightarrow> extends d d'"
  using tree_wf_retouched [OF _ interned_retouched, of d d'] by (simp add: extends_def interned_same doc_wf_def)

lemma extends_grown: "doc_wf d \<Longrightarrow> x \<noteq> Document \<Longrightarrow> extends d (grown d x)"
  using tree_wf_grown [of d x] by (auto simp: extends_def in_doc_grown data_of_grown doc_wf_def)

lemma extends_trans [trans]: "extends a b \<Longrightarrow> extends b c \<Longrightarrow> extends a c"
  by (auto simp: extends_def)

text \<open>
  A construction that the arguments do not forbid returns a node that is new, with data satisfying \<open>P\<close>,
  or finds the document full; one they forbid is refused with that exception. The rest stays.
\<close>

definition constructs :: "node_id dom \<Rightarrow> document \<Rightarrow> exception_code option \<Rightarrow> (name_pool \<Rightarrow> node_data \<Rightarrow> bool) \<Rightarrow> bool" where
  "constructs m d bad P \<longleftrightarrow>
     runs m d
       (\<lambda>i d'. bad = None \<and> doc_wf d' \<and> extends d d' \<and> \<not> in_doc d i \<and> in_doc d' i \<and> follow ns_parent d' i = None \<and>
          (\<exists>x. data_of d' i = Some x \<and> P (d_pool d') x))
       (\<lambda>e d'. doc_wf d' \<and> extends d d' \<and> (if bad = None then e = NOT_SUPPORTED_ERR else bad = Some e))"

definition built :: "document \<Rightarrow> (name_pool \<Rightarrow> node_data \<Rightarrow> bool) \<Rightarrow> node_id \<Rightarrow> document \<Rightarrow> bool" where
  "built d P i d' \<longleftrightarrow> doc_wf d' \<and> extends d d' \<and> \<not> in_doc d i \<and> in_doc d' i \<and> follow ns_parent d' i = None \<and>
     (\<exists>x. data_of d' i = Some x \<and> P (d_pool d') x)"

definition full :: "document \<Rightarrow> exception_code \<Rightarrow> document \<Rightarrow> bool" where
  "full d e d' \<longleftrightarrow> doc_wf d' \<and> extends d d' \<and> e = NOT_SUPPORTED_ERR"

lemma constructs_None: "constructs m d None P \<longleftrightarrow> runs m d (built d P) (full d)"
  by (simp add: constructs_def built_def [abs_def] full_def [abs_def])

lemma full_interned: "doc_wf d \<Longrightarrow> interned d d' \<Longrightarrow> full d NOT_SUPPORTED_ERR d'"
  by (simp add: full_def doc_wf_interned extends_interned)

lemma constructs_push:
  assumes wf: "doc_wf d" and i: "interned d d1" and x: "x \<noteq> Document" "unattached x" "handles x \<subseteq> known (d_pool d1)"
    and P: "P (d_pool d1) x"
  shows "runs (push_node x) d1 (built d P) (full d)"
proof (rule runs_new_node [OF doc_wf_interned [OF wf i] x])
  fix d'
  assume d': "doc_wf (grown d1 x)" "d' = grown d1 x"
  have "extends d d'" using extends_interned [OF wf i] extends_grown [OF doc_wf_interned [OF wf i] x(1)] d'(2)
    by (blast intro: extends_trans)
  moreover have "\<not> in_doc d (new_node d1)" using new_node_free [of d1] interned_same(5) [OF i] by simp
  moreover have "follow ns_parent d' (new_node d1) = None" by (simp add: d'(2) follow_def slot_grown new_slot_def)
  ultimately show "built d P (new_node d1) d'"
    using d' P by (simp add: built_def in_doc_grown data_of_grown)
qed (rule full_interned [OF wf i])

lemma constructs_refused: "m d = (Inl (Exception e), d) \<Longrightarrow> doc_wf d \<Longrightarrow> constructs m d (Some e) P"
  by (simp add: constructs_def runs_def)

lemma unattached_basic [simp]:
  "unattached (new_element q)" "unattached (Text s)" "unattached (CdataSection s)" "unattached (Comment s)"
  "unattached (ProcessingInstruction h s)" "unattached DocumentFragment" "unattached (DocumentType h p y)"
  "unattached (new_attribute q s None)"
  by (simp_all add: unattached_def attr_view_def new_element_def new_attribute_def)

text \<open>Names in XML namespaces: what a qualified name and a namespace name are refused for.\<close>

definition qname_error :: "ustring option \<Rightarrow> ustring \<Rightarrow> bool \<Rightarrow> exception_code option" where
  "qname_error ns q is_attribute =
     (case split_qname q of
        None \<Rightarrow> Some INVALID_CHARACTER_ERR
      | Some (prefix, _) \<Rightarrow>
          if prefix \<noteq> None \<and> ns = None \<or> prefix = Some xml_prefix \<and> ns \<noteq> Some xml_ns_uri \<or>
             is_attribute \<and> ((q = xmlns_prefix \<or> prefix = Some xmlns_prefix) \<noteq> (ns = Some xmlns_ns_uri))
          then Some NAMESPACE_ERR else None)"

lemma check_qname_namespace_eq:
  "check_qname_namespace ns q b d = (case qname_error ns q b of None \<Rightarrow> Inr () | Some e \<Rightarrow> Inl (Exception e), d)"
proof (cases "split_qname q")
  case (Some pl)
  obtain p l where "pl = (p, l)" by (cases pl)
  with Some show ?thesis
    by (cases "p \<noteq> None \<and> ns = None"; cases "p = Some xml_prefix \<and> ns \<noteq> Some xml_ns_uri"; cases b;
        cases "q = xmlns_prefix \<or> p = Some xmlns_prefix"; cases "ns = Some xmlns_ns_uri")
       (simp_all add: check_qname_namespace_def qname_error_def ok_def fail_def)
qed (simp add: check_qname_namespace_def qname_error_def fail_def)

text \<open>The name and the namespace of an element or attribute.\<close>

definition named :: "name_pool \<Rightarrow> node_data \<Rightarrow> ustring option \<Rightarrow> ustring \<Rightarrow> bool" where
  "named p x ns q \<longleftrightarrow> name_of_data p x = Some q \<and>
     (\<exists>n. qname_of_data x = Some n \<and> means p (en_namespace (qn_expanded n)) ns)"

lemma resolve_own_resolve: "resolve_own p h = resolve p h"
  by (simp add: resolve_own_def resolve_def)

lemma lexical_own_means:
  "means p h pr \<Longrightarrow> resolve p g = Some l \<Longrightarrow> lexical_own p (qname_new h ns g) = Some (lexical pr l)"
  by (cases h; cases pr) (simp_all add: lexical_own_def qname_new_def resolve_own_resolve)

lemma qname_handles_known:
  "means p h pr \<Longrightarrow> resolve p g = Some l \<Longrightarrow> set_option ns \<subseteq> known p \<Longrightarrow> qname_handles (qname_new h ns g) \<subseteq> known p"
  using means_known [of p h pr] by (simp add: qname_new_def known_def)

lemma constructs_named:
  assumes wf: "doc_wf d" and i: "interned d d1" and ns: "means (d_pool d1) h ns"
    and f: "\<And>n. f n \<noteq> Document" "\<And>n. unattached (f n)" "\<And>n. handles (f n) = qname_handles n"
      "\<And>n p. name_of_data p (f n) = lexical_own p n" "\<And>n. qname_of_data (f n) = Some n"
    and ok: "split_qname q \<noteq> None"
    and P: "\<And>p n. named p (f n) ns q \<Longrightarrow> P p (f n)"
  shows "runs (andThen (parse_qname q h) (\<lambda>n. push_node (f n))) d1 (built d P) (full d)"
proof (simp only: runs_andThen, rule runs_parse_qname [OF interned_pool [OF i]], goal_cases)
  case (1 pr l h' g d2)
  have i2: "interned d d2" using i 1(2) by (rule interned_trans)
  have m: "means (d_pool d2) h ns" using means_interned [OF 1(2) ns] .
  have q: "lexical pr l = q" using split_qname_sound [OF 1(1)] by simp
  have n: "named (d_pool d2) (f (qname_new h' h g)) ns q"
    unfolding named_def f(4,5) using lexical_own_means [OF 1(3,4)] q m by (simp add: qname_new_def)
  have k: "handles (f (qname_new h' h g)) \<subseteq> known (d_pool d2)"
    unfolding f(3) using 1(3,4) means_known [OF m] by (rule qname_handles_known)
  show ?case by (rule constructs_push [OF wf i2 f(1,2) k]) (use P [OF n] in simp)
next
  case (2 d2)
  have "interned d d2" using i 2 by (rule interned_trans)
  with ok show ?case using full_interned [OF wf] by auto
qed

lemma constructs_create:
  assumes wf: "doc_wf d"
  shows "constructs (create_element q) d (if split_qname q = None then Some INVALID_CHARACTER_ERR else None)
      (\<lambda>p x. type_of x = ELEMENT_NODE \<and> named p x None q)"
    and "constructs (create_attribute q) d (if split_qname q = None then Some INVALID_CHARACTER_ERR else None)
      (\<lambda>p x. type_of x = ATTRIBUTE_NODE \<and> value_of_data x = Some [] \<and> named p x None q)"
proof -
  note i = interned_refl [OF doc_wfD(4) [OF wf]]
  show "constructs (create_element q) d (if split_qname q = None then Some INVALID_CHARACTER_ERR else None)
      (\<lambda>p x. type_of x = ELEMENT_NODE \<and> named p x None q)"
  proof (cases "split_qname q")
    case None
    with wf show ?thesis by (simp add: constructs_refused create_element_def parse_qname_def fail_def andThen_def)
  next
    case (Some y)
    then have e: "(if split_qname q = None then Some INVALID_CHARACTER_ERR else None) = None" by simp
    show ?thesis unfolding e constructs_None create_element_def
      by (rule constructs_named [OF wf i]) (simp_all add: Some, simp_all add: new_element_def)
  qed
  show "constructs (create_attribute q) d (if split_qname q = None then Some INVALID_CHARACTER_ERR else None)
      (\<lambda>p x. type_of x = ATTRIBUTE_NODE \<and> value_of_data x = Some [] \<and> named p x None q)"
  proof (cases "split_qname q")
    case None
    with wf show ?thesis by (simp add: constructs_refused create_attribute_def parse_qname_def fail_def andThen_def)
  next
    case (Some y)
    then have e: "(if split_qname q = None then Some INVALID_CHARACTER_ERR else None) = None" by simp
    show ?thesis unfolding e constructs_None create_attribute_def
      by (rule constructs_named [OF wf i]) (simp_all add: Some, simp_all add: new_attribute_def)
  qed
qed

lemma qname_error_None: "qname_error ns q b = None \<Longrightarrow> split_qname q \<noteq> None"
  by (simp add: qname_error_def split: option.splits)

lemma runs_check_qname_namespace:
  "runs (check_qname_namespace ns q b) d R E \<longleftrightarrow> (case qname_error ns q b of None \<Rightarrow> R () d | Some e \<Rightarrow> E e d)"
  by (cases "qname_error ns q b") (simp_all add: runs_def check_qname_namespace_eq)

lemma constructs_create_ns:
  assumes wf: "doc_wf d"
  shows "constructs (create_element_ns ns q) d (qname_error ns q False)
      (\<lambda>p x. type_of x = ELEMENT_NODE \<and> named p x ns q)"
    and "constructs (create_attribute_ns ns q) d (qname_error ns q True)
      (\<lambda>p x. type_of x = ATTRIBUTE_NODE \<and> value_of_data x = Some [] \<and> named p x ns q)"
proof -
  note p = doc_wfD(4) [OF wf]
  show "constructs (create_element_ns ns q) d (qname_error ns q False)
      (\<lambda>p x. type_of x = ELEMENT_NODE \<and> named p x ns q)"
  proof (cases "qname_error ns q False")
    case (Some e)
    with wf show ?thesis by (simp add: constructs_refused create_element_ns_def check_qname_namespace_eq andThen_def)
  next
    case None
    show ?thesis unfolding None constructs_None create_element_ns_def runs_andThen [of "check_qname_namespace ns q False"]
      runs_check_qname_namespace None option.case runs_andThen [of "intern_option ns"]
    proof (rule runs_intern_option [OF p], goal_cases)
      case (1 h d1)
      show ?case
        by (rule constructs_named [OF wf 1])
           (use qname_error_None [OF None] in \<open>simp_all add: new_element_def [abs_def] unattached_def attr_view_def\<close>)
    qed (rule full_interned [OF wf interned_refl [OF p]])
  qed
  show "constructs (create_attribute_ns ns q) d (qname_error ns q True)
      (\<lambda>p x. type_of x = ATTRIBUTE_NODE \<and> value_of_data x = Some [] \<and> named p x ns q)"
  proof (cases "qname_error ns q True")
    case (Some e)
    with wf show ?thesis by (simp add: constructs_refused create_attribute_ns_def check_qname_namespace_eq andThen_def)
  next
    case None
    show ?thesis unfolding None constructs_None create_attribute_ns_def runs_andThen [of "check_qname_namespace ns q True"]
      runs_check_qname_namespace None option.case runs_andThen [of "intern_option ns"]
    proof (rule runs_intern_option [OF p], goal_cases)
      case (1 h d1)
      show ?case
        by (rule constructs_named [OF wf 1])
           (use qname_error_None [OF None] in \<open>simp_all add: new_attribute_def [abs_def] unattached_def attr_view_def\<close>)
    qed (rule full_interned [OF wf interned_refl [OF p]])
  qed
qed

lemma constructs_plain:
  assumes "doc_wf d" "x \<noteq> Document" "unattached x" "handles x = {}"
  shows "constructs (push_node x) d None (\<lambda>p y. y = x)"
  unfolding constructs_None
  by (rule constructs_push [OF assms(1) interned_refl [OF doc_wfD(4) [OF assms(1)]] assms(2,3)]) (simp_all add: assms(4))

lemma constructs_pi:
  assumes wf: "doc_wf d"
  shows "constructs (create_processing_instruction t s) d (if is_name t then None else Some INVALID_CHARACTER_ERR)
      (\<lambda>p x. type_of x = PROCESSING_INSTRUCTION_NODE \<and> name_of_data p x = Some t \<and> value_of_data x = Some s)"
    and "constructs (create_document_type n pid sid) d (if is_name n then None else Some INVALID_CHARACTER_ERR)
      (\<lambda>p x. type_of x = DOCUMENT_TYPE_NODE \<and> name_of_data p x = Some n \<and> public_id_of x = pid \<and> system_id_of x = sid)"
proof -
  note p = doc_wfD(4) [OF wf]
  show "constructs (create_processing_instruction t s) d (if is_name t then None else Some INVALID_CHARACTER_ERR)
      (\<lambda>p x. type_of x = PROCESSING_INSTRUCTION_NODE \<and> name_of_data p x = Some t \<and> value_of_data x = Some s)"
  proof (cases "is_name t")
    case False
    with wf show ?thesis by (simp add: constructs_refused create_processing_instruction_def fail_def)
  next
    case True
    show ?thesis unfolding eqTrueI [OF True] not_True_eq_False if_True if_False constructs_None create_processing_instruction_def
      runs_andThen [of "intern_name t"]
    proof (rule runs_intern_name [OF p], goal_cases)
      case (1 h d1)
      then have k: "handles (ProcessingInstruction h s) \<subseteq> known (d_pool d1)" by (simp add: known_def)
      show ?case by (rule constructs_push [OF wf 1(1) _ _ k]) (use 1 in \<open>simp_all add: resolve_own_resolve\<close>)
    qed (rule full_interned [OF wf interned_refl [OF p]])
  qed
  show "constructs (create_document_type n pid sid) d (if is_name n then None else Some INVALID_CHARACTER_ERR)
      (\<lambda>p x. type_of x = DOCUMENT_TYPE_NODE \<and> name_of_data p x = Some n \<and> public_id_of x = pid \<and> system_id_of x = sid)"
  proof (cases "is_name n")
    case False
    with wf show ?thesis by (simp add: constructs_refused create_document_type_def fail_def)
  next
    case True
    show ?thesis unfolding eqTrueI [OF True] not_True_eq_False if_True if_False constructs_None create_document_type_def
      runs_andThen [of "intern_name n"]
    proof (rule runs_intern_name [OF p], goal_cases)
      case (1 h d1)
      then have k: "handles (DocumentType h pid sid) \<subseteq> known (d_pool d1)" by (simp add: known_def)
      show ?case by (rule constructs_push [OF wf 1(1) _ _ k]) (use 1 in \<open>simp_all add: resolve_own_resolve\<close>)
    qed (rule full_interned [OF wf interned_refl [OF p]])
  qed
qed

end
