(* ===== verification/Dom_Attr_Ops.thy ===== *)
theory Dom_Attr_Ops
  imports Dom_Inv
begin

text \<open>
  The attribute operations of \<open>dom/document.rs\<close> on a well-formed document: the attributes of an
  element are a map from namespace and local name to value, which setting an attribute updates, and
  attaching and detaching attribute nodes keeps.
\<close>

section \<open>Reading\<close>

abbreviation attr_of :: "document \<Rightarrow> node_id \<Rightarrow> attr_data option" where
  "attr_of d \<equiv> attr_at (data_of d)"

abbreviation attrs_of :: "document \<Rightarrow> node_id \<Rightarrow> node_id list" where
  "attrs_of d \<equiv> attrs_at (data_of d)"

lemma attr_at_Some: "attr_at m a = Some x \<longleftrightarrow> m a = Some (Attribute x)"
proof (cases "m a")
  case (Some y)
  then show ?thesis by (cases y) (simp_all add: attr_at_def)
qed (simp add: attr_at_def)

lemma attr_at_in_doc: "attr_of d a = Some x \<Longrightarrow> in_doc d a"
  by (simp add: attr_at_Some data_of_Some)

lemma attrs_in:
  assumes "doc_wf d" "a \<in> set (attrs_of d e)"
  shows "in_doc d a" "\<exists>x. attr_of d a = Some x \<and> ad_owner x = Some e"
  using owners_okD(3) [OF doc_wfD(2) [OF assms(1)], of a e] assms(2) by (auto dest: attr_at_in_doc)

lemma element_data_of_eq: "in_doc d e \<Longrightarrow> element_data_of d e = Some (Option.bind (data_of d e) element_part)"
  by (auto simp: element_data_of_def data_of_in_doc)

lemma attributes_eq: "in_doc d e \<Longrightarrow> attributes d e = Some (attrs_of d e)"
  by (simp add: attributes_def element_data_of_eq attrs_at_def)

lemma find_in_eq:
  "(\<And>a. a \<in> set as \<Longrightarrow> in_doc d a) \<Longrightarrow>
   find_in d P as = Some (find (\<lambda>a. \<exists>x. attr_of d a = Some x \<and> P x) as)"
proof (induction as)
  case (Cons a as)
  then have "in_doc d a" by simp
  then have "slot d a = Some (d_nodes d ! nd_index a)" "attr_of d a = attr_part (ns_data (d_nodes d ! nd_index a))"
    by (simp_all add: in_doc_slot attr_at_def data_of_def)
  with Cons show ?case by (cases "attr_part (ns_data (d_nodes d ! nd_index a))") simp_all
qed simp

lemma find_attribute_eq:
  assumes "doc_wf d" "in_doc d e"
  shows "find_attribute d e P = Some (find (\<lambda>a. \<exists>x. attr_of d a = Some x \<and> P x) (attrs_of d e))"
  using attrs_in(1) [OF assms(1), of _ e] find_in_eq [of "attrs_of d e" d P] assms(2)
  by (auto simp: find_attribute_def element_data_of_eq attrs_at_def split: option.split)

lemma get_iff:
  assumes "pool_wf p"
  shows "get p s = Some h \<longleftrightarrow> resolve p h = Some s"
proof
  assume "get p s = Some h"
  with assms show "resolve p h = Some s"
    by (auto simp: get_def resolve_def owns_def pool_wf_def dest: index_ok_Some)
next
  assume r: "resolve p h = Some s"
  then have "p_index p s = Some (ni_index h)"
    using assms index_ok_nth [of p "ni_index h"] by (auto simp: resolve_def owns_def pool_wf_def split: if_splits)
  with r show "get p s = Some h" by (cases h) (auto simp: get_def resolve_def owns_def split: if_splits)
qed

lemma get_option_iff: "pool_wf p \<Longrightarrow> get_option p s = Some h \<longleftrightarrow> means p h s"
  by (cases s; cases h) (auto simp: get_iff)

lemma means_unique: "pool_wf p \<Longrightarrow> means p h s \<Longrightarrow> means p h t \<Longrightarrow> s = t"
  by (cases h; cases s; cases t) auto

lemma means_inj: "pool_wf p \<Longrightarrow> means p g s \<Longrightarrow> means p h s \<Longrightarrow> g = h"
  by (cases g; cases h; cases s) (auto intro: resolve_inj)

text \<open>An attribute's namespace and local name.\<close>

definition is_named :: "name_pool \<Rightarrow> ustring option \<Rightarrow> ustring \<Rightarrow> attr_data \<Rightarrow> bool" where
  "is_named p ns l x \<longleftrightarrow> means p (en_namespace (qn_expanded (ad_name x))) ns \<and> resolve p (qn_local (ad_name x)) = Some l"

definition value_in :: "document \<Rightarrow> node_id option \<Rightarrow> ustring option" where
  "value_in d a = Option.bind a (\<lambda>a. map_option ad_value (attr_of d a))"

lemma get_attribute_node_ns_eq:
  assumes wf: "doc_wf d" and e: "in_doc d e"
  shows "get_attribute_node_ns d e ns l =
    Some (find (\<lambda>a. \<exists>x. attr_of d a = Some x \<and> is_named (d_pool d) ns l x) (attrs_of d e))"
proof -
  note p = doc_wfD(4) [OF wf]
  have known: "means (d_pool d) (en_namespace (qn_expanded (ad_name x))) ns \<Longrightarrow> get_option (d_pool d) ns \<noteq> None"
    "resolve (d_pool d) (qn_local (ad_name x)) = Some l \<Longrightarrow> get (d_pool d) l \<noteq> None" for x
    using get_option_iff [OF p] get_iff [OF p] by auto
  have none: "find (\<lambda>a. \<exists>x. attr_of d a = Some x \<and> is_named (d_pool d) ns l x) (attrs_of d e) = None"
    if "get_option (d_pool d) ns = None \<or> get (d_pool d) l = None"
    using that known by (auto simp: find_None_iff is_named_def)
  show ?thesis
  proof (cases "get_option (d_pool d) ns")
    case None
    with none show ?thesis by (simp add: get_attribute_node_ns_def)
  next
    case (Some h)
    show ?thesis
    proof (cases "get (d_pool d) l")
      case None
      with Some none show ?thesis by (simp add: get_attribute_node_ns_def)
    next
      case (Some g)
      have "means (d_pool d) h ns" "resolve (d_pool d) g = Some l"
        using \<open>get_option (d_pool d) ns = Some h\<close> Some get_option_iff [OF p] get_iff [OF p] by auto
      then have "is_named (d_pool d) ns l x \<longleftrightarrow> en_namespace (qn_expanded (ad_name x)) = h \<and> qn_local (ad_name x) = g" for x
        using means_inj [OF p] resolve_inj [OF p] by (auto simp: is_named_def)
      with Some \<open>get_option (d_pool d) ns = Some h\<close> show ?thesis
        by (simp add: get_attribute_node_ns_def find_attribute_eq [OF wf e])
    qed
  qed
qed

lemma find_Some_in: "find P xs = Some x \<Longrightarrow> x \<in> set xs \<and> P x"
  by (induction xs) (auto split: if_splits)

lemma value_at_attr: "attr_of d a = Some x \<Longrightarrow> value_at d (Some a) = Some (Some (ad_value x))"
  by (simp add: value_at_def node_value_def attr_at_Some)

lemma attribute_ns_eq:
  assumes wf: "doc_wf d" and e: "in_doc d e"
  shows "attribute_ns d e ns l =
    Some (value_in d (find (\<lambda>a. \<exists>x. attr_of d a = Some x \<and> is_named (d_pool d) ns l x) (attrs_of d e)))"
proof (cases "find (\<lambda>a. \<exists>x. attr_of d a = Some x \<and> is_named (d_pool d) ns l x) (attrs_of d e)")
  case None
  then show ?thesis by (simp add: attribute_ns_def get_attribute_node_ns_eq [OF wf e] value_at_def value_in_def)
next
  case (Some a)
  with find_Some_in [OF Some] show ?thesis
    by (auto simp: attribute_ns_def get_attribute_node_ns_eq [OF wf e] value_at_attr value_in_def)
qed

text \<open>As a relation: the value an element has for a name is that of its attribute of that name.\<close>

lemma attribute_ns_Some:
  assumes wf: "doc_wf d" and e: "in_doc d e"
  shows "attribute_ns d e ns l = Some (Some v) \<longleftrightarrow>
    (\<exists>a \<in> set (attrs_of d e). \<exists>x. attr_of d a = Some x \<and> is_named (d_pool d) ns l x \<and> ad_value x = v)"
proof
  assume "attribute_ns d e ns l = Some (Some v)"
  then show "\<exists>a \<in> set (attrs_of d e). \<exists>x. attr_of d a = Some x \<and> is_named (d_pool d) ns l x \<and> ad_value x = v"
    unfolding attribute_ns_eq [OF wf e]
    by (cases "find (\<lambda>a. \<exists>x. attr_of d a = Some x \<and> is_named (d_pool d) ns l x) (attrs_of d e)")
       (auto simp: value_in_def dest!: find_Some_in, blast)
next
  assume "\<exists>a \<in> set (attrs_of d e). \<exists>x. attr_of d a = Some x \<and> is_named (d_pool d) ns l x \<and> ad_value x = v"
  then obtain a x where a: "a \<in> set (attrs_of d e)" "attr_of d a = Some x" "is_named (d_pool d) ns l x" "ad_value x = v" by blast
  then have "find (\<lambda>a. \<exists>x. attr_of d a = Some x \<and> is_named (d_pool d) ns l x) (attrs_of d e) \<noteq> None"
    by (auto simp: find_None_iff)
  then obtain b where b: "find (\<lambda>a. \<exists>x. attr_of d a = Some x \<and> is_named (d_pool d) ns l x) (attrs_of d e) = Some b" by auto
  from find_Some_in [OF b] obtain y where y: "b \<in> set (attrs_of d e)" "attr_of d b = Some y" "is_named (d_pool d) ns l y" by blast
  note p = doc_wfD(4) [OF wf]
  have "qn_expanded (ad_name x) = qn_expanded (ad_name y)"
    using a(3) y(3) means_inj [OF p] resolve_inj [OF p] by (auto simp: is_named_def)
  then have "expanded_at (data_of d) a = expanded_at (data_of d) b" by (simp add: expanded_at_def a(2) y(2))
  then have "a = b" using owners_okD(1) [OF doc_wfD(2) [OF wf], of e] a(1) y(1)
    by (auto simp: distinct_map dest: inj_onD)
  with a y b show "attribute_ns d e ns l = Some (Some v)" by (simp add: attribute_ns_eq [OF wf e] value_in_def)
qed

lemma attribute_ns_total: "doc_wf d \<Longrightarrow> in_doc d e \<Longrightarrow> attribute_ns d e ns l \<noteq> None"
  by (simp add: attribute_ns_eq)

lemma attribute_ns_cong:
  assumes "doc_wf d" "in_doc d e" "doc_wf d'" "in_doc d' e'"
    "\<And>v. attribute_ns d e ns l = Some (Some v) \<longleftrightarrow> attribute_ns d' e' ns' l' = Some (Some v)"
  shows "attribute_ns d e ns l = attribute_ns d' e' ns' l'"
  using attribute_ns_total [OF assms(1,2), of ns l] attribute_ns_total [OF assms(3,4), of ns' l'] assms(5)
  by (cases "attribute_ns d e ns l"; cases "attribute_ns d' e' ns' l'") (auto, metis not_None_eq)

section \<open>Setting\<close>

lemma element_data_mut_put:
  assumes "data_of d i = Some (Element e)"
  shows "element_data_mut i f d = (Inr (), put i (Element (f e)) d)"
proof -
  have i: "in_doc d i" "ns_data (d_nodes d ! nd_index i) = Element e" using assms by (simp_all add: data_of_Some)
  then have r: "read_index i d = (Inr (d_nodes d ! nd_index i), d)" by (simp add: read_index_def in_doc_def ok_def)
  show ?thesis using i by (simp add: element_data_mut_def r write_slot_in_doc put_def)
qed

lemma attr_data_mut_put:
  assumes "data_of d i = Some (Attribute e)"
  shows "attr_data_mut i f d = (Inr (), put i (Attribute (f e)) d)"
proof -
  have i: "in_doc d i" "ns_data (d_nodes d ! nd_index i) = Attribute e" using assms by (simp_all add: data_of_Some)
  then have r: "read_index i d = (Inr (d_nodes d ! nd_index i), d)" by (simp add: read_index_def in_doc_def ok_def)
  show ?thesis using i by (simp add: attr_data_mut_def r write_slot_in_doc put_def)
qed

lemma runs_find_attribute:
  "doc_wf d \<Longrightarrow> in_doc d e \<Longrightarrow> runs (read_of (\<lambda>d. find_attribute d e P)) d R E \<longleftrightarrow>
     R (find (\<lambda>a. \<exists>x. attr_of d a = Some x \<and> P x) (attrs_of d e)) d"
  by (rule runs_read_of) (rule find_attribute_eq)

lemma kind_element: "kind d e = ELEMENT_NODE \<Longrightarrow> in_doc d e \<Longrightarrow> \<exists>ed. data_of d e = Some (Element ed)"
  by (cases "ns_data (d_nodes d ! nd_index e)") (simp_all add: kind_in_doc data_of_Some)

text \<open>An update of the attributes: one element's value for one name, and nothing else of the document.\<close>

definition attr_update :: "document \<Rightarrow> document \<Rightarrow> node_id \<Rightarrow> ustring option \<Rightarrow> ustring \<Rightarrow> ustring \<Rightarrow> bool" where
  "attr_update d d' e ns l v \<longleftrightarrow>
     (\<forall>e' ns' l'. in_doc d e' \<longrightarrow>
        attribute_ns d' e' ns' l' = (if e' = e \<and> ns' = ns \<and> l' = l then Some (Some v) else attribute_ns d e' ns' l'))"

lemma attr_updateI:
  assumes "doc_wf d" "doc_wf d'" "\<And>i. in_doc d i \<Longrightarrow> in_doc d' i"
    "attribute_ns d' e ns l = Some (Some v)"
    "\<And>e' ns' l' w. in_doc d e' \<Longrightarrow> \<not> (e' = e \<and> ns' = ns \<and> l' = l) \<Longrightarrow>
       attribute_ns d' e' ns' l' = Some (Some w) \<longleftrightarrow> attribute_ns d e' ns' l' = Some (Some w)"
  shows "attr_update d d' e ns l v"
  unfolding attr_update_def using assms attribute_ns_cong [OF assms(2) _ assms(1)] by auto

lemma put_attribute_spec:
  assumes wf: "doc_wf d" and e: "in_doc d e" "data_of d e = Some (Element ed)"
    and n: "means (d_pool d) (en_namespace (qn_expanded name)) ns" "resolve (d_pool d) (qn_local name) = Some l"
      "qname_handles name \<subseteq> known (d_pool d)"
  shows "runs (put_attribute e name v) d
    (\<lambda>_ d'. doc_wf d' \<and> kids d' = kids d \<and> attr_update d d' e ns l v)
    (\<lambda>x d'. d' = d \<and> x = NOT_SUPPORTED_ERR)"
proof -
  let ?m = "data_of d"
  note o = doc_wfD(2) [OF wf]
  note p = doc_wfD(4) [OF wf]
  have same: "qn_expanded (ad_name x) = qn_expanded name \<longleftrightarrow> is_named (d_pool d) ns l x" for x
  proof
    assume "qn_expanded (ad_name x) = qn_expanded name"
    with n(1,2) show "is_named (d_pool d) ns l x" by (simp add: is_named_def)
  next
    assume "is_named (d_pool d) ns l x"
    then have "en_namespace (qn_expanded (ad_name x)) = en_namespace (qn_expanded name)" "qn_local (ad_name x) = qn_local name"
      using means_inj [OF p _ n(1)] resolve_inj [OF p _ n(2)] by (simp_all add: is_named_def)
    then show "qn_expanded (ad_name x) = qn_expanded name" by simp
  qed
  have ea: "attrs_of d e = ed_attributes ed" by (simp add: attrs_at_def e)
  show ?thesis
  proof (cases "find (\<lambda>a. \<exists>x. attr_of d a = Some x \<and> is_named (d_pool d) ns l x) (attrs_of d e)")
    case (Some a)
    from find_Some_in [OF this] obtain x where a: "a \<in> set (attrs_of d e)" and x: "attr_of d a = Some x" "is_named (d_pool d) ns l x"
      by blast
    have i: "in_doc d a" by (rule attr_at_in_doc [OF x(1)])
    have da: "?m a = Some (Attribute x)" using x(1) by (simp add: attr_at_Some)
    let ?d = "put a (Attribute (x\<lparr>ad_value := v\<rparr>)) d"
    have o': "owners_ok (?m(a \<mapsto> Attribute (x\<lparr>ad_value := v\<rparr>)))"
      by (rule owners_ok_view [OF o]) (simp add: da attr_view_def)
    have wf': "doc_wf ?d"
      by (rule doc_wf_put [OF wf i _ _ o']) (use handles_known [OF wf da] kind_data [OF da] in simp_all)
    have k: "kids ?d = kids d" using tree_wf_retouched [OF doc_wfD(1) [OF wf] retouched_put [OF i]] kind_data [OF da] by simp
    have u: "attr_update d ?d e ns l v"
    proof (rule attr_updateI [OF wf wf'])
      have at: "attrs_of ?d q = attrs_of d q" for q using da by (auto simp: data_of_put [OF i] attrs_at_def)
      show "attribute_ns ?d e ns l = Some (Some v)"
        unfolding attribute_ns_Some [OF wf', simplified, OF e(1)] at using a x(2)
        by (auto simp: data_of_put [OF i] is_named_def intro!: bexI [of _ a])
      show "attribute_ns ?d q ns' l' = Some (Some w) \<longleftrightarrow> attribute_ns d q ns' l' = Some (Some w)"
        if "in_doc d q" "\<not> (q = e \<and> ns' = ns \<and> l' = l)" for q ns' l' w
      proof -
        have "a \<in> set (attrs_of d q) \<Longrightarrow> q = e"
          using owners_okD(3) [OF o, of a q] owners_okD(3) [OF o, of a e] a by auto
        moreover have "is_named (d_pool d) ns' l' x \<Longrightarrow> ns' = ns \<and> l' = l"
          using x(2) means_unique [OF p] by (auto simp: is_named_def)
        ultimately have "\<not> (a \<in> set (attrs_of d q) \<and> is_named (d_pool d) ns' l' x)" using that(2) by blast
        then have "z \<in> set (attrs_of d q) \<Longrightarrow>
            (\<exists>y. attr_of ?d z = Some y \<and> is_named (d_pool d) ns' l' y \<and> ad_value y = w) \<longleftrightarrow>
            (\<exists>y. attr_of d z = Some y \<and> is_named (d_pool d) ns' l' y \<and> ad_value y = w)" for z
          using x(1) by (cases "z = a") (auto simp: data_of_put [OF i] is_named_def)
        then show ?thesis unfolding attribute_ns_Some [OF wf', simplified, OF that(1)] attribute_ns_Some [OF wf that(1)] at
          put_fields by (intro bex_cong refl)
      qed
    qed simp
    show ?thesis unfolding put_attribute_def runs_andThen runs_find_attribute [OF wf e(1)] same Some option.case
      runs_eq [where m = "attr_data_mut a _", OF attr_data_mut_put [OF da]]
      using wf' k u by blast
  next
    case None
    let ?x = "\<lparr>ad_name = name, ad_value = v, ad_owner = Some e, ad_is_id = False\<rparr>"
    let ?a = "new_node d"
    let ?d1 = "grown d (Attribute ?x)"
    let ?d = "put e (Element (ed\<lparr>ed_attributes := ed_attributes ed @ [?a]\<rparr>)) ?d1"
    have an: "?m ?a = None" by (simp add: data_of_def slot_in_doc)
    have ae: "?a \<noteq> e" using e(1) by auto
    have i1: "in_doc ?d1 e" using e(1) by (simp add: in_doc_grown)
    have m: "data_of ?d = ?m(?a \<mapsto> Attribute ?x, e \<mapsto> Element (ed\<lparr>ed_attributes := ed_attributes ed @ [?a]\<rparr>))"
      by (simp add: data_of_put [OF i1] data_of_grown)
    have nn: "Some (qn_expanded name) \<notin> set (map (expanded_at ?m) (ed_attributes ed))"
    proof
      assume "Some (qn_expanded name) \<in> set (map (expanded_at ?m) (ed_attributes ed))"
      then obtain b where b: "b \<in> set (attrs_of d e)" "expanded_at ?m b = Some (qn_expanded name)" by (auto simp: ea)
      from b(2) obtain y where "attr_of d b = Some y" "qn_expanded (ad_name y) = qn_expanded name"
        by (auto simp: expanded_at_def)
      with None b(1) same show False by (auto simp: find_None_iff)
    qed
    have o': "owners_ok (data_of ?d)" unfolding m
      by (rule owners_ok_attach [OF o e(2)]) (use an ae nn in \<open>auto simp: attr_at_def\<close>)
    have t1: "tree_wf ?d1" "kids ?d1 = kids d" using tree_wf_grown [OF doc_wfD(1) [OF wf], of "Attribute ?x"] by simp_all
    have k1: "kind ?d1 e = ELEMENT_NODE" using ae kind_data [OF e(2)] by (simp add: kind_grown)
    have t: "tree_wf ?d" "kids ?d = kids d"
      using tree_wf_retouched [OF t1(1) retouched_put [OF i1]] k1 t1(2) by simp_all
    have "names_ok ?d" using doc_wfD(3) [OF wf] n(3) handles_known [OF wf e(2)] unfolding names_ok_def m by simp
    with t o' have wf': "doc_wf ?d" by (simp add: doc_wf_def)
    have i': "in_doc ?d q \<longleftrightarrow> in_doc d q \<or> q = ?a" for q by (simp add: in_doc_grown)
    have u: "attr_update d ?d e ns l v"
    proof (rule attr_updateI [OF wf wf'])
      have ie: "in_doc ?d e" using e(1) by (simp add: in_doc_grown)
      have isn: "is_named (d_pool d) ns l ?x" using n by (simp add: is_named_def)
      show "attribute_ns ?d e ns l = Some (Some v)"
        unfolding attribute_ns_Some [OF wf' ie] m
        by (rule bexI [of _ ?a]) (use ae isn in \<open>simp_all\<close>)
      show "attribute_ns ?d q ns' l' = Some (Some w) \<longleftrightarrow> attribute_ns d q ns' l' = Some (Some w)"
        if q: "in_doc d q" and ne: "\<not> (q = e \<and> ns' = ns \<and> l' = l)" for q ns' l' w
      proof -
        have iq: "in_doc ?d q" using q by (simp add: in_doc_grown)
        have qa: "q \<noteq> ?a" using q by auto
        have nx: "q = e \<Longrightarrow> \<not> is_named (d_pool d) ns' l' ?x"
          using isn ne means_unique [OF p] by (auto simp: is_named_def)
        have na: "?a \<notin> set (attrs_of d q)" "e \<notin> set (attrs_of d q)"
          using owners_okD(3) [OF o, of _ q] an e(2) by (auto simp: attr_at_def)
        let ?F = "\<lambda>d z. \<exists>y. attr_of d z = Some y \<and> is_named (d_pool d) ns' l' y \<and> ad_value y = w"
        have "attr_of ?d z = attr_of d z" if "z \<in> set (attrs_of d q)" for z
          using na that unfolding m by auto
        then have "(\<exists>z \<in> set (attrs_of d q). ?F ?d z) \<longleftrightarrow> (\<exists>z \<in> set (attrs_of d q). ?F d z)"
          by (intro bex_cong refl) simp
        moreover have "set (attrs_of ?d q) = (if q = e then insert ?a (set (attrs_of d q)) else set (attrs_of d q))"
          unfolding m using qa ea by simp
        moreover have "q = e \<Longrightarrow> \<not> ?F ?d ?a" using nx ae unfolding m by simp
        ultimately show ?thesis unfolding attribute_ns_Some [OF wf' iq] attribute_ns_Some [OF wf q] by auto
      qed
    qed (simp add: in_doc_grown)
    have mut: "element_data_mut e (\<lambda>ed. ed\<lparr>ed_attributes := ed_attributes ed @ [?a]\<rparr>) ?d1 = (Inr (), ?d)"
      by (rule element_data_mut_put) (use ae e(2) in \<open>simp add: data_of_grown\<close>)
    show ?thesis unfolding put_attribute_def runs_andThen runs_find_attribute [OF wf e(1)] same None option.case
      runs_push_node new_attribute_def runs_eq [where m = "element_data_mut e _", OF mut]
      using wf' t(2) u by simp
  qed
qed

lemma attr_update_interned:
  assumes wf: "doc_wf d" and i: "interned d d1" and u: "attr_update d1 d' e ns l v"
  shows "attr_update d d' e ns l v"
proof -
  have eq: "attribute_ns d1 q ns' l' = attribute_ns d q ns' l'" if q: "in_doc d q" for q ns' l'
  proof (rule attribute_ns_cong [OF doc_wf_interned [OF wf i] _ wf q])
    have nm: "is_named (d_pool d1) ns' l' x \<longleftrightarrow> is_named (d_pool d) ns' l' x" if "attr_of d a = Some x" for a x
    proof -
      have "handles (Attribute x) \<subseteq> known (d_pool d)" using that by (intro handles_known [OF wf]) (simp add: attr_at_Some)
      then have k: "set_option (en_namespace (qn_expanded (ad_name x))) \<subseteq> known (d_pool d)" "qn_local (ad_name x) \<in> known (d_pool d)"
        by auto
      have "resolve (d_pool d1) h = resolve (d_pool d) h" if "h \<in> known (d_pool d)" for h
        using that interned_resolve [OF i, of h] by (auto simp: known_def)
      with k show ?thesis
        by (cases "en_namespace (qn_expanded (ad_name x))"; cases ns') (simp_all add: is_named_def)
    qed
    show "attribute_ns d1 q ns' l' = Some (Some w) \<longleftrightarrow> attribute_ns d q ns' l' = Some (Some w)" for w
      unfolding attribute_ns_Some [OF wf q] attribute_ns_Some [OF doc_wf_interned [OF wf i], unfolded interned_same [OF i], OF q]
      using nm by (intro bex_cong refl) blast
  qed (simp add: interned_same [OF i] q)
  show ?thesis using u eq by (simp add: attr_update_def interned_same [OF i])
qed

lemma attr_error_interned:
  "doc_wf d \<Longrightarrow> interned d d' \<Longrightarrow> doc_wf d' \<and> kids d' = kids d"
  using doc_wf_interned extends_interned by (simp add: extends_def)

lemma runs_require_element:
  "in_doc d e \<Longrightarrow> runs (require_element e) d R E \<longleftrightarrow> (if kind d e = ELEMENT_NODE then R () d else E NOT_SUPPORTED_ERR d)"
  by (cases "ns_data (d_nodes d ! nd_index e)") (simp_all add: require_element_def runs_read_slot kind_in_doc)

definition attr_set_error :: "document \<Rightarrow> node_id \<Rightarrow> exception_code option \<Rightarrow> exception_code option" where
  "attr_set_error d e name_error =
     (if \<not> owns_node d e then Some WRONG_DOCUMENT_ERR
      else if kind d e \<noteq> ELEMENT_NODE then Some NOT_SUPPORTED_ERR
      else name_error)"

lemma set_parsed:
  assumes wf: "doc_wf d" and e: "in_doc d e" "kind d e = ELEMENT_NODE" and i: "interned d d1"
    and ns: "means (d_pool d1) h ns" and q: "split_qname q = Some (pr, l)"
  shows "runs (andThen (parse_qname q h) (\<lambda>name. put_attribute e name v)) d1
    (\<lambda>_ d'. doc_wf d' \<and> kids d' = kids d \<and> attr_update d d' e ns l v)
    (\<lambda>x d'. doc_wf d' \<and> kids d' = kids d \<and> x = NOT_SUPPORTED_ERR)"
proof (simp only: runs_andThen, rule runs_parse_qname [OF interned_pool [OF i]], goal_cases)
  case (1 pr' l' h' g d2)
  with q have l: "l' = l" by simp
  have i2: "interned d d2" using i 1(2) by (rule interned_trans)
  note s = interned_same [OF i2]
  obtain ed where ed: "data_of d e = Some (Element ed)" using kind_element [OF e(2,1)] by blast
  have m: "means (d_pool d2) h ns" by (rule means_interned [OF 1(2) ns])
  have "runs (put_attribute e (qname_new h' h g) v) d2
    (\<lambda>_ d'. doc_wf d' \<and> kids d' = kids d2 \<and> attr_update d2 d' e ns l v) (\<lambda>x d'. d' = d2 \<and> x = NOT_SUPPORTED_ERR)"
    by (rule put_attribute_spec [OF doc_wf_interned [OF wf i2], where ed = ed])
       (use 1 m e ed l qname_handles_known [OF 1(3,4) means_known [OF m]] in \<open>simp_all add: s qname_new_def\<close>)
  then show ?case
    by (rule runs_mono) (use attr_error_interned [OF wf i2] attr_update_interned [OF wf i2] in auto)
next
  case (2 d2)
  have "interned d d2" using i 2 by (rule interned_trans)
  with q attr_error_interned [OF wf] show ?case by simp
qed

lemma set_attribute_ns_spec:
  assumes wf: "doc_wf d" and h: "handle d e"
  shows "runs (set_attribute_ns e ns q v) d
    (\<lambda>_ d'. attr_set_error d e (qname_error ns q True) = None \<and> doc_wf d' \<and> kids d' = kids d \<and>
       attr_update d d' e ns (snd (the (split_qname q))) v)
    (\<lambda>x d'. doc_wf d' \<and> kids d' = kids d \<and>
       (case attr_set_error d e (qname_error ns q True) of None \<Rightarrow> x = NOT_SUPPORTED_ERR | Some y \<Rightarrow> x = y \<and> d' = d))"
proof (cases "attr_set_error d e (qname_error ns q True)")
  case (Some y)
  show ?thesis
  proof (cases "owns_node d e")
    case False
    with Some wf show ?thesis by (simp add: set_attribute_ns_def attr_set_error_def)
  next
    case True
    with h have i: "in_doc d e" by (simp add: handle_def)
    with Some wf show ?thesis
      by (simp add: set_attribute_ns_def attr_set_error_def runs_require_element True runs_check_qname_namespace split: if_splits option.split)
  qed
next
  case None
  then have e: "owns_node d e" "kind d e = ELEMENT_NODE" "qname_error ns q True = None"
    by (simp_all add: attr_set_error_def split: if_splits)
  with h have i: "in_doc d e" by (simp add: handle_def)
  obtain pr l where q: "split_qname q = Some (pr, l)" using qname_error_None [OF e(3)] by auto
  note p = doc_wfD(4) [OF wf]
  have "runs (andThen (intern_option ns) (\<lambda>h. andThen (parse_qname q h) (\<lambda>name. put_attribute e name v))) d
    (\<lambda>_ d'. doc_wf d' \<and> kids d' = kids d \<and> attr_update d d' e ns l v)
    (\<lambda>x d'. doc_wf d' \<and> kids d' = kids d \<and> x = NOT_SUPPORTED_ERR)"
    unfolding runs_andThen [of "intern_option ns"]
    by (rule runs_intern_option [OF p], erule (1) set_parsed [OF wf i e(2) _ _ q]) (use wf in simp)
  then show ?thesis unfolding set_attribute_ns_def None
    using e i q by (simp add: runs_require_element runs_check_qname_namespace)
qed

lemma set_attribute_spec:
  assumes wf: "doc_wf d" and h: "handle d e"
  shows "runs (set_attribute e q v) d
    (\<lambda>_ d'. attr_set_error d e (if split_qname q = None then Some INVALID_CHARACTER_ERR else None) = None \<and>
       doc_wf d' \<and> kids d' = kids d \<and> attr_update d d' e None (snd (the (split_qname q))) v)
    (\<lambda>x d'. doc_wf d' \<and> kids d' = kids d \<and>
       (case attr_set_error d e (if split_qname q = None then Some INVALID_CHARACTER_ERR else None) of
          None \<Rightarrow> x = NOT_SUPPORTED_ERR | Some y \<Rightarrow> x = y \<and> d' = d))"
proof (cases "owns_node d e")
  case False
  with wf show ?thesis by (simp add: set_attribute_def attr_set_error_def)
next
  case own: True
  with h have i: "in_doc d e" by (simp add: handle_def)
  show ?thesis
  proof (cases "kind d e = ELEMENT_NODE")
    case False
    with own i wf show ?thesis by (simp add: set_attribute_def attr_set_error_def runs_require_element)
  next
    case k: True
    show ?thesis
    proof (cases "split_qname q")
      case None
      with own i wf k show ?thesis
        by (simp add: set_attribute_def attr_set_error_def runs_require_element parse_qname_def)
    next
      case (Some pl)
      obtain pr l where q: "split_qname q = Some (pr, l)" using Some by (cases pl) simp
      have "runs (andThen (parse_qname q None) (\<lambda>name. put_attribute e name v)) d
        (\<lambda>_ d'. doc_wf d' \<and> kids d' = kids d \<and> attr_update d d' e None l v)
        (\<lambda>x d'. doc_wf d' \<and> kids d' = kids d \<and> x = NOT_SUPPORTED_ERR)"
        by (rule set_parsed [OF wf i k interned_refl [OF doc_wfD(4) [OF wf]] _ q]) simp
      then show ?thesis using own i k q
        by (simp add: set_attribute_def attr_set_error_def runs_require_element)
    qed
  qed
qed

section \<open>Attribute nodes\<close>

lemma position_remove: "position (\<lambda>x. x = a) xs = Some n \<Longrightarrow> a \<in> set xs \<and> remove_at n xs = remove1 a xs"
  by (induction xs arbitrary: n) (auto split: if_splits)

lemma position_None: "position P xs = None \<longleftrightarrow> (\<forall>x \<in> set xs. \<not> P x)"
  by (induction xs) auto

lemma data_of_put_other: "in_doc d i \<Longrightarrow> j \<noteq> i \<Longrightarrow> data_of (put i x d) j = data_of d j"
  by (simp add: data_of_put)

lemma remove_attribute_node_spec:
  assumes wf: "doc_wf d" and e: "in_doc d e" "kind d e = ELEMENT_NODE" and a: "handle d a"
  shows "runs (remove_attribute_node e a) d
    (\<lambda>r d'. r = a \<and> a \<in> set (attrs_of d e) \<and> doc_wf d' \<and> retouched d d' \<and> kids d' = kids d \<and>
       attrs_of d' = (attrs_of d)(e := remove1 a (attrs_of d e)) \<and>
       attr_of d' = (attr_of d)(a := map_option (\<lambda>x. x\<lparr>ad_owner := None\<rparr>) (attr_of d a)) \<and> d_pool d' = d_pool d)
    (\<lambda>x d'. d' = d \<and> x = (if owns_node d a then NOT_FOUND_ERR else WRONG_DOCUMENT_ERR) \<and> a \<notin> set (attrs_of d e))"
proof -
  let ?m = "data_of d"
  note o = doc_wfD(2) [OF wf]
  have own: "owns_node d e" using e(1) by (simp add: in_doc_def)
  obtain ed where ed: "?m e = Some (Element ed)" using kind_element [OF e(2,1)] by blast
  have se: "ns_data (d_nodes d ! nd_index e) = Element ed" using ed by (simp add: data_of_Some)
  have ea: "attrs_of d e = ed_attributes ed" by (simp add: attrs_at_def ed)
  have nown: "\<not> owns_node d a \<Longrightarrow> a \<notin> set (attrs_of d e)" using attrs_in(1) [OF wf, of a e] by (auto simp: in_doc_def)
  show ?thesis
  proof (cases "owns_node d a")
    case False
    with nown own show ?thesis by (simp add: remove_attribute_node_def)
  next
    case True
    with a have ia: "in_doc d a" by (simp add: handle_def)
    show ?thesis
    proof (cases "position (\<lambda>x. x = a) (ed_attributes ed)")
      case None
      then have "a \<notin> set (attrs_of d e)" by (auto simp: position_None ea)
      with None own True show ?thesis
        by (simp add: remove_attribute_node_def runs_read_index [OF e(1)] se)
    next
      case (Some n)
      from position_remove [OF Some] have r: "a \<in> set (ed_attributes ed)" "remove_at n (ed_attributes ed) = remove1 a (ed_attributes ed)"
        by auto
      obtain x where x: "attr_of d a = Some x" "ad_owner x = Some e" using attrs_in(2) [OF wf] r(1) ea by metis
      have da: "?m a = Some (Attribute x)" using x(1) by (simp add: attr_at_Some)
      have ae: "a \<noteq> e" using da ed by auto
      let ?e = "Element (ed\<lparr>ed_attributes := remove1 a (ed_attributes ed)\<rparr>)"
      let ?a = "Attribute (x\<lparr>ad_owner := None\<rparr>)"
      let ?d1 = "put e ?e d"
      let ?d = "put a ?a ?d1"
      have i1: "in_doc ?d1 a" using ia by simp
      have m1: "data_of ?d1 a = Some (Attribute x)" using ae da by (simp add: data_of_put_other [OF e(1)])
      have m: "data_of ?d = ?m(e \<mapsto> ?e, a \<mapsto> ?a)" by (simp add: data_of_put [OF i1] data_of_put [OF e(1)])
      have o': "owners_ok (data_of ?d)" unfolding m by (rule owners_ok_detach [OF o ed r(1)]) simp_all
      have rt: "retouched d ?d"
        using retouched_put [OF e(1), of ?e] retouched_put [OF i1, of ?a] kind_data [OF ed] kind_data [OF m1]
        by (auto intro: retouched_trans)
      have t: "tree_wf ?d" "kids ?d = kids d" using tree_wf_retouched [OF doc_wfD(1) [OF wf] rt] by simp_all
      have "names_ok ?d" using doc_wfD(3) [OF wf] handles_known [OF wf ed] handles_known [OF wf da]
        unfolding names_ok_def m by simp
      with t o' have wf': "doc_wf ?d" by (simp add: doc_wf_def)
      have na: "e \<notin> set (attrs_of d q)" for q using owners_okD(3) [OF o, of e q] ed by (simp add: attr_at_def)
      have aa: "attrs_of ?d = (attrs_of d)(e := remove1 a (attrs_of d e))"
        using ae da ea unfolding m by (intro ext) (auto simp: attrs_at_def)
      have ad: "attr_of ?d = (attr_of d)(a := map_option (\<lambda>x. x\<lparr>ad_owner := None\<rparr>) (attr_of d a))"
        using x(1) ed unfolding m by (intro ext) (auto simp: attr_at_def)
      have m1': "element_data_mut e (\<lambda>e. e\<lparr>ed_attributes := remove_at n (ed_attributes e)\<rparr>) d = (Inr (), ?d1)"
        using element_data_mut_put [OF ed, of "\<lambda>e. e\<lparr>ed_attributes := remove_at n (ed_attributes e)\<rparr>"] r(2) by simp
      show ?thesis
        unfolding remove_attribute_node_def using own True wf' t(2) aa ad rt r(1)
        by (simp add: runs_read_index [OF e(1)] se Some runs_eq [where m = "element_data_mut e _", OF m1']
            runs_eq [where m = "attr_data_mut a _", OF attr_data_mut_put [OF m1]] ea)
    qed
  qed
qed

lemma runs_get_attribute_node:
  assumes wf: "doc_wf d" and e: "in_doc d e"
    and "\<And>a x. a \<in> set (attrs_of d e) \<Longrightarrow> attr_of d a = Some x \<Longrightarrow> R (Some a) d" "R None d"
  shows "runs (read_of (\<lambda>d. get_attribute_node d e q)) d R E"
proof -
  have f: "\<exists>a. find_attribute d e P = Some a \<and> R a d" for P
  proof (cases "find (\<lambda>a. \<exists>x. attr_of d a = Some x \<and> P x) (attrs_of d e)")
    case None
    with assms(4) show ?thesis by (simp add: find_attribute_eq [OF wf e])
  next
    case (Some a)
    with find_Some_in [OF Some] assms(3) show ?thesis by (auto simp: find_attribute_eq [OF wf e])
  qed
  have "\<exists>a. get_attribute_node d e q = Some a \<and> R a d"
  proof (cases "split_qname q")
    case (Some pl)
    obtain pr l where "pl = (pr, l)" by (cases pl)
    note q = Some this
    show ?thesis
    proof (cases "get_option (d_pool d) pr")
      case None
      with q assms(4) show ?thesis by (simp add: get_attribute_node_def)
    next
      case (Some pr')
      show ?thesis
      proof (cases "get (d_pool d) l")
        case None
        with q Some assms(4) show ?thesis by (simp add: get_attribute_node_def)
      next
        case (Some l')
        with q \<open>get_option (d_pool d) pr = Some pr'\<close>
        have "get_attribute_node d e q = find_attribute d e (\<lambda>a. qn_prefix (ad_name a) = pr' \<and> qn_local (ad_name a) = l')"
          by (simp add: get_attribute_node_def)
        with f show ?thesis by (simp only:)
      qed
    qed
  qed (simp add: get_attribute_node_def assms(4))
  then obtain a where a: "get_attribute_node d e q = Some a" "R a d" by blast
  show ?thesis by (simp only: runs_read_of [where f = "\<lambda>d. get_attribute_node d e q", OF a(1)] a(2))
qed

lemma remove_attribute_spec:
  assumes wf: "doc_wf d" and h: "handle d e"
  shows "runs (remove_attribute e q) d
    (\<lambda>_ d'. attr_set_error d e None = None \<and> doc_wf d' \<and> retouched d d' \<and> kids d' = kids d)
    (\<lambda>x d'. d' = d \<and> attr_set_error d e None = Some x)"
proof (cases "owns_node d e \<and> kind d e = ELEMENT_NODE")
  case False
  with h show ?thesis by (auto simp: remove_attribute_def attr_set_error_def runs_require_element handle_def)
next
  case True
  with h have i: "in_doc d e" by (simp add: handle_def)
  have e: "attr_set_error d e None = None" using True by (simp add: attr_set_error_def)
  have "runs (read_of (\<lambda>d. get_attribute_node d e q)) d
    (\<lambda>found d'. runs (case found of None \<Rightarrow> ok () | Some attr \<Rightarrow> andThen (remove_attribute_node e attr) (\<lambda>_. ok ())) d'
      (\<lambda>_ d'. doc_wf d' \<and> retouched d d' \<and> kids d' = kids d) (\<lambda>x d'. False)) (\<lambda>x d'. False)"
  proof (rule runs_get_attribute_node [OF wf i])
    fix a x
    assume a: "a \<in> set (attrs_of d e)" "attr_of d a = Some x"
    have "handle d a" using attr_at_in_doc [OF a(2)] by (simp add: handle_def)
    then show "runs (case Some a of None \<Rightarrow> ok () | Some attr \<Rightarrow> andThen (remove_attribute_node e attr) (\<lambda>_. ok ())) d
      (\<lambda>_ d'. doc_wf d' \<and> retouched d d' \<and> kids d' = kids d) (\<lambda>x d'. False)"
      unfolding option.case runs_andThen
      using True a(1) by (intro runs_mono [OF remove_attribute_node_spec [OF wf i _ \<open>handle d a\<close>]]) simp_all
  qed (use wf in simp)
  then show ?thesis unfolding remove_attribute_def using True e
    by (simp add: runs_require_element i)
qed

definition attach_error :: "document \<Rightarrow> node_id \<Rightarrow> node_id \<Rightarrow> exception_code option" where
  "attach_error d e a =
     (if \<not> (owns_node d e \<and> owns_node d a) then Some WRONG_DOCUMENT_ERR
      else if kind d e \<noteq> ELEMENT_NODE \<or> kind d a \<noteq> ATTRIBUTE_NODE then Some NOT_SUPPORTED_ERR
      else if map_option ad_owner (attr_of d a) \<notin> {Some None, Some (Some e)} then Some INUSE_ATTRIBUTE_ERR
      else None)"

text \<open>The attributes without the one of the same expanded name as \<open>a\<close>, then \<open>a\<close>.\<close>

definition attached :: "document \<Rightarrow> node_id list \<Rightarrow> node_id \<Rightarrow> node_id list" where
  "attached d as a = filter (\<lambda>b. expanded_at (data_of d) b \<noteq> expanded_at (data_of d) a) as @ [a]"

lemma kind_attribute: "kind d a = ATTRIBUTE_NODE \<Longrightarrow> in_doc d a \<Longrightarrow> \<exists>x. data_of d a = Some (Attribute x)"
  by (cases "ns_data (d_nodes d ! nd_index a)") (simp_all add: kind_in_doc data_of_Some)

lemma attach_put:
  assumes wf: "doc_wf d" and e: "data_of d e = Some (Element ed)" and a: "data_of d a = Some (Attribute x)"
    and x: "ad_owner x = None" and n: "Some (qn_expanded (ad_name x)) \<notin> set (map (expanded_at (data_of d)) (ed_attributes ed))"
  shows "\<exists>d'. andThen (attr_data_mut a (\<lambda>a. a\<lparr>ad_owner := Some e\<rparr>)) (\<lambda>_. element_data_mut e (\<lambda>e. e\<lparr>ed_attributes := ed_attributes e @ [a]\<rparr>)) d = (Inr (), d') \<and>
    doc_wf d' \<and> retouched d d' \<and> kids d' = kids d \<and> attrs_of d' = (attrs_of d)(e := attrs_of d e @ [a])"
proof -
  let ?m = "data_of d"
  note o = doc_wfD(2) [OF wf]
  have i: "in_doc d a" "in_doc d e" using a e by (simp_all add: data_of_Some)
  have ae: "a \<noteq> e" using a e by auto
  let ?a = "Attribute (x\<lparr>ad_owner := Some e\<rparr>)"
  let ?e = "Element (ed\<lparr>ed_attributes := ed_attributes ed @ [a]\<rparr>)"
  let ?d1 = "put a ?a d"
  let ?d = "put e ?e ?d1"
  have m1: "data_of ?d1 e = Some (Element ed)" using ae e by (simp add: data_of_put_other [OF i(1)])
  have i1: "in_doc ?d1 e" using i by simp
  have m: "data_of ?d = ?m(a \<mapsto> ?a, e \<mapsto> ?e)" by (simp add: data_of_put [OF i1] data_of_put [OF i(1)])
  have o': "owners_ok (data_of ?d)" unfolding m
    by (rule owners_ok_attach [OF o e]) (use a x ae n in \<open>auto simp: attr_at_def\<close>)
  have rt: "retouched d ?d"
    using retouched_put [OF i(1), of ?a] retouched_put [OF i1, of ?e] kind_data [OF a] kind_data [OF m1]
    by (auto intro: retouched_trans)
  have t: "tree_wf ?d" "kids ?d = kids d" using tree_wf_retouched [OF doc_wfD(1) [OF wf] rt] by simp_all
  have "names_ok ?d" using doc_wfD(3) [OF wf] handles_known [OF wf e] handles_known [OF wf a]
    unfolding names_ok_def m by simp
  with t o' have wf': "doc_wf ?d" by (simp add: doc_wf_def)
  have aa: "attrs_of ?d = (attrs_of d)(e := attrs_of d e @ [a])"
    using ae a e unfolding m by (intro ext) (auto simp: attrs_at_def)
  show ?thesis using attr_data_mut_put [OF a, of "\<lambda>a. a\<lparr>ad_owner := Some e\<rparr>"]
    element_data_mut_put [OF m1, of "\<lambda>e. e\<lparr>ed_attributes := ed_attributes e @ [a]\<rparr>"] wf' rt t(2) aa by simp
qed

lemma expanded_at_attr: "attr_of d a = Some x \<Longrightarrow> expanded_at (data_of d) a = Some (qn_expanded (ad_name x))"
  by (simp add: expanded_at_def)

lemma set_attribute_node_spec:
  assumes wf: "doc_wf d" and h: "handle d e" "handle d a"
  shows "case attach_error d e a of
      Some x \<Rightarrow> set_attribute_node e a d = (Inl (Exception x), d)
    | None \<Rightarrow> \<exists>d'. set_attribute_node e a d = (Inr (), d') \<and> doc_wf d' \<and> retouched d d' \<and> kids d' = kids d \<and>
        attrs_of d' = (attrs_of d)(e := attached d (attrs_of d e) a)"
proof (cases "owns_node d e \<and> owns_node d a")
  case False
  then show ?thesis by (auto simp: attach_error_def set_attribute_node_def require_own_eq andThen_def)
next
  case own: True
  with h have i: "in_doc d e" "in_doc d a" by (auto simp: handle_def)
  have re: "require_element e d = (if kind d e = ELEMENT_NODE then (Inr (), d) else (Inl (Exception NOT_SUPPORTED_ERR), d))"
    using i(1) by (cases "ns_data (d_nodes d ! nd_index e)") (simp_all add: require_element_def read_slot_in_doc require_eq kind_in_doc)
  show ?thesis
  proof (cases "kind d e = ELEMENT_NODE \<and> kind d a = ATTRIBUTE_NODE")
    case False
    with own i show ?thesis
      by (cases "ns_data (d_nodes d ! nd_index a)")
         (auto simp: attach_error_def set_attribute_node_def require_own_eq re andThen_def read_slot_in_doc kind_in_doc fail_def)
  next
    case k: True
    note o = doc_wfD(2) [OF wf]
    obtain ed where ed: "data_of d e = Some (Element ed)" using kind_element [of d e] k i by blast
    obtain x where x: "data_of d a = Some (Attribute x)" using kind_attribute [of d a] k i by blast
    have ax: "attr_of d a = Some x" by (simp add: attr_at_Some x)
    have sx: "ns_data (d_nodes d ! nd_index a) = Attribute x" using x by (simp add: data_of_Some)
    have ea: "attrs_of d e = ed_attributes ed" by (simp add: attrs_at_def ed)
    let ?found = "find (\<lambda>b. \<exists>y. attr_of d b = Some y \<and> qn_expanded (ad_name y) = qn_expanded (ad_name x)) (attrs_of d e)"
    have fa: "read_of (\<lambda>d. find_attribute d e (\<lambda>a. qn_expanded (ad_name a) = qn_expanded (ad_name x))) d = (Inr ?found, d)"
      by (simp add: read_of_def find_attribute_eq [OF wf i(1)] ok_def)
    define rest where "rest = andThen (attr_data_mut a (\<lambda>a. a\<lparr>ad_owner := Some e\<rparr>)) (\<lambda>_. element_data_mut e (\<lambda>e. e\<lparr>ed_attributes := ed_attributes e @ [a]\<rparr>))"
    have step: "set_attribute_node e a d =
      (if ad_owner x = None \<or> ad_owner x = Some e
       then andThen (case ?found of Some existing \<Rightarrow> andThen (remove_attribute_node e existing) (\<lambda>_. ok ()) | None \<Rightarrow> ok ()) (\<lambda>_. rest) d
       else (Inl (Exception INUSE_ATTRIBUTE_ERR), d))"
      unfolding set_attribute_node_def rest_def using own k i
      by (simp add: require_own_eq re read_slot_in_doc sx attr_data_of_def require_eq fa ok_def andThen_def)
    show ?thesis
    proof (cases "ad_owner x = None \<or> ad_owner x = Some e")
      case False
      with own k step ax show ?thesis by (auto simp: attach_error_def)
    next
      case ow: True
      with own k ax have noerr: "attach_error d e a = None" by (auto simp: attach_error_def)
      have same: "expanded_at (data_of d) b = expanded_at (data_of d) a \<longleftrightarrow> (\<exists>y. attr_of d b = Some y \<and> qn_expanded (ad_name y) = qn_expanded (ad_name x))" for b
        by (auto simp: expanded_at_def ax)
      have "\<exists>d'. andThen (case ?found of Some existing \<Rightarrow> andThen (remove_attribute_node e existing) (\<lambda>_. ok ()) | None \<Rightarrow> ok ()) (\<lambda>_. rest) d = (Inr (), d') \<and>
        doc_wf d' \<and> retouched d d' \<and> kids d' = kids d \<and> attrs_of d' = (attrs_of d)(e := attached d (attrs_of d e) a)"
      proof (cases ?found)
        case None
        then have nf: "expanded_at (data_of d) b \<noteq> expanded_at (data_of d) a" if "b \<in> set (attrs_of d e)" for b
          using that unfolding same by (auto simp: find_None_iff)
        then have "ad_owner x \<noteq> Some e" using owners_okD(3) [OF o, of a e] ax by fastforce
        with ow have xo: "ad_owner x = None" by simp
        have "attached d (attrs_of d e) a = attrs_of d e @ [a]" using nf by (simp add: attached_def)
        moreover have "Some (qn_expanded (ad_name x)) \<notin> set (map (expanded_at (data_of d)) (ed_attributes ed))"
          using nf expanded_at_attr [OF ax] ea by fastforce
        ultimately show ?thesis using attach_put [OF wf ed x xo] None by (simp add: rest_def ok_def andThen_def)
      next
        case (Some b)
        from find_Some_in [OF Some] obtain y where b: "b \<in> set (attrs_of d e)" "attr_of d b = Some y"
          "qn_expanded (ad_name y) = qn_expanded (ad_name x)" by blast
        have hb: "handle d b" using attr_at_in_doc [OF b(2)] by (simp add: handle_def)
        have "runs (remove_attribute_node e b) d
          (\<lambda>r d'. r = b \<and> doc_wf d' \<and> retouched d d' \<and> kids d' = kids d \<and>
             attrs_of d' = (attrs_of d)(e := remove1 b (attrs_of d e)) \<and>
             attr_of d' = (attr_of d)(b := map_option (\<lambda>x. x\<lparr>ad_owner := None\<rparr>) (attr_of d b))) (\<lambda>x d'. False)"
          by (rule runs_mono [OF remove_attribute_node_spec [OF wf i(1) _ hb]]) (use k b(1) in simp_all)
        then obtain d1 where d1: "remove_attribute_node e b d = (Inr b, d1)" "doc_wf d1" "retouched d d1" "kids d1 = kids d"
          "attrs_of d1 = (attrs_of d)(e := remove1 b (attrs_of d e))"
          "attr_of d1 = (attr_of d)(b := map_option (\<lambda>x. x\<lparr>ad_owner := None\<rparr>) (attr_of d b))"
          by (auto simp: runs_def split: prod.splits sum.splits fault.splits)
        have k1: "kind d1 e = ELEMENT_NODE" "in_doc d1 e" using k d1(3) i retouched_in_doc [OF d1(3)] by (simp_all add: retouched_def)
        obtain ed1 where ed1: "data_of d1 e = Some (Element ed1)" using kind_element [OF k1] by blast
        have ea1: "ed_attributes ed1 = remove1 b (attrs_of d e)" using fun_cong [OF d1(5), of e] ed1 by (simp add: attrs_at_def)
        have ex1: "expanded_at (data_of d1) = expanded_at (data_of d)"
          by (rule ext) (simp add: expanded_at_def d1(6) option.map_comp comp_def)
        have dist: "distinct (map (expanded_at (data_of d)) (attrs_of d e))" by (rule owners_okD(1) [OF o])
        have uniq: "c = b" if "c \<in> set (attrs_of d e)" "expanded_at (data_of d) c = expanded_at (data_of d) a" for c
        proof -
          have "expanded_at (data_of d) b = expanded_at (data_of d) a" using b(2,3) same by blast
          with that(2) have "expanded_at (data_of d) c = expanded_at (data_of d) b" by simp
          with that(1) b(1) dist show ?thesis unfolding distinct_map by (blast dest: inj_onD)
        qed
        have xo: "\<exists>x1. data_of d1 a = Some (Attribute x1) \<and> ad_owner x1 = None \<and> ad_name x1 = ad_name x"
        proof (cases "ad_owner x = Some e")
          case True
          then have "a \<in> set (attrs_of d e)" using owners_okD(3) [OF o, of a e] ax by simp
          then have "a = b" by (rule uniq) simp
          then have "attr_of d1 a = Some (x\<lparr>ad_owner := None\<rparr>)" using ax by (simp add: d1(6))
          then show ?thesis by (simp add: attr_at_Some)
        next
          case False
          with ow have "ad_owner x = None" by simp
          moreover have "a \<noteq> b" using False attrs_in(2) [OF wf b(1)] ax by auto
          ultimately show ?thesis using ax d1(6) attr_at_Some [of "data_of d1" a x] by simp
        qed
        then obtain x1 where x1: "data_of d1 a = Some (Attribute x1)" "ad_owner x1 = None" "ad_name x1 = ad_name x" by blast
        have rem: "remove1 b (attrs_of d e) = filter (\<lambda>b. expanded_at (data_of d) b \<noteq> expanded_at (data_of d) a) (attrs_of d e)"
        proof -
          have "remove1 b (attrs_of d e) = filter (\<lambda>c. c \<noteq> b) (attrs_of d e)"
            using owners_okD(2) [OF o, of e] by (simp add: distinct_remove1_removeAll removeAll_filter_not_eq eq_commute)
          also have "\<dots> = filter (\<lambda>b. expanded_at (data_of d) b \<noteq> expanded_at (data_of d) a) (attrs_of d e)"
            using uniq b(2,3) same by (intro filter_cong refl) blast
          finally show ?thesis .
        qed
        have "Some (qn_expanded (ad_name x1)) \<notin> set (map (expanded_at (data_of d1)) (ed_attributes ed1))"
          unfolding ex1 ea1 rem x1(3) using expanded_at_attr [OF ax] by auto
        from attach_put [OF d1(2) ed1 x1(1,2) this, folded rest_def]
        obtain d2 where d2: "rest d1 = (Inr (), d2)" "doc_wf d2" "retouched d1 d2" "kids d2 = kids d1"
          "attrs_of d2 = (attrs_of d1)(e := attrs_of d1 e @ [a])" by blast
        have "attrs_of d2 = (attrs_of d)(e := attached d (attrs_of d e) a)"
          unfolding d2(5) d1(5) attached_def using rem by (intro ext) simp
        with d1 d2 show ?thesis by (auto simp: Some ok_def andThen_def intro: retouched_trans)
      qed
      with step ow noerr show ?thesis by simp
    qed
  qed
qed

end
