(* ===== verification/Dom_Api.thy ===== *)
theory Dom_Api
  imports Dom_Attr_Ops
begin

text \<open>
  The public methods of \<open>dom/document.rs\<close> that change a document, as the steps of a transition system:
  a document that is reached from a new one satisfies \<open>doc_wf\<close>, and no method panics on it. The calls
  that are left out, and what they do to a document, are at the end.
\<close>

section \<open>The remaining methods\<close>

lemma runs_set_id_attribute:
  assumes wf: "doc_wf d" and h: "handle d e"
  shows "runs (set_id_attribute e q b) d (\<lambda>_ d'. doc_wf d' \<and> kids d' = kids d) (\<lambda>x d'. d' = d \<and> x \<in> {WRONG_DOCUMENT_ERR, NOT_FOUND_ERR})"
proof (cases "owns_node d e")
  case True
  with h have i: "in_doc d e" by (simp add: handle_def)
  have "runs (read_of (\<lambda>d. get_attribute_node d e q)) d
    (\<lambda>found d'. runs (case found of None \<Rightarrow> fail NOT_FOUND_ERR | Some attr \<Rightarrow> attr_data_mut attr (\<lambda>a. a\<lparr>ad_is_id := b\<rparr>)) d'
      (\<lambda>_ d'. doc_wf d' \<and> kids d' = kids d) (\<lambda>x d'. d' = d \<and> x \<in> {WRONG_DOCUMENT_ERR, NOT_FOUND_ERR}))
    (\<lambda>x d'. d' = d \<and> x \<in> {WRONG_DOCUMENT_ERR, NOT_FOUND_ERR})"
  proof (rule runs_get_attribute_node [OF wf i])
    fix a x
    assume a: "a \<in> set (attrs_of d e)" "attr_of d a = Some x"
    have da: "data_of d a = Some (Attribute x)" using a(2) by (simp add: attr_at_Some)
    have ia: "in_doc d a" by (rule attr_at_in_doc [OF a(2)])
    let ?d = "put a (Attribute (x\<lparr>ad_is_id := b\<rparr>)) d"
    have o': "owners_ok ((data_of d)(a \<mapsto> Attribute (x\<lparr>ad_is_id := b\<rparr>)))"
      by (rule owners_ok_view [OF doc_wfD(2) [OF wf]]) (simp add: da attr_view_def)
    have "doc_wf ?d" by (rule doc_wf_put [OF wf ia _ _ o']) (use handles_known [OF wf da] kind_data [OF da] in simp_all)
    moreover have "kids ?d = kids d" using tree_wf_retouched [OF doc_wfD(1) [OF wf] retouched_put [OF ia]] kind_data [OF da] by simp
    ultimately show "runs (case Some a of None \<Rightarrow> fail NOT_FOUND_ERR | Some attr \<Rightarrow> attr_data_mut attr (\<lambda>a. a\<lparr>ad_is_id := b\<rparr>)) d
      (\<lambda>_ d'. doc_wf d' \<and> kids d' = kids d) (\<lambda>x d'. d' = d \<and> x \<in> {WRONG_DOCUMENT_ERR, NOT_FOUND_ERR})"
      by (simp add: runs_eq [where m = "attr_data_mut a _", OF attr_data_mut_put [OF da]])
  qed simp
  with True show ?thesis by (simp add: set_id_attribute_def)
qed (simp add: set_id_attribute_def)

lemma runs_set_document_base:
  assumes wf: "doc_wf d"
  shows "runs (set_document_base b) d (\<lambda>_ d'. doc_wf d') (\<lambda>x d'. doc_wf d')"
proof (simp add: set_document_base_def, rule runs_intern_option [OF doc_wfD(4) [OF wf]], goal_cases)
  case (1 h d1)
  let ?d = "d1\<lparr>d_base := h\<rparr>"
  note wf1 = doc_wf_interned [OF wf 1(1)]
  have own: "owns_node ?d = owns_node d1" by (rule ext) (simp add: owns_node_def)
  have i: "in_doc ?d = in_doc d1" by (rule ext) (simp add: in_doc_def own)
  have s: "slot ?d = slot d1" by (rule ext) (simp add: slot_in_doc i)
  have m: "data_of ?d = data_of d1" by (rule ext) (simp add: data_of_def s)
  have rt: "retouched d1 ?d"
    unfolding retouched_def by (auto simp: links_of_def follow_def [abs_def] s kind_def [abs_def] node_type_of_def)
  have "tree_wf ?d" using tree_wf_retouched [OF doc_wfD(1) [OF wf1] rt] by blast
  with wf1 m means_known [OF 1(2)] have "doc_wf ?d" by (simp add: doc_wf_def names_ok_def)
  then show ?case by (simp add: runs_def ok_def)
qed (rule wf)

lemma runs_set_element_base:
  assumes wf: "doc_wf d" and e: "in_doc d e"
  shows "runs (set_element_base e b) d (\<lambda>_ d'. doc_wf d') (\<lambda>x d'. doc_wf d')"
proof (simp add: set_element_base_def, rule runs_intern_option [OF doc_wfD(4) [OF wf]], goal_cases)
  case (1 h d1)
  note wf1 = doc_wf_interned [OF wf 1(1)]
  have i: "in_doc d1 e" using e interned_same [OF 1(1)] by simp
  obtain x where x: "data_of d1 e = Some x" using i by (auto simp: data_of_in_doc)
  let ?f = "\<lambda>s. case ns_data s of Element e \<Rightarrow> s\<lparr>ns_data := Element (e\<lparr>ed_base := h\<rparr>)\<rparr> | _ \<Rightarrow> s"
  define y where "y = (case x of Element e \<Rightarrow> Element (e\<lparr>ed_base := h\<rparr>) | _ \<Rightarrow> x)"
  have sx: "ns_data (d_nodes d1 ! nd_index e) = x" using x by (simp add: data_of_Some)
  have self: "s\<lparr>ns_data := ns_data s\<rparr> = s" for s :: node_slot by simp
  have "?f (d_nodes d1 ! nd_index e) = (d_nodes d1 ! nd_index e)\<lparr>ns_data := y\<rparr>"
    using sx self [of "d_nodes d1 ! nd_index e"] by (cases x) (simp_all add: y_def)
  then have "upd e ?f d1 = put e y d1" by (simp add: upd_def put_def)
  moreover have "doc_wf (put e y d1)"
  proof (rule doc_wf_put [OF wf1 i])
    show "type_of y = kind d1 e" using kind_data [OF x] by (cases x) (simp_all add: y_def)
    show "handles y \<subseteq> known (d_pool d1)" using handles_known [OF wf1 x] means_known [OF 1(2)] by (cases x) (auto simp: y_def)
    show "owners_ok ((data_of d1)(e \<mapsto> y))"
      by (rule owners_ok_view [OF doc_wfD(2) [OF wf1]]) (cases x; simp add: x y_def attr_view_def)
  qed
  ultimately show ?case by (simp add: runs_write_slot [OF i])
qed (rule wf)

lemma runs_insert_before:
  assumes wf: "doc_wf d" and h: "handle d p" "handle d c" "pred_option (handle d) r" and rc: "r \<noteq> Some c"
  shows "runs (insert_before p c r) d
    (\<lambda>i d'. i = c \<and> insertion_error d p c r = None \<and> doc_wf d' \<and> relinked d d' \<and> kids d' = insert_kids p r (moved d c) (kids d))
    (\<lambda>x d'. d' = d \<and> insertion_error d p c r = Some x)"
proof (cases "insertion_error d p c r")
  case None
  from insert_before_moves [OF doc_wfD(1) [OF wf] h None rc] show ?thesis
    using None doc_wf_relinked [OF wf] by (auto simp: runs_eq)
next
  case (Some x)
  from insert_before_refused [OF doc_wfD(1) [OF wf] h Some] show ?thesis using Some by (simp add: runs_eq_error)
qed

lemma runs_replace_child:
  assumes wf: "doc_wf d" and h: "handle d p" "handle d new" "handle d old" and ne: "new \<noteq> old"
  shows "runs (replace_child p new old) d
    (\<lambda>i d'. i = old \<and> replacement_error d p new old = None \<and> doc_wf d' \<and> relinked d d' \<and>
       kids d' = without [old] (insert_kids p (Some old) (moved d new) (kids d)))
    (\<lambda>x d'. d' = d \<and> replacement_error d p new old = Some x)"
  using replace_child_eq [OF doc_wfD(1) [OF wf] h ne] doc_wf_relinked [OF wf]
  by (cases "replacement_error d p new old") (auto simp: runs_eq runs_eq_error)

lemma runs_remove_child:
  assumes wf: "doc_wf d" and h: "handle d p" "handle d c"
  shows "runs (remove_child p c) d
    (\<lambda>i d'. i = c \<and> removal_error d p c = None \<and> doc_wf d' \<and> relinked d d' \<and> kids d' = without [c] (kids d))
    (\<lambda>x d'. d' = d \<and> removal_error d p c = Some x)"
  using remove_child_eq [OF doc_wfD(1) [OF wf] h] doc_wf_relinked [OF wf]
  by (cases "removal_error d p c") (auto simp: runs_eq runs_eq_error)

text \<open>Appending text: the last child takes it when that is a text node, and a new one is made otherwise.\<close>

definition text_at :: "document \<Rightarrow> node_id \<Rightarrow> ustring option" where
  "text_at d i = (case data_of d i of Some (Text s) \<Rightarrow> Some s | _ \<Rightarrow> None)"

lemma runs_append_text:
  assumes wf: "doc_wf d" and h: "handle d p"
  shows "runs (append_text p s) d
    (\<lambda>i d'. doc_wf d' \<and> in_doc d p \<and>
       (case Option.bind (last_opt (kids d p)) (\<lambda>l. map_option (Pair l) (text_at d l)) of
          Some (l, t) \<Rightarrow> i = l \<and> kids d' = kids d \<and> text_at d' i = Some (t @ s)
        | None \<Rightarrow> \<not> in_doc d i \<and> kids d' = (kids d)(p := kids d p @ [i]) \<and> text_at d' i = Some s))
    (\<lambda>x d'. doc_wf d' \<and> kids d' = kids d)"
proof (cases "owns_node d p")
  case False
  with wf show ?thesis by (simp add: append_text_def)
next
  case True
  with h have i: "in_doc d p" by (simp add: handle_def)
  have l: "ns_last_child (d_nodes d ! nd_index p) = last_opt (kids d p)"
    using threadsD(4) [OF tree_wfD(1) [OF doc_wfD(1) [OF wf]], of p] i by (simp add: follow_in_doc)
  have fresh: "runs (andThen (create_text_node s) (append_child p)) d
    (\<lambda>i d'. doc_wf d' \<and> \<not> in_doc d i \<and> kids d' = (kids d)(p := kids d p @ [i]) \<and> text_at d' i = Some s)
    (\<lambda>x d'. doc_wf d' \<and> kids d' = kids d)"
  proof -
    let ?d = "grown d (Text s)" and ?n = "new_node d"
    have wf1: "doc_wf ?d" by (rule doc_wf_grown [OF wf]) simp_all
    have k1: "kids ?d = kids d" using tree_wf_grown [OF doc_wfD(1) [OF wf], of "Text s"] by simp
    have h1: "handle ?d p" "handle ?d ?n" using i by (simp_all add: handle_def in_doc_grown)
    have mv: "moved ?d ?n = [?n]" by (simp add: moved_def kind_grown)
    have ni: "?n \<notin> set (kids d q)" for q using kids_in [OF doc_wfD(1) [OF wf], of ?n q] by auto
    have w: "without [?n] (kids d) = kids d" using ni by (intro ext) (auto simp: without_def intro!: filter_True)
    have ik: "insert_kids p None [?n] (kids d) = (kids d)(p := kids d p @ [?n])" by (simp add: insert_kids_def w splice_def)
    have dn: "data_of ?d ?n = Some (Text s)" by (simp add: data_of_grown)
    have "runs (insert_before p ?n None) ?d
      (\<lambda>i d'. doc_wf d' \<and> \<not> in_doc d i \<and> kids d' = (kids d)(p := kids d p @ [i]) \<and> text_at d' i = Some s)
      (\<lambda>x d'. doc_wf d' \<and> kids d' = kids d)"
      by (rule runs_mono [OF runs_insert_before [OF wf1 h1]])
         (use wf1 in \<open>auto simp: k1 mv ik relinked_def text_at_def dn\<close>)
    then show ?thesis using wf by (simp add: create_text_node_def append_child_def)
  qed
  show ?thesis
  proof (cases "last_opt (kids d p)")
    case None
    with fresh show ?thesis using True i l by (simp add: append_text_def runs_read_slot)
  next
    case (Some q)
    have "q \<in> set (kids d p)" by (rule last_opt_in [OF Some])
    then have iq: "in_doc d q" using kids_in [OF doc_wfD(1) [OF wf]] by blast
    show ?thesis
    proof (cases "text_at d q")
      case None
      then have "\<not> is_text (ns_data (d_nodes d ! nd_index q))"
        using iq by (cases "ns_data (d_nodes d ! nd_index q)") (auto simp: text_at_def data_of_def in_doc_slot)
      with fresh None show ?thesis using True i l Some
        by (simp add: append_text_def runs_read_slot runs_read_index [OF iq])
    next
      case (Some t)
      then have dq: "data_of d q = Some (Text t)" by (auto simp: text_at_def split: option.splits node_data.splits)
      then have sq: "ns_data (d_nodes d ! nd_index q) = Text t" by (simp add: data_of_Some)
      let ?d = "put q (Text (t @ s)) d"
      have e: "upd q (\<lambda>t. t\<lparr>ns_data := extend_text s (ns_data t)\<rparr>) d = ?d" by (simp add: upd_def put_def sq)
      have o': "owners_ok ((data_of d)(q \<mapsto> Text (t @ s)))"
        by (rule owners_ok_view [OF doc_wfD(2) [OF wf]]) (simp add: dq attr_view_def)
      have wf': "doc_wf ?d" by (rule doc_wf_put [OF wf iq _ _ o']) (use kind_data [OF dq] in simp_all)
      have k: "kids ?d = kids d" using tree_wf_retouched [OF doc_wfD(1) [OF wf] retouched_put [OF iq]] kind_data [OF dq] by simp
      have "text_at ?d q = Some (t @ s)" by (simp add: text_at_def data_of_put [OF iq])
      with True i l \<open>last_opt (kids d p) = Some q\<close> Some sq e wf' k show ?thesis
        by (simp add: append_text_def runs_read_slot runs_read_index [OF iq] runs_write_slot [OF iq])
    qed
  qed
qed

section \<open>Documents that are reached\<close>

datatype mutation =
  CreateElement ustring
| CreateElementNs "ustring option" ustring
| CreateTextNode ustring
| CreateComment ustring
| CreateCdataSection ustring
| CreateProcessingInstruction ustring ustring
| CreateDocumentFragment
| CreateDocumentType ustring "ustring option" "ustring option"
| CreateAttribute ustring
| CreateAttributeNs "ustring option" ustring
| AppendText node_id ustring
| InsertBefore node_id node_id "node_id option"
| ReplaceChild node_id node_id node_id
| RemoveChild node_id node_id
| SetAttribute node_id ustring ustring
| SetAttributeNs node_id "ustring option" ustring ustring
| RemoveAttribute node_id ustring
| SetAttributeNode node_id node_id
| RemoveAttributeNode node_id node_id
| SetIdAttribute node_id ustring bool
| SetDocumentBase "ustring option"
| SetElementBase node_id "ustring option"

definition ignore :: "'a dom \<Rightarrow> unit dom" where
  "ignore m = andThen m (\<lambda>_. ok ())"

fun call :: "mutation \<Rightarrow> unit dom" where
  "call (CreateElement q) = ignore (create_element q)"
| "call (CreateElementNs ns q) = ignore (create_element_ns ns q)"
| "call (CreateTextNode s) = ignore (create_text_node s)"
| "call (CreateComment s) = ignore (create_comment s)"
| "call (CreateCdataSection s) = ignore (create_cdata_section s)"
| "call (CreateProcessingInstruction t s) = ignore (create_processing_instruction t s)"
| "call CreateDocumentFragment = ignore create_document_fragment"
| "call (CreateDocumentType n p s) = ignore (create_document_type n p s)"
| "call (CreateAttribute q) = ignore (create_attribute q)"
| "call (CreateAttributeNs ns q) = ignore (create_attribute_ns ns q)"
| "call (AppendText p s) = ignore (append_text p s)"
| "call (InsertBefore p c r) = ignore (insert_before p c r)"
| "call (ReplaceChild p new old) = ignore (replace_child p new old)"
| "call (RemoveChild p c) = ignore (remove_child p c)"
| "call (SetAttribute e q v) = set_attribute e q v"
| "call (SetAttributeNs e ns q v) = set_attribute_ns e ns q v"
| "call (RemoveAttribute e q) = remove_attribute e q"
| "call (SetAttributeNode e a) = set_attribute_node e a"
| "call (RemoveAttributeNode e a) = ignore (remove_attribute_node e a)"
| "call (SetIdAttribute e q b) = set_id_attribute e q b"
| "call (SetDocumentBase b) = set_document_base b"
| "call (SetElementBase e b) = set_element_base e b"

text \<open>
  The calls the invariant is for: the handles are of another document or of nodes of this one, a node
  is not inserted before itself or replaced by itself, and an attribute is removed from an element.
\<close>

fun legal :: "document \<Rightarrow> mutation \<Rightarrow> bool" where
  "legal d (AppendText p s) \<longleftrightarrow> handle d p"
| "legal d (InsertBefore p c r) \<longleftrightarrow> handle d p \<and> handle d c \<and> pred_option (handle d) r \<and> r \<noteq> Some c"
| "legal d (ReplaceChild p new old) \<longleftrightarrow> handle d p \<and> handle d new \<and> handle d old \<and> new \<noteq> old"
| "legal d (RemoveChild p c) \<longleftrightarrow> handle d p \<and> handle d c"
| "legal d (SetAttribute e q v) \<longleftrightarrow> handle d e"
| "legal d (SetAttributeNs e ns q v) \<longleftrightarrow> handle d e"
| "legal d (RemoveAttribute e q) \<longleftrightarrow> handle d e"
| "legal d (SetAttributeNode e a) \<longleftrightarrow> handle d e \<and> handle d a"
| "legal d (RemoveAttributeNode e a) \<longleftrightarrow> handle d e \<and> handle d a \<and> kind d e = ELEMENT_NODE"
| "legal d (SetIdAttribute e q b) \<longleftrightarrow> handle d e"
| "legal d (SetElementBase e b) \<longleftrightarrow> in_doc d e"
| "legal d _ \<longleftrightarrow> True"

inductive reachable :: "document \<Rightarrow> bool" where
  reach_new: "new_document i j = Some (d, i', j') \<Longrightarrow> reachable d"
| reach_call: "reachable d \<Longrightarrow> legal d c \<Longrightarrow> reachable (snd (call c d))"

abbreviation keeps :: "'a dom \<Rightarrow> document \<Rightarrow> bool" where
  "keeps m d \<equiv> runs m d (\<lambda>_ d'. doc_wf d') (\<lambda>_ d'. doc_wf d')"

lemma keeps_ignore: "keeps m d \<Longrightarrow> keeps (ignore m) d"
  by (simp add: ignore_def)

lemma constructs_keeps: "constructs m d bad P \<Longrightarrow> keeps m d"
  unfolding constructs_def by (erule runs_mono) auto

lemma call_keeps:
  assumes wf: "doc_wf d" and l: "legal d c"
  shows "keeps (call c) d"
proof (cases c)
  case (CreateElement q)
  with keeps_ignore [OF constructs_keeps [OF constructs_create(1) [OF wf]]] show ?thesis by simp
next
  case (CreateElementNs ns q)
  with keeps_ignore [OF constructs_keeps [OF constructs_create_ns(1) [OF wf]]] show ?thesis by simp
next
  case (CreateTextNode s)
  with keeps_ignore [OF constructs_keeps [OF constructs_plain [OF wf, of "Text s"]]] show ?thesis by (simp add: create_text_node_def)
next
  case (CreateComment s)
  with keeps_ignore [OF constructs_keeps [OF constructs_plain [OF wf, of "Comment s"]]] show ?thesis by (simp add: create_comment_def)
next
  case (CreateCdataSection s)
  with keeps_ignore [OF constructs_keeps [OF constructs_plain [OF wf, of "CdataSection s"]]] show ?thesis by (simp add: create_cdata_section_def)
next
  case (CreateProcessingInstruction t s)
  with keeps_ignore [OF constructs_keeps [OF constructs_pi(1) [OF wf]]] show ?thesis by simp
next
  case CreateDocumentFragment
  with keeps_ignore [OF constructs_keeps [OF constructs_plain [OF wf, of DocumentFragment]]] show ?thesis by (simp add: create_document_fragment_def)
next
  case (CreateDocumentType n p s)
  with keeps_ignore [OF constructs_keeps [OF constructs_pi(2) [OF wf]]] show ?thesis by simp
next
  case (CreateAttribute q)
  with keeps_ignore [OF constructs_keeps [OF constructs_create(2) [OF wf]]] show ?thesis by simp
next
  case (CreateAttributeNs ns q)
  with keeps_ignore [OF constructs_keeps [OF constructs_create_ns(2) [OF wf]]] show ?thesis by simp
next
  case (AppendText p s)
  with l have h: "handle d p" by simp
  have "keeps (append_text p s) d" by (rule runs_mono [OF runs_append_text [OF wf h]]) simp_all
  with AppendText show ?thesis by (simp add: keeps_ignore)
next
  case (InsertBefore p n r)
  with l have h: "handle d p" "handle d n" "pred_option (handle d) r" "r \<noteq> Some n" by simp_all
  have "keeps (insert_before p n r) d" by (rule runs_mono [OF runs_insert_before [OF wf h]]) (simp_all add: wf)
  with InsertBefore show ?thesis by (simp add: keeps_ignore)
next
  case (ReplaceChild p n r)
  with l have h: "handle d p" "handle d n" "handle d r" "n \<noteq> r" by simp_all
  have "keeps (replace_child p n r) d" by (rule runs_mono [OF runs_replace_child [OF wf h]]) (simp_all add: wf)
  with ReplaceChild show ?thesis by (simp add: keeps_ignore)
next
  case (RemoveChild p n)
  with l have h: "handle d p" "handle d n" by simp_all
  have "keeps (remove_child p n) d" by (rule runs_mono [OF runs_remove_child [OF wf h]]) (simp_all add: wf)
  with RemoveChild show ?thesis by (simp add: keeps_ignore)
next
  case (SetAttribute e q v)
  with l have h: "handle d e" by simp
  show ?thesis unfolding SetAttribute call.simps by (rule runs_mono [OF set_attribute_spec [OF wf h]]) simp_all
next
  case (SetAttributeNs e ns q v)
  with l have h: "handle d e" by simp
  show ?thesis unfolding SetAttributeNs call.simps by (rule runs_mono [OF set_attribute_ns_spec [OF wf h]]) simp_all
next
  case (RemoveAttribute e q)
  with l have h: "handle d e" by simp
  show ?thesis unfolding RemoveAttribute call.simps by (rule runs_mono [OF remove_attribute_spec [OF wf h]]) (simp_all add: wf)
next
  case (SetAttributeNode e a)
  with l have h: "handle d e" "handle d a" by simp_all
  from set_attribute_node_spec [OF wf h] wf SetAttributeNode show ?thesis
    by (cases "attach_error d e a") (auto simp: runs_eq runs_eq_error)
next
  case (RemoveAttributeNode e a)
  with l have h: "handle d e" "handle d a" "kind d e = ELEMENT_NODE" by simp_all
  show ?thesis
  proof (cases "owns_node d e")
    case True
    with h(1) have i: "in_doc d e" by (simp add: handle_def)
    have "keeps (remove_attribute_node e a) d"
      by (rule runs_mono [OF remove_attribute_node_spec [OF wf i h(3,2)]]) (simp_all add: wf)
    with RemoveAttributeNode show ?thesis by (simp add: keeps_ignore)
  next
    case False
    with RemoveAttributeNode wf show ?thesis by (simp add: ignore_def remove_attribute_node_def)
  qed
next
  case (SetIdAttribute e q b)
  with l have h: "handle d e" by simp
  show ?thesis unfolding SetIdAttribute call.simps by (rule runs_mono [OF runs_set_id_attribute [OF wf h]]) (simp_all add: wf)
next
  case (SetDocumentBase b)
  with runs_set_document_base [OF wf] show ?thesis by simp
next
  case (SetElementBase e b)
  with runs_set_element_base [OF wf] l show ?thesis by simp
qed

lemma keeps_result: "keeps m d \<Longrightarrow> doc_wf (snd (m d)) \<and> fst (m d) \<noteq> Inl Panic"
  by (auto simp: runs_def split: prod.splits sum.splits fault.splits)

lemma new_document_wf:
  assumes "new_document i j = Some (d, i', j')"
  shows "doc_wf d"
proof -
  obtain p where p: "new_pool j = Some (p, (j + 1) mod 2 ^ 32)" "pool_wf p" using new_pool_spec [of j] by blast
  have d: "d = \<lparr>d_id = (if i = 0 then 1 else i), d_nodes = [new_slot Document], d_pool = p, d_base = None\<rparr>"
    using assms p(1) by (auto simp: new_document_def next_document_id_def)
  have dn: "in_doc d i \<longleftrightarrow> i = document_node d" for i
    by (auto simp: d in_doc_def owns_node_def document_node_def intro: node_id_eqI)
  have s: "slot d i = (if i = document_node d then Some (new_slot Document) else None)" for i
    by (auto simp: slot_in_doc dn) (simp add: d document_node_def)
  have m: "data_of d i = (if i = document_node d then Some Document else None)" for i
    by (simp add: data_of_def s new_slot_def)
  have f: "f (new_slot Document) = None \<Longrightarrow> follow f d i = None" for f i by (simp add: follow_def s)
  have l: "follow ns_parent d = (\<lambda>_. None)" "follow ns_first_child d = (\<lambda>_. None)" "follow ns_last_child d = (\<lambda>_. None)"
    "follow ns_previous_sibling d = (\<lambda>_. None)" "follow ns_next_sibling d = (\<lambda>_. None)"
    by (intro ext; simp add: f new_slot_def)+
  have th: "threads (nodes_of d) (\<lambda>_. []) (links_of d)" by (rule threadsI) (simp_all add: l)
  have k: "kids d = (\<lambda>_. [])"
    using kids_threads [OF th] kids_outside by (intro ext) blast
  have "rooted (links_of d)" by (simp add: rooted_def climbs_def l acyclic_def)
  moreover have "kinds_ok d (kids d)" by (simp add: kinds_ok_def k root_ok_def)
  moreover have "rooted_document d" by (simp add: rooted_document_def dn kind_def node_type_of_data m)
  moreover have "owners_ok (data_of d)" by (simp add: owners_ok_def attrs_at_def attr_at_def m)
  moreover have "names_ok d" using p(2) by (simp add: names_ok_def m) (simp add: d)
  ultimately show ?thesis using th k by (simp add: doc_wf_def tree_wf_def)
qed

lemma reachable_wf: "reachable d \<Longrightarrow> doc_wf d"
proof (induction rule: reachable.induct)
  case (reach_call d c)
  from keeps_result [OF call_keeps [OF reach_call.IH reach_call.hyps(2)]] show ?case by blast
qed (rule new_document_wf)

section \<open>A document\<close>

text \<open>A document with the element \<open>xml\<close> as its root, in it a text, and a second, detached element \<open>xmlns\<close>.\<close>

definition node :: "nat \<Rightarrow> node_id" where
  "node i = \<lparr>nd_document = 1, nd_index = i\<rparr>"

lemma node_eq [simp]: "node i = node j \<longleftrightarrow> i = j"
  by (simp add: node_def)

fun calls :: "mutation list \<Rightarrow> document \<Rightarrow> document" where
  "calls [] d = d"
| "calls (c # cs) d = calls cs (snd (call c d))"

fun all_legal :: "mutation list \<Rightarrow> document \<Rightarrow> bool" where
  "all_legal [] d \<longleftrightarrow> True"
| "all_legal (c # cs) d \<longleftrightarrow> legal d c \<and> all_legal cs (snd (call c d))"

definition sample_calls :: "mutation list" where
  "sample_calls = [CreateElement xml_prefix, InsertBefore (node 0) (node 1) None, CreateTextNode [120],
     InsertBefore (node 1) (node 2) None, CreateElement xmlns_prefix]"

definition pool0 :: name_pool where
  "pool0 = fst (the (new_pool 2))"

definition empty_document :: document where
  "empty_document = \<lparr>d_id = 1, d_nodes = [new_slot Document], d_pool = pool0, d_base = None\<rparr>"

lemma reachable_calls: "reachable d \<Longrightarrow> all_legal cs d \<Longrightarrow> reachable (calls cs d)"
  by (induction cs arbitrary: d) (auto intro: reach_call)

lemma pool0_facts:
  "new_pool 2 = Some (pool0, 3)" "pool_wf pool0" "p_names pool0 = reserved_names"
  "p_lineage pool0 = [(ROOT, reserved_len)]"
  using new_pool_spec [of 2] by (auto simp: pool0_def)

lemma pool0_names:
  "get pool0 xml_prefix = Some (NameId 1 1)" "get pool0 xmlns_prefix = Some (NameId 1 2)"
  "intern pool0 xml_prefix = Inr (NameId 1 1, pool0)" "intern pool0 xmlns_prefix = Inr (NameId 1 2, pool0)"
proof -
  have r: "resolve pool0 (NameId 1 1) = Some xml_prefix" "resolve pool0 (NameId 1 2) = Some xmlns_prefix"
    using pool0_facts(3,4)
    by (simp_all add: resolve_def owns_def origin_def ROOT_def reserved_names_def xml_prefix_def xmlns_prefix_def)
  then show g: "get pool0 xml_prefix = Some (NameId 1 1)" "get pool0 xmlns_prefix = Some (NameId 1 2)"
    using get_iff [OF pool0_facts(2)] by simp_all
  then show "intern pool0 xml_prefix = Inr (NameId 1 1, pool0)" "intern pool0 xmlns_prefix = Inr (NameId 1 2, pool0)"
    by (auto simp: get_def intern_def)
qed

definition xmlns_xml :: ustring where
  "xmlns_xml = lit ''xmlns:xml''"

lemma split_names:
  "split_qname xml_prefix = Some (None, xml_prefix)" "split_qname xmlns_prefix = Some (None, xmlns_prefix)"
  "split_qname xmlns_xml = Some (Some xmlns_prefix, xml_prefix)"
  by code_simp+

lemma empty_document_reachable: "reachable empty_document"
  by (rule reach_new [of 1 2 _ 2 3])
     (simp add: empty_document_def new_document_def next_document_id_def pool0_facts)

text \<open>The steps to the sample, evaluated.\<close>

definition doc :: "node_slot list \<Rightarrow> document" where
  "doc slots = \<lparr>d_id = 1, d_nodes = slots, d_pool = pool0, d_base = None\<rparr>"

lemmas dom_links =
  doc_def new_slot_def insert_before_def check_insertion_def require_own_def
  require_def ok_def fail_def panic_def andThen_def owns_node_def node_def slot_def read_slot_def read_index_def write_slot_def
  check_child_of_document_def read_option_def document_element_def doctype_node_def child_of_type_def children_def
  document_node_def node_type_of_def document_child_error_def is_ancestor_def detach_def link_last_def link_before_def
  new_element_def

lemmas dom_names =
  create_element_def parse_qname_def split_names intern_name_def pool0_names push_node_def next_node_index_def u32_max_def

abbreviation "el h \<equiv> new_element (qname_new None None h)"

lemma step1: "create_element xml_prefix (doc [new_slot Document]) = (Inr (node 1), doc [new_slot Document, new_slot (el (NameId 1 1))])"
  by (simp add: doc_def dom_names andThen_def ok_def node_def)

definition "slots1 =
  [\<lparr>ns_parent = None, ns_first_child = Some (node 1), ns_last_child = Some (node 1), ns_previous_sibling = None,
    ns_next_sibling = None, ns_data = Document\<rparr>,
   \<lparr>ns_parent = Some (node 0), ns_first_child = None, ns_last_child = None,
    ns_previous_sibling = None, ns_next_sibling = None, ns_data = el (NameId 1 1)\<rparr>]"

lemma step2: "insert_before (node 0) (node 1) None (doc [new_slot Document, new_slot (el (NameId 1 1))]) = (Inr (node 1), doc slots1)"
  by (simp add: slots1_def dom_links)

definition "slots2 =
  [\<lparr>ns_parent = None, ns_first_child = Some (node 1), ns_last_child = Some (node 1), ns_previous_sibling = None,
    ns_next_sibling = None, ns_data = Document\<rparr>,
   \<lparr>ns_parent = Some (node 0), ns_first_child = Some (node 2), ns_last_child = Some (node 2),
    ns_previous_sibling = None, ns_next_sibling = None, ns_data = el (NameId 1 1)\<rparr>,
   \<lparr>ns_parent = Some (node 1), ns_first_child = None, ns_last_child = None, ns_previous_sibling = None,
    ns_next_sibling = None, ns_data = Text [120]\<rparr>]"

lemma step3: "create_text_node [120] (doc slots1) = (Inr (node 2), doc (slots1 @ [new_slot (Text [120])]))"
  by (simp add: doc_def slots1_def create_text_node_def push_node_def next_node_index_def u32_max_def andThen_def ok_def node_def)

lemma step4: "insert_before (node 1) (node 2) None (doc (slots1 @ [new_slot (Text [120])])) = (Inr (node 2), doc slots2)"
  by (simp add: slots1_def slots2_def dom_links)

lemma step5: "create_element xmlns_prefix (doc slots2) = (Inr (node 3), doc (slots2 @ [new_slot (el (NameId 1 2))]))"
  by (simp add: doc_def slots2_def dom_names andThen_def ok_def node_def)

definition sample :: document where
  "sample = doc (slots2 @ [new_slot (el (NameId 1 2))])"

lemma call_ignore: "m d = (Inr a, d') \<Longrightarrow> snd (ignore m d) = d'"
  by (simp add: ignore_def ok_def)

lemma sample_calls_eq: "calls sample_calls empty_document = sample \<and> all_legal sample_calls empty_document"
proof -
  have e: "empty_document = doc [new_slot Document]" by (simp add: empty_document_def doc_def)
  have l: "legal (doc [new_slot Document, new_slot (el (NameId 1 1))]) (InsertBefore (node 0) (node 1) None)"
    "legal (doc (slots1 @ [new_slot (Text [120])])) (InsertBefore (node 1) (node 2) None)"
    by (simp_all add: handle_def owns_node_def in_doc_def doc_def node_def slots1_def)
  show ?thesis unfolding sample_calls_def sample_def e
    by (simp add: call_ignore step1 step2 step3 step4 step5 l del: One_nat_def legal.simps(2))
qed

lemma sample_reachable: "reachable sample"
  using reachable_calls [OF empty_document_reachable, of sample_calls] sample_calls_eq by simp

lemma sample_wf: "doc_wf sample"
  by (rule reachable_wf [OF sample_reachable])

lemmas sample_slots = sample_def slots2_def

lemma sample_handles: "in_doc sample (node 0)" "in_doc sample (node 1)" "in_doc sample (node 2)" "in_doc sample (node 3)"
  by (simp_all add: in_doc_def owns_node_def sample_slots doc_def node_def)

lemma sample_kids: "kids sample (node 0) = [node 1]" "kids sample (node 1) = [node 2]" "kids sample (node 3) = []"
  by (simp_all add: kids_def sample_slots dom_links)

lemma sample_kinds: "kind sample (node 0) = DOCUMENT_NODE" "kind sample (node 1) = ELEMENT_NODE" "kind sample (node 2) = TEXT_NODE"
  "kind sample (node 3) = ELEMENT_NODE"
  by (simp_all add: kind_def sample_slots dom_links)

section \<open>What the legal calls leave out\<close>

text \<open>A node inserted before itself becomes its own next sibling, and the walk over the children of its parent never ends.\<close>

lemma siblings_self: "in_doc d i \<Longrightarrow> follow ns_next_sibling d i = Some i \<Longrightarrow> siblings_from n d (Some i) = None"
  by (induction n) (simp_all add: in_doc_slot follow_in_doc)

definition slots_self :: "node_slot list" where
  "slots_self =
  [\<lparr>ns_parent = None, ns_first_child = Some (node 1), ns_last_child = Some (node 1), ns_previous_sibling = None,
    ns_next_sibling = None, ns_data = Document\<rparr>,
   \<lparr>ns_parent = Some (node 0), ns_first_child = Some (node 2), ns_last_child = None,
    ns_previous_sibling = None, ns_next_sibling = None, ns_data = el (NameId 1 1)\<rparr>,
   \<lparr>ns_parent = Some (node 1), ns_first_child = None, ns_last_child = None, ns_previous_sibling = Some (node 2),
    ns_next_sibling = Some (node 2), ns_data = Text [120]\<rparr>,
   new_slot (el (NameId 1 2))]"

lemma insert_before_itself:
  "insert_before (node 1) (node 2) (Some (node 2)) sample = (Inr (node 2), doc slots_self) \<and>
   (\<forall>n. siblings_from n (doc slots_self) (follow ns_first_child (doc slots_self) (node 1)) = None)"
proof (intro conjI allI)
  show "insert_before (node 1) (node 2) (Some (node 2)) sample = (Inr (node 2), doc slots_self)"
    by (simp add: sample_slots slots_self_def dom_links)
  have f: "in_doc (doc slots_self) (node 2)" "follow ns_next_sibling (doc slots_self) (node 2) = Some (node 2)"
    "follow ns_first_child (doc slots_self) (node 1) = Some (node 2)"
    by (simp_all add: slots_self_def follow_def slot_in_doc in_doc_def owns_node_def doc_def node_def)
  show "siblings_from n (doc slots_self) (follow ns_first_child (doc slots_self) (node 1)) = None" for n
    unfolding f(3) by (rule siblings_self [OF f(1,2)])
qed

text \<open>A node replaced by itself has no parent any more, yet its former parent keeps it as its first child.\<close>

lemma replace_child_by_itself:
  "\<exists>d'. replace_child (node 1) (node 2) (node 2) sample = (Inr (node 2), d') \<and>
     children d' (node 1) = Some [node 2] \<and> follow ns_parent d' (node 2) = None"
  by (simp add: sample_slots replace_child_def follow_def dom_links)

text \<open>Removing an attribute from a node that is not an element panics.\<close>

lemma remove_attribute_node_panics: "remove_attribute_node (node 2) (node 1) sample = (Inl Panic, sample)"
  by (simp add: sample_slots remove_attribute_node_def dom_links)

text \<open>The document element cannot be replaced by another element.\<close>

lemma replace_document_element:
  "replace_child (node 0) (node 3) (node 1) sample = (Inl (Exception HIERARCHY_REQUEST_ERR), sample)"
  by (simp add: sample_slots replace_child_def dom_links)

text \<open>A document type is accepted as the child of an element.\<close>

lemma doctype_under_element:
  "fst (andThen (push_node (DocumentType (NameId 1 1) None None)) (append_child (node 3)) sample) = Inr (node 4)"
  by (simp add: sample_slots append_child_def push_node_def next_node_index_def u32_max_def dom_links)

text \<open>
  Setting an attribute by its qualified name and reading it by the same name can give nothing, because
  setting looks for the namespace and local name and reading for the prefix and local name.
\<close>

lemma set_attribute_other_prefix:
  "\<exists>d d'. set_attribute (node 1) xmlns_xml [49] sample = (Inr (), d) \<and>
     set_attribute (node 1) xml_prefix [50] d = (Inr (), d') \<and>
     attribute d' (node 1) xml_prefix = Some None \<and> attribute d' (node 1) xmlns_xml = Some (Some [50])"
  by (simp add: sample_slots set_attribute_def require_element_def put_attribute_def find_attribute_def
      element_data_of_def data_of_def element_data_mut_def attr_data_mut_def attribute_def get_attribute_node_def value_at_def
      node_value_def read_of_def new_attribute_def qname_new_def dom_names dom_links)

end
