(* ===== verification/Dom_Walk.thy ===== *)
theory Dom_Walk
  imports Dom_Inv
begin

text \<open>
  The walk over a subtree, \<open>dom/walk.rs\<close>, and what \<open>dom/document.rs\<close> and \<open>dom/collection.rs\<close> read with it:
  text content, descendants, lookup by identifier and the node lists. The cursor, which keeps one
  position and follows links, visits the nodes as a recursive traversal of the tree does.
\<close>

section \<open>The cursor\<close>

datatype visit = Enter | Leave

definition walk_step :: "document \<Rightarrow> node_id \<Rightarrow> visit \<times> node_id \<Rightarrow> (visit \<times> node_id) option option" where
  "walk_step d start current =
     (case current of
        (Enter, n) \<Rightarrow>
          map_option (\<lambda>s. case ns_first_child s of Some c \<Rightarrow> Some (Enter, c) | None \<Rightarrow> Some (Leave, n)) (slot d n)
      | (Leave, n) \<Rightarrow>
          if n = start then Some None
          else map_option (\<lambda>s. case ns_next_sibling s of
                                 Some x \<Rightarrow> Some (Enter, x)
                               | None \<Rightarrow> map_option (Pair Leave) (ns_parent s)) (slot d n))"

text \<open>The items of the iterator, to its end; \<open>None\<close> where it panics or never ends.\<close>

partial_function (option) walk_from ::
  "document \<Rightarrow> node_id \<Rightarrow> (visit \<times> node_id) option \<Rightarrow> (visit \<times> node_id) list option" where
  "walk_from d start item =
     (case item of
        None \<Rightarrow> Some []
      | Some current \<Rightarrow>
          Option.bind (walk_step d start current) (\<lambda>item.
          Option.bind (walk_from d start item) (\<lambda>items. Some (current # items))))"

definition walk :: "document \<Rightarrow> node_id \<Rightarrow> (visit \<times> node_id) list option" where
  "walk d i = (if owns_node d i then walk_from d i (Some (Enter, i)) else None)"

definition descendants :: "document \<Rightarrow> node_id \<Rightarrow> node_id list option" where
  "descendants d i = map_option (\<lambda>vs. [n. (v, n) \<leftarrow> vs, v = Enter \<and> n \<noteq> i]) (walk d i)"

fun character_data :: "node_data \<Rightarrow> ustring" where
  "character_data (Text s) = s"
| "character_data (CdataSection s) = s"
| "character_data _ = []"

definition text_content :: "document \<Rightarrow> node_id \<Rightarrow> ustring option" where
  "text_content d i =
     Option.bind (walk d i) (\<lambda>vs.
       map_option concat (those [map_option character_data (data_of d n). (v, n) \<leftarrow> vs, v = Enter]))"

definition has_id :: "document \<Rightarrow> ustring \<Rightarrow> node_id \<Rightarrow> bool" where
  "has_id d ident n \<longleftrightarrow>
     (case data_of d n of
        Some (Element e) \<Rightarrow>
          list_ex (\<lambda>a. case data_of d a of Some (Attribute x) \<Rightarrow> ad_is_id x \<and> ad_value x = ident | _ \<Rightarrow> False)
            (ed_attributes e)
      | _ \<Rightarrow> False)"

definition get_element_by_id :: "document \<Rightarrow> ustring \<Rightarrow> node_id option option" where
  "get_element_by_id d ident = map_option (find (has_id d ident)) (descendants d (document_node d))"

section \<open>Node lists\<close>

datatype wildcard = AnyNamespace | Exact "ustring option"

datatype name_filter = AnyName | QualifiedName ustring | Expanded wildcard "ustring option"

datatype query = Children node_id | ByTagName node_id name_filter

definition star :: ustring where "star = lit ''*''"

definition wildcard_of :: "ustring option \<Rightarrow> wildcard" where
  "wildcard_of ns = (if ns = Some star then AnyNamespace else Exact ns)"

definition by_tag_name :: "node_id \<Rightarrow> ustring \<Rightarrow> query" where
  "by_tag_name root name = ByTagName root (if name = star then AnyName else QualifiedName name)"

definition by_tag_name_ns :: "node_id \<Rightarrow> ustring option \<Rightarrow> ustring \<Rightarrow> query" where
  "by_tag_name_ns root ns local =
     ByTagName root (Expanded (wildcard_of ns) (if local = star then None else Some local))"

fun wildcard_admits :: "wildcard \<Rightarrow> document \<Rightarrow> node_id \<Rightarrow> bool option" where
  "wildcard_admits AnyNamespace d e = Some True"
| "wildcard_admits (Exact expected) d e = map_option (\<lambda>u. u = expected) (namespace_uri d e)"

fun filter_matches :: "name_filter \<Rightarrow> document \<Rightarrow> node_id \<Rightarrow> bool option" where
  "filter_matches AnyName d e = Some True"
| "filter_matches (QualifiedName name) d e = map_option (\<lambda>n. n = name) (node_name d e)"
| "filter_matches (Expanded ns local) d e =
     Option.bind (wildcard_admits ns d e) (\<lambda>namespace_ok.
     map_option (\<lambda>local_ok. namespace_ok \<and> local_ok)
       (case local of None \<Rightarrow> Some True | Some l \<Rightarrow> map_option (\<lambda>n. n = Some l) (local_name d e)))"

fun filter_opt :: "('a \<Rightarrow> bool option) \<Rightarrow> 'a list \<Rightarrow> 'a list option" where
  "filter_opt P [] = Some []"
| "filter_opt P (x # xs) =
     Option.bind (P x) (\<lambda>b. map_option (\<lambda>ys. if b then x # ys else ys) (filter_opt P xs))"

fun members :: "document \<Rightarrow> query \<Rightarrow> node_id list option" where
  "members d (Children p) = children d p"
| "members d (ByTagName root name) =
     Option.bind (descendants d root) (\<lambda>ns.
       filter_opt (\<lambda>n. if node_type_of d n = Some ELEMENT_NODE then filter_matches name d n else Some False) ns)"

definition list_length :: "document \<Rightarrow> query \<Rightarrow> nat option" where
  "list_length d q = map_option length (members d q)"

definition list_item :: "document \<Rightarrow> query \<Rightarrow> nat \<Rightarrow> node_id option option" where
  "list_item d q n = map_option (\<lambda>ns. if n < length ns then Some (ns ! n) else None) (members d q)"

definition list_is_empty :: "document \<Rightarrow> query \<Rightarrow> bool option" where
  "list_is_empty d q = map_option (\<lambda>ns. ns = []) (members d q)"

section \<open>The tree below a node\<close>

datatype tree = Tree node_id "tree list"

fun root :: "tree \<Rightarrow> node_id" where
  "root (Tree i ts) = i"

inductive subtree :: "document \<Rightarrow> node_id \<Rightarrow> tree \<Rightarrow> bool" for d where
  subtree: "list_all2 (subtree d) (kids d i) ts \<Longrightarrow> subtree d i (Tree i ts)"

inductive_cases subtreeE: "subtree d i t"
inductive_simps subtree_Tree: "subtree d i (Tree j ts)"

fun tour :: "tree \<Rightarrow> (visit \<times> node_id) list" where
  "tour (Tree i ts) = (Enter, i) # concat (map tour ts) @ [(Leave, i)]"

fun preorder :: "tree \<Rightarrow> node_id list" where
  "preorder (Tree i ts) = i # concat (map preorder ts)"

lemma subtree_root: "subtree d i t \<Longrightarrow> root t = i"
  by (erule subtreeE) simp

lemma subtree_unique: "subtree d i t \<Longrightarrow> subtree d i u \<Longrightarrow> t = u"
proof (induction t arbitrary: i u)
  case (Tree j ts)
  from Tree.prems obtain us where u: "j = i" "u = Tree i us" "list_all2 (subtree d) (kids d i) ts" "list_all2 (subtree d) (kids d i) us"
    by (auto elim!: subtreeE)
  have "ts = us"
  proof (rule nth_equalityI)
    show "length ts = length us" using u(3,4) by (simp add: list_all2_lengthD [symmetric])
    fix n
    assume n: "n < length ts"
    then have k: "n < length (kids d i)" "n < length us" using u(3,4) by (simp_all add: list_all2_lengthD [symmetric])
    show "ts ! n = us ! n"
      using Tree.IH [OF nth_mem [OF n]] list_all2_nthD [OF u(3) k(1)] list_all2_nthD [OF u(4) k(1)] by blast
  qed
  with u show ?case by simp
qed

lemma finite_climbs: "tree_wf d \<Longrightarrow> finite (climbs (links_of d))"
proof (rule finite_subset)
  assume wf: "tree_wf d"
  show "climbs (links_of d) \<subseteq> nodes_of d \<times> nodes_of d"
  proof (rule subrelI)
    fix c p
    assume "(c, p) \<in> climbs (links_of d)"
    then have f: "follow ns_parent d c = Some p" by (simp add: climbs_def)
    then have c: "in_doc d c" by (auto simp: follow_def slot_in_doc split: if_splits)
    with threads_in(1) [OF tree_wfD(1) [OF wf] c f] show "(c, p) \<in> nodes_of d \<times> nodes_of d" by simp
  qed
qed simp

lemma kids_climbs: "tree_wf d \<Longrightarrow> c \<in> set (kids d p) \<Longrightarrow> (c, p) \<in> climbs (links_of d)"
  using kids_in [of d c p] by (simp add: climbs_def)

lemma subtree_exists:
  assumes wf: "tree_wf d"
  shows "\<exists>t. subtree d i t"
proof -
  have "wf (climbs (links_of d))"
    using finite_climbs [OF wf] tree_wfD(2) [OF wf] by (simp add: finite_acyclic_wf rooted_def)
  then show ?thesis
  proof (induction i rule: wf_induct_rule)
    case (less i)
    have "\<forall>c \<in> set (kids d i). \<exists>t. subtree d c t" using less kids_climbs [OF wf] by blast
    then obtain f where "\<forall>c \<in> set (kids d i). subtree d c (f c)" by metis
    then have "list_all2 (subtree d) (kids d i) (map f (kids d i))"
      by (simp add: list_all2_conv_all_nth)
    then show ?case by (blast intro: subtree.subtree)
  qed
qed

lemma preorder_above:
  assumes wf: "tree_wf d"
  shows "subtree d i t \<Longrightarrow> x \<in> set (preorder t) \<Longrightarrow> (x, i) \<in> (climbs (links_of d))\<^sup>*"
proof (induction t arbitrary: i)
  case (Tree j ts)
  from Tree.prems(1) have j: "j = i" and l: "list_all2 (subtree d) (kids d i) ts" by (auto elim: subtreeE)
  from Tree.prems(2) consider "x = i" | t where "t \<in> set ts" "x \<in> set (preorder t)" by (auto simp: j)
  then show ?case
  proof cases
    case 2
    then obtain n where n: "n < length ts" "t = ts ! n" by (auto simp: in_set_conv_nth)
    with l have k: "n < length (kids d i)" by (simp add: list_all2_lengthD)
    have "(x, kids d i ! n) \<in> (climbs (links_of d))\<^sup>*"
      using Tree.IH [OF 2(1) _ 2(2)] list_all2_nthD [OF l k] n(2) by simp
    moreover have "(kids d i ! n, i) \<in> climbs (links_of d)" using k by (intro kids_climbs [OF wf]) simp
    ultimately show ?thesis by (rule rtrancl_into_rtrancl)
  qed simp
qed

section \<open>The walk is the tour\<close>

lemma walk_from_None [simp]: "walk_from d start None = Some []"
  by (simp add: walk_from.simps)

lemma walk_from_step:
  "walk_step d start current = Some item \<Longrightarrow>
     walk_from d start (Some current) = map_option ((#) current) (walk_from d start item)"
  by (subst walk_from.simps) (cases "walk_from d start item"; simp)

definition after :: "document \<Rightarrow> node_id \<Rightarrow> (visit \<times> node_id) option" where
  "after d i =
     (case follow ns_next_sibling d i of
        Some x \<Rightarrow> Some (Enter, x)
      | None \<Rightarrow> map_option (Pair Leave) (follow ns_parent d i))"

lemma walk_step_leave: "in_doc d i \<Longrightarrow> i \<noteq> start \<Longrightarrow> walk_step d start (Leave, i) = Some (after d i)"
  by (simp add: walk_step_def after_def in_doc_slot follow_in_doc split: option.split)

lemma walk_step_enter:
  assumes "tree_wf d" "in_doc d i"
  shows "walk_step d start (Enter, i) = Some (case kids d i of [] \<Rightarrow> Some (Leave, i) | c # cs \<Rightarrow> Some (Enter, c))"
proof -
  have "ns_first_child (d_nodes d ! nd_index i) = hd_opt (kids d i)"
    using threadsD(3) [OF tree_wfD(1) [OF assms(1)], of i] assms(2) by (simp add: follow_in_doc)
  with assms(2) show ?thesis by (simp add: walk_step_def in_doc_slot split: list.split)
qed

lemma after_child:
  assumes "tree_wf d" "kids d p = xs @ c # ys"
  shows "after d c = Some (case ys of [] \<Rightarrow> (Leave, p) | y # _ \<Rightarrow> (Enter, y))"
proof -
  note t = tree_wfD(1) [OF assms(1)]
  have c: "c \<in> set (kids d p)" using assms(2) by simp
  with kids_in [OF assms(1)] have p: "in_doc d p" and u: "follow ns_parent d c = Some p" by blast+
  have "follow ns_next_sibling d c = next_in (kids d p) c" using threadsD(6) [OF t _ c] p by simp
  moreover have "next_in (kids d p) c = hd_opt ys"
    using kids_distinct [OF assms(1), of p] assms(2) by (simp add: next_in_mid)
  ultimately show ?thesis using u by (simp add: after_def split: list.split)
qed

lemma map_option_append: "map_option ((@) xs) (map_option ((@) ys) z) = map_option ((@) (xs @ ys)) z"
  by (cases z) simp_all

text \<open>The walk of a node in a subtree, and on to what follows it.\<close>

definition visits :: "document \<Rightarrow> node_id \<Rightarrow> node_id \<Rightarrow> tree \<Rightarrow> bool" where
  "visits d start i t \<longleftrightarrow>
     walk_from d start (Some (Enter, i)) = map_option ((@) (tour t)) (walk_from d start (after d i))"

lemma visits_children:
  assumes wf: "tree_wf d"
  shows "kids d p = xs @ ys \<Longrightarrow> list_all2 (visits d start) ys ts \<Longrightarrow>
     walk_from d start (Some (case ys of [] \<Rightarrow> (Leave, p) | y # _ \<Rightarrow> (Enter, y))) =
       map_option ((@) (concat (map tour ts))) (walk_from d start (Some (Leave, p)))"
proof (induction ys arbitrary: xs ts)
  case Nil
  then show ?case by (cases "walk_from d start (Some (Leave, p))") simp_all
next
  case (Cons y ys)
  then obtain u us where ts: "ts = u # us" "visits d start y u" "list_all2 (visits d start) ys us"
    by (auto simp: list_all2_Cons1)
  have "walk_from d start (Some (Enter, y)) = map_option ((@) (tour u)) (walk_from d start (after d y))"
    using ts(2) by (simp add: visits_def)
  also have "walk_from d start (after d y) = map_option ((@) (concat (map tour us))) (walk_from d start (Some (Leave, p)))"
    using Cons.IH [of "xs @ [y]" us] Cons.prems(1) ts(3) after_child [OF wf Cons.prems(1)] by simp
  finally show ?case using ts(1) by (simp only: map_option_append list.case list.map concat.simps)
qed

lemma visits_enter:
  assumes wf: "tree_wf d" and i: "in_doc d i" and v: "list_all2 (visits d start) (kids d i) ts"
  shows "walk_from d start (Some (Enter, i)) = map_option ((@) ((Enter, i) # concat (map tour ts))) (walk_from d start (Some (Leave, i)))"
proof -
  have e: "(case kids d i of [] \<Rightarrow> Some (Leave, i) | c # cs \<Rightarrow> Some (Enter, c)) =
      Some (case kids d i of [] \<Rightarrow> (Leave, i) | c # cs \<Rightarrow> (Enter, c))" by (simp split: list.split)
  have "walk_from d start (Some (Enter, i)) =
      map_option ((#) (Enter, i)) (walk_from d start (Some (case kids d i of [] \<Rightarrow> (Leave, i) | c # cs \<Rightarrow> (Enter, c))))"
    using walk_from_step [OF walk_step_enter [OF wf i]] unfolding e .
  also have "\<dots> = map_option ((#) (Enter, i)) (map_option ((@) (concat (map tour ts))) (walk_from d start (Some (Leave, i))))"
    using visits_children [OF wf _ v, of i "[]"] by simp
  finally show ?thesis by (cases "walk_from d start (Some (Leave, i))") simp_all
qed

lemma visits_subtree:
  assumes wf: "tree_wf d"
  shows "subtree d i t \<Longrightarrow> in_doc d i \<Longrightarrow> start \<notin> set (preorder t) \<Longrightarrow> visits d start i t"
proof (induction t arbitrary: i)
  case (Tree j ts)
  from Tree.prems(1) have j: "j = i" and l: "list_all2 (subtree d) (kids d i) ts" by (auto elim: subtreeE)
  have v: "list_all2 (visits d start) (kids d i) ts"
    unfolding list_all2_conv_all_nth
  proof (intro conjI allI impI)
    show "length (kids d i) = length ts" using l by (rule list_all2_lengthD)
    fix n
    assume n: "n < length (kids d i)"
    then have m: "ts ! n \<in> set ts" using l by (simp add: list_all2_lengthD)
    have "in_doc d (kids d i ! n)" using kids_in [OF wf] n by (meson nth_mem)
    moreover have "start \<notin> set (preorder (ts ! n))" using Tree.prems(3) m by auto
    ultimately show "visits d start (kids d i ! n) (ts ! n)"
      using Tree.IH [OF m] list_all2_nthD [OF l n] by blast
  qed
  have "i \<noteq> start" using Tree.prems(3) j by auto
  then have leave: "walk_from d start (Some (Leave, i)) = map_option ((#) (Leave, i)) (walk_from d start (after d i))"
    using walk_from_step [OF walk_step_leave [OF Tree.prems(2)]] by simp
  show ?case unfolding visits_def visits_enter [OF wf Tree.prems(2) v] leave j
    by (cases "walk_from d start (after d i)") simp_all
qed

lemma walk_tour:
  assumes wf: "tree_wf d" and i: "in_doc d i" and t: "subtree d i t"
  shows "walk d i = Some (tour t)"
proof -
  from t obtain ts where ts: "t = Tree i ts" and l: "list_all2 (subtree d) (kids d i) ts" by (auto elim: subtreeE)
  have v: "list_all2 (visits d i) (kids d i) ts"
    unfolding list_all2_conv_all_nth
  proof (intro conjI allI impI)
    show "length (kids d i) = length ts" using l by (rule list_all2_lengthD)
    fix n
    assume n: "n < length (kids d i)"
    then have c: "kids d i ! n \<in> set (kids d i)" by simp
    note s = list_all2_nthD [OF l n]
    have "i \<notin> set (preorder (ts ! n))"
    proof
      assume "i \<in> set (preorder (ts ! n))"
      from preorder_above [OF wf s this] have "(i, kids d i ! n) \<in> (climbs (links_of d))\<^sup>*" .
      with kids_climbs [OF wf c] have "(i, i) \<in> (climbs (links_of d))\<^sup>+" by simp
      then show False using tree_wfD(2) [OF wf] by (simp add: rooted_def acyclic_def)
    qed
    with visits_subtree [OF wf s] kids_in [OF wf c] show "visits d i (kids d i ! n) (ts ! n)" by blast
  qed
  have "walk_step d i (Leave, i) = Some None" by (simp add: walk_step_def)
  then have "walk_from d i (Some (Leave, i)) = Some [(Leave, i)]" using walk_from_step by fastforce
  with visits_enter [OF wf i v] i show ?thesis by (simp add: walk_def ts in_doc_def)
qed

lemma tour_enter: "[n. (v, n) \<leftarrow> tour t, v = Enter] = preorder t"
proof (induction t)
  case (Tree i ts)
  have "[n. (v, n) \<leftarrow> concat (map tour ts), v = Enter] = concat (map preorder ts)"
    using Tree.IH by (induction ts) simp_all
  then show ?case by simp
qed

lemma descendants_preorder:
  assumes wf: "tree_wf d" and i: "in_doc d i" and t: "subtree d i (Tree i ts)"
  shows "descendants d i = Some (concat (map preorder ts))"
proof -
  have l: "list_all2 (subtree d) (kids d i) ts" using t by (auto elim: subtreeE)
  have n: "x \<noteq> i" if x: "x \<in> set (concat (map preorder ts))" for x
  proof
    assume "x = i"
    with x obtain u where "u \<in> set ts" "i \<in> set (preorder u)" by auto
    then obtain k where k: "k < length ts" "i \<in> set (preorder (ts ! k))" by (auto simp: in_set_conv_nth)
    then have c: "kids d i ! k \<in> set (kids d i)" "k < length (kids d i)" using l by (simp_all add: list_all2_lengthD)
    from preorder_above [OF wf list_all2_nthD [OF l c(2)] k(2)] kids_climbs [OF wf c(1)]
    have "(i, i) \<in> (climbs (links_of d))\<^sup>+" by simp
    then show False using tree_wfD(2) [OF wf] by (simp add: rooted_def acyclic_def)
  qed
  have "[n. (v, n) \<leftarrow> vs, v = Enter \<and> n \<noteq> i] = filter (\<lambda>n. n \<noteq> i) [n. (v, n) \<leftarrow> vs, v = Enter]" for vs
    by (induction vs) auto
  then have "[n. (v, n) \<leftarrow> tour (Tree i ts), v = Enter \<and> n \<noteq> i] = filter (\<lambda>n. n \<noteq> i) (preorder (Tree i ts))"
    by (simp only: tour_enter)
  also have "\<dots> = concat (map preorder ts)" using n by (auto intro: filter_True)
  finally show ?thesis by (simp add: descendants_def walk_tour [OF wf i t] del: tour.simps)
qed

text \<open>The text of a tree.\<close>

fun tree_text :: "document \<Rightarrow> tree \<Rightarrow> ustring" where
  "tree_text d (Tree i ts) =
     (case data_of d i of Some x \<Rightarrow> character_data x | None \<Rightarrow> []) @ concat (map (tree_text d) ts)"

lemma those_Some: "(\<And>x. x \<in> set xs \<Longrightarrow> f x \<noteq> None) \<Longrightarrow> those (map f xs) = Some (map (the \<circ> f) xs)"
proof (induction xs)
  case (Cons x xs)
  moreover obtain y where "f x = Some y" using Cons.prems by fastforce
  ultimately show ?case by simp
qed simp

lemma preorder_in_doc:
  assumes wf: "tree_wf d"
  shows "subtree d i t \<Longrightarrow> in_doc d i \<Longrightarrow> x \<in> set (preorder t) \<Longrightarrow> in_doc d x"
proof (induction t arbitrary: i)
  case (Tree j ts)
  from Tree.prems(1) have j: "j = i" and l: "list_all2 (subtree d) (kids d i) ts" by (auto elim: subtreeE)
  from Tree.prems(3) consider "x = i" | u where "u \<in> set ts" "x \<in> set (preorder u)" by (auto simp: j)
  then show ?case
  proof cases
    case 2
    then obtain k where k: "k < length ts" "u = ts ! k" by (auto simp: in_set_conv_nth)
    with l have c: "kids d i ! k \<in> set (kids d i)" "k < length (kids d i)" by (simp_all add: list_all2_lengthD)
    with Tree.IH [OF 2(1) _ _ 2(2)] list_all2_nthD [OF l c(2)] kids_in [OF wf c(1)] k(2) show ?thesis by blast
  qed (use Tree.prems in simp)
qed

lemma tree_text_preorder:
  "tree_text d t = concat (map (\<lambda>n. case data_of d n of Some x \<Rightarrow> character_data x | None \<Rightarrow> []) (preorder t))"
proof (induction t)
  case (Tree i ts)
  have "concat (map (tree_text d) ts) =
      concat (map (\<lambda>n. case data_of d n of Some x \<Rightarrow> character_data x | None \<Rightarrow> []) (concat (map preorder ts)))"
    using Tree.IH by (induction ts) simp_all
  then show ?case by simp
qed

lemma text_content_tree:
  assumes wf: "tree_wf d" and i: "in_doc d i" and t: "subtree d i t"
  shows "text_content d i = Some (tree_text d t)"
proof -
  have e: "[map_option character_data (data_of d n). (v, n) \<leftarrow> vs, v = Enter] =
      map (\<lambda>n. map_option character_data (data_of d n)) [n. (v, n) \<leftarrow> vs, v = Enter]" for vs
    by (induction vs) auto
  have "those (map (\<lambda>n. map_option character_data (data_of d n)) (preorder t)) =
      Some (map (the \<circ> (\<lambda>n. map_option character_data (data_of d n))) (preorder t))"
    using preorder_in_doc [OF wf t i] by (intro those_Some) (auto simp: data_of_in_doc)
  moreover have "map (the \<circ> (\<lambda>n. map_option character_data (data_of d n))) (preorder t) =
      map (\<lambda>n. case data_of d n of Some x \<Rightarrow> character_data x | None \<Rightarrow> []) (preorder t)"
  proof (intro map_cong refl)
    fix x
    assume "x \<in> set (preorder t)"
    then have "data_of d x \<noteq> None" using preorder_in_doc [OF wf t i, of x] data_of_in_doc [of d x] by simp
    then show "(the \<circ> (\<lambda>n. map_option character_data (data_of d n))) x =
        (case data_of d x of Some x \<Rightarrow> character_data x | None \<Rightarrow> [])" by (cases "data_of d x") simp_all
  qed
  ultimately show ?thesis
    by (simp add: text_content_def walk_tour [OF wf i t] e tour_enter tree_text_preorder)
qed

end
