(* ===== verification/Dom_Props.thy ===== *)
theory Dom_Props
  imports Dom_Api Dom_Walk
begin

text \<open>
  The properties of the DOM document: the invariant and its preservation, the loops over links, the
  moves of nodes between lists of children, and the attributes as a map.
\<close>

section \<open>Reading\<close>

lemma known_resolve: "doc_wf d \<Longrightarrow> h \<in> known (d_pool d) \<Longrightarrow> resolve_own (d_pool d) h \<noteq> None"
  by (simp add: resolve_own_known)

lemma resolve_opt_known: "doc_wf d \<Longrightarrow> set_option h \<subseteq> known (d_pool d) \<Longrightarrow> resolve_opt (d_pool d) h \<noteq> None"
  by (cases h) (auto simp: resolve_opt_def dest: known_resolve)

lemma lexical_own_known: "doc_wf d \<Longrightarrow> qname_handles q \<subseteq> known (d_pool d) \<Longrightarrow> lexical_own (d_pool d) q \<noteq> None"
  using known_resolve [of d "qn_local q"] known_resolve [of d "the (qn_prefix q)"]
  by (cases "qn_prefix q") (auto simp: lexical_own_def)

lemma node_name_total:
  assumes wf: "doc_wf d" and i: "in_doc d i"
  shows "node_name d i \<noteq> None"
proof -
  obtain x where x: "data_of d i = Some x" using i by (auto simp: data_of_in_doc)
  note h = handles_known [OF wf x]
  have "name_of_data (d_pool d) x \<noteq> None"
  proof (cases x)
    case (Element e)
    with h lexical_own_known [OF wf, of "ed_name e"] show ?thesis by simp
  next
    case (Attribute a)
    with h lexical_own_known [OF wf, of "ad_name a"] show ?thesis by simp
  next
    case (ProcessingInstruction t s)
    with h known_resolve [OF wf, of t] show ?thesis by simp
  next
    case (DocumentType n p s)
    with h known_resolve [OF wf, of n] show ?thesis by simp
  qed simp_all
  with x show ?thesis by (simp add: node_name_def)
qed

lemma base_from_total:
  assumes wf: "doc_wf d"
  shows "in_doc d i \<Longrightarrow> card (above (links_of d) i) \<le> n \<Longrightarrow> base_from n d (Some i) \<noteq> None"
proof (induction n arbitrary: i)
  case 0
  have "finite (above (links_of d) i)" using above_in [OF tree_wfD(1) [OF doc_wfD(1) [OF wf]], of i] 0 by (auto intro: finite_subset)
  moreover have "i \<in> above (links_of d) i" by (simp add: above_def)
  ultimately show ?case using 0 by auto
next
  case (Suc n)
  note t = tree_wfD(1,2) [OF doc_wfD(1) [OF wf]]
  let ?s = "d_nodes d ! nd_index i"
  have up: "base_from n d (ns_parent ?s) \<noteq> None"
  proof (cases "ns_parent ?s")
    case None
    have "resolve_opt (d_pool d) (d_base d) \<noteq> None"
      using resolve_opt_known [OF wf] doc_wfD(3) [OF wf] by (simp add: names_ok_def)
    with None show ?thesis by (cases n) simp_all
  next
    case (Some p)
    then have f: "follow ns_parent d i = Some p" using Suc.prems(1) by (simp add: follow_in_doc)
    with threads_in(1) [OF t(1) Suc.prems(1)] have p: "in_doc d p" by blast
    have "card (above (links_of d) p) < card (above (links_of d) i)"
      using above_parent [OF t(1) _ t(2)] Suc.prems(1) f by simp
    with Suc p Some show ?thesis by simp
  qed
  have "ed_base e = Some h \<Longrightarrow> resolve_own (d_pool d) h \<noteq> None" if "ns_data ?s = Element e" for e h
    using that Suc.prems(1) handles_known [OF wf, of i "Element e"] known_resolve [OF wf, of h]
    by (auto simp: data_of_Some)
  with up Suc.prems(1) show ?case by (auto simp: in_doc_slot split: node_data.split option.split)
qed

lemma base_uri_total:
  assumes wf: "doc_wf d" and i: "in_doc d i"
  shows "base_uri d i \<noteq> None"
proof -
  note t = tree_wfD(1) [OF doc_wfD(1) [OF wf]]
  obtain x where x: "data_of d i = Some x" using i by (auto simp: data_of_in_doc)
  have all: "base_from (Suc (length (d_nodes d))) d (Some j) \<noteq> None" if "in_doc d j" for j
    using base_from_total [OF wf that] card_mono [OF finite_nodes_of above_in [OF t, of j]] that by (simp del: base_from.simps)
  show ?thesis
  proof (cases "base_start i x")
    case None
    have "resolve_opt (d_pool d) (d_base d) \<noteq> None"
      using resolve_opt_known [OF wf] doc_wfD(3) [OF wf] by (simp add: names_ok_def)
    with None x show ?thesis by (simp add: base_uri_def)
  next
    case (Some j)
    have "in_doc d j"
    proof (cases "\<exists>a. x = Attribute a")
      case True
      then obtain a where a: "x = Attribute a" ..
      then have "attr_of d i = Some a" using x by (simp add: attr_at_Some)
      with Some a have "i \<in> set (attrs_of d j)" using owners_okD(3) [OF doc_wfD(2) [OF wf], of i j] by simp
      then have "attrs_of d j \<noteq> []" by auto
      then show ?thesis by (cases "data_of d j") (simp_all add: attrs_at_def data_of_in_doc)
    next
      case False
      with Some have "j = i" by (cases x) auto
      with i show ?thesis by simp
    qed
    with all Some x show ?thesis by (simp add: base_uri_def del: base_from.simps)
  qed
qed

text \<open>
  C5. A document that the calls of \<open>mutation\<close> (the constructors, the changes of the tree and of the
  attributes and the base URIs, not importing and cloning) have made, in any order and with any arguments
  that \<open>legal\<close> admits, is well formed: the links thread an ordered forest without cycles, the document holds
  at most one element and one document type and no character data, attributes and elements refer to each
  other with one attribute for each expanded name, and every name resolves in the pool. No call that
  \<open>legal\<close> admits panics on it. \<open>legal\<close> leaves out handles of no node of the document that carry its number, a node
  inserted before itself or replaced by itself, which break the tree (\<open>insert_before_itself\<close>,
  \<open>replace_child_by_itself\<close>), an attribute removed from a node that is no element, which panics
  (\<open>remove_attribute_node_panics\<close>), and a base URI set on a node of another document.
\<close>

theorem document_invariant:
  assumes "reachable d"
  shows "doc_wf d \<and> (\<forall>c. legal d c \<longrightarrow> fst (call c d) \<noteq> Inl Panic)"
proof (intro conjI allI impI)
  show wf: "doc_wf d" by (rule reachable_wf [OF assms])
  show "fst (call c d) \<noteq> Inl Panic" if "legal d c" for c using keeps_result [OF call_keeps [OF wf that]] by blast
qed

theorem document_invariant_witness:
  "reachable sample \<and> doc_wf sample \<and> fst (call (RemoveChild (node 1) (node 2)) sample) \<noteq> Inl Panic"
  using document_invariant [OF sample_reachable] sample_reachable sample_handles
  by (auto simp: handle_def simp del: call.simps One_nat_def)

text \<open>
  C22. On a well-formed document the loops that follow links end: the children of a node are listed in
  full, the search for an ancestor gives the answer the tree gives, and the search for a base URI and
  the rendering of a name return.
\<close>

theorem loops_end:
  assumes "doc_wf d" and "in_doc d i"
  shows "children d i = Some (kids d i) \<and> is_ancestor a i d = (Inr (at_or_above d a i), d) \<and>
    base_uri d i \<noteq> None \<and> node_name d i \<noteq> None"
  using children_kids [OF doc_wfD(1) [OF assms(1)] assms(2)] base_uri_total [OF assms] node_name_total [OF assms]
    is_ancestor_above [OF tree_wfD(1,2) [OF doc_wfD(1) [OF assms(1)]] assms(2), of a]
  by (simp add: at_or_above_def)

theorem loops_end_witness:
  "children sample (node 1) = Some [node 2] \<and> is_ancestor (node 0) (node 1) sample = (Inr (at_or_above sample (node 0) (node 1)), sample)"
  using loops_end [OF sample_wf sample_handles(2), of "node 0"] by (simp add: sample_kids del: One_nat_def)

text \<open>
  C7. \<open>insertBefore\<close>, on a well-formed document and with a reference other than the child itself, refines
  the insertion into lists. It is refused, with the exception the tree gives for it and the document
  unchanged, exactly when a handle is foreign, the parent holds no children or the child can be none, the
  child is at or above the parent, the reference is no child of the parent, or the children of the document
  would break its rules; otherwise the child, or the children of a fragment in their order, leave the list
  they were in and stand before the reference or at the end, and nothing else changes. A child that is its
  own reference is neither refused nor moved: it becomes its own sibling (\<open>insert_before_itself\<close>).
\<close>

theorem insert_before_refines:
  assumes "doc_wf d" and "handle d p" "handle d c" "pred_option (handle d) r" and "r \<noteq> Some c"
  shows "runs (insert_before p c r) d
    (\<lambda>i d'. i = c \<and> insertion_error d p c r = None \<and> doc_wf d' \<and> relinked d d' \<and> kids d' = insert_kids p r (moved d c) (kids d))
    (\<lambda>x d'. d' = d \<and> insertion_error d p c r = Some x)"
  using assms by (rule runs_insert_before)

lemma fst_runs: "runs m d R E \<Longrightarrow> fst (m d) = Inr a \<Longrightarrow> R a (snd (m d))"
  by (cases "m d") (simp add: runs_def)

theorem insert_before_refines_witness:
  "\<exists>d'. insert_before (node 1) (node 3) (Some (node 2)) sample = (Inr (node 3), d') \<and> kids d' (node 1) = [node 3, node 2]"
proof -
  have h: "handle sample (node i)" if "in_doc sample (node i)" for i using that by (simp add: handle_def)
  have ok: "fst (insert_before (node 1) (node 3) (Some (node 2)) sample) = Inr (node 3)" by (simp add: sample_slots dom_links)
  have "kids (snd (insert_before (node 1) (node 3) (Some (node 2)) sample)) =
      insert_kids (node 1) (Some (node 2)) (moved sample (node 3)) (kids sample)"
    using fst_runs [OF insert_before_refines [OF sample_wf, of "node 1" "node 3" "Some (node 2)"] ok] h sample_handles
    by (simp del: One_nat_def)
  moreover have "insert_kids (node 1) (Some (node 2)) (moved sample (node 3)) (kids sample) (node 1) = [node 3, node 2]"
    by (simp add: insert_kids_def moved_def sample_kinds sample_kids without_def splice_def del: One_nat_def)
  ultimately show ?thesis using ok by (metis prod.collapse)
qed

text \<open>
  C14. On a well-formed document, \<open>replaceChild\<close> with a new node other than the old one puts it (or the
  children of a fragment) where the old one was, and \<open>removeChild\<close> takes a node out, as operations on the
  lists of children; either succeeds or leaves the document as it was. Removing is refused exactly when a
  handle is foreign or the node is no child. Replacing is refused when \<open>exchange_error\<close> says so - a foreign
  handle, an old node that is no child, a parent or a new node of the wrong kind, a cycle, or children that
  would break the rules of the document - and in one case more, where the resulting tree would be in order:
  when the element or the document type of the document is replaced by another one or by a fragment that
  holds another one, since the code inserts before it removes.
\<close>

theorem replace_and_remove_refine:
  assumes "doc_wf d" and "handle d p" "handle d new" "handle d old" and "new \<noteq> old"
  shows "runs (replace_child p new old) d
      (\<lambda>i d'. i = old \<and> replacement_error d p new old = None \<and> doc_wf d' \<and> relinked d d' \<and>
         kids d' = without [old] (insert_kids p (Some old) (moved d new) (kids d)))
      (\<lambda>x d'. d' = d \<and> replacement_error d p new old = Some x) \<and>
    runs (remove_child p old) d
      (\<lambda>i d'. i = old \<and> removal_error d p old = None \<and> doc_wf d' \<and> relinked d d' \<and> kids d' = without [old] (kids d))
      (\<lambda>x d'. d' = d \<and> removal_error d p old = Some x) \<and>
    replacement_error d p new old =
      (case exchange_error d p new old of Some x \<Rightarrow> Some x
       | None \<Rightarrow> if counted_twice d p new old then Some HIERARCHY_REQUEST_ERR else None)"
  using runs_replace_child [OF assms] runs_remove_child [OF assms(1,2,4)]
    replacement_error_exchange [OF doc_wfD(1) [OF assms(1)] assms(5)] by blast

theorem replace_and_remove_refine_witness:
  "\<exists>d' d''. replace_child (node 1) (node 3) (node 2) sample = (Inr (node 2), d') \<and> kids d' (node 1) = [node 3] \<and>
     remove_child (node 1) (node 2) sample = (Inr (node 2), d'') \<and> kids d'' (node 1) = []"
proof -
  have h: "handle sample (node i)" if "in_doc sample (node i)" for i using that by (simp add: handle_def)
  have ok: "fst (replace_child (node 1) (node 3) (node 2) sample) = Inr (node 2)"
    "fst (remove_child (node 1) (node 2) sample) = Inr (node 2)"
    by (simp_all add: sample_slots replace_child_def remove_child_def dom_links)
  note r = replace_and_remove_refine [OF sample_wf, of "node 1" "node 3" "node 2"]
  have "kids (snd (replace_child (node 1) (node 3) (node 2) sample)) =
      without [node 2] (insert_kids (node 1) (Some (node 2)) (moved sample (node 3)) (kids sample)) \<and>
    kids (snd (remove_child (node 1) (node 2) sample)) = without [node 2] (kids sample)"
    using fst_runs [OF r [THEN conjunct1] ok(1)] fst_runs [OF r [THEN conjunct2, THEN conjunct1] ok(2)] h sample_handles
    by (simp del: One_nat_def)
  moreover have "without [node 2] (insert_kids (node 1) (Some (node 2)) (moved sample (node 3)) (kids sample)) (node 1) = [node 3]"
    "without [node 2] (kids sample) (node 1) = []"
    by (simp_all add: insert_kids_def moved_def sample_kinds sample_kids without_def splice_def del: One_nat_def)
  ultimately show ?thesis using ok by (metis prod.collapse)
qed





text \<open>
  \<open>append_text\<close> keeps adjacent text in one node: when the last child is a text node its data is
  extended and no node is made, otherwise a new text node becomes the last child.
\<close>

theorem append_text_merges:
  assumes "doc_wf d" and "handle d p"
  shows "runs (append_text p s) d
    (\<lambda>i d'. doc_wf d' \<and> in_doc d p \<and>
       (case Option.bind (last_opt (kids d p)) (\<lambda>l. map_option (Pair l) (text_at d l)) of
          Some (l, t) \<Rightarrow> i = l \<and> kids d' = kids d \<and> text_at d' i = Some (t @ s)
        | None \<Rightarrow> \<not> in_doc d i \<and> kids d' = (kids d)(p := kids d p @ [i]) \<and> text_at d' i = Some s))
    (\<lambda>x d'. doc_wf d' \<and> kids d' = kids d)"
  using assms by (rule runs_append_text)

theorem append_text_merges_witness:
  "\<exists>d'. append_text (node 1) [121] sample = (Inr (node 2), d') \<and> text_at d' (node 2) = Some [120, 121]"
proof -
  have ok: "fst (append_text (node 1) [121] sample) = Inr (node 2)" by (simp add: sample_slots append_text_def dom_links)
  have h: "handle sample (node 1)" using sample_handles by (simp add: handle_def)
  have "text_at sample (node 2) = Some [120]" by (simp add: text_at_def data_of_def sample_slots dom_links)
  with fst_runs [OF append_text_merges [OF sample_wf h] ok]
  have "text_at (snd (append_text (node 1) [121] sample)) (node 2) = Some [120, 121]" by (simp add: sample_kids last_opt_def del: One_nat_def)
  with ok show ?thesis by (metis prod.collapse)
qed

text \<open>
  C15. On a well-formed document the walk, which keeps one position and follows links, ends from every
  node, and reports the nodes as the recursive traversal of the subtree does, each once entering and once
  leaving; text content is the character data of the subtree in that order, and the descendants are its
  nodes in preorder.
\<close>

theorem walk_is_traversal:
  assumes "doc_wf d" and "in_doc d i"
  shows "\<exists>!t. subtree d i t \<and> walk d i = Some (tour t) \<and> text_content d i = Some (tree_text d t) \<and>
    descendants d i = Some (tl (preorder t))"
proof -
  note wf = doc_wfD(1) [OF assms(1)]
  obtain t where t: "subtree d i t" using subtree_exists [OF wf] by blast
  then obtain ts where ts: "t = Tree i ts" by (auto elim: subtreeE)
  have "descendants d i = Some (tl (preorder t))" using descendants_preorder [OF wf assms(2), of ts] t by (simp add: ts)
  with t walk_tour [OF wf assms(2) t] text_content_tree [OF wf assms(2) t] subtree_unique show ?thesis by blast
qed

theorem walk_is_traversal_witness:
  "walk sample (node 0) = Some [(Enter, node 0), (Enter, node 1), (Enter, node 2), (Leave, node 2), (Leave, node 1), (Leave, node 0)]"
proof -
  obtain t where t: "subtree sample (node 0) t" "walk sample (node 0) = Some (tour t)"
    using walk_is_traversal [OF sample_wf sample_handles(1)] by blast
  have k: "kids sample (node 2) = []" by (simp add: kids_def sample_slots dom_links)
  have "t = Tree (node 0) [Tree (node 1) [Tree (node 2) []]]"
    using t(1) by (auto elim!: subtreeE simp: sample_kids k list_all2_Cons1 simp del: One_nat_def)
  with t(2) show ?thesis by simp
qed

end
