(* ===== verification/Escape.thy ===== *)
theory Escape
  imports Encodings Chars
begin

text \<open>
  Escaping on output, \<open>io/write/escape.rs\<close> and \<open>io/write/line_break.rs\<close>: character data, attribute
  values and CDATA sections.

  The specification is what XML 1.0 makes of the written text: line ends are normalized (2.11), in an
  attribute value white space becomes a space (3.3.3), references are replaced by what they stand for
  (4.1, 4.6) and CDATA sections are taken literally (2.7). The locale \<open>escaping\<close> relates a way of
  writing one character to a reader; its lemmas cover text in which an encoder has replaced further
  characters by references.
\<close>

section \<open>Writing\<close>

definition CR :: uchar where "CR = 0xD"
definition LF :: uchar where "LF = 0xA"
definition TAB :: uchar where "TAB = 0x9"

fun push_text :: "ustring \<Rightarrow> ustring \<Rightarrow> ustring" where
  "push_text out [] = out"
| "push_text out (c # text) =
     push_text
       (if c = AMP then out @ lit ''&amp;''
        else if c = LT then out @ lit ''&lt;''
        else if c = GT then out @ lit ''&gt;''
        else if c = CR then out @ lit ''&#13;''
        else out @ [c]) text"

fun push_attribute :: "ustring \<Rightarrow> ustring \<Rightarrow> ustring" where
  "push_attribute out [] = out"
| "push_attribute out (c # value) =
     push_attribute
       (if c = AMP then out @ lit ''&amp;''
        else if c = LT then out @ lit ''&lt;''
        else if c = QUOT then out @ lit ''&quot;''
        else if c = TAB then out @ lit ''&#9;''
        else if c = LF then out @ lit ''&#10;''
        else if c = CR then out @ lit ''&#13;''
        else out @ [c]) value"

definition push_section :: "ustring \<Rightarrow> ustring \<Rightarrow> ustring" where
  "push_section out text = out @ lit ''<![CDATA['' @ text @ lit '']]>''"

function cdata_loop :: "ustring \<Rightarrow> ustring \<Rightarrow> ustring" where
  "cdata_loop out rest =
     (case find_sub (lit '']]>'') rest of
        None \<Rightarrow> if rest \<noteq> [] then push_section out rest else out
      | Some i \<Rightarrow>
          cdata_loop ((if 0 < i then push_section out (take i rest) else out) @ lit '']]&gt;'')
            (drop (i + 3) rest))"
  by pat_completeness auto
termination
  by (relation "measure (\<lambda>(out, rest). length rest)") (auto dest!: find_sub_Some_split)

declare cdata_loop.simps [simp del]

definition push_cdata :: "ustring \<Rightarrow> ustring \<Rightarrow> ustring" where
  "push_cdata out data = (if data = [] then push_section out data else cdata_loop out data)"

datatype line_break = Cr | CrLf | Lf | Space

fun line_break_as_str :: "line_break \<Rightarrow> ustring" where
  "line_break_as_str Cr = [CR]"
| "line_break_as_str CrLf = [CR, LF]"
| "line_break_as_str Lf = [LF]"
| "line_break_as_str Space = [0x20]"

section \<open>Reading\<close>

fun line_ends :: "ustring \<Rightarrow> ustring" where
  "line_ends [] = []"
| "line_ends [c] = [if c = CR then LF else c]"
| "line_ends (c # d # s) =
     (if c = CR \<and> d = LF then LF # line_ends s
      else (if c = CR then LF else c) # line_ends (d # s))"

definition digits_value :: "ustring \<Rightarrow> nat option" where
  "digits_value ds =
     (if ds \<noteq> [] \<and> list_all is_ascii_digit ds then Some (foldl (\<lambda>n d. 10 * n + (d - 48)) 0 ds) else None)"

text \<open>The character a reference stands for: its body is what is between \<open>&\<close> and \<open>;\<close>.\<close>

definition reference_value :: "ustring \<Rightarrow> uchar option" where
  "reference_value body =
     (if body = lit ''amp'' then Some AMP
      else if body = lit ''lt'' then Some LT
      else if body = lit ''gt'' then Some GT
      else if body = lit ''quot'' then Some QUOT
      else if body = lit ''apos'' then Some APOS
      else case strip_prefix [HASH] body of
        None \<Rightarrow> None
      | Some ds \<Rightarrow> (case digits_value ds of
          None \<Rightarrow> None
        | Some n \<Rightarrow> if is_char n then Some n else None))"

lemma split_once_shorter: "split_once d s = Some (a, b) \<Longrightarrow> length b < length s"
  by (auto simp: split_once_Some)

text \<open>An attribute value between its quotation marks, and the content of an element without tags.\<close>

function expand :: "ustring \<Rightarrow> ustring option" where
  "expand [] = Some []"
| "expand (c # s) =
     (if c = LT then None
      else if c = AMP then
        (case split_once SEMI s of
           None \<Rightarrow> None
         | Some (body, rest) \<Rightarrow>
             (case reference_value body of None \<Rightarrow> None | Some v \<Rightarrow> map_option ((#) v) (expand rest)))
      else map_option ((#) c) (expand s))"
  by pat_completeness auto
termination
  by (relation "measure length") (auto dest: split_once_shorter simp: less_Suc_eq)

definition white_to_space :: "uchar \<Rightarrow> uchar" where
  "white_to_space c = (if is_whitespace c then 0x20 else c)"

definition read_attribute :: "ustring \<Rightarrow> ustring option" where
  "read_attribute s = expand (map white_to_space (line_ends s))"

function content_value :: "ustring \<Rightarrow> ustring option" where
  "content_value [] = Some []"
| "content_value (c # s) =
     (case strip_prefix (lit ''<![CDATA['') (c # s) of
        Some r \<Rightarrow>
          (case find_sub (lit '']]>'') r of
             None \<Rightarrow> None
           | Some i \<Rightarrow> map_option ((@) (take i r)) (content_value (drop (i + 3) r)))
      | None \<Rightarrow>
          if c = LT \<or> starts_with (lit '']]>'') (c # s) then None
          else if c = AMP then
            (case split_once SEMI s of
               None \<Rightarrow> None
             | Some (body, rest) \<Rightarrow>
                 (case reference_value body of
                    None \<Rightarrow> None
                  | Some v \<Rightarrow> map_option ((#) v) (content_value rest)))
          else map_option ((#) c) (content_value s))"
  by pat_completeness auto
termination
proof (relation "measure length", goal_cases)
  case (4 c s r i)
  then have "length (c # s) = 9 + length r" by (simp del: strip_prefix.simps)
  then show ?case by simp
qed (auto dest: split_once_shorter simp: less_Suc_eq)

declare content_value.simps(2) [simp del]

definition read_content :: "ustring \<Rightarrow> ustring option" where
  "read_content s = content_value (line_ends s)"

section \<open>References\<close>

lemma digits_value_decimal: "digits_value (decimal n) = Some n"
proof -
  have "decimal n \<noteq> []" by (subst decimal.simps) simp
  moreover have "list_all is_ascii_digit (decimal n)"
    by (auto simp: list_all_iff is_ascii_digit_def dest: decimal_digits)
  moreover have "foldl (\<lambda>n d. 10 * n + (d - 48)) 0 (decimal n) = n"
  proof (induction n rule: decimal.induct)
    case (1 n)
    then show ?case by (subst decimal.simps) auto
  qed
  ultimately show ?thesis by (simp add: digits_value_def)
qed

lemma reference_value_decimal: "is_char c \<Longrightarrow> reference_value (HASH # decimal c) = Some c"
  by (simp add: reference_value_def digits_value_decimal)

lemma decimal_no_semi: "SEMI \<notin> set (decimal c)"
  using decimal_digits by force

lemma char_reference_no: "GT \<notin> set (char_reference c)" "CR \<notin> set (char_reference c)"
  using decimal_digits [of _ c] by (force simp: char_reference_def CR_def)+

lemma split_char_reference:
  "split_once SEMI (HASH # decimal c @ SEMI # rest) = Some (HASH # decimal c, rest)"
  using split_once_append [of SEMI "HASH # decimal c" rest] decimal_no_semi [of c] by simp

lemma expand_reference:
  "is_char c \<Longrightarrow> expand (char_reference c @ rest) = map_option ((#) c) (expand rest)"
  by (simp add: char_reference_def split_char_reference reference_value_decimal del: split_once.simps)

lemma content_reference:
  "is_char c \<Longrightarrow> content_value (char_reference c @ rest) = map_option ((#) c) (content_value rest)"
  by (simp add: char_reference_def content_value.simps(2) split_char_reference reference_value_decimal
      del: split_once.simps)

section \<open>What is written is read back\<close>

text \<open>
  A way of escaping one character and the reader it is meant for. \<open>fits\<close> says what text the escaped
  characters may stand before.
\<close>

locale escaping =
  fixes esc :: "uchar \<Rightarrow> ustring"
    and read :: "ustring \<Rightarrow> ustring option"
    and fits :: "ustring \<Rightarrow> bool"
  assumes read_esc: "is_char c \<Longrightarrow> fits rest \<Longrightarrow> read (esc c @ rest) = map_option ((#) c) (read rest)"
    and read_reference: "is_char c \<Longrightarrow> read (char_reference c @ rest) = map_option ((#) c) (read rest)"
    and fits_esc: "fits rest \<Longrightarrow> fits (esc c @ rest)"
    and fits_reference: "fits (char_reference c @ rest)"
    and esc_plain: "esc c = [c] \<or> list_all (\<lambda>x. x < 0x80) (esc c)"
    and esc_no_cr: "CR \<notin> set (esc c)"
begin

text \<open>A character as it is written where the encoding holds the characters \<open>holds\<close>.\<close>

definition written :: "(uchar \<Rightarrow> bool) \<Rightarrow> uchar \<Rightarrow> ustring" where
  "written holds c = (if list_all holds (esc c) then esc c else char_reference c)"

definition written_all :: "(uchar \<Rightarrow> bool) \<Rightarrow> ustring \<Rightarrow> ustring" where
  "written_all holds s = concat (map (written holds) s)"

lemma written_all_simps [simp]:
  "written_all holds [] = []"
  "written_all holds (c # s) = written holds c @ written_all holds s"
  by (simp_all add: written_all_def)

lemma fits_written_all: "fits rest \<Longrightarrow> fits (written_all holds s @ rest)"
  by (induction s) (auto simp: written_def fits_esc fits_reference)

lemma read_written_all:
  "list_all is_char s \<Longrightarrow> fits rest \<Longrightarrow>
     read (written_all holds s @ rest) = map_option ((@) s) (read rest)"
proof (induction s)
  case (Cons c s)
  then show ?case
    by (simp add: written_def read_esc read_reference fits_written_all option.map_comp comp_def)
next
  case Nil
  show ?case by (cases "read rest") auto
qed

lemma written_all_no_cr: "CR \<notin> set (written_all holds s)"
  by (induction s) (auto simp: written_def esc_no_cr char_reference_no)

lemma referenced_esc:
  assumes "\<And>c. c < 0x80 \<Longrightarrow> holds c"
  shows "concat (map (\<lambda>c. if holds c then [c] else char_reference c) (concat (map esc s))) =
    written_all holds s"
proof (induction s)
  case (Cons c s)
  have lit: "concat (map (\<lambda>c. if holds c then [c] else char_reference c) x) = x" if "list_all holds x" for x
    using that by (induction x) auto
  have "concat (map (\<lambda>c. if holds c then [c] else char_reference c) (esc c)) = written holds c"
  proof (cases "list_all holds (esc c)")
    case False
    have "\<not> list_all (\<lambda>x. x < 0x80) (esc c)" using False assms by (auto simp: list_all_iff)
    with esc_plain [of c] have "esc c = [c]" by blast
    with False show ?thesis by (simp add: written_def)
  qed (simp add: lit written_def)
  with Cons show ?case by simp
qed simp

end

lemma line_ends_id: "CR \<notin> set s \<Longrightarrow> line_ends s = s"
  by (induction s rule: line_ends.induct) auto

lemma line_ends_Cons: "c \<noteq> CR \<Longrightarrow> line_ends (c # s) = c # line_ends s"
  by (cases s) auto

lemma line_ends_append: "CR \<notin> set s \<Longrightarrow> line_ends (s @ t) = s @ line_ends t"
  by (induction s) (auto simp: line_ends_Cons)

text \<open>Character data.\<close>

definition text_escape :: "uchar \<Rightarrow> ustring" where
  "text_escape c =
     (if c = AMP then lit ''&amp;'' else if c = LT then lit ''&lt;'' else if c = GT then lit ''&gt;''
      else if c = CR then lit ''&#13;'' else [c])"

lemma push_text_eq: "push_text out s = out @ concat (map text_escape s)"
  by (induction s arbitrary: out) (auto simp: text_escape_def)

definition text_fits :: "ustring \<Rightarrow> bool" where
  "text_fits rest \<longleftrightarrow> \<not> starts_with [GT] rest \<and> \<not> starts_with [RBRACKET, GT] rest"

lemma reference_values:
  "reference_value (lit ''amp'') = Some AMP" "reference_value (lit ''lt'') = Some LT"
  "reference_value (lit ''gt'') = Some GT" "reference_value (lit ''quot'') = Some QUOT"
  "reference_value (lit ''#13'') = Some CR" "reference_value (lit ''#10'') = Some LF"
  "reference_value (lit ''#9'') = Some TAB"
  by (simp_all add: reference_value_def digits_value_def is_ascii_digit_def is_char_def CR_def LF_def TAB_def)

lemma content_ref:
  "SEMI \<notin> set body \<Longrightarrow> reference_value body = Some v \<Longrightarrow>
     content_value (AMP # body @ SEMI # rest) = map_option ((#) v) (content_value rest)"
  by (simp add: content_value.simps(2))

lemma expand_ref:
  "SEMI \<notin> set body \<Longrightarrow> reference_value body = Some v \<Longrightarrow>
     expand (AMP # body @ SEMI # rest) = map_option ((#) v) (expand rest)"
  by simp

lemma content_literal:
  "c \<noteq> LT \<Longrightarrow> c \<noteq> AMP \<Longrightarrow> text_fits rest \<Longrightarrow>
     content_value (c # rest) = map_option ((#) c) (content_value rest)"
  by (simp add: content_value.simps(2) text_fits_def)

interpretation chardata: escaping text_escape content_value text_fits
proof (unfold_locales, goal_cases)
  case (1 c rest)
  show ?case
    using content_ref [OF _ reference_values(1), of rest] content_ref [OF _ reference_values(2), of rest]
      content_ref [OF _ reference_values(3), of rest] content_ref [OF _ reference_values(5), of rest]
      content_literal [of c rest] 1(2)
    by (auto simp: text_escape_def)
next
  case (2 c rest)
  then show ?case by (rule content_reference)
qed (auto simp: text_escape_def text_fits_def char_reference_def CR_def)

text \<open>Attribute values.\<close>

definition attribute_escape :: "uchar \<Rightarrow> ustring" where
  "attribute_escape c =
     (if c = AMP then lit ''&amp;'' else if c = LT then lit ''&lt;'' else if c = QUOT then lit ''&quot;''
      else if c = TAB then lit ''&#9;'' else if c = LF then lit ''&#10;'' else if c = CR then lit ''&#13;''
      else [c])"

lemma push_attribute_eq: "push_attribute out s = out @ concat (map attribute_escape s)"
  by (induction s arbitrary: out) (auto simp: attribute_escape_def)

definition attribute_value :: "ustring \<Rightarrow> ustring option" where
  "attribute_value s = expand (map white_to_space s)"

lemma white_to_space_id: "\<not> is_whitespace c \<Longrightarrow> white_to_space c = c"
  by (simp add: white_to_space_def)

lemma white_to_space_reference: "map white_to_space (char_reference c) = char_reference c"
proof -
  have "white_to_space d = d" if "d \<in> set (char_reference c)" for d
    using that decimal_digits [of d c]
    by (auto simp: char_reference_def white_to_space_def is_whitespace_def)
  then show ?thesis by (simp add: map_idI)
qed

interpretation attvalue: escaping attribute_escape attribute_value "\<lambda>_. True"
proof (unfold_locales, goal_cases)
  case (1 c rest)
  let ?r = "map white_to_space rest"
  have w: "map white_to_space (attribute_escape c) = attribute_escape c"
    by (auto simp: attribute_escape_def white_to_space_def is_whitespace_def CR_def LF_def TAB_def)
  show ?case
    using expand_ref [OF _ reference_values(1), of ?r] expand_ref [OF _ reference_values(2), of ?r]
      expand_ref [OF _ reference_values(4), of ?r] expand_ref [OF _ reference_values(5), of ?r]
      expand_ref [OF _ reference_values(6), of ?r] expand_ref [OF _ reference_values(7), of ?r]
    by (simp add: attribute_value_def w) (auto simp: attribute_escape_def)
next
  case (2 c rest)
  then show ?case
    using expand_reference [of c "map white_to_space rest"]
    by (simp add: attribute_value_def white_to_space_reference)
qed (auto simp: attribute_escape_def CR_def)

section \<open>Text and attribute values in an encoding\<close>

text \<open>The characters an encoder holds, and the text it writes where references are allowed.\<close>

fun writable :: "encoder_id \<Rightarrow> uchar \<Rightarrow> bool" where
  "writable Utf8Encoder c = True"
| "writable (SingleByteEncoder enc) c = (c < sbe_limit enc)"

definition referenced :: "encoder_id \<Rightarrow> ustring \<Rightarrow> ustring" where
  "referenced e s = concat (map (\<lambda>c. if writable e c then [c] else char_reference c) s)"

fun code :: "encoder_id \<Rightarrow> ustring \<Rightarrow> byte list" where
  "code Utf8Encoder s = utf8_encode s"
| "code (SingleByteEncoder enc) s = map byte_of s"

lemma code_append: "code e (s @ t) = code e s @ code e t"
  by (cases e) (simp_all add: utf8_encode_def)

lemma encode_eq:
  "encode e s out = (if list_all (writable e) s then (out @ code e s, None) else (out, Some (Encoding None)))"
  by (cases e) (auto simp: utf8_encoder_encode_def sbe_encode_accepts sbe_encode_refuses list_all_iff)

lemma writable_reads_back: "reads_back e d \<Longrightarrow> c < 0x80 \<Longrightarrow> writable e c"
  by (auto simp: reads_back_def sbe_ascii_def sbe_latin1_def)

lemma writable_referenced:
  assumes "reads_back e d"
  shows "list_all (writable e) (referenced e s)"
  using writable_reads_back [OF assms] char_reference_ascii
  by (fastforce simp: referenced_def list_all_iff)

lemma encode_with_references_eq:
  assumes "reads_back e d"
  shows "encode_with_references e s out = (out @ code e (referenced e s), None)"
proof (cases e)
  case Utf8Encoder
  have "referenced Utf8Encoder s = s" by (simp add: referenced_def)
  then show ?thesis by (simp add: Utf8Encoder utf8_encoder_encode_def)
next
  case (SingleByteEncoder enc)
  have "concat (map (\<lambda>c. if c < sbe_limit enc then [byte_of c] else map byte_of (char_reference c)) s) =
      map byte_of (referenced e s)"
    by (induction s) (auto simp: referenced_def SingleByteEncoder)
  then show ?thesis by (simp add: SingleByteEncoder sbe_encode_with_references_eq)
qed

lemma scalar_referenced:
  assumes "list_all scalar s"
  shows "list_all scalar (referenced e s)"
proof -
  have "scalar d" if "d \<in> set (char_reference c)" for c d
    using char_reference_ascii [OF that] by (simp add: scalar_def)
  with assms show ?thesis by (auto simp: referenced_def list_all_iff)
qed

lemma decode_code:
  assumes "reads_back e d" "list_all scalar s" "list_all (writable e) s"
  shows "decode_with d (code e s) True = (d, s, Inr (length (code e s)))"
  using encode_reads_back [OF assms(1,2), of "code e s"] assms(3) by (simp add: encode_eq)

lemma referenced_text:
  "reads_back e d \<Longrightarrow> referenced e (push_text [] s) = chardata.written_all (writable e) s"
  unfolding referenced_def push_text_eq append_Nil
  by (rule chardata.referenced_esc) (rule writable_reads_back)

lemma referenced_attribute:
  "reads_back e d \<Longrightarrow> referenced e (push_attribute [] s) = attvalue.written_all (writable e) s"
  unfolding referenced_def push_attribute_eq append_Nil
  by (rule attvalue.referenced_esc) (rule writable_reads_back)

lemma chars_scalar: "list_all is_char s \<Longrightarrow> list_all scalar s"
  by (auto simp: list_all_iff char_is_scalar)

lemma decimal_scalar [simp]: "scalar AMP" "scalar HASH" "scalar SEMI"
  by (simp_all add: scalar_def)

lemma scalar_escape:
  assumes "scalar c"
  shows "list_all scalar (text_escape c)" "list_all scalar (attribute_escape c)"
  using assms by (simp_all add: text_escape_def attribute_escape_def) (simp_all add: scalar_def)

lemma scalar_escaped:
  assumes "list_all is_char s"
  shows "list_all scalar (push_text [] s)" "list_all scalar (push_attribute [] s)"
  unfolding push_text_eq push_attribute_eq append_Nil
  using chars_scalar [OF assms] by (induction s) (simp_all add: scalar_escape)

lemma read_text:
  "list_all is_char s \<Longrightarrow> read_content (chardata.written_all holds s) = Some s"
  using chardata.read_written_all [where s = s and rest = "[]" and holds = holds] chardata.written_all_no_cr [of holds s]
  by (simp add: read_content_def line_ends_id text_fits_def)

lemma read_attribute_value:
  "list_all is_char s \<Longrightarrow> read_attribute (attvalue.written_all holds s) = Some s"
  using attvalue.read_written_all [where s = s and rest = "[]" and holds = holds] attvalue.written_all_no_cr [of holds s]
  by (simp add: read_attribute_def attribute_value_def line_ends_id)

text \<open>
  C9. Character data and attribute values survive writing and reading in the built-in encodings (UTF-8,
  ASCII, Latin-1): escaped, written by the built-in encoder of a label, with references for the characters
  the encoding lacks, and decoded under the same label, any text of XML characters reads back as itself -
  through line-end normalization, attribute-value normalization and the expansion of references. Labels that
  are served by the optional backend are not covered.
\<close>

theorem escaped_roundtrip:
  assumes "encoder_for backend label = Inr (Inl e)" "list_all is_char s"
  shows "\<exists>d. decoder_for backend' label = Inr (Inl d) \<and>
    (\<exists>bs t. encode_with_references e (push_text [] s) [] = (bs, None) \<and>
      decode_with d bs True = (d, t, Inr (length bs)) \<and> read_content t = Some s) \<and>
    (\<exists>bs t. encode_with_references e (push_attribute [] s) [] = (bs, None) \<and>
      decode_with d bs True = (d, t, Inr (length bs)) \<and> read_attribute t = Some s)"
proof -
  obtain d where d: "lookup label = Some d" "reads_back e d"
    using encoder_for_lookup [OF assms(1)] by blast
  have "decode_with d (code e (referenced e t)) True =
      (d, referenced e t, Inr (length (code e (referenced e t))))" if "list_all scalar t" for t
    by (rule decode_code [OF d(2) scalar_referenced [OF that] writable_referenced [OF d(2)]])
  note dec = this [OF scalar_escaped(1) [OF assms(2)]] this [OF scalar_escaped(2) [OF assms(2)]]
  show ?thesis
    using dec read_text [OF assms(2)] read_attribute_value [OF assms(2)]
    by (intro exI [of _ d])
       (simp add: decoder_for_def d(1) encode_with_references_eq [OF d(2)] referenced_text [OF d(2)]
         referenced_attribute [OF d(2)])
qed

theorem escaped_roundtrip_witness:
  "\<exists>d. decoder_for (\<lambda>_. None :: unit option) (lit ''ascii'') = Inr (Inl d) \<and>
    (\<exists>bs t. encode_with_references (SingleByteEncoder sbe_ascii) (push_text [] (lit ''a<'' @ [0xE9])) [] = (bs, None) \<and>
      decode_with d bs True = (d, t, Inr (length bs)) \<and> read_content t = Some (lit ''a<'' @ [0xE9])) \<and>
    (\<exists>bs t. encode_with_references (SingleByteEncoder sbe_ascii) (push_attribute [] (lit ''a<'' @ [0xE9])) [] = (bs, None) \<and>
      decode_with d bs True = (d, t, Inr (length bs)) \<and> read_attribute t = Some (lit ''a<'' @ [0xE9]))"
  by (rule escaped_roundtrip [where backend = "\<lambda>_. None :: unit option"])
     (simp_all add: encoder_for_def Let_def trim_def white_space_def to_ascii_lower_def is_char_def)

section \<open>CDATA sections\<close>

lemma cdata_loop_out: "cdata_loop out rest = out @ cdata_loop [] rest"
proof (induction "length rest" arbitrary: out rest rule: less_induct)
  case less
  show ?case
  proof (cases "find_sub (lit '']]>'') rest")
    case None
    then show ?thesis by (simp add: cdata_loop.simps [of _ rest] push_section_def del: lit_Cons)
  next
    case (Some i)
    have l: "length (drop (i + 3) rest) < length rest" using find_sub_Some_split [OF Some] by auto
    let ?o = "\<lambda>out. (if 0 < i then push_section out (take i rest) else out) @ lit '']]&gt;''"
    have "cdata_loop o' rest = ?o o' @ cdata_loop [] (drop (i + 3) rest)" for o'
      using less [OF l, of "?o o'"] Some by (simp add: cdata_loop.simps [of _ rest] del: lit_Cons)
    moreover have "?o out = out @ ?o []" by (simp add: push_section_def)
    ultimately show ?thesis by simp
  qed
qed

lemma line_ends_starts_with:
  "CR \<notin> set p \<Longrightarrow> LF \<notin> set p \<Longrightarrow> starts_with p (line_ends x @ y) \<longleftrightarrow> starts_with p (x @ y)"
proof (induction p arbitrary: x)
  case (Cons a p)
  show ?case
  proof (cases x)
    case (Cons c x')
    show ?thesis
    proof (cases "c = CR")
      case True
      then have "\<exists>r. line_ends (c # x') = LF # r" by (cases x') auto
      with True Cons Cons.prems show ?thesis by auto
    next
      case False
      with Cons Cons.IH [of x'] Cons.prems show ?thesis by (simp add: line_ends_Cons)
    qed
  qed simp
qed simp

lemma find_sub_line_ends:
  assumes "CR \<notin> set p" "LF \<notin> set p" "p \<noteq> []"
  shows "find_sub p (u @ p @ y) = Some (length u) \<Longrightarrow>
    find_sub p (line_ends u @ p @ y') = Some (length (line_ends u))"
proof (induction u rule: line_ends.induct)
  case 1
  with assms(3) show ?case by (cases p) simp_all
next
  case (2 c)
  have "\<not> starts_with p (line_ends [c] @ p @ y')"
    using 2 unfolding line_ends_starts_with [OF assms(1,2)]
    using starts_with_append_short [of p "[c] @ p"] by (simp split: if_splits)
  with assms(3) show ?case by (cases p) simp_all
next
  case (3 c d s)
  have next_one: "find_sub p (d # s @ p @ y) = Some (length (d # s))"
    using 3(3) by (simp split: if_splits)
  have n: "\<not> starts_with p (line_ends (c # d # s) @ p @ y')"
    using 3(3) unfolding line_ends_starts_with [OF assms(1,2)]
    using starts_with_append_short [of p "(c # d # s) @ p"] by (simp split: if_splits)
  show ?case
  proof (cases "c = CR \<and> d = LF")
    case True
    have "find_sub p (s @ p @ y) = Some (length s)" using next_one by (simp split: if_splits)
    with 3(1) [OF True] True n show ?thesis by simp
  next
    case False
    with 3(2) [OF False] next_one n show ?thesis by (auto split: if_splits)
  qed
qed

lemma content_section:
  assumes "find_sub (lit '']]>'') (u @ lit '']]>'' @ r) = Some (length u)"
  shows "content_value (lit ''<![CDATA['' @ u @ lit '']]>'' @ r) = map_option ((@) u) (content_value r)"
proof -
  have p: "strip_prefix (lit ''<![CDATA['') (LT # tl (lit ''<![CDATA['') @ u @ lit '']]>'' @ r) =
      Some (u @ lit '']]>'' @ r)"
    unfolding strip_prefix_Some by simp
  have "content_value (LT # tl (lit ''<![CDATA['') @ u @ lit '']]>'' @ r) =
      map_option ((@) u) (content_value r)"
    unfolding content_value.simps(2) p using assms by simp
  then show ?thesis by simp
qed

lemma content_cdata_end:
  assumes "text_fits r"
  shows "content_value (lit '']]&gt;'' @ r) = map_option ((@) (lit '']]>'')) (content_value r)"
  using content_ref [OF _ reference_values(3), of r] assms
  by (cases "content_value r") (simp_all add: content_literal text_fits_def)

lemma find_sub_occurrence:
  assumes "find_sub p s = Some i"
  obtains y where "s = take i s @ p @ y" "drop (i + length p) s = y" "length (take i s) = i"
proof -
  obtain y where y: "drop i s = p @ y"
    using find_sub_Some_split [OF assms] by (auto simp: starts_with_iff)
  have "drop (length p + i) s = y"
    using arg_cong [OF y, of "drop (length p)"] by (simp add: add.commute)
  then show ?thesis
    using that [of y] y find_sub_Some_split [OF assms] append_take_drop_id [of i s]
    by (simp add: add.commute)
qed

lemma line_ends_split:
  "\<not> starts_with [LF] t \<Longrightarrow> line_ends (s @ t) = line_ends s @ line_ends t"
proof (induction s rule: line_ends.induct)
  case (2 c)
  then show ?case by (cases t) (auto simp: LF_def CR_def)
qed auto

lemma line_ends_section:
  assumes "\<not> starts_with [LF] r"
  shows "line_ends (push_section [] u @ r) = push_section [] (line_ends u) @ line_ends r"
proof -
  have "line_ends (lit ''<![CDATA['' @ u @ lit '']]>'' @ r) =
      lit ''<![CDATA['' @ line_ends (u @ lit '']]>'' @ r)"
    by (rule line_ends_append) (simp add: CR_def)
  also have "line_ends (u @ lit '']]>'' @ r) = line_ends u @ line_ends (lit '']]>'' @ r)"
    by (rule line_ends_split) (simp add: LF_def)
  also have "line_ends (lit '']]>'' @ r) = lit '']]>'' @ line_ends r"
    by (rule line_ends_append) (simp add: CR_def)
  finally show ?thesis by (simp add: push_section_def)
qed

lemma cdata_end_unbordered:
  "find_sub (lit '']]>'') s = None \<Longrightarrow> find_sub (lit '']]>'') (s @ lit '']]>'' @ y) = Some (length s)"
proof (induction s)
  case (Cons c s)
  then show ?case by (cases s; cases "tl s") (auto split: if_splits)
qed simp

lemma cdata_loop_Some:
  assumes "find_sub (lit '']]>'') rest = Some i"
  shows "cdata_loop [] rest =
    (if 0 < i then push_section [] (take i rest) else []) @ lit '']]&gt;'' @ cdata_loop [] (drop (i + 3) rest)"
  using assms cdata_loop_out [of "(if 0 < i then push_section [] (take i rest) else []) @ lit '']]&gt;''"]
  by (subst cdata_loop.simps) (simp del: lit_Cons)

lemma cdata_loop_None:
  "find_sub (lit '']]>'') rest = None \<Longrightarrow>
     cdata_loop [] rest = (if rest \<noteq> [] then push_section [] rest else [])"
  by (subst cdata_loop.simps) (simp del: lit_Cons)

lemma cdata_loop_start:
  assumes "a \<notin> {LT, RBRACKET}"
  shows "\<not> starts_with [a] (cdata_loop [] rest)" "\<not> starts_with [RBRACKET, GT] (cdata_loop [] rest)"
  using assms
  by (cases "find_sub (lit '']]>'') rest";
      simp add: cdata_loop_Some cdata_loop_None push_section_def del: find_sub.simps)+

lemma cdata_loop_fits: "text_fits (line_ends (cdata_loop [] rest))"
  using line_ends_starts_with [of "[GT]" "cdata_loop [] rest" "[]"] cdata_loop_start [of GT rest]
    line_ends_starts_with [of "[RBRACKET, GT]" "cdata_loop [] rest" "[]"]
  by (simp add: text_fits_def CR_def LF_def)

lemma cdata_loop_reads: "content_value (line_ends (cdata_loop [] rest)) = Some (line_ends rest)"
proof (induction "length rest" arbitrary: rest rule: less_induct)
  case less
  let ?p = "lit '']]>''"
  have p: "CR \<notin> set ?p" "LF \<notin> set ?p" "?p \<noteq> []" by (simp_all add: CR_def LF_def)
  have sec: "content_value (push_section [] (line_ends u) @ r) =
      map_option ((@) (line_ends u)) (content_value r)"
    if "find_sub ?p (u @ ?p @ y) = Some (length u)" for u y r
    using content_section [OF find_sub_line_ends [OF p that]] by (simp add: push_section_def)
  show ?case
  proof (cases "find_sub ?p rest")
    case None
    have "find_sub ?p (rest @ ?p @ []) = Some (length rest)" by (rule cdata_end_unbordered [OF None])
    from sec [OF this, of "[]"] show ?thesis
      using line_ends_section [of "[]" rest] by (simp add: cdata_loop_None [OF None])
  next
    case (Some i)
    obtain v where v0: "rest = take i rest @ ?p @ v" "drop (i + length ?p) rest = v"
        "length (take i rest) = i"
      using find_sub_occurrence [OF Some] by blast
    define u where "u = take i rest"
    have v: "rest = u @ ?p @ v" "drop (i + 3) rest = v" "take i rest = u" "length u = i"
      using v0 unfolding u_def by (blast, simp add: numeral_3_eq_3, simp_all)
    have s: "find_sub ?p (u @ ?p @ v) = Some (length u)" using Some unfolding v(1,4) .
    have l: "length v < length rest" by (simp add: v(1))
    have "line_ends (?p @ v) = ?p @ line_ends v" using p(1) by (rule line_ends_append)
    then have rest: "line_ends rest = line_ends u @ ?p @ line_ends v"
      using line_ends_split [of "?p @ v" u] by (simp add: v(1) LF_def)
    have tail: "line_ends (lit '']]&gt;'' @ cdata_loop [] v) = lit '']]&gt;'' @ line_ends (cdata_loop [] v)"
      by (rule line_ends_append) (simp add: CR_def)
    have c: "content_value (lit '']]&gt;'' @ line_ends (cdata_loop [] v)) = Some (?p @ line_ends v)"
      using content_cdata_end [OF cdata_loop_fits [of v]] less [OF l] by (simp del: lit_Cons)
    have "line_ends (cdata_loop [] rest) =
        (if 0 < i then push_section [] (line_ends u) else []) @ lit '']]&gt;'' @ line_ends (cdata_loop [] v)"
      using line_ends_section [of "lit '']]&gt;'' @ cdata_loop [] v" u] tail
      by (simp add: cdata_loop_Some [OF Some] v(2,3) LF_def)
    then show ?thesis
      using sec [OF s] c v(4) by (auto simp: rest simp del: lit_Cons)
  qed
qed

lemma read_empty_section: "read_content (push_section [] []) = Some []"
  using content_section [of "[]" "[]"]
  by (simp add: read_content_def push_section_def line_ends_id CR_def)

lemma push_cdata_reads: "read_content (push_cdata [] data) = Some (line_ends data)"
  by (cases "data = []")
     (simp_all add: push_cdata_def read_content_def cdata_loop_reads
       read_empty_section [unfolded read_content_def])

text \<open>
  C16. Content written as CDATA reads back as that content, with its line ends normalized: every
  occurrence of \<open>]]>\<close> in it ends up between two sections and nothing in it is taken for markup.
\<close>

theorem cdata_roundtrip: "read_content (push_cdata [] data) = Some (line_ends data)"
  by (rule push_cdata_reads)

text \<open>A carriage return is not restored: it is written as it stands and read as a line feed.\<close>

lemma cdata_carriage_return: "read_content (push_cdata [] [CR]) = Some [LF]"
  by (simp add: push_cdata_reads)

end
