(* ===== verification/Effects.thy ===== *)
theory Effects
  imports Prelude
begin

text \<open>
  Methods that take \<open>&mut self\<close> and return a \<open>Result\<close>: functions from the state to the result and
  the state after it. A method that fails leaves the state as the statements before the failure left
  it. An \<open>effect\<close> fails with an \<open>Error\<close>; an \<open>action\<close> may have more ways to stop. \<open>and_then\<close> is a statement ended by the operator \<open>?\<close> followed by the rest of the method.

  The collection \<open>effects\<close> holds the equations that run such a method.
\<close>

named_theorems effects "equations that run a method on a state"

type_synonym ('e, 'a, 's) action = "'s \<Rightarrow> ('e + 'a) \<times> 's"
type_synonym ('a, 's) effect = "(error, 'a, 's) action"

definition ok :: "'a \<Rightarrow> ('e, 'a, 's) action" where
  "ok a s = (Inr a, s)"

definition fail :: "'e \<Rightarrow> ('e, 'a, 's) action" where
  "fail e s = (Inl e, s)"

definition modify :: "('s \<Rightarrow> 's) \<Rightarrow> ('e, unit, 's) action" where
  "modify f s = (Inr (), f s)"

definition and_then :: "('e, 'a, 's) action \<Rightarrow> ('a \<Rightarrow> ('e, 'b, 's) action) \<Rightarrow> ('e, 'b, 's) action" where
  "and_then f g s = (case f s of (Inl e, s') \<Rightarrow> (Inl e, s') | (Inr a, s') \<Rightarrow> g a s')"

text \<open>A statement that reads fields of the state.\<close>

definition reading :: "('s \<Rightarrow> ('e, 'a, 's) action) \<Rightarrow> ('e, 'a, 's) action" where
  "reading f s = f s s"

fun in_turn :: "('e, unit, 's) action list \<Rightarrow> ('e, unit, 's) action" where
  "in_turn [] = ok ()"
| "in_turn (f # fs) = and_then f (\<lambda>_. in_turn fs)"

text \<open>A sequence of inputs, each given to the same method, up to the first that fails.\<close>

fun each :: "('i \<Rightarrow> ('e, unit, 's) action) \<Rightarrow> 'i list \<Rightarrow> ('e, unit, 's) action" where
  "each f [] = ok ()"
| "each f (x # xs) = and_then (f x) (\<lambda>_. each f xs)"

lemma ok_run [effects, simp]: "ok a s = (Inr a, s)"
  by (simp add: ok_def)

lemma fail_run [effects, simp]: "fail e s = (Inl e, s)"
  by (simp add: fail_def)

lemma modify_run [effects, simp]: "modify f s = (Inr (), f s)"
  by (simp add: modify_def)

lemma and_then_Inl [effects, simp]: "f s = (Inl e, s') \<Longrightarrow> and_then f g s = (Inl e, s')"
  by (simp add: and_then_def)

lemma and_then_Inr [effects, simp]: "f s = (Inr a, s') \<Longrightarrow> and_then f g s = g a s'"
  by (simp add: and_then_def)

lemma and_then_eq_Inr:
  "and_then f g s = (Inr b, s'') \<longleftrightarrow> (\<exists>a s'. f s = (Inr a, s') \<and> g a s' = (Inr b, s''))"
  by (auto simp: and_then_def split: prod.splits sum.splits)

lemma and_then_assoc: "and_then (and_then f g) h = and_then f (\<lambda>a. and_then (g a) h)"
  by (rule ext) (auto simp: and_then_def split: prod.splits sum.splits)

lemma and_then_ok [simp]: "and_then (ok a) g = g a"
  by (rule ext) (simp add: and_then_def)

lemma each_append: "each f (xs @ ys) = and_then (each f xs) (\<lambda>_. each f ys)"
  by (induction xs) (simp_all add: and_then_assoc)

lemma each_Nil_eq: "each f [] s = (r, s') \<longleftrightarrow> r = Inr () \<and> s' = s"
  by auto

lemma each_Cons_Inr:
  "each f (x # xs) s = (Inr u, s'') \<longleftrightarrow> (\<exists>s'. f x s = (Inr (), s') \<and> each f xs s' = (Inr u, s''))"
  by (simp add: and_then_eq_Inr)

lemma each_append_Inr:
  "each f (xs @ ys) s = (Inr u, s'') \<longleftrightarrow> (\<exists>s'. each f xs s = (Inr (), s') \<and> each f ys s' = (Inr u, s''))"
  by (simp add: each_append and_then_eq_Inr)

text \<open>A property of the state that every input keeps, whatever the outcome.\<close>

lemma each_keeps:
  assumes "\<And>x s. P s \<Longrightarrow> P (snd (f x s))" "P s"
  shows "P (snd (each f xs s))"
  using assms(2)
proof (induction xs arbitrary: s)
  case (Cons x xs)
  show ?case
    using assms(1) [OF Cons.prems, of x] Cons.IH
    by (auto simp: and_then_def split: prod.splits sum.splits)
qed simp

section \<open>What a method does\<close>

text \<open>
  \<open>does f p R Q\<close>: from \<open>p\<close> the method \<open>f\<close> returns with \<open>Q\<close> or stops with \<open>R\<close>. The rules of the collection
  \<open>does_simps\<close> run a method under its postcondition.
\<close>

named_theorems does_simps "rules that run a method under a postcondition"

definition does :: "('e, 'r, 's) action \<Rightarrow> 's \<Rightarrow> ('e \<Rightarrow> bool) \<Rightarrow> ('r \<Rightarrow> 's \<Rightarrow> bool) \<Rightarrow> bool" where
  "does f p R Q = (case f p of (Inl e, _) \<Rightarrow> R e | (Inr r, q) \<Rightarrow> Q r q)"

lemma does_and_then [does_simps]: "does (and_then f g) p R Q = does f p R (\<lambda>r q. does (g r) q R Q)"
  by (auto simp: does_def and_then_def split: prod.splits sum.splits)

lemma does_ok [does_simps]: "does (ok r) p R Q = Q r p"
  by (simp add: does_def)

lemma does_fail [does_simps]: "does (fail e) p R Q = R e"
  by (simp add: does_def)

lemma does_modify [does_simps]: "does (modify f) p R Q = Q () (f p)"
  by (simp add: does_def)

lemma does_reading [does_simps]: "does (reading g) p R Q = does (g p) p R Q"
  by (simp add: does_def reading_def)

lemma does_weaken: "does f p R Q \<Longrightarrow> (\<And>e. R e \<Longrightarrow> R' e) \<Longrightarrow> (\<And>r q. Q r q \<Longrightarrow> Q' r q) \<Longrightarrow> does f p R' Q'"
  by (auto simp: does_def split: prod.splits sum.splits)

lemma does_post: "does f p R Q \<Longrightarrow> (\<And>r q. Q r q \<Longrightarrow> Q' r q) \<Longrightarrow> does f p R Q'"
  by (rule does_weaken)

lemma does_then:
  "does f p R Q \<Longrightarrow> (\<And>r q. Q r q \<Longrightarrow> does (g r) q R Q') \<Longrightarrow> does (and_then f g) p R Q'"
  unfolding does_and_then by (rule does_weaken)

lemma does_conj: "does f p R Q \<Longrightarrow> does f p R Q' \<Longrightarrow> does f p R (\<lambda>r q. Q r q \<and> Q' r q)"
  by (auto simp: does_def split: prod.splits sum.splits)

lemma does_Inr: "does f p R Q \<Longrightarrow> f p = (Inr r, q) \<Longrightarrow> Q r q"
  by (simp add: does_def)

lemma does_Inl: "does f p R Q \<Longrightarrow> f p = (Inl e, q) \<Longrightarrow> R e"
  by (simp add: does_def)

section \<open>Stopping\<close>

text \<open>
  How a step of the parser may stop: a panic, an error, or a bound of the model: the depth of nested expansions in an
  attribute value, and the turns given to a pass of the DTD reader.
\<close>

datatype stop = Panic | Err error | NestedTooDeep | Unfinished

section \<open>Counters\<close>

text \<open>\<open>saturating_add\<close> on the unsigned types the code counts with.\<close>

definition usize_max :: nat where
  "usize_max = 2 ^ 64 - 1"

definition u64_max :: nat where
  "u64_max = 2 ^ 64 - 1"

definition saturating_add :: "nat \<Rightarrow> nat \<Rightarrow> nat \<Rightarrow> nat" where
  "saturating_add bound a b = min bound (a + b)"

lemma saturating_add_le: "saturating_add bound a b \<le> bound"
  by (simp add: saturating_add_def)

lemma saturating_add_ge: "a \<le> bound \<Longrightarrow> a \<le> saturating_add bound a b"
  by (simp add: saturating_add_def)

lemma saturating_add_0 [simp]: "a \<le> bound \<Longrightarrow> saturating_add bound a 0 = a"
  by (simp add: saturating_add_def)

end
