(* ===== verification/Events.thy ===== *)
theory Events
  imports Effects Dtd_Model
begin

text \<open>
  Document events, \<open>event.rs\<close> and \<open>attr.rs\<close>: what a producer reports of a document and what a consumer
  receives, and the dispatcher that gives one event to several consumers in turn.

  The code has each event in a borrowed and an owned form with the same fields (\<open>EventRef\<close> and
  \<open>Event\<close>, \<open>AttributeRef\<close> and \<open>Attribute\<close>); as values they are one. The locations an event carries
  are only read to place errors and are left out, as they are in \<open>error\<close>.
\<close>

section \<open>Attributes\<close>

record attribute =
  at_prefix :: "ustring option"
  at_local :: ustring
  at_namespace :: "ustring option"
  at_value :: ustring

definition is_declaration :: "ustring option \<Rightarrow> ustring \<Rightarrow> bool" where
  "is_declaration prefix local =
     (case prefix of Some p \<Rightarrow> p = XMLNS_PREFIX | None \<Rightarrow> local = XMLNS_PREFIX)"

definition declares_namespace :: "attribute \<Rightarrow> bool" where
  "declares_namespace a = is_declaration (at_prefix a) (at_local a)"

definition get_by_name :: "attribute list \<Rightarrow> ustring option \<Rightarrow> ustring \<Rightarrow> attribute option" where
  "get_by_name as namespace local = find (\<lambda>a. at_namespace a = namespace \<and> at_local a = local) as"

section \<open>Events\<close>

datatype xml_space = XmlSpaceDefault | XmlSpacePreserve

record start_element_event =
  se_prefix :: "ustring option"
  se_local :: ustring
  se_namespace :: "ustring option"
  se_attributes :: "attribute list"
  se_xml_space :: xml_space
  se_xml_lang :: "ustring option"
  se_base_uri :: "ustring option"

record end_element_event =
  ee_prefix :: "ustring option"
  ee_local :: ustring
  ee_namespace :: "ustring option"

record processing_instruction_event =
  pe_target :: ustring
  pe_data :: ustring

record doctype_event =
  de_name :: "ustring option"
  de_public_id :: "ustring option"
  de_system_id :: "ustring option"
  de_dtd :: dtd
  de_pool :: name_pool

datatype event =
  StartDocument
| EndDocument
| StartElement start_element_event
| EndElement end_element_event
| Characters ustring
| Cdata ustring
| Comment ustring
| ProcessingInstruction processing_instruction_event
| Doctype doctype_event

definition start_element_named :: "event \<Rightarrow> ustring option \<Rightarrow> ustring \<Rightarrow> start_element_event option" where
  "start_element_named ev namespace local =
     (case ev of
        StartElement s \<Rightarrow> if se_namespace s = namespace \<and> se_local s = local then Some s else None
      | _ \<Rightarrow> None)"

definition end_element_named :: "event \<Rightarrow> ustring option \<Rightarrow> ustring \<Rightarrow> end_element_event option" where
  "end_element_named ev namespace local =
     (case ev of
        EndElement s \<Rightarrow> if ee_namespace s = namespace \<and> ee_local s = local then Some s else None
      | _ \<Rightarrow> None)"

section \<open>Consumers and the dispatcher\<close>

text \<open>\<open>ControlFlow<usize, usize>\<close>: whether the consumer goes on, and the validity errors it found.\<close>

datatype flow = Continue nat | Break nat

datatype outcome = Completed | Stopped | Failed error | Abandoned

text \<open>
  A consumer is a state and the two methods of \<open>EventConsumer\<close>; the dispatcher holds a list of states
  and is given the methods of their common type. A program that mixes consumers takes their sum.
\<close>

type_synonym 'h consume = "event \<Rightarrow> (flow, 'h) effect"
type_synonym 'h finish = "outcome \<Rightarrow> 'h \<Rightarrow> 'h"

record 'h member =
  mb_handler :: 'h
  mb_validator :: bool
  mb_finished :: bool

record 'h dispatcher =
  dp_members :: "'h member list"
  dp_running :: bool
  dp_max_errors :: "nat option"
  dp_validity_error_count :: nat

definition new_dispatcher :: "'h dispatcher" where
  "new_dispatcher =
     \<lparr>dp_members = [], dp_running = False, dp_max_errors = None, dp_validity_error_count = 0\<rparr>"

definition add_consumer :: "'h \<Rightarrow> 'h dispatcher \<Rightarrow> 'h dispatcher" where
  "add_consumer h d =
     d\<lparr>dp_members := dp_members d @ [\<lparr>mb_handler = h, mb_validator = False, mb_finished = False\<rparr>]\<rparr>"

definition add_consumers :: "'h list \<Rightarrow> 'h dispatcher \<Rightarrow> 'h dispatcher" where
  "add_consumers hs d = foldl (\<lambda>d h. add_consumer h d) d hs"

definition add_validator :: "'h \<Rightarrow> 'h dispatcher \<Rightarrow> 'h dispatcher" where
  "add_validator h d =
     d\<lparr>dp_members := dp_members d @ [\<lparr>mb_handler = h, mb_validator = True, mb_finished = False\<rparr>]\<rparr>"

definition with_max_errors :: "nat option \<Rightarrow> 'h dispatcher \<Rightarrow> 'h dispatcher" where
  "with_max_errors m d = d\<lparr>dp_max_errors := m\<rparr>"

definition is_stopped :: "'h dispatcher \<Rightarrow> bool" where
  "is_stopped d =
     (let consumers = filter (\<lambda>m. \<not> mb_validator m) (dp_members d)
      in consumers \<noteq> [] \<and> list_all mb_finished consumers)"

definition finish_dispatcher :: "'h finish \<Rightarrow> outcome \<Rightarrow> 'h dispatcher \<Rightarrow> 'h dispatcher" where
  "finish_dispatcher fin outcome d =
     (if dp_running d
      then d\<lparr>dp_running := False,
             dp_members := map (\<lambda>m. m\<lparr>mb_handler := fin outcome (mb_handler m)\<rparr>) (dp_members d)\<rparr>
      else d)"

definition dispatcher_fail :: "'h finish \<Rightarrow> error \<Rightarrow> 'h dispatcher \<Rightarrow> error \<times> 'h dispatcher" where
  "dispatcher_fail fin e d = (e, finish_dispatcher fin (Failed e) d)"

text \<open>The loop over the members: the errors counted in the event and in the run, and the members
  after it. It ends early where a member fails or the limit of errors is passed.\<close>

fun dispatch_loop ::
  "'h consume \<Rightarrow> nat option \<Rightarrow> event \<Rightarrow> nat \<Rightarrow> nat \<Rightarrow> 'h member list \<Rightarrow>
   nat result \<times> nat \<times> 'h member list" where
  "dispatch_loop con limit ev in_event in_run [] = (Inr in_event, in_run, [])"
| "dispatch_loop con limit ev in_event in_run (m # ms) =
     (if mb_finished m then
        (case dispatch_loop con limit ev in_event in_run ms of (r, n, ms') \<Rightarrow> (r, n, m # ms'))
      else
        (case con ev (mb_handler m) of
           (Inl e, h) \<Rightarrow> (Inl e, in_run, m\<lparr>mb_handler := h\<rparr> # ms)
         | (Inr f, h) \<Rightarrow>
             (let (count, m') =
                (case f of
                   Continue count \<Rightarrow> (count, m\<lparr>mb_handler := h\<rparr>)
                 | Break count \<Rightarrow> (count, m\<lparr>mb_handler := h, mb_finished := True\<rparr>));
                in_event' = saturating_add usize_max in_event count;
                in_run' = saturating_add usize_max in_run count
              in
                if (case limit of None \<Rightarrow> False | Some bound \<Rightarrow> bound < in_run')
                then (Inl Validity, in_run', m' # ms)
                else
                  (case dispatch_loop con limit ev in_event' in_run' ms of
                     (r, n, ms') \<Rightarrow> (r, n, m' # ms')))))"

definition begin_run :: "'h dispatcher \<Rightarrow> 'h dispatcher" where
  "begin_run d =
     d\<lparr>dp_members := map (\<lambda>m. m\<lparr>mb_finished := False\<rparr>) (dp_members d), dp_running := True,
       dp_validity_error_count := 0\<rparr>"

definition consume_dispatcher :: "'h consume \<Rightarrow> event \<Rightarrow> (flow, 'h dispatcher) effect" where
  "consume_dispatcher con ev d0 =
     (let d = (case ev of StartDocument \<Rightarrow> begin_run d0 | _ \<Rightarrow> d0) in
      case dispatch_loop con (dp_max_errors d) ev 0 (dp_validity_error_count d) (dp_members d) of
        (r, n, ms) \<Rightarrow>
          (let d' = d\<lparr>dp_members := ms, dp_validity_error_count := n\<rparr> in
           case r of
             Inl e \<Rightarrow> (Inl e, d')
           | Inr count \<Rightarrow> (Inr (if is_stopped d' then Break count else Continue count), d')))"

end
