(* ===== verification/Writer.thy ===== *)
theory Writer
  imports Escape Events
begin

text \<open>
  The XML writer, \<open>io/write/writer.rs\<close>: a consumer that writes each event as XML text to a byte sink.

  The sink \<open>W: io::Write\<close> is a state and the method \<open>write_all\<close>, an argument of the operations;
  \<open>vec_sink\<close> is the one of \<open>Vec<u8>\<close>. An encoder object is the record of its methods. The two buffers the
  writer reuses between calls hold nothing from one call to the next and are not part of its state.
\<close>

section \<open>Encoders as objects\<close>

record dyn_encoder =
  en_encoding :: ustring
  en_encode :: "ustring \<Rightarrow> byte list \<Rightarrow> byte list \<times> error option"
  en_encode_with_references :: "ustring \<Rightarrow> byte list \<Rightarrow> byte list \<times> error option"

fun builtin_encoding :: "encoder_id \<Rightarrow> ustring" where
  "builtin_encoding Utf8Encoder = lit ''UTF-8''"
| "builtin_encoding (SingleByteEncoder enc) = sbe_name enc"

definition builtin_object :: "encoder_id \<Rightarrow> dyn_encoder" where
  "builtin_object e =
     \<lparr>en_encoding = builtin_encoding e, en_encode = encode e,
      en_encode_with_references = encode_with_references e\<rparr>"

definition encoder_object_for :: "(ustring \<Rightarrow> dyn_encoder option) \<Rightarrow> ustring \<Rightarrow> dyn_encoder result" where
  "encoder_object_for backend label =
     (case encoder_for backend label of
        Inl e \<Rightarrow> Inl e
      | Inr (Inl b) \<Rightarrow> Inr (builtin_object b)
      | Inr (Inr d) \<Rightarrow> Inr d)"

section \<open>The writer\<close>

type_synonym 'w sink = "byte list \<Rightarrow> (unit, 'w) effect"

definition vec_sink :: "byte list sink" where
  "vec_sink bs out = ok () (out @ bs)"

record 'w xml_writer =
  xw_out :: 'w
  xw_encoder :: dyn_encoder
  xw_declared :: "ustring option"
  xw_declaration :: bool
  xw_standalone :: "bool option"
  xw_declaration_line_break :: "line_break option"
  xw_open :: "ustring list"
  xw_pending :: bool

definition new_writer :: "'w \<Rightarrow> 'w xml_writer" where
  "new_writer out =
     \<lparr>xw_out = out, xw_encoder = builtin_object Utf8Encoder, xw_declared = None, xw_declaration = False,
      xw_standalone = None, xw_declaration_line_break = None, xw_open = [], xw_pending = False\<rparr>"

definition with_encoding ::
  "(ustring \<Rightarrow> dyn_encoder option) \<Rightarrow> ustring \<Rightarrow> 'w xml_writer \<Rightarrow> 'w xml_writer result" where
  "with_encoding backend label w =
     (case encoder_object_for backend label of
        Inl e \<Rightarrow> Inl e
      | Inr e \<Rightarrow>
          Inr (w\<lparr>xw_encoder := e,
                 xw_declared := (case xw_declared w of None \<Rightarrow> Some label | Some l \<Rightarrow> Some l)\<rparr>))"

definition with_declared_encoding :: "ustring \<Rightarrow> 'w xml_writer \<Rightarrow> 'w xml_writer" where
  "with_declared_encoding label w = w\<lparr>xw_declared := Some label\<rparr>"

definition with_declaration :: "bool \<Rightarrow> 'w xml_writer \<Rightarrow> 'w xml_writer" where
  "with_declaration b w = w\<lparr>xw_declaration := b\<rparr>"

definition with_standalone :: "bool option \<Rightarrow> 'w xml_writer \<Rightarrow> 'w xml_writer" where
  "with_standalone b w = w\<lparr>xw_standalone := b\<rparr>"

definition with_declaration_line_break :: "line_break option \<Rightarrow> 'w xml_writer \<Rightarrow> 'w xml_writer" where
  "with_declaration_line_break b w = w\<lparr>xw_declaration_line_break := b\<rparr>"

definition into_inner :: "'w xml_writer \<Rightarrow> 'w" where
  "into_inner w = xw_out w"

text \<open>The bytes of a piece of text, encoded into an empty buffer, to the sink.\<close>

definition write_encoded :: "'w sink \<Rightarrow> byte list \<times> error option \<Rightarrow> (unit, 'w xml_writer) effect" where
  "write_encoded sink encoded w =
     (case encoded of
        (bytes, Some e) \<Rightarrow> fail e w
      | (bytes, None) \<Rightarrow> (case sink bytes (xw_out w) of (r, out) \<Rightarrow> (r, w\<lparr>xw_out := out\<rparr>)))"

definition put :: "'w sink \<Rightarrow> ustring \<Rightarrow> (unit, 'w xml_writer) effect" where
  "put sink txt w = write_encoded sink (en_encode (xw_encoder w) txt []) w"

definition put_with_references :: "'w sink \<Rightarrow> ustring \<Rightarrow> (unit, 'w xml_writer) effect" where
  "put_with_references sink txt w =
     write_encoded sink (en_encode_with_references (xw_encoder w) txt []) w"

definition put_markup :: "'w sink \<Rightarrow> ustring \<Rightarrow> (unit, 'w xml_writer) effect" where
  "put_markup sink markup = put sink markup"

definition xml_declaration :: "'w sink \<Rightarrow> (unit, 'w xml_writer) effect" where
  "xml_declaration sink w =
     (let declared = (case xw_declared w of Some l \<Rightarrow> l | None \<Rightarrow> en_encoding (xw_encoder w)) in
      in_turn
        [put_markup sink (lit ''<?xml version='' @ [QUOT] @ lit ''1.0'' @ [QUOT] @ lit '' encoding='' @ [QUOT]),
         put sink declared,
         put_markup sink [QUOT],
         (case xw_standalone w of
            None \<Rightarrow> ok ()
          | Some yes \<Rightarrow>
              put_markup sink
                (if yes then lit '' standalone='' @ [QUOT] @ lit ''yes'' @ [QUOT]
                 else lit '' standalone='' @ [QUOT] @ lit ''no'' @ [QUOT])),
         put_markup sink (lit ''?>''),
         (case xw_declaration_line_break w of
            None \<Rightarrow> ok ()
          | Some b \<Rightarrow> put_markup sink (line_break_as_str b))] w)"

definition write_start_document :: "'w sink \<Rightarrow> (unit, 'w xml_writer) effect" where
  "write_start_document sink w =
     (let w' = w\<lparr>xw_open := [], xw_pending := False\<rparr>
      in if xw_declaration w' then xml_declaration sink w' else ok () w')"

definition write_doctype :: "'w sink \<Rightarrow> doctype_event \<Rightarrow> (unit, 'w xml_writer) effect" where
  "write_doctype sink ev w =
     (case de_name ev of
        None \<Rightarrow> ok () w
      | Some name \<Rightarrow>
          if xw_open w \<noteq> [] then fail WellFormedness w
          else
            in_turn
              [put_markup sink (lit ''<!DOCTYPE ''),
               put sink name,
               (case (de_public_id ev, de_system_id ev) of
                  (Some public, Some system) \<Rightarrow>
                    in_turn
                      [put_markup sink (lit '' PUBLIC '' @ [QUOT]), put sink public,
                       put_markup sink ([QUOT] @ lit '' '' @ [QUOT]), put sink system, put_markup sink [QUOT]]
                | (None, Some system) \<Rightarrow>
                    in_turn
                      [put_markup sink (lit '' SYSTEM '' @ [QUOT]), put sink system, put_markup sink [QUOT]]
                | _ \<Rightarrow> ok ()),
               put_markup sink [GT]] w)"

definition names :: "ustring \<Rightarrow> ustring option \<Rightarrow> ustring \<Rightarrow> bool" where
  "names name prefix local =
     (case prefix of
        None \<Rightarrow> name = local
      | Some p \<Rightarrow>
          (case strip_prefix p name of
             None \<Rightarrow> False
           | Some rest \<Rightarrow>
               (case strip_prefix [COLON] rest of None \<Rightarrow> False | Some rest' \<Rightarrow> rest' = local)))"

definition write_end_element :: "'w sink \<Rightarrow> end_element_event \<Rightarrow> (unit, 'w xml_writer) effect" where
  "write_end_element sink ev w =
     (if xw_open w = [] then fail WellFormedness w
      else
        (let name = last (xw_open w); w' = w\<lparr>xw_open := butlast (xw_open w)\<rparr> in
         if \<not> names name (ee_prefix ev) (ee_local ev) then fail WellFormedness w'
         else if xw_pending w' then put_markup sink (lit ''/>'') (w'\<lparr>xw_pending := False\<rparr>)
         else in_turn [put_markup sink (lit ''</''), put sink name, put_markup sink [GT]] w'))"

definition close_start_tag :: "'w sink \<Rightarrow> (unit, 'w xml_writer) effect" where
  "close_start_tag sink w =
     (if xw_pending w then put_markup sink [GT] (w\<lparr>xw_pending := False\<rparr>) else ok () w)"

definition write_characters :: "'w sink \<Rightarrow> ustring \<Rightarrow> (unit, 'w xml_writer) effect" where
  "write_characters sink txt = in_turn [close_start_tag sink, put_with_references sink (push_text [] txt)]"

definition write_cdata :: "'w sink \<Rightarrow> ustring \<Rightarrow> (unit, 'w xml_writer) effect" where
  "write_cdata sink txt = in_turn [close_start_tag sink, put sink (push_cdata [] txt)]"

definition write_comment :: "'w sink \<Rightarrow> ustring \<Rightarrow> (unit, 'w xml_writer) effect" where
  "write_comment sink txt =
     in_turn [close_start_tag sink, put_markup sink (lit ''<!--''), put sink txt, put_markup sink (lit ''-->'')]"

definition write_processing_instruction ::
  "'w sink \<Rightarrow> processing_instruction_event \<Rightarrow> (unit, 'w xml_writer) effect" where
  "write_processing_instruction sink ev =
     in_turn
       [close_start_tag sink, put_markup sink (lit ''<?''), put sink (pe_target ev),
        (if pe_data ev \<noteq> [] then in_turn [put_markup sink (lit '' ''), put sink (pe_data ev)] else ok ()),
        put_markup sink (lit ''?>'')]"

definition put_name :: "'w sink \<Rightarrow> ustring option \<Rightarrow> ustring \<Rightarrow> (unit, 'w xml_writer) effect" where
  "put_name sink prefix local =
     in_turn
       [(case prefix of None \<Rightarrow> ok () | Some p \<Rightarrow> in_turn [put sink p, put_markup sink [COLON]]),
        put sink local]"

definition write_attribute :: "'w sink \<Rightarrow> attribute \<Rightarrow> (unit, 'w xml_writer) effect" where
  "write_attribute sink a =
     in_turn
       [put_markup sink (lit '' ''), put_name sink (at_prefix a) (at_local a),
        put_markup sink (lit ''='' @ [QUOT]), put_with_references sink (push_attribute [] (at_value a)),
        put_markup sink [QUOT]]"

definition write_start_element :: "'w sink \<Rightarrow> start_element_event \<Rightarrow> (unit, 'w xml_writer) effect" where
  "write_start_element sink ev =
     in_turn
       [close_start_tag sink, put_markup sink [LT], put_name sink (se_prefix ev) (se_local ev),
        modify (\<lambda>w. w\<lparr>xw_open := xw_open w @ [lexical (se_prefix ev) (se_local ev)], xw_pending := True\<rparr>),
        each (write_attribute sink) (se_attributes ev)]"

fun write_event :: "'w sink \<Rightarrow> event \<Rightarrow> (unit, 'w xml_writer) effect" where
  "write_event sink StartDocument = write_start_document sink"
| "write_event sink EndDocument = ok ()"
| "write_event sink (StartElement ev) = write_start_element sink ev"
| "write_event sink (EndElement ev) = write_end_element sink ev"
| "write_event sink (Characters txt) = write_characters sink txt"
| "write_event sink (Cdata txt) = write_cdata sink txt"
| "write_event sink (Comment txt) = write_comment sink txt"
| "write_event sink (ProcessingInstruction ev) = write_processing_instruction sink ev"
| "write_event sink (Doctype ev) = write_doctype sink ev"

definition consume_writer :: "'w sink \<Rightarrow> 'w xml_writer consume" where
  "consume_writer sink ev = and_then (write_event sink ev) (\<lambda>_. ok (Continue 0))"

text \<open>The writer keeps the default \<open>finish\<close>, which does nothing.\<close>

definition finish_writer :: "'w xml_writer finish" where
  "finish_writer outcome w = w"

end
