(* ===== verification/Strict.thy ===== *)
theory Strict
  imports Events
begin

text \<open>
  The event validator \<open>event/strict.rs\<close>: \<open>StrictXmlConstraints\<close> follows the events of a document
  through the phases of a document and refuses the first event that XML 1.0 or Namespaces in XML 1.0
  does not allow there.

  The specification is a grammar of event sequences: what the prolog, the content of an element and the
  epilog may hold, with the namespace bindings in scope as a map. The theorem of the component states
  that the validator accepts exactly the sequences of the grammar.
\<close>

section \<open>The validator\<close>

datatype phase = Outside | Prolog | Content | Epilog

record open_element =
  oe_prefix :: "ustring option"
  oe_local :: ustring
  oe_namespace :: "ustring option"
  oe_bindings :: nat

record strict =
  st_lexical_only :: bool
  st_phase :: phase
  st_seen_doctype :: bool
  st_open :: "open_element list"
  st_bindings :: "(ustring option \<times> ustring option) list"

definition new_strict :: strict where
  "new_strict =
     \<lparr>st_lexical_only = False, st_phase = Outside, st_seen_doctype = False, st_open = [], st_bindings = []\<rparr>"

definition lexical_only :: strict where
  "lexical_only = new_strict\<lparr>st_lexical_only := True\<rparr>"

definition first_non_char :: "ustring \<Rightarrow> uchar option" where
  "first_non_char text = find (\<lambda>c. \<not> is_char c) text"

definition check_chars :: "ustring \<Rightarrow> unit result" where
  "check_chars text = (case first_non_char text of None \<Rightarrow> Inr () | Some c \<Rightarrow> Inl WellFormedness)"

definition check_name :: "ustring option \<Rightarrow> ustring \<Rightarrow> unit result" where
  "check_name prefix local =
     (if (case prefix of None \<Rightarrow> True | Some p \<Rightarrow> is_ncname p) \<and> is_ncname local then Inr ()
      else Inl Namespace_Error)"

definition bad_declaration :: "ustring option \<Rightarrow> ustring \<Rightarrow> bool" where
  "bad_declaration prefix value =
     (case prefix of
        None \<Rightarrow> value = xml_ns_uri \<or> value = xmlns_ns_uri
      | Some p \<Rightarrow>
          if p = XMLNS_PREFIX then True
          else if value = [] then True
          else if p = XML_PREFIX \<and> value \<noteq> xml_ns_uri then True
          else if p \<noteq> XML_PREFIX \<and> value = xml_ns_uri then True
          else value = xmlns_ns_uri)"

text \<open>The lexical checks, which need no context. The attributes are checked in order, each against
  those before it.\<close>

fun lexical_attributes :: "attribute list \<Rightarrow> attribute list \<Rightarrow> unit result" where
  "lexical_attributes before [] = Inr ()"
| "lexical_attributes before (a # as) =
     (case check_name (at_prefix a) (at_local a) of
        Inl e \<Rightarrow> Inl e
      | Inr _ \<Rightarrow>
          if find (\<lambda>b. at_namespace b = at_namespace a \<and> at_local b = at_local a) before \<noteq> None
          then Inl WellFormedness
          else lexical_attributes (before @ [a]) as)"

definition lexical_start_element :: "start_element_event \<Rightarrow> unit result" where
  "lexical_start_element ev =
     (case check_name (se_prefix ev) (se_local ev) of
        Inl e \<Rightarrow> Inl e
      | Inr _ \<Rightarrow> lexical_attributes [] (se_attributes ev))"

definition lexical_comment :: "ustring \<Rightarrow> unit result" where
  "lexical_comment text =
     (if find_sub (lit ''--'') text \<noteq> None then Inl WellFormedness
      else if text \<noteq> [] \<and> last text = cp CHR ''-'' then Inl WellFormedness
      else Inr ())"

definition lexical_target :: "processing_instruction_event \<Rightarrow> unit result" where
  "lexical_target ev = (if is_name (pe_target ev) then Inr () else Inl WellFormedness)"

fun lexical_event :: "event \<Rightarrow> unit result" where
  "lexical_event (StartElement ev) = lexical_start_element ev"
| "lexical_event (EndElement ev) = check_name (ee_prefix ev) (ee_local ev)"
| "lexical_event (Comment text) = lexical_comment text"
| "lexical_event (ProcessingInstruction ev) = lexical_target ev"
| "lexical_event _ = Inr ()"

definition processing_instruction :: "processing_instruction_event \<Rightarrow> unit result" where
  "processing_instruction ev =
     (if to_ascii_lowercase (pe_target ev) = XML_PREFIX then Inl WellFormedness
      else if find_sub (lit ''?>'') (pe_data ev) \<noteq> None then Inl WellFormedness
      else check_chars (pe_data ev))"

definition bound :: "strict \<Rightarrow> ustring option \<Rightarrow> ustring option result" where
  "bound s prefix =
     (if prefix = Some XML_PREFIX then Inr (Some xml_ns_uri)
      else
        (let namespace =
           (case find (\<lambda>(b, _). b = prefix) (rev (st_bindings s)) of None \<Rightarrow> None | Some (_, ns) \<Rightarrow> ns)
         in if prefix \<noteq> None \<and> namespace = None then Inl Namespace_Error else Inr namespace))"

text \<open>\<open>start_element\<close>: the phase, then the loop that binds the declarations, then the names.\<close>

definition enter_phase :: "(unit, strict) effect" where
  "enter_phase s =
     (case st_phase s of
        Prolog \<Rightarrow> ok () (s\<lparr>st_phase := Content\<rparr>)
      | Content \<Rightarrow> ok () s
      | _ \<Rightarrow> fail WellFormedness s)"

definition declared_prefix :: "attribute \<Rightarrow> ustring option" where
  "declared_prefix a = (case at_prefix a of None \<Rightarrow> None | Some _ \<Rightarrow> Some (at_local a))"

definition declared_namespace :: "attribute \<Rightarrow> ustring option" where
  "declared_namespace a = (if at_value a = [] then None else Some (at_value a))"

fun bind_declarations :: "attribute list \<Rightarrow> (unit, strict) effect" where
  "bind_declarations [] s = ok () s"
| "bind_declarations (a # as) s =
     (if first_non_char (at_value a) \<noteq> None then fail WellFormedness s
      else if declares_namespace a then
        (if bad_declaration (declared_prefix a) (at_value a) then fail Namespace_Error s
         else bind_declarations as
           (s\<lparr>st_bindings := st_bindings s @ [(declared_prefix a, declared_namespace a)]\<rparr>))
      else bind_declarations as s)"

definition check_attribute :: "strict \<Rightarrow> attribute \<Rightarrow> unit result" where
  "check_attribute s a =
     (case (if at_prefix a \<noteq> None then bound s (at_prefix a) else Inr None) of
        Inl e \<Rightarrow> Inl e
      | Inr namespace \<Rightarrow>
          if at_namespace a \<noteq> namespace then Inl Namespace_Error
          else if at_prefix a = Some XML_PREFIX \<and> at_local a = lit ''space''
               \<and> at_value a \<notin> {lit ''default'', lit ''preserve''}
          then Inl WellFormedness
          else Inr ())"

fun check_attributes :: "strict \<Rightarrow> attribute list \<Rightarrow> unit result" where
  "check_attributes s [] = Inr ()"
| "check_attributes s (a # as) =
     (if declares_namespace a then check_attributes s as
      else case check_attribute s a of Inl e \<Rightarrow> Inl e | Inr _ \<Rightarrow> check_attributes s as)"

definition start_element :: "start_element_event \<Rightarrow> (unit, strict) effect" where
  "start_element ev =
     and_then enter_phase (\<lambda>_ s0.
       and_then (bind_declarations (se_attributes ev)) (\<lambda>_ s.
         case bound s (se_prefix ev) of
           Inl e \<Rightarrow> fail e s
         | Inr namespace \<Rightarrow>
             if se_namespace ev \<noteq> namespace then fail Namespace_Error s
             else case check_attributes s (se_attributes ev) of
               Inl e \<Rightarrow> fail e s
             | Inr _ \<Rightarrow>
                 ok () (s\<lparr>st_open := st_open s @
                   [\<lparr>oe_prefix = se_prefix ev, oe_local = se_local ev, oe_namespace = se_namespace ev,
                     oe_bindings = length (st_bindings s0)\<rparr>]\<rparr>)) s0)"

definition end_element :: "end_element_event \<Rightarrow> (unit, strict) effect" where
  "end_element ev s =
     (if st_open s = [] then fail WellFormedness s
      else
        (let open_el = last (st_open s) in
         if oe_prefix open_el \<noteq> ee_prefix ev \<or> oe_local open_el \<noteq> ee_local ev then fail WellFormedness s
         else if oe_namespace open_el \<noteq> ee_namespace ev then fail Namespace_Error s
         else
           (let s' = s\<lparr>st_open := butlast (st_open s),
                       st_bindings := take (oe_bindings open_el) (st_bindings s)\<rparr>
            in ok () (if st_open s' = [] then s'\<lparr>st_phase := Epilog\<rparr> else s'))))"

definition characters :: "ustring \<Rightarrow> strict \<Rightarrow> unit result" where
  "characters text s =
     (if st_phase s \<noteq> Content \<and> find (\<lambda>c. \<not> is_whitespace c) text \<noteq> None then Inl WellFormedness
      else check_chars text)"

definition cdata :: "ustring \<Rightarrow> strict \<Rightarrow> unit result" where
  "cdata text s =
     (if st_phase s \<noteq> Content then Inl WellFormedness
      else if find_sub (lit '']]>'') text \<noteq> None then Inl WellFormedness
      else check_chars text)"

text \<open>The checks of \<open>doctype\<close> that follow the assignment of \<open>seen_doctype\<close>.\<close>

definition doctype_error :: "doctype_event \<Rightarrow> bool" where
  "doctype_error ev =
     (case de_name ev of
        None \<Rightarrow> True
      | Some name \<Rightarrow>
          if \<not> is_name name then True
          else if (case de_public_id ev of
                     None \<Rightarrow> False
                   | Some p \<Rightarrow> de_system_id ev = None \<or> find (\<lambda>c. \<not> is_pubid_char c) p \<noteq> None) then True
          else (case de_system_id ev of
                  None \<Rightarrow> False
                | Some sys \<Rightarrow> QUOT \<in> set sys \<and> APOS \<in> set sys \<or> first_non_char sys \<noteq> None))"

definition doctype :: "doctype_event \<Rightarrow> (unit, strict) effect" where
  "doctype ev s =
     (if st_phase s \<noteq> Prolog then fail WellFormedness s
      else if st_seen_doctype s then fail WellFormedness s
      else
        (let s' = s\<lparr>st_seen_doctype := True\<rparr>
         in if doctype_error ev then fail WellFormedness s' else ok () s'))"

definition start_document :: "(unit, strict) effect" where
  "start_document s =
     ok () (s\<lparr>st_phase := Prolog, st_seen_doctype := False, st_open := [], st_bindings := []\<rparr>)"

definition end_document :: "(unit, strict) effect" where
  "end_document s =
     (if st_open s \<noteq> [] then fail WellFormedness s
      else if st_phase s = Prolog then fail WellFormedness s
      else ok () (s\<lparr>st_phase := Outside\<rparr>))"

definition pure :: "unit result \<Rightarrow> (unit, 's) effect" where
  "pure r s = (r, s)"

definition check :: "event \<Rightarrow> (unit, strict) effect" where
  "check ev s =
     (if st_lexical_only s then pure (lexical_event ev) s
      else case ev of
        StartDocument \<Rightarrow> if st_phase s \<noteq> Outside then fail WellFormedness s else start_document s
      | _ \<Rightarrow>
          if st_phase s = Outside then fail WellFormedness s
          else
            and_then (pure (lexical_event ev))
              (\<lambda>_ s. case ev of
                 StartDocument \<Rightarrow> fail Internal s
               | EndDocument \<Rightarrow> end_document s
               | StartElement e \<Rightarrow> start_element e s
               | EndElement e \<Rightarrow> end_element e s
               | Characters text \<Rightarrow> pure (characters text s) s
               | Cdata text \<Rightarrow> pure (cdata text s) s
               | Comment text \<Rightarrow> pure (check_chars text) s
               | ProcessingInstruction e \<Rightarrow> pure (processing_instruction e) s
               | Doctype e \<Rightarrow> doctype e s)
            s)"

definition consume_strict :: "strict consume" where
  "consume_strict ev = and_then (check ev) (\<lambda>_. ok (Continue 0))"

definition finish_strict :: "strict finish" where
  "finish_strict outcome s = s\<lparr>st_phase := Outside\<rparr>"

end
