(* ===== verification/Strict_Grammar.thy ===== *)
theory Strict_Grammar
  imports Strict
begin

text \<open>
  The specification of the event validator: a grammar of event sequences with the namespace bindings
  in scope as a map from prefixes to namespaces. The lemmas reduce one step of the validator to the
  condition of the grammar on that event; the theorem states that the validator accepts exactly the
  sequences of documents the grammar generates.
\<close>

section \<open>Names in scope\<close>

type_synonym scope = "ustring option \<Rightarrow> ustring option"

definition in_scope :: "scope \<Rightarrow> scope" where
  "in_scope \<sigma> p = (if p = Some XML_PREFIX then Some xml_ns_uri else \<sigma> p)"

definition name_in :: "scope \<Rightarrow> ustring option \<Rightarrow> ustring option \<Rightarrow> bool" where
  "name_in \<sigma> prefix namespace \<longleftrightarrow> namespace = in_scope \<sigma> prefix \<and> (prefix \<noteq> None \<longrightarrow> namespace \<noteq> None)"

definition declarations :: "attribute list \<Rightarrow> (ustring option \<times> ustring option) list" where
  "declarations as = map (\<lambda>a. (declared_prefix a, declared_namespace a)) (filter declares_namespace as)"

definition rebound :: "scope \<Rightarrow> (ustring option \<times> ustring option) list \<Rightarrow> scope" where
  "rebound \<sigma> bs = foldl (\<lambda>\<sigma> (p, ns). \<sigma>(p := ns)) \<sigma> bs"

abbreviation no_scope :: scope where
  "no_scope \<equiv> \<lambda>_. None"

definition scope_of :: "strict \<Rightarrow> scope" where
  "scope_of s = rebound no_scope (st_bindings s)"

lemma rebound_append: "rebound \<sigma> (bs @ cs) = rebound (rebound \<sigma> bs) cs"
  by (simp add: rebound_def)

lemma innermost_binding:
  "(case find (\<lambda>(b, _). b = p) (rev bs) of None \<Rightarrow> None | Some (_, ns) \<Rightarrow> ns) = rebound no_scope bs p"
  by (induction bs rule: rev_induct) (auto simp: rebound_def)

lemma bound_eq: "bound s p = Inr ns \<longleftrightarrow> name_in (scope_of s) p ns"
  unfolding bound_def name_in_def in_scope_def scope_of_def innermost_binding
  by (auto simp: Let_def split: if_splits)

section \<open>The grammar\<close>

definition qname_ok :: "ustring option \<Rightarrow> ustring \<Rightarrow> bool" where
  "qname_ok prefix local \<longleftrightarrow> (\<forall>p. prefix = Some p \<longrightarrow> is_ncname p) \<and> is_ncname local"

definition attribute_ok :: "scope \<Rightarrow> attribute \<Rightarrow> bool" where
  "attribute_ok \<sigma> a \<longleftrightarrow>
     (if at_prefix a = None then at_namespace a = None else name_in \<sigma> (at_prefix a) (at_namespace a))
     \<and> (at_prefix a = Some XML_PREFIX \<and> at_local a = lit ''space'' \<longrightarrow>
         at_value a \<in> {lit ''default'', lit ''preserve''})"

definition start_ok :: "scope \<Rightarrow> start_element_event \<Rightarrow> bool" where
  "start_ok \<sigma> ev \<longleftrightarrow>
     (let as = se_attributes ev; \<sigma>' = rebound \<sigma> (declarations as) in
      qname_ok (se_prefix ev) (se_local ev)
      \<and> (\<forall>a\<in>set as. qname_ok (at_prefix a) (at_local a) \<and> list_all is_char (at_value a))
      \<and> distinct (map (\<lambda>a. (at_namespace a, at_local a)) as)
      \<and> (\<forall>a\<in>set as. declares_namespace a \<longrightarrow> \<not> bad_declaration (declared_prefix a) (at_value a))
      \<and> name_in \<sigma>' (se_prefix ev) (se_namespace ev)
      \<and> (\<forall>a\<in>set as. \<not> declares_namespace a \<longrightarrow> attribute_ok \<sigma>' a))"

definition closing :: "start_element_event \<Rightarrow> end_element_event" where
  "closing ev =
     \<lparr>ee_prefix = se_prefix ev, ee_local = se_local ev, ee_namespace = se_namespace ev\<rparr>"

definition comment_ok :: "ustring \<Rightarrow> bool" where
  "comment_ok text \<longleftrightarrow>
     find_sub (lit ''--'') text = None \<and> \<not> (text \<noteq> [] \<and> last text = cp CHR ''-'') \<and> list_all is_char text"

definition instruction_ok :: "processing_instruction_event \<Rightarrow> bool" where
  "instruction_ok ev \<longleftrightarrow>
     is_name (pe_target ev) \<and> to_ascii_lowercase (pe_target ev) \<noteq> XML_PREFIX
     \<and> find_sub (lit ''?>'') (pe_data ev) = None \<and> list_all is_char (pe_data ev)"

text \<open>What may stand inside an element beside elements, and what may stand outside the root.\<close>

fun leaf_ok :: "event \<Rightarrow> bool" where
  "leaf_ok (Characters text) \<longleftrightarrow> list_all is_char text"
| "leaf_ok (Cdata text) \<longleftrightarrow> find_sub (lit '']]>'') text = None \<and> list_all is_char text"
| "leaf_ok (Comment text) \<longleftrightarrow> comment_ok text"
| "leaf_ok (ProcessingInstruction ev) \<longleftrightarrow> instruction_ok ev"
| "leaf_ok _ \<longleftrightarrow> False"

fun misc_ok :: "event \<Rightarrow> bool" where
  "misc_ok (Characters text) \<longleftrightarrow> list_all is_whitespace text"
| "misc_ok (Comment text) \<longleftrightarrow> comment_ok text"
| "misc_ok (ProcessingInstruction ev) \<longleftrightarrow> instruction_ok ev"
| "misc_ok _ \<longleftrightarrow> False"

inductive content :: "scope \<Rightarrow> event list \<Rightarrow> bool" where
  Nothing: "content \<sigma> []"
| Leaf: "leaf_ok e \<Longrightarrow> content \<sigma> es \<Longrightarrow> content \<sigma> (e # es)"
| Element: "start_ok \<sigma> ev \<Longrightarrow> content (rebound \<sigma> (declarations (se_attributes ev))) inner \<Longrightarrow>
     content \<sigma> es \<Longrightarrow> content \<sigma> (StartElement ev # inner @ EndElement (closing ev) # es)"

fun is_doctype :: "event \<Rightarrow> bool" where
  "is_doctype (Doctype ev) = True"
| "is_doctype _ = False"

fun prolog_ok :: "event \<Rightarrow> bool" where
  "prolog_ok (Doctype ev) \<longleftrightarrow> \<not> doctype_error ev"
| "prolog_ok e \<longleftrightarrow> misc_ok e"

definition prolog :: "event list \<Rightarrow> bool" where
  "prolog es \<longleftrightarrow> list_all prolog_ok es \<and> length (filter is_doctype es) \<le> 1"

inductive document :: "event list \<Rightarrow> bool" where
  "prolog before \<Longrightarrow> start_ok no_scope root \<Longrightarrow>
   content (rebound no_scope (declarations (se_attributes root))) inner \<Longrightarrow> list_all misc_ok after \<Longrightarrow>
   document (before @ StartElement root # inner @ EndElement (closing root) # after)"

inductive documents :: "event list \<Rightarrow> bool" where
  None: "documents []"
| One_more: "document d \<Longrightarrow> documents es \<Longrightarrow> documents (StartDocument # d @ EndDocument # es)"

section \<open>The checks of one event\<close>

lemma check_chars_iff [simp]: "check_chars text = Inr () \<longleftrightarrow> list_all is_char text"
  by (auto simp: check_chars_def first_non_char_def list_all_iff find_None_iff find_Some_iff
      split: option.splits)

lemma first_non_char_None [simp]: "first_non_char text = None \<longleftrightarrow> list_all is_char text"
  by (auto simp: first_non_char_def list_all_iff find_None_iff)

lemma check_name_eq: "check_name p l = (if qname_ok p l then Inr () else Inl Namespace_Error)"
  by (auto simp: check_name_def qname_ok_def split: option.splits)

lemma lexical_attributes_iff:
  "lexical_attributes before as = Inr () \<longleftrightarrow>
     (\<forall>a\<in>set as. qname_ok (at_prefix a) (at_local a))
     \<and> distinct (map (\<lambda>a. (at_namespace a, at_local a)) as)
     \<and> (\<forall>a\<in>set as. \<forall>b\<in>set before. (at_namespace b, at_local b) \<noteq> (at_namespace a, at_local a))"
proof (induction before as rule: lexical_attributes.induct)
  case (2 before a as)
  show ?case
  proof (cases "qname_ok (at_prefix a) (at_local a) \<and>
      find (\<lambda>b. at_namespace b = at_namespace a \<and> at_local b = at_local a) before = None")
    case True
    then have "lexical_attributes before (a # as) = lexical_attributes (before @ [a]) as"
      by (simp add: check_name_eq)
    then show ?thesis using 2 True by (fastforce simp: find_None_iff check_name_eq)
  qed (auto simp: find_None_iff check_name_eq)
qed simp

lemma lexical_start_element_iff:
  "lexical_start_element ev = Inr () \<longleftrightarrow>
     qname_ok (se_prefix ev) (se_local ev) \<and>
     (\<forall>a\<in>set (se_attributes ev). qname_ok (at_prefix a) (at_local a)) \<and>
     distinct (map (\<lambda>a. (at_namespace a, at_local a)) (se_attributes ev))"
  by (simp add: lexical_start_element_def check_name_eq lexical_attributes_iff)

lemma bind_declarations_iff:
  "bind_declarations as s = (Inr (), s') \<longleftrightarrow>
     (\<forall>a\<in>set as. list_all is_char (at_value a)) \<and>
     (\<forall>a\<in>set as. declares_namespace a \<longrightarrow> \<not> bad_declaration (declared_prefix a) (at_value a)) \<and>
     s' = s\<lparr>st_bindings := st_bindings s @ declarations as\<rparr>"
proof (induction as arbitrary: s)
  case (Cons a as)
  show ?case
    by (simp add: Cons declarations_def)
qed (auto simp: declarations_def)

lemma check_attribute_iff:
  "check_attribute s a = Inr () \<longleftrightarrow> attribute_ok (scope_of s) a"
proof (cases "at_prefix a")
  case None
  then show ?thesis by (auto simp: check_attribute_def attribute_ok_def)
next
  case (Some p)
  then show ?thesis
    using bound_eq [of s "at_prefix a" "at_namespace a"]
    by (cases "bound s (at_prefix a)")
       (auto simp: check_attribute_def attribute_ok_def simp flip: bound_eq)
qed

lemma check_attributes_iff:
  "check_attributes s as = Inr () \<longleftrightarrow>
     (\<forall>a\<in>set as. \<not> declares_namespace a \<longrightarrow> attribute_ok (scope_of s) a)"
proof (induction as)
  case (Cons a as)
  then show ?case
    using check_attribute_iff [of s a] by (cases "check_attribute s a") auto
qed simp

section \<open>One step of the validator\<close>

definition at_content :: "strict \<Rightarrow> bool" where
  "at_content s \<longleftrightarrow> \<not> st_lexical_only s \<and> st_phase s = Content \<and> st_open s \<noteq> []"

definition opened :: "start_element_event \<Rightarrow> strict \<Rightarrow> strict" where
  "opened ev s =
     s\<lparr>st_phase := Content,
       st_open := st_open s @
         [\<lparr>oe_prefix = se_prefix ev, oe_local = se_local ev, oe_namespace = se_namespace ev,
           oe_bindings = length (st_bindings s)\<rparr>],
       st_bindings := st_bindings s @ declarations (se_attributes ev)\<rparr>"

definition closed :: "strict \<Rightarrow> strict" where
  "closed s =
     s\<lparr>st_phase := (if butlast (st_open s) = [] then Epilog else st_phase s),
       st_open := butlast (st_open s),
       st_bindings := take (oe_bindings (last (st_open s))) (st_bindings s)\<rparr>"

definition closes :: "strict \<Rightarrow> end_element_event" where
  "closes s =
     (let e = last (st_open s)
      in \<lparr>ee_prefix = oe_prefix e, ee_local = oe_local e, ee_namespace = oe_namespace e\<rparr>)"

lemma scope_opened: "scope_of (opened ev s) = rebound (scope_of s) (declarations (se_attributes ev))"
  by (simp add: scope_of_def opened_def rebound_append)

lemma closed_opened:
  "closed (opened ev s) = s\<lparr>st_phase := (if st_open s = [] then Epilog else Content)\<rparr>"
  by (simp add: closed_def opened_def)

lemma closes_opened: "closes (opened ev s) = closing ev"
  by (simp add: closes_def opened_def closing_def Let_def)

lemma at_content_opened: "\<not> st_lexical_only s \<Longrightarrow> at_content (opened ev s)"
  by (simp add: at_content_def opened_def)

lemma closed_opened_content: "at_content s \<Longrightarrow> closed (opened ev s) = s"
  by (simp add: closed_opened at_content_def)

lemma pure_iff [simp]: "pure r s = (Inr (), s') \<longleftrightarrow> r = Inr () \<and> s' = s"
  by (auto simp: pure_def)

lemma pure_then:
  "and_then (pure r) g s = (Inr (), s') \<longleftrightarrow> r = Inr () \<and> g () s = (Inr (), s')"
  by (auto simp: and_then_eq_Inr)

lemma start_element_iff:
  assumes "st_phase s \<in> {Prolog, Content}"
  shows "lexical_start_element ev = Inr () \<and> start_element ev s = (Inr (), s') \<longleftrightarrow>
     start_ok (scope_of s) ev \<and> s' = opened ev s"
proof -
  let ?s0 = "s\<lparr>st_phase := Content\<rparr>"
  let ?s1 = "?s0\<lparr>st_bindings := st_bindings s @ declarations (se_attributes ev)\<rparr>"
  have phase: "enter_phase s = (Inr (), ?s0)"
    using assms by (auto simp: enter_phase_def)
  have sc: "scope_of ?s1 = rebound (scope_of s) (declarations (se_attributes ev))"
    by (simp add: scope_of_def rebound_append)
  have b: "bound ?s1 (se_prefix ev) = Inr ns \<longleftrightarrow>
      name_in (rebound (scope_of s) (declarations (se_attributes ev))) (se_prefix ev) ns" for ns
    by (simp add: bound_eq sc)
  have "start_element ev s = (Inr (), s') \<longleftrightarrow>
      (\<forall>a\<in>set (se_attributes ev). list_all is_char (at_value a)) \<and>
      (\<forall>a\<in>set (se_attributes ev). declares_namespace a \<longrightarrow>
        \<not> bad_declaration (declared_prefix a) (at_value a)) \<and>
      bound ?s1 (se_prefix ev) = Inr (se_namespace ev) \<and>
      check_attributes ?s1 (se_attributes ev) = Inr () \<and> s' = opened ev s"
    by (auto simp: start_element_def phase and_then_eq_Inr bind_declarations_iff opened_def
        split: sum.splits if_splits)
  then show ?thesis
    unfolding b check_attributes_iff sc lexical_start_element_iff start_ok_def Let_def by blast
qed

text \<open>Inside an element.\<close>

lemma check_leaf:
  assumes "at_content s" "\<not> is_doctype e"
    "\<forall>ev. e \<noteq> StartElement ev" "\<forall>ev. e \<noteq> EndElement ev" "e \<noteq> StartDocument" "e \<noteq> EndDocument"
  shows "check e s = (Inr (), s') \<longleftrightarrow> leaf_ok e \<and> s' = s"
  using assms
  by (cases e)
     (auto simp: at_content_def check_def pure_then characters_def cdata_def lexical_comment_def
       comment_ok_def lexical_target_def processing_instruction_def instruction_ok_def)

lemma check_start:
  assumes "\<not> st_lexical_only s" "st_phase s \<in> {Prolog, Content}"
  shows "check (StartElement ev) s = (Inr (), s') \<longleftrightarrow> start_ok (scope_of s) ev \<and> s' = opened ev s"
  using assms start_element_iff [OF assms(2), of ev s'] by (auto simp: check_def pure_then)

lemma check_end:
  assumes "at_content s"
  shows "check (EndElement ev) s = (Inr (), s') \<longleftrightarrow>
     qname_ok (ee_prefix ev) (ee_local ev) \<and> ev = closes s \<and> s' = closed s"
  using assms
  by (cases ev)
     (auto simp: at_content_def check_def pure_then check_name_eq end_element_def closes_def closed_def
       Let_def)

lemma check_stray:
  assumes "at_content s"
  shows "check StartDocument s \<noteq> (Inr (), s')" "check EndDocument s \<noteq> (Inr (), s')"
    "check (Doctype d) s \<noteq> (Inr (), s')"
  using assms by (auto simp: at_content_def check_def end_document_def doctype_def pure_then)

section \<open>Runs\<close>

definition accepts :: "strict \<Rightarrow> event list \<Rightarrow> bool" where
  "accepts s es \<longleftrightarrow> (\<exists>s'. each check es s = (Inr (), s') \<and> st_phase s' = Outside)"

lemma accepts_Nil: "accepts s [] \<longleftrightarrow> st_phase s = Outside"
  by (simp add: accepts_def)

lemma accepts_Cons: "accepts s (e # es) \<longleftrightarrow> (\<exists>s'. check e s = (Inr (), s') \<and> accepts s' es)"
  by (auto simp: accepts_def each_Cons_Inr simp del: each.simps)

lemma accepts_append:
  "each check es s = (Inr (), s') \<Longrightarrow> accepts s (es @ es') \<longleftrightarrow> accepts s' es'"
  by (auto simp: accepts_def each_append_Inr)

text \<open>The content of the grammar leaves the validator as it was.\<close>

lemma run_content:
  "content \<sigma> es \<Longrightarrow> at_content s \<Longrightarrow> scope_of s = \<sigma> \<Longrightarrow> each check es s = (Inr (), s)"
proof (induction arbitrary: s rule: content.induct)
  case (Leaf e \<sigma> es)
  have "check e s = (Inr (), s)"
    using Leaf.hyps(1) Leaf.prems(1) by (subst check_leaf) (cases e; simp)+
  with Leaf show ?case by simp
next
  case (Element \<sigma> ev inner es)
  have s: "\<not> st_lexical_only s" "st_phase s \<in> {Prolog, Content}"
    using Element.prems by (auto simp: at_content_def)
  have 1: "check (StartElement ev) s = (Inr (), opened ev s)"
    using check_start [OF s] Element.hyps(1) Element.prems(2) by simp
  have 2: "each check inner (opened ev s) = (Inr (), opened ev s)"
    using Element.IH(1) [of "opened ev s"] at_content_opened [OF s(1)] Element.prems(2) scope_opened
    by simp
  have 3: "check (EndElement (closing ev)) (opened ev s) = (Inr (), s)"
    using check_end [OF at_content_opened [OF s(1), of ev]] closed_opened_content [OF Element.prems(1)]
      closes_opened Element.hyps(1)
    by (simp add: start_ok_def Let_def closing_def)
  show ?case
    using 1 2 3 Element.IH(2) [OF Element.prems] by (simp add: each_append)
qed simp

text \<open>From inside an element, an accepted run first reaches the end of the element.\<close>

lemma accepted_content:
  "at_content s \<Longrightarrow> accepts s es \<Longrightarrow>
     \<exists>inner rest. es = inner @ EndElement (closes s) # rest \<and> content (scope_of s) inner \<and>
       accepts (closed s) rest"
proof (induction es arbitrary: s rule: length_induct)
  case (1 es)
  note at = 1(2)
  obtain e rest where es: "es = e # rest"
    using 1(2,3) by (cases es) (auto simp: accepts_Nil at_content_def)
  obtain s1 where s1: "check e s = (Inr (), s1)" "accepts s1 rest"
    using 1(3) unfolding es accepts_Cons by blast
  consider (start) ev where "e = StartElement ev" | (fin) ev where "e = EndElement ev"
    | (leaf) "leaf_ok e" "s1 = s"
    using check_leaf [OF at, of e s1] check_stray [OF at, where s' = s1] s1(1)
    by (cases e) auto
  then show ?case
  proof cases
    case start
    have s: "\<not> st_lexical_only s" "st_phase s \<in> {Prolog, Content}" using at by (auto simp: at_content_def)
    have ev: "start_ok (scope_of s) ev" "s1 = opened ev s"
      using check_start [OF s] s1(1) start by auto
    have len: "length rest < length es" by (simp add: es)
    obtain inner rest' where 2: "rest = inner @ EndElement (closing ev) # rest'"
        "content (rebound (scope_of s) (declarations (se_attributes ev))) inner" "accepts s rest'"
      using 1(1) [rule_format, OF len, of s1] s1(2) at_content_opened [OF s(1), of ev]
      unfolding ev(2) closes_opened scope_opened closed_opened_content [OF at] by blast
    have len': "length rest' < length es" by (simp add: es 2)
    obtain inner' rest'' where 3: "rest' = inner' @ EndElement (closes s) # rest''"
        "content (scope_of s) inner'" "accepts (closed s) rest''"
      using 1(1) [rule_format, OF len' at 2(3)] by blast
    have "content (scope_of s) (StartElement ev # inner @ EndElement (closing ev) # inner')"
      by (rule content.Element [OF ev(1) 2(2) 3(2)])
    moreover have "es = (StartElement ev # inner @ EndElement (closing ev) # inner') @
        EndElement (closes s) # rest''"
      by (simp add: es start 2 3)
    ultimately show ?thesis using 3(3) by blast
  next
    case fin
    then have "ev = closes s" "s1 = closed s" using check_end [OF at, of ev s1] s1(1) by simp_all
    then show ?thesis using es fin s1(2) content.Nothing
      by (metis append_Nil)
  next
    case leaf
    have len: "length rest < length es" by (simp add: es)
    obtain inner rest' where 2: "rest = inner @ EndElement (closes s) # rest'"
        "content (scope_of s) inner" "accepts (closed s) rest'"
      using 1(1) [rule_format, OF len at] s1(2) leaf(2) by blast
    have "content (scope_of s) (e # inner)" by (rule content.Leaf [OF leaf(1) 2(2)])
    then show ?thesis using es 2 by (metis append_Cons)
  qed
qed

section \<open>The whole document\<close>

definition at_epilog :: "strict \<Rightarrow> bool" where
  "at_epilog s \<longleftrightarrow> \<not> st_lexical_only s \<and> st_phase s = Epilog \<and> st_open s = []"

definition at_prolog :: "strict \<Rightarrow> bool" where
  "at_prolog s \<longleftrightarrow> \<not> st_lexical_only s \<and> st_phase s = Prolog \<and> st_open s = [] \<and> st_bindings s = []"

definition at_rest :: "strict \<Rightarrow> bool" where
  "at_rest s \<longleftrightarrow> \<not> st_lexical_only s \<and> st_phase s = Outside"

lemma whitespace_chars: "list_all is_whitespace text \<Longrightarrow> list_all is_char text"
  by (auto simp: list_all_iff whitespace_is_char)

lemma check_misc:
  assumes "\<not> st_lexical_only s" "st_phase s \<in> {Prolog, Epilog}"
    "\<not> is_doctype e" "\<forall>ev. e \<noteq> StartElement ev" "\<forall>ev. e \<noteq> EndElement ev" "e \<noteq> StartDocument"
    "e \<noteq> EndDocument"
  shows "check e s = (Inr (), s') \<longleftrightarrow> misc_ok e \<and> s' = s"
  using assms
  by (cases e)
     (auto simp: check_def pure_then characters_def cdata_def lexical_comment_def comment_ok_def
       lexical_target_def processing_instruction_def instruction_ok_def list_all_iff find_None_iff
       whitespace_is_char)

lemma run_misc:
  "list_all misc_ok es \<Longrightarrow> \<not> st_lexical_only s \<Longrightarrow> st_phase s \<in> {Prolog, Epilog} \<Longrightarrow>
     each check es s = (Inr (), s)"
proof (induction es)
  case (Cons e es)
  have "check e s = (Inr (), s)"
    using Cons.prems by (subst check_misc) (cases e; simp)+
  with Cons show ?case by simp
qed simp

lemma check_epilog:
  assumes "at_epilog s"
  shows "check e s = (Inr (), s') \<longleftrightarrow>
     misc_ok e \<and> s' = s \<or> e = EndDocument \<and> s' = s\<lparr>st_phase := Outside\<rparr>"
proof (cases "(\<exists>ev. e = StartElement ev) \<or> (\<exists>ev. e = EndElement ev) \<or> e = StartDocument \<or>
    e = EndDocument \<or> is_doctype e")
  case True
  then show ?thesis
    using assms
    by (cases e)
       (auto simp: at_epilog_def check_def pure_then end_document_def doctype_def end_element_def
         start_element_def enter_phase_def)
next
  case False
  then show ?thesis using assms by (subst check_misc) (auto simp: at_epilog_def)
qed

lemma accepted_epilog:
  "at_epilog s \<Longrightarrow> accepts s es \<Longrightarrow>
     \<exists>after rest. es = after @ EndDocument # rest \<and> list_all misc_ok after \<and>
       accepts (s\<lparr>st_phase := Outside\<rparr>) rest"
proof (induction es)
  case Nil
  then show ?case by (simp add: accepts_Nil at_epilog_def)
next
  case (Cons e es)
  obtain s1 where s1: "check e s = (Inr (), s1)" "accepts s1 es"
    using Cons.prems(2) unfolding accepts_Cons by blast
  consider "misc_ok e" "s1 = s" | "e = EndDocument" "s1 = s\<lparr>st_phase := Outside\<rparr>"
    using s1(1) check_epilog [OF Cons.prems(1)] by blast
  then show ?case
  proof cases
    case 1
    then obtain after rest where "es = after @ EndDocument # rest" "list_all misc_ok after"
        "accepts (s\<lparr>st_phase := Outside\<rparr>) rest"
      using Cons.IH Cons.prems(1) s1(2) by blast
    with 1 show ?thesis by (intro exI [of _ "e # after"] exI [of _ rest]) auto
  next
    case 2
    with s1(2) show ?thesis by (intro exI [of _ "[]"] exI [of _ es]) auto
  qed
qed

lemma check_prolog:
  assumes "at_prolog s" "\<forall>ev. e \<noteq> StartElement ev"
  shows "check e s = (Inr (), s') \<longleftrightarrow>
     prolog_ok e \<and> (is_doctype e \<longrightarrow> \<not> st_seen_doctype s) \<and>
     s' = s\<lparr>st_seen_doctype := st_seen_doctype s \<or> is_doctype e\<rparr>"
proof (cases "(\<exists>ev. e = EndElement ev) \<or> e = StartDocument \<or> e = EndDocument \<or> is_doctype e")
  case True
  then show ?thesis
    using assms
    by (cases e)
       (auto simp: at_prolog_def check_def pure_then end_document_def doctype_def end_element_def
         start_element_def enter_phase_def Let_def split: if_splits)
next
  case False
  then have m: "prolog_ok e \<longleftrightarrow> misc_ok e" by (cases e) auto
  have "check e s = (Inr (), s') \<longleftrightarrow> misc_ok e \<and> s' = s"
    using False assms by (subst check_misc) (auto simp: at_prolog_def)
  with False m show ?thesis by simp
qed

lemma at_prolog_step: "at_prolog s \<Longrightarrow> at_prolog (s\<lparr>st_seen_doctype := b\<rparr>)"
  by (simp add: at_prolog_def)

lemma run_prolog:
  "list_all prolog_ok es \<Longrightarrow> at_prolog s \<Longrightarrow>
     length (filter is_doctype es) \<le> (if st_seen_doctype s then 0 else 1) \<Longrightarrow>
     each check es s = (Inr (), s\<lparr>st_seen_doctype := st_seen_doctype s \<or> list_ex is_doctype es\<rparr>)"
proof (induction es arbitrary: s)
  case (Cons e es)
  let ?s = "s\<lparr>st_seen_doctype := st_seen_doctype s \<or> is_doctype e\<rparr>"
  have "check e s = (Inr (), ?s)"
    using Cons.prems by (subst check_prolog) (cases e; auto split: if_splits)+
  moreover have "each check es ?s =
      (Inr (), ?s\<lparr>st_seen_doctype := st_seen_doctype ?s \<or> list_ex is_doctype es\<rparr>)"
    using Cons.prems by (intro Cons.IH at_prolog_step) (auto split: if_splits)
  ultimately show ?case by (simp add: disj_assoc)
qed simp

lemma accepted_prolog:
  "at_prolog s \<Longrightarrow> accepts s es \<Longrightarrow>
     \<exists>before root rest b. es = before @ StartElement root # rest \<and> list_all prolog_ok before \<and>
       length (filter is_doctype before) \<le> (if st_seen_doctype s then 0 else 1) \<and>
       start_ok no_scope root \<and> accepts (opened root (s\<lparr>st_seen_doctype := b\<rparr>)) rest"
proof (induction es arbitrary: s)
  case Nil
  then show ?case by (simp add: accepts_Nil at_prolog_def)
next
  case (Cons e es)
  obtain s1 where s1: "check e s = (Inr (), s1)" "accepts s1 es"
    using Cons.prems(2) unfolding accepts_Cons by blast
  show ?case
  proof (cases "\<exists>root. e = StartElement root")
    case True
    then obtain root where root: "e = StartElement root" by blast
    have "start_ok (scope_of s) root" "s1 = opened root s"
      using s1(1) check_start [of s root s1] Cons.prems(1) unfolding root at_prolog_def by auto
    moreover have "scope_of s = no_scope"
      using Cons.prems(1) by (simp add: at_prolog_def scope_of_def rebound_def)
    moreover have "s\<lparr>st_seen_doctype := st_seen_doctype s\<rparr> = s" by simp
    ultimately show ?thesis using root s1(2)
      by (intro exI [of _ "[]"] exI [of _ root] exI [of _ es] exI [of _ "st_seen_doctype s"]) auto
  next
    case False
    then have st: "prolog_ok e" "is_doctype e \<longrightarrow> \<not> st_seen_doctype s"
        "s1 = s\<lparr>st_seen_doctype := st_seen_doctype s \<or> is_doctype e\<rparr>"
      using s1(1) check_prolog [OF Cons.prems(1), of e s1] by auto
    then obtain before root rest b where i: "es = before @ StartElement root # rest"
        "list_all prolog_ok before"
        "length (filter is_doctype before) \<le> (if st_seen_doctype s1 then 0 else 1)"
        "start_ok no_scope root" "accepts (opened root (s1\<lparr>st_seen_doctype := b\<rparr>)) rest"
      using Cons.IH [of s1] Cons.prems(1) s1(2) at_prolog_step [of s] by blast
    have "s1\<lparr>st_seen_doctype := b\<rparr> = s\<lparr>st_seen_doctype := b\<rparr>" using st(3) by simp
    with i st show ?thesis
      by (intro exI [of _ "e # before"] exI [of _ root] exI [of _ rest] exI [of _ b])
         (auto split: if_splits)
  qed
qed

lemma accepted_documents:
  "at_rest s \<Longrightarrow> accepts s es \<Longrightarrow> documents es"
proof (induction es arbitrary: s rule: length_induct)
  case (1 es)
  show ?case
  proof (cases es)
    case Nil
    then show ?thesis by (simp add: documents.None)
  next
    case (Cons e es')
    let ?s0 = "s\<lparr>st_phase := Prolog, st_seen_doctype := False, st_open := [], st_bindings := []\<rparr>"
    obtain s1 where s1: "check e s = (Inr (), s1)" "accepts s1 es'"
      using 1(3) unfolding Cons accepts_Cons by blast
    then have e: "e = StartDocument" "s1 = ?s0"
      using 1(2) by (cases e; auto simp: at_rest_def check_def start_document_def)+
    have p: "at_prolog ?s0" "\<not> st_lexical_only ?s0"
      using 1(2) by (simp_all add: at_prolog_def at_rest_def)
    obtain before root rest b where r: "es' = before @ StartElement root # rest" "prolog before"
        "start_ok no_scope root" "accepts (opened root (?s0\<lparr>st_seen_doctype := b\<rparr>)) rest"
      using accepted_prolog [OF p(1) s1(2) [unfolded e]] by (auto simp: prolog_def)
    let ?s1 = "?s0\<lparr>st_seen_doctype := b\<rparr>"
    have sc: "scope_of (opened root ?s1) = rebound no_scope (declarations (se_attributes root))"
      by (simp add: scope_opened) (simp add: scope_of_def rebound_def)
    obtain inner rest' where i: "rest = inner @ EndElement (closing root) # rest'"
        "content (rebound no_scope (declarations (se_attributes root))) inner"
        "accepts (closed (opened root ?s1)) rest'"
      using accepted_content [OF at_content_opened r(4)] p(2) unfolding sc closes_opened by auto
    have ep: "at_epilog (closed (opened root ?s1))"
      using p(2) by (simp add: closed_opened at_epilog_def)
    obtain after rest'' where a: "rest' = after @ EndDocument # rest''" "list_all misc_ok after"
        "accepts ((closed (opened root ?s1))\<lparr>st_phase := Outside\<rparr>) rest''"
      using accepted_epilog [OF ep i(3)] by blast
    have len: "length rest'' < length es" by (simp add: Cons r(1) i(1) a(1))
    have "at_rest ((closed (opened root ?s1))\<lparr>st_phase := Outside\<rparr>)"
      using ep by (simp add: at_rest_def at_epilog_def)
    then have "documents rest''" using 1(1) [rule_format, OF len] a(3) by blast
    moreover have "document (before @ StartElement root # inner @ EndElement (closing root) # after)"
      by (rule document.intros [OF r(2,3) i(2) a(2)])
    ultimately show ?thesis
      using documents.One_more Cons e(1) r(1) i(1) a(1) by fastforce
  qed
qed

lemma run_document:
  assumes "document d" "at_rest s"
  obtains s' where "each check (StartDocument # d @ [EndDocument]) s = (Inr (), s')" "at_rest s'"
  using assms(1)
proof cases
  case (1 before root inner after)
  let ?s0 = "s\<lparr>st_phase := Prolog, st_seen_doctype := False, st_open := [], st_bindings := []\<rparr>"
  let ?s1 = "?s0\<lparr>st_seen_doctype := list_ex is_doctype before\<rparr>"
  have lex: "\<not> st_lexical_only s" using assms(2) by (simp add: at_rest_def)
  have sc: "scope_of ?s1 = no_scope" by (simp add: scope_of_def rebound_def)
  have 0: "check StartDocument s = (Inr (), ?s0)"
    using assms(2) by (simp add: at_rest_def check_def start_document_def)
  have p: "at_prolog ?s0" using lex by (simp add: at_prolog_def)
  have 2: "each check before ?s0 = (Inr (), ?s1)"
    using run_prolog [OF _ p] 1(2) by (simp add: prolog_def)
  have 3: "check (StartElement root) ?s1 = (Inr (), opened root ?s1)"
    using check_start [of ?s1 root] lex 1(3) sc by simp
  have c: "at_content (opened root ?s1)" using at_content_opened [of ?s1 root] lex by simp
  have 4: "each check inner (opened root ?s1) = (Inr (), opened root ?s1)"
    using run_content [OF 1(4) c] scope_opened [of root ?s1] sc by simp
  have 5: "check (EndElement (closing root)) (opened root ?s1) = (Inr (), closed (opened root ?s1))"
    using check_end [OF c] closes_opened [of root ?s1] 1(3)
    by (simp add: start_ok_def Let_def closing_def)
  have e: "at_epilog (closed (opened root ?s1))"
    using lex by (simp add: closed_opened at_epilog_def)
  have 6: "each check after (closed (opened root ?s1)) = (Inr (), closed (opened root ?s1))"
    using run_misc [OF 1(5)] e by (simp add: at_epilog_def)
  let ?s' = "(closed (opened root ?s1))\<lparr>st_phase := Outside\<rparr>"
  have 7: "check EndDocument (closed (opened root ?s1)) = (Inr (), ?s')"
    using check_epilog [OF e] by simp
  have "each check (StartDocument # d @ [EndDocument]) s = (Inr (), ?s')"
    unfolding 1(1) using 0 2 3 4 5 6 7 by (simp add: each_append)
  moreover have "at_rest ?s'" using e by (simp add: at_rest_def at_epilog_def)
  ultimately show ?thesis by (rule that)
qed

lemma run_documents: "documents es \<Longrightarrow> at_rest s \<Longrightarrow> accepts s es"
proof (induction arbitrary: s rule: documents.induct)
  case None
  then show ?case by (simp add: accepts_Nil at_rest_def)
next
  case (One_more d es)
  obtain s' where s': "each check (StartDocument # d @ [EndDocument]) s = (Inr (), s')" "at_rest s'"
    using run_document [OF One_more.hyps(1) One_more.prems] by blast
  show ?case using accepts_append [OF s'(1), of es] One_more.IH [OF s'(2)] by simp
qed

text \<open>
  C2. The event validator accepts exactly the well-formed documents: started after any earlier run, it
  lets a sequence of events through and ends outside a document if and only if the sequence is a
  sequence of documents of the grammar - a prolog with at most one document type declaration, one root
  element whose tags nest and match with every prefix bound to the namespace it is reported in, and
  only comments, instructions and white space after it.
\<close>

theorem strict_accepts_iff:
  "accepts (finish_strict outcome (s\<lparr>st_lexical_only := False\<rparr>)) es \<longleftrightarrow> documents es"
  using accepted_documents [of "finish_strict outcome (s\<lparr>st_lexical_only := False\<rparr>)" es]
    run_documents [of es "finish_strict outcome (s\<lparr>st_lexical_only := False\<rparr>)"]
  by (auto simp: at_rest_def finish_strict_def)

end
