(* ===== verification/Writer_Output.thy ===== *)
theory Writer_Output
  imports Writer Strict_Grammar
begin

text \<open>
  What the writer writes: the text of a sequence of events as a function of the events, and the theorem
  that the writer, given the documents of the grammar, writes that text in its encoding or is refused
  by the encoder.
\<close>

section \<open>The text of events\<close>

definition quoted :: "ustring \<Rightarrow> ustring" where
  "quoted s = [QUOT] @ s @ [QUOT]"

definition attribute_text :: "encoder_id \<Rightarrow> attribute \<Rightarrow> ustring" where
  "attribute_text e a =
     lit '' '' @ lexical (at_prefix a) (at_local a) @ lit ''='' @
     quoted (referenced e (push_attribute [] (at_value a)))"

definition start_text :: "encoder_id \<Rightarrow> start_element_event \<Rightarrow> ustring" where
  "start_text e ev =
     [LT] @ lexical (se_prefix ev) (se_local ev) @ concat (map (attribute_text e) (se_attributes ev))"

definition end_text :: "end_element_event \<Rightarrow> ustring" where
  "end_text ev = lit ''</'' @ lexical (ee_prefix ev) (ee_local ev) @ [GT]"

definition comment_text :: "ustring \<Rightarrow> ustring" where
  "comment_text txt = lit ''<!--'' @ txt @ lit ''-->''"

definition instruction_text :: "processing_instruction_event \<Rightarrow> ustring" where
  "instruction_text ev =
     lit ''<?'' @ pe_target ev @ (if pe_data ev = [] then [] else lit '' '' @ pe_data ev) @ lit ''?>''"

definition external_id_text :: "doctype_event \<Rightarrow> ustring" where
  "external_id_text ev =
     (case (de_public_id ev, de_system_id ev) of
        (Some public, Some system) \<Rightarrow> lit '' PUBLIC '' @ quoted public @ lit '' '' @ quoted system
      | (None, Some system) \<Rightarrow> lit '' SYSTEM '' @ quoted system
      | _ \<Rightarrow> [])"

definition doctype_text :: "doctype_event \<Rightarrow> ustring" where
  "doctype_text ev =
     (case de_name ev of
        None \<Rightarrow> []
      | Some name \<Rightarrow> lit ''<!DOCTYPE '' @ name @ external_id_text ev @ [GT])"

text \<open>An element without content is an empty-element tag. \<open>decl\<close> is the XML declaration.\<close>

fun xml_text :: "encoder_id \<Rightarrow> ustring \<Rightarrow> event list \<Rightarrow> ustring" where
  "xml_text e decl [] = []"
| "xml_text e decl (StartElement ev # EndElement _ # es) = start_text e ev @ lit ''/>'' @ xml_text e decl es"
| "xml_text e decl (StartElement ev # es) = start_text e ev @ [GT] @ xml_text e decl es"
| "xml_text e decl (EndElement ev # es) = end_text ev @ xml_text e decl es"
| "xml_text e decl (Characters txt # es) = referenced e (push_text [] txt) @ xml_text e decl es"
| "xml_text e decl (Cdata txt # es) = push_cdata [] txt @ xml_text e decl es"
| "xml_text e decl (Comment txt # es) = comment_text txt @ xml_text e decl es"
| "xml_text e decl (ProcessingInstruction ev # es) = instruction_text ev @ xml_text e decl es"
| "xml_text e decl (Doctype ev # es) = doctype_text ev @ xml_text e decl es"
| "xml_text e decl (StartDocument # es) = decl @ xml_text e decl es"
| "xml_text e decl (EndDocument # es) = xml_text e decl es"

text \<open>What has to be written without references can be written.\<close>

fun event_writable :: "encoder_id \<Rightarrow> ustring \<Rightarrow> event \<Rightarrow> bool" where
  "event_writable e decl (StartElement ev) \<longleftrightarrow>
     list_all (writable e) (lexical (se_prefix ev) (se_local ev)) \<and>
     (\<forall>a\<in>set (se_attributes ev). list_all (writable e) (lexical (at_prefix a) (at_local a)))"
| "event_writable e decl (EndElement ev) \<longleftrightarrow> list_all (writable e) (lexical (ee_prefix ev) (ee_local ev))"
| "event_writable e decl (Cdata txt) \<longleftrightarrow> list_all (writable e) txt"
| "event_writable e decl (Comment txt) \<longleftrightarrow> list_all (writable e) txt"
| "event_writable e decl (ProcessingInstruction ev) \<longleftrightarrow>
     list_all (writable e) (pe_target ev) \<and> list_all (writable e) (pe_data ev)"
| "event_writable e decl (Doctype ev) \<longleftrightarrow> list_all (writable e) (doctype_text ev)"
| "event_writable e decl StartDocument \<longleftrightarrow> list_all (writable e) decl"
| "event_writable e decl _ \<longleftrightarrow> True"

definition declaration_text :: "'w xml_writer \<Rightarrow> ustring" where
  "declaration_text w =
     (if xw_declaration w then
        lit ''<?xml version='' @ quoted (lit ''1.0'') @ lit '' encoding='' @
        quoted (case xw_declared w of Some l \<Rightarrow> l | None \<Rightarrow> en_encoding (xw_encoder w)) @
        (case xw_standalone w of
           None \<Rightarrow> []
         | Some yes \<Rightarrow> lit '' standalone='' @ quoted (if yes then lit ''yes'' else lit ''no'')) @
        lit ''?>'' @
        (case xw_declaration_line_break w of None \<Rightarrow> [] | Some b \<Rightarrow> line_break_as_str b)
      else [])"

section \<open>Writing text\<close>

text \<open>
  \<open>says e f txt\<close>: on every writer with encoder \<open>e\<close> over a vector, \<open>f\<close> appends \<open>txt\<close> in the encoding if
  the encoder holds it and is refused by the encoder otherwise; nothing but the output changes.
\<close>

type_synonym vec_writer = "byte list xml_writer"

definition says :: "encoder_id \<Rightarrow> (unit, vec_writer) effect \<Rightarrow> bool \<Rightarrow> ustring \<Rightarrow> bool" where
  "says e f possible txt \<longleftrightarrow>
     (\<forall>w. xw_encoder w = builtin_object e \<longrightarrow>
        (if possible then f w = (Inr (), w\<lparr>xw_out := xw_out w @ code e txt\<rparr>)
         else \<exists>out. f w = (Inl (Encoding None), w\<lparr>xw_out := out\<rparr>)))"

lemma code_Nil [simp]: "code e [] = []"
  by (cases e) (simp_all add: utf8_encode_def)

lemma says_put: "says e (put vec_sink txt) (list_all (writable e) txt) txt"
  unfolding says_def
proof (intro allI impI)
  fix w :: vec_writer assume w: "xw_encoder w = builtin_object e"
  show "if list_all (writable e) txt then put vec_sink txt w = (Inr (), w\<lparr>xw_out := xw_out w @ code e txt\<rparr>)
      else \<exists>out. put vec_sink txt w = (Inl (Encoding None), w\<lparr>xw_out := out\<rparr>)"
    using w exI [of "\<lambda>out. w = w\<lparr>xw_out := out\<rparr>" "xw_out w"]
    by (simp add: put_def write_encoded_def vec_sink_def builtin_object_def encode_eq)
qed

lemma says_put_markup: "says e (put_markup vec_sink txt) (list_all (writable e) txt) txt"
  by (simp add: put_markup_def says_put)

lemma says_put_with_references:
  "reads_back e d \<Longrightarrow> says e (put_with_references vec_sink txt) True (referenced e txt)"
  by (simp add: says_def put_with_references_def write_encoded_def vec_sink_def builtin_object_def
      encode_with_references_eq)

lemma says_ok: "says e (ok ()) True []"
  by (simp add: says_def)

lemma says_then:
  assumes "says e f p s" "says e g q t"
  shows "says e (and_then f (\<lambda>_. g)) (p \<and> q) (s @ t)"
proof (unfold says_def, intro allI impI)
  fix w :: vec_writer assume w: "xw_encoder w = builtin_object e"
  show "if p \<and> q then and_then f (\<lambda>_. g) w = (Inr (), w\<lparr>xw_out := xw_out w @ code e (s @ t)\<rparr>)
      else \<exists>out. and_then f (\<lambda>_. g) w = (Inl (Encoding None), w\<lparr>xw_out := out\<rparr>)"
  proof (cases p)
    case True
    let ?w = "w\<lparr>xw_out := xw_out w @ code e s\<rparr>"
    have f: "f w = (Inr (), ?w)" using assms(1) w True by (simp add: says_def)
    show ?thesis using assms(2) [unfolded says_def, rule_format, of ?w] w True f
      by (auto simp: code_append)
  next
    case False
    then show ?thesis using assms(1) w by (fastforce simp: says_def)
  qed
qed

lemma says_in_turn_Nil: "says e (in_turn []) True []"
  by (simp add: says_ok)

lemma says_in_turn_Cons:
  "says e f p s \<Longrightarrow> says e (in_turn fs) q t \<Longrightarrow> says e (in_turn (f # fs)) (p \<and> q) (s @ t)"
  by (simp add: says_then)

lemma says_each:
  "(\<And>x. x \<in> set xs \<Longrightarrow> says e (f x) (P x) (t x)) \<Longrightarrow>
     says e (each f xs) (\<forall>x\<in>set xs. P x) (concat (map t xs))"
proof (induction xs)
  case Nil
  show ?case by (simp add: says_def)
next
  case (Cons x xs)
  have "says e (each f (x # xs)) (P x \<and> (\<forall>x\<in>set xs. P x)) (t x @ concat (map t xs))"
    unfolding each.simps by (rule says_then) (use Cons in auto)
  then show ?case by simp
qed

lemmas says_intros = says_put says_put_markup says_put_with_references says_ok says_in_turn_Nil
  says_in_turn_Cons

lemma says_cong: "says e f p s \<Longrightarrow> p = q \<Longrightarrow> s = t \<Longrightarrow> says e f q t"
  by simp

lemma writable_ascii: "reads_back e d \<Longrightarrow> list_all (\<lambda>c. c < 0x80) s \<Longrightarrow> list_all (writable e) s"
  by (auto simp: list_all_iff writable_reads_back)

lemma says_put_name:
  assumes "reads_back e d"
  shows "says e (put_name vec_sink p l) (list_all (writable e) (lexical p l)) (lexical p l)"
proof (cases p)
  case None
  show ?thesis unfolding put_name_def None
    by (rule says_cong, simp only: option.case, (rule says_intros)+) simp_all
next
  case (Some q)
  show ?thesis unfolding put_name_def Some
    by (rule says_cong, simp only: option.case, (rule says_intros)+)
       (use writable_reads_back [OF assms, of COLON] in simp_all)
qed

lemma says_write_attribute:
  assumes "reads_back e d"
  shows "says e (write_attribute vec_sink a) (list_all (writable e) (lexical (at_prefix a) (at_local a)))
    (attribute_text e a)"
  unfolding write_attribute_def
  by (rule says_cong, (rule says_intros says_put_name [OF assms] assms)+)
     (use writable_reads_back [OF assms] in \<open>simp_all add: attribute_text_def quoted_def\<close>)

section \<open>Writing events\<close>

text \<open>An effect that first changes the writer's own state: what it says then, and the state it leaves.\<close>

definition open_tag :: "vec_writer \<Rightarrow> ustring" where
  "open_tag w = (if xw_pending w then [GT] else [])"

lemma says_run:
  assumes "says e f p s" "xw_encoder w = builtin_object e"
  shows "p \<Longrightarrow> f w = (Inr (), w\<lparr>xw_out := xw_out w @ code e s\<rparr>)"
    and "\<not> p \<Longrightarrow> fst (f w) = Inl (Encoding None)"
  using assms by (auto simp: says_def)

lemma gt_writable: "reads_back e d \<Longrightarrow> writable e GT"
  by (simp add: writable_reads_back)

lemma close_start_tag_run:
  assumes "reads_back e d" "xw_encoder w = builtin_object e"
  shows "close_start_tag vec_sink w =
    (Inr (), w\<lparr>xw_out := xw_out w @ code e (open_tag w), xw_pending := False\<rparr>)"
proof (cases "xw_pending w")
  case True
  have "put_markup vec_sink [GT] (w\<lparr>xw_pending := False\<rparr>) =
      (Inr (), (w\<lparr>xw_pending := False\<rparr>)\<lparr>xw_out := xw_out (w\<lparr>xw_pending := False\<rparr>) @ code e [GT]\<rparr>)"
    by (rule says_run(1) [OF says_put_markup]) (use assms gt_writable [OF assms(1)] in simp_all)
  with True show ?thesis by (simp add: close_start_tag_def open_tag_def)
qed (simp add: close_start_tag_def open_tag_def)

text \<open>\<open>writes e w f p txt k\<close>: the method \<open>f\<close> on \<open>w\<close> closes an open start tag, appends \<open>txt\<close> and then changes
  the fields other than the output by \<open>k\<close>, or is refused by the encoder.\<close>

definition writes ::
  "encoder_id \<Rightarrow> vec_writer \<Rightarrow> (unit, vec_writer) effect \<Rightarrow> bool \<Rightarrow> ustring \<Rightarrow> (vec_writer \<Rightarrow> vec_writer) \<Rightarrow> bool"
where
  "writes e w f p txt k \<longleftrightarrow>
     (p \<longrightarrow> f w = (Inr (), k (w\<lparr>xw_out := xw_out w @ code e txt\<rparr>))) \<and>
     (\<not> p \<longrightarrow> fst (f w) = Inl (Encoding None))"

definition unpend :: "vec_writer \<Rightarrow> vec_writer" where
  "unpend w = w\<lparr>xw_pending := False\<rparr>"

lemma writes_closing:
  assumes "reads_back e d" "xw_encoder w = builtin_object e" "says e f p s"
  shows "writes e w (and_then (close_start_tag vec_sink) (\<lambda>_. f)) p (open_tag w @ s) unpend"
proof -
  let ?w = "w\<lparr>xw_out := xw_out w @ code e (open_tag w), xw_pending := False\<rparr>"
  have "xw_encoder ?w = builtin_object e" using assms(2) by simp
  from says_run [OF assms(3) this] show ?thesis
    unfolding writes_def and_then_Inr [of "close_start_tag vec_sink", OF close_start_tag_run [OF assms(1,2)]]
    by (simp add: unpend_def code_append)
qed

lemma set_cdata_loop: "set (cdata_loop [] rest) \<union> {c. c < 0x80} = set rest \<union> {c. c < 0x80}"
proof (induction "length rest" arbitrary: rest rule: less_induct)
  case less
  show ?case
  proof (cases "find_sub (lit '']]>'') rest")
    case None
    then show ?thesis by (auto simp: cdata_loop_None push_section_def simp del: find_sub.simps)
  next
    case (Some i)
    obtain v where v: "rest = take i rest @ lit '']]>'' @ v" "drop (i + length (lit '']]>'')) rest = v"
      using find_sub_occurrence [OF Some] by blast
    define u where "u = take i rest"
    have l: "length v < length rest" using arg_cong [OF v(2), of length] find_sub_Some_split [OF Some] by auto
    have v2: "drop (i + 3) rest = v" using v(2) by (simp add: numeral_3_eq_3)
    have "0 < i \<or> u = []" by (auto simp: u_def)
    then have "set (cdata_loop [] rest) \<union> {c. c < 0x80} =
        set u \<union> (set (cdata_loop [] v) \<union> {c. c < 0x80})"
      unfolding cdata_loop_Some [OF Some] v2 u_def [symmetric] by (auto simp: push_section_def)
    also have "\<dots> = set u \<union> (set v \<union> {c. c < 0x80})" by (simp only: less [OF l])
    also have "\<dots> = set (u @ lit '']]>'' @ v) \<union> {c. c < 0x80}" by auto
    also have "u @ lit '']]>'' @ v = rest" using v(1) unfolding u_def by metis
    finally show ?thesis .
  qed
qed

lemma writable_cdata:
  assumes "reads_back e d"
  shows "list_all (writable e) (push_cdata [] txt) \<longleftrightarrow> list_all (writable e) txt"
proof (cases "txt = []")
  case True
  then show ?thesis
    using writable_reads_back [OF assms] by (simp add: push_cdata_def push_section_def)
next
  case False
  have "list_all (writable e) s \<longleftrightarrow> (\<forall>c\<in>set s \<union> {c. c < 0x80}. writable e c)" for s
    using writable_reads_back [OF assms] by (auto simp: list_all_iff)
  with False show ?thesis by (simp only: push_cdata_def if_False set_cdata_loop)
qed

text \<open>Every event but the tags.\<close>

lemma write_leaf:
  assumes e: "reads_back e d" and w: "xw_encoder w = builtin_object e" and leaf: "leaf_ok ev"
  shows "writes e w (write_event vec_sink ev) (event_writable e decl ev)
    (open_tag w @ xml_text e decl [ev]) unpend"
proof -
  note ascii = writable_reads_back [OF e]
  note close = writes_closing [OF e w]
  show ?thesis
  proof (cases ev)
    case (Characters str)
    have "says e (in_turn [put_with_references vec_sink (push_text [] str)]) (True \<and> True)
        (referenced e (push_text [] str) @ [])"
      by (rule says_intros e)+
    from close [OF this] show ?thesis by (simp add: Characters write_characters_def)
  next
    case (Cdata str)
    have "says e (in_turn [put vec_sink (push_cdata [] str)])
        (list_all (writable e) (push_cdata [] str) \<and> True) (push_cdata [] str @ [])"
      by (rule says_intros)+
    from close [OF this] show ?thesis by (simp add: Cdata write_cdata_def writable_cdata [OF e])
  next
    case (Comment str)
    have "says e (in_turn [put_markup vec_sink (lit ''<!--''), put vec_sink str, put_markup vec_sink (lit ''-->'')])
        (list_all (writable e) str) (comment_text str)"
      by (rule says_cong, (rule says_intros)+) (use ascii in \<open>simp_all add: comment_text_def\<close>)
    from close [OF this] show ?thesis by (simp add: Comment write_comment_def)
  next
    case (ProcessingInstruction pi)
    let ?data = "if pe_data pi \<noteq> [] then in_turn [put_markup vec_sink (lit '' ''), put vec_sink (pe_data pi)]
      else ok ()"
    have data: "says e ?data (list_all (writable e) (pe_data pi))
        (if pe_data pi = [] then [] else lit '' '' @ pe_data pi)"
      by (cases "pe_data pi = []"; simp only: if_True if_False simp_thms;
          rule says_cong, (rule says_intros)+; (use ascii in simp)?)
    have "says e (in_turn [put_markup vec_sink (lit ''<?''), put vec_sink (pe_target pi), ?data,
          put_markup vec_sink (lit ''?>'')])
        (list_all (writable e) (pe_target pi) \<and> list_all (writable e) (pe_data pi)) (instruction_text pi)"
      by (rule says_cong, (rule says_intros data)+) (use ascii in \<open>simp_all add: instruction_text_def\<close>)
    from close [OF this] show ?thesis by (simp add: ProcessingInstruction write_processing_instruction_def)
  qed (use leaf in simp_all)
qed

lemma writes_failed: "writes e w f False s k \<longleftrightarrow> fst (f w) = Inl (Encoding None)"
  by (simp add: writes_def)

lemma and_then_failed: "fst (f w) = Inl x \<Longrightarrow> fst (and_then f g w) = Inl x"
  by (cases "f w") (simp add: and_then_def)

lemma writes_then:
  assumes "writes e w f p s k"
    and "p \<Longrightarrow> writes e (k (w\<lparr>xw_out := xw_out w @ code e s\<rparr>)) g q t k'"
    and "\<And>w x. xw_out (k (w\<lparr>xw_out := x\<rparr>)) = x"
    and "\<And>w x y. (k (w\<lparr>xw_out := x\<rparr>))\<lparr>xw_out := y\<rparr> = k (w\<lparr>xw_out := y\<rparr>)"
  shows "writes e w (and_then f (\<lambda>_. g)) (p \<and> q) (s @ t) (\<lambda>w. k' (k w))"
proof (cases p)
  case True
  then have f: "f w = (Inr (), k (w\<lparr>xw_out := xw_out w @ code e s\<rparr>))"
    using assms(1) by (simp add: writes_def)
  show ?thesis using assms(2) [OF True] True
    by (simp add: writes_def f assms(3,4) code_append)
next
  case False
  then show ?thesis using assms(1) by (simp add: writes_def and_then_failed)
qed

lemma writes_says:
  "says e f p s \<Longrightarrow> xw_encoder w = builtin_object e \<Longrightarrow> writes e w f p s (\<lambda>w. w)"
  by (fastforce simp: writes_def says_def)

lemma writes_modify: "writes e w (modify k) True [] k"
  by (simp add: writes_def)

lemma writes_cong: "writes e w f p s k \<Longrightarrow> p = q \<Longrightarrow> s = t \<Longrightarrow> (\<And>w. k w = k' w) \<Longrightarrow> writes e w f q t k'"
  by (auto simp: writes_def)

definition enter :: "start_element_event \<Rightarrow> vec_writer \<Rightarrow> vec_writer" where
  "enter ev w = w\<lparr>xw_open := xw_open w @ [lexical (se_prefix ev) (se_local ev)], xw_pending := True\<rparr>"

lemma write_start:
  assumes e: "reads_back e d" and w: "xw_encoder w = builtin_object e"
  shows "writes e w (write_event vec_sink (StartElement ev)) (event_writable e decl (StartElement ev))
    (open_tag w @ start_text e ev) (enter ev)"
proof -
  let ?p = "list_all (writable e) (lexical (se_prefix ev) (se_local ev))"
  let ?q = "\<forall>a\<in>set (se_attributes ev). list_all (writable e) (lexical (at_prefix a) (at_local a))"
  let ?as = "concat (map (attribute_text e) (se_attributes ev))"
  have tag: "says e (and_then (put_markup vec_sink [LT]) (\<lambda>_. put_name vec_sink (se_prefix ev) (se_local ev)))
      (list_all (writable e) [LT] \<and> ?p) ([LT] @ lexical (se_prefix ev) (se_local ev))"
    by (rule says_then [OF says_put_markup says_put_name [OF e]])
  have attrs: "says e (each (write_attribute vec_sink) (se_attributes ev)) ?q ?as"
    by (rule says_each) (rule says_write_attribute [OF e])
  have rest: "writes e w1 (and_then (modify (enter ev)) (\<lambda>_. and_then
      (each (write_attribute vec_sink) (se_attributes ev)) (\<lambda>_. ok ()))) ?q ?as (enter ev)"
    if "xw_encoder w1 = builtin_object e" for w1
    by (rule writes_cong, rule writes_then [OF writes_modify writes_says [OF says_then [OF attrs says_ok]]])
       (use that in \<open>simp_all add: enter_def\<close>)
  have start: "writes e w (and_then (close_start_tag vec_sink) (\<lambda>_.
      and_then (put_markup vec_sink [LT]) (\<lambda>_. put_name vec_sink (se_prefix ev) (se_local ev))))
      (list_all (writable e) [LT] \<and> ?p) (open_tag w @ [LT] @ lexical (se_prefix ev) (se_local ev)) unpend"
    by (rule writes_closing [OF e w tag])
  have m: "modify (\<lambda>w. w\<lparr>xw_open := xw_open w @ [lexical (se_prefix ev) (se_local ev)], xw_pending := True\<rparr>) =
      modify (enter ev)"
    by (rule arg_cong [of _ _ modify]) (simp add: enter_def fun_eq_iff)
  have "writes e w (and_then (and_then (close_start_tag vec_sink) (\<lambda>_.
      and_then (put_markup vec_sink [LT]) (\<lambda>_. put_name vec_sink (se_prefix ev) (se_local ev))))
      (\<lambda>_. and_then (modify (enter ev)) (\<lambda>_. and_then
        (each (write_attribute vec_sink) (se_attributes ev)) (\<lambda>_. ok ()))))
      (event_writable e decl (StartElement ev)) (open_tag w @ start_text e ev) (enter ev)"
    by (rule writes_cong, rule writes_then [OF start rest])
       (use w writable_reads_back [OF e] in \<open>simp_all add: unpend_def enter_def start_text_def\<close>)
  then show ?thesis by (simp only: write_event.simps write_start_element_def in_turn.simps and_then_assoc m)
qed

definition leave :: "vec_writer \<Rightarrow> vec_writer" where
  "leave w = w\<lparr>xw_open := butlast (xw_open w), xw_pending := False\<rparr>"

lemma strip_prefix_append: "strip_prefix p (p @ s) = Some s"
  by simp

lemma names_lexical: "names (lexical p l) p l"
  by (cases p) (simp_all only: names_def lexical.simps option.case strip_prefix_append, simp)

lemma write_end:
  assumes e: "reads_back e d" and w: "xw_encoder w = builtin_object e"
    and top: "xw_open w \<noteq> []" "last (xw_open w) = lexical (ee_prefix ev) (ee_local ev)"
    and ok: "event_writable e decl (EndElement ev)"
  shows "writes e w (write_event vec_sink (EndElement ev)) True
    (if xw_pending w then lit ''/>'' else end_text ev) leave"
proof -
  note ascii = writable_reads_back [OF e]
  let ?w = "w\<lparr>xw_open := butlast (xw_open w), xw_pending := False\<rparr>"
  have enc: "xw_encoder ?w = builtin_object e" using w by simp
  have "says e (in_turn [put_markup vec_sink (lit ''</''), put vec_sink (last (xw_open w)),
      put_markup vec_sink [GT]]) True (end_text ev)"
    by (rule says_cong, (rule says_intros)+) (use ascii ok in \<open>simp_all add: end_text_def top(2)\<close>)
  from says_run(1) [OF this enc] says_run(1) [OF says_put_markup enc, of "lit ''/>''"]
  moreover have "\<not> xw_pending w \<Longrightarrow> w\<lparr>xw_open := butlast (xw_open w)\<rparr> = ?w"
    by (cases w) simp
  ultimately show ?thesis using top names_lexical ascii
    by (cases "xw_pending w") (simp_all add: writes_def write_end_element_def leave_def)
qed

section \<open>Writing content\<close>

lemma content_hd: "content \<sigma> es \<Longrightarrow> es \<noteq> [] \<Longrightarrow> hd es \<noteq> EndElement ev"
  by (cases rule: content.cases) auto

lemma xml_text_start:
  "(es \<noteq> [] \<Longrightarrow> \<forall>x. hd es \<noteq> EndElement x) \<Longrightarrow>
     xml_text e decl (StartElement ev # es) = start_text e ev @ [GT] @ xml_text e decl es"
  by (cases es; cases "hd es") auto

lemma xml_text_leaf: "leaf_ok ev \<Longrightarrow> xml_text e decl (ev # es) = xml_text e decl [ev] @ xml_text e decl es"
  by (cases ev) auto

lemma xml_text_append:
  "content \<sigma> es \<Longrightarrow> xml_text e decl (es @ b) = xml_text e decl es @ xml_text e decl b"
proof (induction arbitrary: b rule: content.induct)
  case (Leaf ev \<sigma> es)
  then show ?case using xml_text_leaf [OF Leaf.hyps(1)] by (metis append_Cons append_assoc)
next
  case (Element \<sigma> ev inner es)
  show ?case
  proof (cases "inner = []")
    case False
    then have "xml_text e decl (StartElement ev # inner @ c) = start_text e ev @ [GT] @ xml_text e decl (inner @ c)"
      for c using content_hd [OF Element.hyps(2)] by (intro xml_text_start) auto
    then show ?thesis by (simp add: Element.IH)
  qed (simp add: Element.IH)
qed simp

lemma xml_text_element:
  assumes "content \<sigma> inner"
  shows "xml_text e decl (StartElement ev # inner @ EndElement (closing ev) # es) =
    start_text e ev @ (if inner = [] then lit ''/>'' else [GT] @ xml_text e decl inner @ end_text (closing ev)) @
    xml_text e decl es"
proof (cases "inner = []")
  case False
  then have "xml_text e decl (StartElement ev # inner @ EndElement (closing ev) # es) =
      start_text e ev @ [GT] @ xml_text e decl (inner @ EndElement (closing ev) # es)"
    using content_hd [OF assms] by (intro xml_text_start) auto
  with False show ?thesis by (simp add: xml_text_append [OF assms])
qed simp

text \<open>The events of an element's content leave the writer's stack as it was.\<close>

definition settled :: "event list \<Rightarrow> vec_writer \<Rightarrow> vec_writer" where
  "settled es w = (if es = [] then w else unpend w)"

lemma settled_simps [simp]:
  "xw_out (settled es w) = xw_out w" "xw_encoder (settled es w) = xw_encoder w"
  "xw_open (settled es w) = xw_open w" "xw_pending (settled es w) = (es = [] \<and> xw_pending w)"
  "(settled es w)\<lparr>xw_out := x\<rparr> = settled es (w\<lparr>xw_out := x\<rparr>)"
  by (simp_all add: settled_def unpend_def)

lemma write_content:
  assumes e: "reads_back e d"
  shows "content \<sigma> es \<Longrightarrow> xw_encoder w = builtin_object e \<Longrightarrow>
    writes e w (each (write_event vec_sink) es) (list_all (event_writable e decl) es)
      ((if es = [] then [] else open_tag w) @ xml_text e decl es) (settled es)"
proof (induction arbitrary: w rule: content.induct)
  case (Nothing \<sigma>)
  show ?case by (simp add: writes_def settled_def)
next
  case (Leaf ev \<sigma> es)
  show ?case unfolding each.simps
    by (rule writes_cong, rule writes_then [OF write_leaf [OF e Leaf.prems Leaf.hyps(1), of decl] Leaf.IH])
       (use Leaf.prems xml_text_leaf [OF Leaf.hyps(1), of e decl es]
         in \<open>auto simp: unpend_def settled_def open_tag_def\<close>)
next
  case (Element \<sigma> ev inner es)
  let ?f = "write_event vec_sink"
  let ?p = "event_writable e decl (StartElement ev)"
  let ?tail = "if inner = [] then lit ''/>'' else end_text (closing ev)"
  have inner: "writes e w1 (each ?f inner) (list_all (event_writable e decl) inner)
      ((if inner = [] then [] else [GT]) @ xml_text e decl inner) (settled inner)"
    if "xw_encoder w1 = builtin_object e" "xw_pending w1" for w1
    using Element.IH(1) [OF that(1)] by (simp only: open_tag_def that(2) if_True)
  have fin: "writes e w2 (?f (EndElement (closing ev))) True ?tail leave"
    if "xw_encoder w2 = builtin_object e" "xw_open w2 = os @ [lexical (se_prefix ev) (se_local ev)]"
      "xw_pending w2 \<longleftrightarrow> inner = []" ?p for w2 os
    using write_end [OF e that(1), of "closing ev" decl] that(2-4) by (simp add: closing_def)
  have rest: "writes e w3 (each ?f es) (list_all (event_writable e decl) es) (xml_text e decl es) (settled es)"
    if "xw_encoder w3 = builtin_object e" "\<not> xw_pending w3" for w3
    using Element.IH(2) [OF that(1)] by (simp only: open_tag_def that(2) if_False if_cancel append_Nil)
  let ?q = "list_all (event_writable e decl) inner" and ?r = "list_all (event_writable e decl) es"
  have after: "writes e w2 (and_then (?f (EndElement (closing ev))) (\<lambda>_. each ?f es)) (True \<and> ?r)
      (?tail @ xml_text e decl es) (\<lambda>w. settled es (leave w))"
    if "xw_encoder w2 = builtin_object e" "xw_open w2 = os @ [lexical (se_prefix ev) (se_local ev)]"
      "xw_pending w2 \<longleftrightarrow> inner = []" ?p for w2 os
    by (rule writes_then [OF fin [OF that] rest]) (use that in \<open>simp_all add: leave_def\<close>)
  have within: "writes e w1 (and_then (each ?f inner) (\<lambda>_. and_then (?f (EndElement (closing ev)))
        (\<lambda>_. each ?f es))) (?q \<and> True \<and> ?r)
      (((if inner = [] then [] else [GT]) @ xml_text e decl inner) @ ?tail @ xml_text e decl es)
      (\<lambda>w. settled es (leave (settled inner w)))"
    if "xw_encoder w1 = builtin_object e" "xw_open w1 = os @ [lexical (se_prefix ev) (se_local ev)]"
      "xw_pending w1" ?p for w1 os
    by (rule writes_then [OF inner [OF that(1,3)] after [of _ os]]) (use that in simp_all)
  have "writes e w (and_then (?f (StartElement ev)) (\<lambda>_. and_then (each ?f inner)
      (\<lambda>_. and_then (?f (EndElement (closing ev))) (\<lambda>_. each ?f es))))
    (?p \<and> ?q \<and> True \<and> ?r)
    ((open_tag w @ start_text e ev) @ ((if inner = [] then [] else [GT]) @ xml_text e decl inner) @
      ?tail @ xml_text e decl es)
    (\<lambda>w. settled es (leave (settled inner (enter ev w))))"
    by (rule writes_then [OF write_start [OF e Element.prems] within [of _ "xw_open w"]])
       (use Element.prems in \<open>simp_all add: enter_def\<close>)
  note run = this
  have eq: "each ?f (StartElement ev # inner @ EndElement (closing ev) # es) =
      and_then (?f (StartElement ev)) (\<lambda>_. and_then (each ?f inner)
        (\<lambda>_. and_then (?f (EndElement (closing ev))) (\<lambda>_. each ?f es)))"
    by (simp only: each.simps each_append)
  have state: "settled es (leave (settled inner (enter ev w))) = unpend w" for w
    by (simp add: settled_def unpend_def leave_def enter_def)
  have cw: "?p \<Longrightarrow> event_writable e decl (EndElement (closing ev))"
    by (simp add: closing_def)
  have cons: "settled (x # xs) w = unpend w" for x xs w by (simp add: settled_def)
  show ?case unfolding eq
  proof (rule writes_cong [OF run], goal_cases)
    case 1
    then show ?case using cw by (auto simp del: event_writable.simps)
  next
    case 2
    then show ?case by (simp add: xml_text_element [OF Element.hyps(2)])
  next
    case (3 w)
    then show ?case by (simp only: state cons)
  qed
qed

section \<open>Writing documents\<close>

lemma says_declaration:
  assumes e: "reads_back e d" and w: "xw_encoder w = builtin_object e"
  shows "writes e w (if xw_declaration w then xml_declaration vec_sink else ok ())
    (list_all (writable e) (declaration_text w)) (declaration_text w) (\<lambda>w. w)"
proof (cases "xw_declaration w")
  case False
  then show ?thesis by (simp add: writes_def declaration_text_def)
next
  case True
  note ascii = writable_reads_back [OF e]
  let ?label = "case xw_declared w of Some l \<Rightarrow> l | None \<Rightarrow> en_encoding (xw_encoder w)"
  let ?standalone = "case xw_standalone w of
            None \<Rightarrow> ok ()
          | Some yes \<Rightarrow>
              put_markup vec_sink
                (if yes then lit '' standalone='' @ [QUOT] @ lit ''yes'' @ [QUOT]
                 else lit '' standalone='' @ [QUOT] @ lit ''no'' @ [QUOT])"
  let ?break = "case xw_declaration_line_break w of
            None \<Rightarrow> ok ()
          | Some b \<Rightarrow> put_markup vec_sink (line_break_as_str b)"
  have ascii_all: "list_all (\<lambda>c. c < 0x80) s \<Longrightarrow> list_all (writable e) s" for s
    by (rule writable_ascii [OF e])
  have s: "says e ?standalone True
      (case xw_standalone w of
           None \<Rightarrow> []
         | Some yes \<Rightarrow> lit '' standalone='' @ quoted (if yes then lit ''yes'' else lit ''no''))"
  proof (cases "xw_standalone w")
    case (Some yes)
    have "says e (put_markup vec_sink (lit '' standalone='' @ [QUOT] @ lit s @ [QUOT])) True
        (lit '' standalone='' @ quoted (lit s))" if "s \<in> {''yes'', ''no''}" for s
      by (rule says_cong [OF says_put_markup]) (use that ascii in \<open>auto simp: quoted_def\<close>)
    from this [of "''yes''"] this [of "''no''"] show ?thesis unfolding Some
      by (cases yes) (simp_all only: option.case if_True if_False insert_iff simp_thms)
  qed (simp add: says_ok)
  have lb: "list_all (writable e) (line_break_as_str lb)" for lb
    by (cases lb) (simp_all add: ascii CR_def LF_def)
  have b: "says e ?break True
      (case xw_declaration_line_break w of None \<Rightarrow> [] | Some b \<Rightarrow> line_break_as_str b)"
  proof (cases "xw_declaration_line_break w")
    case (Some br)
    then show ?thesis using lb says_put_markup [of e "line_break_as_str br"] by simp
  qed (simp add: says_ok)
  have "says e (in_turn
        [put_markup vec_sink (lit ''<?xml version='' @ [QUOT] @ lit ''1.0'' @ [QUOT] @ lit '' encoding='' @ [QUOT]),
         put vec_sink ?label, put_markup vec_sink [QUOT], ?standalone, put_markup vec_sink (lit ''?>''), ?break])
      (list_all (writable e) (declaration_text w)) (declaration_text w)"
    by (rule says_cong, (rule says_put says_put_markup says_in_turn_Nil says_in_turn_Cons s b)+)
       (use True ascii lb in \<open>auto simp: declaration_text_def quoted_def split: option.splits\<close>)
  from writes_says [OF this w] True show ?thesis
    by (simp only: writes_def xml_declaration_def Let_def if_True)
qed

definition outside :: "encoder_id \<Rightarrow> vec_writer \<Rightarrow> bool" where
  "outside e w \<longleftrightarrow> xw_encoder w = builtin_object e \<and> xw_open w = [] \<and> \<not> xw_pending w"

lemma outside_out [simp]: "outside e (w\<lparr>xw_out := x\<rparr>) = outside e w"
  by (simp add: outside_def)

lemma outside_unpend: "outside e w \<Longrightarrow> unpend w = w"
  by (cases w) (simp add: outside_def unpend_def)

lemma writes_outside:
  "writes e w f p s unpend \<Longrightarrow> outside e w \<Longrightarrow> writes e w f p s (\<lambda>w. w)"
  using outside_unpend by (auto simp: writes_def)

lemma write_doctype_outside:
  assumes e: "reads_back e d" and w: "outside e w" and ok: "\<not> doctype_error ev"
  shows "writes e w (write_event vec_sink (Doctype ev)) (event_writable e decl (Doctype ev)) (doctype_text ev)
    (\<lambda>w. w)"
proof -
  note ascii = writable_reads_back [OF e]
  obtain name where name: "de_name ev = Some name" using ok by (cases "de_name ev") (auto simp: doctype_error_def)
  let ?id = "case (de_public_id ev, de_system_id ev) of
                  (Some public, Some system) \<Rightarrow>
                    in_turn
                      [put_markup vec_sink (lit '' PUBLIC '' @ [QUOT]), put vec_sink public,
                       put_markup vec_sink ([QUOT] @ lit '' '' @ [QUOT]), put vec_sink system,
                       put_markup vec_sink [QUOT]]
                | (None, Some system) \<Rightarrow>
                    in_turn
                      [put_markup vec_sink (lit '' SYSTEM '' @ [QUOT]), put vec_sink system,
                       put_markup vec_sink [QUOT]]
                | _ \<Rightarrow> ok ()"
  have i: "says e ?id (list_all (writable e) (external_id_text ev)) (external_id_text ev)"
    by (cases "de_public_id ev"; cases "de_system_id ev"; simp only: prod.case option.case;
        rule says_cong, (rule says_intros)+; (simp add: external_id_text_def quoted_def ascii)?)
  have "says e (in_turn [put_markup vec_sink (lit ''<!DOCTYPE ''), put vec_sink name, ?id, put_markup vec_sink [GT]])
      (list_all (writable e) (doctype_text ev)) (doctype_text ev)"
    by (rule says_cong, (rule says_put says_put_markup says_in_turn_Nil says_in_turn_Cons i)+)
       (use ascii in \<open>simp_all add: doctype_text_def name\<close>)
  from writes_says [OF this, of w] show ?thesis
    using w by (simp only: writes_def outside_def write_event.simps write_doctype_def name option.case
        event_writable.simps not_True_eq_False if_False) simp
qed

lemma write_prolog:
  assumes e: "reads_back e d" and w: "outside e w" and ok: "prolog_ok ev"
  shows "writes e w (write_event vec_sink ev) (event_writable e decl ev) (xml_text e decl [ev]) (\<lambda>w. w)"
proof (cases "is_doctype ev")
  case True
  then obtain dt where "ev = Doctype dt" by (cases ev) auto
  then show ?thesis using write_doctype_outside [OF e w] ok by simp
next
  case False
  then have "misc_ok ev" using ok by (cases ev) auto
  then have "leaf_ok ev" by (cases ev) (auto simp: whitespace_chars)
  have "xw_encoder w = builtin_object e" "open_tag w = []" using w by (simp_all add: outside_def open_tag_def)
  with write_leaf [OF e this(1) \<open>leaf_ok ev\<close>, of decl] show ?thesis by (auto intro: writes_outside [OF _ w])
qed

lemma misc_prolog: "misc_ok ev \<Longrightarrow> prolog_ok ev"
  by (cases ev) auto

lemma xml_text_prolog: "prolog_ok ev \<Longrightarrow> xml_text e decl (ev # es) = xml_text e decl [ev] @ xml_text e decl es"
  by (cases ev) auto

lemma write_prologs:
  assumes e: "reads_back e d"
  shows "list_all prolog_ok es \<Longrightarrow> outside e w \<Longrightarrow>
    writes e w (each (write_event vec_sink) es) (list_all (event_writable e decl) es) (xml_text e decl es) (\<lambda>w. w)"
proof (induction es arbitrary: w)
  case Nil
  show ?case by (simp add: writes_def)
next
  case (Cons ev es)
  have ok: "prolog_ok ev" using Cons.prems by simp
  have "writes e w (and_then (write_event vec_sink ev) (\<lambda>_. each (write_event vec_sink) es))
      (event_writable e decl ev \<and> list_all (event_writable e decl) es)
      (xml_text e decl [ev] @ xml_text e decl es) (\<lambda>w. w)"
    by (rule writes_then [where k = "\<lambda>w. w" and k' = "\<lambda>w. w", OF write_prolog [OF e Cons.prems(2) ok] Cons.IH])
       (use Cons.prems in simp_all)
  then show ?case unfolding each.simps
    by (rule writes_cong) (use xml_text_prolog [OF ok, of e decl es] in simp_all)
qed

lemma xml_text_prologs:
  "list_all prolog_ok es \<Longrightarrow> xml_text e decl (es @ b) = xml_text e decl es @ xml_text e decl b"
proof (induction es)
  case (Cons ev es)
  then show ?case using xml_text_prolog [of ev e decl "es @ b"] xml_text_prolog [of ev e decl es] by simp
qed simp

definition rested :: "vec_writer \<Rightarrow> vec_writer" where
  "rested w = w\<lparr>xw_open := [], xw_pending := False\<rparr>"

lemma write_document:
  assumes e: "reads_back e d" and w: "outside e w" and doc: "document es"
  shows "writes e w (each (write_event vec_sink) es) (list_all (event_writable e decl) es) (xml_text e decl es)
    (\<lambda>w. w)"
  using doc
proof cases
  case (1 before root inner after)
  have body: "content no_scope (StartElement root # inner @ [EndElement (closing root)])"
    by (rule content.Element [OF 1(3,4) content.Nothing])
  have o: "open_tag w = []" "xw_encoder w = builtin_object e" using w by (simp_all add: outside_def open_tag_def)
  have b: "list_all prolog_ok before" "list_all prolog_ok after"
    using 1(2,5) by (auto simp: prolog_def list_all_iff misc_prolog)
  let ?root = "StartElement root # inner @ [EndElement (closing root)]"
  have root: "writes e w1 (each (write_event vec_sink) ?root) (list_all (event_writable e decl) ?root)
      (xml_text e decl ?root) (\<lambda>w. w)" if "outside e w1" for w1
  proof (rule writes_outside [OF _ that])
    have "open_tag w1 = []" "xw_encoder w1 = builtin_object e"
      using that by (simp_all add: outside_def open_tag_def)
    moreover have "settled ?root = unpend" by (simp add: settled_def fun_eq_iff)
    ultimately show "writes e w1 (each (write_event vec_sink) ?root) (list_all (event_writable e decl) ?root)
      (xml_text e decl ?root) unpend"
      using write_content [OF e body, of w1 decl] by simp
  qed
  have tail: "writes e w1 (and_then (each (write_event vec_sink) ?root) (\<lambda>_. each (write_event vec_sink) after))
      (list_all (event_writable e decl) ?root \<and> list_all (event_writable e decl) after)
      (xml_text e decl ?root @ xml_text e decl after) (\<lambda>w. w)" if "outside e w1" for w1
    by (rule writes_then [where k = "\<lambda>w. w" and k' = "\<lambda>w. w", OF root [OF that] write_prologs [OF e b(2)]])
       (simp_all only: outside_out that, simp_all)
  have "writes e w (and_then (each (write_event vec_sink) before) (\<lambda>_.
        and_then (each (write_event vec_sink) ?root) (\<lambda>_. each (write_event vec_sink) after)))
      (list_all (event_writable e decl) before \<and> list_all (event_writable e decl) ?root \<and>
       list_all (event_writable e decl) after)
      (xml_text e decl before @ xml_text e decl ?root @ xml_text e decl after) (\<lambda>w. w)"
    by (rule writes_then [where k = "\<lambda>w. w" and k' = "\<lambda>w. w", OF write_prologs [OF e b(1) w] tail])
       (simp_all only: outside_out w, simp_all)
  moreover have "es = before @ ?root @ after" using 1(1) by simp
  moreover have "xml_text e decl (before @ ?root @ after) =
      xml_text e decl before @ xml_text e decl ?root @ xml_text e decl after"
    by (simp only: xml_text_prologs [OF b(1)] xml_text_append [OF body])
  ultimately show ?thesis by (simp only: each_append list_all_append and_then_assoc)
qed

lemma declaration_text_out [simp]: "declaration_text (w\<lparr>xw_out := x\<rparr>) = declaration_text w"
  by (simp add: declaration_text_def cong: option.case_cong)

lemma declaration_text_rested [simp]: "declaration_text (rested w) = declaration_text w"
  by (simp add: declaration_text_def rested_def cong: option.case_cong)

lemma rested_simps [simp]:
  "xw_out (rested w) = xw_out w" "(rested w)\<lparr>xw_out := x\<rparr> = rested (w\<lparr>xw_out := x\<rparr>)"
  "outside e (rested w) \<longleftrightarrow> xw_encoder w = builtin_object e"
  by (simp_all add: rested_def outside_def)

lemma write_start_document_run:
  assumes e: "reads_back e d" and w: "xw_encoder w = builtin_object e" and decl: "decl = declaration_text w"
  shows "writes e w (write_event vec_sink StartDocument) (event_writable e decl StartDocument) decl rested"
proof -
  have r: "xw_encoder (rested w) = builtin_object e" using w by (simp add: rested_def)
  have eq: "write_event vec_sink StartDocument w =
      (if xw_declaration (rested w) then xml_declaration vec_sink else ok ()) (rested w)"
    by (simp add: write_start_document_def rested_def Let_def)
  show ?thesis
    using says_declaration [OF e r] unfolding writes_def eq by (simp add: decl)
qed

lemma xml_text_document:
  assumes "document es"
  shows "xml_text e decl (es @ b) = xml_text e decl es @ xml_text e decl b"
  using assms
proof cases
  case (1 before root inner after)
  have body: "content no_scope (StartElement root # inner @ [EndElement (closing root)])"
    by (rule content.Element [OF 1(3,4) content.Nothing])
  have b: "list_all prolog_ok before" "list_all prolog_ok after"
    using 1(2,5) by (auto simp: prolog_def list_all_iff misc_prolog)
  have "es = before @ (StartElement root # inner @ [EndElement (closing root)]) @ after" using 1(1) by simp
  then show ?thesis
    by (simp only: append_assoc xml_text_prologs [OF b(1)] xml_text_append [OF body] xml_text_prologs [OF b(2)])
qed

lemma write_documents:
  assumes e: "reads_back e d"
  shows "documents es \<Longrightarrow> xw_encoder w = builtin_object e \<Longrightarrow> decl = declaration_text w \<Longrightarrow>
    writes e w (each (write_event vec_sink) es) (list_all (event_writable e decl) es) (xml_text e decl es)
      (if es = [] then (\<lambda>w. w) else rested)"
proof (induction arbitrary: w rule: documents.induct)
  case None
  show ?case by (simp add: writes_def)
next
  case (One_more dc es)
  let ?f = "write_event vec_sink"
  have body: "writes e w1 (and_then (each ?f dc) (\<lambda>_. each ?f (EndDocument # es)))
      (list_all (event_writable e decl) dc \<and> list_all (event_writable e decl) es)
      (xml_text e decl dc @ xml_text e decl es) (if es = [] then (\<lambda>w. w) else rested)"
    if "outside e w1" "decl = declaration_text w1" for w1
  proof -
    have "writes e w2 (each ?f (EndDocument # es)) (list_all (event_writable e decl) es) (xml_text e decl es)
        (if es = [] then (\<lambda>w. w) else rested)"
      if "xw_encoder w2 = builtin_object e" "decl = declaration_text w2" for w2
      using One_more.IH [OF that] by (simp del: One_more.IH)
    from writes_then [where k = "\<lambda>w. w", OF write_document [OF e that(1) One_more.hyps(1), of decl] this]
    show ?thesis using that by (simp add: outside_def)
  qed
  have "writes e w (and_then (?f StartDocument) (\<lambda>_. and_then (each ?f dc) (\<lambda>_. each ?f (EndDocument # es))))
      (event_writable e decl StartDocument \<and> list_all (event_writable e decl) dc \<and> list_all (event_writable e decl) es)
      (decl @ xml_text e decl dc @ xml_text e decl es)
      (\<lambda>w. (if es = [] then (\<lambda>w. w) else rested) (rested w))"
    by (rule writes_then [where k = rested, OF write_start_document_run [OF e One_more.prems] body])
       (use One_more.prems in simp_all)
  then show ?case
    unfolding each.simps(2) [of _ StartDocument] each_append
  proof (rule writes_cong, goal_cases)
    case 2
    then show ?case by (simp add: xml_text_document [OF One_more.hyps(1)])
  next
    case (3 w)
    then show ?case by (simp add: rested_def)
  qed simp
qed

text \<open>
  C6. The writer writes documents faithfully: given a sequence of documents of the event grammar (the
  sequences the strict validator accepts), a built-in encoder, a sink that does not fail and any earlier
  use, it writes exactly the text of the events in that encoding - tags, attributes, escaped text, split
  CDATA sections, empty-element tags, the declaration where it is asked for - and stops with an encoding
  error exactly when a name, a comment, an instruction, a CDATA section or a document type holds a
  character the encoding lacks. Other sequences of events are not covered.
\<close>

theorem writer_output:
  assumes "documents es" "encoder_for backend label = Inr (Inl e)"
    "w = w0\<lparr>xw_encoder := builtin_object e\<rparr>" "each (write_event vec_sink) es w = (r, w')"
  shows "if list_all (event_writable e (declaration_text w)) es
    then r = Inr () \<and> xw_out w' = xw_out w @ code e (xml_text e (declaration_text w) es)
    else r = Inl (Encoding None)"
proof -
  obtain d where d: "reads_back e d" using encoder_for_lookup [OF assms(2)] by blast
  show ?thesis
    using write_documents [OF d assms(1), of w "declaration_text w"] assms(3,4)
    by (auto simp: writes_def rested_def split: if_splits)
qed

text \<open>A document with an attribute, an empty element and text to escape.\<close>

definition plain_start :: "string \<Rightarrow> attribute list \<Rightarrow> start_element_event" where
  "plain_start name as =
     \<lparr>se_prefix = None, se_local = lit name, se_namespace = None, se_attributes = as,
      se_xml_space = XmlSpaceDefault, se_xml_lang = None, se_base_uri = None\<rparr>"

definition plain_attribute :: "string \<Rightarrow> ustring \<Rightarrow> attribute" where
  "plain_attribute name value =
     \<lparr>at_prefix = None, at_local = lit name, at_namespace = None, at_value = value\<rparr>"

definition sample_events :: "event list" where
  "sample_events =
     [StartDocument, StartElement (plain_start ''a'' [plain_attribute ''x'' (lit ''1>0'')]),
      StartElement (plain_start ''b'' []), EndElement (closing (plain_start ''b'' [])),
      Characters (lit ''p&q''), EndElement (closing (plain_start ''a'' [])), EndDocument]"

lemma plain_start_ok: "start_ok no_scope (plain_start ''b'' [])"
  "start_ok no_scope (plain_start ''a'' [plain_attribute ''x'' (lit ''1>0'')])"
  by (simp_all add: start_ok_def plain_start_def plain_attribute_def qname_ok_def name_in_def in_scope_def
      rebound_def declarations_def declares_namespace_def is_declaration_def XMLNS_PREFIX_def
      attribute_ok_def XML_PREFIX_def is_ncname_start_char_def is_name_start_char_def is_char_def Let_def)

lemma plain_declarations:
  "declarations (se_attributes (plain_start ''b'' [])) = []"
  "declarations (se_attributes (plain_start ''a'' [plain_attribute ''x'' (lit ''1>0'')])) = []"
  by (simp_all add: plain_start_def plain_attribute_def declarations_def declares_namespace_def
      is_declaration_def XMLNS_PREFIX_def)

lemma sample_documents: "documents sample_events"
proof -
  let ?a = "plain_start ''a'' [plain_attribute ''x'' (lit ''1>0'')]" and ?b = "plain_start ''b'' []"
  have r: "rebound no_scope [] = no_scope" by (simp add: rebound_def)
  have "content no_scope [Characters (lit ''p&q'')]"
    by (intro content.Leaf content.Nothing) (simp add: is_char_def)
  then have "content no_scope (StartElement ?b # [] @ EndElement (closing ?b) # [Characters (lit ''p&q'')])"
    by (intro content.Element plain_start_ok) (simp_all add: content.Nothing)
  then have "document ([] @ StartElement ?a # (StartElement ?b # [] @ EndElement (closing ?b) #
      [Characters (lit ''p&q'')]) @ EndElement (closing ?a) # [])"
    by (intro document.intros plain_start_ok) (simp_all only: plain_declarations r, simp_all add: prolog_def)
  from documents.One_more [OF this documents.None] show ?thesis
    by (simp add: sample_events_def closing_def plain_start_def)
qed

lemma sample_text:
  "xml_text Utf8Encoder [] sample_events = lit ''<a x='' @ quoted (lit ''1>0'') @ lit ''><b/>p&amp;q</a>''"
  by (simp add: sample_events_def start_text_def attribute_text_def end_text_def quoted_def referenced_def
      plain_start_def plain_attribute_def closing_def TAB_def LF_def CR_def)

theorem writer_output_witness:
  "fst (each (write_event vec_sink) sample_events (new_writer [])) = Inr () \<and>
   xw_out (snd (each (write_event vec_sink) sample_events (new_writer []))) =
     utf8_encode (lit ''<a x='' @ quoted (lit ''1>0'') @ lit ''><b/>p&amp;q</a>'')"
proof -
  let ?w = "new_writer [] :: vec_writer"
  have b: "encoder_for (\<lambda>_. None :: unit option) (lit ''utf-8'') = Inr (Inl Utf8Encoder)"
    by (simp add: encoder_for_def Let_def trim_def white_space_def to_ascii_lower_def)
  have w: "?w = ?w\<lparr>xw_encoder := builtin_object Utf8Encoder\<rparr>" by (simp add: new_writer_def)
  have d: "declaration_text ?w = []" by (simp add: declaration_text_def new_writer_def)
  have e: "list_all (event_writable Utf8Encoder []) sample_events"
    by (simp add: sample_events_def list_all_iff)
  show ?thesis
    using writer_output [OF sample_documents b w prod.collapse [symmetric]] e
    by (simp add: d sample_text) (simp add: new_writer_def)
qed

text \<open>A system identifier with a quotation mark, which the validator lets through, is written between
  quotation marks all the same, and the declaration ends up malformed.\<close>

definition quoted_doctype :: doctype_event where
  "quoted_doctype =
     \<lparr>de_name = Some (lit ''a''), de_public_id = None, de_system_id = Some ([QUOT] @ lit ''x''),
      de_dtd = empty_dtd, de_pool = sample_pool\<rparr>"

lemma doctype_quotation_mark:
  "\<not> doctype_error quoted_doctype"
  "doctype_text quoted_doctype = lit ''<!DOCTYPE a SYSTEM '' @ [QUOT, QUOT] @ lit ''x'' @ [QUOT, GT]"
  by (simp_all add: quoted_doctype_def doctype_error_def doctype_text_def external_id_text_def quoted_def
      is_name_start_char_def is_char_def list_all_iff)

end
