(* ===== verification/Writer_Scan.thy ===== *)
theory Writer_Scan
  imports Writer_Output Scan
begin

text \<open>
  The writer and the token scanner: every tag, comment, instruction and CDATA section the writer writes
  is one token for the scanner, of its own kind and exactly as long as it was written, whatever text
  follows and whether or not the end of the input has been reached; and the text it writes is never
  taken for a tag.
\<close>

section \<open>Tags\<close>

lemma name_tag_text: "list_all is_name_char s \<Longrightarrow> tag_text t \<Longrightarrow> tag_text (s @ t)"
proof (induction s)
  case (Cons c s)
  then have "c \<notin> {QUOT, APOS, LT, GT}" using name_char_not_markup(1) [of c] by auto
  with Cons show ?case by (simp add: tag_char)
qed simp

lemma tag_text_append: "tag_text s \<Longrightarrow> tag_text t \<Longrightarrow> tag_text (s @ t)"
proof (induction rule: tag_text.induct)
  case (tag_quoted q v s)
  then show ?case using tag_text.tag_quoted [of q v "s @ t"] by simp
qed (simp_all add: tag_text.intros)

lemma qname_name_chars: "qname_ok p l \<Longrightarrow> list_all is_name_char (lexical p l)"
  by (cases p) (auto simp: qname_ok_def dest: ncname_all_name_chars simp: colon_name_char)

lemma attribute_esc_no_quote: "QUOT \<notin> set (attvalue.written_all holds s)"
proof -
  have "QUOT \<notin> set (char_reference c)" for c
    using decimal_digits [of QUOT c] by (auto simp: char_reference_def)
  then show ?thesis
    by (induction s) (auto simp: attvalue.written_def attribute_escape_def)
qed

lemma attribute_tag_text:
  assumes "reads_back e d" "qname_ok (at_prefix a) (at_local a)"
  shows "tag_text (attribute_text e a)"
proof -
  have q: "tag_text (quoted (referenced e (push_attribute [] (at_value a))))"
    using tag_quoted [of QUOT "referenced e (push_attribute [] (at_value a))" "[]"] attribute_esc_no_quote
    by (simp add: quoted_def referenced_attribute [OF assms(1)] tag_end)
  have "tag_text (lit ''='' @ quoted (referenced e (push_attribute [] (at_value a))))"
    using tag_char [OF _ q, of 61] by simp
  from name_tag_text [OF qname_name_chars [OF assms(2)] this] tag_char [of 32]
  show ?thesis by (simp add: attribute_text_def)
qed

lemma start_tag_text:
  assumes "reads_back e d" "qname_ok (se_prefix ev) (se_local ev)"
    "\<forall>a\<in>set (se_attributes ev). qname_ok (at_prefix a) (at_local a)"
  shows "tag_text (lexical (se_prefix ev) (se_local ev) @ concat (map (attribute_text e) (se_attributes ev)))"
proof -
  have "tag_text (concat (map (attribute_text e) as))"
    if "\<forall>a\<in>set as. qname_ok (at_prefix a) (at_local a)" for as
    using that by (induction as) (auto intro: tag_end tag_text_append attribute_tag_text [OF assms(1)])
  then show ?thesis using assms by (simp add: name_tag_text qname_name_chars)
qed

lemma scan_start:
  assumes "c \<notin> {QUESTION, SLASH, cp CHR ''!''}" "tag_text (c # s)"
  shows "scan ([LT] @ (c # s) @ [GT] @ rest) complete b n =
    Inr (Found token_kind.StartElement (byte_len ([LT] @ (c # s) @ [GT])))"
  using assms(1) tag_text_loop [OF assms(2), of 1 complete "GT # rest"]
  by (simp add: scan_def scan_start_tag_def bounded_def within_def utf8_len_def split: option.splits)

lemma find_gt: "GT \<notin> set s \<Longrightarrow> find_sub (lit ''>'') (s @ lit ''>'') = Some (length s)"
  by (induction s) auto

lemma find_instruction_end:
  "find_sub (lit ''?>'') s = None \<Longrightarrow> find_sub (lit ''?>'') (s @ lit ''?>'') = Some (length s)"
proof (induction s)
  case (Cons c s)
  then show ?case by (cases s) (auto split: if_splits)
qed simp

lemma find_comment_end_free:
  "find_sub (lit ''--'') s = None \<Longrightarrow> \<not> (s \<noteq> [] \<and> last s = cp CHR ''-'') \<Longrightarrow>
     find_sub (lit ''-->'') (s @ lit ''-->'') = Some (length s)"
proof (induction s)
  case (Cons c s)
  then show ?case by (cases s) (auto split: if_splits)
qed simp

lemma delimited_text:
  assumes "find_sub term (u @ term) = Some (length u)" "byte_len pre = n" "length pre = n" "term \<noteq> []"
  shows "bounded (delimited (pre @ (u @ term) @ rest) k n term complete) k' (pre @ (u @ term) @ rest) b =
    Inr (Found k (byte_len (pre @ u @ term)))"
proof -
  have "find_sub term ((u @ term) @ rest) = Some (length u)" by (rule find_sub_append [OF assms(1)])
  moreover have "\<not> byte_len (pre @ (u @ term) @ rest) \<le> n" using assms(2,4) by simp
  ultimately have "delimited (pre @ (u @ term) @ rest) k n term complete =
      Inr (Found k (byte_len (pre @ u @ term)))"
    using assms(2,3) by (simp add: delimited_def add.assoc)
  then show ?thesis by simp
qed

lemma scan_end:
  "qname_ok (ee_prefix ev) (ee_local ev) \<Longrightarrow>
     scan (end_text ev @ rest) complete b n = Inr (Found token_kind.EndElement (byte_len (end_text ev)))"
proof -
  assume q: "qname_ok (ee_prefix ev) (ee_local ev)"
  let ?s = "lexical (ee_prefix ev) (ee_local ev)"
  have "GT \<notin> set ?s" using qname_name_chars [OF q] name_char_not_markup(1) by (auto simp: list_all_iff)
  from delimited_text [OF find_gt [OF this], of "lit ''</''" 2 rest token_kind.EndElement complete
      token_kind.EndElement b]
  show ?thesis by (simp add: end_text_def scan_def utf8_len_def)
qed

lemma scan_comment:
  "comment_ok s \<Longrightarrow>
     scan (comment_text s @ rest) complete b n = Inr (Found token_kind.Comment (byte_len (comment_text s)))"
proof -
  assume "comment_ok s"
  then have "find_sub (lit ''-->'') (s @ lit ''-->'') = Some (length s)"
    by (intro find_comment_end_free) (simp_all add: comment_ok_def)
  from delimited_text [OF this, of "lit ''<!--''" 4 rest token_kind.Comment complete token_kind.Comment b]
  show ?thesis by (simp add: comment_text_def scan_def scan_markup_declaration_def utf8_len_def)
qed

lemma find_sub_free: "c \<notin> set s \<Longrightarrow> find_sub (c # p) s = None"
  by (induction s) auto

lemma find_sub_prefix_free:
  "c \<notin> set s \<Longrightarrow> find_sub (c # p) (s @ r) = map_option ((+) (length s)) (find_sub (c # p) r)"
proof (induction s)
  case Nil
  show ?case by (cases "find_sub (c # p) r") auto
next
  case (Cons d s)
  then show ?case by (cases "find_sub (c # p) r") auto
qed

lemma scan_instruction:
  "instruction_ok ev \<Longrightarrow>
     scan (instruction_text ev @ rest) complete b n =
       Inr (Found token_kind.ProcessingInstruction (byte_len (instruction_text ev)))"
proof -
  assume ok: "instruction_ok ev"
  let ?data = "if pe_data ev = [] then [] else lit '' '' @ pe_data ev"
  have "QUESTION \<notin> set (pe_target ev)"
  proof -
    have "list_all is_name_char (pe_target ev)"
      using ok by (cases "pe_target ev") (auto simp: instruction_ok_def name_start_char_is_name_char)
    moreover have "\<not> is_name_char QUESTION" by (simp add: is_name_char_def is_name_start_char_def)
    ultimately show ?thesis by (auto simp: list_all_iff)
  qed
  moreover have "find_sub (lit ''?>'') ?data = None"
    using ok by (auto simp: instruction_ok_def)
  ultimately have "find_sub (lit ''?>'') (pe_target ev @ ?data) = None"
    by (simp add: find_sub_prefix_free del: find_sub.simps)
  from delimited_text [OF find_instruction_end [OF this], of "lit ''<?''" 2 rest
      token_kind.ProcessingInstruction complete token_kind.ProcessingInstruction b]
  show ?thesis by (simp add: instruction_text_def scan_def utf8_len_def)
qed

lemma scan_section:
  "find_sub (lit '']]>'') s = None \<Longrightarrow>
     scan (push_section [] s @ rest) complete b n =
       Inr (Found token_kind.CData (byte_len (push_section [] s)))"
proof -
  assume "find_sub (lit '']]>'') s = None"
  from cdata_end_unbordered [OF this, of "[]"]
  have "find_sub (lit '']]>'') (s @ lit '']]>'') = Some (length s)" by simp
  from delimited_text [OF this, of "lit ''<![CDATA[''" 9 rest token_kind.CData complete token_kind.CData b]
  show ?thesis by (simp add: push_section_def scan_def scan_markup_declaration_def utf8_len_def)
qed

text \<open>The escaped text of character data holds no character that begins markup.\<close>

lemma text_no_lt: "LT \<notin> set (chardata.written_all holds s)"
proof -
  have "LT \<notin> set (char_reference c)" for c
    using char_reference_ascii decimal_digits [of LT c] by (auto simp: char_reference_def)
  then show ?thesis
    by (induction s) (auto simp: chardata.written_def text_escape_def)
qed

lemma scan_start_text:
  assumes e: "reads_back e d" and ok: "start_ok \<sigma> ev" and tail: "tail \<in> {lit ''>'', lit ''/>''}"
  shows "scan (start_text e ev @ tail @ rest) complete b n =
    Inr (Found token_kind.StartElement (byte_len (start_text e ev @ tail)))"
proof -
  let ?t = "lexical (se_prefix ev) (se_local ev) @ concat (map (attribute_text e) (se_attributes ev))"
  have q: "qname_ok (se_prefix ev) (se_local ev)"
      "\<forall>a\<in>set (se_attributes ev). qname_ok (at_prefix a) (at_local a)"
    using ok by (simp_all add: start_ok_def Let_def)
  have tt: "tag_text ?t" by (rule start_tag_text [OF e q])
  have "is_name (lexical (se_prefix ev) (se_local ev))"
    using q(1) by (cases "se_prefix ev") (auto simp: qname_ok_def ncname_is_name name_append_colon [simplified])
  then obtain c s where cs: "?t = c # s" "is_name_start_char c"
    by (cases "lexical (se_prefix ev) (se_local ev)") auto
  have c: "c \<notin> {QUESTION, SLASH, cp CHR ''!''}" using cs(2) by (auto simp: is_name_start_char_def)
  have slash: "tag_text (c # s @ [SLASH])"
    using tag_text_append [OF tt, of "[SLASH]"] cs(1) by (simp add: tag_char tag_end)
  have st: "start_text e ev = [LT] @ c # s" using cs(1) by (simp add: start_text_def)
  show ?thesis
    using tail scan_start [OF c tt [unfolded cs(1)], of rest complete b n]
      scan_start [OF c slash, of rest complete b n]
    by (auto simp: st)
qed

text \<open>
  C8. The tags, comments, instructions and CDATA sections that the writer writes with a built-in encoder are
  cut back into the same pieces by the scanner of the parser: where the event validator lets the event
  through, each is one token of its kind and of exactly its length, whatever text follows, whatever the
  limits and whether or not the input has ended; and written character data never holds the start of a tag.
  The DOCTYPE and the XML declaration are not covered (a system identifier with a quotation mark is written
  as a malformed DOCTYPE, \<open>doctype_quotation_mark\<close>).
\<close>

theorem written_markup_scans:
  assumes "encoder_for backend label = Inr (Inl e)"
  shows "(start_ok \<sigma> ev \<longrightarrow> (\<forall>tail\<in>{lit ''>'', lit ''/>''}.
      scan (start_text e ev @ tail @ rest) complete b n =
        Inr (Found token_kind.StartElement (byte_len (start_text e ev @ tail))))) \<and>
    (start_ok \<sigma> ev \<longrightarrow>
      scan (end_text (closing ev) @ rest) complete b n =
        Inr (Found token_kind.EndElement (byte_len (end_text (closing ev))))) \<and>
    (comment_ok c \<longrightarrow>
      scan (comment_text c @ rest) complete b n =
        Inr (Found token_kind.Comment (byte_len (comment_text c)))) \<and>
    (instruction_ok i \<longrightarrow>
      scan (instruction_text i @ rest) complete b n =
        Inr (Found token_kind.ProcessingInstruction (byte_len (instruction_text i)))) \<and>
    (leaf_ok (Cdata s) \<longrightarrow>
      scan (push_section [] s @ rest) complete b n =
        Inr (Found token_kind.CData (byte_len (push_section [] s)))) \<and>
    LT \<notin> set (referenced e (push_text [] s))"
proof -
  obtain d where e: "reads_back e d" using encoder_for_lookup [OF assms] by blast
  have "scan (end_text (closing ev) @ rest) complete b n =
      Inr (Found token_kind.EndElement (byte_len (end_text (closing ev))))" if "start_ok \<sigma> ev"
    by (rule scan_end) (use that in \<open>simp add: start_ok_def Let_def closing_def\<close>)
  moreover have "LT \<notin> set (referenced e (push_text [] s))"
    using text_no_lt by (simp add: referenced_text [OF e])
  ultimately show ?thesis
    using scan_start_text [OF e] scan_comment scan_instruction scan_section
    by (intro conjI impI ballI) (simp_all only: leaf_ok.simps not_False_eq_True)
qed

theorem written_markup_scans_witness:
  "scan (lit ''<b/>'') False token_limits_default 8192 = Inr (Found token_kind.StartElement 4)"
proof -
  have b: "encoder_for (\<lambda>_. None :: unit option) (lit ''utf-8'') = Inr (Inl Utf8Encoder)"
    by (simp add: encoder_for_def Let_def trim_def white_space_def to_ascii_lower_def)
  have t: "start_text Utf8Encoder (plain_start ''b'' []) = lit ''<b''"
    by (simp add: start_text_def plain_start_def)
  show ?thesis
    using written_markup_scans [OF b, of no_scope "plain_start ''b'' []" "[]" False token_limits_default 8192]
      plain_start_ok(1)
    by (simp add: t utf8_len_def)
qed

end
