(* ===== verification/Source.thy ===== *)
theory Source
  imports Events Chars
begin

text \<open>
  The writer source, \<open>io/write/source.rs\<close>: the calls an application makes to write a document, turned
  into events for the consumers of its dispatcher. The start of an element is held back until the next
  call shows that its attributes are complete.

  \<open>trace\<close> is the specification: the events a sequence of calls stands for.
\<close>

section \<open>The source\<close>

record written_name =
  wn_prefix :: "ustring option"
  wn_local :: ustring
  wn_namespace :: "ustring option"

record written_attribute =
  wa_name :: written_name
  wa_value :: ustring

text \<open>\<open>WrittenAttributes::get\<close>: a stored attribute as a consumer sees it.\<close>

definition attribute_view :: "written_attribute \<Rightarrow> attribute" where
  "attribute_view a =
     \<lparr>at_prefix = wn_prefix (wa_name a), at_local = wn_local (wa_name a),
      at_namespace = wn_namespace (wa_name a), at_value = wa_value a\<rparr>"

datatype step = Before | Writing | Stopped | Ended | Failed

record 'h writer_source =
  ws_dispatch :: "'h dispatcher"
  ws_open :: "written_name list"
  ws_pending :: "written_name option"
  ws_attributes :: "written_attribute list"
  ws_step :: step

definition new_source :: "'h writer_source" where
  "new_source =
     \<lparr>ws_dispatch = new_dispatcher, ws_open = [], ws_pending = None, ws_attributes = [], ws_step = Before\<rparr>"

definition source_add_consumer :: "'h \<Rightarrow> 'h writer_source \<Rightarrow> 'h writer_source" where
  "source_add_consumer h s = s\<lparr>ws_dispatch := add_consumer h (ws_dispatch s)\<rparr>"

definition source_depth :: "'h writer_source \<Rightarrow> nat" where
  "source_depth s = length (ws_open s) + (if ws_pending s \<noteq> None then 1 else 0)"

definition name_of :: "ustring \<Rightarrow> ustring option \<Rightarrow> written_name" where
  "name_of qualified_name namespace =
     (let (prefix, local) =
        (case split_qname qualified_name of
           Some (prefix, local) \<Rightarrow> (prefix, local)
         | None \<Rightarrow> (None, qualified_name))
      in \<lparr>wn_prefix = prefix, wn_local = local, wn_namespace = namespace\<rparr>)"

definition taking_writes :: "'h writer_source \<Rightarrow> bool result" where
  "taking_writes s =
     (case ws_step s of
        Before \<Rightarrow> Inr True
      | Writing \<Rightarrow> Inr True
      | Stopped \<Rightarrow> Inr False
      | Ended \<Rightarrow> Inl Internal
      | Failed \<Rightarrow> Inl Internal)"

definition settle :: "'h finish \<Rightarrow> flow result \<Rightarrow> (unit, 'h writer_source) effect" where
  "settle fin outcome s =
     (case outcome of
        Inr (Continue _) \<Rightarrow> ok () s
      | Inr (Break _) \<Rightarrow>
          ok () (s\<lparr>ws_step := Stopped, ws_dispatch := finish_dispatcher fin outcome.Stopped (ws_dispatch s)\<rparr>)
      | Inl e \<Rightarrow>
          (case dispatcher_fail fin e (ws_dispatch s) of
             (e', d) \<Rightarrow> fail e' (s\<lparr>ws_step := Failed, ws_dispatch := d\<rparr>)))"

definition report :: "'h consume \<Rightarrow> 'h finish \<Rightarrow> event \<Rightarrow> (unit, 'h writer_source) effect" where
  "report con fin ev s =
     (case consume_dispatcher con ev (ws_dispatch s) of
        (outcome, d) \<Rightarrow> settle fin outcome (s\<lparr>ws_dispatch := d\<rparr>))"

definition source_start_document :: "'h consume \<Rightarrow> 'h finish \<Rightarrow> (unit, 'h writer_source) effect" where
  "source_start_document con fin s =
     (case taking_writes s of
        Inl e \<Rightarrow> fail e s
      | Inr taking \<Rightarrow>
          if \<not> taking \<or> ws_step s \<noteq> Before then ok () s
          else report con fin StartDocument (s\<lparr>ws_step := Writing\<rparr>))"

text \<open>The rest of a method after \<open>if !self.taking_writes()? { return Ok(()); }\<close>.\<close>

definition if_taking :: "(unit, 'h writer_source) effect \<Rightarrow> (unit, 'h writer_source) effect" where
  "if_taking f s =
     (case taking_writes s of
        Inl e \<Rightarrow> fail e s
      | Inr taking \<Rightarrow> if \<not> taking then ok () s else f s)"

definition start_event :: "written_name \<Rightarrow> written_attribute list \<Rightarrow> start_element_event" where
  "start_event n as =
     \<lparr>se_prefix = wn_prefix n, se_local = wn_local n, se_namespace = wn_namespace n,
      se_attributes = map attribute_view as, se_xml_space = XmlSpaceDefault, se_xml_lang = None,
      se_base_uri = None\<rparr>"

definition end_event :: "written_name \<Rightarrow> end_element_event" where
  "end_event n =
     \<lparr>ee_prefix = wn_prefix n, ee_local = wn_local n, ee_namespace = wn_namespace n\<rparr>"

definition flush_start :: "'h consume \<Rightarrow> 'h finish \<Rightarrow> (unit, 'h writer_source) effect" where
  "flush_start con fin =
     and_then (source_start_document con fin) (\<lambda>_ s.
       case ws_pending s of
         None \<Rightarrow> ok () s
       | Some name \<Rightarrow>
           if_taking
             (\<lambda>s. case consume_dispatcher con (StartElement (start_event name (ws_attributes s))) (ws_dispatch s) of
                (outcome, d) \<Rightarrow>
                  settle fin outcome (s\<lparr>ws_dispatch := d, ws_attributes := [], ws_open := ws_open s @ [name]\<rparr>))
             (s\<lparr>ws_pending := None\<rparr>))"

definition write_content_event :: "'h consume \<Rightarrow> 'h finish \<Rightarrow> event \<Rightarrow> (unit, 'h writer_source) effect" where
  "write_content_event con fin ev =
     and_then (flush_start con fin) (\<lambda>_. if_taking (report con fin ev))"

definition source_write_doctype ::
  "'h consume \<Rightarrow> 'h finish \<Rightarrow> ustring \<Rightarrow> ustring option \<Rightarrow> ustring option \<Rightarrow> dtd \<Rightarrow> name_pool \<Rightarrow>
   (unit, 'h writer_source) effect" where
  "source_write_doctype con fin name public_id system_id dtd pool =
     and_then (source_start_document con fin) (\<lambda>_.
       if_taking
         (report con fin
           (Doctype \<lparr>de_name = Some name, de_public_id = public_id, de_system_id = system_id, de_dtd = dtd,
              de_pool = pool\<rparr>)))"

definition write_start_element_ns ::
  "'h consume \<Rightarrow> 'h finish \<Rightarrow> ustring option \<Rightarrow> ustring \<Rightarrow> (unit, 'h writer_source) effect" where
  "write_start_element_ns con fin namespace qualified_name =
     and_then (flush_start con fin) (\<lambda>_.
       if_taking (modify (\<lambda>s. s\<lparr>ws_pending := Some (name_of qualified_name namespace)\<rparr>)))"

definition source_write_start_element ::
  "'h consume \<Rightarrow> 'h finish \<Rightarrow> ustring \<Rightarrow> (unit, 'h writer_source) effect" where
  "source_write_start_element con fin qualified_name = write_start_element_ns con fin None qualified_name"

definition write_attribute_ns ::
  "ustring option \<Rightarrow> ustring \<Rightarrow> ustring \<Rightarrow> (unit, 'h writer_source) effect" where
  "write_attribute_ns namespace qualified_name value =
     if_taking
       (\<lambda>s. if ws_pending s = None then fail Internal s
            else ok () (s\<lparr>ws_attributes := ws_attributes s @
              [\<lparr>wa_name = name_of qualified_name namespace, wa_value = value\<rparr>]\<rparr>))"

definition source_write_attribute :: "ustring \<Rightarrow> ustring \<Rightarrow> (unit, 'h writer_source) effect" where
  "source_write_attribute qualified_name value = write_attribute_ns None qualified_name value"

definition source_write_characters :: "'h consume \<Rightarrow> 'h finish \<Rightarrow> ustring \<Rightarrow> (unit, 'h writer_source) effect" where
  "source_write_characters con fin str = write_content_event con fin (Characters str)"

definition source_write_cdata :: "'h consume \<Rightarrow> 'h finish \<Rightarrow> ustring \<Rightarrow> (unit, 'h writer_source) effect" where
  "source_write_cdata con fin str = write_content_event con fin (Cdata str)"

definition source_write_comment :: "'h consume \<Rightarrow> 'h finish \<Rightarrow> ustring \<Rightarrow> (unit, 'h writer_source) effect" where
  "source_write_comment con fin str = write_content_event con fin (Comment str)"

definition source_write_processing_instruction ::
  "'h consume \<Rightarrow> 'h finish \<Rightarrow> ustring \<Rightarrow> ustring \<Rightarrow> (unit, 'h writer_source) effect" where
  "source_write_processing_instruction con fin target data =
     write_content_event con fin (ProcessingInstruction \<lparr>pe_target = target, pe_data = data\<rparr>)"

definition source_write_end_element :: "'h consume \<Rightarrow> 'h finish \<Rightarrow> (unit, 'h writer_source) effect" where
  "source_write_end_element con fin =
     and_then (flush_start con fin) (\<lambda>_.
       if_taking
         (\<lambda>s. if ws_open s = [] then fail Internal s
              else report con fin (EndElement (end_event (last (ws_open s))))
                (s\<lparr>ws_open := butlast (ws_open s)\<rparr>)))"

definition source_end_document :: "'h consume \<Rightarrow> 'h finish \<Rightarrow> (unit, 'h writer_source) effect" where
  "source_end_document con fin =
     and_then (source_start_document con fin) (\<lambda>_.
       and_then (flush_start con fin) (\<lambda>_.
         if_taking
           (\<lambda>s. case consume_dispatcher con EndDocument (ws_dispatch s) of
              (Inl e, d) \<Rightarrow>
                (case dispatcher_fail fin e d of
                   (e', d') \<Rightarrow> fail e' (s\<lparr>ws_step := Failed, ws_dispatch := d'\<rparr>))
            | (Inr _, d) \<Rightarrow>
                ok () (s\<lparr>ws_step := Ended, ws_dispatch := finish_dispatcher fin Completed d\<rparr>))))"

section \<open>The events of a sequence of calls\<close>

datatype call =
  Start_Document
| Write_Doctype ustring "ustring option" "ustring option" dtd name_pool
| Write_Start "ustring option" ustring
| Write_Attribute "ustring option" ustring ustring
| Write_Content event
| Write_End
| End_Document

fun perform :: "'h consume \<Rightarrow> 'h finish \<Rightarrow> call \<Rightarrow> (unit, 'h writer_source) effect" where
  "perform con fin Start_Document = source_start_document con fin"
| "perform con fin (Write_Doctype n p s d pool) = source_write_doctype con fin n p s d pool"
| "perform con fin (Write_Start ns q) = write_start_element_ns con fin ns q"
| "perform con fin (Write_Attribute ns q v) = write_attribute_ns ns q v"
| "perform con fin (Write_Content ev) = write_content_event con fin ev"
| "perform con fin Write_End = source_write_end_element con fin"
| "perform con fin End_Document = source_end_document con fin"

definition flushed :: "(written_name \<times> written_attribute list) option \<Rightarrow> event list" where
  "flushed p = (case p of None \<Rightarrow> [] | Some (n, as) \<Rightarrow> [StartElement (start_event n as)])"

definition opened_names ::
  "(written_name \<times> written_attribute list) option \<Rightarrow> written_name list \<Rightarrow> written_name list" where
  "opened_names p os = (case p of None \<Rightarrow> os | Some (n, as) \<Rightarrow> os @ [n])"

fun trace ::
  "(written_name \<times> written_attribute list) option \<Rightarrow> written_name list \<Rightarrow> call list \<Rightarrow> event list" where
  "trace p os [] = []"
| "trace p os (Start_Document # cs) = trace p os cs"
| "trace p os (Write_Doctype n pub sys d pool # cs) =
     Doctype \<lparr>de_name = Some n, de_public_id = pub, de_system_id = sys, de_dtd = d, de_pool = pool\<rparr>
     # trace p os cs"
| "trace p os (Write_Start ns q # cs) = flushed p @ trace (Some (name_of q ns, [])) (opened_names p os) cs"
| "trace p os (Write_Attribute ns q v # cs) =
     trace (map_option (\<lambda>(n, as). (n, as @ [\<lparr>wa_name = name_of q ns, wa_value = v\<rparr>])) p) os cs"
| "trace p os (Write_Content ev # cs) = flushed p @ ev # trace None (opened_names p os) cs"
| "trace p os (Write_End # cs) =
     flushed p @ EndElement (end_event (last (opened_names p os)))
     # trace None (butlast (opened_names p os)) cs"
| "trace p os (End_Document # cs) = flushed p @ [EndDocument]"

text \<open>A document type declaration is reported before a start element that is still held back.\<close>

lemma doctype_overtakes:
  "trace None [] [Write_Start ns q, Write_Doctype n pub sys d pool, Write_End] =
     [Doctype \<lparr>de_name = Some n, de_public_id = pub, de_system_id = sys, de_dtd = d, de_pool = pool\<rparr>,
      StartElement (start_event (name_of q ns) []), EndElement (end_event (name_of q ns))]"
  by (simp add: flushed_def opened_names_def)

end
