(* ===== verification/Pipeline.thy ===== *)
theory Pipeline
  imports Source Writer_Output
begin

text \<open>
  The pipeline the documentation recommends for writing: a writer source whose dispatcher holds the
  event validator and, behind it, the XML writer. The lemmas follow a call through the source, the
  dispatcher and the two consumers; the theorem states what has been written once the calls have
  ended the document without an error.
\<close>

section \<open>Consumers that always go on\<close>

text \<open>
  The contract of a consumer that neither stops early nor counts validity errors: it goes on or fails.
\<close>

locale steady_consumer =
  fixes con :: "'h consume"
  assumes steady: "con ev h = (Inr f, h') \<Longrightarrow> f = Continue 0"
begin

definition accept :: "event \<Rightarrow> (unit, 'h) effect" where
  "accept ev = and_then (con ev) (\<lambda>_. ok ())"

lemma accept_iff: "accept ev h = (Inr (), h') \<longleftrightarrow> con ev h = (Inr (Continue 0), h')"
  by (auto simp: accept_def and_then_eq_Inr dest: steady)

text \<open>One event through members that are all taking part: each member in turn, up to the first that fails.\<close>

lemma dispatch_steady:
  assumes "\<forall>m\<in>set ms. \<not> mb_finished m"
    "dispatch_loop con limit ev n 0 ms = (Inr r, k, ms')" "n \<le> usize_max"
  shows "r = n \<and> k = 0 \<and> list_all2 (\<lambda>m m'. \<exists>h'. con ev (mb_handler m) = (Inr (Continue 0), h') \<and>
    m' = m\<lparr>mb_handler := h'\<rparr>) ms ms'"
  using assms
proof (induction ms arbitrary: ms')
  case (Cons m ms)
  obtain q h where q: "con ev (mb_handler m) = (q, h)" by force
  show ?case
  proof (cases q)
    case (Inr f)
    then have "f = Continue 0" using steady q by blast
    moreover obtain ms'' where "dispatch_loop con limit ev n 0 ms = (Inr r, k, ms'')"
        "ms' = m\<lparr>mb_handler := h\<rparr> # ms''"
      using Cons.prems q Inr calculation
      by (auto simp: saturating_add_def min_def split: option.splits prod.splits if_splits)
    ultimately show ?thesis using Cons q Inr by auto
  qed (use Cons.prems q in simp)
qed simp

end

section \<open>Validator and writer\<close>

datatype handler = Validator strict | Output vec_writer

fun consume_handler :: "handler consume" where
  "consume_handler ev (Validator s) = (case consume_strict ev s of (r, s') \<Rightarrow> (r, Validator s'))"
| "consume_handler ev (Output w) = (case consume_writer vec_sink ev w of (r, w') \<Rightarrow> (r, Output w'))"

fun finish_handler :: "handler finish" where
  "finish_handler outcome (Validator s) = Validator (finish_strict outcome s)"
| "finish_handler outcome (Output w) = Output (finish_writer outcome w)"

lemma consume_strict_iff:
  "consume_strict ev s = (Inr f, s') \<longleftrightarrow> f = Continue 0 \<and> check ev s = (Inr (), s')"
  by (auto simp: consume_strict_def and_then_eq_Inr)

lemma consume_writer_iff:
  "consume_writer sink ev w = (Inr f, w') \<longleftrightarrow> f = Continue 0 \<and> write_event sink ev w = (Inr (), w')"
  by (auto simp: consume_writer_def and_then_eq_Inr)

interpretation strict_consumer: steady_consumer consume_strict
  by unfold_locales (simp add: consume_strict_iff)

interpretation writer_consumer: steady_consumer "consume_writer sink" for sink
  by unfold_locales (simp add: consume_writer_iff)

interpretation pipe: steady_consumer consume_handler
proof
  fix ev h f h' assume "consume_handler ev h = (Inr f, h')"
  then show "f = Continue 0"
    by (cases h) (auto split: prod.splits simp: consume_strict_iff consume_writer_iff)
qed

definition members_of :: "bool \<Rightarrow> strict \<Rightarrow> vec_writer \<Rightarrow> handler member list" where
  "members_of b s w =
     [\<lparr>mb_handler = Validator s, mb_validator = b, mb_finished = False\<rparr>,
      \<lparr>mb_handler = Output w, mb_validator = False, mb_finished = False\<rparr>]"

definition piping :: "bool \<Rightarrow> strict \<Rightarrow> vec_writer \<Rightarrow> handler dispatcher \<Rightarrow> bool" where
  "piping b s w d \<longleftrightarrow> dp_members d = members_of b s w \<and> dp_validity_error_count d = 0"

lemma members_of_begin: "map (\<lambda>m. m\<lparr>mb_finished := False\<rparr>) (members_of b s w) = members_of b s w"
  by (simp add: members_of_def)

text \<open>An event that passes the dispatcher has passed the validator and has been written.\<close>

lemma dispatch_pipe:
  assumes p: "piping b s w d" and c: "consume_dispatcher consume_handler ev d = (Inr f, d')"
  shows "\<exists>s' w'. check ev s = (Inr (), s') \<and> write_event vec_sink ev w = (Inr (), w') \<and>
    piping b s' w' d' \<and> f = Continue 0"
proof -
  let ?d = "case ev of StartDocument \<Rightarrow> begin_run d | _ \<Rightarrow> d"
  have d: "dp_members ?d = members_of b s w" "dp_validity_error_count ?d = 0"
    using p by (auto simp: piping_def begin_run_def members_of_begin split: event.splits)
  obtain r n ms where l: "dispatch_loop consume_handler (dp_max_errors ?d) ev 0 0 (members_of b s w) = (r, n, ms)"
    by (metis prod_cases3)
  obtain k where k: "r = Inr k"
    using c l d by (cases r) (simp_all add: consume_dispatcher_def Let_def)
  have "k = 0 \<and> n = 0 \<and> list_all2 (\<lambda>m m'. \<exists>h'. consume_handler ev (mb_handler m) = (Inr (Continue 0), h') \<and>
      m' = m\<lparr>mb_handler := h'\<rparr>) (members_of b s w) ms"
    by (rule pipe.dispatch_steady [OF _ l [unfolded k]]) (simp_all add: members_of_def)
  then obtain s' w' where m: "k = 0" "n = 0" "check ev s = (Inr (), s')" "write_event vec_sink ev w = (Inr (), w')"
      "ms = members_of b s' w'"
    by (auto simp: members_of_def list_all2_Cons1 consume_strict_iff consume_writer_iff split: prod.splits)
  have "f = (if is_stopped (?d\<lparr>dp_members := ms, dp_validity_error_count := n\<rparr>) then Break 0 else Continue 0)"
      "d' = ?d\<lparr>dp_members := ms, dp_validity_error_count := n\<rparr>"
    using c l d m(1,2) k by (auto simp: consume_dispatcher_def Let_def)
  then show ?thesis using m by (auto simp: piping_def is_stopped_def members_of_def Let_def)
qed

section \<open>The source in front of the pipeline\<close>

type_synonym pipe_source = "handler writer_source"

definition pend :: "'h writer_source \<Rightarrow> (written_name \<times> written_attribute list) option" where
  "pend src = map_option (\<lambda>n. (n, ws_attributes src)) (ws_pending src)"

definition start_of :: "'h writer_source \<Rightarrow> event list" where
  "start_of src = (if ws_step src = Before then [StartDocument] else [])"

definition linked :: "bool \<Rightarrow> strict \<Rightarrow> vec_writer \<Rightarrow> pipe_source \<Rightarrow> bool" where
  "linked b s w src \<longleftrightarrow>
     piping b s w (ws_dispatch src) \<and> ws_step src \<in> {Before, Writing} \<and>
     (ws_pending src = None \<longrightarrow> ws_attributes src = []) \<and>
     (ws_step src = Before \<longrightarrow> ws_pending src = None)"

definition fed :: "strict \<Rightarrow> vec_writer \<Rightarrow> event list \<Rightarrow> strict \<Rightarrow> vec_writer \<Rightarrow> bool" where
  "fed s w es s' w' \<longleftrightarrow>
     each check es s = (Inr (), s') \<and> each (write_event vec_sink) es w = (Inr (), w')"

lemma fed_Nil: "fed s w [] s w"
  by (simp add: fed_def)

lemma fed_one: "check ev s = (Inr (), s') \<Longrightarrow> write_event vec_sink ev w = (Inr (), w') \<Longrightarrow> fed s w [ev] s' w'"
  by (simp add: fed_def and_then_eq_Inr)

lemma fed_append: "fed s w es s' w' \<Longrightarrow> fed s' w' es' s'' w'' \<Longrightarrow> fed s w (es @ es') s'' w''"
  by (auto simp: fed_def each_append_Inr)

abbreviation "prep \<equiv> report consume_handler finish_handler"

lemma settle_Inr:
  "settle fin (Inr (Continue k)) src = (Inr (), src)"
  "settle fin (Inl e) src \<noteq> (Inr (), src')"
  by (simp_all add: settle_def dispatcher_fail_def)

lemma dispatched:
  assumes "piping b s w (ws_dispatch src)"
    "(case consume_dispatcher consume_handler ev (ws_dispatch src) of
       (r, d) \<Rightarrow> settle finish_handler r (f d)) = (Inr (), src')"
  shows "\<exists>s' w' d. fed s w [ev] s' w' \<and> piping b s' w' d \<and> src' = f d"
proof -
  obtain r d where c: "consume_dispatcher consume_handler ev (ws_dispatch src) = (r, d)" by force
  then obtain k where "r = Inr k" using assms(2) settle_Inr(2) by (cases r) auto
  with dispatch_pipe [OF assms(1), of ev k d] c
  obtain s' w' where p: "check ev s = (Inr (), s')" "write_event vec_sink ev w = (Inr (), w')"
      "piping b s' w' d" "r = Inr (Continue 0)"
    by blast
  then have "src' = f d" using assms(2) c by (simp add: settle_Inr)
  with p fed_one show ?thesis by blast
qed

lemma report_pipe:
  assumes "linked b s w src" "prep ev src = (Inr (), src')"
  shows "\<exists>s' w' d. fed s w [ev] s' w' \<and> linked b s' w' src' \<and> src' = src\<lparr>ws_dispatch := d\<rparr>"
proof -
  have "piping b s w (ws_dispatch src)" using assms(1) by (simp add: linked_def)
  from dispatched [where f = "\<lambda>d. src\<lparr>ws_dispatch := d\<rparr>", OF this assms(2) [unfolded report_def]]
  obtain s' w' d where r: "fed s w [ev] s' w'" "piping b s' w' d" "src' = src\<lparr>ws_dispatch := d\<rparr>" by blast
  moreover have "linked b s' w' src'" using r(2) assms(1) by (simp add: linked_def r(3))
  ultimately show ?thesis by blast
qed

lemma taking: "linked b s w src \<Longrightarrow> taking_writes src = Inr True"
  by (auto simp: linked_def taking_writes_def)

lemma if_taking_linked: "linked b s w src \<Longrightarrow> if_taking f src = f src"
  by (simp add: if_taking_def taking)

lemma source_start_pipe:
  assumes "linked b s w src" "source_start_document consume_handler finish_handler src = (Inr (), src')"
  shows "\<exists>s' w' d. fed s w (start_of src) s' w' \<and> linked b s' w' src' \<and>
    src' = src\<lparr>ws_dispatch := d, ws_step := Writing\<rparr>"
proof (cases "ws_step src = Before")
  case True
  let ?src = "src\<lparr>ws_step := Writing\<rparr>"
  have l: "linked b s w ?src" using assms(1) by (auto simp: linked_def)
  have "prep StartDocument ?src = (Inr (), src')"
    using assms True by (simp add: source_start_document_def taking)
  from report_pipe [OF l this] obtain s' w' d where "fed s w [StartDocument] s' w'" "linked b s' w' src'"
      "src' = ?src\<lparr>ws_dispatch := d\<rparr>"
    by blast
  then show ?thesis using True
    by (intro exI [of _ s'] exI [of _ w'] exI [of _ d]) (simp add: start_of_def)
next
  case False
  then have "ws_step src = Writing" using assms(1) by (auto simp: linked_def)
  then have "src' = src" "src = src\<lparr>ws_dispatch := ws_dispatch src, ws_step := Writing\<rparr>"
    using assms by (auto simp: source_start_document_def taking)
  with False assms(1) fed_Nil show ?thesis unfolding start_of_def by metis
qed

lemma flush_pipe:
  assumes "linked b s w src" "flush_start consume_handler finish_handler src = (Inr (), src')"
  shows "\<exists>s' w'. fed s w (start_of src @ flushed (pend src)) s' w' \<and> linked b s' w' src' \<and>
    ws_step src' = Writing \<and> pend src' = None \<and> ws_open src' = opened_names (pend src) (ws_open src)"
proof -
  obtain src1 where 1: "source_start_document consume_handler finish_handler src = (Inr (), src1)"
      and 2: "(case ws_pending src1 of
         None \<Rightarrow> ok () src1
       | Some name \<Rightarrow>
           if_taking
             (\<lambda>s. case consume_dispatcher consume_handler (StartElement (start_event name (ws_attributes s))) (ws_dispatch s) of
                (outcome, d) \<Rightarrow>
                  settle finish_handler outcome (s\<lparr>ws_dispatch := d, ws_attributes := [], ws_open := ws_open s @ [name]\<rparr>))
             (src1\<lparr>ws_pending := None\<rparr>)) = (Inr (), src')"
    using assms(2) by (auto simp: flush_start_def and_then_eq_Inr)
  obtain s1 w1 d where s1: "fed s w (start_of src) s1 w1" "linked b s1 w1 src1"
      "src1 = src\<lparr>ws_dispatch := d, ws_step := Writing\<rparr>"
    using source_start_pipe [OF assms(1) 1] by blast
  show ?thesis
  proof (cases "ws_pending src")
    case None
    then have "src' = src1" using 2 s1(3) by simp
    with None s1 show ?thesis
      by (intro exI [of _ s1] exI [of _ w1]) (simp add: pend_def flushed_def opened_names_def)
  next
    case (Some name)
    let ?src = "src1\<lparr>ws_pending := None\<rparr>"
    have t: "taking_writes ?src = Inr True" by (simp add: taking_writes_def s1(3))
    have p: "piping b s1 w1 (ws_dispatch ?src)" using s1(2) by (simp add: linked_def)
    have "(case consume_dispatcher consume_handler (StartElement (start_event name (ws_attributes ?src)))
          (ws_dispatch ?src) of (r, d) \<Rightarrow>
        settle finish_handler r (?src\<lparr>ws_dispatch := d, ws_attributes := [], ws_open := ws_open ?src @ [name]\<rparr>)) =
        (Inr (), src')"
      using 2 Some s1(3) t by (simp add: if_taking_def)
    from dispatched [OF p this]
    obtain s2 w2 d2 where s2: "fed s1 w1 [StartElement (start_event name (ws_attributes ?src))] s2 w2"
        "piping b s2 w2 d2"
        "src' = ?src\<lparr>ws_dispatch := d2, ws_attributes := [], ws_open := ws_open ?src @ [name]\<rparr>"
      by blast
    have "fed s w (start_of src @ flushed (pend src)) s2 w2"
      using fed_append [OF s1(1) s2(1)] Some s1(3) by (simp add: pend_def flushed_def)
    then show ?thesis using s2(2,3) Some s1(3)
      by (intro exI [of _ s2] exI [of _ w2]) (simp add: linked_def pend_def opened_names_def)
  qed
qed

section \<open>Calls\<close>

text \<open>The names and the attributes held back after a call, and the events it reports.\<close>

fun held :: "(written_name \<times> written_attribute list) option \<Rightarrow> call \<Rightarrow> (written_name \<times> written_attribute list) option" where
  "held p (Write_Start ns q) = Some (name_of q ns, [])"
| "held p (Write_Attribute ns q v) =
     map_option (\<lambda>(n, as). (n, as @ [\<lparr>wa_name = name_of q ns, wa_value = v\<rparr>])) p"
| "held p (Write_Content ev) = None"
| "held p Write_End = None"
| "held p End_Document = None"
| "held p _ = p"

fun opens :: "(written_name \<times> written_attribute list) option \<Rightarrow> written_name list \<Rightarrow> call \<Rightarrow> written_name list" where
  "opens p os (Write_Start ns q) = opened_names p os"
| "opens p os (Write_Content ev) = opened_names p os"
| "opens p os Write_End = butlast (opened_names p os)"
| "opens p os End_Document = opened_names p os"
| "opens p os _ = os"

fun emitted :: "(written_name \<times> written_attribute list) option \<Rightarrow> written_name list \<Rightarrow> call \<Rightarrow> event list" where
  "emitted p os (Write_Doctype n pub sys d pool) =
     [Doctype \<lparr>de_name = Some n, de_public_id = pub, de_system_id = sys, de_dtd = d, de_pool = pool\<rparr>]"
| "emitted p os (Write_Start ns q) = flushed p"
| "emitted p os (Write_Content ev) = flushed p @ [ev]"
| "emitted p os Write_End = flushed p @ [EndElement (end_event (last (opened_names p os)))]"
| "emitted p os End_Document = flushed p @ [EndDocument]"
| "emitted p os _ = []"

lemma trace_Cons:
  "c \<noteq> End_Document \<Longrightarrow> trace p os (c # cs) = emitted p os c @ trace (held p c) (opens p os c) cs"
  by (cases c) auto

abbreviation "pperform \<equiv> perform consume_handler finish_handler"

lemma call_pipe:
  assumes l: "linked b s w src" and c: "c \<noteq> End_Document" and r: "pperform c src = (Inr (), src')"
  shows "\<exists>s' w'. fed s w (start_of src @ emitted (pend src) (ws_open src) c) s' w' \<and> linked b s' w' src' \<and>
    ws_step src' = Writing \<and> pend src' = held (pend src) c \<and> ws_open src' = opens (pend src) (ws_open src) c"
proof -
  have content: "\<exists>s' w'. fed s w (start_of src @ flushed (pend src) @ [ev]) s' w' \<and> linked b s' w' src' \<and>
      ws_step src' = Writing \<and> pend src' = None \<and> ws_open src' = os'"
    if f: "flush_start consume_handler finish_handler src = (Inr (), src1)"
      and p: "prep ev (k src1) = (Inr (), src')"
      and k: "\<And>x. ws_dispatch (k x) = ws_dispatch x" "\<And>x. ws_step (k x) = ws_step x"
        "\<And>x. ws_pending (k x) = ws_pending x" "\<And>x. ws_attributes (k x) = ws_attributes x" "ws_open (k src1) = os'"
    for ev src1 k os'
  proof -
    obtain s1 w1 where 1: "fed s w (start_of src @ flushed (pend src)) s1 w1" "linked b s1 w1 src1"
        "ws_step src1 = Writing" "pend src1 = None"
      using flush_pipe [OF l f] by blast
    have "linked b s1 w1 (k src1)" using 1(2) k by (simp add: linked_def)
    from report_pipe [OF this p] obtain s2 w2 d where 2: "fed s1 w1 [ev] s2 w2" "linked b s2 w2 src'"
        "src' = (k src1)\<lparr>ws_dispatch := d\<rparr>"
      by blast
    from fed_append [OF 1(1) 2(1)] have "fed s w (start_of src @ flushed (pend src) @ [ev]) s2 w2" by simp
    with 2 1(3,4) k show ?thesis
      by (intro exI [of _ s2] exI [of _ w2]) (simp add: pend_def)
  qed
  show ?thesis
  proof (cases c)
    case Start_Document
    then have "source_start_document consume_handler finish_handler src = (Inr (), src')" using r by simp
    from source_start_pipe [OF l this] obtain s1 w1 d where "fed s w (start_of src) s1 w1"
        "linked b s1 w1 src'" "src' = src\<lparr>ws_dispatch := d, ws_step := Writing\<rparr>"
      by blast
    then show ?thesis
      by (intro exI [of _ s1] exI [of _ w1]) (simp add: Start_Document pend_def)
  next
    case (Write_Doctype n pub sys dtd pool)
    let ?ev = "Doctype \<lparr>de_name = Some n, de_public_id = pub, de_system_id = sys, de_dtd = dtd, de_pool = pool\<rparr>"
    obtain src1 where 1: "source_start_document consume_handler finish_handler src = (Inr (), src1)"
        "if_taking (prep ?ev) src1 = (Inr (), src')"
      using r by (auto simp: Write_Doctype source_write_doctype_def and_then_eq_Inr)
    obtain s1 w1 d where s1: "fed s w (start_of src) s1 w1" "linked b s1 w1 src1"
        "src1 = src\<lparr>ws_dispatch := d, ws_step := Writing\<rparr>"
      using source_start_pipe [OF l 1(1)] by blast
    have "prep ?ev src1 = (Inr (), src')" using 1(2) by (simp add: if_taking_linked [OF s1(2)])
    from report_pipe [OF s1(2) this] obtain s2 w2 d2 where s2: "fed s1 w1 [?ev] s2 w2" "linked b s2 w2 src'"
        "src' = src1\<lparr>ws_dispatch := d2\<rparr>"
      by blast
    from fed_append [OF s1(1) s2(1)] s2(2,3) s1(3) show ?thesis
      by (intro exI [of _ s2] exI [of _ w2]) (simp add: Write_Doctype pend_def)
  next
    case (Write_Start ns q)
    obtain src1 where 1: "flush_start consume_handler finish_handler src = (Inr (), src1)"
        "if_taking (modify (\<lambda>s. s\<lparr>ws_pending := Some (name_of q ns)\<rparr>)) src1 = (Inr (), src')"
      using r by (auto simp: Write_Start write_start_element_ns_def and_then_eq_Inr)
    obtain s1 w1 where s1: "fed s w (start_of src @ flushed (pend src)) s1 w1" "linked b s1 w1 src1"
        "ws_step src1 = Writing" "pend src1 = None" "ws_open src1 = opened_names (pend src) (ws_open src)"
      using flush_pipe [OF l 1(1)] by blast
    have "src' = src1\<lparr>ws_pending := Some (name_of q ns)\<rparr>"
      using 1(2) by (simp add: if_taking_linked [OF s1(2)])
    then show ?thesis using s1
      by (intro exI [of _ s1] exI [of _ w1]) (simp add: Write_Start pend_def linked_def)
  next
    case (Write_Attribute ns q v)
    then have 1: "ws_pending src \<noteq> None"
        "src' = src\<lparr>ws_attributes := ws_attributes src @ [\<lparr>wa_name = name_of q ns, wa_value = v\<rparr>]\<rparr>"
      using r by (auto simp: write_attribute_ns_def if_taking_linked [OF l] split: if_splits)
    then have "ws_step src = Writing" using l by (auto simp: linked_def)
    with 1 l fed_Nil show ?thesis
      by (intro exI [of _ s] exI [of _ w]) (auto simp: Write_Attribute pend_def linked_def start_of_def)
  next
    case (Write_Content ev)
    obtain src1 where 1: "flush_start consume_handler finish_handler src = (Inr (), src1)"
        "if_taking (prep ev) src1 = (Inr (), src')"
      using r by (auto simp: Write_Content write_content_event_def and_then_eq_Inr)
    obtain s1 w1 where s1: "linked b s1 w1 src1" "ws_open src1 = opened_names (pend src) (ws_open src)"
      using flush_pipe [OF l 1(1)] by blast
    have "prep ev src1 = (Inr (), src')" using 1(2) by (simp add: if_taking_linked [OF s1(1)])
    from content [OF 1(1), where k = "\<lambda>x. x", OF this _ _ _ _ s1(2)] show ?thesis
      by (simp add: Write_Content)
  next
    case Write_End
    obtain src1 where 1: "flush_start consume_handler finish_handler src = (Inr (), src1)"
        "if_taking
         (\<lambda>s. if ws_open s = [] then fail Internal s
              else prep (EndElement (end_event (last (ws_open s)))) (s\<lparr>ws_open := butlast (ws_open s)\<rparr>)) src1 =
         (Inr (), src')"
      using r by (auto simp: Write_End source_write_end_element_def and_then_eq_Inr)
    obtain s1 w1 where s1: "linked b s1 w1 src1" "ws_open src1 = opened_names (pend src) (ws_open src)"
      using flush_pipe [OF l 1(1)] by blast
    have p: "prep (EndElement (end_event (last (ws_open src1)))) (src1\<lparr>ws_open := butlast (ws_open src1)\<rparr>) =
        (Inr (), src')"
      using 1(2) by (simp add: if_taking_linked [OF s1(1)] split: if_splits)
    from content [OF 1(1), where k = "\<lambda>x. x\<lparr>ws_open := butlast (ws_open x)\<rparr>", OF p _ _ _ _ refl] show ?thesis
      by (simp add: Write_End s1(2))
  qed (use c in simp)
qed

lemma end_pipe:
  assumes l: "linked b s w src" and r: "pperform End_Document src = (Inr (), src')"
  shows "\<exists>s' w' d. fed s w (start_of src @ flushed (pend src) @ [EndDocument]) s' w' \<and> piping b s' w' d \<and>
    ws_dispatch src' = finish_dispatcher finish_handler Completed d \<and> ws_step src' = Ended"
proof -
  obtain src0 src1 where 0: "source_start_document consume_handler finish_handler src = (Inr (), src0)"
      and 1: "flush_start consume_handler finish_handler src0 = (Inr (), src1)"
      and 2: "if_taking
           (\<lambda>s. case consume_dispatcher consume_handler EndDocument (ws_dispatch s) of
              (Inl e, d) \<Rightarrow>
                (case dispatcher_fail finish_handler e d of
                   (e', d') \<Rightarrow> fail e' (s\<lparr>ws_step := Failed, ws_dispatch := d'\<rparr>))
            | (Inr _, d) \<Rightarrow>
                ok () (s\<lparr>ws_step := Ended, ws_dispatch := finish_dispatcher finish_handler Completed d\<rparr>)) src1 =
          (Inr (), src')"
    using r by (auto simp: source_end_document_def and_then_eq_Inr)
  obtain s0 w0 d0 where s0: "fed s w (start_of src) s0 w0" "linked b s0 w0 src0"
      "src0 = src\<lparr>ws_dispatch := d0, ws_step := Writing\<rparr>"
    using source_start_pipe [OF l 0] by blast
  obtain s1 w1 where s1: "fed s0 w0 (start_of src0 @ flushed (pend src0)) s1 w1" "linked b s1 w1 src1"
    using flush_pipe [OF s0(2) 1] by blast
  obtain q d where c: "consume_dispatcher consume_handler EndDocument (ws_dispatch src1) = (q, d)" by force
  have p: "piping b s1 w1 (ws_dispatch src1)" using s1(2) by (simp add: linked_def)
  obtain f where q: "q = Inr f"
    using 2 c by (cases q) (auto simp: if_taking_linked [OF s1(2)] dispatcher_fail_def)
  obtain s2 w2 where s2: "fed s1 w1 [EndDocument] s2 w2" "piping b s2 w2 d"
    using dispatch_pipe [OF p c [unfolded q]] fed_one by blast
  have "fed s w (start_of src @ flushed (pend src) @ [EndDocument]) s2 w2"
    using fed_append [OF s0(1) fed_append [OF s1(1) s2(1)]] s0(3) by (simp add: start_of_def pend_def)
  moreover have "ws_dispatch src' = finish_dispatcher finish_handler Completed d" "ws_step src' = Ended"
    using 2 c q by (auto simp: if_taking_linked [OF s1(2)])
  ultimately show ?thesis using s2(2) by blast
qed

lemma ended_refuses: "ws_step src = Ended \<Longrightarrow> pperform c src \<noteq> (Inr (), src')"
  by (cases c)
     (auto simp: source_start_document_def source_write_doctype_def write_start_element_ns_def flush_start_def
       write_attribute_ns_def write_content_event_def source_write_end_element_def source_end_document_def
       if_taking_def taking_writes_def and_then_eq_Inr)

lemma calls_pipe:
  "linked b s w src \<Longrightarrow> each pperform cs src = (Inr (), src') \<Longrightarrow> ws_step src' = Ended \<Longrightarrow>
     \<exists>s' w' d. fed s w (start_of src @ trace (pend src) (ws_open src) cs) s' w' \<and> piping b s' w' d \<and>
       ws_dispatch src' = finish_dispatcher finish_handler Completed d \<and>
       (\<exists>es. trace (pend src) (ws_open src) cs = es @ [EndDocument])"
proof (induction cs arbitrary: s w src)
  case Nil
  then show ?case by (auto simp: linked_def)
next
  case (Cons c cs)
  obtain src1 where 1: "pperform c src = (Inr (), src1)" "each pperform cs src1 = (Inr (), src')"
    using Cons.prems(2) unfolding each_Cons_Inr by blast
  show ?case
  proof (cases "c = End_Document")
    case True
    obtain s1 w1 d where s1: "fed s w (start_of src @ flushed (pend src) @ [EndDocument]) s1 w1" "piping b s1 w1 d"
        "ws_dispatch src1 = finish_dispatcher finish_handler Completed d" "ws_step src1 = Ended"
      using end_pipe [OF Cons.prems(1)] 1(1) True by blast
    have "cs = []"
      using 1(2) ended_refuses [OF s1(4)] by (cases cs) (auto simp: each_Cons_Inr simp del: each.simps)
    with 1(2) have "src' = src1" by simp
    with True s1 show ?thesis by auto
  next
    case False
    obtain s1 w1 where s1: "fed s w (start_of src @ emitted (pend src) (ws_open src) c) s1 w1" "linked b s1 w1 src1"
        "ws_step src1 = Writing" "pend src1 = held (pend src) c" "ws_open src1 = opens (pend src) (ws_open src) c"
      using call_pipe [OF Cons.prems(1) False 1(1)] by blast
    obtain s2 w2 d es where s2: "fed s1 w1 (start_of src1 @ trace (pend src1) (ws_open src1) cs) s2 w2"
        "piping b s2 w2 d" "ws_dispatch src' = finish_dispatcher finish_handler Completed d"
        "trace (pend src1) (ws_open src1) cs = es @ [EndDocument]"
      using Cons.IH [OF s1(2) 1(2) Cons.prems(3)] by blast
    have "fed s w (start_of src @ trace (pend src) (ws_open src) (c # cs)) s2 w2"
      using fed_append [OF s1(1) s2(1)] s1(3-5) by (simp add: trace_Cons [OF False] start_of_def)
    moreover have "trace (pend src) (ws_open src) (c # cs) = (emitted (pend src) (ws_open src) c @ es) @ [EndDocument]"
      using s2(4) s1(4,5) by (simp add: trace_Cons [OF False])
    ultimately show ?thesis using s2(2,3) by blast
  qed
qed

section \<open>What has been written\<close>

definition pipe_source_of :: "strict \<Rightarrow> vec_writer \<Rightarrow> pipe_source" where
  "pipe_source_of s w = source_add_consumer (Output w) (source_add_consumer (Validator s) new_source)"

lemma linked_source: "linked False s w (pipe_source_of s w)"
  by (simp add: linked_def piping_def members_of_def pipe_source_of_def source_add_consumer_def new_source_def
      add_consumer_def new_dispatcher_def)

lemma source_of_start:
  "start_of (pipe_source_of s w) = [StartDocument]" "pend (pipe_source_of s w) = None"
  "ws_open (pipe_source_of s w) = []"
  by (simp_all add: start_of_def pend_def pipe_source_of_def source_add_consumer_def new_source_def)

lemma end_document_phase: "check EndDocument s = (Inr (), s') \<Longrightarrow> \<not> st_lexical_only s \<Longrightarrow> st_phase s' = Outside"
  by (auto simp: check_def end_document_def pure_then split: if_splits)

lemma check_lexical: "st_lexical_only (snd (check ev s)) = st_lexical_only s"
proof -
  have b: "st_lexical_only (snd (bind_declarations as s)) = st_lexical_only s" for as s
    by (induction as s rule: bind_declarations.induct) auto
  have e: "st_lexical_only (snd (enter_phase s)) = st_lexical_only s" for s
    by (simp add: enter_phase_def split: phase.split)
  have e': "enter_phase s = (r, s') \<Longrightarrow> st_lexical_only s' = st_lexical_only s" for s r s'
    using e [of s] by simp
  have b': "bind_declarations as s = (r, s') \<Longrightarrow> st_lexical_only s' = st_lexical_only s" for as s r s'
    using b [of as s] by simp
  have "st_lexical_only (snd (start_element x s)) = st_lexical_only s" for x s
    by (auto simp: start_element_def and_then_def dest!: e' b' split: prod.split sum.split)
  then show ?thesis
    by (cases ev)
       (auto simp: check_def start_document_def end_document_def end_element_def doctype_def pure_def and_then_def
         Let_def split: prod.split sum.split)
qed

lemma run_lexical: "each check es s = (Inr (), s') \<Longrightarrow> st_lexical_only s' = st_lexical_only s"
proof (induction es arbitrary: s)
  case (Cons e es)
  then obtain s1 where "check e s = (Inr (), s1)" "each check es s1 = (Inr (), s')"
    unfolding each_Cons_Inr by blast
  with Cons.IH [of s1] check_lexical [of e s] show ?case by simp
qed simp

text \<open>
  C1. Writing through the validator yields well-formed documents only: whatever calls an application
  makes on a writer source whose consumers are the event validator and, behind it, the XML writer, when
  the calls have ended the document without an error the events they stand for are a well-formed
  document, and the output has grown by exactly the text of that document.
\<close>

theorem pipeline_writes_documents:
  assumes "encoder_for backend label = Inr (Inl e)" "w = w0\<lparr>xw_encoder := builtin_object e\<rparr>"
    "each (perform consume_handler finish_handler) calls (pipe_source_of new_strict w) = (Inr (), src)"
    "ws_step src = Ended"
  shows "documents (StartDocument # trace None [] calls) \<and>
    (\<exists>s' w'. map mb_handler (dp_members (ws_dispatch src)) = [Validator s', Output w'] \<and>
      xw_out w' = xw_out w @ code e (xml_text e (declaration_text w) (StartDocument # trace None [] calls)))"
proof -
  let ?es = "StartDocument # trace None [] calls"
  obtain d where d: "reads_back e d" using encoder_for_lookup [OF assms(1)] by blast
  obtain s' w' dp es where run: "fed new_strict w ?es s' w'" "piping False s' w' dp"
      "ws_dispatch src = finish_dispatcher finish_handler Completed dp" "trace None [] calls = es @ [EndDocument]"
    using calls_pipe [OF linked_source assms(3,4)] unfolding source_of_start by auto
  have ck: "each check ?es new_strict = (Inr (), s')"
    and wr: "each (write_event vec_sink) ?es w = (Inr (), w')"
    using run(1) by (simp_all only: fed_def)
  have "each check ((StartDocument # es) @ [EndDocument]) new_strict = (Inr (), s')" using ck by (simp add: run(4))
  then obtain s1 where s1: "each check (StartDocument # es) new_strict = (Inr (), s1)"
      "each check [EndDocument] s1 = (Inr (), s')"
    unfolding each_append_Inr by blast
  have "st_phase s' = Outside"
    using end_document_phase [of s1 s'] run_lexical [OF s1(1)] s1(2) unfolding each_Cons_Inr
    by (simp add: new_strict_def)
  then have "accepts new_strict ?es" using ck unfolding accepts_def by blast
  then have doc: "documents ?es" by (rule accepted_documents [rotated]) (simp add: at_rest_def new_strict_def)
  have "xw_out w' = xw_out w @ code e (xml_text e (declaration_text w) ?es)"
    using write_documents [OF d doc, of w "declaration_text w"] wr assms(2)
    by (auto simp: writes_def simp del: each.simps split: if_splits)
  moreover obtain s'' where "map mb_handler (dp_members (ws_dispatch src)) = [Validator s'', Output w']"
    using run(2) unfolding run(3)
    by (cases "dp_running dp") (simp_all add: finish_dispatcher_def piping_def members_of_def finish_writer_def)
  ultimately show ?thesis using doc by (intro conjI exI [of _ s''] exI [of _ w'])
qed

text \<open>A document of one empty element.\<close>

lemmas source_defs = source_start_document_def source_write_doctype_def write_start_element_ns_def
  flush_start_def write_attribute_ns_def write_content_event_def source_write_end_element_def
  source_end_document_def if_taking_def taking_writes_def report_def settle_def and_then_def
  pipe_source_of_def source_add_consumer_def new_source_def add_consumer_def new_dispatcher_def
  consume_dispatcher_def begin_run_def is_stopped_def Let_def start_event_def end_event_def
  finish_dispatcher_def finish_writer_def finish_strict_def

lemmas strict_defs = consume_strict_def check_def pure_def start_document_def end_document_def
  start_element_def end_element_def enter_phase_def bound_def check_name_def lexical_start_element_def
  new_strict_def characters_def check_chars_def first_non_char_def

lemmas writer_defs = consume_writer_def write_start_document_def write_start_element_def
  close_start_tag_def put_markup_def put_def put_name_def write_encoded_def vec_sink_def
  write_end_element_def write_characters_def put_with_references_def new_writer_def builtin_object_def
  names_def utf8_encoder_encode_def

definition sample_calls :: "call list" where
  "sample_calls = [Write_Start None (lit ''b''), Write_End, End_Document]"

lemma sample_name:
  "is_ncname (lit ''b'')"
  "name_of (lit ''b'') None = \<lparr>wn_prefix = None, wn_local = lit ''b'', wn_namespace = None\<rparr>"
  by (simp_all add: name_of_def split_qname_def is_ncname_start_char_def is_name_start_char_def)

lemma sample_run:
  "fst (each pperform sample_calls (pipe_source_of new_strict (new_writer []))) = Inr ()"
  "ws_step (snd (each pperform sample_calls (pipe_source_of new_strict (new_writer [])))) = Ended"
  by (simp_all add: sample_calls_def source_defs strict_defs writer_defs sample_name XML_PREFIX_def
      saturating_add_def del: lit_Cons cong: if_cong)

lemma sample_trace: "xml_text Utf8Encoder [] (StartDocument # trace None [] sample_calls) = lit ''<b/>''"
  by (simp add: sample_calls_def flushed_def opened_names_def start_event_def end_event_def sample_name
      start_text_def del: lit_Cons) simp

theorem pipeline_writes_documents_witness:
  "documents (StartDocument # trace None [] sample_calls) \<and>
   (\<exists>s' w'. map mb_handler (dp_members (ws_dispatch
        (snd (each pperform sample_calls (pipe_source_of new_strict (new_writer [])))))) =
        [Validator s', Output w'] \<and>
      xw_out w' = utf8_encode (lit ''<b/>''))"
proof -
  let ?w = "new_writer [] :: vec_writer"
  have b: "encoder_for (\<lambda>_. None :: unit option) (lit ''utf-8'') = Inr (Inl Utf8Encoder)"
    by (simp add: encoder_for_def Let_def trim_def white_space_def to_ascii_lower_def)
  have w: "?w = ?w\<lparr>xw_encoder := builtin_object Utf8Encoder\<rparr>" by (simp add: new_writer_def)
  have run: "each pperform sample_calls (pipe_source_of new_strict ?w) =
      (Inr (), snd (each pperform sample_calls (pipe_source_of new_strict ?w)))"
    by (metis sample_run(1) prod.collapse)
  have d: "declaration_text ?w = []" "xw_out ?w = []" by (simp_all add: declaration_text_def new_writer_def)
  show ?thesis
    using pipeline_writes_documents [OF b w run sample_run(2)] unfolding d sample_trace append_Nil code.simps .
qed

end
