(* ===== verification/Detect.thy ===== *)
theory Detect
  imports Encodings Chars
begin

text \<open>
  Encoding detection, \<open>io/encoding/detect.rs\<close> (XML 1.0, Appendix F): what the first bytes of an entity
  say of its encoding, by a byte-order mark, by the width of the characters of \<open><?xml\<close>, or by the
  declaration itself.

  An entity arrives in pieces, so detection is asked again with more bytes each time. The theorem of the
  component states that an answer, once given, is final.
\<close>

datatype detection_source = Bom | InitialBytes | Declaration | DefaultEncoding

record detection =
  dt_encoding :: ustring
  dt_bom_length :: nat
  dt_source :: detection_source

datatype detected = Determined detection | Incomplete

definition ascii_bytes :: "string \<Rightarrow> byte list" where
  "ascii_bytes s = map of_char s"

definition default_detection :: detection where
  "default_detection = \<lparr>dt_encoding = lit ''UTF-8'', dt_bom_length = 0, dt_source = DefaultEncoding\<rparr>"

fun or_default :: "detected \<Rightarrow> detection" where
  "or_default (Determined d) = d"
| "or_default Incomplete = default_detection"

section \<open>Signatures\<close>

record signature =
  sg_bytes :: "byte list"
  sg_encoding :: ustring
  sg_bom_length :: nat
  sg_source :: detection_source

definition sign :: "byte list \<Rightarrow> string \<Rightarrow> nat \<Rightarrow> detection_source \<Rightarrow> signature" where
  "sign bs e n src = \<lparr>sg_bytes = bs, sg_encoding = lit e, sg_bom_length = n, sg_source = src\<rparr>"

definition SIGNATURES :: "signature list" where
  "SIGNATURES =
     [sign [0x00, 0x00, 0xFE, 0xFF] ''UTF-32BE'' 4 Bom,
      sign [0xFF, 0xFE, 0x00, 0x00] ''UTF-32LE'' 4 Bom,
      sign [0xEF, 0xBB, 0xBF] ''UTF-8'' 3 Bom,
      sign [0xFE, 0xFF] ''UTF-16BE'' 2 Bom,
      sign [0xFF, 0xFE] ''UTF-16LE'' 2 Bom,
      sign [0x00, 0x00, 0x00, 0x3C] ''UTF-32BE'' 0 InitialBytes,
      sign [0x3C, 0x00, 0x00, 0x00] ''UTF-32LE'' 0 InitialBytes,
      sign [0x00, 0x3C, 0x00, 0x3F] ''UTF-16BE'' 0 InitialBytes,
      sign [0x3C, 0x00, 0x3F, 0x00] ''UTF-16LE'' 0 InitialBytes,
      sign [0x4C, 0x6F, 0xA7, 0x94] ''EBCDIC'' 0 InitialBytes]"

datatype signature_match = SigDetermined detection | SigIncomplete | NotASignature

definition could_extend :: "byte list \<Rightarrow> signature \<Rightarrow> bool" where
  "could_extend bytes s \<longleftrightarrow> length bytes < length (sg_bytes s) \<and> starts_with bytes (sg_bytes s)"

definition match_signature :: "byte list \<Rightarrow> signature_match" where
  "match_signature bytes =
     (case find (\<lambda>s. starts_with (sg_bytes s) bytes) SIGNATURES of
        Some s \<Rightarrow>
          if list_ex (could_extend bytes) SIGNATURES then SigIncomplete
          else SigDetermined \<lparr>dt_encoding = sg_encoding s, dt_bom_length = sg_bom_length s, dt_source = sg_source s\<rparr>
      | None \<Rightarrow> if list_ex (could_extend bytes) SIGNATURES then SigIncomplete else NotASignature)"

section \<open>The declaration\<close>

text \<open>\<open>u8::is_ascii_whitespace\<close>: space, tab, line feed, form feed and carriage return.\<close>

definition byte_white :: "byte \<Rightarrow> bool" where
  "byte_white b \<longleftrightarrow> b = 0x20 \<or> b = 0x09 \<or> b = 0x0A \<or> b = 0x0C \<or> b = 0x0D"

definition skip_white :: "byte list \<Rightarrow> byte list" where
  "skip_white bytes = dropWhile byte_white bytes"

abbreviation (input) name_byte :: "byte \<Rightarrow> bool" where
  "name_byte b \<equiv> b \<noteq> 0x3D \<and> \<not> byte_white b"

text \<open>
  \<open>parse_pseudo_attribute\<close>: name, value and what follows; an empty name stands for what is not a
  pseudo-attribute.
\<close>

definition parse_pseudo_attribute :: "byte list \<Rightarrow> (byte list \<times> byte list \<times> byte list) option" where
  "parse_pseudo_attribute bytes =
     (let start = skip_white bytes in
      if start = [] then None
      else
        (let name = takeWhile name_byte start;
             after_name = skip_white (dropWhile name_byte start)
         in case after_name of
              [] \<Rightarrow> Some ([], [], after_name)
            | e # after_eq \<Rightarrow>
                if e \<noteq> 0x3D then Some ([], [], after_name)
                else
                  (case skip_white after_eq of
                     [] \<Rightarrow> Some ([], [], [])
                   | quote # body \<Rightarrow>
                       if quote = 0x22 \<or> quote = 0x27 then
                         (if quote \<in> set body then
                            Some (name, takeWhile (\<lambda>b. b \<noteq> quote) body, tl (dropWhile (\<lambda>b. b \<noteq> quote) body))
                          else None)
                       else Some ([], [], quote # body))))"

lemma skip_white_length: "length (skip_white bs) \<le> length bs"
  by (simp add: skip_white_def length_dropWhile_le)

lemma skip_white_hd: "skip_white bs = b # r \<Longrightarrow> \<not> byte_white b"
  unfolding skip_white_def by (metis hd_dropWhile list.distinct(1) list.sel(1))

lemma skip_white_id: "\<not> byte_white b \<Longrightarrow> skip_white (b # r) = b # r"
  by (simp add: skip_white_def)

lemma pseudo_attribute_shorter:
  assumes "parse_pseudo_attribute bytes = Some (n, v, r)"
  shows "length r < length bytes"
proof -
  obtain b s where s: "skip_white bytes = b # s"
    using assms by (cases "skip_white bytes") (auto simp: parse_pseudo_attribute_def)
  have le: "length s < length bytes" using skip_white_length [of bytes] by (simp add: s)
  define an where "an = skip_white (dropWhile name_byte (b # s))"
  have an_le: "length an \<le> length (b # s)"
    unfolding an_def by (rule le_trans [OF skip_white_length length_dropWhile_le])
  have tail: "length (tl (dropWhile P xs)) \<le> length xs" for P :: "byte \<Rightarrow> bool" and xs
    using length_dropWhile_le [of P xs] by simp
  show ?thesis
  proof (cases an)
    case Nil
    from assms [unfolded parse_pseudo_attribute_def s Let_def an_def [symmetric] Nil] le show ?thesis by auto
  next
    case (Cons e ae)
    note p = assms [unfolded parse_pseudo_attribute_def s Let_def an_def [symmetric] Cons]
    show ?thesis
    proof (cases "e = 0x3D")
      case True
      have "length (skip_white ae) < length (b # s)"
        using an_le skip_white_length [of ae] by (simp add: Cons)
      moreover have "length r \<le> length (skip_white ae)"
      proof (cases "skip_white ae")
        case (Cons q body)
        with p True have "r = tl (dropWhile (\<lambda>b. b \<noteq> q) body) \<or> r = q # body" by (auto split: if_splits)
        with Cons tail [of "\<lambda>b. b \<noteq> q" body] show ?thesis by auto
      qed (use p True in simp)
      ultimately show ?thesis using le by simp
    next
      case False
      have "length an \<le> length s"
      proof (cases "name_byte b")
        case True
        then show ?thesis
          unfolding an_def using skip_white_length [of "dropWhile name_byte s"] length_dropWhile_le [of name_byte s] by simp
      next
        case b: False
        with skip_white_hd [OF s] have "an = b # s" "b = 0x3D" by (auto simp: an_def skip_white_id)
        with False Cons show ?thesis by simp
      qed
      moreover have "r = an" using p False Cons by simp
      ultimately show ?thesis using le by simp
    qed
  qed
qed

function scan_for_encoding :: "byte list \<Rightarrow> ustring option" where
  "scan_for_encoding decl =
     (case parse_pseudo_attribute decl of
        None \<Rightarrow> None
      | Some (name, value, remaining) \<Rightarrow>
          if name = ascii_bytes ''encoding'' then
            (case from_utf8 value of
               (encoding, Valid) \<Rightarrow>
                 if is_enc_name encoding then Some encoding else scan_for_encoding remaining
             | (_, Error_Len _) \<Rightarrow> None)
          else scan_for_encoding remaining)"
  by pat_completeness auto
termination
  by (relation "measure length") (auto dest: pseudo_attribute_shorter)

declare scan_for_encoding.simps [simp del]

definition XML_DECL_START :: "byte list" where
  "XML_DECL_START = ascii_bytes ''<?xml''"

definition declared :: "ustring option \<Rightarrow> detected option" where
  "declared e = map_option (\<lambda>n. Determined \<lparr>dt_encoding = n, dt_bom_length = 0, dt_source = Declaration\<rparr>) e"

definition detect_declaration :: "byte list \<Rightarrow> detected" where
  "detect_declaration bytes =
     (let rest = skip_white bytes in
      if length rest < length XML_DECL_START then
        (if starts_with rest XML_DECL_START then Incomplete else Determined default_detection)
      else case strip_prefix XML_DECL_START rest of
        None \<Rightarrow> Determined default_detection
      | Some [] \<Rightarrow> Incomplete
      | Some (b # r) \<Rightarrow>
          if \<not> byte_white b then Determined default_detection
          else (case find_sub (ascii_bytes ''?>'') (b # r) of
                  Some i \<Rightarrow> (case declared (scan_for_encoding (take i (b # r))) of
                              Some d \<Rightarrow> d | None \<Rightarrow> Determined default_detection)
                | None \<Rightarrow> (case declared (scan_for_encoding (b # r)) of
                            Some d \<Rightarrow> d | None \<Rightarrow> Incomplete)))"

definition detect :: "byte list \<Rightarrow> detected" where
  "detect bytes =
     (if bytes = [] then Incomplete
      else case match_signature bytes of
        SigDetermined d \<Rightarrow> Determined d
      | SigIncomplete \<Rightarrow> Incomplete
      | NotASignature \<Rightarrow> detect_declaration bytes)"

section \<open>An answer is final\<close>

lemma match_signature_stable:
  assumes "match_signature bs \<noteq> SigIncomplete"
  shows "match_signature (bs @ ext) = match_signature bs"
proof -
  have no: "\<not> could_extend bs s" if "s \<in> set SIGNATURES" for s
    using assms that by (auto simp: match_signature_def list_ex_iff split: option.splits if_splits)
  have no': "\<not> could_extend (bs @ ext) s" if "s \<in> set SIGNATURES" for s
    using no [OF that] by (auto simp: could_extend_def starts_with_iff)
  have same: "starts_with (sg_bytes s) (bs @ ext) \<longleftrightarrow> starts_with (sg_bytes s) bs" if "s \<in> set SIGNATURES" for s
  proof
    assume "starts_with (sg_bytes s) (bs @ ext)"
    then obtain r where r: "bs @ ext = sg_bytes s @ r" by (auto simp: starts_with_iff)
    show "starts_with (sg_bytes s) bs"
    proof (cases "length bs < length (sg_bytes s)")
      case True
      then have "starts_with bs (sg_bytes s)"
        using arg_cong [OF r, of "take (length (sg_bytes s))"] by (auto simp: starts_with_iff) (metis)
      with True no [OF that] show ?thesis by (simp add: could_extend_def)
    next
      case False
      then show ?thesis using arg_cong [OF r, of "take (length bs)"] by (auto simp: starts_with_iff)
    qed
  qed (rule starts_with_append)
  have "find (\<lambda>s. starts_with (sg_bytes s) (bs @ ext)) SIGNATURES = find (\<lambda>s. starts_with (sg_bytes s) bs) SIGNATURES"
    by (rule find_cong [OF refl]) (rule same)
  moreover have "\<not> list_ex (could_extend bs) SIGNATURES" "\<not> list_ex (could_extend (bs @ ext)) SIGNATURES"
    using no no' by (simp_all add: list_ex_iff)
  ultimately show ?thesis by (simp add: match_signature_def split: option.split)
qed

text \<open>The three shapes of the input of \<open>parse_pseudo_attribute\<close>.\<close>

abbreviation (input) white :: "byte list \<Rightarrow> bool" where
  "white w \<equiv> \<forall>b\<in>set w. byte_white b"

abbreviation (input) name_bytes :: "byte list \<Rightarrow> bool" where
  "name_bytes n \<equiv> \<forall>b\<in>set n. name_byte b"

definition stops :: "(byte \<Rightarrow> bool) \<Rightarrow> byte list \<Rightarrow> bool" where
  "stops P r \<longleftrightarrow> (case r of [] \<Rightarrow> True | b # _ \<Rightarrow> \<not> P b)"

lemma skip_white_append: "white w \<Longrightarrow> stops byte_white r \<Longrightarrow> skip_white (w @ r) = r"
  by (cases r) (simp_all add: skip_white_def stops_def)

lemma skip_white_split: "\<exists>w. xs = w @ skip_white xs \<and> white w \<and> stops byte_white (skip_white xs)"
proof (intro exI conjI)
  show "xs = takeWhile byte_white xs @ skip_white xs" by (simp add: skip_white_def)
  show "white (takeWhile byte_white xs)" by (auto dest: set_takeWhileD)
  show "stops byte_white (skip_white xs)" by (auto simp: stops_def split: list.splits dest: skip_white_hd)
qed

lemma take_drop_name:
  "name_bytes n \<Longrightarrow> stops name_byte r \<Longrightarrow> takeWhile name_byte (n @ r) = n \<and> dropWhile name_byte (n @ r) = r"
  by (cases r) (auto simp: stops_def)

lemma stops_append: "xs \<noteq> [] \<Longrightarrow> stops P (xs @ ys) \<longleftrightarrow> stops P xs"
  by (cases xs) (simp_all add: stops_def)

text \<open>The first two steps: the name, then what follows the white space after it.\<close>

lemma parse_name:
  assumes "white w" "name_bytes n" "white w2" "n = [] \<Longrightarrow> w2 = []" "stops byte_white r" "n @ r \<noteq> []"
    "w2 = [] \<Longrightarrow> stops name_byte r"
  shows "skip_white (w @ n @ w2 @ r) = n @ w2 @ r" "takeWhile name_byte (n @ w2 @ r) = n"
    "skip_white (dropWhile name_byte (n @ w2 @ r)) = r" "n @ w2 @ r \<noteq> []"
proof -
  have "stops byte_white (n @ w2 @ r)"
    using assms(2,4,5) by (cases n) (auto simp: stops_def)
  with assms(1) show "skip_white (w @ n @ w2 @ r) = n @ w2 @ r" by (rule skip_white_append)
  have "stops name_byte (w2 @ r)" using assms(3,7) by (cases w2) (auto simp: stops_def)
  note td = take_drop_name [OF assms(2) this]
  then show "takeWhile name_byte (n @ w2 @ r) = n" by simp
  show "skip_white (dropWhile name_byte (n @ w2 @ r)) = r"
    using td skip_white_append [OF assms(3,5)] by simp
  show "n @ w2 @ r \<noteq> []" using assms(6) by auto
qed

lemma parse_quoted:
  assumes "white w" "name_bytes n" "white w2" "n = [] \<Longrightarrow> w2 = []" "white w3" "q = 0x22 \<or> q = 0x27" "q \<notin> set v"
  shows "parse_pseudo_attribute (w @ n @ w2 @ 0x3D # w3 @ q # v @ q # r) = Some (n, v, r)"
proof -
  note p = parse_name [of w n w2 "0x3D # w3 @ q # v @ q # r", OF assms(1-4)]
  have q: "skip_white (w3 @ q # v @ q # r) = q # v @ q # r"
    using assms(5,6) by (intro skip_white_append) (auto simp: stops_def byte_white_def)
  have v: "takeWhile (\<lambda>b. b \<noteq> q) (v @ q # r) = v" "tl (dropWhile (\<lambda>b. b \<noteq> q) (v @ q # r)) = r"
    using assms(7) by simp_all
  show ?thesis
    using p v assms(6) by (simp add: parse_pseudo_attribute_def stops_def byte_white_def q)
qed

lemma parse_bare:
  assumes "white w" "name_bytes n" "n \<noteq> []" "white w2" "w2 \<noteq> []" "stops byte_white r" "r \<noteq> []" "hd r \<noteq> 0x3D"
  shows "parse_pseudo_attribute (w @ n @ w2 @ r) = Some ([], [], r)"
proof -
  note p = parse_name [of w n w2 r, OF assms(1,2,4)]
  obtain b t where r: "r = b # t" using assms(7) by (cases r) auto
  show ?thesis
    using p assms(3,5,6,8) by (simp add: parse_pseudo_attribute_def r)
qed

lemma parse_unquoted:
  assumes "white w" "name_bytes n" "white w2" "n = [] \<Longrightarrow> w2 = []" "white w3" "stops byte_white r" "r \<noteq> []"
    "hd r \<noteq> 0x22" "hd r \<noteq> 0x27"
  shows "parse_pseudo_attribute (w @ n @ w2 @ 0x3D # w3 @ r) = Some ([], [], r)"
proof -
  note p = parse_name [of w n w2 "0x3D # w3 @ r", OF assms(1-4)]
  have q: "skip_white (w3 @ r) = r" using assms(5,6) by (rule skip_white_append)
  obtain b t where r: "r = b # t" using assms(7) by (cases r) auto
  show ?thesis
    using p assms(8,9) q by (simp add: parse_pseudo_attribute_def stops_def byte_white_def r)
qed

lemma parse_shapes:
  assumes "parse_pseudo_attribute bs = Some (n, v, r)"
  obtains (Quoted) w w2 w3 q where "white w" "name_bytes n" "white w2" "n = [] \<longrightarrow> w2 = []" "white w3"
      "q = 0x22 \<or> q = 0x27" "q \<notin> set v" "bs = w @ n @ w2 @ 0x3D # w3 @ q # v @ q # r"
  | (Bare) w m w2 where "white w" "name_bytes m" "m \<noteq> []" "white w2" "w2 \<noteq> []" "stops byte_white r"
      "r \<noteq> []" "hd r \<noteq> 0x3D" "bs = w @ m @ w2 @ r" "n = []" "v = []"
  | (Unquoted) w m w2 w3 where "white w" "name_bytes m" "white w2" "m = [] \<longrightarrow> w2 = []" "white w3"
      "stops byte_white r" "r \<noteq> []" "hd r \<noteq> 0x22" "hd r \<noteq> 0x27" "bs = w @ m @ w2 @ 0x3D # w3 @ r" "n = []" "v = []"
  | (Ended) "n = []" "r = []"
proof -
  let ?s = "skip_white bs"
  define m where "m = takeWhile name_byte ?s"
  define an where "an = skip_white (dropWhile name_byte ?s)"
  obtain w where w: "bs = w @ ?s" "white w" "stops byte_white ?s" using skip_white_split by blast
  obtain w2 where w2: "dropWhile name_byte ?s = w2 @ an" "white w2" "stops byte_white an"
    unfolding an_def using skip_white_split by blast
  have m: "name_bytes m" "?s = m @ w2 @ an"
    using w2(1) by (auto simp: m_def dest: set_takeWhileD) (metis takeWhile_dropWhile_id)
  have none: "m = [] \<Longrightarrow> w2 = []"
    using w(3) m(2) w2(2) by (cases w2) (auto simp: stops_def)
  have bs: "bs = w @ m @ w2 @ an" using w(1) m(2) by simp
  have s: "?s \<noteq> []" using assms by (auto simp: parse_pseudo_attribute_def Let_def)
  note p = assms [unfolded parse_pseudo_attribute_def Let_def an_def [symmetric] m_def [symmetric] if_not_P [OF s]]
  show thesis
  proof (cases an)
    case Nil
    then show thesis using p by (intro Ended) auto
  next
    case an: (Cons e ae)
    obtain w3 where w3: "ae = w3 @ skip_white ae" "white w3" "stops byte_white (skip_white ae)"
      using skip_white_split by blast
    show thesis
    proof (cases "e = 0x3D")
      case False
      have "m \<noteq> []"
      proof
        assume "m = []"
        with none m(2) an have "?s = e # ae" "hd ?s = e" by auto
        moreover have "\<not> name_byte e" using \<open>m = []\<close> calculation by (auto simp: m_def split: if_splits)
        ultimately show False using w(3) False by (auto simp: stops_def)
      qed
      moreover have "w2 \<noteq> []"
      proof
        assume "w2 = []"
        then have "dropWhile name_byte ?s = e # ae" using w2(1) an by simp
        then have "\<not> name_byte e" by (simp add: dropWhile_eq_Cons_conv)
        with False w2(3) an show False by (auto simp: stops_def)
      qed
      ultimately show thesis
        using p False an w(2) m(1) w2(2,3) bs by (intro Bare [of w m w2]) auto
    next
      case True
      show thesis
      proof (cases "skip_white ae")
        case Nil
        with p an True show thesis by (intro Ended) auto
      next
        case sk: (Cons q body)
        show thesis
        proof (cases "q = 0x22 \<or> q = 0x27")
          case q: True
          then have "q \<in> set body" and nvr: "n = m" "v = takeWhile (\<lambda>b. b \<noteq> q) body"
              "r = tl (dropWhile (\<lambda>b. b \<noteq> q) body)"
            using p an True sk by (auto split: if_splits)
          then obtain v' r' where body: "body = v' @ q # r'" "q \<notin> set v'" by (metis split_list_first)
          with nvr have "v = v'" "r = r'" by auto
          moreover have "bs = w @ m @ w2 @ 0x3D # w3 @ q # body"
            using bs w3(1) by (simp add: an True sk)
          ultimately show thesis
            using Quoted [of w w2 w3 q] q w(2) m(1) w2(2) none w3(2) body nvr(1) by simp
        next
          case q: False
          then show thesis
            using p an True sk w(2) m(1) w2(2) none w3 bs by (intro Unquoted [of w m w2 w3]) auto
        qed
      qed
    qed
  qed
qed

lemma parse_append:
  assumes "parse_pseudo_attribute bs = Some (n, v, r)" "n \<noteq> [] \<or> r \<noteq> []"
  shows "parse_pseudo_attribute (bs @ ext) = Some (n, v, r @ ext)"
  using assms(1)
proof (cases rule: parse_shapes)
  case (Quoted w w2 w3 q)
  then show ?thesis using parse_quoted [of w n w2 w3 q v "r @ ext"] by simp
next
  case (Bare w m w2)
  then show ?thesis using parse_bare [of w m w2 "r @ ext"] by (simp add: stops_append)
next
  case (Unquoted w m w2 w3)
  then show ?thesis using parse_unquoted [of w m w2 w3 "r @ ext"] by (simp add: stops_append)
next
  case Ended
  with assms(2) show ?thesis by simp
qed

lemma parse_shorten:
  assumes "parse_pseudo_attribute (bs @ [c]) = Some (n, v, r)" "c \<noteq> 0x22" "c \<noteq> 0x27"
    "n \<noteq> [] \<or> r \<noteq> []" "n = [] \<Longrightarrow> r \<noteq> [c]"
  obtains r' where "r = r' @ [c]" "parse_pseudo_attribute bs = Some (n, v, r')"
  using assms(1)
proof (cases rule: parse_shapes)
  case (Quoted w w2 w3 q)
  then obtain r' where r: "r = r' @ [c]" using assms(2,3) by (cases r rule: rev_cases) auto
  with Quoted have "bs = w @ n @ w2 @ 0x3D # w3 @ q # v @ q # r'" by simp
  with Quoted r show thesis using that parse_quoted [of w n w2 w3 q v r'] by simp
next
  case (Bare w m w2)
  then obtain r' where r: "r = r' @ [c]" "r' \<noteq> []" using assms(5) by (cases r rule: rev_cases) auto
  with Bare have "bs = w @ m @ w2 @ r'" by simp
  with Bare r show thesis using that parse_bare [of w m w2 r'] by (simp add: stops_append)
next
  case (Unquoted w m w2 w3)
  then obtain r' where r: "r = r' @ [c]" "r' \<noteq> []" using assms(5) by (cases r rule: rev_cases) auto
  with Unquoted have "bs = w @ m @ w2 @ 0x3D # w3 @ r'" by simp
  with Unquoted r show thesis using that parse_unquoted [of w m w2 w3 r'] by (simp add: stops_append)
next
  case Ended
  with assms(4) show ?thesis by simp
qed

lemma scan_Nil [simp]: "scan_for_encoding [] = None"
  by (subst scan_for_encoding.simps) (simp add: parse_pseudo_attribute_def skip_white_def)

lemma scan_step:
  "scan_for_encoding bs = Some e \<longleftrightarrow>
     (\<exists>n v r. parse_pseudo_attribute bs = Some (n, v, r) \<and>
        (if n = ascii_bytes ''encoding'' then from_utf8 v = (e, Valid) \<and> is_enc_name e
           \<or> (\<exists>x. from_utf8 v = (x, Valid) \<and> \<not> is_enc_name x \<and> scan_for_encoding r = Some e)
         else scan_for_encoding r = Some e))"
  by (subst scan_for_encoding.simps) (auto split: option.split prod.split utf8_end.split)

lemma encoding_bytes: "ascii_bytes ''encoding'' \<noteq> []"
  by (simp add: ascii_bytes_def)

lemma scan_append: "scan_for_encoding bs = Some e \<Longrightarrow> scan_for_encoding (bs @ ext) = Some e"
proof (induction "length bs" arbitrary: bs rule: less_induct)
  case less
  from less.prems obtain n v r where p: "parse_pseudo_attribute bs = Some (n, v, r)"
    and c: "if n = ascii_bytes ''encoding'' then from_utf8 v = (e, Valid) \<and> is_enc_name e
           \<or> (\<exists>x. from_utf8 v = (x, Valid) \<and> \<not> is_enc_name x \<and> scan_for_encoding r = Some e)
         else scan_for_encoding r = Some e"
    unfolding scan_step [of bs] by blast
  have "n \<noteq> [] \<or> r \<noteq> []" using c encoding_bytes by (auto split: if_splits)
  note q = parse_append [OF p this]
  have "scan_for_encoding r = Some e \<Longrightarrow> scan_for_encoding (r @ ext) = Some e"
    using less.hyps [OF pseudo_attribute_shorter [OF p]] .
  with c q show ?case unfolding scan_step [of "bs @ ext"] by (auto split: if_splits)
qed

lemma scan_single: "scan_for_encoding [c] = None"
proof -
  have "scan_for_encoding [c] \<noteq> Some e" for e
  proof
    assume "scan_for_encoding [c] = Some e"
    then obtain n v r where p: "parse_pseudo_attribute [c] = Some (n, v, r)"
      and n: "n = ascii_bytes ''encoding'' \<or> scan_for_encoding r = Some e"
      unfolding scan_step [of "[c]"] by (auto split: if_splits)
    have "r = []" using pseudo_attribute_shorter [OF p] by simp
    with n encoding_bytes have "n \<noteq> []" by auto
    with p show False
    proof (cases rule: parse_shapes)
      case (Quoted w w2 w3 q)
      then have "length [c] = length (w @ n @ w2 @ 0x3D # w3 @ q # v @ q # r)" by simp
      then show False by simp
    qed auto
  qed
  then show ?thesis by auto
qed

lemma scan_shorten:
  assumes "c \<noteq> 0x22" "c \<noteq> 0x27"
  shows "scan_for_encoding (bs @ [c]) = Some e \<Longrightarrow> scan_for_encoding bs = Some e"
proof (induction "length bs" arbitrary: bs rule: less_induct)
  case less
  from less.prems obtain n v r where p: "parse_pseudo_attribute (bs @ [c]) = Some (n, v, r)"
    and c: "if n = ascii_bytes ''encoding'' then from_utf8 v = (e, Valid) \<and> is_enc_name e
           \<or> (\<exists>x. from_utf8 v = (x, Valid) \<and> \<not> is_enc_name x \<and> scan_for_encoding r = Some e)
         else scan_for_encoding r = Some e"
    unfolding scan_step [of "bs @ [c]"] by blast
  have "n \<noteq> [] \<or> r \<noteq> []" "n = [] \<Longrightarrow> r \<noteq> [c]"
    using c encoding_bytes scan_single by (auto split: if_splits)
  then obtain r' where r: "r = r' @ [c]" "parse_pseudo_attribute bs = Some (n, v, r')"
    using parse_shorten [OF p assms] by metis
  have "scan_for_encoding r = Some e \<Longrightarrow> scan_for_encoding r' = Some e"
    using less.hyps [OF pseudo_attribute_shorter [OF r(2)]] r(1) by simp
  with c r show ?case unfolding scan_step [of bs] by (auto split: if_splits)
qed

lemma declared_simps [simp]: "declared None = None"
  "declared (Some e) = Some (Determined \<lparr>dt_encoding = e, dt_bom_length = 0, dt_source = Declaration\<rparr>)"
  by (simp_all add: declared_def)

lemma scan_before_end:
  assumes "find_sub (ascii_bytes ''?>'') r = None" "find_sub (ascii_bytes ''?>'') (r @ ext) = Some i"
    "scan_for_encoding r = Some e"
  shows "scan_for_encoding (take i (r @ ext)) = Some e"
proof (cases "length r \<le> i")
  case True
  then show ?thesis using scan_append [OF assms(3)] by simp
next
  case False
  have "i + 2 \<le> length (r @ ext)" and at: "starts_with (ascii_bytes ''?>'') (drop i (r @ ext))"
    using find_sub_Some_split [OF assms(2)] by (simp_all add: ascii_bytes_def)
  have "\<not> i + 2 \<le> length r"
  proof
    assume "i + 2 \<le> length r"
    with at have "starts_with (ascii_bytes ''?>'') (drop i r)"
      using starts_with_append_short [of "ascii_bytes ''?>''" "drop i r" ext] by (simp add: ascii_bytes_def)
    with assms(1) \<open>i + 2 \<le> length r\<close> show False by (auto simp: find_sub_None)
  qed
  with False have "length r = Suc i" by simp
  then obtain x c where r: "r = x @ [c]" "length x = i" by (cases r rule: rev_cases) auto
  with at have "c = 0x3F" by (simp add: ascii_bytes_def)
  with scan_shorten [of c x e] assms(3) r show ?thesis by simp
qed

lemma apart_stays:
  assumes "\<not> starts_with p r" "\<not> (starts_with r p \<and> length r < length p)"
  shows "\<not> starts_with p (r @ ext)" "\<not> (starts_with (r @ ext) p \<and> length (r @ ext) < length p)"
proof -
  show "\<not> starts_with p (r @ ext)"
  proof
    assume "starts_with p (r @ ext)"
    then obtain t where t: "r @ ext = p @ t" by (auto simp: starts_with_iff)
    show False
    proof (cases "length r < length p")
      case True
      then have "p = r @ take (length p - length r) ext" using arg_cong [OF t, of "take (length p)"] by simp
      with True assms(2) show False by (metis starts_with_append_self)
    next
      case False
      then have "r = p @ take (length r - length p) t" using arg_cong [OF t, of "take (length r)"] by simp
      with assms(1) show False by (metis starts_with_append_self)
    qed
  qed
  show "\<not> (starts_with (r @ ext) p \<and> length (r @ ext) < length p)"
    using assms(2) by (auto simp: starts_with_iff)
qed

text \<open>What follows \<open><?xml\<close>.\<close>

definition after_start :: "byte list \<Rightarrow> detected" where
  "after_start r =
     (case r of
        [] \<Rightarrow> Incomplete
      | b # _ \<Rightarrow>
          if \<not> byte_white b then Determined default_detection
          else (case find_sub (ascii_bytes ''?>'') r of
                  Some i \<Rightarrow> (case declared (scan_for_encoding (take i r)) of
                              Some d \<Rightarrow> d | None \<Rightarrow> Determined default_detection)
                | None \<Rightarrow> (case declared (scan_for_encoding r) of Some d \<Rightarrow> d | None \<Rightarrow> Incomplete)))"

lemma after_start_stable:
  assumes "after_start r = Determined d"
  shows "after_start (r @ ext) = Determined d"
proof (cases r)
  case Nil
  with assms show ?thesis by (simp add: after_start_def)
next
  case (Cons b t)
  show ?thesis
  proof (cases "byte_white b")
    case False
    with assms Cons show ?thesis by (simp add: after_start_def)
  next
    case white: True
    note E = after_start_def [of "r @ ext", unfolded Cons append_Cons list.case, folded append_Cons, folded Cons]
    show ?thesis
    proof (cases "find_sub (ascii_bytes ''?>'') r")
      case (Some i)
      have "take i (r @ ext) = take i r" using find_sub_Some_split [OF Some] by simp
      with assms E Some find_sub_append [OF Some, of ext] white show ?thesis
        by (simp add: after_start_def Cons del: find_sub.simps take_append take_Cons')
    next
      case None
      with assms Cons white obtain e where e: "scan_for_encoding r = Some e" "declared (Some e) = Some (Determined d)"
        by (cases "scan_for_encoding r") (auto simp: after_start_def)
      show ?thesis
      proof (cases "find_sub (ascii_bytes ''?>'') (r @ ext)")
        case None
        with E white scan_append [OF e(1), of ext] e(2) show ?thesis by simp
      next
        case (Some i)
        with E white scan_before_end [OF None Some e(1)] e(2) show ?thesis by simp
      qed
    qed
  qed
qed

lemma strip_start: "strip_prefix XML_DECL_START (XML_DECL_START @ x) = Some x"
  by simp

lemma strip_start_Nil: "strip_prefix XML_DECL_START XML_DECL_START = Some []"
  using strip_start [of "[]"] unfolding append_Nil2 .

lemma detect_declaration_cases:
  "detect_declaration bs =
     (case strip_prefix XML_DECL_START (skip_white bs) of
        Some r \<Rightarrow> after_start r
      | None \<Rightarrow> if starts_with (skip_white bs) XML_DECL_START \<and> length (skip_white bs) < length XML_DECL_START
                then Incomplete else Determined default_detection)"
proof (cases "strip_prefix XML_DECL_START (skip_white bs)")
  case (Some r)
  then have "\<not> length (skip_white bs) < length XML_DECL_START" by simp
  with Some show ?thesis
    by (cases r) (simp_all add: detect_declaration_def after_start_def Let_def strip_start strip_start_Nil
      del: find_sub.simps)
qed (simp add: detect_declaration_def Let_def)

lemma detect_declaration_stable:
  assumes "detect_declaration bs = Determined d"
  shows "detect_declaration (bs @ ext) = Determined d"
proof (cases "skip_white bs = []")
  case True
  with assms show ?thesis by (simp add: detect_declaration_def XML_DECL_START_def ascii_bytes_def)
next
  case False
  then have rest: "skip_white (bs @ ext) = skip_white bs @ ext"
    by (auto simp: skip_white_def dropWhile_append)
  show ?thesis
  proof (cases "strip_prefix XML_DECL_START (skip_white bs)")
    case (Some r)
    with assms show ?thesis by (simp add: detect_declaration_cases rest strip_start after_start_stable)
  next
    case None
    note a = apart_stays [of XML_DECL_START "skip_white bs" ext]
    from assms None have d: "\<not> (starts_with (skip_white bs) XML_DECL_START \<and>
        length (skip_white bs) < length XML_DECL_START)" "d = default_detection"
      by (auto simp: detect_declaration_cases split: if_splits)
    moreover have "\<not> starts_with XML_DECL_START (skip_white bs)" using None by (simp add: strip_prefix_None)
    ultimately have "strip_prefix XML_DECL_START (skip_white bs @ ext) = None"
      "\<not> (starts_with (skip_white bs @ ext) XML_DECL_START \<and> length (skip_white bs @ ext) < length XML_DECL_START)"
      using a by (simp_all only: strip_prefix_None simp_thms)
    with d(2) show ?thesis by (simp only: detect_declaration_cases rest option.case if_False)
  qed
qed

lemma detect_final:
  assumes "detect bs = Determined d"
  shows "detect (bs @ ext) = Determined d"
proof -
  have ne: "bs \<noteq> []" and m: "match_signature bs \<noteq> SigIncomplete"
    using assms by (auto simp: detect_def split: if_splits)
  with assms match_signature_stable [OF m, of ext] detect_declaration_stable [of bs d ext] show ?thesis
    by (simp add: detect_def split: signature_match.splits)
qed

text \<open>
  C38. Detection never changes its mind: once the bytes at hand determine the encoding, any bytes that
  follow them leave the answer as it is.
\<close>

theorem detect_stable:
  assumes "detect bs = Determined d"
  shows "detect (bs @ ext) = Determined d"
  by (rule detect_final [OF assms])

lemma detect_stable_witness:
  "detect (ascii_bytes ''<?xml version='1.0' encoding='latin1' '' @ ascii_bytes ''standalone='') =
     Determined \<lparr>dt_encoding = lit ''latin1'', dt_bom_length = 0, dt_source = Declaration\<rparr>"
proof (rule detect_stable)
  show "detect (ascii_bytes ''<?xml version='1.0' encoding='latin1' '') =
     Determined \<lparr>dt_encoding = lit ''latin1'', dt_bom_length = 0, dt_source = Declaration\<rparr>"
    by code_simp
qed

end
