(* ===== verification/Char_Stream.thy ===== *)
theory Char_Stream
  imports Detect Escape Effects
begin

text \<open>
  The character stream of one entity, \<open>io/stream.rs\<close>: bytes go in, in pieces, and the text of XML 1.0
  comes out, decoded, with its line ends normalized (2.11) and every character checked (2.2).

  Two things of the code are left out because nothing depends on them: the consumed part of \<open>buf\<close>,
  which only waits to be dropped by \<open>compact\<close> (here \<open>cs_rest\<close> is \<open>remainder()\<close>), and capacities.

  The theorem of the component is that the text does not depend on how the bytes were cut into pieces.
\<close>

section \<open>Locations\<close>

record location =
  lo_system_id :: "ustring option"
  lo_public_id :: "ustring option"
  lo_line :: nat
  lo_column :: nat
  lo_offset :: nat

definition location_new :: location where
  "location_new = \<lparr>lo_system_id = None, lo_public_id = None, lo_line = 1, lo_column = 1, lo_offset = 0\<rparr>"

definition location_unknown :: location where
  "location_unknown = \<lparr>lo_system_id = None, lo_public_id = None, lo_line = 0, lo_column = 0, lo_offset = 0\<rparr>"

definition is_unknown :: "location \<Rightarrow> bool" where
  "is_unknown l \<longleftrightarrow> lo_line l = 0 \<and> lo_column l = 0 \<and> lo_offset l = 0"

definition location_advance :: "uchar \<Rightarrow> location \<Rightarrow> location" where
  "location_advance c l =
     (if is_unknown l then l
      else (if c = LF then l\<lparr>lo_line := lo_line l + 1, lo_column := 1\<rparr>
            else l\<lparr>lo_column := lo_column l + 1\<rparr>)\<lparr>lo_offset := lo_offset l + 1\<rparr>)"

definition advance_over :: "ustring \<Rightarrow> location \<Rightarrow> location" where
  "advance_over text l = (if is_unknown l then l else fold location_advance text l)"

section \<open>Decoders as objects\<close>

text \<open>
  \<open>Box<dyn Decoder>\<close>: a built-in decoder, the placeholder \<open>NoDecoder\<close>, or one of the optional backend,
  a third-party crate, given as its lookup, its decoding and its name.
\<close>

record 'd backend =
  be_find :: "ustring \<Rightarrow> 'd option"
  be_decode :: "'d \<Rightarrow> byte list \<Rightarrow> bool \<Rightarrow> 'd \<times> decoded"
  be_name :: "'d \<Rightarrow> ustring"

datatype 'd decoder_object = Builtin builtin | NoDecoder | Backend 'd

fun decode_object :: "'d backend \<Rightarrow> 'd decoder_object \<Rightarrow> byte list \<Rightarrow> bool \<Rightarrow> 'd decoder_object \<times> decoded" where
  "decode_object B (Builtin b) src final = (case decode_with b src final of (b', d) \<Rightarrow> (Builtin b', d))"
| "decode_object B NoDecoder src final = (NoDecoder, [], Inl Internal)"
| "decode_object B (Backend d) src final = (case be_decode B d src final of (d', r) \<Rightarrow> (Backend d', r))"

fun object_encoding :: "'d backend \<Rightarrow> 'd decoder_object \<Rightarrow> ustring" where
  "object_encoding B (Builtin b) = encoding_name b"
| "object_encoding B NoDecoder = lit ''none''"
| "object_encoding B (Backend d) = be_name B d"

definition decoder_object_for :: "'d backend \<Rightarrow> ustring \<Rightarrow> 'd decoder_object result" where
  "decoder_object_for B label = map_sum id (case_sum Builtin Backend) (decoder_for (be_find B) label)"

section \<open>The stream\<close>

definition SNIFF_LIMIT :: nat where
  "SNIFF_LIMIT = 256"

definition MAX_PENDING :: nat where
  "MAX_PENDING = 16"

datatype 'd stream_state = Sniffing "byte list" | Decoding "'d decoder_object"

record 'd char_stream =
  cs_state :: "'d stream_state"
  cs_encoding :: "ustring option"
  cs_rest :: ustring
  cs_pending :: "byte list"
  cs_after_cr :: bool
  cs_finished :: bool
  cs_chars_appended :: nat
  cs_bytes_decoded :: nat
  cs_at :: location

definition new_stream :: "'d char_stream" where
  "new_stream =
     \<lparr>cs_state = Sniffing [], cs_encoding = None, cs_rest = [], cs_pending = [], cs_after_cr = False,
      cs_finished = False, cs_chars_appended = 0, cs_bytes_decoded = 0, cs_at = location_new\<rparr>"

fun append_text :: "ustring \<Rightarrow> (unit, 'd char_stream) effect" where
  "append_text [] s = ok () s"
| "append_text (c # text) s =
     (if cs_after_cr s \<and> c = LF then append_text text (s\<lparr>cs_after_cr := False\<rparr>)
      else
        (let s' = s\<lparr>cs_after_cr := (c = CR)\<rparr>; c' = (if c = CR then LF else c) in
         if \<not> is_char c' then fail WellFormedness s'
         else append_text text
           (s'\<lparr>cs_rest := cs_rest s' @ [c'], cs_chars_appended := cs_chars_appended s' + 1\<rparr>)))"

definition decode_bytes :: "'d backend \<Rightarrow> byte list \<Rightarrow> bool \<Rightarrow> (unit, 'd char_stream) effect" where
  "decode_bytes B bytes final s =
     (case cs_state s of
        Sniffing _ \<Rightarrow> fail Internal s
      | Decoding dec \<Rightarrow>
          (let held = cs_pending s @ bytes in
           case decode_object B dec held final of
             (dec', text, Inl e) \<Rightarrow> fail e (s\<lparr>cs_state := Decoding dec', cs_pending := []\<rparr>)
           | (dec', text, Inr n) \<Rightarrow>
               (let s' = s\<lparr>cs_state := Decoding dec', cs_pending := drop n held,
                           cs_bytes_decoded := cs_bytes_decoded s + n\<rparr> in
                if final \<and> cs_pending s' \<noteq> [] then fail (Encoding None) s'
                else if MAX_PENDING < length (cs_pending s') then fail (Encoding None) s'
                else append_text text (s'\<lparr>cs_finished := final\<rparr>))))"

definition start_decoding ::
  "'d backend \<Rightarrow> 'd decoder_object \<Rightarrow> byte list \<Rightarrow> bool \<Rightarrow> (unit, 'd char_stream) effect" where
  "start_decoding B dec bytes final s =
     decode_bytes B bytes final
       (s\<lparr>cs_encoding := Some (object_encoding B dec), cs_state := Decoding dec\<rparr>)"

definition feed_bytes :: "'d backend \<Rightarrow> byte list \<Rightarrow> bool \<Rightarrow> (unit, 'd char_stream) effect" where
  "feed_bytes B bytes final s =
     (if cs_finished s then fail Internal s
      else case cs_state s of
        Sniffing sniffed0 \<Rightarrow>
          (let sniffed = sniffed0 @ bytes; detected = detect sniffed; s1 = s\<lparr>cs_state := Sniffing sniffed\<rparr> in
           if detected = Incomplete \<and> \<not> final \<and> length sniffed < SNIFF_LIMIT then ok () s1
           else
             (let detection = or_default detected in
              case decoder_object_for B (dt_encoding detection) of
                Inl e \<Rightarrow> fail e (s1\<lparr>cs_state := Sniffing []\<rparr>)
              | Inr dec \<Rightarrow>
                  start_decoding B dec (drop (dt_bom_length detection) sniffed) final
                    (s1\<lparr>cs_state := Sniffing []\<rparr>)))
      | Decoding _ \<Rightarrow> decode_bytes B bytes final s)"

text \<open>\<open>feed\<close>: the number of characters that were appended.\<close>

definition feed :: "'d backend \<Rightarrow> byte list \<Rightarrow> bool \<Rightarrow> (nat, 'd char_stream) effect" where
  "feed B bytes final s =
     and_then (feed_bytes B bytes final) (\<lambda>_ s'. ok (cs_chars_appended s' - cs_chars_appended s) s') s"

definition stream_with_encoding :: "'d backend \<Rightarrow> ustring \<Rightarrow> 'd char_stream result" where
  "stream_with_encoding B label =
     map_sum id (\<lambda>dec. new_stream\<lparr>cs_encoding := Some (object_encoding B dec), cs_state := Decoding dec\<rparr>)
       (decoder_object_for B label)"

definition from_text :: "ustring \<Rightarrow> 'd char_stream result" where
  "from_text text =
     (case append_text text (new_stream\<lparr>cs_state := Decoding NoDecoder\<rparr>) of
        (Inl e, _) \<Rightarrow> Inl e
      | (Inr _, s) \<Rightarrow> Inr (s\<lparr>cs_finished := True\<rparr>))"

definition with_system_id :: "ustring \<Rightarrow> 'd char_stream \<Rightarrow> 'd char_stream" where
  "with_system_id i s = s\<lparr>cs_at := (cs_at s)\<lparr>lo_system_id := Some i\<rparr>\<rparr>"

definition with_public_id :: "ustring \<Rightarrow> 'd char_stream \<Rightarrow> 'd char_stream" where
  "with_public_id i s = s\<lparr>cs_at := (cs_at s)\<lparr>lo_public_id := Some i\<rparr>\<rparr>"

definition use_encoding :: "'d backend \<Rightarrow> ustring \<Rightarrow> (unit, 'd char_stream) effect" where
  "use_encoding B label s =
     (case cs_state s of
        Decoding _ \<Rightarrow> fail Internal s
      | Sniffing sniffed \<Rightarrow>
          (case decoder_object_for B label of
             Inl e \<Rightarrow> fail e s
           | Inr dec \<Rightarrow> start_decoding B dec sniffed False (s\<lparr>cs_state := Sniffing []\<rparr>)))"

text \<open>\<open>advance\<close> takes bytes and panics (\<open>None\<close>) where they are not whole characters of the remainder.\<close>

fun split_bytes :: "nat \<Rightarrow> ustring \<Rightarrow> (ustring \<times> ustring) option" where
  "split_bytes n [] = (if n = 0 then Some ([], []) else None)"
| "split_bytes n (c # s) =
     (if n = 0 then Some ([], c # s)
      else if utf8_len c \<le> n then map_option (\<lambda>(a, b). (c # a, b)) (split_bytes (n - utf8_len c) s)
      else None)"

definition stream_advance :: "nat \<Rightarrow> 'd char_stream \<Rightarrow> 'd char_stream option" where
  "stream_advance len s =
     (case split_bytes len (cs_rest s) of
        None \<Rightarrow> None
      | Some (a, b) \<Rightarrow> Some (s\<lparr>cs_rest := b, cs_at := advance_over a (cs_at s)\<rparr>))"

definition advance_chars :: "nat \<Rightarrow> 'd char_stream \<Rightarrow> 'd char_stream option" where
  "advance_chars count s = stream_advance (byte_len (take count (cs_rest s))) s"

definition can_be_fed :: "'d char_stream \<Rightarrow> bool" where
  "can_be_fed s \<longleftrightarrow> \<not> cs_finished s"

definition is_fully_read :: "'d char_stream \<Rightarrow> bool" where
  "is_fully_read s \<longleftrightarrow> cs_finished s \<and> cs_rest s = []"

lemma split_bytes_Some: "split_bytes n s = Some (a, b) \<longleftrightarrow> s = a @ b \<and> byte_len a = n"
proof (induction n s arbitrary: a b rule: split_bytes.induct)
  case (1 n)
  then show ?case by auto
next
  case (2 n c s)
  show ?case
  proof (cases "n \<noteq> 0 \<and> utf8_len c \<le> n")
    case True
    then have "split_bytes n (c # s) = Some (a, b) \<longleftrightarrow>
        (\<exists>a'. a = c # a' \<and> split_bytes (n - utf8_len c) s = Some (a', b))"
      by (auto simp: map_option_case split: option.splits)
    also have "\<dots> \<longleftrightarrow> (\<exists>a'. a = c # a' \<and> s = a' @ b \<and> byte_len a' = n - utf8_len c)"
      using 2 True by simp
    also have "\<dots> \<longleftrightarrow> c # s = a @ b \<and> byte_len a = n"
      using True by (cases a) auto
    finally show ?thesis .
  next
    case False
    then show ?thesis by (cases a) auto
  qed
qed

lemma split_bytes_append [simp]: "split_bytes (byte_len a) (a @ b) = Some (a, b)"
  by (simp add: split_bytes_Some)

section \<open>The text does not depend on the pieces\<close>

text \<open>Line ends with the state \<open>append\<close> carries from piece to piece.\<close>

fun folded :: "bool \<Rightarrow> ustring \<Rightarrow> ustring" where
  "folded a [] = []"
| "folded a (c # s) = (if a \<and> c = LF then folded False s else (if c = CR then LF else c) # folded (c = CR) s)"

fun carried :: "bool \<Rightarrow> ustring \<Rightarrow> bool" where
  "carried a [] = a"
| "carried a (c # s) = carried (if a \<and> c = LF then False else c = CR) s"

lemma folded_line_ends: "folded False s = line_ends s \<and> LF # folded True s = line_ends (CR # s)"
  by (induction s rule: line_ends.induct) auto

lemma folded_append: "folded a (s @ t) = folded a s @ folded (carried a s) t"
  by (induction s arbitrary: a) auto

lemma carried_append: "carried a (s @ t) = carried (carried a s) t"
  by (induction s arbitrary: a) auto

lemma append_text_ok:
  "list_all is_char (folded (cs_after_cr s) t) \<Longrightarrow>
   append_text t s = (Inr (), s\<lparr>cs_rest := cs_rest s @ folded (cs_after_cr s) t, cs_after_cr := carried (cs_after_cr s) t,
     cs_chars_appended := cs_chars_appended s + length (folded (cs_after_cr s) t)\<rparr>)"
  by (induction t s rule: append_text.induct) (auto simp: Let_def)

lemma append_text_bad:
  "\<not> list_all is_char (folded (cs_after_cr s) t) \<Longrightarrow> fst (append_text t s) = Inl WellFormedness"
  by (induction t s rule: append_text.induct) (auto simp: Let_def split: if_splits)

lemma append_text_iff:
  "append_text t s = (Inr u, s') \<longleftrightarrow> list_all is_char (folded (cs_after_cr s) t) \<and>
     s' = s\<lparr>cs_rest := cs_rest s @ folded (cs_after_cr s) t, cs_after_cr := carried (cs_after_cr s) t,
       cs_chars_appended := cs_chars_appended s + length (folded (cs_after_cr s) t)\<rparr>"
  using append_text_ok [of s t] append_text_bad [of s t] by (cases "list_all is_char (folded (cs_after_cr s) t)") auto

text \<open>Every decoder the stream can hold keeps the contract, if those of the backend do.\<close>

lemma decode_object_contract:
  assumes "decoder (be_decode B)"
  shows "decoder (decode_object B)"
proof (unfold_locales, goal_cases)
  case (1 st src final st' s n)
  then show ?case
    by (cases st) (auto split: prod.splits dest: builtin.consumed_le decoder.consumed_le [OF assms])
next
  case (2 st src st' s n)
  then show ?case
    by (cases st) (auto split: prod.splits dest: builtin.consumed_all decoder.consumed_all [OF assms])
next
  case (3 st src st' s n)
  then show ?case
    by (cases st) (auto split: prod.splits dest: builtin.held_few decoder.held_few [OF assms])
next
  case (4 st src final st' s r)
  then show ?case
    by (cases st) (auto split: prod.splits dest: builtin.scalars decoder.scalars [OF assms])
next
  case (5 st src st' s n more final)
  then show ?case
    by (cases st) (auto split: prod.splits sum.splits
        simp: builtin.resume decoder.resume [OF assms])
next
  case (6 st src st' s e more final)
  then show ?case
    by (cases st) (auto split: prod.splits simp: builtin.fault_stays decoder.fault_stays [OF assms])
qed

definition feed_all :: "'d backend \<Rightarrow> byte list list \<Rightarrow> byte list \<Rightarrow> (unit, 'd char_stream) effect" where
  "feed_all B cs fin =
     and_then (each (\<lambda>c. and_then (feed B c False) (\<lambda>_. ok ())) cs) (\<lambda>_. and_then (feed B fin True) (\<lambda>_. ok ()))"

lemma feed_bytes_of_feed: "and_then (feed B c f) (\<lambda>_. ok ()) = feed_bytes B c f"
  by (rule ext) (auto simp: feed_def and_then_def split: prod.splits sum.splits)

lemma feed_all_Nil: "feed_all B [] fin = feed_bytes B fin True"
  by (simp add: feed_all_def feed_bytes_of_feed)

lemma feed_all_Cons:
  "feed_all B (c # cs) fin s = (Inr (), s') \<longleftrightarrow>
     (\<exists>s1. feed_bytes B c False s = (Inr (), s1) \<and> feed_all B cs fin s1 = (Inr (), s'))"
  by (auto simp: feed_all_def feed_bytes_of_feed and_then_eq_Inr)

lemma decode_bytes_run:
  assumes contract: "decoder (be_decode B)"
    and "cs_state s = Decoding d" "decode_object B d (cs_pending s @ bytes) final = (d', t, r)"
  shows "decode_bytes B bytes final s =
    (case r of
       Inl e \<Rightarrow> (Inl e, s\<lparr>cs_state := Decoding d', cs_pending := []\<rparr>)
     | Inr n \<Rightarrow> append_text t (s\<lparr>cs_state := Decoding d', cs_pending := drop n (cs_pending s @ bytes),
                 cs_bytes_decoded := cs_bytes_decoded s + n, cs_finished := final\<rparr>))"
proof (cases r)
  case (Inr n)
  note D = decode_object_contract [OF contract]
  have "final \<Longrightarrow> drop n (cs_pending s @ bytes) = []"
    using decoder.consumed_all [OF D, of d "cs_pending s @ bytes"] assms(3) Inr by auto
  moreover have "\<not> final \<Longrightarrow> length (drop n (cs_pending s @ bytes)) \<le> 3"
    using decoder.held_few [OF D, of d "cs_pending s @ bytes"] assms(3) Inr by auto
  ultimately show ?thesis
    using assms Inr by (cases final) (auto simp: decode_bytes_def Let_def MAX_PENDING_def)
qed (use assms in \<open>simp add: decode_bytes_def Let_def\<close>)

lemma feed_decoding:
  assumes contract: "decoder (be_decode B)"
    and "cs_state s = Decoding d" "\<not> cs_finished s"
  shows "(\<exists>s'. feed_all B cs fin s = (Inr (), s') \<and> cs_rest s' = r) \<longleftrightarrow>
    (\<exists>t. decoder.decode_chunks (decode_object B) d (cs_pending s) cs fin = Inr t \<and>
         list_all is_char (folded (cs_after_cr s) t) \<and> r = cs_rest s @ folded (cs_after_cr s) t)"
  using assms(2,3)
proof (induction cs arbitrary: s d)
  case Nil
  note chunks = decoder.decode_chunks.simps [OF decode_object_contract [OF contract]]
  obtain d' t q where q: "decode_object B d (cs_pending s @ fin) True = (d', t, q)" by (metis prod_cases3)
  show ?case
    using Nil q decode_bytes_run [OF contract Nil(1) q]
    by (cases q) (auto simp: chunks feed_all_Nil feed_bytes_def append_text_iff)
next
  case (Cons c cs)
  note chunks = decoder.decode_chunks.simps [OF decode_object_contract [OF contract]]
  obtain d' t q where q: "decode_object B d (cs_pending s @ c) False = (d', t, q)" by (metis prod_cases3)
  have feed: "feed_bytes B c False s = decode_bytes B c False s" using Cons.prems by (simp add: feed_bytes_def)
  show ?case
  proof (cases q)
    case (Inl e)
    then show ?thesis
      using q decode_bytes_run [OF contract Cons.prems(1) q] by (simp add: feed_all_Cons chunks feed)
  next
    case (Inr n)
    let ?s1 = "s\<lparr>cs_state := Decoding d', cs_pending := drop n (cs_pending s @ c),
                 cs_bytes_decoded := cs_bytes_decoded s + n, cs_finished := False\<rparr>"
    have run: "feed_bytes B c False s = append_text t ?s1"
      using feed decode_bytes_run [OF contract Cons.prems(1) q] Inr by simp
    show ?thesis
    proof (cases "list_all is_char (folded (cs_after_cr s) t)")
      case False
      then show ?thesis
        using q Inr run append_text_bad [of ?s1 t]
        by (auto simp: feed_all_Cons chunks folded_append map_sum_def split: sum.splits)
    next
      case True
      let ?s2 = "?s1\<lparr>cs_rest := cs_rest s @ folded (cs_after_cr s) t, cs_after_cr := carried (cs_after_cr s) t,
          cs_chars_appended := cs_chars_appended s + length (folded (cs_after_cr s) t)\<rparr>"
      have "append_text t ?s1 = (Inr (), ?s2)" using append_text_ok [of ?s1 t] True by simp
      then have "(\<exists>s'. feed_all B (c # cs) fin s = (Inr (), s') \<and> cs_rest s' = r) \<longleftrightarrow>
          (\<exists>s'. feed_all B cs fin ?s2 = (Inr (), s') \<and> cs_rest s' = r)"
        using run by (simp add: feed_all_Cons)
      also have "\<dots> \<longleftrightarrow> (\<exists>u. decoder.decode_chunks (decode_object B) d' (drop n (cs_pending s @ c)) cs fin = Inr u \<and>
         list_all is_char (folded (carried (cs_after_cr s) t) u) \<and>
         r = cs_rest s @ folded (cs_after_cr s) t @ folded (carried (cs_after_cr s) t) u)"
        using Cons.IH [of ?s2 d'] by simp
      also have "\<dots> \<longleftrightarrow> (\<exists>t. decoder.decode_chunks (decode_object B) d (cs_pending s) (c # cs) fin = Inr t \<and>
         list_all is_char (folded (cs_after_cr s) t) \<and> r = cs_rest s @ folded (cs_after_cr s) t)"
        using q Inr True by (auto simp: chunks folded_append map_sum_def split: sum.splits)
      finally show ?thesis .
    qed
  qed
qed

text \<open>What an entity says, as a function of all its bytes.\<close>

definition entity_text :: "'d backend \<Rightarrow> byte list \<Rightarrow> ustring option" where
  "entity_text B bytes =
     (let detection = or_default (detect bytes) in
      case decoder_object_for B (dt_encoding detection) of
        Inl _ \<Rightarrow> None
      | Inr d \<Rightarrow>
          (case decode_object B d (drop (dt_bom_length detection) bytes) True of
             (_, text, Inl _) \<Rightarrow> None
           | (_, text, Inr _) \<Rightarrow> if list_all is_char (line_ends text) then Some (line_ends text) else None))"

lemma bom_length_le: "detect bs = Determined d \<Longrightarrow> dt_bom_length d \<le> length bs"
proof -
  assume a: "detect bs = Determined d"
  show ?thesis
  proof (cases "match_signature bs")
    case (SigDetermined x)
    then obtain s where s: "find (\<lambda>s. starts_with (sg_bytes s) bs) SIGNATURES = Some s"
      and x: "dt_bom_length x = sg_bom_length s"
      by (auto simp: match_signature_def split: option.splits if_splits)
    have "starts_with (sg_bytes s) bs" "s \<in> set SIGNATURES"
      using s by (auto simp: find_Some_iff)
    then have "length (sg_bytes s) \<le> length bs" "sg_bom_length s \<le> length (sg_bytes s)"
      using starts_with_length [of "sg_bytes s" bs] by (auto simp: SIGNATURES_def sign_def)
    with a SigDetermined x show ?thesis by (simp add: detect_def split: if_splits)
  next
    case NotASignature
    with a have "detect_declaration bs = Determined d" by (simp add: detect_def split: if_splits)
    then have "dt_bom_length d = 0"
      by (auto simp: detect_declaration_cases after_start_def default_detection_def declared_def
          split: option.splits if_splits list.splits)
    then show ?thesis by simp
  qed (use a in \<open>simp add: detect_def split: if_splits\<close>)
qed

text \<open>Decoding that starts with the bytes at hand.\<close>

lemma start_decoding_reads:
  assumes contract: "decoder (be_decode B)" and "cs_rest s = []" "cs_pending s = []" "\<not> cs_after_cr s" "\<not> cs_finished s"
  shows "(\<exists>s1 s'. start_decoding B d bytes False s = (Inr (), s1) \<and> feed_all B cs fin s1 = (Inr (), s') \<and> cs_rest s' = r) \<longleftrightarrow>
      (\<exists>d' t n. decode_object B d (bytes @ concat cs @ fin) True = (d', t, Inr n) \<and>
         list_all is_char (line_ends t) \<and> r = line_ends t)"
    and "(\<exists>s'. start_decoding B d bytes True s = (Inr (), s') \<and> cs_rest s' = r) \<longleftrightarrow>
      (\<exists>d' t n. decode_object B d bytes True = (d', t, Inr n) \<and> list_all is_char (line_ends t) \<and> r = line_ends t)"
proof -
  note D = decode_object_contract [OF contract]
  let ?s = "s\<lparr>cs_encoding := Some (object_encoding B d), cs_state := Decoding d\<rparr>"
  have feed: "start_decoding B d b f s = feed_bytes B b f ?s" for b f
    using assms(5) by (simp add: start_decoding_def feed_bytes_def)
  have "(\<exists>s1 s'. start_decoding B d bytes False s = (Inr (), s1) \<and> feed_all B cs fin s1 = (Inr (), s') \<and> cs_rest s' = r) \<longleftrightarrow>
      (\<exists>s'. feed_all B (bytes # cs) fin ?s = (Inr (), s') \<and> cs_rest s' = r)"
    unfolding feed feed_all_Cons by blast
  also have "\<dots> \<longleftrightarrow> (\<exists>t. decoder.decode_chunks (decode_object B) d [] (bytes # cs) fin = Inr t \<and>
         list_all is_char (line_ends t) \<and> r = line_ends t)"
    using assms feed_decoding [OF contract, of ?s d "bytes # cs" fin r] by (simp add: folded_line_ends)
  finally show "(\<exists>s1 s'. start_decoding B d bytes False s = (Inr (), s1) \<and> feed_all B cs fin s1 = (Inr (), s') \<and> cs_rest s' = r) \<longleftrightarrow>
      (\<exists>d' t n. decode_object B d (bytes @ concat cs @ fin) True = (d', t, Inr n) \<and>
         list_all is_char (line_ends t) \<and> r = line_ends t)"
    by (simp add: decoder.decode_chunks_whole [OF D]) blast
  have "(\<exists>s'. start_decoding B d bytes True s = (Inr (), s') \<and> cs_rest s' = r) \<longleftrightarrow>
      (\<exists>s'. feed_all B [] bytes ?s = (Inr (), s') \<and> cs_rest s' = r)"
    unfolding feed feed_all_Nil ..
  also have "\<dots> \<longleftrightarrow> (\<exists>t. decoder.decode_chunks (decode_object B) d [] [] bytes = Inr t \<and>
         list_all is_char (line_ends t) \<and> r = line_ends t)"
    using assms feed_decoding [OF contract, of ?s d "[]" bytes r] by (simp add: folded_line_ends)
  finally show "(\<exists>s'. start_decoding B d bytes True s = (Inr (), s') \<and> cs_rest s' = r) \<longleftrightarrow>
      (\<exists>d' t n. decode_object B d bytes True = (d', t, Inr n) \<and> list_all is_char (line_ends t) \<and> r = line_ends t)"
    by (simp add: decoder.decode_chunks_whole [OF D]) blast
qed

lemma entity_text_iff:
  "entity_text B bytes = Some r \<longleftrightarrow>
     (\<exists>d. decoder_object_for B (dt_encoding (or_default (detect bytes))) = Inr d \<and>
       (\<exists>d' t n. decode_object B d (drop (dt_bom_length (or_default (detect bytes))) bytes) True = (d', t, Inr n) \<and>
         list_all is_char (line_ends t) \<and> r = line_ends t))"
  by (auto simp: entity_text_def Let_def split: sum.splits prod.splits)

text \<open>A stream that is still looking for its encoding, with the bytes it holds.\<close>

definition sniffing :: "byte list \<Rightarrow> 'd char_stream \<Rightarrow> bool" where
  "sniffing p s \<longleftrightarrow> cs_state s = Sniffing p \<and> cs_rest s = [] \<and> cs_pending s = [] \<and> \<not> cs_after_cr s \<and> \<not> cs_finished s"

lemma feed_sniffing:
  assumes contract: "decoder (be_decode B)" and "sniffing p s"
    and "length (p @ concat cs @ fin) < SNIFF_LIMIT \<or> detect (take SNIFF_LIMIT (p @ concat cs @ fin)) \<noteq> Incomplete"
  shows "(\<exists>s'. feed_all B cs fin s = (Inr (), s') \<and> cs_rest s' = r) \<longleftrightarrow> entity_text B (p @ concat cs @ fin) = Some r"
  using assms(2,3)
proof (induction cs arbitrary: p s)
  case Nil
  let ?dt = "or_default (detect (p @ fin))"
  show ?case
  proof (cases "decoder_object_for B (dt_encoding ?dt)")
    case (Inl e)
    with Nil show ?thesis
      by (auto simp: feed_all_Nil feed_bytes_def sniffing_def Let_def entity_text_def)
  next
    case (Inr d)
    let ?s = "s\<lparr>cs_state := Sniffing []\<rparr>"
    have "feed_bytes B fin True s = start_decoding B d (drop (dt_bom_length ?dt) (p @ fin)) True ?s"
      using Nil Inr by (simp add: feed_bytes_def sniffing_def Let_def)
    with start_decoding_reads(2) [OF contract, of ?s d "drop (dt_bom_length ?dt) (p @ fin)" r] Nil Inr show ?thesis
      by (simp add: feed_all_Nil entity_text_iff sniffing_def)
  qed
next
  case (Cons c cs)
  let ?all = "p @ concat (c # cs) @ fin"
  show ?case
  proof (cases "detect (p @ c)")
    case Incomplete
    have "length (p @ c) < SNIFF_LIMIT"
    proof (rule ccontr)
      assume long: "\<not> length (p @ c) < SNIFF_LIMIT"
      then have "take SNIFF_LIMIT ?all = take SNIFF_LIMIT (p @ c)" by simp
      with Cons.prems(2) long obtain d where d: "detect (take SNIFF_LIMIT (p @ c)) = Determined d"
        by (cases "detect (take SNIFF_LIMIT (p @ c))") auto
      from detect_final [OF d, of "drop SNIFF_LIMIT (p @ c)"] have "detect (p @ c) = Determined d"
        unfolding append_take_drop_id .
      with Incomplete show False by simp
    qed
    with Incomplete Cons.prems(1)
    have f: "feed_bytes B c False s = (Inr (), s\<lparr>cs_state := Sniffing (p @ c)\<rparr>)"
      "sniffing (p @ c) (s\<lparr>cs_state := Sniffing (p @ c)\<rparr>)"
      by (simp_all add: feed_bytes_def sniffing_def Let_def)
    with Cons.IH [OF f(2)] Cons.prems(2) show ?thesis by (simp add: feed_all_Cons)
  next
    case (Determined dt)
    have all: "detect ?all = Determined dt" using detect_final [OF Determined, of "concat cs @ fin"] by simp
    have bom: "drop (dt_bom_length dt) ?all = drop (dt_bom_length dt) (p @ c) @ concat cs @ fin"
      using bom_length_le [OF Determined] by simp
    let ?s = "s\<lparr>cs_state := Sniffing []\<rparr>"
    show ?thesis
    proof (cases "decoder_object_for B (dt_encoding dt)")
      case (Inl e)
      with Determined Cons.prems(1) have "feed_bytes B c False s = (Inl e, ?s)"
        by (simp add: feed_bytes_def sniffing_def Let_def)
      with Inl all show ?thesis by (simp add: feed_all_Cons entity_text_iff)
    next
      case (Inr d)
      with Determined Cons.prems(1)
      have "feed_bytes B c False s = start_decoding B d (drop (dt_bom_length dt) (p @ c)) False ?s"
        by (simp add: feed_bytes_def sniffing_def Let_def)
      with start_decoding_reads(1) [OF contract, of ?s d "drop (dt_bom_length dt) (p @ c)" cs fin r] Cons.prems(1) Inr all bom
      show ?thesis by (simp add: feed_all_Cons entity_text_iff sniffing_def) blast
    qed
  qed
qed

text \<open>
  C37. For an entity that is shorter than 256 bytes or tells its encoding in the first 256, and a decoder
  backend that keeps the contract \<open>decoder\<close>, what a new stream reads depends on the bytes alone: however they
  are cut into the pieces it is fed, the stream succeeds exactly when \<open>entity_text\<close> of all of them does, and
  holds that text. An encoding that only later bytes would tell is guessed from what has come by then, and
  is not covered.
\<close>

theorem stream_reads_entity:
  assumes "decoder (be_decode B)"
    and "length (concat cs @ fin) < SNIFF_LIMIT \<or> detect (take SNIFF_LIMIT (concat cs @ fin)) \<noteq> Incomplete"
  shows "(\<exists>s. feed_all B cs fin new_stream = (Inr (), s) \<and> cs_rest s = r) \<longleftrightarrow> entity_text B (concat cs @ fin) = Some r"
  using feed_sniffing [OF assms(1), of "[]" new_stream cs fin r] assms(2) by (simp add: sniffing_def new_stream_def)

definition no_backend :: "unit backend" where
  "no_backend = \<lparr>be_find = \<lambda>_. None, be_decode = utf8_decoder, be_name = \<lambda>_. []\<rparr>"

lemma no_backend_contract: "decoder (be_decode no_backend)"
  by (simp add: no_backend_def utf8.decoder_axioms)

lemma entity_sample: "entity_text no_backend [0xEF, 0xBB, 0xBF, 0x3C, 0x0D, 0x0A, 0x3E] = Some [0x3C, 0x0A, 0x3E]"
proof -
  have d: "detect [0xEF, 0xBB, 0xBF, 0x3C, 0x0D, 0x0A, 0x3E] =
      Determined \<lparr>dt_encoding = lit ''UTF-8'', dt_bom_length = 3, dt_source = Bom\<rparr>"
    by (simp add: detect_def match_signature_def SIGNATURES_def sign_def could_extend_def)
  have l: "decoder_object_for no_backend (lit ''UTF-8'') = Inr (Builtin Utf8Decoder)"
    by (simp add: decoder_object_for_def decoder_for_def lookup_def builtin_labels_def trim_def white_space_def
        to_ascii_lower_def)
  have u: "utf8_decode [0x3C, 0x0D, 0x0A, 0x3E] True = ([0x3C, 0x0D, 0x0A, 0x3E], Inr 4)"
    using utf8_decode_iff' [of "[0x3C, 0x0D, 0x0A, 0x3E]" "[0x3C, 0x0D, 0x0A, 0x3E]" 4]
    by (simp add: scalar_def utf8_len_def utf8_encode_char_ascii byte_of_def)
  show ?thesis
    by (simp add: entity_text_def d l u is_char_def CR_def LF_def del: lit_Cons)
qed

lemma stream_reads_entity_witness:
  "\<exists>s. feed_all no_backend [[0xEF], [0xBB, 0xBF, 0x3C], [0x0D]] [0x0A, 0x3E] new_stream = (Inr (), s) \<and>
     cs_rest s = [0x3C, 0x0A, 0x3E]"
  using stream_reads_entity [OF no_backend_contract, of "[[0xEF], [0xBB, 0xBF, 0x3C], [0x0D]]" "[0x0A, 0x3E]"] entity_sample
  by (simp add: SNIFF_LIMIT_def)

end
