(* ===== verification/Entity_Stack.thy ===== *)
theory Entity_Stack
  imports Char_Stream Config Uri Names
begin

text \<open>
  The entities being read, \<open>io/parse/entity.rs\<close>: the document entity at the bottom, above it the
  general entities whose replacement is being read, the innermost last, with the counters that the
  limits on entity expansion are about.

  The theorem of the component states what the limits guarantee over any sequence of operations, the
  defence against entities that multiply without end.
\<close>

section \<open>Entities\<close>

datatype entity_kind = DocumentEntity | InternalGeneral | ExternalGeneral

definition is_external :: "entity_kind \<Rightarrow> bool" where
  "is_external k \<longleftrightarrow> k = DocumentEntity \<or> k = ExternalGeneral"

definition is_expansion :: "entity_kind \<Rightarrow> bool" where
  "is_expansion k \<longleftrightarrow> k \<noteq> DocumentEntity"

record 'd entity =
  ey_name :: "ustring option"
  ey_kind :: entity_kind
  ey_stream :: "'d char_stream"
  ey_base_uri :: "uri_reference option"

definition new_entity ::
  "ustring option \<Rightarrow> entity_kind \<Rightarrow> 'd char_stream \<Rightarrow> uri_reference option \<Rightarrow> 'd entity" where
  "new_entity name kind stream inherited =
     \<lparr>ey_name = name, ey_kind = kind, ey_stream = stream,
      ey_base_uri =
        (if is_external kind then
           (case lo_system_id (cs_at stream) of
              None \<Rightarrow> None
            | Some i \<Rightarrow> (case parse i of Inl _ \<Rightarrow> None | Inr u \<Rightarrow> Some u))
         else inherited)\<rparr>"

definition document_entity :: "'d char_stream \<Rightarrow> 'd entity" where
  "document_entity stream = new_entity None DocumentEntity stream None"

section \<open>The stack\<close>

record 'd entity_stack =
  es_entities :: "'d entity list"
  es_limits :: entity_limits
  es_expansions :: nat
  es_expansion_chars :: nat

definition new_stack :: "'d entity \<Rightarrow> entity_limits \<Rightarrow> 'd entity_stack" where
  "new_stack document limits =
     \<lparr>es_entities = [document], es_limits = limits, es_expansions = 0, es_expansion_chars = 0\<rparr>"

definition current :: "'d entity_stack \<Rightarrow> 'd entity" where
  "current s = last (es_entities s)"

definition stack_document :: "'d entity_stack \<Rightarrow> 'd entity" where
  "stack_document s = hd (es_entities s)"

definition stack_depth :: "'d entity_stack \<Rightarrow> nat" where
  "stack_depth s = length (es_entities s)"

definition is_open :: "ustring \<Rightarrow> 'd entity_stack \<Rightarrow> bool" where
  "is_open name s \<longleftrightarrow> list_ex (\<lambda>e. ey_name e = Some name) (es_entities s)"

definition stack_base_uri :: "'d entity_stack \<Rightarrow> uri_reference option" where
  "stack_base_uri s =
     (case find (\<lambda>e. ey_base_uri e \<noteq> None) (rev (es_entities s)) of None \<Rightarrow> None | Some e \<Rightarrow> ey_base_uri e)"

definition stack_location :: "'d entity_stack \<Rightarrow> location" where
  "stack_location s = cs_at (ey_stream (current s))"

definition set_stack_limits :: "entity_limits \<Rightarrow> 'd entity_stack \<Rightarrow> 'd entity_stack" where
  "set_stack_limits limits s = s\<lparr>es_limits := limits\<rparr>"

text \<open>Work on the stream of the innermost entity, \<open>current_mut().stream_mut()\<close>.\<close>

definition set_stream :: "'d char_stream \<Rightarrow> 'd entity_stack \<Rightarrow> 'd entity_stack" where
  "set_stream st s = s\<lparr>es_entities := butlast (es_entities s) @ [(current s)\<lparr>ey_stream := st\<rparr>]\<rparr>"

definition on_stream :: "('e, 'a, 'd char_stream) action \<Rightarrow> ('e, 'a, 'd entity_stack) action" where
  "on_stream f s = (case f (ey_stream (current s)) of (r, st) \<Rightarrow> (r, set_stream st s))"

text \<open>\<open>expansions\<close> is a \<open>u32\<close> and \<open>expansion_chars\<close> a \<open>u64\<close>; both saturate.\<close>

definition count_expansion_chars :: "nat \<Rightarrow> (unit, 'd entity_stack) effect" where
  "count_expansion_chars chars s =
     (let s' = s\<lparr>es_expansion_chars := saturating_add u64_max (es_expansion_chars s) chars\<rparr> in
      case max_expansion_chars (es_limits s) of
        None \<Rightarrow> ok () s'
      | Some m \<Rightarrow> if m < es_expansion_chars s' then fail Limit s' else ok () s')"

definition count_expansion :: "nat \<Rightarrow> (unit, 'd entity_stack) effect" where
  "count_expansion chars s =
     (if (case max_expansions (es_limits s) of None \<Rightarrow> False | Some m \<Rightarrow> m \<le> es_expansions s) then fail Limit s
      else count_expansion_chars chars (s\<lparr>es_expansions := saturating_add u32_max (es_expansions s) 1\<rparr>))"

definition push_entity :: "'d entity \<Rightarrow> (unit, 'd entity_stack) effect" where
  "push_entity e s =
     (if (case ey_name e of None \<Rightarrow> False | Some name \<Rightarrow> is_open name s) then fail WellFormedness s
      else if (case max_depth (es_limits s) of None \<Rightarrow> False | Some m \<Rightarrow> m \<le> length (es_entities s)) then fail Limit s
      else
        and_then (if is_expansion (ey_kind e) then count_expansion (cs_chars_appended (ey_stream e)) else ok ())
          (\<lambda>_ s. ok () (s\<lparr>es_entities := es_entities s @ [e]\<rparr>)) s)"

definition pop_entity :: "'d entity_stack \<Rightarrow> 'd entity option \<times> 'd entity_stack" where
  "pop_entity s =
     (if length (es_entities s) \<le> 1 then (None, s)
      else (Some (current s), s\<lparr>es_entities := butlast (es_entities s)\<rparr>))"

definition feed_stack :: "'d backend \<Rightarrow> byte list \<Rightarrow> bool \<Rightarrow> (unit, 'd entity_stack) effect" where
  "feed_stack B bytes final s =
     (let counts = is_expansion (ey_kind (current s)) in
      and_then (on_stream (feed B bytes final))
        (\<lambda>grew. if counts then count_expansion_chars grew else ok ()) s)"

section \<open>What the limits guarantee\<close>

datatype 'd stack_op = Push "'d entity" | Pop | Feed "byte list" bool | CountExpansion nat

fun stack_step :: "'d backend \<Rightarrow> 'd stack_op \<Rightarrow> (unit, 'd entity_stack) effect" where
  "stack_step B (Push e) = push_entity e"
| "stack_step B Pop = modify (\<lambda>s. snd (pop_entity s))"
| "stack_step B (Feed bytes final) = feed_stack B bytes final"
| "stack_step B (CountExpansion chars) = count_expansion chars"

text \<open>The expansions among the operations, and the characters they bring in.\<close>

fun expands :: "'d stack_op \<Rightarrow> bool" where
  "expands (Push e) = is_expansion (ey_kind e)"
| "expands (CountExpansion chars) = True"
| "expands op = False"

fun expanded :: "'d backend \<Rightarrow> 'd entity_stack \<Rightarrow> 'd stack_op \<Rightarrow> nat" where
  "expanded B s (Push e) = (if is_expansion (ey_kind e) then cs_chars_appended (ey_stream e) else 0)"
| "expanded B s (CountExpansion chars) = chars"
| "expanded B s (Feed bytes final) =
     (if is_expansion (ey_kind (current s))
      then cs_chars_appended (snd (feed B bytes final (ey_stream (current s)))) - cs_chars_appended (ey_stream (current s))
      else 0)"
| "expanded B s Pop = 0"

fun total_expanded :: "'d backend \<Rightarrow> 'd entity_stack \<Rightarrow> 'd stack_op list \<Rightarrow> nat" where
  "total_expanded B s [] = 0"
| "total_expanded B s (op # ops) = expanded B s op + total_expanded B (snd (stack_step B op s)) ops"

definition names_open :: "'d entity_stack \<Rightarrow> ustring list" where
  "names_open s = map the (filter (\<lambda>n. n \<noteq> None) (map ey_name (es_entities s)))"

definition within_limits :: "'d entity_stack \<Rightarrow> bool" where
  "within_limits s \<longleftrightarrow> es_entities s \<noteq> [] \<and> distinct (names_open s) \<and>
     es_expansions s \<le> u32_max \<and> es_expansion_chars s \<le> u64_max \<and>
     (\<forall>m. max_depth (es_limits s) = Some m \<longrightarrow> length (es_entities s) \<le> max m 1) \<and>
     (\<forall>m. max_expansions (es_limits s) = Some m \<longrightarrow> es_expansions s \<le> m) \<and>
     (\<forall>m. max_expansion_chars (es_limits s) = Some m \<longrightarrow> es_expansion_chars s \<le> m)"

lemma count_expansion_chars_Inr:
  "count_expansion_chars n s = (Inr u, s') \<longleftrightarrow>
     s' = s\<lparr>es_expansion_chars := saturating_add u64_max (es_expansion_chars s) n\<rparr> \<and>
     (\<forall>m. max_expansion_chars (es_limits s) = Some m \<longrightarrow> es_expansion_chars s' \<le> m)"
  by (auto simp: count_expansion_chars_def Let_def split: option.splits)

lemma count_expansion_Inr:
  "count_expansion n s = (Inr u, s') \<longleftrightarrow>
     s' = s\<lparr>es_expansions := saturating_add u32_max (es_expansions s) 1,
            es_expansion_chars := saturating_add u64_max (es_expansion_chars s) n\<rparr> \<and>
     (\<forall>m. max_expansions (es_limits s) = Some m \<longrightarrow> es_expansions s < m) \<and>
     (\<forall>m. max_expansion_chars (es_limits s) = Some m \<longrightarrow> es_expansion_chars s' \<le> m)"
  by (auto simp: count_expansion_def count_expansion_chars_Inr split: option.splits)

lemma count_expansion_within:
  assumes "count_expansion n s = (Inr u, s')"
  shows "s' = s\<lparr>es_expansions := saturating_add u32_max (es_expansions s) 1,
            es_expansion_chars := saturating_add u64_max (es_expansion_chars s) n\<rparr>"
    "\<forall>m. max_expansions (es_limits s) = Some m \<longrightarrow> es_expansions s < m \<and> saturating_add u32_max (es_expansions s) 1 \<le> m"
    "\<forall>m. max_expansion_chars (es_limits s) = Some m \<longrightarrow> saturating_add u64_max (es_expansion_chars s) n \<le> m"
  using assms by (auto simp: count_expansion_Inr saturating_add_def min_le_iff_disj)

lemma push_entity_Inr:
  "push_entity e s = (Inr u, s') \<longleftrightarrow>
     (\<forall>n. ey_name e = Some n \<longrightarrow> n \<notin> set (names_open s)) \<and>
     (\<forall>m. max_depth (es_limits s) = Some m \<longrightarrow> length (es_entities s) < m) \<and>
     (\<exists>s1. (if is_expansion (ey_kind e) then count_expansion (cs_chars_appended (ey_stream e)) s = (Inr (), s1)
            else s1 = s) \<and> s' = s1\<lparr>es_entities := es_entities s @ [e]\<rparr>)"
proof -
  have o: "is_open n s \<longleftrightarrow> n \<in> set (names_open s)" for n
    by (force simp: is_open_def names_open_def list_ex_iff image_iff)
  have es: "es_entities s1 = es_entities s" if "count_expansion n s = (Inr (), s1)" for n s1
    using that by (auto simp: count_expansion_Inr)
  show ?thesis
    by (auto simp: push_entity_def o and_then_eq_Inr es split: option.splits if_splits)
qed

lemma current_parts: "es_entities s \<noteq> [] \<Longrightarrow> es_entities s = butlast (es_entities s) @ [current s]"
  by (simp add: current_def)

lemma map_set_stream:
  assumes "es_entities s \<noteq> []" "\<And>e st. f (e\<lparr>ey_stream := st\<rparr>) = f e"
  shows "map f (es_entities (set_stream st s)) = map f (es_entities s)"
proof -
  have "map f (es_entities s) = map f (butlast (es_entities s) @ [current s])"
    by (simp only: current_parts [OF assms(1), symmetric])
  then show ?thesis by (simp add: set_stream_def assms(2))
qed

lemma names_set_stream: "es_entities s \<noteq> [] \<Longrightarrow> names_open (set_stream st s) = names_open s"
  unfolding names_open_def by (subst map_set_stream) simp_all

lemma set_stream_fields [simp]:
  "es_limits (set_stream st s) = es_limits s" "es_expansions (set_stream st s) = es_expansions s"
  "es_expansion_chars (set_stream st s) = es_expansion_chars s" "es_entities (set_stream st s) \<noteq> []"
  "current (set_stream st s) = (current s)\<lparr>ey_stream := st\<rparr>"
  by (simp_all add: set_stream_def current_def)

lemma length_set_stream [simp]: "es_entities s \<noteq> [] \<Longrightarrow> length (es_entities (set_stream st s)) = length (es_entities s)"
  by (simp add: set_stream_def)

lemma feed_stack_Inr:
  "feed_stack B bytes final s = (Inr u, s') \<longleftrightarrow>
     (\<exists>g st. feed B bytes final (ey_stream (current s)) = (Inr g, st) \<and>
        (if is_expansion (ey_kind (current s)) then count_expansion_chars g (set_stream st s) = (Inr (), s')
         else s' = set_stream st s))"
  by (auto simp: feed_stack_def Let_def and_then_eq_Inr on_stream_def split: prod.splits)

lemma feed_grew: "feed B bytes final st = (Inr g, st') \<Longrightarrow> g = cs_chars_appended st' - cs_chars_appended st"
  by (auto simp: feed_def and_then_eq_Inr)

lemma names_open_append:
  "names_open (s\<lparr>es_entities := es_entities s @ [e]\<rparr>) =
     names_open s @ (case ey_name e of None \<Rightarrow> [] | Some n \<Rightarrow> [n])"
  by (simp add: names_open_def split: option.split)

lemma names_open_butlast: "distinct (names_open s) \<Longrightarrow> distinct (names_open (s\<lparr>es_entities := butlast (es_entities s)\<rparr>))"
  by (cases "es_entities s" rule: rev_cases) (simp_all add: names_open_def)

text \<open>One operation that succeeds: the limits hold on, and the counters count it.\<close>

lemma stack_step_counts:
  assumes "stack_step B op s = (Inr (), s')" "within_limits s"
  shows "within_limits s'" "es_limits s' = es_limits s"
    "es_expansions s' = saturating_add u32_max (es_expansions s) (if expands op then 1 else 0)"
    "es_expansion_chars s' = saturating_add u64_max (es_expansion_chars s) (expanded B s op)"
    "expands op \<Longrightarrow> max_expansions (es_limits s) = Some m \<Longrightarrow> es_expansions s < m"
proof -
  have "within_limits s' \<and> es_limits s' = es_limits s \<and>
    es_expansions s' = saturating_add u32_max (es_expansions s) (if expands op then 1 else 0) \<and>
    es_expansion_chars s' = saturating_add u64_max (es_expansion_chars s) (expanded B s op) \<and>
    (expands op \<longrightarrow> max_expansions (es_limits s) = Some m \<longrightarrow> es_expansions s < m)"
  proof (cases op)
    case (Push e)
    note p = assms(1) [unfolded Push stack_step.simps push_entity_Inr]
    obtain s1 where s1: "if is_expansion (ey_kind e) then count_expansion (cs_chars_appended (ey_stream e)) s = (Inr (), s1)
            else s1 = s" and s': "s' = s1\<lparr>es_entities := es_entities s @ [e]\<rparr>" using p by blast
    have same: "es_entities s1 = es_entities s" "es_limits s1 = es_limits s" "names_open s1 = names_open s"
      using s1 by (auto simp: count_expansion_Inr names_open_def split: if_splits)
    have d: "distinct (names_open s')"
      using p assms(2) names_open_append [of s1 e] by (auto simp: s' same within_limits_def split: option.splits)
    have l: "\<forall>m. max_depth (es_limits s) = Some m \<longrightarrow> length (es_entities s') \<le> max m 1"
      using p by (auto simp: s')
    show ?thesis
    proof (cases "is_expansion (ey_kind e)")
      case True
      with s1 have c: "count_expansion (cs_chars_appended (ey_stream e)) s = (Inr (), s1)" by simp
      note c = count_expansion_within [OF c]
      have "within_limits s'"
        using c d l assms(2) by (simp add: within_limits_def s' saturating_add_le)
      with c True show ?thesis by (simp add: s' Push)
    next
      case False
      with s1 d l assms(2) show ?thesis by (simp add: within_limits_def s' Push)
    qed
  next
    case Pop
    have s': "s' = (if length (es_entities s) \<le> 1 then s else s\<lparr>es_entities := butlast (es_entities s)\<rparr>)"
      using assms(1) by (simp add: Pop pop_entity_def split: if_splits)
    have "within_limits (s\<lparr>es_entities := butlast (es_entities s)\<rparr>)" if "\<not> length (es_entities s) \<le> 1"
    proof -
      have "butlast (es_entities s) \<noteq> []" using that by (cases "es_entities s" rule: rev_cases) auto
      with assms(2) names_open_butlast [of s] show ?thesis
        unfolding within_limits_def by (auto intro: order_trans [OF diff_le_self])
    qed
    with assms(2) show ?thesis by (simp add: s' Pop within_limits_def)
  next
    case (Feed bytes final)
    from assms(1) obtain g st where f: "feed B bytes final (ey_stream (current s)) = (Inr g, st)"
      and c: "if is_expansion (ey_kind (current s)) then count_expansion_chars g (set_stream st s) = (Inr (), s')
         else s' = set_stream st s"
      by (auto simp: Feed feed_stack_Inr)
    have ne: "es_entities s \<noteq> []" using assms(2) by (simp add: within_limits_def)
    have "names_open s' = names_open s" "es_entities s' \<noteq> []" "length (es_entities s') = length (es_entities s)"
      using c names_set_stream [OF ne, of st] ne
      by (auto simp: count_expansion_chars_Inr names_open_def split: if_splits)
    moreover from c have "if is_expansion (ey_kind (current s))
        then s' = (set_stream st s)\<lparr>es_expansion_chars := saturating_add u64_max (es_expansion_chars s) g\<rparr> \<and>
          (\<forall>m. max_expansion_chars (es_limits s) = Some m \<longrightarrow> saturating_add u64_max (es_expansion_chars s) g \<le> m)
        else s' = set_stream st s"
      by (auto simp: count_expansion_chars_Inr split: if_splits)
    ultimately show ?thesis
      using assms(2) feed_grew [OF f] f
      by (cases "is_expansion (ey_kind (current s))") (simp_all add: Feed within_limits_def saturating_add_le)
  next
    case (CountExpansion chars)
    with assms(1) have c: "count_expansion chars s = (Inr (), s')" by simp
    note c = count_expansion_within [OF c]
    then have "names_open s' = names_open s" by (simp add: names_open_def)
    with c assms(2) have "within_limits s'"
      by (simp add: within_limits_def saturating_add_le)
    with c show ?thesis by (simp add: CountExpansion)
  qed
  then show "within_limits s'" "es_limits s' = es_limits s"
    "es_expansions s' = saturating_add u32_max (es_expansions s) (if expands op then 1 else 0)"
    "es_expansion_chars s' = saturating_add u64_max (es_expansion_chars s) (expanded B s op)"
    "expands op \<Longrightarrow> max_expansions (es_limits s) = Some m \<Longrightarrow> es_expansions s < m" by blast+
qed

lemma saturating_add_assoc:
  "saturating_add b (saturating_add b a x) y = saturating_add b a (x + y)"
  by (simp add: saturating_add_def)

lemma stack_run_counts:
  assumes "each (stack_step B) ops s = (Inr (), s')" "within_limits s"
  shows "within_limits s' \<and> es_limits s' = es_limits s \<and>
    es_expansion_chars s' = saturating_add u64_max (es_expansion_chars s) (total_expanded B s ops) \<and>
    (max_expansions (es_limits s) = Some m \<longrightarrow> m \<le> u32_max \<longrightarrow>
      es_expansions s + length (filter expands ops) \<le> max m (es_expansions s))"
  using assms
proof (induction ops arbitrary: s)
  case Nil
  then show ?case by (simp add: within_limits_def saturating_add_def)
next
  case (Cons op ops)
  from Cons.prems(1) obtain s1 where s1: "stack_step B op s = (Inr (), s1)" "each (stack_step B) ops s1 = (Inr (), s')"
    unfolding each_Cons_Inr by blast
  note c = stack_step_counts [OF s1(1) Cons.prems(2)]
  note IH = Cons.IH [OF s1(2) c(1)]
  have "es_expansion_chars s' = saturating_add u64_max (es_expansion_chars s) (total_expanded B s (op # ops))"
    using IH c(4) s1(1) by (simp add: saturating_add_assoc)
  moreover have "es_expansions s + length (filter expands (op # ops)) \<le> max m (es_expansions s)"
    if "max_expansions (es_limits s) = Some m" "m \<le> u32_max"
    using IH c(2,3) c(5) [OF _ that(1)] that Cons.prems(2)
    by (auto simp: saturating_add_def within_limits_def)
  ultimately show ?case using IH c(2) by simp
qed

text \<open>
  C40. Whatever the document references: in any sequence of operations on the stack that succeeds, the open
  entities have different names (no entity is read inside itself), are no deeper than \<open>max_depth\<close>, no
  more than \<open>max_expansions\<close> entities were expanded, in content or in attribute values, and the text they
  brought in, all of it together, is no longer than \<open>max_expansion_chars\<close>.
\<close>

theorem expansion_limits:
  assumes "each (stack_step B) ops (new_stack (document_entity st) l) = (Inr (), s)"
  shows "distinct (names_open s) \<and>
    (\<forall>m. max_depth l = Some m \<longrightarrow> stack_depth s \<le> max m 1) \<and>
    (\<forall>m. max_expansions l = Some m \<longrightarrow> m \<le> u32_max \<longrightarrow> length (filter expands ops) \<le> m) \<and>
    (\<forall>m. max_expansion_chars l = Some m \<longrightarrow> m < u64_max \<longrightarrow>
       total_expanded B (new_stack (document_entity st) l) ops \<le> m)"
proof -
  have "within_limits (new_stack (document_entity st) l)"
    by (simp add: within_limits_def new_stack_def names_open_def document_entity_def new_entity_def)
  note r = stack_run_counts [OF assms this]
  let ?s = "new_stack (document_entity st) l"
  have new: "es_limits ?s = l" "es_expansions ?s = 0" "es_expansion_chars ?s = 0" by (simp_all add: new_stack_def)
  from r have w: "within_limits s" "es_limits s = l" "es_expansion_chars s = min u64_max (total_expanded B ?s ops)"
    by (simp_all add: new saturating_add_def)
  have "length (filter expands ops) \<le> m" if "max_expansions l = Some m" "m \<le> u32_max" for m
    using r [of m] that by (simp add: new)
  moreover have "total_expanded B ?s ops \<le> m" if "max_expansion_chars l = Some m" "m < u64_max" for m
    using w that by (auto simp: within_limits_def min_def split: if_splits)
  moreover have "stack_depth s \<le> max m 1" if "max_depth l = Some m" for m
    using w(1,2) that unfolding within_limits_def stack_depth_def by blast
  moreover have "distinct (names_open s)" using w(1) by (simp add: within_limits_def)
  ultimately show ?thesis by blast
qed

text \<open>A document that references \<open>e\<close> twice, once in content and once in an attribute value.\<close>

lemma expansion_limits_witness:
  "\<exists>s. each (stack_step no_backend)
      [Push (new_entity (Some (lit ''e'')) InternalGeneral (new_stream\<lparr>cs_chars_appended := 3\<rparr>) None), Pop, CountExpansion 3]
      (new_stack (document_entity new_stream) entity_limits_default) = (Inr (), s) \<and>
    total_expanded no_backend (new_stack (document_entity new_stream) entity_limits_default)
      [Push (new_entity (Some (lit ''e'')) InternalGeneral (new_stream\<lparr>cs_chars_appended := 3\<rparr>) None), Pop, CountExpansion 3]
      \<le> 64 * 1024 * 1024"
proof -
  let ?ops = "[Push (new_entity (Some (lit ''e'')) InternalGeneral (new_stream\<lparr>cs_chars_appended := 3\<rparr>) None), Pop, CountExpansion 3]"
  let ?s = "new_stack (document_entity new_stream) entity_limits_default"
  obtain s where s: "each (stack_step no_backend) ?ops ?s = (Inr (), s)"
    by (simp add: push_entity_def is_open_def new_stack_def new_entity_def document_entity_def entity_limits_default_def
        is_expansion_def count_expansion_def count_expansion_chars_def saturating_add_def Let_def u32_max_def u64_max_def
        pop_entity_def new_stream_def and_then_def)
  from expansion_limits [OF s] s show ?thesis
    by (simp add: entity_limits_default_def u64_max_def)
qed

end
