(* ===== verification/Decl.thy ===== *)
theory Decl
  imports Detect Chars Effects
begin

text \<open>
  The text declaration at the start of an external entity, \<open>io/decl.rs\<close>, and the pseudo-attributes it
  shares with the XML declaration.

  The declaration is looked for while the entity still arrives; the theorem of the component states
  that an answer other than "more input" does not change with the input that follows.
\<close>

definition trim_start :: "ustring \<Rightarrow> ustring" where
  "trim_start s = dropWhile is_whitespace s"

definition pseudo_attribute :: "ustring \<Rightarrow> (ustring \<times> ustring \<times> ustring) result" where
  "pseudo_attribute text =
     (let rest = trim_start text;
          name = takeWhile (\<lambda>c. c \<noteq> cp CHR ''='' \<and> \<not> is_whitespace c) rest;
          after = trim_start (drop (length name) rest)
      in case after of
           [] \<Rightarrow> Inl WellFormedness
         | e # r \<Rightarrow>
             if e \<noteq> cp CHR ''='' then Inl WellFormedness
             else (case trim_start r of
                     [] \<Rightarrow> Inl WellFormedness
                   | quote # body \<Rightarrow>
                       if quote \<noteq> QUOT \<and> quote \<noteq> APOS then Inl WellFormedness
                       else (case split_once quote body of
                               None \<Rightarrow> Inl WellFormedness
                             | Some (value, tail) \<Rightarrow> Inr (name, value, tail))))"

lemma trim_start_length: "length (trim_start s) \<le> length s"
  by (simp add: trim_start_def length_dropWhile_le)

lemma pseudo_attribute_tail:
  assumes "pseudo_attribute text = Inr (name, value, tail)"
  shows "length tail < length text \<and> set tail \<subseteq> set text \<and> set value \<subseteq> set text \<and> set name \<subseteq> set text"
proof -
  define rest where "rest = trim_start text"
  define nm where "nm = takeWhile (\<lambda>c. c \<noteq> cp CHR ''='' \<and> \<not> is_whitespace c) rest"
  have sub: "set (trim_start x) \<subseteq> set x" for x by (auto simp: trim_start_def dest: set_dropWhileD)
  obtain e r quote body where p: "trim_start (drop (length nm) rest) = e # r" "trim_start r = quote # body"
      "split_once quote body = Some (value, tail)" "name = nm"
    using assms [unfolded pseudo_attribute_def Let_def, folded rest_def, folded nm_def]
    by (auto split: list.splits if_splits option.splits)
  have body: "body = value @ quote # tail" using p(3) by (simp add: split_once_Some)
  have "length (e # r) \<le> length rest"
    using trim_start_length [of "drop (length nm) rest"] p(1) by simp
  moreover have "length (quote # body) \<le> length r" using trim_start_length [of r] p(2) by simp
  moreover have "length rest \<le> length text" unfolding rest_def by (rule trim_start_length)
  moreover have "set (e # r) \<subseteq> set rest"
    using sub [of "drop (length nm) rest"] set_drop_subset [of "length nm" rest] p(1) by auto
  moreover have "set (quote # body) \<subseteq> set r" using sub [of r] p(2) by simp
  moreover have "set rest \<subseteq> set text" unfolding rest_def by (rule sub)
  moreover have "set nm \<subseteq> set rest" by (auto simp: nm_def dest: set_takeWhileD)
  ultimately show ?thesis using body p(4) by auto
qed

datatype text_decl = NoDecl | Present nat | NeedMore

text \<open>The loop over the pseudo-attributes, with the names seen.\<close>

function text_decl_loop :: "ustring list \<Rightarrow> ustring \<Rightarrow> ustring list result" where
  "text_decl_loop seen rest =
     (if trim_start rest = [] then Inr seen
      else case pseudo_attribute rest of
        Inl e \<Rightarrow> Inl e
      | Inr (name, value, tail) \<Rightarrow>
          if name \<in> set seen then Inl WellFormedness
          else if name = lit ''version'' then
            (if seen = [] then text_decl_loop (seen @ [name]) tail else Inl WellFormedness)
          else if name = lit ''encoding'' then text_decl_loop (seen @ [name]) tail
          else Inl WellFormedness)"
  by pat_completeness auto
termination
  by (relation "measure (\<lambda>(seen, rest). length rest)") (auto dest: pseudo_attribute_tail)

declare text_decl_loop.simps [simp del]

definition text_declaration_span :: "ustring \<Rightarrow> bool \<Rightarrow> text_decl result" where
  "text_declaration_span rem final =
     (let head = lit ''<?xml'' in
      if \<not> final \<and> byte_len rem \<le> byte_len head \<and> starts_with rem head then Inr NeedMore
      else case strip_prefix head rem of
        None \<Rightarrow> Inr NoDecl
      | Some after \<Rightarrow>
          if after = [] \<and> \<not> final then Inr NeedMore
          else if after = [] \<or> \<not> is_whitespace (hd after) then Inr NoDecl
          else (case find_sub (lit ''?>'') rem of
                  None \<Rightarrow> if final then Inl WellFormedness else Inr NeedMore
                | Some i \<Rightarrow>
                    (case text_decl_loop [] (drop (length head) (take i rem)) of
                       Inl e \<Rightarrow> Inl e
                     | Inr seen \<Rightarrow>
                         if lit ''encoding'' \<notin> set seen then Inl WellFormedness
                         else Inr (Present (byte_len (take i rem) + 2)))))"

text \<open>
  C39. The text declaration of an entity that still arrives is decided once: an answer other than "more
  input" is the answer for whatever text follows, at the end of the entity too.
\<close>

theorem text_declaration_stable:
  assumes "text_declaration_span rem False = r" "r \<noteq> Inr NeedMore"
  shows "text_declaration_span (rem @ ext) final = r"
proof -
  have head: "byte_len rem = length rem" if "starts_with rem (lit ''<?xml'')"
  proof (rule byte_len_ascii)
    have "set rem \<subseteq> set (lit ''<?xml'')" using that by (metis starts_with_iff set_append Un_upper1)
    then show "\<forall>c\<in>set rem. c < 0x80" by auto
  qed
  have five: "byte_len (lit ''<?xml'') = 5" "length (lit ''<?xml'') = 5" by (simp_all add: utf8_len_def)
  have far: "\<not> (starts_with rem (lit ''<?xml'') \<and> length rem \<le> 5)"
    using assms head five by (auto simp: text_declaration_span_def Let_def simp del: lit_Cons split: if_splits)
  define rest where "rest = drop 5 rem"
  show ?thesis
  proof (cases "starts_with (lit ''<?xml'') rem")
    case False
    note a = apart_stays [OF False, of ext]
    have "\<not> starts_with (lit ''<?xml'') (rem @ ext)" "\<not> starts_with (rem @ ext) (lit ''<?xml'')"
      using a far five starts_with_length [of "rem @ ext" "lit ''<?xml''"]
      by (auto simp: starts_with_iff simp del: lit_Cons)
    then have "text_declaration_span (rem @ ext) final = Inr NoDecl"
      by (simp add: text_declaration_span_def Let_def strip_prefix_None [symmetric] del: lit_Cons)
    moreover have "r = Inr NoDecl"
      using assms False far head five
      by (auto simp: text_declaration_span_def Let_def strip_prefix_None [symmetric] simp del: lit_Cons split: if_splits)
    ultimately show ?thesis by simp
  next
    case True
    then have rem: "rem = lit ''<?xml'' @ rest" using five by (auto simp: rest_def starts_with_iff simp del: lit_Cons)
    have strip: "strip_prefix (lit ''<?xml'') (lit ''<?xml'' @ x) = Some x" for x by simp
    have rest: "rest \<noteq> []"
    proof
      assume "rest = []"
      with rem have "rem = lit ''<?xml''" by (simp del: lit_Cons)
      with far five show False by simp
    qed
    have long: "\<not> byte_len (rem @ x) \<le> 5" for x
      using rest five by (simp add: rem del: lit_Cons)
    have span: "text_declaration_span (rem @ x) fl =
       (if \<not> is_whitespace (hd rest) then Inr NoDecl
        else (case find_sub (lit ''?>'') (rem @ x) of
                  None \<Rightarrow> if fl then Inl WellFormedness else Inr NeedMore
                | Some i \<Rightarrow>
                    (case text_decl_loop [] (drop 5 (take i (rem @ x))) of
                       Inl e \<Rightarrow> Inl e
                     | Inr seen \<Rightarrow>
                         if lit ''encoding'' \<notin> set seen then Inl WellFormedness
                         else Inr (Present (byte_len (take i (rem @ x)) + 2)))))" for x fl
      using long [of x] rest five
      by (simp add: text_declaration_span_def Let_def rem strip cong: option.case_cong sum.case_cong if_cong
          del: lit_Cons find_sub.simps take_append drop_append byte_len_simps)
    show ?thesis
    proof (cases "is_whitespace (hd rest)")
      case False
      with assms span [of "[]" False] span [of ext final] show ?thesis by (simp del: lit_Cons)
    next
      case white: True
      show ?thesis
      proof (cases "find_sub (lit ''?>'') rem")
        case None
        with assms white span [of "[]" False] show ?thesis by (simp del: lit_Cons)
      next
        case (Some i)
        have "take i (rem @ ext) = take i rem" using find_sub_Some_split [OF Some] by simp
        with assms white Some span [of "[]" False] span [of ext final] find_sub_append [OF Some, of ext]
        show ?thesis by (simp cong: sum.case_cong if_cong del: lit_Cons take_append)
      qed
    qed
  qed
qed

lemma text_declaration_stable_witness:
  "text_declaration_span (lit ''<?xml-model?>'' @ lit ''<a>'') True = Inr NoDecl"
proof -
  have "text_declaration_span (lit ''<?xml-model?>'') False = Inr NoDecl"
    by (simp add: text_declaration_span_def utf8_len_def is_whitespace_def)
  from text_declaration_stable [OF this] show ?thesis by simp
qed

end
