(* ===== verification/Dtd_Layout.thy ===== *)
theory Dtd_Layout
  imports Char_Stream Dtd_Model
begin

text \<open>
  Where the text of the DTD buffer came from, the \<open>Layout\<close> of \<open>dtd/read.rs\<close>: the pieces of the buffer, the
  queries on a position, and the record of a replacement. A position is the number of characters before
  it; the code counts bytes, and every position it keeps lies between two characters.
\<close>

section \<open>Pieces\<close>

type_synonym span = "nat \<times> nat"

datatype piece_kind =
  SubsetPiece (pk_origin: location) bool
| ExternalEntityPiece (pk_origin: location)
| InternalEntityPiece

record piece =
  pi_range :: span
  pi_content :: span
  pi_replaced :: nat
  pi_kind :: piece_kind

record layout =
  la_internal_len :: nat
  la_pieces :: "piece list"

definition piece_origin :: "piece \<Rightarrow> location option" where
  "piece_origin x =
     (case pi_kind x of SubsetPiece at _ \<Rightarrow> Some at | ExternalEntityPiece at \<Rightarrow> Some at | InternalEntityPiece \<Rightarrow> None)"

definition is_subset_piece :: "piece \<Rightarrow> bool" where
  "is_subset_piece x = (case pi_kind x of SubsetPiece _ _ \<Rightarrow> True | _ \<Rightarrow> False)"

definition holds :: "piece \<Rightarrow> nat \<Rightarrow> bool" where
  "holds x pos \<longleftrightarrow> fst (pi_content x) \<le> pos \<and> pos \<le> snd (pi_content x)"

definition piece_within :: "piece \<Rightarrow> piece \<Rightarrow> bool" where
  "piece_within x outer \<longleftrightarrow> fst (pi_content outer) \<le> fst (pi_range x) \<and> snd (pi_range x) \<le> snd (pi_content outer)"

definition span_len :: "span \<Rightarrow> nat" where
  "span_len s = snd s - fst s"

text \<open>A piece is known by its place in the list, where the code compares addresses.\<close>

type_synonym placed = "nat \<times> piece"

fun narrower :: "placed option \<Rightarrow> placed \<Rightarrow> placed option" where
  "narrower (Some best) x =
     (if span_len (pi_content (snd best)) < span_len (pi_content (snd x)) then Some best else Some x)"
| "narrower None x = Some x"

definition innermost :: "placed list \<Rightarrow> placed option" where
  "innermost xs = foldl narrower None xs"

definition placed_pieces :: "layout \<Rightarrow> placed list" where
  "placed_pieces l = enumerate 0 (la_pieces l)"

definition empty_layout :: layout where
  "empty_layout = \<lparr>la_internal_len = 0, la_pieces = []\<rparr>"

definition with_internal_subset :: "nat \<Rightarrow> location \<Rightarrow> layout" where
  "with_internal_subset len at =
     \<lparr>la_internal_len = len, la_pieces =
        (if 0 < len then [\<lparr>pi_range = (0, len), pi_content = (0, len), pi_replaced = 0, pi_kind = SubsetPiece at False\<rparr>]
         else [])\<rparr>"

definition add_external_subset :: "span \<Rightarrow> location \<Rightarrow> layout \<Rightarrow> layout" where
  "add_external_subset part at l =
     l\<lparr>la_pieces := la_pieces l @ [\<lparr>pi_range = part, pi_content = part, pi_replaced = 0, pi_kind = SubsetPiece at True\<rparr>]\<rparr>"

section \<open>Queries\<close>

definition source_at :: "layout \<Rightarrow> nat \<Rightarrow> placed option" where
  "source_at l pos = innermost (filter (\<lambda>(_, x). piece_origin x \<noteq> None \<and> holds x pos) (placed_pieces l))"

definition is_external_at :: "layout \<Rightarrow> nat \<Rightarrow> bool" where
  "is_external_at l pos =
     (case map_option (\<lambda>(_, x). pi_kind x) (source_at l pos) of
        Some (SubsetPiece _ external) \<Rightarrow> external
      | Some (ExternalEntityPiece _) \<Rightarrow> True
      | _ \<Rightarrow> la_internal_len l \<le> pos)"

definition entity_at :: "layout \<Rightarrow> nat \<Rightarrow> span option" where
  "entity_at l pos =
     map_option (\<lambda>(_, x). pi_content x)
       (innermost (filter (\<lambda>(_, x). \<not> is_subset_piece x \<and> fst (pi_content x) \<le> pos \<and> pos < snd (pi_content x))
         (placed_pieces l)))"

definition base_at :: "layout \<Rightarrow> nat \<Rightarrow> ustring option" where
  "base_at l pos =
     (case source_at l pos of
        None \<Rightarrow> None
      | Some (_, x) \<Rightarrow> (case piece_origin x of None \<Rightarrow> None | Some at \<Rightarrow> lo_system_id at))"

definition children_of :: "layout \<Rightarrow> placed \<Rightarrow> piece list" where
  "children_of l parent =
     (let inside = (\<lambda>(i, x). i \<noteq> fst parent \<and> piece_within x (snd parent));
          direct = (\<lambda>(i, x). \<not> list_ex (\<lambda>(j, y). j \<noteq> i \<and> inside (j, y) \<and> piece_within x y) (placed_pieces l))
      in sort_key (\<lambda>x. fst (pi_range x)) (map snd (filter direct (filter inside (placed_pieces l)))))"

text \<open>\<open>&buf[from..to]\<close>; \<open>None\<close> is the panic of a range that is not one of the text.\<close>

definition slice :: "ustring \<Rightarrow> nat \<Rightarrow> nat \<Rightarrow> ustring option" where
  "slice buf from to = (if from \<le> to \<and> to \<le> length buf then Some (take (to - from) (drop from buf)) else None)"

fun advance_spaces :: "nat \<Rightarrow> location \<Rightarrow> location" where
  "advance_spaces 0 at = at"
| "advance_spaces (Suc n) at = advance_spaces n (location_advance (cp CHR '' '') at)"

fun locate :: "ustring \<Rightarrow> nat \<Rightarrow> piece list \<Rightarrow> nat \<Rightarrow> location \<Rightarrow> location option" where
  "locate buf pos [] from at = map_option (\<lambda>s. advance_over s at) (slice buf from pos)"
| "locate buf pos (child # children) from at =
     (if pos \<le> fst (pi_range child) then map_option (\<lambda>s. advance_over s at) (slice buf from pos)
      else case slice buf from (fst (pi_range child)) of
        None \<Rightarrow> None
      | Some s \<Rightarrow>
          (if pos < snd (pi_range child) then Some (advance_over s at)
           else locate buf pos children (snd (pi_range child))
                  (advance_spaces (pi_replaced child) (advance_over s at))))"

definition location_at :: "layout \<Rightarrow> ustring \<Rightarrow> nat \<Rightarrow> location option" where
  "location_at l buf pos =
     (case source_at l pos of
        None \<Rightarrow> Some location_unknown
      | Some source \<Rightarrow>
          locate buf pos (children_of l source) (fst (pi_content (snd source)))
            (case piece_origin (snd source) of None \<Rightarrow> location_unknown | Some at \<Rightarrow> at))"

section \<open>Replacing a reference\<close>

definition shift :: "span \<Rightarrow> span \<Rightarrow> nat \<Rightarrow> span" where
  "shift region part new_len =
     (let moved = (\<lambda>p. p + new_len - span_len part) in
      if snd part \<le> fst region then (moved (fst region), moved (snd region))
      else if fst part < snd region then (min (fst region) (fst part), moved (max (snd region) (snd part)))
      else region)"

definition shift_piece :: "span \<Rightarrow> nat \<Rightarrow> piece \<Rightarrow> piece" where
  "shift_piece part new_len x =
     x\<lparr>pi_range := shift (pi_range x) part new_len, pi_content := shift (pi_content x) part new_len\<rparr>"

definition splice_layout :: "span \<Rightarrow> nat \<Rightarrow> span \<Rightarrow> nat \<Rightarrow> location option \<Rightarrow> layout \<Rightarrow> layout" where
  "splice_layout part new_len content replaced at l =
     (let start = fst part;
          internal = (if start < la_internal_len l
            then la_internal_len l - (min (snd part) (la_internal_len l) - start) + new_len else la_internal_len l);
          kind = (case at of None \<Rightarrow> InternalEntityPiece | Some place \<Rightarrow> ExternalEntityPiece place)
      in \<lparr>la_internal_len = internal,
          la_pieces = map (shift_piece part new_len) (la_pieces l) @
            [\<lparr>pi_range = (start, start + new_len), pi_content = (start + fst content, start + snd content),
              pi_replaced = replaced, pi_kind = kind\<rparr>]\<rparr>)"

text \<open>\<open>String::replace_range\<close>.\<close>

definition replace_range :: "span \<Rightarrow> ustring \<Rightarrow> ustring \<Rightarrow> ustring" where
  "replace_range part replacement buf = take (fst part) buf @ replacement @ drop (snd part) buf"

section \<open>What a pass reports\<close>

record external_pe =
  pe_name :: ustring
  pe_public_id :: "ustring option"
  pe_system_id :: ustring
  pe_base :: "ustring option"
  pe_location :: location
  pe_at :: nat
  pe_end :: nat
  pe_in_literal :: bool

datatype dtd_outcome = Complete dtd | NeedExternalPe external_pe

end
