(* ===== verification/Parser_State.thy ===== *)
theory Parser_State
  imports Entity_Stack Decl Scan Events Dtd_Layout
begin

text \<open>
  The state of the parser core, \<open>io/parse.rs\<close>, with the namespace bindings of \<open>io/parse/namespace.rs\<close>
  and the requests of \<open>io/resolve.rs\<close>.

  A step of the parser is an action on this state: it returns a value or stops, with an error or with a
  panic (an \<open>expect\<close>, or a handle the pool does not own). Left out are the buffers that only save
  allocations (\<open>token\<close>, \<open>names\<close>, \<open>attribute_text\<close>: a name or a value is the text its range covers) and
  the locations of attributes.

  Three things are given to the parser as the record \<open>env\<close>: the decoders of the encoding backend, the
  operations of the DTD assembly (those of \<open>dtd/read/assemble.rs\<close>, modelled in \<open>Dtd_Assembly\<close>, are put in
  their place by \<open>dtd_operations\<close> of \<open>Parser_Dtd\<close>), and the number of entities one reference in an
  attribute value may open inside each other in the model.
\<close>

section \<open>Namespace bindings\<close>

type_synonym binding = "name_id option \<times> name_id option"

definition XML_ID :: name_id where "XML_ID = reserved 1"
definition XML_NS_ID :: name_id where "XML_NS_ID = reserved 3"
definition XMLNS_NS_ID :: name_id where "XMLNS_NS_ID = reserved 4"
definition EMPTY_ID :: name_id where "EMPTY_ID = reserved 0"

definition new_scope :: "binding list" where
  "new_scope = [(Some XML_ID, Some XML_NS_ID)]"

definition scope_mark :: "binding list \<Rightarrow> nat" where
  "scope_mark scope = length scope"

definition scope_revert :: "nat \<Rightarrow> binding list \<Rightarrow> binding list" where
  "scope_revert mark scope = take mark scope"

definition scope_bind :: "name_id option \<Rightarrow> name_id option \<Rightarrow> binding list \<Rightarrow> binding list" where
  "scope_bind prefix namespace scope = scope @ [(prefix, namespace)]"

definition scope_resolve :: "name_id option \<Rightarrow> binding list \<Rightarrow> name_id option" where
  "scope_resolve prefix scope =
     (case find (\<lambda>(p, _). p = prefix) (rev scope) of None \<Rightarrow> None | Some (_, ns) \<Rightarrow> ns)"

section \<open>Requests for external entities\<close>

datatype request_kind =
  GeneralEntityRequest | ExternalSubsetRequest | ParameterEntityRequest
| XIncludeRequest "ustring option" "ustring option"

record entity_request =
  rq_name :: "ustring option"
  rq_public_id :: "ustring option"
  rq_system_id :: ustring
  rq_base_uri :: "ustring option"
  rq_kind :: request_kind

definition resolved_uri :: "entity_request \<Rightarrow> ustring option" where
  "resolved_uri r =
     (case rq_base_uri r of
        Some base \<Rightarrow> (case resolve_str base (rq_system_id r) of Inl _ \<Rightarrow> None | Inr u \<Rightarrow> Some u)
      | None \<Rightarrow> Some (rq_system_id r))"

section \<open>The DTD assembly\<close>

record 'a dtd_assembly =
  da_new :: 'a
  da_with_internal_subset :: "ustring \<Rightarrow> location \<Rightarrow> 'a"
  da_add_external_subset :: "ustring \<Rightarrow> location \<Rightarrow> 'a \<Rightarrow> 'a"
  da_provide_parameter_entity :: "ustring \<Rightarrow> location \<Rightarrow> 'a \<Rightarrow> 'a option"
  da_discard_pending :: "'a \<Rightarrow> 'a"
  da_advance :: "'a \<Rightarrow> name_pool \<Rightarrow> (stop + dtd_outcome) \<times> 'a \<times> name_pool"

record ('d, 'a) env =
  env_backend :: "'d backend"
  env_dtd :: "'a dtd_assembly"
  env_nesting :: nat

section \<open>The state\<close>

datatype progress = Token token_kind | NeedMoreInput | NeedEntity | Eof

datatype parser_phase = InProlog | InContent | InEpilog

record parsed_attribute =
  pa_name :: qname
  pa_value :: ustring
  pa_declares :: bool

record parser_element =
  po_name :: qname
  po_lexical :: ustring
  po_namespace_mark :: nat
  po_xml_space :: xml_space
  po_xml_lang :: "name_id option"
  po_base :: "uri_reference option"
  po_entity_depth :: nat

record held_token =
  ht_kind :: token_kind
  ht_text :: ustring
  ht_at :: location

record ('d, 'a) parser =
  ps_stack :: "'d entity_stack"
  ps_pool :: name_pool
  ps_config :: parser_config
  ps_space_name :: name_id
  ps_lang_name :: name_id
  ps_base_name :: name_id
  ps_id_name :: name_id
  ps_scope :: "binding list"
  ps_open :: "parser_element list"
  ps_phase :: parser_phase
  ps_seen_doctype :: bool
  ps_doctype_name :: "name_id option"
  ps_doctype_public_id :: "ustring option"
  ps_doctype_system_id :: "ustring option"
  ps_dtd :: "dtd option"
  ps_external_subset_unread :: bool
  ps_dtd_assembly :: 'a
  ps_dtd_external_id :: "(ustring option \<times> ustring) option"
  ps_dtd_active :: bool
  ps_pending_text :: ustring
  ps_pending_text_at :: location
  ps_held :: "held_token option"
  ps_expanding :: "name_id list"
  ps_pending_entity :: "entity_request option"
  ps_entity_text_decl_pending :: bool
  ps_end_pending :: bool
  ps_kind :: "token_kind option"
  ps_token_at :: location
  ps_pi_data_at :: location
  ps_text :: ustring
  ps_name :: qname
  ps_attributes :: "parsed_attribute list"
  ps_version :: ustring
  ps_declared_encoding :: "ustring option"
  ps_standalone :: "bool option"
  ps_xml_space :: xml_space
  ps_xml_lang :: "name_id option"
  ps_base :: "uri_reference option"

definition no_name :: qname where
  "no_name = qname_new None None EMPTY_ID"

text \<open>\<open>with_document\<close>; \<open>None\<close> is the panic when the first names do not fit in the pool.\<close>

definition with_document :: "('d, 'a) env \<Rightarrow> 'd entity \<Rightarrow> name_pool \<Rightarrow> ('d, 'a) parser option" where
  "with_document E document pool0 =
     (case intern pool0 (lit ''space'') of Inl _ \<Rightarrow> None | Inr (space, pool1) \<Rightarrow>
      case intern pool1 (lit ''lang'') of Inl _ \<Rightarrow> None | Inr (lang, pool2) \<Rightarrow>
      case intern pool2 (lit ''base'') of Inl _ \<Rightarrow> None | Inr (base, pool3) \<Rightarrow>
      case intern pool3 (lit ''id'') of Inl _ \<Rightarrow> None | Inr (id_name, pool) \<Rightarrow>
      Some
        \<lparr>ps_stack = new_stack document (lim_entities (pc_limits parser_config_default)),
         ps_pool = pool, ps_config = parser_config_default, ps_space_name = space, ps_lang_name = lang,
         ps_base_name = base, ps_id_name = id_name, ps_scope = new_scope, ps_open = [], ps_phase = InProlog,
         ps_seen_doctype = False, ps_doctype_name = None, ps_doctype_public_id = None,
         ps_doctype_system_id = None, ps_dtd = None, ps_external_subset_unread = False,
         ps_dtd_assembly = da_new (env_dtd E), ps_dtd_external_id = None, ps_dtd_active = False,
         ps_pending_text = [], ps_pending_text_at = location_unknown, ps_held = None, ps_expanding = [],
         ps_pending_entity = None, ps_entity_text_decl_pending = False, ps_end_pending = False,
         ps_kind = None, ps_token_at = location_unknown, ps_pi_data_at = location_unknown, ps_text = [],
         ps_name = no_name, ps_attributes = [], ps_version = [], ps_declared_encoding = None,
         ps_standalone = None, ps_xml_space = XmlSpaceDefault, ps_xml_lang = None, ps_base = None\<rparr>)"

definition set_config :: "parser_config \<Rightarrow> ('d, 'a) parser \<Rightarrow> ('d, 'a) parser" where
  "set_config config p =
     p\<lparr>ps_stack := set_stack_limits (lim_entities (pc_limits config)) (ps_stack p), ps_config := config\<rparr>"

section \<open>Actions\<close>

type_synonym ('r, 'd, 'a) step = "(stop, 'r, ('d, 'a) parser) action"

abbreviation malformed_document :: "('r, 'd, 'a) step" where
  "malformed_document \<equiv> fail (Err WellFormedness)"

definition returning :: "'r result \<Rightarrow> ('r, 'd, 'a) step" where
  "returning r p = (map_sum Err id r, p)"

definition unwrap :: "'r option \<Rightarrow> ('r, 'd, 'a) step" where
  "unwrap x p = (case x of None \<Rightarrow> fail Panic p | Some r \<Rightarrow> ok r p)"

definition on_stack :: "('r, 'd entity_stack) effect \<Rightarrow> ('r, 'd, 'a) step" where
  "on_stack f p = (case f (ps_stack p) of (r, s) \<Rightarrow> (map_sum Err id r, p\<lparr>ps_stack := s\<rparr>))"

definition intern_name :: "ustring \<Rightarrow> (name_id, 'd, 'a) step" where
  "intern_name name p =
     (case intern (ps_pool p) name of Inl e \<Rightarrow> fail (Err e) p | Inr (h, pool) \<Rightarrow> ok h (p\<lparr>ps_pool := pool\<rparr>))"

definition intern_option :: "ustring option \<Rightarrow> (name_id option, 'd, 'a) step" where
  "intern_option name = (case name of None \<Rightarrow> ok None | Some n \<Rightarrow> and_then (intern_name n) (\<lambda>h. ok (Some h)))"

definition resolve_name :: "name_id \<Rightarrow> (ustring, 'd, 'a) step" where
  "resolve_name h = reading (\<lambda>p. unwrap (resolve_own (ps_pool p) h))"

end
