(* ===== verification/Parser_Tags.thy ===== *)
theory Parser_Tags
  imports Parser_State
begin

text \<open>
  Start and end tags, \<open>io/parse.rs\<close> from \<open>reference\<close> to \<open>entity_chain\<close>: the attributes of a tag with
  the references in their values, the defaults of the DTD, the namespaces, and the element that is opened
  or closed.
\<close>

section \<open>References\<close>

definition is_hex_digit :: "uchar \<Rightarrow> bool" where
  "is_hex_digit c \<longleftrightarrow> is_ascii_digit c \<or> 0x61 \<le> c \<and> c \<le> 0x66 \<or> 0x41 \<le> c \<and> c \<le> 0x46"

definition hex_value :: "uchar \<Rightarrow> nat" where
  "hex_value c = (if is_ascii_digit c then c - 0x30 else if 0x61 \<le> c then c - 0x61 + 10 else c - 0x41 + 10)"

text \<open>
  \<open>#dd\<close> and \<open>#xhh\<close>: the digits, then the code point, which must be a character of XML. A value too large for
  \<open>u32::from_str_radix\<close> is no character either.
\<close>

definition character_reference :: "ustring \<Rightarrow> uchar result" where
  "character_reference body =
     (let (digits, radix) = (case strip_prefix [cp CHR ''x''] (tl body) of
            Some hex \<Rightarrow> (hex, 16) | None \<Rightarrow> (tl body, 10));
          is_digit = (if radix = 16 then is_hex_digit else is_ascii_digit);
          code = foldl (\<lambda>n d. radix * n + hex_value d) (0::nat) digits
      in if digits = [] \<or> list_ex (\<lambda>c. \<not> is_digit c) digits then Inl WellFormedness
         else if is_char code then Inr code else Inl WellFormedness)"

text \<open>The character a reference denotes, or \<open>None\<close> for the name of a general entity.\<close>

definition character_or_predefined :: "ustring \<Rightarrow> uchar option result" where
  "character_or_predefined body =
     (if starts_with [HASH] body then map_sum id Some (character_reference body)
      else if body = lit ''lt'' then Inr (Some LT)
      else if body = lit ''gt'' then Inr (Some GT)
      else if body = lit ''amp'' then Inr (Some AMP)
      else if body = lit ''apos'' then Inr (Some APOS)
      else if body = lit ''quot'' then Inr (Some QUOT)
      else if is_name body then Inr None
      else Inl WellFormedness)"

definition general_entity_of :: "('d, 'a) parser \<Rightarrow> name_id \<Rightarrow> general_entity option" where
  "general_entity_of p name = (case ps_dtd p of None \<Rightarrow> None | Some d \<Rightarrow> d_general d name)"

definition declared_externally :: "('d, 'a) parser \<Rightarrow> name_id \<Rightarrow> bool" where
  "declared_externally p name \<longleftrightarrow> (case ps_dtd p of None \<Rightarrow> False | Some d \<Rightarrow> name \<in> d_external_general d)"

section \<open>Attribute values\<close>

text \<open>\<open>normalize\<close> of a literal piece of a value.\<close>

definition normalize_literal :: "ustring \<Rightarrow> ustring" where
  "normalize_literal s = map (\<lambda>c. if c = TAB \<or> c = LF then 0x20 else c) s"

text \<open>
  \<open>expand_general_in_attribute\<close>, with the expansion of the replacement text as an argument. \<open>expanding\<close>
  is restored also when the replacement fails.
\<close>

definition expand_general :: "(ustring \<Rightarrow> (ustring, 'd, 'a) step) \<Rightarrow> ustring \<Rightarrow> (ustring, 'd, 'a) step" where
  "expand_general inner name =
     and_then (intern_name name) (\<lambda>h. reading (\<lambda>p.
       if ps_standalone p = Some True \<and> declared_externally p h then malformed_document
       else case general_entity_of p h of
         Some (GInternal value) \<Rightarrow>
           if h \<in> set (ps_expanding p) then malformed_document
           else if (case max_depth (es_limits (ps_stack p)) of
                      None \<Rightarrow> False | Some m \<Rightarrow> m \<le> length (ps_expanding p)) then fail (Err Limit)
           else
             and_then (on_stack (count_expansion (length value))) (\<lambda>_ p.
               case inner value (p\<lparr>ps_expanding := ps_expanding p @ [h]\<rparr>) of
                 (r, p') \<Rightarrow> (r, p'\<lparr>ps_expanding := butlast (ps_expanding p')\<rparr>))
       | _ \<Rightarrow> malformed_document))"

definition expand_reference :: "(ustring \<Rightarrow> (ustring, 'd, 'a) step) \<Rightarrow> ustring \<Rightarrow> (ustring, 'd, 'a) step" where
  "expand_reference inner body =
     (case character_or_predefined body of
        Inl e \<Rightarrow> fail (Err e)
      | Inr (Some c) \<Rightarrow> ok [c]
      | Inr None \<Rightarrow> expand_general inner body)"

lemma after_reference_shorter:
  "drop n text = c # rest \<Longrightarrow> split_once SEMI rest = Some (body, tail) \<Longrightarrow> length tail < length text"
proof -
  assume "drop n text = c # rest" "split_once SEMI rest = Some (body, tail)"
  then have "length (c # rest) \<le> length text" "length tail < length rest"
    using length_drop [of n "text"] split_once_shorter by auto
  then show ?thesis by simp
qed

text \<open>\<open>expand_at\<close>: what is appended to the value.\<close>

function expand_text :: "(ustring \<Rightarrow> (ustring, 'd, 'a) step) \<Rightarrow> ustring \<Rightarrow> (ustring, 'd, 'a) step" where
  "expand_text inner text =
     (let plain = takeWhile (\<lambda>c. c \<noteq> AMP \<and> c \<noteq> LT) text in
      case drop (length plain) text of
        [] \<Rightarrow> ok (normalize_literal plain)
      | c # rest \<Rightarrow>
          if c = LT then malformed_document
          else (case split_once SEMI rest of
                  None \<Rightarrow> malformed_document
                | Some (body, tail) \<Rightarrow>
                    and_then (expand_reference inner body) (\<lambda>x.
                    and_then (expand_text inner tail) (\<lambda>y. ok (normalize_literal plain @ x @ y)))))"
  by pat_completeness auto

termination
  by (relation "measure (\<lambda>(inner, text). length text)") (auto dest: after_reference_shorter)

declare expand_text.simps [simp del]

text \<open>
  Entities inside the entities of a value: the recursion of \<open>expand_at\<close> through
  \<open>expand_general_in_attribute\<close>, to the nesting the environment allows.
\<close>

primrec expand_at :: "nat \<Rightarrow> ustring \<Rightarrow> (ustring, 'd, 'a) step" where
  "expand_at 0 = expand_text (\<lambda>_. fail NestedTooDeep)"
| "expand_at (Suc n) = expand_text (expand_at n)"

section \<open>The attributes of a tag\<close>

text \<open>\<open>split_name\<close>: at the first colon, leniently.\<close>

definition split_name :: "ustring \<Rightarrow> ustring option \<times> ustring" where
  "split_name name =
     (case split_once COLON name of
        Some (prefix, local) \<Rightarrow> if prefix \<noteq> [] \<and> local \<noteq> [] then (Some prefix, local) else (None, name)
      | None \<Rightarrow> (None, name))"

definition room_for_attribute :: "(unit, 'd, 'a) step" where
  "room_for_attribute = reading (\<lambda>p.
     case max_attributes (lim_document (pc_limits (ps_config p))) of
       None \<Rightarrow> ok ()
     | Some m \<Rightarrow> if m \<le> length (ps_attributes p) then fail (Err Limit) else ok ())"

definition push_attribute_of :: "ustring option \<Rightarrow> ustring \<Rightarrow> ustring \<Rightarrow> (unit, 'd, 'a) step" where
  "push_attribute_of prefix local value =
     and_then (intern_option prefix) (\<lambda>ph.
     and_then (intern_name local) (\<lambda>lh.
     modify (\<lambda>p. p\<lparr>ps_attributes := ps_attributes p @
       [\<lparr>pa_name = qname_new ph None lh, pa_value = value, pa_declares = is_declaration prefix local\<rparr>]\<rparr>)))"

text \<open>One \<open>name = "value"\<close>, at its name: the name, the raw value and what follows.\<close>

definition attribute_parts :: "ustring \<Rightarrow> (ustring \<times> ustring \<times> ustring) result" where
  "attribute_parts text =
     (let name = takeWhile (\<lambda>c. c \<noteq> cp CHR ''='' \<and> \<not> is_whitespace c) text in
      case trim_start (drop (length name) text) of
        [] \<Rightarrow> Inl WellFormedness
      | e # r \<Rightarrow>
          if e \<noteq> cp CHR ''='' then Inl WellFormedness
          else (case trim_start r of
                  [] \<Rightarrow> Inl WellFormedness
                | quote # body \<Rightarrow>
                    if quote \<noteq> QUOT \<and> quote \<noteq> APOS then Inl WellFormedness
                    else (case split_once quote body of
                            None \<Rightarrow> Inl WellFormedness
                          | Some (raw, tail) \<Rightarrow> Inr (name, raw, tail))))"

lemma attribute_parts_tail: "attribute_parts text = Inr (name, raw, tail) \<Longrightarrow> length tail < length text"
proof -
  assume a: "attribute_parts text = Inr (name, raw, tail)"
  define n where "n = length (takeWhile (\<lambda>c. c \<noteq> cp CHR ''='' \<and> \<not> is_whitespace c) text)"
  obtain e r quote body where p: "trim_start (drop n text) = e # r" "trim_start r = quote # body"
      "split_once quote body = Some (raw, tail)"
    using a [unfolded attribute_parts_def Let_def, folded n_def]
    by (auto split: list.splits if_splits option.splits)
  have "length (e # r) \<le> length text"
    using trim_start_length [of "drop n text"] p(1) by simp
  moreover have "length (quote # body) \<le> length r" using trim_start_length [of r] p(2) by simp
  ultimately show ?thesis using split_once_shorter [OF p(3)] by simp
qed

function parse_attributes_into :: "('d, 'a) env \<Rightarrow> ustring \<Rightarrow> (unit, 'd, 'a) step" where
  "parse_attributes_into E rest =
     (let at_name = trim_start rest in
      if at_name = [] then ok ()
      else if at_name = rest then malformed_document
      else
        and_then room_for_attribute (\<lambda>_.
        case attribute_parts at_name of
          Inl e \<Rightarrow> fail (Err e)
        | Inr (name, raw, tail) \<Rightarrow>
            (case split_name name of (prefix, local) \<Rightarrow>
               and_then (expand_at (env_nesting E) raw) (\<lambda>value.
               and_then (push_attribute_of prefix local value) (\<lambda>_.
               parse_attributes_into E tail)))))"
  by pat_completeness auto
termination
  by (relation "measure (\<lambda>(E, rest). length rest)")
    (auto dest!: attribute_parts_tail intro: less_le_trans trim_start_length)

declare parse_attributes_into.simps [simp del]

definition parse_attributes :: "('d, 'a) env \<Rightarrow> ustring \<Rightarrow> (unit, 'd, 'a) step" where
  "parse_attributes E rest =
     and_then (modify (\<lambda>p. p\<lparr>ps_attributes := []\<rparr>)) (\<lambda>_. parse_attributes_into E rest)"

section \<open>What the DTD says of the attributes\<close>

definition attlist_of :: "('d, 'a) parser \<Rightarrow> name_id \<Rightarrow> att_def list option" where
  "attlist_of p element = (case ps_dtd p of None \<Rightarrow> None | Some d \<Rightarrow> d_attlists d element)"

definition attlist_externally :: "('d, 'a) parser \<Rightarrow> name_id \<Rightarrow> bool" where
  "attlist_externally p element \<longleftrightarrow>
     (case ps_dtd p of None \<Rightarrow> False | Some d \<Rightarrow> element \<in> d_external_attlist d)"

text \<open>The lexical names of the attributes of the tag, interned; \<open>lexical_own\<close> panics on a foreign handle.\<close>

fun present_names :: "parsed_attribute list \<Rightarrow> (name_id list, 'd, 'a) step" where
  "present_names [] = ok []"
| "present_names (a # as) =
     and_then (reading (\<lambda>p. unwrap (to_lexical (pa_name a) (ps_pool p)))) (\<lambda>n.
     and_then (intern_name n) (\<lambda>h.
     and_then (present_names as) (\<lambda>hs. ok (h # hs))))"

definition collapse_tokenized :: "name_id list \<Rightarrow> (name_id \<times> parsed_attribute) \<Rightarrow> parsed_attribute" where
  "collapse_tokenized tokenized na =
     (case na of (name, a) \<Rightarrow>
        if name \<in> set tokenized then a\<lparr>pa_value := normalize_tokenized (pa_value a) True\<rparr> else a)"

text \<open>One attribute the DTD may supply.\<close>

definition supply_default ::
  "('d, 'a) env \<Rightarrow> name_id \<Rightarrow> name_id list \<Rightarrow> att_def \<Rightarrow> (unit, 'd, 'a) step" where
  "supply_default E element present df =
     (case default_value (ad_default df) of
        None \<Rightarrow> ok ()
      | Some text \<Rightarrow>
          if ad_name df \<in> set present then ok ()
          else reading (\<lambda>p.
            if ps_standalone p = Some True \<and> attlist_externally p element then
              and_then (resolve_name (ad_name df)) (\<lambda>_. malformed_document)
            else
              and_then
                (if AMP \<in> set text then
                   and_then (expand_at (env_nesting E) text)
                     (\<lambda>x. ok (normalize_tokenized x (is_tokenized (ad_type df))))
                 else ok text) (\<lambda>value.
              and_then room_for_attribute (\<lambda>_.
              and_then (resolve_name (ad_name df)) (\<lambda>n.
              case split_qname n of
                None \<Rightarrow> malformed_document
              | Some (prefix, local) \<Rightarrow> push_attribute_of prefix local value)))))"

definition apply_dtd_attributes :: "('d, 'a) env \<Rightarrow> name_id \<Rightarrow> (unit, 'd, 'a) step" where
  "apply_dtd_attributes E element = reading (\<lambda>p.
     case attlist_of p element of
       None \<Rightarrow> ok ()
     | Some defs \<Rightarrow>
         and_then (present_names (ps_attributes p)) (\<lambda>present.
         and_then (modify (\<lambda>p. p\<lparr>ps_attributes :=
             map (collapse_tokenized (map ad_name (filter (\<lambda>df. is_tokenized (ad_type df)) defs)))
               (zip present (ps_attributes p))\<rparr>)) (\<lambda>_.
         each (supply_default E element present) defs)))"

section \<open>Namespaces\<close>

text \<open>Whether a declaration of \<open>prefix\<close>, or of the default namespace, is refused.\<close>

definition refused_declaration :: "ustring option \<Rightarrow> ustring \<Rightarrow> bool" where
  "refused_declaration prefix value =
     (case prefix of
        Some name \<Rightarrow>
          if name = XMLNS_PREFIX then True
          else if value = [] then True
          else if name = XML_PREFIX \<and> value \<noteq> xml_ns_uri then True
          else if name \<noteq> XML_PREFIX \<and> value = xml_ns_uri then True
          else value = xmlns_ns_uri
      | None \<Rightarrow> value = xml_ns_uri \<or> value = xmlns_ns_uri)"

definition declare_namespace :: "parsed_attribute \<Rightarrow> (unit, 'd, 'a) step" where
  "declare_namespace a =
     (if \<not> pa_declares a then ok ()
      else
        (let prefix = (case qn_prefix (pa_name a) of None \<Rightarrow> None | Some _ \<Rightarrow> Some (qn_local (pa_name a))) in
         and_then (case prefix of None \<Rightarrow> ok None | Some h \<Rightarrow> and_then (resolve_name h) (\<lambda>n. ok (Some n))) (\<lambda>name.
         if refused_declaration name (pa_value a) then fail (Err Namespace_Error)
         else
           and_then (intern_option (if pa_value a = [] then None else Some (pa_value a))) (\<lambda>namespace.
           modify (\<lambda>p. p\<lparr>ps_scope := scope_bind prefix namespace (ps_scope p)\<rparr>)))))"

definition declare_namespaces :: "(unit, 'd, 'a) step" where
  "declare_namespaces = reading (\<lambda>p. each declare_namespace (ps_attributes p))"

text \<open>\<open>undeclared_prefix\<close> reads the prefix for its message, and so panics on a foreign handle.\<close>

definition undeclared_prefix :: "name_id \<Rightarrow> ('r, 'd, 'a) step" where
  "undeclared_prefix prefix = and_then (resolve_name prefix) (\<lambda>_. fail (Err Namespace_Error))"

definition resolve_element_name :: "ustring \<Rightarrow> (qname, 'd, 'a) step" where
  "resolve_element_name name =
     (case split_name name of (prefix, local) \<Rightarrow>
        and_then (intern_option prefix) (\<lambda>ph. reading (\<lambda>p.
          let namespace = scope_resolve ph (ps_scope p) in
          case (ph, namespace) of
            (Some h, None) \<Rightarrow> undeclared_prefix h
          | _ \<Rightarrow> and_then (intern_name local) (\<lambda>lh. ok (qname_new ph namespace lh)))))"

definition attribute_namespace :: "binding list \<Rightarrow> parsed_attribute \<Rightarrow> name_id option" where
  "attribute_namespace scope a =
     (if pa_declares a then Some XMLNS_NS_ID
      else case qn_prefix (pa_name a) of
        Some prefix \<Rightarrow> scope_resolve (Some prefix) scope
      | None \<Rightarrow> None)"

fun resolve_attributes :: "parsed_attribute list \<Rightarrow> (parsed_attribute list, 'd, 'a) step" where
  "resolve_attributes [] = ok []"
| "resolve_attributes (a # as) = reading (\<lambda>p.
     let namespace = attribute_namespace (ps_scope p) a in
     case qn_prefix (pa_name a) of
       Some prefix \<Rightarrow>
         if \<not> pa_declares a \<and> namespace = None then undeclared_prefix prefix
         else and_then (resolve_attributes as) (\<lambda>bs.
                ok (a\<lparr>pa_name := qname_new (Some prefix) namespace (qn_local (pa_name a))\<rparr> # bs))
     | None \<Rightarrow>
         and_then (resolve_attributes as) (\<lambda>bs.
           ok (a\<lparr>pa_name := qname_new None namespace (qn_local (pa_name a))\<rparr> # bs)))"

definition resolve_attribute_names :: "(unit, 'd, 'a) step" where
  "resolve_attribute_names = reading (\<lambda>p.
     and_then (resolve_attributes (ps_attributes p)) (\<lambda>as. modify (\<lambda>p. p\<lparr>ps_attributes := as\<rparr>)))"

section \<open>xml:space, xml:lang, xml:base and xml:id\<close>

definition in_xml_namespace :: "parsed_attribute \<Rightarrow> name_id \<Rightarrow> bool" where
  "in_xml_namespace a local \<longleftrightarrow> en_namespace (qn_expanded (pa_name a)) = Some XML_NS_ID \<and> qn_local (pa_name a) = local"

definition inherited_space :: "('d, 'a) parser \<Rightarrow> xml_space" where
  "inherited_space p = (if ps_open p = [] then XmlSpaceDefault else po_xml_space (last (ps_open p)))"

definition inherited_lang :: "('d, 'a) parser \<Rightarrow> name_id option" where
  "inherited_lang p = (if ps_open p = [] then None else po_xml_lang (last (ps_open p)))"

definition inherited_base :: "('d, 'a) parser \<Rightarrow> uri_reference option" where
  "inherited_base p = (if ps_open p = [] then stack_base_uri (ps_stack p) else po_base (last (ps_open p)))"

fun space_and_lang_loop ::
  "xml_space \<Rightarrow> name_id option \<Rightarrow> parsed_attribute list \<Rightarrow> (xml_space \<times> name_id option, 'd, 'a) step" where
  "space_and_lang_loop space lang [] = ok (space, lang)"
| "space_and_lang_loop space lang (a # as) = reading (\<lambda>p.
     if in_xml_namespace a (ps_space_name p) then
       (if pa_value a = lit ''default'' then space_and_lang_loop XmlSpaceDefault lang as
        else if pa_value a = lit ''preserve'' then space_and_lang_loop XmlSpacePreserve lang as
        else malformed_document)
     else if in_xml_namespace a (ps_lang_name p) then
       and_then (intern_option (if pa_value a = [] then None else Some (pa_value a)))
         (\<lambda>l. space_and_lang_loop space l as)
     else space_and_lang_loop space lang as)"

definition space_and_lang :: "(xml_space \<times> name_id option, 'd, 'a) step" where
  "space_and_lang = reading (\<lambda>p. space_and_lang_loop (inherited_space p) (inherited_lang p) (ps_attributes p))"

definition element_base :: "(uri_reference option, 'd, 'a) step" where
  "element_base = reading (\<lambda>p.
     if \<not> ext_xml_base (pc_extensions (ps_config p)) then ok None
     else case find (\<lambda>a. in_xml_namespace a (ps_base_name p)) (ps_attributes p) of
       None \<Rightarrow> ok (inherited_base p)
     | Some a \<Rightarrow>
         (case parse (escape_uri (pa_value a)) of
            Inl _ \<Rightarrow> fail (Err Uri_Error)
          | Inr reference \<Rightarrow>
              ok (Some (case inherited_base p of None \<Rightarrow> reference | Some base \<Rightarrow> resolve_uri base reference))))"

definition normalize_xml_id :: "(unit, 'd, 'a) step" where
  "normalize_xml_id = modify (\<lambda>p.
     if \<not> ext_xml_id (pc_extensions (ps_config p)) then p
     else p\<lparr>ps_attributes := map (\<lambda>a. if in_xml_namespace a (ps_id_name p)
              then a\<lparr>pa_value := normalize_tokenized (pa_value a) True\<rparr> else a) (ps_attributes p)\<rparr>)"

section \<open>Opening and closing an element\<close>

definition enter_element :: "(unit, 'd, 'a) step" where
  "enter_element p =
     (if ps_phase p = InEpilog then malformed_document p
      else
        (let p' = p\<lparr>ps_phase := InContent\<rparr> in
         if (case max_element_depth (lim_document (pc_limits (ps_config p))) of
               None \<Rightarrow> False | Some m \<Rightarrow> m \<le> length (ps_open p)) then fail (Err Limit) p'
         else ok () p'))"

definition open_element_of ::
  "qname \<Rightarrow> ustring \<Rightarrow> nat \<Rightarrow> xml_space \<Rightarrow> name_id option \<Rightarrow> uri_reference option \<Rightarrow> bool \<Rightarrow>
   ('d, 'a) parser \<Rightarrow> ('d, 'a) parser" where
  "open_element_of name written mark space lang base closed p =
     p\<lparr>ps_name := name, ps_xml_space := space, ps_xml_lang := lang, ps_base := base,
       ps_open := ps_open p @
         [\<lparr>po_name = name, po_lexical = written, po_namespace_mark = mark, po_xml_space = space,
           po_xml_lang = lang, po_base = base, po_entity_depth = stack_depth (ps_stack p)\<rparr>],
       ps_end_pending := closed\<rparr>"

definition start_tag :: "('d, 'a) env \<Rightarrow> ustring \<Rightarrow> (token_kind, 'd, 'a) step" where
  "start_tag E tag =
     (let closed = (2 \<le> length tag \<and> tag ! (length tag - 2) = SLASH);
          body = take (length tag - 1 - (if closed then 2 else 1)) (drop 1 tag);
          written = takeWhile (\<lambda>c. \<not> is_whitespace c) body
      in
        and_then enter_element (\<lambda>_.
        and_then (parse_attributes E (drop (length written) body)) (\<lambda>_.
        and_then (intern_name written) (\<lambda>element.
        and_then (apply_dtd_attributes E element) (\<lambda>_. reading (\<lambda>p0.
        and_then declare_namespaces (\<lambda>_.
        and_then (resolve_element_name written) (\<lambda>name.
        and_then resolve_attribute_names (\<lambda>_.
        and_then space_and_lang (\<lambda>(space, lang).
        and_then normalize_xml_id (\<lambda>_.
        and_then element_base (\<lambda>base.
        and_then (modify (open_element_of name written (scope_mark (ps_scope p0)) space lang base closed)) (\<lambda>_.
        ok token_kind.StartElement)))))))))))))"

text \<open>\<open>close\<close>: the state of the element that ends, then out of its scope.\<close>

definition close_element :: "parser_element \<Rightarrow> ('d, 'a) parser \<Rightarrow> ('d, 'a) parser" where
  "close_element e p =
     p\<lparr>ps_name := po_name e, ps_xml_space := po_xml_space e, ps_xml_lang := po_xml_lang e, ps_base := po_base e,
       ps_scope := scope_revert (po_namespace_mark e) (ps_scope p), ps_attributes := [],
       ps_phase := (if ps_open p = [] then InEpilog else ps_phase p)\<rparr>"

definition trim_end_white :: "ustring \<Rightarrow> ustring" where
  "trim_end_white s = rev (dropWhile is_whitespace (rev s))"

definition end_tag :: "ustring \<Rightarrow> (token_kind, 'd, 'a) step" where
  "end_tag tag p =
     (let name = trim_end_white (take (length tag - 3) (drop 2 tag)) in
      if ps_open p = [] then malformed_document p
      else
        (let e = last (ps_open p) in
         if po_lexical e \<noteq> name then malformed_document p
         else if po_entity_depth e \<noteq> stack_depth (ps_stack p) then malformed_document p
         else ok token_kind.EndElement (close_element e (p\<lparr>ps_open := butlast (ps_open p)\<rparr>))))"

end
