(* ===== verification/Parser.thy ===== *)
theory Parser
  imports Parser_Tags
begin

text \<open>
  The parser core, \<open>io/parse.rs\<close>: \<open>advance\<close> with the tokens it interprets itself, the calls of its
  driver, and the event a token stands for (\<open>current_event\<close> of \<open>io/read.rs\<close>).

  \<open>advance\<close> is the loop of the code over its turns. It is a partial function: \<open>None\<close> would be a loop
  that does not end.
\<close>

section \<open>The XML declaration and processing instructions\<close>

definition is_version :: "ustring \<Rightarrow> bool" where
  "is_version value =
     (case strip_prefix (lit ''1.'') value of
        None \<Rightarrow> False | Some digits \<Rightarrow> digits \<noteq> [] \<and> list_all is_ascii_digit digits)"

text \<open>One pseudo-attribute, after those in \<open>seen\<close>.\<close>

definition xml_declaration_part :: "ustring list \<Rightarrow> ustring \<Rightarrow> ustring \<Rightarrow> (unit, 'd, 'a) step" where
  "xml_declaration_part seen name value =
     (if name \<in> set seen then malformed_document
      else if name = lit ''version'' then
        (if is_version value then modify (\<lambda>p. p\<lparr>ps_version := value\<rparr>) else malformed_document)
      else if name = lit ''encoding'' then
        (if seen = [lit ''version''] \<and> is_enc_name value then modify (\<lambda>p. p\<lparr>ps_declared_encoding := Some value\<rparr>)
         else malformed_document)
      else if name = lit ''standalone'' then
        (if lit ''version'' \<in> set seen \<and> (value = lit ''yes'' \<or> value = lit ''no'')
         then modify (\<lambda>p. p\<lparr>ps_standalone := Some (value = lit ''yes'')\<rparr>) else malformed_document)
      else malformed_document)"

function xml_declaration_loop :: "ustring list \<Rightarrow> ustring \<Rightarrow> (unit, 'd, 'a) step" where
  "xml_declaration_loop seen rest =
     (if trim_start rest = [] then ok ()
      else if trim_start rest = rest then malformed_document
      else case pseudo_attribute rest of
        Inl e \<Rightarrow> fail (Err e)
      | Inr (name, value, tail) \<Rightarrow>
          and_then (xml_declaration_part seen name value) (\<lambda>_. xml_declaration_loop (seen @ [name]) tail))"
  by pat_completeness auto
termination
  by (relation "measure (\<lambda>(seen, rest). length rest)") (auto dest: pseudo_attribute_tail)

declare xml_declaration_loop.simps [simp del]

definition xml_declaration_of :: "ustring \<Rightarrow> (unit, 'd, 'a) step" where
  "xml_declaration_of data =
     and_then (xml_declaration_loop [] data) (\<lambda>_ p. if ps_version p = [] then malformed_document p else ok () p)"

definition processing_instruction_of :: "ustring \<Rightarrow> (token_kind option, 'd, 'a) step" where
  "processing_instruction_of tag =
     (let body = take (length tag - 4) (drop 2 tag);
          target = takeWhile (\<lambda>c. \<not> is_whitespace c) body;
          data = drop (length target) body
      in if to_ascii_lowercase target = XML_PREFIX then
           reading (\<lambda>p.
             if target \<noteq> XML_PREFIX \<or> lo_offset (ps_token_at p) \<noteq> 0 \<or> 1 < stack_depth (ps_stack p)
             then malformed_document
             else and_then (xml_declaration_of data) (\<lambda>_. ok (Some token_kind.XmlDeclaration)))
         else
           and_then (intern_name target) (\<lambda>h.
           and_then (modify (\<lambda>p. p\<lparr>ps_name := qname_new None None h,
               ps_pi_data_at := advance_over (take (length tag - 2 - length (trim_start data)) tag) (ps_token_at p),
               ps_text := trim_start data\<rparr>)) (\<lambda>_.
           ok (Some token_kind.ProcessingInstruction))))"

section \<open>Comments and CDATA sections\<close>

definition comment_of :: "ustring \<Rightarrow> (token_kind option, 'd, 'a) step" where
  "comment_of tag =
     and_then (modify (\<lambda>p. p\<lparr>ps_text := take (length tag - 7) (drop 4 tag)\<rparr>)) (\<lambda>_. ok (Some token_kind.Comment))"

definition cdata_of :: "ustring \<Rightarrow> (token_kind option, 'd, 'a) step" where
  "cdata_of tag = reading (\<lambda>p.
     if ps_phase p \<noteq> InContent then malformed_document
     else and_then (modify (\<lambda>p. p\<lparr>ps_text := take (length tag - 12) (drop 9 tag)\<rparr>)) (\<lambda>_. ok (Some token_kind.CData)))"

section \<open>The document type declaration\<close>

definition trim_end :: "ustring \<Rightarrow> ustring" where
  "trim_end s = rev (dropWhile white_space (rev s))"

definition trim_end_matches :: "uchar \<Rightarrow> ustring \<Rightarrow> ustring" where
  "trim_end_matches c s = rev (dropWhile (\<lambda>d. d = c) (rev s))"

definition read_literal :: "ustring \<Rightarrow> (ustring \<times> ustring) option" where
  "read_literal s =
     (case trim_start s of
        [] \<Rightarrow> None
      | quote # rest \<Rightarrow> if quote \<noteq> QUOT \<and> quote \<noteq> APOS then None else split_once quote rest)"

definition starts_white :: "ustring \<Rightarrow> bool" where
  "starts_white s = (case s of [] \<Rightarrow> False | c # _ \<Rightarrow> is_whitespace c)"

definition parse_external_id :: "ustring \<Rightarrow> (ustring option \<times> ustring \<times> ustring) option" where
  "parse_external_id s =
     (case strip_prefix (lit ''SYSTEM'') s of
        Some rest \<Rightarrow>
          if \<not> starts_white rest then None
          else map_option (\<lambda>(sys, tail). (None, sys, tail)) (read_literal rest)
      | None \<Rightarrow>
          (case strip_prefix (lit ''PUBLIC'') s of
             Some rest \<Rightarrow>
               if \<not> starts_white rest then None
               else (case read_literal rest of
                       None \<Rightarrow> None
                     | Some (pub, after_public) \<Rightarrow>
                         if \<not> starts_white after_public then None
                         else map_option (\<lambda>(sys, tail). (Some pub, sys, tail)) (read_literal after_public))
           | None \<Rightarrow> None))"

text \<open>The external identifier between the name and the internal subset.\<close>

definition doctype_external :: "ustring \<Rightarrow> (ustring option \<times> ustring) option result" where
  "doctype_external external =
     (if external = [] then Inr None
      else if starts_with (lit ''SYSTEM'') external \<or> starts_with (lit ''PUBLIC'') external then
        (case parse_external_id external of
           None \<Rightarrow> Inl WellFormedness
         | Some (pub, sys, tail) \<Rightarrow> if trim_start tail \<noteq> [] then Inl WellFormedness else Inr (Some (pub, sys)))
      else Inl WellFormedness)"

definition doctype_of :: "('d, 'a) env \<Rightarrow> ustring \<Rightarrow> (token_kind option, 'd, 'a) step" where
  "doctype_of E tag = reading (\<lambda>p.
     if ps_phase p \<noteq> InProlog then malformed_document
     else if ps_seen_doctype p then malformed_document
     else
       (let body = trim_start (take (length tag - 10) (drop 9 tag));
            name = takeWhile (\<lambda>c. \<not> is_whitespace c \<and> c \<noteq> cp CHR ''['') body;
            after_name = drop (length name) body;
            (before, subset, subset_start) =
              (case split_once (cp CHR ''['') after_name of
                 Some (b, s) \<Rightarrow> (b, trim_end_matches RBRACKET (trim_end s), length tag - 1 - length s)
               | None \<Rightarrow> (after_name, [], 0))
        in
          and_then (modify (\<lambda>p. p\<lparr>ps_seen_doctype := True\<rparr>)) (\<lambda>_.
          if \<not> is_name name then malformed_document
          else
            and_then (intern_name name) (\<lambda>h.
            and_then (modify (\<lambda>p. p\<lparr>ps_doctype_name := Some h\<rparr>)) (\<lambda>_.
            and_then (returning (doctype_external (trim before))) (\<lambda>external.
            and_then (modify (\<lambda>p. p\<lparr>ps_dtd_external_id := external,
                ps_doctype_public_id := (case external of None \<Rightarrow> ps_doctype_public_id p | Some (pub, _) \<Rightarrow> pub),
                ps_doctype_system_id := (case external of None \<Rightarrow> ps_doctype_system_id p | Some (_, sys) \<Rightarrow> Some sys),
                ps_text := tag,
                ps_dtd_assembly := da_with_internal_subset (env_dtd E) subset
                  (if subset = [] then ps_token_at p else advance_over (take subset_start tag) (ps_token_at p)),
                ps_dtd_active := True\<rparr>)) (\<lambda>_.
            ok None)))))))"

definition document_base :: "('d, 'a) parser \<Rightarrow> ustring option" where
  "document_base p = map_option to_string (ey_base_uri (stack_document (ps_stack p)))"

definition request ::
  "ustring option \<Rightarrow> ustring option \<Rightarrow> ustring \<Rightarrow> ustring option \<Rightarrow> request_kind \<Rightarrow> entity_request" where
  "request name pub sys base kind =
     \<lparr>rq_name = name, rq_public_id = pub, rq_system_id = sys, rq_base_uri = base, rq_kind = kind\<rparr>"

definition drive_dtd :: "('d, 'a) env \<Rightarrow> (progress, 'd, 'a) step" where
  "drive_dtd E p =
     (case ps_dtd_external_id p of
        Some (pub, sys) \<Rightarrow>
          ok NeedEntity (p\<lparr>ps_dtd_external_id := None,
            ps_pending_entity := Some (request None pub sys (document_base p) ExternalSubsetRequest)\<rparr>)
      | None \<Rightarrow>
          (case da_advance (env_dtd E) (ps_dtd_assembly p) (ps_pool p) of
             (outcome, assembly, pool) \<Rightarrow>
               (let p' = p\<lparr>ps_dtd_assembly := assembly, ps_pool := pool\<rparr> in
                case outcome of
                  Inl e \<Rightarrow> fail e p'
                | Inr (Complete dtd) \<Rightarrow>
                    ok (Token token_kind.Doctype) (p'\<lparr>ps_dtd := Some dtd, ps_dtd_active := False,
                      ps_dtd_assembly := da_new (env_dtd E), ps_kind := Some token_kind.Doctype\<rparr>)
                | Inr (NeedExternalPe pe) \<Rightarrow>
                    ok NeedEntity (p'\<lparr>ps_pending_entity :=
                      Some (request (Some (pe_name pe)) (pe_public_id pe) (pe_system_id pe)
                        (case pe_base pe of Some b \<Rightarrow> Some b | None \<Rightarrow> document_base p) ParameterEntityRequest)\<rparr>))))"

section \<open>Text and references\<close>

definition accumulate_text :: "ustring \<Rightarrow> location \<Rightarrow> (unit, 'd, 'a) step" where
  "accumulate_text run at p =
     (if find_sub (lit '']]>'') run \<noteq> None then malformed_document (p\<lparr>ps_token_at := at\<rparr>)
      else ok () (p\<lparr>ps_pending_text_at := (if ps_pending_text p = [] then at else ps_pending_text_at p),
                    ps_pending_text := ps_pending_text p @ run\<rparr>))"

definition flush_text :: "(token_kind option, 'd, 'a) step" where
  "flush_text p =
     (if ps_pending_text p = [] then ok None p
      else if ps_phase p \<noteq> InContent \<and> \<not> list_all is_whitespace (ps_pending_text p)
      then malformed_document (p\<lparr>ps_token_at := ps_pending_text_at p\<rparr>)
      else ok (Some token_kind.Text)
        (p\<lparr>ps_text := ps_pending_text p, ps_pending_text := [], ps_token_at := ps_pending_text_at p\<rparr>))"

definition flush_if_full :: "(token_kind option, 'd, 'a) step" where
  "flush_if_full = reading (\<lambda>p.
     if pc_text_fragment_len (ps_config p) \<le> byte_len (ps_pending_text p) then flush_text else ok None)"

definition push_general_entity :: "name_id \<Rightarrow> location \<Rightarrow> (unit, 'd, 'a) step" where
  "push_general_entity name at =
     and_then (modify (\<lambda>p. p\<lparr>ps_token_at := at\<rparr>)) (\<lambda>_.
     and_then (resolve_name name) (\<lambda>display. reading (\<lambda>p.
       if ps_standalone p = Some True \<and> declared_externally p name then malformed_document
       else case general_entity_of p name of
         Some (GInternal value) \<Rightarrow>
           and_then (returning (from_text value)) (\<lambda>stream.
             on_stack (push_entity (new_entity (Some display) InternalGeneral stream (stack_base_uri (ps_stack p)))))
       | Some (GUnparsed _ _ _ _) \<Rightarrow> malformed_document
       | Some (GExternal pub sys base) \<Rightarrow>
           modify (\<lambda>p. p\<lparr>ps_pending_entity :=
             Some (request (Some display) pub sys
               (case base of Some b \<Rightarrow> Some b | None \<Rightarrow> document_base p) GeneralEntityRequest)\<rparr>)
       | None \<Rightarrow> malformed_document)))"

definition reference_of :: "ustring \<Rightarrow> location \<Rightarrow> (unit, 'd, 'a) step" where
  "reference_of tag at p =
     (if ps_phase p \<noteq> InContent then malformed_document (p\<lparr>ps_token_at := at\<rparr>)
      else
        (let body = take (length tag - 2) (drop 1 tag) in
         case character_or_predefined body of
           Inl e \<Rightarrow> fail (Err e) p
         | Inr (Some c) \<Rightarrow>
             ok () (p\<lparr>ps_pending_text_at := (if ps_pending_text p = [] then at else ps_pending_text_at p),
                      ps_pending_text := ps_pending_text p @ [c]\<rparr>)
         | Inr None \<Rightarrow> and_then (intern_name body) (\<lambda>h. push_general_entity h at) p))"

section \<open>Advancing\<close>

definition reset_event_fields :: "('d, 'a) parser \<Rightarrow> ('d, 'a) parser" where
  "reset_event_fields p = p\<lparr>ps_kind := None, ps_name := no_name, ps_attributes := [], ps_text := []\<rparr>"

definition inherit_context :: "('d, 'a) parser \<Rightarrow> ('d, 'a) parser" where
  "inherit_context p =
     p\<lparr>ps_xml_space := inherited_space p, ps_xml_lang := inherited_lang p,
       ps_base := (if ext_xml_base (pc_extensions (ps_config p)) then inherited_base p else None)\<rparr>"

definition interpret_token :: "('d, 'a) env \<Rightarrow> token_kind \<Rightarrow> ustring \<Rightarrow> (token_kind option, 'd, 'a) step" where
  "interpret_token E kind tag =
     (case kind of
        token_kind.StartElement \<Rightarrow> and_then (start_tag E tag) (\<lambda>k. ok (Some k))
      | token_kind.EndElement \<Rightarrow> and_then (end_tag tag) (\<lambda>k. ok (Some k))
      | _ \<Rightarrow>
          and_then (modify inherit_context) (\<lambda>_.
            case kind of
              token_kind.ProcessingInstruction \<Rightarrow> processing_instruction_of tag
            | token_kind.Comment \<Rightarrow> comment_of tag
            | token_kind.Doctype \<Rightarrow> doctype_of E tag
            | token_kind.CData \<Rightarrow> cdata_of tag
            | _ \<Rightarrow> ok None))"

definition finish_document :: "(progress, 'd, 'a) step" where
  "finish_document p =
     (if ps_open p \<noteq> [] then malformed_document p
      else if ps_phase p = InProlog then malformed_document p
      else ok Eof (p\<lparr>ps_kind := None\<rparr>))"

text \<open>The end of a turn that found \<open>event\<close>: an event, what is outstanding, or another turn (\<open>None\<close>).\<close>

definition outstanding :: "('d, 'a) env \<Rightarrow> (progress option, 'd, 'a) step" where
  "outstanding E p =
     (if ps_dtd_active p then and_then (drive_dtd E) (\<lambda>x. ok (Some x)) p
      else if ps_pending_entity p \<noteq> None then ok (Some NeedEntity) p
      else ok None p)"

definition conclude :: "('d, 'a) env \<Rightarrow> token_kind option \<Rightarrow> (progress option, 'd, 'a) step" where
  "conclude E event =
     (case event of
        Some kind \<Rightarrow> and_then (modify (\<lambda>p. p\<lparr>ps_kind := Some kind\<rparr>)) (\<lambda>_. ok (Some (Token kind)))
      | None \<Rightarrow> outstanding E)"

text \<open>\<open>stream_mut().advance(len)\<close> on the innermost entity, with the text it steps over.\<close>

definition take_input :: "nat \<Rightarrow> (ustring, 'd, 'a) step" where
  "take_input len p =
     (let st = ey_stream (current (ps_stack p)) in
      case split_bytes len (cs_rest st) of
        None \<Rightarrow> fail Panic p
      | Some (a, b) \<Rightarrow>
          ok a (p\<lparr>ps_stack := set_stream (st\<lparr>cs_rest := b, cs_at := advance_over a (cs_at st)\<rparr>) (ps_stack p)\<rparr>))"

definition text_declaration_turn :: "(progress option, 'd, 'a) step" where
  "text_declaration_turn = reading (\<lambda>p.
     let st = ey_stream (current (ps_stack p)) in
     case text_declaration_span (cs_rest st) (\<not> can_be_fed st) of
       Inl e \<Rightarrow> fail (Err e)
     | Inr NeedMore \<Rightarrow> ok (Some NeedMoreInput)
     | Inr NoDecl \<Rightarrow> and_then (modify (\<lambda>p. p\<lparr>ps_entity_text_decl_pending := False\<rparr>)) (\<lambda>_. ok None)
     | Inr (Present len) \<Rightarrow>
         and_then (modify (\<lambda>p. p\<lparr>ps_entity_text_decl_pending := False\<rparr>)) (\<lambda>_.
         and_then (take_input len) (\<lambda>_. ok None)))"

text \<open>The innermost entity is exhausted.\<close>

definition exhausted_turn :: "(progress option, 'd, 'a) step" where
  "exhausted_turn = reading (\<lambda>p.
     if 1 < stack_depth (ps_stack p) then
       and_then (modify (\<lambda>p. p\<lparr>ps_stack := snd (pop_entity (ps_stack p))\<rparr>)) (\<lambda>_. ok None)
     else
       and_then flush_text (\<lambda>event.
         case event of
           Some kind \<Rightarrow> and_then (modify (\<lambda>p. p\<lparr>ps_kind := Some kind\<rparr>)) (\<lambda>_. ok (Some (Token kind)))
         | None \<Rightarrow> and_then finish_document (\<lambda>x. ok (Some x))))"

definition text_turn :: "('d, 'a) env \<Rightarrow> (unit, 'd, 'a) step \<Rightarrow> (progress option, 'd, 'a) step" where
  "text_turn E handler = and_then handler (\<lambda>_. and_then flush_if_full (conclude E))"

definition markup_turn :: "('d, 'a) env \<Rightarrow> token_kind \<Rightarrow> ustring \<Rightarrow> location \<Rightarrow> (progress option, 'd, 'a) step" where
  "markup_turn E kind tag at = reading (\<lambda>p.
     and_then
       (if ps_pending_text p = [] then
          and_then (modify (\<lambda>p. p\<lparr>ps_token_at := at\<rparr>)) (\<lambda>_. interpret_token E kind tag)
        else
          and_then (modify (\<lambda>p. p\<lparr>ps_held := Some \<lparr>ht_kind = kind, ht_text = tag, ht_at = at\<rparr>\<rparr>)) (\<lambda>_. flush_text))
       (conclude E))"

definition scan_turn :: "('d, 'a) env \<Rightarrow> (progress option, 'd, 'a) step" where
  "scan_turn E = reading (\<lambda>p.
     let st = ey_stream (current (ps_stack p)) in
     if cs_rest st = [] then (if can_be_fed st then ok (Some NeedMoreInput) else exhausted_turn)
     else case scan (cs_rest st) (\<not> can_be_fed st) (lim_tokens (pc_limits (ps_config p)))
                 (pc_text_fragment_len (ps_config p)) of
       Inl e \<Rightarrow> fail (Err e)
     | Inr Pending \<Rightarrow> ok (Some NeedMoreInput)
     | Inr (Reference len) \<Rightarrow> and_then (take_input len) (\<lambda>tag. text_turn E (reference_of tag (cs_at st)))
     | Inr (Found kind len) \<Rightarrow>
         and_then (take_input len) (\<lambda>tag.
           if kind = token_kind.Text then text_turn E (accumulate_text tag (cs_at st))
           else markup_turn E kind tag (cs_at st)))"

definition turn :: "('d, 'a) env \<Rightarrow> (progress option, 'd, 'a) step" where
  "turn E = reading (\<lambda>p.
     case ps_held p of
       Some h \<Rightarrow>
         and_then (modify (\<lambda>p. p\<lparr>ps_held := None, ps_token_at := ht_at h\<rparr>)) (\<lambda>_.
         and_then (interpret_token E (ht_kind h) (ht_text h)) (conclude E))
     | None \<Rightarrow> if ps_entity_text_decl_pending p then text_declaration_turn else scan_turn E)"

partial_function (option) turns ::
  "('d, 'a) env \<Rightarrow> ('d, 'a) parser \<Rightarrow> ((stop + progress) \<times> ('d, 'a) parser) option" where
  "turns E p =
     (case turn E p of
        (Inl e, p') \<Rightarrow> Some (Inl e, p')
      | (Inr (Some x), p') \<Rightarrow> Some (Inr x, p')
      | (Inr None, p') \<Rightarrow> turns E p')"

definition advance :: "('d, 'a) env \<Rightarrow> ('d, 'a) parser \<Rightarrow> ((stop + progress) \<times> ('d, 'a) parser) option" where
  "advance E p0 =
     (if ps_dtd_active p0 then Some (drive_dtd E p0)
      else
        (let p = reset_event_fields p0 in
         if ps_end_pending p then
           (let p' = p\<lparr>ps_end_pending := False\<rparr> in
            if ps_open p' = [] then Some (fail Panic p')
            else Some (ok (Token token_kind.EndElement)
              ((close_element (last (ps_open p')) (p'\<lparr>ps_open := butlast (ps_open p')\<rparr>))
                 \<lparr>ps_kind := Some token_kind.EndElement\<rparr>)))
         else turns E p))"

section \<open>The driver's calls\<close>

definition feed_parser :: "('d, 'a) env \<Rightarrow> byte list \<Rightarrow> bool \<Rightarrow> (unit, 'd, 'a) step" where
  "feed_parser E bytes final = on_stack (feed_stack (env_backend E) bytes final)"

definition set_encoding :: "('d, 'a) env \<Rightarrow> ustring \<Rightarrow> (unit, 'd, 'a) step" where
  "set_encoding E label = on_stack (on_stream (use_encoding (env_backend E) label))"

definition identified_stream :: "entity_request \<Rightarrow> 'd char_stream" where
  "identified_stream r =
     (let s1 = (case resolved_uri r of None \<Rightarrow> new_stream | Some i \<Rightarrow> with_system_id i new_stream)
      in case rq_public_id r of None \<Rightarrow> s1 | Some i \<Rightarrow> with_public_id i s1)"

definition begin_entity :: "(unit, 'd, 'a) step" where
  "begin_entity p =
     (case ps_pending_entity p of
        None \<Rightarrow> fail (Err Internal) p
      | Some r \<Rightarrow>
          if rq_kind r \<noteq> GeneralEntityRequest then fail (Err Internal) p
          else
            and_then (on_stack (push_entity (new_entity (rq_name r) ExternalGeneral (identified_stream r) None)))
              (\<lambda>_. modify (\<lambda>p. p\<lparr>ps_entity_text_decl_pending := True\<rparr>))
              (p\<lparr>ps_pending_entity := None\<rparr>))"

definition strip_text_declaration :: "'d char_stream \<Rightarrow> (stop + 'd char_stream)" where
  "strip_text_declaration s =
     (case text_declaration_span (cs_rest s) True of
        Inl e \<Rightarrow> Inl (Err e)
      | Inr NoDecl \<Rightarrow> Inr s
      | Inr NeedMore \<Rightarrow> Inl (Err Internal)
      | Inr (Present len) \<Rightarrow> (case stream_advance len s of None \<Rightarrow> Inl Panic | Some s' \<Rightarrow> Inr s'))"

definition provide_entity :: "('d, 'a) env \<Rightarrow> byte list \<Rightarrow> (unit, 'd, 'a) step" where
  "provide_entity E bytes p =
     (case ps_pending_entity p of
        None \<Rightarrow> fail (Err Internal) p
      | Some r \<Rightarrow>
          (let p' = p\<lparr>ps_pending_entity := None\<rparr> in
           case feed (env_backend E) bytes True (identified_stream r) of
             (Inl e, _) \<Rightarrow> fail (Err e) p'
           | (Inr _, s0) \<Rightarrow>
               (case strip_text_declaration s0 of
                  Inl e \<Rightarrow> fail e p'
                | Inr s \<Rightarrow>
                    (case rq_kind r of
                       GeneralEntityRequest \<Rightarrow>
                         on_stack (push_entity (new_entity (rq_name r) ExternalGeneral s None)) p'
                     | ExternalSubsetRequest \<Rightarrow>
                         ok () (p'\<lparr>ps_dtd_assembly :=
                           da_add_external_subset (env_dtd E) (cs_rest s) (cs_at s) (ps_dtd_assembly p')\<rparr>)
                     | ParameterEntityRequest \<Rightarrow>
                         (case da_provide_parameter_entity (env_dtd E) (cs_rest s) (cs_at s) (ps_dtd_assembly p') of
                            None \<Rightarrow> fail Panic p'
                          | Some a \<Rightarrow> ok () (p'\<lparr>ps_dtd_assembly := a\<rparr>))
                     | XIncludeRequest _ _ \<Rightarrow> fail (Err Internal) p'))))"

definition decline_entity :: "('d, 'a) env \<Rightarrow> (unit, 'd, 'a) step" where
  "decline_entity E p =
     (case ps_pending_entity p of
        None \<Rightarrow> fail (Err Internal) p
      | Some r \<Rightarrow>
          (let p' = p\<lparr>ps_pending_entity := None\<rparr> in
           if rq_kind r = ExternalSubsetRequest then
             ok () (p'\<lparr>ps_external_subset_unread := True,
                       ps_dtd_assembly := da_discard_pending (env_dtd E) (ps_dtd_assembly p')\<rparr>)
           else malformed_document p'))"

section \<open>The event of the current token\<close>

definition resolve_optional :: "name_pool \<Rightarrow> name_id option \<Rightarrow> ustring option option" where
  "resolve_optional pool h =
     (case h of None \<Rightarrow> Some None | Some i \<Rightarrow> map_option Some (resolve_own pool i))"

definition attribute_event :: "name_pool \<Rightarrow> parsed_attribute \<Rightarrow> attribute option" where
  "attribute_event pool a =
     Option.bind (resolve_optional pool (qn_prefix (pa_name a))) (\<lambda>prefix.
     Option.bind (resolve_own pool (qn_local (pa_name a))) (\<lambda>local.
     Option.bind (resolve_optional pool (en_namespace (qn_expanded (pa_name a)))) (\<lambda>namespace.
     Some \<lparr>at_prefix = prefix, at_local = local, at_namespace = namespace, at_value = pa_value a\<rparr>)))"

text \<open>
  \<open>current_event\<close>: \<open>None\<close> where there is no current token, or where it is the XML declaration, which is no
  event; the panics are \<open>None\<close> too.
\<close>

definition current_event :: "('d, 'a) parser \<Rightarrow> event option" where
  "current_event p =
     (let pool = ps_pool p in
      case ps_kind p of
        Some token_kind.StartElement \<Rightarrow>
          Option.bind (resolve_optional pool (qn_prefix (ps_name p))) (\<lambda>prefix.
          Option.bind (resolve_own pool (qn_local (ps_name p))) (\<lambda>local.
          Option.bind (resolve_optional pool (en_namespace (qn_expanded (ps_name p)))) (\<lambda>namespace.
          Option.bind (those (map (attribute_event pool) (ps_attributes p))) (\<lambda>as.
          Option.bind (resolve_optional pool (ps_xml_lang p)) (\<lambda>lang.
          Some (event.StartElement
            \<lparr>se_prefix = prefix, se_local = local, se_namespace = namespace, se_attributes = as,
             se_xml_space = ps_xml_space p, se_xml_lang = lang, se_base_uri = map_option to_string (ps_base p)\<rparr>))))))
      | Some token_kind.EndElement \<Rightarrow>
          Option.bind (resolve_optional pool (qn_prefix (ps_name p))) (\<lambda>prefix.
          Option.bind (resolve_own pool (qn_local (ps_name p))) (\<lambda>local.
          Option.bind (resolve_optional pool (en_namespace (qn_expanded (ps_name p)))) (\<lambda>namespace.
          Some (event.EndElement \<lparr>ee_prefix = prefix, ee_local = local, ee_namespace = namespace\<rparr>))))
      | Some token_kind.Text \<Rightarrow> Some (Characters (ps_text p))
      | Some token_kind.CData \<Rightarrow> Some (event.Cdata (ps_text p))
      | Some token_kind.Comment \<Rightarrow> Some (event.Comment (ps_text p))
      | Some token_kind.ProcessingInstruction \<Rightarrow>
          Option.bind (resolve_own pool (qn_local (ps_name p))) (\<lambda>target.
          Some (event.ProcessingInstruction \<lparr>pe_target = target, pe_data = ps_text p\<rparr>))
      | Some token_kind.Doctype \<Rightarrow>
          Option.bind (resolve_optional pool (ps_doctype_name p)) (\<lambda>name.
          Option.bind (ps_dtd p) (\<lambda>dtd.
          Some (event.Doctype \<lparr>de_name = name, de_public_id = ps_doctype_public_id p,
            de_system_id = ps_doctype_system_id p, de_dtd = dtd, de_pool = pool\<rparr>)))
      | _ \<Rightarrow> None)"

end
