(* ===== verification/Pool_Growth.thy ===== *)
theory Pool_Growth
  imports Dtd_Model
begin

text \<open>
  Name pools that grow: interning adds names and keeps the handles given out before. The readers of the
  document and of its DTD state with these notions that what they hold stays known.
\<close>

section \<open>Pools that grow\<close>

definition pool_le :: "name_pool \<Rightarrow> name_pool \<Rightarrow> bool" where
  "pool_le a b \<longleftrightarrow> (\<forall>h n. resolve a h = Some n \<longrightarrow> resolve b h = Some n)"

lemma pool_le_refl [simp]: "pool_le a a"
  by (simp add: pool_le_def)

lemma pool_le_trans: "pool_le a b \<Longrightarrow> pool_le b c \<Longrightarrow> pool_le a c"
  by (simp add: pool_le_def)

lemma resolve_own_eq: "resolve_own = resolve"
  by (intro ext) (simp add: resolve_own_def resolve_def)

definition named :: "name_pool \<Rightarrow> name_id \<Rightarrow> ustring" where
  "named pool h = the (resolve pool h)"

definition knows :: "name_pool \<Rightarrow> name_id \<Rightarrow> bool" where
  "knows pool h \<longleftrightarrow> resolve pool h \<noteq> None"

definition knows_option :: "name_pool \<Rightarrow> name_id option \<Rightarrow> bool" where
  "knows_option pool x \<longleftrightarrow> (\<forall>h. x = Some h \<longrightarrow> knows pool h)"

lemma knows_option_simps [simp]: "knows_option pool None" "knows_option pool (Some h) \<longleftrightarrow> knows pool h"
  by (simp_all add: knows_option_def)

lemma knows_resolve: "knows pool h \<longleftrightarrow> resolve pool h = Some (named pool h)"
  by (auto simp: knows_def named_def)

lemma knows_named: "knows pool h \<Longrightarrow> resolve pool h = Some (named pool h)"
  by (simp add: knows_resolve)

lemma resolve_named: "resolve pool h = Some n \<Longrightarrow> named pool h = n"
  by (simp add: named_def)

lemma resolve_knows: "resolve pool h = Some n \<Longrightarrow> knows pool h"
  by (simp add: knows_def)

lemma pool_le_knows: "pool_le a b \<Longrightarrow> knows a h \<Longrightarrow> knows b h"
  by (auto simp: pool_le_def knows_def)

lemma pool_le_named: "pool_le a b \<Longrightarrow> knows a h \<Longrightarrow> named b h = named a h"
  by (auto simp: pool_le_def knows_def named_def)

lemma pool_le_option: "pool_le a b \<Longrightarrow> knows_option a x \<Longrightarrow> knows_option b x"
  by (auto simp: knows_option_def pool_le_knows)

lemma pool_le_named_option:
  "pool_le a b \<Longrightarrow> knows_option a x \<Longrightarrow> map_option (named b) x = map_option (named a) x"
  by (cases x) (simp_all add: pool_le_named)

lemma named_inj: "pool_wf pool \<Longrightarrow> knows pool g \<Longrightarrow> knows pool h \<Longrightarrow> named pool g = named pool h \<longleftrightarrow> g = h"
  by (metis knows_resolve resolve_inj)

lemma named_option_inj:
  "pool_wf pool \<Longrightarrow> knows_option pool x \<Longrightarrow> knows_option pool y \<Longrightarrow>
     map_option (named pool) x = map_option (named pool) y \<longleftrightarrow> x = y"
  by (cases x; cases y) (simp_all add: named_inj)

lemma intern_grows:
  assumes "pool_wf pool" "intern pool n = Inr (h, pool')"
  shows "pool_wf pool'" "pool_le pool pool'" "resolve pool' h = Some n"
  using intern_wf [OF assms] intern_resolve [OF assms] intern_keeps [OF assms] by (auto simp: pool_le_def)

definition sample_names :: name_pool where
  "sample_names = sample_pool\<lparr>p_names := [[], lit ''a''], p_index := [[] \<mapsto> 0, lit ''a'' \<mapsto> 1]\<rparr>"

lemma sample_names_known:
  "pool_wf sample_names" "get sample_names (lit ''a'') = Some (NameId 2 1)" "knows sample_names (NameId 2 1)"
  "named sample_names (NameId 2 1) = lit ''a''"
proof -
  have i: "intern sample_pool (lit ''a'') = Inr (NameId 2 1, sample_names)"
    by (simp add: intern_def next_index_def sample_pool_def u32_max_def sample_names_def)
  show "pool_wf sample_names" "get sample_names (lit ''a'') = Some (NameId 2 1)" "knows sample_names (NameId 2 1)"
    "named sample_names (NameId 2 1) = lit ''a''"
    using intern_grows [OF sample_pool_wf i] intern_resolve [OF sample_pool_wf i] by (simp_all add: knows_def named_def)
qed

section \<open>What a DTD supplies\<close>

text \<open>The texts a DTD supplies are texts of XML, and the attributes it declares have names.\<close>

definition dtd_chars :: "dtd \<Rightarrow> bool" where
  "dtd_chars d \<longleftrightarrow>
     (\<forall>n v. d_general d n = Some (GInternal v) \<longrightarrow> list_all is_char v) \<and>
     (\<forall>e as. d_attlists d e = Some as \<longrightarrow>
       (\<forall>a\<in>set as. \<forall>v. default_value (ad_default a) = Some v \<longrightarrow> list_all is_char v))"

definition dtd_names :: "name_pool \<Rightarrow> dtd \<Rightarrow> bool" where
  "dtd_names pool d \<longleftrightarrow> (\<forall>e as. d_attlists d e = Some as \<longrightarrow> (\<forall>a\<in>set as. knows pool (ad_name a)))"

lemma join_chars: "list_all P sep \<Longrightarrow> (\<And>x. x \<in> set xs \<Longrightarrow> list_all P x) \<Longrightarrow> list_all P (join sep xs)"
  by (induction sep xs rule: join.induct) auto

lemma split_on_set: "part \<in> set (split_on d s) \<Longrightarrow> set part \<subseteq> set s"
  by (induction s arbitrary: part) (fastforce split: list.splits if_splits)+

lemma normalize_tokenized_chars:
  assumes "list_all is_char s"
  shows "list_all is_char (normalize_tokenized s b)"
proof -
  have "list_all is_char part" if "part \<in> set (split_on 0x20 s)" for part
    using assms split_on_set [OF that] by (auto simp: list_all_iff)
  then show ?thesis
    using assms by (auto simp: normalize_tokenized_def is_char_def intro!: join_chars)
qed

end
