(* ===== verification/Parser_Calm.thy ===== *)
theory Parser_Calm
  imports Parser Strict_Grammar Pool_Growth
begin

text \<open>
  Reasoning about steps of the parser: the lemmas state, with \<open>does\<close>, what the steps on
  names, attribute values and attributes do to the state: the pool grows, the counters of expansions move,
  and nothing else changes that they do not mention.
\<close>

lemma does_returning [does_simps]: "does (returning x) p R Q = (case x of Inl e \<Rightarrow> R (Err e) | Inr r \<Rightarrow> Q r p)"
  by (auto simp: does_def returning_def split: sum.splits)

lemma does_unwrap [does_simps]: "does (unwrap x) p R Q = (case x of None \<Rightarrow> R Panic | Some r \<Rightarrow> Q r p)"
  by (auto simp: does_def unwrap_def split: option.splits)

section \<open>Steps that only grow the pool and count expansions\<close>

text \<open>The state without what such a step changes.\<close>

definition no_pool :: name_pool where
  "no_pool = \<lparr>p_id = 0, p_lineage = [], p_names = [], p_index = Map.empty\<rparr>"

definition erased :: "('d, 'a) parser \<Rightarrow> ('d, 'a) parser" where
  "erased p = p\<lparr>ps_pool := no_pool, ps_stack := (ps_stack p)\<lparr>es_expansions := 0, es_expansion_chars := 0\<rparr>\<rparr>"

definition grown :: "('d, 'a) parser \<Rightarrow> ('d, 'a) parser \<Rightarrow> bool" where
  "grown p q \<longleftrightarrow> pool_wf (ps_pool q) \<and> pool_le (ps_pool p) (ps_pool q) \<and> erased q = erased p"

lemma grown_refl [simp]: "pool_wf (ps_pool p) \<Longrightarrow> grown p p"
  by (simp add: grown_def)

lemma grown_trans: "grown p q \<Longrightarrow> grown q r \<Longrightarrow> grown p r"
  unfolding grown_def by (auto intro: pool_le_trans)

lemma grownD:
  assumes "grown p q"
  shows "pool_wf (ps_pool q)" "pool_le (ps_pool p) (ps_pool q)"
  using assms by (simp_all add: grown_def)

lemma erased_field:
  assumes "erased q = erased p" "\<And>pool s p. f (p\<lparr>ps_pool := pool, ps_stack := s\<rparr>) = f p"
  shows "f q = f p"
  using arg_cong [OF assms(1), of f] unfolding erased_def assms(2) .

lemma erased_stack:
  assumes "erased q = erased p"
  shows "es_entities (ps_stack q) = es_entities (ps_stack p)" "es_limits (ps_stack q) = es_limits (ps_stack p)"
  using arg_cong [OF assms, of "\<lambda>p. es_entities (ps_stack p)"] arg_cong [OF assms, of "\<lambda>p. es_limits (ps_stack p)"]
  by (simp_all add: erased_def)

lemma grown_kept:
  assumes "grown p q"
  shows "es_entities (ps_stack q) = es_entities (ps_stack p)" "es_limits (ps_stack q) = es_limits (ps_stack p)"
    "ps_config q = ps_config p" "ps_space_name q = ps_space_name p" "ps_lang_name q = ps_lang_name p"
    "ps_base_name q = ps_base_name p" "ps_id_name q = ps_id_name p" "ps_scope q = ps_scope p" "ps_open q = ps_open p"
    "ps_phase q = ps_phase p" "ps_dtd q = ps_dtd p" "ps_expanding q = ps_expanding p"
    "ps_standalone q = ps_standalone p" "ps_attributes q = ps_attributes p"
proof -
  from assms have e: "erased q = erased p" by (simp add: grown_def)
  show "es_entities (ps_stack q) = es_entities (ps_stack p)" "es_limits (ps_stack q) = es_limits (ps_stack p)"
    using erased_stack [OF e] .
qed (rule erased_field [OF conjunct2 [OF conjunct2 [OF assms [unfolded grown_def]]]]; simp)+

lemma intern_name_does:
  assumes "pool_wf (ps_pool p)" "\<And>e. R (Err e)"
  shows "does (intern_name n) p R (\<lambda>h q. grown p q \<and> resolve (ps_pool q) h = Some n)"
proof (cases "intern (ps_pool p) n")
  case (Inr x)
  obtain h pool where x: "x = (h, pool)" by (cases x)
  note g = intern_grows [OF assms(1) Inr [unfolded x]]
  have "grown p (p\<lparr>ps_pool := pool\<rparr>)"
    using g by (simp add: grown_def erased_def)
  with Inr x g show ?thesis by (simp add: does_def intern_name_def)
qed (use assms in \<open>simp add: does_def intern_name_def\<close>)

lemma intern_option_does:
  assumes "pool_wf (ps_pool p)" "\<And>e. R (Err e)"
  shows "does (intern_option n) p R (\<lambda>h q. grown p q \<and> knows_option (ps_pool q) h \<and> map_option (named (ps_pool q)) h = n)"
proof (cases n)
  case (Some a)
  have "does (intern_name a) p R (\<lambda>h q. grown p q \<and> knows (ps_pool q) h \<and> named (ps_pool q) h = a)"
    using intern_name_does [of p R a] assms by (auto simp: resolve_knows resolve_named elim!: does_weaken)
  then show ?thesis by (simp add: Some intern_option_def does_simps)
qed (use assms in \<open>simp add: intern_option_def does_simps\<close>)

lemma resolve_name_does [does_simps]:
  "does (resolve_name h) p R Q = (case resolve (ps_pool p) h of None \<Rightarrow> R Panic | Some n \<Rightarrow> Q n p)"
  by (simp add: resolve_name_def does_simps resolve_own_eq)

lemma count_expansion_does:
  assumes "pool_wf (ps_pool p)" "\<And>e. R (Err e)"
  shows "does (on_stack (count_expansion n)) p R (\<lambda>_ q. grown p q)"
proof (cases "count_expansion n (ps_stack p)")
  case (Pair r s)
  show ?thesis
  proof (cases r)
    case (Inr u)
    then have "s = (ps_stack p)\<lparr>es_expansions := saturating_add u32_max (es_expansions (ps_stack p)) 1,
            es_expansion_chars := saturating_add u64_max (es_expansion_chars (ps_stack p)) n\<rparr>"
      using Pair by (simp add: count_expansion_Inr)
    with Pair Inr assms(1) show ?thesis
      by (simp add: does_def on_stack_def grown_def erased_def)
  qed (use Pair assms in \<open>simp add: does_def on_stack_def\<close>)
qed

section \<open>Attribute values\<close>

text \<open>How a step may stop: not with a panic, and the model's own bound only where it is below the limit.\<close>

definition calm :: "entity_limits \<Rightarrow> nat \<Rightarrow> stop \<Rightarrow> bool" where
  "calm l n e \<longleftrightarrow> e \<noteq> Panic \<and> e \<noteq> Unfinished \<and> (\<forall>m. max_depth l = Some m \<longrightarrow> m \<le> n \<longrightarrow> e \<noteq> NestedTooDeep)"

lemma calm_Err [simp]: "calm l n (Err e)"
  by (simp add: calm_def)

lemma character_or_predefined_char:
  "character_or_predefined body = Inr (Some c) \<Longrightarrow> is_char c"
  by (auto simp: character_or_predefined_def character_reference_def Let_def is_char_def
      split: if_splits option.splits)

lemma normalize_literal_chars: "list_all is_char s \<Longrightarrow> list_all is_char (normalize_literal s)"
  by (auto simp: normalize_literal_def list_all_iff is_char_def)

lemma general_entity_chars:
  "general_entity_of p h = Some (GInternal v) \<Longrightarrow> (\<And>d. ps_dtd p = Some d \<Longrightarrow> dtd_chars d) \<Longrightarrow> list_all is_char v"
  by (auto simp: general_entity_of_def dtd_chars_def split: option.splits)

lemma erased_expanding: "erased (p\<lparr>ps_expanding := e\<rparr>) = (erased p)\<lparr>ps_expanding := e\<rparr>"
  by (cases p) (simp add: erased_def)

lemma expand_general_does:
  assumes inner: "\<And>q v. pool_wf (ps_pool q) \<Longrightarrow> ps_dtd q = D \<Longrightarrow> es_limits (ps_stack q) = l \<Longrightarrow>
      length (ps_expanding q) = Suc k \<Longrightarrow> (\<And>m. max_depth l = Some m \<Longrightarrow> k < m) \<Longrightarrow> list_all is_char v \<Longrightarrow>
      does (inner v) q (calm l N) (\<lambda>r q'. grown q q' \<and> list_all is_char r)"
    and D: "\<And>d. D = Some d \<Longrightarrow> dtd_chars d"
    and p: "pool_wf (ps_pool p)" "ps_dtd p = D" "es_limits (ps_stack p) = l" "length (ps_expanding p) = k"
  shows "does (expand_general inner name) p (calm l N) (\<lambda>r q. grown p q \<and> list_all is_char r)"
  unfolding expand_general_def
proof (rule does_then [OF intern_name_does [OF p(1)]], simp, elim conjE)
  fix h q assume q: "grown p q"
  note f = grown_kept [OF q] and w = grownD [OF q]
  show "does (reading (\<lambda>p. if ps_standalone p = Some True \<and> declared_externally p h then malformed_document
      else case general_entity_of p h of
        Some (GInternal value) \<Rightarrow>
          if h \<in> set (ps_expanding p) then malformed_document
          else if (case max_depth (es_limits (ps_stack p)) of
                     None \<Rightarrow> False | Some m \<Rightarrow> m \<le> length (ps_expanding p)) then fail (Err Limit)
          else
            and_then (on_stack (count_expansion (length value))) (\<lambda>_ p.
              case inner value (p\<lparr>ps_expanding := ps_expanding p @ [h]\<rparr>) of
                (r, p') \<Rightarrow> (r, p'\<lparr>ps_expanding := butlast (ps_expanding p')\<rparr>))
      | _ \<Rightarrow> malformed_document)) q (calm l N) (\<lambda>r q. grown p q \<and> list_all is_char r)"
  proof (cases "general_entity_of q h")
    case (Some e)
    show ?thesis
    proof (cases e)
      case (GInternal v)
      show ?thesis
      proof (cases "case max_depth l of None \<Rightarrow> False | Some m \<Rightarrow> m \<le> k")
        case False
        then have m: "\<And>m. max_depth l = Some m \<Longrightarrow> k < m" by (auto split: option.splits)
        have v: "list_all is_char v" using general_entity_chars [of q h v] Some GInternal D f p by simp
        have "does (and_then (on_stack (count_expansion (length v))) (\<lambda>_ p.
              case inner v (p\<lparr>ps_expanding := ps_expanding p @ [h]\<rparr>) of
                (r, p') \<Rightarrow> (r, p'\<lparr>ps_expanding := butlast (ps_expanding p')\<rparr>))) q (calm l N)
              (\<lambda>r q. grown p q \<and> list_all is_char r)"
        proof (rule does_then [OF count_expansion_does [OF w(1)]], simp)
          fix q1 assume q1: "grown q q1"
          note f1 = grown_kept [OF q1] and w1 = grownD [OF q1]
          let ?q = "q1\<lparr>ps_expanding := ps_expanding q1 @ [h]\<rparr>"
          have i: "does (inner v) ?q (calm l N) (\<lambda>r q'. grown ?q q' \<and> list_all is_char r)"
            using f f1 w1 p m v by (intro inner) auto
          have restored: "grown p (q2\<lparr>ps_expanding := butlast (ps_expanding q2)\<rparr>)" if "grown ?q q2" for q2
          proof -
            have "ps_expanding q2 = ps_expanding q1 @ [h]" using grown_kept [OF that] by simp
            moreover have "erased (q2\<lparr>ps_expanding := ps_expanding q1\<rparr>) = erased q1"
              using that by (simp add: grown_def erased_expanding) (simp add: erased_def)
            ultimately have "grown q1 (q2\<lparr>ps_expanding := butlast (ps_expanding q2)\<rparr>)"
              using that by (simp add: grown_def)
            then show ?thesis using grown_trans [OF grown_trans [OF q q1]] by blast
          qed
          show "does (\<lambda>p. case inner v (p\<lparr>ps_expanding := ps_expanding p @ [h]\<rparr>) of
                (r, p') \<Rightarrow> (r, p'\<lparr>ps_expanding := butlast (ps_expanding p')\<rparr>)) q1 (calm l N)
              (\<lambda>r q. grown p q \<and> list_all is_char r)"
            using i restored by (auto simp: does_def split: prod.splits sum.splits)
        qed
        with False Some GInternal f p show ?thesis by (simp add: does_simps)
      qed (use Some GInternal f p in \<open>auto simp: does_simps split: option.splits\<close>)
    qed (use Some in \<open>simp_all add: does_simps\<close>)
  qed (simp add: does_simps)
qed

lemma split_once_chars:
  "split_once d s = Some (a, b) \<Longrightarrow> list_all P s \<Longrightarrow> list_all P a \<and> list_all P b"
  by (auto simp: split_once_Some)

lemma expand_text_does:
  assumes inner: "\<And>q v. pool_wf (ps_pool q) \<Longrightarrow> ps_dtd q = D \<Longrightarrow> es_limits (ps_stack q) = l \<Longrightarrow>
      length (ps_expanding q) = Suc k \<Longrightarrow> (\<And>m. max_depth l = Some m \<Longrightarrow> k < m) \<Longrightarrow> list_all is_char v \<Longrightarrow>
      does (inner v) q (calm l N) (\<lambda>r q'. grown q q' \<and> list_all is_char r)"
    and D: "\<And>d. D = Some d \<Longrightarrow> dtd_chars d"
  shows "pool_wf (ps_pool p) \<Longrightarrow> ps_dtd p = D \<Longrightarrow> es_limits (ps_stack p) = l \<Longrightarrow> length (ps_expanding p) = k \<Longrightarrow>
    list_all is_char s \<Longrightarrow> does (expand_text inner s) p (calm l N) (\<lambda>r q. grown p q \<and> list_all is_char r)"
proof (induction "length s" arbitrary: s p rule: less_induct)
  case less
  define plain where "plain = takeWhile (\<lambda>c. c \<noteq> AMP \<and> c \<noteq> LT) s"
  have s: "s = plain @ drop (length plain) s"
    by (simp add: plain_def flip: dropWhile_eq_drop)
  have plain: "list_all is_char (normalize_literal plain)"
    using less.prems(5) s by (metis list_all_append normalize_literal_chars)
  note run = expand_text.simps [of inner s, folded plain_def, unfolded Let_def]
  show ?case
  proof (cases "drop (length plain) s")
    case Nil
    with plain less.prems show ?thesis by (simp add: run does_simps)
  next
    case (Cons c rest)
    show ?thesis
    proof (cases "c = LT")
      case False
      show ?thesis
      proof (cases "split_once SEMI rest")
        case None
        with Cons False show ?thesis by (simp add: run does_simps)
      next
        case (Some x)
        obtain body tail where x: "x = (body, tail)" by (cases x)
        have "list_all is_char rest" using less.prems(5) s Cons by (metis list_all_append list.pred_inject(2))
        then have chars: "list_all is_char tail" using split_once_chars [OF Some [unfolded x]] by simp
        have short: "length tail < length s" using after_reference_shorter [OF Cons Some [unfolded x]] .
        have "does (expand_reference inner body) p (calm l N) (\<lambda>r q. grown p q \<and> list_all is_char r)"
        proof (cases "character_or_predefined body")
          case (Inr y)
          have "does (expand_general inner body) p (calm l N) (\<lambda>r q. grown p q \<and> list_all is_char r)"
            by (rule expand_general_does [OF _ D less.prems(1-4)]) (rule inner)
          moreover have "y = Some d \<Longrightarrow> is_char d" for d
            using character_or_predefined_char Inr by blast
          ultimately show ?thesis
            using Inr less.prems(1) by (cases y) (simp_all add: expand_reference_def does_simps)
        qed (simp add: expand_reference_def does_simps)
        then have "does (and_then (expand_reference inner body) (\<lambda>x.
            and_then (expand_text inner tail) (\<lambda>y. ok (normalize_literal plain @ x @ y)))) p (calm l N)
            (\<lambda>r q. grown p q \<and> list_all is_char r)"
        proof (rule does_then)
          fix r q assume q: "grown p q \<and> list_all is_char r"
          note f = grown_kept [OF conjunct1 [OF q]] and w = grownD [OF conjunct1 [OF q]]
          have "does (expand_text inner tail) q (calm l N) (\<lambda>r q'. grown q q' \<and> list_all is_char r)"
            using less.prems f w chars short by (intro less.hyps) auto
          then show "does (and_then (expand_text inner tail) (\<lambda>y. ok (normalize_literal plain @ r @ y))) q (calm l N)
              (\<lambda>r q. grown p q \<and> list_all is_char r)"
            using q plain by (auto simp: does_simps elim!: does_weaken intro: grown_trans)
        qed
        with Cons False Some x show ?thesis by (simp add: run)
      qed
    qed (use Cons in \<open>simp add: run does_simps\<close>)
  qed
qed

lemma expand_at_does:
  assumes "\<And>d. D = Some d \<Longrightarrow> dtd_chars d"
  shows "pool_wf (ps_pool p) \<Longrightarrow> ps_dtd p = D \<Longrightarrow> es_limits (ps_stack p) = l \<Longrightarrow> length (ps_expanding p) = k \<Longrightarrow>
    list_all is_char s \<Longrightarrow> does (expand_at n s) p (calm l (n + k)) (\<lambda>r q. grown p q \<and> list_all is_char r)"
proof (induction n arbitrary: s p k)
  case 0
  show ?case
    unfolding expand_at.simps
  proof (rule expand_text_does [OF _ assms "0.prems"])
    fix q v assume "\<And>m. max_depth l = Some m \<Longrightarrow> k < m"
    then show "does (fail NestedTooDeep) q (calm l (0 + k)) (\<lambda>r q'. grown q q' \<and> list_all is_char r)"
      by (force simp: does_simps calm_def)
  qed
next
  case (Suc n)
  show ?case
    unfolding expand_at.simps
  proof (rule expand_text_does [OF _ assms Suc.prems], goal_cases)
    case (1 q v)
    then show ?case using Suc.IH [of q "Suc k" v] by simp
  qed
qed

end
