(* ===== verification/Tag_Steps.thy ===== *)
theory Tag_Steps
  imports Parser_Calm
begin

text \<open>
  What a start tag does to the state of the parser: the attributes it collects, the bindings it declares
  and the element it opens, seen through the pool as the attributes and names of an event. The lemmas end
  in the statement that the start-element event of a tag satisfies every condition of the event grammar
  that is not lexical.
\<close>

section \<open>Attributes as an event shows them\<close>

definition attribute_of :: "name_pool \<Rightarrow> parsed_attribute \<Rightarrow> attribute" where
  "attribute_of pool a =
     \<lparr>at_prefix = map_option (named pool) (qn_prefix (pa_name a)), at_local = named pool (qn_local (pa_name a)),
      at_namespace = map_option (named pool) (en_namespace (qn_expanded (pa_name a))), at_value = pa_value a\<rparr>"

definition qname_known :: "name_pool \<Rightarrow> qname \<Rightarrow> bool" where
  "qname_known pool q \<longleftrightarrow>
     knows_option pool (qn_prefix q) \<and> knows pool (qn_local q) \<and> knows_option pool (en_namespace (qn_expanded q))"

definition att_fine :: "name_pool \<Rightarrow> parsed_attribute \<Rightarrow> bool" where
  "att_fine pool a \<longleftrightarrow> qname_known pool (pa_name a) \<and> list_all is_char (pa_value a) \<and>
     pa_declares a = declares_namespace (attribute_of pool a)"

lemma qname_new_simps [simp]:
  "qn_prefix (qname_new p n l) = p" "qn_local (qname_new p n l) = l" "en_namespace (qn_expanded (qname_new p n l)) = n"
  by (simp_all add: qname_new_def)

lemma qname_known_le: "pool_le a b \<Longrightarrow> qname_known a q \<Longrightarrow> qname_known b q"
  by (auto simp: qname_known_def intro: pool_le_knows pool_le_option)

lemma attribute_of_le: "pool_le a b \<Longrightarrow> qname_known a (pa_name x) \<Longrightarrow> attribute_of b x = attribute_of a x"
  by (simp add: attribute_of_def qname_known_def pool_le_named pool_le_named_option)

lemma att_fine_le: "pool_le a b \<Longrightarrow> att_fine a x \<Longrightarrow> att_fine b x"
  by (simp add: att_fine_def attribute_of_le qname_known_le)

lemma att_fine_all_le: "pool_le a b \<Longrightarrow> list_all (att_fine a) xs \<Longrightarrow> list_all (att_fine b) xs"
  by (erule list.pred_mono_strong) (rule att_fine_le)

lemma attribute_event_known: "qname_known pool (pa_name a) \<Longrightarrow> attribute_event pool a = Some (attribute_of pool a)"
  by (cases "qn_prefix (pa_name a)"; cases "en_namespace (qn_expanded (pa_name a))")
     (simp_all add: attribute_event_def attribute_of_def qname_known_def resolve_optional_def
       resolve_own_eq knows_named)

section \<open>Steps inside a tag\<close>

definition erased_tag :: "('d, 'a) parser \<Rightarrow> ('d, 'a) parser" where
  "erased_tag p = (erased p)\<lparr>ps_scope := [], ps_attributes := []\<rparr>"

definition begun :: "('d, 'a) parser \<Rightarrow> ('d, 'a) parser \<Rightarrow> bool" where
  "begun p q \<longleftrightarrow> pool_wf (ps_pool q) \<and> pool_le (ps_pool p) (ps_pool q) \<and> erased_tag q = erased_tag p"

lemma begun_refl [simp]: "pool_wf (ps_pool p) \<Longrightarrow> begun p p"
  by (simp add: begun_def)

lemma begun_trans: "begun p q \<Longrightarrow> begun q r \<Longrightarrow> begun p r"
  unfolding begun_def by (auto intro: pool_le_trans)

lemma grown_begun: "grown p q \<Longrightarrow> begun p q"
  by (simp add: begun_def grown_def erased_tag_def)

lemma begunD:
  assumes "begun p q"
  shows "pool_wf (ps_pool q)" "pool_le (ps_pool p) (ps_pool q)"
  using assms by (simp_all add: begun_def)

lemma erased_tag_attributes [simp]: "erased_tag (p\<lparr>ps_attributes := as\<rparr>) = erased_tag p"
  by (cases p) (simp add: erased_tag_def erased_def)

lemma erased_tag_scope [simp]: "erased_tag (p\<lparr>ps_scope := bs\<rparr>) = erased_tag p"
  by (cases p) (simp add: erased_tag_def erased_def)

lemma begun_attributes: "begun p q \<Longrightarrow> begun p (q\<lparr>ps_attributes := as\<rparr>)"
  by (simp add: begun_def)

lemma begun_scope: "begun p q \<Longrightarrow> begun p (q\<lparr>ps_scope := bs\<rparr>)"
  by (simp add: begun_def)

lemma erased_tag_field:
  assumes "erased_tag q = erased_tag p"
    "\<And>pool s bs as p. f (p\<lparr>ps_pool := pool, ps_stack := s, ps_scope := bs, ps_attributes := as\<rparr>) = f p"
  shows "f q = f p"
  using arg_cong [OF assms(1), of f] unfolding erased_tag_def erased_def assms(2) .

lemma erased_tag_stack:
  assumes "erased_tag q = erased_tag p"
  shows "es_entities (ps_stack q) = es_entities (ps_stack p)" "es_limits (ps_stack q) = es_limits (ps_stack p)"
  using arg_cong [OF assms, of "\<lambda>p. es_entities (ps_stack p)"] arg_cong [OF assms, of "\<lambda>p. es_limits (ps_stack p)"]
  by (simp_all add: erased_tag_def erased_def)

lemma begun_fields:
  assumes "begun p q"
  shows "es_entities (ps_stack q) = es_entities (ps_stack p)" "es_limits (ps_stack q) = es_limits (ps_stack p)"
    "ps_config q = ps_config p" "ps_space_name q = ps_space_name p" "ps_lang_name q = ps_lang_name p"
    "ps_base_name q = ps_base_name p" "ps_id_name q = ps_id_name p" "ps_open q = ps_open p"
    "ps_phase q = ps_phase p" "ps_dtd q = ps_dtd p" "ps_expanding q = ps_expanding p"
    "ps_standalone q = ps_standalone p"
proof -
  from assms have e: "erased_tag q = erased_tag p" by (simp add: begun_def)
  show "es_entities (ps_stack q) = es_entities (ps_stack p)" "es_limits (ps_stack q) = es_limits (ps_stack p)"
    using erased_tag_stack [OF e] .
qed (rule erased_tag_field [OF conjunct2 [OF conjunct2 [OF assms [unfolded begun_def]]]]; simp)+

section \<open>Collecting the attributes\<close>

text \<open>What holds while the attributes of a tag are collected.\<close>

definition collecting :: "('d, 'a) parser \<Rightarrow> ('d, 'a) parser \<Rightarrow> bool" where
  "collecting p q \<longleftrightarrow> begun p q \<and> ps_scope q = ps_scope p \<and> list_all (att_fine (ps_pool q)) (ps_attributes q)"

lemma collecting_grown: "collecting p q \<Longrightarrow> grown q r \<Longrightarrow> collecting p r"
  by (auto simp: collecting_def grown_kept dest: grownD intro: begun_trans grown_begun att_fine_all_le)

lemma collecting_trans: "collecting p q \<Longrightarrow> collecting q r \<Longrightarrow> collecting p r"
  by (auto simp: collecting_def intro: begun_trans)

lemma room_for_attribute_does: "does room_for_attribute p (calm l n) (\<lambda>_ q. q = p)"
  by (auto simp: room_for_attribute_def does_simps split: option.splits)

lemma push_attribute_does:
  assumes "pool_wf (ps_pool p)" "list_all (att_fine (ps_pool p)) (ps_attributes p)" "list_all is_char value"
  shows "does (push_attribute_of prefix local value) p (calm l n) (\<lambda>_ q. collecting p q)"
  unfolding push_attribute_of_def
proof (rule does_then [OF intern_option_does], goal_cases)
  case (3 ph q)
  show ?case
  proof (rule does_then [OF intern_name_does], goal_cases)
    case 1
    show ?case using 3 by (simp add: grown_def)
  next
    case (3 lh r)
    note q = \<open>grown p q \<and> knows_option (ps_pool q) ph \<and> map_option (named (ps_pool q)) ph = prefix\<close>
    have g: "grown p r" using q 3 grown_trans by blast
    have ph: "knows_option (ps_pool r) ph" "map_option (named (ps_pool r)) ph = prefix"
      using q 3 by (auto dest: grownD simp: pool_le_option pool_le_named_option)
    let ?a = "\<lparr>pa_name = qname_new ph None lh, pa_value = value, pa_declares = is_declaration prefix local\<rparr>"
    have "att_fine (ps_pool r) ?a"
      using 3 ph assms(3) by (auto simp: att_fine_def qname_known_def attribute_of_def declares_namespace_def resolve_knows resolve_named)
    then show ?case
      using g assms(2) att_fine_all_le [OF grownD(2) [OF g]]
      by (simp add: does_simps collecting_def grown_kept grown_begun begun_attributes)
  qed simp
qed (use assms in simp_all)

lemma split_once_all: "split_once d s = Some (a, b) \<Longrightarrow> list_all P s \<Longrightarrow> list_all P a \<and> list_all P b"
  by (auto simp: split_once_Some)

lemma trim_start_all: "list_all P s \<Longrightarrow> list_all P (trim_start s)"
  by (auto simp: trim_start_def list_all_iff dest: set_dropWhileD)

lemma attribute_parts_all:
  assumes "attribute_parts s = Inr (name, raw, tail)" "list_all P s"
  shows "list_all P raw" "list_all P tail"
proof -
  define n where "n = length (takeWhile (\<lambda>c. c \<noteq> cp CHR ''='' \<and> \<not> is_whitespace c) s)"
  obtain e r quote body where p: "trim_start (drop n s) = e # r" "trim_start r = quote # body"
      "split_once quote body = Some (raw, tail)"
    using assms(1) [unfolded attribute_parts_def Let_def, folded n_def]
    by (auto split: list.splits if_splits option.splits)
  have "list_all P (drop n s)" using assms(2) by (auto simp: list_all_iff dest: in_set_dropD)
  then have "list_all P r" using trim_start_all [of P "drop n s"] p(1) by simp
  then have "list_all P body" using trim_start_all [of P r] p(2) by simp
  then show "list_all P raw" "list_all P tail" using split_once_all [OF p(3)] by blast+
qed

lemma parse_attributes_into_does:
  assumes D: "\<And>d. D = Some d \<Longrightarrow> dtd_chars d"
  shows "pool_wf (ps_pool p) \<Longrightarrow> ps_dtd p = D \<Longrightarrow> es_limits (ps_stack p) = l \<Longrightarrow> ps_expanding p = [] \<Longrightarrow>
    list_all (att_fine (ps_pool p)) (ps_attributes p) \<Longrightarrow> list_all is_char rest \<Longrightarrow>
    does (parse_attributes_into E rest) p (calm l (env_nesting E)) (\<lambda>_ q. collecting p q)"
proof (induction "length rest" arbitrary: rest p rule: less_induct)
  case less
  note run = parse_attributes_into.simps [of E rest, unfolded Let_def]
  show ?case
  proof (cases "trim_start rest = [] \<or> trim_start rest = rest")
    case True
    with less.prems show ?thesis by (auto simp: run does_simps collecting_def)
  next
    case False
    have "does (and_then room_for_attribute (\<lambda>_.
        case attribute_parts (trim_start rest) of
          Inl e \<Rightarrow> fail (Err e)
        | Inr (name, raw, tail) \<Rightarrow>
            (case split_name name of (prefix, local) \<Rightarrow>
               and_then (expand_at (env_nesting E) raw) (\<lambda>value.
               and_then (push_attribute_of prefix local value) (\<lambda>_.
               parse_attributes_into E tail))))) p (calm l (env_nesting E)) (\<lambda>_ q. collecting p q)"
    proof (rule does_then [OF room_for_attribute_does], clarify)
      show "does (case attribute_parts (trim_start rest) of
          Inl e \<Rightarrow> fail (Err e)
        | Inr (name, raw, tail) \<Rightarrow>
            (case split_name name of (prefix, local) \<Rightarrow>
               and_then (expand_at (env_nesting E) raw) (\<lambda>value.
               and_then (push_attribute_of prefix local value) (\<lambda>_.
               parse_attributes_into E tail)))) p (calm l (env_nesting E)) (\<lambda>_ q. collecting p q)"
      proof (cases "attribute_parts (trim_start rest)")
        case (Inr x)
        obtain name raw tail where x: "x = (name, raw, tail)" by (cases x)
        obtain prefix local where sn: "split_name name = (prefix, local)" by (cases "split_name name")
        have short: "length tail < length rest"
          using attribute_parts_tail [OF Inr [unfolded x]] trim_start_length [of rest] by simp
        have chars: "list_all is_char raw" "list_all is_char tail"
          using attribute_parts_all [OF Inr [unfolded x]] trim_start_all less.prems(6) by blast+
        have expand: "does (expand_at (env_nesting E) raw) p (calm l (env_nesting E)) (\<lambda>r q. grown p q \<and> list_all is_char r)"
          using expand_at_does [OF D less.prems(1-3), of 0 raw "env_nesting E"] less.prems(4) chars(1) by simp
        have "does (and_then (expand_at (env_nesting E) raw) (\<lambda>value.
               and_then (push_attribute_of prefix local value) (\<lambda>_.
               parse_attributes_into E tail))) p (calm l (env_nesting E)) (\<lambda>_ q. collecting p q)"
        proof (rule does_then [OF expand])
          fix v q assume "grown p q \<and> list_all is_char v"
          then have q: "grown p q" and v: "list_all is_char v" by simp_all
          note f = grown_kept [OF q] and w = grownD [OF q]
          have as: "list_all (att_fine (ps_pool q)) (ps_attributes q)"
            using less.prems(5) f(14) att_fine_all_le [OF w(2)] by simp
          show "does (and_then (push_attribute_of prefix local v) (\<lambda>_. parse_attributes_into E tail)) q
              (calm l (env_nesting E)) (\<lambda>_ q. collecting p q)"
          proof (rule does_then [OF push_attribute_does [OF w(1) as v]])
            fix r assume c: "collecting q r"
            then have r: "begun q r" "list_all (att_fine (ps_pool r)) (ps_attributes r)" by (simp_all add: collecting_def)
            note fr = begun_fields [OF r(1)] and wr = begunD [OF r(1)]
            have "does (parse_attributes_into E tail) r (calm l (env_nesting E)) (\<lambda>_ q. collecting r q)"
              using less.prems f fr wr r(2) chars short by (intro less.hyps) auto
            moreover have "collecting p r"
              using c q f by (auto simp: collecting_def intro: begun_trans grown_begun)
            ultimately show "does (parse_attributes_into E tail) r (calm l (env_nesting E)) (\<lambda>_ q. collecting p q)"
              by (auto elim!: does_weaken intro: collecting_trans)
          qed
        qed
        with Inr x sn show ?thesis by simp
      qed (simp add: does_simps)
    qed
    with False show ?thesis by (simp add: run)
  qed
qed

lemma parse_attributes_does:
  assumes "pool_wf (ps_pool p)" "\<And>d. ps_dtd p = Some d \<Longrightarrow> dtd_chars d" "ps_expanding p = []" "list_all is_char rest"
    "es_limits (ps_stack p) = l"
  shows "does (parse_attributes E rest) p (calm l (env_nesting E)) (\<lambda>_ q. collecting p q)"
proof -
  let ?p = "p\<lparr>ps_attributes := []\<rparr>"
  have "does (parse_attributes_into E rest) ?p (calm l (env_nesting E)) (\<lambda>_ q. collecting ?p q)"
    by (rule parse_attributes_into_does [of "ps_dtd p"]) (use assms in auto)
  moreover have "collecting ?p q \<Longrightarrow> collecting p q" for q by (auto simp: collecting_def begun_def)
  ultimately show ?thesis by (auto simp: parse_attributes_def does_simps elim!: does_weaken)
qed

lemma present_names_does:
  "pool_wf (ps_pool p) \<Longrightarrow> list_all (att_fine (ps_pool p)) as \<Longrightarrow>
   does (present_names as) p (calm l n) (\<lambda>hs q. grown p q \<and> length hs = length as)"
proof (induction as arbitrary: p)
  case (Cons a as)
  have "to_lexical (pa_name a) (ps_pool p) \<noteq> None"
    using Cons.prems(2) by (auto simp: att_fine_def qname_known_def to_lexical_def knows_def knows_option_def split: option.splits)
  then obtain name where name: "to_lexical (pa_name a) (ps_pool p) = Some name" by blast
  have "does (and_then (intern_name name) (\<lambda>h. and_then (present_names as) (\<lambda>hs. ok (h # hs)))) p (calm l n)
      (\<lambda>hs q. grown p q \<and> length hs = length (a # as))"
  proof (rule does_then [OF intern_name_does [OF Cons.prems(1)]])
    fix h q assume "grown p q \<and> resolve (ps_pool q) h = Some name"
    then have q: "grown p q" by simp
    have "does (present_names as) q (calm l n) (\<lambda>hs q'. grown q q' \<and> length hs = length as)"
      using Cons.IH [OF grownD(1) [OF q]] att_fine_all_le [OF grownD(2) [OF q]] Cons.prems(2) by simp
    then show "does (and_then (present_names as) (\<lambda>hs. ok (h # hs))) q (calm l n)
        (\<lambda>hs q. grown p q \<and> length hs = length (a # as))"
      using grown_trans [OF q] by (auto simp: does_simps elim!: does_weaken)
  qed simp
  then show ?case by (simp add: does_simps name)
qed (simp add: does_simps)

lemma collapse_tokenized_fine: "att_fine pool a \<Longrightarrow> att_fine pool (collapse_tokenized ts (h, a))"
  by (auto simp: collapse_tokenized_def att_fine_def attribute_of_def declares_namespace_def normalize_tokenized_chars)

lemma collapse_all_fine:
  "list_all (att_fine pool) as \<Longrightarrow> list_all (att_fine pool) (map (collapse_tokenized ts) (zip hs as))"
  by (auto simp: list_all_iff dest: set_zip_rightD intro: collapse_tokenized_fine)

text \<open>One default, while the attributes of the tag are collected.\<close>

lemma supply_default_does:
  assumes "pool_wf (ps_pool p)" "\<And>d. ps_dtd p = Some d \<Longrightarrow> dtd_chars d" "ps_expanding p = []" "es_limits (ps_stack p) = l"
    "list_all (att_fine (ps_pool p)) (ps_attributes p)" "knows (ps_pool p) (ad_name df)"
    "\<And>v. default_value (ad_default df) = Some v \<Longrightarrow> list_all is_char v"
  shows "does (supply_default E element present df) p (calm l (env_nesting E)) (\<lambda>_ q. collecting p q)"
proof (cases "default_value (ad_default df)")
  case (Some dv)
  have chars: "list_all is_char dv" using assms(7) Some .
  have c: "collecting p p" using assms by (simp add: collecting_def)
  obtain name where name: "resolve (ps_pool p) (ad_name df) = Some name" using assms(6) by (auto simp: knows_def)
  let ?expanded = "if AMP \<in> set dv then and_then (expand_at (env_nesting E) dv)
                     (\<lambda>x. ok (normalize_tokenized x (is_tokenized (ad_type df)))) else ok dv"
  have val: "does ?expanded p (calm l (env_nesting E)) (\<lambda>v q. grown p q \<and> list_all is_char v)"
    using expand_at_does [where D = "ps_dtd p" and l = l and k = 0 and p = p and s = dv and n = "env_nesting E"] assms chars
    by (auto simp: does_simps normalize_tokenized_chars elim!: does_weaken)
  have "does (and_then ?expanded (\<lambda>value.
      and_then room_for_attribute (\<lambda>_.
      and_then (resolve_name (ad_name df)) (\<lambda>n.
      case split_qname n of
        None \<Rightarrow> malformed_document
      | Some (prefix, local) \<Rightarrow> push_attribute_of prefix local value)))) p (calm l (env_nesting E)) (\<lambda>_ q. collecting p q)"
  proof (rule does_then [OF val])
    fix v q assume v: "grown p q \<and> list_all is_char v"
    then have q: "grown p q" by simp
    have "collecting p q" using collecting_grown [OF c q] .
    then have as: "list_all (att_fine (ps_pool q)) (ps_attributes q)" by (simp add: collecting_def)
    have n: "resolve (ps_pool q) (ad_name df) = Some name" using name grownD(2) [OF q] by (simp add: pool_le_def)
    have "does (push_attribute_of prefix local v) q (calm l (env_nesting E)) (\<lambda>_ q. collecting p q)" for prefix local
      by (rule does_post [OF push_attribute_does [OF grownD(1) [OF q] as]])
        (use v collecting_trans [OF \<open>collecting p q\<close>] in auto)
    then show "does (and_then room_for_attribute (\<lambda>_.
      and_then (resolve_name (ad_name df)) (\<lambda>n.
      case split_qname n of
        None \<Rightarrow> malformed_document
      | Some (prefix, local) \<Rightarrow> push_attribute_of prefix local v))) q (calm l (env_nesting E)) (\<lambda>_ q. collecting p q)"
      using n by (intro does_then [OF room_for_attribute_does]) (auto simp: does_simps split: option.splits)
  qed
  then show ?thesis
    using c name by (auto simp: supply_default_def Some does_simps)
qed (use assms in \<open>simp add: supply_default_def does_simps collecting_def\<close>)

lemma supply_defaults_does:
  "pool_wf (ps_pool p) \<Longrightarrow> (\<And>d. ps_dtd p = Some d \<Longrightarrow> dtd_chars d) \<Longrightarrow> ps_expanding p = [] \<Longrightarrow>
   es_limits (ps_stack p) = l \<Longrightarrow> list_all (att_fine (ps_pool p)) (ps_attributes p) \<Longrightarrow>
   (\<And>df. df \<in> set defs \<Longrightarrow> knows (ps_pool p) (ad_name df) \<and>
     (\<forall>v. default_value (ad_default df) = Some v \<longrightarrow> list_all is_char v)) \<Longrightarrow>
   does (each (supply_default E element present) defs) p (calm l (env_nesting E)) (\<lambda>_ q. collecting p q)"
proof (induction defs arbitrary: p)
  case (Cons df defs)
  have one: "does (supply_default E element present df) p (calm l (env_nesting E)) (\<lambda>_ q. collecting p q)"
    by (rule supply_default_does) (use Cons.prems in auto)
  show ?case
    unfolding each.simps
  proof (rule does_then [OF one])
    fix q assume c: "collecting p q"
    then have b: "begun p q" by (simp add: collecting_def)
    note f = begun_fields [OF b] and w = begunD [OF b]
    have "does (each (supply_default E element present) defs) q (calm l (env_nesting E)) (\<lambda>_ q'. collecting q q')"
      by (rule Cons.IH) (use Cons.prems c f w in \<open>auto simp: collecting_def intro: pool_le_knows\<close>)
    then show "does (each (supply_default E element present) defs) q (calm l (env_nesting E)) (\<lambda>_ q'. collecting p q')"
      by (rule does_post) (rule collecting_trans [OF c])
  qed
qed (simp add: does_simps collecting_def)

lemma apply_dtd_attributes_does:
  assumes "pool_wf (ps_pool p)" "\<And>d. ps_dtd p = Some d \<Longrightarrow> dtd_chars d \<and> dtd_names (ps_pool p) d" "ps_expanding p = []"
    "es_limits (ps_stack p) = l" "list_all (att_fine (ps_pool p)) (ps_attributes p)"
  shows "does (apply_dtd_attributes E element) p (calm l (env_nesting E)) (\<lambda>_ q. collecting p q)"
proof (cases "attlist_of p element")
  case (Some defs)
  then obtain d where d: "ps_dtd p = Some d" "d_attlists d element = Some defs"
    by (auto simp: attlist_of_def split: option.splits)
  have defs: "knows (ps_pool p) (ad_name df) \<and> (\<forall>v. default_value (ad_default df) = Some v \<longrightarrow> list_all is_char v)"
    if "df \<in> set defs" for df
    using assms(2) [OF d(1)] d(2) that by (auto simp: dtd_chars_def dtd_names_def)
  have "does (and_then (present_names (ps_attributes p)) (\<lambda>present.
         and_then (modify (\<lambda>p. p\<lparr>ps_attributes :=
             map (collapse_tokenized (map ad_name (filter (\<lambda>df. is_tokenized (ad_type df)) defs)))
               (zip present (ps_attributes p))\<rparr>)) (\<lambda>_.
         each (supply_default E element present) defs))) p (calm l (env_nesting E)) (\<lambda>_ q. collecting p q)"
  proof (rule does_then [OF present_names_does [OF assms(1,5)]])
    fix present :: "name_id list" and q assume "grown p q \<and> length present = length (ps_attributes p)"
    then have g: "grown p q" by simp
    let ?as = "map (collapse_tokenized (map ad_name (filter (\<lambda>df. is_tokenized (ad_type df)) defs)))
               (zip present (ps_attributes q))"
    note f = grown_kept [OF g] and w = grownD [OF g]
    have as: "list_all (att_fine (ps_pool q)) ?as"
      using att_fine_all_le [OF w(2) assms(5)] f(14) by (simp only:) (rule collapse_all_fine)
    have c: "collecting p (q\<lparr>ps_attributes := ?as\<rparr>)"
      using as f by (simp add: collecting_def begun_attributes grown_begun g)
    have "does (each (supply_default E element present) defs) (q\<lparr>ps_attributes := ?as\<rparr>) (calm l (env_nesting E))
        (\<lambda>_ r. collecting (q\<lparr>ps_attributes := ?as\<rparr>) r)"
    proof (rule supply_defaults_does)
      show "knows (ps_pool (q\<lparr>ps_attributes := ?as\<rparr>)) (ad_name df) \<and>
          (\<forall>v. default_value (ad_default df) = Some v \<longrightarrow> list_all is_char v)" if "df \<in> set defs" for df
        using defs [OF that] pool_le_knows [OF w(2)] by simp
    qed (use assms f w as in auto)
    then show "does (and_then (modify (\<lambda>p. p\<lparr>ps_attributes :=
             map (collapse_tokenized (map ad_name (filter (\<lambda>df. is_tokenized (ad_type df)) defs)))
               (zip present (ps_attributes p))\<rparr>)) (\<lambda>_.
         each (supply_default E element present) defs)) q (calm l (env_nesting E)) (\<lambda>_ q. collecting p q)"
      unfolding does_simps by (rule does_post) (rule collecting_trans [OF c])
  qed
  then show ?thesis by (simp add: apply_dtd_attributes_def does_simps Some)
qed (use assms in \<open>simp add: apply_dtd_attributes_def does_simps collecting_def\<close>)

section \<open>Declaring namespaces\<close>

definition binding_of :: "name_pool \<Rightarrow> binding \<Rightarrow> ustring option \<times> ustring option" where
  "binding_of pool b = (map_option (named pool) (fst b), map_option (named pool) (snd b))"

definition binding_known :: "name_pool \<Rightarrow> binding \<Rightarrow> bool" where
  "binding_known pool b \<longleftrightarrow> knows_option pool (fst b) \<and> knows_option pool (snd b)"

lemma binding_known_le: "pool_le a b \<Longrightarrow> binding_known a x \<Longrightarrow> binding_known b x"
  by (auto simp: binding_known_def intro: pool_le_option)

lemma bindings_known_le: "pool_le a b \<Longrightarrow> list_all (binding_known a) xs \<Longrightarrow> list_all (binding_known b) xs"
  by (erule list.pred_mono_strong) (rule binding_known_le)

lemma binding_of_le: "pool_le a b \<Longrightarrow> binding_known a x \<Longrightarrow> binding_of b x = binding_of a x"
  by (simp add: binding_known_def binding_of_def pool_le_named_option)

lemma bindings_of_le:
  "pool_le a b \<Longrightarrow> list_all (binding_known a) xs \<Longrightarrow> map (binding_of b) xs = map (binding_of a) xs"
  by (auto simp: list_all_iff intro: binding_of_le)

lemma refused_declaration_eq: "refused_declaration = bad_declaration"
  by (intro ext) (simp add: refused_declaration_def bad_declaration_def split: option.split)

definition declared_by :: "parsed_attribute list \<Rightarrow> ('d, 'a) parser \<Rightarrow> ('d, 'a) parser \<Rightarrow> bool" where
  "declared_by as p q \<longleftrightarrow> begun p q \<and> ps_attributes q = ps_attributes p \<and>
     (\<exists>bs. ps_scope q = ps_scope p @ bs \<and> list_all (binding_known (ps_pool q)) bs \<and>
        map (binding_of (ps_pool q)) bs = declarations (map (attribute_of (ps_pool p)) as)) \<and>
     (\<forall>a\<in>set as. pa_declares a \<longrightarrow> \<not> bad_declaration (declared_prefix (attribute_of (ps_pool p) a)) (pa_value a))"

lemma declare_namespace_does:
  assumes "pool_wf (ps_pool p)" "att_fine (ps_pool p) a"
  shows "does (declare_namespace a) p (calm l n) (\<lambda>_ q. declared_by [a] p q)"
proof (cases "pa_declares a")
  case False
  with assms show ?thesis
    by (simp add: declare_namespace_def does_simps declared_by_def declarations_def att_fine_def)
next
  case True
  define prefix where "prefix = (case qn_prefix (pa_name a) of None \<Rightarrow> None | Some _ \<Rightarrow> Some (qn_local (pa_name a)))"
  have k: "knows_option (ps_pool p) prefix"
    using assms(2) by (auto simp: prefix_def att_fine_def qname_known_def split: option.splits)
  have name: "map_option (named (ps_pool p)) prefix = declared_prefix (attribute_of (ps_pool p) a)"
    by (simp add: prefix_def declared_prefix_def attribute_of_def split: option.split)
  have dn: "declares_namespace (attribute_of (ps_pool p) a)" using True assms(2) by (simp add: att_fine_def)
  let ?ns = "if pa_value a = [] then None else Some (pa_value a)"
  have "does (if refused_declaration (map_option (named (ps_pool p)) prefix) (pa_value a) then fail (Err Namespace_Error)
      else and_then (intern_option ?ns) (\<lambda>namespace.
        modify (\<lambda>p. p\<lparr>ps_scope := scope_bind prefix namespace (ps_scope p)\<rparr>))) p (calm l n)
      (\<lambda>_ q. declared_by [a] p q)"
  proof (cases "refused_declaration (map_option (named (ps_pool p)) prefix) (pa_value a)")
    case False
    have "does (and_then (intern_option ?ns) (\<lambda>namespace.
        modify (\<lambda>p. p\<lparr>ps_scope := scope_bind prefix namespace (ps_scope p)\<rparr>))) p (calm l n)
      (\<lambda>_ q. declared_by [a] p q)"
    proof (rule does_then [OF intern_option_does [OF assms(1)]])
      fix h q assume h: "grown p q \<and> knows_option (ps_pool q) h \<and> map_option (named (ps_pool q)) h = ?ns"
      then have g: "grown p q" by simp
      have "binding_known (ps_pool q) (prefix, h)"
        using h pool_le_option [OF grownD(2) [OF g] k] by (simp add: binding_known_def)
      moreover have "binding_of (ps_pool q) (prefix, h) =
          (declared_prefix (attribute_of (ps_pool p) a), declared_namespace (attribute_of (ps_pool p) a))"
        using h pool_le_named_option [OF grownD(2) [OF g] k] name
        by (simp add: binding_of_def declared_namespace_def) (simp add: attribute_of_def)
      ultimately show "does (modify (\<lambda>p. p\<lparr>ps_scope := scope_bind prefix h (ps_scope p)\<rparr>)) q (calm l n)
          (\<lambda>_ q. declared_by [a] p q)"
        using g dn False grown_kept [OF g] name
        by (simp add: does_simps declared_by_def begun_scope grown_begun scope_bind_def declarations_def
            refused_declaration_eq)
    qed simp
    with False show ?thesis by simp
  qed (simp add: does_simps)
  moreover have "resolve (ps_pool p) x = Some (named (ps_pool p) x)" if "prefix = Some x" for x
    using k that by (simp add: knows_named)
  ultimately show ?thesis
    unfolding declare_namespace_def prefix_def [symmetric] Let_def
    using True by (cases prefix) (simp_all add: does_simps)
qed

end
