(* ===== verification/Tag_Names.thy ===== *)
theory Tag_Names
  imports Tag_Steps
begin

text \<open>
  The names of a start tag against the bindings in scope, its \<open>xml:\<close> attributes and the element it opens.
  The last lemma describes what \<open>start_tag\<close> leaves behind: the event of the tag satisfies the conditions
  of the event grammar for a start element, the lexical ones aside.
\<close>

section \<open>The bindings in scope as a map\<close>

definition reserved_ok :: "name_pool \<Rightarrow> bool" where
  "reserved_ok pool \<longleftrightarrow> resolve pool XML_ID = Some XML_PREFIX \<and> resolve pool XML_NS_ID = Some xml_ns_uri \<and>
     resolve pool XMLNS_NS_ID = Some xmlns_ns_uri \<and> resolve pool EMPTY_ID = Some []"

lemma reserved_ok_le: "pool_le a b \<Longrightarrow> reserved_ok a \<Longrightarrow> reserved_ok b"
  by (simp add: reserved_ok_def pool_le_def)

definition scope_fine :: "name_pool \<Rightarrow> binding list \<Rightarrow> bool" where
  "scope_fine pool scope \<longleftrightarrow> scope \<noteq> [] \<and> hd scope = (Some XML_ID, Some XML_NS_ID) \<and>
     list_all (binding_known pool) scope \<and> (\<forall>b\<in>set scope. fst b = Some XML_ID \<longrightarrow> snd b = Some XML_NS_ID)"

definition scope_view :: "name_pool \<Rightarrow> binding list \<Rightarrow> scope" where
  "scope_view pool scope = rebound no_scope (map (binding_of pool) (tl scope))"

lemma scope_fine_le: "pool_le a b \<Longrightarrow> scope_fine a scope \<Longrightarrow> scope_fine b scope"
  by (auto simp: scope_fine_def bindings_known_le)

lemma scope_fine_take: "scope_fine pool scope \<Longrightarrow> 0 < m \<Longrightarrow> scope_fine pool (take m scope)"
  by (cases m; cases scope) (auto simp: scope_fine_def list_all_iff dest: in_set_takeD)

lemma binding_lookup:
  assumes "pool_wf pool" "knows_option pool x" "list_all (binding_known pool) bs"
  shows "(case find (\<lambda>(b, _). b = map_option (named pool) x) (map (binding_of pool) bs) of None \<Rightarrow> None | Some (_, ns) \<Rightarrow> ns) =
     map_option (named pool) (case find (\<lambda>(p, _). p = x) bs of None \<Rightarrow> None | Some (_, ns) \<Rightarrow> ns)"
  using assms(3)
proof (induction bs)
  case (Cons b bs)
  obtain p ns where b: "b = (p, ns)" by (cases b)
  with Cons.prems have "map_option (named pool) p = map_option (named pool) x \<longleftrightarrow> p = x"
    using named_option_inj [OF assms(1) _ assms(2), of p] by (simp add: binding_known_def)
  with Cons show ?case by (simp add: b binding_of_def)
qed simp

lemma find_over_append: "find P (xs @ ys) = (case find P xs of None \<Rightarrow> find P ys | Some x \<Rightarrow> Some x)"
  by (induction xs) auto

lemma find_member: "find P xs = Some x \<Longrightarrow> x \<in> set xs \<and> P x"
  by (induction xs) (auto split: if_splits)

lemma scope_resolve_view:
  assumes "pool_wf pool" "reserved_ok pool" "scope_fine pool scope" "knows_option pool x"
  shows "map_option (named pool) (scope_resolve x scope) = in_scope (scope_view pool scope) (map_option (named pool) x)"
    "knows_option pool (scope_resolve x scope)"
proof -
  obtain bs where scope: "scope = (Some XML_ID, Some XML_NS_ID) # bs"
    using assms(3) by (cases scope) (auto simp: scope_fine_def)
  have bs: "list_all (binding_known pool) bs" using assms(3) by (simp add: scope_fine_def scope)
  have xml: "knows pool XML_ID" "named pool XML_ID = XML_PREFIX" "named pool XML_NS_ID = xml_ns_uri"
    using assms(2) by (auto simp: reserved_ok_def knows_def named_def)
  show "knows_option pool (scope_resolve x scope)"
  proof (cases "find (\<lambda>(p, _). p = x) (rev scope)")
    case (Some b)
    then have "b \<in> set scope" using find_member [OF Some] by simp
    then have "binding_known pool b" using assms(3) by (simp add: scope_fine_def list_all_iff)
    with Some show ?thesis by (cases b) (simp add: scope_resolve_def binding_known_def)
  qed (simp add: scope_resolve_def)
  show "map_option (named pool) (scope_resolve x scope) = in_scope (scope_view pool scope) (map_option (named pool) x)"
  proof (cases "x = Some XML_ID")
    case True
    have "scope_resolve x scope = Some XML_NS_ID"
    proof (cases "find (\<lambda>(p, _). p = x) (rev bs)")
      case None
      then show ?thesis by (simp add: scope_resolve_def scope find_over_append True)
    next
      case (Some b)
      then have "b \<in> set bs" "fst b = x" using find_member [OF Some] by auto
      then show ?thesis
        using assms(3) Some True by (auto simp: scope_resolve_def scope find_over_append scope_fine_def split: prod.splits)
    qed
    then show ?thesis by (simp add: True in_scope_def xml)
  next
    case False
    then have "map_option (named pool) x \<noteq> Some XML_PREFIX"
      using named_option_inj [OF assms(1,4), of "Some XML_ID"] xml by simp
    moreover have "scope_resolve x scope = (case find (\<lambda>(p, _). p = x) (rev bs) of None \<Rightarrow> None | Some (_, ns) \<Rightarrow> ns)"
      using False by (auto simp: scope_resolve_def scope find_over_append split: option.splits)
    moreover have "list_all (binding_known pool) (rev bs)" using bs by (simp add: list_all_rev)
    ultimately show ?thesis
      using binding_lookup [OF assms(1,4), of "rev bs"] innermost_binding [of "map_option (named pool) x" "map (binding_of pool) bs"]
      by (auto simp: in_scope_def scope_view_def scope rev_map)
  qed
qed

section \<open>The names of the tag\<close>

lemma declares_le:
  assumes "list_all (att_fine a) as" "pool_le a b"
  shows "map (attribute_of b) as = map (attribute_of a) as"
  using assms by (auto simp: list_all_iff att_fine_def intro!: attribute_of_le)

lemma declare_all_does:
  "pool_wf (ps_pool p) \<Longrightarrow> list_all (att_fine (ps_pool p)) as \<Longrightarrow>
   does (each declare_namespace as) p (calm l n) (\<lambda>_ q. declared_by as p q)"
proof (induction as arbitrary: p)
  case (Cons a as)
  then have a: "att_fine (ps_pool p) a" "list_all (att_fine (ps_pool p)) as" by simp_all
  show ?case
    unfolding each.simps
  proof (rule does_then [OF declare_namespace_does [OF Cons.prems(1) a(1)]])
    fix q assume d: "declared_by [a] p q"
    then obtain bs where b: "begun p q" "ps_attributes q = ps_attributes p" "ps_scope q = ps_scope p @ bs"
        "list_all (binding_known (ps_pool q)) bs" "map (binding_of (ps_pool q)) bs = declarations [attribute_of (ps_pool p) a]"
      by (auto simp: declared_by_def)
    note w = begunD [OF b(1)]
    show "does (each declare_namespace as) q (calm l n) (\<lambda>_ r. declared_by (a # as) p r)"
    proof (rule does_post [OF Cons.IH [OF w(1) att_fine_all_le [OF w(2) a(2)]]])
      fix u r assume e: "declared_by as q r"
      then obtain cs where c: "begun q r" "ps_attributes r = ps_attributes q" "ps_scope r = ps_scope q @ cs"
          "list_all (binding_known (ps_pool r)) cs"
          "map (binding_of (ps_pool r)) cs = declarations (map (attribute_of (ps_pool q)) as)"
        by (auto simp: declared_by_def)
      have view: "map (attribute_of (ps_pool q)) as = map (attribute_of (ps_pool p)) as"
        by (rule declares_le [OF a(2) w(2)])
      have "map (binding_of (ps_pool r)) (bs @ cs) = declarations (map (attribute_of (ps_pool p)) (a # as))"
        using c(5) bindings_of_le [OF begunD(2) [OF c(1)] b(4)] b(5) by (simp add: view declarations_def)
      moreover have "list_all (binding_known (ps_pool r)) (bs @ cs)"
        using c(4) bindings_known_le [OF begunD(2) [OF c(1)] b(4)] by simp
      moreover have "\<forall>x\<in>set as. pa_declares x \<longrightarrow> \<not> bad_declaration (declared_prefix (attribute_of (ps_pool p) x)) (pa_value x)"
        using e view by (auto simp: declared_by_def)
      ultimately show "declared_by (a # as) p r"
        using d b(2,3) c(2,3) begun_trans [OF b(1) c(1)] by (auto simp: declared_by_def)
    qed
  qed
qed (simp add: does_simps declared_by_def declarations_def)

lemma resolve_element_name_does:
  assumes "pool_wf (ps_pool p)" "reserved_ok (ps_pool p)" "scope_fine (ps_pool p) (ps_scope p)"
  shows "does (resolve_element_name w) p (calm l n) (\<lambda>x q. grown p q \<and> qname_known (ps_pool q) x \<and>
     name_in (scope_view (ps_pool q) (ps_scope q)) (map_option (named (ps_pool q)) (qn_prefix x))
       (map_option (named (ps_pool q)) (en_namespace (qn_expanded x))))"
proof -
  obtain prefix local where sn: "split_name w = (prefix, local)" by (cases "split_name w")
  show ?thesis
    unfolding resolve_element_name_def sn prod.case [of _ prefix local]
  proof (rule does_then [OF intern_option_does [OF assms(1)]])
    fix ph q assume "grown p q \<and> knows_option (ps_pool q) ph \<and> map_option (named (ps_pool q)) ph = prefix"
    then have g: "grown p q" and ph: "knows_option (ps_pool q) ph" by simp_all
    note w = grownD [OF g] and f = grown_kept [OF g]
    let ?ns = "scope_resolve ph (ps_scope q)"
    note v = scope_resolve_view [OF w(1) reserved_ok_le [OF w(2) assms(2)] _ ph, of "ps_scope q"]
    have sf: "scope_fine (ps_pool q) (ps_scope q)" using scope_fine_le [OF w(2) assms(3)] f by simp
    have named: "does (and_then (intern_name local) (\<lambda>lh. ok (qname_new ph ?ns lh))) q (calm l n) (\<lambda>x q. grown p q \<and>
       qname_known (ps_pool q) x \<and> name_in (scope_view (ps_pool q) (ps_scope q)) (map_option (named (ps_pool q)) (qn_prefix x))
       (map_option (named (ps_pool q)) (en_namespace (qn_expanded x))))" if "ph = None \<or> ?ns \<noteq> None"
    proof (rule does_then [OF intern_name_does [OF w(1)]])
      fix lh r assume r: "grown q r \<and> resolve (ps_pool r) lh = Some local"
      then have gr: "grown q r" and lh: "knows (ps_pool r) lh" by (simp_all add: resolve_knows)
      note wr = grownD [OF gr] and fr = grown_kept [OF gr]
      have kr: "knows_option (ps_pool r) ph" "knows_option (ps_pool r) ?ns"
        using pool_le_option [OF wr(2)] ph v(2) [OF sf] by blast+
      have sr: "scope_fine (ps_pool r) (ps_scope q)" using scope_fine_le [OF wr(2) sf] .
      note vr = scope_resolve_view [OF wr(1) reserved_ok_le [OF wr(2) reserved_ok_le [OF w(2) assms(2)]] sr kr(1)]
      show "does (ok (qname_new ph ?ns lh)) r (calm l n) (\<lambda>x q. grown p q \<and> qname_known (ps_pool q) x \<and>
         name_in (scope_view (ps_pool q) (ps_scope q)) (map_option (named (ps_pool q)) (qn_prefix x))
         (map_option (named (ps_pool q)) (en_namespace (qn_expanded x))))"
        using that grown_trans [OF g gr] kr lh vr(1) fr by (auto simp: does_simps qname_known_def name_in_def)
    qed simp
    show "does (reading (\<lambda>p.
          let namespace = scope_resolve ph (ps_scope p) in
          case (ph, namespace) of
            (Some h, None) \<Rightarrow> undeclared_prefix h
          | _ \<Rightarrow> and_then (intern_name local) (\<lambda>lh. ok (qname_new ph namespace lh)))) q (calm l n)
        (\<lambda>x q. grown p q \<and> qname_known (ps_pool q) x \<and>
         name_in (scope_view (ps_pool q) (ps_scope q)) (map_option (named (ps_pool q)) (qn_prefix x))
         (map_option (named (ps_pool q)) (en_namespace (qn_expanded x))))"
    proof (cases "ph = None \<or> ?ns \<noteq> None")
      case True
      with named show ?thesis by (auto simp: does_reading Let_def split: option.split)
    next
      case False
      then show ?thesis
        using ph by (auto simp: does_simps Let_def undeclared_prefix_def knows_named)
    qed
  qed simp
qed

text \<open>The attributes once their names are resolved.\<close>

definition bound_attribute :: "binding list \<Rightarrow> parsed_attribute \<Rightarrow> parsed_attribute" where
  "bound_attribute scope a =
     a\<lparr>pa_name := qname_new (qn_prefix (pa_name a)) (attribute_namespace scope a) (qn_local (pa_name a))\<rparr>"

definition names_bound :: "name_pool \<Rightarrow> binding list \<Rightarrow> parsed_attribute \<Rightarrow> bool" where
  "names_bound pool scope a \<longleftrightarrow>
     (let v = attribute_of pool a in
      if pa_declares a then en_namespace (qn_expanded (pa_name a)) = Some XMLNS_NS_ID
      else if at_prefix v = None then at_namespace v = None
      else name_in (scope_view pool scope) (at_prefix v) (at_namespace v))"

lemma resolve_attributes_does:
  "list_all (att_fine (ps_pool p)) as \<Longrightarrow>
   does (resolve_attributes as) p (calm l n) (\<lambda>bs q. q = p \<and> bs = map (bound_attribute (ps_scope p)) as \<and>
     (\<forall>a\<in>set as. \<not> pa_declares a \<longrightarrow> qn_prefix (pa_name a) \<noteq> None \<longrightarrow> attribute_namespace (ps_scope p) a \<noteq> None))"
proof (induction as)
  case (Cons a as)
  let ?ns = "attribute_namespace (ps_scope p) a"
  have IH: "does (resolve_attributes as) p (calm l n) (\<lambda>bs q. q = p \<and> bs = map (bound_attribute (ps_scope p)) as \<and>
     (\<forall>a\<in>set as. \<not> pa_declares a \<longrightarrow> qn_prefix (pa_name a) \<noteq> None \<longrightarrow> attribute_namespace (ps_scope p) a \<noteq> None))"
    using Cons by simp
  show ?case
  proof (cases "qn_prefix (pa_name a)")
    case None
    then show ?thesis
      by (simp add: does_simps Let_def) (rule does_post [OF IH], auto simp: bound_attribute_def)
  next
    case (Some prefix)
    consider "pa_declares a" | "\<not> pa_declares a" "?ns = None" | x where "\<not> pa_declares a" "?ns = Some x" by blast
    then show ?thesis
    proof cases
      case 1
      with Some show ?thesis
        by (simp add: does_simps Let_def) (rule does_post [OF IH], auto simp: bound_attribute_def)
    next
      case 2
      have "knows (ps_pool p) prefix" using Cons.prems Some by (simp add: att_fine_def qname_known_def)
      with 2 Some show ?thesis by (simp add: does_simps Let_def undeclared_prefix_def knows_named)
    next
      case 3
      with Some show ?thesis
        by (simp add: does_simps Let_def) (rule does_post [OF IH], auto simp: bound_attribute_def)
    qed
  qed
qed (simp add: does_simps)

lemma bound_attribute_fine:
  assumes "pool_wf pool" "reserved_ok pool" "scope_fine pool scope" "att_fine pool a"
    "\<not> pa_declares a \<Longrightarrow> qn_prefix (pa_name a) \<noteq> None \<Longrightarrow> attribute_namespace scope a \<noteq> None"
  shows "att_fine pool (bound_attribute scope a)" "names_bound pool scope (bound_attribute scope a)"
proof -
  have k: "knows_option pool (qn_prefix (pa_name a))" using assms(4) by (simp add: att_fine_def qname_known_def)
  note v = scope_resolve_view [OF assms(1-3) k]
  have x: "knows pool XMLNS_NS_ID" using assms(2) by (simp add: reserved_ok_def knows_def)
  have ns: "knows_option pool (attribute_namespace scope a)"
    using v(2) x by (auto simp: attribute_namespace_def split: option.split)
  show "att_fine pool (bound_attribute scope a)"
    using assms(4) ns by (auto simp: att_fine_def bound_attribute_def qname_known_def attribute_of_def declares_namespace_def)
  show "names_bound pool scope (bound_attribute scope a)"
    using assms(5) v(1)
    by (auto simp: names_bound_def bound_attribute_def attribute_of_def attribute_namespace_def name_in_def
        split: option.splits)
qed

lemma bound_attribute_view:
  "attribute_of pool (bound_attribute scope a) =
     (attribute_of pool a)\<lparr>at_namespace := map_option (named pool) (attribute_namespace scope a)\<rparr>"
  "pa_declares (bound_attribute scope a) = pa_declares a" "pa_value (bound_attribute scope a) = pa_value a"
  by (simp_all add: attribute_of_def bound_attribute_def)

lemma declarations_Cons:
  "declarations (v # vs) =
     (if declares_namespace v then [(declared_prefix v, declared_namespace v)] else []) @ declarations vs"
  by (simp add: declarations_def)

lemma namespace_update [simp]:
  "declares_namespace (v\<lparr>at_namespace := x\<rparr>) = declares_namespace v"
  "declared_prefix (v\<lparr>at_namespace := x\<rparr>) = declared_prefix v"
  "declared_namespace (v\<lparr>at_namespace := x\<rparr>) = declared_namespace v"
  by (simp_all add: declares_namespace_def declared_prefix_def declared_namespace_def split: option.split)

lemma declarations_bound:
  "declarations (map (\<lambda>a. attribute_of pool (bound_attribute scope a)) as) = declarations (map (attribute_of pool) as)"
  by (induction as) (simp_all add: declarations_Cons bound_attribute_view)

lemma resolve_attribute_names_does:
  assumes "pool_wf (ps_pool p)" "reserved_ok (ps_pool p)" "scope_fine (ps_pool p) (ps_scope p)"
    "list_all (att_fine (ps_pool p)) (ps_attributes p)"
  shows "does resolve_attribute_names p (calm l n) (\<lambda>_ q.
    q = p\<lparr>ps_attributes := map (bound_attribute (ps_scope p)) (ps_attributes p)\<rparr> \<and>
    list_all (att_fine (ps_pool p)) (ps_attributes q) \<and> list_all (names_bound (ps_pool p) (ps_scope p)) (ps_attributes q))"
  unfolding resolve_attribute_names_def does_simps
proof (rule does_post [OF resolve_attributes_does [OF assms(4)]])
  fix bs q
  assume h: "q = p \<and> bs = map (bound_attribute (ps_scope p)) (ps_attributes p) \<and>
     (\<forall>a\<in>set (ps_attributes p). \<not> pa_declares a \<longrightarrow> qn_prefix (pa_name a) \<noteq> None \<longrightarrow> attribute_namespace (ps_scope p) a \<noteq> None)"
  have "att_fine (ps_pool p) (bound_attribute (ps_scope p) a) \<and> names_bound (ps_pool p) (ps_scope p) (bound_attribute (ps_scope p) a)"
    if "a \<in> set (ps_attributes p)" for a
    using bound_attribute_fine [OF assms(1-3), of a] h assms(4) that by (auto simp: list_all_iff)
  then show "q\<lparr>ps_attributes := bs\<rparr> = p\<lparr>ps_attributes := map (bound_attribute (ps_scope p)) (ps_attributes p)\<rparr> \<and>
    list_all (att_fine (ps_pool p)) (ps_attributes (q\<lparr>ps_attributes := bs\<rparr>)) \<and>
    list_all (names_bound (ps_pool p) (ps_scope p)) (ps_attributes (q\<lparr>ps_attributes := bs\<rparr>))"
    using h by (simp add: list_all_iff)
qed

section \<open>xml:space, xml:lang and xml:id\<close>

lemma space_and_lang_loop_does:
  "pool_wf (ps_pool p) \<Longrightarrow> knows_option (ps_pool p) lang \<Longrightarrow>
   does (space_and_lang_loop space lang as) p (calm l n) (\<lambda>x q. grown p q \<and> knows_option (ps_pool q) (snd x) \<and>
     (\<forall>a\<in>set as. in_xml_namespace a (ps_space_name p) \<longrightarrow> pa_value a \<in> {lit ''default'', lit ''preserve''}))"
proof (induction as arbitrary: p space lang)
  case (Cons a as)
  note IH = Cons.IH [OF Cons.prems]
  show ?case
  proof (cases "in_xml_namespace a (ps_space_name p)")
    case True
    consider "pa_value a = lit ''default''" | "pa_value a = lit ''preserve''" "pa_value a \<noteq> lit ''default''"
      | "pa_value a \<noteq> lit ''default''" "pa_value a \<noteq> lit ''preserve''" by blast
    then show ?thesis
    proof cases
      case 1
      with True show ?thesis by (simp add: does_simps del: lit_Cons) (rule does_post [OF IH], auto simp del: lit_Cons)
    next
      case 2
      with True show ?thesis by (simp add: does_simps del: lit_Cons) (rule does_post [OF IH], auto simp del: lit_Cons)
    next
      case 3
      with True show ?thesis by (simp add: does_simps del: lit_Cons)
    qed
  next
    case False
    show ?thesis
    proof (cases "in_xml_namespace a (ps_lang_name p)")
      case True
      have "does (and_then (intern_option (if pa_value a = [] then None else Some (pa_value a)))
         (\<lambda>l. space_and_lang_loop space l as)) p (calm l n) (\<lambda>x q. grown p q \<and> knows_option (ps_pool q) (snd x) \<and>
         (\<forall>a\<in>set as. in_xml_namespace a (ps_space_name p) \<longrightarrow> pa_value a \<in> {lit ''default'', lit ''preserve''}))"
      proof (rule does_then [OF intern_option_does [OF Cons.prems(1)]])
        fix h q assume "grown p q \<and> knows_option (ps_pool q) h \<and>
          map_option (named (ps_pool q)) h = (if pa_value a = [] then None else Some (pa_value a))"
        then have g: "grown p q" and h: "knows_option (ps_pool q) h" by simp_all
        show "does (space_and_lang_loop space h as) q (calm l n) (\<lambda>x q. grown p q \<and> knows_option (ps_pool q) (snd x) \<and>
         (\<forall>a\<in>set as. in_xml_namespace a (ps_space_name p) \<longrightarrow> pa_value a \<in> {lit ''default'', lit ''preserve''}))"
          by (rule does_post [OF Cons.IH [OF grownD(1) [OF g] h]])
            (use grown_trans [OF g] grown_kept [OF g] in \<open>auto simp del: lit_Cons\<close>)
      qed simp
      with True False show ?thesis
        by (simp add: does_reading del: lit_Cons)
    next
      case False': False
      with False show ?thesis
        by (simp add: does_simps del: lit_Cons) (rule does_post [OF IH], auto simp del: lit_Cons)
    qed
  qed
qed (simp add: does_simps)

lemma element_base_does: "does element_base p (calm l n) (\<lambda>_ q. q = p)"
  by (auto simp: element_base_def does_simps split: option.split sum.split)

section \<open>The element that is opened\<close>

text \<open>The fields that no token changes: what is still to be read, and the settings.\<close>

definition settled :: "('d, 'a) parser \<Rightarrow> ('d, 'a) parser \<Rightarrow> bool" where
  "settled p q \<longleftrightarrow> es_entities (ps_stack q) = es_entities (ps_stack p) \<and> es_limits (ps_stack q) = es_limits (ps_stack p) \<and>
     ps_config q = ps_config p \<and> ps_space_name q = ps_space_name p \<and> ps_lang_name q = ps_lang_name p \<and>
     ps_base_name q = ps_base_name p \<and> ps_id_name q = ps_id_name p \<and> ps_expanding q = ps_expanding p \<and>
     ps_held q = ps_held p \<and> ps_pending_text q = ps_pending_text p \<and> ps_pending_entity q = ps_pending_entity p \<and>
     ps_entity_text_decl_pending q = ps_entity_text_decl_pending p \<and> ps_dtd q = ps_dtd p"

lemma settled_refl [simp]: "settled p p"
  by (simp add: settled_def)

lemma settled_trans: "settled p q \<Longrightarrow> settled q r \<Longrightarrow> settled p r"
  by (simp add: settled_def)

lemma begun_settled:
  assumes "begun p q"
  shows "settled p q" "ps_seen_doctype q = ps_seen_doctype p" "ps_dtd_active q = ps_dtd_active p"
    "ps_doctype_name q = ps_doctype_name p"
proof -
  have e: "erased_tag q = erased_tag p" using assms by (simp add: begun_def)
  have "ps_held q = ps_held p" "ps_pending_text q = ps_pending_text p" "ps_pending_entity q = ps_pending_entity p"
    "ps_entity_text_decl_pending q = ps_entity_text_decl_pending p"
    by (rule erased_tag_field [OF e], simp)+
  then show "settled p q" using begun_fields [OF assms] by (simp add: settled_def)
  show "ps_seen_doctype q = ps_seen_doctype p" "ps_dtd_active q = ps_dtd_active p" "ps_doctype_name q = ps_doctype_name p"
    by (rule erased_tag_field [OF e], simp)+
qed

definition element_known :: "name_pool \<Rightarrow> parser_element \<Rightarrow> bool" where
  "element_known pool e \<longleftrightarrow> qname_known pool (po_name e) \<and> knows_option pool (po_xml_lang e)"

lemma element_known_le: "pool_le a b \<Longrightarrow> element_known a e \<Longrightarrow> element_known b e"
  by (auto simp: element_known_def intro: qname_known_le pool_le_option)

text \<open>
  The names the parser interned at its start, and the state the elements that are open need: their names are
  known and they remember a position in the bindings.
\<close>

definition names_ok :: "('d, 'a) parser \<Rightarrow> bool" where
  "names_ok p \<longleftrightarrow> pool_wf (ps_pool p) \<and> reserved_ok (ps_pool p) \<and>
     resolve (ps_pool p) (ps_space_name p) = Some (lit ''space'') \<and> resolve (ps_pool p) (ps_id_name p) = Some (lit ''id'') \<and>
     scope_fine (ps_pool p) (ps_scope p) \<and> list_all (element_known (ps_pool p)) (ps_open p) \<and>
     list_all (\<lambda>e. 0 < po_namespace_mark e) (ps_open p)"

text \<open>The start element event of the current token, if the parser has just opened an element.\<close>

definition start_view :: "('d, 'a) parser \<Rightarrow> start_element_event" where
  "start_view p =
     \<lparr>se_prefix = map_option (named (ps_pool p)) (qn_prefix (ps_name p)), se_local = named (ps_pool p) (qn_local (ps_name p)),
      se_namespace = map_option (named (ps_pool p)) (en_namespace (qn_expanded (ps_name p))),
      se_attributes = map (attribute_of (ps_pool p)) (ps_attributes p), se_xml_space = ps_xml_space p,
      se_xml_lang = map_option (named (ps_pool p)) (ps_xml_lang p), se_base_uri = map_option to_string (ps_base p)\<rparr>"

text \<open>What the grammar asks of a start element beyond its names being names and its attributes distinct.\<close>

definition start_bound :: "scope \<Rightarrow> start_element_event \<Rightarrow> bool" where
  "start_bound \<sigma> ev \<longleftrightarrow>
     (let as = se_attributes ev; \<sigma>' = rebound \<sigma> (declarations as) in
      (\<forall>a\<in>set as. list_all is_char (at_value a))
      \<and> (\<forall>a\<in>set as. declares_namespace a \<longrightarrow> \<not> bad_declaration (declared_prefix a) (at_value a))
      \<and> name_in \<sigma>' (se_prefix ev) (se_namespace ev)
      \<and> (\<forall>a\<in>set as. \<not> declares_namespace a \<longrightarrow> attribute_ok \<sigma>' a))"

lemma start_ok_lexical: "start_ok \<sigma> ev \<longleftrightarrow> lexical_start_element ev = Inr () \<and> start_bound \<sigma> ev"
  by (auto simp: start_ok_def start_bound_def lexical_start_element_iff Let_def)

text \<open>\<open>q\<close> has opened an element from \<open>p\<close>.\<close>

definition opens :: "('d, 'a) parser \<Rightarrow> ('d, 'a) parser \<Rightarrow> bool" where
  "opens p q \<longleftrightarrow> settled p q \<and> names_ok q \<and> pool_le (ps_pool p) (ps_pool q) \<and>
     ps_phase p \<noteq> InEpilog \<and> ps_phase q = InContent \<and>
     ps_seen_doctype q = ps_seen_doctype p \<and> ps_dtd_active q = ps_dtd_active p \<and> ps_doctype_name q = ps_doctype_name p \<and>
     (\<exists>e. ps_open q = ps_open p @ [e] \<and> po_name e = ps_name q \<and> po_namespace_mark e = length (ps_scope p)) \<and>
     (\<exists>bs. ps_scope q = ps_scope p @ bs \<and>
        map (binding_of (ps_pool q)) bs = declarations (se_attributes (start_view q))) \<and>
     list_all (att_fine (ps_pool q)) (ps_attributes q) \<and> knows_option (ps_pool q) (ps_xml_lang q) \<and>
     start_bound (scope_view (ps_pool p) (ps_scope p)) (start_view q)"

end
