(* ===== verification/Start_Tag.thy ===== *)
theory Start_Tag
  imports Tag_Names
begin

text \<open>
  \<open>start_tag\<close> as a whole: from a parser whose names and texts are in order it stops with an error of the
  document or opens an element (\<open>opens\<close>).
\<close>

lemma xml_ns_nonempty: "xml_ns_uri \<noteq> []"
  by (simp add: xml_ns_uri_def)

lemma scope_fine_declared:
  assumes "pool_wf pool" "reserved_ok pool" "scope_fine pool scope" "list_all (binding_known pool) bs"
    "map (binding_of pool) bs = declarations vs"
    "\<And>v. v \<in> set vs \<Longrightarrow> declares_namespace v \<Longrightarrow> \<not> bad_declaration (declared_prefix v) (at_value v)"
  shows "scope_fine pool (scope @ bs)"
proof -
  have "snd b = Some XML_NS_ID" if b: "b \<in> set bs" "fst b = Some XML_ID" for b
  proof -
    have xml: "named pool XML_ID = XML_PREFIX" "named pool XML_NS_ID = xml_ns_uri" "knows pool XML_NS_ID"
      using assms(2) by (auto simp: reserved_ok_def named_def knows_def)
    have "binding_of pool b \<in> set (declarations vs)" using b(1) assms(5) by (metis image_eqI set_map)
    then obtain v where v: "v \<in> set vs" "declares_namespace v" "binding_of pool b = (declared_prefix v, declared_namespace v)"
      by (auto simp: declarations_def)
    then have p: "declared_prefix v = Some XML_PREFIX" "declared_namespace v = map_option (named pool) (snd b)"
      using b(2) by (auto simp: binding_of_def xml)
    have "XML_PREFIX \<noteq> XMLNS_PREFIX" by (simp add: XML_PREFIX_def XMLNS_PREFIX_def)
    then have "at_value v = xml_ns_uri"
      using assms(6) [OF v(1,2)] p(1) by (auto simp: bad_declaration_def split: if_splits)
    then have "map_option (named pool) (snd b) = map_option (named pool) (Some XML_NS_ID)"
      using p(2) xml_ns_nonempty by (simp add: declared_namespace_def xml)
    moreover have "knows_option pool (snd b)" using assms(4) b(1) by (auto simp: list_all_iff binding_known_def)
    ultimately show ?thesis using named_option_inj [OF assms(1)] xml(3) by (metis knows_option_simps(2))
  qed
  with assms(3,4) show ?thesis by (auto simp: scope_fine_def)
qed

lemma scope_view_append:
  assumes "pool_le a b" "scope_fine a scope"
  shows "scope_view b (scope @ bs) = rebound (scope_view a scope) (map (binding_of b) bs)"
proof -
  obtain x xs where scope: "scope = x # xs" using assms(2) by (cases scope) (auto simp: scope_fine_def)
  have "map (binding_of b) xs = map (binding_of a) xs"
    using bindings_of_le [OF assms(1), of xs] assms(2) by (simp add: scope_fine_def scope)
  then show ?thesis by (simp add: scope_view_def scope rebound_append del: map_eq_conv)
qed

lemma XML_not_XMLNS: "XML_NS_ID \<noteq> XMLNS_NS_ID"
  by (simp add: XML_NS_ID_def XMLNS_NS_ID_def reserved_def)

section \<open>xml:id\<close>

definition tidied :: "('d, 'a) parser \<Rightarrow> parsed_attribute \<Rightarrow> parsed_attribute" where
  "tidied p a =
     (if ext_xml_id (pc_extensions (ps_config p)) \<and> in_xml_namespace a (ps_id_name p)
      then a\<lparr>pa_value := normalize_tokenized (pa_value a) True\<rparr> else a)"

lemma normalize_xml_id_does:
  "does normalize_xml_id p R Q = Q () (p\<lparr>ps_attributes := map (tidied p) (ps_attributes p)\<rparr>)"
  by (auto simp: normalize_xml_id_def does_simps tidied_def [abs_def])

lemma tidied_names [simp]:
  "pa_name (tidied p a) = pa_name a" "pa_declares (tidied p a) = pa_declares a"
  "at_prefix (attribute_of pool (tidied p a)) = at_prefix (attribute_of pool a)"
  "at_local (attribute_of pool (tidied p a)) = at_local (attribute_of pool a)"
  "at_namespace (attribute_of pool (tidied p a)) = at_namespace (attribute_of pool a)"
  by (simp_all add: tidied_def attribute_of_def)

lemma tidied_fine: "att_fine pool a \<Longrightarrow> att_fine pool (tidied p a)"
  by (auto simp: att_fine_def declares_namespace_def) (auto simp: tidied_def normalize_tokenized_chars)

lemma tidied_bound: "names_bound pool scope (tidied p a) = names_bound pool scope a"
  by (simp add: names_bound_def Let_def)

lemma tidied_declares: "names_bound pool scope a \<Longrightarrow> pa_declares a \<Longrightarrow> tidied p a = a"
  using XML_not_XMLNS by (auto simp: tidied_def names_bound_def in_xml_namespace_def Let_def)

lemma tidied_space:
  "ps_space_name p \<noteq> ps_id_name p \<Longrightarrow> in_xml_namespace a (ps_space_name p) \<Longrightarrow> tidied p a = a"
  by (auto simp: tidied_def in_xml_namespace_def)

text \<open>An attribute written \<open>xml:space\<close> is the one the parser checked.\<close>

lemma xml_space_found:
  assumes "pool_wf pool" "reserved_ok pool" "resolve pool space = Some (lit ''space'')" "qname_known pool (pa_name a)"
    "names_bound pool scope a" "\<not> pa_declares a"
    "at_prefix (attribute_of pool a) = Some XML_PREFIX" "at_local (attribute_of pool a) = lit ''space''"
  shows "in_xml_namespace a space"
proof -
  have "at_namespace (attribute_of pool a) = Some xml_ns_uri"
    using assms(5-7) by (auto simp: names_bound_def name_in_def in_scope_def Let_def)
  then have ns: "map_option (named pool) (en_namespace (qn_expanded (pa_name a))) = map_option (named pool) (Some XML_NS_ID)"
    using assms(2) by (simp add: attribute_of_def reserved_ok_def named_def)
  have "knows_option pool (en_namespace (qn_expanded (pa_name a)))" "knows_option pool (Some XML_NS_ID)"
    using assms(2,4) by (auto simp: qname_known_def reserved_ok_def knows_def)
  then have "en_namespace (qn_expanded (pa_name a)) = Some XML_NS_ID"
    using named_option_inj [OF assms(1)] ns by blast
  moreover have "qn_local (pa_name a) = space"
    using named_inj [OF assms(1), of "qn_local (pa_name a)" space] assms(3,4,8)
    by (auto simp: qname_known_def attribute_of_def knows_def named_def)
  ultimately show ?thesis by (simp add: in_xml_namespace_def)
qed

lemma space_not_id: "names_ok p \<Longrightarrow> ps_space_name p \<noteq> ps_id_name p"
  by (auto simp: names_ok_def)

section \<open>The whole tag\<close>

definition tag_ready :: "entity_limits \<Rightarrow> ('d, 'a) parser \<Rightarrow> bool" where
  "tag_ready l p \<longleftrightarrow> names_ok p \<and> ps_expanding p = [] \<and> es_limits (ps_stack p) = l \<and>
     (\<forall>d. ps_dtd p = Some d \<longrightarrow> dtd_chars d \<and> dtd_names (ps_pool p) d)"

lemma dtd_names_le: "pool_le a b \<Longrightarrow> dtd_names a d \<Longrightarrow> dtd_names b d"
  unfolding dtd_names_def using pool_le_knows by blast

lemma elements_known_le: "pool_le a b \<Longrightarrow> list_all (element_known a) es \<Longrightarrow> list_all (element_known b) es"
  by (erule list.pred_mono_strong) (rule element_known_le)

lemma names_ok_begun:
  assumes "names_ok p" "begun p q" "ps_scope q = ps_scope p"
  shows "names_ok q"
proof -
  note w = begunD [OF assms(2)] and f = begun_fields [OF assms(2)]
  have "reserved_ok (ps_pool q)" "scope_fine (ps_pool q) (ps_scope p)" "list_all (element_known (ps_pool q)) (ps_open p)"
    using assms(1) reserved_ok_le [OF w(2)] scope_fine_le [OF w(2)] elements_known_le [OF w(2)] by (simp_all add: names_ok_def)
  moreover have "resolve (ps_pool q) (ps_space_name p) = Some (lit ''space'')" "resolve (ps_pool q) (ps_id_name p) = Some (lit ''id'')"
    using assms(1) w(2) by (simp_all add: names_ok_def pool_le_def del: lit_Cons)
  ultimately show ?thesis using assms(1,3) w f by (simp add: names_ok_def del: lit_Cons)
qed

lemma tag_ready_collecting:
  assumes "tag_ready l p" "collecting p q"
  shows "tag_ready l q"
proof -
  have b: "begun p q" "ps_scope q = ps_scope p" using assms(2) by (simp_all add: collecting_def)
  then show ?thesis
    using assms(1) names_ok_begun [OF _ b] begun_fields [OF b(1)] dtd_names_le [OF begunD(2) [OF b(1)]]
    by (simp add: tag_ready_def)
qed

lemma collect_does:
  assumes "tag_ready l p" "list_all is_char rest"
  shows "does (parse_attributes E rest) p (calm l (env_nesting E))
    (\<lambda>_ q. does (intern_name w) q (calm l (env_nesting E))
      (\<lambda>element r. does (apply_dtd_attributes E element) r (calm l (env_nesting E)) (\<lambda>_ s. collecting p s)))"
proof (rule does_post [OF parse_attributes_does])
  fix u q assume c: "collecting p q"
  note rq = tag_ready_collecting [OF assms(1) c]
  show "does (intern_name w) q (calm l (env_nesting E))
      (\<lambda>element r. does (apply_dtd_attributes E element) r (calm l (env_nesting E)) (\<lambda>_ s. collecting p s))"
  proof (rule does_post [OF intern_name_does])
    fix h r assume "grown q r \<and> resolve (ps_pool r) h = Some w"
    then have r: "collecting p r" using collecting_grown [OF c] by blast
    note rr = tag_ready_collecting [OF assms(1) r]
    have "does (apply_dtd_attributes E h) r (calm l (env_nesting E)) (\<lambda>_ s. collecting r s)"
      by (rule apply_dtd_attributes_does) (use rr r in \<open>auto simp: tag_ready_def names_ok_def collecting_def\<close>)
    then show "does (apply_dtd_attributes E h) r (calm l (env_nesting E)) (\<lambda>_ s. collecting p s)"
      by (rule does_post) (rule collecting_trans [OF r])
  qed (use rq in \<open>auto simp: tag_ready_def names_ok_def\<close>)
qed (use assms in \<open>auto simp: tag_ready_def names_ok_def\<close>)

text \<open>The attributes after \<open>declare_namespaces\<close> and \<open>resolve_attribute_names\<close>, before \<open>xml:space\<close>.\<close>

definition bound_tag :: "('d, 'a) parser \<Rightarrow> ('d, 'a) parser \<Rightarrow> qname \<Rightarrow> bool" where
  "bound_tag p q name \<longleftrightarrow> begun p q \<and> qname_known (ps_pool q) name \<and>
     (\<exists>bs. ps_scope q = ps_scope p @ bs \<and> list_all (binding_known (ps_pool q)) bs \<and>
        map (binding_of (ps_pool q)) bs = declarations (map (attribute_of (ps_pool q)) (ps_attributes q))) \<and>
     scope_fine (ps_pool q) (ps_scope q) \<and>
     name_in (scope_view (ps_pool q) (ps_scope q)) (map_option (named (ps_pool q)) (qn_prefix name))
       (map_option (named (ps_pool q)) (en_namespace (qn_expanded name))) \<and>
     list_all (att_fine (ps_pool q)) (ps_attributes q) \<and>
     list_all (names_bound (ps_pool q) (ps_scope q)) (ps_attributes q) \<and>
     (\<forall>a\<in>set (ps_attributes q). pa_declares a \<longrightarrow>
        \<not> bad_declaration (declared_prefix (attribute_of (ps_pool q) a)) (pa_value a))"

lemma bind_does:
  assumes "names_ok p" "list_all (att_fine (ps_pool p)) (ps_attributes p)"
  shows "does declare_namespaces p (calm l n) (\<lambda>_ q. does (resolve_element_name w) q (calm l n)
     (\<lambda>name r. does resolve_attribute_names r (calm l n) (\<lambda>_ s. bound_tag p s name)))"
proof -
  have w: "pool_wf (ps_pool p)" "reserved_ok (ps_pool p)" "scope_fine (ps_pool p) (ps_scope p)"
    using assms(1) by (simp_all add: names_ok_def)
  show ?thesis
    unfolding declare_namespaces_def does_reading
  proof (rule does_post [OF declare_all_does [OF w(1) assms(2)]])
    fix u q assume d: "declared_by (ps_attributes p) p q"
    then obtain bs where b: "begun p q" "ps_attributes q = ps_attributes p" "ps_scope q = ps_scope p @ bs"
        "list_all (binding_known (ps_pool q)) bs"
        "map (binding_of (ps_pool q)) bs = declarations (map (attribute_of (ps_pool p)) (ps_attributes p))"
      by (auto simp: declared_by_def)
    note wq = begunD [OF b(1)]
    have view: "map (attribute_of (ps_pool q)) (ps_attributes p) = map (attribute_of (ps_pool p)) (ps_attributes p)"
      by (rule declares_le [OF assms(2) wq(2)])
    have bad: "\<not> bad_declaration (declared_prefix v) (at_value v)"
      if v: "v \<in> set (map (attribute_of (ps_pool p)) (ps_attributes p))" "declares_namespace v" for v
    proof -
      from v(1) obtain a where a: "a \<in> set (ps_attributes p)" "v = attribute_of (ps_pool p) a" by auto
      then have "pa_declares a" using assms(2) v(2) by (auto simp: list_all_iff att_fine_def)
      then show ?thesis using d a by (auto simp: declared_by_def attribute_of_def)
    qed
    have sq: "scope_fine (ps_pool q) (ps_scope q)"
      unfolding b(3) by (rule scope_fine_declared [OF wq(1) reserved_ok_le [OF wq(2) w(2)] scope_fine_le [OF wq(2) w(3)] b(4,5) bad])
    show "does (resolve_element_name w) q (calm l n)
     (\<lambda>name r. does resolve_attribute_names r (calm l n) (\<lambda>_ s. bound_tag p s name))"
    proof (rule does_post [OF resolve_element_name_does [OF wq(1) reserved_ok_le [OF wq(2) w(2)] sq]])
      fix name r
      assume h: "grown q r \<and> qname_known (ps_pool r) name \<and>
        name_in (scope_view (ps_pool r) (ps_scope r)) (map_option (named (ps_pool r)) (qn_prefix name))
          (map_option (named (ps_pool r)) (en_namespace (qn_expanded name)))"
      then have g: "grown q r" by simp
      note wr = grownD [OF g] and f = grown_kept [OF g]
      have pr: "begun p r" "pool_le (ps_pool p) (ps_pool r)"
        using begun_trans [OF b(1) grown_begun [OF g]] begunD(2) by blast+
      have sr: "scope_fine (ps_pool r) (ps_scope r)" using scope_fine_le [OF wr(2) sq] f by simp
      have ar: "list_all (att_fine (ps_pool r)) (ps_attributes r)"
        using att_fine_all_le [OF pr(2) assms(2)] b(2) f by simp
      have vr: "map (attribute_of (ps_pool r)) (ps_attributes p) = map (attribute_of (ps_pool p)) (ps_attributes p)"
        by (rule declares_le [OF assms(2) pr(2)])
      show "does resolve_attribute_names r (calm l n) (\<lambda>_ s. bound_tag p s name)"
      proof (rule does_post [OF resolve_attribute_names_does [OF wr(1) reserved_ok_le [OF pr(2) w(2)] sr ar]], elim conjE)
        fix v s
        assume s: "s = r\<lparr>ps_attributes := map (bound_attribute (ps_scope r)) (ps_attributes r)\<rparr>"
          "list_all (att_fine (ps_pool r)) (ps_attributes s)" "list_all (names_bound (ps_pool r) (ps_scope r)) (ps_attributes s)"
        have "map (binding_of (ps_pool r)) bs = declarations (map (attribute_of (ps_pool r)) (ps_attributes s))"
          using bindings_of_le [OF wr(2) b(4)] b(5) vr f(14) b(2)
          by (simp add: s(1) o_def declarations_bound del: map_eq_conv)
        moreover have "\<not> bad_declaration (declared_prefix (attribute_of (ps_pool r) a)) (pa_value a)"
          if a: "a \<in> set (ps_attributes s)" "pa_declares a" for a
        proof -
          from a(1) obtain c where c: "c \<in> set (ps_attributes p)" "a = bound_attribute (ps_scope r) c"
            using s(1) f(14) b(2) by auto
          then have "pa_declares c" using a(2) by (simp add: bound_attribute_view)
          then have "\<not> bad_declaration (declared_prefix (attribute_of (ps_pool p) c)) (pa_value c)"
            using d c(1) by (simp add: declared_by_def)
          moreover have "attribute_of (ps_pool r) c = attribute_of (ps_pool p) c" using vr c(1) by simp
          ultimately show ?thesis by (simp add: c(2) bound_attribute_view)
        qed
        moreover have "list_all (binding_known (ps_pool r)) bs" by (rule bindings_known_le [OF wr(2) b(4)])
        ultimately show "bound_tag p s name"
          using h s sr begun_attributes [OF pr(1)] b(3) f by (simp add: bound_tag_def)
      qed
    qed
  qed
qed

lemma attribute_fine_ok:
  assumes "names_ok q" "att_fine (ps_pool q) a" "names_bound (ps_pool q) scope a"
    "\<not> declares_namespace (attribute_of (ps_pool q) a)"
    "in_xml_namespace a (ps_space_name q) \<Longrightarrow> pa_value a \<in> {lit ''default'', lit ''preserve''}"
  shows "attribute_ok (scope_view (ps_pool q) scope) (attribute_of (ps_pool q) a)"
proof -
  have w: "pool_wf (ps_pool q)" "reserved_ok (ps_pool q)" "resolve (ps_pool q) (ps_space_name q) = Some (lit ''space'')"
    using assms(1) by (simp_all add: names_ok_def del: lit_Cons)
  have a: "qname_known (ps_pool q) (pa_name a)" "\<not> pa_declares a"
    using assms(2,4) by (simp_all add: att_fine_def)
  note space = xml_space_found [OF w a(1) assms(3) a(2)]
  show ?thesis
    using assms(3,5) a(2) space by (auto simp: attribute_ok_def names_bound_def Let_def attribute_of_def)
qed

text \<open>The element is opened in the state the tag has built up.\<close>

lemma open_element_opens:
  assumes "names_ok p" "ps_phase p \<noteq> InEpilog" "collecting (p\<lparr>ps_phase := InContent\<rparr>) p4" "bound_tag p4 p7 name"
    "grown p7 p8" "knows_option (ps_pool p8) lang"
    "\<forall>a\<in>set (ps_attributes p7). in_xml_namespace a (ps_space_name p7) \<longrightarrow> pa_value a \<in> {lit ''default'', lit ''preserve''}"
  shows "opens p (open_element_of name written (scope_mark (ps_scope p4)) space lang base cl
      (p8\<lparr>ps_attributes := map (tidied p8) (ps_attributes p8)\<rparr>))" (is "opens p ?q")
proof -
  let ?p1 = "p\<lparr>ps_phase := InContent\<rparr>"
  have b4: "begun ?p1 p4" "ps_scope p4 = ps_scope p" using assms(3) by (simp_all add: collecting_def)
  have b7: "begun p4 p7" using assms(4) by (simp add: bound_tag_def)
  have b8: "begun p7 p8" using assms(5) by (rule grown_begun)
  have b: "begun ?p1 p8" using begun_trans [OF begun_trans [OF b4(1) b7] b8] .
  note f = begun_fields [OF b] and s = begun_settled [OF b] and w = begunD [OF b]
  note g = grown_kept [OF assms(5)] and wg = grownD [OF assms(5)]
  have le: "pool_le (ps_pool p) (ps_pool p8)" using w(2) by simp
  obtain bs where bs: "ps_scope p7 = ps_scope p4 @ bs" "list_all (binding_known (ps_pool p7)) bs"
      "map (binding_of (ps_pool p7)) bs = declarations (map (attribute_of (ps_pool p7)) (ps_attributes p7))"
    using assms(4) by (auto simp: bound_tag_def)
  have t: "qname_known (ps_pool p7) name" "scope_fine (ps_pool p7) (ps_scope p7)"
      "name_in (scope_view (ps_pool p7) (ps_scope p7)) (map_option (named (ps_pool p7)) (qn_prefix name))
        (map_option (named (ps_pool p7)) (en_namespace (qn_expanded name)))"
      "list_all (att_fine (ps_pool p7)) (ps_attributes p7)"
      "list_all (names_bound (ps_pool p7) (ps_scope p7)) (ps_attributes p7)"
    using assms(4) by (simp_all add: bound_tag_def)
  let ?pool = "ps_pool p8"
  have qk: "qname_known ?pool name" using qname_known_le [OF wg(2) t(1)] .
  have names: "map_option (named ?pool) (qn_prefix name) = map_option (named (ps_pool p7)) (qn_prefix name)"
      "map_option (named ?pool) (en_namespace (qn_expanded name)) = map_option (named (ps_pool p7)) (en_namespace (qn_expanded name))"
    using t(1) pool_le_named_option [OF wg(2)] by (simp_all add: qname_known_def)
  have as: "map (attribute_of ?pool) (ps_attributes p7) = map (attribute_of (ps_pool p7)) (ps_attributes p7)"
    by (rule declares_le [OF t(4) wg(2)])
  have ok4: "names_ok p4"
    using names_ok_begun [OF _ b4(1)] assms(1) b4(2) by (simp add: names_ok_def)
  have ok8: "names_ok p8"
  proof -
    have le48: "pool_le (ps_pool p4) ?pool" using begunD(2) [OF begun_trans [OF b7 b8]] .
    note f48 = begun_fields [OF begun_trans [OF b7 b8]]
    have "scope_fine ?pool (ps_scope p8)" using scope_fine_le [OF wg(2) t(2)] g by simp
    moreover have "reserved_ok ?pool" "list_all (element_known ?pool) (ps_open p4)"
      using ok4 reserved_ok_le [OF le48] elements_known_le [OF le48] by (simp_all add: names_ok_def)
    moreover have "resolve ?pool (ps_space_name p4) = Some (lit ''space'')" "resolve ?pool (ps_id_name p4) = Some (lit ''id'')"
      using ok4 le48 by (simp_all add: names_ok_def pool_le_def del: lit_Cons)
    ultimately show ?thesis using ok4 wg f48 by (simp add: names_ok_def del: lit_Cons)
  qed
  let ?as = "map (tidied p8) (ps_attributes p7)"
  have fine: "list_all (att_fine ?pool) ?as"
    using att_fine_all_le [OF wg(2) t(4)] by (auto simp: list_all_iff tidied_fine)
  have bound8: "names_bound ?pool (ps_scope p7) a" if a: "a \<in> set (ps_attributes p7)" for a
  proof -
    have "scope_view ?pool (ps_scope p7) = scope_view (ps_pool p7) (ps_scope p7)"
      using scope_view_append [OF wg(2) t(2), of "[]"] by (simp add: rebound_def)
    moreover have "attribute_of ?pool a = attribute_of (ps_pool p7) a" using as a by simp
    moreover have "names_bound (ps_pool p7) (ps_scope p7) a" using t(5) a by (simp add: list_all_iff)
    ultimately show ?thesis by (simp add: names_bound_def Let_def)
  qed
  have same: "tidied p8 a = a" if "a \<in> set (ps_attributes p7)" "pa_declares a" for a
    using tidied_declares bound8 [OF that(1)] that(2) by blast
  have decl: "declarations (map (attribute_of ?pool) ?as) = declarations (map (attribute_of (ps_pool p7)) (ps_attributes p7))"
  proof -
    have "declarations (map (attribute_of ?pool) (map (tidied p8) xs)) = declarations (map (attribute_of ?pool) xs)"
      if "set xs \<subseteq> set (ps_attributes p7)" for xs
      using that
    proof (induction xs)
      case (Cons a xs)
      then have "declares_namespace (attribute_of ?pool a) \<Longrightarrow> tidied p8 a = a"
        using same [of a] att_fine_all_le [OF wg(2) t(4)] by (auto simp: list_all_iff att_fine_def)
      moreover have "declares_namespace (attribute_of ?pool (tidied p8 a)) = declares_namespace (attribute_of ?pool a)"
        by (simp add: declares_namespace_def)
      ultimately show ?case using Cons by (auto simp: declarations_Cons)
    qed simp
    then show ?thesis using as by (metis order_refl)
  qed
  have view: "scope_view ?pool (ps_scope p8) = rebound (scope_view (ps_pool p) (ps_scope p)) (declarations (map (attribute_of ?pool) ?as))"
  proof -
    have "map (binding_of ?pool) bs = map (binding_of (ps_pool p7)) bs" by (rule bindings_of_le [OF wg(2) bs(2)])
    then show ?thesis
      using scope_view_append [OF le, of "ps_scope p" bs] assms(1) bs g b4(2) decl by (simp add: names_ok_def del: map_eq_conv)
  qed
  have "start_bound (scope_view (ps_pool p) (ps_scope p)) (start_view ?q)"
    unfolding start_bound_def Let_def
  proof (intro conjI ballI impI)
    have v: "se_attributes (start_view ?q) = map (attribute_of ?pool) ?as"
      by (simp add: start_view_def open_element_of_def g)
    fix v assume v1: "v \<in> set (se_attributes (start_view ?q))"
    then obtain a where a: "a \<in> set (ps_attributes p7)" "v = attribute_of ?pool (tidied p8 a)" by (auto simp: v)
    have fa: "att_fine ?pool (tidied p8 a)" using fine a(1) by (simp add: list_all_iff)
    then show "list_all is_char (at_value v)" by (simp add: a(2) att_fine_def attribute_of_def)
    show "\<not> bad_declaration (declared_prefix v) (at_value v)" if "declares_namespace v"
    proof -
      have "pa_declares a" using fa that by (simp add: a(2) att_fine_def)
      moreover have "\<forall>a\<in>set (ps_attributes p7). pa_declares a \<longrightarrow>
          \<not> bad_declaration (declared_prefix (attribute_of (ps_pool p7) a)) (pa_value a)"
        using assms(4) by (simp add: bound_tag_def)
      moreover have "attribute_of ?pool a = attribute_of (ps_pool p7) a" using as a(1) by simp
      ultimately show ?thesis using same [OF a(1)] a by (auto simp: attribute_of_def)
    qed
    show "attribute_ok (rebound (scope_view (ps_pool p) (ps_scope p)) (declarations (se_attributes (start_view ?q)))) v"
      if "\<not> declares_namespace v"
    proof -
      have "names_bound ?pool (ps_scope p8) (tidied p8 a)" using bound8 [OF a(1)] by (simp add: tidied_bound g)
      moreover have "pa_value (tidied p8 a) \<in> {lit ''default'', lit ''preserve''}"
        if "in_xml_namespace (tidied p8 a) (ps_space_name p8)"
      proof -
        have i: "in_xml_namespace a (ps_space_name p8)" using that by (simp add: in_xml_namespace_def)
        then have "tidied p8 a = a" using tidied_space space_not_id [OF ok8] by blast
        then show ?thesis using assms(7) a(1) i g by simp
      qed
      ultimately have "attribute_ok (scope_view ?pool (ps_scope p8)) (attribute_of ?pool (tidied p8 a))"
        using attribute_fine_ok [OF ok8 fa] that by (simp add: a(2))
      then show ?thesis by (simp add: v view a(2))
    qed
  next
    have "name_in (scope_view ?pool (ps_scope p8)) (map_option (named ?pool) (qn_prefix name))
        (map_option (named ?pool) (en_namespace (qn_expanded name)))"
      using t(3) names scope_view_append [OF wg(2) t(2), of "[]"] g by (simp add: rebound_def)
    then show "name_in (rebound (scope_view (ps_pool p) (ps_scope p)) (declarations (se_attributes (start_view ?q))))
        (se_prefix (start_view ?q)) (se_namespace (start_view ?q))"
      unfolding view by (simp add: start_view_def open_element_of_def g)
  qed
  moreover have "map (binding_of (ps_pool ?q)) bs = declarations (se_attributes (start_view ?q))"
    using bindings_of_le [OF wg(2) bs(2)] bs(3) decl by (simp add: open_element_of_def start_view_def g del: map_eq_conv)
  moreover have "names_ok ?q"
    using ok8 qk assms(1,6) b4(2)
    by (simp add: names_ok_def open_element_of_def element_known_def scope_mark_def scope_fine_def del: lit_Cons)
  moreover have "settled p ?q" using s by (simp add: settled_def open_element_of_def)
  ultimately show ?thesis
    using fine f s le assms(2,6) bs(1) b4(2)
    by (simp add: opens_def open_element_of_def g scope_mark_def del: map_eq_conv)
qed

lemma enter_element_does:
  "does enter_element p (calm l n) (\<lambda>_ q. ps_phase p \<noteq> InEpilog \<and> q = p\<lparr>ps_phase := InContent\<rparr>)"
  by (auto simp: enter_element_def does_def Let_def split: option.split)

text \<open>What \<open>start_tag\<close> does, in one statement.\<close>

lemma start_tag_does:
  assumes "tag_ready l p" "list_all is_char tag"
  shows "does (start_tag E tag) p (calm l (env_nesting E)) (\<lambda>k q. k = token_kind.StartElement \<and> opens p q)"
proof -
  define cl where "cl \<longleftrightarrow> 2 \<le> length tag \<and> tag ! (length tag - 2) = SLASH"
  define body where "body = take (length tag - 1 - (if cl then 2 else 1)) (drop 1 tag)"
  define written where "written = takeWhile (\<lambda>c. \<not> is_whitespace c) body"
  have chars: "list_all is_char (drop (length written) body)"
    using assms(2) by (auto simp: body_def list_all_iff dest!: in_set_dropD in_set_takeD)
  have rest: "does (and_then (parse_attributes E (drop (length written) body)) (\<lambda>_.
        and_then (intern_name written) (\<lambda>element.
        and_then (apply_dtd_attributes E element) (\<lambda>_. reading (\<lambda>p0.
        and_then declare_namespaces (\<lambda>_.
        and_then (resolve_element_name written) (\<lambda>name.
        and_then resolve_attribute_names (\<lambda>_.
        and_then space_and_lang (\<lambda>(space, lang).
        and_then normalize_xml_id (\<lambda>_.
        and_then element_base (\<lambda>base.
        and_then (modify (open_element_of name written (scope_mark (ps_scope p0)) space lang base cl)) (\<lambda>_.
        ok token_kind.StartElement)))))))))))) (p\<lparr>ps_phase := InContent\<rparr>) (calm l (env_nesting E))
        (\<lambda>k q. k = token_kind.StartElement \<and> opens p q)" if phase: "ps_phase p \<noteq> InEpilog"
  proof -
    let ?p1 = "p\<lparr>ps_phase := InContent\<rparr>"
    have ready: "tag_ready l ?p1" using assms(1) by (simp add: tag_ready_def names_ok_def)
    show ?thesis
      unfolding does_and_then
    proof (rule does_post [OF collect_does [OF ready chars]], rule does_post, assumption, rule does_post, assumption)
      fix u p4 assume c: "collecting ?p1 p4"
      have ok4: "names_ok p4" using tag_ready_collecting [OF ready c] by (simp add: tag_ready_def)
      have as4: "list_all (att_fine (ps_pool p4)) (ps_attributes p4)" using c by (simp add: collecting_def)
      have finish: "does space_and_lang p7 (calm l (env_nesting E)) (\<lambda>r q.
          does (case r of (space, lang) \<Rightarrow> and_then normalize_xml_id (\<lambda>_. and_then element_base (\<lambda>base.
            and_then (modify (open_element_of name written (scope_mark (ps_scope p4)) space lang base cl)) (\<lambda>_.
            ok token_kind.StartElement)))) q (calm l (env_nesting E)) (\<lambda>k q. k = token_kind.StartElement \<and> opens p q))"
        if b: "bound_tag p4 p7 name" for p7 name
      proof -
        have b7: "begun p4 p7" using b by (simp add: bound_tag_def)
        have lang: "knows_option (ps_pool p7) (inherited_lang p7)"
          using elements_known_le [OF begunD(2) [OF b7], of "ps_open p4"] ok4 begun_fields [OF b7]
          by (auto simp: inherited_lang_def names_ok_def element_known_def list_all_iff)
        show ?thesis
          unfolding space_and_lang_def does_reading
        proof (rule does_post [OF space_and_lang_loop_does [OF begunD(1) [OF b7] lang]], clarify)
          fix space :: xml_space and lang p8
          assume h: "grown p7 p8" "knows_option (ps_pool p8) (snd (space, lang))"
            "\<forall>a\<in>set (ps_attributes p7). in_xml_namespace a (ps_space_name p7) \<longrightarrow> pa_value a \<in> {lit ''default'', lit ''preserve''}"
          have "does element_base q (calm l (env_nesting E)) (\<lambda>base r.
              opens p (open_element_of name written (scope_mark (ps_scope p4)) space lang base cl r))"
            if "q = p8\<lparr>ps_attributes := map (tidied p8) (ps_attributes p8)\<rparr>" for q
            by (rule does_post [OF element_base_does])
               (use open_element_opens [OF _ phase c b h(1) _ h(3)] assms(1) h(2) that in \<open>simp add: tag_ready_def del: lit_Cons\<close>)
          then show "does (and_then normalize_xml_id (\<lambda>_. and_then element_base (\<lambda>base.
              and_then (modify (open_element_of name written (scope_mark (ps_scope p4)) space lang base cl)) (\<lambda>_.
              ok token_kind.StartElement)))) p8 (calm l (env_nesting E)) (\<lambda>k q. k = token_kind.StartElement \<and> opens p q)"
            by (simp add: does_simps normalize_xml_id_does)
        qed
      qed
      have bound: "does declare_namespaces p4 (calm l (env_nesting E)) (\<lambda>_ q. does (resolve_element_name written) q (calm l (env_nesting E))
         (\<lambda>name r. does resolve_attribute_names r (calm l (env_nesting E)) (\<lambda>_ s. bound_tag p4 s name)))"
        by (rule bind_does [OF ok4 as4])
      show "does (reading (\<lambda>p0. and_then declare_namespaces (\<lambda>_.
          and_then (resolve_element_name written) (\<lambda>name.
          and_then resolve_attribute_names (\<lambda>_.
          and_then space_and_lang (\<lambda>(space, lang).
          and_then normalize_xml_id (\<lambda>_.
          and_then element_base (\<lambda>base.
          and_then (modify (open_element_of name written (scope_mark (ps_scope p0)) space lang base cl)) (\<lambda>_.
          ok token_kind.StartElement))))))))) p4 (calm l (env_nesting E)) (\<lambda>k q. k = token_kind.StartElement \<and> opens p q)"
        unfolding does_reading does_and_then
        by (rule does_post [OF bound], rule does_post, assumption, rule does_post, assumption) (rule finish)
    qed
  qed
  show ?thesis
    unfolding start_tag_def cl_def [symmetric] body_def [symmetric] written_def [symmetric] Let_def
    by (rule does_then [OF enter_element_does]) (use rest in auto)
qed

end
