(* ===== verification/Dtd_Read.thy ===== *)
theory Dtd_Read
  imports Dtd_Layout Pool_Growth
begin

text \<open>
  One pass of the DTD reader over its buffer, \<open>DtdParser\<close> of \<open>dtd/read.rs\<close>: a recursive descent over the
  declarations that rewrites the buffer where a parameter entity is referenced.

  A method of the parser is an action on its state. It stops for a parameter entity that has to be fetched
  (\<open>Pause\<close>), with an error (\<open>Fatal\<close>; messages and locations are left out, but where the code computes a
  location, the slices it takes are checked), or with a panic (\<open>Crash\<close>). The loops take a number of turns,
  and a loop that needs more stops with \<open>OutOfTurns\<close>: a pass need not end, because replacement text is read
  again and may refer to its own entity. Every function that loops passes its number of turns on, so the
  number bounds each loop of a pass, not their sum.
\<close>

section \<open>The state\<close>

record dtd_parser =
  dr_pool :: name_pool
  dr_buf :: ustring
  dr_layout :: layout
  dr_pos :: nat
  dr_dtd :: dtd

datatype dtd_stop = Pause external_pe | Fatal error | Crash | OutOfTurns

type_synonym 'r read = "(dtd_stop, 'r, dtd_parser) action"

definition remaining :: "dtd_parser \<Rightarrow> ustring" where
  "remaining p = drop (dr_pos p) (dr_buf p)"

definition peek :: "dtd_parser \<Rightarrow> uchar option" where
  "peek p = (case remaining p of [] \<Rightarrow> None | c # _ \<Rightarrow> Some c)"

definition in_external :: "dtd_parser \<Rightarrow> bool" where
  "in_external p = is_external_at (dr_layout p) (dr_pos p)"

definition move :: "nat \<Rightarrow> unit read" where
  "move n = modify (\<lambda>p. p\<lparr>dr_pos := dr_pos p + n\<rparr>)"

definition move_to :: "nat \<Rightarrow> unit read" where
  "move_to pos = modify (\<lambda>p. p\<lparr>dr_pos := pos\<rparr>)"

definition change_dtd :: "(dtd \<Rightarrow> dtd) \<Rightarrow> unit read" where
  "change_dtd f = modify (\<lambda>p. p\<lparr>dr_dtd := f (dr_dtd p)\<rparr>)"

section \<open>Low-level scanning\<close>

definition reader_error :: "'r read" where
  "reader_error = reading (\<lambda>p.
     case location_at (dr_layout p) (dr_buf p) (dr_pos p) of
       None \<Rightarrow> fail Crash
     | Some _ \<Rightarrow> fail (Fatal WellFormedness))"

definition skip_whitespace :: "unit read" where
  "skip_whitespace = reading (\<lambda>p. move (length (takeWhile is_whitespace (remaining p))))"

definition consume :: "ustring \<Rightarrow> bool read" where
  "consume literal = reading (\<lambda>p.
     if starts_with literal (remaining p) then and_then (move (length literal)) (\<lambda>_. ok True) else ok False)"

definition ends_keyword :: "ustring \<Rightarrow> bool" where
  "ends_keyword s =
     (case s of [] \<Rightarrow> True
      | c # _ \<Rightarrow> is_whitespace c \<or> c = cp CHR ''('' \<or> c = GT \<or> c = PERCENT)"

definition consume_keyword :: "ustring \<Rightarrow> bool read" where
  "consume_keyword keyword = reading (\<lambda>p.
     case strip_prefix keyword (remaining p) of
       Some tail \<Rightarrow> if ends_keyword tail then and_then (move (length keyword)) (\<lambda>_. ok True) else ok False
     | None \<Rightarrow> ok False)"

definition expect :: "uchar \<Rightarrow> unit read" where
  "expect c = reading (\<lambda>p. if peek p = Some c then move 1 else reader_error)"

definition expect_quote :: "uchar read" where
  "expect_quote = reading (\<lambda>p.
     case peek p of
       Some q \<Rightarrow> if q = QUOT \<or> q = APOS then and_then (move 1) (\<lambda>_. ok q) else reader_error
     | None \<Rightarrow> reader_error)"

definition until :: "uchar \<Rightarrow> ustring read" where
  "until delimiter = reading (\<lambda>p.
     case split_once delimiter (remaining p) of
       Some (text, _) \<Rightarrow> and_then (move (length text)) (\<lambda>_. ok text)
     | None \<Rightarrow> reader_error)"

definition intern_dtd :: "ustring \<Rightarrow> name_id read" where
  "intern_dtd name = reading (\<lambda>p.
     case location_at (dr_layout p) (dr_buf p) (dr_pos p) of
       None \<Rightarrow> fail Crash
     | Some _ \<Rightarrow>
         (case intern (dr_pool p) name of
            Inl e \<Rightarrow> fail (Fatal e)
          | Inr (h, pool) \<Rightarrow> and_then (modify (\<lambda>p. p\<lparr>dr_pool := pool\<rparr>)) (\<lambda>_. ok h)))"

definition resolve_dtd :: "name_id \<Rightarrow> ustring read" where
  "resolve_dtd h = reading (\<lambda>p. case resolve_own (dr_pool p) h of None \<Rightarrow> fail Crash | Some s \<Rightarrow> ok s)"

definition word_at :: "dtd_parser \<Rightarrow> ustring" where
  "word_at p = takeWhile is_name_char (remaining p)"

definition raw_name :: "name_id read" where
  "raw_name = reading (\<lambda>p.
     if \<not> is_name (word_at p) then reader_error
     else and_then (move (length (word_at p))) (\<lambda>_. intern_dtd (word_at p)))"

definition nmtoken :: "name_id read" where
  "nmtoken = reading (\<lambda>p.
     if \<not> is_nmtoken (word_at p) then reader_error
     else and_then (move (length (word_at p))) (\<lambda>_. intern_dtd (word_at p)))"

definition system_literal :: "ustring read" where
  "system_literal =
     and_then expect_quote (\<lambda>quote.
     and_then (until quote) (\<lambda>text.
     and_then (move 1) (\<lambda>_.
     ok text)))"

definition pubid_literal :: "ustring read" where
  "pubid_literal =
     and_then expect_quote (\<lambda>quote.
     and_then (until quote) (\<lambda>text.
     if \<not> list_all is_pubid_char text then reader_error
     else and_then (move 1) (\<lambda>_. ok text)))"

definition close_declaration :: "unit read" where
  "close_declaration = and_then skip_whitespace (\<lambda>_. expect GT)"

section \<open>Parameter entity references\<close>

definition peek_pe_start :: "dtd_parser \<Rightarrow> bool" where
  "peek_pe_start p = (case remaining p of c # d # _ \<Rightarrow> c = PERCENT \<and> is_name_start_char d | _ \<Rightarrow> False)"

definition splice :: "span \<Rightarrow> ustring \<Rightarrow> span \<Rightarrow> unit read" where
  "splice part replacement content = modify (\<lambda>p. p\<lparr>
     dr_layout := splice_layout part (length replacement) content (span_len part) None (dr_layout p),
     dr_buf := replace_range part replacement (dr_buf p)\<rparr>)"

definition pause :: "name_id \<Rightarrow> ustring option \<Rightarrow> ustring \<Rightarrow> ustring option \<Rightarrow> span \<Rightarrow> bool \<Rightarrow> 'r read" where
  "pause name public_id system_id base part in_literal =
     and_then (resolve_dtd name) (\<lambda>display. reading (\<lambda>p.
       case location_at (dr_layout p) (dr_buf p) (fst part) of
         None \<Rightarrow> fail Crash
       | Some at \<Rightarrow> fail (Pause
           \<lparr>pe_name = display, pe_public_id = public_id, pe_system_id = system_id, pe_base = base,
             pe_location = at, pe_at = fst part, pe_end = snd part, pe_in_literal = in_literal\<rparr>)))"

text \<open>The reference at the cursor: the name, with the cursor moved past the \<open>;\<close>.\<close>

definition pe_reference :: "name_id read" where
  "pe_reference =
     and_then (move 1) (\<lambda>_.
     and_then raw_name (\<lambda>name.
     and_then (expect SEMI) (\<lambda>_.
     ok name)))"

definition undeclared :: "name_id \<Rightarrow> 'r read" where
  "undeclared name = and_then (resolve_dtd name) (\<lambda>_. reader_error)"

definition expand_one :: "unit read" where
  "expand_one = reading (\<lambda>p0.
     and_then pe_reference (\<lambda>name. reading (\<lambda>p.
       case d_parameter (dr_dtd p) name of
         Some (PInternal text) \<Rightarrow>
           and_then (splice (dr_pos p0, dr_pos p) ([0x20] @ text @ [0x20]) (1, 1 + length text)) (\<lambda>_.
             move_to (dr_pos p0 + 1))
       | Some (PExternal public_id system_id base) \<Rightarrow>
           pause name public_id system_id base (dr_pos p0, dr_pos p) False
       | None \<Rightarrow> undeclared name)))"

fun expand_parameter_entity :: "nat \<Rightarrow> unit read" where
  "expand_parameter_entity 0 = fail OutOfTurns"
| "expand_parameter_entity (Suc n) = reading (\<lambda>p.
     if peek_pe_start p then and_then expand_one (\<lambda>_. expand_parameter_entity n) else ok ())"

definition expand_in_external :: "nat \<Rightarrow> unit read" where
  "expand_in_external n = reading (\<lambda>p. if in_external p then expand_parameter_entity n else ok ())"

definition read_name :: "nat \<Rightarrow> name_id read" where
  "read_name n = and_then (expand_in_external n) (\<lambda>_. raw_name)"

definition skip_separators :: "nat \<Rightarrow> unit read" where
  "skip_separators n =
     and_then skip_whitespace (\<lambda>_. reading (\<lambda>p.
       if in_external p then and_then (expand_parameter_entity n) (\<lambda>_. skip_whitespace) else ok ()))"

definition white_next :: "dtd_parser \<Rightarrow> bool" where
  "white_next p = (case peek p of None \<Rightarrow> False | Some c \<Rightarrow> is_whitespace c)"

definition require_whitespace :: "nat \<Rightarrow> unit read" where
  "require_whitespace n = reading (\<lambda>p.
     if in_external p \<and> peek_pe_start p then expand_parameter_entity n
     else if white_next p then and_then skip_whitespace (\<lambda>_. expand_in_external n)
     else reader_error)"

end
