(* ===== verification/Dtd_Declarations.thy ===== *)
theory Dtd_Declarations
  imports Dtd_Read
begin

text \<open>
  The declarations of a DTD, \<open>dtd/read.rs\<close>: literals, content models, attribute definitions, conditional
  sections, and the loop over the buffer. Every function is an action on the parser of \<open>Dtd_Read\<close>.
\<close>

section \<open>Literals\<close>

text \<open>
  \<open>u32::from_str_radix\<close>, which also takes a \<open>+\<close> before the digits.
\<close>

definition digit_of :: "nat \<Rightarrow> uchar \<Rightarrow> nat option" where
  "digit_of radix c =
     (let d = (if is_ascii_digit c then Some (c - 0x30)
               else if 0x61 \<le> c \<and> c \<le> 0x7A then Some (c - 0x61 + 10)
               else if 0x41 \<le> c \<and> c \<le> 0x5A then Some (c - 0x41 + 10) else None)
      in case d of None \<Rightarrow> None | Some v \<Rightarrow> if v < radix then Some v else None)"

fun radix_value :: "nat \<Rightarrow> nat \<Rightarrow> ustring \<Rightarrow> nat option" where
  "radix_value radix acc [] = Some acc"
| "radix_value radix acc (c # cs) =
     (case digit_of radix c of
        None \<Rightarrow> None
      | Some d \<Rightarrow> if u32_max < acc * radix + d then None else radix_value radix (acc * radix + d) cs)"

definition from_str_radix :: "nat \<Rightarrow> ustring \<Rightarrow> nat option" where
  "from_str_radix radix s =
     (case s of
        [] \<Rightarrow> None
      | c # cs \<Rightarrow> if c = cp CHR ''+'' \<and> cs \<noteq> [] then radix_value radix 0 cs else radix_value radix 0 s)"

definition reference_digits :: "ustring read" where
  "reference_digits = reading (\<lambda>p.
     let digits = takeWhile (\<lambda>c. c \<noteq> SEMI) (remaining p) in and_then (move (length digits)) (\<lambda>_. ok digits))"

definition referenced_char :: "nat \<Rightarrow> ustring \<Rightarrow> uchar option" where
  "referenced_char radix digits =
     (case from_str_radix radix digits of
        None \<Rightarrow> None
      | Some c \<Rightarrow> if scalar c \<and> is_char c then Some c else None)"

definition char_reference_in_literal :: "ustring read" where
  "char_reference_in_literal =
     and_then (consume [cp CHR ''x'']) (\<lambda>hex.
     and_then reference_digits (\<lambda>digits.
     if digits = [] then reader_error
     else case referenced_char (if hex then 16 else 10) digits of
       None \<Rightarrow> reader_error
     | Some c \<Rightarrow> and_then (expect SEMI) (\<lambda>_. ok [c])))"

text \<open>The reference after a consumed \<open>&\<close>, as the text it adds to the literal.\<close>

definition reference_in_literal :: "nat \<Rightarrow> bool \<Rightarrow> ustring read" where
  "reference_in_literal n require_declared =
     and_then (consume [HASH]) (\<lambda>numeric.
     if numeric then char_reference_in_literal
     else
       and_then (read_name n) (\<lambda>name.
       and_then (expect SEMI) (\<lambda>_. reading (\<lambda>p.
         if require_declared \<and> d_general (dr_dtd p) name = None then undeclared name
         else and_then (resolve_dtd name) (\<lambda>s. ok ([AMP] @ s @ [SEMI]))))))"

text \<open>A parameter entity reference in an entity value: its replacement text, included as literal data.\<close>

definition included_in_literal :: "ustring read" where
  "included_in_literal = reading (\<lambda>p0.
     and_then pe_reference (\<lambda>name. reading (\<lambda>p.
       case d_parameter (dr_dtd p) name of
         Some (PInternal text) \<Rightarrow> ok text
       | Some (PExternal public_id system_id base) \<Rightarrow>
           and_then (move_to (dr_pos p0)) (\<lambda>_.
             pause name public_id system_id base (dr_pos p0, dr_pos p) True)
       | None \<Rightarrow> undeclared name)))"

fun entity_value_loop :: "nat \<Rightarrow> uchar \<Rightarrow> ustring \<Rightarrow> ustring read" where
  "entity_value_loop 0 quote out = fail OutOfTurns"
| "entity_value_loop (Suc n) quote out = reading (\<lambda>p.
     if in_external p \<and> peek_pe_start p then
       and_then included_in_literal (\<lambda>text. entity_value_loop n quote (out @ text))
     else case peek p of
       None \<Rightarrow> reader_error
     | Some c \<Rightarrow>
         and_then (move 1) (\<lambda>_.
           if c = quote then ok out
           else if c = PERCENT then reader_error
           else if c = AMP then
             and_then (reference_in_literal n False) (\<lambda>text. entity_value_loop n quote (out @ text))
           else entity_value_loop n quote (out @ [c])))"

definition entity_value :: "nat \<Rightarrow> ustring read" where
  "entity_value n = and_then expect_quote (\<lambda>quote. entity_value_loop n quote [])"

fun default_value_loop :: "nat \<Rightarrow> uchar \<Rightarrow> ustring \<Rightarrow> ustring read" where
  "default_value_loop 0 quote out = fail OutOfTurns"
| "default_value_loop (Suc n) quote out = reading (\<lambda>p.
     case peek p of
       None \<Rightarrow> reader_error
     | Some c \<Rightarrow>
         and_then (move 1) (\<lambda>_.
           if c = quote then ok out
           else if c = LT then reader_error
           else if c = 0x9 \<or> c = 0xA \<or> c = 0xD then default_value_loop n quote (out @ [0x20])
           else if c = AMP then
             and_then (reference_in_literal n True) (\<lambda>text. default_value_loop n quote (out @ text))
           else default_value_loop n quote (out @ [c])))"

definition attribute_default_value :: "nat \<Rightarrow> att_type \<Rightarrow> ustring read" where
  "attribute_default_value n ty =
     and_then expect_quote (\<lambda>quote.
     and_then (default_value_loop n quote []) (\<lambda>out.
     ok (normalize_tokenized out (is_tokenized ty))))"

definition external_id_of :: "nat \<Rightarrow> bool \<Rightarrow> external_id read" where
  "external_id_of n allow_public_only =
     and_then (consume_keyword (lit ''SYSTEM'')) (\<lambda>system.
     if system then
       and_then (require_whitespace n) (\<lambda>_.
       and_then system_literal (\<lambda>system_id.
       ok \<lparr>xi_public_id = None, xi_system_id = Some system_id\<rparr>))
     else
       and_then (consume_keyword (lit ''PUBLIC'')) (\<lambda>public.
       if public then
         and_then (require_whitespace n) (\<lambda>_.
         and_then pubid_literal (\<lambda>public_id. reading (\<lambda>p.
         and_then skip_whitespace (\<lambda>_. reading (\<lambda>q.
           if allow_public_only \<and> (peek q = Some GT \<or> peek q = None) then
             ok \<lparr>xi_public_id = Some public_id, xi_system_id = None\<rparr>
           else if \<not> white_next p then reader_error
           else
             and_then system_literal (\<lambda>system_id.
             ok \<lparr>xi_public_id = Some public_id, xi_system_id = Some system_id\<rparr>))))))
       else reader_error))"

definition peek_external :: "dtd_parser \<Rightarrow> bool" where
  "peek_external p \<longleftrightarrow> starts_with (lit ''SYSTEM'') (remaining p) \<or> starts_with (lit ''PUBLIC'') (remaining p)"

text \<open>\<open>id.system_id.expect(..)\<close>.\<close>

definition required_system_id :: "external_id \<Rightarrow> ustring read" where
  "required_system_id i = (case xi_system_id i of None \<Rightarrow> fail Crash | Some s \<Rightarrow> ok s)"

section \<open>Content models\<close>

definition MAX_CONTENT_DEPTH :: nat where
  "MAX_CONTENT_DEPTH = 1024"

definition occurrence :: "occurs read" where
  "occurrence = reading (\<lambda>p.
     if peek p = Some QUESTION then and_then (move 1) (\<lambda>_. ok Optional)
     else if peek p = Some (cp CHR ''*'') then and_then (move 1) (\<lambda>_. ok ZeroOrMore)
     else if peek p = Some (cp CHR ''+'') then and_then (move 1) (\<lambda>_. ok OneOrMore)
     else ok Once)"

abbreviation (input) BAR :: uchar where "BAR \<equiv> 0x7C"
abbreviation (input) COMMA :: uchar where "COMMA \<equiv> 0x2C"
abbreviation (input) OPAREN :: uchar where "OPAREN \<equiv> 0x28"
abbreviation (input) CPAREN :: uchar where "CPAREN \<equiv> 0x29"

fun mixed_names :: "nat \<Rightarrow> name_id list \<Rightarrow> name_id list read" where
  "mixed_names 0 names = fail OutOfTurns"
| "mixed_names (Suc n) names = reading (\<lambda>p.
     if peek p = Some CPAREN then ok names
     else if peek p = Some BAR then
       and_then (move 1) (\<lambda>_.
       and_then (skip_separators n) (\<lambda>_.
       and_then (read_name n) (\<lambda>name.
       and_then (skip_separators n) (\<lambda>_.
       mixed_names n (names @ [name])))))
     else reader_error)"

definition mixed_content :: "nat \<Rightarrow> content_spec read" where
  "mixed_content n =
     and_then (expect OPAREN) (\<lambda>_.
     and_then (skip_separators n) (\<lambda>_.
     and_then (consume (lit ''#PCDATA'')) (\<lambda>pcdata.
     if \<not> pcdata then reader_error
     else
       and_then (skip_separators n) (\<lambda>_.
       and_then (mixed_names n []) (\<lambda>names.
       and_then (expect CPAREN) (\<lambda>_.
       and_then (consume [cp CHR ''*'']) (\<lambda>star.
       if names \<noteq> [] \<and> \<not> star then reader_error else ok (Mixed names))))))))"

text \<open>The particles after the first, each read by \<open>particle\<close>; the separator is \<open>|\<close> or \<open>,\<close>.\<close>

fun particles_loop :: "nat \<Rightarrow> content_particle read \<Rightarrow> uchar \<Rightarrow> content_particle list \<Rightarrow> content_particle read" where
  "particles_loop 0 particle separator particles = fail OutOfTurns"
| "particles_loop (Suc n) particle separator particles = reading (\<lambda>p.
     if peek p = Some separator then
       and_then (move 1) (\<lambda>_.
       and_then (skip_separators n) (\<lambda>_.
       and_then particle (\<lambda>x.
       and_then (skip_separators n) (\<lambda>_.
       particles_loop n particle separator (particles @ [x])))))
     else if peek p = Some CPAREN then
       and_then (move 1) (\<lambda>_.
       and_then occurrence (\<lambda>occurs.
       ok (if separator = BAR then Choice particles occurs else Seq particles occurs)))
     else reader_error)"

definition choice_or_seq :: "nat \<Rightarrow> content_particle read \<Rightarrow> content_particle read" where
  "choice_or_seq n particle =
     and_then (expect OPAREN) (\<lambda>_.
     and_then (skip_separators n) (\<lambda>_.
     and_then particle (\<lambda>x.
     and_then (skip_separators n) (\<lambda>_. reading (\<lambda>p.
       if peek p = Some BAR then particles_loop n particle BAR [x]
       else if peek p = Some COMMA then particles_loop n particle COMMA [x]
       else if peek p = Some CPAREN then
         and_then (move 1) (\<lambda>_. and_then occurrence (\<lambda>occurs. ok (Seq [x] occurs)))
       else reader_error)))))"

text \<open>
  A particle with \<open>room\<close> more levels of groups allowed: the code counts the enclosing groups up from 0 and
  refuses a particle at a depth above \<open>MAX_CONTENT_DEPTH\<close>.
\<close>

primrec content_particle_within :: "nat \<Rightarrow> nat \<Rightarrow> content_particle read" where
  "content_particle_within n 0 = reader_error"
| "content_particle_within n (Suc room) =
     and_then (expand_in_external n) (\<lambda>_. reading (\<lambda>p.
       if peek p = Some OPAREN then choice_or_seq n (content_particle_within n room)
       else
         and_then (read_name n) (\<lambda>name.
         and_then occurrence (\<lambda>occurs.
         ok (Name name occurs)))))"

definition content_particle_of :: "nat \<Rightarrow> nat \<Rightarrow> content_particle read" where
  "content_particle_of n depth = content_particle_within n (MAX_CONTENT_DEPTH + 1 - depth)"

definition content_spec_of :: "nat \<Rightarrow> content_spec read" where
  "content_spec_of n =
     and_then (expand_in_external n) (\<lambda>_.
     and_then (consume_keyword (lit ''EMPTY'')) (\<lambda>none.
     if none then ok CEmpty
     else
       and_then (consume_keyword (lit ''ANY'')) (\<lambda>any.
       if any then ok CAny
       else reading (\<lambda>p.
         if peek p \<noteq> Some OPAREN then reader_error
         else if starts_with (lit ''#PCDATA'') (dropWhile is_whitespace (tl (remaining p))) then mixed_content n
         else and_then (content_particle_of n 0) (\<lambda>x. ok (Children x))))))"

section \<open>Attribute lists\<close>

fun group_loop :: "nat \<Rightarrow> name_id read \<Rightarrow> name_id list \<Rightarrow> name_id list read" where
  "group_loop 0 item names = fail OutOfTurns"
| "group_loop (Suc n) item names =
     and_then skip_whitespace (\<lambda>_.
     and_then item (\<lambda>name.
     and_then skip_whitespace (\<lambda>_. reading (\<lambda>p.
       if peek p = Some BAR then and_then (move 1) (\<lambda>_. group_loop n item (names @ [name]))
       else if peek p = Some CPAREN then and_then (move 1) (\<lambda>_. ok (names @ [name]))
       else reader_error))))"

definition group_of :: "nat \<Rightarrow> name_id read \<Rightarrow> name_id list read" where
  "group_of n item = and_then (expect OPAREN) (\<lambda>_. group_loop n item [])"

definition name_group :: "nat \<Rightarrow> name_id list read" where
  "name_group n = group_of n (read_name n)"

definition nmtoken_group :: "nat \<Rightarrow> name_id list read" where
  "nmtoken_group n = group_of n nmtoken"

text \<open>The keywords, tried in this order.\<close>

definition plain_types :: "(ustring \<times> att_type) list" where
  "plain_types =
     [(lit ''CDATA'', Cdata), (lit ''IDREFS'', IdRefs), (lit ''IDREF'', IdRef), (lit ''ID'', Id),
      (lit ''ENTITIES'', Entities), (lit ''ENTITY'', Entity), (lit ''NMTOKENS'', Nmtokens), (lit ''NMTOKEN'', Nmtoken)]"

fun keyword_type :: "(ustring \<times> att_type) list \<Rightarrow> att_type read \<Rightarrow> att_type read" where
  "keyword_type [] otherwise = otherwise"
| "keyword_type ((keyword, ty) # rest) otherwise =
     and_then (consume_keyword keyword) (\<lambda>found. if found then ok ty else keyword_type rest otherwise)"

definition attribute_type :: "nat \<Rightarrow> att_type read" where
  "attribute_type n = keyword_type plain_types
     (and_then (consume_keyword (lit ''NOTATION'')) (\<lambda>notation.
      if notation then
        and_then (require_whitespace n) (\<lambda>_. and_then (name_group n) (\<lambda>names. ok (Notation names)))
      else reading (\<lambda>p.
        if peek p = Some OPAREN then and_then (nmtoken_group n) (\<lambda>names. ok (Enumeration names))
        else reader_error)))"

definition default_declaration :: "nat \<Rightarrow> att_type \<Rightarrow> default_decl read" where
  "default_declaration n ty =
     and_then (consume (lit ''#REQUIRED'')) (\<lambda>required.
     if required then ok Required
     else
       and_then (consume (lit ''#IMPLIED'')) (\<lambda>implied.
       if implied then ok Implied
       else
         and_then (consume (lit ''#FIXED'')) (\<lambda>fixed.
         and_then (if fixed then require_whitespace n else ok ()) (\<lambda>_.
         and_then (attribute_default_value n ty) (\<lambda>text.
         ok (if fixed then Fixed text else Default text))))))"

definition attribute_definition :: "nat \<Rightarrow> att_def read" where
  "attribute_definition n =
     and_then (read_name n) (\<lambda>name.
     and_then (require_whitespace n) (\<lambda>_.
     and_then (attribute_type n) (\<lambda>ty.
     and_then (require_whitespace n) (\<lambda>_.
     and_then (default_declaration n ty) (\<lambda>def.
     ok \<lparr>ad_name = name, ad_type = ty, ad_default = def\<rparr>)))))"

fun attribute_definitions :: "nat \<Rightarrow> att_def list \<Rightarrow> att_def list read" where
  "attribute_definitions 0 defs = fail OutOfTurns"
| "attribute_definitions (Suc n) defs =
     and_then (skip_separators n) (\<lambda>_.
     and_then (consume [GT]) (\<lambda>close.
     if close then ok defs
     else and_then (attribute_definition n) (\<lambda>def. attribute_definitions n (defs @ [def]))))"

definition attlist_declaration :: "nat \<Rightarrow> unit read" where
  "attlist_declaration n = reading (\<lambda>p0.
     and_then (require_whitespace n) (\<lambda>_.
     and_then (read_name n) (\<lambda>element.
     and_then (if in_external p0 then change_dtd (\<lambda>d. mark_attlist_external d element) else ok ()) (\<lambda>_.
     and_then (attribute_definitions n []) (\<lambda>defs.
     change_dtd (\<lambda>d. declare_attributes d element defs))))))"

section \<open>Entities, elements and notations\<close>

definition parameter_entity_of :: "nat \<Rightarrow> ustring option \<Rightarrow> parameter_entity read" where
  "parameter_entity_of n base = reading (\<lambda>p.
     if peek_external p then
       and_then (external_id_of n False) (\<lambda>i.
       and_then (required_system_id i) (\<lambda>system_id.
       ok (PExternal (xi_public_id i) system_id base)))
     else and_then (entity_value n) (\<lambda>text. ok (PInternal text)))"

definition general_entity_def_of :: "nat \<Rightarrow> ustring option \<Rightarrow> general_entity read" where
  "general_entity_def_of n base = reading (\<lambda>p.
     if peek_external p then
       and_then (external_id_of n False) (\<lambda>i.
       and_then (required_system_id i) (\<lambda>system_id. reading (\<lambda>p1.
       and_then skip_whitespace (\<lambda>_. reading (\<lambda>p2.
         if starts_with (lit ''NDATA'') (remaining p2) then
           (if \<not> white_next p1 then reader_error
            else
              and_then (consume (lit ''NDATA'')) (\<lambda>_.
              and_then (require_whitespace n) (\<lambda>_.
              and_then (read_name n) (\<lambda>notation.
              ok (GUnparsed (xi_public_id i) system_id base notation)))))
         else ok (GExternal (xi_public_id i) system_id base))))))
     else and_then (entity_value n) (\<lambda>text. ok (GInternal text)))"

definition entity_declaration :: "nat \<Rightarrow> unit read" where
  "entity_declaration n = reading (\<lambda>p0.
     let from_external = in_external p0; base = base_at (dr_layout p0) (dr_pos p0) in
     and_then (require_whitespace n) (\<lambda>_.
     and_then (consume [PERCENT]) (\<lambda>parameter.
     and_then (if parameter then require_whitespace n else ok ()) (\<lambda>_.
     and_then (read_name n) (\<lambda>name.
     and_then (require_whitespace n) (\<lambda>_.
     if parameter then
       and_then (parameter_entity_of n base) (\<lambda>entity.
       and_then close_declaration (\<lambda>_.
       change_dtd (\<lambda>d. snd (declare_parameter_entity d name entity))))
     else
       and_then (general_entity_def_of n base) (\<lambda>entity.
       and_then close_declaration (\<lambda>_.
       and_then (change_dtd (\<lambda>d.
         if from_external \<and> d_general d name = None then mark_general_entity_external d name else d)) (\<lambda>_.
       change_dtd (\<lambda>d. snd (declare_general_entity d name entity)))))))))))"

text \<open>A declaration that must be the first of its name.\<close>

definition declare_once :: "(dtd \<Rightarrow> bool \<times> dtd) \<Rightarrow> name_id \<Rightarrow> unit read" where
  "declare_once f name = reading (\<lambda>p.
     and_then (change_dtd (\<lambda>d. snd (f d))) (\<lambda>_. if fst (f (dr_dtd p)) then ok () else undeclared name))"

definition element_declaration :: "nat \<Rightarrow> unit read" where
  "element_declaration n =
     and_then (require_whitespace n) (\<lambda>_.
     and_then (read_name n) (\<lambda>name.
     and_then (require_whitespace n) (\<lambda>_.
     and_then (content_spec_of n) (\<lambda>spec.
     and_then close_declaration (\<lambda>_.
     declare_once (\<lambda>d. declare_element d name spec) name)))))"

definition notation_declaration :: "nat \<Rightarrow> unit read" where
  "notation_declaration n =
     and_then (require_whitespace n) (\<lambda>_.
     and_then (read_name n) (\<lambda>name.
     and_then (require_whitespace n) (\<lambda>_.
     and_then (external_id_of n True) (\<lambda>i.
     and_then close_declaration (\<lambda>_.
     declare_once (\<lambda>d. declare_notation d name i) name)))))"

section \<open>Comments, processing instructions and conditional sections\<close>

definition skip_comment :: "unit read" where
  "skip_comment = reading (\<lambda>p.
     case find_sub (lit ''-->'') (remaining p) of
       Some i \<Rightarrow>
         (let body = take i (remaining p) in
          if find_sub (lit ''--'') body \<noteq> None \<or> (body \<noteq> [] \<and> last body = cp CHR ''-'') then reader_error
          else move (i + 3))
     | None \<Rightarrow> reader_error)"

definition skip_processing_instruction :: "unit read" where
  "skip_processing_instruction = reading (\<lambda>p.
     let target = takeWhile (\<lambda>c. \<not> is_whitespace c \<and> c \<noteq> QUESTION) (remaining p) in
     if \<not> is_name target then reader_error
     else if to_ascii_lowercase target = XML_PREFIX then reader_error
     else case find_sub (lit ''?>'') (remaining p) of
       Some i \<Rightarrow> move (i + 2)
     | None \<Rightarrow> reader_error)"

fun skip_ignored :: "nat \<Rightarrow> nat \<Rightarrow> unit read" where
  "skip_ignored 0 depth = fail OutOfTurns"
| "skip_ignored (Suc n) depth =
     (if depth = 0 then ok ()
      else reading (\<lambda>p.
        case find_sub (lit '']]>'') (remaining p) of
          None \<Rightarrow> reader_error
        | Some c \<Rightarrow>
            (case find_sub (lit ''<!['') (remaining p) of
               Some o' \<Rightarrow>
                 if o' < c then and_then (move (o' + 3)) (\<lambda>_. skip_ignored n (depth + 1))
                 else and_then (move (c + 3)) (\<lambda>_. skip_ignored n (depth - 1))
             | None \<Rightarrow> and_then (move (c + 3)) (\<lambda>_. skip_ignored n (depth - 1)))))"

definition same_pe_region :: "dtd_parser \<Rightarrow> nat \<Rightarrow> nat \<Rightarrow> bool" where
  "same_pe_region p a b \<longleftrightarrow> entity_at (dr_layout p) a = entity_at (dr_layout p) (b - 1)"

definition nested :: "unit read \<Rightarrow> unit read" where
  "nested declaration = reading (\<lambda>p0.
     and_then declaration (\<lambda>_. reading (\<lambda>p.
       if \<not> same_pe_region p (dr_pos p0) (dr_pos p) then reader_error else ok ())))"

text \<open>A conditional section, with the reader of the body of an \<open>INCLUDE\<close> section.\<close>

definition conditional_section :: "nat \<Rightarrow> unit read \<Rightarrow> unit read" where
  "conditional_section n body =
     and_then (move 3) (\<lambda>_.
     and_then skip_whitespace (\<lambda>_.
     and_then (expand_parameter_entity n) (\<lambda>_.
     and_then skip_whitespace (\<lambda>_.
     and_then (consume (lit ''INCLUDE'')) (\<lambda>included.
     and_then (if included then ok True else consume (lit ''IGNORE'')) (\<lambda>keyword.
     if \<not> keyword then reader_error
     else
       and_then skip_whitespace (\<lambda>_.
       and_then (consume [cp CHR ''['']) (\<lambda>open_bracket.
       if \<not> open_bracket then reader_error
       else if included then body else skip_ignored n 1))))))))"

definition markup_declaration :: "nat \<Rightarrow> unit read \<Rightarrow> unit read" where
  "markup_declaration n body =
     and_then (consume (lit ''<!--'')) (\<lambda>comment.
     if comment then skip_comment
     else reading (\<lambda>p.
       if starts_with (lit ''<!['') (remaining p) then
         (if \<not> in_external p then reader_error else conditional_section n body)
       else
         and_then (consume (lit ''<?'')) (\<lambda>pi.
         if pi then skip_processing_instruction
         else
           and_then (consume (lit ''<!ENTITY'')) (\<lambda>entity.
           if entity then entity_declaration n
           else
             and_then (consume (lit ''<!ELEMENT'')) (\<lambda>element.
             if element then element_declaration n
             else
               and_then (consume (lit ''<!ATTLIST'')) (\<lambda>attlist.
               if attlist then attlist_declaration n
               else
                 and_then (consume (lit ''<!NOTATION'')) (\<lambda>notation.
                 if notation then notation_declaration n else reader_error)))))))"

fun include_section :: "nat \<Rightarrow> unit read" where
  "include_section 0 = fail OutOfTurns"
| "include_section (Suc n) =
     and_then skip_whitespace (\<lambda>_.
     and_then (expand_parameter_entity n) (\<lambda>_.
     and_then skip_whitespace (\<lambda>_.
     and_then (consume (lit '']]>'')) (\<lambda>close.
     if close then ok ()
     else reading (\<lambda>p.
       if peek p = None then reader_error
       else
         and_then (nested (markup_declaration n (include_section n))) (\<lambda>_.
         include_section n))))))"

section \<open>A pass\<close>

fun read_declarations :: "nat \<Rightarrow> unit read" where
  "read_declarations 0 = fail OutOfTurns"
| "read_declarations (Suc n) =
     and_then skip_whitespace (\<lambda>_.
     and_then (expand_parameter_entity n) (\<lambda>_.
     and_then skip_whitespace (\<lambda>_. reading (\<lambda>p.
       case peek p of
         None \<Rightarrow> ok ()
       | Some c \<Rightarrow>
           if c = LT then
             and_then (nested (markup_declaration n (include_section n))) (\<lambda>_.
             read_declarations n)
           else reader_error))))"

definition parse_dtd :: "nat \<Rightarrow> ustring \<Rightarrow> layout \<Rightarrow> name_pool \<Rightarrow> (dtd_stop + unit) \<times> dtd_parser" where
  "parse_dtd n buf l pool =
     read_declarations n \<lparr>dr_pool = pool, dr_buf = buf, dr_layout = l, dr_pos = 0, dr_dtd = empty_dtd\<rparr>"

end
