(* ===== verification/Dtd_Assembly.thy ===== *)
theory Dtd_Assembly
  imports Dtd_Declarations
begin

text \<open>
  Assembling a DTD from the pieces it arrives in, \<open>dtd/read/assemble.rs\<close>, and the reading of a self-contained
  subset. Each pass of \<open>advance_assembly\<close> starts again from the beginning of the buffer; what survives a pass
  is the text and the record of where it came from.
\<close>

record assembly =
  as_buf :: ustring
  as_layout :: layout
  as_pending :: "external_pe option"

definition assembly_new :: assembly where
  "assembly_new = \<lparr>as_buf = [], as_layout = empty_layout, as_pending = None\<rparr>"

definition assembly_with_internal_subset :: "ustring \<Rightarrow> location \<Rightarrow> assembly" where
  "assembly_with_internal_subset text at =
     \<lparr>as_buf = text, as_layout = with_internal_subset (length text) at, as_pending = None\<rparr>"

definition assembly_add_external_subset :: "ustring \<Rightarrow> location \<Rightarrow> assembly \<Rightarrow> assembly" where
  "assembly_add_external_subset text at a =
     (let head = (if as_buf a \<noteq> [] then as_buf a @ [0xA] else as_buf a);
          buf = head @ text
      in a\<lparr>as_buf := buf, as_layout := add_external_subset (length head, length buf) at (as_layout a)\<rparr>)"

definition assembly_is_empty :: "assembly \<Rightarrow> bool" where
  "assembly_is_empty a \<longleftrightarrow> as_buf a = []"

text \<open>\<open>str::replace\<close> of a character.\<close>

definition replace_char :: "uchar \<Rightarrow> ustring \<Rightarrow> ustring \<Rightarrow> ustring" where
  "replace_char c by s = concat (map (\<lambda>d. if d = c then by else [d]) s)"

definition escape_quotes :: "ustring \<Rightarrow> ustring" where
  "escape_quotes text = replace_char APOS (lit ''&#39;'') (replace_char QUOT (lit ''&#34;'') text)"

definition provide_parameter_entity :: "ustring \<Rightarrow> location \<Rightarrow> assembly \<Rightarrow> assembly option" where
  "provide_parameter_entity text at a =
     (case as_pending a of
        None \<Rightarrow> None
      | Some pe \<Rightarrow>
          (let (replacement, content) =
                 (if pe_in_literal pe then (escape_quotes text, (0, length (escape_quotes text)))
                  else ([0x20] @ text @ [0x20], (1, 1 + length text)));
               part = (pe_at pe, pe_end pe)
           in case slice (as_buf a) (pe_at pe) (pe_end pe) of
                None \<Rightarrow> None
              | Some reference \<Rightarrow>
                  Some (a\<lparr>as_pending := None,
                    as_layout := splice_layout part (length replacement) content (length reference) (Some at) (as_layout a),
                    as_buf := replace_range part replacement (as_buf a)\<rparr>)))"

definition discard_pending :: "assembly \<Rightarrow> assembly" where
  "discard_pending a = a\<lparr>as_pending := None\<rparr>"

definition pass_outcome :: "(dtd_stop + unit) \<Rightarrow> dtd \<Rightarrow> stop + dtd_outcome" where
  "pass_outcome r d =
     (case r of
        Inr _ \<Rightarrow> Inr (Complete d)
      | Inl (Pause pe) \<Rightarrow> Inr (NeedExternalPe pe)
      | Inl (Fatal e) \<Rightarrow> Inl (Err e)
      | Inl Crash \<Rightarrow> Inl Panic
      | Inl OutOfTurns \<Rightarrow> Inl Unfinished)"

definition advance_assembly :: "nat \<Rightarrow> assembly \<Rightarrow> name_pool \<Rightarrow> (stop + dtd_outcome) \<times> assembly \<times> name_pool" where
  "advance_assembly n a pool =
     (case parse_dtd n (as_buf a) (as_layout a) pool of
        (r, p) \<Rightarrow>
          (let outcome = pass_outcome r (dr_dtd p);
               a' = a\<lparr>as_buf := dr_buf p, as_layout := dr_layout p\<rparr>
           in (outcome,
               (case outcome of Inr (NeedExternalPe pe) \<Rightarrow> a'\<lparr>as_pending := Some pe\<rparr> | _ \<Rightarrow> a'),
               dr_pool p)))"

text \<open>
  \<open>complete\<close>, over at most \<open>k\<close> passes; \<open>fetch\<close> is the caller's closure, with its own state.
\<close>

type_synonym 'f fetcher = "external_pe \<Rightarrow> 'f \<Rightarrow> (stop + (ustring \<times> location) option) \<times> 'f"

fun complete_assembly ::
  "nat \<Rightarrow> nat \<Rightarrow> 'f fetcher \<Rightarrow> 'f \<Rightarrow> assembly \<Rightarrow> name_pool \<Rightarrow> (stop + dtd) \<times> 'f \<times> assembly \<times> name_pool" where
  "complete_assembly n 0 fetch f a pool = (Inl Unfinished, f, a, pool)"
| "complete_assembly n (Suc k) fetch f a pool =
     (case advance_assembly n a pool of
        (Inl e, a', pool') \<Rightarrow> (Inl e, f, a', pool')
      | (Inr (Complete d), a', pool') \<Rightarrow> (Inr d, f, a', pool')
      | (Inr (NeedExternalPe pe), a', pool') \<Rightarrow>
          (case fetch pe f of
             (Inl e, f') \<Rightarrow> (Inl e, f', a', pool')
           | (Inr None, f') \<Rightarrow> (Inl (Err WellFormedness), f', discard_pending a', pool')
           | (Inr (Some (text, at)), f') \<Rightarrow>
               (case provide_parameter_entity text at a' of
                  None \<Rightarrow> (Inl Panic, f', a', pool')
                | Some a'' \<Rightarrow> complete_assembly n k fetch f' a'' pool')))"

section \<open>A self-contained subset\<close>

definition parse_subset :: "nat \<Rightarrow> ustring \<Rightarrow> name_pool \<Rightarrow> location \<Rightarrow> (stop + dtd) \<times> name_pool" where
  "parse_subset n text pool base =
     (case parse_dtd n text (with_internal_subset (length text) base) pool of
        (r, p) \<Rightarrow>
          ((case pass_outcome r (dr_dtd p) of
              Inl e \<Rightarrow> Inl e
            | Inr (Complete d) \<Rightarrow> Inr d
            | Inr (NeedExternalPe _) \<Rightarrow> Inl (Err UnsupportedFeature)), dr_pool p))"

end
