(* ===== verification/Parser_Dtd.thy ===== *)
theory Parser_Dtd
  imports Parser Dtd_Assembly
begin

text \<open>
  The DTD assembly in its two places: behind the \<open>DOCTYPE\<close> of a document, as the operations of the parser's
  environment, and behind \<open>DtdReader\<close> of \<open>dtd/read/reader.rs\<close>, which reads a DTD with no document.
\<close>

definition dtd_operations :: "nat \<Rightarrow> assembly dtd_assembly" where
  "dtd_operations n =
     \<lparr>da_new = assembly_new,
      da_with_internal_subset = assembly_with_internal_subset,
      da_add_external_subset = assembly_add_external_subset,
      da_provide_parameter_entity = provide_parameter_entity,
      da_discard_pending = discard_pending,
      da_advance = advance_assembly n\<rparr>"

section \<open>A DTD of its own\<close>

text \<open>
  What \<open>read_to_end\<close> gives is an argument: the bytes, or \<open>None\<close> where reading fails.
\<close>

definition decode_dtd :: "'d backend \<Rightarrow> byte list option \<Rightarrow> ustring option \<Rightarrow> stop + (ustring \<times> location)" where
  "decode_dtd B source system_id =
     (case source of
        None \<Rightarrow> Inl (Err Io)
      | Some bytes \<Rightarrow>
          (let stream = (case system_id of None \<Rightarrow> new_stream | Some i \<Rightarrow> with_system_id i new_stream) in
           case feed B bytes True stream of
             (Inl e, _) \<Rightarrow> Inl (Err e)
           | (Inr _, s0) \<Rightarrow>
               (case strip_text_declaration s0 of
                  Inl e \<Rightarrow> Inl e
                | Inr s \<Rightarrow> Inr (cs_rest s, cs_at s))))"

text \<open>
  A resolver answers a request with the bytes of a source, \<open>None\<close> for a source it declines, or an error; it may
  change its own state.
\<close>

type_synonym 'f resolver = "entity_request \<Rightarrow> 'f \<Rightarrow> byte list option option result \<times> 'f"

definition parameter_entity_request :: "external_pe \<Rightarrow> ustring option \<Rightarrow> entity_request" where
  "parameter_entity_request pe base =
     request (Some (pe_name pe)) (pe_public_id pe) (pe_system_id pe)
       (case pe_base pe of Some b \<Rightarrow> Some b | None \<Rightarrow> base) ParameterEntityRequest"

definition fetch_parameter_entity ::
  "'d backend \<Rightarrow> 'f resolver option \<Rightarrow> ustring option \<Rightarrow> external_pe \<Rightarrow> 'f \<Rightarrow> (stop + (ustring \<times> location) option) \<times> 'f" where
  "fetch_parameter_entity B resolver base pe f =
     (case resolver of
        None \<Rightarrow> (Inl (Err WellFormedness), f)
      | Some ask \<Rightarrow>
          (let request = parameter_entity_request pe base in
           case ask request f of
             (Inl e, f') \<Rightarrow> (Inl (Err e), f')
           | (Inr None, f') \<Rightarrow> (Inr None, f')
           | (Inr (Some source), f') \<Rightarrow> (map_sum id Some (decode_dtd B source (resolved_uri request)), f')))"

record 'f dtd_source =
  ds_source :: "byte list option"
  ds_system_id :: "ustring option"
  ds_resolver :: "'f resolver option"

text \<open>\<open>read_into\<close>, with the turns of a pass and the number of passes.\<close>

definition read_dtd_into ::
  "nat \<Rightarrow> nat \<Rightarrow> 'd backend \<Rightarrow> 'f dtd_source \<Rightarrow> 'f \<Rightarrow> name_pool \<Rightarrow> (stop + dtd) \<times> 'f \<times> name_pool" where
  "read_dtd_into n k B r f pool =
     (case decode_dtd B (ds_source r) (ds_system_id r) of
        Inl e \<Rightarrow> (Inl e, f, pool)
      | Inr (text, at) \<Rightarrow>
          (case complete_assembly n k (fetch_parameter_entity B (ds_resolver r) (ds_system_id r)) f
                  (assembly_add_external_subset text at assembly_new) pool of
             (res, f', _, pool') \<Rightarrow> (res, f', pool')))"

end
