(* ===== verification/Contracts.thy ===== *)
theory Contracts
  imports Effects
begin

text \<open>
  Contracts of methods. A component fixes the states it works on (\<open>good\<close>), what a method may do to such a
  state (\<open>step\<close>) and how it may stop (\<open>stop\<close>); \<open>under good step stop f p P\<close> says that the method \<open>f\<close>, run from
  \<open>p\<close>, keeps the contract and returns only with \<open>P\<close>. The locale states what makes such contracts compose and
  proves the rules that carry them through a method once, whatever the component.
\<close>

definition under ::
  "('s \<Rightarrow> bool) \<Rightarrow> ('s \<Rightarrow> 's \<Rightarrow> bool) \<Rightarrow> ('s \<Rightarrow> 'e \<Rightarrow> 's \<Rightarrow> bool) \<Rightarrow>
     ('e, 'r, 's) action \<Rightarrow> 's \<Rightarrow> ('r \<Rightarrow> 's \<Rightarrow> bool) \<Rightarrow> bool" where
  "under good step stop f p P \<longleftrightarrow>
     (good p \<longrightarrow> (case f p of (Inl e, q) \<Rightarrow> stop p e q | (Inr r, q) \<Rightarrow> step p q \<and> P r q))"

locale contract =
  fixes good :: "'s \<Rightarrow> bool" and step :: "'s \<Rightarrow> 's \<Rightarrow> bool" and stop :: "'s \<Rightarrow> 'e \<Rightarrow> 's \<Rightarrow> bool"
  assumes step_refl: "good p \<Longrightarrow> step p p"
    and step_trans: "step p q \<Longrightarrow> step q r \<Longrightarrow> step p r"
    and step_good: "step p q \<Longrightarrow> good q"
    and stop_after: "step p q \<Longrightarrow> stop q e r \<Longrightarrow> stop p e r"
begin

lemma sequence:
  assumes f: "under good step stop f p P"
    and g: "\<And>r q. step p q \<Longrightarrow> P r q \<Longrightarrow> under good step stop (g r) q Q"
  shows "under good step stop (and_then f g) p Q"
proof (cases "f p")
  case (Pair r q)
  show ?thesis
  proof (cases r)
    case (Inr x)
    show ?thesis
      unfolding under_def
    proof
      assume "good p"
      with f Pair Inr have pq: "step p q" "P x q" by (simp_all add: under_def)
      obtain y s where "g x q = (y, s)" by (cases "g x q")
      with g [OF pq] step_good [OF pq(1)] step_trans [OF pq(1)] stop_after [OF pq(1)] Pair Inr
      show "case and_then f g p of (Inl e, q) \<Rightarrow> stop p e q | (Inr r, q) \<Rightarrow> step p q \<and> Q r q"
        by (cases y) (auto simp: under_def)
    qed
  qed (use f Pair in \<open>simp add: under_def\<close>)
qed

lemma weaken:
  "under good step stop f p P \<Longrightarrow> (\<And>r q. step p q \<Longrightarrow> P r q \<Longrightarrow> Q r q) \<Longrightarrow> under good step stop f p Q"
  by (cases "f p"; cases "fst (f p)") (auto simp: under_def)

lemma then_rule:
  "under good step stop f p (\<lambda>r q. under good step stop (g r) q P) \<Longrightarrow> under good step stop (and_then f g) p P"
  by (rule sequence)

lemma ok_rule: "P r p \<Longrightarrow> under good step stop (ok r) p P"
  by (simp add: under_def step_refl)

lemma fail_rule: "(good p \<Longrightarrow> stop p e p) \<Longrightarrow> under good step stop (fail e) p P"
  by (simp add: under_def)

lemma reading_rule: "under good step stop (g p) p P \<Longrightarrow> under good step stop (reading g) p P"
  by (simp add: under_def reading_def)

lemma if_rule:
  "(b \<Longrightarrow> under good step stop f p P) \<Longrightarrow> (\<not> b \<Longrightarrow> under good step stop g p P) \<Longrightarrow>
     under good step stop (if b then f else g) p P"
  by simp

lemma option_rule:
  "(x = None \<Longrightarrow> under good step stop f p P) \<Longrightarrow> (\<And>y. x = Some y \<Longrightarrow> under good step stop (g y) p P) \<Longrightarrow>
     under good step stop (case x of None \<Rightarrow> f | Some y \<Rightarrow> g y) p P"
  by (cases x) simp_all

lemma knowing_good: "(good p \<Longrightarrow> under good step stop f p P) \<Longrightarrow> under good step stop f p P"
  by (simp add: under_def)

end

end
