(* ===== verification/Dtd_Invariant.thy ===== *)
theory Dtd_Invariant
  imports Dtd_Assembly Contracts
begin

text \<open>
  What a pass of the DTD reader keeps, whatever stops it: the pool stays well formed and only grows, the
  buffer stays text of XML, and what has been declared is fit for the document parser: the texts of
  entities and defaults are text of XML, the names of attributes are known, no attribute list repeats one.

  \<open>upholds f p P\<close> says this of one method from the state \<open>p\<close>, with \<open>P\<close> for the result.
\<close>

section \<open>The invariant\<close>

definition fine_dtd :: "name_pool \<Rightarrow> dtd \<Rightarrow> bool" where
  "fine_dtd pool d \<longleftrightarrow> dtd_chars d \<and> dtd_names pool d \<and> attlists_distinct d \<and>
     (\<forall>n v. d_parameter d n = Some (PInternal v) \<longrightarrow> list_all is_char v)"

definition reader_ok :: "dtd_parser \<Rightarrow> bool" where
  "reader_ok p \<longleftrightarrow> pool_wf (dr_pool p) \<and> list_all is_char (dr_buf p) \<and> fine_dtd (dr_pool p) (dr_dtd p)"

definition goes :: "dtd_parser \<Rightarrow> dtd_parser \<Rightarrow> bool" where
  "goes p q \<longleftrightarrow> reader_ok q \<and> pool_le (dr_pool p) (dr_pool q)"

abbreviation upholds :: "'r read \<Rightarrow> dtd_parser \<Rightarrow> ('r \<Rightarrow> dtd_parser \<Rightarrow> bool) \<Rightarrow> bool" where
  "upholds \<equiv> under reader_ok goes (\<lambda>p _ q. goes p q)"

text \<open>A handle of a word that was read from the text.\<close>

definition worded :: "name_pool \<Rightarrow> name_id \<Rightarrow> bool" where
  "worded pool h \<longleftrightarrow> (\<exists>w. resolve pool h = Some w \<and> list_all is_name_char w)"

lemma name_chars: "is_name_char c \<Longrightarrow> is_char c"
  by (auto simp: is_name_char_def is_name_start_char_def is_char_def)

lemma space_char [simp]: "is_char 0x20"
  by (simp add: is_char_def)

lemma worded_chars: "worded pool h \<Longrightarrow> resolve pool h = Some w \<Longrightarrow> list_all is_char w"
  by (auto simp: worded_def list_all_iff intro: name_chars)

lemma worded_knows: "worded pool h \<Longrightarrow> knows pool h"
  by (auto simp: worded_def knows_def)

named_theorems upholding "methods that uphold the invariant of the reader"

lemma goes_trans: "goes p q \<Longrightarrow> goes q r \<Longrightarrow> goes p r"
  by (auto simp: goes_def intro: pool_le_trans)

lemma goes_knows: "goes p q \<Longrightarrow> knows (dr_pool p) h \<Longrightarrow> knows (dr_pool q) h"
  by (auto simp: goes_def intro: pool_le_knows)

lemma goes_worded: "goes p q \<Longrightarrow> worded (dr_pool p) h \<Longrightarrow> worded (dr_pool q) h"
  by (auto simp: goes_def worded_def pool_le_def)

lemma goes_ok: "goes p q \<Longrightarrow> reader_ok q"
  by (simp add: goes_def)

interpretation keeps: contract reader_ok goes "\<lambda>p (e :: dtd_stop) q. goes p q"
  by unfold_locales (auto simp: goes_def intro: pool_le_trans)

lemmas upholds_def = under_def
lemmas upholds_weaken = keeps.weaken
lemmas upholds_knowing_ok = keeps.knowing_good
lemmas [upholding] = keeps.then_rule keeps.ok_rule keeps.reading_rule keeps.if_rule keeps.option_rule

lemma upholds_fail [upholding]: "upholds (fail e) p P"
  by (rule keeps.fail_rule) (simp add: goes_def)

text \<open>Steps that move the cursor only, or add to the declarations.\<close>

lemma upholds_move [THEN upholds_weaken, upholding]: "upholds (move n) p (\<lambda>_ _. True)"
  by (simp add: upholds_def move_def goes_def reader_ok_def)

lemma upholds_move_to [THEN upholds_weaken, upholding]: "upholds (move_to k) p (\<lambda>_ _. True)"
  by (simp add: upholds_def move_to_def goes_def reader_ok_def)

lemma upholds_changing:
  "(reader_ok p \<Longrightarrow> fine_dtd (dr_pool p) (f (dr_dtd p))) \<Longrightarrow> upholds (change_dtd f) p (\<lambda>_ _. True)"
  by (auto simp: upholds_def change_dtd_def goes_def reader_ok_def)

lemmas upholds_change_dtd = upholds_weaken [OF upholds_changing]

lemma ok_fine: "reader_ok p \<Longrightarrow> fine_dtd (dr_pool p) (dr_dtd p)"
  by (simp add: reader_ok_def)

lemma upholds_error [upholding]: "upholds reader_error p P"
  unfolding reader_error_def by (intro upholding)

section \<open>Scanning\<close>

lemma upholds_skip_whitespace [THEN upholds_weaken, upholding]: "upholds skip_whitespace p (\<lambda>_ _. True)"
  unfolding skip_whitespace_def by (intro upholding TrueI)

lemma upholds_consume [THEN upholds_weaken, upholding]: "upholds (consume s) p (\<lambda>_ _. True)"
  unfolding consume_def by (intro upholding TrueI)

lemma upholds_consume_keyword [THEN upholds_weaken, upholding]: "upholds (consume_keyword s) p (\<lambda>_ _. True)"
  unfolding consume_keyword_def by (intro upholding TrueI)

lemma upholds_expect [THEN upholds_weaken, upholding]: "upholds (expect c) p (\<lambda>_ _. True)"
  unfolding expect_def by (intro upholding TrueI)

lemma remaining_chars: "reader_ok p \<Longrightarrow> list_all is_char (remaining p)"
  by (auto simp: reader_ok_def remaining_def list_all_iff dest: in_set_dropD)

lemma upholds_expect_quote [THEN upholds_weaken, upholding]: "upholds expect_quote p (\<lambda>q _. q = QUOT \<or> q = APOS)"
  unfolding expect_quote_def by (intro upholding)

lemma upholds_until [THEN upholds_weaken, upholding]: "upholds (until c) p (\<lambda>s _. list_all is_char s)"
proof (rule upholds_knowing_ok)
  assume "reader_ok p"
  note chars = remaining_chars [OF this]
  show ?thesis
    unfolding until_def
  proof (intro upholding)
    fix y assume y: "split_once c (remaining p) = Some y"
    obtain a b where "y = (a, b)" by (cases y)
    moreover from this y have "list_all is_char a" using chars by (auto simp: split_once_Some)
    ultimately show "upholds (case y of (text, xa) \<Rightarrow> and_then (move (length text)) (\<lambda>_. ok text)) p (\<lambda>s _. list_all is_char s)"
      by (auto intro!: upholding)
  qed
qed

lemma fine_dtd_le: "pool_le a b \<Longrightarrow> fine_dtd a d \<Longrightarrow> fine_dtd b d"
  by (auto simp: fine_dtd_def dtd_names_def intro: pool_le_knows)

lemma upholds_intern [THEN upholds_weaken, upholding]: "upholds (intern_dtd s) p (\<lambda>h q. resolve (dr_pool q) h = Some s)"
proof (rule upholds_knowing_ok)
  assume ok: "reader_ok p"
  have "upholds (and_then (modify (\<lambda>p. p\<lparr>dr_pool := pool\<rparr>)) (\<lambda>_. ok h)) p (\<lambda>h q. resolve (dr_pool q) h = Some s)"
    if "intern (dr_pool p) s = Inr (h, pool)" for h pool
  proof -
    have g: "pool_wf pool" "pool_le (dr_pool p) pool" "resolve pool h = Some s"
      using intern_grows [OF _ that] ok by (auto simp: reader_ok_def)
    then show ?thesis
      using ok fine_dtd_le [OF g(2)] by (simp add: upholds_def goes_def reader_ok_def)
  qed
  then show ?thesis
    unfolding intern_dtd_def by (auto intro!: upholding split: sum.split prod.split)
qed

lemma upholds_resolve [THEN upholds_weaken, upholding]: "upholds (resolve_dtd h) p (\<lambda>s _. resolve (dr_pool p) h = Some s)"
  unfolding resolve_dtd_def by (auto intro!: upholding simp: resolve_own_eq)

lemma upholds_raw_name [THEN upholds_weaken, upholding]: "upholds raw_name p (\<lambda>h q. worded (dr_pool q) h)"
  unfolding raw_name_def by (intro upholding) (auto simp: worded_def word_at_def list_all_iff dest: set_takeWhileD)

lemma upholds_nmtoken [THEN upholds_weaken, upholding]: "upholds nmtoken p (\<lambda>h q. worded (dr_pool q) h)"
  unfolding nmtoken_def by (intro upholding) (auto simp: worded_def word_at_def list_all_iff dest: set_takeWhileD)

lemma upholds_literal [THEN upholds_weaken, upholding]:
  "upholds system_literal p (\<lambda>s _. list_all is_char s)" "upholds pubid_literal p (\<lambda>s _. list_all is_char s)"
  unfolding system_literal_def pubid_literal_def by (intro upholding; assumption)+

lemma upholds_close [THEN upholds_weaken, upholding]: "upholds close_declaration p (\<lambda>_ _. True)"
  unfolding close_declaration_def by (intro upholding TrueI)

section \<open>Parameter entities\<close>

lemma upholds_pause [upholding]: "upholds (pause name a b c part l) p P"
  unfolding pause_def by (intro upholding)

lemma upholds_undeclared [upholding]: "upholds (undeclared h) p P"
  unfolding undeclared_def by (intro upholding)

lemma upholds_pe_reference [THEN upholds_weaken, upholding]: "upholds pe_reference p (\<lambda>h q. worded (dr_pool q) h)"
  unfolding pe_reference_def
  by (intro upholding) (auto intro: goes_worded)

lemma parameter_chars:
  "reader_ok p \<Longrightarrow> d_parameter (dr_dtd p) h = Some (PInternal v) \<Longrightarrow> list_all is_char v"
  by (auto simp: reader_ok_def fine_dtd_def)

lemma upholds_splice_text: "list_all is_char s \<Longrightarrow> upholds (splice part s content) p (\<lambda>_ _. True)"
  by (auto simp: upholds_def splice_def goes_def reader_ok_def replace_range_def list_all_iff
      dest: in_set_takeD in_set_dropD)

lemmas upholds_splice = upholds_weaken [OF upholds_splice_text]

lemma upholds_parameter [upholding]:
  assumes "\<And>v. list_all is_char v \<Longrightarrow> upholds (f v) p P" "\<And>a b c. upholds (g a b c) p P" "upholds h p P"
  shows "upholds (case d_parameter (dr_dtd p) n of
      Some (PInternal v) \<Rightarrow> f v | Some (PExternal a b c) \<Rightarrow> g a b c | None \<Rightarrow> h) p P"
  by (rule upholds_knowing_ok)
     (use assms parameter_chars in \<open>auto split: option.split parameter_entity.split\<close>)

lemma upholds_expand_one [THEN upholds_weaken, upholding]: "upholds expand_one p (\<lambda>_ _. True)"
  unfolding expand_one_def
  by (intro upholding upholds_splice) (simp_all add: is_char_def)

lemma upholds_expand [THEN upholds_weaken, upholding]: "upholds (expand_parameter_entity n) p (\<lambda>_ _. True)"
  by (induction n arbitrary: p) (auto intro!: upholding)

lemma upholds_expand_in_external [THEN upholds_weaken, upholding]: "upholds (expand_in_external n) p (\<lambda>_ _. True)"
  unfolding expand_in_external_def by (auto intro!: upholding)

lemma upholds_read_name [THEN upholds_weaken, upholding]: "upholds (read_name n) p (\<lambda>h q. worded (dr_pool q) h)"
  unfolding read_name_def by (intro upholding)

lemma upholds_separators [THEN upholds_weaken, upholding]: "upholds (skip_separators n) p (\<lambda>_ _. True)"
  unfolding skip_separators_def by (auto intro!: upholding)

lemma upholds_require_whitespace [THEN upholds_weaken, upholding]: "upholds (require_whitespace n) p (\<lambda>_ _. True)"
  unfolding require_whitespace_def by (auto intro!: upholding)

section \<open>Literals\<close>

lemma upholds_reference_digits [THEN upholds_weaken, upholding]: "upholds reference_digits p (\<lambda>_ _. True)"
  unfolding reference_digits_def Let_def by (intro upholding TrueI)

lemma upholds_char_reference [THEN upholds_weaken, upholding]: "upholds char_reference_in_literal p (\<lambda>s _. list_all is_char s)"
  unfolding char_reference_in_literal_def
  by (intro upholding) (auto simp: referenced_char_def split: option.splits if_splits)

lemma upholds_reference_in_literal [THEN upholds_weaken, upholding]:
  "upholds (reference_in_literal n b) p (\<lambda>s _. list_all is_char s)"
  unfolding reference_in_literal_def
  by (intro upholding) (auto simp: is_char_def dest: worded_chars goes_worded)

lemma upholds_included_in_literal [THEN upholds_weaken, upholding]:
  "upholds included_in_literal p (\<lambda>s _. list_all is_char s)"
  unfolding included_in_literal_def by (intro upholding)

lemma peek_char: "reader_ok p \<Longrightarrow> peek p = Some c \<Longrightarrow> is_char c"
  using remaining_chars [of p] by (auto simp: peek_def split: list.splits)

lemma upholds_peeked [upholding]:
  assumes "upholds f p P" "\<And>c. is_char c \<Longrightarrow> upholds (g c) p P"
  shows "upholds (case peek p of None \<Rightarrow> f | Some c \<Rightarrow> g c) p P"
  by (rule upholds_knowing_ok) (use assms peek_char in \<open>auto split: option.split\<close>)

lemma upholds_entity_value_loop [THEN upholds_weaken, upholding]:
  "list_all is_char out \<Longrightarrow> upholds (entity_value_loop n quote out) p (\<lambda>s _. list_all is_char s)"
proof (induction n arbitrary: p out)
  case (Suc n)
  note step = upholds_weaken [OF Suc.IH]
  show ?case
    using Suc.prems by (simp only: entity_value_loop.simps) (intro upholding step; simp)
qed (simp add: upholding)

lemma upholds_entity_value [THEN upholds_weaken, upholding]: "upholds (entity_value n) p (\<lambda>s _. list_all is_char s)"
  unfolding entity_value_def by (intro upholding; simp)

lemma upholds_default_value_loop [THEN upholds_weaken, upholding]:
  "list_all is_char out \<Longrightarrow> upholds (default_value_loop n quote out) p (\<lambda>s _. list_all is_char s)"
proof (induction n arbitrary: p out)
  case (Suc n)
  note step = upholds_weaken [OF Suc.IH]
  show ?case
    using Suc.prems by (simp only: default_value_loop.simps) (intro upholding step; simp)
qed (simp add: upholding)

lemma upholds_attribute_default_value [THEN upholds_weaken, upholding]:
  "upholds (attribute_default_value n ty) p (\<lambda>s _. list_all is_char s)"
  unfolding attribute_default_value_def by (intro upholding; simp add: normalize_tokenized_chars)

lemma upholds_external_id [THEN upholds_weaken, upholding]: "upholds (external_id_of n b) p (\<lambda>_ _. True)"
  unfolding external_id_of_def by (intro upholding TrueI)

lemma upholds_required_system_id [THEN upholds_weaken, upholding]: "upholds (required_system_id i) p (\<lambda>_ _. True)"
  unfolding required_system_id_def by (intro upholding TrueI)

section \<open>Content models\<close>

lemma upholds_occurrence [THEN upholds_weaken, upholding]: "upholds occurrence p (\<lambda>_ _. True)"
  unfolding occurrence_def by (intro upholding TrueI)

lemma upholds_mixed_names [THEN upholds_weaken, upholding]: "upholds (mixed_names n names) p (\<lambda>_ _. True)"
proof (induction n arbitrary: p names)
  case (Suc n)
  show ?case
    by (simp only: mixed_names.simps) (intro upholding Suc.IH TrueI)
qed (simp add: upholding)

lemma upholds_mixed_content [THEN upholds_weaken, upholding]: "upholds (mixed_content n) p (\<lambda>_ _. True)"
  unfolding mixed_content_def by (intro upholding TrueI)

lemma upholds_particles_loop:
  assumes "\<And>p. upholds particle p (\<lambda>_ _. True)"
  shows "upholds (particles_loop n particle c xs) p (\<lambda>_ _. True)"
proof (induction n arbitrary: p xs)
  case (Suc n)
  show ?case
    by (simp only: particles_loop.simps) (intro upholding upholds_weaken [OF assms] Suc.IH TrueI)
qed (simp add: upholding)

lemma upholds_choice_or_seq:
  assumes "\<And>p. upholds particle p (\<lambda>_ _. True)"
  shows "upholds (choice_or_seq n particle) p (\<lambda>_ _. True)"
  unfolding choice_or_seq_def
  by (intro upholding upholds_weaken [OF assms] upholds_particles_loop assms TrueI)

lemma upholds_content_particle [THEN upholds_weaken, upholding]:
  "upholds (content_particle_within n room) p (\<lambda>_ _. True)"
proof (induction room arbitrary: p)
  case (Suc room)
  show ?case
    by (simp only: content_particle_within.simps) (intro upholding upholds_choice_or_seq Suc.IH TrueI)
qed (simp add: upholding)

lemma upholds_content_spec [THEN upholds_weaken, upholding]: "upholds (content_spec_of n) p (\<lambda>_ _. True)"
  unfolding content_spec_of_def content_particle_of_def by (intro upholding TrueI)

section \<open>Attribute lists\<close>

definition def_fine :: "name_pool \<Rightarrow> att_def \<Rightarrow> bool" where
  "def_fine pool a \<longleftrightarrow> knows pool (ad_name a) \<and> (\<forall>v. default_value (ad_default a) = Some v \<longrightarrow> list_all is_char v)"

lemma goes_def_fine: "goes p q \<Longrightarrow> def_fine (dr_pool p) a \<Longrightarrow> def_fine (dr_pool q) a"
  by (auto simp: def_fine_def intro: goes_knows)

lemma upholds_group_loop:
  assumes "\<And>p. upholds item p (\<lambda>_ _. True)"
  shows "upholds (group_loop n item names) p (\<lambda>_ _. True)"
proof (induction n arbitrary: p names)
  case (Suc n)
  show ?case
    by (simp only: group_loop.simps) (intro upholding upholds_weaken [OF assms] Suc.IH TrueI)
qed (simp add: upholding)

lemma upholds_groups [THEN upholds_weaken, upholding]:
  "upholds (name_group n) p (\<lambda>_ _. True)" "upholds (nmtoken_group n) p (\<lambda>_ _. True)"
  unfolding name_group_def nmtoken_group_def group_of_def
  by (intro upholding upholds_group_loop TrueI)+

lemma upholds_keyword_type:
  "(\<And>p. upholds f p (\<lambda>_ _. True)) \<Longrightarrow> upholds (keyword_type ks f) p (\<lambda>_ _. True)"
proof (induction ks arbitrary: p)
  case (Cons k ks)
  show ?case
    by (cases k) (simp only: keyword_type.simps, intro upholding Cons TrueI)
qed simp

lemma upholds_attribute_type [THEN upholds_weaken, upholding]: "upholds (attribute_type n) p (\<lambda>_ _. True)"
  unfolding attribute_type_def by (rule upholds_keyword_type) (intro upholding TrueI)

lemma upholds_default_declaration [THEN upholds_weaken, upholding]:
  "upholds (default_declaration n ty) p (\<lambda>def _. \<forall>v. default_value def = Some v \<longrightarrow> list_all is_char v)"
  unfolding default_declaration_def by (intro upholding) simp_all

lemma upholds_attribute_definition [THEN upholds_weaken, upholding]:
  "upholds (attribute_definition n) p (\<lambda>a q. def_fine (dr_pool q) a)"
  unfolding attribute_definition_def
  by (intro upholding) (simp add: def_fine_def, meson goes_worded worded_knows)

lemma upholds_attribute_definitions [THEN upholds_weaken, upholding]:
  "list_all (def_fine (dr_pool p)) defs \<Longrightarrow>
     upholds (attribute_definitions n defs) p (\<lambda>as q. list_all (def_fine (dr_pool q)) as)"
proof (induction n arbitrary: p defs)
  case (Suc n)
  have later: "list_all (def_fine (dr_pool q)) defs" if "goes p q" for q
    using Suc.prems goes_def_fine [OF that] by (auto simp: list_all_iff)
  show ?case
    by (simp only: attribute_definitions.simps) (intro upholding Suc.IH; simp add: later goes_trans)
qed (simp add: upholding)

lemma push_new_defs_set: "set (push_new_defs xs as) \<subseteq> set xs \<union> set as"
proof (induction as arbitrary: xs)
  case (Cons a as)
  from Cons [of xs] Cons [of "xs @ [a]"] show ?case by auto
qed simp

lemma fine_declare_attributes:
  assumes "fine_dtd pool d" "list_all (def_fine pool) defs"
  shows "fine_dtd pool (declare_attributes d element defs)"
proof -
  have "attlists_distinct (declare_attributes d element defs)"
    using declare_one_distinct [of d "DAttlist element defs"] assms(1) by (simp add: fine_dtd_def)
  moreover have "def_fine pool a" if "d_attlists (declare_attributes d element defs) e = Some as" "a \<in> set as" for e as a
  proof -
    have old: "def_fine pool b" if "d_attlists d e = Some bs" "b \<in> set bs" for bs b e
      using assms(1) that by (auto simp: fine_dtd_def dtd_chars_def dtd_names_def def_fine_def)
    define bs where "bs = (case d_attlists d element of None \<Rightarrow> [] | Some l \<Rightarrow> l)"
    have "b \<in> set bs \<Longrightarrow> def_fine pool b" for b 
      using old by (cases "d_attlists d element") (auto simp: bs_def)
    then have "list_all (def_fine pool) (push_new_defs bs defs)"
      using push_new_defs_set [of bs defs] assms(2) by (auto simp: list_all_iff)
    then show ?thesis
      using that old by (auto simp: declare_attributes_def Let_def bs_def [symmetric] list_all_iff split: if_splits)
  qed
  ultimately show ?thesis
    using assms(1) by (auto simp: fine_dtd_def dtd_chars_def dtd_names_def def_fine_def declare_attributes_def Let_def)
qed

lemma fine_marks [simp]:
  "fine_dtd pool (mark_attlist_external d e) = fine_dtd pool d"
  "fine_dtd pool (mark_general_entity_external d e) = fine_dtd pool d"
  by (simp_all add: fine_dtd_def mark_attlist_external_def mark_general_entity_external_def dtd_chars_def dtd_names_def
      attlists_distinct_def)

lemma upholds_attlist [THEN upholds_weaken, upholding]: "upholds (attlist_declaration n) p (\<lambda>_ _. True)"
  unfolding attlist_declaration_def
  by (intro upholding upholds_change_dtd) (auto intro: fine_declare_attributes ok_fine)

section \<open>Entities, elements and notations\<close>

definition general_fine :: "general_entity \<Rightarrow> bool" where
  "general_fine e \<longleftrightarrow> (\<forall>v. e = GInternal v \<longrightarrow> list_all is_char v)"

definition parameter_fine :: "parameter_entity \<Rightarrow> bool" where
  "parameter_fine e \<longleftrightarrow> (\<forall>v. e = PInternal v \<longrightarrow> list_all is_char v)"

lemma fine_declared:
  "fine_dtd pool d \<Longrightarrow> general_fine e \<Longrightarrow> fine_dtd pool (snd (declare_general_entity d n e))"
  "fine_dtd pool d \<Longrightarrow> parameter_fine x \<Longrightarrow> fine_dtd pool (snd (declare_parameter_entity d n x))"
  "fine_dtd pool d \<Longrightarrow> fine_dtd pool (snd (declare_element d n c))"
  "fine_dtd pool d \<Longrightarrow> fine_dtd pool (snd (declare_notation d n i))"
  by (auto simp: fine_dtd_def declare_general_entity_def declare_parameter_entity_def declare_element_def
      declare_notation_def insert_new_def dtd_chars_def dtd_names_def attlists_distinct_def general_fine_def parameter_fine_def)

lemma upholds_parameter_entity [THEN upholds_weaken, upholding]:
  "upholds (parameter_entity_of n base) p (\<lambda>e _. parameter_fine e)"
  unfolding parameter_entity_of_def by (intro upholding) (simp_all add: parameter_fine_def)

lemma upholds_general_entity [THEN upholds_weaken, upholding]:
  "upholds (general_entity_def_of n base) p (\<lambda>e _. general_fine e)"
  unfolding general_entity_def_of_def by (intro upholding) (simp_all add: general_fine_def)

lemma upholds_entity [THEN upholds_weaken, upholding]: "upholds (entity_declaration n) p (\<lambda>_ _. True)"
  unfolding entity_declaration_def Let_def
  by (intro upholding upholds_change_dtd) (simp_all add: fine_declared ok_fine)

lemma upholds_declare_once:
  assumes "\<And>pool d. fine_dtd pool d \<Longrightarrow> fine_dtd pool (snd (f d))"
  shows "upholds (declare_once f name) p (\<lambda>_ _. True)"
  unfolding declare_once_def by (intro upholding upholds_change_dtd) (simp_all add: assms ok_fine)

lemma upholds_element [THEN upholds_weaken, upholding]: "upholds (element_declaration n) p (\<lambda>_ _. True)"
  unfolding element_declaration_def by (intro upholding upholds_declare_once fine_declared)

lemma upholds_notation [THEN upholds_weaken, upholding]: "upholds (notation_declaration n) p (\<lambda>_ _. True)"
  unfolding notation_declaration_def by (intro upholding upholds_declare_once fine_declared)

section \<open>Markup and passes\<close>

lemma upholds_skips [THEN upholds_weaken, upholding]:
  "upholds skip_comment p (\<lambda>_ _. True)" "upholds skip_processing_instruction p (\<lambda>_ _. True)"
  unfolding skip_comment_def skip_processing_instruction_def Let_def by (intro upholding TrueI)+

lemma upholds_skip_ignored [THEN upholds_weaken, upholding]: "upholds (skip_ignored n k) p (\<lambda>_ _. True)"
proof (induction n arbitrary: p k)
  case (Suc n)
  show ?case
    by (simp only: skip_ignored.simps) (intro upholding Suc.IH TrueI)
qed (simp add: upholding)

lemma upholds_nested:
  "upholds f p (\<lambda>_ _. True) \<Longrightarrow> upholds (nested f) p (\<lambda>_ _. True)"
  unfolding nested_def by (intro upholding) (erule upholds_weaken, intro upholding TrueI)

lemma upholds_markup:
  assumes "\<And>p. upholds body p (\<lambda>_ _. True)"
  shows "upholds (markup_declaration n body) p (\<lambda>_ _. True)"
proof -
  have "upholds (if b then ok True else consume s) q P" if "\<And>r r'. goes q r' \<Longrightarrow> P r r'" "\<And>r. P r q" for b s q P
    using that by (intro upholding)
  then show ?thesis
    unfolding markup_declaration_def conditional_section_def by (intro upholding assms TrueI)
qed

lemma upholds_include [THEN upholds_weaken, upholding]: "upholds (include_section n) p (\<lambda>_ _. True)"
proof (induction n arbitrary: p)
  case (Suc n)
  show ?case
    by (simp only: include_section.simps)
       (intro upholding upholds_weaken [OF upholds_nested] upholds_markup Suc.IH TrueI)
qed (simp add: upholding)

lemma upholds_read_declarations: "upholds (read_declarations n) p (\<lambda>_ _. True)"
proof (induction n arbitrary: p)
  case (Suc n)
  show ?case
    by (simp only: read_declarations.simps)
       (intro upholding upholds_weaken [OF upholds_nested] upholds_markup Suc.IH TrueI)
qed (simp add: upholding)

section \<open>The assembly\<close>

lemma pass_goes:
  assumes "pool_wf pool" "list_all is_char buf" "parse_dtd n buf l pool = (r, q)"
  shows "goes \<lparr>dr_pool = pool, dr_buf = buf, dr_layout = l, dr_pos = 0, dr_dtd = empty_dtd\<rparr> q"
proof -
  let ?p = "\<lparr>dr_pool = pool, dr_buf = buf, dr_layout = l, dr_pos = 0, dr_dtd = empty_dtd\<rparr>"
  have "fine_dtd pool empty_dtd"
    by (simp add: fine_dtd_def dtd_chars_def dtd_names_def attlists_distinct_def empty_dtd_def)
  then have "reader_ok ?p" using assms by (simp add: reader_ok_def)
  then show ?thesis
    using upholds_read_declarations [of n ?p] assms(3) by (cases r) (auto simp: upholds_def parse_dtd_def)
qed

lemma advance_assembly_keeps:
  assumes "pool_wf pool" "list_all is_char (as_buf a)" "advance_assembly n a pool = (r, a', pool')"
  shows "pool_wf pool'" "pool_le pool pool'" "list_all is_char (as_buf a')" "r = Inr (Complete d) \<Longrightarrow> fine_dtd pool' d"
proof -
  obtain x q where pass: "parse_dtd n (as_buf a) (as_layout a) pool = (x, q)" by fastforce
  note g = pass_goes [OF assms(1,2) pass]
  have out: "r = pass_outcome x (dr_dtd q)" "pool' = dr_pool q" "as_buf a' = dr_buf q"
    using assms(3) pass by (auto simp: advance_assembly_def Let_def split: sum.splits dtd_outcome.splits)
  show "pool_wf pool'" "pool_le pool pool'" "list_all is_char (as_buf a')"
    using g out by (simp_all add: goes_def reader_ok_def)
  show "fine_dtd pool' d" if "r = Inr (Complete d)"
    using g out that by (auto simp: goes_def reader_ok_def pass_outcome_def split: sum.splits dtd_stop.splits)
qed

end
