(* ===== verification/Dtd_Returns.thy ===== *)
theory Dtd_Returns
  imports Dtd_Invariant
begin

text \<open>
  A pass over an internal subset in which no \<open>%\<close> stands: it returns, with declarations or an error, after no
  more turns of a loop than the subset has characters (and two), and it never panics. Replacement text is
  what can make a pass longer than its buffer, and only a \<open>%\<close> brings replacement text in.
\<close>

section \<open>Internal text without references\<close>

definition left :: "dtd_parser \<Rightarrow> nat" where
  "left p = length (dr_buf p) - dr_pos p"

definition plainly :: "location \<Rightarrow> dtd_parser \<Rightarrow> bool" where
  "plainly b p \<longleftrightarrow> dr_layout p = with_internal_subset (length (dr_buf p)) b \<and> dr_buf p \<noteq> [] \<and>
     dr_pos p \<le> length (dr_buf p) \<and> PERCENT \<notin> set (dr_buf p) \<and> pool_wf (dr_pool p)"

definition advances :: "location \<Rightarrow> dtd_parser \<Rightarrow> dtd_parser \<Rightarrow> bool" where
  "advances b p q \<longleftrightarrow> plainly b q \<and> dr_buf q = dr_buf p \<and> dr_pos p \<le> dr_pos q \<and> pool_le (dr_pool p) (dr_pool q)"

text \<open>A stop that is neither a panic nor a loop that went on.\<close>

definition orderly :: "dtd_stop \<Rightarrow> bool" where
  "orderly e \<longleftrightarrow> e \<noteq> Crash \<and> e \<noteq> OutOfTurns"

abbreviation returns :: "location \<Rightarrow> 'r read \<Rightarrow> dtd_parser \<Rightarrow> ('r \<Rightarrow> dtd_parser \<Rightarrow> bool) \<Rightarrow> bool" where
  "returns b \<equiv> under (plainly b) (advances b) (\<lambda>_ e _. orderly e)"

interpretation plain: contract "plainly b" "advances b" "\<lambda>p e (q :: dtd_parser). orderly e"
  by unfold_locales (auto simp: advances_def intro: pool_le_trans)

named_theorems returning_rules "methods that return on internal text without references"

lemmas [returning_rules] = plain.then_rule plain.ok_rule plain.reading_rule plain.if_rule plain.option_rule

lemma source_internal:
  "0 < n \<Longrightarrow> pos \<le> n \<Longrightarrow> source_at (with_internal_subset n b) pos =
     Some (0, \<lparr>pi_range = (0, n), pi_content = (0, n), pi_replaced = 0, pi_kind = SubsetPiece b False\<rparr>)"
  by (simp add: source_at_def with_internal_subset_def placed_pieces_def innermost_def piece_origin_def holds_def)

lemma plainly_internal: "plainly b p \<Longrightarrow> \<not> in_external p"
  by (simp add: plainly_def in_external_def is_external_at_def source_internal)

lemma no_children: "children_of (with_internal_subset n b) (0, x) = []"
  by (simp add: children_of_def Let_def placed_pieces_def with_internal_subset_def)

lemma plainly_located: "plainly b p \<Longrightarrow> location_at (dr_layout p) (dr_buf p) (dr_pos p) \<noteq> None"
  by (auto simp: plainly_def location_at_def source_internal no_children slice_def piece_origin_def)

lemma plainly_no_reference: "plainly b p \<Longrightarrow> \<not> peek_pe_start p"
  by (auto simp: plainly_def peek_pe_start_def remaining_def dest: in_set_dropD split: list.splits)
    (metis in_set_dropD list.set_intros(1))

lemma length_remaining: "length (remaining p) = left p"
  by (simp add: remaining_def left_def)

lemma left_less: "advances b p q \<Longrightarrow> dr_pos p < dr_pos q \<Longrightarrow> left p < Suc n \<Longrightarrow> left q < n"
  by (auto simp: advances_def left_def plainly_def)

lemma left_le: "advances b p q \<Longrightarrow> left p < n \<Longrightarrow> left q < n"
  by (auto simp: advances_def left_def plainly_def)

lemma advances_pos: "advances b p q \<Longrightarrow> dr_pos p \<le> dr_pos q"
  by (simp add: advances_def)

lemma advances_later: "advances b p q \<Longrightarrow> n < dr_pos p \<Longrightarrow> n < dr_pos q"
  by (simp add: advances_def)

lemma advances_plainly: "advances b p q \<Longrightarrow> plainly b q"
  by (simp add: advances_def)

section \<open>Scanning\<close>

lemma returns_fatal [returning_rules]: "returns b (fail (Fatal e)) p P"
  by (rule plain.fail_rule) (simp add: orderly_def)

lemma returns_error [returning_rules]: "returns b reader_error p P"
  unfolding reader_error_def
  by (rule plain.knowing_good, intro returning_rules plain.fail_rule)
     (auto dest: plainly_located simp: orderly_def)

lemma returns_move [THEN plain.weaken, returning_rules]:
  "k \<le> left p \<Longrightarrow> returns b (move k) p (\<lambda>_ q. dr_pos q = dr_pos p + k)"
  by (auto simp: under_def move_def advances_def plainly_def left_def)

lemma returns_change_dtd [THEN plain.weaken, returning_rules]: "returns b (change_dtd f) p (\<lambda>_ _. True)"
  by (auto simp: under_def change_dtd_def advances_def plainly_def)

lemma returns_skip_whitespace [THEN plain.weaken, returning_rules]: "returns b skip_whitespace p (\<lambda>_ _. True)"
  unfolding skip_whitespace_def
  by (intro returning_rules) (simp_all add: length_takeWhile_le flip: length_remaining)

lemma starts_with_short: "starts_with s (remaining p) \<Longrightarrow> length s \<le> left p"
  by (metis starts_with_length length_remaining)

lemma returns_consume [THEN plain.weaken, returning_rules]:
  "returns b (consume s) p (\<lambda>r q. r \<longrightarrow> dr_pos q = dr_pos p + length s)"
  unfolding consume_def by (intro returning_rules) (simp_all add: starts_with_short)

lemma returns_consume_keyword [THEN plain.weaken, returning_rules]:
  "returns b (consume_keyword s) p (\<lambda>_ _. True)"
  unfolding consume_keyword_def
  by (intro returning_rules) (auto simp: starts_with_def intro: starts_with_short)

lemma peek_left: "peek p = Some c \<Longrightarrow> Suc 0 \<le> left p"
  by (cases "remaining p") (auto simp: peek_def simp flip: length_remaining)

lemma returns_expect [THEN plain.weaken, returning_rules]:
  "returns b (expect c) p (\<lambda>_ q. dr_pos q = dr_pos p + 1)"
  unfolding expect_def by (intro returning_rules) (simp_all add: peek_left)

lemma returns_expect_quote [THEN plain.weaken, returning_rules]:
  "returns b expect_quote p (\<lambda>_ q. dr_pos q = dr_pos p + 1)"
  unfolding expect_quote_def by (intro returning_rules) (simp_all add: peek_left)

lemma returns_until [THEN plain.weaken, returning_rules]: "returns b (until c) p (\<lambda>_ q. 1 \<le> left q)"
  unfolding until_def
proof (intro returning_rules)
  fix y assume y: "split_once c (remaining p) = Some y"
  obtain u v where uv: "y = (u, v)" by (cases y)
  from y uv have "remaining p = u @ c # v" by (simp add: split_once_Some)
  then have len: "left p = length u + 1 + length v" by (simp flip: length_remaining)
  then have "returns b (and_then (move (length u)) (\<lambda>_. ok u)) p (\<lambda>_ q. 1 \<le> left q)"
    by (intro returning_rules) (auto simp: left_def advances_def)
  then show "returns b (case y of (text, xa) \<Rightarrow> and_then (move (length text)) (\<lambda>_. ok text)) p (\<lambda>_ q. 1 \<le> left q)"
    by (simp add: uv)
qed

lemma returns_intern [THEN plain.weaken, returning_rules]:
  "returns b (intern_dtd s) p (\<lambda>h q. knows (dr_pool q) h \<and> dr_pos q = dr_pos p)"
proof (rule plain.knowing_good)
  assume good: "plainly b p"
  have "returns b (and_then (modify (\<lambda>p. p\<lparr>dr_pool := pool\<rparr>)) (\<lambda>_. ok h)) p (\<lambda>h q. knows (dr_pool q) h \<and> dr_pos q = dr_pos p)"
    if "intern (dr_pool p) s = Inr (h, pool)" for h pool
  proof -
    have "pool_wf pool" "pool_le (dr_pool p) pool" "resolve pool h = Some s"
      using intern_grows [OF _ that] good by (auto simp: plainly_def)
    then show ?thesis using good by (simp add: under_def advances_def plainly_def knows_def)
  qed
  then show ?thesis
    unfolding intern_dtd_def
    by (intro returning_rules) (use plainly_located [OF good] in \<open>auto intro!: returning_rules split: sum.split prod.split\<close>)
qed

lemma returns_resolve [THEN plain.weaken, returning_rules]:
  "knows (dr_pool p) h \<Longrightarrow> returns b (resolve_dtd h) p (\<lambda>_ _. True)"
  unfolding resolve_dtd_def by (intro returning_rules) (auto simp: resolve_own_eq knows_def)

lemma word_left: "is_name (word_at p) \<or> is_nmtoken (word_at p) \<Longrightarrow> 0 < length (word_at p)" "length (word_at p) \<le> left p"
  by (cases "word_at p"; simp add: is_nmtoken_def)
     (simp add: word_at_def length_takeWhile_le flip: length_remaining)

lemma returns_raw_name [THEN plain.weaken, returning_rules]:
  "returns b raw_name p (\<lambda>h q. knows (dr_pool q) h \<and> dr_pos p < dr_pos q)"
  unfolding raw_name_def by (intro returning_rules) (use word_left [of p] in auto)

lemma returns_nmtoken [THEN plain.weaken, returning_rules]:
  "returns b nmtoken p (\<lambda>h q. knows (dr_pool q) h \<and> dr_pos p < dr_pos q)"
  unfolding nmtoken_def by (intro returning_rules) (use word_left [of p] in auto)

lemma returns_literals [THEN plain.weaken, returning_rules]:
  "returns b system_literal p (\<lambda>_ _. True)" "returns b pubid_literal p (\<lambda>_ _. True)"
  unfolding system_literal_def pubid_literal_def by (intro returning_rules; simp)+

lemma returns_close [THEN plain.weaken, returning_rules]: "returns b close_declaration p (\<lambda>_ _. True)"
  unfolding close_declaration_def by (intro returning_rules TrueI)

lemma returns_undeclared [returning_rules]: "knows (dr_pool p) h \<Longrightarrow> returns b (undeclared h) p P"
  unfolding undeclared_def by (intro returning_rules)

text \<open>Nothing is expanded.\<close>

lemma returns_expand [THEN plain.weaken, returning_rules]:
  "0 < n \<Longrightarrow> returns b (expand_parameter_entity n) p (\<lambda>_ _. True)"
  by (cases n) (simp, rule plain.knowing_good, simp only: expand_parameter_entity.simps,
      intro returning_rules, auto dest: plainly_no_reference)

lemma returns_expand_in_external [THEN plain.weaken, returning_rules]:
  "returns b (expand_in_external n) p (\<lambda>_ _. True)"
  unfolding expand_in_external_def 
  by (rule plain.knowing_good, intro returning_rules) (auto dest: plainly_internal)

lemma returns_read_name [THEN plain.weaken, returning_rules]:
  "returns b (read_name n) p (\<lambda>h q. knows (dr_pool q) h \<and> dr_pos p < dr_pos q)"
  unfolding read_name_def by (intro returning_rules) (auto dest: advances_pos)

lemma returns_separators [THEN plain.weaken, returning_rules]: "returns b (skip_separators n) p (\<lambda>_ _. True)"
  unfolding skip_separators_def
  by (intro returning_rules) (auto dest: plainly_internal advances_plainly)

lemma returns_require_whitespace [THEN plain.weaken, returning_rules]:
  "returns b (require_whitespace n) p (\<lambda>_ _. True)"
  unfolding require_whitespace_def
  by (rule plain.knowing_good, intro returning_rules) (auto dest: plainly_no_reference)

section \<open>Literals\<close>

lemma returns_reference_digits [THEN plain.weaken, returning_rules]: "returns b reference_digits p (\<lambda>_ _. True)"
  unfolding reference_digits_def Let_def
  by (intro returning_rules) (simp_all add: length_takeWhile_le flip: length_remaining)

lemma returns_char_reference [THEN plain.weaken, returning_rules]: "returns b char_reference_in_literal p (\<lambda>_ _. True)"
  unfolding char_reference_in_literal_def by (intro returning_rules TrueI)

lemma advances_knows: "advances b p q \<Longrightarrow> knows (dr_pool p) h \<Longrightarrow> knows (dr_pool q) h"
  by (auto simp: advances_def intro: pool_le_knows)

lemma returns_reference_in_literal [THEN plain.weaken, returning_rules]:
  "returns b (reference_in_literal n d) p (\<lambda>_ _. True)"
  unfolding reference_in_literal_def
  by (intro returning_rules TrueI) (auto intro: advances_knows)

lemma returns_entity_value_loop [THEN plain.weaken, returning_rules]:
  "left p < n \<Longrightarrow> returns b (entity_value_loop n quote out) p (\<lambda>_ _. True)"
proof (induction n arbitrary: p out)
  case (Suc n)
  show ?case
  proof (rule plain.knowing_good)
    assume good: "plainly b p"
    have loop: "returns b (entity_value_loop n quote out') r (\<lambda>_ _. True)"
      if "advances b p q" "dr_pos q = dr_pos p + 1" "advances b q r" for q r out'
      using Suc left_le [OF that(3) left_less [OF that(1) _ Suc.prems]] that(2) by simp
    have again: "returns b (entity_value_loop n quote out') q (\<lambda>_ _. True)"
      if "advances b p q" "dr_pos q = dr_pos p + 1" for q out'
      using loop [OF that plain.step_refl] advances_plainly [OF that(1)] by blast
    show ?thesis
      unfolding entity_value_loop.simps
      by (intro returning_rules; (elim conjE)?; (rule loop again, assumption+)?)
         (use plainly_no_reference [OF good] peek_left in auto)
  qed
qed simp

lemma returns_entity_value [THEN plain.weaken, returning_rules]:
  "left p < n \<Longrightarrow> returns b (entity_value n) p (\<lambda>_ _. True)"
  unfolding entity_value_def by (intro returning_rules) (auto intro: left_le)

lemma returns_default_value_loop [THEN plain.weaken, returning_rules]:
  "left p < n \<Longrightarrow> returns b (default_value_loop n quote out) p (\<lambda>_ _. True)"
proof (induction n arbitrary: p out)
  case (Suc n)
  have loop: "returns b (default_value_loop n quote out') r (\<lambda>_ _. True)"
    if "advances b p q" "dr_pos q = dr_pos p + 1" "advances b q r" for q r out'
    using Suc left_le [OF that(3) left_less [OF that(1) _ Suc.prems]] that(2) by simp
  have again: "returns b (default_value_loop n quote out') q (\<lambda>_ _. True)"
    if "advances b p q" "dr_pos q = dr_pos p + 1" for q out'
    using loop [OF that plain.step_refl] advances_plainly [OF that(1)] by blast
  show ?case
    unfolding default_value_loop.simps
    by (intro returning_rules; (rule loop again, assumption+)?) (use peek_left in auto)
qed simp

lemma returns_attribute_default_value [THEN plain.weaken, returning_rules]:
  "left p < n \<Longrightarrow> returns b (attribute_default_value n ty) p (\<lambda>_ _. True)"
  unfolding attribute_default_value_def by (intro returning_rules) (auto intro: left_le)

lemma returns_external_id [THEN plain.weaken, returning_rules]:
  "returns b (external_id_of n False) p (\<lambda>i _. xi_system_id i \<noteq> None)"
  "returns b (external_id_of n True) p (\<lambda>_ _. True)"
  unfolding external_id_of_def by (intro returning_rules; simp)+

lemma returns_required_system_id [THEN plain.weaken, returning_rules]:
  "xi_system_id i \<noteq> None \<Longrightarrow> returns b (required_system_id i) p (\<lambda>_ _. True)"
  unfolding required_system_id_def by (auto intro!: returning_rules)

section \<open>Content models\<close>

lemma returns_occurrence [THEN plain.weaken, returning_rules]: "returns b occurrence p (\<lambda>_ _. True)"
  unfolding occurrence_def by (intro returning_rules TrueI) (auto dest: peek_left)

text \<open>A loop's next turn, after at least one character.\<close>

lemma turn:
  "(\<And>q. left q < n \<Longrightarrow> returns b f q P) \<Longrightarrow> left p < Suc n \<Longrightarrow> advances b p q \<Longrightarrow> dr_pos p < dr_pos q \<Longrightarrow> returns b f q P"
  using left_less by blast

lemma returns_mixed_names [THEN plain.weaken, returning_rules]:
  "left p < n \<Longrightarrow> returns b (mixed_names n names) p (\<lambda>_ _. True)"
proof (induction n arbitrary: p names)
  case (Suc n)
  show ?case
    unfolding mixed_names.simps
    by (intro returning_rules turn [OF Suc.IH Suc.prems])
       ((blast intro: plain.step_trans | (auto dest!: advances_pos dest: peek_left)[1])+)
qed simp

lemma returns_mixed_content [THEN plain.weaken, returning_rules]:
  "left p < n \<Longrightarrow> returns b (mixed_content n) p (\<lambda>_ _. True)"
  unfolding mixed_content_def by (intro returning_rules TrueI) (blast intro: left_le)

lemma returns_particles_loop:
  assumes "\<And>p. left p < m \<Longrightarrow> returns b particle p (\<lambda>_ _. True)"
  shows "left p < n \<Longrightarrow> n \<le> m \<Longrightarrow> returns b (particles_loop n particle c xs) p (\<lambda>_ _. True)"
proof (induction n arbitrary: p xs)
  case (Suc n)
  have rec: "left q < n \<Longrightarrow> returns b (particles_loop n particle c ys) q (\<lambda>_ _. True)" for q ys
    using Suc by simp
  have inner: "returns b particle q (\<lambda>_ _. True)" if "advances b p q" for q
    using assms left_le [OF that Suc.prems(1)] Suc.prems(2) by simp
  show ?case
    unfolding particles_loop.simps
    by (intro returning_rules plain.weaken [OF inner] turn [OF rec Suc.prems(1)] TrueI)
       ((blast intro: plain.step_trans | (auto dest!: advances_pos dest: peek_left)[1])+)
qed simp

lemma returns_choice_or_seq:
  assumes "\<And>p. left p < n \<Longrightarrow> returns b particle p (\<lambda>_ _. True)" "left p < n"
  shows "returns b (choice_or_seq n particle) p (\<lambda>_ _. True)"
proof -
  have inner: "returns b particle q (\<lambda>_ _. True)" if "advances b p q" for q
    using assms left_le [OF that] by simp
  have loop: "returns b (particles_loop n particle c xs) q (\<lambda>_ _. True)" if "advances b p q" for q c xs
    using returns_particles_loop [OF assms(1) left_le [OF that assms(2)]] by simp
  show ?thesis
    unfolding choice_or_seq_def
    by (intro returning_rules plain.weaken [OF inner] loop TrueI) (auto dest: peek_left intro: plain.step_trans)
qed

lemma returns_content_particle [THEN plain.weaken, returning_rules]:
  "left p < n \<Longrightarrow> returns b (content_particle_within n room) p (\<lambda>_ _. True)"
proof (induction room arbitrary: p)
  case (Suc room)
  have inner: "returns b (choice_or_seq n (content_particle_within n room)) q (\<lambda>_ _. True)" if "advances b p q" for q
    by (rule returns_choice_or_seq [OF Suc.IH left_le [OF that Suc.prems]])
  show ?case
    unfolding content_particle_within.simps by (intro returning_rules inner TrueI)
qed (simp add: returning_rules)

lemma returns_content_spec [THEN plain.weaken, returning_rules]:
  "left p < n \<Longrightarrow> returns b (content_spec_of n) p (\<lambda>_ _. True)"
  unfolding content_spec_of_def content_particle_of_def
  by (intro returning_rules TrueI) (blast intro: left_le)+

section \<open>Attribute lists\<close>

lemma returns_group_loop:
  assumes item: "\<And>p. returns b item p (\<lambda>_ q. dr_pos p < dr_pos q)"
  shows "left p < n \<Longrightarrow> returns b (group_loop n item names) p (\<lambda>_ _. True)"
proof (induction n arbitrary: p names)
  case (Suc n)
  show ?case
    unfolding group_loop.simps
    by (intro returning_rules plain.weaken [OF item] turn [OF Suc.IH Suc.prems])
       ((blast intro: plain.step_trans | (auto dest!: advances_pos dest: peek_left)[1])+)
qed simp

lemma returns_groups [THEN plain.weaken, returning_rules]:
  "left p < n \<Longrightarrow> returns b (name_group n) p (\<lambda>_ _. True)" "left p < n \<Longrightarrow> returns b (nmtoken_group n) p (\<lambda>_ _. True)"
  unfolding name_group_def nmtoken_group_def group_of_def
  by (intro returning_rules returns_group_loop; (blast intro: left_le | simp))+

lemma returns_keyword_type:
  "(\<And>q. advances b p q \<Longrightarrow> returns b f q (\<lambda>_ _. True)) \<Longrightarrow> returns b (keyword_type ks f) p (\<lambda>_ _. True)"
proof (induction ks arbitrary: p)
  case (Cons k ks)
  show ?case
    by (cases k) (simp only: keyword_type.simps, intro returning_rules Cons TrueI, blast intro: plain.step_trans)
next
  case Nil
  then show ?case by (auto intro: plain.knowing_good plain.step_refl)
qed

lemma returns_attribute_type [THEN plain.weaken, returning_rules]:
  "left p < n \<Longrightarrow> returns b (attribute_type n) p (\<lambda>_ _. True)"
  unfolding attribute_type_def
  by (rule returns_keyword_type, intro returning_rules TrueI) (blast intro: left_le)+

lemma returns_default_declaration [THEN plain.weaken, returning_rules]:
  "left p < n \<Longrightarrow> returns b (default_declaration n ty) p (\<lambda>_ _. True)"
  unfolding default_declaration_def by (intro returning_rules TrueI) (blast intro: left_le)+

lemma returns_attribute_definition [THEN plain.weaken, returning_rules]:
  "left p < n \<Longrightarrow> returns b (attribute_definition n) p (\<lambda>_ q. dr_pos p < dr_pos q)"
  unfolding attribute_definition_def
  by (intro returning_rules TrueI) (blast intro: left_le advances_later)+

lemma returns_attribute_definitions [THEN plain.weaken, returning_rules]:
  "left p + 1 < n \<Longrightarrow> returns b (attribute_definitions n defs) p (\<lambda>_ _. True)"
proof (induction n arbitrary: p defs)
  case (Suc n)
  have rec: "left q < n - 1 \<Longrightarrow> returns b (attribute_definitions n ds) q (\<lambda>_ _. True)" for q ds
    using Suc.IH by simp
  have p: "left p < n" "left p < Suc (n - 1)" using Suc.prems by auto
  show ?case
    unfolding attribute_definitions.simps
    by (intro returning_rules turn [OF rec p(2)])
       ((blast intro: plain.step_trans left_le p | (auto dest!: advances_pos dest: peek_left)[1])+)
qed simp

lemma left_le_1: "advances b p q \<Longrightarrow> left p + 1 < n \<Longrightarrow> left q + 1 < n"
  by (auto simp: advances_def left_def plainly_def)

lemma returns_attlist [THEN plain.weaken, returning_rules]:
  "left p + 1 < n \<Longrightarrow> returns b (attlist_declaration n) p (\<lambda>_ _. True)"
  unfolding attlist_declaration_def by (intro returning_rules TrueI) (blast intro: left_le_1)+

section \<open>Entities, elements and notations\<close>

lemma returns_parameter_entity [THEN plain.weaken, returning_rules]:
  "left p < n \<Longrightarrow> returns b (parameter_entity_of n base) p (\<lambda>_ _. True)"
  unfolding parameter_entity_of_def by (intro returning_rules TrueI)

lemma returns_general_entity [THEN plain.weaken, returning_rules]:
  "left p < n \<Longrightarrow> returns b (general_entity_def_of n base) p (\<lambda>_ _. True)"
  unfolding general_entity_def_of_def by (intro returning_rules TrueI)

lemma returns_entity [THEN plain.weaken, returning_rules]:
  "left p < n \<Longrightarrow> returns b (entity_declaration n) p (\<lambda>_ _. True)"
  unfolding entity_declaration_def Let_def by (intro returning_rules TrueI) (blast intro: left_le)+

lemma returns_declare_once:
  "knows (dr_pool p) name \<Longrightarrow> returns b (declare_once f name) p (\<lambda>_ _. True)"
  unfolding declare_once_def by (intro returning_rules TrueI) (blast intro: advances_knows)

lemma returns_element [THEN plain.weaken, returning_rules]:
  "left p < n \<Longrightarrow> returns b (element_declaration n) p (\<lambda>_ _. True)"
  unfolding element_declaration_def
  by (intro returning_rules returns_declare_once TrueI) (blast intro: left_le advances_knows)+

lemma returns_notation [THEN plain.weaken, returning_rules]:
  "returns b (notation_declaration n) p (\<lambda>_ _. True)"
  unfolding notation_declaration_def
  by (intro returning_rules returns_declare_once TrueI) (blast intro: advances_knows)+

section \<open>Markup and passes\<close>

lemma find_sub_left: "find_sub s (remaining p) = Some i \<Longrightarrow> i + length s \<le> left p"
  by (metis find_sub_Some_split length_remaining)

lemma returns_skips [THEN plain.weaken, returning_rules]:
  "returns b skip_comment p (\<lambda>_ _. True)" "returns b skip_processing_instruction p (\<lambda>_ _. True)"
  unfolding skip_comment_def skip_processing_instruction_def Let_def
  by (intro returning_rules TrueI; force dest: find_sub_left)+

text \<open>The sections of external text do not occur.\<close>

lemma returns_conditional [returning_rules]: "in_external p \<Longrightarrow> returns b (conditional_section n body) p P"
  by (rule plain.knowing_good) (simp add: plainly_internal)

lemma advances_numbers: "advances b p q \<Longrightarrow> dr_pos p \<le> dr_pos q \<and> left q \<le> left p"
  by (auto simp: advances_def left_def plainly_def)

lemma returns_markup [THEN plain.weaken, returning_rules]:
  "left p + 1 < n \<Longrightarrow> returns b (markup_declaration n body) p (\<lambda>_ q. dr_pos p < dr_pos q)"
  unfolding markup_declaration_def by (intro returning_rules) (auto dest!: advances_numbers)

lemma returns_nested [THEN plain.weaken, returning_rules]:
  assumes "returns b f p (\<lambda>_ q. dr_pos p < dr_pos q)"
  shows "returns b (nested f) p (\<lambda>_ q. dr_pos p < dr_pos q)"
  unfolding nested_def by (intro returning_rules plain.weaken [OF assms])

lemma returns_read_declarations:
  "left p + 2 < n \<Longrightarrow> returns b (read_declarations n) p (\<lambda>_ _. True)"
proof (induction n arbitrary: p)
  case (Suc n)
  have p: "left p + 1 < n" "left p < Suc (n - 2)" "0 < n" using Suc.prems by auto
  have rec: "left q < n - 2 \<Longrightarrow> returns b (read_declarations n) q (\<lambda>_ _. True)" for q
    using Suc.IH by simp
  show ?case
    unfolding read_declarations.simps
    by (intro returning_rules turn [OF rec p(2)] TrueI)
       (use p(1,3) in \<open>(meson plain.step_trans | (auto dest!: advances_numbers)[1])+\<close>)
qed simp

section \<open>A subset\<close>

definition no_references :: "ustring \<Rightarrow> bool" where
  "no_references text \<longleftrightarrow> PERCENT \<notin> set text"

lemma read_declarations_empty:
  "dr_buf p = [] \<Longrightarrow> 2 \<le> n \<Longrightarrow> fst (read_declarations n p) = Inr ()"
proof -
  assume empty: "dr_buf p = []" and "2 \<le> n"
  then obtain k where n: "n = Suc (Suc k)" by (metis add_2_eq_Suc le_Suc_ex)
  have skip: "skip_whitespace q = (Inr (), q)" if "dr_buf q = []" for q
    using that by (simp add: skip_whitespace_def reading_def remaining_def move_def)
  have expand: "expand_parameter_entity (Suc k) p = (Inr (), p)"
    using empty by (simp add: reading_def peek_pe_start_def remaining_def)
  show ?thesis
    by (simp add: n skip expand empty del: expand_parameter_entity.simps)
       (simp add: reading_def peek_def remaining_def empty)
qed

lemma pass_returns:
  assumes "pool_wf pool" "no_references text" "length text + 2 < n"
    "parse_dtd n text (with_internal_subset (length text) base) pool = (r, q)"
  shows "r = Inl e \<Longrightarrow> orderly e"
proof (cases "text = []")
  case True
  let ?p = "\<lparr>dr_pool = pool, dr_buf = text, dr_layout = with_internal_subset (length text) base, dr_pos = 0, dr_dtd = empty_dtd\<rparr>"
  have "fst (read_declarations n ?p) = Inr ()" by (rule read_declarations_empty) (use True assms(3) in auto)
  then show "r = Inl e \<Longrightarrow> orderly e" using assms(4) by (simp add: parse_dtd_def)
next
  case False
  let ?p = "\<lparr>dr_pool = pool, dr_buf = text, dr_layout = with_internal_subset (length text) base, dr_pos = 0, dr_dtd = empty_dtd\<rparr>"
  have "plainly base ?p" "left ?p + 2 < n"
    using assms False by (simp_all add: plainly_def no_references_def left_def)
  then show "r = Inl e \<Longrightarrow> orderly e"
    using returns_read_declarations [of ?p n base] assms(4) by (auto simp: under_def parse_dtd_def)
qed

text \<open>
  C18. Reading an internal subset of XML characters in which no \<open>%\<close> stands anywhere (no parameter entity is
  declared or referred to, and no literal or comment holds the sign) ends, without a panic, in declarations
  or in an error: no loop of the reader takes more turns than the subset has characters, and two. In the
  declarations every name resolves in the pool, which has only grown, and every text is of XML characters.
\<close>

theorem subset_is_read:
  assumes "pool_wf pool" "no_references text" "list_all is_char text" "length text + 2 < n"
    "parse_subset n text pool base = (r, pool')"
  shows "pool_wf pool' \<and> pool_le pool pool' \<and>
    ((\<exists>d. r = Inr d \<and> fine_dtd pool' d) \<or> (\<exists>e. r = Inl (Err e)))"
proof -
  obtain x q where pass: "parse_dtd n text (with_internal_subset (length text) base) pool = (x, q)" by fastforce
  note g = pass_goes [OF assms(1,3) pass] and stop = pass_returns [OF assms(1,2,4) pass]
  have "pool' = dr_pool q" using assms(5) pass by (simp add: parse_subset_def)
  then show ?thesis
    using g stop assms(5) pass
    by (auto simp: parse_subset_def goes_def reader_ok_def pass_outcome_def orderly_def
        split: sum.splits dtd_stop.splits)
qed

theorem subset_is_read_witness:
  "\<exists>r pool'. parse_subset 99 (lit ''<!ENTITY e 'x'><!ELEMENT a'') sample_pool \<lparr>lo_system_id = None, lo_public_id = None, lo_line = 1, lo_column = 1, lo_offset = 0\<rparr> = (r, pool') \<and>
     pool_wf pool' \<and> pool_le sample_pool pool' \<and> ((\<exists>d. r = Inr d \<and> fine_dtd pool' d) \<or> (\<exists>e. r = Inl (Err e)))"
proof -
  let ?text = "lit ''<!ENTITY e 'x'><!ELEMENT a''"
  obtain r pool' where run: "parse_subset 99 ?text sample_pool \<lparr>lo_system_id = None, lo_public_id = None, lo_line = 1, lo_column = 1, lo_offset = 0\<rparr> = (r, pool')"
    by fastforce
  have "no_references ?text" "list_all is_char ?text" "length ?text + 2 < 99"
    by (simp_all add: no_references_def is_char_def)
  from subset_is_read [OF sample_pool_wf this run] run show ?thesis by blast
qed

end
