(* ===== verification/Dtd_Text.thy ===== *)
theory Dtd_Text
  imports Dtd_Returns
begin

text \<open>
  The reader on internal text, method by method: \<open>reader_at base pool d pre t\<close> is the reader of an internal
  subset that has read \<open>pre\<close> and has \<open>t\<close> before it. Each lemma is an equation that runs one method on the text
  it is meant for; together they run the reader over a declaration.
\<close>

section \<open>The reader in the middle of a text\<close>

definition reader_at :: "location \<Rightarrow> name_pool \<Rightarrow> dtd \<Rightarrow> ustring \<Rightarrow> ustring \<Rightarrow> dtd_parser" where
  "reader_at b pool d pre t =
     \<lparr>dr_pool = pool, dr_buf = pre @ t, dr_layout = with_internal_subset (length (pre @ t)) b,
      dr_pos = length pre, dr_dtd = d\<rparr>"

text \<open>The next character exists and is no white space.\<close>

definition solid :: "ustring \<Rightarrow> bool" where
  "solid t \<longleftrightarrow> t \<noteq> [] \<and> \<not> is_whitespace (hd t)"

text \<open>The next character exists and does not continue a name.\<close>

definition breaks :: "ustring \<Rightarrow> bool" where
  "breaks t \<longleftrightarrow> t \<noteq> [] \<and> \<not> is_name_char (hd t)"

named_theorems on_text "equations that run the reader on internal text"

lemma solid_Cons [simp]: "solid (c # t) \<longleftrightarrow> \<not> is_whitespace c"
  by (simp add: solid_def)

lemma not_solid_Nil [simp]: "\<not> solid []"
  by (simp add: solid_def)

lemma breaks_Cons [simp]: "breaks (c # t) \<longleftrightarrow> \<not> is_name_char c"
  by (simp add: breaks_def)

lemma name_not_white: "is_name_char c \<Longrightarrow> \<not> is_whitespace c"
  by (auto simp: is_name_char_def is_name_start_char_def is_whitespace_def)

lemma solid_word: "s \<noteq> [] \<Longrightarrow> list_all is_name_char s \<Longrightarrow> solid (s @ t)"
  by (cases s) (auto dest: name_not_white)

lemma is_name_word: "is_name s \<Longrightarrow> s \<noteq> [] \<and> list_all is_name_char s"
  by (cases s) (auto simp: is_name_char_def)

lemma solid_name [simp]: "is_name s \<Longrightarrow> solid (s @ t)"
  using is_name_word solid_word by blast

lemma delimiters_no_name [simp]:
  "\<not> is_name_char 0x20" "\<not> is_name_char GT" "\<not> is_name_char 0x29" "\<not> is_name_char 0x28" "\<not> is_name_char 0x7C"
  "\<not> is_name_char 0x2C" "\<not> is_name_char 0x2A" "\<not> is_name_char 0x2B" "\<not> is_name_char 0x3F" "\<not> is_name_char QUOT"
  "\<not> is_name_char SEMI" "\<not> is_name_char 0x23"
  by (simp_all add: is_name_char_def is_name_start_char_def)

lemma delimiters_no_white [simp]:
  "is_whitespace 0x20" "\<not> is_whitespace GT" "\<not> is_whitespace 0x29" "\<not> is_whitespace 0x28" "\<not> is_whitespace 0x7C"
  "\<not> is_whitespace 0x2C" "\<not> is_whitespace 0x2A" "\<not> is_whitespace 0x2B" "\<not> is_whitespace 0x3F" "\<not> is_whitespace QUOT"
  "\<not> is_whitespace APOS" "\<not> is_whitespace SEMI" "\<not> is_whitespace 0x23" "\<not> is_whitespace LT" "\<not> is_whitespace PERCENT"
  by (simp_all add: is_whitespace_def)

lemma remaining_at [on_text]: "remaining (reader_at b pool d pre t) = t"
  by (simp add: remaining_def reader_at_def)

lemma peek_at [on_text]: "peek (reader_at b pool d pre (c # t)) = Some c" "peek (reader_at b pool d pre []) = None"
  by (simp_all add: peek_def on_text)

lemma fields_at [on_text]:
  "dr_pool (reader_at b pool d pre t) = pool" "dr_dtd (reader_at b pool d pre t) = d"
  "dr_pos (reader_at b pool d pre t) = length pre"
  by (simp_all add: reader_at_def)

lemma internal_at [on_text]: "in_external (reader_at b pool d pre t) \<longleftrightarrow> pre = [] \<and> t = []"
proof (cases "pre = [] \<and> t = []")
  case False
  then have "0 < length (pre @ t)" by auto
  from source_internal [OF this, of "length pre"] False show ?thesis
    by (simp add: in_external_def reader_at_def is_external_at_def)
qed (simp add: in_external_def reader_at_def is_external_at_def with_internal_subset_def source_at_def
       placed_pieces_def innermost_def)

lemma located_at: "location_at (dr_layout (reader_at b pool d pre t)) (dr_buf (reader_at b pool d pre t)) k \<noteq> None \<or> length (pre @ t) < k"
proof (cases "pre @ t = [] \<or> length (pre @ t) < k")
  case False
  then have "0 < length (pre @ t)" "k \<le> length (pre @ t)" by auto
  then show ?thesis
    by (simp add: reader_at_def location_at_def source_internal no_children slice_def piece_origin_def del: length_append)
qed (auto simp: reader_at_def location_at_def source_at_def with_internal_subset_def placed_pieces_def innermost_def)

lemma move_at [on_text]:
  "move (length s) (reader_at b pool d pre (s @ t)) = (Inr (), reader_at b pool d (pre @ s) t)"
  "move (Suc 0) (reader_at b pool d pre (c # t)) = (Inr (), reader_at b pool d (pre @ [c]) t)"
  by (simp_all add: move_def reader_at_def)

lemma change_dtd_at [on_text]: "change_dtd f (reader_at b pool d pre t) = (Inr (), reader_at b pool (f d) pre t)"
  by (simp add: change_dtd_def reader_at_def)

lemma reading_run: "reading g p = g p p"
  by (simp add: reading_def)

lemma skip_whitespace_at [on_text]:
  "solid t \<Longrightarrow> skip_whitespace (reader_at b pool d pre t) = (Inr (), reader_at b pool d pre t)"
  "solid t \<Longrightarrow> skip_whitespace (reader_at b pool d pre (0x20 # t)) = (Inr (), reader_at b pool d (pre @ [0x20]) t)"
  using move_at(1) [of "[]" b pool d pre t] move_at(2) [of b pool d pre "0x20" t]
  by (cases t; simp add: skip_whitespace_def reading_run on_text)+

lemma consume_at:
  "consume s (reader_at b pool d pre t) =
     (if starts_with s t then (Inr True, reader_at b pool d (pre @ s) (drop (length s) t))
      else (Inr False, reader_at b pool d pre t))"
  by (auto simp: consume_def reading_run on_text starts_with_iff)

lemma strip_prefix_self: "strip_prefix s (s @ t) = Some t"
  by simp

lemma consume_keyword_at:
  "consume_keyword s (reader_at b pool d pre t) =
     (if starts_with s t \<and> ends_keyword (drop (length s) t) then (Inr True, reader_at b pool d (pre @ s) (drop (length s) t))
      else (Inr False, reader_at b pool d pre t))"
proof (cases "starts_with s t")
  case True
  then obtain r where "t = s @ r" by (auto simp: starts_with_iff)
  then show ?thesis
    by (simp add: consume_keyword_def reading_run on_text strip_prefix_self del: strip_prefix_Some)
next
  case False
  then have "strip_prefix s t = None" by (simp add: strip_prefix_None)
  with False show ?thesis by (simp add: consume_keyword_def reading_run on_text)
qed

lemma then_consume [on_text]:
  "and_then (consume s) g (reader_at b pool d pre t) =
     (if starts_with s t then g True (reader_at b pool d (pre @ s) (drop (length s) t)) else g False (reader_at b pool d pre t))"
  "and_then (consume_keyword s) g (reader_at b pool d pre t) =
     (if starts_with s t \<and> ends_keyword (drop (length s) t) then g True (reader_at b pool d (pre @ s) (drop (length s) t))
      else g False (reader_at b pool d pre t))"
  by (simp_all add: and_then_def consume_at consume_keyword_at)

lemma ends_keyword_simps [on_text]:
  "ends_keyword []" "ends_keyword (c # s) \<longleftrightarrow> is_whitespace c \<or> c = 0x28 \<or> c = GT \<or> c = PERCENT"
  by (simp_all add: ends_keyword_def)

lemma expect_at [on_text]: "expect c (reader_at b pool d pre (c # t)) = (Inr (), reader_at b pool d (pre @ [c]) t)"
  by (simp add: expect_def reading_run on_text)

lemma expect_quote_at [on_text]:
  "q = QUOT \<or> q = APOS \<Longrightarrow> expect_quote (reader_at b pool d pre (q # t)) = (Inr q, reader_at b pool d (pre @ [q]) t)"
  by (auto simp: expect_quote_def reading_run on_text)

lemma until_at: "c \<notin> set s \<Longrightarrow> until c (reader_at b pool d pre (s @ c # t)) = (Inr s, reader_at b pool d (pre @ s) (c # t))"
  by (simp add: until_def reading_run on_text)

lemma expand_in_external_at [on_text]:
  "t \<noteq> [] \<Longrightarrow> expand_in_external n (reader_at b pool d pre t) = (Inr (), reader_at b pool d pre t)"
  by (simp add: expand_in_external_def reading_run on_text)

text \<open>A name that the pool knows is read back as its handle, and the pool stays as it is.\<close>

lemma intern_known:
  assumes "pool_wf pool" "knows pool h"
  shows "intern pool (named pool h) = Inr (h, pool)"
proof -
  have o: "owns pool h" "named pool h = p_names pool ! ni_index h"
    using assms(2) by (auto simp: knows_def named_def resolve_def split: if_splits)
  then have "p_index pool (named pool h) = Some (ni_index h)"
    using assms(1) index_ok_nth [of pool "ni_index h"] by (simp add: pool_wf_def owns_def)
  moreover have "NameId (origin pool (ni_index h)) (ni_index h) = h"
    using o by (cases h) (simp add: owns_def)
  ultimately show ?thesis by (simp add: intern_def)
qed

lemma word_before:
  "list_all is_name_char s \<Longrightarrow> breaks t \<Longrightarrow> takeWhile is_name_char (s @ t) = s"
  by (cases t) (auto simp: list_all_iff takeWhile_append2)

definition nameable :: "name_pool \<Rightarrow> name_id \<Rightarrow> bool" where
  "nameable pool h \<longleftrightarrow> knows pool h \<and> is_name (named pool h)"

lemma intern_dtd_at:
  assumes "pool_wf pool" "knows pool h"
  shows "intern_dtd (named pool h) (reader_at b pool d pre t) = (Inr h, reader_at b pool d pre t)"
proof -
  have "reader_at b pool d pre t\<lparr>dr_pool := pool\<rparr> = reader_at b pool d pre t" by (simp add: reader_at_def)
  moreover have "location_at (dr_layout (reader_at b pool d pre t)) (dr_buf (reader_at b pool d pre t)) (length pre) \<noteq> None"
    using located_at [of b pool d pre t "length pre"] by auto
  ultimately show ?thesis
    using intern_known [OF assms] by (auto simp: intern_dtd_def reading_run on_text split: option.split)
qed

lemma raw_name_at [on_text]:
  assumes "pool_wf pool" "nameable pool h" "breaks t"
  shows "raw_name (reader_at b pool d pre (named pool h @ t)) = (Inr h, reader_at b pool d (pre @ named pool h) t)"
proof -
  have "word_at (reader_at b pool d pre (named pool h @ t)) = named pool h"
    using assms is_name_word [of "named pool h"] by (simp add: word_at_def on_text word_before nameable_def)
  with assms show ?thesis by (simp add: raw_name_def reading_run on_text nameable_def intern_dtd_at)
qed

lemma nmtoken_at [on_text]:
  assumes "pool_wf pool" "knows pool h" "is_nmtoken (named pool h)" "breaks t"
  shows "nmtoken (reader_at b pool d pre (named pool h @ t)) = (Inr h, reader_at b pool d (pre @ named pool h) t)"
proof -
  have "word_at (reader_at b pool d pre (named pool h @ t)) = named pool h"
    using assms by (simp add: word_at_def on_text word_before is_nmtoken_def)
  with assms show ?thesis by (simp add: nmtoken_def reading_run on_text intern_dtd_at)
qed

lemma nameable_solid [simp]: "nameable pool h \<Longrightarrow> solid (named pool h @ t)"
  by (simp add: nameable_def)

lemma nameable_not_Nil [simp]: "nameable pool h \<Longrightarrow> named pool h \<noteq> []"
  by (auto simp: nameable_def)

lemma read_name_at [on_text]:
  "pool_wf pool \<Longrightarrow> nameable pool h \<Longrightarrow> breaks t \<Longrightarrow>
     read_name n (reader_at b pool d pre (named pool h @ t)) = (Inr h, reader_at b pool d (pre @ named pool h) t)"
  by (simp add: read_name_def on_text)

lemma separators_at [on_text]:
  "solid t \<Longrightarrow> skip_separators n (reader_at b pool d pre t) = (Inr (), reader_at b pool d pre t)"
  by (cases t) (simp_all add: skip_separators_def reading_run on_text)

lemma require_whitespace_at [on_text]:
  "solid t \<Longrightarrow> require_whitespace n (reader_at b pool d pre (0x20 # t)) = (Inr (), reader_at b pool d (pre @ [0x20]) t)"
  by (cases t) (simp_all add: require_whitespace_def reading_run on_text white_next_def)

lemma close_at [on_text]: "close_declaration (reader_at b pool d pre (GT # t)) = (Inr (), reader_at b pool d (pre @ [GT]) t)"
  by (simp add: close_declaration_def on_text)

end
