(* ===== verification/Dtd_Printing.thy ===== *)
theory Dtd_Printing
  imports Dtd_Text
begin

text \<open>
  Declarations as text, and the round trip: an internal subset that writes a list of declarations down is read
  back as these declarations, in this order, with the pool of names unchanged.

  The writer is the specification: it says, construct by construct, which text declares what.
\<close>

section \<open>Content models\<close>

fun print_occurs :: "occurs \<Rightarrow> ustring" where
  "print_occurs Once = []"
| "print_occurs Optional = [QUESTION]"
| "print_occurs ZeroOrMore = [0x2A]"
| "print_occurs OneOrMore = [0x2B]"

fun separated :: "uchar \<Rightarrow> ustring list \<Rightarrow> ustring" where
  "separated c [] = []"
| "separated c (x # xs) = x @ concat (map (\<lambda>y. c # y) xs)"

fun print_particle :: "name_pool \<Rightarrow> content_particle \<Rightarrow> ustring" where
  "print_particle pool (Name h occurs) = named pool h @ print_occurs occurs"
| "print_particle pool (Choice cps occurs) =
     OPAREN # separated BAR (map (print_particle pool) cps) @ CPAREN # print_occurs occurs"
| "print_particle pool (Seq cps occurs) =
     OPAREN # separated COMMA (map (print_particle pool) cps) @ CPAREN # print_occurs occurs"

fun print_spec :: "name_pool \<Rightarrow> content_spec \<Rightarrow> ustring" where
  "print_spec pool CEmpty = lit ''EMPTY''"
| "print_spec pool CAny = lit ''ANY''"
| "print_spec pool (Mixed names) =
     lit ''(#PCDATA'' @ concat (map (\<lambda>h. BAR # named pool h) names) @ CPAREN # (if names = [] then [] else [0x2A])"
| "print_spec pool (Children model) = print_particle pool model"

text \<open>The particles a content model can hold, in \<open>room\<close> levels of groups.\<close>

fun particle_ok :: "name_pool \<Rightarrow> nat \<Rightarrow> content_particle \<Rightarrow> bool" where
  "particle_ok pool 0 model \<longleftrightarrow> False"
| "particle_ok pool (Suc room) (Name h occurs) \<longleftrightarrow> nameable pool h"
| "particle_ok pool (Suc room) (Choice cps occurs) \<longleftrightarrow> 2 \<le> length cps \<and> list_all (particle_ok pool room) cps"
| "particle_ok pool (Suc room) (Seq cps occurs) \<longleftrightarrow> cps \<noteq> [] \<and> list_all (particle_ok pool room) cps"

fun spec_ok :: "name_pool \<Rightarrow> content_spec \<Rightarrow> bool" where
  "spec_ok pool CEmpty \<longleftrightarrow> True"
| "spec_ok pool CAny \<longleftrightarrow> True"
| "spec_ok pool (Mixed names) \<longleftrightarrow> list_all (nameable pool) names"
| "spec_ok pool (Children model) \<longleftrightarrow> particle_ok pool (MAX_CONTENT_DEPTH + 1) model \<and> (\<forall>h occurs. model \<noteq> Name h occurs)"

definition ends_particle :: "ustring \<Rightarrow> bool" where
  "ends_particle t \<longleftrightarrow> t \<noteq> [] \<and> hd t \<in> {CPAREN, BAR, COMMA, GT}"

lemma ends_particle_Cons [simp]: "ends_particle (c # t) \<longleftrightarrow> c \<in> {CPAREN, BAR, COMMA, GT}"
  by (simp add: ends_particle_def)

lemma not_ends_particle_Nil [simp]: "\<not> ends_particle []"
  by (simp add: ends_particle_def)

lemma ends_particle_breaks: "ends_particle t \<Longrightarrow> breaks (print_occurs occurs @ t)"
  by (cases occurs; cases t) auto

lemma ends_particle_solid: "ends_particle t \<Longrightarrow> solid t"
  by (cases t) auto

lemma occurrence_at [on_text]:
  "ends_particle t \<Longrightarrow>
     occurrence (reader_at b pool d pre (print_occurs occurs @ t)) = (Inr occurs, reader_at b pool d (pre @ print_occurs occurs) t)"
  by (cases t; cases occurs) (auto simp: occurrence_def reading_run on_text)

lemma particles_loop_at:
  assumes particle: "\<And>x d pre t. x \<in> set xs \<Longrightarrow> ends_particle t \<Longrightarrow>
      particle (reader_at b pool d pre (pr x @ t)) = (Inr x, reader_at b pool d (pre @ pr x) t)"
    and solid: "\<And>x t. x \<in> set xs \<Longrightarrow> solid (pr x @ t)"
    and sep: "sep = BAR \<or> sep = COMMA" and t: "ends_particle t" and n: "length xs < n"
  shows "particles_loop n particle sep acc
      (reader_at b pool d pre (concat (map (\<lambda>x. sep # pr x) xs) @ CPAREN # print_occurs occurs @ t)) =
    (Inr (if sep = BAR then Choice (acc @ xs) occurs else Seq (acc @ xs) occurs),
     reader_at b pool d (pre @ concat (map (\<lambda>x. sep # pr x) xs) @ CPAREN # print_occurs occurs) t)"
  using particle solid n
proof (induction xs arbitrary: n acc pre)
  case Nil
  then show ?case using sep t by (cases n) (auto simp: reading_run on_text)
next
  case (Cons x xs)
  define later where "later = concat (map (\<lambda>x. sep # pr x) xs) @ CPAREN # print_occurs occurs @ t"
  have e: "ends_particle later" using sep by (cases xs) (auto simp: later_def)
  obtain m where m: "n = Suc m" "length xs < m" using Cons.prems(3) by (cases n) auto
  have rec: "particles_loop m particle sep (acc @ [x]) (reader_at b pool d (pre @ sep # pr x) later) =
      (Inr (if sep = BAR then Choice (acc @ x # xs) occurs else Seq (acc @ x # xs) occurs),
       reader_at b pool d (pre @ sep # pr x @ concat (map (\<lambda>x. sep # pr x) xs) @ CPAREN # print_occurs occurs) t)"
    using Cons.IH [OF _ _ m(2), of "acc @ [x]" "pre @ sep # pr x"] Cons.prems(1,2) by (simp add: later_def)
  have "particles_loop n particle sep acc (reader_at b pool d pre (sep # pr x @ later)) =
      (Inr (if sep = BAR then Choice (acc @ x # xs) occurs else Seq (acc @ x # xs) occurs),
       reader_at b pool d (pre @ sep # pr x @ concat (map (\<lambda>x. sep # pr x) xs) @ CPAREN # print_occurs occurs) t)"
    using Cons.prems(1,2) e ends_particle_solid [OF e] rec by (simp add: m reading_run on_text)
  then show ?case by (simp add: later_def)
qed

lemma name_head:
  "is_name w \<Longrightarrow> w \<noteq> [] \<and> hd w \<noteq> HASH \<and> hd w \<noteq> PERCENT \<and> hd w \<noteq> OPAREN \<and>
     hd w \<noteq> GT \<and> \<not> is_whitespace (hd w)"
  by (cases w) (auto simp: is_name_start_char_def is_whitespace_def)

lemma particle_solid: "particle_ok pool room x \<Longrightarrow> solid (print_particle pool x @ t)"
  by (cases room; cases x) auto

lemma separated_length: "x \<in> set xs \<Longrightarrow> length x + length xs \<le> length (separated c xs) + 1"
proof (cases xs)
  case (Cons y ys)
  have "length ys \<le> length (concat (map (\<lambda>y. c # y) ys))" by (induction ys) auto
  moreover have "length x + length ys \<le> length (concat (map (\<lambda>y. c # y) ys))" if "x \<in> set ys"
    using that
  proof (induction ys)
    case (Cons z zs)
    have "length zs \<le> length (concat (map (\<lambda>y. c # y) zs))" by (induction zs) auto
    with Cons show ?case by auto
  qed simp
  moreover assume "x \<in> set xs"
  ultimately show ?thesis using Cons by auto
qed simp

lemma choice_or_seq_at:
  assumes particle: "\<And>x d pre t. x \<in> set xs \<Longrightarrow> ends_particle t \<Longrightarrow>
      particle (reader_at b pool d pre (pr x @ t)) = (Inr x, reader_at b pool d (pre @ pr x) t)"
    and solid: "\<And>x t. x \<in> set xs \<Longrightarrow> solid (pr x @ t)"
    and sep: "sep = BAR \<and> 2 \<le> length xs \<or> sep = COMMA \<and> xs \<noteq> []" and t: "ends_particle t" and n: "length xs < n"
  shows "choice_or_seq n particle (reader_at b pool d pre (OPAREN # separated sep (map pr xs) @ CPAREN # print_occurs occurs @ t)) =
    (Inr (if sep = BAR then Choice xs occurs else Seq xs occurs),
     reader_at b pool d (pre @ OPAREN # separated sep (map pr xs) @ CPAREN # print_occurs occurs) t)"
proof -
  obtain x ys where xs: "xs = x # ys" using sep by (cases xs) auto
  define later where "later = concat (map (\<lambda>y. sep # pr y) ys) @ CPAREN # print_occurs occurs @ t"
  have e: "ends_particle later" using sep by (cases ys) (auto simp: later_def)
  have loop: "particles_loop n particle sep [x] (reader_at b pool d (pre @ OPAREN # pr x) later) =
      (Inr (if sep = BAR then Choice xs occurs else Seq xs occurs),
       reader_at b pool d (pre @ OPAREN # pr x @ concat (map (\<lambda>y. sep # pr y) ys) @ CPAREN # print_occurs occurs) t)"
    using particles_loop_at [of ys particle b pool pr sep t n "[x]" d "pre @ OPAREN # pr x" occurs] particle solid sep t n
    by (auto simp: later_def xs)
  have run: "choice_or_seq n particle (reader_at b pool d pre (OPAREN # pr x @ later)) =
      (Inr (if sep = BAR then Choice xs occurs else Seq xs occurs),
       reader_at b pool d (pre @ OPAREN # pr x @ concat (map (\<lambda>y. sep # pr y) ys) @ CPAREN # print_occurs occurs) t)"
  proof (cases ys)
    case Nil
    then show ?thesis
      using particle [of x later] solid [of x] e sep t xs
      by (simp add: choice_or_seq_def on_text reading_run later_def)
  next
    case (Cons y zs)
    then have later: "later = sep # pr y @ concat (map (\<lambda>y. sep # pr y) zs) @ CPAREN # print_occurs occurs @ t"
      by (simp add: later_def)
    have "choice_or_seq n particle (reader_at b pool d pre (OPAREN # pr x @ later)) =
        particles_loop n particle sep [x] (reader_at b pool d (pre @ OPAREN # pr x) later)"
      using particle [of x later] solid [of x] e ends_particle_solid [OF e] sep xs
      by (auto simp: choice_or_seq_def on_text reading_run later)
    then show ?thesis by (simp add: loop)
  qed
  have "separated sep (map pr xs) = pr x @ concat (map (\<lambda>y. sep # pr y) ys)"
    by (simp add: xs comp_def)
  then show ?thesis using run by (simp add: later_def)
qed

lemma particle_at [on_text]:
  assumes pool: "pool_wf pool"
  shows "particle_ok pool room x \<Longrightarrow> ends_particle t \<Longrightarrow> length (print_particle pool x) < n \<Longrightarrow>
    content_particle_within n room (reader_at b pool d pre (print_particle pool x @ t)) =
      (Inr x, reader_at b pool d (pre @ print_particle pool x) t)"
proof (induction room arbitrary: x d pre t)
  case (Suc room)
  have group: "content_particle_within n (Suc room) (reader_at b pool d pre (OPAREN # separated sep (map (print_particle pool) xs) @
        CPAREN # print_occurs occurs @ t)) =
      (Inr (if sep = BAR then Choice xs occurs else Seq xs occurs),
       reader_at b pool d (pre @ OPAREN # separated sep (map (print_particle pool) xs) @ CPAREN # print_occurs occurs) t)"
    if sep: "sep = BAR \<and> 2 \<le> length xs \<or> sep = COMMA \<and> xs \<noteq> []" and ok: "list_all (particle_ok pool room) xs"
      and len: "length (separated sep (map (print_particle pool) xs)) + 1 < n" for sep xs occurs
  proof -
    have short: "length (print_particle pool y) < n" "length xs < n" if "y \<in> set xs" for y
    proof -
      have y: "print_particle pool y \<in> set (map (print_particle pool) xs)" using that by simp
      have "length (print_particle pool y) + length xs \<le> length (separated sep (map (print_particle pool) xs)) + 1"
        using separated_length [OF y, of sep] by simp
      with len show "length (print_particle pool y) < n" "length xs < n" by linarith+
    qed
    have "xs \<noteq> []" using sep by auto
    then have n: "length xs < n" using short(2) [of "hd xs"] by simp
    have each: "content_particle_within n room (reader_at b pool d pre (print_particle pool y @ t)) =
        (Inr y, reader_at b pool d (pre @ print_particle pool y) t)" if "y \<in> set xs" "ends_particle t" for y d pre t
      using Suc.IH that ok short by (simp add: list_all_iff)
    have solid: "solid (print_particle pool y @ t)" if "y \<in> set xs" for y t
      using particle_solid ok that by (auto simp: list_all_iff)
    have "choice_or_seq n (content_particle_within n room) (reader_at b pool d pre
          (OPAREN # separated sep (map (print_particle pool) xs) @ CPAREN # print_occurs occurs @ t)) =
        (Inr (if sep = BAR then Choice xs occurs else Seq xs occurs),
         reader_at b pool d (pre @ OPAREN # separated sep (map (print_particle pool) xs) @ CPAREN # print_occurs occurs) t)"
      by (rule choice_or_seq_at [OF each solid sep Suc.prems(2) n])
    then show ?thesis by (simp add: on_text reading_run)
  qed
  show ?case
  proof (cases x)
    case (Name h occurs)
    have "breaks (print_occurs occurs @ t)" using ends_particle_breaks [OF Suc.prems(2)] .
    moreover obtain c w where "named pool h = c # w" "c \<noteq> OPAREN"
      using Name Suc.prems(1) by (cases "named pool h") (auto simp: nameable_def is_name_start_char_def)
    ultimately show ?thesis
      using Name Suc.prems pool raw_name_at [OF pool, of h "print_occurs occurs @ t" b d pre]
      by (simp add: on_text reading_run read_name_def)
  next
    case (Choice xs occurs)
    then show ?thesis using group [of BAR xs occurs] Suc.prems by simp
  next
    case (Seq xs occurs)
    then show ?thesis using group [of COMMA xs occurs] Suc.prems by simp
  qed
qed simp

lemma mixed_names_at:
  assumes "pool_wf pool"
  shows "list_all (nameable pool) names \<Longrightarrow> length names < n \<Longrightarrow>
    mixed_names n acc (reader_at b pool d pre (concat (map (\<lambda>h. BAR # named pool h) names) @ CPAREN # t)) =
      (Inr (acc @ names), reader_at b pool d (pre @ concat (map (\<lambda>h. BAR # named pool h) names)) (CPAREN # t))"
proof (induction names arbitrary: n acc pre)
  case Nil
  then show ?case by (cases n) (auto simp: reading_run on_text)
next
  case (Cons h names)
  then obtain m where m: "n = Suc m" by (cases n) auto
  define later where "later = concat (map (\<lambda>h. BAR # named pool h) names) @ CPAREN # t"
  have "breaks later" "solid later" by (cases names; simp add: later_def)+
  then have "mixed_names n acc (reader_at b pool d pre (BAR # named pool h @ later)) =
      mixed_names m (acc @ [h]) (reader_at b pool d (pre @ BAR # named pool h) later)"
    using Cons.prems assms by (simp add: m reading_run on_text)
  then show ?case
    using Cons.IH [of m "acc @ [h]" "pre @ BAR # named pool h"] Cons.prems by (simp add: m later_def)
qed

lemma concat_length: "(\<And>x. x \<in> set xs \<Longrightarrow> 0 < length (f x)) \<Longrightarrow> length xs \<le> length (concat (map f xs))"
proof (induction xs)
  case (Cons x xs)
  have "0 < length (f x)" using Cons.prems by simp
  moreover have "length xs \<le> length (concat (map f xs))" using Cons by simp
  ultimately show ?case by (cases "f x") auto
qed simp

lemma mixed_content_at:
  assumes "pool_wf pool" "list_all (nameable pool) names" "length names < n"
  shows "mixed_content n (reader_at b pool d pre (lit ''(#PCDATA'' @ concat (map (\<lambda>h. BAR # named pool h) names) @
        CPAREN # (if names = [] then [] else [0x2A]) @ GT # t)) =
    (Inr (Mixed names), reader_at b pool d (pre @ lit ''(#PCDATA'' @ concat (map (\<lambda>h. BAR # named pool h) names) @
        CPAREN # (if names = [] then [] else [0x2A])) (GT # t))"
proof -
  define listed where "listed = concat (map (\<lambda>h. BAR # named pool h) names)"
  define tail where "tail = (if names = [] then [] else [0x2A]) @ GT # t"
  have "solid (listed @ CPAREN # tail)" by (cases names) (simp_all add: listed_def)
  then have "mixed_content n (reader_at b pool d pre (lit ''(#PCDATA'' @ listed @ CPAREN # tail)) =
      and_then (consume [0x2A]) (\<lambda>star. if names \<noteq> [] \<and> \<not> star then reader_error else ok (Mixed names))
        (reader_at b pool d (pre @ lit ''(#PCDATA'' @ listed @ [CPAREN]) tail)"
    using mixed_names_at [OF assms, of "[]" b d _ tail] by (simp add: mixed_content_def on_text listed_def)
  then show ?thesis by (cases "names = []") (simp_all add: listed_def tail_def on_text)
qed

lemma spec_at [on_text]:
  assumes pool: "pool_wf pool" and ok: "spec_ok pool spec" and n: "length (print_spec pool spec) < n"
  shows "content_spec_of n (reader_at b pool d pre (print_spec pool spec @ GT # t)) =
    (Inr spec, reader_at b pool d (pre @ print_spec pool spec) (GT # t))"
proof (cases spec)
  case (Mixed names)
  have "length names < n"
    using concat_length [of names "\<lambda>h. BAR # named pool h"] n Mixed by simp
  note mixed = mixed_content_at [OF pool _ this]
  have "content_spec_of n (reader_at b pool d pre (OPAREN # HASH # u)) = mixed_content n (reader_at b pool d pre (OPAREN # HASH # u))"
    if "starts_with (lit ''PCDATA'') u" for u
    using that by (simp add: content_spec_of_def on_text reading_run)
  then show ?thesis using mixed [of b d pre t] ok Mixed by simp
next
  case (Children x)
  have "\<exists>w. print_particle pool x = OPAREN # w \<and> \<not> starts_with (lit ''#PCDATA'') (dropWhile is_whitespace (w @ GT # t))"
  proof -
    have "\<not> starts_with (lit ''#PCDATA'') (dropWhile is_whitespace (separated c (map (print_particle pool) xs) @ u))"
      if some: "xs \<noteq> []" and fine: "list_all (particle_ok pool room) xs" for c xs u room
    proof -
      obtain y ys where xs: "xs = y # ys" using some by (cases xs) auto
      then have "particle_ok pool room y" using fine by simp
      then have "print_particle pool y @ v = hd (print_particle pool y @ v) # tl (print_particle pool y @ v) \<and>
          hd (print_particle pool y @ v) \<noteq> HASH \<and> \<not> is_whitespace (hd (print_particle pool y @ v))" for v
        by (cases room; cases y) (auto simp: nameable_def dest: name_head)
      then obtain k w where "print_particle pool y @ concat (map (\<lambda>z. c # z) (map (print_particle pool) ys)) @ u = k # w"
        "k \<noteq> HASH" "\<not> is_whitespace k" by metis
      then show ?thesis using xs by simp
    qed
    moreover have "2 \<le> length xs \<Longrightarrow> xs \<noteq> []" for xs :: "content_particle list" by auto
    ultimately show ?thesis using ok Children by (cases x) (simp_all, blast+)
  qed
  then obtain w where w: "print_particle pool x = OPAREN # w"
    "\<not> starts_with (lit ''#PCDATA'') (dropWhile is_whitespace (w @ GT # t))" by blast
  have "content_particle_of n 0 (reader_at b pool d pre (print_particle pool x @ GT # t)) =
      (Inr x, reader_at b pool d (pre @ print_particle pool x) (GT # t))"
    using particle_at [OF pool, of "MAX_CONTENT_DEPTH + 1" x "GT # t"] ok n Children
    by (simp add: content_particle_of_def)
  then show ?thesis
    using Children w by (simp add: content_spec_of_def on_text reading_run)
qed (simp_all add: content_spec_of_def on_text reading_run)

section \<open>Literals\<close>

definition print_text :: "uchar set \<Rightarrow> ustring \<Rightarrow> ustring" where
  "print_text escaped v = concat (map (\<lambda>c. if c \<in> escaped then char_reference c else [c]) v)"

definition value_escapes :: "uchar set" where
  "value_escapes = {QUOT, PERCENT, AMP}"

definition default_escapes :: "uchar set" where
  "default_escapes = {QUOT, LT, AMP, 0x9, 0xA, 0xD}"

definition print_literal :: "uchar set \<Rightarrow> ustring \<Rightarrow> ustring" where
  "print_literal escaped v = QUOT # print_text escaped v @ [QUOT]"

lemma radix_value_digits:
  "list_all is_ascii_digit ds \<Longrightarrow> foldl (\<lambda>n d. 10 * n + (d - 48)) acc ds \<le> u32_max \<Longrightarrow>
     radix_value 10 acc ds = Some (foldl (\<lambda>n d. 10 * n + (d - 48)) acc ds)"
proof (induction ds arbitrary: acc)
  case (Cons d ds)
  have grows: "acc' \<le> foldl (\<lambda>n d. 10 * n + (d - 48)) acc' ds" for acc' :: nat
  proof (induction ds arbitrary: acc')
    case (Cons a ds)
    show ?case by (simp only: foldl_Cons, rule order_trans [OF _ Cons.IH]) simp
  qed simp
  have "digit_of 10 d = Some (d - 48)"
    using Cons.prems(1) by (auto simp: digit_of_def is_ascii_digit_def)
  with Cons grows [of "10 * acc + (d - 48)"] show ?case by (simp add: mult.commute)
qed simp

lemma from_str_radix_decimal: "c \<le> u32_max \<Longrightarrow> from_str_radix 10 (decimal c) = Some c"
proof -
  have v: "decimal c \<noteq> []" "list_all is_ascii_digit (decimal c)" "foldl (\<lambda>n d. 10 * n + (d - 48)) 0 (decimal c) = c"
    using digits_value_decimal [of c] by (auto simp: digits_value_def split: if_splits)
  then obtain d ds where "decimal c = d # ds" by (cases "decimal c") auto
  moreover assume "c \<le> u32_max"
  ultimately show ?thesis
    using v radix_value_digits [of "decimal c" 0] by (simp add: from_str_radix_def is_ascii_digit_def del: radix_value.simps)
qed

lemma char_reference_at [on_text]:
  assumes "is_char c"
  shows "reference_in_literal n x (reader_at b pool d pre (HASH # decimal c @ SEMI # t)) =
    (Inr [c], reader_at b pool d (pre @ HASH # decimal c @ [SEMI]) t)"
proof -
  obtain k ds where ds: "decimal c = k # ds" using digits_value_decimal [of c] by (cases "decimal c") (auto simp: digits_value_def)
  have k: "k \<noteq> 0x78" using decimal_digits [of k c] ds by auto
  have "takeWhile (\<lambda>k. k \<noteq> SEMI) (decimal c @ SEMI # t) = decimal c"
    using decimal_no_semi [of c] by (subst takeWhile_append2) auto
  then have digits: "reference_digits (reader_at b pool d (pre @ [HASH]) (decimal c @ SEMI # t)) =
      (Inr (decimal c), reader_at b pool d (pre @ HASH # decimal c) (SEMI # t))"
    using move_at(1) [of "decimal c" b pool d "pre @ [HASH]" "SEMI # t"] by (simp add: reference_digits_def reading_run on_text Let_def)
  have "scalar c" "c \<le> u32_max" using assms by (auto simp: scalar_def is_char_def u32_max_def)
  then have "referenced_char 10 (decimal c) = Some c"
    using assms by (simp add: referenced_char_def from_str_radix_decimal)
  moreover have "\<not> starts_with [0x78] (decimal c @ SEMI # t)" "decimal c \<noteq> []" using ds k by auto
  ultimately show ?thesis
    using digits by (simp add: reference_in_literal_def char_reference_in_literal_def on_text)
qed

lemma entity_value_loop_at:
  "list_all is_char v \<Longrightarrow> length v < n \<Longrightarrow>
     entity_value_loop n QUOT out (reader_at b pool d pre (print_text value_escapes v @ QUOT # t)) =
       (Inr (out @ v), reader_at b pool d (pre @ print_text value_escapes v @ [QUOT]) t)"
proof (induction v arbitrary: n out pre)
  case Nil
  then show ?case by (cases n) (auto simp: print_text_def reading_run on_text)
next
  case (Cons c v)
  then obtain m where m: "n = Suc m" by (cases n) auto
  define later where "later = print_text value_escapes v @ QUOT # t"
  have IH: "entity_value_loop m QUOT out' (reader_at b pool d pre' later) =
      (Inr (out' @ v), reader_at b pool d (pre' @ print_text value_escapes v @ [QUOT]) t)" for out' pre'
    using Cons m by (simp add: later_def)
  show ?case
  proof (cases "c \<in> value_escapes")
    case True
    then have "print_text value_escapes (c # v) @ QUOT # t = AMP # HASH # decimal c @ SEMI # later"
      by (simp add: print_text_def char_reference_def later_def)
    moreover have "is_char c" using Cons.prems by simp
    ultimately show ?thesis
      using IH True by (simp add: m reading_run on_text print_text_def char_reference_def)
  next
    case False
    then have "print_text value_escapes (c # v) @ QUOT # t = c # later" "c \<noteq> QUOT" "c \<noteq> PERCENT" "c \<noteq> AMP"
      by (auto simp: print_text_def later_def value_escapes_def)
    then show ?thesis using IH False by (simp add: m reading_run on_text print_text_def)
  qed
qed

lemma entity_value_at [on_text]:
  "list_all is_char v \<Longrightarrow> length v < n \<Longrightarrow>
     entity_value n (reader_at b pool d pre (print_literal value_escapes v @ t)) =
       (Inr v, reader_at b pool d (pre @ print_literal value_escapes v) t)"
  using entity_value_loop_at [of v n "[]" b pool d "pre @ [QUOT]" t]
  by (simp add: entity_value_def print_literal_def on_text)

lemma default_value_loop_at:
  "list_all is_char v \<Longrightarrow> length v < n \<Longrightarrow>
     default_value_loop n QUOT out (reader_at b pool d pre (print_text default_escapes v @ QUOT # t)) =
       (Inr (out @ v), reader_at b pool d (pre @ print_text default_escapes v @ [QUOT]) t)"
proof (induction v arbitrary: n out pre)
  case Nil
  then show ?case by (cases n) (auto simp: print_text_def reading_run on_text)
next
  case (Cons c v)
  then obtain m where m: "n = Suc m" by (cases n) auto
  define later where "later = print_text default_escapes v @ QUOT # t"
  have IH: "default_value_loop m QUOT out' (reader_at b pool d pre' later) =
      (Inr (out' @ v), reader_at b pool d (pre' @ print_text default_escapes v @ [QUOT]) t)" for out' pre'
    using Cons m by (simp add: later_def)
  show ?case
  proof (cases "c \<in> default_escapes")
    case True
    then have "print_text default_escapes (c # v) @ QUOT # t = AMP # HASH # decimal c @ SEMI # later"
      by (simp add: print_text_def char_reference_def later_def)
    moreover have "is_char c" using Cons.prems by simp
    ultimately show ?thesis
      using IH True by (simp add: m reading_run on_text print_text_def char_reference_def)
  next
    case False
    then have "print_text default_escapes (c # v) @ QUOT # t = c # later"
      "c \<noteq> QUOT" "c \<noteq> LT" "c \<noteq> AMP" "c \<noteq> 0x9" "c \<noteq> 0xA" "c \<noteq> 0xD"
      by (auto simp: print_text_def later_def default_escapes_def)
    then show ?thesis using IH False by (simp add: m reading_run on_text print_text_def)
  qed
qed

lemma default_value_at [on_text]:
  "list_all is_char v \<Longrightarrow> length v < n \<Longrightarrow> normalize_tokenized v (is_tokenized ty) = v \<Longrightarrow>
     attribute_default_value n ty (reader_at b pool d pre (print_literal default_escapes v @ t)) =
       (Inr v, reader_at b pool d (pre @ print_literal default_escapes v) t)"
  using default_value_loop_at [of v n "[]" b pool d "pre @ [QUOT]" t]
  by (simp add: attribute_default_value_def print_literal_def on_text)

lemma print_text_length: "length v \<le> length (print_text escaped v)"
  by (induction v) (auto simp: print_text_def char_reference_def)

section \<open>Attribute lists\<close>

fun print_type :: "name_pool \<Rightarrow> att_type \<Rightarrow> ustring" where
  "print_type pool Cdata = lit ''CDATA''"
| "print_type pool Id = lit ''ID''"
| "print_type pool IdRef = lit ''IDREF''"
| "print_type pool IdRefs = lit ''IDREFS''"
| "print_type pool Entity = lit ''ENTITY''"
| "print_type pool Entities = lit ''ENTITIES''"
| "print_type pool Nmtoken = lit ''NMTOKEN''"
| "print_type pool Nmtokens = lit ''NMTOKENS''"
| "print_type pool (Notation names) = lit ''NOTATION ('' @ separated BAR (map (named pool) names) @ [CPAREN]"
| "print_type pool (Enumeration names) = OPAREN # separated BAR (map (named pool) names) @ [CPAREN]"

fun print_default :: "default_decl \<Rightarrow> ustring" where
  "print_default Required = lit ''#REQUIRED''"
| "print_default Implied = lit ''#IMPLIED''"
| "print_default (Fixed v) = lit ''#FIXED '' @ print_literal default_escapes v"
| "print_default (Default v) = print_literal default_escapes v"

definition print_def :: "name_pool \<Rightarrow> att_def \<Rightarrow> ustring" where
  "print_def pool a =
     named pool (ad_name a) @ 0x20 # print_type pool (ad_type a) @ 0x20 # print_default (ad_default a)"

definition tokenable :: "name_pool \<Rightarrow> name_id \<Rightarrow> bool" where
  "tokenable pool h \<longleftrightarrow> knows pool h \<and> is_nmtoken (named pool h)"

fun type_ok :: "name_pool \<Rightarrow> att_type \<Rightarrow> bool" where
  "type_ok pool (Notation names) \<longleftrightarrow> names \<noteq> [] \<and> list_all (nameable pool) names"
| "type_ok pool (Enumeration names) \<longleftrightarrow> names \<noteq> [] \<and> list_all (tokenable pool) names"
| "type_ok pool ty \<longleftrightarrow> True"

definition default_ok :: "att_type \<Rightarrow> default_decl \<Rightarrow> bool" where
  "default_ok ty x \<longleftrightarrow>
     (case default_value x of
        None \<Rightarrow> True
      | Some v \<Rightarrow> list_all is_char v \<and> normalize_tokenized v (is_tokenized ty) = v)"

definition def_ok :: "name_pool \<Rightarrow> att_def \<Rightarrow> bool" where
  "def_ok pool a \<longleftrightarrow> nameable pool (ad_name a) \<and> type_ok pool (ad_type a) \<and> default_ok (ad_type a) (ad_default a)"

lemma group_loop_at:
  assumes item: "\<And>x d pre t. x \<in> set (y # xs) \<Longrightarrow> breaks t \<Longrightarrow>
      item (reader_at b pool d pre (named pool x @ t)) = (Inr x, reader_at b pool d (pre @ named pool x) t)"
    and solid: "\<And>x t. x \<in> set (y # xs) \<Longrightarrow> solid (named pool x @ t)" and n: "length xs < n"
  shows "group_loop n item acc (reader_at b pool d pre (named pool y @ concat (map (\<lambda>x. BAR # named pool x) xs) @ CPAREN # t)) =
    (Inr (acc @ y # xs), reader_at b pool d (pre @ named pool y @ concat (map (\<lambda>x. BAR # named pool x) xs) @ [CPAREN]) t)"
  using item solid n
proof (induction xs arbitrary: n y acc pre)
  case Nil
  then show ?case by (cases n) (auto simp: reading_run on_text)
next
  case (Cons z xs)
  then obtain m where m: "n = Suc m" by (cases n) auto
  define later where "later = named pool z @ concat (map (\<lambda>x. BAR # named pool x) xs) @ CPAREN # t"
  have "group_loop m item (acc @ [y]) (reader_at b pool d (pre @ named pool y @ [BAR]) later) =
      (Inr (acc @ y # z # xs), reader_at b pool d (pre @ named pool y @ BAR # named pool z @
        concat (map (\<lambda>x. BAR # named pool x) xs) @ [CPAREN]) t)"
    using Cons.IH [of z m "acc @ [y]" "pre @ named pool y @ [BAR]"] Cons.prems m by (simp add: later_def)
  then have "group_loop n item acc (reader_at b pool d pre (named pool y @ BAR # later)) =
      (Inr (acc @ y # z # xs), reader_at b pool d (pre @ named pool y @ BAR # named pool z @
        concat (map (\<lambda>x. BAR # named pool x) xs) @ [CPAREN]) t)"
    using Cons.prems(1) [of y "BAR # later"] Cons.prems(2) [of y "BAR # later"]
    by (simp add: m reading_run on_text)
  then show ?case by (simp add: later_def)
qed

lemma tokenable_solid: "tokenable pool h \<Longrightarrow> solid (named pool h @ t)"
  using solid_word [of "named pool h" t] by (simp add: tokenable_def is_nmtoken_def)

lemma group_at:
  assumes pool: "pool_wf pool" and names: "names \<noteq> []" "length (separated BAR (map (named pool) names)) < n"
  shows "list_all (nameable pool) names \<Longrightarrow>
      name_group n (reader_at b pool d pre (OPAREN # separated BAR (map (named pool) names) @ CPAREN # t)) =
        (Inr names, reader_at b pool d (pre @ OPAREN # separated BAR (map (named pool) names) @ [CPAREN]) t)"
    "list_all (tokenable pool) names \<Longrightarrow>
      nmtoken_group n (reader_at b pool d pre (OPAREN # separated BAR (map (named pool) names) @ CPAREN # t)) =
        (Inr names, reader_at b pool d (pre @ OPAREN # separated BAR (map (named pool) names) @ [CPAREN]) t)"
proof -
  obtain y ys where ys: "names = y # ys" using names(1) by (cases names) auto
  have "length ys \<le> length (concat (map (\<lambda>x. BAR # named pool x) ys))" by (rule concat_length) simp
  then have n: "length ys < n" using names(2) by (simp add: ys comp_def)
  have shape: "separated BAR (map (named pool) names) = named pool y @ concat (map (\<lambda>x. BAR # named pool x) ys)"
    by (simp add: ys comp_def)
  show "name_group n (reader_at b pool d pre (OPAREN # separated BAR (map (named pool) names) @ CPAREN # t)) =
        (Inr names, reader_at b pool d (pre @ OPAREN # separated BAR (map (named pool) names) @ [CPAREN]) t)"
    if ok: "list_all (nameable pool) names"
  proof -
    have "group_loop n (read_name n) [] (reader_at b pool d (pre @ [OPAREN]) (named pool y @ concat (map (\<lambda>x. BAR # named pool x) ys) @ CPAREN # t)) =
        (Inr ([] @ y # ys), reader_at b pool d ((pre @ [OPAREN]) @ named pool y @ concat (map (\<lambda>x. BAR # named pool x) ys) @ [CPAREN]) t)"
      by (rule group_loop_at [OF _ _ n]) (use ok pool in \<open>auto simp: ys list_all_iff on_text\<close>)
    then show ?thesis by (simp add: name_group_def group_of_def on_text ys comp_def)
  qed
  show "nmtoken_group n (reader_at b pool d pre (OPAREN # separated BAR (map (named pool) names) @ CPAREN # t)) =
        (Inr names, reader_at b pool d (pre @ OPAREN # separated BAR (map (named pool) names) @ [CPAREN]) t)"
    if ok: "list_all (tokenable pool) names"
  proof -
    have "group_loop n nmtoken [] (reader_at b pool d (pre @ [OPAREN]) (named pool y @ concat (map (\<lambda>x. BAR # named pool x) ys) @ CPAREN # t)) =
        (Inr ([] @ y # ys), reader_at b pool d ((pre @ [OPAREN]) @ named pool y @ concat (map (\<lambda>x. BAR # named pool x) ys) @ [CPAREN]) t)"
      by (rule group_loop_at [OF _ _ n]) (use ok pool in \<open>auto simp: ys list_all_iff on_text tokenable_solid, auto simp: tokenable_def on_text\<close>)
    then show ?thesis by (simp add: nmtoken_group_def group_of_def on_text ys comp_def)
  qed
qed

lemma type_at [on_text]:
  assumes pool: "pool_wf pool" and ok: "type_ok pool ty" "length (print_type pool ty) < n"
  shows "attribute_type n (reader_at b pool d pre (print_type pool ty @ 0x20 # t)) =
    (Inr ty, reader_at b pool d (pre @ print_type pool ty) (0x20 # t))"
proof (cases ty)
  case (Notation names)
  have len: "length (separated BAR (map (named pool) names)) < n" using ok(2) Notation by simp
  show ?thesis
    using Notation group_at(1) [OF pool _ len] ok(1) by (simp add: attribute_type_def plain_types_def on_text)
next
  case (Enumeration names)
  have len: "length (separated BAR (map (named pool) names)) < n" using ok(2) Enumeration by simp
  show ?thesis
    using Enumeration group_at(2) [OF pool _ len] ok(1) by (simp add: attribute_type_def plain_types_def on_text reading_run)
qed (simp_all add: attribute_type_def plain_types_def on_text)

lemma default_at [on_text]:
  assumes "default_ok ty x" "length (print_default x) < n"
  shows "default_declaration n ty (reader_at b pool d pre (print_default x @ t)) =
    (Inr x, reader_at b pool d (pre @ print_default x) t)"
proof -
  have short: "length v < n" if "default_value x = Some v" for v
    using that assms(2) print_text_length [of v default_escapes]
    by (cases x) (auto simp: print_literal_def)
  have start: "print_literal default_escapes v @ t = QUOT # print_text default_escapes v @ QUOT # t" for v
    by (simp add: print_literal_def)
  show ?thesis
  proof (cases x)
    case (Fixed v)
    have "solid (print_literal default_escapes v @ t)" by (simp add: start)
    with Fixed show ?thesis
      using assms short default_value_at [of v n ty b pool d _ t] by (simp add: default_declaration_def on_text default_ok_def)
  next
    case (Default v)
    then show ?thesis
      using assms short default_value_at [of v n ty b pool d pre t]
      by (simp add: default_declaration_def on_text default_ok_def start)
  qed (simp_all add: default_declaration_def on_text)
qed

lemma definition_at [on_text]:
  assumes pool: "pool_wf pool" and ok: "def_ok pool a" and n: "length (print_def pool a) < n"
  shows "attribute_definition n (reader_at b pool d pre (print_def pool a @ t)) =
    (Inr a, reader_at b pool d (pre @ print_def pool a) t)"
proof -
  have heads: "solid (print_type pool ty @ u)" "solid (print_default x @ u)" for ty x u
    by (cases ty; simp add: is_whitespace_def) (cases x; simp add: print_literal_def)
  show ?thesis
    using assms by (simp add: attribute_definition_def print_def_def def_ok_def on_text heads)
qed

lemma definitions_at:
  assumes pool: "pool_wf pool"
  shows "list_all (def_ok pool) defs \<Longrightarrow> length (concat (map (\<lambda>a. 0x20 # print_def pool a) defs)) < n \<Longrightarrow>
    attribute_definitions n acc (reader_at b pool d pre (concat (map (\<lambda>a. 0x20 # print_def pool a) defs) @ GT # t)) =
      (Inr (acc @ defs), reader_at b pool d (pre @ concat (map (\<lambda>a. 0x20 # print_def pool a) defs) @ [GT]) t)"
proof (induction defs arbitrary: n acc pre)
  case Nil
  then show ?case by (cases n) (auto simp: on_text)
next
  case (Cons a defs)
  then obtain m where m: "n = Suc m" by (cases n) auto
  define later where "later = concat (map (\<lambda>a. 0x20 # print_def pool a) defs) @ GT # t"
  have ok: "nameable pool (ad_name a)" using Cons.prems by (simp add: def_ok_def)
  have head: "solid (print_def pool a @ u)" "\<not> starts_with [GT] (print_def pool a @ u)" for u
    using ok name_head [of "named pool (ad_name a)"]
    by (cases "named pool (ad_name a)"; simp add: print_def_def nameable_def)+
  have spaced: "skip_separators m (reader_at b pool d pre (0x20 # print_def pool a @ later)) =
      (Inr (), reader_at b pool d (pre @ [0x20]) (print_def pool a @ later))"
    using head(1) [of later] by (cases "print_def pool a @ later") (simp_all add: skip_separators_def reading_run on_text)
  have "attribute_definitions n acc (reader_at b pool d pre (0x20 # print_def pool a @ later)) =
      attribute_definitions m (acc @ [a]) (reader_at b pool d (pre @ 0x20 # print_def pool a) later)"
    using Cons.prems pool spaced head(2) by (simp add: m on_text)
  then show ?case
    using Cons.IH [of m "acc @ [a]" "pre @ 0x20 # print_def pool a"] Cons.prems by (simp add: m later_def)
qed

section \<open>External identifiers\<close>

definition quoted :: "ustring \<Rightarrow> ustring" where
  "quoted s = (if QUOT \<in> set s then APOS # s @ [APOS] else QUOT # s @ [QUOT])"

definition quotable :: "ustring \<Rightarrow> bool" where
  "quotable s \<longleftrightarrow> QUOT \<notin> set s \<or> APOS \<notin> set s"

fun print_ids :: "ustring option \<Rightarrow> ustring option \<Rightarrow> ustring" where
  "print_ids None sys = lit ''SYSTEM '' @ quoted (case sys of None \<Rightarrow> [] | Some s \<Rightarrow> s)"
| "print_ids (Some pub) None = lit ''PUBLIC '' @ quoted pub"
| "print_ids (Some pub) (Some s) = lit ''PUBLIC '' @ quoted pub @ 0x20 # quoted s"

definition external_ok :: "ustring option \<Rightarrow> ustring option \<Rightarrow> bool" where
  "external_ok pub sys \<longleftrightarrow> (pub = None \<longrightarrow> sys \<noteq> None) \<and> (\<forall>s. sys = Some s \<longrightarrow> quotable s) \<and>
     (\<forall>s. pub = Some s \<longrightarrow> list_all is_pubid_char s)"

lemma literal_at [on_text]:
  "quotable s \<Longrightarrow> system_literal (reader_at b pool d pre (quoted s @ t)) = (Inr s, reader_at b pool d (pre @ quoted s) t)"
  by (auto simp: system_literal_def quoted_def quotable_def on_text until_at)

lemma pubid_quotable: "list_all is_pubid_char s \<Longrightarrow> QUOT \<notin> set s"
  by (auto simp: list_all_iff is_pubid_char_def)

lemma pubid_at [on_text]:
  "list_all is_pubid_char s \<Longrightarrow> pubid_literal (reader_at b pool d pre (quoted s @ t)) = (Inr s, reader_at b pool d (pre @ quoted s) t)"
  using pubid_quotable [of s] by (simp add: pubid_literal_def quoted_def on_text until_at)

lemma quoted_solid [simp]: "solid (quoted s @ t)" "quoted s @ t \<noteq> []"
  by (simp_all add: quoted_def)

lemma external_id_at [on_text]:
  assumes "external_ok pub sys" "sys \<noteq> None \<or> allow \<and> (\<exists>u. t = GT # u)"
  shows "external_id_of n allow (reader_at b pool d pre (print_ids pub sys @ t)) =
    (Inr \<lparr>xi_public_id = pub, xi_system_id = sys\<rparr>, reader_at b pool d (pre @ print_ids pub sys) t)"
proof -
  have q: "quoted s @ u = hd (quoted s) # tl (quoted s) @ u" "hd (quoted s) \<noteq> GT" for s u
    by (simp_all add: quoted_def)
  show ?thesis
  proof (cases sys)
    case None
    then show ?thesis
      using assms by (cases pub) (auto simp: external_ok_def external_id_of_def on_text reading_run)
  next
    case (Some s)
    have peeked: "peek (reader_at b pool d p (quoted s @ u)) = Some (hd (quoted s))" for p u
      by (subst q(1)) (simp add: on_text)
    show ?thesis
      using assms Some q(2) by (cases pub) (simp_all add: external_ok_def external_id_of_def on_text reading_run peeked white_next_def)
  qed
qed

section \<open>Declarations\<close>

fun print_general :: "name_pool \<Rightarrow> general_entity \<Rightarrow> ustring" where
  "print_general pool (GInternal v) = print_literal value_escapes v"
| "print_general pool (GExternal pub sys base) = print_ids pub (Some sys)"
| "print_general pool (GUnparsed pub sys base notation) = print_ids pub (Some sys) @ lit '' NDATA '' @ named pool notation"

fun print_parameter :: "parameter_entity \<Rightarrow> ustring" where
  "print_parameter (PInternal v) = print_literal value_escapes v"
| "print_parameter (PExternal pub sys base) = print_ids pub (Some sys)"

fun print_decl :: "name_pool \<Rightarrow> decl \<Rightarrow> ustring" where
  "print_decl pool (DElement h spec) = lit ''<!ELEMENT '' @ named pool h @ 0x20 # print_spec pool spec @ [GT]"
| "print_decl pool (DAttlist h defs) =
     lit ''<!ATTLIST '' @ named pool h @ concat (map (\<lambda>a. 0x20 # print_def pool a) defs) @ [GT]"
| "print_decl pool (DGeneral h e) = lit ''<!ENTITY '' @ named pool h @ 0x20 # print_general pool e @ [GT]"
| "print_decl pool (DParameter h e) = lit ''<!ENTITY % '' @ named pool h @ 0x20 # print_parameter e @ [GT]"
| "print_decl pool (DNotation h i) =
     lit ''<!NOTATION '' @ named pool h @ 0x20 # print_ids (xi_public_id i) (xi_system_id i) @ [GT]"
| "print_decl pool _ = []"

fun general_ok :: "location \<Rightarrow> name_pool \<Rightarrow> general_entity \<Rightarrow> bool" where
  "general_ok b pool (GInternal v) \<longleftrightarrow> list_all is_char v"
| "general_ok b pool (GExternal pub sys base) \<longleftrightarrow> external_ok pub (Some sys) \<and> base = lo_system_id b"
| "general_ok b pool (GUnparsed pub sys base notation) \<longleftrightarrow>
     external_ok pub (Some sys) \<and> base = lo_system_id b \<and> nameable pool notation"

fun parameter_ok :: "location \<Rightarrow> parameter_entity \<Rightarrow> bool" where
  "parameter_ok b (PInternal v) \<longleftrightarrow> list_all is_char v"
| "parameter_ok b (PExternal pub sys base) \<longleftrightarrow> external_ok pub (Some sys) \<and> base = lo_system_id b"

text \<open>What an internal subset located at \<open>b\<close> can declare.\<close>

fun decl_ok :: "location \<Rightarrow> name_pool \<Rightarrow> decl \<Rightarrow> bool" where
  "decl_ok b pool (DElement h spec) \<longleftrightarrow> nameable pool h \<and> spec_ok pool spec"
| "decl_ok b pool (DAttlist h defs) \<longleftrightarrow> nameable pool h \<and> list_all (def_ok pool) defs"
| "decl_ok b pool (DGeneral h e) \<longleftrightarrow> nameable pool h \<and> general_ok b pool e"
| "decl_ok b pool (DParameter h e) \<longleftrightarrow> nameable pool h \<and> parameter_ok b e"
| "decl_ok b pool (DNotation h i) \<longleftrightarrow> nameable pool h \<and> external_ok (xi_public_id i) (xi_system_id i)"
| "decl_ok b pool _ \<longleftrightarrow> False"

text \<open>No element and no notation is declared twice.\<close>

fun fresh :: "dtd \<Rightarrow> decl \<Rightarrow> bool" where
  "fresh d (DElement h spec) \<longleftrightarrow> d_elements d h = None"
| "fresh d (DNotation h i) \<longleftrightarrow> d_notations d h = None"
| "fresh d _ \<longleftrightarrow> True"

fun all_fresh :: "dtd \<Rightarrow> decl list \<Rightarrow> bool" where
  "all_fresh d [] \<longleftrightarrow> True"
| "all_fresh d (x # xs) \<longleftrightarrow> fresh d x \<and> all_fresh (declare_one d x) xs"

section \<open>Reading a declaration back\<close>

lemma base_at_text: "pre @ t \<noteq> [] \<Longrightarrow> base_at (dr_layout (reader_at b pool d pre t)) (length pre) = lo_system_id b"
  using source_internal [of "length (pre @ t)" "length pre" b]
  by (simp add: base_at_def reader_at_def piece_origin_def)

lemma name_no_lit: "nameable pool h \<Longrightarrow> \<not> starts_with [PERCENT] (named pool h @ t)"
  using name_head [of "named pool h"] by (cases "named pool h") (auto simp: nameable_def)

lemma literal_head: "print_literal e v @ t = QUOT # print_text e v @ QUOT # t"
  by (simp add: print_literal_def)

lemma value_length: "length v < length (print_literal e v)"
  using print_text_length [of v e] by (simp add: print_literal_def)

lemma ids_head: "print_ids pub (Some s) @ t = (if pub = None then lit ''SYSTEM'' else lit ''PUBLIC'') @ drop 6 (print_ids pub (Some s)) @ t"
  by (cases pub) simp_all

lemma ids_external: "peek_external (reader_at b pool d pre (print_ids pub (Some s) @ t))"
  by (subst ids_head) (simp add: peek_external_def on_text del: lit_Cons)

lemma general_at:
  assumes pool: "pool_wf pool" and ok: "general_ok b pool e" "length (print_general pool e) < n"
  shows "general_entity_def_of n (lo_system_id b) (reader_at b pool d pre (print_general pool e @ GT # t)) =
    (Inr e, reader_at b pool d (pre @ print_general pool e) (GT # t))"
proof (cases e)
  case (GInternal v)
  have "\<not> peek_external (reader_at b pool d pre (print_literal value_escapes v @ GT # t))"
    by (simp add: literal_head peek_external_def on_text)
  moreover have "length v < n" using ok(2) GInternal value_length [of v value_escapes] by simp
  ultimately show ?thesis
    using GInternal ok by (simp add: general_entity_def_of_def reading_run on_text)
next
  case (GExternal pub sys base)
  then show ?thesis
    using ok external_id_at [of pub "Some sys" False "GT # t" n b pool d pre]
    by (simp add: general_entity_def_of_def reading_run ids_external required_system_id_def on_text)
next
  case (GUnparsed pub sys base nt)
  have "skip_whitespace (reader_at b pool d p (0x20 # 0x4E # u)) = (Inr (), reader_at b pool d (p @ [0x20]) (0x4E # u))" for p u
    by (rule skip_whitespace_at) (simp add: is_whitespace_def)
  then show ?thesis
    using GUnparsed ok pool external_id_at [of pub "Some sys" False "lit '' NDATA '' @ named pool nt @ GT # t" n b pool d pre]
    by (simp add: general_entity_def_of_def reading_run ids_external required_system_id_def on_text white_next_def)
qed

lemma parameter_at:
  assumes ok: "parameter_ok b e" "length (print_parameter e) < n"
  shows "parameter_entity_of n (lo_system_id b) (reader_at b pool d pre (print_parameter e @ GT # t)) =
    (Inr e, reader_at b pool d (pre @ print_parameter e) (GT # t))"
proof (cases e)
  case (PInternal v)
  have "\<not> peek_external (reader_at b pool d pre (print_literal value_escapes v @ GT # t))"
    by (simp add: literal_head peek_external_def on_text)
  moreover have "length v < n" using ok(2) PInternal value_length [of v value_escapes] by simp
  ultimately show ?thesis
    using PInternal ok by (simp add: parameter_entity_of_def reading_run on_text)
next
  case (PExternal pub sys base)
  then show ?thesis
    using ok external_id_at [of pub "Some sys" False "GT # t" n b pool d pre]
    by (simp add: parameter_entity_of_def reading_run ids_external required_system_id_def on_text)
qed

lemma heads [simp]:
  "solid (print_spec pool spec @ t) \<longleftrightarrow> (\<forall>x. spec = Children x \<longrightarrow> solid (print_particle pool x @ t))"
  "solid (print_general pool e @ t)" "solid (print_parameter p @ t)" "solid (print_ids pub sys @ t)"
proof -
  have letters: "\<not> is_whitespace 0x45" "\<not> is_whitespace 0x41" "\<not> is_whitespace 0x53" "\<not> is_whitespace 0x50"
    by (simp_all add: is_whitespace_def)
  show "solid (print_spec pool spec @ t) \<longleftrightarrow> (\<forall>x. spec = Children x \<longrightarrow> solid (print_particle pool x @ t))"
    by (cases spec) (simp_all add: letters)
  show ids: "solid (print_ids pub sys @ t)" for pub sys t
    by (cases pub; cases sys) (simp_all add: letters)
  show "solid (print_general pool e @ t)" by (cases e) (simp_all add: literal_head ids)
  show "solid (print_parameter p @ t)" by (cases p) (simp_all add: literal_head ids)
qed

lemma declare_once_at:
  "fst (f d) \<Longrightarrow> declare_once f h (reader_at b pool d pre t) = (Inr (), reader_at b pool (snd (f d)) pre t)"
  by (simp add: declare_once_def reading_run on_text)

lemma element_declaration_at:
  assumes "pool_wf pool" "decl_ok b pool (DElement h spec)" "fresh d (DElement h spec)"
    "length (print_decl pool (DElement h spec)) < n"
  shows "element_declaration n (reader_at b pool d pre (0x20 # named pool h @ 0x20 # print_spec pool spec @ GT # t)) =
    (Inr (), reader_at b pool (declare_one d (DElement h spec)) (pre @ 0x20 # named pool h @ 0x20 # print_spec pool spec @ [GT]) t)"
proof -
  have "solid (print_spec pool spec @ GT # t)" using assms(2) particle_solid by auto
  moreover have "fst (declare_element d h spec)" using assms(3) by (simp add: declare_element_def insert_new_def)
  ultimately show ?thesis
    using assms by (simp add: element_declaration_def on_text declare_once_at del: heads)
qed

lemma notation_declaration_at:
  assumes "pool_wf pool" "decl_ok b pool (DNotation h i)" "fresh d (DNotation h i)"
  shows "notation_declaration n (reader_at b pool d pre (0x20 # named pool h @ 0x20 #
        print_ids (xi_public_id i) (xi_system_id i) @ GT # t)) =
    (Inr (), reader_at b pool (declare_one d (DNotation h i)) (pre @ 0x20 # named pool h @ 0x20 #
        print_ids (xi_public_id i) (xi_system_id i) @ [GT]) t)"
proof -
  have "fst (declare_notation d h i)" using assms(3) by (simp add: declare_notation_def insert_new_def)
  then show ?thesis
    using assms by (cases i) (simp add: notation_declaration_def on_text declare_once_at)
qed

lemma attlist_declaration_at:
  assumes "pool_wf pool" "decl_ok b pool (DAttlist h defs)" "length (print_decl pool (DAttlist h defs)) < n"
  shows "attlist_declaration n (reader_at b pool d pre (0x20 # named pool h @ concat (map (\<lambda>a. 0x20 # print_def pool a) defs) @ GT # t)) =
    (Inr (), reader_at b pool (declare_one d (DAttlist h defs))
      (pre @ 0x20 # named pool h @ concat (map (\<lambda>a. 0x20 # print_def pool a) defs) @ [GT]) t)"
proof -
  have "breaks (concat (map (\<lambda>a. 0x20 # print_def pool a) defs) @ GT # t)" by (cases defs) simp_all
  then show ?thesis
    using assms by (simp add: attlist_declaration_def reading_run on_text definitions_at)
qed

lemma general_declaration_at:
  assumes "pool_wf pool" "decl_ok b pool (DGeneral h e)" "length (print_decl pool (DGeneral h e)) < n"
  shows "entity_declaration n (reader_at b pool d pre (0x20 # named pool h @ 0x20 # print_general pool e @ GT # t)) =
    (Inr (), reader_at b pool (declare_one d (DGeneral h e)) (pre @ 0x20 # named pool h @ 0x20 # print_general pool e @ [GT]) t)"
proof -
  have g: "general_entity_def_of n (lo_system_id b) (reader_at b pool d p (print_general pool e @ GT # t)) =
      (Inr e, reader_at b pool d (p @ print_general pool e) (GT # t))" for p
    by (rule general_at) (use assms in simp_all)
  show ?thesis
    using assms
    by (simp add: entity_declaration_def reading_run on_text base_at_text name_no_lit g Let_def)
qed

lemma parameter_declaration_at:
  assumes "pool_wf pool" "decl_ok b pool (DParameter h e)" "length (print_decl pool (DParameter h e)) < n"
  shows "entity_declaration n (reader_at b pool d pre (0x20 # PERCENT # 0x20 # named pool h @ 0x20 # print_parameter e @ GT # t)) =
    (Inr (), reader_at b pool (declare_one d (DParameter h e))
      (pre @ 0x20 # PERCENT # 0x20 # named pool h @ 0x20 # print_parameter e @ [GT]) t)"
proof -
  have g: "parameter_entity_of n (lo_system_id b) (reader_at b pool d p (print_parameter e @ GT # t)) =
      (Inr e, reader_at b pool d (p @ print_parameter e) (GT # t))" for p
    by (rule parameter_at) (use assms in simp_all)
  show ?thesis
    using assms
    by (simp add: entity_declaration_def reading_run on_text base_at_text g Let_def)
qed

section \<open>The round trip\<close>

lemma nested_at:
  assumes "f (reader_at b pool d pre (s @ t)) = (Inr (), reader_at b pool d' (pre @ s) t)"
  shows "nested f (reader_at b pool d pre (s @ t)) = (Inr (), reader_at b pool d' (pre @ s) t)"
proof -
  have "entity_at (with_internal_subset n b) k = None" for n k
    by (simp add: entity_at_def placed_pieces_def with_internal_subset_def innermost_def is_subset_piece_def)
  then have "same_pe_region (reader_at b pool d' (pre @ s) t) i j" for i j
    by (simp add: same_pe_region_def reader_at_def)
  then show ?thesis using assms by (simp add: nested_def reading_run on_text)
qed

lemma decl_at:
  assumes "pool_wf pool" "decl_ok b pool x" "fresh d x" "length (print_decl pool x) < n"
  shows "markup_declaration n body (reader_at b pool d pre (print_decl pool x @ t)) =
    (Inr (), reader_at b pool (declare_one d x) (pre @ print_decl pool x) t)"
proof (cases x)
  case (DElement h spec)
  then show ?thesis
    using assms element_declaration_at [of pool b h spec d n "pre @ lit ''<!ELEMENT''" t]
    by (simp add: markup_declaration_def on_text reading_run)
next
  case (DAttlist h defs)
  then show ?thesis
    using assms attlist_declaration_at [of pool b h defs n d "pre @ lit ''<!ATTLIST''" t]
    by (simp add: markup_declaration_def on_text reading_run)
next
  case (DGeneral h e)
  then show ?thesis
    using assms general_declaration_at [of pool b h e n d "pre @ lit ''<!ENTITY''" t]
    by (simp add: markup_declaration_def on_text reading_run)
next
  case (DParameter h e)
  then show ?thesis
    using assms parameter_declaration_at [of pool b h e n d "pre @ lit ''<!ENTITY''" t]
    by (simp add: markup_declaration_def on_text reading_run)
next
  case (DNotation h i)
  then show ?thesis
    using assms notation_declaration_at [of pool b h i d n "pre @ lit ''<!NOTATION''" t]
    by (simp add: markup_declaration_def on_text reading_run)
qed (use assms in simp_all)

lemma decl_head: "decl_ok b pool x \<Longrightarrow> \<exists>w. print_decl pool x = LT # w"
  by (cases x) simp_all

lemma read_declarations_at:
  assumes pool: "pool_wf pool"
  shows "list_all (decl_ok b pool) xs \<Longrightarrow> all_fresh d xs \<Longrightarrow> length (concat (map (print_decl pool) xs)) + 2 < n \<Longrightarrow>
    read_declarations n (reader_at b pool d pre (concat (map (print_decl pool) xs))) =
      (Inr (), reader_at b pool (declare_list d xs) (pre @ concat (map (print_decl pool) xs)) [])"
proof (induction xs arbitrary: n d pre)
  case Nil
  then have "2 < n" by simp
  then obtain m where n: "n = Suc (Suc m)" by (metis add_2_eq_Suc le_Suc_ex less_imp_le)
  have "skip_whitespace (reader_at b pool d pre []) = (Inr (), reader_at b pool d pre [])"
    using move_at(1) [of "[]" b pool d pre "[]"] by (simp add: skip_whitespace_def reading_run on_text)
  moreover have "\<not> peek_pe_start (reader_at b pool d pre [])" by (simp add: peek_pe_start_def on_text)
  ultimately show ?case
    unfolding n by (simp only: read_declarations.simps(2) [of "Suc m"])
      (simp add: reading_run on_text del: read_declarations.simps include_section.simps)
next
  case (Cons x xs)
  define later where "later = concat (map (print_decl pool) xs)"
  obtain w where w: "print_decl pool x = LT # w" using decl_head Cons.prems(1) by force
  have "2 < n" using Cons.prems(3) by simp
  then obtain m where n: "n = Suc (Suc m)" by (metis add_2_eq_Suc le_Suc_ex less_imp_le)
  have one: "nested (markup_declaration (Suc m) (include_section (Suc m))) (reader_at b pool d pre (print_decl pool x @ later)) =
      (Inr (), reader_at b pool (declare_one d x) (pre @ print_decl pool x) later)"
    by (rule nested_at, rule decl_at [OF pool]) (use Cons.prems n in simp_all)
  have "\<not> peek_pe_start (reader_at b pool d pre (LT # u))" for u by (simp add: peek_pe_start_def on_text split: list.split)
  then have "read_declarations n (reader_at b pool d pre (print_decl pool x @ later)) =
      read_declarations (Suc m) (reader_at b pool (declare_one d x) (pre @ print_decl pool x) later)"
    using one w unfolding n by (simp only: read_declarations.simps(2) [of "Suc m"])
      (simp add: reading_run on_text del: read_declarations.simps include_section.simps)
  also have "\<dots> = (Inr (), reader_at b pool (declare_list d (x # xs)) (pre @ print_decl pool x @ later) [])"
    using Cons.IH [of "declare_one d x" "Suc m" "pre @ print_decl pool x"] Cons.prems n w by (simp add: later_def)
  finally show ?case by (simp add: later_def)
qed

text \<open>
  C17. An internal subset that writes declarations down is read back as these declarations in this order, where no
  element and no notation is declared twice. The names were known, so the pool stays as it was.
\<close>

theorem subset_roundtrip:
  assumes "pool_wf pool" "list_all (decl_ok base pool) xs" "all_fresh empty_dtd xs"
    "length (concat (map (print_decl pool) xs)) + 2 < n"
  shows "parse_subset n (concat (map (print_decl pool) xs)) pool base = (Inr (declare_list empty_dtd xs), pool)"
proof -
  let ?text = "concat (map (print_decl pool) xs)"
  have "parse_dtd n ?text (with_internal_subset (length ?text) base) pool =
      (Inr (), reader_at base pool (declare_list empty_dtd xs) ?text [])"
    using read_declarations_at [OF assms(1-4), of "[]"] by (simp add: parse_dtd_def reader_at_def)
  then show ?thesis by (simp add: parse_subset_def pass_outcome_def on_text)
qed

lemma sample_names_facts: "pool_wf sample_names" "nameable sample_names (NameId 2 1)" "named sample_names (NameId 2 1) = lit ''a''"
  using sample_names_known by (simp_all add: nameable_def is_name_start_char_def)

theorem subset_roundtrip_witness:
  "parse_subset 99 (lit ''<!ELEMENT a ((a|a)*,a?)><!ENTITY a \"b\">'') sample_names \<lparr>lo_system_id = None, lo_public_id = None, lo_line = 1, lo_column = 1, lo_offset = 0\<rparr> =
     (Inr (declare_list empty_dtd
        [DElement (NameId 2 1) (Children (Seq [Choice [Name (NameId 2 1) Once, Name (NameId 2 1) Once] ZeroOrMore, Name (NameId 2 1) Optional] Once)),
         DGeneral (NameId 2 1) (GInternal (lit ''b''))]), sample_names)"
proof -
  let ?xs = "[DElement (NameId 2 1) (Children (Seq [Choice [Name (NameId 2 1) Once, Name (NameId 2 1) Once] ZeroOrMore, Name (NameId 2 1) Optional] Once)),
    DGeneral (NameId 2 1) (GInternal (lit ''b''))]"
  let ?base = "\<lparr>lo_system_id = None, lo_public_id = None, lo_line = 1, lo_column = 1, lo_offset = 0\<rparr>"
  have printed: "concat (map (print_decl sample_names) ?xs) = lit ''<!ELEMENT a ((a|a)*,a?)><!ENTITY a \"b\">''"
    by (simp add: sample_names_facts print_literal_def print_text_def value_escapes_def del: One_nat_def)
  have room: "MAX_CONTENT_DEPTH + 1 = Suc (Suc (Suc (MAX_CONTENT_DEPTH - 2)))"
    by (simp add: MAX_CONTENT_DEPTH_def)
  have "list_all (decl_ok ?base sample_names) ?xs"
    by (simp add: sample_names_facts is_char_def room del: One_nat_def Suc_eq_plus1 add_Suc_right)
  moreover have "all_fresh empty_dtd ?xs" by (simp add: empty_dtd_def)
  moreover have "length (concat (map (print_decl sample_names) ?xs)) + 2 < 99" unfolding printed by simp
  ultimately show ?thesis using subset_roundtrip [OF sample_names_facts(1), of ?base ?xs 99] unfolding printed by simp
qed

end
