(* ===== verification/Dtd_Findings.thy ===== *)
theory Dtd_Findings
  imports Dtd_Printing Parser_Tags
begin

text \<open>
  What the model of the DTD reader shows where it departs from XML 1.0 or from its own comments: a parameter
  entity that refers to itself is expanded for ever, and replacement text is refused or taken in places where
  the recommendation says the opposite.
\<close>

section \<open>A parameter entity that refers to itself\<close>

text \<open>The pieces inside the subset while the reference is expanded again and again, and the cursor before it.\<close>

definition around :: "nat \<Rightarrow> nat \<Rightarrow> nat \<Rightarrow> piece \<Rightarrow> bool" where
  "around k pos len x \<longleftrightarrow> pi_kind x = InternalEntityPiece \<and> fst (pi_range x) < fst (pi_content x) \<and>
     fst (pi_content x) \<le> pos \<and> pos + k \<le> snd (pi_content x) \<and> snd (pi_content x) < snd (pi_range x) \<and>
     snd (pi_range x) \<le> len"

definition inside_first :: "piece list \<Rightarrow> bool" where
  "inside_first xs \<longleftrightarrow>
     (\<forall>x ys. xs = x # ys \<longrightarrow> (\<forall>y\<in>set ys. piece_within y x \<and> fst (pi_range x) < fst (pi_content y)))"

definition circling :: "location \<Rightarrow> name_pool \<Rightarrow> name_id \<Rightarrow> ustring \<Rightarrow> dtd_parser \<Rightarrow> bool" where
  "circling b pool h w p \<longleftrightarrow>
     (\<exists>inner t. remaining p = PERCENT # w @ SEMI # t \<and> dr_pool p = pool \<and>
        d_parameter (dr_dtd p) h = Some (PInternal (PERCENT # w @ [SEMI])) \<and>
        la_pieces (dr_layout p) = \<lparr>pi_range = (0, length (dr_buf p)), pi_content = (0, length (dr_buf p)), pi_replaced = 0,
           pi_kind = SubsetPiece b False\<rparr> # inner \<and>
        list_all (around (length w + 2) (dr_pos p) (length (dr_buf p))) inner \<and> inside_first inner)"

lemma circling_located:
  assumes "circling b pool h w p" "dr_pos p \<le> k" "k \<le> dr_pos p + length w + 1"
  shows "location_at (dr_layout p) (dr_buf p) k \<noteq> None"
proof -
  obtain inner t where p: "remaining p = PERCENT # w @ SEMI # t"
    "la_pieces (dr_layout p) = \<lparr>pi_range = (0, length (dr_buf p)), pi_content = (0, length (dr_buf p)), pi_replaced = 0,
           pi_kind = SubsetPiece b False\<rparr> # inner"
    "list_all (around (length w + 2) (dr_pos p) (length (dr_buf p))) inner" "inside_first inner"
    using assms(1) by (auto simp: circling_def)
  have "length (remaining p) = length w + 2 + length t" using p(1) by simp
  then have len: "dr_pos p + length w + 2 \<le> length (dr_buf p)" by (simp add: remaining_def)
  let ?sub = "\<lparr>pi_range = (0, length (dr_buf p)), pi_content = (0, length (dr_buf p)), pi_replaced = 0,
           pi_kind = SubsetPiece b False\<rparr>"
  have none: "filter (\<lambda>(_, x). piece_origin x \<noteq> None \<and> holds x k) (enumerate n inner) = []" for n
    using p(3) by (auto simp: filter_empty_conv list_all_iff around_def piece_origin_def in_set_enumerate_eq)
  have src: "source_at (dr_layout p) k = Some (0, ?sub)"
    using len assms(3) none by (simp add: source_at_def placed_pieces_def p(2) innermost_def piece_origin_def holds_def)
  have children: "children_of (dr_layout p) (0, ?sub) = (case inner of [] \<Rightarrow> [] | x # _ \<Rightarrow> [x])"
  proof (cases inner)
    case (Cons x ys)
    have in_sub: "piece_within y ?sub" if "y \<in> set inner" for y
      using p(3) that by (simp add: list_all_iff around_def piece_within_def)
    have below: "piece_within y x \<and> \<not> piece_within x y" if "y \<in> set ys" for y
      using p(4) Cons that by (auto simp: inside_first_def piece_within_def)
    have inside: "filter (\<lambda>(i, y). i \<noteq> 0 \<and> piece_within y ?sub) (placed_pieces (dr_layout p)) = (1, x) # enumerate 2 ys"
      using in_sub Cons
      by (auto simp: placed_pieces_def p(2) filter_id_conv in_set_enumerate_eq numeral_2_eq_2)
    have "\<not> list_ex (\<lambda>(j, y). j \<noteq> 1 \<and> (j \<noteq> 0 \<and> piece_within y ?sub) \<and> piece_within x y) (placed_pieces (dr_layout p))"
      using below Cons by (auto simp: placed_pieces_def p(2) list_ex_iff in_set_enumerate_eq)
    moreover have "list_ex (\<lambda>(j, z). j \<noteq> i \<and> (j \<noteq> 0 \<and> piece_within z ?sub) \<and> piece_within y z) (placed_pieces (dr_layout p))"
      if "(i, y) \<in> set (enumerate 2 ys)" for i y
      using that below in_sub Cons by (auto simp: placed_pieces_def p(2) in_set_enumerate_eq)
    ultimately have "filter (\<lambda>(i, y). \<not> list_ex (\<lambda>(j, z). j \<noteq> i \<and> (j \<noteq> 0 \<and> piece_within z ?sub) \<and> piece_within y z) (placed_pieces (dr_layout p)))
        ((1, x) # enumerate 2 ys) = [(1, x)]"
      by (auto simp: filter_empty_conv)
    then show ?thesis
      using Cons unfolding children_of_def Let_def fst_conv snd_conv
      by (simp only: inside) (simp add: split_def)
  next
    case Nil
    then show ?thesis by (simp add: children_of_def placed_pieces_def p(2) Let_def)
  qed
  show ?thesis
  proof (cases inner)
    case (Cons x ys)
    then have "around (length w + 2) (dr_pos p) (length (dr_buf p)) x" using p(3) by simp
    then show ?thesis
      using src children Cons assms(2,3) by (auto simp: location_at_def around_def slice_def)
  qed (use src children len assms(3) in \<open>auto simp: location_at_def slice_def\<close>)
qed

lemma shift_around:
  assumes "around k pos len x" "0 < k"
  shows "shift_piece (pos, pos + k) (Suc (Suc k)) x =
      x\<lparr>pi_range := (fst (pi_range x), snd (pi_range x) + 2), pi_content := (fst (pi_content x), snd (pi_content x) + 2)\<rparr>"
  using assms by (auto simp: around_def shift_piece_def shift_def span_len_def Let_def)

lemma shifted_around:
  "around k pos len x \<Longrightarrow> 0 < k \<Longrightarrow> around k (Suc pos) (len + 2) (shift_piece (pos, pos + k) (Suc (Suc k)) x)"
  by (simp add: shift_around) (auto simp: around_def)

lemma shifted_inside_first:
  assumes "inside_first inner" "list_all (around k pos len) inner"
    "pi_range new = (pos, pos + k + 2)" "pi_content new = (pos + 1, pos + k + 1)" "0 < k"
  shows "inside_first (map (shift_piece (pos, pos + k) (Suc (Suc k))) inner @ [new])"
proof (cases inner)
  case (Cons x ys)
  have x: "around k pos len x" using assms(2) Cons by simp
  have "piece_within (shift_piece (pos, pos + k) (Suc (Suc k)) y) (shift_piece (pos, pos + k) (Suc (Suc k)) x) \<and>
      fst (pi_range (shift_piece (pos, pos + k) (Suc (Suc k)) x)) < fst (pi_content (shift_piece (pos, pos + k) (Suc (Suc k)) y))"
    if "y \<in> set ys" for y
  proof -
    have "around k pos len y" using assms(2) Cons that by (simp add: list_all_iff)
    moreover have "piece_within y x" "fst (pi_range x) < fst (pi_content y)" using assms(1) Cons that by (auto simp: inside_first_def)
    ultimately show ?thesis using x assms(5) by (simp add: shift_around piece_within_def)
  qed
  moreover have "piece_within new (shift_piece (pos, pos + k) (Suc (Suc k)) x)"
    "fst (pi_range (shift_piece (pos, pos + k) (Suc (Suc k)) x)) < fst (pi_content new)"
    using x assms(3-5) by (simp_all add: shift_around) (auto simp: around_def piece_within_def)
  ultimately show ?thesis using Cons by (auto simp: inside_first_def)
qed (simp add: inside_first_def)

lemma circling_expands:
  assumes pool: "pool_wf pool" "nameable pool h" and p: "circling b pool h (named pool h) p"
  shows "\<exists>q. expand_one p = (Inr (), q) \<and> circling b pool h (named pool h) q"
proof -
  define w where "w = named pool h"
  define k where "k = length w + 2"
  note located = circling_located [OF p]
  obtain inner t where f: "remaining p = PERCENT # w @ SEMI # t" "dr_pool p = pool"
    "d_parameter (dr_dtd p) h = Some (PInternal (PERCENT # w @ [SEMI]))"
    "la_pieces (dr_layout p) = \<lparr>pi_range = (0, length (dr_buf p)), pi_content = (0, length (dr_buf p)), pi_replaced = 0,
           pi_kind = SubsetPiece b False\<rparr> # inner"
    "list_all (around k (dr_pos p) (length (dr_buf p))) inner" "inside_first inner"
    using p unfolding circling_def w_def k_def by blast
  have w: "is_name w" using pool(2) by (simp add: nameable_def w_def)
  let ?p1 = "p\<lparr>dr_pos := dr_pos p + 1\<rparr>"
  let ?p2 = "p\<lparr>dr_pos := dr_pos p + 1 + length w\<rparr>"
  have rest: "drop (dr_pos p) (dr_buf p) = PERCENT # w @ SEMI # t" using f(1) by (simp add: remaining_def)
  have rest1: "remaining ?p1 = w @ SEMI # t"
    using arg_cong [OF rest, of "drop 1"] by (simp add: remaining_def)
  have rest2: "remaining ?p2 = SEMI # t"
    using arg_cong [OF rest, of "drop (1 + length w)"] by (simp add: remaining_def ac_simps)
  have len: "dr_pos p + k \<le> length (dr_buf p)"
    using arg_cong [OF rest, of length] by (simp add: k_def)
  have name: "raw_name ?p1 = (Inr h, ?p2)"
  proof -
    have "word_at ?p1 = w" using is_name_word [OF w] using rest1 by (simp add: word_at_def word_before)
    moreover have "intern_dtd w ?p2 = (Inr h, ?p2)"
      using located [of "dr_pos p + 1 + length w"] intern_known [of pool h] pool f(2)
      by (auto simp: intern_dtd_def reading_run w_def nameable_def split: option.split)
    ultimately show ?thesis using w by (simp add: raw_name_def reading_run move_def)
  qed
  let ?p3 = "p\<lparr>dr_pos := dr_pos p + k\<rparr>"
  have ref: "pe_reference p = (Inr h, ?p3)"
    using name rest2 by (simp add: pe_reference_def move_def expect_def reading_run peek_def k_def)
  let ?text = "[0x20] @ (PERCENT # w @ [SEMI]) @ [0x20]"
  let ?q = "p\<lparr>dr_pos := dr_pos p + 1,
      dr_layout := splice_layout (dr_pos p, dr_pos p + k) (length ?text) (1, 1 + k) k None (dr_layout p),
      dr_buf := replace_range (dr_pos p, dr_pos p + k) ?text (dr_buf p)\<rparr>"
  have "expand_one p = (Inr (), ?q)"
    using ref f(3) by (simp add: expand_one_def reading_run splice_def move_to_def span_len_def k_def)
  moreover have "circling b pool h w ?q"
  proof -
    have buf: "length (dr_buf ?q) = length (dr_buf p) + 2"
      using len by (simp add: replace_range_def k_def)
    have "dr_pos p \<le> length (dr_buf p)" using len by simp
    then have "remaining ?q = PERCENT # w @ SEMI # 0x20 # drop (dr_pos p + k) (dr_buf p)"
      by (simp add: remaining_def replace_range_def)
    moreover have "la_pieces (dr_layout ?q) = \<lparr>pi_range = (0, length (dr_buf ?q)), pi_content = (0, length (dr_buf ?q)),
        pi_replaced = 0, pi_kind = SubsetPiece b False\<rparr> # map (shift_piece (dr_pos p, dr_pos p + k) (Suc (Suc k))) inner @
        [\<lparr>pi_range = (dr_pos p, dr_pos p + k + 2), pi_content = (dr_pos p + 1, dr_pos p + k + 1), pi_replaced = k,
          pi_kind = InternalEntityPiece\<rparr>]"
      using len buf f(4)
      by (simp add: splice_layout_def Let_def) (simp add: shift_piece_def shift_def span_len_def k_def)
    moreover have "list_all (around k (dr_pos ?q) (length (dr_buf ?q))) (map (shift_piece (dr_pos p, dr_pos p + k) (Suc (Suc k))) inner @
        [\<lparr>pi_range = (dr_pos p, dr_pos p + k + 2), pi_content = (dr_pos p + 1, dr_pos p + k + 1), pi_replaced = k,
          pi_kind = InternalEntityPiece\<rparr>])"
    proof -
      have "0 < k" by (simp add: k_def)
      then have "around k (Suc (dr_pos p)) (length (dr_buf p) + 2) (shift_piece (dr_pos p, dr_pos p + k) (Suc (Suc k)) x)"
        if "x \<in> set inner" for x
        using that f(5) shifted_around by (simp add: list_all_iff)
      moreover have "around k (Suc (dr_pos p)) (length (dr_buf p) + 2)
          \<lparr>pi_range = (dr_pos p, dr_pos p + k + 2), pi_content = (dr_pos p + 1, dr_pos p + k + 1), pi_replaced = k,
            pi_kind = InternalEntityPiece\<rparr>"
        using len by (simp add: around_def)
      ultimately show ?thesis unfolding buf by (simp add: list_all_iff)
    qed
    moreover have "inside_first (map (shift_piece (dr_pos p, dr_pos p + k) (Suc (Suc k))) inner @
        [\<lparr>pi_range = (dr_pos p, dr_pos p + k + 2), pi_content = (dr_pos p + 1, dr_pos p + k + 1), pi_replaced = k,
          pi_kind = InternalEntityPiece\<rparr>])"
      using shifted_inside_first [OF f(6,5)] by (simp add: k_def)
    ultimately show ?thesis
      using f(2,3) unfolding circling_def k_def by (intro exI conjI) auto
  qed
  ultimately show ?thesis by (auto simp: w_def)
qed

lemma circling_for_ever:
  assumes "pool_wf pool" "nameable pool h"
  shows "circling b pool h (named pool h) p \<Longrightarrow> fst (expand_parameter_entity n p) = Inl OutOfTurns"
proof (induction n arbitrary: p)
  case (Suc n)
  have "remaining p \<noteq> [] \<and> peek_pe_start p"
  proof -
    obtain t where "remaining p = PERCENT # named pool h @ SEMI # t" using Suc.prems by (auto simp: circling_def)
    moreover have "is_name (named pool h)" using assms(2) by (simp add: nameable_def)
    ultimately show ?thesis by (cases "named pool h") (auto simp: peek_pe_start_def)
  qed
  moreover obtain q where "expand_one p = (Inr (), q)" "circling b pool h (named pool h) q"
    using circling_expands [OF assms Suc.prems] by blast
  ultimately show ?case using Suc.IH by (simp add: reading_run)
qed simp

definition own_reference :: "name_pool \<Rightarrow> name_id \<Rightarrow> ustring" where
  "own_reference pool h = PERCENT # named pool h @ [SEMI]"

definition circular_subset :: "name_pool \<Rightarrow> name_id \<Rightarrow> ustring" where
  "circular_subset pool h =
     print_decl pool (DParameter h (PInternal (own_reference pool h))) @ own_reference pool h"

text \<open>
  A parameter entity whose replacement text is a reference to itself, as in \<open><!ENTITY % a "&#37;a;"> %a;\<close>, is
  expanded for ever: no number of turns is enough to read the subset. (XML 1.0 forbids the recursion; the
  reader has no check for it and no limit on expansions.)
\<close>

lemma circular_subset_never_ends:
  assumes "pool_wf pool" "nameable pool h" "length (circular_subset pool h) + 2 < n"
  shows "fst (parse_subset n (circular_subset pool h) pool base) = Inl Unfinished"
proof -
  define x where "x = DParameter h (PInternal (own_reference pool h))"
  define ref where "ref = own_reference pool h"
  define written where "written = print_decl pool x"
  have n2: "2 < n" using assms(3) by simp
  then obtain m where n: "n = Suc (Suc m)" by (metis add_2_eq_Suc le_Suc_ex less_imp_le)
  have chars: "list_all is_char (own_reference pool h)"
    using assms(2) is_name_word [of "named pool h"]
    by (auto simp: own_reference_def nameable_def list_all_iff is_char_def dest: name_chars [unfolded is_char_def])
  let ?d = "declare_one empty_dtd x"
  let ?p = "reader_at base pool ?d written ref"
  have short: "length written < Suc m" using assms(3) n by (simp add: circular_subset_def written_def x_def own_reference_def)
  have "markup_declaration (Suc m) (include_section (Suc m)) (reader_at base pool empty_dtd [] (written @ ref)) =
      (Inr (), reader_at base pool ?d ([] @ written) ref)"
    unfolding written_def by (rule decl_at) (use assms(1,2) chars short in \<open>simp_all add: x_def written_def\<close>)
  then have "nested (markup_declaration (Suc m) (include_section (Suc m))) (reader_at base pool empty_dtd [] (written @ ref)) =
      (Inr (), reader_at base pool ?d ([] @ written) ref)"
    by (rule nested_at)
  then have one: "nested (markup_declaration (Suc m) (include_section (Suc m))) (reader_at base pool empty_dtd [] (written @ ref)) =
      (Inr (), ?p)" by simp
  have "remaining ?p = PERCENT # named pool h @ SEMI # []" by (simp add: on_text ref_def own_reference_def)
  moreover have "d_parameter ?d h = Some (PInternal (PERCENT # named pool h @ [SEMI]))"
    by (simp add: x_def declare_parameter_entity_def insert_new_def empty_dtd_def own_reference_def)
  ultimately have "circling base pool h (named pool h) ?p"
    unfolding circling_def
    by (intro exI [of _ "[]"]) (simp add: reader_at_def with_internal_subset_def inside_first_def ref_def own_reference_def)
  then have stuck: "fst (expand_parameter_entity k ?p) = Inl OutOfTurns" for k
    by (rule circling_for_ever [OF assms(1,2)])
  have "skip_whitespace ?p = (Inr (), ?p)" by (rule skip_whitespace_at) (simp add: ref_def own_reference_def)
  then have second: "fst (read_declarations (Suc m) ?p) = Inl OutOfTurns"
    using stuck [of m] by (cases "expand_parameter_entity m ?p") (simp del: include_section.simps)
  obtain w where w: "written = LT # w" by (simp add: written_def x_def)
  have "\<not> peek_pe_start (reader_at base pool empty_dtd [] (LT # u))" for u
    by (simp add: peek_pe_start_def on_text split: list.split)
  then have "read_declarations n (reader_at base pool empty_dtd [] (written @ ref)) = read_declarations (Suc m) ?p"
    using one w unfolding n by (simp only: read_declarations.simps(2) [of "Suc m"])
      (simp add: reading_run on_text del: read_declarations.simps include_section.simps)
  then have "fst (parse_dtd n (written @ ref) (with_internal_subset (length (written @ ref)) base) pool) = Inl OutOfTurns"
    using second by (simp add: parse_dtd_def reader_at_def)
  moreover have "circular_subset pool h = written @ ref" by (simp add: circular_subset_def written_def x_def ref_def)
  ultimately show ?thesis by (auto simp: parse_subset_def pass_outcome_def split: prod.splits)
qed

section \<open>Signs in character references\<close>

lemma signed_reference:
  "reference_in_literal n req (reader_at b pool d pre (lit ''#+60;'' @ t)) =
     (Inr [LT], reader_at b pool d (pre @ lit ''#+60;'') t)"
proof -
  have "referenced_char 10 (lit ''+60'') = Some LT"
    by (simp add: referenced_char_def from_str_radix_def digit_of_def is_ascii_digit_def u32_max_def scalar_def is_char_def)
  then show ?thesis
    using move_at(1) [of "lit ''+60''" b pool d "pre @ [HASH]" "SEMI # t"]
    by (simp add: reference_in_literal_def char_reference_in_literal_def reference_digits_def reading_run on_text Let_def)
qed

lemma signed_reference_refused: "character_reference (lit ''#+60'') = Inl WellFormedness"
  by (simp add: character_reference_def is_ascii_digit_def)

section \<open>Replacement text in declarations\<close>

definition refuses :: "'r read \<Rightarrow> dtd_parser \<Rightarrow> bool" where
  "refuses f p \<longleftrightarrow> (\<forall>r. fst (f p) \<noteq> Inr r)"

lemma refuses_error: "refuses reader_error p"
  by (simp add: refuses_def reader_error_def reading_def split: option.splits)

lemma refuses_then: "(\<And>a q. f p = (Inr a, q) \<Longrightarrow> refuses (g a) q) \<Longrightarrow> refuses (and_then f g) p"
  by (auto simp: refuses_def and_then_def split: prod.splits sum.splits)

lemma refuses_reading: "refuses (g p) p \<Longrightarrow> refuses (reading g) p"
  by (simp add: refuses_def reading_def)

lemmas refuses_rules = refuses_error refuses_then refuses_reading

lemma expand_in_external_apart: "\<not> peek_pe_start p \<Longrightarrow> expand_in_external n p = (Inr (), q) \<Longrightarrow> q = p"
  by (cases n) (auto simp: expand_in_external_def reading_run split: if_splits)

text \<open>Where the reader is after a reference to an internal parameter entity: at its text.\<close>

lemma expanded_text:
  assumes pool: "pool_wf (dr_pool p)" "nameable (dr_pool p) h"
    and p: "remaining p = PERCENT # named (dr_pool p) h @ SEMI # t" "d_parameter (dr_dtd p) h = Some (PInternal text)"
    and q: "expand_one p = (Inr (), q)"
  shows "remaining q = text @ 0x20 # t"
proof -
  define w where "w = named (dr_pool p) h"
  have rest: "drop (dr_pos p) (dr_buf p) = PERCENT # w @ SEMI # t" using p(1) by (simp add: remaining_def w_def)
  have len: "dr_pos p \<le> length (dr_buf p)" using arg_cong [OF rest, of length] by (cases "dr_pos p \<le> length (dr_buf p)") simp_all
  let ?p1 = "p\<lparr>dr_pos := dr_pos p + 1\<rparr>"
  let ?p2 = "p\<lparr>dr_pos := dr_pos p + 1 + length w\<rparr>"
  let ?p3 = "p\<lparr>dr_pos := dr_pos p + length w + 2\<rparr>"
  have rest1: "remaining ?p1 = w @ SEMI # t" using arg_cong [OF rest, of "drop 1"] by (simp add: remaining_def)
  have rest2: "remaining ?p2 = SEMI # t" using arg_cong [OF rest, of "drop (1 + length w)"] by (simp add: remaining_def ac_simps)
  have w: "is_name w" using pool(2) by (simp add: nameable_def w_def)
  have "raw_name ?p1 = (Inr h, ?p2) \<or> (\<exists>e r. raw_name ?p1 = (Inl e, r))"
  proof -
    have "word_at ?p1 = w" using is_name_word [OF w] rest1 by (simp add: word_at_def word_before)
    moreover have "intern_dtd w ?p2 = (Inr h, ?p2) \<or> (\<exists>e r. intern_dtd w ?p2 = (Inl e, r))"
      using intern_known [of "dr_pool p" h] pool by (auto simp: intern_dtd_def reading_run w_def nameable_def split: option.split)
    ultimately show ?thesis using w by (simp add: raw_name_def reading_run move_def)
  qed
  then have "pe_reference p = (Inr h, ?p3) \<or> (\<exists>e r. pe_reference p = (Inl e, r))"
    using rest2 by (auto simp: pe_reference_def move_def expect_def reading_run peek_def and_then_def)
  then have "q = p\<lparr>dr_pos := dr_pos p + 1,
      dr_layout := splice_layout (dr_pos p, dr_pos p + length w + 2) (length text + 2) (1, 1 + length text) (length w + 2) None (dr_layout p),
      dr_buf := replace_range (dr_pos p, dr_pos p + length w + 2) ([0x20] @ text @ [0x20]) (dr_buf p)\<rparr>"
    using q p(2) by (auto simp: expand_one_def reading_run splice_def move_to_def span_len_def and_then_def)
  moreover have "drop (dr_pos p + length w + 2) (dr_buf p) = t"
    using arg_cong [OF rest, of "drop (length w + 2)"] by (simp add: ac_simps)
  ultimately show ?thesis using len by (simp add: remaining_def replace_range_def)
qed

lemma expanded_once:
  assumes "expand_parameter_entity n p = (Inr (), q)" "peek_pe_start p"
    "\<And>r. expand_one p = (Inr (), r) \<Longrightarrow> \<not> peek_pe_start r"
  shows "expand_one p = (Inr (), q)"
proof (cases n)
  case (Suc m)
  obtain r where r: "expand_one p = (Inr (), r)" "expand_parameter_entity m r = (Inr (), q)"
    using assms(1,2) Suc by (auto simp: reading_run and_then_eq_Inr)
  with assms(3) [OF r(1)] show ?thesis by (cases m) (simp_all add: reading_run)
qed (use assms(1) in simp)

text \<open>
  A content model written as a parameter entity reference is refused where the replacement text begins with
  white space, though the reference stands where white space is allowed.
\<close>

lemma spaced_model_refused:
  assumes "pool_wf (dr_pool p)" "nameable (dr_pool p) h" "in_external p"
    "remaining p = PERCENT # named (dr_pool p) h @ SEMI # t"
    "d_parameter (dr_dtd p) h = Some (PInternal (c # text))" "is_whitespace c"
  shows "fst (content_spec_of n p) \<noteq> Inr spec"
proof -
  have start: "peek_pe_start p"
    using assms(2,4) by (cases "named (dr_pool p) h") (auto simp: peek_pe_start_def nameable_def)
  have "refuses (content_spec_of n) p"
    unfolding content_spec_of_def
  proof (rule refuses_then)
    fix u q assume "expand_in_external n p = (Inr u, q)"
    then have "expand_parameter_entity n p = (Inr (), q)" using assms(3) by (simp add: expand_in_external_def reading_run)
    moreover have rest: "remaining r = c # text @ 0x20 # t" if "expand_one p = (Inr (), r)" for r
      using expanded_text [OF assms(1,2,4,5) that] by simp
    moreover have "\<not> peek_pe_start r" if "remaining r = c # text @ 0x20 # t" for r
      using that assms(6) by (auto simp: peek_pe_start_def is_whitespace_def split: list.splits)
    ultimately have q: "remaining q = c # text @ 0x20 # t" using expanded_once [OF _ start] by metis
    have c: "c \<noteq> 0x45" "c \<noteq> 0x41" "c \<noteq> OPAREN" using assms(6) by (auto simp: is_whitespace_def)
    have "consume_keyword (lit ''EMPTY'') q = (Inr False, q)" "consume_keyword (lit ''ANY'') q = (Inr False, q)"
      using q c by (simp_all add: consume_keyword_def reading_run)
    note apart = this
    show "refuses (and_then (consume_keyword (lit ''EMPTY'')) (\<lambda>none. if none then ok CEmpty
        else and_then (consume_keyword (lit ''ANY'')) (\<lambda>any. if any then ok CAny
          else reading (\<lambda>p. if peek p \<noteq> Some OPAREN then reader_error
            else if starts_with (lit ''#PCDATA'') (dropWhile is_whitespace (tl (remaining p))) then mixed_content n
            else and_then (content_particle_of n 0) (\<lambda>x. ok (Children x)))))) q"
      by (intro refuses_rules) (use q c apart in \<open>auto simp: peek_def intro!: refuses_rules\<close>)
  qed
  then show ?thesis by (simp add: refuses_def)
qed

lemma skip_nothing: "remaining p = c # t \<Longrightarrow> \<not> is_whitespace c \<Longrightarrow> skip_whitespace p = (Inr (), p)"
  by (simp add: skip_whitespace_def reading_run move_def)

lemma no_name_refused:
  assumes "remaining p = c # t" "\<not> is_name_char c"
  shows "refuses raw_name p"
proof -
  have "word_at p = []" using assms by (simp add: word_at_def)
  then show ?thesis by (simp add: raw_name_def refuses_rules)
qed

lemma particle_refused:
  assumes "remaining p = c # t" "\<not> is_name_char c" "c \<noteq> OPAREN" "c \<noteq> PERCENT"
  shows "refuses (content_particle_within n room) p"
proof (cases room)
  case (Suc r)
  have apart: "\<not> peek_pe_start p" using assms by (simp add: peek_pe_start_def split: list.splits)
  have name: "refuses (read_name n) p"
    unfolding read_name_def
    by (rule refuses_then) (use expand_in_external_apart [OF apart] no_name_refused [OF assms(1,2)] in auto)
  have "refuses (and_then (read_name n) g) p" for g :: "name_id \<Rightarrow> content_particle read"
    by (rule refuses_then) (use name in \<open>auto simp: refuses_def\<close>)
  then have "refuses (reading (\<lambda>p. if peek p = Some OPAREN then choice_or_seq n (content_particle_within n r)
      else and_then (read_name n) (\<lambda>name. and_then occurrence (\<lambda>occurs. ok (Name name occurs))))) p"
    using assms by (intro refuses_reading) (simp add: peek_def)
  then show ?thesis
    unfolding Suc content_particle_within.simps
    by (rule_tac refuses_then) (use expand_in_external_apart [OF apart] in auto)
qed (simp add: refuses_error)

text \<open>
  Mixed content whose \<open>#PCDATA\<close> comes from a parameter entity, \<open>(%text;)\<close>, is refused: whether a group is mixed
  is decided before the reference is expanded. (XML 1.0 expands it; large DTDs are written this way.)
\<close>

lemma mixed_by_reference_refused:
  assumes "pool_wf (dr_pool p)" "nameable (dr_pool p) h" "in_external (p\<lparr>dr_pos := dr_pos p + 1\<rparr>)"
    "remaining p = OPAREN # PERCENT # named (dr_pool p) h @ SEMI # t"
    "d_parameter (dr_dtd p) h = Some (PInternal (HASH # text))"
  shows "fst (content_spec_of n p) \<noteq> Inr spec"
proof -
  have apart: "\<not> peek_pe_start p" using assms(4) by (simp add: peek_pe_start_def split: list.splits)
  let ?p1 = "p\<lparr>dr_pos := dr_pos p + 1\<rparr>"
  have rest1: "remaining ?p1 = PERCENT # named (dr_pool p) h @ SEMI # t"
    using arg_cong [OF assms(4), of "drop 1"] by (simp add: remaining_def)
  have start: "peek_pe_start ?p1"
    using assms(2) rest1 by (cases "named (dr_pool p) h") (auto simp: peek_pe_start_def nameable_def)
  have after: "remaining q = HASH # text @ 0x20 # t" if run: "skip_separators n ?p1 = (Inr (), q)" for q
  proof -
    have skip: "skip_whitespace ?p1 = (Inr (), ?p1)" by (rule skip_nothing [OF rest1]) simp
    obtain r where r: "expand_parameter_entity n ?p1 = (Inr (), r)" "skip_whitespace r = (Inr (), q)"
      using run assms(3) skip by (auto simp: skip_separators_def reading_run and_then_eq_Inr)
    have rest: "remaining s = HASH # text @ 0x20 # t" if once: "expand_one ?p1 = (Inr (), s)" for s
      using expanded_text [of ?p1 h t "HASH # text" s] assms rest1 once by simp
    have "expand_one ?p1 = (Inr (), r)"
      by (rule expanded_once [OF r(1) start]) (use rest in \<open>auto simp: peek_pe_start_def split: list.splits\<close>)
    then have "remaining r = HASH # text @ 0x20 # t" by (rule rest)
    moreover from this have "q = r" using r(2) skip_nothing [of r] by simp
    ultimately show ?thesis by simp
  qed
  have group: "refuses (choice_or_seq n (content_particle_within n room)) p" for room
    unfolding choice_or_seq_def
  proof (intro refuses_then, goal_cases)
    case (1 u q v r x s)
    then have "q = ?p1" using assms(4) by (simp add: expect_def reading_run peek_def move_def)
    then have "remaining r = HASH # text @ 0x20 # t" using after 1 by simp
    then have "refuses (content_particle_within n room) r" by (rule particle_refused) simp_all
    then show ?case using 1 by (simp add: refuses_def)
  qed
  have "refuses (content_particle_within n (Suc room)) p" for room
    unfolding content_particle_within.simps
  proof (rule refuses_then)
    fix u q assume "expand_in_external n p = (Inr u, q)"
    then have "q = p" using expand_in_external_apart [OF apart] by simp
    then show "refuses (reading (\<lambda>p. if peek p = Some OPAREN then choice_or_seq n (content_particle_within n room)
        else and_then (read_name n) (\<lambda>name. and_then occurrence (\<lambda>occurs. ok (Name name occurs))))) q"
      using assms(4) group by (intro refuses_reading) (simp add: peek_def)
  qed
  then have "refuses (content_particle_of n 0) p"
    by (simp add: content_particle_of_def)
  then have particle: "refuses (and_then (content_particle_of n 0) g) p" for g :: "content_particle \<Rightarrow> content_spec read"
    by (rule_tac refuses_then) (auto simp: refuses_def)
  have "consume_keyword (lit ''EMPTY'') p = (Inr False, p)" "consume_keyword (lit ''ANY'') p = (Inr False, p)"
    using assms(4) by (simp_all add: consume_keyword_def reading_run)
  note apart_from = this
  have "refuses (content_spec_of n) p"
    unfolding content_spec_of_def
  proof (rule refuses_then)
    fix u q assume "expand_in_external n p = (Inr u, q)"
    then have "q = p" using expand_in_external_apart [OF apart] by simp
    then show "refuses (and_then (consume_keyword (lit ''EMPTY'')) (\<lambda>none. if none then ok CEmpty
        else and_then (consume_keyword (lit ''ANY'')) (\<lambda>any. if any then ok CAny
          else reading (\<lambda>p. if peek p \<noteq> Some OPAREN then reader_error
            else if starts_with (lit ''#PCDATA'') (dropWhile is_whitespace (tl (remaining p))) then mixed_content n
            else and_then (content_particle_of n 0) (\<lambda>x. ok (Children x)))))) q"
      by (intro refuses_then) (use apart_from assms(4) particle in \<open>auto simp: peek_def intro!: refuses_reading refuses_then\<close>)
  qed
  then show ?thesis by (simp add: refuses_def)
qed

end
