(* ===== verification/Validity.thy ===== *)
theory Validity
  imports Events Content_Model Encodings
begin

text \<open>
  Validity errors and the check of \<open>xml:id\<close>, \<open>event/validate.rs\<close> and \<open>event/validate/ids.rs\<close>. A validity error is a
  message and a location in the code; here it is what the message says, one constructor for each message the
  validators of the crate write. Locations are left out, as they are in the events.
\<close>

datatype validity_error =
  IdAttributeDefault name_id name_id          \<comment> \<open>of an element, an \<open>ID\<close> attribute with a default\<close>
| NotationNotDeclared name_id name_id         \<comment> \<open>of an attribute type, a notation\<close>
| DefaultNotValid name_id ustring
| SeveralIdAttributes name_id
| RepeatedInMixed name_id name_id             \<comment> \<open>in the mixed content of an element, a name\<close>
| EmptyContains name_id name_id
| NotInMixed name_id name_id
| NotDeterministic name_id
| ContentFails name_id match_failure
| AttributeNotDeclared ustring ustring        \<comment> \<open>for an element, an attribute\<close>
| FixedOtherwise ustring ustring ustring
| RequiredMissing name_id ustring
| IdNotName ustring
| IdRepeated ustring
| IdRefNotName ustring
| IdRefsEmpty ustring
| NotUnparsedEntity ustring ustring
| NotNmtoken ustring ustring
| NmtokensEmpty ustring
| NotInEnumeration ustring ustring
| RootOtherwise ustring name_id
| ElementNotDeclared ustring
| TextInEmpty
| TextInElementContent
| IdRefUnmatched ustring
| XmlIdNotNCName ustring
| XmlIdRepeated ustring

section \<open>Words\<close>

text \<open>The parts between characters of a class, \<open>str::split\<close> with a predicate, and those that are not empty.\<close>

fun split_where :: "('a \<Rightarrow> bool) \<Rightarrow> 'a list \<Rightarrow> 'a list list" where
  "split_where P [] = [[]]"
| "split_where P (c # s) =
     (if P c then [] # split_where P s
      else case split_where P s of [] \<Rightarrow> [[c]] | part # parts \<Rightarrow> (c # part) # parts)"

definition words_by :: "('a \<Rightarrow> bool) \<Rightarrow> 'a list \<Rightarrow> 'a list list" where
  "words_by P s = filter (\<lambda>part. part \<noteq> []) (split_where P s)"

text \<open>\<open>str::split_whitespace\<close>: white space as Unicode has it, which is more than XML has.\<close>

definition split_whitespace :: "ustring \<Rightarrow> ustring list" where
  "split_whitespace s = words_by white_space s"

section \<open>\<open>xml:id\<close>\<close>

definition attribute_lexical :: "attribute \<Rightarrow> ustring" where
  "attribute_lexical a = lexical (at_prefix a) (at_local a)"

definition normalized :: "ustring \<Rightarrow> ustring" where
  "normalized value = join [0x20] (words_by is_whitespace value)"

definition is_xml_id :: "attribute \<Rightarrow> bool" where
  "is_xml_id a \<longleftrightarrow> at_namespace a = Some xml_ns_uri \<and> at_local a = lit ''id''"

definition xml_id_of :: "attribute list \<Rightarrow> attribute option" where
  "xml_id_of as = find is_xml_id as"

text \<open>The table of IDs and the errors, after one \<open>xml:id\<close> attribute.\<close>

definition check_xml_id :: "attribute \<Rightarrow> ustring set \<Rightarrow> validity_error list \<Rightarrow> ustring set \<times> validity_error list" where
  "check_xml_id a ids errors =
     (let v = normalized (at_value a);
          errors1 = errors @ (if \<not> is_ncname v then [XmlIdNotNCName v] else [])
      in (insert v ids, errors1 @ (if v \<in> ids then [XmlIdRepeated v] else [])))"

record xml_id_validator =
  xv_ids :: "ustring set"
  xv_errors :: "validity_error list"

definition new_xml_id_validator :: xml_id_validator where
  "new_xml_id_validator = \<lparr>xv_ids = {}, xv_errors = []\<rparr>"

definition consume_xml_id :: "event \<Rightarrow> (flow, xml_id_validator) effect" where
  "consume_xml_id ev v =
     (case ev of
        StartElement s \<Rightarrow>
          (let v' =
             (case xml_id_of (se_attributes s) of
                None \<Rightarrow> v
              | Some a \<Rightarrow>
                  (case check_xml_id a (xv_ids v) (xv_errors v) of
                     (ids, errors) \<Rightarrow> v\<lparr>xv_ids := ids, xv_errors := errors\<rparr>))
           in (Inr (Continue (length (xv_errors v') - length (xv_errors v))), v'))
      | _ \<Rightarrow> (Inr (Continue 0), v))"

end
