(* ===== verification/Dtd_Validator.thy ===== *)
theory Dtd_Validator
  imports Validity
begin

text \<open>
  The validator of a document against a DTD, \<open>DtdValidator\<close> and \<open>DtdSchema\<close> of \<open>dtd/validate.rs\<close>, and the validator
  that takes its DTD from the document, \<open>DocumentDtd\<close> of \<open>dtd/validate/document.rs\<close>.

  The code gathers the errors of an event in a list it takes out of the validator and puts back at the end; here the
  list stays where it is. The maps of the DTD are iterated in the order a \<open>HashMap\<close> gives its entries, which is an
  argument.
\<close>

section \<open>The state\<close>

datatype content_kind = EmptyContent | ElementOnly | CharacterData

record open_entry =
  oe_element :: name_id
  oe_children :: "name_id list"
  oe_content :: content_kind

record dtd_validator =
  dv_dtd :: dtd
  dv_pool :: name_pool
  dv_root :: "name_id option"
  dv_root_seen :: bool
  dv_declarations_checked :: bool
  dv_models :: "name_id \<rightharpoonup> content_model"
  dv_open :: "open_entry list"
  dv_ids :: "ustring set"
  dv_idrefs :: "ustring list"
  dv_xml_id :: bool
  dv_errors :: "validity_error list"

definition new_dtd_validator :: "dtd \<Rightarrow> name_pool \<Rightarrow> name_id option \<Rightarrow> dtd_validator" where
  "new_dtd_validator d pool root =
     \<lparr>dv_dtd = d, dv_pool = pool, dv_root = root, dv_root_seen = False, dv_declarations_checked = False,
      dv_models = Map.empty, dv_open = [], dv_ids = {}, dv_idrefs = [], dv_xml_id = False, dv_errors = []\<rparr>"

definition with_xml_id :: "bool \<Rightarrow> dtd_validator \<Rightarrow> dtd_validator" where
  "with_xml_id on v = v\<lparr>dv_xml_id := on\<rparr>"

definition add_errors :: "validity_error list \<Rightarrow> dtd_validator \<Rightarrow> dtd_validator" where
  "add_errors es v = v\<lparr>dv_errors := dv_errors v @ es\<rparr>"

text \<open>The orders in which the entries of the DTD are iterated.\<close>

record entry_order =
  eo_attlists :: "dtd \<Rightarrow> (name_id \<times> att_def list) list"
  eo_elements :: "dtd \<Rightarrow> (name_id \<times> content_spec) list"

section \<open>The declarations\<close>

definition names_unparsed :: "name_pool \<Rightarrow> dtd \<Rightarrow> ustring \<Rightarrow> bool" where
  "names_unparsed pool d name =
     (case get pool name of
        None \<Rightarrow> False
      | Some i \<Rightarrow> (case d_general d i of Some (GUnparsed _ _ _ _) \<Rightarrow> True | _ \<Rightarrow> False))"

definition among :: "name_pool \<Rightarrow> name_id list \<Rightarrow> ustring \<Rightarrow> bool" where
  "among pool allowed name = (case get pool name of None \<Rightarrow> False | Some i \<Rightarrow> i \<in> set allowed)"

fun default_value_is_valid :: "name_pool \<Rightarrow> dtd \<Rightarrow> att_type \<Rightarrow> ustring \<Rightarrow> bool" where
  "default_value_is_valid pool d att_type.Cdata v = True"
| "default_value_is_valid pool d Id v = is_name v"
| "default_value_is_valid pool d IdRef v = is_name v"
| "default_value_is_valid pool d IdRefs v = list_all is_name (split_whitespace v)"
| "default_value_is_valid pool d Entities v = list_all is_name (split_whitespace v)"
| "default_value_is_valid pool d Entity v = names_unparsed pool d v"
| "default_value_is_valid pool d Nmtoken v = is_nmtoken v"
| "default_value_is_valid pool d Nmtokens v = list_all is_nmtoken (split_whitespace v)"
| "default_value_is_valid pool d (Enumeration allowed) v = among pool allowed v"
| "default_value_is_valid pool d (Notation allowed) v = among pool allowed v"

definition definition_errors :: "name_pool \<Rightarrow> dtd \<Rightarrow> name_id \<Rightarrow> att_def \<Rightarrow> validity_error list" where
  "definition_errors pool d element a =
     (if ad_type a = Id \<and> default_value (ad_default a) \<noteq> None then [IdAttributeDefault element (ad_name a)] else [])
     @ (case ad_type a of
          Notation notations \<Rightarrow>
            map (NotationNotDeclared (ad_name a)) (filter (\<lambda>n. d_notations d n = None) notations)
        | _ \<Rightarrow> [])
     @ (case default_value (ad_default a) of
          None \<Rightarrow> []
        | Some v \<Rightarrow> if default_value_is_valid pool d (ad_type a) v then [] else [DefaultNotValid (ad_name a) v])"

definition attlist_errors :: "name_pool \<Rightarrow> dtd \<Rightarrow> name_id \<Rightarrow> att_def list \<Rightarrow> validity_error list" where
  "attlist_errors pool d element defs =
     concat (map (definition_errors pool d element) defs)
     @ (if 1 < length (filter (\<lambda>a. ad_type a = Id) defs) then [SeveralIdAttributes element] else [])"

fun repeated_errors :: "name_id \<Rightarrow> name_id list \<Rightarrow> name_id list \<Rightarrow> validity_error list" where
  "repeated_errors element seen [] = []"
| "repeated_errors element seen (n # ns) =
     (if n \<in> set seen then RepeatedInMixed element n # repeated_errors element seen ns
      else repeated_errors element (seen @ [n]) ns)"

definition mixed_errors :: "name_id \<times> content_spec \<Rightarrow> validity_error list" where
  "mixed_errors entry =
     (case snd entry of Mixed names \<Rightarrow> repeated_errors (fst entry) [] names | _ \<Rightarrow> [])"

definition check_declarations :: "entry_order \<Rightarrow> name_pool \<Rightarrow> dtd \<Rightarrow> validity_error list" where
  "check_declarations ord pool d =
     concat (map (\<lambda>(element, defs). attlist_errors pool d element defs) (eo_attlists ord d))
     @ concat (map mixed_errors (eo_elements ord d))"

section \<open>Content\<close>

definition check_content :: "name_id \<Rightarrow> name_id list \<Rightarrow> dtd_validator \<Rightarrow> dtd_validator" where
  "check_content element children v =
     (case d_elements (dv_dtd v) element of
        None \<Rightarrow> v
      | Some CAny \<Rightarrow> v
      | Some CEmpty \<Rightarrow> (case children of [] \<Rightarrow> v | c # _ \<Rightarrow> add_errors [EmptyContains element c] v)
      | Some (Mixed allowed) \<Rightarrow> add_errors (map (NotInMixed element) (filter (\<lambda>c. c \<notin> set allowed) children)) v
      | Some (Children particle) \<Rightarrow>
          (let v1 =
             (case dv_models v element of
                Some _ \<Rightarrow> v
              | None \<Rightarrow>
                  add_errors (if is_deterministic (compile particle) then [] else [NotDeterministic element])
                    (v\<lparr>dv_models := (dv_models v)(element \<mapsto> compile particle)\<rparr>))
           in case matches (the (dv_models v1 element)) children of
                None \<Rightarrow> v1
              | Some failure \<Rightarrow> add_errors [ContentFails element failure] v1))"

section \<open>Attributes\<close>

definition record_id :: "ustring \<Rightarrow> dtd_validator \<Rightarrow> dtd_validator" where
  "record_id i v = add_errors (if i \<in> dv_ids v then [IdRepeated i] else []) (v\<lparr>dv_ids := insert i (dv_ids v)\<rparr>)"

definition record_idrefs :: "ustring list \<Rightarrow> dtd_validator \<Rightarrow> dtd_validator" where
  "record_idrefs is v = v\<lparr>dv_idrefs := dv_idrefs v @ is\<rparr>"

fun check_attribute_value :: "ustring \<Rightarrow> att_type \<Rightarrow> ustring \<Rightarrow> dtd_validator \<Rightarrow> dtd_validator" where
  "check_attribute_value name att_type.Cdata x v = v"
| "check_attribute_value name Id x v = (if \<not> is_name x then add_errors [IdNotName x] v else record_id x v)"
| "check_attribute_value name IdRef x v =
     (if \<not> is_name x then add_errors [IdRefNotName x] v else record_idrefs [x] v)"
| "check_attribute_value name IdRefs x v =
     (let tokens = split_whitespace x in
      if tokens = [] then add_errors [IdRefsEmpty name] v
      else add_errors (map IdRefNotName (filter (\<lambda>t. \<not> is_name t) tokens)) (record_idrefs (filter is_name tokens) v))"
| "check_attribute_value name Entity x v =
     add_errors (map (NotUnparsedEntity name)
       (filter (\<lambda>t. \<not> names_unparsed (dv_pool v) (dv_dtd v) t) (split_whitespace x))) v"
| "check_attribute_value name Entities x v =
     add_errors (map (NotUnparsedEntity name)
       (filter (\<lambda>t. \<not> names_unparsed (dv_pool v) (dv_dtd v) t) (split_whitespace x))) v"
| "check_attribute_value name Nmtoken x v = (if \<not> is_nmtoken x then add_errors [NotNmtoken name x] v else v)"
| "check_attribute_value name Nmtokens x v =
     (let tokens = split_whitespace x in
      if tokens = [] then add_errors [NmtokensEmpty name] v
      else add_errors (map (NotNmtoken name) (filter (\<lambda>t. \<not> is_nmtoken t) tokens)) v)"
| "check_attribute_value name (Enumeration allowed) x v =
     (if among (dv_pool v) allowed x then v else add_errors [NotInEnumeration name x] v)"
| "check_attribute_value name (Notation allowed) x v =
     (if among (dv_pool v) allowed x then v else add_errors [NotInEnumeration name x] v)"

definition declared_def :: "name_pool \<Rightarrow> att_def list \<Rightarrow> ustring \<Rightarrow> att_def option" where
  "declared_def pool defs name =
     (case get pool name of None \<Rightarrow> None | Some i \<Rightarrow> find (\<lambda>a. ad_name a = i) defs)"

definition validate_attribute :: "att_def list \<Rightarrow> ustring \<Rightarrow> attribute \<Rightarrow> dtd_validator \<Rightarrow> dtd_validator" where
  "validate_attribute defs element a v =
     (let name = attribute_lexical a; found = declared_def (dv_pool v) defs name in
      if dv_xml_id v \<and> is_xml_id a \<and> found = None then
        (case check_xml_id a (dv_ids v) (dv_errors v) of
           (ids, errors) \<Rightarrow> v\<lparr>dv_ids := ids, dv_errors := errors\<rparr>)
      else
        (case found of
           None \<Rightarrow> add_errors [AttributeNotDeclared element name] v
         | Some x \<Rightarrow>
             check_attribute_value name (ad_type x) (at_value a)
               (case ad_default x of
                  Fixed fixed \<Rightarrow>
                    if at_value a \<noteq> fixed then add_errors [FixedOtherwise name fixed (at_value a)] v else v
                | _ \<Rightarrow> v)))"

definition required_errors :: "name_pool \<Rightarrow> att_def list \<Rightarrow> ustring \<Rightarrow> attribute list \<Rightarrow> validity_error list" where
  "required_errors pool defs element as =
     map (\<lambda>x. RequiredMissing (ad_name x) element)
       (filter (\<lambda>x. ad_default x = Required \<and>
          \<not> list_ex (\<lambda>a. get pool (attribute_lexical a) = Some (ad_name x)) as) defs)"

definition validate_attributes :: "name_id \<Rightarrow> ustring \<Rightarrow> attribute list \<Rightarrow> dtd_validator \<Rightarrow> dtd_validator" where
  "validate_attributes element name as v =
     (let defs = (case d_attlists (dv_dtd v) element of None \<Rightarrow> [] | Some l \<Rightarrow> l);
          v1 = fold (validate_attribute defs name) as v
      in add_errors (required_errors (dv_pool v1) defs name as) v1)"

section \<open>The events\<close>

definition add_child :: "name_id \<Rightarrow> open_entry list \<Rightarrow> open_entry list" where
  "add_child c opened =
     (case rev opened of
        [] \<Rightarrow> []
      | o1 # os \<Rightarrow> rev os @ [o1\<lparr>oe_children := oe_children o1 @ [c]\<rparr>])"

fun content_kind_of :: "content_spec option \<Rightarrow> content_kind" where
  "content_kind_of (Some CEmpty) = EmptyContent"
| "content_kind_of (Some (Children p)) = ElementOnly"
| "content_kind_of s = CharacterData"

definition validate_start :: "entry_order \<Rightarrow> start_element_event \<Rightarrow> (unit, dtd_validator) effect" where
  "validate_start ord s v0 =
     (let name = lexical (se_prefix s) (se_local s);
          v = (if dv_declarations_checked v0 then v0
               else add_errors (check_declarations ord (dv_pool v0) (dv_dtd v0)) (v0\<lparr>dv_declarations_checked := True\<rparr>))
      in case intern (dv_pool v) name of
           Inl e \<Rightarrow> (Inl e, v)
         | Inr (element, pool) \<Rightarrow>
             (let v1 = v\<lparr>dv_pool := pool\<rparr>;
                  v2 = (if dv_root_seen v1 then v1
                        else add_errors (case dv_root v1 of
                                       None \<Rightarrow> []
                                     | Some r \<Rightarrow> if element \<noteq> r then [RootOtherwise name r] else [])
                               (v1\<lparr>dv_root_seen := True\<rparr>));
                  v3 = add_errors (if d_elements (dv_dtd v2) element = None then [ElementNotDeclared name] else []) v2;
                  v4 = v3\<lparr>dv_open := add_child element (dv_open v3)\<rparr>;
                  v5 = validate_attributes element name (se_attributes s) v4
              in (Inr (),
                  v5\<lparr>dv_open := dv_open v5 @
                    [\<lparr>oe_element = element, oe_children = [],
                      oe_content = content_kind_of (d_elements (dv_dtd v5) element)\<rparr>]\<rparr>)))"

definition validate_characters :: "bool \<Rightarrow> dtd_validator \<Rightarrow> dtd_validator" where
  "validate_characters whitespace_only v =
     (case rev (dv_open v) of
        [] \<Rightarrow> v
      | o1 # _ \<Rightarrow>
          (case oe_content o1 of
             EmptyContent \<Rightarrow> add_errors [TextInEmpty] v
           | ElementOnly \<Rightarrow> if \<not> whitespace_only then add_errors [TextInElementContent] v else v
           | CharacterData \<Rightarrow> v))"

definition validate_end :: "dtd_validator \<Rightarrow> dtd_validator" where
  "validate_end v =
     (case rev (dv_open v) of
        [] \<Rightarrow> v
      | o1 # os \<Rightarrow> check_content (oe_element o1) (oe_children o1) (v\<lparr>dv_open := rev os\<rparr>))"

definition validate_end_document :: "dtd_validator \<Rightarrow> dtd_validator" where
  "validate_end_document v =
     add_errors (map IdRefUnmatched (filter (\<lambda>i. i \<notin> dv_ids v) (dv_idrefs v))) (v\<lparr>dv_idrefs := []\<rparr>)"

definition validate_event :: "entry_order \<Rightarrow> event \<Rightarrow> (unit, dtd_validator) effect" where
  "validate_event ord ev =
     (case ev of
        StartElement s \<Rightarrow> validate_start ord s
      | EndElement _ \<Rightarrow> modify validate_end
      | Characters t \<Rightarrow> modify (validate_characters (list_all is_whitespace t))
      | event.Cdata _ \<Rightarrow> modify (validate_characters False)
      | EndDocument \<Rightarrow> modify validate_end_document
      | StartDocument \<Rightarrow> ok ()
      | Comment _ \<Rightarrow> ok ()
      | ProcessingInstruction _ \<Rightarrow> ok ()
      | Doctype _ \<Rightarrow> ok ())"

definition consume_dtd :: "entry_order \<Rightarrow> event \<Rightarrow> (flow, dtd_validator) effect" where
  "consume_dtd ord ev v =
     (case validate_event ord ev v of
        (Inl e, v') \<Rightarrow> (Inl e, v')
      | (Inr _, v') \<Rightarrow> (Inr (Continue (length (dv_errors v') - length (dv_errors v))), v'))"

section \<open>A DTD as a schema\<close>

record dtd_schema =
  sc_dtd :: dtd
  sc_pool :: name_pool
  sc_root :: "name_id option"

definition new_dtd_schema :: "dtd \<Rightarrow> name_pool \<Rightarrow> dtd_schema" where
  "new_dtd_schema d pool = \<lparr>sc_dtd = d, sc_pool = pool, sc_root = None\<rparr>"

definition with_root :: "ustring \<Rightarrow> dtd_schema \<Rightarrow> dtd_schema result" where
  "with_root name s = map_sum id (\<lambda>(i, pool). s\<lparr>sc_root := Some i, sc_pool := pool\<rparr>) (intern (sc_pool s) name)"

text \<open>A fresh validator, and the counter of pools after the fork; \<open>None\<close> is the panic of \<open>fork\<close>.\<close>

definition schema_validator :: "dtd_schema \<Rightarrow> nat \<Rightarrow> (dtd_validator \<times> nat) option" where
  "schema_validator s counter =
     map_option (\<lambda>(pool, counter'). (new_dtd_validator (sc_dtd s) pool (sc_root s), counter'))
       (fork_pool (sc_pool s) counter)"

end
