(* ===== verification/Validator_Set.thy ===== *)
theory Validator_Set
  imports Dtd_Validator
begin

text \<open>
  The validator whose DTD is the document's own, \<open>DocumentDtd\<close> of \<open>dtd/validate/document.rs\<close>, and the set of
  validators that checks a document and reports on it, \<open>ValidatorSet\<close> of \<open>event/validate.rs\<close>.

  Forking a pool takes a number from the counter of the process, so the states here carry that counter beside them.
  The validators an application adds are states \<open>'h\<close> with the methods of the trait \<open>Validator\<close>. The report lists the
  errors by position in the code; events carry no locations here, and the errors stand in the order of the validators.
\<close>

section \<open>The document's own DTD\<close>

record document_dtd =
  dd_dtd :: "dtd_validator option"
  dd_xml_id :: bool
  dd_ids :: "xml_id_validator option"
  dd_lazy_done :: bool

definition new_document_dtd :: document_dtd where
  "new_document_dtd = \<lparr>dd_dtd = None, dd_xml_id = False, dd_ids = None, dd_lazy_done = False\<rparr>"

definition document_checking_xml_id :: "bool \<Rightarrow> document_dtd \<Rightarrow> document_dtd" where
  "document_checking_xml_id on d = d\<lparr>dd_xml_id := on\<rparr>"

definition document_had_dtd :: "document_dtd \<Rightarrow> bool" where
  "document_had_dtd d \<longleftrightarrow> dd_dtd d \<noteq> None"

definition ensure_lazy :: "document_dtd \<Rightarrow> document_dtd" where
  "ensure_lazy d =
     (if dd_lazy_done d then d
      else
        d\<lparr>dd_lazy_done := True,
          dd_ids := (if dd_xml_id d \<and> dd_dtd d = None then Some new_xml_id_validator else dd_ids d)\<rparr>)"

definition document_doctype :: "doctype_event \<Rightarrow> (stop, unit, document_dtd \<times> nat) action" where
  "document_doctype e =
     (case Option.bind (de_name e) (get (de_pool e)) of
        None \<Rightarrow> ok ()
      | Some root \<Rightarrow>
          (\<lambda>(d, counter).
             (case fork_pool (de_pool e) counter of
                None \<Rightarrow> (Inl Panic, (d, counter))
              | Some (pool, counter') \<Rightarrow>
                  (Inr (), (d\<lparr>dd_dtd := Some (with_xml_id (dd_xml_id d) (new_dtd_validator (de_dtd e) pool (Some root)))\<rparr>,
                     counter')))))"

definition consume_document :: "entry_order \<Rightarrow> event \<Rightarrow> (stop, flow, document_dtd \<times> nat) action" where
  "consume_document ord ev =
     (case ev of
        Doctype e \<Rightarrow> and_then (document_doctype e) (\<lambda>_. ok (Continue 0))
      | _ \<Rightarrow>
          (\<lambda>(d0, counter).
             (let d = ensure_lazy d0 in
              case dd_dtd d of
                Some v \<Rightarrow>
                  (case consume_dtd ord ev v of
                     (r, v') \<Rightarrow> (map_sum Err id r, (d\<lparr>dd_dtd := Some v'\<rparr>, counter)))
              | None \<Rightarrow>
                  (case dd_ids d of
                     Some v \<Rightarrow>
                       (case consume_xml_id ev v of
                          (r, v') \<Rightarrow> (map_sum Err id r, (d\<lparr>dd_ids := Some v'\<rparr>, counter)))
                   | None \<Rightarrow> (Inr (Continue 0), (d, counter))))))"

definition document_errors :: "document_dtd \<Rightarrow> validity_error list" where
  "document_errors d =
     (case dd_dtd d of
        Some v \<Rightarrow> dv_errors v
      | None \<Rightarrow> (case dd_ids d of Some v \<Rightarrow> xv_errors v | None \<Rightarrow> []))"

section \<open>Sets of validators\<close>

datatype ended = EndedCompleted | EndedStopped | EndedFailed | EndedAbandoned

record validation_report =
  re_errors :: "validity_error list"
  re_had_dtd :: bool
  re_had_validators :: bool
  re_ended :: "ended option"

definition is_valid :: "validation_report \<Rightarrow> bool" where
  "is_valid r \<longleftrightarrow> re_ended r = Some EndedCompleted \<and> (re_had_dtd r \<or> re_had_validators r) \<and> re_errors r = []"

text \<open>The methods of the validators an application adds.\<close>

record 'h validator_methods =
  vm_consume :: "'h consume"
  vm_finish :: "'h finish"
  vm_errors :: "'h \<Rightarrow> validity_error list"

record 'h validator_set =
  vs_use_dtd :: bool
  vs_xml_id :: bool
  vs_max_errors :: "nat option"
  vs_prepared :: bool
  vs_document_dtd :: "document_dtd option"
  vs_standalone_ids :: "xml_id_validator option"
  vs_validators :: "'h list"
  vs_ended :: "ended option"
  vs_validity_error_count :: nat

definition new_validator_set :: "'h validator_set" where
  "new_validator_set =
     \<lparr>vs_use_dtd = False, vs_xml_id = False, vs_max_errors = None, vs_prepared = False, vs_document_dtd = None,
      vs_standalone_ids = None, vs_validators = [], vs_ended = None, vs_validity_error_count = 0\<rparr>"

definition validating_dtd :: "bool \<Rightarrow> 'h validator_set \<Rightarrow> 'h validator_set" where
  "validating_dtd on v = v\<lparr>vs_use_dtd := on\<rparr>"

definition checking_xml_id :: "bool \<Rightarrow> 'h validator_set \<Rightarrow> 'h validator_set" where
  "checking_xml_id on v = v\<lparr>vs_xml_id := on\<rparr>"

definition add_to_set :: "'h \<Rightarrow> 'h validator_set \<Rightarrow> 'h validator_set" where
  "add_to_set h v = v\<lparr>vs_validators := vs_validators v @ [h]\<rparr>"

definition set_with_max_errors :: "nat option \<Rightarrow> 'h validator_set \<Rightarrow> 'h validator_set" where
  "set_with_max_errors m v = v\<lparr>vs_max_errors := m\<rparr>"

definition set_is_empty :: "'h validator_set \<Rightarrow> bool" where
  "set_is_empty v \<longleftrightarrow> vs_validators v = []"

definition gathered_errors :: "('h \<Rightarrow> validity_error list) \<Rightarrow> 'h validator_set \<Rightarrow> validity_error list" where
  "gathered_errors errors v =
     (case vs_document_dtd v of None \<Rightarrow> [] | Some d \<Rightarrow> document_errors d)
     @ (case vs_standalone_ids v of None \<Rightarrow> [] | Some x \<Rightarrow> xv_errors x)
     @ concat (map errors (vs_validators v))"

definition set_report :: "('h \<Rightarrow> validity_error list) \<Rightarrow> 'h validator_set \<Rightarrow> validation_report" where
  "set_report errors v =
     \<lparr>re_errors = gathered_errors errors v,
      re_had_dtd = (case vs_document_dtd v of None \<Rightarrow> False | Some d \<Rightarrow> document_had_dtd d),
      re_had_validators = (vs_validators v \<noteq> []), re_ended = vs_ended v\<rparr>"

definition set_start_document :: "'h validator_set \<Rightarrow> 'h validator_set" where
  "set_start_document v =
     v\<lparr>vs_document_dtd :=
         (if vs_use_dtd v then Some (document_checking_xml_id (vs_xml_id v) new_document_dtd) else None),
       vs_standalone_ids := (if \<not> vs_use_dtd v \<and> vs_xml_id v then Some new_xml_id_validator else None),
       vs_ended := None, vs_validity_error_count := 0, vs_prepared := True\<rparr>"

definition flow_count :: "flow \<Rightarrow> nat" where
  "flow_count f = (case f of Continue n \<Rightarrow> n | Break n \<Rightarrow> n)"

text \<open>The event given to the members in turn, up to the first that fails: the errors they count.\<close>

definition give_document :: "entry_order \<Rightarrow> event \<Rightarrow> (stop, nat, 'h validator_set \<times> nat) action" where
  "give_document ord ev = (\<lambda>(v, counter).
     (case vs_document_dtd v of
        None \<Rightarrow> (Inr 0, (v, counter))
      | Some d \<Rightarrow>
          (case consume_document ord ev (d, counter) of
             (r, (d', counter')) \<Rightarrow> (map_sum id flow_count r, (v\<lparr>vs_document_dtd := Some d'\<rparr>, counter')))))"

definition give_ids :: "event \<Rightarrow> (stop, nat, 'h validator_set \<times> nat) action" where
  "give_ids ev = (\<lambda>(v, counter).
     (case vs_standalone_ids v of
        None \<Rightarrow> (Inr 0, (v, counter))
      | Some x \<Rightarrow>
          (case consume_xml_id ev x of
             (r, x') \<Rightarrow> (map_sum Err flow_count r, (v\<lparr>vs_standalone_ids := Some x'\<rparr>, counter)))))"

fun give_each :: "'h consume \<Rightarrow> event \<Rightarrow> nat \<Rightarrow> 'h list \<Rightarrow> nat result \<times> 'h list" where
  "give_each con ev count [] = (Inr count, [])"
| "give_each con ev count (h # hs) =
     (case con ev h of
        (Inl e, h') \<Rightarrow> (Inl e, h' # hs)
      | (Inr f, h') \<Rightarrow>
          (case give_each con ev (saturating_add usize_max count (flow_count f)) hs of
             (r, hs') \<Rightarrow> (r, h' # hs')))"

definition give_added :: "'h consume \<Rightarrow> event \<Rightarrow> nat \<Rightarrow> (stop, nat, 'h validator_set \<times> nat) action" where
  "give_added con ev count = (\<lambda>(v, counter).
     (case give_each con ev count (vs_validators v) of
        (r, hs) \<Rightarrow> (map_sum Err id r, (v\<lparr>vs_validators := hs\<rparr>, counter))))"

definition count_in_set :: "nat \<Rightarrow> (stop, flow, 'h validator_set \<times> nat) action" where
  "count_in_set found = (\<lambda>(v, counter).
     (let n = saturating_add usize_max (vs_validity_error_count v) found;
          v' = v\<lparr>vs_validity_error_count := n\<rparr>
      in ((if (case vs_max_errors v of None \<Rightarrow> False | Some most \<Rightarrow> most < n) then Inl (Err Validity)
           else Inr (Continue found)), (v', counter))))"

definition consume_set :: "'h consume \<Rightarrow> entry_order \<Rightarrow> event \<Rightarrow> (stop, flow, 'h validator_set \<times> nat) action" where
  "consume_set con ord ev =
     and_then (modify (\<lambda>(v, counter).
       (if ev = StartDocument \<or> \<not> vs_prepared v then set_start_document v else v, counter))) (\<lambda>_.
     and_then (give_document ord ev) (\<lambda>n.
     and_then (give_ids ev) (\<lambda>m.
     and_then (give_added con ev (saturating_add usize_max (saturating_add usize_max 0 n) m)) (\<lambda>found.
     count_in_set found))))"

text \<open>\<open>finish\<close>: the validators of the crate keep nothing for the end of a run.\<close>

definition finish_set :: "'h finish \<Rightarrow> outcome \<Rightarrow> 'h validator_set \<Rightarrow> 'h validator_set" where
  "finish_set fin outcome v =
     v\<lparr>vs_ended := Some (case outcome of
           Completed \<Rightarrow> EndedCompleted | Stopped \<Rightarrow> EndedStopped | Failed _ \<Rightarrow> EndedFailed
         | Abandoned \<Rightarrow> EndedAbandoned),
       vs_validators := map (fin outcome) (vs_validators v)\<rparr>"

end
