(* ===== verification/Dtd_Verdict.thy ===== *)
theory Dtd_Verdict
  imports Dtd_Validity
begin

text \<open>
  The validator against its specification. \<open>verdict v v' fine ids refs\<close> says what a piece of the document has done to
  the validator: it has reported nothing new exactly if the piece is \<open>fine\<close> and its IDs are new and distinct, and
  then it has recorded the IDs and the references. Pieces compose along the sequence of events.
\<close>

section \<open>Names of the DTD in a pool that has grown\<close>

definition spec_known :: "name_pool \<Rightarrow> content_spec \<Rightarrow> bool" where
  "spec_known pool spec \<longleftrightarrow>
     (case spec of Mixed ns \<Rightarrow> list_all (knows pool) ns | Children p \<Rightarrow> list_all (knows pool) (names_of p) | _ \<Rightarrow> True)"

definition type_known :: "name_pool \<Rightarrow> att_type \<Rightarrow> bool" where
  "type_known pool ty \<longleftrightarrow>
     (case ty of Notation ns \<Rightarrow> list_all (knows pool) ns | Enumeration ns \<Rightarrow> list_all (knows pool) ns | _ \<Rightarrow> True)"

text \<open>A DTD and its pool belong together: every handle the DTD holds is one of the pool.\<close>

definition dtd_known :: "name_pool \<Rightarrow> dtd \<Rightarrow> bool" where
  "dtd_known pool d \<longleftrightarrow>
     (\<forall>e spec. d_elements d e = Some spec \<longrightarrow> knows pool e \<and> spec_known pool spec) \<and>
     (\<forall>e l. d_attlists d e = Some l \<longrightarrow> knows pool e \<and> (\<forall>a\<in>set l. knows pool (ad_name a) \<and> type_known pool (ad_type a))) \<and>
     (\<forall>i g. d_general d i = Some g \<longrightarrow> knows pool i)"

lemma get_resolve_iff: "pool_wf p \<Longrightarrow> get p n = Some h \<longleftrightarrow> resolve p h = Some n"
  by (cases h) (auto simp: get_def resolve_def owns_def pool_wf_def dest: index_ok_Some index_ok_nth)

definition grown :: "name_pool \<Rightarrow> name_pool \<Rightarrow> bool" where
  "grown pool q \<longleftrightarrow> pool_wf pool \<and> pool_wf q \<and> pool_le pool q"

lemma get_grown:
  assumes "grown pool q"
  shows "get pool n = Some h \<Longrightarrow> get q n = Some h" "get q n = Some h \<Longrightarrow> knows pool h \<Longrightarrow> get pool n = Some h"
    "get q n = Some h \<Longrightarrow> knows pool h \<Longrightarrow> named pool h = n"
  using assms by (auto simp: grown_def get_resolve_iff pool_le_def knows_def named_def)

lemma get_named: "grown pool q \<Longrightarrow> knows pool h \<Longrightarrow> get q (named pool h) = Some h"
  by (simp add: grown_def get_resolve_iff pool_le_def knows_resolve)

lemma lookup_grown:
  assumes "grown pool q" "\<And>h x. m h = Some x \<Longrightarrow> knows pool h"
  shows "Option.bind (get q n) m = Option.bind (get pool n) m"
proof (cases "get pool n")
  case None
  then show ?thesis using get_grown(2) [OF assms(1)] assms(2) by (cases "get q n"; cases "m (the (get q n))") force+
next
  case (Some h)
  then show ?thesis using get_grown(1) [OF assms(1) Some] by simp
qed

lemma spec_for_grown: "grown pool q \<Longrightarrow> dtd_known pool d \<Longrightarrow> Option.bind (get q n) (d_elements d) = spec_for pool d n"
  unfolding spec_for_def by (rule lookup_grown) (auto simp: dtd_known_def)

lemma defs_for_grown:
  "grown pool q \<Longrightarrow> dtd_known pool d \<Longrightarrow>
     (case Option.bind (get q n) (d_attlists d) of None \<Rightarrow> [] | Some l \<Rightarrow> l) = defs_for pool d n"
  unfolding defs_for_def by (subst lookup_grown) (auto simp: dtd_known_def)

lemma names_unparsed_grown:
  assumes "grown pool q" "dtd_known pool d"
  shows "names_unparsed q d n \<longleftrightarrow> unparsed_entity pool d n"
proof -
  have "names_unparsed q d n \<longleftrightarrow>
      (case Option.bind (get q n) (d_general d) of Some (GUnparsed _ _ _ _) \<Rightarrow> True | _ \<Rightarrow> False)"
    by (simp add: names_unparsed_def split: option.split)
  also have "Option.bind (get q n) (d_general d) = Option.bind (get pool n) (d_general d)"
    using assms(2) by (intro lookup_grown [OF assms(1)]) (auto simp: dtd_known_def)
  finally show ?thesis
    by (cases "get pool n") (auto simp: unparsed_entity_def split: option.splits general_entity.splits)
qed

lemma among_grown:
  assumes "grown pool q" "list_all (knows pool) allowed"
  shows "among q allowed n \<longleftrightarrow> n \<in> named pool ` set allowed"
  using assms(2) get_grown(3) [OF assms(1)] get_named [OF assms(1)]
  by (auto simp: among_def list_all_iff split: option.splits)

lemma declared_def_grown:
  assumes "grown pool q" "\<forall>x\<in>set defs. knows pool (ad_name x)"
  shows "declared_def q defs (attribute_lexical a) = def_for pool defs a"
proof (cases "get q (attribute_lexical a)")
  case None
  have "find (\<lambda>x. named pool (ad_name x) = attribute_lexical a) defs = None"
    using None assms(2) get_named [OF assms(1)] by (force simp: find_None_iff)
  then show ?thesis using None by (simp add: declared_def_def def_for_def)
next
  case (Some i)
  have "ad_name x = i \<longleftrightarrow> named pool (ad_name x) = attribute_lexical a" if "x \<in> set defs" for x
    using that Some assms(2) get_named [OF assms(1), of "ad_name x"] get_grown(3) [OF assms(1) Some] by auto
  then have "find (\<lambda>x. ad_name x = i) defs = find (\<lambda>x. named pool (ad_name x) = attribute_lexical a) defs"
    by (intro find_cong) auto
  then show ?thesis using Some by (simp add: declared_def_def def_for_def)
qed

section \<open>Verdicts\<close>

definition fresh_ids :: "ustring set \<Rightarrow> ustring list \<Rightarrow> bool" where
  "fresh_ids S is \<longleftrightarrow> distinct is \<and> set is \<inter> S = {}"

lemma fresh_ids_append: "fresh_ids S (is @ js) \<longleftrightarrow> fresh_ids S is \<and> fresh_ids (S \<union> set is) js"
  by (auto simp: fresh_ids_def)

lemma fresh_ids_simps [simp]: "fresh_ids S []" "fresh_ids S [i] \<longleftrightarrow> i \<notin> S"
  by (auto simp: fresh_ids_def)

definition verdict :: "dtd_validator \<Rightarrow> dtd_validator \<Rightarrow> bool \<Rightarrow> ustring list \<Rightarrow> ustring list \<Rightarrow> bool" where
  "verdict v v' fine ids refs \<longleftrightarrow>
     (dv_errors v' = [] \<longleftrightarrow> dv_errors v = [] \<and> fine \<and> fresh_ids (dv_ids v) ids) \<and>
     (dv_errors v' = [] \<longrightarrow> dv_ids v' = dv_ids v \<union> set ids \<and> dv_idrefs v' = dv_idrefs v @ refs)"

lemma verdict_trans:
  assumes "verdict v v1 a is rs" "verdict v1 v2 b js ss"
  shows "verdict v v2 (a \<and> b) (is @ js) (rs @ ss)"
proof (cases "dv_errors v1 = []")
  case True
  then show ?thesis using assms by (auto simp: verdict_def fresh_ids_append)
next
  case False
  then have "dv_errors v2 \<noteq> []" using assms(2) by (simp add: verdict_def)
  then show ?thesis using assms False by (auto simp: verdict_def fresh_ids_append)
qed

lemma verdict_cong: "verdict v v' a is rs \<Longrightarrow> a = b \<Longrightarrow> is = js \<Longrightarrow> rs = ss \<Longrightarrow> verdict v v' b js ss"
  by simp

lemma verdict_refl: "verdict v v True [] []"
  by (simp add: verdict_def)

lemma verdict_report: "fine \<longleftrightarrow> es = [] \<Longrightarrow> verdict v (add_errors es v) fine [] []"
  by (auto simp: verdict_def add_errors_def)

text \<open>The fields a piece looks at only through the verdict may change in between.\<close>

lemma verdict_same:
  "dv_errors v' = dv_errors v \<Longrightarrow> dv_ids v' = dv_ids v \<Longrightarrow> dv_idrefs v' = dv_idrefs v \<Longrightarrow> verdict v v' True [] []"
  by (simp add: verdict_def)

section \<open>Attributes\<close>

text \<open>What checking an attribute leaves alone.\<close>

definition only_records :: "dtd_validator \<Rightarrow> dtd_validator \<Rightarrow> bool" where
  "only_records v v' \<longleftrightarrow>
     dv_pool v' = dv_pool v \<and> dv_dtd v' = dv_dtd v \<and> dv_xml_id v' = dv_xml_id v \<and> dv_open v' = dv_open v \<and>
     dv_models v' = dv_models v \<and> dv_root v' = dv_root v \<and> dv_root_seen v' = dv_root_seen v \<and>
     dv_declarations_checked v' = dv_declarations_checked v"

lemma only_records_refl: "only_records v v"
  by (simp add: only_records_def)

lemma only_records_trans: "only_records v v1 \<Longrightarrow> only_records v1 v2 \<Longrightarrow> only_records v v2"
  by (simp add: only_records_def)

lemma only_records_add_errors [simp]: "only_records v (add_errors es v)"
  by (simp add: only_records_def add_errors_def)

lemma only_recordsD:
  assumes "only_records v v'"
  shows "dv_pool v' = dv_pool v" "dv_dtd v' = dv_dtd v" "dv_xml_id v' = dv_xml_id v" "dv_open v' = dv_open v"
    "dv_models v' = dv_models v" "dv_root v' = dv_root v" "dv_root_seen v' = dv_root_seen v"
    "dv_declarations_checked v' = dv_declarations_checked v"
  using assms by (simp_all add: only_records_def)

lemma value_records: "only_records v (check_attribute_value name ty x v)"
  by (cases ty) (simp_all add: only_records_def add_errors_def record_id_def record_idrefs_def Let_def)

lemma value_verdict:
  assumes "grown pool (dv_pool v)" "dtd_known pool d" "dv_dtd v = d" "type_known pool ty"
  shows "verdict v (check_attribute_value name ty x v) (value_valid pool d ty x)
    (if ty = Id then [x] else [])
    (case ty of IdRef \<Rightarrow> [x] | IdRefs \<Rightarrow> split_whitespace x | _ \<Rightarrow> [])"
proof -
  have none: "filter (\<lambda>t. \<not> P t) ts = [] \<longleftrightarrow> list_all P ts" "list_all P ts \<Longrightarrow> filter P ts = ts" for P and ts :: "ustring list"
    by (auto simp: filter_empty_conv list_all_iff)
  show ?thesis
    using assms(3,4)
    by (cases ty)
       (auto simp: verdict_def add_errors_def record_id_def record_idrefs_def Let_def none type_known_def
          among_grown [OF assms(1)] names_unparsed_grown [OF assms(1,2)])
qed

lemma attribute_verdict:
  assumes "grown pool (dv_pool v)" "dtd_known pool d" "dv_dtd v = d" "dv_xml_id v = xml_id"
    "\<forall>x\<in>set defs. knows pool (ad_name x) \<and> type_known pool (ad_type x)"
  shows "only_records v (validate_attribute defs name a v)"
    "verdict v (validate_attribute defs name a v) (attribute_valid pool d xml_id defs a)
       (attribute_ids pool defs a) (attribute_idrefs pool defs a)"
proof -
  have found: "declared_def (dv_pool v) defs (attribute_lexical a) = def_for pool defs a"
    using assms(5) by (intro declared_def_grown [OF assms(1)]) simp
  show "only_records v (validate_attribute defs name a v)"
    using value_records
    by (auto simp: validate_attribute_def Let_def check_xml_id_def only_records_def add_errors_def
        split: option.split default_decl.split)
  show "verdict v (validate_attribute defs name a v) (attribute_valid pool d xml_id defs a)
       (attribute_ids pool defs a) (attribute_idrefs pool defs a)"
  proof (cases "def_for pool defs a")
    case None
    then show ?thesis
      using found assms(4)
      by (auto simp: validate_attribute_def Let_def check_xml_id_def verdict_def attribute_valid_def attribute_ids_def
          attribute_idrefs_def add_errors_def)
  next
    case (Some x)
    let ?fixed = "\<lambda>v. case ad_default x of
        Fixed f \<Rightarrow> if at_value a \<noteq> f then add_errors [FixedOtherwise (attribute_lexical a) f (at_value a)] v else v | _ \<Rightarrow> v"
    have x: "x \<in> set defs" using Some by (auto simp: def_for_def find_Some_iff)
    have "verdict v (?fixed v) (\<forall>f. ad_default x = Fixed f \<longrightarrow> at_value a = f) [] []"
      by (auto simp: verdict_def add_errors_def split: default_decl.split)
    moreover have same: "only_records v (?fixed v)"
      by (auto simp: only_records_refl split: default_decl.split)
    have "verdict (?fixed v) (check_attribute_value (attribute_lexical a) (ad_type x) (at_value a) (?fixed v))
        (value_valid pool d (ad_type x) (at_value a)) (if ad_type x = Id then [at_value a] else [])
        (case ad_type x of IdRef \<Rightarrow> [at_value a] | IdRefs \<Rightarrow> split_whitespace (at_value a) | _ \<Rightarrow> [])"
      using assms(1-3,5) x same by (intro value_verdict) (simp_all add: only_records_def)
    ultimately have "verdict v (check_attribute_value (attribute_lexical a) (ad_type x) (at_value a) (?fixed v))
        ((\<forall>f. ad_default x = Fixed f \<longrightarrow> at_value a = f) \<and> value_valid pool d (ad_type x) (at_value a))
        ([] @ (if ad_type x = Id then [at_value a] else []))
        ([] @ (case ad_type x of IdRef \<Rightarrow> [at_value a] | IdRefs \<Rightarrow> split_whitespace (at_value a) | _ \<Rightarrow> []))"
      by (rule verdict_trans)
    then show ?thesis
      using Some found
      by (simp add: validate_attribute_def Let_def attribute_valid_def attribute_ids_def attribute_idrefs_def)
  qed
qed

lemma attributes_verdict:
  assumes "grown pool (dv_pool v)" "dtd_known pool d" "dv_dtd v = d" "dv_xml_id v = xml_id"
    "\<forall>x\<in>set defs. knows pool (ad_name x) \<and> type_known pool (ad_type x)"
  shows "only_records v (fold (validate_attribute defs name) as v) \<and>
    verdict v (fold (validate_attribute defs name) as v) (list_all (attribute_valid pool d xml_id defs) as)
       (concat (map (attribute_ids pool defs) as)) (concat (map (attribute_idrefs pool defs) as))"
  using assms
proof (induction as arbitrary: v)
  case Nil
  then show ?case by (simp add: only_records_refl verdict_refl)
next
  case (Cons a as)
  note step = attribute_verdict [OF Cons.prems, of name a]
  let ?w = "validate_attribute defs name a v"
  have "only_records ?w (fold (validate_attribute defs name) as ?w) \<and>
    verdict ?w (fold (validate_attribute defs name) as ?w) (list_all (attribute_valid pool d xml_id defs) as)
       (concat (map (attribute_ids pool defs) as)) (concat (map (attribute_idrefs pool defs) as))"
    using Cons.prems step(1) by (intro Cons.IH) (simp_all add: only_records_def)
  then show ?case
    using step by (auto intro: only_records_trans verdict_trans)
qed

lemma required_verdict:
  assumes "grown pool q" "\<forall>x\<in>set defs. knows pool (ad_name x)"
  shows "required_errors q defs name as = [] \<longleftrightarrow> required_present pool defs as"
proof -
  have "get q n = Some (ad_name x) \<longleftrightarrow> n = named pool (ad_name x)" if "x \<in> set defs" for x n
    using that assms(2) get_named [OF assms(1), of "ad_name x"] get_grown(3) [OF assms(1), of n "ad_name x"] by auto
  then show ?thesis
    unfolding required_errors_def required_present_def filter_empty_conv list_ex_iff map_is_Nil_conv image_iff
    by metis
qed

lemma validate_attributes_verdict:
  assumes "grown pool (dv_pool v)" "dtd_known pool d" "dv_dtd v = d" "dv_xml_id v = xml_id"
    "get (dv_pool v) n = Some element"
  defines "defs \<equiv> defs_for pool d n"
  shows "only_records v (validate_attributes element name as v) \<and>
    verdict v (validate_attributes element name as v)
      (list_all (attribute_valid pool d xml_id defs) as \<and> required_present pool defs as)
      (concat (map (attribute_ids pool defs) as)) (concat (map (attribute_idrefs pool defs) as))"
proof -
  have defs: "(case d_attlists (dv_dtd v) element of None \<Rightarrow> [] | Some l \<Rightarrow> l) = defs"
    using defs_for_grown [OF assms(1,2), of n] assms(3,5) by (simp add: defs_def)
  have known: "\<forall>x\<in>set defs. knows pool (ad_name x) \<and> type_known pool (ad_type x)"
    using assms(2) by (cases "get pool n"; cases "d_attlists d (the (get pool n))") (auto simp: defs_def defs_for_def dtd_known_def)
  note a = attributes_verdict [OF assms(1-4) known, of name as]
  let ?w = "fold (validate_attribute defs name) as v"
  have "required_errors (dv_pool ?w) defs name as = [] \<longleftrightarrow> required_present pool defs as"
    using known a assms(1) by (intro required_verdict) (simp_all add: only_records_def)
  then have "verdict ?w (add_errors (required_errors (dv_pool ?w) defs name as) ?w) (required_present pool defs as) [] []"
    by (intro verdict_report) simp
  from verdict_trans [OF conjunct2 [OF a] this] conjunct1 [OF a] show ?thesis
    by (auto simp: validate_attributes_def Let_def defs intro: only_records_trans)
qed

section \<open>Content\<close>

definition watching :: "name_pool \<Rightarrow> dtd \<Rightarrow> bool \<Rightarrow> dtd_validator \<Rightarrow> bool" where
  "watching pool d xml_id v \<longleftrightarrow>
     grown pool (dv_pool v) \<and> dv_dtd v = d \<and> dv_xml_id v = xml_id \<and> dv_declarations_checked v \<and> dv_root_seen v \<and>
     (\<forall>e m. dv_models v e = Some m \<longrightarrow> (\<exists>p. d_elements d e = Some (Children p) \<and> m = compile p)) \<and>
     (dv_errors v = [] \<longrightarrow> (\<forall>m\<in>ran (dv_models v). is_deterministic m))"

lemma repeat_set: "(\<And>u. u \<in> A \<Longrightarrow> set u \<subseteq> S) \<Longrightarrow> w \<in> repeat oc A \<Longrightarrow> set w \<subseteq> S"
proof -
  assume a: "\<And>u. u \<in> A \<Longrightarrow> set u \<subseteq> S"
  have star: "set v \<subseteq> S" if "v \<in> star A" for v
    using that by (induction rule: star.induct) (use a in auto)
  show "w \<in> repeat oc A \<Longrightarrow> set w \<subseteq> S"
    using a star by (cases oc) (auto simp: conc_def, blast+)
qed

lemma lang_names:
  "w \<in> lang p \<Longrightarrow> set w \<subseteq> set (names_of p)"
  "(w \<in> lang_seq ps \<longrightarrow> set w \<subseteq> set (names_of_list ps)) \<and> (w \<in> lang_choice ps \<longrightarrow> set w \<subseteq> set (names_of_list ps))"
proof (induction p and ps arbitrary: w and w rule: names_of_names_of_list.induct)
  case (1 n oc)
  then show ?case using repeat_set [of "{[n]}" "{n}" w oc] by simp
next
  case (2 ps oc)
  then show ?case using repeat_set [of "lang_seq ps" "set (names_of_list ps)" w oc] by simp
next
  case (3 ps oc)
  then show ?case using repeat_set [of "lang_choice ps" "set (names_of_list ps)" w oc] by simp
next
  case (5 p ps)
  then show ?case by (fastforce simp: conc_def)
qed simp

lemma named_lang:
  assumes "grown pool q" "list_all (knows pool) (names_of p)" "list_all (knows q) cs"
  shows "map (named q) cs \<in> map (named pool) ` lang p \<longleftrightarrow> cs \<in> lang p"
proof -
  have same: "map (named pool) w = map (named q) w" "list_all (knows q) w" if "w \<in> lang p" for w
    using lang_names(1) [OF that] assms(1,2) pool_le_named [of pool q] pool_le_knows [of pool q]
    by (auto simp: grown_def list_all_iff subset_iff)
  show ?thesis
  proof
    assume "map (named q) cs \<in> map (named pool) ` lang p"
    then obtain w where w: "w \<in> lang p" "map (named q) cs = map (named q) w" using same by auto
    then have "cs = w"
      using same(2) [OF w(1)] assms(1,3)
      by (intro map_inj_on [OF w(2)] inj_onI) (auto simp: list_all_iff grown_def named_inj)
    then show "cs \<in> lang p" using w(1) by simp
  next
    assume "cs \<in> lang p"
    then show "map (named q) cs \<in> map (named pool) ` lang p" using same(1) by (metis imageI)
  qed
qed

lemma named_among:
  assumes "grown pool q" "list_all (knows pool) allowed" "list_all (knows q) cs"
  shows "set (map (named q) cs) \<subseteq> named pool ` set allowed \<longleftrightarrow> set cs \<subseteq> set allowed"
proof -
  have "named q c \<in> named pool ` set allowed \<longleftrightarrow> c \<in> set allowed" if "c \<in> set cs" for c
    using that assms pool_le_named [of pool q] pool_le_knows [of pool q]
    by (auto simp: grown_def list_all_iff named_inj image_iff) (metis named_inj)
  then show ?thesis by (auto simp: subset_iff)
qed

lemma content_verdict:
  assumes "watching pool d xml_id v" "dtd_known pool d" "list_all (knows (dv_pool v)) cs"
  shows "watching pool d xml_id (check_content element cs v)"
    "dv_open (check_content element cs v) = dv_open v" "dv_pool (check_content element cs v) = dv_pool v"
    "verdict v (check_content element cs v)
       (\<forall>spec. d_elements d element = Some spec \<longrightarrow> children_valid pool spec (map (named (dv_pool v)) cs)) [] []"
proof -
  have g: "grown pool (dv_pool v)" "dv_dtd v = d" using assms(1) by (simp_all add: watching_def)
  note d = check_content_def add_errors_def Let_def
  show "dv_open (check_content element cs v) = dv_open v" "dv_pool (check_content element cs v) = dv_pool v"
    by (auto simp: d split: option.split content_spec.split list.split)
  show "watching pool d xml_id (check_content element cs v)"
    using assms(1) g(2)
    by (auto simp: d watching_def ran_def split: option.split content_spec.split list.split if_splits)
  show "verdict v (check_content element cs v)
       (\<forall>spec. d_elements d element = Some spec \<longrightarrow> children_valid pool spec (map (named (dv_pool v)) cs)) [] []"
  proof (cases "d_elements d element")
    case None
    then show ?thesis by (simp add: check_content_def g(2) verdict_refl)
  next
    case (Some spec)
    then have sk: "spec_known pool spec" using assms(2) by (auto simp: dtd_known_def)
    show ?thesis
    proof (cases spec)
      case CEmpty
      then show ?thesis using Some g(2) by (cases cs) (auto simp: d verdict_def)
    next
      case CAny
      then show ?thesis using Some g(2) by (simp add: check_content_def verdict_refl)
    next
      case (Mixed allowed)
      then show ?thesis
        using Some g(2) sk named_among [OF g(1), of allowed cs] assms(3)
        by (auto simp: d verdict_def spec_known_def filter_empty_conv)
    next
      case (Children p)
      have runs: "matches (compile p) cs = None \<longleftrightarrow> map (named (dv_pool v)) cs \<in> map (named pool) ` lang p"
        using Children sk named_lang [OF g(1), of p cs] assms(3) by (simp add: spec_known_def matches_lang)
      have model: "m = compile p" "dv_errors v = [] \<Longrightarrow> is_deterministic (compile p)" if "dv_models v element = Some m" for m
      proof -
        have "\<exists>p. d_elements d element = Some (Children p) \<and> m = compile p" using that assms(1) by (auto simp: watching_def)
        then show m: "m = compile p" using Some Children by simp
        show "dv_errors v = [] \<Longrightarrow> is_deterministic (compile p)"
          using that assms(1) unfolding m [symmetric] by (auto simp: watching_def intro: ranI)
      qed
      show ?thesis
        using Some g(2) Children model
        by (cases "dv_models v element"; cases "matches (compile p) cs") (auto simp: d verdict_def runs [symmetric])
    qed
  qed
qed

section \<open>Elements\<close>

lemma add_child_last [simp]: "add_child c (os @ [e]) = os @ [e\<lparr>oe_children := oe_children e @ [c]\<rparr>]"
  by (simp add: add_child_def)

lemma add_child_Nil [simp]: "add_child c [] = []"
  by (simp add: add_child_def)

text \<open>The names a pool has room for.\<close>

definition room_for :: "nat \<Rightarrow> name_pool \<Rightarrow> bool" where
  "room_for n q \<longleftrightarrow> length (p_names q) + n \<le> u32_max - 1"

lemma intern_room:
  assumes "pool_wf q" "room_for (Suc n) q"
  obtains h q' where "intern q name = Inr (h, q')" "pool_wf q'" "pool_le q q'" "get q' name = Some h" "room_for n q'"
proof -
  have "\<exists>h q'. intern q name = Inr (h, q') \<and> length (p_names q') \<le> Suc (length (p_names q))"
    using assms(2) by (cases "p_index q name") (auto simp: intern_def next_index_def room_for_def)
  then obtain h q' where i: "intern q name = Inr (h, q')" "length (p_names q') \<le> Suc (length (p_names q))" by blast
  show thesis
    using i(2) assms(2) intern_grows [OF assms(1) i(1)] intern_resolve [OF assms(1) i(1)]
    by (intro that [OF i(1)]) (simp_all add: room_for_def)
qed

lemma grown_further: "grown pool q \<Longrightarrow> pool_wf q' \<Longrightarrow> pool_le q q' \<Longrightarrow> grown pool q'"
  by (auto simp: grown_def intro: pool_le_trans)

lemma start_run:
  assumes "watching pool d xml_id v" "dtd_known pool d" "room_for (Suc n) (dv_pool v)"
  obtains v' h where "validate_start ord s v = (Inr (), v')" "watching pool d xml_id v'"
    "pool_le (dv_pool v) (dv_pool v')" "room_for n (dv_pool v')" "get (dv_pool v') (element_name s) = Some h"
    "dv_open v' = add_child h (dv_open v) @
       [\<lparr>oe_element = h, oe_children = [], oe_content = content_kind_of (spec_for pool d (element_name s))\<rparr>]"
    "verdict v v' (start_valid pool d xml_id s) (element_ids pool d s) (element_idrefs pool d s)"
    "d_elements d h = spec_for pool d (element_name s)"
proof -
  have w: "grown pool (dv_pool v)" "dv_dtd v = d" "dv_xml_id v = xml_id" "dv_declarations_checked v" "dv_root_seen v"
    using assms(1) by (simp_all add: watching_def)
  then have "pool_wf (dv_pool v)" by (simp add: grown_def)
  from intern_room [OF this assms(3), of "element_name s"] obtain h q where
    i: "intern (dv_pool v) (element_name s) = Inr (h, q)" "pool_wf q" "pool_le (dv_pool v) q"
      "get q (element_name s) = Some h" "room_for n q" by blast
  note g = grown_further [OF w(1) i(2,3)]
  have spec: "d_elements d h = spec_for pool d (element_name s)"
    using spec_for_grown [OF g assms(2), of "element_name s"] i(4) by simp
  let ?v1 = "v\<lparr>dv_pool := q\<rparr>"
  let ?v2 = "add_errors (if spec_for pool d (element_name s) = None then [ElementNotDeclared (element_name s)] else []) ?v1"
  let ?v3 = "?v2\<lparr>dv_open := add_child h (dv_open ?v2)\<rparr>"
  let ?v4 = "validate_attributes h (element_name s) (se_attributes s) ?v3"
  let ?v5 = "?v4\<lparr>dv_open := dv_open ?v4 @
       [\<lparr>oe_element = h, oe_children = [], oe_content = content_kind_of (spec_for pool d (element_name s))\<rparr>]\<rparr>"
  have a: "only_records ?v3 ?v4 \<and>
    verdict ?v3 ?v4 (list_all (attribute_valid pool d xml_id (defs_for pool d (element_name s))) (se_attributes s) \<and>
        required_present pool (defs_for pool d (element_name s)) (se_attributes s))
      (element_ids pool d s) (element_idrefs pool d s)"
    unfolding element_ids_def element_idrefs_def
    using g w i(4) assms(2) by (intro validate_attributes_verdict) (simp_all add: add_errors_def)
  note same = only_recordsD [OF conjunct1 [OF a]]
  have run: "validate_start ord s v = (Inr (), ?v5)"
    using i(1) w same(2)
    by (simp add: validate_start_def element_name_def [symmetric] Let_def spec add_errors_def)
  have "verdict v ?v3 (spec_for pool d (element_name s) \<noteq> None) [] []"
    by (auto simp: verdict_def add_errors_def)
  from verdict_trans [OF this conjunct2 [OF a]]
  have v: "verdict v ?v5 (start_valid pool d xml_id s) (element_ids pool d s) (element_idrefs pool d s)"
    by (simp add: verdict_def start_valid_def)
  have "watching pool d xml_id ?v5"
    using assms(1) g same v by (auto simp: watching_def verdict_def add_errors_def)
  then show thesis
    using run v i spec same by (intro that [of ?v5 h]) (simp_all add: add_errors_def)
qed

section \<open>Trees\<close>

text \<open>
  What a piece of content does inside an element whose content is of a kind: \<open>names\<close> are the children it adds, and
  \<open>fine\<close> is its condition on the kind.
\<close>

definition piece ::
  "entry_order \<Rightarrow> name_pool \<Rightarrow> dtd \<Rightarrow> bool \<Rightarrow> event list \<Rightarrow> nat \<Rightarrow> ustring list \<Rightarrow> (content_kind \<Rightarrow> bool) \<Rightarrow>
   ustring list \<Rightarrow> ustring list \<Rightarrow> bool" where
  "piece ord pool d xml_id evs n names fine ids refs \<longleftrightarrow>
     (\<forall>v os e m. watching pool d xml_id v \<longrightarrow> dv_open v = os @ [e] \<longrightarrow> room_for (n + m) (dv_pool v) \<longrightarrow>
       (\<exists>v' hs. each (validate_event ord) evs v = (Inr (), v') \<and> watching pool d xml_id v' \<and>
          pool_le (dv_pool v) (dv_pool v') \<and> room_for m (dv_pool v') \<and>
          list_all (knows (dv_pool v')) hs \<and> map (named (dv_pool v')) hs = names \<and>
          dv_open v' = os @ [e\<lparr>oe_children := oe_children e @ hs\<rparr>] \<and>
          verdict v v' (fine (oe_content e)) ids refs))"

lemma pieceD:
  assumes "piece ord pool d xml_id evs n names fine ids refs" "watching pool d xml_id v" "dv_open v = os @ [e]"
    "room_for (n + m) (dv_pool v)"
  obtains v' hs where "each (validate_event ord) evs v = (Inr (), v')" "watching pool d xml_id v'"
    "pool_le (dv_pool v) (dv_pool v')" "room_for m (dv_pool v')" "list_all (knows (dv_pool v')) hs"
    "map (named (dv_pool v')) hs = names" "dv_open v' = os @ [e\<lparr>oe_children := oe_children e @ hs\<rparr>]"
    "verdict v v' (fine (oe_content e)) ids refs"
  using assms unfolding piece_def by blast

lemma piece_Nil: "piece ord pool d xml_id [] 0 [] (\<lambda>k. True) [] []"
  by (simp add: piece_def verdict_refl)

lemma named_later:
  "pool_le p q \<Longrightarrow> list_all (knows p) hs \<Longrightarrow> list_all (knows q) hs \<and> map (named q) hs = map (named p) hs"
  by (auto simp: list_all_iff pool_le_knows pool_le_named)

lemma piece_append:
  assumes "piece ord pool d xml_id evs n names fine ids refs" "piece ord pool d xml_id evs' n' names' fine' ids' refs'"
  shows "piece ord pool d xml_id (evs @ evs') (n + n') (names @ names') (\<lambda>k. fine k \<and> fine' k) (ids @ ids') (refs @ refs')"
  unfolding piece_def
proof (intro allI impI)
  fix v os e m assume w: "watching pool d xml_id v" "dv_open v = os @ [e]" "room_for (n + n' + m) (dv_pool v)"
  then have "room_for (n + (n' + m)) (dv_pool v)" by (simp add: add.assoc)
  from pieceD [OF assms(1) w(1,2) this] obtain v1 hs where
    a: "each (validate_event ord) evs v = (Inr (), v1)" "watching pool d xml_id v1"
      "pool_le (dv_pool v) (dv_pool v1)" "room_for (n' + m) (dv_pool v1)" "list_all (knows (dv_pool v1)) hs"
      "map (named (dv_pool v1)) hs = names" "dv_open v1 = os @ [e\<lparr>oe_children := oe_children e @ hs\<rparr>]"
      "verdict v v1 (fine (oe_content e)) ids refs" .
  from pieceD [OF assms(2) a(2,7,4)] obtain v2 gs where
    b: "each (validate_event ord) evs' v1 = (Inr (), v2)" "watching pool d xml_id v2"
      "pool_le (dv_pool v1) (dv_pool v2)" "room_for m (dv_pool v2)" "list_all (knows (dv_pool v2)) gs"
      "map (named (dv_pool v2)) gs = names'"
      "dv_open v2 = os @ [e\<lparr>oe_children := oe_children e @ hs\<rparr>\<lparr>oe_children := oe_children (e\<lparr>oe_children := oe_children e @ hs\<rparr>) @ gs\<rparr>]"
      "verdict v1 v2 (fine' (oe_content (e\<lparr>oe_children := oe_children e @ hs\<rparr>))) ids' refs'" .
  have "verdict v v2 (fine (oe_content e) \<and> fine' (oe_content e)) (ids @ ids') (refs @ refs')"
    using verdict_trans [OF a(8)] b(8) by simp
  then show "\<exists>v' hs. each (validate_event ord) (evs @ evs') v = (Inr (), v') \<and> watching pool d xml_id v' \<and>
          pool_le (dv_pool v) (dv_pool v') \<and> room_for m (dv_pool v') \<and>
          list_all (knows (dv_pool v')) hs \<and> map (named (dv_pool v')) hs = names @ names' \<and>
          dv_open v' = os @ [e\<lparr>oe_children := oe_children e @ hs\<rparr>] \<and>
          verdict v v' (fine (oe_content e) \<and> fine' (oe_content e)) (ids @ ids') (refs @ refs')"
    using a b named_later [OF b(3) a(5)]
    by (intro exI [of _ v2] exI [of _ "hs @ gs"]) (auto simp: each_append intro: pool_le_trans)
qed

lemma child_names_append: "child_names (ts @ us) = child_names ts @ child_names us"
  by (induction ts rule: child_names.induct) simp_all

lemma pieces:
  assumes "\<And>t. t \<in> set ts \<Longrightarrow> piece ord pool d xml_id (tree_events t) (nodes t) (child_names [t]) (fine t) (ids t) (refs t)"
  shows "piece ord pool d xml_id (concat (map tree_events ts)) (sum_list (map nodes ts)) (child_names ts)
    (\<lambda>k. list_all (\<lambda>t. fine t k) ts) (concat (map ids ts)) (concat (map refs ts))"
  using assms
proof (induction ts)
  case (Cons t ts)
  have "piece ord pool d xml_id (concat (map tree_events ts)) (sum_list (map nodes ts)) (child_names ts)
    (\<lambda>k. list_all (\<lambda>t. fine t k) ts) (concat (map ids ts)) (concat (map refs ts))"
    using Cons by simp
  moreover have "child_names (t # ts) = child_names [t] @ child_names ts"
    using child_names_append [of "[t]" ts] by simp
  ultimately show ?case using piece_append [OF Cons.prems [of t]] by simp
qed (simp add: piece_Nil)

text \<open>A start tag, a piece of content and the end tag of the element.\<close>

lemma element_run:
  fixes s :: start_element_event
  assumes "piece ord pool d xml_id evs n names fine ids refs" "dtd_known pool d"
    "watching pool d xml_id v" "room_for (Suc n + m) (dv_pool v)"
  defines "spec \<equiv> spec_for pool d (element_name s)"
  obtains v' h where
    "each (validate_event ord) (StartElement s # evs @ [EndElement x]) v = (Inr (), v')" "watching pool d xml_id v'"
    "pool_le (dv_pool v) (dv_pool v')" "room_for m (dv_pool v')" "knows (dv_pool v') h"
    "named (dv_pool v') h = element_name s" "dv_open v' = add_child h (dv_open v)"
    "verdict v v' (start_valid pool d xml_id s \<and> fine (content_kind_of spec) \<and>
        (\<forall>c. spec = Some c \<longrightarrow> children_valid pool c names))
       (element_ids pool d s @ ids) (element_idrefs pool d s @ refs)"
proof -
  have "room_for (Suc (n + m)) (dv_pool v)" using assms(4) by simp
  from start_run [OF assms(3,2) this, of ord s] obtain v1 h where
    a: "validate_start ord s v = (Inr (), v1)" "watching pool d xml_id v1"
      "pool_le (dv_pool v) (dv_pool v1)" "room_for (n + m) (dv_pool v1)" "get (dv_pool v1) (element_name s) = Some h"
      "dv_open v1 = add_child h (dv_open v) @ [\<lparr>oe_element = h, oe_children = [], oe_content = content_kind_of spec\<rparr>]"
      "verdict v v1 (start_valid pool d xml_id s) (element_ids pool d s) (element_idrefs pool d s)"
      "d_elements d h = spec"
    unfolding spec_def by blast
  from pieceD [OF assms(1) a(2,6,4)] obtain v2 hs where
    b: "each (validate_event ord) evs v1 = (Inr (), v2)" "watching pool d xml_id v2"
      "pool_le (dv_pool v1) (dv_pool v2)" "room_for m (dv_pool v2)" "list_all (knows (dv_pool v2)) hs"
      "map (named (dv_pool v2)) hs = names"
      "dv_open v2 = add_child h (dv_open v) @ [\<lparr>oe_element = h, oe_children = hs, oe_content = content_kind_of spec\<rparr>]"
      "verdict v1 v2 (fine (content_kind_of spec)) ids refs"
    by auto
  let ?v3 = "v2\<lparr>dv_open := add_child h (dv_open v)\<rparr>"
  have w3: "watching pool d xml_id ?v3" using b(2) by (simp add: watching_def)
  note c = content_verdict [OF w3 assms(2), of hs h]
  let ?v4 = "check_content h hs ?v3"
  have end_tag: "validate_end v2 = ?v4" by (simp add: validate_end_def b(7))
  have "verdict v2 ?v3 True [] []" by (rule verdict_same) simp_all
  from verdict_trans [OF this c(4)] b(5,6) a(8)
  have "verdict v2 ?v4 (\<forall>c. spec = Some c \<longrightarrow> children_valid pool c names) [] []" by simp
  from verdict_trans [OF verdict_trans [OF a(7) b(8)] this]
  have v: "verdict v ?v4 (start_valid pool d xml_id s \<and> fine (content_kind_of spec) \<and>
        (\<forall>c. spec = Some c \<longrightarrow> children_valid pool c names)) (element_ids pool d s @ ids) (element_idrefs pool d s @ refs)"
    by (simp add: conj_assoc)
  have r: "resolve (dv_pool v1) h = Some (element_name s)"
    using a(2,5) by (simp add: watching_def grown_def get_resolve_iff)
  then have h: "knows (dv_pool v2) h" "named (dv_pool v2) h = element_name s"
    using b(3) by (auto simp: knows_def named_def pool_le_def)
  show thesis
    using a b c v h w3 end_tag
    by (intro that [of ?v4 h]) (auto simp: validate_event_def each_append intro: pool_le_trans)
qed

lemma tree_piece:
  assumes "dtd_known pool d"
  shows "piece ord pool d xml_id (tree_events t) (nodes t) (child_names [t])
    (\<lambda>k. tree_valid pool d xml_id t \<and> text_allowed k t) (tree_ids pool d t) (tree_idrefs pool d t)"
proof (induction t)
  case (Node s ts)
  note content = pieces [of ts ord pool d xml_id, OF Node.IH]
  show ?case
    unfolding piece_def
  proof (intro allI impI)
    fix v os e m assume w: "watching pool d xml_id v" "dv_open v = os @ [e]" "room_for (nodes (Node s ts) + m) (dv_pool v)"
    have room: "room_for (Suc (sum_list (map nodes ts)) + m) (dv_pool v)" using w(3) by simp
    let ?spec = "spec_for pool d (element_name s)"
    let ?tag = "\<lparr>ee_prefix = se_prefix s, ee_local = se_local s, ee_namespace = se_namespace s\<rparr>"
    from element_run [OF content assms w(1) room, where s = s and x = ?tag] obtain v' h where
      a: "each (validate_event ord) (tree_events (Node s ts)) v = (Inr (), v')" "watching pool d xml_id v'"
        "pool_le (dv_pool v) (dv_pool v')" "room_for m (dv_pool v')" "knows (dv_pool v') h"
        "named (dv_pool v') h = element_name s" "dv_open v' = add_child h (dv_open v)"
        "verdict v v' (start_valid pool d xml_id s \<and>
            list_all (\<lambda>t. tree_valid pool d xml_id t \<and> text_allowed (content_kind_of ?spec) t) ts \<and>
            (\<forall>c. ?spec = Some c \<longrightarrow> children_valid pool c (child_names ts)))
           (tree_ids pool d (Node s ts)) (tree_idrefs pool d (Node s ts))"
      by auto
    have "start_valid pool d xml_id s \<and>
            list_all (\<lambda>t. tree_valid pool d xml_id t \<and> text_allowed (content_kind_of ?spec) t) ts \<and>
            (\<forall>c. ?spec = Some c \<longrightarrow> children_valid pool c (child_names ts))
        \<longleftrightarrow> tree_valid pool d xml_id (Node s ts) \<and> text_allowed (oe_content e) (Node s ts)"
      by (cases ?spec; cases "oe_content e") (auto simp: start_valid_def list_all_iff)
    then show "\<exists>v' hs. each (validate_event ord) (tree_events (Node s ts)) v = (Inr (), v') \<and> watching pool d xml_id v' \<and>
          pool_le (dv_pool v) (dv_pool v') \<and> room_for m (dv_pool v') \<and>
          list_all (knows (dv_pool v')) hs \<and> map (named (dv_pool v')) hs = child_names [Node s ts] \<and>
          dv_open v' = os @ [e\<lparr>oe_children := oe_children e @ hs\<rparr>] \<and>
          verdict v v' (tree_valid pool d xml_id (Node s ts) \<and> text_allowed (oe_content e) (Node s ts))
            (tree_ids pool d (Node s ts)) (tree_idrefs pool d (Node s ts))"
      using a w(2) by (intro exI [of _ v'] exI [of _ "[h]"]) simp
  qed
next
  case (Text t)
  show ?case
    by (auto simp: piece_def validate_event_def validate_characters_def watching_def verdict_def add_errors_def
        split: content_kind.split)
next
  case (CdataSection t)
  show ?case
    by (auto simp: piece_def validate_event_def validate_characters_def watching_def verdict_def add_errors_def
        split: content_kind.split)
next
  case (CommentNode t)
  show ?case by (auto simp: piece_def validate_event_def verdict_def)
next
  case (PiNode t)
  show ?case by (auto simp: piece_def validate_event_def verdict_def)
qed

section \<open>Declarations and documents\<close>

text \<open>An order that lists the entries of the DTD, as iterating a map does.\<close>

definition lists_entries :: "entry_order \<Rightarrow> dtd \<Rightarrow> bool" where
  "lists_entries ord d \<longleftrightarrow>
     set (eo_attlists ord d) = {(e, l). d_attlists d e = Some l} \<and>
     set (eo_elements ord d) = {(e, c). d_elements d e = Some c}"

lemma repeated_errors_iff: "repeated_errors e seen ns = [] \<longleftrightarrow> distinct ns \<and> set ns \<inter> set seen = {}"
  by (induction e seen ns rule: repeated_errors.induct) auto

lemma default_value_grown:
  assumes "grown pool q" "dtd_known pool d" "type_known pool ty"
  shows "default_value_is_valid q d ty v \<longleftrightarrow> default_value_is_valid pool d ty v"
proof -
  have "grown pool pool" using assms(1) by (simp add: grown_def)
  note here = names_unparsed_grown [OF this assms(2)] among_grown [OF this]
    and there = names_unparsed_grown [OF assms(1,2)] among_grown [OF assms(1)]
  show ?thesis using assms(3) by (cases ty) (simp_all add: here there type_known_def)
qed

lemma definition_errors_iff:
  assumes "grown pool q" "dtd_known pool d" "type_known pool (ad_type a)"
  shows "definition_errors q d e a = [] \<longleftrightarrow> definition_valid pool d a"
  using default_value_grown [OF assms]
  by (cases "ad_type a"; cases "default_value (ad_default a)")
     (auto simp: definition_errors_def definition_valid_def filter_empty_conv)

lemma declarations_verdict:
  assumes "grown pool q" "dtd_known pool d" "lists_entries ord d"
  shows "check_declarations ord q d = [] \<longleftrightarrow> declarations_valid pool d"
proof -
  have a: "attlist_errors q d e l = [] \<longleftrightarrow> list_all (definition_valid pool d) l \<and> length (filter (\<lambda>a. ad_type a = Id) l) \<le> 1"
    if "d_attlists d e = Some l" for e l
    using that assms(2) definition_errors_iff [OF assms(1,2)]
    by (auto simp: attlist_errors_def dtd_known_def list_all_iff)
  have m: "mixed_errors (e, c) = [] \<longleftrightarrow> (\<forall>ns. c = Mixed ns \<longrightarrow> distinct ns)" for e c
    by (cases c) (simp_all add: mixed_errors_def repeated_errors_iff)
  show ?thesis
    using assms(3) a m unfolding check_declarations_def declarations_valid_def lists_entries_def by auto
qed

text \<open>What the first start tag does before the checks every start tag makes.\<close>

definition prepared :: "entry_order \<Rightarrow> ustring \<Rightarrow> name_id \<Rightarrow> dtd_validator \<Rightarrow> dtd_validator" where
  "prepared ord name h v =
     add_errors (check_declarations ord (dv_pool v) (dv_dtd v) @
         (case dv_root v of None \<Rightarrow> [] | Some r \<Rightarrow> if h \<noteq> r then [RootOtherwise name r] else []))
       (v\<lparr>dv_declarations_checked := True, dv_root_seen := True\<rparr>)"

lemma start_prepared:
  "\<not> dv_declarations_checked v \<Longrightarrow> \<not> dv_root_seen v \<Longrightarrow> intern (dv_pool v) (element_name s) = Inr (h, q) \<Longrightarrow>
     validate_start ord s v = validate_start ord s (prepared ord (element_name s) h v)"
  by (cases v) (simp add: validate_start_def element_name_def [symmetric] prepared_def add_errors_def Let_def)

definition outside_root :: "event \<Rightarrow> bool" where
  "outside_root ev \<longleftrightarrow> (case ev of Comment _ \<Rightarrow> True | ProcessingInstruction _ \<Rightarrow> True | Characters _ \<Rightarrow> True | _ \<Rightarrow> False)"

lemma outside_run:
  "list_all outside_root evs \<Longrightarrow> dv_open v = [] \<Longrightarrow> each (validate_event ord) evs v = (Inr (), v)"
  by (induction evs) (auto simp: outside_root_def validate_event_def validate_characters_def split: event.splits)

lemma document_run:
  assumes "grown pool q" "dtd_known pool d" "lists_entries ord d" "\<forall>r. root = Some r \<longrightarrow> knows pool r"
    "list_all outside_root before" "list_all outside_root after" "room_for (nodes (Node s ts)) q"
  obtains v where
    "each (validate_event ord) (before @ tree_events (Node s ts) @ after @ [EndDocument])
       (with_xml_id xml_id (new_dtd_validator d q root)) = (Inr (), v)"
    "dv_errors v = [] \<longleftrightarrow> document_valid pool d (map_option (named pool) root) xml_id s ts"
proof -
  let ?v = "with_xml_id xml_id (new_dtd_validator d q root)"
  have q: "pool_wf q" "pool_le pool q" using assms(1) by (simp_all add: grown_def)
  have v: "dv_open ?v = []" "dv_pool ?v = q" "dv_dtd ?v = d" "dv_root ?v = root"
    by (simp_all add: with_xml_id_def new_dtd_validator_def)
  have "room_for (Suc (sum_list (map nodes ts))) q" using assms(7) by simp
  then obtain h q' where i: "intern q (element_name s) = Inr (h, q')" "get q' (element_name s) = Some h"
    "pool_wf q'" "pool_le q q'"
    using intern_room [OF q(1)] by blast
  let ?p = "prepared ord (element_name s) h ?v"
  have same: "validate_event ord (StartElement s) ?v = validate_event ord (StartElement s) ?p"
    unfolding validate_event_def event.case
    by (rule start_prepared) (use i(1) in \<open>simp_all add: with_xml_id_def new_dtd_validator_def\<close>)
  have p: "dv_open ?p = []" "dv_pool ?p = q" "dv_ids ?p = {}" "dv_idrefs ?p = []"
    by (simp_all add: prepared_def add_errors_def with_xml_id_def new_dtd_validator_def)
  have watch: "watching pool d xml_id ?p"
    using assms(1) by (simp add: watching_def prepared_def add_errors_def with_xml_id_def new_dtd_validator_def)
  have root_eq: "element_name s = named pool r \<longleftrightarrow> h = r" if "knows pool r" for r
    using that get_grown(3) [OF grown_further [OF assms(1) i(3,4)] i(2)]
      get_named [OF grown_further [OF assms(1) i(3,4)] that] i(2) by auto
  have "(case root of None \<Rightarrow> [] | Some r \<Rightarrow> if h \<noteq> r then [RootOtherwise (element_name s) r] else []) = [] \<longleftrightarrow>
      (\<forall>r. map_option (named pool) root = Some r \<longrightarrow> element_name s = r)"
    using root_eq assms(4) by (cases root) simp_all
  then have clean: "dv_errors ?p = [] \<longleftrightarrow> declarations_valid pool d \<and> (\<forall>r. map_option (named pool) root = Some r \<longrightarrow> element_name s = r)"
    using declarations_verdict [OF assms(1-3)]
    by (simp add: prepared_def add_errors_def with_xml_id_def new_dtd_validator_def)
  have content: "piece ord pool d xml_id (concat (map tree_events ts)) (sum_list (map nodes ts)) (child_names ts)
      (\<lambda>k. list_all (\<lambda>t. tree_valid pool d xml_id t \<and> text_allowed k t) ts)
      (concat (map (tree_ids pool d) ts)) (concat (map (tree_idrefs pool d) ts))"
    by (rule pieces) (rule tree_piece [OF assms(2)])
  have "room_for (Suc (sum_list (map nodes ts)) + 0) (dv_pool ?p)" using assms(7) p(2) by simp
  from element_run [OF content assms(2) watch this, where s = s and
      x = "\<lparr>ee_prefix = se_prefix s, ee_local = se_local s, ee_namespace = se_namespace s\<rparr>"] obtain v1 where
    r: "each (validate_event ord) (tree_events (Node s ts)) ?p = (Inr (), v1)" "dv_open v1 = []"
      "verdict ?p v1 (start_valid pool d xml_id s \<and>
          list_all (\<lambda>t. tree_valid pool d xml_id t \<and> text_allowed (content_kind_of (spec_for pool d (element_name s))) t) ts \<and>
          (\<forall>c. spec_for pool d (element_name s) = Some c \<longrightarrow> children_valid pool c (child_names ts)))
         (tree_ids pool d (Node s ts)) (tree_idrefs pool d (Node s ts))"
    using p(1) by auto
  have "each (validate_event ord) (tree_events (Node s ts)) ?v = (Inr (), v1)"
    using r(1) same by (simp add: and_then_def)
  then have run: "each (validate_event ord) (before @ tree_events (Node s ts) @ after @ [EndDocument]) ?v =
      (Inr (), validate_end_document v1)"
    using outside_run [OF assms(5) v(1), of ord] outside_run [OF assms(6) r(2), of ord]
    by (simp add: each_append validate_event_def del: tree_events.simps)
  have tree: "start_valid pool d xml_id s \<and>
          list_all (\<lambda>t. tree_valid pool d xml_id t \<and> text_allowed (content_kind_of (spec_for pool d (element_name s))) t) ts \<and>
          (\<forall>c. spec_for pool d (element_name s) = Some c \<longrightarrow> children_valid pool c (child_names ts))
        \<longleftrightarrow> tree_valid pool d xml_id (Node s ts)"
    by (cases "spec_for pool d (element_name s)") (auto simp: start_valid_def list_all_iff)
  let ?ids = "tree_ids pool d (Node s ts)" and ?refs = "tree_idrefs pool d (Node s ts)"
  have e: "dv_errors v1 = [] \<longleftrightarrow> dv_errors ?p = [] \<and> tree_valid pool d xml_id (Node s ts) \<and> distinct ?ids"
    "dv_errors v1 = [] \<Longrightarrow> dv_ids v1 = set ?ids \<and> dv_idrefs v1 = ?refs"
    using r(3) p(3,4) unfolding tree verdict_def fresh_ids_def by simp_all
  have "dv_errors (validate_end_document v1) = [] \<longleftrightarrow> dv_errors v1 = [] \<and> set (dv_idrefs v1) \<subseteq> dv_ids v1"
    by (auto simp: validate_end_document_def add_errors_def filter_empty_conv)
  also have "\<dots> \<longleftrightarrow> dv_errors v1 = [] \<and> set ?refs \<subseteq> set ?ids"
    using e(2) by (cases "dv_errors v1 = []") simp_all
  also have "\<dots> \<longleftrightarrow> document_valid pool d (map_option (named pool) root) xml_id s ts"
    unfolding e(1) clean document_valid_def by blast
  finally have "dv_errors (validate_end_document v1) = [] \<longleftrightarrow> document_valid pool d (map_option (named pool) root) xml_id s ts" .
  then show thesis using that run by blast
qed

end
