(* ===== verification/Validation_Report.thy ===== *)
theory Validation_Report
  imports Dtd_Verdict
begin

text \<open>
  The verdict of a set of validators on a document with its own DTD: the report calls the document valid exactly if
  it is valid in the sense of \<open>Dtd_Validity\<close>.
\<close>

definition give_event :: "'h consume \<Rightarrow> entry_order \<Rightarrow> event \<Rightarrow> (stop, unit, 'h validator_set \<times> nat) action" where
  "give_event con ord ev = and_then (consume_set con ord ev) (\<lambda>_. ok ())"

text \<open>A set that validates against the document's DTD and nothing else, with what it holds for the document.\<close>

definition only_dtd :: "document_dtd \<Rightarrow> 'h validator_set \<Rightarrow> bool" where
  "only_dtd dd v \<longleftrightarrow> vs_prepared v \<and> vs_max_errors v = None \<and> vs_document_dtd v = Some dd \<and>
     vs_standalone_ids v = None \<and> vs_validators v = []"

lemma give_only_dtd:
  assumes "only_dtd dd v" "ev \<noteq> StartDocument" "consume_document ord ev (dd, c) = (Inr f, (dd', c'))"
  shows "\<exists>v'. give_event con ord ev (v, c) = (Inr (), (v', c')) \<and> only_dtd dd' v'"
  using assms
  by (auto simp: give_event_def consume_set_def only_dtd_def give_document_def give_ids_def give_added_def
      count_in_set_def Let_def and_then_def)

definition within_document :: "event \<Rightarrow> bool" where
  "within_document ev \<longleftrightarrow> ev \<noteq> StartDocument \<and> (\<forall>e. ev \<noteq> Doctype e)"

lemma give_validated:
  assumes "only_dtd dd v" "dd_dtd dd = Some w" "within_document ev" "validate_event ord ev w = (Inr (), w')"
  shows "\<exists>v' dd'. give_event con ord ev (v, c) = (Inr (), (v', c)) \<and> only_dtd dd' v' \<and> dd_dtd dd' = Some w'"
proof -
  have "dd_dtd (ensure_lazy dd) = Some w" using assms(2) by (simp add: ensure_lazy_def)
  then have "consume_document ord ev (dd, c) =
      (Inr (Continue (length (dv_errors w') - length (dv_errors w))), ((ensure_lazy dd)\<lparr>dd_dtd := Some w'\<rparr>, c))"
    using assms(3,4)
    by (auto simp: consume_document_def within_document_def consume_dtd_def Let_def split: event.split)
  from give_only_dtd [OF assms(1) _ this, of con] assms(3) show ?thesis
    by (force simp: within_document_def)
qed

lemma give_all_validated:
  "only_dtd dd v \<Longrightarrow> dd_dtd dd = Some w \<Longrightarrow> list_all within_document evs \<Longrightarrow>
   each (validate_event ord) evs w = (Inr (), w') \<Longrightarrow>
   \<exists>v' dd'. each (give_event con ord) evs (v, c) = (Inr (), (v', c)) \<and> only_dtd dd' v' \<and> dd_dtd dd' = Some w'"
proof (induction evs arbitrary: v dd w)
  case (Cons ev evs)
  then obtain w1 where w1: "validate_event ord ev w = (Inr (), w1)" "each (validate_event ord) evs w1 = (Inr (), w')"
    by (auto simp: and_then_eq_Inr)
  from Cons.prems(3) have "within_document ev" "list_all within_document evs" by simp_all
  from give_validated [OF Cons.prems(1,2) this(1) w1(1), of con c] obtain v1 dd1 where
    s: "give_event con ord ev (v, c) = (Inr (), (v1, c))" "only_dtd dd1 v1" "dd_dtd dd1 = Some w1" by blast
  from Cons.IH [OF s(2,3) \<open>list_all within_document evs\<close> w1(2)] s(1) show ?case by auto
qed auto

text \<open>Before the document type declaration.\<close>

lemma give_waiting:
  "only_dtd dd v \<Longrightarrow> dd_dtd dd = None \<Longrightarrow> dd_xml_id dd = x \<Longrightarrow> list_all outside_root evs \<Longrightarrow>
   \<exists>v' dd'. each (give_event con ord) evs (v, c) = (Inr (), (v', c)) \<and> only_dtd dd' v' \<and> dd_dtd dd' = None \<and> dd_xml_id dd' = x"
proof (induction evs arbitrary: v dd)
  case (Cons ev evs)
  from Cons.prems(4) have ev: "outside_root ev" "list_all outside_root evs" by simp_all
  have "\<exists>dd1. consume_document ord ev (dd, c) = (Inr (Continue 0), (dd1, c)) \<and> dd_dtd dd1 = None \<and> dd_xml_id dd1 = x"
    using Cons.prems(2,3) ev(1)
    by (auto simp: outside_root_def consume_document_def ensure_lazy_def consume_xml_id_def Let_def
        split: event.splits option.split)
  then obtain dd1 where d: "consume_document ord ev (dd, c) = (Inr (Continue 0), (dd1, c))" "dd_dtd dd1 = None" "dd_xml_id dd1 = x"
    by blast
  have "ev \<noteq> StartDocument" using ev(1) by (auto simp: outside_root_def)
  from give_only_dtd [OF Cons.prems(1) this d(1), of con] obtain v1 where
    s: "give_event con ord ev (v, c) = (Inr (), (v1, c))" "only_dtd dd1 v1" by blast
  from Cons.IH [OF s(2) d(2,3) ev(2)] s(1) show ?case by auto
qed auto

lemma tree_events_within: "list_all within_document (tree_events t)"
  by (induction t) (auto simp: within_document_def list_all_iff)

lemma outside_within: "list_all outside_root evs \<Longrightarrow> list_all within_document evs"
  by (auto simp: list_all_iff within_document_def outside_root_def)

text \<open>From the start of the document to the end of its document type declaration.\<close>

lemma give_doctype:
  assumes "pool_wf (de_pool e)" "de_name e = Some n" "get (de_pool e) n = Some root" "list_all outside_root before"
  obtains v c' q dd where
    "each (give_event con ord) (StartDocument # before @ [Doctype e])
       (checking_xml_id xml_id (validating_dtd True (new_validator_set :: 'h validator_set)), c) = (Inr (), (v, c'))"
    "only_dtd dd v" "dd_dtd dd = Some (with_xml_id xml_id (new_dtd_validator (de_dtd e) q (Some root)))"
    "grown (de_pool e) q" "p_names q = p_names (de_pool e)"
proof -
  let ?set = "checking_xml_id xml_id (validating_dtd True new_validator_set) :: 'h validator_set"
  let ?dd = "document_checking_xml_id xml_id new_document_dtd"
  have "consume_document ord StartDocument (?dd, c) = (Inr (Continue 0), (ensure_lazy ?dd, c))"
    by (auto simp: consume_document_def consume_xml_id_def ensure_lazy_def document_checking_xml_id_def
        new_document_dtd_def Let_def)
  then obtain v1 where v1: "give_event con ord StartDocument (?set, c) = (Inr (), (v1, c))" "only_dtd (ensure_lazy ?dd) v1"
    by (auto simp: give_event_def consume_set_def only_dtd_def give_document_def give_ids_def give_added_def
        count_in_set_def Let_def and_then_def set_start_document_def checking_xml_id_def validating_dtd_def new_validator_set_def)
  have "dd_dtd (ensure_lazy ?dd) = None" "dd_xml_id (ensure_lazy ?dd) = xml_id"
    by (simp_all add: ensure_lazy_def document_checking_xml_id_def new_document_dtd_def)
  from give_waiting [OF v1(2) this assms(4), of con ord c] obtain v2 dd2 where
    v2: "each (give_event con ord) before (v1, c) = (Inr (), (v2, c))" "only_dtd dd2 v2" "dd_dtd dd2 = None" "dd_xml_id dd2 = xml_id"
    by blast
  from fork_pool_total [OF assms(1), of c] obtain q c1 where
    q: "fork_pool (de_pool e) c = Some (q, c1)" "pool_wf q" "pool_le (de_pool e) q" by (auto simp: pool_le_def)
  have names: "p_names q = p_names (de_pool e)" using q(1) by (auto simp: fork_pool_def Let_def split: if_splits prod.splits)
  let ?w = "with_xml_id xml_id (new_dtd_validator (de_dtd e) q (Some root))"
  have "consume_document ord (Doctype e) (dd2, c) = (Inr (Continue 0), (dd2\<lparr>dd_dtd := Some ?w\<rparr>, c1))"
    using assms(2,3) q(1) v2(4) by (simp add: consume_document_def document_doctype_def and_then_def)
  from give_only_dtd [OF v2(2) _ this, of con] obtain v3 where
    v3: "give_event con ord (Doctype e) (v2, c) = (Inr (), (v3, c1))" "only_dtd (dd2\<lparr>dd_dtd := Some ?w\<rparr>) v3" by auto
  show thesis
    using v1(1) v2(1) v3 q assms(1) names
    by (intro that [of v3 c1 "dd2\<lparr>dd_dtd := Some ?w\<rparr>" q]) (simp_all add: each_append grown_def)
qed

text \<open>
  C3. A set of validators asked to validate against the document's own DTD, given the events of a document with a
  document type declaration, stops nowhere, and its report calls the document valid exactly if the declarations of the
  DTD obey their constraints, the root is the declared one, every element is declared with the content, the
  attributes and the values its declarations allow, the IDs (with \<open>xml:id\<close>, if asked for) are distinct and every
  reference names one of them. The spaces that separate the words of a value are those of Unicode, and an \<open>ENTITY\<close>
  value is read as a list, as the code has it.
\<close>

theorem report_is_valid_iff:
  assumes "pool_wf (de_pool e)" "dtd_known (de_pool e) (de_dtd e)" "lists_entries ord (de_dtd e)"
    "de_name e = Some n" "get (de_pool e) n \<noteq> None"
    "list_all outside_root before" "list_all outside_root between" "list_all outside_root after"
    "room_for (nodes (Node s ts)) (de_pool e)"
  shows "\<exists>v c'. each (give_event con ord)
        (StartDocument # before @ Doctype e # between @ tree_events (Node s ts) @ after @ [EndDocument])
        (checking_xml_id xml_id (validating_dtd True new_validator_set), c) = (Inr (), (v, c')) \<and>
     (is_valid (set_report errors (finish_set fin Completed v)) \<longleftrightarrow>
        document_valid (de_pool e) (de_dtd e) (Some n) xml_id s ts)"
proof -
  obtain root where root: "get (de_pool e) n = Some root" using assms(5) by blast
  from give_doctype [OF assms(1,4) root assms(6)] obtain v c' q dd where
    start: "each (give_event con ord) (StartDocument # before @ [Doctype e])
        (checking_xml_id xml_id (validating_dtd True new_validator_set), c) = (Inr (), (v, c'))"
      "only_dtd dd v" "dd_dtd dd = Some (with_xml_id xml_id (new_dtd_validator (de_dtd e) q (Some root)))"
      "grown (de_pool e) q" "p_names q = p_names (de_pool e)" .
  let ?w = "with_xml_id xml_id (new_dtd_validator (de_dtd e) q (Some root))"
    and ?rest = "between @ tree_events (Node s ts) @ after @ [EndDocument]"
  have known: "knows (de_pool e) root" "named (de_pool e) root = n"
    using root assms(1) by (simp_all add: get_resolve_iff knows_def named_def)
  have "room_for (nodes (Node s ts)) q" using assms(9) start(5) by (simp add: room_for_def)
  then obtain w' where w': "each (validate_event ord) ?rest ?w = (Inr (), w')"
    "dv_errors w' = [] \<longleftrightarrow> document_valid (de_pool e) (de_dtd e) (Some n) xml_id s ts"
    using document_run [of "de_pool e" q "de_dtd e" ord "Some root" between after s ts xml_id]
      start(4) assms(2,3,7,8) known by auto
  have "list_all within_document ?rest"
    using outside_within assms(7,8) tree_events_within by (simp add: within_document_def del: tree_events.simps)
  from give_all_validated [OF start(2,3) this w'(1), of con c'] obtain v' dd' where
    v': "each (give_event con ord) ?rest (v, c') = (Inr (), (v', c'))" "only_dtd dd' v'" "dd_dtd dd' = Some w'" by auto
  have "is_valid (set_report errors (finish_set fin Completed v')) \<longleftrightarrow> dv_errors w' = []"
    using v'(2,3) by (simp add: only_dtd_def is_valid_def set_report_def finish_set_def gathered_errors_def
        document_errors_def document_had_dtd_def)
  moreover have "each (give_event con ord) (StartDocument # before @ Doctype e # ?rest)
      (checking_xml_id xml_id (validating_dtd True new_validator_set), c) = (Inr (), (v', c'))"
    using each_append_Inr [of "give_event con ord" "StartDocument # before @ [Doctype e]" ?rest] start(1) v'(1)
    by (auto simp del: tree_events.simps each.simps)
  ultimately show ?thesis using w'(2) by blast
qed

definition sample_schema :: dtd where
  "sample_schema = empty_dtd\<lparr>d_elements := [NameId 2 1 \<mapsto> CEmpty]\<rparr>"

definition sample_doctype :: doctype_event where
  "sample_doctype = \<lparr>de_name = Some (lit ''a''), de_public_id = None, de_system_id = None, de_dtd = sample_schema,
     de_pool = sample_names\<rparr>"

definition sample_order :: entry_order where
  "sample_order = \<lparr>eo_attlists = (\<lambda>d. []), eo_elements = (\<lambda>d. [(NameId 2 1, CEmpty)])\<rparr>"

definition sample_root :: start_element_event where
  "sample_root = \<lparr>se_prefix = None, se_local = lit ''a'', se_namespace = None, se_attributes = [],
     se_xml_space = XmlSpaceDefault, se_xml_lang = None, se_base_uri = None\<rparr>"

text \<open>With the declaration of \<open>a\<close> as empty, \<open><a/>\<close> is valid and \<open><a>a</a>\<close> is not.\<close>

lemma sample_valid:
  "document_valid sample_names sample_schema (Some (lit ''a'')) False sample_root []"
  "\<not> document_valid sample_names sample_schema (Some (lit ''a'')) False sample_root [Text (lit ''a'')]"
proof -
  have spec: "spec_for sample_names sample_schema (lit ''a'') = Some CEmpty" "defs_for sample_names sample_schema (lit ''a'') = []"
    using sample_names_known(2) by (simp_all add: spec_for_def defs_for_def sample_schema_def empty_dtd_def)
  have name: "element_name sample_root = lit ''a''" by (simp add: element_name_def sample_root_def)
  have decls: "declarations_valid sample_names sample_schema"
    by (auto simp: declarations_valid_def sample_schema_def empty_dtd_def split: if_splits)
  show "document_valid sample_names sample_schema (Some (lit ''a'')) False sample_root []"
    unfolding document_valid_def tree_valid.simps start_valid_def name spec
    by (simp add: decls element_ids_def element_idrefs_def required_present_def sample_root_def)
  show "\<not> document_valid sample_names sample_schema (Some (lit ''a'')) False sample_root [Text (lit ''a'')]"
    unfolding document_valid_def tree_valid.simps name spec by simp
qed

theorem report_is_valid_iff_witness:
  "\<exists>v c'. each (give_event (\<lambda>ev (h::unit). (Inr (Continue 0), h)) sample_order)
        (StartDocument # [] @ Doctype sample_doctype # [] @ tree_events (Node sample_root []) @ [] @ [EndDocument])
        (checking_xml_id False (validating_dtd True new_validator_set), 3) = (Inr (), (v, c')) \<and>
     is_valid (set_report (\<lambda>h. []) (finish_set (\<lambda>r h. h) Completed v))"
proof -
  have e: "de_pool sample_doctype = sample_names" "de_dtd sample_doctype = sample_schema" "de_name sample_doctype = Some (lit ''a'')"
    by (simp_all add: sample_doctype_def)
  have "dtd_known sample_names sample_schema"
    using sample_names_known(3) by (auto simp: dtd_known_def sample_schema_def empty_dtd_def spec_known_def split: if_splits)
  moreover have "lists_entries sample_order sample_schema"
    by (auto simp: lists_entries_def sample_order_def sample_schema_def empty_dtd_def split: if_splits)
  moreover have "room_for (nodes (Node sample_root [])) sample_names"
    by (simp add: room_for_def sample_names_def u32_max_def)
  ultimately have "\<exists>v c'. each (give_event (\<lambda>ev (h::unit). (Inr (Continue 0), h)) sample_order)
        (StartDocument # [] @ Doctype sample_doctype # [] @ tree_events (Node sample_root []) @ [] @ [EndDocument])
        (checking_xml_id False (validating_dtd True new_validator_set), 3) = (Inr (), (v, c')) \<and>
     (is_valid (set_report (\<lambda>h. []) (finish_set (\<lambda>r h. h) Completed v)) \<longleftrightarrow>
        document_valid (de_pool sample_doctype) (de_dtd sample_doctype) (Some (lit ''a'')) False sample_root [])"
    using sample_names_known(1,2) e by (intro report_is_valid_iff) simp_all
  then show ?thesis unfolding e using sample_valid(1) by simp
qed

section \<open>Where the validators depart from XML 1.0 or from their comments\<close>

text \<open>An \<open>ENTITY\<close> value may be empty, or any number of names; XML has one name.\<close>

lemma empty_entity_value: "check_attribute_value name Entity [] v = v"
  by (simp add: split_whitespace_def words_by_def add_errors_def)

lemma several_entities:
  assumes "names_unparsed (dv_pool v) (dv_dtd v) (lit ''a'')"
  shows "check_attribute_value name Entity (lit ''a a'') v = v"
proof -
  have "split_whitespace (lit ''a a'') = [lit ''a'', lit ''a'']"
    by (simp add: split_whitespace_def words_by_def white_space_def)
  then show ?thesis using assms by (simp add: add_errors_def)
qed

text \<open>A no-break space separates names, which is no white space in XML.\<close>

lemma no_break_space_separates:
  "check_attribute_value name IdRefs (lit ''a'' @ 0xA0 # lit ''b'') v = record_idrefs [lit ''a'', lit ''b''] v"
proof -
  have "split_whitespace (lit ''a'' @ 0xA0 # lit ''b'') = [lit ''a'', lit ''b'']"
    by (simp add: split_whitespace_def words_by_def white_space_def)
  then show ?thesis by (simp add: add_errors_def is_name_start_char_def record_idrefs_def)
qed

text \<open>An empty default of a list type passes as a declaration, and is reported where it is used.\<close>

lemma empty_default_passes:
  "default_value_is_valid pool d Nmtokens []" "default_value_is_valid pool d IdRefs []"
  "dv_errors (check_attribute_value name Nmtokens [] v) \<noteq> []" "dv_errors (check_attribute_value name IdRefs [] v) \<noteq> []"
  by (simp_all add: split_whitespace_def words_by_def add_errors_def)

text \<open>A validator of a schema keeps the errors, the IDs and the open elements of one document into the next.\<close>

lemma start_document_keeps: "consume_dtd ord StartDocument v = (Inr (Continue 0), v)"
  by (simp add: consume_dtd_def validate_event_def)

text \<open>The check of \<open>xml:id\<close> for documents without a DTD is made at the start of every document.\<close>

lemma lazy_at_start:
  "dd_ids (fst (snd (consume_document ord StartDocument (document_checking_xml_id True new_document_dtd, c)))) \<noteq> None"
  by (simp add: consume_document_def ensure_lazy_def document_checking_xml_id_def new_document_dtd_def consume_xml_id_def Let_def)

text \<open>A set that validates against the document's DTD counts as empty.\<close>

lemma validating_set_is_empty: "set_is_empty (validating_dtd True new_validator_set)"
  by (simp add: set_is_empty_def validating_dtd_def new_validator_set_def)

end
