(* ===== verification/Spec2Isabelle.thy ===== *)
theory Spec2Isabelle
  imports Encodings Content_Model Relativize Config Scan Dom_Props Writer_Scan Pipeline Start_Tag Parser_Dtd Dtd_Findings Validation_Report
begin

text \<open>
  A verification development for the core crate of xenolith, an XML toolkit in Rust. All paths below are under
  \<open>crates/xenolith/src\<close>.

  \<^bold>\<open>The program.\<close> Bytes of an entity enter a \<open>CharStream\<close> (\<open>io/stream.rs\<close>), which detects the encoding
  (\<open>io/encoding/detect.rs\<close>), decodes (\<open>io/encoding\<close>), folds line ends and checks the characters (\<open>chars.rs\<close>). A stack of
  entities (\<open>io/parse/entity.rs\<close>) holds one stream per open entity. The parser core (\<open>io/parse.rs\<close>) asks the scanner
  (\<open>io/parse/scan.rs\<close>) for one token after another, interprets it, and tells its driver what it needs (input, an
  entity, a parameter entity of the DTD) or that an event is ready. A DTD is collected and read by \<open>dtd/read\<close> into the
  tables of \<open>dtd/model.rs\<close>; names of elements and attributes are interned in pools (\<open>name.rs\<close>). Events (\<open>event.rs\<close>,
  \<open>attr.rs\<close>) go through a dispatcher to consumers: the event validator (\<open>event/strict.rs\<close>), validators of schemas
  (\<open>dtd/validate\<close>), the DOM (\<open>dom\<close>) or the writer (\<open>io/write\<close>), which escapes and encodes them into bytes again. The
  writer source (\<open>io/write/source.rs\<close>) turns calls of an application into events.

  \<^bold>\<open>Conventions.\<close> Characters are code points (\<open>uchar\<close>), texts are lists of them and bytes are 8-bit words. A Rust
  offset into a text is a number of characters here where the code only cuts the text there, and a number of bytes
  (\<open>byte_len\<close>) where the code compares it with a limit or reports it. A method that takes \<open>&mut self\<close> is a function
  from the state to a result and the next state (\<open>Effects\<close>: \<open>and_then\<close>, \<open>reading\<close>, \<open>modify\<close>, \<open>fail\<close>, \<open>ok\<close>); a result is
  \<open>Inl\<close> of an error or \<open>Inr\<close> of a value. Errors are their variants, without messages. A panic (\<open>unwrap\<close>, \<open>expect\<close>,
  indexing, a full arena) is a value of its own (\<open>None\<close>, \<open>Panic\<close>, \<open>Crash\<close>), so its absence is a theorem and not an
  assumption. \<open>does f p R Q\<close> says that \<open>f\<close> run in \<open>p\<close> either fails with \<open>R\<close> or succeeds with \<open>Q\<close>; \<open>Contracts\<close> holds the
  rules that such statements share, as a locale which the DTD reader interprets twice.

  \<^bold>\<open>Theories by component.\<close>

  \<^item> Shared: \<open>Prelude\<close> (texts, searching, cutting, options), \<open>Effects\<close>, \<open>Contracts\<close>.
  \<^item> Characters and names: \<open>Chars\<close> for \<open>chars.rs\<close>; \<open>Names\<close> for \<open>name.rs\<close>, with the reachable families of pools as an
    inductive relation and the theorem that a handle means one name; \<open>Pool_Growth\<close>, what stays known while pools grow.
  \<^item> Encodings: \<open>Utf8\<close> (the UTF-8 of Rust's library), \<open>Decoders\<close> and \<open>Encodings\<close> for \<open>io/encoding.rs\<close>, \<open>builtin.rs\<close> and
    \<open>encoder.rs\<close>; \<open>Detect\<close> for \<open>detect.rs\<close>; \<open>Decl\<close> for \<open>io/decl.rs\<close>; \<open>Char_Stream\<close> for \<open>io/stream.rs\<close>.
  \<^item> URIs: \<open>Uri\<close> for \<open>uri.rs\<close>; \<open>Relativize\<close>, when \<open>relativize\<close> gives a relative form and that it resolves back.
  \<^item> Parser: \<open>Config\<close> for \<open>io/parse/config.rs\<close>; \<open>Scan\<close> for \<open>scan.rs\<close>; \<open>Entity_Stack\<close> for \<open>entity.rs\<close> and \<open>io/resolve.rs\<close>;
    \<open>Parser_State\<close>, \<open>Parser_Tags\<close> and \<open>Parser\<close> for \<open>io/parse.rs\<close>, \<open>io/parse/namespace.rs\<close> and the event of a token in
    \<open>io/read.rs\<close>. \<open>Parser_Calm\<close>, \<open>Tag_Steps\<close>, \<open>Tag_Names\<close> and \<open>Start_Tag\<close> show that a start tag never panics and that
    the event of the element it opens satisfies the event grammar.
  \<^item> DTD: \<open>Dtd_Model\<close> for \<open>dtd/model.rs\<close>; \<open>Dtd_Layout\<close>, \<open>Dtd_Read\<close> and \<open>Dtd_Declarations\<close> for \<open>dtd/read.rs\<close>;
    \<open>Dtd_Assembly\<close> for \<open>dtd/read/assemble.rs\<close>; \<open>Parser_Dtd\<close> for \<open>dtd/read/reader.rs\<close> and for the assembly as the parser
    uses it. \<open>Dtd_Invariant\<close> shows what every pass keeps, \<open>Dtd_Returns\<close> that a pass ends, \<open>Dtd_Text\<close> and \<open>Dtd_Printing\<close>
    that written declarations are read back, \<open>Dtd_Findings\<close> where the reader departs from XML 1.0. \<open>Content_Model\<close> for
    \<open>dtd/validate/content.rs\<close> shows that the compiled automaton is the regular language of the model.
  \<^item> Validation: \<open>Validity\<close> for the errors and the \<open>xml:id\<close> check of \<open>event/validate.rs\<close> and \<open>event/validate/ids.rs\<close>;
    \<open>Dtd_Validator\<close> for \<open>dtd/validate.rs\<close>; \<open>Validator_Set\<close> for \<open>dtd/validate/document.rs\<close> and \<open>ValidatorSet\<close>.
    \<open>Dtd_Validity\<close> says when a tree is valid, in terms of names and languages; \<open>Dtd_Verdict\<close> follows the validator
    through the events of a tree and \<open>Validation_Report\<close> concludes for the report of a set of validators.
  \<^item> Events: \<open>Events\<close> for \<open>event.rs\<close> and \<open>attr.rs\<close>; \<open>Strict\<close> for \<open>event/strict.rs\<close> and \<open>Strict_Grammar\<close>, its grammar.
  \<^item> Output: \<open>Escape\<close> for \<open>io/write/escape.rs\<close> and \<open>line_break.rs\<close>; \<open>Writer\<close> and \<open>Writer_Output\<close> for \<open>io/write/writer.rs\<close>;
    \<open>Writer_Scan\<close>, the markup of the writer as tokens of the scanner; \<open>Source\<close> for \<open>io/write/source.rs\<close>; \<open>Pipeline\<close>,
    source, dispatcher, validator and writer together.
  \<^item> DOM: \<open>Links\<close>, ordered forests held by links; \<open>Dom_Document\<close>, \<open>Dom_Insert\<close>, \<open>Dom_Attr\<close> and \<open>Dom_Api\<close> for
    \<open>dom/node.rs\<close>, \<open>dom/document.rs\<close>, \<open>dom/collection.rs\<close> and \<open>dom/exception.rs\<close>; \<open>Dom_Walk\<close> for \<open>dom/walk.rs\<close>;
    \<open>Dom_Tree\<close>, \<open>Dom_Inv\<close>, \<open>Dom_Attr_Ops\<close> and \<open>Dom_Props\<close> hold the abstraction to lists of children, the invariant
    \<open>doc_wf\<close> and the theorems.

  \<^bold>\<open>Interfaces.\<close> Name pools, ordered forests and contracts of methods are locales, interpreted on the model's own
  definitions. Arguments of the definitions stand for code outside the repository or supplied by the application:
  further decoders and encoders (\<open>backend\<close>, \<open>sink\<close>), the resolver of entities, an application's consumers
  (\<open>handler\<close>). The operations of the DTD assembly are an argument of the parser (\<open>env_dtd\<close>), supplied by
  \<open>dtd_operations\<close>.

  \<^bold>\<open>Bounds and fuel.\<close> The loop of \<open>advance\<close> is a \<open>partial_function\<close>, since a driver may feed it for ever. The expansion of
  entities in attribute values has \<open>env_nesting\<close> levels of recursion, and running out is a result of its own
  (\<open>NestedTooDeep\<close>). The loops of the DTD reader take a number of turns (\<open>OutOfTurns\<close> when they run out), because the
  expansion of parameter entities need not end (\<open>Dtd_Findings\<close>); for text without references two turns more than the
  text has characters are enough (\<open>Dtd_Returns\<close>). The loops of the DOM that follow links take the size of the arena,
  which is enough on every well-formed document (\<open>Dom_Props\<close>). The limits of the code (tokens, entities, depth of
  content models, names of a pool, nodes of a document) are the numbers of the source.

  \<^bold>\<open>Not modelled.\<close> XPath, XPointer, XInclude, XSLT and the command line, which are built on top of this core; the loops of
  \<open>io/read.rs\<close> that pull bytes from an input, which repeat the calls modelled here around I/O; the wrapper of the
  third-party crate \<open>encoding_rs\<close>; the building of a document from events and its reading back (\<open>dom/build.rs\<close>,
  \<open>dom/source.rs\<close>), and the importing and cloning of nodes; renderings for \<open>Display\<close> and \<open>Debug\<close>; messages, and the locations attached to errors.
\<close>

end
